(* ===== verification/Prelude.thy ===== *)
theory Prelude
  imports Main "HOL-Library.Word"
begin

unbundle bit_operations_syntax

section \<open>Shared vocabulary: C integers, outcomes of a C function, little-endian bytes\<close>

text \<open>
  The names every other theory uses: the C integer types of the 64-bit little-endian targets the
  application is built for, the type of what a C function with a status result does
  (\<open>outcome\<close>), and the generic lemmas on words, bytes and lists.
\<close>

named_theorems outcome_simps "rewrite rules for sequencing outcomes"
named_theorems wire_bits "bit-level facts about seven- and eight-bit groups"

type_synonym byte = "8 word"
type_synonym u16 = "16 word"
type_synonym u32 = "32 word"
type_synonym u64 = "64 word"
type_synonym addr = "64 word"

subsection \<open>What a C function does\<close>

text \<open>
  A function of the library returns \<open>true\<close> (\<open>Ok\<close>, with the values of its out-parameters),
  returns \<open>false\<close> (\<open>Fail\<close>), performs an operation that has no defined behaviour in C
  (\<open>Fault\<close>: an access outside every object, a shift by the width of the type), or exhausts
  the fuel the model was given (\<open>Loop\<close>). Whatever it wrote before it returned \<open>false\<close>
  stays written, so \<open>Fail\<close> carries the state too.
\<close>

datatype ('a, 's) outcome = Ok 'a 's | Fail 's | Fault | Loop

fun andthen :: "('a, 's) outcome \<Rightarrow> ('a \<Rightarrow> 's \<Rightarrow> ('b, 's) outcome) \<Rightarrow> ('b, 's) outcome" where
  "andthen (Ok a s) f = f a s"
| "andthen (Fail s) f = Fail s"
| "andthen Fault f = Fault"
| "andthen Loop f = Loop"

declare andthen.simps [outcome_simps]

lemma andthen_cong [fundef_cong]:
  "m = m' \<Longrightarrow> (\<And>a s. m' = Ok a s \<Longrightarrow> f a s = g a s) \<Longrightarrow> andthen m f = andthen m' g"
  by (cases m') auto

lemma andthen_eq_Ok [outcome_simps]:
  "andthen m f = Ok b t \<longleftrightarrow> (\<exists>a s. m = Ok a s \<and> f a s = Ok b t)"
  by (cases m) auto

lemma andthen_eq_Fail:
  "andthen m f = Fail t \<longleftrightarrow> m = Fail t \<or> (\<exists>a s. m = Ok a s \<and> f a s = Fail t)"
  by (cases m) auto

lemma andthen_eq_Fault:
  "andthen m f = Fault \<longleftrightarrow> m = Fault \<or> (\<exists>a s. m = Ok a s \<and> f a s = Fault)"
  by (cases m) auto

lemma andthen_eq_Loop:
  "andthen m f = Loop \<longleftrightarrow> m = Loop \<or> (\<exists>a s. m = Ok a s \<and> f a s = Loop)"
  by (cases m) auto

lemma andthen_assoc: "andthen (andthen m f) g = andthen m (\<lambda>a s. andthen (f a s) g)"
  by (cases m) auto

text \<open>
  A postcondition of an outcome: \<open>okay P Q m\<close> holds when \<open>m\<close> neither faults nor runs out of
  fuel, a \<open>true\<close> result satisfies \<open>P\<close> and the state of a \<open>false\<close> result satisfies \<open>Q\<close>.
\<close>

fun okay :: "('a \<Rightarrow> 's \<Rightarrow> bool) \<Rightarrow> ('s \<Rightarrow> bool) \<Rightarrow> ('a, 's) outcome \<Rightarrow> bool" where
  "okay P Q (Ok a s) = P a s"
| "okay P Q (Fail s) = Q s"
| "okay P Q Fault = False"
| "okay P Q Loop = False"

lemma okay_andthen:
  "okay P Q m \<Longrightarrow> (\<And>a s. m = Ok a s \<Longrightarrow> P a s \<Longrightarrow> okay P' Q (f a s)) \<Longrightarrow> okay P' Q (andthen m f)"
  by (cases m) auto

lemma okay_mono:
  "okay P Q m \<Longrightarrow> (\<And>a s. m = Ok a s \<Longrightarrow> P a s \<Longrightarrow> P' a s) \<Longrightarrow> (\<And>s. Q s \<Longrightarrow> Q' s) \<Longrightarrow> okay P' Q' m"
  by (cases m) auto

lemma okay_no_fault: "okay P Q m \<Longrightarrow> m \<noteq> Fault \<and> m \<noteq> Loop"
  by (cases m) auto

lemma okay_conj:
  "okay P Q m \<Longrightarrow> okay P' Q' m \<Longrightarrow> okay (\<lambda>a s. P a s \<and> P' a s) (\<lambda>s. Q s \<and> Q' s) m"
  by (cases m) auto

text \<open>The weaker reading, where faults and exhausted fuel are not excluded.\<close>

fun partly :: "('a \<Rightarrow> 's \<Rightarrow> bool) \<Rightarrow> ('s \<Rightarrow> bool) \<Rightarrow> ('a, 's) outcome \<Rightarrow> bool" where
  "partly P Q (Ok a s) = P a s"
| "partly P Q (Fail s) = Q s"
| "partly P Q Fault = True"
| "partly P Q Loop = True"

lemma partly_andthen:
  "partly P Q m \<Longrightarrow> (\<And>a s. m = Ok a s \<Longrightarrow> P a s \<Longrightarrow> partly P' Q (f a s)) \<Longrightarrow>
    partly P' Q (andthen m f)"
  by (cases m) auto

lemma partly_mono:
  "partly P Q m \<Longrightarrow> (\<And>a s. m = Ok a s \<Longrightarrow> P a s \<Longrightarrow> P' a s) \<Longrightarrow> (\<And>s. Q s \<Longrightarrow> Q' s) \<Longrightarrow> partly P' Q' m"
  by (cases m) auto

lemma okay_partly: "okay P Q m \<Longrightarrow> partly P Q m"
  by (cases m) auto

subsection \<open>Bits\<close>

lemma and_7F [wire_bits]: "w AND 0x7F = take_bit 7 (w :: 'a::len word)"
  by (simp add: take_bit_eq_mask mask_eq_exp_minus_1)

lemma and_80_eq_0: "(w :: byte) AND 0x80 = 0 \<longleftrightarrow> \<not> bit w 7"
proof -
  have eq: "(0x80 :: byte) = 2 ^ 7" by simp
  show ?thesis unfolding eq by (rule and_exp_eq_0_iff_not_bit)
qed

lemma bit_80 [wire_bits]: "bit (0x80 :: 'a::len word) n \<longleftrightarrow> n = 7 \<and> 7 < LENGTH('a)"
proof -
  have eq: "(0x80 :: 'a word) = 2 ^ 7" by simp
  show ?thesis unfolding eq bit_exp_iff possible_bit_word by auto
qed

lemma bit_80_int [wire_bits]: "bit (0x80 :: int) n \<longleftrightarrow> n = 7"
proof -
  have eq: "(0x80 :: int) = 2 ^ 7" by simp
  show ?thesis unfolding eq bit_exp_iff possible_bit_def by auto
qed

lemma push_take_drop_7 [wire_bits]:
  "push_bit k (take_bit 7 v) OR push_bit (k + 7) (drop_bit 7 v) = push_bit k (v :: 'a::len word)"
proof (rule bit_word_eqI)
  fix n assume "n < LENGTH('a)"
  then show "bit (push_bit k (take_bit 7 v) OR push_bit (k + 7) (drop_bit 7 v)) n = bit (push_bit k v) n"
    by (cases "k + 7 \<le> n") (auto simp: bit_simps)
qed

lemma ucast_take_bit_7 [wire_bits]:
  "ucast (ucast (take_bit 7 v OR 0x80 :: u64) AND 0x7F :: byte) = (take_bit 7 v :: u64)"
  by (rule bit_word_eqI) (auto simp: bit_simps wire_bits)

lemma unat_lt_128: "unat (v :: 'a::len word) < 128 \<longleftrightarrow> v < 0x80" if "7 < LENGTH('a)"
proof -
  have "(2::nat) ^ 7 < 2 ^ LENGTH('a)" using that by (rule power_strict_increasing) simp
  then have "unat (0x80 :: 'a word) = 128" by (simp add: take_bit_eq_mod)
  then show ?thesis by (simp add: word_less_nat_alt)
qed

lemma unat_plus_if_no_wrap: "unat a + unat b < 2 ^ LENGTH('a) \<Longrightarrow> unat (a + b) = unat a + unat b"
  for a b :: "'a::len word"
  by (rule unat_add_lem [THEN iffD1])

lemma unat_succ: "a < b \<Longrightarrow> unat (a + 1) = Suc (unat a)" for a b :: "'a::len word"
  using unsigned_less [of b] by unat_arith

lemma unat_ucast_64 [simp]: "unat (ucast (w :: u32) :: u64) = unat w"
  using unsigned_less [of w, where ?'a = nat]
  by (simp add: unsigned_ucast_eq take_bit_nat_eq_self)

lemma unat_of_nat_id: "n < 2 ^ LENGTH('a) \<Longrightarrow> unat (of_nat n :: 'a::len word) = n"
  by (simp add: unat_of_nat)

lemma of_nat_le_word: "n \<le> unat (w :: 'a::len word) \<Longrightarrow> of_nat n \<le> w"
  by (simp add: word_le_nat_alt le_unat_uoi)

lemma unat_sub_of_nat:
  "n \<le> unat (w :: 'a::len word) \<Longrightarrow> unat (w - of_nat n) = unat w - n"
  by (simp add: unat_sub of_nat_le_word le_unat_uoi)

lemma le_unat_less: "n \<le> unat (w :: 'a::len word) \<Longrightarrow> n < 2 ^ LENGTH('a)"
  by (rule le_less_trans [OF _ unsigned_less])

lemma unat_drop_bit_7: "unat (drop_bit 7 v :: 'a::len word) = unat v div 128"
proof -
  have "unat (drop_bit 7 v) = drop_bit 7 (unat v)" by (rule unat_drop_bit_eq)
  then show ?thesis by (simp add: drop_bit_eq_div)
qed

lemma unat_bitpos_add_7: "bp < 64 \<Longrightarrow> unat (bp + 7 :: byte) = unat bp + 7"
proof -
  assume "bp < 64"
  then have "unat bp < 64" by (simp add: word_less_nat_alt)
  then show ?thesis by (subst unat_plus_if_no_wrap) auto
qed

subsection \<open>Little-endian bytes\<close>

text \<open>The bytes of an integer in memory order on a little-endian machine, and back.\<close>

primrec le_word :: "byte list \<Rightarrow> 'a::len word" where
  "le_word [] = 0"
| "le_word (b # bs) = ucast b OR push_bit 8 (le_word bs)"

primrec le_bytes :: "nat \<Rightarrow> 'a::len word \<Rightarrow> byte list" where
  "le_bytes 0 v = []"
| "le_bytes (Suc n) v = ucast v # le_bytes n (drop_bit 8 v)"

lemma length_le_bytes [simp]: "length (le_bytes n v) = n"
  by (induction n arbitrary: v) auto

lemma le_word_le_bytes: "le_word (le_bytes n v) = take_bit (8 * n) v"
proof (induction n arbitrary: v)
  case 0
  show ?case by simp
next
  case (Suc n)
  show ?case
  proof (rule bit_word_eqI)
    fix i assume "i < LENGTH('a)"
    then show "bit (le_word (le_bytes (Suc n) v) :: 'a word) i = bit (take_bit (8 * Suc n) v) i"
      by (cases "8 \<le> i") (auto simp: Suc bit_simps)
  qed
qed

lemma le_word_le_bytes_full [simp]:
  "LENGTH('a) \<le> 8 * n \<Longrightarrow> le_word (le_bytes n v) = (v :: 'a::len word)"
  by (simp add: le_word_le_bytes take_bit_word_eq_self)

lemma le_word_bound: "\<not> bit (le_word bs :: 'a::len word) i" if "8 * length bs \<le> i"
  using that
proof (induction bs arbitrary: i)
  case (Cons b bs)
  then have "8 \<le> i" "8 * length bs \<le> i - 8" by simp_all
  moreover have "\<not> bit b i" using \<open>8 \<le> i\<close> by (auto dest: bit_imp_le_length)
  ultimately show ?case using Cons.IH [of "i - 8"] by (auto simp: bit_simps)
qed simp

lemma le_bytes_le_word:
  "length bs = n \<Longrightarrow> 8 * n \<le> LENGTH('a) \<Longrightarrow> le_bytes n (le_word bs :: 'a::len word) = bs"
proof (induction bs arbitrary: n)
  case (Cons b bs)
  obtain m where n: "n = Suc m" "length bs = m" using Cons.prems(1) by auto
  let ?w = "le_word bs :: 'a word"
  have "ucast (ucast b OR push_bit 8 ?w) = b"
    by (rule bit_word_eqI) (use Cons.prems n in \<open>auto simp: bit_simps\<close>)
  moreover have "drop_bit 8 (ucast b OR push_bit 8 ?w) = ?w"
  proof (rule bit_word_eqI)
    fix i assume i: "i < LENGTH('a)"
    have "\<not> bit b (8 + i)" by (auto dest: bit_imp_le_length)
    moreover have "bit ?w i \<Longrightarrow> 8 + i < LENGTH('a)"
      using le_word_bound [of bs i, where ?'a = 'a] Cons.prems n by (cases "8 * length bs \<le> i") auto
    ultimately show "bit (drop_bit 8 (ucast b OR push_bit 8 ?w)) i = bit ?w i"
      by (auto simp: bit_simps add.commute)
  qed
  ultimately show ?case using Cons n by simp
qed simp

subsection \<open>Lists\<close>

lemma take_append_exact: "n = length xs \<Longrightarrow> take n (xs @ ys) = xs"
  by simp

lemma drop_append_exact: "n = length xs \<Longrightarrow> drop n (xs @ ys) = ys"
  by simp

end
