(* ===== verification/Pb_Types.thy ===== *)
theory Pb_Types
  imports Prelude
begin

unbundle bit_operations_syntax

section \<open>nanopb's constants and field descriptors (pb.h)\<close>

text \<open>
  The model of \<^verbatim>\<open>pb.h\<close> in the configuration the application is built with
  (\<^verbatim>\<open>PB_FIELD_32BIT\<close>, \<^verbatim>\<open>PB_NO_PACKED_STRUCTS\<close>; error messages and custom streams enabled): the
  type byte of a field and its three parts, the record \<^verbatim>\<open>pb_field_t\<close>, and the macros with which
  generated code fills a descriptor in from the layout of a C struct.
\<close>

named_theorems pb_consts "the numeric constants of pb.h"

subsection \<open>Type bytes\<close>

definition PB_LTYPE_VARINT :: byte where [pb_consts]: "PB_LTYPE_VARINT = 0x00"
definition PB_LTYPE_UVARINT :: byte where [pb_consts]: "PB_LTYPE_UVARINT = 0x01"
definition PB_LTYPE_SVARINT :: byte where [pb_consts]: "PB_LTYPE_SVARINT = 0x02"
definition PB_LTYPE_FIXED32 :: byte where [pb_consts]: "PB_LTYPE_FIXED32 = 0x03"
definition PB_LTYPE_FIXED64 :: byte where [pb_consts]: "PB_LTYPE_FIXED64 = 0x04"
definition PB_LTYPE_LAST_PACKABLE :: byte where [pb_consts]: "PB_LTYPE_LAST_PACKABLE = 0x04"
definition PB_LTYPE_BYTES :: byte where [pb_consts]: "PB_LTYPE_BYTES = 0x05"
definition PB_LTYPE_STRING :: byte where [pb_consts]: "PB_LTYPE_STRING = 0x06"
definition PB_LTYPE_SUBMESSAGE :: byte where [pb_consts]: "PB_LTYPE_SUBMESSAGE = 0x07"
definition PB_LTYPE_EXTENSION :: byte where [pb_consts]: "PB_LTYPE_EXTENSION = 0x08"
definition PB_LTYPE_FIXED_LENGTH_BYTES :: byte where
  [pb_consts]: "PB_LTYPE_FIXED_LENGTH_BYTES = 0x09"
definition PB_LTYPES_COUNT :: byte where [pb_consts]: "PB_LTYPES_COUNT = 0x0A"
definition PB_LTYPE_MASK :: byte where [pb_consts]: "PB_LTYPE_MASK = 0x0F"

definition PB_HTYPE_REQUIRED :: byte where [pb_consts]: "PB_HTYPE_REQUIRED = 0x00"
definition PB_HTYPE_OPTIONAL :: byte where [pb_consts]: "PB_HTYPE_OPTIONAL = 0x10"
definition PB_HTYPE_REPEATED :: byte where [pb_consts]: "PB_HTYPE_REPEATED = 0x20"
definition PB_HTYPE_ONEOF :: byte where [pb_consts]: "PB_HTYPE_ONEOF = 0x30"
definition PB_HTYPE_MASK :: byte where [pb_consts]: "PB_HTYPE_MASK = 0x30"

definition PB_ATYPE_STATIC :: byte where [pb_consts]: "PB_ATYPE_STATIC = 0x00"
definition PB_ATYPE_POINTER :: byte where [pb_consts]: "PB_ATYPE_POINTER = 0x80"
definition PB_ATYPE_CALLBACK :: byte where [pb_consts]: "PB_ATYPE_CALLBACK = 0x40"
definition PB_ATYPE_MASK :: byte where [pb_consts]: "PB_ATYPE_MASK = 0xC0"

definition PB_ATYPE :: "byte \<Rightarrow> byte" where "PB_ATYPE x = x AND PB_ATYPE_MASK"
definition PB_HTYPE :: "byte \<Rightarrow> byte" where "PB_HTYPE x = x AND PB_HTYPE_MASK"
definition PB_LTYPE :: "byte \<Rightarrow> byte" where "PB_LTYPE x = x AND PB_LTYPE_MASK"

definition PB_SIZE_MAX :: u32 where [pb_consts]: "PB_SIZE_MAX = - 1"
definition PB_MAX_REQUIRED_FIELDS :: u32 where [pb_consts]: "PB_MAX_REQUIRED_FIELDS = 64"

subsection \<open>Error messages\<close>

text \<open>A stream keeps the first message that was set.\<close>

definition PB_SET_ERROR :: "string \<Rightarrow> string option \<Rightarrow> string option" where
  "PB_SET_ERROR msg old = (case old of Some m \<Rightarrow> Some m | None \<Rightarrow> Some msg)"

definition PB_GET_ERROR :: "string option \<Rightarrow> string" where
  "PB_GET_ERROR msg = (case msg of Some m \<Rightarrow> m | None \<Rightarrow> ''(none)'')"

subsection \<open>Wire types\<close>

text \<open>The enum \<^verbatim>\<open>pb_wire_type_t\<close>: a decoded wire type is a cast of three bits, so any value up to 7.\<close>

definition PB_WT_VARINT :: u32 where [pb_consts]: "PB_WT_VARINT = 0"
definition PB_WT_64BIT :: u32 where [pb_consts]: "PB_WT_64BIT = 1"
definition PB_WT_STRING :: u32 where [pb_consts]: "PB_WT_STRING = 2"
definition PB_WT_32BIT :: u32 where [pb_consts]: "PB_WT_32BIT = 5"

subsection \<open>Field descriptors\<close>

text \<open>
  \<^verbatim>\<open>ptr\<close> is NULL, or points to the descriptor array of a submessage type (named by a number, see
  the environment of the program's constants), or to the bytes of a default value.
\<close>

datatype fptr = Ptr_null | Ptr_fields nat | Ptr_default "byte list"

record pb_field =
  tag :: u32
  ftype :: byte
  data_offset :: u32
  size_offset :: u32
  data_size :: u32
  array_size :: u32
  ptr :: fptr

text \<open>
  \<^verbatim>\<open>size_offset\<close> is the signed \<^verbatim>\<open>pb_ssize_t\<close>; \<open>offset_addr\<close> is the sign-extending pointer
  addition it is used in.
\<close>

definition offset_addr :: "addr \<Rightarrow> u32 \<Rightarrow> addr" where
  "offset_addr p d = p + scast d"

definition PB_LAST_FIELD :: pb_field where
  "PB_LAST_FIELD = \<lparr>tag = 0, ftype = 0, data_offset = 0, size_offset = 0, data_size = 0,
     array_size = 0, ptr = Ptr_null\<rparr>"

text \<open>
  A \<^verbatim>\<open>pb_field_t\<close> array is the list of its entries before the terminator; reading at the index
  past the entries gives the terminator.
\<close>

definition field_at :: "pb_field list \<Rightarrow> nat \<Rightarrow> pb_field" where
  "field_at fs i = (if i < length fs then fs ! i else PB_LAST_FIELD)"

subsection \<open>The parts of a type byte\<close>

lemma PB_HTYPE_cases:
  "PB_HTYPE t = PB_HTYPE_REQUIRED \<or> PB_HTYPE t = PB_HTYPE_OPTIONAL \<or>
   PB_HTYPE t = PB_HTYPE_REPEATED \<or> PB_HTYPE t = PB_HTYPE_ONEOF"
proof -
  have "t AND 0x30 = (if bit t 4 then 0x10 else 0) OR (if bit t 5 then 0x20 else 0)"
    by (rule bit_word_eqI) (auto simp: bit_simps bit_numeral_rec less_Suc_eq numeral_eq_Suc)
  then show ?thesis by (auto simp: PB_HTYPE_def pb_consts)
qed

lemma PB_ATYPE_cases:
  "PB_ATYPE t = PB_ATYPE_STATIC \<or> PB_ATYPE t = PB_ATYPE_POINTER \<or>
   PB_ATYPE t = PB_ATYPE_CALLBACK \<or> PB_ATYPE t = PB_ATYPE_MASK"
proof -
  have "t AND 0xC0 = (if bit t 6 then 0x40 else 0) OR (if bit t 7 then 0x80 else 0)"
    by (rule bit_word_eqI) (auto simp: bit_simps bit_numeral_rec less_Suc_eq numeral_eq_Suc)
  then show ?thesis by (auto simp: PB_ATYPE_def pb_consts)
qed

subsection \<open>Building descriptors from a struct layout\<close>

text \<open>
  What the macros ask the compiler about a struct member: \<^verbatim>\<open>offsetof\<close>, \<^verbatim>\<open>sizeof\<close> the member and,
  for an array or a pointer, \<^verbatim>\<open>sizeof\<close> its first element. The values are stored in 32-bit fields.
\<close>

record member =
  moffset :: nat
  msize :: nat
  melem :: nat

definition pb_membersize :: "member \<Rightarrow> u32" where "pb_membersize m = of_nat (msize m)"
definition pb_elemsize :: "member \<Rightarrow> u32" where "pb_elemsize m = of_nat (melem m)"
definition pb_arraysize :: "member \<Rightarrow> u32" where "pb_arraysize m = of_nat (msize m div melem m)"
definition pb_delta :: "member \<Rightarrow> member \<Rightarrow> u32" where
  "pb_delta m1 m2 = of_int (int (moffset m1) - int (moffset m2))"

datatype placement = FIRST | OTHER | UNION

definition PB_DATAOFFSET_FIRST :: "member \<Rightarrow> member \<Rightarrow> u32" where
  "PB_DATAOFFSET_FIRST m1 m2 = of_nat (moffset m1)"
definition PB_DATAOFFSET_OTHER :: "member \<Rightarrow> member \<Rightarrow> u32" where
  "PB_DATAOFFSET_OTHER m1 m2 = of_nat (moffset m1) - of_nat (moffset m2) - pb_membersize m2"
definition PB_DATAOFFSET_UNION :: "member \<Rightarrow> member \<Rightarrow> u32" where
  "PB_DATAOFFSET_UNION m1 m2 = PB_SIZE_MAX"

fun PB_DATAOFFSET :: "placement \<Rightarrow> member \<Rightarrow> member \<Rightarrow> u32" where
  "PB_DATAOFFSET FIRST = PB_DATAOFFSET_FIRST"
| "PB_DATAOFFSET OTHER = PB_DATAOFFSET_OTHER"
| "PB_DATAOFFSET UNION = PB_DATAOFFSET_UNION"

text \<open>
  One definition per allocation and rule. Arguments as in the macros: the tag, the member that
  holds the count or the has-flag where there is one, the member, the data offset, the LTYPE and
  the pointer.
\<close>

definition mk_field :: "u32 \<Rightarrow> byte \<Rightarrow> u32 \<Rightarrow> u32 \<Rightarrow> u32 \<Rightarrow> u32 \<Rightarrow> fptr \<Rightarrow> pb_field" where
  "mk_field t ty fd so ds as p = \<lparr>tag = t, ftype = ty, data_offset = fd, size_offset = so,
     data_size = ds, array_size = as, ptr = p\<rparr>"

definition PB_REQUIRED_STATIC :: "u32 \<Rightarrow> member \<Rightarrow> u32 \<Rightarrow> byte \<Rightarrow> fptr \<Rightarrow> pb_field" where
  "PB_REQUIRED_STATIC t m fd ltype p =
     mk_field t (PB_ATYPE_STATIC OR PB_HTYPE_REQUIRED OR ltype) fd 0 (pb_membersize m) 0 p"

definition PB_OPTIONAL_STATIC :: "u32 \<Rightarrow> member \<Rightarrow> member \<Rightarrow> u32 \<Rightarrow> byte \<Rightarrow> fptr \<Rightarrow> pb_field" where
  "PB_OPTIONAL_STATIC t has m fd ltype p =
     mk_field t (PB_ATYPE_STATIC OR PB_HTYPE_OPTIONAL OR ltype) fd (pb_delta has m)
       (pb_membersize m) 0 p"

definition PB_SINGULAR_STATIC :: "u32 \<Rightarrow> member \<Rightarrow> u32 \<Rightarrow> byte \<Rightarrow> fptr \<Rightarrow> pb_field" where
  "PB_SINGULAR_STATIC t m fd ltype p =
     mk_field t (PB_ATYPE_STATIC OR PB_HTYPE_OPTIONAL OR ltype) fd 0 (pb_membersize m) 0 p"

definition PB_REPEATED_STATIC :: "u32 \<Rightarrow> member \<Rightarrow> member \<Rightarrow> u32 \<Rightarrow> byte \<Rightarrow> fptr \<Rightarrow> pb_field" where
  "PB_REPEATED_STATIC t count m fd ltype p =
     mk_field t (PB_ATYPE_STATIC OR PB_HTYPE_REPEATED OR ltype) fd (pb_delta count m)
       (pb_elemsize m) (pb_arraysize m) p"

definition PB_REQUIRED_POINTER :: "u32 \<Rightarrow> member \<Rightarrow> u32 \<Rightarrow> byte \<Rightarrow> fptr \<Rightarrow> pb_field" where
  "PB_REQUIRED_POINTER t m fd ltype p =
     mk_field t (PB_ATYPE_POINTER OR PB_HTYPE_REQUIRED OR ltype) fd 0 (pb_elemsize m) 0 p"

definition PB_OPTIONAL_POINTER :: "u32 \<Rightarrow> member \<Rightarrow> u32 \<Rightarrow> byte \<Rightarrow> fptr \<Rightarrow> pb_field" where
  "PB_OPTIONAL_POINTER t m fd ltype p =
     mk_field t (PB_ATYPE_POINTER OR PB_HTYPE_OPTIONAL OR ltype) fd 0 (pb_elemsize m) 0 p"

definition PB_SINGULAR_POINTER :: "u32 \<Rightarrow> member \<Rightarrow> u32 \<Rightarrow> byte \<Rightarrow> fptr \<Rightarrow> pb_field" where
  "PB_SINGULAR_POINTER t m fd ltype p =
     mk_field t (PB_ATYPE_POINTER OR PB_HTYPE_OPTIONAL OR ltype) fd 0 (pb_elemsize m) 0 p"

definition PB_REPEATED_POINTER :: "u32 \<Rightarrow> member \<Rightarrow> member \<Rightarrow> u32 \<Rightarrow> byte \<Rightarrow> fptr \<Rightarrow> pb_field" where
  "PB_REPEATED_POINTER t count m fd ltype p =
     mk_field t (PB_ATYPE_POINTER OR PB_HTYPE_REPEATED OR ltype) fd (pb_delta count m)
       (pb_elemsize m) 0 p"

definition PB_REQUIRED_CALLBACK :: "u32 \<Rightarrow> member \<Rightarrow> u32 \<Rightarrow> byte \<Rightarrow> fptr \<Rightarrow> pb_field" where
  "PB_REQUIRED_CALLBACK t m fd ltype p =
     mk_field t (PB_ATYPE_CALLBACK OR PB_HTYPE_REQUIRED OR ltype) fd 0 (pb_membersize m) 0 p"

definition PB_OPTIONAL_CALLBACK :: "u32 \<Rightarrow> member \<Rightarrow> u32 \<Rightarrow> byte \<Rightarrow> fptr \<Rightarrow> pb_field" where
  "PB_OPTIONAL_CALLBACK t m fd ltype p =
     mk_field t (PB_ATYPE_CALLBACK OR PB_HTYPE_OPTIONAL OR ltype) fd 0 (pb_membersize m) 0 p"

definition PB_SINGULAR_CALLBACK :: "u32 \<Rightarrow> member \<Rightarrow> u32 \<Rightarrow> byte \<Rightarrow> fptr \<Rightarrow> pb_field" where
  "PB_SINGULAR_CALLBACK t m fd ltype p =
     mk_field t (PB_ATYPE_CALLBACK OR PB_HTYPE_OPTIONAL OR ltype) fd 0 (pb_membersize m) 0 p"

definition PB_REPEATED_CALLBACK :: "u32 \<Rightarrow> member \<Rightarrow> u32 \<Rightarrow> byte \<Rightarrow> fptr \<Rightarrow> pb_field" where
  "PB_REPEATED_CALLBACK t m fd ltype p =
     mk_field t (PB_ATYPE_CALLBACK OR PB_HTYPE_REPEATED OR ltype) fd 0 (pb_membersize m) 0 p"

definition PB_OPTEXT_STATIC :: "u32 \<Rightarrow> member \<Rightarrow> u32 \<Rightarrow> byte \<Rightarrow> fptr \<Rightarrow> pb_field" where
  "PB_OPTEXT_STATIC t m fd ltype p =
     mk_field t (PB_ATYPE_STATIC OR PB_HTYPE_REQUIRED OR ltype) 0 0 (pb_membersize m) 0 p"

definition PB_OPTEXT_POINTER :: "u32 \<Rightarrow> member \<Rightarrow> u32 \<Rightarrow> byte \<Rightarrow> fptr \<Rightarrow> pb_field" where
  "PB_OPTEXT_POINTER = PB_OPTIONAL_POINTER"

definition PB_OPTEXT_CALLBACK :: "u32 \<Rightarrow> member \<Rightarrow> u32 \<Rightarrow> byte \<Rightarrow> fptr \<Rightarrow> pb_field" where
  "PB_OPTEXT_CALLBACK = PB_OPTIONAL_CALLBACK"

definition PB_ONEOF_STATIC :: "u32 \<Rightarrow> member \<Rightarrow> member \<Rightarrow> u32 \<Rightarrow> byte \<Rightarrow> fptr \<Rightarrow> pb_field" where
  "PB_ONEOF_STATIC t which m fd ltype p =
     mk_field t (PB_ATYPE_STATIC OR PB_HTYPE_ONEOF OR ltype) fd (pb_delta which m)
       (pb_membersize m) 0 p"

definition PB_ONEOF_POINTER :: "u32 \<Rightarrow> member \<Rightarrow> member \<Rightarrow> u32 \<Rightarrow> byte \<Rightarrow> fptr \<Rightarrow> pb_field" where
  "PB_ONEOF_POINTER t which m fd ltype p =
     mk_field t (PB_ATYPE_POINTER OR PB_HTYPE_ONEOF OR ltype) fd (pb_delta which m)
       (pb_elemsize m) 0 p"

definition PB_ANONYMOUS_ONEOF_STATIC ::
  "u32 \<Rightarrow> member \<Rightarrow> member \<Rightarrow> u32 \<Rightarrow> byte \<Rightarrow> fptr \<Rightarrow> pb_field" where
  "PB_ANONYMOUS_ONEOF_STATIC t which m fd ltype p =
     mk_field t (PB_ATYPE_STATIC OR PB_HTYPE_ONEOF OR ltype) fd (pb_delta which m)
       (pb_membersize m) 0 p"

definition PB_ANONYMOUS_ONEOF_POINTER ::
  "u32 \<Rightarrow> member \<Rightarrow> member \<Rightarrow> u32 \<Rightarrow> byte \<Rightarrow> fptr \<Rightarrow> pb_field" where
  "PB_ANONYMOUS_ONEOF_POINTER t which m fd ltype p =
     mk_field t (PB_ATYPE_POINTER OR PB_HTYPE_ONEOF OR ltype) fd (pb_delta which m)
       (pb_elemsize m) 0 p"

text \<open>The .proto types and the LTYPE each is encoded as (the \<^verbatim>\<open>PB_LTYPE_MAP_\<close> macros).\<close>

datatype proto_type = BOOL | BYTES | DOUBLE | ENUM | UENUM | FIXED32 | FIXED64 | FLOAT | INT32
  | INT64 | MESSAGE | SFIXED32 | SFIXED64 | SINT32 | SINT64 | STRING | UINT32 | UINT64
  | EXTENSION | FIXED_LENGTH_BYTES

fun PB_LTYPE_MAP :: "proto_type \<Rightarrow> byte" where
  "PB_LTYPE_MAP BOOL = PB_LTYPE_VARINT"
| "PB_LTYPE_MAP BYTES = PB_LTYPE_BYTES"
| "PB_LTYPE_MAP DOUBLE = PB_LTYPE_FIXED64"
| "PB_LTYPE_MAP ENUM = PB_LTYPE_VARINT"
| "PB_LTYPE_MAP UENUM = PB_LTYPE_UVARINT"
| "PB_LTYPE_MAP FIXED32 = PB_LTYPE_FIXED32"
| "PB_LTYPE_MAP FIXED64 = PB_LTYPE_FIXED64"
| "PB_LTYPE_MAP FLOAT = PB_LTYPE_FIXED32"
| "PB_LTYPE_MAP INT32 = PB_LTYPE_VARINT"
| "PB_LTYPE_MAP INT64 = PB_LTYPE_VARINT"
| "PB_LTYPE_MAP MESSAGE = PB_LTYPE_SUBMESSAGE"
| "PB_LTYPE_MAP SFIXED32 = PB_LTYPE_FIXED32"
| "PB_LTYPE_MAP SFIXED64 = PB_LTYPE_FIXED64"
| "PB_LTYPE_MAP SINT32 = PB_LTYPE_SVARINT"
| "PB_LTYPE_MAP SINT64 = PB_LTYPE_SVARINT"
| "PB_LTYPE_MAP STRING = PB_LTYPE_STRING"
| "PB_LTYPE_MAP UINT32 = PB_LTYPE_UVARINT"
| "PB_LTYPE_MAP UINT64 = PB_LTYPE_UVARINT"
| "PB_LTYPE_MAP EXTENSION = PB_LTYPE_EXTENSION"
| "PB_LTYPE_MAP FIXED_LENGTH_BYTES = PB_LTYPE_FIXED_LENGTH_BYTES"

text \<open>
  \<^verbatim>\<open>PB_FIELD\<close> pastes rule and allocation into the name of one of the macros above. \<open>aux\<close> is the
  member the pasted macro names itself (\<^verbatim>\<open>has_\<close>m or m\<^verbatim>\<open>_count\<close>); macros without one ignore it.
\<close>

datatype field_rule = REQUIRED | OPTIONAL | SINGULAR | REPEATED | OPTEXT
datatype field_alloc = STATIC | POINTER | CALLBACK

fun PB_rule_macro ::
  "field_rule \<Rightarrow> field_alloc \<Rightarrow> u32 \<Rightarrow> member \<Rightarrow> member \<Rightarrow> u32 \<Rightarrow> byte \<Rightarrow> fptr \<Rightarrow> pb_field" where
  "PB_rule_macro REQUIRED STATIC t aux m = PB_REQUIRED_STATIC t m"
| "PB_rule_macro OPTIONAL STATIC t aux m = PB_OPTIONAL_STATIC t aux m"
| "PB_rule_macro SINGULAR STATIC t aux m = PB_SINGULAR_STATIC t m"
| "PB_rule_macro REPEATED STATIC t aux m = PB_REPEATED_STATIC t aux m"
| "PB_rule_macro OPTEXT STATIC t aux m = PB_OPTEXT_STATIC t m"
| "PB_rule_macro REQUIRED POINTER t aux m = PB_REQUIRED_POINTER t m"
| "PB_rule_macro OPTIONAL POINTER t aux m = PB_OPTIONAL_POINTER t m"
| "PB_rule_macro SINGULAR POINTER t aux m = PB_SINGULAR_POINTER t m"
| "PB_rule_macro REPEATED POINTER t aux m = PB_REPEATED_POINTER t aux m"
| "PB_rule_macro OPTEXT POINTER t aux m = PB_OPTEXT_POINTER t m"
| "PB_rule_macro REQUIRED CALLBACK t aux m = PB_REQUIRED_CALLBACK t m"
| "PB_rule_macro OPTIONAL CALLBACK t aux m = PB_OPTIONAL_CALLBACK t m"
| "PB_rule_macro SINGULAR CALLBACK t aux m = PB_SINGULAR_CALLBACK t m"
| "PB_rule_macro REPEATED CALLBACK t aux m = PB_REPEATED_CALLBACK t m"
| "PB_rule_macro OPTEXT CALLBACK t aux m = PB_OPTEXT_CALLBACK t m"

definition PB_FIELD :: "u32 \<Rightarrow> proto_type \<Rightarrow> field_rule \<Rightarrow> field_alloc \<Rightarrow> placement \<Rightarrow>
  member \<Rightarrow> member \<Rightarrow> member \<Rightarrow> fptr \<Rightarrow> pb_field" where
  "PB_FIELD t type rules alloc place aux m prev p =
     PB_rule_macro rules alloc t aux m (PB_DATAOFFSET place m prev) (PB_LTYPE_MAP type) p"

definition PB_ONEOF_FIELD :: "u32 \<Rightarrow> proto_type \<Rightarrow> field_alloc \<Rightarrow> placement \<Rightarrow>
  member \<Rightarrow> member \<Rightarrow> member \<Rightarrow> fptr \<Rightarrow> pb_field option" where
  "PB_ONEOF_FIELD t type alloc place which m prev p =
     (case alloc of
        STATIC \<Rightarrow> Some (PB_ONEOF_STATIC t which m (PB_DATAOFFSET place m prev) (PB_LTYPE_MAP type) p)
      | POINTER \<Rightarrow> Some (PB_ONEOF_POINTER t which m (PB_DATAOFFSET place m prev) (PB_LTYPE_MAP type) p)
      | CALLBACK \<Rightarrow> None)"

end
