(* ===== verification/Pb_Istream.thy ===== *)
theory Pb_Istream
  imports Pb_Types
begin

unbundle bit_operations_syntax

section \<open>Input streams and wire-level decoding (pb_decode.h, pb_decode.c)\<close>

text \<open>
  The record \<^verbatim>\<open>pb_istream_t\<close>, reading from it, and the decoders of the wire format's scalars:
  varints, zig-zag varints, fixed32/64, tags, skipping and substreams.

  \<^verbatim>\<open>state\<close> is a free pointer. For a memory buffer (\<open>Buf_read\<close>) the model keeps the bytes from the
  pointer to the end of the buffer object, so that a read past the object is \<open>Fault\<close>; for a custom
  callback it is the data the callback keeps there. A custom callback is a function of that state
  and of the count asked for: it returns its status, the bytes it stored and its new state.
\<close>

named_theorems istream_simps "rewrite rules for the stream operations"

datatype in_callback = is_buf_read: Buf_read
  | User_read "byte list \<Rightarrow> u64 \<Rightarrow> bool \<times> byte list \<times> byte list"

record istream =
  callback :: in_callback
  state :: "byte list"
  bytes_left :: u64
  errmsg :: "string option"

definition return_error :: "istream \<Rightarrow> string \<Rightarrow> ('a, istream) outcome" where
  "return_error s msg = Fail (s\<lparr>errmsg := PB_SET_ERROR msg (errmsg s)\<rparr>)"

subsection \<open>Reading bytes\<close>

definition buf_read :: "istream \<Rightarrow> u64 \<Rightarrow> (byte list, istream) outcome" where
  "buf_read s count =
     (if unat count \<le> length (state s)
      then Ok (take (unat count) (state s)) (s\<lparr>state := drop (unat count) (state s)\<rparr>)
      else Fault)"

text \<open>The call through the function pointer \<^verbatim>\<open>stream->callback\<close>.\<close>

definition call_callback :: "istream \<Rightarrow> u64 \<Rightarrow> (byte list, istream) outcome" where
  "call_callback s count =
     (case callback s of
        Buf_read \<Rightarrow> buf_read s count
      | User_read f \<Rightarrow>
          (case f (state s) count of
             (ok, bs, st) \<Rightarrow> if ok then Ok bs (s\<lparr>state := st\<rparr>) else Fail (s\<lparr>state := st\<rparr>)))"

text \<open>
  \<^verbatim>\<open>pb_read\<close> with a buffer to store to. The value is the bytes stored; the caller puts them where
  the C code's \<^verbatim>\<open>buf\<close> points.
\<close>

definition pb_read_buf :: "istream \<Rightarrow> u64 \<Rightarrow> (byte list, istream) outcome" where
  "pb_read_buf s count =
     (if bytes_left s < count then return_error s ''end-of-stream''
      else case call_callback s count of
             Ok bs s' \<Rightarrow> Ok bs (s'\<lparr>bytes_left := bytes_left s' - count\<rparr>)
           | Fail s' \<Rightarrow> return_error s' ''io error''
           | Fault \<Rightarrow> Fault
           | Loop \<Rightarrow> Loop)"

text \<open>
  \<^verbatim>\<open>pb_read\<close> with a NULL buffer on a custom stream: input is skipped through a 16-byte temporary.
\<close>

function skip_input :: "istream \<Rightarrow> u64 \<Rightarrow> (byte list, istream) outcome" where
  "skip_input s count =
     (if 16 < count then andthen (pb_read_buf s 16) (\<lambda>_ s'. skip_input s' (count - 16))
      else pb_read_buf s count)"
  by pat_completeness auto
termination
  by (relation "measure (\<lambda>(s, count). unat count)") (auto, unat_arith)

declare skip_input.simps [simp del]

definition pb_read :: "istream \<Rightarrow> bool \<Rightarrow> u64 \<Rightarrow> (byte list, istream) outcome" where
  "pb_read s buf_is_null count =
     (if buf_is_null \<and> \<not> is_buf_read (callback s) then skip_input s count else pb_read_buf s count)"

definition pb_readbyte :: "istream \<Rightarrow> (byte, istream) outcome" where
  "pb_readbyte s =
     (if bytes_left s = 0 then return_error s ''end-of-stream''
      else case call_callback s 1 of
             Ok bs s' \<Rightarrow>
               (case bs of [b] \<Rightarrow> Ok b (s'\<lparr>bytes_left := bytes_left s' - 1\<rparr>) | _ \<Rightarrow> Fault)
           | Fail s' \<Rightarrow> return_error s' ''io error''
           | Fault \<Rightarrow> Fault
           | Loop \<Rightarrow> Loop)"

definition pb_istream_from_buffer :: "byte list \<Rightarrow> u64 \<Rightarrow> istream" where
  "pb_istream_from_buffer buf bufsize =
     \<lparr>callback = Buf_read, state = buf, bytes_left = bufsize, errmsg = None\<rparr>"

subsection \<open>Operations that leave the stream's callback alone and never move it back\<close>

lemma call_callback_frame:
  "partly (\<lambda>_ t. bytes_left t = bytes_left s \<and> callback t = callback s)
          (\<lambda>t. bytes_left t = bytes_left s \<and> callback t = callback s) (call_callback s n)"
  by (auto simp: call_callback_def buf_read_def split: in_callback.splits prod.splits)

lemma pb_read_buf_frame:
  "partly (\<lambda>_ t. bytes_left t = bytes_left s - n \<and> n \<le> bytes_left s \<and> callback t = callback s)
          (\<lambda>t. bytes_left t = bytes_left s \<and> callback t = callback s) (pb_read_buf s n)"
  using call_callback_frame [of s n]
  by (cases "call_callback s n") (auto simp: pb_read_buf_def return_error_def)

lemma pb_read_buf_Ok_bytes_left:
  "pb_read_buf s n = Ok bs t \<Longrightarrow> bytes_left t = bytes_left s - n \<and> n \<le> bytes_left s"
  using pb_read_buf_frame [of s n] by simp

lemma pb_readbyte_frame:
  "partly (\<lambda>_ t. bytes_left t = bytes_left s - 1 \<and> bytes_left s \<noteq> 0 \<and> callback t = callback s)
          (\<lambda>t. bytes_left t = bytes_left s \<and> callback t = callback s) (pb_readbyte s)"
  using call_callback_frame [of s 1]
  by (cases "call_callback s 1")
     (auto simp: pb_readbyte_def return_error_def split: list.splits)

subsection \<open>Varints\<close>

text \<open>
  The multibyte loop of \<^verbatim>\<open>pb_decode_varint32\<close>, entered with the bits gathered so far; \<^verbatim>\<open>bitpos\<close> is
  a \<^verbatim>\<open>uint_fast8_t\<close>, eight bits wide.
\<close>

function varint32_loop :: "istream \<Rightarrow> byte \<Rightarrow> u32 \<Rightarrow> (u32, istream) outcome" where
  "varint32_loop s bitpos result =
     (if 32 \<le> bitpos then return_error s ''varint overflow''
      else andthen (pb_readbyte s) (\<lambda>b s'.
        let result' = result OR push_bit (unat bitpos) (ucast (b AND 0x7F)) in
        if b AND 0x80 \<noteq> 0 then varint32_loop s' (bitpos + 7) result' else Ok result' s'))"
  by pat_completeness auto
termination
proof (relation "measure (\<lambda>(s, bitpos, r). 40 - unat bitpos)")
  fix s :: istream and bitpos :: byte and result and b s' and r'
  assume "\<not> 32 \<le> bitpos"
  then have "bitpos < 64" and "unat bitpos < 32" by (simp_all add: word_less_nat_alt word_le_nat_alt)
  then show "((s', bitpos + 7, r'), (s, bitpos, result)) \<in> measure (\<lambda>(s, bitpos, r). 40 - unat bitpos)"
    by (simp add: unat_bitpos_add_7)
qed simp

definition pb_decode_varint32 :: "istream \<Rightarrow> (u32, istream) outcome" where
  "pb_decode_varint32 s =
     andthen (pb_readbyte s) (\<lambda>b s'.
       if b AND 0x80 = 0 then Ok (ucast b) s'
       else varint32_loop s' 7 (ucast (b AND 0x7F)))"

function varint_loop :: "istream \<Rightarrow> byte \<Rightarrow> u64 \<Rightarrow> (u64, istream) outcome" where
  "varint_loop s bitpos result =
     (if 64 \<le> bitpos then return_error s ''varint overflow''
      else andthen (pb_readbyte s) (\<lambda>b s'.
        let result' = result OR push_bit (unat bitpos) (ucast (b AND 0x7F)) in
        if b AND 0x80 \<noteq> 0 then varint_loop s' (bitpos + 7) result' else Ok result' s'))"
  by pat_completeness auto
termination
proof (relation "measure (\<lambda>(s, bitpos, r). 72 - unat bitpos)")
  fix s :: istream and bitpos :: byte and result and b s' and r'
  assume "\<not> 64 \<le> bitpos"
  then have "bitpos < 64" and "unat bitpos < 64" by (simp_all add: word_less_nat_alt word_le_nat_alt)
  then show "((s', bitpos + 7, r'), (s, bitpos, result)) \<in> measure (\<lambda>(s, bitpos, r). 72 - unat bitpos)"
    by (simp add: unat_bitpos_add_7)
qed simp

declare varint32_loop.simps [simp del] varint_loop.simps [simp del]

definition pb_decode_varint :: "istream \<Rightarrow> (u64, istream) outcome" where
  "pb_decode_varint s = varint_loop s 0 0"

function pb_skip_varint :: "istream \<Rightarrow> (unit, istream) outcome" where
  "pb_skip_varint s =
     andthen (pb_read s False 1) (\<lambda>bs s'.
       case bs of
         [b] \<Rightarrow> if b AND 0x80 \<noteq> 0 then pb_skip_varint s' else Ok () s'
       | _ \<Rightarrow> Fault)"
  by pat_completeness auto
termination
proof (relation "measure (\<lambda>s. unat (bytes_left s))")
  fix s bs s' b x
  assume "pb_read s False 1 = Ok bs s'"
  then have "bytes_left s' = bytes_left s - 1" and "1 \<le> bytes_left s"
    by (simp_all add: pb_read_def pb_read_buf_Ok_bytes_left)
  then show "(s', s) \<in> measure (\<lambda>s. unat (bytes_left s))"
    by simp unat_arith
qed simp

declare pb_skip_varint.simps [simp del]

definition pb_skip_string :: "istream \<Rightarrow> (unit, istream) outcome" where
  "pb_skip_string s =
     andthen (pb_decode_varint32 s) (\<lambda>len s'.
       andthen (pb_read s' True (ucast len)) (\<lambda>_ s''. Ok () s''))"

text \<open>
  The out-parameters of \<^verbatim>\<open>pb_decode_tag\<close> matter on a false return too, so its status is part of
  the value: (status, wire type, tag, end of message).
\<close>

definition pb_decode_tag :: "istream \<Rightarrow> (bool \<times> u32 \<times> u32 \<times> bool, istream) outcome" where
  "pb_decode_tag s =
     (case pb_decode_varint32 s of
        Ok temp s' \<Rightarrow>
          if temp = 0 then Ok (False, 0, 0, True) s'
          else Ok (True, temp AND 7, drop_bit 3 temp, False) s'
      | Fail s' \<Rightarrow> Ok (False, 0, 0, bytes_left s' = 0) s'
      | Fault \<Rightarrow> Fault
      | Loop \<Rightarrow> Loop)"

definition pb_skip_field :: "istream \<Rightarrow> u32 \<Rightarrow> (unit, istream) outcome" where
  "pb_skip_field s wire_type =
     (if wire_type = PB_WT_VARINT then pb_skip_varint s
      else if wire_type = PB_WT_64BIT then andthen (pb_read s True 8) (\<lambda>_ s'. Ok () s')
      else if wire_type = PB_WT_STRING then pb_skip_string s
      else if wire_type = PB_WT_32BIT then andthen (pb_read s True 4) (\<lambda>_ s'. Ok () s')
      else return_error s ''invalid wire_type'')"

text \<open>
  \<^verbatim>\<open>read_raw_value\<close>: \<open>room\<close> is what is left of the caller's buffer, the value the bytes stored. The
  size test comes before the read and sets no error message.
\<close>

primrec raw_varint :: "nat \<Rightarrow> istream \<Rightarrow> (byte list, istream) outcome" where
  "raw_varint 0 s = Fail s"
| "raw_varint (Suc room) s =
     andthen (pb_read s False 1) (\<lambda>bs s'.
       case bs of
         [b] \<Rightarrow> if b AND 0x80 \<noteq> 0 then andthen (raw_varint room s') (\<lambda>bs' s''. Ok (b # bs') s'')
                else Ok [b] s'
       | _ \<Rightarrow> Fault)"

definition read_raw_value :: "istream \<Rightarrow> u32 \<Rightarrow> nat \<Rightarrow> (byte list, istream) outcome" where
  "read_raw_value s wire_type max_size =
     (if wire_type = PB_WT_VARINT then raw_varint max_size s
      else if wire_type = PB_WT_64BIT then pb_read s False 8
      else if wire_type = PB_WT_32BIT then pb_read s False 4
      else return_error s ''invalid wire_type'')"

subsection \<open>Substreams\<close>

text \<open>The value is the substream, the state the parent.\<close>

definition pb_make_string_substream :: "istream \<Rightarrow> (istream, istream) outcome" where
  "pb_make_string_substream s =
     andthen (pb_decode_varint32 s) (\<lambda>size s'.
       if bytes_left s' < ucast size then return_error s' ''parent stream too short''
       else Ok (s'\<lparr>bytes_left := ucast size\<rparr>) (s'\<lparr>bytes_left := bytes_left s' - ucast size\<rparr>))"

definition pb_close_string_substream :: "istream \<Rightarrow> istream \<Rightarrow> (unit, istream) outcome" where
  "pb_close_string_substream s sub =
     (case (if bytes_left sub \<noteq> 0 then pb_read sub True (bytes_left sub) else Ok [] sub) of
        Ok _ sub' \<Rightarrow> Ok () (s\<lparr>state := state sub', errmsg := errmsg sub'\<rparr>)
      | Fail _ \<Rightarrow> Fail s
      | Fault \<Rightarrow> Fault
      | Loop \<Rightarrow> Loop)"

subsection \<open>Signed and fixed-width scalars\<close>

definition pb_decode_svarint :: "istream \<Rightarrow> (u64, istream) outcome" where
  "pb_decode_svarint s =
     andthen (pb_decode_varint s) (\<lambda>value s'.
       if value AND 1 \<noteq> 0 then Ok (NOT (drop_bit 1 value)) s' else Ok (drop_bit 1 value) s')"

definition pb_decode_fixed32 :: "istream \<Rightarrow> (u32, istream) outcome" where
  "pb_decode_fixed32 s =
     andthen (pb_read s False 4) (\<lambda>bs s'.
       case bs of
         [b0, b1, b2, b3] \<Rightarrow>
           Ok (push_bit 0 (ucast b0) OR push_bit 8 (ucast b1) OR push_bit 16 (ucast b2) OR
               push_bit 24 (ucast b3)) s'
       | _ \<Rightarrow> Fault)"

definition pb_decode_fixed64 :: "istream \<Rightarrow> (u64, istream) outcome" where
  "pb_decode_fixed64 s =
     andthen (pb_read s False 8) (\<lambda>bs s'.
       case bs of
         [b0, b1, b2, b3, b4, b5, b6, b7] \<Rightarrow>
           Ok (push_bit 0 (ucast b0) OR push_bit 8 (ucast b1) OR push_bit 16 (ucast b2) OR
               push_bit 24 (ucast b3) OR push_bit 32 (ucast b4) OR push_bit 40 (ucast b5) OR
               push_bit 48 (ucast b6) OR push_bit 56 (ucast b7)) s'
       | _ \<Rightarrow> Fault)"

end
