(* ===== verification/Pb_Ostream.thy ===== *)
theory Pb_Ostream
  imports Pb_Types
begin

unbundle bit_operations_syntax

section \<open>Output streams and wire-level encoding (pb_encode.h, pb_encode.c)\<close>

text \<open>
  The record \<^verbatim>\<open>pb_ostream_t\<close>, writing to it, and the encoders of the wire format's scalars.

  A stream whose callback is NULL (\<open>None\<close>) only counts. For a memory buffer (\<open>Buf_write\<close>) the free
  pointer \<^verbatim>\<open>state\<close> is modelled by the bytes stored so far (\<open>ostate\<close>) and the number of bytes from
  the pointer to the end of the buffer object (\<open>room\<close>), so that a store past the object is
  \<open>Fault\<close>. A custom callback is a function of its own state and of the bytes it is given.
\<close>

datatype out_callback = Buf_write | User_write "byte list \<Rightarrow> byte list \<Rightarrow> bool \<times> byte list"

record ostream =
  ocallback :: "out_callback option"
  ostate :: "byte list"
  room :: nat
  max_size :: u64
  bytes_written :: u64
  oerrmsg :: "string option"

definition oreturn_error :: "ostream \<Rightarrow> string \<Rightarrow> ('a, ostream) outcome" where
  "oreturn_error s msg =
     Fail (s\<lparr>oerrmsg := PB_SET_ERROR msg (oerrmsg s)\<rparr>)"

definition PB_OSTREAM_SIZING :: ostream where
  "PB_OSTREAM_SIZING = \<lparr>ocallback = None, ostate = [], room = 0, max_size = 0, bytes_written = 0,
     oerrmsg = None\<rparr>"

subsection \<open>Writing bytes\<close>

text \<open>
  \<^verbatim>\<open>buf\<close> is the list of bytes from the pointer on; a call that asks for more bytes than there are
  (a NULL buffer, in the one call of the library that has one) reads outside the object.
\<close>

definition buf_write :: "ostream \<Rightarrow> byte list \<Rightarrow> u64 \<Rightarrow> (unit, ostream) outcome" where
  "buf_write s buf count =
     (if unat count \<le> room s \<and> unat count \<le> length buf
      then Ok () (s\<lparr>ostate := ostate s @ take (unat count) buf, room := room s - unat count\<rparr>)
      else Fault)"

definition call_ocallback :: "ostream \<Rightarrow> out_callback \<Rightarrow> byte list \<Rightarrow> u64 \<Rightarrow> (unit, ostream) outcome" where
  "call_ocallback s cb buf count =
     (case cb of
        Buf_write \<Rightarrow> buf_write s buf count
      | User_write f \<Rightarrow>
          if unat count \<le> length buf then
            (case f (ostate s) (take (unat count) buf) of
               (ok, st) \<Rightarrow> if ok then Ok () (s\<lparr>ostate := st\<rparr>) else Fail (s\<lparr>ostate := st\<rparr>))
          else Fault)"

definition pb_ostream_from_buffer :: "nat \<Rightarrow> u64 \<Rightarrow> ostream" where
  "pb_ostream_from_buffer buf bufsize =
     \<lparr>ocallback = Some Buf_write, ostate = [], room = buf, max_size = bufsize, bytes_written = 0,
      oerrmsg = None\<rparr>"

definition pb_write :: "ostream \<Rightarrow> byte list \<Rightarrow> u64 \<Rightarrow> (unit, ostream) outcome" where
  "pb_write s buf count =
     (case ocallback s of
        None \<Rightarrow> Ok () (s\<lparr>bytes_written := bytes_written s + count\<rparr>)
      | Some cb \<Rightarrow>
          if max_size s < bytes_written s + count then oreturn_error s ''stream full''
          else case call_ocallback s cb buf count of
                 Ok _ s' \<Rightarrow> Ok () (s'\<lparr>bytes_written := bytes_written s' + count\<rparr>)
               | Fail s' \<Rightarrow> oreturn_error s' ''io error''
               | Fault \<Rightarrow> Fault
               | Loop \<Rightarrow> Loop)"

subsection \<open>Scalars\<close>

text \<open>The loop that fills \<^verbatim>\<open>buffer[10]\<close>, then the store that clears the last byte's top bit.\<close>

function varint_fill :: "u64 \<Rightarrow> byte list" where
  "varint_fill value =
     (if value = 0 then [] else ucast ((value AND 0x7F) OR 0x80) # varint_fill (drop_bit 7 value))"
  by pat_completeness auto
termination
proof (relation "measure unat")
  fix v :: u64
  assume "v \<noteq> 0"
  then have "0 < unat v" by (simp add: unat_gt_0)
  then show "(drop_bit 7 v, v) \<in> measure unat"
    by (simp add: unat_drop_bit_7)
qed simp

declare varint_fill.simps [simp del]

definition clear_last_top :: "byte list \<Rightarrow> byte list" where
  "clear_last_top bs = bs[length bs - 1 := bs ! (length bs - 1) AND 0x7F]"

definition pb_encode_varint :: "ostream \<Rightarrow> u64 \<Rightarrow> (unit, ostream) outcome" where
  "pb_encode_varint s value =
     (if value \<le> 0x7F then pb_write s [ucast value] 1
      else let buffer = varint_fill value in
        if 10 < length buffer then Fault
        else pb_write s (clear_last_top buffer) (of_nat (length buffer)))"

text \<open>\<^verbatim>\<open>value < 0\<close> on the \<^verbatim>\<open>int64_t\<close> is the sign bit of the word.\<close>

definition zigzag :: "u64 \<Rightarrow> u64" where
  "zigzag value = (if value <s 0 then NOT (push_bit 1 value) else push_bit 1 value)"

definition pb_encode_svarint :: "ostream \<Rightarrow> u64 \<Rightarrow> (unit, ostream) outcome" where
  "pb_encode_svarint s value = pb_encode_varint s (zigzag value)"

definition pb_encode_fixed32 :: "ostream \<Rightarrow> u32 \<Rightarrow> (unit, ostream) outcome" where
  "pb_encode_fixed32 s val =
     pb_write s [ucast (val AND 0xFF), ucast (drop_bit 8 val AND 0xFF),
       ucast (drop_bit 16 val AND 0xFF), ucast (drop_bit 24 val AND 0xFF)] 4"

definition pb_encode_fixed64 :: "ostream \<Rightarrow> u64 \<Rightarrow> (unit, ostream) outcome" where
  "pb_encode_fixed64 s val =
     pb_write s [ucast (val AND 0xFF), ucast (drop_bit 8 val AND 0xFF),
       ucast (drop_bit 16 val AND 0xFF), ucast (drop_bit 24 val AND 0xFF),
       ucast (drop_bit 32 val AND 0xFF), ucast (drop_bit 40 val AND 0xFF),
       ucast (drop_bit 48 val AND 0xFF), ucast (drop_bit 56 val AND 0xFF)] 8"

definition pb_encode_tag :: "ostream \<Rightarrow> u32 \<Rightarrow> u32 \<Rightarrow> (unit, ostream) outcome" where
  "pb_encode_tag s wiretype field_number =
     pb_encode_varint s (push_bit 3 (ucast field_number) OR ucast wiretype)"

definition wire_type_of :: "byte \<Rightarrow> u32 option" where
  "wire_type_of ltype =
     (if ltype = PB_LTYPE_VARINT \<or> ltype = PB_LTYPE_UVARINT \<or> ltype = PB_LTYPE_SVARINT
      then Some PB_WT_VARINT
      else if ltype = PB_LTYPE_FIXED32 then Some PB_WT_32BIT
      else if ltype = PB_LTYPE_FIXED64 then Some PB_WT_64BIT
      else if ltype = PB_LTYPE_BYTES \<or> ltype = PB_LTYPE_STRING \<or> ltype = PB_LTYPE_SUBMESSAGE \<or>
              ltype = PB_LTYPE_FIXED_LENGTH_BYTES
      then Some PB_WT_STRING
      else None)"

definition pb_encode_tag_for_field :: "ostream \<Rightarrow> pb_field \<Rightarrow> (unit, ostream) outcome" where
  "pb_encode_tag_for_field s field =
     (case wire_type_of (PB_LTYPE (ftype field)) of
        Some wiretype \<Rightarrow> pb_encode_tag s wiretype (tag field)
      | None \<Rightarrow> oreturn_error s ''invalid field type'')"

definition pb_encode_string :: "ostream \<Rightarrow> byte list \<Rightarrow> u64 \<Rightarrow> (unit, ostream) outcome" where
  "pb_encode_string s buffer len =
     andthen (pb_encode_varint s len) (\<lambda>_ s'. pb_write s' buffer len)"

end
