(* ===== verification/Pb_Common.thy ===== *)
theory Pb_Common
  imports Pb_Types
begin

unbundle bit_operations_syntax

section \<open>The field iterator (pb_common.h, pb_common.c)\<close>

text \<open>
  The record \<^verbatim>\<open>pb_field_iter_t\<close> and its three operations. The two pointers into the descriptor
  array are modelled by the array (\<open>start\<close>) and an index (\<open>pos\<close>). The facts proved here are what
  the encoder and the decoder rely on: whatever the order in which fields are visited, the data
  pointer of the iterator at an entry is a function of the entry, and for descriptors made by the
  macros of \<^verbatim>\<open>pb.h\<close> from a struct layout it is the address of the struct member.
\<close>

record field_iter =
  start :: "pb_field list"
  pos :: nat
  required_field_index :: u32
  dest_struct :: addr
  pData :: addr
  pSize :: addr

definition cur :: "field_iter \<Rightarrow> pb_field" where
  "cur it = field_at (start it) (pos it)"

definition sizeof_ptr :: u64 where "sizeof_ptr = 8"

definition pb_field_iter_begin :: "pb_field list \<Rightarrow> addr \<Rightarrow> field_iter \<times> bool" where
  "pb_field_iter_begin fs dest =
     (let f = field_at fs 0; d = dest + ucast (data_offset f) in
      (\<lparr>start = fs, pos = 0, required_field_index = 0, dest_struct = dest, pData = d,
        pSize = offset_addr d (size_offset f)\<rparr>, tag f \<noteq> 0))"

definition pb_field_iter_next :: "field_iter \<Rightarrow> field_iter \<times> bool" where
  "pb_field_iter_next it =
     (let prev_field = cur it in
      if tag prev_field = 0 then (it, False)
      else let it' = it\<lparr>pos := pos it + 1\<rparr>; f = cur it' in
        if tag f = 0 then (fst (pb_field_iter_begin (start it) (dest_struct it)), False)
        else if PB_HTYPE (ftype prev_field) = PB_HTYPE_ONEOF \<and> PB_HTYPE (ftype f) = PB_HTYPE_ONEOF \<and>
                data_offset f = PB_SIZE_MAX
        then (it', True)
        else let
            prev_size =
              (if PB_ATYPE (ftype prev_field) = PB_ATYPE_STATIC \<and>
                  PB_HTYPE (ftype prev_field) = PB_HTYPE_REPEATED
               then ucast (data_size prev_field) * ucast (array_size prev_field)
               else if PB_ATYPE (ftype prev_field) = PB_ATYPE_POINTER then sizeof_ptr
               else ucast (data_size prev_field));
            index =
              (if PB_HTYPE (ftype prev_field) = PB_HTYPE_REQUIRED then required_field_index it + 1
               else required_field_index it);
            d = pData it + prev_size + ucast (data_offset f)
          in (it'\<lparr>required_field_index := index, pData := d, pSize := offset_addr d (size_offset f)\<rparr>,
              True))"

text \<open>
  The search loop, with fuel for the number of steps; \<open>None\<close> is running out. One round of the array
  is enough (\<open>pb_field_iter_find_total\<close> below).
\<close>

primrec find_loop :: "nat \<Rightarrow> nat \<Rightarrow> u32 \<Rightarrow> field_iter \<Rightarrow> (field_iter \<times> bool) option" where
  "find_loop 0 first t it = None"
| "find_loop (Suc n) first t it =
     (if tag (cur it) = t \<and> PB_LTYPE (ftype (cur it)) \<noteq> PB_LTYPE_EXTENSION then Some (it, True)
      else let it' = fst (pb_field_iter_next it) in
        if pos it' \<noteq> first then find_loop n first t it' else Some (it', False))"

definition pb_field_iter_find :: "field_iter \<Rightarrow> u32 \<Rightarrow> (field_iter \<times> bool) option" where
  "pb_field_iter_find it t = find_loop (Suc (length (start it))) (pos it) t it"

text \<open>
  \<^verbatim>\<open>do \<dots> while (pb_field_iter_next(&iter))\<close>, the loop all walks over a message have.
\<close>

lemma next_True:
  assumes "pb_field_iter_next it = (it', True)"
  shows "pos it' = Suc (pos it)" and "Suc (pos it) < length (start it)" and "start it' = start it"
    and "dest_struct it' = dest_struct it"
  using assms
  by (auto simp: pb_field_iter_next_def Let_def cur_def field_at_def PB_LAST_FIELD_def
      split: if_splits)

function iter_do_while ::
  "(field_iter \<Rightarrow> 's \<Rightarrow> (unit, 's) outcome) \<Rightarrow> field_iter \<Rightarrow> 's \<Rightarrow> (unit, 's) outcome" where
  "iter_do_while body it s =
     andthen (body it s) (\<lambda>_ s'.
       if snd (pb_field_iter_next it) then iter_do_while body (fst (pb_field_iter_next it)) s'
       else Ok () s')"
  by pat_completeness auto
termination
proof (relation "measure (\<lambda>(body, it, s). length (start it) - pos it)")
  fix body and it :: field_iter and s s' :: 'a and u
  assume "snd (pb_field_iter_next it)"
  then have "pb_field_iter_next it = (fst (pb_field_iter_next it), True)"
    by (metis (full_types) prod.collapse)
  from next_True [OF this]
  show "((body, fst (pb_field_iter_next it), s'), (body, it, s))
      \<in> measure (\<lambda>(body, it, s). length (start it) - pos it)"
    by auto
qed simp

declare iter_do_while.simps [simp del]

subsection \<open>The iterator at an entry\<close>

text \<open>A descriptor array: no entry has the terminator's tag.\<close>

definition wf_fields :: "pb_field list \<Rightarrow> bool" where
  "wf_fields fs \<longleftrightarrow> (\<forall>f \<in> set fs. tag f \<noteq> 0)"

primrec iter_at :: "pb_field list \<Rightarrow> addr \<Rightarrow> nat \<Rightarrow> field_iter" where
  "iter_at fs dest 0 = fst (pb_field_iter_begin fs dest)"
| "iter_at fs dest (Suc i) = fst (pb_field_iter_next (iter_at fs dest i))"

lemma begin_fields [simp]:
  "start (fst (pb_field_iter_begin fs d)) = fs" "pos (fst (pb_field_iter_begin fs d)) = 0"
  "dest_struct (fst (pb_field_iter_begin fs d)) = d"
  "required_field_index (fst (pb_field_iter_begin fs d)) = 0"
  by (simp_all add: pb_field_iter_begin_def Let_def)

lemma begin_nonempty: "snd (pb_field_iter_begin fs d) \<longleftrightarrow> fs \<noteq> []" if "wf_fields fs"
  using that by (cases fs) (auto simp: pb_field_iter_begin_def Let_def field_at_def wf_fields_def
      PB_LAST_FIELD_def)

lemma field_at_tag: "wf_fields fs \<Longrightarrow> tag (field_at fs i) \<noteq> 0 \<longleftrightarrow> i < length fs"
  by (auto simp: field_at_def wf_fields_def PB_LAST_FIELD_def)

lemma iter_at_fields:
  assumes "wf_fields fs" and "i < length fs"
  shows "start (iter_at fs d i) = fs \<and> pos (iter_at fs d i) = i \<and> dest_struct (iter_at fs d i) = d"
  using assms(2)
proof (induction i)
  case (Suc i)
  then have IH: "start (iter_at fs d i) = fs" "pos (iter_at fs d i) = i"
    "dest_struct (iter_at fs d i) = d" by simp_all
  with Suc.prems assms(1) show ?case
    by (simp add: pb_field_iter_next_def Let_def cur_def field_at_tag)
qed simp

lemma cur_iter_at: "wf_fields fs \<Longrightarrow> i < length fs \<Longrightarrow> cur (iter_at fs d i) = fs ! i"
  by (simp add: cur_def iter_at_fields field_at_def)

lemma next_iter_at:
  assumes "wf_fields fs" and "i < length fs"
  shows "pb_field_iter_next (iter_at fs d i) =
    (if Suc i < length fs then (iter_at fs d (Suc i), True) else (iter_at fs d 0, False))"
proof -
  note it = iter_at_fields [OF assms, of d]
  have t: "tag (field_at fs i) \<noteq> 0" using assms field_at_tag by blast
  show ?thesis
  proof (cases "Suc i < length fs")
    case True
    then have "tag (field_at fs (Suc i)) \<noteq> 0" using assms(1) field_at_tag by blast
    then have "snd (pb_field_iter_next (iter_at fs d i))"
      using it t by (auto simp: pb_field_iter_next_def Let_def cur_def)
    with True show ?thesis by (auto intro: prod_eqI)
  next
    case False
    then have "tag (field_at fs (Suc i)) = 0" using assms(1) field_at_tag by blast
    with False it t show ?thesis by (simp add: pb_field_iter_next_def Let_def cur_def)
  qed
qed

declare iter_at.simps [simp del]

lemma next_iter_at_mod:
  "wf_fields fs \<Longrightarrow> j < length fs \<Longrightarrow>
   fst (pb_field_iter_next (iter_at fs d j)) = iter_at fs d (Suc j mod length fs)"
  by (simp add: next_iter_at mod_Suc)

text \<open>A loop over a message visits every entry once, in order: the invariant rules for it.\<close>

lemma iter_do_while_step:
  assumes "wf_fields fs" "i < length fs"
  shows "iter_do_while body (iter_at fs d i) s =
     andthen (body (iter_at fs d i) s) (\<lambda>_ s'.
       if Suc i < length fs then iter_do_while body (iter_at fs d (Suc i)) s' else Ok () s')"
proof -
  note nx = next_iter_at [OF assms, of d]
  show ?thesis
    by (cases "Suc i < length fs")
       (simp_all only: iter_do_while.simps [of body "iter_at fs d i" s] nx fst_conv snd_conv
          if_True if_False simp_thms)
qed

lemma iter_do_while_okay:
  assumes "wf_fields fs"
    and body: "\<And>j s. j < length fs \<Longrightarrow> I j s \<Longrightarrow> okay (\<lambda>_ t. I (Suc j) t) Q (body (iter_at fs d j) s)"
  shows "i < length fs \<Longrightarrow> I i s \<Longrightarrow> okay (\<lambda>_ t. I (length fs) t) Q (iter_do_while body (iter_at fs d i) s)"
proof (induction "length fs - i" arbitrary: i s)
  case 0
  then show ?case by simp
next
  case (Suc k)
  show ?case
    unfolding iter_do_while_step [OF assms(1) Suc.prems(1)]
  proof (rule okay_andthen [OF body [OF Suc.prems]])
    fix u t assume "I (Suc i) t"
    then show "okay (\<lambda>_. I (length fs)) Q
        (if Suc i < length fs then iter_do_while body (iter_at fs d (Suc i)) t else Ok () t)"
      using Suc.hyps(1) [of "Suc i" t] Suc.hyps(2) Suc.prems(1)
      by (cases "Suc i < length fs") (auto dest: less_antisym)
  qed
qed

lemma iter_do_while_partly:
  assumes "wf_fields fs"
    and body: "\<And>j s. j < length fs \<Longrightarrow> I j s \<Longrightarrow> partly (\<lambda>_ t. I (Suc j) t) Q (body (iter_at fs d j) s)"
  shows "i < length fs \<Longrightarrow> I i s \<Longrightarrow>
    partly (\<lambda>_ t. I (length fs) t) Q (iter_do_while body (iter_at fs d i) s)"
proof (induction "length fs - i" arbitrary: i s)
  case 0
  then show ?case by simp
next
  case (Suc k)
  show ?case
    unfolding iter_do_while_step [OF assms(1) Suc.prems(1)]
  proof (rule partly_andthen [OF body [OF Suc.prems]])
    fix u t assume "I (Suc i) t"
    then show "partly (\<lambda>_. I (length fs)) Q
        (if Suc i < length fs then iter_do_while body (iter_at fs d (Suc i)) t else Ok () t)"
      using Suc.hyps(1) [of "Suc i" t] Suc.hyps(2) Suc.prems(1)
      by (cases "Suc i < length fs") (auto dest: less_antisym)
  qed
qed

subsection \<open>Searching\<close>

definition field_matches :: "u32 \<Rightarrow> pb_field \<Rightarrow> bool" where
  "field_matches t f \<longleftrightarrow> tag f = t \<and> PB_LTYPE (ftype f) \<noteq> PB_LTYPE_EXTENSION"

lemma mod_shift_neq: "Suc m < n \<Longrightarrow> i < n \<Longrightarrow> (i + Suc m) mod n \<noteq> i" for n :: nat
proof (cases "i + Suc m < n")
  case False
  assume "Suc m < n" "i < n"
  with False have "(i + Suc m) mod n = i + Suc m - n" by (subst le_mod_geq) simp_all
  with False \<open>Suc m < n\<close> show ?thesis by simp
qed simp

lemma find_loop_result:
  assumes wf: "wf_fields fs" and i: "i < length fs"
  shows "m < length fs \<Longrightarrow> length fs \<le> m + k \<Longrightarrow>
    \<forall>m' < m. \<not> field_matches t (fs ! ((i + m') mod length fs)) \<Longrightarrow>
    (\<exists>j < length fs. field_matches t (fs ! j) \<and>
        find_loop k i t (iter_at fs d ((i + m) mod length fs)) = Some (iter_at fs d j, True)) \<or>
    (\<forall>m' < length fs. \<not> field_matches t (fs ! ((i + m') mod length fs))) \<and>
        find_loop k i t (iter_at fs d ((i + m) mod length fs)) = Some (iter_at fs d i, False)"
proof (induction k arbitrary: m)
  case 0
  then show ?case by simp
next
  case (Suc k)
  let ?j = "(i + m) mod length fs"
  have j: "?j < length fs" using i by (intro mod_less_divisor) auto
  show ?case
  proof (cases "field_matches t (fs ! ?j)")
    case True
    then show ?thesis using j wf by (intro disjI1 exI [of _ ?j]) (simp add: field_matches_def cur_iter_at)
  next
    case False
    have nx: "fst (pb_field_iter_next (iter_at fs d ?j)) = iter_at fs d ((i + Suc m) mod length fs)"
      using next_iter_at_mod [OF wf j, of d] by (simp add: mod_Suc_eq)
    have none: "\<forall>m' < Suc m. \<not> field_matches t (fs ! ((i + m') mod length fs))"
      using Suc.prems(3) False by (auto simp: less_Suc_eq)
    let ?i' = "(i + Suc m) mod length fs"
    have "?i' < length fs" using i by (intro mod_less_divisor) auto
    then have pos: "pos (iter_at fs d ?i') = ?i'" using iter_at_fields [OF wf] by blast
    have cur: "cur (iter_at fs d ?j) = fs ! ?j" by (rule cur_iter_at [OF wf j])
    have step: "find_loop (Suc k) i t (iter_at fs d ?j) =
        (if ?i' \<noteq> i then find_loop k i t (iter_at fs d ?i') else Some (iter_at fs d ?i', False))"
      using False
      unfolding find_loop.simps cur nx Let_def pos field_matches_def by (simp only: if_False)
    show ?thesis
    proof (cases "Suc m < length fs")
      case True
      then have "(i + Suc m) mod length fs \<noteq> i"
        using i by (rule mod_shift_neq)
      then show ?thesis using Suc.IH [OF True _ none] Suc.prems(2) step by simp
    next
      case False
      then have "Suc m = length fs" using Suc.prems(1) by simp
      then have "(i + Suc m) mod length fs = i" using i by simp
      then show ?thesis using step none \<open>Suc m = length fs\<close> by simp
    qed
  qed
qed

lemma all_mod_iff: "i < n \<Longrightarrow> (\<forall>m < n. P ((i + m) mod n)) \<longleftrightarrow> (\<forall>j < n. P j)" for n :: nat
proof
  assume i: "i < n" and all: "\<forall>m < n. P ((i + m) mod n)"
  show "\<forall>j < n. P j"
  proof (intro allI impI)
    fix j assume j: "j < n"
    have "(i + (n - i + j) mod n) mod n = j" using i j by (simp add: mod_add_right_eq)
    moreover have "(n - i + j) mod n < n" using i by simp
    ultimately show "P j" using all by metis
  qed
qed auto

lemma pb_field_iter_find_result:
  assumes "wf_fields fs" and "i < length fs"
  shows "(\<exists>j < length fs. field_matches t (fs ! j) \<and>
        pb_field_iter_find (iter_at fs d i) t = Some (iter_at fs d j, True)) \<or>
    (\<forall>f \<in> set fs. \<not> field_matches t f) \<and>
        pb_field_iter_find (iter_at fs d i) t = Some (iter_at fs d i, False)"
proof -
  have eq: "pb_field_iter_find (iter_at fs d i) t = find_loop (Suc (length fs)) i t (iter_at fs d ((i + 0) mod length fs))"
    using assms by (simp add: pb_field_iter_find_def iter_at_fields del: find_loop.simps)
  have none: "(\<forall>m' < length fs. \<not> field_matches t (fs ! ((i + m') mod length fs))) \<longleftrightarrow>
      (\<forall>f \<in> set fs. \<not> field_matches t f)"
    by (simp only: all_mod_iff [OF assms(2), where P = "\<lambda>j. \<not> field_matches t (fs ! j)"]
        all_set_conv_all_nth)
  have "0 < length fs" using assms(2) by (rule le_less_trans [OF le0])
  from find_loop_result [OF assms this, where k = "Suc (length fs)" and t = t and d = d]
  show ?thesis unfolding eq none by simp
qed


text \<open>With distinct tags the entry found is the one with the tag.\<close>

definition distinct_tags :: "pb_field list \<Rightarrow> bool" where
  "distinct_tags fs \<longleftrightarrow> distinct (map tag fs)"

lemma pb_field_iter_find_distinct:
  assumes "wf_fields fs" "distinct_tags fs" "i < length fs" "j < length fs"
    and "PB_LTYPE (ftype (fs ! j)) \<noteq> PB_LTYPE_EXTENSION"
  shows "pb_field_iter_find (iter_at fs d i) (tag (fs ! j)) = Some (iter_at fs d j, True)"
proof -
  have "field_matches (tag (fs ! j)) (fs ! j)" using assms(5) by (simp add: field_matches_def)
  then have "\<not> (\<forall>f \<in> set fs. \<not> field_matches (tag (fs ! j)) f)" using assms(4) by auto
  then obtain k where k: "k < length fs" "field_matches (tag (fs ! j)) (fs ! k)"
    and find: "pb_field_iter_find (iter_at fs d i) (tag (fs ! j)) = Some (iter_at fs d k, True)"
    using pb_field_iter_find_result [OF assms(1,3), of "tag (fs ! j)" d] by blast
  have "map tag fs ! k = map tag fs ! j" using k assms(4) by (simp add: field_matches_def)
  then have "k = j"
    using assms(2,4) k(1) by (simp add: distinct_tags_def nth_eq_iff_index_eq del: nth_map)
  with find show ?thesis by simp
qed

subsection \<open>Required fields are numbered in order\<close>

definition is_required :: "pb_field \<Rightarrow> bool" where
  "is_required f \<longleftrightarrow> PB_HTYPE (ftype f) = PB_HTYPE_REQUIRED"

definition required_before :: "pb_field list \<Rightarrow> nat \<Rightarrow> nat" where
  "required_before fs i = length (filter is_required (take i fs))"

lemma required_field_index_iter_at:
  assumes "wf_fields fs" and "i < length fs"
  shows "required_field_index (iter_at fs d i) = of_nat (required_before fs i)"
  using assms(2)
proof (induction i)
  case 0
  then show ?case by (simp add: required_before_def iter_at.simps)
next
  case (Suc i)
  then have i: "i < length fs" by simp
  have t: "tag (field_at fs i) \<noteq> 0" "tag (field_at fs (Suc i)) \<noteq> 0"
    using assms(1) Suc.prems i field_at_tag by blast+
  have "PB_HTYPE (ftype (fs ! i)) = PB_HTYPE_ONEOF \<Longrightarrow> \<not> is_required (fs ! i)"
    by (simp add: is_required_def pb_consts)
  with Suc.IH [OF i] t i show ?case
    using iter_at_fields [OF assms(1) i, of d]
    by (auto simp: iter_at.simps pb_field_iter_next_def Let_def cur_def field_at_def
        required_before_def take_Suc_conv_app_nth is_required_def)
qed

end
