(* ===== verification/Pb_Memory.thy ===== *)
theory Pb_Memory
  imports Prelude
begin

unbundle bit_operations_syntax

section \<open>The memory the messages live in\<close>

text \<open>
  Message structs are reached through \<^verbatim>\<open>void*\<close> pointers computed from descriptors, so the model
  keeps them in a byte-addressed memory (\<open>cells\<close>): an address no object covers holds \<open>None\<close>, and an
  access to it is undefined behaviour. Scalars are little-endian. \<open>blocks\<close> records the blocks the
  allocator has given out (start and size), and \<open>answers\<close> what it will answer next: the address of
  the next block, or NULL, and the byte its fresh part holds.
\<close>

record heap =
  cells :: "addr \<Rightarrow> byte option"
  blocks :: "addr \<Rightarrow> nat option"
  answers :: "(addr \<times> byte) list"

primrec load_bytes :: "(addr \<Rightarrow> byte option) \<Rightarrow> addr \<Rightarrow> nat \<Rightarrow> byte list option" where
  "load_bytes c a 0 = Some []"
| "load_bytes c a (Suc n) =
     (case c a of None \<Rightarrow> None | Some b \<Rightarrow> map_option ((#) b) (load_bytes c (a + 1) n))"

primrec store_bytes :: "(addr \<Rightarrow> byte option) \<Rightarrow> addr \<Rightarrow> byte list \<Rightarrow> (addr \<Rightarrow> byte option) option" where
  "store_bytes c a [] = Some c"
| "store_bytes c a (b # bs) =
     (case c a of None \<Rightarrow> None | Some _ \<Rightarrow> store_bytes (c(a \<mapsto> b)) (a + 1) bs)"

definition load :: "heap \<Rightarrow> addr \<Rightarrow> nat \<Rightarrow> byte list option" where
  "load h a n = load_bytes (cells h) a n"

definition store :: "heap \<Rightarrow> addr \<Rightarrow> byte list \<Rightarrow> heap option" where
  "store h a bs = map_option (\<lambda>c. h\<lparr>cells := c\<rparr>) (store_bytes (cells h) a bs)"

text \<open>Scalars of one, two, four and eight bytes; a pointer has eight.\<close>

definition load_word :: "nat \<Rightarrow> heap \<Rightarrow> addr \<Rightarrow> 'a::len word option" where
  "load_word n h a = map_option le_word (load h a n)"

definition store_word :: "nat \<Rightarrow> heap \<Rightarrow> addr \<Rightarrow> 'a::len word \<Rightarrow> heap option" where
  "store_word n h a v = store h a (le_bytes n v)"

definition load_u8 :: "heap \<Rightarrow> addr \<Rightarrow> byte option" where "load_u8 = load_word 1"
definition load_u16 :: "heap \<Rightarrow> addr \<Rightarrow> u16 option" where "load_u16 = load_word 2"
definition load_u32 :: "heap \<Rightarrow> addr \<Rightarrow> u32 option" where "load_u32 = load_word 4"
definition load_u64 :: "heap \<Rightarrow> addr \<Rightarrow> u64 option" where "load_u64 = load_word 8"
definition load_ptr :: "heap \<Rightarrow> addr \<Rightarrow> addr option" where "load_ptr = load_word 8"

definition store_u8 :: "heap \<Rightarrow> addr \<Rightarrow> byte \<Rightarrow> heap option" where "store_u8 = store_word 1"
definition store_u16 :: "heap \<Rightarrow> addr \<Rightarrow> u16 \<Rightarrow> heap option" where "store_u16 = store_word 2"
definition store_u32 :: "heap \<Rightarrow> addr \<Rightarrow> u32 \<Rightarrow> heap option" where "store_u32 = store_word 4"
definition store_u64 :: "heap \<Rightarrow> addr \<Rightarrow> u64 \<Rightarrow> heap option" where "store_u64 = store_word 8"
definition store_ptr :: "heap \<Rightarrow> addr \<Rightarrow> addr \<Rightarrow> heap option" where "store_ptr = store_word 8"

definition load_bool :: "heap \<Rightarrow> addr \<Rightarrow> bool option" where
  "load_bool h a = map_option (\<lambda>b. b \<noteq> 0) (load_u8 h a)"

definition store_bool :: "heap \<Rightarrow> addr \<Rightarrow> bool \<Rightarrow> heap option" where
  "store_bool h a b = store_u8 h a (if b then 1 else 0)"

definition memset_zero :: "heap \<Rightarrow> addr \<Rightarrow> nat \<Rightarrow> heap option" where
  "memset_zero h a n = store h a (replicate n 0)"

text \<open>Memory operations inside a function whose state is a stream and the memory.\<close>

definition rd :: "(heap \<Rightarrow> 'v option) \<Rightarrow> 's \<times> heap \<Rightarrow> ('v, 's \<times> heap) outcome" where
  "rd f st = (case f (snd st) of Some v \<Rightarrow> Ok v st | None \<Rightarrow> Fault)"

definition wr :: "(heap \<Rightarrow> heap option) \<Rightarrow> 's \<times> heap \<Rightarrow> (unit, 's \<times> heap) outcome" where
  "wr f st = (case f (snd st) of Some h \<Rightarrow> Ok () (fst st, h) | None \<Rightarrow> Fault)"

definition on_stream :: "('s \<Rightarrow> ('a, 's) outcome) \<Rightarrow> 's \<times> heap \<Rightarrow> ('a, 's \<times> heap) outcome" where
  "on_stream op st =
     (case op (fst st) of
        Ok a s \<Rightarrow> Ok a (s, snd st) | Fail s \<Rightarrow> Fail (s, snd st) | Fault \<Rightarrow> Fault | Loop \<Rightarrow> Loop)"

subsection \<open>The allocator\<close>

definition unmap :: "(addr \<Rightarrow> byte option) \<Rightarrow> addr \<Rightarrow> nat \<Rightarrow> addr \<Rightarrow> byte option" where
  "unmap c p n = (\<lambda>x. if unat (x - p) < n then None else c x)"

definition map_block :: "(addr \<Rightarrow> byte option) \<Rightarrow> addr \<Rightarrow> byte list \<Rightarrow> addr \<Rightarrow> byte option" where
  "map_block c p bs = (\<lambda>x. if unat (x - p) < length bs then Some (bs ! unat (x - p)) else c x)"

text \<open>
  \<^verbatim>\<open>realloc\<close> on a pointer that is neither NULL nor a live block is undefined (\<open>None\<close>). An answer
  that overlaps other live memory is not one the allocator may give; it counts as a failure.
\<close>

definition pb_realloc :: "addr \<Rightarrow> u64 \<Rightarrow> heap \<Rightarrow> (addr \<times> heap) option" where
  "pb_realloc p n h =
     (if p \<noteq> 0 \<and> blocks h p = None then None
      else case answers h of
        [] \<Rightarrow> Some (0, h)
      | (q, fill) # rest \<Rightarrow>
          let h1 = h\<lparr>answers := rest\<rparr>;
              old = (case blocks h p of Some k \<Rightarrow> if p = 0 then 0 else k | None \<Rightarrow> 0);
              c1 = unmap (cells h) p old
          in if q = 0 \<or> (\<exists>i \<in> set [0..<unat n]. c1 (q + of_nat i) \<noteq> None) then Some (0, h1)
             else case load_bytes (cells h) p (min old (unat n)) of
                None \<Rightarrow> None
              | Some kept \<Rightarrow>
                  Some (q, h1\<lparr>cells := map_block c1 q (kept @ replicate (unat n - length kept) fill),
                     blocks := (if p = 0 then blocks h else (blocks h)(p := None))(q \<mapsto> unat n)\<rparr>))"

definition pb_free :: "addr \<Rightarrow> heap \<Rightarrow> heap option" where
  "pb_free p h =
     (if p = 0 then Some h
      else case blocks h p of
        None \<Rightarrow> None
      | Some k \<Rightarrow> Some (h\<lparr>cells := unmap (cells h) p k, blocks := (blocks h)(p := None)\<rparr>))"

subsection \<open>Loads and stores\<close>

definition mapped :: "(addr \<Rightarrow> byte option) \<Rightarrow> addr \<Rightarrow> nat \<Rightarrow> bool" where
  "mapped c a n \<longleftrightarrow> (\<forall>i < n. c (a + of_nat i) \<noteq> None)"

lemma load_bytes_eq_Some:
  "load_bytes c a n = Some bs \<longleftrightarrow> length bs = n \<and> (\<forall>i < n. c (a + of_nat i) = Some (bs ! i))"
proof (induction n arbitrary: a bs)
  case 0
  then show ?case by auto
next
  case (Suc n)
  show ?case
  proof (cases bs)
    case Nil
    then show ?thesis by (auto split: option.splits)
  next
    case (Cons b bs')
    have "(\<forall>i < Suc n. c (a + of_nat i) = Some (bs ! i)) \<longleftrightarrow>
        c a = Some b \<and> (\<forall>i < n. c (a + 1 + of_nat i) = Some (bs' ! i))"
      unfolding Cons All_less_Suc2 by (simp add: algebra_simps)
    with Suc.IH [of "a + 1" bs'] Cons show ?thesis
      by (auto split: option.splits)
  qed
qed


lemma load_bytes_None: "load_bytes c a n = None \<longleftrightarrow> \<not> mapped c a n"
proof
  assume "load_bytes c a n = None"
  show "\<not> mapped c a n"
  proof
    assume "mapped c a n"
    then have "\<forall>i < n. c (a + of_nat i) = Some (map (\<lambda>i. the (c (a + of_nat i))) [0..<n] ! i)"
      by (auto simp: mapped_def)
    then have "load_bytes c a n = Some (map (\<lambda>i. the (c (a + of_nat i))) [0..<n])"
      by (simp add: load_bytes_eq_Some)
    with \<open>load_bytes c a n = None\<close> show False by simp
  qed
next
  assume "\<not> mapped c a n"
  then show "load_bytes c a n = None"
    by (cases "load_bytes c a n") (auto simp: mapped_def load_bytes_eq_Some)
qed

lemma length_load: "load h a n = Some bs \<Longrightarrow> length bs = n"
  by (simp add: load_def load_bytes_eq_Some)

lemma mapped_Suc: "mapped c a (Suc n) \<longleftrightarrow> c a \<noteq> None \<and> mapped c (a + 1) n"
  unfolding mapped_def All_less_Suc2 by (simp add: algebra_simps)

lemma mapped_upd: "c a \<noteq> None \<Longrightarrow> mapped (c(a \<mapsto> b)) x n = mapped c x n"
  by (auto simp: mapped_def)

text \<open>A store changes exactly the cells it covers.\<close>

lemma unat_pred: "x \<noteq> (0::addr) \<Longrightarrow> unat x = Suc (unat (x - 1))"
  by (simp add: unat_minus_one unat_gt_0)

lemma store_bytes_result:
  "length bs \<le> 2 ^ 64 \<Longrightarrow> mapped c a (length bs) \<Longrightarrow>
   store_bytes c a bs = Some (map_block c a bs)"
proof (induction bs arbitrary: c a)
  case Nil
  then show ?case by (simp add: map_block_def)
next
  case (Cons b bs)
  have m: "c a \<noteq> None" "mapped (c(a \<mapsto> b)) (a + 1) (length bs)"
    using Cons.prems(2) by (simp_all add: mapped_Suc mapped_upd)
  have "map_block (c(a \<mapsto> b)) (a + 1) bs = map_block c a (b # bs)"
  proof
    fix x
    show "map_block (c(a \<mapsto> b)) (a + 1) bs x = map_block c a (b # bs) x"
    proof (cases "x = a")
      case True
      have "a - (a + 1) = - 1" by simp
      then have "unat (a - (a + 1)) = 2 ^ 64 - 1"
        by (simp only:) (simp add: unsigned_minus_1_eq_mask mask_eq_exp_minus_1)
      with True Cons.prems(1) show ?thesis by (simp add: map_block_def)
    next
      case False
      then have "unat (x - a) = Suc (unat (x - (a + 1)))"
        using unat_pred [of "x - a"] by (simp add: algebra_simps)
      with False show ?thesis by (simp add: map_block_def)
    qed
  qed
  with m Cons show ?case by auto
qed

lemma store_bytes_unmapped: "\<not> mapped c a (length bs) \<Longrightarrow> length bs \<le> 2 ^ 64 \<Longrightarrow> store_bytes c a bs = None"
proof (induction bs arbitrary: c a)
  case Nil
  then show ?case by (simp add: mapped_def)
next
  case (Cons b bs)
  show ?case
  proof (cases "c a")
    case (Some v)
    then have "\<not> mapped (c(a \<mapsto> b)) (a + 1) (length bs)"
      using Cons.prems(1) by (simp add: mapped_Suc mapped_upd)
    with Some Cons show ?thesis by simp
  qed simp
qed

lemma map_block_mapped: "mapped c a (length bs) \<Longrightarrow> mapped (map_block c a bs) b n = mapped c b n"
proof -
  assume m: "mapped c a (length bs)"
  have "map_block c a bs x = None \<longleftrightarrow> c x = None" for x
  proof (cases "unat (x - a) < length bs")
    case True
    then have "c (a + of_nat (unat (x - a))) \<noteq> None" using m unfolding mapped_def by blast
    with True show ?thesis by (simp add: map_block_def)
  qed (simp add: map_block_def)
  then show ?thesis by (simp add: mapped_def)
qed

definition in_region :: "addr \<Rightarrow> nat \<Rightarrow> addr \<Rightarrow> bool" where
  "in_region a n x \<longleftrightarrow> unat (x - a) < n"

lemma store_Some_iff:
  "length bs \<le> 2 ^ 64 \<Longrightarrow>
   store h a bs = Some h' \<longleftrightarrow>
     mapped (cells h) a (length bs) \<and> h' = h\<lparr>cells := map_block (cells h) a bs\<rparr>"
  by (cases "mapped (cells h) a (length bs)")
     (auto simp: store_def store_bytes_result store_bytes_unmapped)

lemma load_map_block:
  assumes "length bs \<le> 2 ^ 64"
  shows "load_bytes (map_block c a bs) a (length bs) = Some bs"
  unfolding load_bytes_eq_Some
proof (intro conjI allI impI)
  fix i assume i: "i < length bs"
  then have "unat (of_nat i :: addr) = i" using assms by (intro unat_of_nat_id) simp
  with i show "map_block c a bs (a + of_nat i) = Some (bs ! i)" by (simp add: map_block_def)
qed simp

lemma load_map_block_frame:
  assumes "\<forall>i < n. \<not> in_region a (length bs) (b + of_nat i)"
  shows "load_bytes (map_block c a bs) b n = load_bytes c b n"
proof -
  have eq: "map_block c a bs (b + of_nat i) = c (b + of_nat i)" if "i < n" for i
    using assms that by (auto simp: map_block_def in_region_def)
  have "load_bytes (map_block c a bs) b n = Some vs \<longleftrightarrow> load_bytes c b n = Some vs" for vs
    by (auto simp: load_bytes_eq_Some eq)
  then show ?thesis by (metis not_None_eq)
qed

subsection \<open>The contract of a scalar in memory\<close>

locale mem_cell =
  fixes ld :: "heap \<Rightarrow> addr \<Rightarrow> 'v option" and st :: "heap \<Rightarrow> addr \<Rightarrow> 'v \<Rightarrow> heap option"
    and width :: nat
  assumes ld_defined: "ld h a \<noteq> None \<longleftrightarrow> mapped (cells h) a width"
    and st_defined: "st h a v \<noteq> None \<longleftrightarrow> mapped (cells h) a width"
    and st_ld: "st h a v = Some h' \<Longrightarrow> ld h' a = Some v"
    and st_mapped: "st h a v = Some h' \<Longrightarrow> mapped (cells h') b n = mapped (cells h) b n"
    and st_outside: "st h a v = Some h' \<Longrightarrow> \<not> in_region a width x \<Longrightarrow> cells h' x = cells h x"
    and st_blocks: "st h a v = Some h' \<Longrightarrow> blocks h' = blocks h \<and> answers h' = answers h"
begin

lemma st_total: "mapped (cells h) a width \<Longrightarrow> \<exists>h'. st h a v = Some h'"
  using st_defined by blast

lemma st_other:
  assumes "st h a v = Some h'" and "\<forall>i < n. \<not> in_region a width (b + of_nat i)"
  shows "load h' b n = load h b n"
proof -
  have "cells h' (b + of_nat i) = cells h (b + of_nat i)" if "i < n" for i
    using assms that by (simp add: st_outside)
  then have "load h' b n = Some vs \<longleftrightarrow> load h b n = Some vs" for vs
    by (auto simp: load_def load_bytes_eq_Some)
  then show ?thesis by (metis not_None_eq)
qed

end

lemma word_cell:
  assumes "LENGTH('a::len) = 8 * n" and "n \<le> 8"
  shows "mem_cell (load_word n :: heap \<Rightarrow> addr \<Rightarrow> 'a word option) (store_word n) n"
proof
  fix h h' :: heap and a b x :: addr and v :: "'a word" and m :: nat
  have len: "length (le_bytes n v) \<le> 2 ^ 64" using assms(2) by simp
  note st = store_Some_iff [OF len, of h a]
  show "(load_word n h a :: 'a word option) \<noteq> None \<longleftrightarrow> mapped (cells h) a n"
    using load_bytes_None [of "cells h" a n] by (auto simp: load_word_def load_def)
  show "store_word n h a v \<noteq> None \<longleftrightarrow> mapped (cells h) a n"
    using st by (auto simp: store_word_def)
  assume "store_word n h a v = Some h'"
  then have h': "mapped (cells h) a n" "h' = h\<lparr>cells := map_block (cells h) a (le_bytes n v)\<rparr>"
    using st by (simp_all add: store_word_def)
  show "load_word n h' a = Some v"
    using load_map_block [OF len, of "cells h" a] assms(1) h'(2)
    by (simp add: load_word_def load_def)
  show "mapped (cells h') b m = mapped (cells h) b m"
    using h' map_block_mapped [of "cells h" a "le_bytes n v"] by simp
  show "cells h' x = cells h x" if "\<not> in_region a n x"
    using h'(2) that by (simp add: map_block_def in_region_def)
  show "blocks h' = blocks h \<and> answers h' = answers h"
    using h'(2) by simp
qed

interpretation u8: mem_cell load_u8 store_u8 1
  unfolding load_u8_def store_u8_def by (rule word_cell) simp_all
interpretation u16: mem_cell load_u16 store_u16 2
  unfolding load_u16_def store_u16_def by (rule word_cell) simp_all
interpretation u32: mem_cell load_u32 store_u32 4
  unfolding load_u32_def store_u32_def by (rule word_cell) simp_all
interpretation u64: mem_cell load_u64 store_u64 8
  unfolding load_u64_def store_u64_def by (rule word_cell) simp_all
interpretation ptr: mem_cell load_ptr store_ptr 8
  unfolding load_ptr_def store_ptr_def by (rule word_cell) simp_all

interpretation bool: mem_cell load_bool store_bool 1
proof
  fix h h' :: heap and a b x :: addr and v :: bool and m :: nat
  show "load_bool h a \<noteq> None \<longleftrightarrow> mapped (cells h) a 1"
    using u8.ld_defined [of h a] by (simp add: load_bool_def)
  show "store_bool h a v \<noteq> None \<longleftrightarrow> mapped (cells h) a 1"
    unfolding store_bool_def by (rule u8.st_defined)
  assume s: "store_bool h a v = Some h'"
  show "load_bool h' a = Some v"
    using u8.st_ld [OF s [unfolded store_bool_def]] by (simp add: load_bool_def)
  show "mapped (cells h') b m = mapped (cells h) b m"
    using s unfolding store_bool_def by (rule u8.st_mapped)
  show "cells h' x = cells h x" if "\<not> in_region a 1 x"
    using s that unfolding store_bool_def by (rule u8.st_outside)
  show "blocks h' = blocks h \<and> answers h' = answers h"
    using s unfolding store_bool_def by (rule u8.st_blocks)
qed

end
