(* ===== verification/Pb_Env.thy ===== *)
theory Pb_Env
  imports Pb_Istream Pb_Ostream Pb_Common Pb_Memory
begin

unbundle bit_operations_syntax

section \<open>The program around the library: constants and callbacks\<close>

text \<open>
  Encoding and decoding a message works on a stream and the memory. What the library reads besides
  is fixed for the run of the program, and the record \<open>env\<close> collects it: the descriptor arrays of
  submessage types (the targets of \<^verbatim>\<open>ptr\<close>), the \<^verbatim>\<open>pb_extension_type_t\<close> constants by address, the
  user's callback functions by address, and whether \<^verbatim>\<open>PB_ENABLE_MALLOC\<close> is defined. The callbacks
  and the allocator are code outside the library, so they are arguments of the model: a callback is
  any function of the stream, the memory and its arguments.

  The struct layouts are those of a 64-bit target: \<^verbatim>\<open>pb_bytes_array_t\<close> is \<open>size\<close> at 0 (four bytes)
  and \<open>bytes\<close> at 4; \<^verbatim>\<open>pb_callback_t\<close> is the function pointer at 0 and \<open>arg\<close> at 8;
  \<^verbatim>\<open>pb_extension_t\<close> is \<open>type\<close> at 0, \<open>dest\<close> at 8, \<open>next\<close> at 16 and \<open>found\<close> at 24.
\<close>

type_synonym est = "ostream \<times> heap"
type_synonym dst = "istream \<times> heap"

text \<open>The arguments of a field callback: the field and the address of the callback's \<^verbatim>\<open>arg\<close>.\<close>

type_synonym enc_callback = "pb_field \<Rightarrow> addr \<Rightarrow> est \<Rightarrow> (unit, est) outcome"
type_synonym dec_callback = "pb_field \<Rightarrow> addr \<Rightarrow> dst \<Rightarrow> (unit, dst) outcome"

text \<open>
  An extension type: its two optional handlers, which get the address of the \<^verbatim>\<open>pb_extension_t\<close> (and
  the tag and wire type when decoding), and \<^verbatim>\<open>arg\<close>, which the default handlers take for the
  descriptor of the extension field.
\<close>

record ext_type =
  et_decode :: "(addr \<Rightarrow> u32 \<Rightarrow> u32 \<Rightarrow> dst \<Rightarrow> (unit, dst) outcome) option"
  et_encode :: "(addr \<Rightarrow> est \<Rightarrow> (unit, est) outcome) option"
  et_arg :: pb_field

record env =
  msgs :: "nat \<Rightarrow> pb_field list"
  ext_types :: "addr \<Rightarrow> ext_type option"
  enc_cbs :: "addr \<Rightarrow> enc_callback option"
  dec_cbs :: "addr \<Rightarrow> dec_callback option"
  enable_malloc :: bool

definition bytes_offset :: addr where "bytes_offset = 4"
definition arg_offset :: addr where "arg_offset = 8"
definition dest_offset :: addr where "dest_offset = 8"
definition next_offset :: addr where "next_offset = 16"
definition found_offset :: addr where "found_offset = 24"

definition PB_BYTES_ARRAY_T_ALLOCSIZE :: "u64 \<Rightarrow> u64" where
  "PB_BYTES_ARRAY_T_ALLOCSIZE n = n + 4"

text \<open>\<^verbatim>\<open>extension->type\<close>, read through memory.\<close>

definition ext_type_of :: "env \<Rightarrow> addr \<Rightarrow> 's \<times> heap \<Rightarrow> (ext_type, 's \<times> heap) outcome" where
  "ext_type_of env ext st =
     andthen (rd (\<lambda>h. load_ptr h ext) st) (\<lambda>t st'.
       case ext_types env t of Some et \<Rightarrow> Ok et st' | None \<Rightarrow> Fault)"

text \<open>Bytes behind a pointer that is only dereferenced if they are really written.\<close>

definition peek :: "heap \<Rightarrow> addr \<Rightarrow> nat \<Rightarrow> byte list" where
  "peek h a n = (case load h a n of Some bs \<Rightarrow> bs | None \<Rightarrow> [])"

text \<open>A loop over the fields that returns \<^verbatim>\<open>false\<close> at the first one the test fails on.\<close>

function iter_all ::
  "(field_iter \<Rightarrow> 's \<Rightarrow> (bool, 's) outcome) \<Rightarrow> field_iter \<Rightarrow> 's \<Rightarrow> (bool, 's) outcome" where
  "iter_all test it s =
     andthen (test it s) (\<lambda>b s'.
       if \<not> b then Ok False s'
       else if snd (pb_field_iter_next it) then iter_all test (fst (pb_field_iter_next it)) s'
       else Ok True s')"
  by pat_completeness auto
termination
proof (relation "measure (\<lambda>(test, it, s). length (start it) - pos it)")
  fix test and it :: field_iter and s s' :: 'a and b
  assume "snd (pb_field_iter_next it)"
  then have "pb_field_iter_next it = (fst (pb_field_iter_next it), True)"
    by (metis (full_types) prod.collapse)
  from next_True [OF this]
  show "((test, fst (pb_field_iter_next it), s'), (test, it, s))
      \<in> measure (\<lambda>(test, it, s). length (start it) - pos it)"
    by auto
qed simp

declare iter_all.simps [simp del]

end
