(* ===== verification/Pb_Defaults.thy ===== *)
theory Pb_Defaults
  imports Pb_Env
begin

unbundle bit_operations_syntax

section \<open>Initialising and releasing messages (pb_decode.c)\<close>

text \<open>
  The functions of the decoder that touch only the memory: setting a message to its defaults,
  growing the allocation of a pointer field, and releasing what a message owns. Their state is
  still \<^verbatim>\<open>(stream, memory)\<close> so that the decoder can call them; all but \<open>allocate_field\<close> and
  \<open>pb_release_union_field\<close> work for any stream type. Fuel bounds the nesting of messages and the
  length of extension chains.
\<close>

definition dec_error :: "string \<Rightarrow> dst \<Rightarrow> ('a, dst) outcome" where
  "dec_error msg st = on_stream (\<lambda>s. return_error s msg) st"

subsection \<open>Extension chains\<close>

text \<open>
  A field iterator faked for an extension field. Only its current entry is used, so the descriptor
  array is that entry alone.
\<close>

definition iter_from_extension ::
  "env \<Rightarrow> addr \<Rightarrow> 's \<times> heap \<Rightarrow> (field_iter, 's \<times> heap) outcome" where
  "iter_from_extension env ext st =
     andthen (ext_type_of env ext st) (\<lambda>et st1.
     andthen (rd (\<lambda>h. load_ptr h (ext + dest_offset)) st1) (\<lambda>dest.
       let field = et_arg et;
           it = fst (pb_field_iter_begin [field] dest);
           it1 = it\<lparr>pData := dest, pSize := ext + found_offset\<rparr>
       in Ok (if PB_ATYPE (ftype field) = PB_ATYPE_POINTER then it1\<lparr>pData := ext + dest_offset\<rparr>
              else it1)))"

text \<open>\<^verbatim>\<open>while (ext != NULL) { \<dots>; ext = ext->next; }\<close>\<close>

primrec each_extension ::
  "nat \<Rightarrow> (addr \<Rightarrow> 's \<times> heap \<Rightarrow> (unit, 's \<times> heap) outcome) \<Rightarrow> addr \<Rightarrow> 's \<times> heap \<Rightarrow>
   (unit, 's \<times> heap) outcome" where
  "each_extension 0 body ext st = (if ext = 0 then Ok () st else Loop)"
| "each_extension (Suc k) body ext st =
     (if ext = 0 then Ok () st
      else andthen (body ext st) (\<lambda>_ st1.
        andthen (rd (\<lambda>h. load_ptr h (ext + next_offset)) st1) (\<lambda>nxt. each_extension k body nxt)))"

subsection \<open>Default values\<close>

definition message_walk ::
  "(field_iter \<Rightarrow> 's \<times> heap \<Rightarrow> (unit, 's \<times> heap) outcome) \<Rightarrow> pb_field list \<Rightarrow> addr \<Rightarrow> 's \<times> heap \<Rightarrow>
   (unit, 's \<times> heap) outcome" where
  "message_walk body fs dest st =
     (case pb_field_iter_begin fs dest of (it, nonempty) \<Rightarrow>
        if nonempty then iter_do_while body it st else Ok () st)"

text \<open>
  \<^verbatim>\<open>memcpy\<close> of the default value. A default is the bytes \<^verbatim>\<open>ptr\<close> points to; it must have at least
  \<^verbatim>\<open>data_size\<close> of them.
\<close>

definition copy_default :: "pb_field \<Rightarrow> addr \<Rightarrow> 's \<times> heap \<Rightarrow> (unit, 's \<times> heap) outcome" where
  "copy_default field p st =
     (case ptr field of
        Ptr_default bs \<Rightarrow>
          if unat (data_size field) \<le> length bs
          then wr (\<lambda>h. store h p (take (unat (data_size field)) bs)) st else Fault
      | Ptr_null \<Rightarrow> wr (\<lambda>h. memset_zero h p (unat (data_size field))) st
      | Ptr_fields _ \<Rightarrow> Fault)"

primrec pb_field_set_to_default ::
  "nat \<Rightarrow> env \<Rightarrow> field_iter \<Rightarrow> 's \<times> heap \<Rightarrow> (unit, 's \<times> heap) outcome" where
  "pb_field_set_to_default 0 env it st = Loop"
| "pb_field_set_to_default (Suc n) env it st =
     (let field = cur it; ty = ftype field in
      if PB_LTYPE ty = PB_LTYPE_EXTENSION then
        andthen (rd (\<lambda>h. load_ptr h (pData it)) st) (\<lambda>ext.
          each_extension n (\<lambda>ext st.
            andthen (wr (\<lambda>h. store_bool h (ext + found_offset) False) st) (\<lambda>_ st1.
            andthen (iter_from_extension env ext st1) (\<lambda>ext_iter.
              pb_field_set_to_default n env ext_iter))) ext)
      else if PB_ATYPE ty = PB_ATYPE_STATIC then
        (let init_data = (\<lambda>st.
           if PB_LTYPE ty = PB_LTYPE_SUBMESSAGE then
             (case ptr field of
                Ptr_fields k \<Rightarrow> message_walk (pb_field_set_to_default n env) (msgs env k) (pData it) st
              | _ \<Rightarrow> Fault)
           else copy_default field (pData it) st) in
         if PB_HTYPE ty = PB_HTYPE_OPTIONAL \<and> pSize it \<noteq> pData it
         then andthen (wr (\<lambda>h. store_bool h (pSize it) False) st) (\<lambda>_. init_data)
         else if PB_HTYPE ty = PB_HTYPE_REPEATED \<or> PB_HTYPE ty = PB_HTYPE_ONEOF
         then wr (\<lambda>h. store_u32 h (pSize it) 0) st
         else init_data st)
      else if PB_ATYPE ty = PB_ATYPE_POINTER then
        andthen (wr (\<lambda>h. store_ptr h (pData it) 0) st) (\<lambda>_ st1.
          if PB_HTYPE ty = PB_HTYPE_REPEATED \<or> PB_HTYPE ty = PB_HTYPE_ONEOF
          then wr (\<lambda>h. store_u32 h (pSize it) 0) st1
          else Ok () st1)
      else Ok () st)"

definition pb_message_set_to_defaults ::
  "nat \<Rightarrow> env \<Rightarrow> pb_field list \<Rightarrow> addr \<Rightarrow> 's \<times> heap \<Rightarrow> (unit, 's \<times> heap) outcome" where
  "pb_message_set_to_defaults n env = message_walk (pb_field_set_to_default n env)"

subsection \<open>Allocation\<close>

definition check_limit :: u64 where "check_limit = push_bit 32 1"

definition alloc_overflows :: "u64 \<Rightarrow> u64 \<Rightarrow> bool" where
  "alloc_overflows dsize asize \<longleftrightarrow>
     (check_limit \<le> dsize \<or> check_limit \<le> asize) \<and> (- 1 :: u64) div asize < dsize"

definition do_realloc :: "addr \<Rightarrow> u64 \<Rightarrow> 's \<times> heap \<Rightarrow> (addr, 's \<times> heap) outcome" where
  "do_realloc p n st =
     (case pb_realloc p n (snd st) of Some (q, h) \<Rightarrow> Ok q (fst st, h) | None \<Rightarrow> Fault)"

definition allocate_field :: "addr \<Rightarrow> u64 \<Rightarrow> u64 \<Rightarrow> dst \<Rightarrow> (unit, dst) outcome" where
  "allocate_field p dsize asize st =
     andthen (rd (\<lambda>h. load_ptr h p) st) (\<lambda>old st1.
       if dsize = 0 \<or> asize = 0 then dec_error ''invalid size'' st1
       else if alloc_overflows dsize asize then dec_error ''size too large'' st1
       else andthen (do_realloc old (asize * dsize) st1) (\<lambda>new st2.
         if new = 0 then dec_error ''realloc failed'' st2
         else wr (\<lambda>h. store_ptr h p new) st2))"

definition initialize_pointer_field ::
  "nat \<Rightarrow> env \<Rightarrow> addr \<Rightarrow> pb_field \<Rightarrow> 's \<times> heap \<Rightarrow> (unit, 's \<times> heap) outcome" where
  "initialize_pointer_field n env item field st =
     (if PB_LTYPE (ftype field) = PB_LTYPE_STRING \<or> PB_LTYPE (ftype field) = PB_LTYPE_BYTES
      then wr (\<lambda>h. store_ptr h item 0) st
      else if PB_LTYPE (ftype field) = PB_LTYPE_SUBMESSAGE then
        (case ptr field of
           Ptr_fields k \<Rightarrow> pb_message_set_to_defaults n env (msgs env k) item st
         | _ \<Rightarrow> Fault)
      else Ok () st)"

subsection \<open>Releasing\<close>

text \<open>\<^verbatim>\<open>while (count--)\<close> over submessages, and over the entries of an array of pointers.\<close>

primrec release_items ::
  "(addr \<Rightarrow> 's \<times> heap \<Rightarrow> (unit, 's \<times> heap) outcome) \<Rightarrow> u64 \<Rightarrow> nat \<Rightarrow> addr \<Rightarrow> 's \<times> heap \<Rightarrow>
   (unit, 's \<times> heap) outcome" where
  "release_items rel step 0 p st = Ok () st"
| "release_items rel step (Suc k) p st =
     andthen (rel p st) (\<lambda>_. release_items rel step k (p + step))"

definition free_entry :: "addr \<Rightarrow> 's \<times> heap \<Rightarrow> (unit, 's \<times> heap) outcome" where
  "free_entry p st =
     andthen (rd (\<lambda>h. load_ptr h p) st) (\<lambda>q st1.
     andthen (wr (pb_free q) st1) (\<lambda>_. wr (\<lambda>h. store_ptr h p 0)))"

text \<open>\<^verbatim>\<open>pb_release\<close> ignores a NULL struct, and otherwise releases every field.\<close>

definition release_message ::
  "(field_iter \<Rightarrow> 's \<times> heap \<Rightarrow> (unit, 's \<times> heap) outcome) \<Rightarrow> pb_field list \<Rightarrow> addr \<Rightarrow> 's \<times> heap \<Rightarrow>
   (unit, 's \<times> heap) outcome" where
  "release_message body fs dest st = (if dest = 0 then Ok () st else message_walk body fs dest st)"

definition release_count :: "field_iter \<Rightarrow> 's \<times> heap \<Rightarrow> (u32, 's \<times> heap) outcome" where
  "release_count it st =
     (if PB_HTYPE (ftype (cur it)) = PB_HTYPE_REPEATED then
        andthen (rd (\<lambda>h. load_u32 h (pSize it)) st) (\<lambda>count.
          Ok (if PB_ATYPE (ftype (cur it)) = PB_ATYPE_STATIC \<and> array_size (cur it) < count
              then array_size (cur it) else count))
      else Ok 1 st)"

definition release_submessages ::
  "(field_iter \<Rightarrow> 's \<times> heap \<Rightarrow> (unit, 's \<times> heap) outcome) \<Rightarrow> env \<Rightarrow> field_iter \<Rightarrow> 's \<times> heap \<Rightarrow>
   (unit, 's \<times> heap) outcome" where
  "release_submessages body env it st =
     andthen (if PB_ATYPE (ftype (cur it)) = PB_ATYPE_POINTER then rd (\<lambda>h. load_ptr h (pData it)) st
              else Ok (pData it) st) (\<lambda>item st1.
     andthen (release_count it st1) (\<lambda>count st2.
       if item = 0 \<or> count = 0 then Ok () st2
       else case ptr (cur it) of
              Ptr_fields k \<Rightarrow>
                release_items (release_message body (msgs env k)) (ucast (data_size (cur it)))
                  (unat count) item st2
            | _ \<Rightarrow> Fault))"

definition release_pointer :: "field_iter \<Rightarrow> 's \<times> heap \<Rightarrow> (unit, 's \<times> heap) outcome" where
  "release_pointer it st =
     (let ty = ftype (cur it) in
      andthen (if PB_HTYPE ty = PB_HTYPE_REPEATED \<and>
                  (PB_LTYPE ty = PB_LTYPE_STRING \<or> PB_LTYPE ty = PB_LTYPE_BYTES)
               then andthen (rd (\<lambda>h. load_ptr h (pData it)) st) (\<lambda>item st1.
                    andthen (rd (\<lambda>h. load_u32 h (pSize it)) st1) (\<lambda>count.
                      release_items free_entry 8 (unat count) item))
               else Ok () st) (\<lambda>_ st1.
      andthen (if PB_HTYPE ty = PB_HTYPE_REPEATED then wr (\<lambda>h. store_u32 h (pSize it) 0) st1
               else Ok () st1) (\<lambda>_ st2.
      free_entry (pData it) st2)))"

primrec pb_release_single_field ::
  "nat \<Rightarrow> env \<Rightarrow> field_iter \<Rightarrow> 's \<times> heap \<Rightarrow> (unit, 's \<times> heap) outcome" where
  "pb_release_single_field 0 env it st = Loop"
| "pb_release_single_field (Suc n) env it st =
     (let ty = ftype (cur it) in
      andthen (if PB_HTYPE ty = PB_HTYPE_ONEOF
               then andthen (rd (\<lambda>h. load_u32 h (pSize it)) st) (\<lambda>which. Ok (which = tag (cur it)))
               else Ok True st) (\<lambda>current st1.
        if \<not> current then Ok () st1
        else andthen
          (if PB_LTYPE ty = PB_LTYPE_EXTENSION then
             andthen (rd (\<lambda>h. load_ptr h (pData it)) st1) (\<lambda>ext.
               each_extension n (\<lambda>ext st.
                 andthen (iter_from_extension env ext st) (\<lambda>ext_iter.
                   pb_release_single_field n env ext_iter)) ext)
           else if PB_LTYPE ty = PB_LTYPE_SUBMESSAGE
           then release_submessages (pb_release_single_field n env) env it st1
           else Ok () st1) (\<lambda>_ st2.
          if PB_ATYPE ty = PB_ATYPE_POINTER then release_pointer it st2 else Ok () st2)))"

definition pb_release ::
  "nat \<Rightarrow> env \<Rightarrow> pb_field list \<Rightarrow> addr \<Rightarrow> 's \<times> heap \<Rightarrow> (unit, 's \<times> heap) outcome" where
  "pb_release n env = release_message (pb_release_single_field n env)"

text \<open>
  The value is the iterator, which the two searches move. A search out of fuel is \<open>Loop\<close>.
\<close>

definition pb_release_union_field ::
  "nat \<Rightarrow> env \<Rightarrow> field_iter \<Rightarrow> dst \<Rightarrow> (field_iter, dst) outcome" where
  "pb_release_union_field n env it st =
     andthen (rd (\<lambda>h. load_u32 h (pSize it)) st) (\<lambda>old_tag st1.
       let new_tag = tag (cur it) in
       if old_tag = 0 then Ok it st1
       else if old_tag = new_tag then Ok it st1
       else case pb_field_iter_find it old_tag of
              None \<Rightarrow> Loop
            | Some (it1, False) \<Rightarrow> dec_error ''invalid union tag'' st1
            | Some (it1, True) \<Rightarrow>
                andthen (pb_release_single_field n env it1 st1) (\<lambda>_ st2.
                  case pb_field_iter_find it1 new_tag of
                    None \<Rightarrow> Loop
                  | Some (it2, False) \<Rightarrow> dec_error ''iterator error'' st2
                  | Some (it2, True) \<Rightarrow> Ok it2 st2))"

end
