(* ===== verification/Pb_Decode.thy ===== *)
theory Pb_Decode
  imports Pb_Defaults
begin

unbundle bit_operations_syntax

section \<open>Decoding a message (pb_decode.c)\<close>

text \<open>
  The field decoders, the three ways of storing a field (static, pointer, callback), extensions,
  and the loop over the fields of a message. A function takes the state \<^verbatim>\<open>(stream, memory)\<close>.
  Submessages are decoded by the parameter \<open>noinit\<close>; \<open>pb_decode_noinit\<close> ties the knot with fuel
  for the nesting depth, which also bounds extension chains and the repetitions of a callback.
  The loops over input take as many steps as there are bytes left, and one more.
\<close>

type_synonym msg_decoder = "pb_field list \<Rightarrow> addr \<Rightarrow> dst \<Rightarrow> (unit, dst) outcome"
type_synonym decoder = "pb_field \<Rightarrow> addr \<Rightarrow> dst \<Rightarrow> (unit, dst) outcome"

subsection \<open>Field decoders\<close>

text \<open>\<^verbatim>\<open>pb_read\<close> into memory; nothing is stored through a NULL pointer.\<close>

definition read_to :: "addr \<Rightarrow> u64 \<Rightarrow> dst \<Rightarrow> (unit, dst) outcome" where
  "read_to p count st =
     andthen (on_stream (\<lambda>s. pb_read s (p = 0) count) st) (\<lambda>bs st1.
       if p = 0 then Ok () st1 else wr (\<lambda>h. store h p bs) st1)"

text \<open>
  The cascade that stores an integer in a field of 8, 4, 2 or 1 bytes and reads it back with
  (\<open>scast\<close>) or without (\<open>ucast\<close>) sign: it is stored first and compared afterwards.
\<close>

definition store_int ::
  "(u32 \<Rightarrow> u64) \<Rightarrow> (u16 \<Rightarrow> u64) \<Rightarrow> (byte \<Rightarrow> u64) \<Rightarrow> pb_field \<Rightarrow> addr \<Rightarrow> u64 \<Rightarrow> dst \<Rightarrow>
   (unit, dst) outcome" where
  "store_int ext32 ext16 ext8 field dest value st =
     andthen
       (if data_size field = 8 then andthen (wr (\<lambda>h. store_u64 h dest value) st) (\<lambda>_. Ok value)
        else if data_size field = 4
        then andthen (wr (\<lambda>h. store_u32 h dest (ucast value)) st) (\<lambda>_. Ok (ext32 (ucast value)))
        else if data_size field = 2
        then andthen (wr (\<lambda>h. store_u16 h dest (ucast value)) st) (\<lambda>_. Ok (ext16 (ucast value)))
        else if data_size field = 1
        then andthen (wr (\<lambda>h. store_u8 h dest (ucast value)) st) (\<lambda>_. Ok (ext8 (ucast value)))
        else dec_error ''invalid data_size'' st) (\<lambda>clamped st1.
     if clamped \<noteq> value then dec_error ''integer too large'' st1 else Ok () st1)"

definition store_signed :: "pb_field \<Rightarrow> addr \<Rightarrow> u64 \<Rightarrow> dst \<Rightarrow> (unit, dst) outcome" where
  "store_signed = store_int scast scast scast"

definition store_unsigned :: "pb_field \<Rightarrow> addr \<Rightarrow> u64 \<Rightarrow> dst \<Rightarrow> (unit, dst) outcome" where
  "store_unsigned = store_int ucast ucast ucast"

definition pb_dec_varint :: decoder where
  "pb_dec_varint field dest st =
     andthen (on_stream pb_decode_varint st) (\<lambda>value st1.
       let svalue = (if data_size field = 8 then value else scast (ucast value :: u32)) in
       store_signed field dest svalue st1)"

definition pb_dec_uvarint :: decoder where
  "pb_dec_uvarint field dest st =
     andthen (on_stream pb_decode_varint st) (\<lambda>value. store_unsigned field dest value)"

definition pb_dec_svarint :: decoder where
  "pb_dec_svarint field dest st =
     andthen (on_stream pb_decode_svarint st) (\<lambda>value. store_signed field dest value)"

definition pb_dec_fixed32 :: decoder where
  "pb_dec_fixed32 field dest st =
     andthen (on_stream pb_decode_fixed32 st) (\<lambda>v. wr (\<lambda>h. store_u32 h dest v))"

definition pb_dec_fixed64 :: decoder where
  "pb_dec_fixed64 field dest st =
     andthen (on_stream pb_decode_fixed64 st) (\<lambda>v. wr (\<lambda>h. store_u64 h dest v))"

text \<open>
  Where a string or bytes field goes: the field itself, or a block allocated for it, whose address
  is the value. Without malloc a pointer field is an error.
\<close>

definition string_target ::
  "env \<Rightarrow> pb_field \<Rightarrow> addr \<Rightarrow> u64 \<Rightarrow> string \<Rightarrow> dst \<Rightarrow> (addr, dst) outcome" where
  "string_target env field dest alloc_size overflow st =
     (if PB_ATYPE (ftype field) = PB_ATYPE_POINTER then
        (if \<not> enable_malloc env then dec_error ''no malloc support'' st
         else andthen (allocate_field dest alloc_size 1 st) (\<lambda>_. rd (\<lambda>h. load_ptr h dest)))
      else if ucast (data_size field) < alloc_size then dec_error overflow st
      else Ok dest st)"

definition pb_dec_bytes :: "env \<Rightarrow> decoder" where
  "pb_dec_bytes env field dest st =
     andthen (on_stream pb_decode_varint32 st) (\<lambda>sz st1.
       let alloc_size = PB_BYTES_ARRAY_T_ALLOCSIZE (ucast sz) in
       if PB_SIZE_MAX < sz then dec_error ''bytes overflow'' st1
       else if alloc_size < ucast sz then dec_error ''size too large'' st1
       else andthen (string_target env field dest alloc_size ''bytes overflow'' st1) (\<lambda>bdest st2.
         andthen (wr (\<lambda>h. store_u32 h bdest sz) st2) (\<lambda>_.
           read_to (bdest + bytes_offset) (ucast sz))))"

text \<open>\<^verbatim>\<open>size + 1\<close> is computed in 32 bits, then widened and compared.\<close>

definition pb_dec_string :: "env \<Rightarrow> decoder" where
  "pb_dec_string env field dest st =
     andthen (on_stream pb_decode_varint32 st) (\<lambda>sz st1.
       let alloc_size = ucast (sz + 1) :: u64 in
       if alloc_size < ucast sz then dec_error ''size too large'' st1
       else andthen (string_target env field dest alloc_size ''string overflow'' st1) (\<lambda>d st2.
         case read_to d (ucast sz) st2 of
           Ok _ st3 \<Rightarrow> wr (\<lambda>h. store_u8 h (d + ucast sz) 0) st3
         | Fail st3 \<Rightarrow> andthen (wr (\<lambda>h. store_u8 h (d + ucast sz) 0) st3) (\<lambda>_. Fail)
         | Fault \<Rightarrow> Fault
         | Loop \<Rightarrow> Loop))"

definition pb_dec_fixed_length_bytes :: decoder where
  "pb_dec_fixed_length_bytes field dest st =
     andthen (on_stream pb_decode_varint32 st) (\<lambda>sz st1.
       if PB_SIZE_MAX < sz then dec_error ''bytes overflow'' st1
       else if sz = 0 then wr (\<lambda>h. memset_zero h dest (unat (data_size field))) st1
       else if sz \<noteq> data_size field then dec_error ''incorrect fixed length bytes size'' st1
       else read_to dest (ucast (data_size field)) st1)"

subsection \<open>Submessages\<close>

text \<open>
  Run \<open>op\<close> on the substream, then close it: its state and error message are copied back to the
  parent whether \<open>op\<close> returned \<open>true\<close> or \<open>false\<close>.
\<close>

definition close_sub :: "bool \<Rightarrow> istream \<Rightarrow> dst \<Rightarrow> (unit, dst) outcome" where
  "close_sub status sub st =
     andthen (on_stream (\<lambda>s. pb_close_string_substream s sub) st) (\<lambda>_ st1.
       if status then Ok () st1 else Fail st1)"

definition in_substream :: "(dst \<Rightarrow> (unit, dst) outcome) \<Rightarrow> istream \<Rightarrow> dst \<Rightarrow> (unit, dst) outcome" where
  "in_substream op sub st =
     (case op (sub, snd st) of
        Ok _ (sub', h) \<Rightarrow> close_sub True sub' (fst st, h)
      | Fail (sub', h) \<Rightarrow> close_sub False sub' (fst st, h)
      | Fault \<Rightarrow> Fault
      | Loop \<Rightarrow> Loop)"

text \<open>\<^verbatim>\<open>pb_decode\<close>, given what \<^verbatim>\<open>pb_decode_noinit\<close> does.\<close>

definition decode_after_init :: "nat \<Rightarrow> env \<Rightarrow> msg_decoder \<Rightarrow> msg_decoder" where
  "decode_after_init n env noinit fs dest st =
     andthen (pb_message_set_to_defaults n env fs dest st) (\<lambda>_ st1.
       case noinit fs dest st1 of
         Fail st2 \<Rightarrow>
           if enable_malloc env then andthen (pb_release n env fs dest st2) (\<lambda>_. Fail) else Fail st2
       | r \<Rightarrow> r)"

definition pb_dec_submessage :: "nat \<Rightarrow> env \<Rightarrow> msg_decoder \<Rightarrow> decoder" where
  "pb_dec_submessage n env noinit field dest st =
     andthen (on_stream pb_make_string_substream st) (\<lambda>sub st1.
       case ptr field of
         Ptr_null \<Rightarrow> dec_error ''invalid field descriptor'' st1
       | Ptr_default _ \<Rightarrow> Fault
       | Ptr_fields k \<Rightarrow>
           in_substream
             (if PB_HTYPE (ftype field) = PB_HTYPE_REPEATED
              then decode_after_init n env noinit (msgs env k) dest
              else noinit (msgs env k) dest) sub st1)"

definition PB_DECODERS :: "nat \<Rightarrow> env \<Rightarrow> msg_decoder \<Rightarrow> byte \<Rightarrow> decoder option" where
  "PB_DECODERS n env noinit ltype =
     (if ltype = PB_LTYPE_VARINT then Some pb_dec_varint
      else if ltype = PB_LTYPE_UVARINT then Some pb_dec_uvarint
      else if ltype = PB_LTYPE_SVARINT then Some pb_dec_svarint
      else if ltype = PB_LTYPE_FIXED32 then Some pb_dec_fixed32
      else if ltype = PB_LTYPE_FIXED64 then Some pb_dec_fixed64
      else if ltype = PB_LTYPE_BYTES then Some (pb_dec_bytes env)
      else if ltype = PB_LTYPE_STRING then Some (pb_dec_string env)
      else if ltype = PB_LTYPE_SUBMESSAGE then Some (pb_dec_submessage n env noinit)
      else if ltype = PB_LTYPE_EXTENSION then Some (\<lambda>_ _ _. Fault)
      else if ltype = PB_LTYPE_FIXED_LENGTH_BYTES then Some pb_dec_fixed_length_bytes
      else None)"

subsection \<open>Static fields\<close>

text \<open>
  \<^verbatim>\<open>data_size * (*size)\<close> is a product of two \<^verbatim>\<open>pb_size_t\<close>, so it wraps at 32 bits before it is
  added to the pointer.
\<close>

definition item_addr :: "addr \<Rightarrow> pb_field \<Rightarrow> u32 \<Rightarrow> addr" where
  "item_addr base field index = base + ucast (data_size field * index)"

definition incr_size :: "addr \<Rightarrow> dst \<Rightarrow> (unit, dst) outcome" where
  "incr_size p st =
     andthen (rd (\<lambda>h. load_u32 h p) st) (\<lambda>sz. wr (\<lambda>h. store_u32 h p (sz + 1)))"

text \<open>
  The loop over a packed array, on the substream; the value is \<^verbatim>\<open>status\<close>. Every round reads at
  least a byte, so one more round than there are bytes left is enough.
\<close>

primrec packed_static :: "nat \<Rightarrow> decoder \<Rightarrow> field_iter \<Rightarrow> dst \<Rightarrow> (bool, dst) outcome" where
  "packed_static 0 func it st = Loop"
| "packed_static (Suc k) func it st =
     (if bytes_left (fst st) = 0 then Ok True st
      else andthen (rd (\<lambda>h. load_u32 h (pSize it)) st) (\<lambda>sz st1.
        if \<not> sz < array_size (cur it) then Ok True st1
        else case func (cur it) (item_addr (pData it) (cur it) sz) st1 of
               Ok _ st2 \<Rightarrow> andthen (incr_size (pSize it) st2) (\<lambda>_. packed_static k func it)
             | Fail st2 \<Rightarrow> Ok False st2
             | Fault \<Rightarrow> Fault
             | Loop \<Rightarrow> Loop))"

definition decode_packed_static :: "decoder \<Rightarrow> field_iter \<Rightarrow> dst \<Rightarrow> (unit, dst) outcome" where
  "decode_packed_static func it st =
     andthen (on_stream pb_make_string_substream st) (\<lambda>sub st1.
       case packed_static (Suc (unat (bytes_left sub))) func it (sub, snd st1) of
         Ok status (sub', h) \<Rightarrow>
           if bytes_left sub' \<noteq> 0 then dec_error ''array overflow'' (fst st1, h)
           else close_sub status sub' (fst st1, h)
       | Fail (sub', h) \<Rightarrow> Fail (fst st1, h)
       | Fault \<Rightarrow> Fault
       | Loop \<Rightarrow> Loop)"

definition decode_static_field ::
  "nat \<Rightarrow> env \<Rightarrow> msg_decoder \<Rightarrow> u32 \<Rightarrow> field_iter \<Rightarrow> dst \<Rightarrow> (unit, dst) outcome" where
  "decode_static_field n env noinit wire_type it st =
     (let field = cur it; ty = ftype field in
      case PB_DECODERS n env noinit (PB_LTYPE ty) of
        None \<Rightarrow> Fault
      | Some func \<Rightarrow>
          if PB_HTYPE ty = PB_HTYPE_REQUIRED then func field (pData it) st
          else if PB_HTYPE ty = PB_HTYPE_OPTIONAL then
            andthen (if pSize it \<noteq> pData it then wr (\<lambda>h. store_bool h (pSize it) True) st else Ok () st)
              (\<lambda>_. func field (pData it))
          else if PB_HTYPE ty = PB_HTYPE_REPEATED then
            (if wire_type = PB_WT_STRING \<and> PB_LTYPE ty \<le> PB_LTYPE_LAST_PACKABLE
             then decode_packed_static func it st
             else andthen (rd (\<lambda>h. load_u32 h (pSize it)) st) (\<lambda>sz st1.
               if array_size field \<le> sz then dec_error ''array overflow'' st1
               else andthen (incr_size (pSize it) st1) (\<lambda>_.
                 func field (item_addr (pData it) field sz))))
          else if PB_HTYPE ty = PB_HTYPE_ONEOF then
            andthen (wr (\<lambda>h. store_u32 h (pSize it) (tag field)) st) (\<lambda>_ st1.
            andthen (if PB_LTYPE ty = PB_LTYPE_SUBMESSAGE
                     then andthen (wr (\<lambda>h. memset_zero h (pData it) (unat (data_size field))) st1)
                       (\<lambda>_ st2. case ptr field of
                          Ptr_fields k \<Rightarrow> pb_message_set_to_defaults n env (msgs env k) (pData it) st2
                        | _ \<Rightarrow> Fault)
                     else Ok () st1) (\<lambda>_.
              func field (pData it)))
          else dec_error ''invalid field type'' st)"

subsection \<open>Pointer fields\<close>

text \<open>
  The packed array of a pointer field: \<open>allocated\<close> is the local \<^verbatim>\<open>allocated_size\<close>. The value is the
  status and, for the one error that is set on the parent stream, whether it was set.
\<close>

primrec packed_pointer ::
  "nat \<Rightarrow> nat \<Rightarrow> env \<Rightarrow> decoder \<Rightarrow> field_iter \<Rightarrow> u64 \<Rightarrow> dst \<Rightarrow> (bool \<times> bool, dst) outcome" where
  "packed_pointer 0 n env func it allocated st = Loop"
| "packed_pointer (Suc k) n env func it allocated st =
     (if bytes_left (fst st) = 0 then Ok (True, False) st
      else andthen (rd (\<lambda>h. load_u32 h (pSize it)) st) (\<lambda>sz st1.
        let field = cur it;
            grow = allocated < ucast sz + 1;
            allocated' = (if grow then allocated + ((bytes_left (fst st1) - 1) div ucast (data_size field) + 1)
                          else allocated) in
        if grow \<and> data_size field = 0 then Fault
        else case (if grow then allocate_field (pData it) (ucast (data_size field)) allocated' st1
                   else Ok () st1) of
          Fail st2 \<Rightarrow> Ok (False, False) st2
        | Fault \<Rightarrow> Fault
        | Loop \<Rightarrow> Loop
        | Ok _ st2 \<Rightarrow>
            andthen (rd (\<lambda>h. load_ptr h (pData it)) st2) (\<lambda>base st3.
            andthen (rd (\<lambda>h. load_u32 h (pSize it)) st3) (\<lambda>sz2 st4.
            let item = item_addr base field sz2 in
            andthen (initialize_pointer_field n env item field st4) (\<lambda>_ st5.
              case func field item st5 of
                Fail st6 \<Rightarrow> Ok (False, False) st6
              | Fault \<Rightarrow> Fault
              | Loop \<Rightarrow> Loop
              | Ok _ st6 \<Rightarrow>
                  andthen (rd (\<lambda>h. load_u32 h (pSize it)) st6) (\<lambda>sz3 st7.
                    if sz3 = PB_SIZE_MAX then Ok (False, True) st7
                    else andthen (incr_size (pSize it) st7) (\<lambda>_.
                      packed_pointer k n env func it allocated')))))))"

definition decode_packed_pointer ::
  "nat \<Rightarrow> env \<Rightarrow> decoder \<Rightarrow> field_iter \<Rightarrow> dst \<Rightarrow> (unit, dst) outcome" where
  "decode_packed_pointer n env func it st =
     andthen (rd (\<lambda>h. load_u32 h (pSize it)) st) (\<lambda>sz st0.
     andthen (on_stream pb_make_string_substream st0) (\<lambda>sub st1.
       case packed_pointer (Suc (unat (bytes_left sub))) n env func it (ucast sz) (sub, snd st1) of
         Ok (status, too_many) (sub', h) \<Rightarrow>
           let parent = (if too_many then (fst st1)\<lparr>errmsg := Some ''too many array entries''\<rparr>
                         else fst st1)
           in close_sub status sub' (parent, h)
       | Fail (sub', h) \<Rightarrow> Fail (fst st1, h)
       | Fault \<Rightarrow> Fault
       | Loop \<Rightarrow> Loop))"

definition decode_pointer_single ::
  "nat \<Rightarrow> env \<Rightarrow> decoder \<Rightarrow> field_iter \<Rightarrow> dst \<Rightarrow> (unit, dst) outcome" where
  "decode_pointer_single n env func it st =
     (let field = cur it; ty = ftype field in
      andthen (if PB_LTYPE ty = PB_LTYPE_SUBMESSAGE
               then andthen (rd (\<lambda>h. load_ptr h (pData it)) st) (\<lambda>old st'.
                 if old \<noteq> 0 then pb_release_single_field n env it st' else Ok () st')
               else Ok () st) (\<lambda>_ st1.
      andthen (if PB_HTYPE ty = PB_HTYPE_ONEOF then wr (\<lambda>h. store_u32 h (pSize it) (tag field)) st1
               else Ok () st1) (\<lambda>_ st2.
        if PB_LTYPE ty = PB_LTYPE_STRING \<or> PB_LTYPE ty = PB_LTYPE_BYTES
        then func field (pData it) st2
        else andthen (allocate_field (pData it) (ucast (data_size field)) 1 st2) (\<lambda>_ st3.
             andthen (rd (\<lambda>h. load_ptr h (pData it)) st3) (\<lambda>p st4.
             andthen (initialize_pointer_field n env p field st4) (\<lambda>_ st5.
             andthen (rd (\<lambda>h. load_ptr h (pData it)) st5) (\<lambda>p'. func field p')))))))"

definition decode_pointer_item ::
  "nat \<Rightarrow> env \<Rightarrow> decoder \<Rightarrow> field_iter \<Rightarrow> dst \<Rightarrow> (unit, dst) outcome" where
  "decode_pointer_item n env func it st =
     (let field = cur it in
      andthen (rd (\<lambda>h. load_u32 h (pSize it)) st) (\<lambda>sz st1.
        if sz = PB_SIZE_MAX then dec_error ''too many array entries'' st1
        else andthen (incr_size (pSize it) st1) (\<lambda>_ st2.
          andthen (rd (\<lambda>h. load_u32 h (pSize it)) st2) (\<lambda>sz2 st3.
          andthen (allocate_field (pData it) (ucast (data_size field)) (ucast sz2) st3) (\<lambda>_ st4.
          andthen (rd (\<lambda>h. load_ptr h (pData it)) st4) (\<lambda>base st5.
          andthen (rd (\<lambda>h. load_u32 h (pSize it)) st5) (\<lambda>sz3 st6.
          let item = item_addr base field (sz3 - 1) in
          andthen (initialize_pointer_field n env item field st6) (\<lambda>_. func field item))))))))"

definition decode_pointer_field ::
  "nat \<Rightarrow> env \<Rightarrow> msg_decoder \<Rightarrow> u32 \<Rightarrow> field_iter \<Rightarrow> dst \<Rightarrow> (unit, dst) outcome" where
  "decode_pointer_field n env noinit wire_type it st =
     (if \<not> enable_malloc env then dec_error ''no malloc support'' st
      else let ty = ftype (cur it) in
        case PB_DECODERS n env noinit (PB_LTYPE ty) of
          None \<Rightarrow> Fault
        | Some func \<Rightarrow>
            if PB_HTYPE ty = PB_HTYPE_REQUIRED \<or> PB_HTYPE ty = PB_HTYPE_OPTIONAL \<or>
               PB_HTYPE ty = PB_HTYPE_ONEOF
            then decode_pointer_single n env func it st
            else if PB_HTYPE ty = PB_HTYPE_REPEATED then
              (if wire_type = PB_WT_STRING \<and> PB_LTYPE ty \<le> PB_LTYPE_LAST_PACKABLE
               then decode_packed_pointer n env func it st
               else decode_pointer_item n env func it st)
            else dec_error ''invalid field type'' st)"

subsection \<open>Callback fields\<close>

definition call_decoder :: "env \<Rightarrow> field_iter \<Rightarrow> dst \<Rightarrow> (unit, dst) outcome" where
  "call_decoder env it st =
     andthen (rd (\<lambda>h. load_ptr h (pData it)) st) (\<lambda>f st1.
       case dec_cbs env f of Some cb \<Rightarrow> cb (cur it) (pData it + arg_offset) st1 | None \<Rightarrow> Fault)"

text \<open>
  \<^verbatim>\<open>do \<dots> while (substream.bytes_left)\<close>: a callback may leave input for its next call. The number of
  calls is bounded by fuel, because a callback need not read anything. The value is whether the
  callback returned \<open>true\<close> every time.
\<close>

primrec callback_loop :: "nat \<Rightarrow> env \<Rightarrow> field_iter \<Rightarrow> dst \<Rightarrow> (bool, dst) outcome" where
  "callback_loop 0 env it st = Loop"
| "callback_loop (Suc k) env it st =
     (case call_decoder env it st of
        Ok _ st1 \<Rightarrow> if bytes_left (fst st1) \<noteq> 0 then callback_loop k env it st1 else Ok True st1
      | Fail st1 \<Rightarrow> Ok False st1
      | Fault \<Rightarrow> Fault
      | Loop \<Rightarrow> Loop)"

definition decode_callback_field ::
  "nat \<Rightarrow> env \<Rightarrow> u32 \<Rightarrow> field_iter \<Rightarrow> dst \<Rightarrow> (unit, dst) outcome" where
  "decode_callback_field n env wire_type it st =
     andthen (rd (\<lambda>h. load_ptr h (pData it)) st) (\<lambda>f st1.
       if f = 0 then on_stream (\<lambda>s. pb_skip_field s wire_type) st1
       else if wire_type = PB_WT_STRING then
         andthen (on_stream pb_make_string_substream st1) (\<lambda>sub st2.
           case callback_loop n env it (sub, snd st2) of
             Ok True (sub', h) \<Rightarrow> close_sub True sub' (fst st2, h)
           | Ok False (sub', h) \<Rightarrow> dec_error ''callback failed'' (fst st2, h)
           | Fail (sub', h) \<Rightarrow> Fail (fst st2, h)
           | Fault \<Rightarrow> Fault
           | Loop \<Rightarrow> Loop)
       else
         andthen (on_stream (\<lambda>s. read_raw_value s wire_type 10) st1) (\<lambda>buffer st2.
           case call_decoder env it
                  (pb_istream_from_buffer buffer (of_nat (length buffer)), snd st2) of
             Ok _ (sub', h) \<Rightarrow> Ok () (fst st2, h)
           | Fail (sub', h) \<Rightarrow> Fail (fst st2, h)
           | Fault \<Rightarrow> Fault
           | Loop \<Rightarrow> Loop))"

subsection \<open>Any field\<close>

text \<open>The value is the iterator, which releasing the old member of a oneof moves and restores.\<close>

definition decode_field ::
  "nat \<Rightarrow> env \<Rightarrow> msg_decoder \<Rightarrow> u32 \<Rightarrow> field_iter \<Rightarrow> dst \<Rightarrow> (field_iter, dst) outcome" where
  "decode_field n env noinit wire_type it0 st0 =
     andthen (if enable_malloc env \<and> PB_HTYPE (ftype (cur it0)) = PB_HTYPE_ONEOF
              then pb_release_union_field n env it0 st0 else Ok it0 st0) (\<lambda>it st.
     andthen
       (if PB_ATYPE (ftype (cur it)) = PB_ATYPE_STATIC
        then decode_static_field n env noinit wire_type it st
        else if PB_ATYPE (ftype (cur it)) = PB_ATYPE_POINTER
        then decode_pointer_field n env noinit wire_type it st
        else if PB_ATYPE (ftype (cur it)) = PB_ATYPE_CALLBACK
        then decode_callback_field n env wire_type it st
        else dec_error ''invalid field type'' st) (\<lambda>_. Ok it))"

subsection \<open>Extensions\<close>

definition default_extension_decoder ::
  "nat \<Rightarrow> env \<Rightarrow> msg_decoder \<Rightarrow> addr \<Rightarrow> u32 \<Rightarrow> u32 \<Rightarrow> dst \<Rightarrow> (unit, dst) outcome" where
  "default_extension_decoder n env noinit ext t wire_type st =
     andthen (ext_type_of env ext st) (\<lambda>et st1.
       if tag (et_arg et) \<noteq> t then Ok () st1
       else andthen (iter_from_extension env ext st1) (\<lambda>it st2.
         andthen (wr (\<lambda>h. store_bool h (ext + found_offset) True) st2) (\<lambda>_ st3.
         andthen (decode_field n env noinit wire_type it st3) (\<lambda>_. Ok ()))))"

text \<open>Each extension in turn, until one has moved the stream from \<^verbatim>\<open>pos\<close>.\<close>

primrec decode_extensions ::
  "nat \<Rightarrow> (addr \<Rightarrow> u32 \<Rightarrow> u32 \<Rightarrow> dst \<Rightarrow> (unit, dst) outcome) \<Rightarrow> env \<Rightarrow> u32 \<Rightarrow> u32 \<Rightarrow> u64 \<Rightarrow> addr \<Rightarrow>
   dst \<Rightarrow> (unit, dst) outcome" where
  "decode_extensions 0 dflt env t wire_type p ext st =
     (if ext \<noteq> 0 \<and> p = bytes_left (fst st) then Loop else Ok () st)"
| "decode_extensions (Suc k) dflt env t wire_type p ext st =
     (if ext \<noteq> 0 \<and> p = bytes_left (fst st) then
        andthen (ext_type_of env ext st) (\<lambda>et st1.
        andthen (case et_decode et of Some dec \<Rightarrow> dec ext t wire_type st1
                 | None \<Rightarrow> dflt ext t wire_type st1) (\<lambda>_ st2.
        andthen (rd (\<lambda>h. load_ptr h (ext + next_offset)) st2) (\<lambda>nxt.
          decode_extensions k dflt env t wire_type p nxt)))
      else Ok () st)"

definition decode_extension ::
  "nat \<Rightarrow> env \<Rightarrow> msg_decoder \<Rightarrow> u32 \<Rightarrow> u32 \<Rightarrow> field_iter \<Rightarrow> dst \<Rightarrow> (unit, dst) outcome" where
  "decode_extension n env noinit t wire_type it st =
     andthen (rd (\<lambda>h. load_ptr h (pData it)) st) (\<lambda>ext st1.
       decode_extensions n (default_extension_decoder n env noinit) env t wire_type
         (bytes_left (fst st1)) ext st1)"

primrec find_extension_loop :: "nat \<Rightarrow> nat \<Rightarrow> field_iter \<Rightarrow> (field_iter \<times> bool) option" where
  "find_extension_loop 0 first it = None"
| "find_extension_loop (Suc k) first it =
     (if PB_LTYPE (ftype (cur it)) = PB_LTYPE_EXTENSION then Some (it, True)
      else let it' = fst (pb_field_iter_next it) in
        if pos it' \<noteq> first then find_extension_loop k first it' else Some (it', False))"

definition find_extension_field :: "field_iter \<Rightarrow> (field_iter \<times> bool) option" where
  "find_extension_field it = find_extension_loop (Suc (length (start it))) (pos it) it"

subsection \<open>The fields of a message\<close>

text \<open>The local variables of \<^verbatim>\<open>pb_decode_noinit\<close> that live across rounds of its loop.\<close>

record scan =
  sc_iter :: field_iter
  sc_seen :: "u32 list"
  sc_ext_start :: u32

definition mark_seen :: "field_iter \<Rightarrow> u32 list \<Rightarrow> u32 list" where
  "mark_seen it seen =
     (if PB_HTYPE (ftype (cur it)) = PB_HTYPE_REQUIRED \<and> required_field_index it < PB_MAX_REQUIRED_FIELDS
      then let word = unat (drop_bit 5 (required_field_index it));
               tmp = push_bit (unat (required_field_index it AND 31)) 1
           in seen[word := seen ! word OR tmp]
      else seen)"

text \<open>
  A tag no field has: the extension field, if there is one and the tag can be in its range, gets a
  chance to read the data; otherwise the data is skipped.
\<close>

definition decode_unknown ::
  "nat \<Rightarrow> env \<Rightarrow> msg_decoder \<Rightarrow> u32 \<Rightarrow> u32 \<Rightarrow> scan \<Rightarrow> dst \<Rightarrow> (scan, dst) outcome" where
  "decode_unknown n env noinit t wire_type v st =
     (let skip = (\<lambda>v st. andthen (on_stream (\<lambda>s. pb_skip_field s wire_type) st) (\<lambda>_. Ok v)) in
      if \<not> sc_ext_start v \<le> t then skip v st
      else case find_extension_field (sc_iter v) of
        None \<Rightarrow> Loop
      | Some (it, found) \<Rightarrow>
          let v1 = v\<lparr>sc_iter := it, sc_ext_start := (if found then tag (cur it) else - 1)\<rparr> in
          if \<not> sc_ext_start v1 \<le> t then skip v1 st
          else andthen (decode_extension n env noinit t wire_type it st) (\<lambda>_ st1.
            if bytes_left (fst st) \<noteq> bytes_left (fst st1) then Ok v1 st1 else skip v1 st1))"

definition decode_tagged ::
  "nat \<Rightarrow> env \<Rightarrow> msg_decoder \<Rightarrow> u32 \<Rightarrow> u32 \<Rightarrow> scan \<Rightarrow> dst \<Rightarrow> (scan, dst) outcome" where
  "decode_tagged n env noinit t wire_type v st =
     (case pb_field_iter_find (sc_iter v) t of
        None \<Rightarrow> Loop
      | Some (it, False) \<Rightarrow> decode_unknown n env noinit t wire_type (v\<lparr>sc_iter := it\<rparr>) st
      | Some (it, True) \<Rightarrow>
          andthen (decode_field n env noinit wire_type it st) (\<lambda>it'.
            Ok (v\<lparr>sc_iter := it', sc_seen := mark_seen it (sc_seen v)\<rparr>)))"

text \<open>
  One round per field. Every round reads at least the byte of a tag, so one more round than there
  are bytes left is enough.
\<close>

primrec decode_loop :: "nat \<Rightarrow> nat \<Rightarrow> env \<Rightarrow> msg_decoder \<Rightarrow> scan \<Rightarrow> dst \<Rightarrow> (scan, dst) outcome" where
  "decode_loop 0 n env noinit v st = Loop"
| "decode_loop (Suc k) n env noinit v st =
     (if bytes_left (fst st) = 0 then Ok v st
      else andthen (on_stream pb_decode_tag st) (\<lambda>(ok, wire_type, t, eof) st1.
        if \<not> ok then (if eof then Ok v st1 else Fail st1)
        else andthen (decode_tagged n env noinit t wire_type v st1) (\<lambda>v'.
          decode_loop k n env noinit v')))"

text \<open>
  The check for required fields. \<open>seek_end\<close> is the walk to the end of the array: the index and the
  type of the last entry, and the iterator after it. The code shifts \<^verbatim>\<open>allbits\<close> right by 32 minus
  the remaining count (the whole width when the count is a multiple of 32) and reads the word after
  the whole ones (past the array when there are 64 or more): both are undefined, and \<open>None\<close> here.
\<close>

function seek_end :: "field_iter \<Rightarrow> u32 \<times> byte \<times> field_iter" where
  "seek_end it =
     (if snd (pb_field_iter_next it) then seek_end (fst (pb_field_iter_next it))
      else (required_field_index it, ftype (cur it), fst (pb_field_iter_next it)))"
  by pat_completeness auto
termination
proof (relation "measure (\<lambda>it. length (start it) - pos it)")
  fix it :: field_iter
  assume "snd (pb_field_iter_next it)"
  then have "pb_field_iter_next it = (fst (pb_field_iter_next it), True)"
    by (metis (full_types) prod.collapse)
  from next_True [OF this]
  show "(fst (pb_field_iter_next it), it) \<in> measure (\<lambda>it. length (start it) - pos it)" by auto
qed simp

declare seek_end.simps [simp del]

definition req_field_count :: "field_iter \<Rightarrow> u32" where
  "req_field_count it =
     (case seek_end it of (index, last_type, it') \<Rightarrow>
        if PB_HTYPE last_type = PB_HTYPE_REQUIRED \<and> tag (cur it') \<noteq> 0 then index + 1 else index)"

definition allbits :: u32 where "allbits = - 1"

definition all_required_seen :: "u32 \<Rightarrow> u32 list \<Rightarrow> bool option" where
  "all_required_seen count seen =
     (let words = unat (drop_bit 5 count); rest = unat (count AND 31) in
      if count = 0 then Some True
      else if \<exists>i \<in> set [0..<min words (length seen)]. seen ! i \<noteq> allbits then Some False
      else if length seen \<le> words then None
      else if rest = 0 then None
      else Some (seen ! words = drop_bit (32 - rest) allbits))"

primrec pb_decode_noinit :: "nat \<Rightarrow> env \<Rightarrow> msg_decoder" where
  "pb_decode_noinit 0 env fs dest st = Loop"
| "pb_decode_noinit (Suc n) env fs dest st =
     andthen (decode_loop (Suc (unat (bytes_left (fst st)))) n env (pb_decode_noinit n env)
        \<lparr>sc_iter = fst (pb_field_iter_begin fs dest), sc_seen = [0, 0], sc_ext_start = 0\<rparr> st)
       (\<lambda>v st1.
         case all_required_seen (req_field_count (sc_iter v)) (sc_seen v) of
           None \<Rightarrow> Fault
         | Some True \<Rightarrow> Ok () st1
         | Some False \<Rightarrow> dec_error ''missing required field'' st1)"

definition pb_decode :: "nat \<Rightarrow> env \<Rightarrow> msg_decoder" where
  "pb_decode n env = decode_after_init n env (pb_decode_noinit n env)"

definition pb_decode_delimited :: "nat \<Rightarrow> env \<Rightarrow> msg_decoder" where
  "pb_decode_delimited n env fs dest st =
     andthen (on_stream pb_make_string_substream st) (\<lambda>sub st1.
       in_substream (pb_decode n env fs dest) sub st1)"

end
