(* ===== verification/Pb_Reader.thy ===== *)
theory Pb_Reader
  imports Pb_Istream
begin

unbundle bit_operations_syntax

section \<open>The contract of reading: never outside the buffer, never backwards\<close>

text \<open>
  Everything that reads from a stream over a memory buffer obeys one contract (locale \<open>reader\<close>):
  started on a stream whose \<^verbatim>\<open>bytes_left\<close> is covered by the buffer, it has defined behaviour,
  returns, and leaves the same stream some bytes further on, with \<^verbatim>\<open>bytes_left\<close> and the buffer
  pointer moved by the same amount, whether it returns \<open>true\<close> or \<open>false\<close>.
\<close>

definition in_ok :: "istream \<Rightarrow> bool" where
  "in_ok s \<longleftrightarrow> is_buf_read (callback s) \<and> unat (bytes_left s) \<le> length (state s)"

definition later :: "istream \<Rightarrow> istream \<Rightarrow> bool" where
  "later s t \<longleftrightarrow> callback t = callback s \<and>
     (\<exists>n \<le> unat (bytes_left s). bytes_left t = bytes_left s - of_nat n \<and> state t = drop n (state s))"

lemma later_refl [simp, intro]: "later s s"
  by (auto simp: later_def intro: exI [of _ 0])

lemma later_errmsg [simp]: "later s (t\<lparr>errmsg := e\<rparr>) = later s t"
  by (simp add: later_def)

lemma later_unat: "later s t \<Longrightarrow> unat (bytes_left t) \<le> unat (bytes_left s)"
  by (auto simp: later_def unat_sub_of_nat)

lemma later_in_ok: "in_ok s \<Longrightarrow> later s t \<Longrightarrow> in_ok t"
  by (auto simp: in_ok_def later_def unat_sub_of_nat)

lemma later_trans: "later s t \<Longrightarrow> later t u \<Longrightarrow> later s u"
proof -
  assume "later s t" and "later t u"
  then obtain m n where m: "m \<le> unat (bytes_left s)" "bytes_left t = bytes_left s - of_nat m"
      "state t = drop m (state s)"
    and n: "n \<le> unat (bytes_left t)" "bytes_left u = bytes_left t - of_nat n"
      "state u = drop n (state t)" and cb: "callback u = callback s"
    by (auto simp: later_def)
  have "n \<le> unat (bytes_left s) - m" using m n(1) by (simp add: unat_sub_of_nat)
  then have "m + n \<le> unat (bytes_left s)" using m(1) by simp
  with m n cb show "later s u"
    unfolding later_def by (intro conjI exI [of _ "m + n"]) (simp_all add: algebra_simps)
qed

locale reader =
  fixes op :: "istream \<Rightarrow> ('a, istream) outcome"
  assumes safe: "in_ok s \<Longrightarrow> okay (\<lambda>_. later s) (later s) (op s)"
begin

lemma never_faults: "in_ok s \<Longrightarrow> op s \<noteq> Fault \<and> op s \<noteq> Loop"
  using safe okay_no_fault by blast

lemma Ok_later: "in_ok s \<Longrightarrow> op s = Ok a t \<Longrightarrow> later s t"
  using safe [of s] by simp

lemma Ok_in_ok: "in_ok s \<Longrightarrow> op s = Ok a t \<Longrightarrow> in_ok t"
  using Ok_later later_in_ok by blast

lemma Ok_not_past: "in_ok s \<Longrightarrow> op s = Ok a t \<Longrightarrow> unat (bytes_left t) \<le> unat (bytes_left s)"
  using Ok_later later_unat by blast

lemma Fail_later: "in_ok s \<Longrightarrow> op s = Fail t \<Longrightarrow> later s t"
  using safe [of s] by simp

text \<open>What follows a reader keeps the contract if it does so from wherever the reader stopped.\<close>

lemma followed_by:
  assumes "in_ok s"
    and "\<And>a t. op s = Ok a t \<Longrightarrow> in_ok t \<Longrightarrow> later s t \<Longrightarrow> okay (\<lambda>_. later t) (later t) (f a t)"
  shows "okay (\<lambda>_. later s) (later s) (andthen (op s) f)"
proof (rule okay_andthen [OF safe [OF assms(1)]])
  fix a t assume "op s = Ok a t" and l: "later s t"
  with assms have "okay (\<lambda>_. later t) (later t) (f a t)" using later_in_ok by blast
  then show "okay (\<lambda>_. later s) (later s) (f a t)"
    by (rule okay_mono) (auto intro: later_trans [OF l])
qed

end

text \<open>The primitive readers.\<close>

lemma return_error_okay [simp]: "okay P (later s) (return_error t msg) = later s t"
  by (simp add: return_error_def)

lemma call_callback_in_ok:
  assumes "in_ok s" and "n \<le> bytes_left s"
  shows "call_callback s n = Ok (take (unat n) (state s)) (s\<lparr>state := drop (unat n) (state s)\<rparr>)"
    and "unat n \<le> length (state s)"
proof -
  show l: "unat n \<le> length (state s)" using assms by (auto simp: in_ok_def word_le_nat_alt)
  from assms have "callback s = Buf_read" by (simp add: in_ok_def is_buf_read_def)
  with l show "call_callback s n = Ok (take (unat n) (state s)) (s\<lparr>state := drop (unat n) (state s)\<rparr>)"
    by (simp add: call_callback_def buf_read_def)
qed

lemma later_step:
  "n \<le> bytes_left s \<Longrightarrow>
   later s (s\<lparr>state := drop (unat n) (state s), bytes_left := bytes_left s - n\<rparr>)"
  unfolding later_def by (auto simp: word_le_nat_alt intro!: exI [of _ "unat n"])

lemma pb_read_buf_in_ok:
  assumes "in_ok s"
  shows "pb_read_buf s n =
    (if bytes_left s < n then return_error s ''end-of-stream''
     else Ok (take (unat n) (state s))
       (s\<lparr>state := drop (unat n) (state s), bytes_left := bytes_left s - n\<rparr>))"
  using call_callback_in_ok [OF assms] by (simp add: pb_read_buf_def)

lemma pb_read_in_ok: "in_ok s \<Longrightarrow> pb_read s z n = pb_read_buf s n"
  by (simp add: pb_read_def in_ok_def)

interpretation read_buf: reader "\<lambda>s. pb_read_buf s n"
  by unfold_locales (auto simp: pb_read_buf_in_ok later_step)

interpretation read: reader "\<lambda>s. pb_read s z n"
  by unfold_locales (auto simp: pb_read_in_ok pb_read_buf_in_ok later_step)

lemma pb_readbyte_in_ok:
  assumes "in_ok s"
  shows "pb_readbyte s =
    (if bytes_left s = 0 then return_error s ''end-of-stream''
     else Ok (hd (state s)) (s\<lparr>state := drop 1 (state s), bytes_left := bytes_left s - 1\<rparr>))"
proof (cases "bytes_left s = 0")
  case False
  then have "1 \<le> bytes_left s" by (simp add: word_le_nat_alt unat_gt_0 Suc_le_eq)
  from call_callback_in_ok [OF assms this] False show ?thesis
    by (cases "state s") (auto simp: pb_readbyte_def)
qed (simp add: pb_readbyte_def)

interpretation readbyte: reader pb_readbyte
proof
  fix s assume s: "in_ok s"
  show "okay (\<lambda>_. later s) (later s) (pb_readbyte s)"
  proof (cases "bytes_left s = 0")
    case False
    then have "1 \<le> bytes_left s" by (simp add: word_le_nat_alt unat_gt_0 Suc_le_eq)
    from later_step [OF this] False show ?thesis by (simp add: pb_readbyte_in_ok [OF s])
  qed (simp add: pb_readbyte_in_ok [OF s])
qed

subsection \<open>The scalar decoders obey it\<close>

lemma varint32_loop_okay:
  "in_ok s \<Longrightarrow> okay (\<lambda>_. later s) (later s) (varint32_loop s bp r)"
proof (induction s bp r rule: varint32_loop.induct)
  case (1 s bp r)
  show ?case
  proof (cases "32 \<le> bp")
    case False
    have "okay (\<lambda>_. later s) (later s) (andthen (pb_readbyte s) (\<lambda>b s'.
        let r' = r OR push_bit (unat bp) (ucast (b AND 0x7F)) in
        if b AND 0x80 \<noteq> 0 then varint32_loop s' (bp + 7) r' else Ok r' s'))"
      by (rule readbyte.followed_by [OF "1.prems"]) (use "1.IH" False in \<open>auto simp: Let_def\<close>)
    with False show ?thesis by (simp add: varint32_loop.simps [of s])
  qed (simp add: varint32_loop.simps [of s])
qed

interpretation decode_varint32: reader pb_decode_varint32
  by unfold_locales
     (auto simp: pb_decode_varint32_def intro!: readbyte.followed_by varint32_loop_okay)

lemma varint_loop_okay:
  "in_ok s \<Longrightarrow> okay (\<lambda>_. later s) (later s) (varint_loop s bp r)"
proof (induction s bp r rule: varint_loop.induct)
  case (1 s bp r)
  show ?case
  proof (cases "64 \<le> bp")
    case False
    have "okay (\<lambda>_. later s) (later s) (andthen (pb_readbyte s) (\<lambda>b s'.
        let r' = r OR push_bit (unat bp) (ucast (b AND 0x7F)) in
        if b AND 0x80 \<noteq> 0 then varint_loop s' (bp + 7) r' else Ok r' s'))"
      by (rule readbyte.followed_by [OF "1.prems"]) (use "1.IH" False in \<open>auto simp: Let_def\<close>)
    with False show ?thesis by (simp add: varint_loop.simps [of s])
  qed (simp add: varint_loop.simps [of s])
qed

interpretation decode_varint: reader pb_decode_varint
  by unfold_locales (simp add: pb_decode_varint_def varint_loop_okay)

interpretation decode_svarint: reader pb_decode_svarint
  by unfold_locales (auto simp: pb_decode_svarint_def intro!: decode_varint.followed_by)

lemma read_Ok_length:
  "in_ok s \<Longrightarrow> pb_read s z n = Ok bs t \<Longrightarrow> length bs = unat n"
  by (auto simp: pb_read_in_ok pb_read_buf_in_ok call_callback_in_ok(2) return_error_def
      split: if_splits)

lemma pb_skip_varint_okay: "in_ok s \<Longrightarrow> okay (\<lambda>_. later s) (later s) (pb_skip_varint s)"
proof (induction s rule: pb_skip_varint.induct)
  case (1 s)
  show ?case
    unfolding pb_skip_varint.simps [of s]
  proof (rule read.followed_by [OF "1.prems"])
    fix bs t assume t: "pb_read s False 1 = Ok bs t" "in_ok t" "later s t"
    then have "length bs = 1" using read_Ok_length [OF "1.prems"] by simp
    then obtain b where "bs = [b]" by (cases bs) auto
    with "1.IH" [OF t(1)] t(2) show "okay (\<lambda>_. later t) (later t)
      (case bs of [] \<Rightarrow> Fault | [b] \<Rightarrow> if b AND 0x80 \<noteq> 0 then pb_skip_varint t else Ok () t
        | b # x # xs \<Rightarrow> Fault)" by simp
  qed
qed

interpretation skip_varint: reader pb_skip_varint
  by unfold_locales (rule pb_skip_varint_okay)

interpretation skip_string: reader pb_skip_string
  by unfold_locales
     (auto simp: pb_skip_string_def intro!: decode_varint32.followed_by read.followed_by)

interpretation skip_field: reader "\<lambda>s. pb_skip_field s wt"
  by unfold_locales
     (auto simp: pb_skip_field_def skip_varint.safe skip_string.safe intro!: read.followed_by)

interpretation decode_tag: reader pb_decode_tag
proof
  fix s assume "in_ok s"
  then have "okay (\<lambda>_. later s) (later s) (pb_decode_varint32 s)" by (rule decode_varint32.safe)
  then show "okay (\<lambda>_. later s) (later s) (pb_decode_tag s)"
    by (cases "pb_decode_varint32 s") (auto simp: pb_decode_tag_def)
qed

lemma raw_varint_okay: "in_ok s \<Longrightarrow> okay (\<lambda>_. later s) (later s) (raw_varint n s)"
proof (induction n arbitrary: s)
  case (Suc n)
  show ?case
    unfolding raw_varint.simps
  proof (rule read.followed_by [OF Suc.prems])
    fix bs t assume t: "pb_read s False 1 = Ok bs t" "in_ok t" "later s t"
    then have "length bs = 1" using read_Ok_length [OF Suc.prems] by simp
    then obtain b where "bs = [b]" by (cases bs) auto
    with okay_andthen [OF Suc.IH [OF t(2)], where f = "\<lambda>bs' s''. Ok (b # bs') s''"]
    show "okay (\<lambda>_. later t) (later t)
      (case bs of [] \<Rightarrow> Fault
        | [b] \<Rightarrow> if b AND 0x80 \<noteq> 0 then andthen (raw_varint n t) (\<lambda>bs' s''. Ok (b # bs') s'')
            else Ok [b] t
        | b # x # xs \<Rightarrow> Fault)" by simp
  qed
qed simp

interpretation raw_value: reader "\<lambda>s. read_raw_value s wt n"
  by unfold_locales (auto simp: read_raw_value_def raw_varint_okay read.safe)

lemma pb_decode_fixed32_eq: "in_ok s \<Longrightarrow>
  pb_decode_fixed32 s = andthen (pb_read s False 4) (\<lambda>bs s'. Ok (le_word bs) s')"
proof -
  assume s: "in_ok s"
  show ?thesis
  proof (cases "pb_read s False 4")
    case (Ok bs t)
    then have "length bs = 4" using read_Ok_length [OF s Ok] by simp
    with Ok show ?thesis
      by (auto simp: pb_decode_fixed32_def length_Suc_conv numeral_eq_Suc push_bit_or push_bit_push_bit)
  qed (auto simp: pb_decode_fixed32_def)
qed

lemma pb_decode_fixed64_eq: "in_ok s \<Longrightarrow>
  pb_decode_fixed64 s = andthen (pb_read s False 8) (\<lambda>bs s'. Ok (le_word bs) s')"
proof -
  assume s: "in_ok s"
  show ?thesis
  proof (cases "pb_read s False 8")
    case (Ok bs t)
    then have "length bs = 8" using read_Ok_length [OF s Ok] by simp
    with Ok show ?thesis
      by (auto simp: pb_decode_fixed64_def length_Suc_conv numeral_eq_Suc push_bit_or push_bit_push_bit)
  qed (auto simp: pb_decode_fixed64_def)
qed

interpretation decode_fixed32: reader pb_decode_fixed32
  by unfold_locales (auto simp: pb_decode_fixed32_eq intro!: read.followed_by)

interpretation decode_fixed64: reader pb_decode_fixed64
  by unfold_locales (auto simp: pb_decode_fixed64_eq intro!: read.followed_by)

subsection \<open>Progress\<close>

lemma pb_readbyte_progress:
  "pb_readbyte s = Ok b t \<Longrightarrow> unat (bytes_left t) < unat (bytes_left s)"
  using pb_readbyte_frame [of s] by (auto simp: unat_gt_0 unat_minus_one)

lemma pb_decode_varint32_progress:
  assumes "in_ok s" and "pb_decode_varint32 s = Ok v t"
  shows "unat (bytes_left t) < unat (bytes_left s)"
proof -
  from assms(2) obtain b s' where b: "pb_readbyte s = Ok b s'"
    and rest: "(if b AND 0x80 = 0 then Ok (ucast b) s'
       else varint32_loop s' 7 (ucast (b AND 0x7F))) = Ok v t"
    by (auto simp: pb_decode_varint32_def andthen_eq_Ok)
  have "in_ok s'" using readbyte.Ok_in_ok [OF assms(1) b] .
  then have "okay (\<lambda>_. later s') (later s') (varint32_loop s' 7 (ucast (b AND 0x7F)))"
    by (rule varint32_loop_okay)
  with rest have "later s' t" by (auto split: if_splits)
  then have "unat (bytes_left t) \<le> unat (bytes_left s')" by (rule later_unat)
  with pb_readbyte_progress [OF b] show ?thesis by simp
qed

lemma pb_decode_tag_progress:
  "in_ok s \<Longrightarrow> pb_decode_tag s = Ok (True, wt, n, eof) t \<Longrightarrow> unat (bytes_left t) < unat (bytes_left s)"
  using pb_decode_varint32_progress [of s]
  by (auto simp: pb_decode_tag_def split: outcome.splits if_splits)

subsection \<open>Substreams\<close>

text \<open>
  Opening a substream leaves the parent's pointer behind; closing it, wherever the substream's
  reader stopped, puts the parent exactly past the substream's bytes.
\<close>

definition opened :: "istream \<Rightarrow> u64 \<Rightarrow> istream \<times> istream" where
  "opened t n = (t\<lparr>bytes_left := n\<rparr>, t\<lparr>bytes_left := bytes_left t - n\<rparr>)"

lemma pb_make_string_substream_Ok:
  assumes "in_ok s" and "pb_make_string_substream s = Ok sub p"
  obtains t n where "in_ok t" "later s t" "unat (bytes_left t) < unat (bytes_left s)"
    "n \<le> bytes_left t" "(sub, p) = opened t n"
proof -
  from assms(2) obtain v t where t: "pb_decode_varint32 s = Ok v t"
    and n: "\<not> bytes_left t < ucast v"
    and "sub = t\<lparr>bytes_left := ucast v\<rparr>" "p = t\<lparr>bytes_left := bytes_left t - ucast v\<rparr>"
    by (auto simp: pb_make_string_substream_def andthen_eq_Ok return_error_def split: if_splits)
  then have "(sub, p) = opened t (ucast v)" by (simp add: opened_def)
  moreover have "in_ok t" "later s t"
    using decode_varint32.Ok_in_ok [OF assms(1) t] decode_varint32.Ok_later [OF assms(1) t] .
  moreover have "unat (bytes_left t) < unat (bytes_left s)"
    using pb_decode_varint32_progress [OF assms(1) t] .
  moreover have "ucast v \<le> bytes_left t" using n by simp
  ultimately show thesis using that [of t "ucast v"] by blast
qed

lemma pb_make_string_substream_Fail:
  "in_ok s \<Longrightarrow> pb_make_string_substream s = Fail t \<Longrightarrow> later s t"
  using decode_varint32.safe [of s]
  by (auto simp: pb_make_string_substream_def andthen_eq_Fail return_error_def split: if_splits)

lemma pb_make_string_substream_defined:
  "in_ok s \<Longrightarrow> pb_make_string_substream s \<noteq> Fault \<and> pb_make_string_substream s \<noteq> Loop"
  using decode_varint32.never_faults [of s]
  by (auto simp: pb_make_string_substream_def andthen_eq_Fault andthen_eq_Loop return_error_def)

lemma opened_in_ok: "in_ok t \<Longrightarrow> n \<le> bytes_left t \<Longrightarrow> in_ok (fst (opened t n))"
  by (auto simp: in_ok_def opened_def word_le_nat_alt)

lemma pb_close_string_substream_drained:
  assumes "in_ok t" and "n \<le> bytes_left t" and "later (fst (opened t n)) sub"
  shows "\<exists>e. pb_close_string_substream (snd (opened t n)) sub =
     Ok () (t\<lparr>bytes_left := bytes_left t - n, state := drop (unat n) (state t), errmsg := e\<rparr>)"
proof -
  from assms(3) obtain k where k: "k \<le> unat n" "bytes_left sub = n - of_nat k"
      "state sub = drop k (state t)"
    by (auto simp: later_def opened_def)
  have sub: "in_ok sub" using later_in_ok [OF opened_in_ok [OF assms(1,2)] assms(3)] .
  show ?thesis
  proof (cases "bytes_left sub = 0")
    case True
    with k have "unat n = k" using unat_sub_of_nat [OF k(1)] by simp
    with True k show ?thesis
      by (auto simp: pb_close_string_substream_def opened_def intro!: exI [of _ "errmsg sub"])
  next
    case False
    have "drop (unat (bytes_left sub)) (state sub) = drop (unat n) (state t)"
      using k by (simp add: unat_sub_of_nat)
    with False show ?thesis
      by (auto simp: pb_close_string_substream_def opened_def pb_read_in_ok [OF sub]
          pb_read_buf_in_ok [OF sub] intro!: exI [of _ "errmsg sub"])
  qed
qed

lemma drained_later:
  "n \<le> bytes_left t \<Longrightarrow>
   later t (t\<lparr>bytes_left := bytes_left t - n, state := drop (unat n) (state t), errmsg := e\<rparr>)"
  unfolding later_def by (auto simp: word_le_nat_alt intro!: exI [of _ "unat n"])

end
