(* ===== verification/Pb_Safety.thy ===== *)
theory Pb_Safety
  imports Pb_Decode Pb_Reader
begin

unbundle bit_operations_syntax

section \<open>Decoding untrusted input is memory safe\<close>

text \<open>
  The contract of everything the decoder does for a message struct (\<open>tame\<close>): started on a stream
  over a buffer and with the struct in memory, it has defined behaviour, returns, changes no byte
  outside the struct, allocates nothing, and leaves the stream within its buffer. The theory builds
  it up from the field decoders to \<^verbatim>\<open>pb_decode\<close>, for message types whose fields lie in their struct
  (\<open>msg_fits\<close>, a computable condition on the descriptors).
\<close>

subsection \<open>Regions of memory\<close>

definition within :: "addr \<Rightarrow> nat \<Rightarrow> addr \<Rightarrow> nat \<Rightarrow> bool" where
  "within base sz a n \<longleftrightarrow> unat (a - base) + n \<le> sz"

definition changes_only :: "addr \<Rightarrow> nat \<Rightarrow> heap \<Rightarrow> heap \<Rightarrow> bool" where
  "changes_only base sz h h' \<longleftrightarrow> blocks h' = blocks h \<and> answers h' = answers h \<and>
     (\<forall>b n. mapped (cells h') b n = mapped (cells h) b n) \<and>
     (\<forall>x. \<not> in_region base sz x \<longrightarrow> cells h' x = cells h x)"

lemma changes_only_refl [simp]: "changes_only base sz h h"
  by (simp add: changes_only_def)

lemma changes_only_trans:
  "changes_only base sz h h' \<Longrightarrow> changes_only base sz h' h'' \<Longrightarrow> changes_only base sz h h''"
  by (simp add: changes_only_def)

lemma within_region:
  assumes "within base sz a n" "sz \<le> 2 ^ 64" "in_region a n x"
  shows "in_region base sz x"
proof -
  have "unat (x - a) + unat (a - base) < 2 ^ 64"
    using assms by (simp add: within_def in_region_def)
  then have "unat ((x - a) + (a - base)) = unat (x - a) + unat (a - base)"
    by (intro unat_plus_if_no_wrap) simp
  then show ?thesis using assms by (simp add: within_def in_region_def)
qed

lemma changes_only_within:
  "changes_only a n h h' \<Longrightarrow> within base sz a n \<Longrightarrow> sz \<le> 2 ^ 64 \<Longrightarrow> changes_only base sz h h'"
  unfolding changes_only_def using within_region by blast

lemma in_region_mapped:
  "n \<le> 2 ^ 64 \<Longrightarrow> mapped c a n \<longleftrightarrow> (\<forall>x. in_region a n x \<longrightarrow> c x \<noteq> None)"
proof (intro iffI allI impI)
  fix x assume "mapped c a n" "in_region a n x"
  then have "c (a + of_nat (unat (x - a))) \<noteq> None" unfolding mapped_def in_region_def by blast
  then show "c x \<noteq> None" by simp
next
  assume n: "n \<le> 2 ^ 64" and all: "\<forall>x. in_region a n x \<longrightarrow> c x \<noteq> None"
  show "mapped c a n"
    unfolding mapped_def
  proof (intro allI impI)
    fix i assume i: "i < n"
    then have "unat (of_nat i :: addr) = i" using n by (intro unat_of_nat_id) simp
    with i have "in_region a n (a + of_nat i)" by (simp add: in_region_def)
    with all show "c (a + of_nat i) \<noteq> None" by blast
  qed
qed

lemma mapped_within:
  "mapped c base sz \<Longrightarrow> within base sz a n \<Longrightarrow> sz \<le> 2 ^ 64 \<Longrightarrow> mapped c a n"
  using in_region_mapped [of n c a] in_region_mapped [of sz c base] within_region [of base sz a n]
  by (simp add: within_def)

lemma within_trans:
  assumes "within base sz a n" "within a n b m" "sz \<le> 2 ^ 64" "0 < m"
  shows "within base sz b m"
proof -
  have "unat (b - a) + unat (a - base) < 2 ^ 64"
    using assms by (simp add: within_def)
  then have "unat ((b - a) + (a - base)) = unat (b - a) + unat (a - base)"
    by (intro unat_plus_if_no_wrap) simp
  then show ?thesis using assms by (simp add: within_def)
qed

lemma within_self [simp]: "n \<le> sz \<Longrightarrow> within base sz base n"
  by (simp add: within_def)

subsection \<open>Streams that stay within their buffer\<close>

text \<open>
  Weaker than \<open>later\<close>: the buffer pointer moves at most as far as \<^verbatim>\<open>bytes_left\<close> says. Some error
  paths give up a substream without closing it and leave the pointer behind.
\<close>

definition lag :: "istream \<Rightarrow> istream \<Rightarrow> bool" where
  "lag s t \<longleftrightarrow> callback t = callback s \<and>
     (\<exists>n. state t = drop n (state s) \<and> n + unat (bytes_left t) \<le> unat (bytes_left s))"

lemma lag_refl [simp, intro]: "lag s s"
  by (auto simp: lag_def intro!: exI [of _ 0])

lemma lag_trans: "lag s t \<Longrightarrow> lag t u \<Longrightarrow> lag s u"
proof -
  assume "lag s t" "lag t u"
  then obtain m n where "state t = drop m (state s)" "m + unat (bytes_left t) \<le> unat (bytes_left s)"
    "state u = drop n (state t)" "n + unat (bytes_left u) \<le> unat (bytes_left t)"
    "callback u = callback s" by (auto simp: lag_def)
  then show "lag s u" unfolding lag_def by (intro conjI exI [of _ "m + n"]) (simp_all add: add.commute)
qed

lemma lag_errmsg [simp]: "lag s (t\<lparr>errmsg := e\<rparr>) = lag s t"
  by (simp add: lag_def)

lemma later_lag: "later s t \<Longrightarrow> lag s t"
  by (auto simp: later_def lag_def unat_sub_of_nat)

lemma lag_in_ok: "in_ok s \<Longrightarrow> lag s t \<Longrightarrow> in_ok t"
  by (auto simp: in_ok_def lag_def)

lemma lag_unat: "lag s t \<Longrightarrow> unat (bytes_left t) \<le> unat (bytes_left s)"
  by (auto simp: lag_def)

subsection \<open>The contract\<close>

definition ready :: "addr \<Rightarrow> nat \<Rightarrow> dst \<Rightarrow> bool" where
  "ready base sz st \<longleftrightarrow> in_ok (fst st) \<and> mapped (cells (snd st)) base sz"

definition after :: "addr \<Rightarrow> nat \<Rightarrow> dst \<Rightarrow> dst \<Rightarrow> bool" where
  "after base sz st st' \<longleftrightarrow> lag (fst st) (fst st') \<and> changes_only base sz (snd st) (snd st')"

definition tame :: "addr \<Rightarrow> nat \<Rightarrow> (dst \<Rightarrow> ('a, dst) outcome) \<Rightarrow> bool" where
  "tame base sz op \<longleftrightarrow>
     (\<forall>st. ready base sz st \<longrightarrow> okay (\<lambda>_. after base sz st) (after base sz st) (op st))"

lemma after_refl [simp, intro]: "after base sz st st"
  by (simp add: after_def)

lemma after_trans: "after base sz a b \<Longrightarrow> after base sz b c \<Longrightarrow> after base sz a c"
  unfolding after_def using lag_trans changes_only_trans by blast

lemma after_ready: "ready base sz st \<Longrightarrow> after base sz st st' \<Longrightarrow> ready base sz st'"
  by (auto simp: ready_def after_def changes_only_def lag_in_ok)

lemma tameD: "tame base sz op \<Longrightarrow> ready base sz st \<Longrightarrow> okay (\<lambda>_. after base sz st) (after base sz st) (op st)"
  unfolding tame_def by blast

text \<open>A continuation may use what is known of the value, and that it runs from a ready state.\<close>

lemma tame_from:
  assumes "ready base sz st" and "okay (\<lambda>a st'. P a \<and> after base sz st st') (after base sz st) (op st)"
    and "\<And>a. P a \<Longrightarrow> tame base sz (f a)"
  shows "okay (\<lambda>_. after base sz st) (after base sz st) (andthen (op st) f)"
proof (rule okay_andthen [OF assms(2)])
  fix a st' assume a: "P a \<and> after base sz st st'"
  then have "okay (\<lambda>_. after base sz st') (after base sz st') (f a st')"
    using tameD [OF assms(3)] after_ready [OF assms(1)] by blast
  then show "okay (\<lambda>_. after base sz st) (after base sz st) (f a st')"
    by (rule okay_mono) (use a after_trans in blast)+
qed

lemma tame_seq:
  assumes "tame base sz op" and "\<And>a. tame base sz (f a)"
  shows "tame base sz (\<lambda>st. andthen (op st) (\<lambda>a. f a))"
  unfolding tame_def
proof (intro allI impI)
  fix st assume st: "ready base sz st"
  show "okay (\<lambda>_. after base sz st) (after base sz st) (andthen (op st) (\<lambda>a. f a))"
    by (rule tame_from [where P = "\<lambda>_. True", OF st]) (use tameD [OF assms(1) st] assms(2) in simp_all)
qed

lemma tame_Ok: "tame base sz (Ok v)"
  by (simp add: tame_def)

lemma tame_Ok': "tame base sz (\<lambda>st. Ok v st)"
  by (simp add: tame_def)

lemma tame_Fail: "tame base sz Fail"
  by (simp add: tame_def)

lemma tame_if: "(b \<Longrightarrow> tame base sz f) \<Longrightarrow> (\<not> b \<Longrightarrow> tame base sz g) \<Longrightarrow> tame base sz (\<lambda>st. if b then f st else g st)"
  by (cases b) auto

lemma tame_error: "tame base sz (dec_error msg)"
  by (simp add: tame_def dec_error_def on_stream_def return_error_def after_def)

lemma reader_tame: "reader op \<Longrightarrow> tame base sz (on_stream op)"
  unfolding tame_def
proof (intro allI impI)
  fix st assume "reader op" "ready base sz st"
  then have "okay (\<lambda>_. later (fst st)) (later (fst st)) (op (fst st))"
    using reader.safe [of op "fst st"] unfolding ready_def by blast
  then show "okay (\<lambda>_. after base sz st) (after base sz st) (on_stream op st)"
    by (cases "op (fst st)") (auto simp: on_stream_def after_def later_lag)
qed

lemma tame_rd:
  assumes "\<And>h. mapped (cells h) base sz \<Longrightarrow> g h \<noteq> None"
  shows "tame base sz (rd g)"
  unfolding tame_def
proof (intro allI impI)
  fix st assume "ready base sz st"
  then have "g (snd st) \<noteq> None" using assms by (simp add: ready_def)
  then show "okay (\<lambda>_. after base sz st) (after base sz st) (rd g st)" by (auto simp: rd_def)
qed

lemma tame_wr:
  assumes "\<And>h. mapped (cells h) base sz \<Longrightarrow> \<exists>h'. g h = Some h' \<and> changes_only base sz h h'"
  shows "tame base sz (wr g)"
  unfolding tame_def
proof (intro allI impI)
  fix st assume "ready base sz st"
  then obtain h' where "g (snd st) = Some h'" "changes_only base sz (snd st) h'"
    using assms by (auto simp: ready_def)
  then show "okay (\<lambda>_. after base sz st) (after base sz st) (wr g st)" by (simp add: wr_def after_def)
qed

text \<open>Reading and writing a scalar that lies in the struct.\<close>

context mem_cell begin

lemma st_changes: "st h a v = Some h' \<Longrightarrow> changes_only a width h h'"
  using st_mapped [of h a v h'] st_outside [of h a v h'] st_blocks [of h a v h']
  by (simp add: changes_only_def)

lemma tame_ld:
  assumes "within base sz a width" "sz \<le> 2 ^ 64"
  shows "tame base sz (rd (\<lambda>h. ld h a))"
  by (rule tame_rd) (use ld_defined mapped_within assms in blast)

lemma tame_st:
  assumes "within base sz a width" "sz \<le> 2 ^ 64"
  shows "tame base sz (wr (\<lambda>h. st h a v))"
proof (rule tame_wr)
  fix h :: heap assume "mapped (cells h) base sz"
  then have "mapped (cells h) a width" using mapped_within assms by blast
  then obtain h' where h': "st h a v = Some h'" using st_total by blast
  then show "\<exists>h'. st h a v = Some h' \<and> changes_only base sz h h'"
    using changes_only_within [OF st_changes assms] by blast
qed

end

text \<open>Runs of bytes in the struct.\<close>

lemma store_changes:
  assumes "length bs \<le> 2 ^ 64" "mapped (cells h) a (length bs)"
  shows "\<exists>h'. store h a bs = Some h' \<and> changes_only a (length bs) h h'"
proof -
  have "store h a bs = Some (h\<lparr>cells := map_block (cells h) a bs\<rparr>)"
    using store_Some_iff [OF assms(1)] assms(2) by blast
  moreover have "changes_only a (length bs) h (h\<lparr>cells := map_block (cells h) a bs\<rparr>)"
    using assms(2) by (simp add: changes_only_def map_block_mapped) (simp add: map_block_def in_region_def)
  ultimately show ?thesis by blast
qed

lemma tame_store:
  assumes "within base sz a (length bs)" "sz \<le> 2 ^ 64"
  shows "tame base sz (wr (\<lambda>h. store h a bs))"
proof (rule tame_wr)
  fix h :: heap assume "mapped (cells h) base sz"
  then have "mapped (cells h) a (length bs)" using mapped_within assms by blast
  moreover have "length bs \<le> 2 ^ 64" using assms by (simp add: within_def)
  ultimately obtain h' where "store h a bs = Some h'" "changes_only a (length bs) h h'"
    using store_changes by blast
  then show "\<exists>h'. store h a bs = Some h' \<and> changes_only base sz h h'"
    using changes_only_within assms by blast
qed

lemma tame_memset:
  "within base sz a n \<Longrightarrow> sz \<le> 2 ^ 64 \<Longrightarrow> tame base sz (wr (\<lambda>h. memset_zero h a n))"
  using tame_store [of base sz a "replicate n 0"] by (simp add: memset_zero_def)

lemma tame_read_to:
  assumes "within base sz p (unat n)" "sz \<le> 2 ^ 64"
  shows "tame base sz (read_to p n)"
  unfolding tame_def
proof (intro allI impI)
  fix st assume st: "ready base sz st"
  have "okay (\<lambda>bs st'. length bs = unat n \<and> after base sz st st') (after base sz st)
      (on_stream (\<lambda>s. pb_read s (p = 0) n) st)"
  proof -
    have s: "in_ok (fst st)" using st by (simp add: ready_def)
    have "okay (\<lambda>_. later (fst st)) (later (fst st)) (pb_read (fst st) (p = 0) n)"
      using read.safe [OF s] .
    then show ?thesis
      using read_Ok_length [OF s]
      by (cases "pb_read (fst st) (p = 0) n") (auto simp: on_stream_def after_def later_lag)
  qed
  then show "okay (\<lambda>_. after base sz st) (after base sz st) (read_to p n st)"
    unfolding read_to_def
    by (rule tame_from [OF st]) (intro tame_if tame_Ok tame_store, use assms in simp_all)
qed

text \<open>Working on a part of the struct.\<close>

lemma tame_within:
  assumes "tame a n op" "within base sz a n" "sz \<le> 2 ^ 64"
  shows "tame base sz op"
  unfolding tame_def
proof (intro allI impI)
  fix st assume "ready base sz st"
  then have "ready a n st" using mapped_within assms(2,3) by (auto simp: ready_def)
  from tameD [OF assms(1) this] show "okay (\<lambda>_. after base sz st) (after base sz st) (op st)"
    by (rule okay_mono) (auto simp: after_def intro: changes_only_within assms)
qed

subsection \<open>Substreams\<close>

text \<open>
  \<open>inside base sz st sub st1\<close>: in the state \<open>st1\<close>, a substream \<open>sub\<close> has been opened since \<open>st\<close>. It may
  be read, and the parent is in order whether it is closed or given up.
\<close>

definition inside :: "addr \<Rightarrow> nat \<Rightarrow> dst \<Rightarrow> istream \<Rightarrow> dst \<Rightarrow> bool" where
  "inside base sz st sub st1 \<longleftrightarrow> ready base sz st \<and> snd st1 = snd st \<and>
     (\<exists>t n. in_ok t \<and> lag (fst st) t \<and> n \<le> bytes_left t \<and> (sub, fst st1) = opened t n)"

lemma open_substream:
  assumes "ready base sz st"
  shows "okay (inside base sz st) (after base sz st) (on_stream pb_make_string_substream st)"
proof -
  have s: "in_ok (fst st)" using assms by (simp add: ready_def)
  show ?thesis
  proof (cases "pb_make_string_substream (fst st)")
    case (Ok sub p)
    from pb_make_string_substream_Ok [OF s Ok] obtain t n where
      "in_ok t" "later (fst st) t" "n \<le> bytes_left t" "(sub, p) = opened t n" .
    with Ok assms show ?thesis
      by (auto simp: on_stream_def inside_def intro!: exI [of _ t] exI [of _ n] later_lag)
  next
    case (Fail t)
    with pb_make_string_substream_Fail [OF s Fail] show ?thesis
      by (simp add: on_stream_def after_def later_lag)
  qed (use pb_make_string_substream_defined [OF s] in simp_all)
qed

lemma inside_ready: "inside base sz st sub st1 \<Longrightarrow> ready base sz (sub, snd st1)"
  unfolding inside_def ready_def by (metis fst_conv opened_in_ok snd_conv)

lemma inside_lag:
  assumes "inside base sz st sub st1"
  shows "lag (fst st) (fst st1)"
proof -
  from assms obtain t n where "lag (fst st) t" "n \<le> bytes_left t" "(sub, fst st1) = opened t n"
    by (auto simp: inside_def)
  moreover from this have "lag t (fst st1)"
    by (auto simp: opened_def lag_def unat_sub word_le_nat_alt intro!: exI [of _ 0])
  ultimately show ?thesis using lag_trans by blast
qed

lemma inside_abandon:
  "inside base sz st sub st1 \<Longrightarrow> after base sz (sub, snd st1) (sub', h) \<Longrightarrow> after base sz st (fst st1, h)"
proof -
  assume i: "inside base sz st sub st1" and a: "after base sz (sub, snd st1) (sub', h)"
  from i have "snd st1 = snd st" by (simp add: inside_def)
  with a inside_lag [OF i] show ?thesis by (simp add: after_def)
qed

lemma inside_error:
  "inside base sz st sub st1 \<Longrightarrow> after base sz (sub, snd st1) (sub', h) \<Longrightarrow>
   okay P (after base sz st) (dec_error msg (fst st1, h))"
  using inside_abandon by (fastforce simp: dec_error_def on_stream_def return_error_def after_def)

lemma close_lag:
  assumes t: "in_ok t" "n \<le> bytes_left t" and sub: "lag (fst (opened t n)) sub"
  shows "okay (\<lambda>_. lag t) (lag t) (pb_close_string_substream (snd (opened t n)) sub)"
proof -
  from sub obtain k where k: "state sub = drop k (state t)" "k + unat (bytes_left sub) \<le> unat n"
    by (auto simp: lag_def opened_def)
  have sub_ok: "in_ok sub" using lag_in_ok [OF opened_in_ok [OF t] sub] .
  have bl: "unat (bytes_left t - n) = unat (bytes_left t) - unat n" "unat n \<le> unat (bytes_left t)"
    using t(2) by (simp_all add: unat_sub word_le_nat_alt)
  show ?thesis
  proof (cases "bytes_left sub = 0")
    case True
    then show ?thesis using k bl
      by (auto simp: pb_close_string_substream_def opened_def lag_def intro!: exI [of _ k])
  next
    case False
    then show ?thesis using k bl
      by (auto simp: pb_close_string_substream_def opened_def pb_read_in_ok [OF sub_ok]
          pb_read_buf_in_ok [OF sub_ok] lag_def add.commute intro!: exI [of _ "k + unat (bytes_left sub)"])
  qed
qed

lemma close_sub_after:
  assumes "inside base sz st sub st1" "after base sz (sub, snd st1) (sub', h)"
  shows "okay (\<lambda>_. after base sz st) (after base sz st) (close_sub status sub' (fst st1, h))"
proof -
  from assms(1) obtain t n where t: "in_ok t" "lag (fst st) t" "n \<le> bytes_left t"
    "(sub, fst st1) = opened t n" and same: "snd st1 = snd st"
    by (auto simp: inside_def)
  then have "lag (fst (opened t n)) sub'" using assms(2)
    by (metis after_def fst_conv)
  from close_lag [OF t(1,3) this] have "okay (\<lambda>_. lag t) (lag t) (pb_close_string_substream (fst st1) sub')"
    using t(4) by (metis snd_conv)
  moreover have "changes_only base sz (snd st) h" using assms(2) same by (simp add: after_def)
  ultimately show ?thesis
    using lag_trans [OF t(2)]
    by (cases "pb_close_string_substream (fst st1) sub'") (auto simp: close_sub_def on_stream_def after_def)
qed

lemma in_substream_after:
  assumes "inside base sz st sub st1" "tame base sz op"
  shows "okay (\<lambda>_. after base sz st) (after base sz st) (in_substream op sub st1)"
proof -
  have "okay (\<lambda>_. after base sz (sub, snd st1)) (after base sz (sub, snd st1)) (op (sub, snd st1))"
    using tameD [OF assms(2) inside_ready [OF assms(1)]] .
  then show ?thesis
    using close_sub_after [OF assms(1)]
    by (cases "op (sub, snd st1)") (auto simp: in_substream_def)
qed

text \<open>What follows the opening of a substream.\<close>

lemma tame_substream:
  assumes "\<And>st sub st1. inside base sz st sub st1 \<Longrightarrow>
    okay (\<lambda>_. after base sz st) (after base sz st) (f sub st1)"
  shows "tame base sz (\<lambda>st. andthen (on_stream pb_make_string_substream st) (\<lambda>sub. f sub))"
  unfolding tame_def using assms by (blast intro: okay_andthen open_substream)

subsection \<open>Field decoders\<close>

lemma tame_scalar:
  assumes "reader op" "\<And>v. tame base sz (f v)"
  shows "tame base sz (\<lambda>st. andthen (on_stream op st) (\<lambda>v. f v))"
  by (intro tame_seq reader_tame assms)

lemma store_int_tame:
  "tame p (unat (data_size field)) (store_int e32 e16 e8 field p v)"
proof -
  have w: "within p (unat (data_size field)) p n" if "data_size field = of_nat n" "n < 2 ^ 32" for n
    using that by (simp add: within_def unat_of_nat_id)
  have big: "unat (data_size field) \<le> 2 ^ 64"
    using unsigned_less [of "data_size field", where ?'a = nat] by simp
  show ?thesis
    unfolding store_int_def [abs_def]
    by (intro tame_seq tame_if tame_error tame_Ok u64.tame_st u32.tame_st u16.tame_st u8.tame_st w big)
       simp_all
qed

lemma tame_error_then: "tame base sz (\<lambda>st. andthen (dec_error msg st) f)"
  by (simp add: tame_def dec_error_def on_stream_def return_error_def after_def)

lemma data_size_small: "unat (data_size field) \<le> 2 ^ 64"
  using unsigned_less [of "data_size field", where ?'a = nat] by simp

lemma pb_dec_varint_tame: "tame p (unat (data_size field)) (pb_dec_varint field p)"
  unfolding pb_dec_varint_def [abs_def] Let_def store_signed_def
  by (intro tame_scalar decode_varint.reader_axioms store_int_tame)

lemma pb_dec_uvarint_tame: "tame p (unat (data_size field)) (pb_dec_uvarint field p)"
  unfolding pb_dec_uvarint_def [abs_def] store_unsigned_def
  by (intro tame_scalar decode_varint.reader_axioms store_int_tame)

lemma pb_dec_svarint_tame: "tame p (unat (data_size field)) (pb_dec_svarint field p)"
  unfolding pb_dec_svarint_def [abs_def] store_signed_def
  by (intro tame_scalar decode_svarint.reader_axioms store_int_tame)

lemma pb_dec_fixed32_tame:
  "4 \<le> unat (data_size field) \<Longrightarrow> tame p (unat (data_size field)) (pb_dec_fixed32 field p)"
  unfolding pb_dec_fixed32_def [abs_def]
  by (intro tame_scalar decode_fixed32.reader_axioms u32.tame_st data_size_small) simp

lemma pb_dec_fixed64_tame:
  "8 \<le> unat (data_size field) \<Longrightarrow> tame p (unat (data_size field)) (pb_dec_fixed64 field p)"
  unfolding pb_dec_fixed64_def [abs_def]
  by (intro tame_scalar decode_fixed64.reader_axioms u64.tame_st data_size_small) simp

lemma string_target_static:
  "PB_ATYPE (ftype field) = PB_ATYPE_STATIC \<Longrightarrow>
   string_target env field p n msg =
     (\<lambda>st. if ucast (data_size field) < n then dec_error msg st else Ok p st)"
  by (rule ext) (simp add: string_target_def pb_consts)

lemma within_add:
  "unat k + n \<le> m \<Longrightarrow> within p m (p + k) n" for k :: addr
  by (simp add: within_def)

lemma pb_dec_bytes_tame:
  assumes "PB_ATYPE (ftype field) = PB_ATYPE_STATIC"
  shows "tame p (unat (data_size field)) (pb_dec_bytes env field p)"
proof -
  let ?m = "unat (data_size field)"
  have body: "tame p ?m (\<lambda>st. andthen (string_target env field p (PB_BYTES_ARRAY_T_ALLOCSIZE (ucast v)) msg st)
      (\<lambda>bdest st2. andthen (wr (\<lambda>h. store_u32 h bdest v) st2)
        (\<lambda>_. read_to (bdest + bytes_offset) (ucast v))))" for v :: u32 and msg
  proof (cases "ucast (data_size field) < PB_BYTES_ARRAY_T_ALLOCSIZE (ucast v)")
    case True
    then show ?thesis
      using tame_error_then by (simp add: string_target_static [OF assms])
  next
    case False
    have v: "unat (ucast v + 4 :: u64) = unat v + 4"
      using unsigned_less [of v, where ?'a = nat] by (subst unat_plus_if_no_wrap) simp_all
    with False have le: "unat v + 4 \<le> ?m"
      by (simp add: PB_BYTES_ARRAY_T_ALLOCSIZE_def word_le_nat_alt not_less)
    have "tame p ?m (\<lambda>st. andthen (wr (\<lambda>h. store_u32 h p v) st) (\<lambda>_. read_to (p + bytes_offset) (ucast v)))"
      by (intro tame_seq u32.tame_st tame_read_to data_size_small within_add)
         (use le in \<open>simp_all add: bytes_offset_def\<close>)
    with False show ?thesis by (simp add: string_target_static [OF assms])
  qed
  show ?thesis
    unfolding pb_dec_bytes_def [abs_def] Let_def
    by (intro tame_scalar decode_varint32.reader_axioms tame_if tame_error body)
qed

lemma tame_then_both:
  assumes "tame base sz op" "tame base sz g"
  shows "tame base sz (\<lambda>st. case op st of Ok _ st3 \<Rightarrow> g st3
     | Fail st3 \<Rightarrow> andthen (g st3) (\<lambda>_. Fail) | Fault \<Rightarrow> Fault | Loop \<Rightarrow> Loop)"
  unfolding tame_def
proof (intro allI impI)
  fix st assume st: "ready base sz st"
  have next_g: "okay (\<lambda>_. after base sz st) (after base sz st) (g st3)" if "after base sz st st3" for st3
    using tameD [OF assms(2) after_ready [OF st that]] after_trans [OF that] by (blast intro: okay_mono)
  show "okay (\<lambda>_. after base sz st) (after base sz st) (case op st of Ok _ st3 \<Rightarrow> g st3
     | Fail st3 \<Rightarrow> andthen (g st3) (\<lambda>_. Fail) | Fault \<Rightarrow> Fault | Loop \<Rightarrow> Loop)"
  proof (cases "op st")
    case (Fail st3)
    then have "after base sz st st3" using tameD [OF assms(1) st] by simp
    from okay_andthen [OF next_g [OF this], where f = "\<lambda>_. Fail"] Fail show ?thesis by simp
  qed (use tameD [OF assms(1) st] next_g in auto)
qed

lemma pb_dec_string_tame:
  assumes "PB_ATYPE (ftype field) = PB_ATYPE_STATIC"
  shows "tame p (unat (data_size field)) (pb_dec_string env field p)"
proof -
  let ?m = "unat (data_size field)"
  have body: "tame p ?m (\<lambda>st. andthen (string_target env field p (ucast (v + 1)) msg st)
      (\<lambda>d st2. case read_to d (ucast v) st2 of
           Ok _ st3 \<Rightarrow> wr (\<lambda>h. store_u8 h (d + ucast v) 0) st3
         | Fail st3 \<Rightarrow> andthen (wr (\<lambda>h. store_u8 h (d + ucast v) 0) st3) (\<lambda>_. Fail)
         | Fault \<Rightarrow> Fault | Loop \<Rightarrow> Loop))" if "\<not> (ucast (v + 1) :: u64) < ucast v" for v :: u32 and msg
  proof (cases "ucast (data_size field) < (ucast (v + 1) :: u64)")
    case True
    then show ?thesis
      using tame_error_then by (simp add: string_target_static [OF assms])
  next
    case False
    have "v \<le> v + 1" using that by (simp add: word_less_nat_alt word_le_nat_alt)
    moreover have "v \<noteq> v + 1" by simp
    ultimately have "v < v + 1" by (rule order.not_eq_order_implies_strict [rotated])
    then have v: "unat (v + 1) = unat v + 1" using unat_succ [of v "v + 1"] by simp
    with False have le: "unat v + 1 \<le> ?m" by (simp add: word_less_nat_alt)
    have "tame p ?m (\<lambda>st2. case read_to p (ucast v) st2 of
           Ok _ st3 \<Rightarrow> wr (\<lambda>h. store_u8 h (p + ucast v) 0) st3
         | Fail st3 \<Rightarrow> andthen (wr (\<lambda>h. store_u8 h (p + ucast v) 0) st3) (\<lambda>_. Fail)
         | Fault \<Rightarrow> Fault | Loop \<Rightarrow> Loop)"
      by (intro tame_then_both u8.tame_st tame_read_to data_size_small within_add within_self)
         (use le in simp_all)
    with False show ?thesis by (simp add: string_target_static [OF assms])
  qed
  show ?thesis
    unfolding pb_dec_string_def [abs_def] Let_def
    by (intro tame_scalar decode_varint32.reader_axioms tame_if tame_error body)
qed

lemma pb_dec_fixed_length_bytes_tame:
  "tame p (unat (data_size field)) (pb_dec_fixed_length_bytes field p)"
  unfolding pb_dec_fixed_length_bytes_def [abs_def]
  by (intro tame_scalar decode_varint32.reader_axioms tame_if tame_error tame_memset tame_read_to
      data_size_small within_self) simp_all

lemma pb_dec_submessage_tame:
  assumes "ptr field = Ptr_fields k" "\<not> enable_malloc env"
    and noinit: "tame p sz (noinit (msgs env k) p)"
    and defaults: "tame p sz (pb_message_set_to_defaults n env (msgs env k) p)"
  shows "tame p sz (pb_dec_submessage n env noinit field p)"
proof -
  have eq: "decode_after_init n env noinit fs p =
      (\<lambda>st. andthen (pb_message_set_to_defaults n env fs p st) (\<lambda>_. noinit fs p))" for fs
    using assms(2) by (intro ext) (auto simp: decode_after_init_def split: outcome.splits intro!: andthen_cong)
  have init: "tame p sz (decode_after_init n env noinit (msgs env k) p)"
    unfolding eq by (intro tame_seq noinit defaults)
  show ?thesis
    unfolding pb_dec_submessage_def [abs_def] assms(1) fptr.case
    by (intro tame_substream in_substream_after) (use noinit init in \<open>auto split: if_splits\<close>)
qed

subsection \<open>Message types whose fields lie in their struct\<close>

text \<open>
  The offsets of an entry's data and size members, computed by the iterator on a struct at address
  0; on a struct at another address the iterator's pointers are that address plus the offsets.
\<close>

definition data_off :: "pb_field list \<Rightarrow> nat \<Rightarrow> addr" where
  "data_off fs i = pData (iter_at fs 0 i)"

definition size_off :: "pb_field list \<Rightarrow> nat \<Rightarrow> addr" where
  "size_off fs i = pSize (iter_at fs 0 i)"

text \<open>
  \<open>element_fits\<close>: one value of the field fits in \<^verbatim>\<open>data_size\<close> bytes; \<open>sub\<close> decides it for submessages.
  \<open>default_ok\<close>: \<^verbatim>\<open>ptr\<close> is what initialising the field takes it for.
\<close>

definition element_fits :: "(pb_field list \<Rightarrow> nat \<Rightarrow> bool) \<Rightarrow> env \<Rightarrow> pb_field \<Rightarrow> bool" where
  "element_fits sub env f \<longleftrightarrow>
     (let lt = PB_LTYPE (ftype f); n = unat (data_size f) in
      lt \<in> {PB_LTYPE_VARINT, PB_LTYPE_UVARINT, PB_LTYPE_SVARINT, PB_LTYPE_BYTES, PB_LTYPE_STRING,
            PB_LTYPE_FIXED_LENGTH_BYTES} \<or>
      (lt = PB_LTYPE_FIXED32 \<and> 4 \<le> n) \<or> (lt = PB_LTYPE_FIXED64 \<and> 8 \<le> n) \<or>
      (lt = PB_LTYPE_SUBMESSAGE \<and> (case ptr f of Ptr_fields k \<Rightarrow> sub (msgs env k) n | _ \<Rightarrow> False)))"

definition default_ok :: "pb_field \<Rightarrow> bool" where
  "default_ok f \<longleftrightarrow> PB_LTYPE (ftype f) = PB_LTYPE_SUBMESSAGE \<or>
     (case ptr f of Ptr_null \<Rightarrow> True | Ptr_default bs \<Rightarrow> unat (data_size f) \<le> length bs
      | Ptr_fields _ \<Rightarrow> False)"

definition static_fits :: "(pb_field list \<Rightarrow> nat \<Rightarrow> bool) \<Rightarrow> env \<Rightarrow> nat \<Rightarrow> pb_field \<Rightarrow> addr \<Rightarrow> addr \<Rightarrow> bool" where
  "static_fits sub env sz f d s \<longleftrightarrow> element_fits sub env f \<and>
     (if PB_HTYPE (ftype f) = PB_HTYPE_REPEATED
      then unat (data_size f) * unat (array_size f) < 2 ^ 32 \<and>
           within 0 sz d (unat (data_size f) * unat (array_size f)) \<and> within 0 sz s 4
      else within 0 sz d (unat (data_size f)) \<and>
           (PB_HTYPE (ftype f) = PB_HTYPE_ONEOF \<longrightarrow> within 0 sz s 4) \<and>
           (PB_HTYPE (ftype f) \<noteq> PB_HTYPE_ONEOF \<longrightarrow> default_ok f) \<and>
           (PB_HTYPE (ftype f) = PB_HTYPE_OPTIONAL \<and> s \<noteq> d \<longrightarrow> within 0 sz s 1))"

text \<open>Pointer fields are rejected without malloc support, but they are set to NULL first.\<close>

definition pointer_fits :: "nat \<Rightarrow> pb_field \<Rightarrow> addr \<Rightarrow> addr \<Rightarrow> bool" where
  "pointer_fits sz f d s \<longleftrightarrow> within 0 sz d 8 \<and>
     (PB_HTYPE (ftype f) = PB_HTYPE_REPEATED \<or> PB_HTYPE (ftype f) = PB_HTYPE_ONEOF \<longrightarrow> within 0 sz s 4)"

definition field_fits :: "(pb_field list \<Rightarrow> nat \<Rightarrow> bool) \<Rightarrow> env \<Rightarrow> nat \<Rightarrow> pb_field \<Rightarrow> addr \<Rightarrow> addr \<Rightarrow> bool" where
  "field_fits sub env sz f d s \<longleftrightarrow> PB_LTYPE (ftype f) \<noteq> PB_LTYPE_EXTENSION \<and>
     (if PB_ATYPE (ftype f) = PB_ATYPE_STATIC then static_fits sub env sz f d s
      else PB_ATYPE (ftype f) = PB_ATYPE_POINTER \<and> pointer_fits sz f d s)"

text \<open>
  The bookkeeping for required fields works for up to 63 of them, unless there are exactly 32: the
  final check is undefined otherwise.
\<close>

definition required_ok :: "pb_field list \<Rightarrow> bool" where
  "required_ok fs \<longleftrightarrow> (let c = length (filter is_required fs) in c < 64 \<and> c \<noteq> 32)"

text \<open>\<open>msg_fits n\<close>: so do the submessages, which nest less than \<open>n\<close> deep.\<close>

primrec msg_fits :: "nat \<Rightarrow> env \<Rightarrow> pb_field list \<Rightarrow> nat \<Rightarrow> bool" where
  "msg_fits 0 env fs sz = False"
| "msg_fits (Suc n) env fs sz \<longleftrightarrow> fs \<noteq> [] \<and> wf_fields fs \<and> required_ok fs \<and> sz \<le> 2 ^ 64 \<and>
     (\<forall>i \<in> set [0..<length fs]. field_fits (msg_fits n env) env sz (fs ! i) (data_off fs i) (size_off fs i))"

lemma iter_at_offsets:
  assumes "wf_fields fs"
  shows "i < length fs \<Longrightarrow>
    pData (iter_at fs b i) = b + data_off fs i \<and> pSize (iter_at fs b i) = b + size_off fs i"
proof (induction i)
  case 0
  show ?case
    by (simp add: data_off_def size_off_def iter_at.simps pb_field_iter_begin_def Let_def offset_addr_def)
next
  case (Suc i)
  then have i: "i < length fs" by simp
  have t: "tag (field_at fs i) \<noteq> 0" "tag (field_at fs (Suc i)) \<noteq> 0"
    using assms Suc.prems i field_at_tag by blast+
  have IH: "pData (iter_at fs b i) = b + data_off fs i" "pSize (iter_at fs b i) = b + size_off fs i"
    using Suc.IH [OF i] by simp_all
  note it = iter_at_fields [OF assms i]
  have IH0: "pData (iter_at fs 0 i) = data_off fs i" "pSize (iter_at fs 0 i) = size_off fs i"
    by (simp_all add: data_off_def size_off_def)
  show ?case
    unfolding data_off_def [of fs "Suc i"] size_off_def [of fs "Suc i"]
    using it [of b] it [of 0] t IH IH0
    by (simp add: iter_at.simps pb_field_iter_next_def Let_def cur_def offset_addr_def)
qed

lemma within_shift: "within base sz (base + d) n = within 0 sz d n"
  by (simp add: within_def)

subsection \<open>Defaults\<close>

lemma copy_default_tame:
  assumes "default_ok f" "PB_LTYPE (ftype f) \<noteq> PB_LTYPE_SUBMESSAGE"
    "within base sz p (unat (data_size f))" "sz \<le> 2 ^ 64"
  shows "tame base sz (copy_default f p)"
proof (cases "ptr f")
  case Ptr_null
  then have "(copy_default f p :: dst \<Rightarrow> _) = wr (\<lambda>h. memset_zero h p (unat (data_size f)))"
    by (intro ext) (simp add: copy_default_def)
  then show ?thesis using tame_memset assms(3,4) by simp
next
  case (Ptr_fields k)
  then show ?thesis using assms by (simp add: default_ok_def)
next
  case (Ptr_default bs)
  then have l: "unat (data_size f) \<le> length bs" using assms(1,2) by (simp add: default_ok_def)
  with Ptr_default have "(copy_default f p :: dst \<Rightarrow> _) = wr (\<lambda>h. store h p (take (unat (data_size f)) bs))"
    by (intro ext) (simp add: copy_default_def)
  then show ?thesis using tame_store [of base sz p "take (unat (data_size f)) bs"] assms(3,4) l
    by (simp add: min_def)
qed

lemma tame_walk:
  assumes "wf_fields fs" "fs \<noteq> []"
    and body: "\<And>i. i < length fs \<Longrightarrow> tame base sz (body (iter_at fs p i))"
  shows "tame base sz (message_walk body fs p)"
  unfolding tame_def
proof (intro allI impI)
  fix st assume st: "ready base sz st"
  have "okay (\<lambda>_. after base sz st) (after base sz st) (iter_do_while body (iter_at fs p 0) st)"
  proof (rule iter_do_while_okay [OF assms(1), where I = "\<lambda>_. after base sz st"])
    fix j s assume j: "j < length fs" and s: "after base sz st s"
    from tameD [OF body [OF j] after_ready [OF st s]]
    show "okay (\<lambda>_. after base sz st) (after base sz st) (body (iter_at fs p j) s)"
      by (rule okay_mono) (use after_trans [OF s] in blast)+
  qed (use assms(2) in simp_all)
  then show "okay (\<lambda>_. after base sz st) (after base sz st) (message_walk body fs p st)"
    using begin_nonempty [OF assms(1), of p] assms(2)
    by (simp add: message_walk_def case_prod_beta iter_at.simps)
qed

lemma element_region:
  assumes "static_fits sub env sz f d s" "PB_HTYPE (ftype f) \<noteq> PB_HTYPE_REPEATED"
  shows "within base sz (base + d) (unat (data_size f))"
  using assms by (simp add: static_fits_def within_shift)

lemma element_submessage:
  assumes "element_fits sub env f" "PB_LTYPE (ftype f) = PB_LTYPE_SUBMESSAGE"
  obtains k where "ptr f = Ptr_fields k" "sub (msgs env k) (unat (data_size f))"
  using assms by (auto simp: element_fits_def Let_def pb_consts split: fptr.splits)

lemma static_default_tame:
  assumes fit: "static_fits sub env sz f d s" and sz: "sz \<le> 2 ^ 64"
    and A: "PB_ATYPE (ftype f) = PB_ATYPE_STATIC" "PB_LTYPE (ftype f) \<noteq> PB_LTYPE_EXTENSION"
    and it: "cur it = f" "pData it = base + d" "pSize it = base + s"
    and sub: "\<And>k p. sub (msgs env k) (unat (data_size f)) \<Longrightarrow>
      tame p (unat (data_size f)) (message_walk (pb_field_set_to_default n env) (msgs env k) p)"
  shows "tame base sz (pb_field_set_to_default (Suc n) env it)"
proof (cases "PB_HTYPE (ftype f) = PB_HTYPE_REPEATED \<or> PB_HTYPE (ftype f) = PB_HTYPE_ONEOF")
  case True
  then have "within base sz (base + s) 4"
    using fit by (auto simp: static_fits_def within_shift split: if_splits)
  then have "tame base sz (wr (\<lambda>h. store_u32 h (base + s) 0))" by (rule u32.tame_st [OF _ sz])
  moreover have "(pb_field_set_to_default (Suc n) env it :: dst \<Rightarrow> _) = wr (\<lambda>h. store_u32 h (base + s) 0)"
    using True A it by (intro ext) (auto simp: Let_def pb_consts)
  ultimately show ?thesis by simp
next
  case False
  let ?init = "\<lambda>st. if PB_LTYPE (ftype f) = PB_LTYPE_SUBMESSAGE
     then (case ptr f of Ptr_fields k \<Rightarrow>
             message_walk (pb_field_set_to_default n env) (msgs env k) (pData it) st | _ \<Rightarrow> Fault)
     else copy_default f (pData it) st"
  have w: "within base sz (pData it) (unat (data_size f))"
    using element_region [OF fit] False it(2) by simp
  have e: "element_fits sub env f" using fit by (simp add: static_fits_def)
  have init: "tame base sz ?init"
  proof (cases "PB_LTYPE (ftype f) = PB_LTYPE_SUBMESSAGE")
    case True
    from element_submessage [OF e True] obtain k where k: "ptr f = Ptr_fields k"
      "sub (msgs env k) (unat (data_size f))" .
    from tame_within [OF sub [OF k(2)] w sz] True k(1) show ?thesis by simp
  next
    case lt: False
    have "default_ok f" using fit False by (simp add: static_fits_def)
    from copy_default_tame [OF this lt w sz] lt show ?thesis by simp
  qed
  have flag: "tame base sz (\<lambda>st. andthen (wr (\<lambda>h. store_bool h (pSize it) False) st) (\<lambda>_. ?init))"
    if "PB_HTYPE (ftype f) = PB_HTYPE_OPTIONAL \<and> pSize it \<noteq> pData it"
  proof (intro tame_seq init bool.tame_st sz)
    show "within base sz (pSize it) 1"
      using fit that False it by (simp add: static_fits_def within_shift)
  qed
  have eq: "pb_field_set_to_default (Suc n) env it =
      (\<lambda>st. if PB_HTYPE (ftype f) = PB_HTYPE_OPTIONAL \<and> pSize it \<noteq> pData it
        then andthen (wr (\<lambda>h. store_bool h (pSize it) False) st) (\<lambda>_. ?init) else ?init st)"
    using False A it(1) by (intro ext) (simp add: Let_def)
  show ?thesis unfolding eq by (intro tame_if flag init)
qed

lemma pointer_default_tame:
  assumes fit: "pointer_fits sz f d s" and sz: "sz \<le> 2 ^ 64"
    and A: "PB_ATYPE (ftype f) = PB_ATYPE_POINTER" "PB_LTYPE (ftype f) \<noteq> PB_LTYPE_EXTENSION"
    and it: "cur it = f" "pData it = base + d" "pSize it = base + s"
  shows "tame base sz (pb_field_set_to_default (Suc n) env it)"
proof -
  have w: "within base sz (pData it) 8" using fit it by (simp add: pointer_fits_def within_shift)
  have ws: "within base sz (pSize it) 4"
    if "PB_HTYPE (ftype f) = PB_HTYPE_REPEATED \<or> PB_HTYPE (ftype f) = PB_HTYPE_ONEOF"
    using fit it that by (simp add: pointer_fits_def within_shift)
  have eq: "pb_field_set_to_default (Suc n) env it =
      (\<lambda>st. andthen (wr (\<lambda>h. store_ptr h (pData it) 0) st) (\<lambda>_ st1.
         if PB_HTYPE (ftype f) = PB_HTYPE_REPEATED \<or> PB_HTYPE (ftype f) = PB_HTYPE_ONEOF
         then wr (\<lambda>h. store_u32 h (pSize it) 0) st1 else Ok () st1))"
    using A it(1) by (intro ext) (simp add: Let_def pb_consts)
  show ?thesis
    unfolding eq by (intro tame_seq tame_if ptr.tame_st u32.tame_st tame_Ok w ws sz)
qed

lemma message_defaults_tame:
  "msg_fits n env fs sz \<Longrightarrow> tame p sz (pb_message_set_to_defaults n env fs p)"
  unfolding pb_message_set_to_defaults_def
proof (induction n arbitrary: fs sz p)
  case 0
  then show ?case by simp
next
  case (Suc n)
  then have wf: "wf_fields fs" "fs \<noteq> []" and sz: "sz \<le> 2 ^ 64"
    and fits: "\<And>i. i < length fs \<Longrightarrow>
      field_fits (msg_fits n env) env sz (fs ! i) (data_off fs i) (size_off fs i)"
    by auto
  show ?case
  proof (rule tame_walk [OF wf])
    fix i assume i: "i < length fs"
    note it = cur_iter_at [OF wf(1) i, of p] iter_at_offsets [OF wf(1) i, of p]
    have nx: "PB_LTYPE (ftype (fs ! i)) \<noteq> PB_LTYPE_EXTENSION"
      using fits [OF i] by (simp add: field_fits_def)
    show "tame p sz (pb_field_set_to_default (Suc n) env (iter_at fs p i))"
    proof (cases "PB_ATYPE (ftype (fs ! i)) = PB_ATYPE_STATIC")
      case True
      then have "static_fits (msg_fits n env) env sz (fs ! i) (data_off fs i) (size_off fs i)"
        using fits [OF i] by (simp add: field_fits_def)
      from static_default_tame [OF this sz True nx] it Suc.IH show ?thesis by blast
    next
      case False
      then have "PB_ATYPE (ftype (fs ! i)) = PB_ATYPE_POINTER"
        "pointer_fits sz (fs ! i) (data_off fs i) (size_off fs i)"
        using fits [OF i] by (simp_all add: field_fits_def)
      from pointer_default_tame [OF this(2) sz this(1) nx] it show ?thesis by blast
    qed
  qed
qed

subsection \<open>Scalars read something\<close>

text \<open>Every successful scalar decoder has used up at least one byte, so the loops over input end.\<close>

lemma pb_decode_varint_progress:
  assumes "in_ok s" "pb_decode_varint s = Ok v t"
  shows "unat (bytes_left t) < unat (bytes_left s)"
proof -
  have "varint_loop s 0 0 = andthen (pb_readbyte s) (\<lambda>b s'.
        let result' = 0 OR push_bit (unat (0 :: byte)) (ucast (b AND 0x7F)) in
        if b AND 0x80 \<noteq> 0 then varint_loop s' (0 + 7) result' else Ok result' s')"
    by (subst varint_loop.simps) simp
  with assms(2) obtain b s' where b: "pb_readbyte s = Ok b s'"
    and rest: "(let result' = 0 OR push_bit (unat (0 :: byte)) (ucast (b AND 0x7F)) in
        if b AND 0x80 \<noteq> 0 then varint_loop s' (0 + 7) result' else Ok result' s') = Ok v t"
    by (auto simp: pb_decode_varint_def andthen_eq_Ok)
  have "later s' t"
    using rest varint_loop_okay [OF readbyte.Ok_in_ok [OF assms(1) b]]
    by (auto simp: Let_def split: if_splits) (metis okay.simps(1))
  with pb_readbyte_progress [OF b] later_unat show ?thesis by fastforce
qed

lemma pb_read_progress:
  assumes "in_ok s" "pb_read s z n = Ok bs t" "n \<noteq> 0"
  shows "unat (bytes_left t) < unat (bytes_left s)"
proof -
  have "bytes_left t = bytes_left s - n" "n \<le> bytes_left s"
    using assms(2) pb_read_buf_Ok_bytes_left [of s n bs t] by (simp_all add: pb_read_in_ok [OF assms(1)])
  moreover have "0 < unat n" using assms(3) by (simp add: unat_gt_0)
  ultimately show ?thesis by (simp add: unat_sub word_le_nat_alt)
qed

lemma store_int_stream: "store_int e32 e16 e8 field p v st = Ok u st' \<Longrightarrow> fst st' = fst st"
  by (auto simp: store_int_def andthen_eq_Ok wr_def dec_error_def on_stream_def return_error_def
      split: if_splits option.splits)

definition reads_on :: "(dst \<Rightarrow> ('a, dst) outcome) \<Rightarrow> bool" where
  "reads_on op \<longleftrightarrow> (\<forall>st u st'. in_ok (fst st) \<longrightarrow> op st = Ok u st' \<longrightarrow>
     unat (bytes_left (fst st')) < unat (bytes_left (fst st)))"

lemma reads_onI:
  assumes "\<And>s v t. in_ok s \<Longrightarrow> op s = Ok v t \<Longrightarrow> unat (bytes_left t) < unat (bytes_left s)"
    and "\<And>v st u st'. f v st = Ok u st' \<Longrightarrow> fst st' = fst st"
  shows "reads_on (\<lambda>st. andthen (on_stream op st) (\<lambda>v. f v))"
  unfolding reads_on_def
proof (intro allI impI)
  fix st u st' assume s: "in_ok (fst st)" and "andthen (on_stream op st) (\<lambda>v. f v) = Ok u st'"
  then obtain v t where "op (fst st) = Ok v t" "f v (t, snd st) = Ok u st'"
    by (auto simp: andthen_eq_Ok on_stream_def split: outcome.splits)
  with assms(1) [OF s] assms(2) show "unat (bytes_left (fst st')) < unat (bytes_left (fst st))"
    by fastforce
qed

lemma wr_stream: "wr g st = Ok u st' \<Longrightarrow> fst st' = fst st"
  by (auto simp: wr_def split: option.splits)

lemma pb_decode_svarint_progress:
  "in_ok s \<Longrightarrow> pb_decode_svarint s = Ok v t \<Longrightarrow> unat (bytes_left t) < unat (bytes_left s)"
  by (auto simp: pb_decode_svarint_def andthen_eq_Ok split: if_splits dest: pb_decode_varint_progress)

lemma packable_reads_on:
  assumes "PB_DECODERS n env noinit lt = Some func" "lt \<le> PB_LTYPE_LAST_PACKABLE"
  shows "reads_on (func field p)"
proof -
  have "lt = PB_LTYPE_VARINT \<or> lt = PB_LTYPE_UVARINT \<or> lt = PB_LTYPE_SVARINT \<or> lt = PB_LTYPE_FIXED32 \<or>
      lt = PB_LTYPE_FIXED64"
  proof -
    have "unat lt \<le> 4" using assms(2) by (simp add: word_le_nat_alt pb_consts)
    then have "unat lt = 0 \<or> unat lt = 1 \<or> unat lt = 2 \<or> unat lt = 3 \<or> unat lt = 4" by arith
    then show ?thesis by (auto simp: pb_consts word_unat_eq_iff)
  qed
  then have "func = pb_dec_varint \<or> func = pb_dec_uvarint \<or> func = pb_dec_svarint \<or>
      func = pb_dec_fixed32 \<or> func = pb_dec_fixed64"
    using assms(1) by (auto simp: PB_DECODERS_def pb_consts)
  moreover have "reads_on (pb_dec_varint field p)"
    unfolding pb_dec_varint_def [abs_def] Let_def store_signed_def
    by (rule reads_onI) (use pb_decode_varint_progress store_int_stream in blast)+
  moreover have "reads_on (pb_dec_uvarint field p)"
    unfolding pb_dec_uvarint_def [abs_def] store_unsigned_def
    by (rule reads_onI) (use pb_decode_varint_progress store_int_stream in blast)+
  moreover have "reads_on (pb_dec_svarint field p)"
    unfolding pb_dec_svarint_def [abs_def] store_signed_def
    by (rule reads_onI) (use pb_decode_svarint_progress store_int_stream in blast)+
  moreover have "reads_on (pb_dec_fixed32 field p)"
    unfolding pb_dec_fixed32_def [abs_def]
    by (rule reads_onI)
       (auto simp: pb_decode_fixed32_eq andthen_eq_Ok dest: pb_read_progress wr_stream)
  moreover have "reads_on (pb_dec_fixed64 field p)"
    unfolding pb_dec_fixed64_def [abs_def]
    by (rule reads_onI)
       (auto simp: pb_decode_fixed64_eq andthen_eq_Ok dest: pb_read_progress wr_stream)
  ultimately show ?thesis by blast
qed

subsection \<open>One value of a static field\<close>

lemma decoder_tame:
  assumes fit: "element_fits sub env f" and A: "PB_ATYPE (ftype f) = PB_ATYPE_STATIC"
    and func: "PB_DECODERS n env noinit (PB_LTYPE (ftype f)) = Some func" and nm: "\<not> enable_malloc env"
    and sub: "\<And>k m p. sub (msgs env k) m \<Longrightarrow> tame p m (noinit (msgs env k) p) \<and>
      tame p m (pb_message_set_to_defaults n env (msgs env k) p)"
  shows "tame p (unat (data_size f)) (func f p)"
proof (cases "PB_LTYPE (ftype f) = PB_LTYPE_SUBMESSAGE")
  case True
  from element_submessage [OF fit True] obtain k where k: "ptr f = Ptr_fields k"
    "sub (msgs env k) (unat (data_size f))" .
  have "func = pb_dec_submessage n env noinit"
    using func True by (simp add: PB_DECODERS_def pb_consts)
  then show ?thesis using pb_dec_submessage_tame [OF k(1) nm] sub [OF k(2)] by simp
next
  case False
  have small: "PB_LTYPE (ftype f) = PB_LTYPE_FIXED32 \<Longrightarrow> 4 \<le> unat (data_size f)"
    "PB_LTYPE (ftype f) = PB_LTYPE_FIXED64 \<Longrightarrow> 8 \<le> unat (data_size f)"
    "PB_LTYPE (ftype f) \<noteq> PB_LTYPE_EXTENSION"
    using fit by (auto simp: element_fits_def Let_def pb_consts)
  then show ?thesis
    using func False
    by (auto simp: PB_DECODERS_def pb_dec_varint_tame pb_dec_uvarint_tame pb_dec_svarint_tame
        pb_dec_bytes_tame [OF A] pb_dec_string_tame [OF A] pb_dec_fixed_length_bytes_tame
        pb_dec_fixed32_tame pb_dec_fixed64_tame split: if_splits)
qed

lemma decoder_exists: "element_fits sub env f \<Longrightarrow> \<exists>func. PB_DECODERS n env noinit (PB_LTYPE (ftype f)) = Some func"
  by (auto simp: element_fits_def Let_def PB_DECODERS_def)

text \<open>The elements of an array lie in the struct, and the 32-bit index computation does not wrap.\<close>

lemma item_within:
  assumes "unat (data_size f) * unat (array_size f) < 2 ^ 32"
    "within base sz p (unat (data_size f) * unat (array_size f))" "k < array_size f" "sz \<le> 2 ^ 64"
  shows "within base sz (item_addr p f k) (unat (data_size f))"
proof (cases "data_size f = 0")
  case True
  then show ?thesis using assms(2) by (simp add: item_addr_def within_def)
next
  case False
  have k: "unat k < unat (array_size f)" using assms(3) by (simp add: word_less_nat_alt)
  then have "unat (data_size f) * Suc (unat k) \<le> unat (data_size f) * unat (array_size f)"
    by (intro mult_le_mono) simp_all
  then have le: "unat (data_size f) * unat k + unat (data_size f) \<le> unat (data_size f) * unat (array_size f)"
    by simp
  then have u: "unat (data_size f * k) = unat (data_size f) * unat k"
    using assms(1) by (intro unat_mult_lem [THEN iffD1]) simp
  have "within p (unat (data_size f) * unat (array_size f)) (item_addr p f k) (unat (data_size f))"
    unfolding item_addr_def by (rule within_add) (simp add: u le)
  from within_trans [OF assms(2) this assms(4)] False show ?thesis by (simp add: unat_gt_0)
qed

subsection \<open>Static fields\<close>

lemma incr_size_tame: "within base sz p 4 \<Longrightarrow> sz \<le> 2 ^ 64 \<Longrightarrow> tame base sz (incr_size p)"
  unfolding incr_size_def [abs_def] by (intro tame_seq u32.tame_ld u32.tame_st)

lemma incr_size_stream: "incr_size p st = Ok u st' \<Longrightarrow> fst st' = fst st"
  by (auto simp: incr_size_def andthen_eq_Ok rd_def wr_def split: option.splits)

lemma packed_static_after:
  assumes sz: "sz \<le> 2 ^ 64" and s: "within base sz (pSize it) 4"
    and item: "\<And>k. k < array_size (cur it) \<Longrightarrow> tame base sz (func (cur it) (item_addr (pData it) (cur it) k))"
    and reads: "\<And>p. reads_on (func (cur it) p)"
  shows "ready base sz st \<Longrightarrow> unat (bytes_left (fst st)) < n \<Longrightarrow>
    okay (\<lambda>_. after base sz st) (after base sz st) (packed_static n func it st)"
proof (induction n arbitrary: st)
  case 0
  then show ?case by simp
next
  case (Suc n)
  obtain k where k: "rd (\<lambda>h. load_u32 h (pSize it)) st = Ok k st"
    using tameD [OF u32.tame_ld [OF s sz] Suc.prems(1)] by (auto simp: rd_def split: option.splits)
  show ?case
  proof (cases "bytes_left (fst st) = 0 \<or> \<not> k < array_size (cur it)")
    case True
    then show ?thesis using k by auto
  next
    case False
    then have nz: "bytes_left (fst st) \<noteq> 0" and lt: "k < array_size (cur it)" by auto
    note f = tameD [OF item [OF lt] Suc.prems(1)]
    have rest: "okay (\<lambda>_. after base sz st) (after base sz st)
        (andthen (incr_size (pSize it) st2) (\<lambda>_. packed_static n func it))"
      if st2: "func (cur it) (item_addr (pData it) (cur it) k) st = Ok u st2" for u st2
    proof (rule okay_andthen)
      have a2: "after base sz st st2" using f st2 by simp
      then have r2: "ready base sz st2" using after_ready [OF Suc.prems(1)] by blast
      show "okay (\<lambda>_. after base sz st) (after base sz st) (incr_size (pSize it) st2)"
        by (rule okay_mono [OF tameD [OF incr_size_tame [OF s sz] r2]]) (use after_trans [OF a2] in blast)+
      fix u' st3 assume i: "incr_size (pSize it) st2 = Ok u' st3" and a3: "after base sz st st3"
      have "in_ok (fst st)" using Suc.prems(1) by (simp add: ready_def)
      then have "unat (bytes_left (fst st3)) < unat (bytes_left (fst st))"
        using reads st2 incr_size_stream [OF i] unfolding reads_on_def by metis
      then have "unat (bytes_left (fst st3)) < n" using Suc.prems(2) by simp
      from Suc.IH [OF after_ready [OF Suc.prems(1) a3] this]
      show "okay (\<lambda>_. after base sz st) (after base sz st) (packed_static n func it st3)"
        by (rule okay_mono) (use after_trans [OF a3] in blast)+
    qed
    show ?thesis
      using nz lt k f rest
      by (cases "func (cur it) (item_addr (pData it) (cur it) k) st") auto
  qed
qed

lemma decode_packed_static_tame:
  assumes "sz \<le> 2 ^ 64" "within base sz (pSize it) 4"
    "\<And>k. k < array_size (cur it) \<Longrightarrow> tame base sz (func (cur it) (item_addr (pData it) (cur it) k))"
    "\<And>p. reads_on (func (cur it) p)"
  shows "tame base sz (decode_packed_static func it)"
  unfolding decode_packed_static_def [abs_def]
proof (rule tame_substream)
  fix st sub st1 assume i: "inside base sz st sub st1"
  have p: "okay (\<lambda>_. after base sz (sub, snd st1)) (after base sz (sub, snd st1))
      (packed_static (Suc (unat (bytes_left sub))) func it (sub, snd st1))"
    by (rule packed_static_after) (use assms inside_ready [OF i] in simp_all)
  show "okay (\<lambda>_. after base sz st) (after base sz st)
      (case packed_static (Suc (unat (bytes_left sub))) func it (sub, snd st1) of
         Ok status (sub', h) \<Rightarrow>
           if bytes_left sub' \<noteq> 0 then dec_error ''array overflow'' (fst st1, h)
           else close_sub status sub' (fst st1, h)
       | Fail (sub', h) \<Rightarrow> Fail (fst st1, h) | Fault \<Rightarrow> Fault | Loop \<Rightarrow> Loop)"
  proof (cases "packed_static (Suc (unat (bytes_left sub))) func it (sub, snd st1)")
    case (Ok status r)
    then show ?thesis
      using p inside_error [OF i] close_sub_after [OF i] by (cases r) auto
  next
    case (Fail r)
    then show ?thesis using p inside_abandon [OF i] by (cases r) auto
  qed (use p in simp_all)
qed

lemma decode_static_field_tame:
  assumes fit: "static_fits sub env sz f d s" and sz: "sz \<le> 2 ^ 64"
    and A: "PB_ATYPE (ftype f) = PB_ATYPE_STATIC" and nm: "\<not> enable_malloc env"
    and it: "cur it = f" "pData it = base + d" "pSize it = base + s"
    and sub: "\<And>k m p. sub (msgs env k) m \<Longrightarrow> tame p m (noinit (msgs env k) p) \<and>
      tame p m (pb_message_set_to_defaults n env (msgs env k) p)"
  shows "tame base sz (decode_static_field n env noinit wt it)"
proof -
  have e: "element_fits sub env f" using fit by (simp add: static_fits_def)
  obtain func where func: "PB_DECODERS n env noinit (PB_LTYPE (ftype f)) = Some func"
    using decoder_exists [OF e] by blast
  have elem: "tame p (unat (data_size f)) (func f p)" for p
    using decoder_tame [OF e A func nm sub] .
  show ?thesis
  proof (cases "PB_HTYPE (ftype f) = PB_HTYPE_REPEATED")
    case True
    have w: "within base sz (pSize it) 4" and d: "unat (data_size f) * unat (array_size f) < 2 ^ 32"
      "within base sz (pData it) (unat (data_size f) * unat (array_size f))"
      using fit True it by (auto simp: static_fits_def within_shift)
    have item: "tame base sz (func f (item_addr (pData it) f k))" if "k < array_size f" for k
      by (rule tame_within [OF elem item_within [OF d that sz] sz])
    have packed: "tame base sz (decode_packed_static func it)"
      if "PB_LTYPE (ftype f) \<le> PB_LTYPE_LAST_PACKABLE"
      by (rule decode_packed_static_tame [OF sz w]) (use item packable_reads_on [OF func that] it in simp_all)
    have single: "tame base sz (\<lambda>st. andthen (rd (\<lambda>h. load_u32 h (pSize it)) st) (\<lambda>k st1.
        if array_size f \<le> k then dec_error ''array overflow'' st1
        else andthen (incr_size (pSize it) st1) (\<lambda>_. func f (item_addr (pData it) f k))))"
      by (intro tame_seq u32.tame_ld tame_if tame_error incr_size_tame item w sz) simp
    have eq: "decode_static_field n env noinit wt it =
        (\<lambda>st. if wt = PB_WT_STRING \<and> PB_LTYPE (ftype f) \<le> PB_LTYPE_LAST_PACKABLE
          then decode_packed_static func it st
          else andthen (rd (\<lambda>h. load_u32 h (pSize it)) st) (\<lambda>k st1.
            if array_size f \<le> k then dec_error ''array overflow'' st1
            else andthen (incr_size (pSize it) st1) (\<lambda>_. func f (item_addr (pData it) f k))))"
      using True func it by (intro ext) (simp add: decode_static_field_def Let_def pb_consts)
    show ?thesis unfolding eq by (intro tame_if packed single) simp
  next
    case False
    have w: "within base sz (pData it) (unat (data_size f))"
      using element_region [OF fit False] it by simp
    have whole: "tame base sz (func f (pData it))" by (rule tame_within [OF elem w sz])
    show ?thesis
    proof (cases "PB_HTYPE (ftype f) = PB_HTYPE_ONEOF")
      case True
      have ws: "within base sz (pSize it) 4" using fit False True it by (simp add: static_fits_def within_shift)
      let ?clear = "\<lambda>st1. if PB_LTYPE (ftype f) = PB_LTYPE_SUBMESSAGE
         then andthen (wr (\<lambda>h. memset_zero h (pData it) (unat (data_size f))) st1)
           (\<lambda>_ st2. case ptr f of
              Ptr_fields k \<Rightarrow> pb_message_set_to_defaults n env (msgs env k) (pData it) st2 | _ \<Rightarrow> Fault)
         else Ok () st1"
      have clear: "tame base sz ?clear"
      proof (cases "PB_LTYPE (ftype f) = PB_LTYPE_SUBMESSAGE")
        case True
        from element_submessage [OF e True] obtain k where k: "ptr f = Ptr_fields k"
          "sub (msgs env k) (unat (data_size f))" .
        have "tame base sz (pb_message_set_to_defaults n env (msgs env k) (pData it))"
          using tame_within [OF _ w sz] sub [OF k(2)] by blast
        then have "tame base sz (\<lambda>st1. andthen (wr (\<lambda>h. memset_zero h (pData it) (unat (data_size f))) st1)
            (\<lambda>_. pb_message_set_to_defaults n env (msgs env k) (pData it)))"
          by (intro tame_seq tame_memset w sz)
        with True k(1) show ?thesis by simp
      qed (simp add: tame_Ok)
      have eq: "decode_static_field n env noinit wt it =
          (\<lambda>st. andthen (wr (\<lambda>h. store_u32 h (pSize it) (tag f)) st) (\<lambda>_ st1.
             andthen (?clear st1) (\<lambda>_. func f (pData it))))"
        using True func it by (intro ext) (simp add: decode_static_field_def Let_def pb_consts)
      show ?thesis unfolding eq by (intro tame_seq u32.tame_st clear whole ws sz)
    next
      case no: False
      have flag: "tame base sz (\<lambda>st. andthen (if pSize it \<noteq> pData it
          then wr (\<lambda>h. store_bool h (pSize it) True) st else Ok () st) (\<lambda>_. func f (pData it)))"
        if "PB_HTYPE (ftype f) = PB_HTYPE_OPTIONAL"
      proof (intro tame_seq tame_if bool.tame_st tame_Ok whole sz)
        show "pSize it \<noteq> pData it \<Longrightarrow> within base sz (pSize it) 1"
          using fit that False no it by (simp add: static_fits_def within_shift)
      qed
      have eq: "decode_static_field n env noinit wt it =
          (\<lambda>st. if PB_HTYPE (ftype f) = PB_HTYPE_REQUIRED then func f (pData it) st
            else andthen (if pSize it \<noteq> pData it
              then wr (\<lambda>h. store_bool h (pSize it) True) st else Ok () st) (\<lambda>_. func f (pData it)))"
        using False no func it PB_HTYPE_cases [of "ftype f"]
        by (intro ext) (auto simp: decode_static_field_def Let_def)
      show ?thesis unfolding eq using PB_HTYPE_cases [of "ftype f"] False no
        by (intro tame_if whole flag) auto
    qed
  qed
qed

subsection \<open>Any field of the message\<close>

lemma decode_field_tame:
  assumes fit: "field_fits sub env sz f d s" and sz: "sz \<le> 2 ^ 64" and nm: "\<not> enable_malloc env"
    and it: "cur it = f" "pData it = base + d" "pSize it = base + s"
    and sub: "\<And>k m p. sub (msgs env k) m \<Longrightarrow> tame p m (noinit (msgs env k) p) \<and>
      tame p m (pb_message_set_to_defaults n env (msgs env k) p)"
    and st: "ready base sz st"
  shows "okay (\<lambda>it' st'. it' = it \<and> after base sz st st') (after base sz st)
    (decode_field n env noinit wt it st)"
proof -
  let ?body = "\<lambda>st. if PB_ATYPE (ftype f) = PB_ATYPE_STATIC
        then decode_static_field n env noinit wt it st
        else if PB_ATYPE (ftype f) = PB_ATYPE_POINTER then decode_pointer_field n env noinit wt it st
        else if PB_ATYPE (ftype f) = PB_ATYPE_CALLBACK then decode_callback_field n env wt it st
        else dec_error ''invalid field type'' st"
  have body: "tame base sz ?body"
  proof (cases "PB_ATYPE (ftype f) = PB_ATYPE_STATIC")
    case True
    then have "static_fits sub env sz f d s" using fit by (simp add: field_fits_def)
    from decode_static_field_tame [OF this sz True nm it sub] True show ?thesis by simp
  next
    case False
    then have "PB_ATYPE (ftype f) = PB_ATYPE_POINTER" using fit by (simp add: field_fits_def)
    moreover have "decode_pointer_field n env noinit wt it = dec_error ''no malloc support''"
      using nm by (intro ext) (simp add: decode_pointer_field_def)
    ultimately show ?thesis using False tame_error by simp
  qed
  have eq: "decode_field n env noinit wt it st = andthen (?body st) (\<lambda>_. Ok it)"
    by (simp only: decode_field_def nm it(1) if_False simp_thms andthen.simps)
  show ?thesis unfolding eq by (rule okay_andthen [OF tameD [OF body st]]) simp
qed

lemma no_extension_found:
  assumes wf: "wf_fields fs" and none: "\<And>f. f \<in> set fs \<Longrightarrow> PB_LTYPE (ftype f) \<noteq> PB_LTYPE_EXTENSION"
    and i: "i < length fs"
  shows "find_extension_field (iter_at fs d i) = Some (iter_at fs d i, False)"
proof -
  have "find_extension_loop k first (iter_at fs d j) = find_loop k first 0 (iter_at fs d j)"
    if "j < length fs" for k first j
    using that
  proof (induction k arbitrary: j)
    case (Suc k)
    have c: "cur (iter_at fs d j) = fs ! j" by (rule cur_iter_at [OF wf Suc.prems])
    have "tag (fs ! j) \<noteq> 0" using wf Suc.prems by (simp add: wf_fields_def)
    moreover have "PB_LTYPE (ftype (fs ! j)) \<noteq> PB_LTYPE_EXTENSION" using none Suc.prems by simp
    moreover have "Suc j mod length fs < length fs" using Suc.prems by (intro mod_less_divisor) auto
    ultimately show ?case
      using Suc.IH next_iter_at_mod [OF wf Suc.prems, of d] c by (simp add: Let_def)
  qed simp
  from this [OF i] have "find_extension_field (iter_at fs d i) = pb_field_iter_find (iter_at fs d i) 0"
    by (simp add: find_extension_field_def pb_field_iter_find_def del: find_loop.simps find_extension_loop.simps)
  moreover have "\<And>f. f \<in> set fs \<Longrightarrow> \<not> field_matches 0 f" using wf by (auto simp: field_matches_def wf_fields_def)
  ultimately show ?thesis
    using pb_field_iter_find_result [OF wf i, of 0 d] by auto
qed

subsection \<open>The loop over the fields\<close>

definition scan_ok :: "pb_field list \<Rightarrow> addr \<Rightarrow> scan \<Rightarrow> bool" where
  "scan_ok fs base v \<longleftrightarrow> (\<exists>i < length fs. sc_iter v = iter_at fs base i) \<and> length (sc_seen v) = 2"

lemma length_mark_seen [simp]: "length (mark_seen it seen) = length seen"
  by (simp add: mark_seen_def Let_def)

lemma decode_tag_small: "pb_decode_tag s = Ok (True, wt, t, eof) s' \<Longrightarrow> t < 2 ^ 29"
proof -
  assume "pb_decode_tag s = Ok (True, wt, t, eof) s'"
  then obtain temp where t: "t = drop_bit 3 temp"
    by (auto simp: pb_decode_tag_def split: outcome.splits if_splits)
  have "unat t = drop_bit 3 (unat temp)" unfolding t by (rule unat_drop_bit_eq)
  then have "unat t = unat temp div 8" by (simp add: drop_bit_eq_div)
  moreover have "unat temp < 2 ^ 32" using unsigned_less [of temp, where ?'a = nat] by simp
  ultimately have "unat t < 2 ^ 29" by simp
  then show ?thesis by (simp add: word_less_nat_alt)
qed

text \<open>The facts about a message type that the loop needs, and what it keeps.\<close>

definition fields_tame :: "nat \<Rightarrow> env \<Rightarrow> msg_decoder \<Rightarrow> pb_field list \<Rightarrow> addr \<Rightarrow> nat \<Rightarrow> bool" where
  "fields_tame n env noinit fs base sz \<longleftrightarrow> wf_fields fs \<and> fs \<noteq> [] \<and>
     (\<forall>f \<in> set fs. PB_LTYPE (ftype f) \<noteq> PB_LTYPE_EXTENSION) \<and>
     (\<forall>i < length fs. \<forall>wt st. ready base sz st \<longrightarrow>
        okay (\<lambda>it' st'. it' = iter_at fs base i \<and> after base sz st st') (after base sz st)
          (decode_field n env noinit wt (iter_at fs base i) st))"

lemma decode_tagged_after:
  assumes ft: "fields_tame n env noinit fs base sz" and v: "scan_ok fs base v"
    and t: "t < 2 ^ 29" and st: "ready base sz st"
  shows "okay (\<lambda>v' st'. scan_ok fs base v' \<and> after base sz st st') (after base sz st)
    (decode_tagged n env noinit t wt v st)"
proof -
  have wf: "wf_fields fs" and ne: "\<And>f. f \<in> set fs \<Longrightarrow> PB_LTYPE (ftype f) \<noteq> PB_LTYPE_EXTENSION"
    using ft by (simp_all add: fields_tame_def)
  obtain i where i: "i < length fs" "sc_iter v = iter_at fs base i" using v by (auto simp: scan_ok_def)
  have skip: "okay (\<lambda>v' st'. scan_ok fs base v' \<and> after base sz st st') (after base sz st)
      (andthen (on_stream (\<lambda>s. pb_skip_field s wt) st) (\<lambda>_. Ok v'))" if "scan_ok fs base v'" for v'
    using okay_andthen [OF tameD [OF reader_tame [OF skip_field.reader_axioms] st], where f = "\<lambda>_. Ok v'"
        and P' = "\<lambda>v' st'. scan_ok fs base v' \<and> after base sz st st'"] that by simp
  from pb_field_iter_find_result [OF wf i(1), of t base] show ?thesis
  proof (elim disjE exE conjE)
    fix j assume j: "j < length fs" "pb_field_iter_find (iter_at fs base i) t = Some (iter_at fs base j, True)"
    have "okay (\<lambda>it' st'. it' = iter_at fs base j \<and> after base sz st st') (after base sz st)
        (decode_field n env noinit wt (iter_at fs base j) st)"
      using ft j(1) st unfolding fields_tame_def by blast
    then show ?thesis
      unfolding decode_tagged_def i(2) j(2)
      using v j(1) by (auto simp: scan_ok_def intro!: okay_andthen)
  next
    assume find: "pb_field_iter_find (iter_at fs base i) t = Some (iter_at fs base i, False)"
    have ext: "find_extension_field (iter_at fs base i) = Some (iter_at fs base i, False)"
      using no_extension_found [OF wf ne i(1)] .
    have far: "\<not> - 1 \<le> t"
    proof
      assume "- 1 \<le> t"
      then have "unat (- 1 :: u32) \<le> unat t" by (simp add: word_le_nat_alt)
      moreover have "unat t < 2 ^ 29" using t by (simp add: word_less_nat_alt)
      moreover have "unat (- 1 :: u32) = 2 ^ 32 - 1" by (simp add: unsigned_minus_1_eq_mask mask_eq_exp_minus_1)
      ultimately show False by simp
    qed
    have sv: "scan_ok fs base (v\<lparr>sc_iter := iter_at fs base i, sc_ext_start := e\<rparr>)"
      "scan_ok fs base (v\<lparr>sc_iter := iter_at fs base i\<rparr>)" for e
      using v i by (auto simp: scan_ok_def)
    show ?thesis
      unfolding decode_tagged_def i(2) find
      using skip [OF sv(1)] skip [OF sv(2)] far
      by (simp add: decode_unknown_def Let_def ext)
  qed
qed

lemma decode_loop_after:
  assumes ft: "fields_tame n env noinit fs base sz"
  shows "ready base sz st \<Longrightarrow> scan_ok fs base v \<Longrightarrow> unat (bytes_left (fst st)) < k \<Longrightarrow>
    okay (\<lambda>v' st'. scan_ok fs base v' \<and> after base sz st st') (after base sz st)
      (decode_loop k n env noinit v st)"
proof (induction k arbitrary: st v)
  case 0
  then show ?case by simp
next
  case (Suc k)
  let ?P = "\<lambda>v' st'. scan_ok fs base v' \<and> after base sz st st'"
  have s: "in_ok (fst st)" using Suc.prems(1) by (simp add: ready_def)
  show ?case
  proof (cases "bytes_left (fst st) = 0")
    case True
    then show ?thesis using Suc.prems(2) by simp
  next
    case False
    have "okay ?P (after base sz st) (andthen (on_stream pb_decode_tag st) (\<lambda>(ok, wt, t, eof) st1.
        if \<not> ok then (if eof then Ok v st1 else Fail st1)
        else andthen (decode_tagged n env noinit t wt v st1) (\<lambda>v'. decode_loop k n env noinit v')))"
    proof (rule okay_andthen [OF tameD [OF reader_tame [OF decode_tag.reader_axioms] Suc.prems(1)]])
      fix a st1 assume a: "on_stream pb_decode_tag st = Ok a st1" and st1: "after base sz st st1"
      obtain ok wt t eof where eq: "a = (ok, wt, t, eof)" by (cases a)
      have r1: "ready base sz st1" using after_ready [OF Suc.prems(1) st1] .
      have step: "okay ?P (after base sz st)
          (andthen (decode_tagged n env noinit t wt v st1) (\<lambda>v'. decode_loop k n env noinit v'))" if ok: ok
      proof -
        obtain s1 where tag: "pb_decode_tag (fst st) = Ok (True, wt, t, eof) s1" "fst st1 = s1"
          using a ok unfolding eq by (cases "pb_decode_tag (fst st)") (auto simp: on_stream_def)
        have small: "unat (bytes_left (fst st1)) < k"
          using pb_decode_tag_progress [OF s tag(1)] tag(2) Suc.prems(3) by simp
        show ?thesis
        proof (rule okay_andthen)
          show "okay (\<lambda>v' st'. scan_ok fs base v' \<and> after base sz st1 st') (after base sz st)
              (decode_tagged n env noinit t wt v st1)"
            by (rule okay_mono [OF decode_tagged_after [OF ft Suc.prems(2) decode_tag_small [OF tag(1)] r1]])
               (use after_trans [OF st1] in blast)+
          fix v' st2 assume "scan_ok fs base v' \<and> after base sz st1 st2"
          then have v': "scan_ok fs base v'" and st2: "after base sz st1 st2" by simp_all
          have a2: "after base sz st st2" using after_trans [OF st1 st2] .
          have "unat (bytes_left (fst st2)) < k"
            using lag_unat [of "fst st1" "fst st2"] st2 small by (simp add: after_def)
          from Suc.IH [OF after_ready [OF r1 st2] v' this]
          show "okay ?P (after base sz st) (decode_loop k n env noinit v' st2)"
            by (rule okay_mono) (use after_trans [OF a2] in blast)+
        qed
      qed
      show "okay ?P (after base sz st)
          ((case a of (ok, wt, t, eof) \<Rightarrow> \<lambda>st1. if \<not> ok then (if eof then Ok v st1 else Fail st1)
            else andthen (decode_tagged n env noinit t wt v st1) (\<lambda>v'. decode_loop k n env noinit v')) st1)"
        unfolding eq using step st1 Suc.prems(2) by simp
    qed
    with False show ?thesis by simp
  qed
qed

subsection \<open>The check for required fields\<close>

lemma seek_end_iter_at:
  assumes wf: "wf_fields fs"
  shows "i < length fs \<Longrightarrow> seek_end (iter_at fs d i) =
    (of_nat (required_before fs (length fs - 1)), ftype (fs ! (length fs - 1)), iter_at fs d 0)"
proof (induction "length fs - i" arbitrary: i)
  case 0
  then show ?case by simp
next
  case (Suc k)
  note nx = next_iter_at [OF wf Suc.prems, of d]
  show ?case
  proof (cases "Suc i < length fs")
    case True
    then have "seek_end (iter_at fs d i) = seek_end (iter_at fs d (Suc i))"
      using nx by (subst seek_end.simps) simp
    with True Suc.hyps show ?thesis by simp
  next
    case False
    then have "i = length fs - 1" using Suc.prems by simp
    with False show ?thesis
      using nx required_field_index_iter_at [OF wf Suc.prems, of d] cur_iter_at [OF wf Suc.prems, of d]
      by (subst seek_end.simps) simp
  qed
qed

lemma req_field_count_iter_at:
  assumes wf: "wf_fields fs" and i: "i < length fs"
  shows "req_field_count (iter_at fs d i) = of_nat (length (filter is_required fs))"
proof -
  let ?m = "length fs - 1"
  have m: "?m < length fs" "0 < length fs" using i by (cases fs; simp)+
  have split: "fs = take ?m fs @ [fs ! ?m]"
    using m by (metis Suc_diff_1 take_Suc_conv_app_nth take_all_iff order_refl)
  have "length (filter is_required fs) = required_before fs ?m + (if is_required (fs ! ?m) then 1 else 0)"
    unfolding required_before_def by (subst split) simp
  moreover have "tag (cur (iter_at fs d 0)) \<noteq> 0"
    using cur_iter_at [OF wf m(2)] wf m(2) by (simp add: wf_fields_def)
  ultimately show ?thesis
    by (simp add: req_field_count_def seek_end_iter_at [OF wf i] is_required_def)
qed

lemma mod_32_nonzero: "c < 64 \<Longrightarrow> c \<noteq> 32 \<Longrightarrow> c \<noteq> 0 \<Longrightarrow> c mod 32 \<noteq> 0" for c :: nat
  by presburger

lemma required_check_defined:
  assumes "required_ok fs" "length seen = 2"
  shows "all_required_seen (of_nat (length (filter is_required fs))) seen \<noteq> None"
proof (cases "length (filter is_required fs) = 0")
  case False
  let ?c = "length (filter is_required fs)"
  have c: "?c < 64" "?c \<noteq> 32" using assms(1) by (simp_all add: required_ok_def Let_def)
  then have u: "unat (of_nat ?c :: u32) = ?c" by (intro unat_of_nat_id) simp
  have "unat (drop_bit 5 (of_nat ?c :: u32)) = drop_bit 5 (unat (of_nat ?c :: u32))"
    by (rule unat_drop_bit_eq)
  then have w: "unat (drop_bit 5 (of_nat ?c :: u32)) = ?c div 32" by (simp only: u) (simp add: drop_bit_eq_div)
  have m: "(of_nat ?c :: u32) AND 31 = take_bit 5 (of_nat ?c)"
    by (simp add: take_bit_eq_mask mask_eq_exp_minus_1)
  have "unat (take_bit 5 (of_nat ?c :: u32)) = take_bit 5 (unat (of_nat ?c :: u32))"
    by (rule unsigned_take_bit_eq)
  then have r: "unat ((of_nat ?c :: u32) AND 31) = ?c mod 32"
    unfolding m by (simp only: u) (simp add: take_bit_eq_mod)
  have "?c div 32 < 2" using c by (simp add: less_mult_imp_div_less)
  moreover have "?c mod 32 \<noteq> 0" using c False mod_32_nonzero by blast
  ultimately have "?c div 32 < 2" "?c mod 32 \<noteq> 0" by simp_all
  then show ?thesis
    using assms(2) unfolding all_required_seen_def Let_def w r by auto
qed (simp add: all_required_seen_def)

subsection \<open>Messages\<close>

lemma msg_fits_fields_tame:
  assumes fit: "msg_fits (Suc n) env fs sz" and nm: "\<not> enable_malloc env"
    and sub: "\<And>k m p. msg_fits n env (msgs env k) m \<Longrightarrow> tame p m (noinit (msgs env k) p)"
  shows "fields_tame n env noinit fs base sz"
  unfolding fields_tame_def
proof (intro conjI allI impI ballI)
  show wf: "wf_fields fs" "fs \<noteq> []" using fit by simp_all
  have fits: "\<And>i. i < length fs \<Longrightarrow>
      field_fits (msg_fits n env) env sz (fs ! i) (data_off fs i) (size_off fs i)"
    using fit by auto
  show "PB_LTYPE (ftype f) \<noteq> PB_LTYPE_EXTENSION" if "f \<in> set fs" for f
    using that fits by (auto simp: in_set_conv_nth field_fits_def)
  fix i wt st assume i: "i < length fs" and st: "ready base sz st"
  note it = cur_iter_at [OF wf(1) i, of base] iter_at_offsets [OF wf(1) i, of base]
  show "okay (\<lambda>it' st'. it' = iter_at fs base i \<and> after base sz st st') (after base sz st)
      (decode_field n env noinit wt (iter_at fs base i) st)"
    by (rule decode_field_tame [OF fits [OF i] _ nm])
       (use fit it sub message_defaults_tame st in auto)
qed

lemma pb_decode_noinit_tame:
  assumes nm: "\<not> enable_malloc env"
  shows "msg_fits n env fs sz \<Longrightarrow> tame base sz (pb_decode_noinit n env fs base)"
proof (induction n arbitrary: fs sz base)
  case 0
  then show ?case by simp
next
  case (Suc n)
  have ft: "fields_tame n env (pb_decode_noinit n env) fs base sz"
    by (rule msg_fits_fields_tame [OF Suc.prems nm Suc.IH])
  have wf: "wf_fields fs" and req: "required_ok fs" using Suc.prems by simp_all
  show ?case
    unfolding tame_def
  proof (intro allI impI)
    fix st assume st: "ready base sz st"
    let ?v = "\<lparr>sc_iter = fst (pb_field_iter_begin fs base), sc_seen = [0, 0], sc_ext_start = 0\<rparr>"
    have v: "scan_ok fs base ?v"
      using Suc.prems by (auto simp: scan_ok_def iter_at.simps intro!: exI [of _ 0])
    have loop: "okay (\<lambda>v' st'. scan_ok fs base v' \<and> after base sz st st') (after base sz st)
        (decode_loop (Suc (unat (bytes_left (fst st)))) n env (pb_decode_noinit n env) ?v st)"
      by (rule decode_loop_after [OF ft st v]) simp
    show "okay (\<lambda>_. after base sz st) (after base sz st) (pb_decode_noinit (Suc n) env fs base st)"
      unfolding pb_decode_noinit.simps
    proof (rule okay_andthen [OF loop])
      fix v' st1 assume "scan_ok fs base v' \<and> after base sz st st1"
      then obtain i where i: "i < length fs" "sc_iter v' = iter_at fs base i" "length (sc_seen v') = 2"
        and st1: "after base sz st st1" by (auto simp: scan_ok_def)
      obtain b where b: "all_required_seen (req_field_count (sc_iter v')) (sc_seen v') = Some b"
        using required_check_defined [OF req i(3)]
        by (auto simp: i(2) req_field_count_iter_at [OF wf i(1)])
      have "okay (\<lambda>_. after base sz st1) (after base sz st1)
          (dec_error ''missing required field'' st1 :: (unit, dst) outcome)"
        using tameD [OF tame_error after_ready [OF st st1]] .
      then have "okay (\<lambda>_. after base sz st) (after base sz st)
          (dec_error ''missing required field'' st1 :: (unit, dst) outcome)"
        by (rule okay_mono) (use after_trans [OF st1] in blast)+
      then show "okay (\<lambda>_. after base sz st) (after base sz st)
          (case all_required_seen (req_field_count (sc_iter v')) (sc_seen v') of
             None \<Rightarrow> Fault | Some True \<Rightarrow> Ok () st1
           | Some False \<Rightarrow> dec_error ''missing required field'' st1)"
        using b st1 by (cases b) simp_all
    qed
  qed
qed

lemma pb_decode_tame:
  assumes "\<not> enable_malloc env" "msg_fits n env fs sz"
  shows "tame base sz (pb_decode n env fs base)"
proof -
  have "pb_decode n env fs base =
      (\<lambda>st. andthen (pb_message_set_to_defaults n env fs base st) (\<lambda>_. pb_decode_noinit n env fs base))"
    using assms(1)
    by (intro ext) (auto simp: pb_decode_def decode_after_init_def split: outcome.splits intro!: andthen_cong)
  then show ?thesis
    using tame_seq [OF message_defaults_tame [OF assms(2)] pb_decode_noinit_tame [OF assms]] by simp
qed

end
