(* ===== verification/Pb_Encode.thy ===== *)
theory Pb_Encode
  imports Pb_Env
begin

unbundle bit_operations_syntax

section \<open>Encoding a message (pb_encode.c)\<close>

text \<open>
  The field encoders, the loop over a message's fields, submessages, callbacks and extensions. A
  function takes the state \<^verbatim>\<open>(stream, memory)\<close>. The recursion through submessages is open: what
  encodes a submessage is the parameter \<open>rec\<close>, and \<open>pb_encode\<close> ties the knot with fuel for the
  nesting depth (and for the length of an extension chain); running out of it is \<open>Loop\<close>.
\<close>

type_synonym msg_encoder = "pb_field list \<Rightarrow> addr \<Rightarrow> est \<Rightarrow> (unit, est) outcome"

definition enc_error :: "string \<Rightarrow> est \<Rightarrow> ('a, est) outcome" where
  "enc_error msg st = on_stream (\<lambda>s. oreturn_error s msg) st"

subsection \<open>Field encoders\<close>

text \<open>The \<^verbatim>\<open>data_size\<close> cascade shared by the signed encoders: an integer read with its sign.\<close>

definition read_signed :: "pb_field \<Rightarrow> addr \<Rightarrow> est \<Rightarrow> (u64, est) outcome" where
  "read_signed field src st =
     (if data_size field = 1 then rd (\<lambda>h. map_option scast (load_u8 h src)) st
      else if data_size field = 2 then rd (\<lambda>h. map_option scast (load_u16 h src)) st
      else if data_size field = 4 then rd (\<lambda>h. map_option scast (load_u32 h src)) st
      else if data_size field = 8 then rd (\<lambda>h. load_u64 h src) st
      else enc_error ''invalid data_size'' st)"

definition read_unsigned :: "pb_field \<Rightarrow> addr \<Rightarrow> est \<Rightarrow> (u64, est) outcome" where
  "read_unsigned field src st =
     (if data_size field = 1 then rd (\<lambda>h. map_option ucast (load_u8 h src)) st
      else if data_size field = 2 then rd (\<lambda>h. map_option ucast (load_u16 h src)) st
      else if data_size field = 4 then rd (\<lambda>h. map_option ucast (load_u32 h src)) st
      else if data_size field = 8 then rd (\<lambda>h. load_u64 h src) st
      else enc_error ''invalid data_size'' st)"

definition pb_enc_varint :: "pb_field \<Rightarrow> addr \<Rightarrow> est \<Rightarrow> (unit, est) outcome" where
  "pb_enc_varint field src st =
     andthen (read_signed field src st) (\<lambda>v. on_stream (\<lambda>s. pb_encode_varint s v))"

definition pb_enc_uvarint :: "pb_field \<Rightarrow> addr \<Rightarrow> est \<Rightarrow> (unit, est) outcome" where
  "pb_enc_uvarint field src st =
     andthen (read_unsigned field src st) (\<lambda>v. on_stream (\<lambda>s. pb_encode_varint s v))"

definition pb_enc_svarint :: "pb_field \<Rightarrow> addr \<Rightarrow> est \<Rightarrow> (unit, est) outcome" where
  "pb_enc_svarint field src st =
     andthen (read_signed field src st) (\<lambda>v. on_stream (\<lambda>s. pb_encode_svarint s v))"

definition pb_enc_fixed64 :: "pb_field \<Rightarrow> addr \<Rightarrow> est \<Rightarrow> (unit, est) outcome" where
  "pb_enc_fixed64 field src st =
     andthen (rd (\<lambda>h. load_u64 h src) st) (\<lambda>v. on_stream (\<lambda>s. pb_encode_fixed64 s v))"

definition pb_enc_fixed32 :: "pb_field \<Rightarrow> addr \<Rightarrow> est \<Rightarrow> (unit, est) outcome" where
  "pb_enc_fixed32 field src st =
     andthen (rd (\<lambda>h. load_u32 h src) st) (\<lambda>v. on_stream (\<lambda>s. pb_encode_fixed32 s v))"

definition put_string :: "addr \<Rightarrow> u64 \<Rightarrow> est \<Rightarrow> (unit, est) outcome" where
  "put_string buf n st = on_stream (\<lambda>s. pb_encode_string s (peek (snd st) buf (unat n)) n) st"

definition pb_enc_bytes :: "pb_field \<Rightarrow> addr \<Rightarrow> est \<Rightarrow> (unit, est) outcome" where
  "pb_enc_bytes field src st =
     (if src = 0 then on_stream (\<lambda>s. pb_encode_string s [] 0) st
      else andthen (rd (\<lambda>h. load_u32 h src) st) (\<lambda>sz st'.
        if PB_ATYPE (ftype field) = PB_ATYPE_STATIC \<and>
           ucast (data_size field) < PB_BYTES_ARRAY_T_ALLOCSIZE (ucast sz)
        then enc_error ''bytes size exceeded'' st'
        else put_string (src + bytes_offset) (ucast sz) st'))"

text \<open>The loop that looks for the terminator within \<^verbatim>\<open>max_size\<close>; \<open>None\<close> is a read outside memory.\<close>

function string_size :: "heap \<Rightarrow> addr \<Rightarrow> u64 \<Rightarrow> u64 \<Rightarrow> u64 option" where
  "string_size h p max_sz sz =
     (if sz < max_sz then
        (case load_u8 h p of
           None \<Rightarrow> None
         | Some c \<Rightarrow> if c \<noteq> 0 then string_size h (p + 1) max_sz (sz + 1) else Some sz)
      else Some sz)"
  by pat_completeness auto
termination
proof (relation "measure (\<lambda>(h, p, m, s). unat m - unat s)")
  fix h :: heap and p :: addr and m s :: u64 and c :: byte
  assume lt: "s < m"
  then have "unat (s + 1) = Suc (unat s)" by (rule unat_succ)
  with lt show "((h, p + 1, m, s + 1), (h, p, m, s)) \<in> measure (\<lambda>(h, p, m, s). unat m - unat s)"
    by (simp add: word_less_nat_alt)
qed simp

declare string_size.simps [simp del]

definition pb_enc_string :: "pb_field \<Rightarrow> addr \<Rightarrow> est \<Rightarrow> (unit, est) outcome" where
  "pb_enc_string field src st =
     (let max_sz = (if PB_ATYPE (ftype field) = PB_ATYPE_POINTER then - 1 else ucast (data_size field)) in
      if src = 0 then put_string src 0 st
      else andthen (rd (\<lambda>h. string_size h src max_sz 0) st) (\<lambda>sz st'. put_string src sz st'))"

definition pb_enc_fixed_length_bytes :: "pb_field \<Rightarrow> addr \<Rightarrow> est \<Rightarrow> (unit, est) outcome" where
  "pb_enc_fixed_length_bytes field src st = put_string src (ucast (data_size field)) st"

subsection \<open>Submessages\<close>

text \<open>
  A first pass on a counting stream gives the size (\<open>sub\<close> is that stream after it). The second pass
  runs on a substream bounded by that size, whose state and error message are copied back.
\<close>

definition submessage_body ::
  "msg_encoder \<Rightarrow> pb_field list \<Rightarrow> addr \<Rightarrow> ostream \<Rightarrow> est \<Rightarrow> (unit, est) outcome" where
  "submessage_body rec fs src sub st =
     (let s = fst st; sz = bytes_written sub in
      if ocallback s = None then on_stream (\<lambda>s. pb_write s [] sz) st
      else if max_size s < bytes_written s + sz then enc_error ''stream full'' st
      else
        let sub2 = sub\<lparr>ocallback := ocallback s, ostate := ostate s, room := room s,
              max_size := sz, bytes_written := 0, oerrmsg := None\<rparr>;
            back = (\<lambda>t. s\<lparr>bytes_written := bytes_written s + bytes_written t,
              ostate := ostate t, room := room t, oerrmsg := oerrmsg t\<rparr>);
            finish = (\<lambda>t h2 status.
              if bytes_written t \<noteq> sz then enc_error ''submsg size changed'' (back t, h2)
              else if status then Ok () (back t, h2) else Fail (back t, h2))
        in case rec fs src (sub2, snd st) of
             Ok _ (t, h2) \<Rightarrow> finish t h2 True
           | Fail (t, h2) \<Rightarrow> finish t h2 False
           | Fault \<Rightarrow> Fault
           | Loop \<Rightarrow> Loop)"

definition pb_encode_submessage ::
  "msg_encoder \<Rightarrow> pb_field list \<Rightarrow> addr \<Rightarrow> est \<Rightarrow> (unit, est) outcome" where
  "pb_encode_submessage rec fs src st =
     (case rec fs src (PB_OSTREAM_SIZING, snd st) of
        Fail (sub, h) \<Rightarrow> Fail ((fst st)\<lparr>oerrmsg := oerrmsg sub\<rparr>, h)
      | Fault \<Rightarrow> Fault
      | Loop \<Rightarrow> Loop
      | Ok _ (sub, h) \<Rightarrow>
          andthen (on_stream (\<lambda>s. pb_encode_varint s (bytes_written sub)) (fst st, h))
            (\<lambda>_. submessage_body rec fs src sub))"

definition pb_enc_submessage :: "env \<Rightarrow> msg_encoder \<Rightarrow> pb_field \<Rightarrow> addr \<Rightarrow> est \<Rightarrow> (unit, est) outcome" where
  "pb_enc_submessage env rec field src st =
     (case ptr field of
        Ptr_null \<Rightarrow> enc_error ''invalid field descriptor'' st
      | Ptr_fields k \<Rightarrow> pb_encode_submessage rec (msgs env k) src st
      | Ptr_default _ \<Rightarrow> Fault)"

text \<open>
  The table of function pointers, indexed by the LTYPE: \<open>None\<close> is an index past its ten entries;
  calling the NULL entry (extensions) is \<open>Fault\<close>.
\<close>

type_synonym encoder = "pb_field \<Rightarrow> addr \<Rightarrow> est \<Rightarrow> (unit, est) outcome"

definition PB_ENCODERS :: "env \<Rightarrow> msg_encoder \<Rightarrow> byte \<Rightarrow> encoder option" where
  "PB_ENCODERS env rec ltype =
     (if ltype = PB_LTYPE_VARINT then Some pb_enc_varint
      else if ltype = PB_LTYPE_UVARINT then Some pb_enc_uvarint
      else if ltype = PB_LTYPE_SVARINT then Some pb_enc_svarint
      else if ltype = PB_LTYPE_FIXED32 then Some pb_enc_fixed32
      else if ltype = PB_LTYPE_FIXED64 then Some pb_enc_fixed64
      else if ltype = PB_LTYPE_BYTES then Some pb_enc_bytes
      else if ltype = PB_LTYPE_STRING then Some pb_enc_string
      else if ltype = PB_LTYPE_SUBMESSAGE then Some (pb_enc_submessage env rec)
      else if ltype = PB_LTYPE_EXTENSION then Some (\<lambda>_ _ _. Fault)
      else if ltype = PB_LTYPE_FIXED_LENGTH_BYTES then Some pb_enc_fixed_length_bytes
      else None)"

subsection \<open>Arrays\<close>

primrec encode_items ::
  "(addr \<Rightarrow> est \<Rightarrow> (unit, est) outcome) \<Rightarrow> u64 \<Rightarrow> nat \<Rightarrow> addr \<Rightarrow> est \<Rightarrow> (unit, est) outcome" where
  "encode_items item step 0 p st = Ok () st"
| "encode_items item step (Suc i) p st =
     andthen (item p st) (\<lambda>_ st'. encode_items item step i (p + step) st')"

text \<open>
  The size of a packed array. The elements are encoded to a counting stream that is dropped
  afterwards, together with its error message.
\<close>

definition packed_size :: "encoder \<Rightarrow> pb_field \<Rightarrow> addr \<Rightarrow> u64 \<Rightarrow> est \<Rightarrow> (u64, est) outcome" where
  "packed_size func field p count st =
     (if PB_LTYPE (ftype field) = PB_LTYPE_FIXED32 then Ok (4 * count) st
      else if PB_LTYPE (ftype field) = PB_LTYPE_FIXED64 then Ok (8 * count) st
      else case encode_items (func field) (ucast (data_size field)) (unat count) p
                  (PB_OSTREAM_SIZING, snd st) of
             Ok _ (sizestream, h) \<Rightarrow> Ok (bytes_written sizestream) (fst st, h)
           | Fail (_, h) \<Rightarrow> Fail (fst st, h)
           | Fault \<Rightarrow> Fault
           | Loop \<Rightarrow> Loop)"

definition encode_packed :: "encoder \<Rightarrow> pb_field \<Rightarrow> addr \<Rightarrow> u64 \<Rightarrow> est \<Rightarrow> (unit, est) outcome" where
  "encode_packed func field p count st =
     andthen (on_stream (\<lambda>s. pb_encode_tag s PB_WT_STRING (tag field)) st) (\<lambda>_ st1.
     andthen (packed_size func field p count st1) (\<lambda>sz st2.
     andthen (on_stream (\<lambda>s. pb_encode_varint s sz) st2) (\<lambda>_ st3.
       if ocallback (fst st3) = None then on_stream (\<lambda>s. pb_write s [] sz) st3
       else encode_items (func field) (ucast (data_size field)) (unat count) p st3)))"

text \<open>One entry of an array that is not packed: strings and bytes of pointer arrays are pointers.\<close>

definition encode_element :: "encoder \<Rightarrow> pb_field \<Rightarrow> addr \<Rightarrow> est \<Rightarrow> (unit, est) outcome" where
  "encode_element func field p st =
     andthen (on_stream (\<lambda>s. pb_encode_tag_for_field s field) st) (\<lambda>_ st'.
       if PB_ATYPE (ftype field) = PB_ATYPE_POINTER \<and>
          (PB_LTYPE (ftype field) = PB_LTYPE_STRING \<or> PB_LTYPE (ftype field) = PB_LTYPE_BYTES)
       then andthen (rd (\<lambda>h. load_ptr h p) st') (\<lambda>q. func field q)
       else func field p st')"

definition encode_array :: "encoder \<Rightarrow> pb_field \<Rightarrow> addr \<Rightarrow> u64 \<Rightarrow> est \<Rightarrow> (unit, est) outcome" where
  "encode_array func field p count st =
     (if count = 0 then Ok () st
      else if PB_ATYPE (ftype field) \<noteq> PB_ATYPE_POINTER \<and> ucast (array_size field) < count
      then enc_error ''array max size exceeded'' st
      else if PB_LTYPE (ftype field) \<le> PB_LTYPE_LAST_PACKABLE then encode_packed func field p count st
      else encode_items (encode_element func field) (ucast (data_size field)) (unat count) p st)"

subsection \<open>The proto3 default test\<close>

text \<open>The catch-all branch: every byte of the field is zero.\<close>

primrec all_zero :: "nat \<Rightarrow> addr \<Rightarrow> 's \<times> heap \<Rightarrow> (bool, 's \<times> heap) outcome" where
  "all_zero 0 p st = Ok True st"
| "all_zero (Suc i) p st =
     andthen (rd (\<lambda>h. load_u8 h p) st) (\<lambda>b st'. if b \<noteq> 0 then Ok False st' else all_zero i (p + 1) st')"

primrec pb_check_proto3_default_value ::
  "nat \<Rightarrow> env \<Rightarrow> pb_field \<Rightarrow> addr \<Rightarrow> 's \<times> heap \<Rightarrow> (bool, 's \<times> heap) outcome" where
  "pb_check_proto3_default_value 0 env field p st = Loop"
| "pb_check_proto3_default_value (Suc n) env field p st =
     (if PB_ATYPE (ftype field) = PB_ATYPE_STATIC \<and> PB_LTYPE (ftype field) = PB_LTYPE_BYTES
      then andthen (rd (\<lambda>h. load_u32 h p) st) (\<lambda>sz. Ok (sz = 0))
      else if PB_ATYPE (ftype field) = PB_ATYPE_STATIC \<and> PB_LTYPE (ftype field) = PB_LTYPE_STRING
      then andthen (rd (\<lambda>h. load_u8 h p) st) (\<lambda>c. Ok (c = 0))
      else if PB_ATYPE (ftype field) = PB_ATYPE_STATIC \<and>
              PB_LTYPE (ftype field) = PB_LTYPE_FIXED_LENGTH_BYTES
      then Ok (data_size field = 0) st
      else if PB_ATYPE (ftype field) = PB_ATYPE_STATIC \<and> PB_LTYPE (ftype field) = PB_LTYPE_SUBMESSAGE
      then (case ptr field of
              Ptr_fields k \<Rightarrow>
                (case pb_field_iter_begin (msgs env k) p of (it, nonempty) \<Rightarrow>
                   if nonempty
                   then iter_all (\<lambda>it. pb_check_proto3_default_value n env (cur it) (pData it)) it st
                   else Ok True st)
            | _ \<Rightarrow> Fault)
      else all_zero (unat (data_size field)) p st)"

subsection \<open>One field\<close>

text \<open>
  \<^verbatim>\<open>pSize\<close> points to the member at \<^verbatim>\<open>size_offset\<close> (\<open>Some\<close> its address), or to the local
  \<^verbatim>\<open>implicit_has\<close> (\<open>None\<close>), from which only a \<^verbatim>\<open>bool\<close> can be read.
\<close>

definition encode_basic_field ::
  "nat \<Rightarrow> env \<Rightarrow> msg_encoder \<Rightarrow> pb_field \<Rightarrow> addr \<Rightarrow> est \<Rightarrow> (unit, est) outcome" where
  "encode_basic_field n env rec field data st =
     (case PB_ENCODERS env rec (PB_LTYPE (ftype field)) of
        None \<Rightarrow> Fault
      | Some func \<Rightarrow>
          let pSize = (if size_offset field \<noteq> 0 then Some (offset_addr data (size_offset field)) else None);
              put = (\<lambda>p st. andthen (on_stream (\<lambda>s. pb_encode_tag_for_field s field) st)
                (\<lambda>_ st'. func field p st')) in
          andthen (if size_offset field = 0 \<and> PB_HTYPE (ftype field) = PB_HTYPE_OPTIONAL
                   then andthen (pb_check_proto3_default_value n env field data st) (\<lambda>b. Ok (\<not> b))
                   else Ok True st) (\<lambda>has st1.
          andthen (if PB_ATYPE (ftype field) = PB_ATYPE_POINTER then rd (\<lambda>h. load_ptr h data) st1
                   else Ok data st1) (\<lambda>p st2.
            let implicit_has = (if PB_ATYPE (ftype field) = PB_ATYPE_POINTER then p \<noteq> 0 else has) in
            if PB_HTYPE (ftype field) = PB_HTYPE_REQUIRED then
              (if p = 0 then enc_error ''missing required field'' st2 else put p st2)
            else if PB_HTYPE (ftype field) = PB_HTYPE_OPTIONAL then
              andthen (case pSize of Some a \<Rightarrow> rd (\<lambda>h. load_bool h a) st2 | None \<Rightarrow> Ok implicit_has st2)
                (\<lambda>present st3. if present then put p st3 else Ok () st3)
            else if PB_HTYPE (ftype field) = PB_HTYPE_REPEATED then
              (case pSize of
                 None \<Rightarrow> Fault
               | Some a \<Rightarrow> andthen (rd (\<lambda>h. load_u32 h a) st2) (\<lambda>count st3.
                   encode_array func field p (ucast count) st3))
            else if PB_HTYPE (ftype field) = PB_HTYPE_ONEOF then
              (case pSize of
                 None \<Rightarrow> Fault
               | Some a \<Rightarrow> andthen (rd (\<lambda>h. load_u32 h a) st2) (\<lambda>which st3.
                   if which = tag field then put p st3 else Ok () st3))
            else enc_error ''invalid field type'' st2)))"

definition encode_callback_field ::
  "env \<Rightarrow> pb_field \<Rightarrow> addr \<Rightarrow> est \<Rightarrow> (unit, est) outcome" where
  "encode_callback_field env field data st =
     andthen (rd (\<lambda>h. load_ptr h data) st) (\<lambda>f st1.
       if f = 0 then Ok () st1
       else case enc_cbs env f of
              None \<Rightarrow> Fault
            | Some cb \<Rightarrow>
                (case cb field (data + arg_offset) st1 of
                   Ok _ st2 \<Rightarrow> Ok () st2
                 | Fail st2 \<Rightarrow> enc_error ''callback error'' st2
                 | Fault \<Rightarrow> Fault
                 | Loop \<Rightarrow> Loop))"

definition encode_field ::
  "nat \<Rightarrow> env \<Rightarrow> msg_encoder \<Rightarrow> pb_field \<Rightarrow> addr \<Rightarrow> est \<Rightarrow> (unit, est) outcome" where
  "encode_field n env rec field data st =
     (if PB_ATYPE (ftype field) = PB_ATYPE_STATIC \<or> PB_ATYPE (ftype field) = PB_ATYPE_POINTER
      then encode_basic_field n env rec field data st
      else if PB_ATYPE (ftype field) = PB_ATYPE_CALLBACK then encode_callback_field env field data st
      else enc_error ''invalid field type'' st)"

subsection \<open>Extensions\<close>

definition default_extension_encoder ::
  "nat \<Rightarrow> env \<Rightarrow> msg_encoder \<Rightarrow> addr \<Rightarrow> est \<Rightarrow> (unit, est) outcome" where
  "default_extension_encoder n env rec ext st =
     andthen (ext_type_of env ext st) (\<lambda>et st1.
       let field = et_arg et in
       if PB_ATYPE (ftype field) = PB_ATYPE_POINTER
       then encode_field n env rec field (ext + dest_offset) st1
       else andthen (rd (\<lambda>h. load_ptr h (ext + dest_offset)) st1) (\<lambda>dest.
         encode_field n env rec field dest))"

primrec encode_extensions ::
  "nat \<Rightarrow> (addr \<Rightarrow> est \<Rightarrow> (unit, est) outcome) \<Rightarrow> env \<Rightarrow> addr \<Rightarrow> est \<Rightarrow> (unit, est) outcome" where
  "encode_extensions 0 dflt env ext st = (if ext = 0 then Ok () st else Loop)"
| "encode_extensions (Suc k) dflt env ext st =
     (if ext = 0 then Ok () st
      else andthen (ext_type_of env ext st) (\<lambda>et st1.
        andthen (case et_encode et of Some enc \<Rightarrow> enc ext st1 | None \<Rightarrow> dflt ext st1) (\<lambda>_ st2.
        andthen (rd (\<lambda>h. load_ptr h (ext + next_offset)) st2) (\<lambda>nxt.
          encode_extensions k dflt env nxt))))"

definition encode_extension_field ::
  "nat \<Rightarrow> env \<Rightarrow> msg_encoder \<Rightarrow> addr \<Rightarrow> est \<Rightarrow> (unit, est) outcome" where
  "encode_extension_field n env rec data st =
     andthen (rd (\<lambda>h. load_ptr h data) st) (\<lambda>ext.
       encode_extensions n (default_extension_encoder n env rec) env ext)"

subsection \<open>A message\<close>

definition encode_one :: "nat \<Rightarrow> env \<Rightarrow> msg_encoder \<Rightarrow> field_iter \<Rightarrow> est \<Rightarrow> (unit, est) outcome" where
  "encode_one n env rec it st =
     (if PB_LTYPE (ftype (cur it)) = PB_LTYPE_EXTENSION
      then encode_extension_field n env rec (pData it) st
      else encode_field n env rec (cur it) (pData it) st)"

primrec pb_encode :: "nat \<Rightarrow> env \<Rightarrow> msg_encoder" where
  "pb_encode 0 env fs src st = Loop"
| "pb_encode (Suc n) env fs src st =
     (case pb_field_iter_begin fs src of (it, nonempty) \<Rightarrow>
        if nonempty then iter_do_while (encode_one n env (pb_encode n env)) it st
        else Ok () st)"

definition pb_encode_delimited ::
  "nat \<Rightarrow> env \<Rightarrow> pb_field list \<Rightarrow> addr \<Rightarrow> est \<Rightarrow> (unit, est) outcome" where
  "pb_encode_delimited n env fs src st = pb_encode_submessage (pb_encode n env) fs src st"

text \<open>The result is the out-parameter and the memory.\<close>

definition pb_get_encoded_size ::
  "nat \<Rightarrow> env \<Rightarrow> pb_field list \<Rightarrow> addr \<Rightarrow> heap \<Rightarrow> (u64, heap) outcome" where
  "pb_get_encoded_size n env fs src h =
     (case pb_encode n env fs src (PB_OSTREAM_SIZING, h) of
        Ok _ (s, h') \<Rightarrow> Ok (bytes_written s) h'
      | Fail (_, h') \<Rightarrow> Fail h'
      | Fault \<Rightarrow> Fault
      | Loop \<Rightarrow> Loop)"

end
