(* ===== verification/Pb_Wire.thy ===== *)
theory Pb_Wire
  imports Pb_Istream Pb_Ostream
begin

unbundle bit_operations_syntax

section \<open>The wire format: what the encoders emit, what the decoders accept\<close>

text \<open>
  The contracts between the two sides of the library. \<open>emitter op bs\<close>: the encoder \<open>op\<close> puts
  exactly the bytes \<open>bs\<close> on a stream, whatever kind of stream it is. \<open>codec enc dec\<close>: the decoder
  \<open>dec\<close> gives back what \<open>enc\<close> stands for and consumes exactly its bytes. Both are locales,
  interpreted here on every scalar encoder and decoder of the library.
\<close>

subsection \<open>Buffer input streams\<close>

text \<open>
  \<open>feed bs s\<close>: a buffer stream whose next bytes are \<open>bs\<close>, all of them within \<open>bytes_left\<close>;
  \<open>advance n s\<close>: the same stream \<open>n\<close> bytes on.
\<close>

definition feed :: "byte list \<Rightarrow> istream \<Rightarrow> bool" where
  "feed bs s \<longleftrightarrow> is_buf_read (callback s) \<and> take (length bs) (state s) = bs \<and>
     length bs \<le> length (state s) \<and> length bs \<le> unat (bytes_left s)"

definition advance :: "nat \<Rightarrow> istream \<Rightarrow> istream" where
  "advance n s = s\<lparr>state := drop n (state s), bytes_left := bytes_left s - of_nat n\<rparr>"

lemma advance_0 [simp]: "advance 0 s = s"
  by (simp add: advance_def)

lemma advance_fields [simp]:
  "callback (advance n s) = callback s" "errmsg (advance n s) = errmsg s"
  "state (advance n s) = drop n (state s)"
  "bytes_left (advance n s) = bytes_left s - of_nat n"
  by (simp_all add: advance_def)

lemma advance_advance [simp]: "advance m (advance n s) = advance (n + m) s"
  by (simp add: advance_def algebra_simps)

lemma feed_append:
  "feed (xs @ ys) s \<longleftrightarrow> feed xs s \<and> feed ys (advance (length xs) s)"
proof
  assume f: "feed (xs @ ys) s"
  then have t: "take (length xs + length ys) (state s) = xs @ ys" by (simp add: feed_def)
  from f have l: "length xs \<le> unat (bytes_left s)" by (simp add: feed_def)
  have "take (length xs) (state s) = take (length xs) (take (length xs + length ys) (state s))"
    by simp
  then have xs: "take (length xs) (state s) = xs" using t by simp
  have "take (length ys) (drop (length xs) (state s)) = drop (length xs) (take (length xs + length ys) (state s))"
    by (simp add: take_drop add.commute)
  then have ys: "take (length ys) (drop (length xs) (state s)) = ys" using t by simp
  from f xs ys l show "feed xs s \<and> feed ys (advance (length xs) s)"
    by (auto simp: feed_def unat_sub_of_nat)
next
  assume "feed xs s \<and> feed ys (advance (length xs) s)"
  then show "feed (xs @ ys) s"
    by (auto simp: feed_def take_add unat_sub_of_nat)
qed

lemma feed_Cons: "feed (x # xs) s \<longleftrightarrow> feed [x] s \<and> feed xs (advance 1 s)"
  using feed_append [of "[x]" xs s] by simp

lemma feed_from_buffer:
  "length bs \<le> unat n \<Longrightarrow> feed bs (pb_istream_from_buffer (bs @ rest) n)"
  by (simp add: feed_def pb_istream_from_buffer_def)

lemma feed_call_callback: "feed bs s \<Longrightarrow>
  call_callback s (of_nat (length bs)) = Ok bs (s\<lparr>state := drop (length bs) (state s)\<rparr>)"
proof -
  assume f: "feed bs s"
  then have "length bs \<le> unat (bytes_left s)" by (simp add: feed_def)
  then have u: "unat (of_nat (length bs) :: u64) = length bs" by (rule le_unat_uoi)
  from f have "callback s = Buf_read" by (simp add: feed_def is_buf_read_def)
  with f u show ?thesis
    by (simp add: call_callback_def buf_read_def feed_def)
qed

lemma feed_pb_read_buf:
  "feed bs s \<Longrightarrow> n = of_nat (length bs) \<Longrightarrow> pb_read_buf s n = Ok bs (advance (length bs) s)"
  using feed_call_callback [of bs s]
  by (auto simp: pb_read_buf_def advance_def feed_def linorder_not_le [symmetric]
      dest: of_nat_le_word)

lemma feed_pb_read:
  "feed bs s \<Longrightarrow> n = of_nat (length bs) \<Longrightarrow> pb_read s z n = Ok bs (advance (length bs) s)"
  by (simp add: pb_read_def feed_pb_read_buf) (simp add: feed_def)

lemma feed_pb_readbyte: "feed [b] s \<Longrightarrow> pb_readbyte s = Ok b (advance 1 s)"
  using feed_call_callback [of "[b]" s]
  by (auto simp: pb_readbyte_def advance_def feed_def unat_gt_0)

subsection \<open>The codec contract\<close>

locale codec =
  fixes enc :: "'a \<Rightarrow> byte list" and dec :: "istream \<Rightarrow> ('a, istream) outcome"
    and valid :: "'a \<Rightarrow> bool"
  assumes dec_enc: "valid a \<Longrightarrow> feed (enc a) s \<Longrightarrow> dec s = Ok a (advance (length (enc a)) s)"
begin

lemma unique_decoding:
  assumes "valid a" "valid b" "enc a @ xs = enc b @ ys"
    and "length (enc a @ xs) < 2 ^ 64"
  shows "a = b \<and> xs = ys"
proof -
  let ?s = "pb_istream_from_buffer (enc a @ xs) (of_nat (length (enc a @ xs)))"
  have u: "unat (of_nat (length (enc a @ xs)) :: u64) = length (enc a @ xs)"
    using assms(4) by (intro unat_of_nat_id) simp
  have fa: "feed (enc a) ?s" by (rule feed_from_buffer) (use u in simp)
  have fb: "feed (enc b) ?s" unfolding assms(3)
    by (rule feed_from_buffer) (use u assms(3) in simp)
  from dec_enc [OF assms(1) fa] dec_enc [OF assms(2) fb] have "a = b" by simp
  with assms(3) show ?thesis by simp
qed

text \<open>Values one after the other, as in the payload of a packed array.\<close>

primrec dec_seq :: "nat \<Rightarrow> istream \<Rightarrow> ('a list, istream) outcome" where
  "dec_seq 0 s = Ok [] s"
| "dec_seq (Suc n) s = andthen (dec s) (\<lambda>a s'. andthen (dec_seq n s') (\<lambda>as s''. Ok (a # as) s''))"

lemma dec_seq_enc:
  "\<forall>a \<in> set as. valid a \<Longrightarrow> feed (concat (map enc as)) s \<Longrightarrow>
   dec_seq (length as) s = Ok as (advance (length (concat (map enc as))) s)"
proof (induction as arbitrary: s)
  case Nil
  then show ?case by simp
next
  case (Cons a as)
  from Cons.prems have "feed (enc a) s" and f: "feed (concat (map enc as)) (advance (length (enc a)) s)"
    by (simp_all add: feed_append)
  then have "dec s = Ok a (advance (length (enc a)) s)" using Cons.prems(1) by (simp add: dec_enc)
  with Cons.IH [OF _ f] Cons.prems(1) show ?case by simp
qed

end

subsection \<open>The bytes of a varint\<close>

text \<open>
  The specification both sides are measured against: seven bits a byte, least significant first,
  the top bit set on every byte but the last.
\<close>

function varint_bytes :: "u64 \<Rightarrow> byte list" where
  "varint_bytes v =
     (if v \<le> 0x7F then [ucast v]
      else ucast ((v AND 0x7F) OR 0x80) # varint_bytes (drop_bit 7 v))"
  by pat_completeness auto
termination
proof (relation "measure unat")
  fix v :: u64
  assume "\<not> v \<le> 0x7F"
  then have "0 < unat v" by (auto simp: unat_gt_0)
  then show "(drop_bit 7 v, v) \<in> measure unat" by (simp add: unat_drop_bit_7)
qed simp

declare varint_bytes.simps [simp del]

lemma varint_bytes_small: "v \<le> 0x7F \<Longrightarrow> varint_bytes v = [ucast v]"
  by (simp add: varint_bytes.simps)

lemma varint_bytes_large: "\<not> v \<le> 0x7F \<Longrightarrow>
    varint_bytes v = ucast ((v AND 0x7F) OR 0x80) # varint_bytes (drop_bit 7 v)"
  by (simp add: varint_bytes.simps)

lemma varint_bytes_not_Nil [simp]: "varint_bytes v \<noteq> []"
  by (subst varint_bytes.simps) simp

lemma le_7F_unat: "(v :: u64) \<le> 0x7F \<longleftrightarrow> unat v < 128"
  by (simp add: word_le_nat_alt less_Suc_eq_le [symmetric])

lemma length_varint_bytes_bound: "unat v < 128 ^ k \<Longrightarrow> 0 < k \<Longrightarrow> length (varint_bytes v) \<le> k"
proof (induction k arbitrary: v)
  case 0
  then show ?case by simp
next
  case (Suc k)
  show ?case
  proof (cases "v \<le> 0x7F")
    case True
    then show ?thesis by (simp add: varint_bytes_small)
  next
    case False
    then have "0 < k" using Suc.prems(1) by (cases k) (auto simp: le_7F_unat)
    moreover have "unat (drop_bit 7 v) < 128 ^ k"
      using Suc.prems(1) by (simp add: unat_drop_bit_7 less_mult_imp_div_less)
    ultimately show ?thesis using Suc.IH False by (simp add: varint_bytes_large)
  qed
qed

lemma length_varint_bytes_le_10: "length (varint_bytes v) \<le> 10"
proof (rule length_varint_bytes_bound)
  have "unat v < 2 ^ 64" using unsigned_less [of v, where ?'a = nat] by simp
  then show "unat v < 128 ^ 10" by simp
qed simp

lemma length_varint_bytes_le_5: "unat v < 2 ^ 32 \<Longrightarrow> length (varint_bytes v) \<le> 5"
  by (rule length_varint_bytes_bound) simp_all

lemma clear_last_top_Cons: "bs \<noteq> [] \<Longrightarrow> clear_last_top (b # bs) = b # clear_last_top bs"
  by (cases bs) (auto simp: clear_last_top_def)

lemma varint_fill_not_Nil: "v \<noteq> 0 \<Longrightarrow> varint_fill v \<noteq> []"
  by (subst varint_fill.simps) simp

lemma length_varint_fill: "v \<noteq> 0 \<Longrightarrow> length (varint_fill v) = length (varint_bytes v)"
proof (induction v rule: varint_bytes.induct)
  case (1 v)
  show ?case
  proof (cases "v \<le> 0x7F")
    case True
    then have "drop_bit 7 v = 0" by (simp add: word_unat_eq_iff unat_drop_bit_7 le_7F_unat)
    with True 1 show ?thesis by (simp add: varint_fill.simps varint_bytes_small)
  next
    case False
    then have "drop_bit 7 v \<noteq> 0"
      by (simp add: word_unat_eq_iff unat_drop_bit_7 le_7F_unat)
    with False 1 show ?thesis by (simp add: varint_fill.simps [of v] varint_bytes_large)
  qed
qed

lemma varint_fill_bytes: "v \<noteq> 0 \<Longrightarrow> clear_last_top (varint_fill v) = varint_bytes v"
proof (induction v rule: varint_bytes.induct)
  case (1 v)
  show ?case
  proof (cases "v \<le> 0x7F")
    case True
    then have d: "drop_bit 7 v = 0" by (simp add: word_unat_eq_iff unat_drop_bit_7 le_7F_unat)
    then have t: "take_bit 7 v = v" by (simp add: take_bit_eq_self_iff_drop_bit_eq_0)
    then have l: "bit v n \<Longrightarrow> n < 7" for n by (metis bit_take_bit_iff)
    have "ucast ((v AND 0x7F) OR 0x80) AND 0x7F = (ucast v :: byte)"
      by (rule bit_word_eqI) (auto simp: bit_simps wire_bits dest: l)
    with True 1 d show ?thesis
      by (simp add: varint_fill.simps varint_bytes_small clear_last_top_def)
  next
    case False
    then have "drop_bit 7 v \<noteq> 0"
      by (simp add: word_unat_eq_iff unat_drop_bit_7 le_7F_unat)
    with False 1 show ?thesis
      by (simp add: varint_fill.simps [of v] varint_bytes_large clear_last_top_Cons
          varint_fill_not_Nil)
  qed
qed

lemma pb_encode_varint_writes:
  "pb_encode_varint s v = pb_write s (varint_bytes v) (of_nat (length (varint_bytes v)))"
proof (cases "v \<le> 0x7F")
  case True
  then show ?thesis by (simp add: pb_encode_varint_def varint_bytes_small)
next
  case False
  then have "v \<noteq> 0" by auto
  with False show ?thesis
    using length_varint_bytes_le_10 [of v]
    by (simp add: pb_encode_varint_def Let_def varint_fill_bytes length_varint_fill)
qed

subsection \<open>Decoding a varint\<close>

lemma varint_byte_top: "ucast ((v AND 0x7F) OR 0x80 :: u64) AND 0x80 \<noteq> (0 :: byte)"
  by (simp add: and_80_eq_0 bit_simps wire_bits)

lemma ucast_small_top: "(v :: u64) \<le> 0x7F \<Longrightarrow> ucast v AND 0x80 = (0 :: byte)"
proof -
  assume "v \<le> 0x7F"
  then have "drop_bit 7 v = 0" by (simp add: word_unat_eq_iff unat_drop_bit_7 le_7F_unat)
  then have "take_bit 7 v = v" by (simp add: take_bit_eq_self_iff_drop_bit_eq_0)
  then have "bit v n \<Longrightarrow> n < 7" for n by (metis bit_take_bit_iff)
  then have "\<not> bit v 7" by blast
  then show ?thesis by (simp add: and_80_eq_0 bit_simps)
qed

lemma ucast_small_low: "(v :: u64) \<le> 0x7F \<Longrightarrow> ucast (ucast v AND 0x7F :: byte) = v"
proof -
  assume "v \<le> 0x7F"
  then have "drop_bit 7 v = 0" by (simp add: word_unat_eq_iff unat_drop_bit_7 le_7F_unat)
  then have t: "take_bit 7 v = v" by (simp add: take_bit_eq_self_iff_drop_bit_eq_0)
  then have l: "bit v n \<Longrightarrow> n < 7" for n by (metis bit_take_bit_iff)
  show ?thesis by (rule bit_word_eqI) (auto simp: bit_simps wire_bits dest: l)
qed

lemma varint_loop_bytes:
  "feed (varint_bytes v) s \<Longrightarrow> bp < 64 \<Longrightarrow> unat v < 2 ^ (64 - unat bp) \<Longrightarrow>
   varint_loop s bp r =
     Ok (r OR push_bit (unat bp) v) (advance (length (varint_bytes v)) s)"
proof (induction v arbitrary: s bp r rule: varint_bytes.induct)
  case (1 v)
  have bp: "\<not> 64 \<le> bp" "unat bp < 64" using "1.prems"(2)
    by (simp_all add: word_less_nat_alt word_le_nat_alt)
  show ?case
  proof (cases "v \<le> 0x7F")
    case True
    with "1.prems"(1) have "feed [ucast v] s" by (simp add: varint_bytes_small)
    then have "pb_readbyte s = Ok (ucast v) (advance 1 s)" by (rule feed_pb_readbyte)
    with True bp show ?thesis
      by (simp add: varint_loop.simps [of s] varint_bytes_small ucast_small_top ucast_small_low)
  next
    case False
    let ?b = "ucast ((v AND 0x7F) OR 0x80 :: u64) :: byte"
    have "feed (?b # varint_bytes (drop_bit 7 v)) s"
      using "1.prems"(1) False by (simp add: varint_bytes_large)
    then have f: "feed [?b] s" "feed (varint_bytes (drop_bit 7 v)) (advance 1 s)"
      using feed_Cons [of ?b _ s] by blast+
    have big: "128 \<le> unat v" using False by (simp add: le_7F_unat)
    then have "2 ^ 7 < (2::nat) ^ (64 - unat bp)" using "1.prems"(3) by simp
    then have "7 < 64 - unat bp" by (rule power_less_imp_less_exp [rotated]) simp
    then have bp7: "unat (bp + 7) = unat bp + 7" "bp + 7 < 64"
      using unat_bitpos_add_7 [OF "1.prems"(2)] by (simp_all add: word_less_nat_alt)
    have "unat v < 2 ^ (64 - unat (bp + 7)) * 128"
    proof -
      have "64 - unat bp = (64 - unat (bp + 7)) + 7" using bp7 \<open>7 < 64 - unat bp\<close> by simp
      then have "(2::nat) ^ (64 - unat bp) = 2 ^ (64 - unat (bp + 7)) * 2 ^ 7"
        by (simp add: power_add)
      then show ?thesis using "1.prems"(3) by simp
    qed
    then have small: "unat (drop_bit 7 v) < 2 ^ (64 - unat (bp + 7))"
      by (simp add: unat_drop_bit_7 less_mult_imp_div_less)
    have "varint_loop s bp r =
        varint_loop (advance 1 s) (bp + 7) (r OR push_bit (unat bp) (take_bit 7 v))"
      using bp feed_pb_readbyte [OF f(1)] varint_byte_top [of v]
      by (simp add: varint_loop.simps [of s] and_7F ucast_take_bit_7 [unfolded and_7F])
    also have "\<dots> = Ok ((r OR push_bit (unat bp) (take_bit 7 v)) OR push_bit (unat bp + 7) (drop_bit 7 v))
        (advance (length (varint_bytes (drop_bit 7 v))) (advance 1 s))"
      using "1.IH" [OF False f(2) bp7(2) small] bp7(1) by simp
    also have "\<dots> = Ok (r OR push_bit (unat bp) v) (advance (length (varint_bytes v)) s)"
      using False by (simp add: or.assoc push_take_drop_7 varint_bytes_large)
    finally show ?thesis .
  qed
qed

lemma pb_decode_varint_bytes:
  "feed (varint_bytes v) s \<Longrightarrow> pb_decode_varint s = Ok v (advance (length (varint_bytes v)) s)"
  using varint_loop_bytes [of v s 0 0] unsigned_less [of v, where ?'a = nat]
  by (simp add: pb_decode_varint_def)

interpretation varint: codec varint_bytes pb_decode_varint "\<lambda>_. True"
  by unfold_locales (rule pb_decode_varint_bytes)

text \<open>
  \<^verbatim>\<open>pb_decode_varint32\<close> gathers the same groups into 32 bits: five groups at most, and the bits
  above the 32nd are dropped without an error.
\<close>

lemma ucast_group32:
  "ucast (ucast (take_bit 7 v OR 0x80 :: u64) AND 0x7F :: byte) = (ucast (take_bit 7 v) :: u32)"
  by (rule bit_word_eqI) (auto simp: bit_simps wire_bits)

lemma push_take_drop_ucast32:
  "push_bit k (ucast (take_bit 7 v)) OR push_bit (k + 7) (ucast (drop_bit 7 v)) =
   (push_bit k (ucast (v :: u64)) :: u32)"
proof (rule bit_word_eqI)
  fix n assume "n < LENGTH(32)"
  then show "bit (push_bit k (ucast (take_bit 7 v)) OR push_bit (k + 7) (ucast (drop_bit 7 v)) :: u32) n =
      bit (push_bit k (ucast v) :: u32) n"
    by (cases "k + 7 \<le> n") (auto simp: bit_simps)
qed

lemma ucast_small_low32: "(v :: u64) \<le> 0x7F \<Longrightarrow> ucast (ucast v AND 0x7F :: byte) = (ucast v :: u32)"
proof -
  assume v: "v \<le> 0x7F"
  have "ucast (ucast v AND 0x7F :: byte) = (ucast (ucast (ucast v AND 0x7F :: byte) :: u64) :: u32)"
    by (rule bit_word_eqI) (auto simp: bit_simps)
  then show ?thesis by (simp add: ucast_small_low v)
qed

lemma varint32_loop_bytes:
  "feed (varint_bytes v) s \<Longrightarrow> bp < 32 \<Longrightarrow> unat bp mod 7 = 0 \<Longrightarrow> unat v < 2 ^ (35 - unat bp) \<Longrightarrow>
   varint32_loop s bp r =
     Ok (r OR push_bit (unat bp) (ucast v)) (advance (length (varint_bytes v)) s)"
proof (induction v arbitrary: s bp r rule: varint_bytes.induct)
  case (1 v)
  have bp: "\<not> 32 \<le> bp" "unat bp < 32" "bp < 64" using "1.prems"(2)
    by (simp_all add: word_less_nat_alt word_le_nat_alt)
  show ?case
  proof (cases "v \<le> 0x7F")
    case True
    with "1.prems"(1) have "feed [ucast v] s" by (simp add: varint_bytes_small)
    then have "pb_readbyte s = Ok (ucast v) (advance 1 s)" by (rule feed_pb_readbyte)
    with True bp show ?thesis
      by (simp add: varint32_loop.simps [of s] varint_bytes_small ucast_small_top ucast_small_low32)
  next
    case False
    let ?b = "ucast ((v AND 0x7F) OR 0x80 :: u64) :: byte"
    have "feed (?b # varint_bytes (drop_bit 7 v)) s"
      using "1.prems"(1) False by (simp add: varint_bytes_large)
    then have f: "feed [?b] s" "feed (varint_bytes (drop_bit 7 v)) (advance 1 s)"
      using feed_Cons [of ?b _ s] by blast+
    have big: "128 \<le> unat v" using False by (simp add: le_7F_unat)
    then have "2 ^ 7 < (2::nat) ^ (35 - unat bp)" using "1.prems"(4) by simp
    then have "7 < 35 - unat bp" by (rule power_less_imp_less_exp [rotated]) simp
    then have "unat bp < 28" by simp
    then have "unat bp + 7 < 32" using "1.prems"(3) by presburger
    then have bp7: "unat (bp + 7) = unat bp + 7" "bp + 7 < 32" "unat (bp + 7) mod 7 = 0"
      using unat_bitpos_add_7 [OF bp(3)] "1.prems"(3) by (simp_all add: word_less_nat_alt)
    have "unat v < 2 ^ (35 - unat (bp + 7)) * 128"
    proof -
      have "35 - unat bp = (35 - unat (bp + 7)) + 7" using bp7 \<open>7 < 35 - unat bp\<close> by simp
      then have "(2::nat) ^ (35 - unat bp) = 2 ^ (35 - unat (bp + 7)) * 2 ^ 7"
        by (simp add: power_add)
      then show ?thesis using "1.prems"(4) by simp
    qed
    then have small: "unat (drop_bit 7 v) < 2 ^ (35 - unat (bp + 7))"
      by (simp add: unat_drop_bit_7 less_mult_imp_div_less)
    have "varint32_loop s bp r =
        varint32_loop (advance 1 s) (bp + 7) (r OR push_bit (unat bp) (ucast (take_bit 7 v)))"
      using bp feed_pb_readbyte [OF f(1)] varint_byte_top [of v]
      by (simp add: varint32_loop.simps [of s] and_7F ucast_group32 [unfolded and_7F])
    also have "\<dots> = Ok ((r OR push_bit (unat bp) (ucast (take_bit 7 v))) OR
          push_bit (unat bp + 7) (ucast (drop_bit 7 v)))
        (advance (length (varint_bytes (drop_bit 7 v))) (advance 1 s))"
      using "1.IH" [OF False f(2) bp7(2) bp7(3) small] bp7(1) by simp
    also have "\<dots> = Ok (r OR push_bit (unat bp) (ucast v)) (advance (length (varint_bytes v)) s)"
      using False by (simp add: or.assoc push_take_drop_ucast32 varint_bytes_large)
    finally show ?thesis .
  qed
qed

text \<open>The one-byte case of the source is the loop entered with nothing gathered.\<close>

lemma pb_decode_varint32_loop: "pb_decode_varint32 s = varint32_loop s 0 0"
proof -
  have low: "ucast (b AND 0x7F) = (ucast b :: u32)" if "b AND 0x80 = 0" for b :: byte
  proof (rule bit_word_eqI)
    have "\<not> bit b 7" using that by (simp add: and_80_eq_0)
    then have "bit b n \<Longrightarrow> n < 7" for n
      using bit_imp_le_length [of b n] by (cases "n = 7") auto
    then show "bit (ucast (b AND 0x7F) :: u32) n = bit (ucast b :: u32) n" for n
      by (auto simp: bit_simps wire_bits)
  qed
  show ?thesis
    by (cases "pb_readbyte s")
       (auto simp: pb_decode_varint32_def varint32_loop.simps [of s 0] low)
qed

lemma pb_decode_varint32_bytes:
  "feed (varint_bytes v) s \<Longrightarrow> unat v < 2 ^ 35 \<Longrightarrow>
   pb_decode_varint32 s = Ok (ucast v) (advance (length (varint_bytes v)) s)"
  using varint32_loop_bytes [of v s 0 0] by (simp add: pb_decode_varint32_loop)

text \<open>On values that fit its result type the 32-bit decoder is a codec too.\<close>

definition varint32_bytes :: "u32 \<Rightarrow> byte list" where
  "varint32_bytes v = varint_bytes (ucast v)"

lemma unat_ucast_32_64: "unat (ucast (v :: u32) :: u64) = unat v"
  using unsigned_less [of v, where ?'a = nat] by (simp add: unsigned_ucast_eq take_bit_nat_eq_self)

lemma ucast_32_64_32: "ucast (ucast v :: u64) = (v :: u32)"
  by (rule bit_word_eqI) (auto simp: bit_simps)

interpretation varint32: codec varint32_bytes pb_decode_varint32 "\<lambda>_. True"
proof
  fix v s assume f: "feed (varint32_bytes v) s"
  have "unat (ucast v :: u64) < 2 ^ 35"
    using unsigned_less [of v, where ?'a = nat] by (simp add: unat_ucast_32_64)
  then show "pb_decode_varint32 s = Ok v (advance (length (varint32_bytes v)) s)"
    using pb_decode_varint32_bytes [of "ucast v" s] f
    by (simp add: varint32_bytes_def ucast_32_64_32)
qed

subsection \<open>Zig-zag, fixed-width and tag codecs\<close>

definition unzigzag :: "u64 \<Rightarrow> u64" where
  "unzigzag z = (if z AND 1 \<noteq> 0 then NOT (drop_bit 1 z) else drop_bit 1 z)"

lemma sless_0_bit: "(v :: u64) <s 0 \<longleftrightarrow> bit v 63"
  using bit_last_iff [of v] by (simp add: word_sless_alt)

lemma unzigzag_zigzag: "unzigzag (zigzag v) = v"
proof (cases "v <s 0")
  case True
  then have b: "bit v 63" by (simp add: sless_0_bit)
  have "NOT (push_bit 1 v) AND 1 = (1 :: u64)"
    by (simp add: and_one_eq mod_2_eq_odd)
  moreover have "NOT (drop_bit 1 (NOT (push_bit 1 v))) = v"
  proof (rule bit_word_eqI)
    fix n assume "n < LENGTH(64)"
    then show "bit (NOT (drop_bit 1 (NOT (push_bit 1 v)))) n = bit v n"
      using b by (cases "n = 63") (auto simp: bit_simps simp del: push_bit_Suc)
  qed
  ultimately show ?thesis using True by (simp add: unzigzag_def zigzag_def)
next
  case False
  then have b: "\<not> bit v 63" by (simp add: sless_0_bit)
  have "push_bit 1 v AND 1 = (0 :: u64)"
    by (simp add: and_one_eq mod_2_eq_odd)
  moreover have "drop_bit 1 (push_bit 1 v) = v"
  proof (rule bit_word_eqI)
    fix n assume "n < LENGTH(64)"
    then show "bit (drop_bit 1 (push_bit 1 v)) n = bit v n"
      using b by (cases "n = 63") (auto simp: bit_simps simp del: push_bit_Suc)
  qed
  ultimately show ?thesis using False by (simp add: unzigzag_def zigzag_def)
qed

lemma pb_decode_svarint_unzigzag:
  "pb_decode_svarint s = andthen (pb_decode_varint s) (\<lambda>v s'. Ok (unzigzag v) s')"
  unfolding pb_decode_svarint_def unzigzag_def by (cases "pb_decode_varint s") auto

definition svarint_bytes :: "u64 \<Rightarrow> byte list" where
  "svarint_bytes v = varint_bytes (zigzag v)"

interpretation svarint: codec svarint_bytes pb_decode_svarint "\<lambda>_. True"
  by unfold_locales
     (simp add: svarint_bytes_def pb_decode_svarint_unzigzag pb_decode_varint_bytes unzigzag_zigzag)

definition fixed32_bytes :: "u32 \<Rightarrow> byte list" where "fixed32_bytes v = le_bytes 4 v"
definition fixed64_bytes :: "u64 \<Rightarrow> byte list" where "fixed64_bytes v = le_bytes 8 v"

lemma ucast_and_FF: "ucast (v AND 0xFF :: 'a::len word) = (ucast v :: byte)"
proof -
  have "v AND 0xFF = take_bit 8 v" by (simp add: take_bit_eq_mask mask_eq_exp_minus_1)
  then show ?thesis by simp (rule bit_word_eqI, auto simp: bit_simps)
qed

lemma fixed32_bytes_eq:
  "fixed32_bytes v = [ucast v, ucast (drop_bit 8 v), ucast (drop_bit 16 v), ucast (drop_bit 24 v)]"
  by (simp add: fixed32_bytes_def numeral_eq_Suc)

lemma fixed64_bytes_eq:
  "fixed64_bytes v = [ucast v, ucast (drop_bit 8 v), ucast (drop_bit 16 v), ucast (drop_bit 24 v),
     ucast (drop_bit 32 v), ucast (drop_bit 40 v), ucast (drop_bit 48 v), ucast (drop_bit 56 v)]"
  by (simp add: fixed64_bytes_def numeral_eq_Suc)

lemma pb_encode_fixed32_writes: "pb_encode_fixed32 s v = pb_write s (fixed32_bytes v) 4"
  by (simp add: pb_encode_fixed32_def fixed32_bytes_eq ucast_and_FF)

lemma pb_encode_fixed64_writes: "pb_encode_fixed64 s v = pb_write s (fixed64_bytes v) 8"
  by (simp add: pb_encode_fixed64_def fixed64_bytes_eq ucast_and_FF)

lemma length_fixed_bytes [simp]: "length (fixed32_bytes v) = 4" "length (fixed64_bytes w) = 8"
  by (simp_all add: fixed32_bytes_def fixed64_bytes_def)

lemma pb_decode_fixed32_le_word:
  "pb_read s False 4 = Ok bs t \<Longrightarrow> length bs = 4 \<Longrightarrow> pb_decode_fixed32 s = Ok (le_word bs) t"
  by (auto simp: pb_decode_fixed32_def length_Suc_conv numeral_eq_Suc push_bit_or push_bit_push_bit)

lemma pb_decode_fixed64_le_word:
  "pb_read s False 8 = Ok bs t \<Longrightarrow> length bs = 8 \<Longrightarrow> pb_decode_fixed64 s = Ok (le_word bs) t"
  by (auto simp: pb_decode_fixed64_def length_Suc_conv numeral_eq_Suc push_bit_or push_bit_push_bit)

interpretation fixed32: codec fixed32_bytes pb_decode_fixed32 "\<lambda>_. True"
proof
  fix v s assume "feed (fixed32_bytes v) s"
  then have "pb_read s False 4 = Ok (fixed32_bytes v) (advance 4 s)"
    using feed_pb_read [of "fixed32_bytes v" s 4 False] by simp
  then show "pb_decode_fixed32 s = Ok v (advance (length (fixed32_bytes v)) s)"
    by (simp add: pb_decode_fixed32_le_word fixed32_bytes_def)
qed

interpretation fixed64: codec fixed64_bytes pb_decode_fixed64 "\<lambda>_. True"
proof
  fix v s assume "feed (fixed64_bytes v) s"
  then have "pb_read s False 8 = Ok (fixed64_bytes v) (advance 8 s)"
    using feed_pb_read [of "fixed64_bytes v" s 8 False] by simp
  then show "pb_decode_fixed64 s = Ok v (advance (length (fixed64_bytes v)) s)"
    by (simp add: pb_decode_fixed64_le_word fixed64_bytes_def)
qed

text \<open>A tag is the field number and the wire type in one varint.\<close>

definition tag_word :: "u32 \<Rightarrow> u32 \<Rightarrow> u64" where
  "tag_word wiretype field_number = push_bit 3 (ucast field_number) OR ucast wiretype"

definition tag_bytes :: "u32 \<times> u32 \<Rightarrow> byte list" where
  "tag_bytes = (\<lambda>(wiretype, field_number). varint_bytes (tag_word wiretype field_number))"

definition tag_ok :: "u32 \<times> u32 \<Rightarrow> bool" where
  "tag_ok = (\<lambda>(wiretype, field_number). wiretype < 8 \<and> 0 < field_number \<and> field_number < 2 ^ 29)"

definition decode_tag_ok :: "istream \<Rightarrow> (u32 \<times> u32, istream) outcome" where
  "decode_tag_ok s = andthen (pb_decode_tag s) (\<lambda>(ok, wt, t, eof) s'.
     if ok then Ok (wt, t) s' else Fail s')"

lemma tag_word_parts:
  assumes "tag_ok (wt, n)"
  shows "(ucast (tag_word wt n) :: u32) AND 7 = wt"
    and "drop_bit 3 (ucast (tag_word wt n) :: u32) = n"
    and "(ucast (tag_word wt n) :: u32) \<noteq> 0"
    and "unat (tag_word wt n) < 2 ^ 35"
proof -
  have "unat wt < 2 ^ 3" using assms by (simp add: tag_ok_def word_less_nat_alt)
  then have "take_bit 3 wt = wt"
    by (simp add: word_unat_eq_iff unsigned_take_bit_eq take_bit_nat_eq_self)
  then have wt: "bit wt i \<Longrightarrow> i < 3" for i by (metis bit_take_bit_iff)
  have "unat n < 2 ^ 29" using assms by (simp add: tag_ok_def word_less_nat_alt)
  then have "take_bit 29 n = n"
    by (simp add: word_unat_eq_iff unsigned_take_bit_eq take_bit_nat_eq_self)
  then have n: "bit n i \<Longrightarrow> i < 29" for i by (metis bit_take_bit_iff)
  have seven: "w AND 7 = take_bit 3 w" for w :: u32
    by (simp add: take_bit_eq_mask mask_eq_exp_minus_1)
  show p1: "(ucast (tag_word wt n) :: u32) AND 7 = wt"
    unfolding seven tag_word_def by (rule bit_word_eqI) (auto simp: bit_simps dest: wt)
  show p2: "drop_bit 3 (ucast (tag_word wt n) :: u32) = n"
    unfolding tag_word_def by (rule bit_word_eqI) (auto simp: bit_simps dest: wt n)
  show "(ucast (tag_word wt n) :: u32) \<noteq> 0"
    using p2 assms by (auto simp: tag_ok_def)
  have "bit (tag_word wt n) i \<Longrightarrow> i < 35" for i
    by (auto simp: tag_word_def bit_simps dest: wt n)
  then have "take_bit 35 (tag_word wt n) = tag_word wt n"
    by (intro bit_word_eqI) (auto simp: bit_simps)
  then show "unat (tag_word wt n) < 2 ^ 35"
    by (metis unsigned_take_bit_eq take_bit_nat_less_exp)
qed

lemma pb_decode_tag_bytes:
  assumes "tag_ok (wt, n)" and "feed (tag_bytes (wt, n)) s"
  shows "pb_decode_tag s = Ok (True, wt, n, False) (advance (length (tag_bytes (wt, n))) s)"
  using assms(2) pb_decode_varint32_bytes [of "tag_word wt n" s] tag_word_parts [OF assms(1)]
  by (simp add: pb_decode_tag_def tag_bytes_def)

interpretation tag_code: codec tag_bytes decode_tag_ok tag_ok
  by unfold_locales (auto simp: decode_tag_ok_def pb_decode_tag_bytes)

end
