(* ===== verification/Pb_Writer.thy ===== *)
theory Pb_Writer
  imports Pb_Wire
begin

unbundle bit_operations_syntax

section \<open>The contract of writing: the same bytes on every stream\<close>

text \<open>
  Everything that writes a scalar obeys one contract (locale \<open>emitter\<close>). It stands for a list of
  bytes that does not depend on the stream: a counting stream counts them, a buffer stream with
  room for them stores them, and a buffer stream without room for all of them stores a prefix and
  returns \<open>false\<close> with an error message. So the size computed with a counting stream is the size
  written, and a buffer is never overrun.
\<close>

definition out_ok :: "ostream \<Rightarrow> bool" where
  "out_ok s \<longleftrightarrow> ocallback s = Some Buf_write \<and> bytes_written s \<le> max_size s \<and>
     unat (max_size s) - unat (bytes_written s) \<le> room s"

definition space :: "ostream \<Rightarrow> nat" where
  "space s = unat (max_size s) - unat (bytes_written s)"

definition counted :: "byte list \<Rightarrow> ostream \<Rightarrow> ostream" where
  "counted bs s = s\<lparr>bytes_written := bytes_written s + of_nat (length bs)\<rparr>"

definition stored :: "byte list \<Rightarrow> ostream \<Rightarrow> ostream" where
  "stored bs s = s\<lparr>ostate := ostate s @ bs, room := room s - length bs,
     bytes_written := bytes_written s + of_nat (length bs)\<rparr>"

lemma counted_counted [simp]: "counted ys (counted xs s) = counted (xs @ ys) s"
  by (simp add: counted_def algebra_simps)

lemma stored_stored [simp]: "stored ys (stored xs s) = stored (xs @ ys) s"
  by (simp add: stored_def algebra_simps)

lemma stored_Nil [simp]: "stored [] s = s"
  by (simp add: stored_def)

lemma counted_Nil [simp]: "counted [] s = s"
  by (simp add: counted_def)

lemma counted_fields [simp]:
  "ocallback (counted bs s) = ocallback s"
  "bytes_written (counted bs s) = bytes_written s + of_nat (length bs)"
  by (simp_all add: counted_def)

lemma stored_fields [simp]:
  "ocallback (stored bs s) = ocallback s" "ostate (stored bs s) = ostate s @ bs"
  "max_size (stored bs s) = max_size s" "oerrmsg (stored bs s) = oerrmsg s"
  "bytes_written (stored bs s) = bytes_written s + of_nat (length bs)"
  by (simp_all add: stored_def)

lemma unat_bytes_written_stored:
  "out_ok s \<Longrightarrow> length bs \<le> space s \<Longrightarrow>
   unat (bytes_written s + of_nat (length bs)) = unat (bytes_written s) + length bs"
proof -
  assume "out_ok s" and "length bs \<le> space s"
  then have le: "unat (bytes_written s) + length bs \<le> unat (max_size s)"
    by (auto simp: out_ok_def space_def word_le_nat_alt)
  then have "unat (bytes_written s) + length bs < 2 ^ 64"
    using le_unat_less [OF le] by simp
  moreover from this have "unat (of_nat (length bs) :: u64) = length bs"
    by (intro unat_of_nat_id) simp
  ultimately show ?thesis by (subst unat_plus_if_no_wrap) simp_all
qed

lemma stored_out_ok: "out_ok s \<Longrightarrow> length bs \<le> space s \<Longrightarrow> out_ok (stored bs s)"
  by (auto simp: out_ok_def unat_bytes_written_stored word_le_nat_alt)
     (auto simp: space_def stored_def)

lemma space_stored: "out_ok s \<Longrightarrow> length bs \<le> space s \<Longrightarrow> space (stored bs s) = space s - length bs"
  by (simp add: unat_bytes_written_stored space_def [of "stored bs s"]) (simp add: space_def)

text \<open>The stream a refused write leaves: a proper prefix of the bytes, and an error message.\<close>

definition cut_short :: "byte list \<Rightarrow> ostream \<Rightarrow> ostream \<Rightarrow> bool" where
  "cut_short bs s t \<longleftrightarrow> ocallback t = ocallback s \<and> max_size t = max_size s \<and> oerrmsg t \<noteq> None \<and>
     (\<exists>n < length bs. ostate t = ostate s @ take n bs \<and> bytes_written t = bytes_written s + of_nat n \<and>
        room t = room s - n)"

lemma cut_shortI:
  "ocallback t = ocallback s \<Longrightarrow> max_size t = max_size s \<Longrightarrow> oerrmsg t \<noteq> None \<Longrightarrow> n < length bs \<Longrightarrow>
   ostate t = ostate s @ take n bs \<Longrightarrow> bytes_written t = bytes_written s + of_nat n \<Longrightarrow>
   room t = room s - n \<Longrightarrow> cut_short bs s t"
  unfolding cut_short_def by blast

lemma cut_shortE:
  assumes "cut_short bs s t"
  obtains n where "ocallback t = ocallback s" "max_size t = max_size s" "oerrmsg t \<noteq> None"
    "n < length bs" "ostate t = ostate s @ take n bs" "bytes_written t = bytes_written s + of_nat n"
    "room t = room s - n"
  using assms unfolding cut_short_def by blast

lemma cut_short_append: "cut_short xs s t \<Longrightarrow> cut_short (xs @ ys) s t"
  by (erule cut_shortE, rule cut_shortI) auto

lemma cut_short_after: "cut_short ys (stored xs s) t \<Longrightarrow> cut_short (xs @ ys) s t"
proof (erule cut_shortE)
  fix n
  assume n: "ocallback t = ocallback (stored xs s)" "max_size t = max_size (stored xs s)"
    "oerrmsg t \<noteq> None" "n < length ys" "ostate t = ostate (stored xs s) @ take n ys"
    "bytes_written t = bytes_written (stored xs s) + of_nat n" "room t = room (stored xs s) - n"
  show "cut_short (xs @ ys) s t"
    by (rule cut_shortI [where n = "length xs + n"])
       (use n in \<open>auto simp: stored_def algebra_simps\<close>)
qed

locale emitter =
  fixes op :: "ostream \<Rightarrow> (unit, ostream) outcome" and bs :: "byte list"
  assumes counts: "ocallback s = None \<Longrightarrow> op s = Ok () (counted bs s)"
    and stores: "out_ok s \<Longrightarrow> length bs \<le> space s \<Longrightarrow> op s = Ok () (stored bs s)"
    and refuses: "out_ok s \<Longrightarrow> space s < length bs \<Longrightarrow> unat (bytes_written s) + length bs < 2 ^ 64 \<Longrightarrow>
      \<exists>t. op s = Fail t \<and> cut_short bs s t"
begin

lemma succeeds_iff_fits:
  assumes "out_ok s" and "unat (bytes_written s) + length bs < 2 ^ 64"
  shows "(\<exists>t. op s = Ok () t) \<longleftrightarrow> length bs \<le> space s"
  using stores [OF assms(1)] refuses [OF assms(1) _ assms(2)] by (cases "length bs \<le> space s") auto

lemma never_faults:
  assumes "out_ok s" and "unat (bytes_written s) + length bs < 2 ^ 64"
  shows "op s \<noteq> Fault \<and> op s \<noteq> Loop"
  using stores [OF assms(1)] refuses [OF assms(1) _ assms(2)] by (cases "length bs \<le> space s") auto

lemma sizing_agrees:
  assumes "op PB_OSTREAM_SIZING = Ok () t" and "length bs < 2 ^ 64"
  shows "unat (bytes_written t) = length bs"
  using assms counts [of PB_OSTREAM_SIZING] unat_of_nat_id [of "length bs", where ?'a = 64]
  by (auto simp: PB_OSTREAM_SIZING_def counted_def)

lemma followed_by:
  assumes g: "emitter g ys"
  shows "emitter (\<lambda>s. andthen (op s) (\<lambda>_ s'. g s')) (bs @ ys)"
proof
  fix s
  show "ocallback s = None \<Longrightarrow> andthen (op s) (\<lambda>_ s'. g s') = Ok () (counted (bs @ ys) s)"
    by (simp add: counts emitter.counts [OF g])
next
  fix s assume s: "out_ok s" and l: "length (bs @ ys) \<le> space s"
  then have "op s = Ok () (stored bs s)" by (simp add: stores)
  moreover have "g (stored bs s) = Ok () (stored ys (stored bs s))"
    using emitter.stores [OF g, of "stored bs s"] s l by (simp add: stored_out_ok space_stored)
  ultimately show "andthen (op s) (\<lambda>_ s'. g s') = Ok () (stored (bs @ ys) s)" by simp
next
  fix s assume s: "out_ok s" and l: "space s < length (bs @ ys)"
    and w: "unat (bytes_written s) + length (bs @ ys) < 2 ^ 64"
  show "\<exists>t. andthen (op s) (\<lambda>_ s'. g s') = Fail t \<and> cut_short (bs @ ys) s t"
  proof (cases "length bs \<le> space s")
    case False
    then obtain t where "op s = Fail t" "cut_short bs s t" using refuses [OF s] w by auto
    then show ?thesis using cut_short_append by auto
  next
    case True
    then have op: "op s = Ok () (stored bs s)" using s by (simp add: stores)
    have "unat (bytes_written (stored bs s)) + length ys < 2 ^ 64"
      using w unat_bytes_written_stored [OF s True] by simp
    moreover have "space (stored bs s) < length ys"
      using l True space_stored [OF s True] by simp
    ultimately obtain t where "g (stored bs s) = Fail t" "cut_short ys (stored bs s) t"
      using emitter.refuses [OF g stored_out_ok [OF s True]] by blast
    with op show ?thesis using cut_short_after by auto
  qed
qed

end

text \<open>The primitive writer, and the scalar encoders.\<close>

lemma pb_write_emitter: "n = of_nat (length bs) \<Longrightarrow> emitter (\<lambda>s. pb_write s bs n) bs"
proof
  fix s :: ostream assume "n = of_nat (length bs)" "ocallback s = None"
  then show "pb_write s bs n = Ok () (counted bs s)" by (simp add: pb_write_def counted_def)
next
  fix s :: ostream assume n: "n = of_nat (length bs)" and s: "out_ok s" and l: "length bs \<le> space s"
  have "length bs \<le> unat (max_size s)" using l by (simp add: space_def)
  then have u: "unat n = length bs" unfolding n by (rule le_unat_uoi)
  have "\<not> max_size s < bytes_written s + n"
    using unat_bytes_written_stored [OF s l] s l n
    by (auto simp: word_less_nat_alt out_ok_def space_def word_le_nat_alt)
  moreover have "length bs \<le> room s" using s l by (auto simp: out_ok_def space_def)
  ultimately show "pb_write s bs n = Ok () (stored bs s)"
    using s u n by (simp add: pb_write_def out_ok_def call_ocallback_def buf_write_def stored_def)
next
  fix s :: ostream assume n: "n = of_nat (length bs)" and s: "out_ok s" and l: "space s < length bs"
    and w: "unat (bytes_written s) + length bs < 2 ^ 64"
  have u: "unat n = length bs" unfolding n by (rule unat_of_nat_id) (use w in simp)
  then have "unat (bytes_written s + n) = unat (bytes_written s) + length bs"
    using w by (subst unat_plus_if_no_wrap) simp_all
  then have "max_size s < bytes_written s + n"
    using l by (simp add: word_less_nat_alt space_def)
  then have "pb_write s bs n = oreturn_error s ''stream full''"
    using s by (simp add: pb_write_def out_ok_def)
  moreover have "cut_short bs s (s\<lparr>oerrmsg := Some m\<rparr>)" for m
    by (rule cut_shortI [where n = 0]) (use l in auto)
  ultimately show "\<exists>t. pb_write s bs n = Fail t \<and> cut_short bs s t"
    by (auto simp: oreturn_error_def PB_SET_ERROR_def split: option.splits)
qed

interpretation write_varint: emitter "\<lambda>s. pb_encode_varint s v" "varint_bytes v"
  using pb_write_emitter [OF refl, of "varint_bytes v"] by (simp add: pb_encode_varint_writes)

interpretation write_svarint: emitter "\<lambda>s. pb_encode_svarint s v" "svarint_bytes v"
  using write_varint.emitter_axioms by (simp add: pb_encode_svarint_def svarint_bytes_def)

interpretation write_fixed32: emitter "\<lambda>s. pb_encode_fixed32 s v" "fixed32_bytes v"
  using pb_write_emitter [of 4 "fixed32_bytes v"] by (simp add: pb_encode_fixed32_writes)

interpretation write_fixed64: emitter "\<lambda>s. pb_encode_fixed64 s w" "fixed64_bytes w"
  using pb_write_emitter [of 8 "fixed64_bytes w"] by (simp add: pb_encode_fixed64_writes)

interpretation write_tag: emitter "\<lambda>s. pb_encode_tag s wt n" "tag_bytes (wt, n)"
  using write_varint.emitter_axioms by (simp add: pb_encode_tag_def tag_bytes_def tag_word_def)

definition string_bytes :: "byte list \<Rightarrow> byte list" where
  "string_bytes bs = varint_bytes (of_nat (length bs)) @ bs"

interpretation write_string: emitter
  "\<lambda>s. pb_encode_string s bs (of_nat (length bs))" "string_bytes bs"
  unfolding pb_encode_string_def string_bytes_def
  by (rule write_varint.followed_by [OF pb_write_emitter]) simp

end
