(* ===== verification/Pb_Sizing.thy ===== *)
theory Pb_Sizing
  imports Pb_Encode Pb_Writer
begin

unbundle bit_operations_syntax

section \<open>Sizing and writing agree\<close>

text \<open>
  The encoder runs every submessage twice, and \<^verbatim>\<open>pb_get_encoded_size\<close> runs the whole message once
  without output, so the size pass and the writing pass have to agree. The contract of an encoder
  at a memory \<open>h\<close> is \<open>settles\<close>: either no counting stream succeeds, or there is a list of bytes
  that counting streams count (\<open>sizes\<close>) and buffer streams store (\<open>puts\<close>): all of it when it fits,
  else a proper prefix and an error message. \<open>puts\<close> leaves out runs that access memory outside the
  program's objects, which a counting stream does not always notice, because it never reads what a
  bytes field points to.
\<close>

definition sizes :: "heap \<Rightarrow> (est \<Rightarrow> (unit, est) outcome) \<Rightarrow> byte list \<Rightarrow> bool" where
  "sizes h op bs \<longleftrightarrow> (\<forall>s. ocallback s = None \<longrightarrow> op (s, h) = Ok () (counted bs s, h))"

definition fresh :: "ostream \<Rightarrow> bool" where
  "fresh s \<longleftrightarrow> out_ok s \<and> oerrmsg s = None"

definition puts :: "heap \<Rightarrow> (est \<Rightarrow> (unit, est) outcome) \<Rightarrow> byte list \<Rightarrow> bool" where
  "puts h op bs \<longleftrightarrow> (\<forall>s. fresh s \<longrightarrow> op (s, h) \<noteq> Fault \<longrightarrow>
     (length bs \<le> space s \<longrightarrow> op (s, h) = Ok () (stored bs s, h)) \<and>
     (space s < length bs \<longrightarrow> unat (bytes_written s) + length bs < 2 ^ 64 \<longrightarrow>
        (\<exists>t. op (s, h) = Fail (t, h) \<and> cut_short bs s t)))"

definition unsized :: "heap \<Rightarrow> (est \<Rightarrow> (unit, est) outcome) \<Rightarrow> bool" where
  "unsized h op \<longleftrightarrow> (\<forall>s. ocallback s = None \<longrightarrow> (\<forall>u t. op (s, h) \<noteq> Ok u t))"

definition settles :: "heap \<Rightarrow> (est \<Rightarrow> (unit, est) outcome) \<Rightarrow> bool" where
  "settles h op \<longleftrightarrow> unsized h op \<or> (\<exists>bs. sizes h op bs \<and> puts h op bs)"

lemma settles_writes: "sizes h op bs \<Longrightarrow> puts h op bs \<Longrightarrow> settles h op"
  by (auto simp: settles_def)

lemma settles_unsized: "unsized h op \<Longrightarrow> settles h op"
  by (simp add: settles_def)

lemma settlesE:
  assumes "settles h op"
  obtains "unsized h op" | bs where "sizes h op bs" "puts h op bs"
  using assms by (auto simp: settles_def)

lemma settles_cong: "(\<And>s. op (s, h) = op' (s, h)) \<Longrightarrow> settles h op = settles h op'"
  by (simp add: settles_def unsized_def sizes_def puts_def)

subsection \<open>Streams\<close>

lemma fresh_stored: "fresh s \<Longrightarrow> length bs \<le> space s \<Longrightarrow> fresh (stored bs s)"
  by (simp add: fresh_def stored_out_ok)

lemma emitter_sizes: "emitter f bs \<Longrightarrow> sizes h (on_stream f) bs"
  by (simp add: sizes_def on_stream_def emitter.counts)

lemma emitter_puts: "emitter f bs \<Longrightarrow> puts h (on_stream f) bs"
  unfolding puts_def
proof (intro allI impI conjI)
  fix s assume e: "emitter f bs" and s: "fresh s"
  show "length bs \<le> space s \<Longrightarrow> on_stream f (s, h) = Ok () (stored bs s, h)"
    using s by (simp add: on_stream_def fresh_def emitter.stores [OF e])
  assume "space s < length bs" "unat (bytes_written s) + length bs < 2 ^ 64"
  with s obtain t where "f s = Fail t" "cut_short bs s t"
    using emitter.refuses [OF e, of s] by (auto simp: fresh_def)
  then show "\<exists>t. on_stream f (s, h) = Fail (t, h) \<and> cut_short bs s t" by (simp add: on_stream_def)
qed

lemma emitter_settles: "emitter f bs \<Longrightarrow> settles h (on_stream f)"
  using emitter_sizes emitter_puts settles_writes by blast

subsection \<open>Sequencing\<close>

lemma sizes_seq:
  "sizes h op xs \<Longrightarrow> sizes h (f ()) ys \<Longrightarrow> sizes h (\<lambda>st. andthen (op st) (\<lambda>u. f u)) (xs @ ys)"
  by (simp add: sizes_def)

lemma puts_seq:
  assumes op: "puts h op xs" and f: "puts h (f ()) ys"
  shows "puts h (\<lambda>st. andthen (op st) (\<lambda>u. f u)) (xs @ ys)"
  unfolding puts_def
proof (intro allI impI conjI)
  fix s assume s: "fresh s" and nf: "andthen (op (s, h)) (\<lambda>u. f u) \<noteq> Fault"
  have nf1: "op (s, h) \<noteq> Fault" using nf by auto
  have op_fits: "length xs \<le> space s \<Longrightarrow> op (s, h) = Ok () (stored xs s, h)"
    using op s nf1 by (simp add: puts_def)
  have f_run: "length xs \<le> space s \<Longrightarrow> f () (stored xs s, h) \<noteq> Fault"
    using nf op_fits by auto
  {
    assume l: "length (xs @ ys) \<le> space s"
    then have xs: "length xs \<le> space s" by simp
    moreover have "length ys \<le> space (stored xs s)"
      using l xs s by (simp add: space_stored fresh_def)
    ultimately have "f () (stored xs s, h) = Ok () (stored ys (stored xs s), h)"
      using f f_run [OF xs] fresh_stored [OF s xs] unfolding puts_def by blast
    then show "andthen (op (s, h)) (\<lambda>u. f u) = Ok () (stored (xs @ ys) s, h)"
      using op_fits l by simp
  next
    assume l: "space s < length (xs @ ys)" and w: "unat (bytes_written s) + length (xs @ ys) < 2 ^ 64"
    show "\<exists>t. andthen (op (s, h)) (\<lambda>u. f u) = Fail (t, h) \<and> cut_short (xs @ ys) s t"
    proof (cases "length xs \<le> space s")
      case False
      then obtain t where "op (s, h) = Fail (t, h)" "cut_short xs s t"
        using op s nf1 w by (auto simp: puts_def)
      then show ?thesis using cut_short_append by auto
    next
      case True
      have o: "out_ok s" using s by (simp add: fresh_def)
      have "unat (bytes_written (stored xs s)) + length ys < 2 ^ 64"
        using w unat_bytes_written_stored [OF o True] by simp
      moreover have "space (stored xs s) < length ys" using l True space_stored [OF o True] by simp
      ultimately obtain t where "f () (stored xs s, h) = Fail (t, h)" "cut_short ys (stored xs s) t"
        using f f_run [OF True] fresh_stored [OF s True] by (auto simp: puts_def)
      with op_fits [OF True] show ?thesis using cut_short_after by auto
    qed
  }
qed

lemma settles_seq:
  assumes "settles h op" "settles h (f ())"
  shows "settles h (\<lambda>st. andthen (op st) (\<lambda>u. f u))"
  using assms(1)
proof (cases rule: settlesE)
  case 1
  then show ?thesis by (intro settles_unsized) (simp add: unsized_def andthen_eq_Ok)
next
  case (2 xs)
  show ?thesis
    using assms(2)
  proof (cases rule: settlesE)
    case 1
    with 2 show ?thesis
      by (intro settles_unsized) (simp add: unsized_def sizes_def)
  next
    case (2 ys)
    with \<open>sizes h op xs\<close> \<open>puts h op xs\<close> show ?thesis
      using sizes_seq puts_seq settles_writes by blast
  qed
qed

lemma settles_skip: "settles h (Ok ())"
  by (rule settles_writes [of _ _ "[]"]) (simp_all add: sizes_def puts_def)

text \<open>Reading the memory first: what is read does not depend on the stream.\<close>

lemma settles_rd:
  assumes "\<And>v. g h = Some v \<Longrightarrow> settles h (f v)"
  shows "settles h (\<lambda>st. andthen (rd g st) (\<lambda>v. f v))"
proof (cases "g h")
  case None
  then show ?thesis by (intro settles_unsized) (simp add: unsized_def rd_def)
next
  case (Some v)
  have "settles h (\<lambda>st. andthen (rd g st) (\<lambda>v. f v)) = settles h (f v)"
    by (rule settles_cong) (simp add: rd_def Some)
  then show ?thesis using assms [OF Some] by simp
qed

lemma settles_if: "(b \<Longrightarrow> settles h f) \<Longrightarrow> (\<not> b \<Longrightarrow> settles h g) \<Longrightarrow> settles h (\<lambda>st. if b then f st else g st)"
  by (cases b) auto

lemma settles_error: "settles h (enc_error msg)"
  by (rule settles_unsized) (simp add: unsized_def enc_error_def on_stream_def oreturn_error_def)

lemma settles_fault: "settles h (\<lambda>st. Fault)"
  by (rule settles_unsized) (simp add: unsized_def)

lemma settles_loop: "settles h (\<lambda>st. Loop)"
  by (rule settles_unsized) (simp add: unsized_def)

subsection \<open>Field encoders\<close>

lemmas settle_rules = settles_rd settles_seq settles_if settles_error settles_fault settles_loop
  settles_skip emitter_settles

lemma varint_settles: "settles h (on_stream (\<lambda>s. pb_encode_varint s v))"
  by (rule emitter_settles [OF write_varint.emitter_axioms])

lemma svarint_settles: "settles h (on_stream (\<lambda>s. pb_encode_svarint s v))"
  by (rule emitter_settles [OF write_svarint.emitter_axioms])

lemma fixed32_settles: "settles h (on_stream (\<lambda>s. pb_encode_fixed32 s v))"
  by (rule emitter_settles [OF write_fixed32.emitter_axioms])

lemma fixed64_settles: "settles h (on_stream (\<lambda>s. pb_encode_fixed64 s v))"
  by (rule emitter_settles [OF write_fixed64.emitter_axioms])

lemma tag_settles: "settles h (on_stream (\<lambda>s. pb_encode_tag s wt n))"
  by (rule emitter_settles [OF write_tag.emitter_axioms])

lemma read_settles:
  "(\<And>v. settles h (f v)) \<Longrightarrow> settles h (\<lambda>st. andthen (read_signed field src st) (\<lambda>v. f v))"
  "(\<And>v. settles h (f v)) \<Longrightarrow> settles h (\<lambda>st. andthen (read_unsigned field src st) (\<lambda>v. f v))"
proof -
  assume f: "\<And>v. settles h (f v)"
  have err: "settles h (\<lambda>st. andthen (enc_error msg st) (\<lambda>v. f v))" for msg
    by (rule settles_unsized) (simp add: unsized_def enc_error_def on_stream_def oreturn_error_def)
  show "settles h (\<lambda>st. andthen (read_signed field src st) (\<lambda>v. f v))"
    "settles h (\<lambda>st. andthen (read_unsigned field src st) (\<lambda>v. f v))"
    unfolding read_signed_def read_unsigned_def if_distrib [where f = "\<lambda>m. andthen m (\<lambda>v. f v)"]
    by (intro settles_if settles_rd f err)+
qed

lemma pb_enc_varint_settles: "settles h (pb_enc_varint field src)"
  unfolding pb_enc_varint_def [abs_def]
  by (intro read_settles varint_settles)

lemma pb_enc_uvarint_settles: "settles h (pb_enc_uvarint field src)"
  unfolding pb_enc_uvarint_def [abs_def]
  by (intro read_settles varint_settles)

lemma pb_enc_svarint_settles: "settles h (pb_enc_svarint field src)"
  unfolding pb_enc_svarint_def [abs_def]
  by (intro read_settles svarint_settles)

lemma pb_enc_fixed32_settles: "settles h (pb_enc_fixed32 field src)"
  unfolding pb_enc_fixed32_def [abs_def]
  by (intro settles_rd fixed32_settles)

lemma pb_enc_fixed64_settles: "settles h (pb_enc_fixed64 field src)"
  unfolding pb_enc_fixed64_def [abs_def]
  by (intro settles_rd fixed64_settles)

text \<open>
  A string of which only the first bytes are in memory is counted like any other; it can be stored
  only when all of them are.
\<close>

lemma short_write_faults:
  assumes "length bs < unat n" "fresh s" "pb_write s bs n \<noteq> Fault"
  shows "unat (bytes_written s) + unat n < 2 ^ 64 \<Longrightarrow> space s < unat n \<and>
    (\<exists>t. pb_write s bs n = Fail t \<and> cut_short (replicate (unat n) 0) s t)"
proof -
  assume w: "unat (bytes_written s) + unat n < 2 ^ 64"
  then have u: "unat (bytes_written s + n) = unat (bytes_written s) + unat n"
    by (intro unat_plus_if_no_wrap) simp
  have cb: "ocallback s = Some Buf_write" using assms(2) by (simp add: fresh_def out_ok_def)
  have full: "max_size s < bytes_written s + n"
    using assms(1,3) cb by (auto simp: pb_write_def call_ocallback_def buf_write_def split: if_splits)
  then have "pb_write s bs n = oreturn_error s ''stream full''" using cb by (simp add: pb_write_def)
  moreover have "cut_short (replicate (unat n) 0) s (s\<lparr>oerrmsg := Some m\<rparr>)" for m
    by (rule cut_shortI [where n = 0]) (use assms(1) in auto)
  moreover have "space s < unat n"
    using full u assms(1) by (auto simp: space_def word_less_nat_alt)
  ultimately show ?thesis
    using assms(2) by (simp add: oreturn_error_def PB_SET_ERROR_def fresh_def)
qed

lemma write_bytes_puts:
  "bs = [] \<and> n \<noteq> 0 \<or> length bs = unat n \<Longrightarrow>
   \<exists>out. length out = unat n \<and> puts h (on_stream (\<lambda>s. pb_write s bs n)) out"
proof (cases "length bs = unat n")
  case True
  then have "n = of_nat (length bs)" by simp
  then show ?thesis using True pb_write_emitter emitter_puts by blast
next
  case False
  assume "bs = [] \<and> n \<noteq> 0 \<or> length bs = unat n"
  with False have l: "length bs < unat n" by (simp add: unat_gt_0)
  have "puts h (on_stream (\<lambda>s. pb_write s bs n)) (replicate (unat n) 0)"
    unfolding puts_def
  proof (intro allI impI conjI)
    fix s assume s: "fresh s" and nf: "on_stream (\<lambda>s. pb_write s bs n) (s, h) \<noteq> Fault"
    from nf have nf': "pb_write s bs n \<noteq> Fault" by (auto simp: on_stream_def)
    note faults = short_write_faults [OF l s nf']
    {
      assume fits: "length (replicate (unat n) (0::byte)) \<le> space s"
      have "unat (bytes_written s) + unat n \<le> unat (max_size s)"
        using fits s by (auto simp: space_def fresh_def out_ok_def word_le_nat_alt)
      then have "unat (bytes_written s) + unat n < 2 ^ 64"
        using le_unat_less by fastforce
      with faults fits show "on_stream (\<lambda>s. pb_write s bs n) (s, h) =
          Ok () (stored (replicate (unat n) 0) s, h)" by simp
    next
      assume "space s < length (replicate (unat n) (0::byte))"
        "unat (bytes_written s) + length (replicate (unat n) (0::byte)) < 2 ^ 64"
      with faults show "\<exists>t. on_stream (\<lambda>s. pb_write s bs n) (s, h) = Fail (t, h) \<and>
          cut_short (replicate (unat n) 0) s t" by (auto simp: on_stream_def)
    }
  qed
  then show ?thesis by (intro exI [of _ "replicate (unat n) 0"]) simp
qed

lemma write_bytes_sizes:
  "length out = unat n \<Longrightarrow> sizes h (on_stream (\<lambda>s. pb_write s bs n)) out"
  by (simp add: sizes_def on_stream_def pb_write_def counted_def)

lemma peek_cases: "peek h a n = [] \<or> length (peek h a n) = n"
  by (auto simp: peek_def length_load split: option.splits)

lemma encode_string_settles:
  assumes "bs = [] \<or> length bs = unat n"
  shows "settles h (on_stream (\<lambda>s. pb_encode_string s bs n))"
proof -
  have eq: "on_stream (\<lambda>s. pb_encode_string s bs n) st =
      andthen (on_stream (\<lambda>s. pb_encode_varint s n) st) (\<lambda>u. on_stream (\<lambda>s. pb_write s bs n))" for st
    by (auto simp: on_stream_def pb_encode_string_def split: outcome.splits)
  have "bs = [] \<and> n \<noteq> 0 \<or> length bs = unat n" using assms by (cases "n = 0") auto
  from write_bytes_puts [OF this] obtain out where out: "length out = unat n"
    "puts h (on_stream (\<lambda>s. pb_write s bs n)) out" by blast
  show ?thesis
    unfolding eq
    by (intro settles_seq varint_settles
        settles_writes [OF write_bytes_sizes [OF out(1)] out(2)])
qed

lemma put_string_settles: "settles h (put_string p n)"
proof -
  have "settles h (put_string p n) = settles h (on_stream (\<lambda>s. pb_encode_string s (peek h p (unat n)) n))"
    by (rule settles_cong) (simp add: put_string_def)
  then show ?thesis using encode_string_settles [OF peek_cases] by simp
qed

lemma pb_enc_bytes_settles: "settles h (pb_enc_bytes field src)"
  unfolding pb_enc_bytes_def [abs_def]
  by (intro settles_if settles_rd settles_error put_string_settles encode_string_settles) simp

lemma pb_enc_string_settles: "settles h (pb_enc_string field src)"
  unfolding pb_enc_string_def [abs_def] Let_def
  by (intro settles_if settles_rd put_string_settles)

lemma pb_enc_fixed_length_bytes_settles: "settles h (pb_enc_fixed_length_bytes field src)"
  unfolding pb_enc_fixed_length_bytes_def [abs_def] by (rule put_string_settles)

subsection \<open>Arrays\<close>

lemma sizing_callback: "ocallback PB_OSTREAM_SIZING = None"
  by (simp add: PB_OSTREAM_SIZING_def)

lemma tag_for_field_settles: "settles h (on_stream (\<lambda>s. pb_encode_tag_for_field s field))"
proof (cases "wire_type_of (PB_LTYPE (ftype field))")
  case None
  then show ?thesis
    by (intro settles_unsized)
       (simp add: unsized_def on_stream_def pb_encode_tag_for_field_def oreturn_error_def)
next
  case (Some wt)
  then show ?thesis using tag_settles by (simp add: pb_encode_tag_for_field_def)
qed

lemma encode_items_settles: "(\<And>p. settles h (item p)) \<Longrightarrow> settles h (encode_items item step k p)"
proof (induction k arbitrary: p)
  case 0
  have "encode_items item step 0 p = Ok ()" by (rule ext) simp
  then show ?case using settles_skip by simp
next
  case (Suc k)
  have "encode_items item step (Suc k) p =
      (\<lambda>st. andthen (item p st) (\<lambda>u. encode_items item step k (p + step)))"
    by (rule ext) simp
  then show ?case using settles_seq Suc by simp
qed

text \<open>Arrays of fixed-width scalars are never sized by encoding them: their size is a product.\<close>

lemma encode_items_puts:
  assumes "\<And>p. \<exists>out. length out = w \<and> puts h (item p) out"
  shows "\<exists>out. length out = w * k \<and> puts h (encode_items item step k p) out"
proof (induction k arbitrary: p)
  case 0
  show ?case by (intro exI [of _ "[]"]) (simp add: puts_def)
next
  case (Suc k)
  obtain xs where xs: "length xs = w" "puts h (item p) xs" using assms by blast
  obtain ys where ys: "length ys = w * k" "puts h (encode_items item step k (p + step)) ys"
    using Suc.IH by blast
  have "encode_items item step (Suc k) p =
      (\<lambda>st. andthen (item p st) (\<lambda>u. encode_items item step k (p + step)))"
    by (rule ext) simp
  then have "puts h (encode_items item step (Suc k) p) (xs @ ys)" using puts_seq xs ys by simp
  with xs ys show ?case by (intro exI [of _ "xs @ ys"]) (simp del: encode_items.simps)
qed

lemma puts_fault: "(\<And>s. op (s, h) = Fault) \<Longrightarrow> puts h op bs"
  by (simp add: puts_def)

lemma puts_cong: "(\<And>s. op (s, h) = op' (s, h)) \<Longrightarrow> puts h op bs = puts h op' bs"
  by (simp add: puts_def)

lemma fixed32_puts: "\<exists>out. length out = 4 \<and> puts h (pb_enc_fixed32 field p) out"
proof (cases "load_u32 h p")
  case None
  then show ?thesis
    by (intro exI [of _ "replicate 4 0"] conjI puts_fault) (simp_all add: pb_enc_fixed32_def rd_def)
next
  case (Some v)
  have "puts h (pb_enc_fixed32 field p) (fixed32_bytes v) =
      puts h (on_stream (\<lambda>s. pb_encode_fixed32 s v)) (fixed32_bytes v)"
    by (rule puts_cong) (simp add: pb_enc_fixed32_def rd_def Some)
  then show ?thesis using emitter_puts [OF write_fixed32.emitter_axioms]
    by (intro exI [of _ "fixed32_bytes v"]) (simp add: fixed32_bytes_def)
qed

lemma fixed64_puts: "\<exists>out. length out = 8 \<and> puts h (pb_enc_fixed64 field p) out"
proof (cases "load_u64 h p")
  case None
  then show ?thesis
    by (intro exI [of _ "replicate 8 0"] conjI puts_fault) (simp_all add: pb_enc_fixed64_def rd_def)
next
  case (Some v)
  have "puts h (pb_enc_fixed64 field p) (fixed64_bytes v) =
      puts h (on_stream (\<lambda>s. pb_encode_fixed64 s v)) (fixed64_bytes v)"
    by (rule puts_cong) (simp add: pb_enc_fixed64_def rd_def Some)
  then show ?thesis using emitter_puts [OF write_fixed64.emitter_axioms]
    by (intro exI [of _ "fixed64_bytes v"]) (simp add: fixed64_bytes_def)
qed

text \<open>The second half of a packed array or a submessage: counted, or written.\<close>

lemma counted_or_written:
  assumes "of_nat (length out) = sz" "puts h body out"
  shows "settles h (\<lambda>st. if ocallback (fst st) = None then on_stream (\<lambda>s. pb_write s [] sz) st
                         else body st)"
proof (rule settles_writes)
  show "sizes h (\<lambda>st. if ocallback (fst st) = None then on_stream (\<lambda>s. pb_write s [] sz) st
      else body st) out"
    using assms(1) by (simp add: sizes_def on_stream_def pb_write_def counted_def)
  show "puts h (\<lambda>st. if ocallback (fst st) = None then on_stream (\<lambda>s. pb_write s [] sz) st
      else body st) out"
    using assms(2) by (simp add: puts_def fresh_def out_ok_def)
qed

lemma encode_packed_settles:
  assumes func: "\<And>p. settles h (func field p)"
    and f32: "PB_LTYPE (ftype field) = PB_LTYPE_FIXED32 \<Longrightarrow> func = pb_enc_fixed32"
    and f64: "PB_LTYPE (ftype field) = PB_LTYPE_FIXED64 \<Longrightarrow> func = pb_enc_fixed64"
  shows "settles h (encode_packed func field p count)"
proof -
  let ?items = "encode_items (func field) (ucast (data_size field)) (unat count) p"
  let ?rest = "\<lambda>sz st. andthen (on_stream (\<lambda>s. pb_encode_varint s sz) st) (\<lambda>u st3.
      if ocallback (fst st3) = None then on_stream (\<lambda>s. pb_write s [] sz) st3 else ?items st3)"
  have rest: "settles h (?rest sz)" if "of_nat (length out) = sz" "puts h ?items out" for sz out
    by (intro settles_seq varint_settles counted_or_written [OF that])
  have "settles h (\<lambda>st. andthen (packed_size func field p count st) ?rest)"
  proof (cases "PB_LTYPE (ftype field) = PB_LTYPE_FIXED32 \<or> PB_LTYPE (ftype field) = PB_LTYPE_FIXED64")
    case True
    obtain w sz out where w: "sz = of_nat w * count" "length out = w * unat count" "puts h ?items out"
        "\<And>st. packed_size func field p count st = Ok sz st"
    proof (cases "PB_LTYPE (ftype field) = PB_LTYPE_FIXED32")
      case True
      have fn: "func = pb_enc_fixed32" using f32 True by simp
      then obtain out where "length out = 4 * unat count" "puts h ?items out"
        using encode_items_puts [where item = "pb_enc_fixed32 field", OF fixed32_puts] by metis
      with True show ?thesis
        by (intro that [of "4 * count" 4 out]) (auto simp: packed_size_def pb_consts)
    next
      case False
      with True have lt: "PB_LTYPE (ftype field) = PB_LTYPE_FIXED64" by simp
      have fn: "func = pb_enc_fixed64" using f64 lt by simp
      then obtain out where "length out = 8 * unat count" "puts h ?items out"
        using encode_items_puts [where item = "pb_enc_fixed64 field", OF fixed64_puts] by metis
      with lt show ?thesis
        by (intro that [of "8 * count" 8 out]) (auto simp: packed_size_def pb_consts)
    qed
    have "of_nat (length out) = sz" using w(1,2) by simp
    from rest [OF this w(3)] show ?thesis using w(4) by simp
  next
    case False
    have "settles h ?items" using func by (rule encode_items_settles)
    then show ?thesis
    proof (cases rule: settlesE)
      case 1
      then have "\<And>u t. ?items (PB_OSTREAM_SIZING, h) \<noteq> Ok u t"
        using sizing_callback unfolding unsized_def by blast
      then have "unsized h (\<lambda>st. andthen (packed_size func field p count st) ?rest)"
        using False by (auto simp: unsized_def packed_size_def andthen_eq_Ok split: outcome.splits)
      then show ?thesis by (rule settles_unsized)
    next
      case (2 bs)
      then have "?items (PB_OSTREAM_SIZING, h) = Ok () (counted bs PB_OSTREAM_SIZING, h)"
        using sizing_callback unfolding sizes_def by blast
      then have eq: "packed_size func field p count (s, h) = Ok (of_nat (length bs)) (s, h)" for s
        using False by (simp add: packed_size_def PB_OSTREAM_SIZING_def)
      have "settles h (\<lambda>st. andthen (packed_size func field p count st) ?rest) =
          settles h (?rest (of_nat (length bs)))"
        by (rule settles_cong) (simp add: eq)
      then show ?thesis using rest [OF refl 2(2)] by simp
    qed
  qed
  then show ?thesis
    unfolding encode_packed_def [abs_def] by (intro settles_seq tag_settles)
qed

lemma encode_element_settles: "(\<And>p. settles h (func field p)) \<Longrightarrow> settles h (encode_element func field p)"
  unfolding encode_element_def [abs_def]
  by (intro settles_seq settles_if settles_rd tag_for_field_settles)

subsection \<open>Submessages\<close>

lemma sizing_bytes_written [simp]: "bytes_written PB_OSTREAM_SIZING = 0"
  by (simp add: PB_OSTREAM_SIZING_def)

lemma substream_fresh:
  assumes "fresh s" "length body \<le> space s"
  defines "sub \<equiv> (counted body PB_OSTREAM_SIZING)\<lparr>ocallback := ocallback s, ostate := ostate s,
    room := room s, max_size := of_nat (length body), bytes_written := 0, oerrmsg := None\<rparr>"
  shows "fresh sub" "space sub = length body" "unat (of_nat (length body) :: u64) = length body"
proof -
  have "length body \<le> unat (max_size s)" using assms(2) by (simp add: space_def)
  then show u: "unat (of_nat (length body) :: u64) = length body" by (rule le_unat_uoi)
  have "length body \<le> room s" using assms(1,2) by (auto simp: fresh_def out_ok_def space_def)
  with u assms(1) show "fresh sub" "space sub = length body"
    by (simp_all add: sub_def fresh_def out_ok_def space_def)
qed

lemma space_no_wrap:
  assumes "fresh s" "n \<le> space s"
  shows "max_size s < bytes_written s + of_nat n \<longleftrightarrow> False"
proof -
  have o: "out_ok s" and l: "length (replicate n (0::byte)) \<le> space s"
    using assms by (simp_all add: fresh_def)
  from unat_bytes_written_stored [OF o l] show ?thesis
    using assms by (auto simp: word_less_nat_alt out_ok_def space_def word_le_nat_alt fresh_def)
qed

lemma submessage_body_puts:
  assumes "puts h (rec fs src) body"
  shows "puts h (submessage_body rec fs src (counted body PB_OSTREAM_SIZING)) body"
  unfolding puts_def
proof (intro allI impI conjI)
  fix s assume s: "fresh s"
    and nf: "submessage_body rec fs src (counted body PB_OSTREAM_SIZING) (s, h) \<noteq> Fault"
  have cb: "ocallback s = Some Buf_write" "oerrmsg s = None"
    using s by (simp_all add: fresh_def out_ok_def)
  {
    assume fits: "length body \<le> space s"
    note sub = substream_fresh [OF s fits]
    let ?sub = "(counted body PB_OSTREAM_SIZING)\<lparr>ocallback := ocallback s, ostate := ostate s,
      room := room s, max_size := of_nat (length body), bytes_written := 0, oerrmsg := None\<rparr>"
    have "rec fs src (?sub, h) \<noteq> Fault"
      using nf cb space_no_wrap [OF s fits] by (auto simp: submessage_body_def Let_def)
    then have "rec fs src (?sub, h) = Ok () (stored body ?sub, h)"
      using assms sub(1,2) unfolding puts_def by simp
    then show "submessage_body rec fs src (counted body PB_OSTREAM_SIZING) (s, h) =
        Ok () (stored body s, h)"
      using cb space_no_wrap [OF s fits]
      by (simp add: submessage_body_def Let_def stored_def)
  next
    assume l: "space s < length body" and w: "unat (bytes_written s) + length body < 2 ^ 64"
    have "unat (bytes_written s + of_nat (length body)) = unat (bytes_written s) + length body"
      using w unat_of_nat_id [of "length body", where ?'a = 64]
      by (subst unat_plus_if_no_wrap) simp_all
    then have "max_size s < bytes_written s + of_nat (length body)"
      using l by (simp add: word_less_nat_alt space_def)
    moreover have "cut_short body s (s\<lparr>oerrmsg := Some m\<rparr>)" for m
      by (rule cut_shortI [where n = 0]) (use l in auto)
    ultimately show "\<exists>t. submessage_body rec fs src (counted body PB_OSTREAM_SIZING) (s, h) = Fail (t, h)
        \<and> cut_short body s t"
      using cb by (simp add: submessage_body_def Let_def enc_error_def on_stream_def
          oreturn_error_def PB_SET_ERROR_def)
  }
qed

lemma submessage_body_sizes:
  "sizes h (submessage_body rec fs src (counted body PB_OSTREAM_SIZING)) body"
  by (simp add: sizes_def submessage_body_def on_stream_def pb_write_def counted_def
      PB_OSTREAM_SIZING_def)

lemma pb_encode_submessage_settles:
  assumes "settles h (rec fs src)"
  shows "settles h (pb_encode_submessage rec fs src)"
  using assms
proof (cases rule: settlesE)
  case 1
  then have "\<And>u t. rec fs src (PB_OSTREAM_SIZING, h) \<noteq> Ok u t"
    using sizing_callback unfolding unsized_def by blast
  then have "unsized h (pb_encode_submessage rec fs src)"
    by (auto simp: unsized_def pb_encode_submessage_def split: outcome.splits)
  then show ?thesis by (rule settles_unsized)
next
  case (2 body)
  then have "rec fs src (PB_OSTREAM_SIZING, h) = Ok () (counted body PB_OSTREAM_SIZING, h)"
    using sizing_callback unfolding sizes_def by blast
  then have "pb_encode_submessage rec fs src (s, h) =
      andthen (on_stream (\<lambda>s. pb_encode_varint s (of_nat (length body))) (s, h))
        (\<lambda>u. submessage_body rec fs src (counted body PB_OSTREAM_SIZING))" for s
    by (simp add: pb_encode_submessage_def PB_OSTREAM_SIZING_def)
  then have "settles h (pb_encode_submessage rec fs src) =
      settles h (\<lambda>st. andthen (on_stream (\<lambda>s. pb_encode_varint s (of_nat (length body))) st)
        (\<lambda>u. submessage_body rec fs src (counted body PB_OSTREAM_SIZING)))"
    by (intro settles_cong) simp
  also have "\<dots>"
    by (intro settles_seq varint_settles
        settles_writes [OF submessage_body_sizes submessage_body_puts [where rec = rec and fs = fs and src = src, OF 2(2)]])
  finally show ?thesis .
qed

subsection \<open>Questions to the memory\<close>

text \<open>A computation that only looks at the memory: the same answer on every stream.\<close>

definition asks :: "heap \<Rightarrow> (est \<Rightarrow> ('v, est) outcome) \<Rightarrow> bool" where
  "asks h op \<longleftrightarrow> (\<exists>v. \<forall>s. op (s, h) = Ok v (s, h)) \<or> (\<forall>s. op (s, h) = Fault) \<or> (\<forall>s. op (s, h) = Loop)"

lemma asks_Ok [simp, intro]: "asks h (Ok v)"
  by (auto simp: asks_def)

lemma asks_rd: "asks h (rd f)"
  by (cases "f h") (auto simp: asks_def rd_def)

lemma asks_seq:
  assumes "asks h op" and "\<And>v. asks h (f v)"
  shows "asks h (\<lambda>st. andthen (op st) (\<lambda>v. f v))"
  using assms(1) unfolding asks_def [of h op]
proof (elim disjE exE)
  fix v assume "\<forall>s. op (s, h) = Ok v (s, h)"
  then show ?thesis using assms(2) [of v] by (simp add: asks_def)
qed (simp_all add: asks_def)

lemma asks_if: "(b \<Longrightarrow> asks h f) \<Longrightarrow> (\<not> b \<Longrightarrow> asks h g) \<Longrightarrow> asks h (\<lambda>st. if b then f st else g st)"
  by (cases b) auto

lemma asks_fault: "asks h (\<lambda>st. Fault)"
  by (simp add: asks_def)

lemma settles_asks:
  assumes "asks h op" and "\<And>v. settles h (f v)"
  shows "settles h (\<lambda>st. andthen (op st) (\<lambda>v. f v))"
  using assms(1) unfolding asks_def
proof (elim disjE exE)
  fix v assume "\<forall>s. op (s, h) = Ok v (s, h)"
  then have "settles h (\<lambda>st. andthen (op st) (\<lambda>v. f v)) = settles h (f v)"
    by (intro settles_cong) simp
  then show ?thesis using assms(2) by simp
qed (auto intro!: settles_unsized simp: unsized_def)

lemma all_zero_asks: "asks h (all_zero n p)"
proof (induction n arbitrary: p)
  case 0
  have "all_zero 0 p = Ok True" by (rule ext) simp
  then show ?case by simp
next
  case (Suc n)
  have eq: "all_zero (Suc n) p =
      (\<lambda>st. andthen (rd (\<lambda>h. load_u8 h p) st) (\<lambda>b st'. if b \<noteq> 0 then Ok False st' else all_zero n (p + 1) st'))"
    by (rule ext) simp
  show ?case unfolding eq by (intro asks_seq asks_rd asks_if asks_Ok Suc)
qed

lemma iter_all_asks:
  "(\<And>it. asks h (test it)) \<Longrightarrow> asks h (iter_all test it)"
proof (induction "length (start it) - pos it" arbitrary: it rule: less_induct)
  case less
  have eq: "iter_all test it = (\<lambda>s. andthen (test it s) (\<lambda>b s'.
      if \<not> b then Ok False s'
      else if snd (pb_field_iter_next it) then iter_all test (fst (pb_field_iter_next it)) s'
      else Ok True s'))"
    by (rule ext) (rule iter_all.simps)
  have rest: "asks h (iter_all test (fst (pb_field_iter_next it)))" if "snd (pb_field_iter_next it)"
  proof -
    from that have "pb_field_iter_next it = (fst (pb_field_iter_next it), True)"
      by (metis (full_types) prod.collapse)
    from next_True [OF this] show ?thesis by (intro less.hyps less.prems) auto
  qed
  show ?case
    unfolding eq
    by (intro asks_seq asks_if less.prems asks_Ok rest)
qed

lemma default_value_asks: "asks h (pb_check_proto3_default_value n env field p)"
proof (induction n arbitrary: field p)
  case 0
  show ?case by (simp add: asks_def)
next
  case (Suc n)
  have sub: "asks h (\<lambda>st. case ptr field of
              Ptr_fields k \<Rightarrow>
                (case pb_field_iter_begin (msgs env k) p of (it, nonempty) \<Rightarrow>
                   if nonempty
                   then iter_all (\<lambda>it. pb_check_proto3_default_value n env (cur it) (pData it)) it st
                   else Ok True st)
            | _ \<Rightarrow> Fault)"
    by (cases "ptr field")
       (auto simp: case_prod_beta intro!: asks_fault asks_if iter_all_asks Suc)
  show ?case
    unfolding pb_check_proto3_default_value.simps [abs_def]
    by (intro asks_if asks_seq asks_rd asks_Ok sub all_zero_asks)
qed

subsection \<open>Fields and messages\<close>

text \<open>
  User callbacks are code outside the library. What is assumed of them is what the documentation
  asks: a callback that is called again at the same memory writes the same bytes.
\<close>

definition callbacks_settle :: "heap \<Rightarrow> env \<Rightarrow> bool" where
  "callbacks_settle h env \<longleftrightarrow>
     (\<forall>f cb field a. enc_cbs env f = Some cb \<longrightarrow> settles h (cb field a)) \<and>
     (\<forall>t et enc ext. ext_types env t = Some et \<longrightarrow> et_encode et = Some enc \<longrightarrow> settles h (enc ext))"

lemma ext_type_of_settles:
  assumes "\<And>t et. ext_types env t = Some et \<Longrightarrow> settles h (f et)"
  shows "settles h (\<lambda>st. andthen (ext_type_of env ext st) (\<lambda>et. f et))"
proof (cases "load_ptr h ext")
  case None
  then show ?thesis by (intro settles_unsized) (simp add: unsized_def ext_type_of_def rd_def)
next
  case (Some t)
  show ?thesis
  proof (cases "ext_types env t")
    case None
    with Some show ?thesis by (intro settles_unsized) (simp add: unsized_def ext_type_of_def rd_def)
  next
    case (Some et)
    with \<open>load_ptr h ext = Some t\<close> have "settles h (\<lambda>st. andthen (ext_type_of env ext st) (\<lambda>et. f et)) = settles h (f et)"
      by (intro settles_cong) (simp add: ext_type_of_def rd_def)
    then show ?thesis using assms Some by simp
  qed
qed

lemma callback_error_settles:
  assumes "settles h op"
  shows "settles h (\<lambda>st. case op st of Ok _ st2 \<Rightarrow> Ok () st2
     | Fail st2 \<Rightarrow> enc_error ''callback error'' st2 | Fault \<Rightarrow> Fault | Loop \<Rightarrow> Loop)" (is "settles h ?op")
  using assms
proof (cases rule: settlesE)
  case 1
  have "unsized h ?op"
    using 1 by (auto simp: unsized_def enc_error_def on_stream_def oreturn_error_def
        split: outcome.splits prod.splits)
  then show ?thesis by (rule settles_unsized)
next
  case (2 bs)
  have "puts h ?op bs"
    unfolding puts_def
  proof (intro allI impI)
    fix s assume s: "fresh s" and "?op (s, h) \<noteq> Fault"
    then have nf: "op (s, h) \<noteq> Fault" by auto
    have keep: "cut_short bs s t \<Longrightarrow> enc_error msg (t, h) = Fail (t, h)" for t msg
      by (auto simp: cut_short_def enc_error_def on_stream_def oreturn_error_def PB_SET_ERROR_def)
    show "(length bs \<le> space s \<longrightarrow> ?op (s, h) = Ok () (stored bs s, h)) \<and>
        (space s < length bs \<longrightarrow> unat (bytes_written s) + length bs < 2 ^ 64 \<longrightarrow>
          (\<exists>t. ?op (s, h) = Fail (t, h) \<and> cut_short bs s t))"
      using 2(2) s nf keep unfolding puts_def by fastforce
  qed
  moreover have "sizes h ?op bs" using 2(1) by (simp add: sizes_def)
  ultimately show ?thesis by (intro settles_writes)
qed

lemma encode_callback_field_settles:
  assumes "callbacks_settle h env"
  shows "settles h (encode_callback_field env field data)"
proof -
  have "settles h (\<lambda>st1. case enc_cbs env f of None \<Rightarrow> Fault
      | Some cb \<Rightarrow> (case cb field (data + arg_offset) st1 of Ok _ st2 \<Rightarrow> Ok () st2
           | Fail st2 \<Rightarrow> enc_error ''callback error'' st2 | Fault \<Rightarrow> Fault | Loop \<Rightarrow> Loop))" for f
  proof (cases "enc_cbs env f")
    case None
    then show ?thesis using settles_fault by simp
  next
    case (Some cb)
    then have "settles h (cb field (data + arg_offset))" using assms by (simp add: callbacks_settle_def)
    with Some callback_error_settles show ?thesis by simp
  qed
  then show ?thesis
    unfolding encode_callback_field_def [abs_def] by (intro settles_rd settles_if settles_skip)
qed

lemma pb_enc_submessage_settles:
  assumes "\<And>fs src. settles h (rec fs src)"
  shows "settles h (pb_enc_submessage env rec field src)"
proof (cases "ptr field")
  case Ptr_null
  then have "pb_enc_submessage env rec field src = enc_error ''invalid field descriptor''"
    by (intro ext) (simp add: pb_enc_submessage_def)
  then show ?thesis using settles_error by simp
next
  case (Ptr_fields k)
  then have "pb_enc_submessage env rec field src = pb_encode_submessage rec (msgs env k) src"
    by (intro ext) (simp add: pb_enc_submessage_def)
  then show ?thesis using pb_encode_submessage_settles [OF assms] by simp
next
  case (Ptr_default x)
  then have "pb_enc_submessage env rec field src = (\<lambda>st. Fault)"
    by (intro ext) (simp add: pb_enc_submessage_def)
  then show ?thesis using settles_fault by simp
qed

lemma PB_ENCODERS_settle:
  assumes "\<And>fs src. settles h (rec fs src)" "PB_ENCODERS env rec lt = Some func"
  shows "settles h (func field p)"
  using assms(2) pb_enc_submessage_settles [OF assms(1)]
  by (auto simp: PB_ENCODERS_def pb_enc_varint_settles pb_enc_uvarint_settles pb_enc_svarint_settles
      pb_enc_fixed32_settles pb_enc_fixed64_settles pb_enc_bytes_settles pb_enc_string_settles
      settles_fault pb_enc_fixed_length_bytes_settles split: if_splits)

lemma encode_array_settles:
  assumes rec: "\<And>fs src. settles h (rec fs src)"
    and func: "PB_ENCODERS env rec (PB_LTYPE (ftype field)) = Some func"
  shows "settles h (encode_array func field p count)"
  unfolding encode_array_def [abs_def]
  by (intro settles_if settles_skip settles_error encode_items_settles encode_element_settles
      encode_packed_settles PB_ENCODERS_settle [OF assms])
     (use func in \<open>auto simp: PB_ENCODERS_def pb_consts\<close>)

lemma encode_basic_field_settles:
  assumes rec: "\<And>fs src. settles h (rec fs src)"
  shows "settles h (encode_basic_field n env rec field data)"
proof (cases "PB_ENCODERS env rec (PB_LTYPE (ftype field))")
  case None
  then have "encode_basic_field n env rec field data = (\<lambda>st. Fault)"
    by (intro ext) (simp add: encode_basic_field_def)
  then show ?thesis using settles_fault by simp
next
  case (Some func)
  have put: "settles h (\<lambda>st. andthen (on_stream (\<lambda>s. pb_encode_tag_for_field s field) st)
      (\<lambda>u st'. func field p st'))" for p
    by (intro settles_seq tag_for_field_settles PB_ENCODERS_settle [OF rec Some])
  have ask: "asks h (\<lambda>st. if b then andthen (pb_check_proto3_default_value n env field data st)
      (\<lambda>b. Ok (\<not> b)) else Ok True st)" "asks h (\<lambda>st. if b then rd g st else Ok a st)" for b g a
    by (intro asks_if asks_seq default_value_asks asks_Ok asks_rd)+
  have ask3: "asks h (\<lambda>st. case q of Some a \<Rightarrow> rd (g' a) st | None \<Rightarrow> Ok c st)" for q g' c
    by (cases q) (auto simp: asks_rd asks_Ok)
  have count: "settles h (\<lambda>st. case q of None \<Rightarrow> Fault | Some a \<Rightarrow> andthen (rd (g a) st) (\<lambda>v. f v))"
    if "\<And>v. settles h (f v)" for q and g :: "addr \<Rightarrow> heap \<Rightarrow> u32 option" and f
    by (cases q) (simp_all add: settles_fault settles_rd that)
  show ?thesis
    unfolding encode_basic_field_def [abs_def] Some option.case Let_def
    by (intro settles_asks [OF ask(1)] settles_asks [OF ask(2)] settles_asks [OF ask3] settles_if put
        settles_error settles_skip count encode_array_settles [OF rec Some])
qed

lemma encode_field_settles:
  assumes "callbacks_settle h env" "\<And>fs src. settles h (rec fs src)"
  shows "settles h (encode_field n env rec field data)"
  unfolding encode_field_def [abs_def]
  by (intro settles_if encode_basic_field_settles encode_callback_field_settles settles_error assms)

lemma encode_extension_settles:
  assumes "callbacks_settle h env" "\<And>fs src. settles h (rec fs src)"
  shows "settles h (encode_extension_field n env rec data)"
proof -
  have dflt: "settles h (default_extension_encoder n env rec ext)" for ext
    unfolding default_extension_encoder_def [abs_def] Let_def
    by (intro ext_type_of_settles settles_if settles_rd encode_field_settles assms)
  have custom: "settles h (\<lambda>st1. case et_encode et of Some enc \<Rightarrow> enc ext st1
      | None \<Rightarrow> default_extension_encoder n env rec ext st1)" if "ext_types env t = Some et" for t et ext
    using assms(1) that dflt by (cases "et_encode et") (auto simp: callbacks_settle_def)
  have chain: "settles h (encode_extensions k (default_extension_encoder n env rec) env ext)" for k ext
  proof (induction k arbitrary: ext)
    case 0
    show ?case unfolding encode_extensions.simps [abs_def] by (intro settles_if settles_skip settles_loop)
  next
    case (Suc k)
    show ?case
      unfolding encode_extensions.simps [abs_def]
      by (intro settles_if settles_skip ext_type_of_settles settles_seq custom settles_rd Suc)
  qed
  show ?thesis
    unfolding encode_extension_field_def [abs_def] by (intro settles_rd chain)
qed

lemma iter_do_while_settles:
  assumes "\<And>it. settles h (body it)"
  shows "settles h (iter_do_while body it)"
proof (induction "length (start it) - pos it" arbitrary: it rule: less_induct)
  case less
  have eq: "iter_do_while body it = (\<lambda>s. andthen (body it s) (\<lambda>u s'.
      if snd (pb_field_iter_next it) then iter_do_while body (fst (pb_field_iter_next it)) s'
      else Ok () s'))"
    by (rule ext) (rule iter_do_while.simps)
  have rest: "settles h (iter_do_while body (fst (pb_field_iter_next it)))" if "snd (pb_field_iter_next it)"
  proof -
    from that have "pb_field_iter_next it = (fst (pb_field_iter_next it), True)"
      by (metis (full_types) prod.collapse)
    from next_True [OF this] show ?thesis by (intro less.hyps) auto
  qed
  show ?case
    unfolding eq by (intro settles_seq settles_if assms rest settles_skip)
qed

lemma pb_encode_settles:
  assumes "callbacks_settle h env"
  shows "settles h (pb_encode n env fs src)"
proof (induction n arbitrary: fs src)
  case 0
  have "pb_encode 0 env fs src = (\<lambda>st. Loop)" by (rule ext) simp
  then show ?case using settles_loop by simp
next
  case (Suc n)
  have one: "settles h (encode_one n env (pb_encode n env) it)" for it
    unfolding encode_one_def [abs_def]
    by (intro settles_if encode_extension_settles encode_field_settles assms Suc)
  show ?case
    unfolding pb_encode.simps [abs_def] case_prod_beta
    by (intro settles_if iter_do_while_settles one settles_skip)
qed

end
