(* ===== verification/Pb_Layout.thy ===== *)
theory Pb_Layout
  imports Pb_Common
begin

unbundle bit_operations_syntax

section \<open>Descriptors made from a struct layout (the PB_FIELD macros of pb.h)\<close>

text \<open>
  A descriptor stores offsets relative to the end of the previous field. This theory shows that
  the macros and the iterator undo each other: for a descriptor that \<^verbatim>\<open>PB_FIELD\<close> builds from the
  members of a struct, the iterator's data pointer is the address of the member and its size
  pointer the address of the member's has-flag or count.
\<close>

record entry =
  e_tag :: u32
  e_type :: proto_type
  e_rule :: field_rule
  e_alloc :: field_alloc
  e_aux :: member
  e_mem :: member
  e_ptr :: fptr

definition entry_field :: "placement \<Rightarrow> member \<Rightarrow> entry \<Rightarrow> pb_field" where
  "entry_field place prev e =
     PB_FIELD (e_tag e) (e_type e) (e_rule e) (e_alloc e) place (e_aux e) (e_mem e) prev (e_ptr e)"

primrec entries_after :: "member \<Rightarrow> entry list \<Rightarrow> pb_field list" where
  "entries_after prev [] = []"
| "entries_after prev (e # es) = entry_field OTHER prev e # entries_after (e_mem e) es"

text \<open>The array the generator writes: the first entry FIRST, the others OTHER.\<close>

fun message_fields :: "entry list \<Rightarrow> pb_field list" where
  "message_fields [] = []"
| "message_fields (e # es) = entry_field FIRST (e_mem e) e # entries_after (e_mem e) es"

subsection \<open>Layouts a C compiler can produce\<close>

definition uses_aux :: "entry \<Rightarrow> bool" where
  "uses_aux e \<longleftrightarrow> (e_rule e = OPTIONAL \<and> e_alloc e = STATIC) \<or>
     (e_rule e = REPEATED \<and> e_alloc e \<noteq> CALLBACK)"

text \<open>
  Sizes and offsets fit the descriptor's fields, an array's size is a multiple of its element's,
  and a pointer member has the size of a pointer.
\<close>

definition entry_ok :: "entry \<Rightarrow> bool" where
  "entry_ok e \<longleftrightarrow> e_rule e \<noteq> OPTEXT \<and> e_tag e \<noteq> 0 \<and>
     moffset (e_mem e) + msize (e_mem e) < 2 ^ 31 \<and> moffset (e_aux e) < 2 ^ 31 \<and>
     (e_alloc e = POINTER \<longrightarrow> msize (e_mem e) = 8) \<and>
     (e_alloc e = STATIC \<and> e_rule e = REPEATED \<longrightarrow>
        0 < melem (e_mem e) \<and> melem (e_mem e) dvd msize (e_mem e))"

definition member_after :: "entry \<Rightarrow> entry \<Rightarrow> bool" where
  "member_after e e' \<longleftrightarrow> moffset (e_mem e) + msize (e_mem e) \<le> moffset (e_mem e')"

definition layout_ok :: "entry list \<Rightarrow> bool" where
  "layout_ok es \<longleftrightarrow> (\<forall>e \<in> set es. entry_ok e) \<and> successively member_after es"

subsection \<open>The type byte of a built descriptor\<close>

lemma LTYPE_MAP_low: "PB_LTYPE_MAP ty < 16"
  by (cases ty) (simp_all add: pb_consts)

lemma LTYPE_MAP_masks:
  "PB_LTYPE_MAP ty AND 0xC0 = 0" "PB_LTYPE_MAP ty AND 0x30 = 0"
  by (cases ty; simp add: pb_consts)+

lemma type_parts:
  assumes "a = PB_ATYPE_STATIC \<or> a = PB_ATYPE_POINTER \<or> a = PB_ATYPE_CALLBACK"
    and "h = PB_HTYPE_REQUIRED \<or> h = PB_HTYPE_OPTIONAL \<or> h = PB_HTYPE_REPEATED \<or> h = PB_HTYPE_ONEOF"
  shows "PB_ATYPE (a OR h OR PB_LTYPE_MAP ty) = a" and "PB_HTYPE (a OR h OR PB_LTYPE_MAP ty) = h"
  using assms
  by (auto simp: PB_ATYPE_def PB_HTYPE_def PB_ATYPE_MASK_def PB_HTYPE_MASK_def bit.conj_disj_distrib2
      LTYPE_MAP_masks) (auto simp: pb_consts)

lemma ltype_part:
  assumes "a = PB_ATYPE_STATIC \<or> a = PB_ATYPE_POINTER \<or> a = PB_ATYPE_CALLBACK"
    and "h = PB_HTYPE_REQUIRED \<or> h = PB_HTYPE_OPTIONAL \<or> h = PB_HTYPE_REPEATED \<or> h = PB_HTYPE_ONEOF"
  shows "PB_LTYPE (a OR h OR PB_LTYPE_MAP ty) = PB_LTYPE_MAP ty"
proof -
  have "PB_LTYPE_MAP ty AND 0x0F = PB_LTYPE_MAP ty" by (cases ty; simp add: pb_consts)
  with assms show ?thesis
    by (auto simp: PB_LTYPE_def PB_LTYPE_MASK_def bit.conj_disj_distrib2) (auto simp: pb_consts)
qed

subsection \<open>Offsets and sizes of a built descriptor\<close>

lemmas field_macros = PB_FIELD_def mk_field_def
  PB_REQUIRED_STATIC_def PB_OPTIONAL_STATIC_def PB_SINGULAR_STATIC_def PB_REPEATED_STATIC_def
  PB_REQUIRED_POINTER_def PB_OPTIONAL_POINTER_def PB_SINGULAR_POINTER_def PB_REPEATED_POINTER_def
  PB_REQUIRED_CALLBACK_def PB_OPTIONAL_CALLBACK_def PB_SINGULAR_CALLBACK_def
  PB_REPEATED_CALLBACK_def

definition atype_of :: "field_alloc \<Rightarrow> byte" where
  "atype_of a = (case a of STATIC \<Rightarrow> PB_ATYPE_STATIC | POINTER \<Rightarrow> PB_ATYPE_POINTER
     | CALLBACK \<Rightarrow> PB_ATYPE_CALLBACK)"

definition htype_of :: "field_rule \<Rightarrow> byte" where
  "htype_of r = (case r of REQUIRED \<Rightarrow> PB_HTYPE_REQUIRED | REPEATED \<Rightarrow> PB_HTYPE_REPEATED
     | _ \<Rightarrow> PB_HTYPE_OPTIONAL)"

lemma entry_field_parts:
  assumes "e_rule e \<noteq> OPTEXT"
  shows "tag (entry_field place prev e) = e_tag e"
    and "ftype (entry_field place prev e) =
           atype_of (e_alloc e) OR htype_of (e_rule e) OR PB_LTYPE_MAP (e_type e)"
    and "data_offset (entry_field place prev e) = PB_DATAOFFSET place (e_mem e) prev"
    and "size_offset (entry_field place prev e) =
           (if uses_aux e then pb_delta (e_aux e) (e_mem e) else 0)"
    and "data_size (entry_field place prev e) =
           (if e_alloc e = POINTER \<or> (e_alloc e = STATIC \<and> e_rule e = REPEATED)
            then pb_elemsize (e_mem e) else pb_membersize (e_mem e))"
    and "array_size (entry_field place prev e) =
           (if e_alloc e = STATIC \<and> e_rule e = REPEATED then pb_arraysize (e_mem e) else 0)"
  using assms
  by (cases "e_rule e"; cases "e_alloc e";
      simp add: entry_field_def field_macros atype_of_def htype_of_def uses_aux_def)+

lemma entry_field_types:
  assumes "e_rule e \<noteq> OPTEXT"
  shows "PB_ATYPE (ftype (entry_field place prev e)) = atype_of (e_alloc e)"
    and "PB_HTYPE (ftype (entry_field place prev e)) = htype_of (e_rule e)"
  unfolding entry_field_parts [OF assms]
  by (rule type_parts; auto simp: atype_of_def htype_of_def split: field_alloc.splits field_rule.splits)+

lemma ucast_of_nat_32: "n < 2 ^ 32 \<Longrightarrow> ucast (of_nat n :: u32) = (of_nat n :: u64)"
  by (simp add: unsigned_of_nat take_bit_nat_eq_self)

lemma scast_of_int_32: "- (2 ^ 31) \<le> k \<Longrightarrow> k < 2 ^ 31 \<Longrightarrow> scast (of_int k :: u32) = (of_int k :: u64)"
  by (simp add: signed_of_int signed_take_bit_int_eq_self)

text \<open>\<open>span\<close> is the distance the iterator advances over a field before the next one's offset.\<close>

definition span :: "pb_field \<Rightarrow> u64" where
  "span f =
     (if PB_ATYPE (ftype f) = PB_ATYPE_STATIC \<and> PB_HTYPE (ftype f) = PB_HTYPE_REPEATED
      then ucast (data_size f) * ucast (array_size f)
      else if PB_ATYPE (ftype f) = PB_ATYPE_POINTER then sizeof_ptr
      else ucast (data_size f))"

lemma span_entry:
  assumes "entry_ok e"
  shows "span (entry_field place prev e) = of_nat (msize (e_mem e))"
proof -
  have ok: "e_rule e \<noteq> OPTEXT" "msize (e_mem e) < 2 ^ 32"
    using assms by (simp_all add: entry_ok_def)
  show ?thesis
  proof (cases "e_alloc e = STATIC \<and> e_rule e = REPEATED")
    case True
    let ?m = "e_mem e"
    have d: "0 < melem ?m" "melem ?m dvd msize ?m" using assms True by (simp_all add: entry_ok_def)
    have "melem ?m * (msize ?m div melem ?m) = msize ?m" using d(2) by simp
    moreover have "msize ?m div melem ?m < 2 ^ 32"
      by (rule le_less_trans [OF div_le_dividend ok(2)])
    moreover have "melem ?m < 2 ^ 32 \<or> msize ?m div melem ?m = 0"
      using d(2) ok(2) dvd_imp_le [of "melem ?m" "msize ?m"] by (cases "msize ?m = 0") auto
    ultimately show ?thesis using True ok
      by (auto simp: span_def entry_field_types entry_field_parts(5,6) atype_of_def htype_of_def
          pb_elemsize_def pb_arraysize_def ucast_of_nat_32 simp flip: of_nat_mult)
  next
    case False
    then show ?thesis using assms ok
      by (cases "e_alloc e"; cases "e_rule e")
         (auto simp: span_def entry_field_types entry_field_parts(5,6) atype_of_def htype_of_def
          pb_membersize_def ucast_of_nat_32 entry_ok_def sizeof_ptr_def pb_consts)
  qed
qed

lemma size_pointer_entry:
  assumes "entry_ok e"
  shows "offset_addr (base + of_nat (moffset (e_mem e))) (size_offset (entry_field place prev e)) =
    base + of_nat (moffset (if uses_aux e then e_aux e else e_mem e))"
proof -
  have o: "e_rule e \<noteq> OPTEXT" "moffset (e_mem e) < 2 ^ 31" "moffset (e_aux e) < 2 ^ 31"
    using assms by (simp_all add: entry_ok_def)
  let ?k = "int (moffset (e_aux e)) - int (moffset (e_mem e))"
  have "scast (of_int ?k :: u32) = (of_int ?k :: u64)"
    by (rule scast_of_int_32) (use o in auto)
  then show ?thesis using o by (simp add: entry_field_parts offset_addr_def pb_delta_def)
qed

subsection \<open>The iterator finds the members\<close>

lemma length_message_fields [simp]: "length (message_fields es) = length es"
proof -
  have "length (entries_after m es) = length es" for m es by (induction es arbitrary: m) auto
  then show ?thesis by (cases es) auto
qed

lemma entries_after_nth:
  "i < length es \<Longrightarrow>
   entries_after m es ! i = entry_field OTHER (if i = 0 then m else e_mem (es ! (i - 1))) (es ! i)"
  by (induction es arbitrary: m i) (auto simp: nth_Cons split: nat.splits)

lemma message_fields_nth:
  "i < length es \<Longrightarrow> message_fields es ! i =
     (if i = 0 then entry_field FIRST (e_mem (es ! 0)) (es ! 0)
      else entry_field OTHER (e_mem (es ! (i - 1))) (es ! i))"
  by (cases es) (auto simp: nth_Cons entries_after_nth split: nat.splits)

lemma message_fields_wf: "layout_ok es \<Longrightarrow> wf_fields (message_fields es)"
proof -
  assume l: "layout_ok es"
  have "tag (message_fields es ! i) \<noteq> 0" if "i < length es" for i
  proof -
    have "entry_ok (es ! i)" using l that by (simp add: layout_ok_def)
    with that show ?thesis
      by (cases i) (simp_all add: message_fields_nth entry_field_parts entry_ok_def)
  qed
  then show "wf_fields (message_fields es)"
    by (auto simp: wf_fields_def in_set_conv_nth)
qed

lemma iter_at_Suc_data:
  assumes wf: "wf_fields fs" and i: "Suc i < length fs"
    and no: "PB_HTYPE (ftype (fs ! Suc i)) \<noteq> PB_HTYPE_ONEOF"
  shows "pData (iter_at fs d (Suc i)) = pData (iter_at fs d i) + span (fs ! i) + ucast (data_offset (fs ! Suc i))"
    and "pSize (iter_at fs d (Suc i)) = offset_addr (pData (iter_at fs d (Suc i))) (size_offset (fs ! Suc i))"
proof -
  have i': "i < length fs" using i by simp
  have t: "tag (field_at fs i) \<noteq> 0" "tag (field_at fs (Suc i)) \<noteq> 0"
    using wf i i' field_at_tag by blast+
  show "pData (iter_at fs d (Suc i)) = pData (iter_at fs d i) + span (fs ! i) + ucast (data_offset (fs ! Suc i))"
    and "pSize (iter_at fs d (Suc i)) = offset_addr (pData (iter_at fs d (Suc i))) (size_offset (fs ! Suc i))"
    using iter_at_fields [OF wf i', of d] t i no
    by (simp_all add: iter_at.simps pb_field_iter_next_def Let_def cur_def field_at_def span_def)
qed

lemma iter_at_layout:
  assumes "layout_ok es"
  shows "i < length es \<Longrightarrow>
    pData (iter_at (message_fields es) base i) = base + of_nat (moffset (e_mem (es ! i))) \<and>
    pSize (iter_at (message_fields es) base i) =
      base + of_nat (moffset (if uses_aux (es ! i) then e_aux (es ! i) else e_mem (es ! i)))"
proof (induction i)
  case 0
  have ok: "entry_ok (es ! 0)" using assms 0 by (simp add: layout_ok_def)
  then have "moffset (e_mem (es ! 0)) < 2 ^ 32" "e_rule (es ! 0) \<noteq> OPTEXT"
    by (simp_all add: entry_ok_def)
  then have "data_offset (entry_field FIRST (e_mem (es ! 0)) (es ! 0)) = of_nat (moffset (e_mem (es ! 0)))"
    and u: "ucast (of_nat (moffset (e_mem (es ! 0))) :: u32) = (of_nat (moffset (e_mem (es ! 0))) :: u64)"
    by (simp_all add: entry_field_parts PB_DATAOFFSET_FIRST_def ucast_of_nat_32)
  with 0 show ?case
    using size_pointer_entry [OF ok, of base FIRST "e_mem (es ! 0)"]
    by (simp add: iter_at.simps pb_field_iter_begin_def Let_def field_at_def message_fields_nth)
next
  case (Suc i)
  let ?e = "es ! i" and ?e' = "es ! Suc i" and ?fs = "message_fields es"
  have ok: "entry_ok ?e" "entry_ok ?e'" using assms Suc.prems by (simp_all add: layout_ok_def)
  have after: "moffset (e_mem ?e) + msize (e_mem ?e) \<le> moffset (e_mem ?e')"
    using assms Suc.prems by (simp add: layout_ok_def successively_conv_nth member_after_def)
  have f': "?fs ! Suc i = entry_field OTHER (e_mem ?e) ?e'"
    using Suc.prems by (simp add: message_fields_nth)
  have o': "e_rule ?e' \<noteq> OPTEXT" "moffset (e_mem ?e') < 2 ^ 32" using ok(2) by (simp_all add: entry_ok_def)
  let ?gap = "moffset (e_mem ?e') - moffset (e_mem ?e) - msize (e_mem ?e)"
  have "data_offset (?fs ! Suc i) = of_nat ?gap"
    using after o' by (simp add: f' entry_field_parts PB_DATAOFFSET_OTHER_def pb_membersize_def of_nat_diff)
  then have gap: "ucast (data_offset (?fs ! Suc i)) = (of_nat ?gap :: u64)"
    using o' by (simp add: ucast_of_nat_32)
  have span: "span (?fs ! i) = of_nat (msize (e_mem ?e))"
  proof -
    have "i < length es" using Suc.prems by simp
    then have "?fs ! i = (if i = 0 then entry_field FIRST (e_mem (es ! 0)) ?e
        else entry_field OTHER (e_mem (es ! (i - 1))) ?e)"
      using message_fields_nth [of i es] by auto
    then show ?thesis using span_entry [OF ok(1)] by (simp split: if_splits)
  qed
  have no: "PB_HTYPE (ftype (?fs ! Suc i)) \<noteq> PB_HTYPE_ONEOF"
    using o' by (cases "e_rule ?e'") (simp_all add: f' entry_field_types htype_of_def pb_consts)
  have IH: "pData (iter_at ?fs base i) = base + of_nat (moffset (e_mem ?e))"
    using Suc by simp
  note step = iter_at_Suc_data [OF message_fields_wf [OF assms] _ no, of base]
  have "pData (iter_at ?fs base (Suc i)) = base + of_nat (moffset (e_mem ?e) + msize (e_mem ?e) + ?gap)"
    using step(1) Suc.prems IH span gap by simp
  also have "moffset (e_mem ?e) + msize (e_mem ?e) + ?gap = moffset (e_mem ?e')" using after by simp
  finally have d: "pData (iter_at ?fs base (Suc i)) = base + of_nat (moffset (e_mem ?e'))" .
  then show ?case
    using step(2) Suc.prems size_pointer_entry [OF ok(2), of base OTHER "e_mem ?e"] f' by simp
qed

end
