(* ===== verification/Pb_Samples.thy ===== *)
theory Pb_Samples
  imports Pb_Safety Pb_Sizing Pb_Layout
begin

section \<open>A message type and a memory to evaluate on\<close>

text \<open>
  The concrete instance on which the witnesses apply the theorems: a struct of twenty bytes with a
  required integer, an optional string and an optional submessage, its descriptors built by the
  \<^verbatim>\<open>PB_FIELD\<close> macros, and a memory that holds one such struct (id 5, name ``hi'', inner value 300)
  at address 4096.
\<close>

definition sample_member :: "nat \<Rightarrow> nat \<Rightarrow> member" where
  "sample_member off n = \<lparr>moffset = off, msize = n, melem = n\<rparr>"

definition sample_inner :: "entry list" where
  "sample_inner = [\<lparr>e_tag = 1, e_type = INT32, e_rule = REQUIRED, e_alloc = STATIC,
     e_aux = sample_member 0 0, e_mem = sample_member 0 4, e_ptr = Ptr_null\<rparr>]"

definition sample_outer :: "entry list" where
  "sample_outer =
     [\<lparr>e_tag = 1, e_type = SINT32, e_rule = REQUIRED, e_alloc = STATIC,
        e_aux = sample_member 0 0, e_mem = sample_member 0 4, e_ptr = Ptr_null\<rparr>,
      \<lparr>e_tag = 2, e_type = STRING, e_rule = OPTIONAL, e_alloc = STATIC,
        e_aux = sample_member 4 1, e_mem = sample_member 5 8, e_ptr = Ptr_null\<rparr>,
      \<lparr>e_tag = 3, e_type = MESSAGE, e_rule = OPTIONAL, e_alloc = STATIC,
        e_aux = sample_member 13 1, e_mem = sample_member 16 4, e_ptr = Ptr_fields 0\<rparr>]"

definition sample_env :: env where
  "sample_env = \<lparr>msgs = (\<lambda>k. message_fields sample_inner), ext_types = (\<lambda>_. None), enc_cbs = (\<lambda>_. None),
     dec_cbs = (\<lambda>_. None), enable_malloc = False\<rparr>"

definition sample_bytes :: "byte list" where
  "sample_bytes = [5, 0, 0, 0, 1, 104, 105, 0, 0, 0, 0, 0, 0, 1, 0, 0, 44, 1, 0, 0]"

definition sample_heap :: heap where
  "sample_heap = \<lparr>cells = (\<lambda>a. if a = 0 then None else if a - 4096 < 20 then Some (sample_bytes ! unat (a - 4096)) else Some 0),
     blocks = (\<lambda>_. None), answers = []\<rparr>"

lemma sample_inner_fields: "message_fields sample_inner =
  [\<lparr>tag = 1, ftype = 0, data_offset = 0, size_offset = 0, data_size = 4, array_size = 0, ptr = Ptr_null\<rparr>]"
  by code_simp

lemma sample_outer_fields: "message_fields sample_outer =
  [\<lparr>tag = 1, ftype = 2, data_offset = 0, size_offset = 0, data_size = 4, array_size = 0, ptr = Ptr_null\<rparr>,
   \<lparr>tag = 2, ftype = 22, data_offset = 1, size_offset = 4294967295, data_size = 8, array_size = 0, ptr = Ptr_null\<rparr>,
   \<lparr>tag = 3, ftype = 23, data_offset = 3, size_offset = 4294967293, data_size = 4, array_size = 0, ptr = Ptr_fields 0\<rparr>]"
  by code_simp

lemma sample_indices: "[0..<length (message_fields sample_outer)] = [0, 1, 2]"
  "[0..<length (message_fields sample_inner)] = [0]"
  by code_simp+

lemma sample_offset:
  "data_off (message_fields sample_outer) 0 = 0" "size_off (message_fields sample_outer) 0 = 0"
  "data_off (message_fields sample_outer) 1 = 5" "size_off (message_fields sample_outer) 1 = 4"
  "data_off (message_fields sample_outer) 2 = 16" "size_off (message_fields sample_outer) 2 = 13"
  "data_off (message_fields sample_inner) 0 = 0" "size_off (message_fields sample_inner) 0 = 0"
  by code_simp+

lemma sample_inner_fits: "msg_fits (Suc 0) sample_env (message_fields sample_inner) 4"
  unfolding msg_fits.simps sample_indices list.set ball_simps sample_offset
  by (simp add: sample_inner_fields sample_env_def
    wf_fields_def required_ok_def is_required_def field_fits_def static_fits_def element_fits_def default_ok_def within_def
    PB_LTYPE_def PB_ATYPE_def PB_HTYPE_def pb_consts)

lemma sample_fits: "msg_fits (Suc (Suc 0)) sample_env (message_fields sample_outer) 20"
  using sample_inner_fits
  unfolding msg_fits.simps(2) [of "Suc 0"] sample_indices sample_offset list.set ball_simps
  by (simp add: sample_outer_fields sample_offset sample_env_def
    wf_fields_def required_ok_def is_required_def field_fits_def static_fits_def element_fits_def default_ok_def within_def
    PB_LTYPE_def PB_ATYPE_def PB_HTYPE_def pb_consts del: msg_fits.simps)

lemma sample_cells: "cells sample_heap a \<noteq> None \<longleftrightarrow> a \<noteq> 0"
  by (simp add: sample_heap_def)

lemma sample_mapped: "mapped (cells sample_heap) 4096 20" "mapped (cells sample_heap) 8192 20"
proof -
  have "unat (of_nat i :: addr) = i" if "i < 20" for i using that by (intro unat_of_nat_id) simp
  then show "mapped (cells sample_heap) 4096 20" "mapped (cells sample_heap) 8192 20"
    unfolding mapped_def sample_cells by (auto simp: word_unat_eq_iff unat_word_ariths)
qed

lemma sample_callbacks: "callbacks_settle h sample_env"
  by (simp add: callbacks_settle_def sample_env_def)

lemma sample_load: "load_u32 sample_heap 4096 = Some 5"
  by code_simp

lemma sample_size: "pb_get_encoded_size 2 sample_env (message_fields sample_outer) 4096 sample_heap = Ok 11 sample_heap"
  by code_simp

end
