(* ===== verification/Pb_Fields.thy ===== *)
theory Pb_Fields
  imports Pb_Sizing Pb_Safety
begin

unbundle bit_operations_syntax

section \<open>What a scalar field's encoder writes, its decoder reads back\<close>

text \<open>
  The field encoders read an integer of \<^verbatim>\<open>data_size\<close> bytes from a struct and the field decoders store
  one there. This theory composes the wire-level round trips with the casts and the memory: after
  decoding what was encoded, the field holds the same bytes.
\<close>

subsection \<open>Bytes and integers in memory\<close>

lemma load_word_bytes:
  assumes "LENGTH('a) = 8 * n"
  shows "load_word n h a = Some (v :: 'a::len word) \<longleftrightarrow> load h a n = Some (le_bytes n v)"
proof
  assume "load_word n h a = Some v"
  then obtain bs where "load h a n = Some bs" "v = le_word bs" by (auto simp: load_word_def)
  then show "load h a n = Some (le_bytes n v)" using le_bytes_le_word [of bs n, where ?'a = 'a] length_load assms by simp
next
  assume "load h a n = Some (le_bytes n v)"
  then show "load_word n h a = Some v" using assms by (simp add: load_word_def)
qed

lemma same_bytes:
  "LENGTH('a) = 8 * n \<Longrightarrow> load_word n h a = Some (v :: 'a::len word) \<Longrightarrow> load_word n h' b = Some v \<Longrightarrow>
   load h' b n = load h a n"
  by (simp add: load_word_bytes)

lemmas same_bytes_8 = same_bytes [where ?'a = 8 and n = 1, folded load_u8_def, simplified]
lemmas same_bytes_16 = same_bytes [where ?'a = 16 and n = 2, folded load_u16_def, simplified]
lemmas same_bytes_32 = same_bytes [where ?'a = 32 and n = 4, folded load_u32_def, simplified]
lemmas same_bytes_64 = same_bytes [where ?'a = 64 and n = 8, folded load_u64_def, simplified]

subsection \<open>Casts\<close>

lemma down_up:
  "ucast (scast (a :: byte) :: u64) = a" "ucast (scast (b :: u16) :: u64) = b"
  "ucast (scast (c :: u32) :: u64) = c" "ucast (ucast a :: u64) = a" "ucast (ucast b :: u64) = b"
  "ucast (ucast c :: u64) = c"
  by (rule bit_word_eqI; auto simp: bit_simps)+

lemma through_32:
  "scast (ucast (scast (a :: byte) :: u64) :: u32) = (scast a :: u64)"
  "scast (ucast (scast (b :: u16) :: u64) :: u32) = (scast b :: u64)"
  "scast (ucast (scast (c :: u32) :: u64) :: u32) = (scast c :: u64)"
  by (rule bit_word_eqI; auto simp: bit_simps min_def)+


subsection \<open>What an encoder that succeeds has stored\<close>

text \<open>The bytes are on the stream, and the buffer object had room for them.\<close>

definition wrote :: "ostream \<Rightarrow> byte list \<Rightarrow> ostream \<Rightarrow> bool" where
  "wrote s bs t \<longleftrightarrow> t = stored bs s \<and> length bs \<le> room s"

lemma wrote_Nil [simp]: "wrote s [] t \<longleftrightarrow> t = s"
  by (auto simp: wrote_def)

lemma wrote_append: "wrote s xs t \<Longrightarrow> wrote t ys u \<Longrightarrow> wrote s (xs @ ys) u"
  by (auto simp: wrote_def stored_def algebra_simps)

lemma wrote_fields:
  "wrote s bs t \<Longrightarrow> ocallback t = ocallback s \<and> oerrmsg t = oerrmsg s \<and> room t = room s - length bs \<and>
     bytes_written t = bytes_written s + of_nat (length bs) \<and> length bs \<le> room s"
  by (auto simp: wrote_def stored_def)

lemma pb_write_Ok_wrote:
  "ocallback s = Some Buf_write \<Longrightarrow> length bs < 2 ^ 64 \<Longrightarrow> pb_write s bs (of_nat (length bs)) = Ok u t \<Longrightarrow>
   wrote s bs t"
  using unat_of_nat_id [of "length bs", where ?'a = 64]
  by (auto simp: pb_write_def call_ocallback_def buf_write_def wrote_def stored_def oreturn_error_def
      split: if_splits)

lemma varint_Ok_wrote:
  "ocallback s = Some Buf_write \<Longrightarrow> pb_encode_varint s v = Ok u t \<Longrightarrow> wrote s (varint_bytes v) t"
  unfolding pb_encode_varint_writes
  by (rule pb_write_Ok_wrote) (auto intro: le_less_trans [OF length_varint_bytes_le_10])

lemma fixed_Ok_wrote:
  "ocallback s = Some Buf_write \<Longrightarrow> pb_encode_fixed32 s v = Ok u t \<Longrightarrow> wrote s (fixed32_bytes v) t"
  "ocallback s = Some Buf_write \<Longrightarrow> pb_encode_fixed64 s w = Ok u t \<Longrightarrow> wrote s (fixed64_bytes w) t"
  using pb_write_Ok_wrote [of s "fixed32_bytes v" u t] pb_write_Ok_wrote [of s "fixed64_bytes w" u t]
  by (simp_all add: pb_encode_fixed32_writes pb_encode_fixed64_writes)

subsection \<open>What a decoder given those bytes stores\<close>

text \<open>
  \<open>restores dec f dst bs x n\<close>: on a stream that starts with \<open>bs\<close>, \<open>dec\<close> consumes exactly them and
  leaves the bytes \<open>x\<close> in the field.
\<close>

definition restores :: "decoder \<Rightarrow> pb_field \<Rightarrow> addr \<Rightarrow> byte list \<Rightarrow> byte list option \<Rightarrow> heap \<Rightarrow> bool" where
  "restores dec f dst bs x h2 \<longleftrightarrow> (\<forall>s. feed bs s \<longrightarrow>
     (\<exists>h3. dec f dst (s, h2) = Ok () (advance (length bs) s, h3) \<and> load h3 dst (unat (data_size f)) = x))"

lemma store_int_restores:
  assumes m: "mapped (cells h2) dst (unat (data_size f))"
  shows "data_size f = 1 \<Longrightarrow> load_u8 h src = Some a \<Longrightarrow> e8 a = v \<Longrightarrow> ucast v = a \<Longrightarrow>
      \<exists>h3. store_int e32 e16 e8 f dst v (s, h2) = Ok () (s, h3) \<and> load h3 dst (unat (data_size f)) = load h src (unat (data_size f))"
    and "data_size f = 2 \<Longrightarrow> load_u16 h src = Some b \<Longrightarrow> e16 b = v \<Longrightarrow> ucast v = b \<Longrightarrow>
      \<exists>h3. store_int e32 e16 e8 f dst v (s, h2) = Ok () (s, h3) \<and> load h3 dst (unat (data_size f)) = load h src (unat (data_size f))"
    and "data_size f = 4 \<Longrightarrow> load_u32 h src = Some c \<Longrightarrow> e32 c = v \<Longrightarrow> ucast v = c \<Longrightarrow>
      \<exists>h3. store_int e32 e16 e8 f dst v (s, h2) = Ok () (s, h3) \<and> load h3 dst (unat (data_size f)) = load h src (unat (data_size f))"
    and "data_size f = 8 \<Longrightarrow> load_u64 h src = Some v \<Longrightarrow>
      \<exists>h3. store_int e32 e16 e8 f dst v (s, h2) = Ok () (s, h3) \<and> load h3 dst (unat (data_size f)) = load h src (unat (data_size f))"
proof -
  assume d: "data_size f = 1" "load_u8 h src = Some a" "e8 a = v" "ucast v = a"
  from m d(1) obtain h3 where h3: "store_u8 h2 dst a = Some h3" using u8.st_total by fastforce
  from same_bytes_8 [OF d(2) u8.st_ld [OF h3]] show "\<exists>h3. store_int e32 e16 e8 f dst v (s, h2) = Ok () (s, h3) \<and>
      load h3 dst (unat (data_size f)) = load h src (unat (data_size f))"
    using d h3 by (auto simp: store_int_def wr_def)
next
  assume d: "data_size f = 2" "load_u16 h src = Some b" "e16 b = v" "ucast v = b"
  from m d(1) obtain h3 where h3: "store_u16 h2 dst b = Some h3" using u16.st_total by fastforce
  from same_bytes_16 [OF d(2) u16.st_ld [OF h3]] show "\<exists>h3. store_int e32 e16 e8 f dst v (s, h2) = Ok () (s, h3) \<and>
      load h3 dst (unat (data_size f)) = load h src (unat (data_size f))"
    using d h3 by (auto simp: store_int_def wr_def)
next
  assume d: "data_size f = 4" "load_u32 h src = Some c" "e32 c = v" "ucast v = c"
  from m d(1) obtain h3 where h3: "store_u32 h2 dst c = Some h3" using u32.st_total by fastforce
  from same_bytes_32 [OF d(2) u32.st_ld [OF h3]] show "\<exists>h3. store_int e32 e16 e8 f dst v (s, h2) = Ok () (s, h3) \<and>
      load h3 dst (unat (data_size f)) = load h src (unat (data_size f))"
    using d h3 by (auto simp: store_int_def wr_def)
next
  assume d: "data_size f = 8" "load_u64 h src = Some v"
  from m d(1) obtain h3 where h3: "store_u64 h2 dst v = Some h3" using u64.st_total by fastforce
  from same_bytes_64 [OF d(2) u64.st_ld [OF h3]] show "\<exists>h3. store_int e32 e16 e8 f dst v (s, h2) = Ok () (s, h3) \<and>
      load h3 dst (unat (data_size f)) = load h src (unat (data_size f))"
    using d h3 by (auto simp: store_int_def wr_def)
qed

lemma read_signed_Ok:
  assumes "read_signed f src (s, h) = Ok v st"
  shows "st = (s, h)"
    and "(data_size f = 1 \<and> (\<exists>a. load_u8 h src = Some a \<and> v = scast a)) \<or>
      (data_size f = 2 \<and> (\<exists>b. load_u16 h src = Some b \<and> v = scast b)) \<or>
      (data_size f = 4 \<and> (\<exists>c. load_u32 h src = Some c \<and> v = scast c)) \<or>
      (data_size f = 8 \<and> load_u64 h src = Some v)"
  using assms
  by (auto simp: read_signed_def rd_def enc_error_def on_stream_def oreturn_error_def
      split: if_splits option.splits)

lemma read_unsigned_Ok:
  assumes "read_unsigned f src (s, h) = Ok v st"
  shows "st = (s, h)"
    and "(data_size f = 1 \<and> (\<exists>a. load_u8 h src = Some a \<and> v = ucast a)) \<or>
      (data_size f = 2 \<and> (\<exists>b. load_u16 h src = Some b \<and> v = ucast b)) \<or>
      (data_size f = 4 \<and> (\<exists>c. load_u32 h src = Some c \<and> v = ucast c)) \<or>
      (data_size f = 8 \<and> load_u64 h src = Some v)"
  using assms
  by (auto simp: read_unsigned_def rd_def enc_error_def on_stream_def oreturn_error_def
      split: if_splits option.splits)

lemma signed_restores:
  assumes "read_signed f src (s0, h) = Ok v st" "mapped (cells h2) dst (unat (data_size f))"
  shows "\<exists>h3. store_signed f dst v (s, h2) = Ok () (s, h3) \<and>
    load h3 dst (unat (data_size f)) = load h src (unat (data_size f))"
  using read_signed_Ok(2) [OF assms(1)] unfolding store_signed_def
  by (elim disjE conjE exE)
     (use store_int_restores [OF assms(2)] down_up in \<open>blast | metis\<close>)+

lemma unsigned_restores:
  assumes "read_unsigned f src (s0, h) = Ok v st" "mapped (cells h2) dst (unat (data_size f))"
  shows "\<exists>h3. store_unsigned f dst v (s, h2) = Ok () (s, h3) \<and>
    load h3 dst (unat (data_size f)) = load h src (unat (data_size f))"
  using read_unsigned_Ok(2) [OF assms(1)] unfolding store_unsigned_def
  by (elim disjE conjE exE)
     (use store_int_restores [OF assms(2)] down_up in \<open>blast | metis\<close>)+

subsection \<open>The round trip of a scalar field\<close>

text \<open>The inversion rules of the three effects.\<close>

lemma on_stream_Ok: "on_stream op (s, h) = Ok u (t, h') \<longleftrightarrow> op s = Ok u t \<and> h' = h"
  by (cases "op s") (auto simp: on_stream_def)

lemma after_rd: "andthen (rd g (s, h)) k = Ok u st \<longleftrightarrow> (\<exists>v. g h = Some v \<and> k v (s, h) = Ok u st)"
  by (auto simp: rd_def split: option.splits)

lemma after_read:
  "andthen (read_signed f src (s, h)) k = Ok u st \<longleftrightarrow> (\<exists>v. read_signed f src (s, h) = Ok v (s, h) \<and> k v (s, h) = Ok u st)"
  "andthen (read_unsigned f src (s, h)) k = Ok u st \<longleftrightarrow> (\<exists>v. read_unsigned f src (s, h) = Ok v (s, h) \<and> k v (s, h) = Ok u st)"
  using read_signed_Ok(1) read_unsigned_Ok(1) unfolding andthen_eq_Ok by blast+

text \<open>The widths the descriptor macros give fixed-width fields.\<close>

definition width_ok :: "pb_field \<Rightarrow> bool" where
  "width_ok f \<longleftrightarrow> (PB_LTYPE (ftype f) = PB_LTYPE_FIXED32 \<longrightarrow> data_size f = 4) \<and>
     (PB_LTYPE (ftype f) = PB_LTYPE_FIXED64 \<longrightarrow> data_size f = 8)"

lemma pb_enc_varint_restores:
  assumes "ocallback s = Some Buf_write" "pb_enc_varint f src (s, h) = Ok u (t, h')"
    "mapped (cells h2) dst (unat (data_size f))"
  shows "h' = h \<and> (\<exists>bs. length bs \<le> 10 \<and> wrote s bs t \<and>
    restores pb_dec_varint f dst bs (load h src (unat (data_size f))) h2)"
proof -
  obtain v where v: "read_signed f src (s, h) = Ok v (s, h)" "pb_encode_varint s v = Ok u t" "h' = h"
    using assms(2) unfolding pb_enc_varint_def after_read on_stream_Ok by blast
  have same: "(if data_size f = 8 then v else scast (ucast v :: u32)) = v"
    using read_signed_Ok(2) [OF v(1)] through_32 by auto
  have "restores pb_dec_varint f dst (varint_bytes v) (load h src (unat (data_size f))) h2"
    unfolding restores_def
  proof (intro allI impI)
    fix s' assume "feed (varint_bytes v) s'"
    then have "pb_decode_varint s' = Ok v (advance (length (varint_bytes v)) s')"
      by (rule pb_decode_varint_bytes)
    then have "pb_dec_varint f dst (s', h2) = store_signed f dst v (advance (length (varint_bytes v)) s', h2)"
      by (simp add: pb_dec_varint_def on_stream_def same Let_def)
    then show "\<exists>h3. pb_dec_varint f dst (s', h2) = Ok () (advance (length (varint_bytes v)) s', h3) \<and>
        load h3 dst (unat (data_size f)) = load h src (unat (data_size f))"
      using signed_restores [OF v(1) assms(3)] by simp
  qed
  then show ?thesis using v(3) varint_Ok_wrote [OF assms(1) v(2)] length_varint_bytes_le_10 by blast
qed

lemma pb_enc_uvarint_restores:
  assumes "ocallback s = Some Buf_write" "pb_enc_uvarint f src (s, h) = Ok u (t, h')"
    "mapped (cells h2) dst (unat (data_size f))"
  shows "h' = h \<and> (\<exists>bs. length bs \<le> 10 \<and> wrote s bs t \<and>
    restores pb_dec_uvarint f dst bs (load h src (unat (data_size f))) h2)"
proof -
  obtain v where v: "read_unsigned f src (s, h) = Ok v (s, h)" "pb_encode_varint s v = Ok u t" "h' = h"
    using assms(2) unfolding pb_enc_uvarint_def after_read on_stream_Ok by blast
  have "restores pb_dec_uvarint f dst (varint_bytes v) (load h src (unat (data_size f))) h2"
    unfolding restores_def
  proof (intro allI impI)
    fix s' assume "feed (varint_bytes v) s'"
    then have "pb_decode_varint s' = Ok v (advance (length (varint_bytes v)) s')"
      by (rule pb_decode_varint_bytes)
    then have "pb_dec_uvarint f dst (s', h2) = store_unsigned f dst v (advance (length (varint_bytes v)) s', h2)"
      by (simp add: pb_dec_uvarint_def on_stream_def)
    then show "\<exists>h3. pb_dec_uvarint f dst (s', h2) = Ok () (advance (length (varint_bytes v)) s', h3) \<and>
        load h3 dst (unat (data_size f)) = load h src (unat (data_size f))"
      using unsigned_restores [OF v(1) assms(3)] by simp
  qed
  then show ?thesis using v(3) varint_Ok_wrote [OF assms(1) v(2)] length_varint_bytes_le_10 by blast
qed

lemma pb_enc_svarint_restores:
  assumes "ocallback s = Some Buf_write" "pb_enc_svarint f src (s, h) = Ok u (t, h')"
    "mapped (cells h2) dst (unat (data_size f))"
  shows "h' = h \<and> (\<exists>bs. length bs \<le> 10 \<and> wrote s bs t \<and>
    restores pb_dec_svarint f dst bs (load h src (unat (data_size f))) h2)"
proof -
  obtain v where v: "read_signed f src (s, h) = Ok v (s, h)" "pb_encode_svarint s v = Ok u t" "h' = h"
    using assms(2) unfolding pb_enc_svarint_def after_read on_stream_Ok by blast
  have "restores pb_dec_svarint f dst (svarint_bytes v) (load h src (unat (data_size f))) h2"
    unfolding restores_def
  proof (intro allI impI)
    fix s' assume "feed (svarint_bytes v) s'"
    from svarint.dec_enc [OF TrueI this]
    have "pb_decode_svarint s' = Ok v (advance (length (svarint_bytes v)) s')" .
    then have "pb_dec_svarint f dst (s', h2) = store_signed f dst v (advance (length (svarint_bytes v)) s', h2)"
      by (simp add: pb_dec_svarint_def on_stream_def)
    then show "\<exists>h3. pb_dec_svarint f dst (s', h2) = Ok () (advance (length (svarint_bytes v)) s', h3) \<and>
        load h3 dst (unat (data_size f)) = load h src (unat (data_size f))"
      using signed_restores [OF v(1) assms(3)] by simp
  qed
  moreover have "wrote s (svarint_bytes v) t"
    using v(2) varint_Ok_wrote [OF assms(1)] by (simp add: pb_encode_svarint_def svarint_bytes_def)
  moreover have "length (svarint_bytes v) \<le> 10" by (simp add: svarint_bytes_def length_varint_bytes_le_10)
  ultimately show ?thesis using v(3) by blast
qed

lemma pb_enc_fixed32_restores:
  assumes "ocallback s = Some Buf_write" "pb_enc_fixed32 f src (s, h) = Ok u (t, h')"
    "mapped (cells h2) dst (unat (data_size f))" "data_size f = 4"
  shows "h' = h \<and> (\<exists>bs. length bs \<le> 10 \<and> wrote s bs t \<and>
    restores pb_dec_fixed32 f dst bs (load h src (unat (data_size f))) h2)"
proof -
  obtain v where v: "load_u32 h src = Some v" "pb_encode_fixed32 s v = Ok u t" "h' = h"
    using assms(2) unfolding pb_enc_fixed32_def after_rd on_stream_Ok by blast
  obtain h3 where h3: "store_u32 h2 dst v = Some h3" using u32.st_total assms(3,4) by fastforce
  have "restores pb_dec_fixed32 f dst (fixed32_bytes v) (load h src (unat (data_size f))) h2"
    unfolding restores_def
  proof (intro allI impI)
    fix s' assume "feed (fixed32_bytes v) s'"
    from fixed32.dec_enc [OF TrueI this]
    have "pb_dec_fixed32 f dst (s', h2) = Ok () (advance (length (fixed32_bytes v)) s', h3)"
      by (simp add: pb_dec_fixed32_def on_stream_def wr_def h3)
    then show "\<exists>h3. pb_dec_fixed32 f dst (s', h2) = Ok () (advance (length (fixed32_bytes v)) s', h3) \<and>
        load h3 dst (unat (data_size f)) = load h src (unat (data_size f))"
      using same_bytes_32 [OF v(1) u32.st_ld [OF h3]] assms(4) by auto
  qed
  moreover have "length (fixed32_bytes v) \<le> 10" by simp
  ultimately show ?thesis using v(3) fixed_Ok_wrote(1) [OF assms(1) v(2)] by blast
qed

lemma pb_enc_fixed64_restores:
  assumes "ocallback s = Some Buf_write" "pb_enc_fixed64 f src (s, h) = Ok u (t, h')"
    "mapped (cells h2) dst (unat (data_size f))" "data_size f = 8"
  shows "h' = h \<and> (\<exists>bs. length bs \<le> 10 \<and> wrote s bs t \<and>
    restores pb_dec_fixed64 f dst bs (load h src (unat (data_size f))) h2)"
proof -
  obtain v where v: "load_u64 h src = Some v" "pb_encode_fixed64 s v = Ok u t" "h' = h"
    using assms(2) unfolding pb_enc_fixed64_def after_rd on_stream_Ok by blast
  obtain h3 where h3: "store_u64 h2 dst v = Some h3" using u64.st_total assms(3,4) by fastforce
  have "restores pb_dec_fixed64 f dst (fixed64_bytes v) (load h src (unat (data_size f))) h2"
    unfolding restores_def
  proof (intro allI impI)
    fix s' assume "feed (fixed64_bytes v) s'"
    from fixed64.dec_enc [OF TrueI this]
    have "pb_dec_fixed64 f dst (s', h2) = Ok () (advance (length (fixed64_bytes v)) s', h3)"
      by (simp add: pb_dec_fixed64_def on_stream_def wr_def h3)
    then show "\<exists>h3. pb_dec_fixed64 f dst (s', h2) = Ok () (advance (length (fixed64_bytes v)) s', h3) \<and>
        load h3 dst (unat (data_size f)) = load h src (unat (data_size f))"
      using same_bytes_64 [OF v(1) u64.st_ld [OF h3]] assms(4) by auto
  qed
  moreover have "length (fixed64_bytes v) \<le> 10" by simp
  ultimately show ?thesis using v(3) fixed_Ok_wrote(2) [OF assms(1) v(2)] by blast
qed

lemma packable_cases:
  "lt \<le> PB_LTYPE_LAST_PACKABLE \<Longrightarrow> lt = PB_LTYPE_VARINT \<or> lt = PB_LTYPE_UVARINT \<or>
   lt = PB_LTYPE_SVARINT \<or> lt = PB_LTYPE_FIXED32 \<or> lt = PB_LTYPE_FIXED64"
proof -
  assume "lt \<le> PB_LTYPE_LAST_PACKABLE"
  then have "unat lt \<le> 4" by (simp add: word_le_nat_alt pb_consts)
  then have "unat lt = 0 \<or> unat lt = 1 \<or> unat lt = 2 \<or> unat lt = 3 \<or> unat lt = 4" by arith
  then show ?thesis by (auto simp: pb_consts word_unat_eq_iff)
qed

lemma scalar_field_restores:
  assumes "PB_LTYPE (ftype f) \<le> PB_LTYPE_LAST_PACKABLE" "width_ok f"
    and "PB_ENCODERS env rec (PB_LTYPE (ftype f)) = Some enc"
    and "PB_DECODERS n env' noinit (PB_LTYPE (ftype f)) = Some dec"
    and "ocallback s = Some Buf_write" "enc f src (s, h) = Ok u (t, h')"
    and "mapped (cells h2) dst (unat (data_size f))"
  shows "h' = h \<and> (\<exists>bs. length bs \<le> 10 \<and> wrote s bs t \<and>
    restores dec f dst bs (load h src (unat (data_size f))) h2)"
  using packable_cases [OF assms(1)]
proof (elim disjE)
  assume lt: "PB_LTYPE (ftype f) = PB_LTYPE_VARINT"
  then have "enc = pb_enc_varint" "dec = pb_dec_varint" using assms(3,4)
    by (simp_all add: PB_ENCODERS_def PB_DECODERS_def)
  then show ?thesis using pb_enc_varint_restores assms(5-7) by blast
next
  assume lt: "PB_LTYPE (ftype f) = PB_LTYPE_UVARINT"
  then have "enc = pb_enc_uvarint" "dec = pb_dec_uvarint" using assms(3,4)
    by (simp_all add: PB_ENCODERS_def PB_DECODERS_def pb_consts)
  then show ?thesis using pb_enc_uvarint_restores assms(5-7) by blast
next
  assume lt: "PB_LTYPE (ftype f) = PB_LTYPE_SVARINT"
  then have "enc = pb_enc_svarint" "dec = pb_dec_svarint" using assms(3,4)
    by (simp_all add: PB_ENCODERS_def PB_DECODERS_def pb_consts)
  then show ?thesis using pb_enc_svarint_restores assms(5-7) by blast
next
  assume lt: "PB_LTYPE (ftype f) = PB_LTYPE_FIXED32"
  then have "enc = pb_enc_fixed32" "dec = pb_dec_fixed32" "data_size f = 4" using assms(2-4)
    by (simp_all add: PB_ENCODERS_def PB_DECODERS_def pb_consts width_ok_def)
  then show ?thesis using pb_enc_fixed32_restores assms(5-7) by blast
next
  assume lt: "PB_LTYPE (ftype f) = PB_LTYPE_FIXED64"
  then have "enc = pb_enc_fixed64" "dec = pb_dec_fixed64" "data_size f = 8" using assms(2-4)
    by (simp_all add: PB_ENCODERS_def PB_DECODERS_def pb_consts width_ok_def)
  then show ?thesis using pb_enc_fixed64_restores assms(5-7) by blast
qed

end
