(* ===== verification/Pb_Roundtrip.thy ===== *)
theory Pb_Roundtrip
  imports Pb_Fields Pb_Layout
begin

unbundle bit_operations_syntax

section \<open>Decoding gives back the encoded message\<close>

text \<open>
  The round trip of whole messages, for the message types whose fields are static and required or
  optional: integers, fixed-width numbers, strings, bytes and submessages of such types, to any
  depth. \<open>plain\<close> is the condition on the descriptors, \<open>msg_same\<close> says when two structs hold the same
  message.
\<close>

subsection \<open>Message types\<close>

definition element_plain :: "(pb_field list \<Rightarrow> nat \<Rightarrow> bool) \<Rightarrow> env \<Rightarrow> pb_field \<Rightarrow> bool" where
  "element_plain sub env f \<longleftrightarrow>
     (let lt = PB_LTYPE (ftype f); n = unat (data_size f) in
      (lt \<le> PB_LTYPE_LAST_PACKABLE \<and> width_ok f) \<or> lt = PB_LTYPE_STRING \<or> (lt = PB_LTYPE_BYTES \<and> 4 \<le> n) \<or>
      lt = PB_LTYPE_FIXED_LENGTH_BYTES \<or>
      (lt = PB_LTYPE_SUBMESSAGE \<and> (case ptr f of Ptr_fields k \<Rightarrow> sub (msgs env k) n | _ \<Rightarrow> False)))"

text \<open>\<open>d\<close> and \<open>s\<close> are the offsets of the data and of the has-flag.\<close>

definition field_plain :: "(pb_field list \<Rightarrow> nat \<Rightarrow> bool) \<Rightarrow> env \<Rightarrow> nat \<Rightarrow> pb_field \<Rightarrow> addr \<Rightarrow> addr \<Rightarrow> bool" where
  "field_plain sub env sz f d s \<longleftrightarrow> tag f < 2 ^ 29 \<and> PB_ATYPE (ftype f) = PB_ATYPE_STATIC \<and>
     element_plain sub env f \<and> default_ok f \<and> within 0 sz d (unat (data_size f)) \<and>
     (PB_HTYPE (ftype f) = PB_HTYPE_REQUIRED \<or>
      (PB_HTYPE (ftype f) = PB_HTYPE_OPTIONAL \<and> size_offset f \<noteq> 0 \<and> within 0 sz s 1))"

text \<open>The parts of the struct that belong to a field, as offsets and lengths.\<close>

definition slots :: "pb_field list \<Rightarrow> nat \<Rightarrow> (addr \<times> nat) list" where
  "slots fs i = (data_off fs i, unat (data_size (fs ! i))) #
     (if PB_HTYPE (ftype (fs ! i)) = PB_HTYPE_OPTIONAL then [(size_off fs i, 1)] else [])"

fun apart :: "addr \<times> nat \<Rightarrow> addr \<times> nat \<Rightarrow> bool" where
  "apart (a, n) (b, m) \<longleftrightarrow> unat a + n \<le> unat b \<or> unat b + m \<le> unat a"

definition slots_apart :: "pb_field list \<Rightarrow> bool" where
  "slots_apart fs \<longleftrightarrow> (\<forall>i \<in> set [0..<length fs].
     (PB_HTYPE (ftype (fs ! i)) = PB_HTYPE_OPTIONAL \<longrightarrow>
        apart (data_off fs i, unat (data_size (fs ! i))) (size_off fs i, 1)) \<and>
     (\<forall>j \<in> set [0..<i]. \<forall>x \<in> set (slots fs i). \<forall>y \<in> set (slots fs j). apart x y))"

primrec plain :: "nat \<Rightarrow> env \<Rightarrow> pb_field list \<Rightarrow> nat \<Rightarrow> bool" where
  "plain 0 env fs sz = False"
| "plain (Suc n) env fs sz \<longleftrightarrow> fs \<noteq> [] \<and> wf_fields fs \<and> distinct_tags fs \<and> required_ok fs \<and>
     sz \<le> 2 ^ 64 \<and> slots_apart fs \<and>
     (\<forall>i \<in> set [0..<length fs]. field_plain (plain n env) env sz (fs ! i) (data_off fs i) (size_off fs i))"

lemma element_plain_fits:
  "element_plain sub env f \<Longrightarrow> (\<And>k m. sub (msgs env k) m \<Longrightarrow> sub' (msgs env k) m) \<Longrightarrow>
   element_fits sub' env f \<and> PB_LTYPE (ftype f) \<noteq> PB_LTYPE_EXTENSION"
  using packable_cases [of "PB_LTYPE (ftype f)"]
  by (auto simp: element_plain_def element_fits_def Let_def width_ok_def pb_consts split: fptr.splits)

lemma plain_msg_fits: "plain n env fs sz \<Longrightarrow> msg_fits n env fs sz"
proof (induction n arbitrary: fs sz)
  case (Suc n)
  have "field_fits (msg_fits n env) env sz f d s" if "field_plain (plain n env) env sz f d s" for f d s
    using that element_plain_fits [of "plain n env" env f "msg_fits n env"] Suc.IH
    by (auto simp: field_plain_def field_fits_def static_fits_def pb_consts)
  with Suc.prems show ?case by simp
qed simp

subsection \<open>When two structs hold the same message\<close>

definition c_string :: "heap \<Rightarrow> addr \<Rightarrow> nat \<Rightarrow> byte list option" where
  "c_string h a n = map_option (takeWhile (\<lambda>c. c \<noteq> 0)) (load h a n)"

definition element_same ::
  "(pb_field list \<Rightarrow> heap \<Rightarrow> addr \<Rightarrow> heap \<Rightarrow> addr \<Rightarrow> bool) \<Rightarrow> env \<Rightarrow> pb_field \<Rightarrow> heap \<Rightarrow> addr \<Rightarrow> heap \<Rightarrow> addr \<Rightarrow> bool"
where
  "element_same sub env f h a h' a' \<longleftrightarrow>
     (let lt = PB_LTYPE (ftype f); n = unat (data_size f) in
      if lt = PB_LTYPE_SUBMESSAGE
      then (case ptr f of Ptr_fields k \<Rightarrow> sub (msgs env k) h a h' a' | _ \<Rightarrow> False)
      else if lt = PB_LTYPE_STRING then c_string h' a' n = c_string h a n \<and> c_string h a n \<noteq> None
      else if lt = PB_LTYPE_BYTES
      then (\<exists>k. load_u32 h a = Some k \<and> load_u32 h' a' = Some k \<and> unat k + 4 \<le> n \<and>
              load h' (a' + 4) (unat k) = load h (a + 4) (unat k))
      else load h' a' n = load h a n)"

text \<open>A has-flag that is false makes the data of its field irrelevant.\<close>

definition field_same ::
  "(pb_field list \<Rightarrow> heap \<Rightarrow> addr \<Rightarrow> heap \<Rightarrow> addr \<Rightarrow> bool) \<Rightarrow> env \<Rightarrow> pb_field \<Rightarrow>
   heap \<Rightarrow> addr \<Rightarrow> addr \<Rightarrow> heap \<Rightarrow> addr \<Rightarrow> addr \<Rightarrow> bool" where
  "field_same sub env f h d s h' d' s' \<longleftrightarrow>
     (if PB_HTYPE (ftype f) = PB_HTYPE_OPTIONAL
      then load_bool h' s' = load_bool h s \<and>
        (load_bool h s = Some True \<longrightarrow> element_same sub env f h d h' d')
      else element_same sub env f h d h' d')"

primrec msg_same :: "nat \<Rightarrow> env \<Rightarrow> pb_field list \<Rightarrow> heap \<Rightarrow> addr \<Rightarrow> heap \<Rightarrow> addr \<Rightarrow> bool" where
  "msg_same 0 env fs h b h' b' = False"
| "msg_same (Suc n) env fs h b h' b' \<longleftrightarrow>
     (\<forall>i \<in> set [0..<length fs]. field_same (msg_same n env) env (fs ! i)
        h (b + data_off fs i) (b + size_off fs i) h' (b' + data_off fs i) (b' + size_off fs i))"

text \<open>What setting a struct to its defaults establishes: every has-flag is false, at every depth.\<close>

definition field_cleared ::
  "(pb_field list \<Rightarrow> heap \<Rightarrow> addr \<Rightarrow> bool) \<Rightarrow> env \<Rightarrow> pb_field \<Rightarrow> heap \<Rightarrow> addr \<Rightarrow> addr \<Rightarrow> bool" where
  "field_cleared sub env f h d s \<longleftrightarrow>
     (PB_HTYPE (ftype f) = PB_HTYPE_OPTIONAL \<longrightarrow> load_bool h s = Some False) \<and>
     (PB_LTYPE (ftype f) = PB_LTYPE_SUBMESSAGE \<longrightarrow>
        (case ptr f of Ptr_fields k \<Rightarrow> sub (msgs env k) h d | _ \<Rightarrow> False))"

primrec cleared :: "nat \<Rightarrow> env \<Rightarrow> pb_field list \<Rightarrow> heap \<Rightarrow> addr \<Rightarrow> bool" where
  "cleared 0 env fs h b = False"
| "cleared (Suc n) env fs h b \<longleftrightarrow>
     (\<forall>i \<in> set [0..<length fs]. field_cleared (cleared n env) env (fs ! i) h (b + data_off fs i) (b + size_off fs i))"

text \<open>What encoding needs of the source: the strings that are present end within their fields.\<close>

definition field_ends ::
  "(pb_field list \<Rightarrow> heap \<Rightarrow> addr \<Rightarrow> bool) \<Rightarrow> env \<Rightarrow> pb_field \<Rightarrow> heap \<Rightarrow> addr \<Rightarrow> addr \<Rightarrow> bool" where
  "field_ends sub env f h d s \<longleftrightarrow>
     (PB_HTYPE (ftype f) = PB_HTYPE_OPTIONAL \<longrightarrow> load_bool h s = Some True) \<longrightarrow>
     (PB_LTYPE (ftype f) = PB_LTYPE_STRING \<longrightarrow>
        (case load h d (unat (data_size f)) of Some bs \<Rightarrow> 0 \<in> set bs | None \<Rightarrow> False)) \<and>
     (PB_LTYPE (ftype f) = PB_LTYPE_SUBMESSAGE \<longrightarrow>
        (case ptr f of Ptr_fields k \<Rightarrow> sub (msgs env k) h d | _ \<Rightarrow> False))"

primrec strings_end :: "nat \<Rightarrow> env \<Rightarrow> pb_field list \<Rightarrow> heap \<Rightarrow> addr \<Rightarrow> bool" where
  "strings_end 0 env fs h b = False"
| "strings_end (Suc n) env fs h b \<longleftrightarrow>
     (\<forall>i \<in> set [0..<length fs]. field_ends (strings_end n env) env (fs ! i) h (b + data_off fs i) (b + size_off fs i))"

subsection \<open>These relations only look at the struct\<close>

definition agree_on :: "addr \<Rightarrow> nat \<Rightarrow> heap \<Rightarrow> heap \<Rightarrow> bool" where
  "agree_on b sz h h' \<longleftrightarrow> (\<forall>x. in_region b sz x \<longrightarrow> cells h' x = cells h x)"

lemma agree_within: "agree_on b sz h h' \<Longrightarrow> within b sz a n \<Longrightarrow> sz \<le> 2 ^ 64 \<Longrightarrow> agree_on a n h h'"
  unfolding agree_on_def using within_region by blast

lemma load_agree:
  assumes "agree_on a n h h'" "n \<le> 2 ^ 64"
  shows "load h' a n = load h a n"
proof -
  have "cells h' (a + of_nat i) = cells h (a + of_nat i)" if "i < n" for i
  proof -
    have "unat (of_nat i :: addr) = i" using that assms(2) by (intro unat_of_nat_id) simp
    with that assms(1) show ?thesis by (simp add: agree_on_def in_region_def)
  qed
  then have "load h' a n = Some vs \<longleftrightarrow> load h a n = Some vs" for vs
    by (auto simp: load_def load_bytes_eq_Some)
  then show ?thesis by (metis not_None_eq)
qed

lemma load_agree_within:
  assumes "agree_on b sz h h'" "within b sz a n" "sz \<le> 2 ^ 64"
  shows "load h' a n = load h a n"
proof (rule load_agree [OF agree_within [OF assms]])
  show "n \<le> 2 ^ 64" using assms(2,3) by (simp add: within_def)
qed

lemma load_bool_agree:
  "agree_on b sz h h' \<Longrightarrow> within b sz a 1 \<Longrightarrow> sz \<le> 2 ^ 64 \<Longrightarrow> load_bool h' a = load_bool h a"
  using load_agree_within [of b sz h h' a 1] by (simp add: load_bool_def load_u8_def load_word_def)

lemma load_u32_agree:
  "agree_on b sz h h' \<Longrightarrow> within b sz a 4 \<Longrightarrow> sz \<le> 2 ^ 64 \<Longrightarrow> load_u32 h' a = load_u32 h a"
  using load_agree_within [of b sz h h' a 4] by (simp add: load_u32_def load_word_def)

lemma within_front: "m + k \<le> n \<Longrightarrow> n \<le> 2 ^ 32 \<Longrightarrow> within a n (a + of_nat m) k"
proof -
  assume "m + k \<le> n" "n \<le> 2 ^ 32"
  then have "unat (of_nat m :: addr) = m" by (intro unat_of_nat_id) simp
  then show ?thesis using \<open>m + k \<le> n\<close> by (simp add: within_def)
qed

lemma data_size_bound: "unat (data_size f) \<le> 2 ^ 32"
  using unsigned_less [of "data_size f", where ?'a = nat] by simp

lemma element_same_agree:
  assumes "element_same sub env f h a h' a'" "agree_on a' (unat (data_size f)) h' h''"
    and "\<And>k. PB_LTYPE (ftype f) = PB_LTYPE_SUBMESSAGE \<Longrightarrow> ptr f = Ptr_fields k \<Longrightarrow>
      sub (msgs env k) h a h' a' \<Longrightarrow> sub (msgs env k) h a h'' a'"
  shows "element_same sub env f h a h'' a'"
proof -
  have eq: "load h'' a' (unat (data_size f)) = load h' a' (unat (data_size f))"
    using load_agree [OF assms(2)] data_size_bound [of f] by simp
  have b: "load_u32 h'' a' = load_u32 h' a'" "load h'' (a' + 4) (unat k) = load h' (a' + 4) (unat k)"
    if "unat k + 4 \<le> unat (data_size f)" for k :: u32
  proof -
    show "load_u32 h'' a' = load_u32 h' a'"
      by (rule load_u32_agree [OF assms(2)]) (use that data_size_bound [of f] in \<open>simp_all add: within_def\<close>)
    show "load h'' (a' + 4) (unat k) = load h' (a' + 4) (unat k)"
    proof (rule load_agree_within [OF assms(2)])
      show "within a' (unat (data_size f)) (a' + 4) (unat k)"
        using within_front [of 4 "unat k" "unat (data_size f)" a'] that data_size_bound [of f] by simp
    qed (use data_size_bound [of f] in simp)
  qed
  show ?thesis
    using assms(1,3) eq b
    by (auto simp: element_same_def Let_def c_string_def split: if_splits fptr.splits)
qed

lemma plain_field:
  assumes "plain (Suc n) env fs sz" "i < length fs"
  shows "field_plain (plain n env) env sz (fs ! i) (data_off fs i) (size_off fs i)" "sz \<le> 2 ^ 64"
    "within b sz (b + data_off fs i) (unat (data_size (fs ! i)))"
    "PB_HTYPE (ftype (fs ! i)) = PB_HTYPE_OPTIONAL \<Longrightarrow> within b sz (b + size_off fs i) 1"
    "PB_LTYPE (ftype (fs ! i)) = PB_LTYPE_SUBMESSAGE \<Longrightarrow> ptr (fs ! i) = Ptr_fields k \<Longrightarrow>
      plain n env (msgs env k) (unat (data_size (fs ! i)))"
proof -
  show f: "field_plain (plain n env) env sz (fs ! i) (data_off fs i) (size_off fs i)" and "sz \<le> 2 ^ 64"
    using assms by simp_all
  then show "within b sz (b + data_off fs i) (unat (data_size (fs ! i)))"
    by (simp add: field_plain_def within_shift)
  show "within b sz (b + size_off fs i) 1" if "PB_HTYPE (ftype (fs ! i)) = PB_HTYPE_OPTIONAL"
    using f that by (simp add: field_plain_def within_shift pb_consts)
  show "plain n env (msgs env k) (unat (data_size (fs ! i)))"
    if "PB_LTYPE (ftype (fs ! i)) = PB_LTYPE_SUBMESSAGE" "ptr (fs ! i) = Ptr_fields k"
    using f that by (simp add: field_plain_def element_plain_def Let_def pb_consts)
qed

lemma msg_same_agree:
  "plain n env fs sz \<Longrightarrow> msg_same n env fs h b h' b' \<Longrightarrow> agree_on b' sz h' h'' \<Longrightarrow> msg_same n env fs h b h'' b'"
proof (induction n arbitrary: fs sz b b')
  case (Suc n)
  show ?case
    unfolding msg_same.simps
  proof
    fix i assume "i \<in> set [0..<length fs]"
    then have i: "i < length fs" by simp
    let ?f = "fs ! i" and ?d = "b' + data_off fs i" and ?s = "b' + size_off fs i"
    note p = plain_field [OF Suc.prems(1) i]
    have d: "agree_on ?d (unat (data_size ?f)) h' h''" by (rule agree_within [OF Suc.prems(3) p(3,2)])
    have el: "element_same (msg_same n env) env ?f h a h'' ?d"
      if "element_same (msg_same n env) env ?f h a h' ?d" for a
      by (rule element_same_agree [OF that d]) (rule Suc.IH [OF p(5) _ d])
    have "field_same (msg_same n env) env ?f h (b + data_off fs i) (b + size_off fs i) h' ?d ?s"
      using Suc.prems(2) i by simp
    with el p(4) [of b'] load_bool_agree [OF Suc.prems(3) _ p(2), of ?s]
    show "field_same (msg_same n env) env ?f h (b + data_off fs i) (b + size_off fs i) h'' ?d ?s"
      by (auto simp: field_same_def)
  qed
qed simp

lemma cleared_agree: "plain n env fs sz \<Longrightarrow> cleared n env fs h b \<Longrightarrow> agree_on b sz h h' \<Longrightarrow> cleared n env fs h' b"
proof (induction n arbitrary: fs sz b)
  case (Suc n)
  show ?case
    unfolding cleared.simps
  proof
    fix i assume "i \<in> set [0..<length fs]"
    then have i: "i < length fs" by simp
    note p = plain_field [OF Suc.prems(1) i]
    have "field_cleared (cleared n env) env (fs ! i) h (b + data_off fs i) (b + size_off fs i)"
      using Suc.prems(2) i by simp
    with load_bool_agree [OF Suc.prems(3) _ p(2)] p(4) [of b]
      Suc.IH [OF p(5) _ agree_within [OF Suc.prems(3) p(3,2)]]
    show "field_cleared (cleared n env) env (fs ! i) h' (b + data_off fs i) (b + size_off fs i)"
      by (auto simp: field_cleared_def split: fptr.splits)
  qed
qed simp

subsection \<open>Fields do not overlap\<close>

lemma apart_regions:
  assumes "apart (a, n) (c, m)" "within 0 sz a n" "within 0 sz c m" "sz \<le> 2 ^ 64" "in_region (b + a) n x"
  shows "\<not> in_region (b + c) m x"
proof
  assume "in_region (b + c) m x"
  have off: "unat (x - b) = unat (x - (b + d)) + unat d" if "in_region (b + d) k x" "within 0 sz d k" for d k
  proof -
    have "unat (x - (b + d)) + unat d < 2 ^ 64" using that assms(4) by (simp add: in_region_def within_def)
    then have "unat ((x - (b + d)) + d) = unat (x - (b + d)) + unat d" by (intro unat_plus_if_no_wrap) simp
    then show ?thesis by (simp add: algebra_simps)
  qed
  from off [OF \<open>in_region (b + c) m x\<close> assms(3)] off [OF assms(5,2)] assms(1,5) \<open>in_region (b + c) m x\<close>
  show False by (auto simp: in_region_def)
qed

lemma agree_apart:
  "changes_only (b + a) n h h' \<Longrightarrow> apart (a, n) (c, m) \<Longrightarrow> within 0 sz a n \<Longrightarrow> within 0 sz c m \<Longrightarrow> sz \<le> 2 ^ 64 \<Longrightarrow>
   agree_on (b + c) m h h'"
  unfolding agree_on_def changes_only_def using apart_regions by blast

lemma apart_sym: "apart x y = apart y x"
  by (cases x; cases y) auto

lemma slots_apart_fields:
  assumes "slots_apart fs" "i < length fs" "j < length fs" "i \<noteq> j" "x \<in> set (slots fs i)" "y \<in> set (slots fs j)"
  shows "apart x y"
proof (cases "j < i")
  case True
  then show ?thesis using assms by (simp add: slots_apart_def)
next
  case False
  then have "i < j" using assms(4) by simp
  then have "apart y x" using assms by (simp add: slots_apart_def)
  then show ?thesis by (simp add: apart_sym)
qed

lemma slots_within:
  assumes "plain (Suc n) env fs sz" "i < length fs" "(a, k) \<in> set (slots fs i)"
  shows "within 0 sz a k"
  using plain_field(3,4) [OF assms(1,2), of 0] assms(3) by (auto simp: slots_def split: if_splits)

text \<open>Changing one slot of a field leaves every other field as it was.\<close>

lemma other_field_kept:
  assumes p: "plain (Suc n) env fs sz" and ij: "i < length fs" "j < length fs" "i \<noteq> j"
    and c: "changes_only (b + a) k h' h''" "(a, k) \<in> set (slots fs i)"
  shows "agree_on (b + data_off fs j) (unat (data_size (fs ! j))) h' h''"
    "PB_HTYPE (ftype (fs ! j)) = PB_HTYPE_OPTIONAL \<Longrightarrow> agree_on (b + size_off fs j) 1 h' h''"
proof -
  have ap: "slots_apart fs" and sz: "sz \<le> 2 ^ 64" using p by simp_all
  have *: "agree_on (b + d) m h' h''" if "(d, m) \<in> set (slots fs j)" for d m
    by (rule agree_apart [OF c(1) slots_apart_fields [OF ap ij c(2) that] slots_within [OF p ij(1) c(2)]
          slots_within [OF p ij(2) that] sz])
  show "agree_on (b + data_off fs j) (unat (data_size (fs ! j))) h' h''" by (rule *) (simp add: slots_def)
  show "PB_HTYPE (ftype (fs ! j)) = PB_HTYPE_OPTIONAL \<Longrightarrow> agree_on (b + size_off fs j) 1 h' h''"
    by (rule *) (simp add: slots_def)
qed

subsection \<open>Parts of a block of memory\<close>

lemma load_part:
  assumes "load h a n = Some bs" "k + m \<le> n"
  shows "load h (a + of_nat k) m = Some (take m (drop k bs))"
  using assms by (auto simp: load_def load_bytes_eq_Some algebra_simps simp flip: of_nat_add)

lemma load_prefix: "load h a n = Some bs \<Longrightarrow> m \<le> n \<Longrightarrow> load h a m = Some (take m bs)"
  using load_part [of h a n bs 0 m] by simp

lemma load_u8_part:
  assumes "load h a n = Some bs" "k < n"
  shows "load_u8 h (a + of_nat k) = Some (bs ! k)"
proof -
  have "length bs = n" using length_load [OF assms(1)] .
  then have "take 1 (drop k bs) = [bs ! k]" using assms(2) by (simp add: take_Suc_conv_app_nth take_Suc hd_drop_conv_nth)
  then show ?thesis using load_part [OF assms(1), of k 1] assms(2)
    by (simp add: load_u8_def load_word_def)
qed

lemma load_defined: "mapped (cells h) a n \<Longrightarrow> \<exists>bs. load h a n = Some bs \<and> length bs = n"
  using load_bytes_None [of "cells h" a n] length_load [of h a n] by (auto simp: load_def)

lemma mapped_not_null: "mapped (cells h) a n \<Longrightarrow> cells h 0 = None \<Longrightarrow> 0 < n \<Longrightarrow> a \<noteq> 0"
  by (auto simp: mapped_def dest: spec [of _ 0])

subsection \<open>Length-delimited data\<close>

lemma pb_write_Ok:
  assumes "ocallback s = Some Buf_write" "pb_write s buf n = Ok u t"
  shows "unat n \<le> length buf \<and> wrote s (take (unat n) buf) t"
  using assms
  by (auto simp: pb_write_def call_ocallback_def buf_write_def wrote_def stored_def oreturn_error_def min_def
      split: if_splits)

lemma put_string_Ok:
  assumes "ocallback s = Some Buf_write" "put_string p n (s, h) = Ok u (t, h')"
  shows "h' = h \<and> (\<exists>bs. load h p (unat n) = Some bs \<and> wrote s (string_bytes bs) t)"
proof -
  obtain s1 where w: "pb_encode_varint s n = Ok () s1" "pb_write s1 (peek h p (unat n)) n = Ok u t" "h' = h"
    using assms(2) by (auto simp: put_string_def pb_encode_string_def on_stream_Ok andthen_eq_Ok)
  have w1: "wrote s (varint_bytes n) s1" by (rule varint_Ok_wrote [OF assms(1) w(1)])
  then have "ocallback s1 = Some Buf_write" using assms(1) wrote_fields by simp
  from pb_write_Ok [OF this w(2)]
  have w2: "unat n \<le> length (peek h p (unat n))" "wrote s1 (take (unat n) (peek h p (unat n))) t" by simp_all
  have "\<exists>bs. load h p (unat n) = Some bs \<and> peek h p (unat n) = bs \<and> length bs = unat n"
  proof (cases "load h p (unat n)")
    case None
    then have "unat n = 0" using w2(1) by (simp add: peek_def)
    then show ?thesis using None by (simp add: load_def)
  next
    case (Some bs)
    then show ?thesis using length_load [OF Some] by (simp add: peek_def)
  qed
  then obtain bs where bs: "load h p (unat n) = Some bs" "peek h p (unat n) = bs" "length bs = unat n" by blast
  then have "of_nat (length bs) = n" by simp
  with wrote_append [OF w1, of bs t] w2(2) bs have "wrote s (string_bytes bs) t"
    by (simp add: string_bytes_def)
  with bs w(3) show ?thesis by blast
qed

lemma string_size_value:
  "load h p (unat m - unat k) = Some bs \<Longrightarrow> k \<le> m \<Longrightarrow>
   string_size h p m k = Some (k + of_nat (length (takeWhile (\<lambda>c. c \<noteq> 0) bs)))"
proof (induction h p m k arbitrary: bs rule: string_size.induct)
  case (1 h p m k)
  show ?case
  proof (cases "k < m")
    case True
    then obtain n where n: "unat m - unat k = Suc n" "unat (k + 1) = Suc (unat k)"
      using unat_succ [OF True] by (metis Suc_diff_Suc word_less_nat_alt)
    then obtain b bs' where bs: "bs = b # bs'" using "1.prems"(1) length_load by (cases bs) fastforce+
    have u8: "load_u8 h p = Some b"
      using load_u8_part [OF "1.prems"(1), of 0] n bs by simp
    have tail: "load h (p + 1) (unat m - unat (k + 1)) = Some bs'"
      using load_part [OF "1.prems"(1), of 1 n] n bs length_load [OF "1.prems"(1)]
      by (simp add: Suc_diff_Suc [symmetric]) (metis diff_Suc_1 diff_Suc_eq_diff_pred diff_commute)
    have le: "k + 1 \<le> m" using True n(2) by (simp add: word_le_nat_alt word_less_nat_alt)
    show ?thesis
    proof (cases "b = 0")
      case False
      from "1.IH" [OF True u8 False tail le] show ?thesis
        using True u8 False bs by (simp add: string_size.simps [of h p m k] algebra_simps)
    qed (use True u8 bs in \<open>simp add: string_size.simps [of h p m k]\<close>)
  next
    case False
    then have "bs = []" using "1.prems" length_load [OF "1.prems"(1)] by simp
    with False show ?thesis by (simp add: string_size.simps [of h p m k])
  qed
qed

lemma read_to_stores:
  assumes "feed bs s" "mapped (cells h) p (length bs)" "p = 0 \<Longrightarrow> bs = []"
  shows "\<exists>h3. read_to p (of_nat (length bs)) (s, h) = Ok () (advance (length bs) s, h3) \<and>
    load h3 p (length bs) = Some bs \<and> changes_only p (length bs) h h3"
proof -
  have r: "pb_read s (p = 0) (of_nat (length bs)) = Ok bs (advance (length bs) s)"
    by (rule feed_pb_read [OF assms(1) refl])
  show ?thesis
  proof (cases "p = 0")
    case True
    then show ?thesis using r assms(3) by (simp add: read_to_def on_stream_def load_def)
  next
    case False
    have len: "length bs \<le> 2 ^ 64" using assms(1) unsigned_less [of "bytes_left s", where ?'a = nat] by (simp add: feed_def)
    let ?h3 = "h\<lparr>cells := map_block (cells h) p bs\<rparr>"
    have st: "store h p bs = Some ?h3" using store_Some_iff [OF len] assms(2) by blast
    moreover have "load ?h3 p (length bs) = Some bs" using load_map_block [OF len] by (simp add: load_def)
    moreover have "changes_only p (length bs) h ?h3" using store_changes [OF len assms(2)] st by auto
    ultimately show ?thesis using r False by (simp add: read_to_def on_stream_def wr_def)
  qed
qed

lemma decode_length:
  assumes "feed (string_bytes bs) s" "length bs < 2 ^ 32"
  shows "\<exists>s1. pb_decode_varint32 s = Ok (of_nat (length bs)) s1 \<and> feed bs s1 \<and>
    advance (length bs) s1 = advance (length (string_bytes bs)) s"
proof -
  let ?v = "of_nat (length bs) :: u64"
  have f: "feed (varint_bytes ?v) s" "feed bs (advance (length (varint_bytes ?v)) s)"
    using assms(1) by (simp_all add: string_bytes_def feed_append)
  have "unat ?v = length bs" by (rule unat_of_nat_id) (use assms(2) in simp)
  then have "pb_decode_varint32 s = Ok (ucast ?v) (advance (length (varint_bytes ?v)) s)"
    using pb_decode_varint32_bytes [OF f(1)] assms(2) by simp
  moreover have "(ucast ?v :: u32) = of_nat (length bs)" by (rule bit_word_eqI) (auto simp: bit_simps)
  ultimately show ?thesis using f(2) by (simp add: string_bytes_def)
qed

subsection \<open>One value\<close>

text \<open>
  \<open>delivers\<close>: given the bytes \<open>bs\<close>, the decoder consumes exactly them and establishes \<open>post\<close>.
  \<open>transports\<close>: whatever the encoder writes, the decoder delivers the same value to any place that is
  ready for it (\<open>receives\<close>).
\<close>

definition delivers :: "decoder \<Rightarrow> pb_field \<Rightarrow> addr \<Rightarrow> byte list \<Rightarrow> (heap \<Rightarrow> bool) \<Rightarrow> (heap \<Rightarrow> bool) \<Rightarrow> bool" where
  "delivers dec f dst bs pre post \<longleftrightarrow> (\<forall>s h2. feed bs s \<longrightarrow> pre h2 \<longrightarrow>
     (\<exists>h3. dec f dst (s, h2) = Ok () (advance (length bs) s, h3) \<and> post h3))"

definition receives :: "(pb_field list \<Rightarrow> heap \<Rightarrow> addr \<Rightarrow> bool) \<Rightarrow> env \<Rightarrow> pb_field \<Rightarrow> addr \<Rightarrow> heap \<Rightarrow> bool" where
  "receives sub env f dst h2 \<longleftrightarrow> cells h2 0 = None \<and> mapped (cells h2) dst (unat (data_size f)) \<and>
     (PB_LTYPE (ftype f) = PB_LTYPE_SUBMESSAGE \<longrightarrow>
        (case ptr f of Ptr_fields k \<Rightarrow> sub (msgs env k) h2 dst | _ \<Rightarrow> False))"

definition buffered :: "ostream \<Rightarrow> bool" where
  "buffered s \<longleftrightarrow> ocallback s = Some Buf_write \<and> room s < 2 ^ 32 \<and> oerrmsg s = None"

lemma wrote_buffered: "buffered s \<Longrightarrow> wrote s bs t \<Longrightarrow> buffered t"
  using wrote_fields [of s bs t] by (simp add: buffered_def less_imp_diff_less)

lemma wrote_short: "buffered s \<Longrightarrow> wrote s bs t \<Longrightarrow> length bs < 2 ^ 32"
  using wrote_fields [of s bs t] by (simp add: buffered_def)

lemma wrote_unique: "wrote s bs t \<Longrightarrow> wrote s bs' t \<Longrightarrow> bs = bs'"
proof -
  assume "wrote s bs t" "wrote s bs' t"
  then have "ostate (stored bs s) = ostate (stored bs' s)" by (simp add: wrote_def)
  then show ?thesis by simp
qed

definition transports ::
  "encoder \<Rightarrow> decoder \<Rightarrow> (pb_field list \<Rightarrow> heap \<Rightarrow> addr \<Rightarrow> bool) \<Rightarrow>
   (pb_field list \<Rightarrow> heap \<Rightarrow> addr \<Rightarrow> heap \<Rightarrow> addr \<Rightarrow> bool) \<Rightarrow> env \<Rightarrow> pb_field \<Rightarrow> heap \<Rightarrow> addr \<Rightarrow> bool" where
  "transports enc dec pre same env f h src \<longleftrightarrow>
     (\<forall>s u t h'. buffered s \<longrightarrow> enc f src (s, h) = Ok u (t, h') \<longrightarrow> h' = h \<and>
        (\<exists>bs. wrote s bs t \<and> (\<forall>dst. delivers dec f dst bs (receives pre env f dst)
           (\<lambda>h3. element_same same env f h src h3 dst))))"

lemma scalar_transports:
  assumes lt: "PB_LTYPE (ftype f) \<le> PB_LTYPE_LAST_PACKABLE" "width_ok f"
    and enc: "PB_ENCODERS env rec (PB_LTYPE (ftype f)) = Some enc"
    and dec: "PB_DECODERS n env noinit (PB_LTYPE (ftype f)) = Some dec"
    and src: "mapped (cells h) src (unat (data_size f))"
  shows "transports enc dec pre same env f h src"
  unfolding transports_def
proof (intro allI impI)
  fix s u t h' assume b: "buffered s" and e: "enc f src (s, h) = Ok u (t, h')"
  have R: "h' = h \<and> (\<exists>bs. length bs \<le> 10 \<and> wrote s bs t \<and> restores dec f dst bs (load h src (unat (data_size f))) h2)"
    if "mapped (cells h2) dst (unat (data_size f))" for h2 dst
    by (rule scalar_field_restores [OF lt enc dec _ e that]) (use b in \<open>simp add: buffered_def\<close>)
  from R [OF src] obtain bs where bs: "wrote s bs t" and h': "h' = h" by blast
  have "restores dec f dst bs (load h src (unat (data_size f))) h2"
    if "mapped (cells h2) dst (unat (data_size f))" for h2 dst
    using R [OF that] wrote_unique [OF bs] by blast
  moreover have "element_same same env f h src h3 dst"
    if "load h3 dst (unat (data_size f)) = load h src (unat (data_size f))" for h3 dst
    using that packable_cases [OF lt(1)] by (auto simp: element_same_def pb_consts)
  ultimately have "delivers dec f dst bs (receives pre env f dst) (\<lambda>h3. element_same same env f h src h3 dst)" for dst
    unfolding delivers_def receives_def restores_def by blast
  with bs h' show "h' = h \<and> (\<exists>bs. wrote s bs t \<and> (\<forall>dst. delivers dec f dst bs (receives pre env f dst)
      (\<lambda>h3. element_same same env f h src h3 dst)))" by blast
qed

lemma feed_string_short: "buffered s \<Longrightarrow> wrote s (string_bytes bs) t \<Longrightarrow> length bs < 2 ^ 32"
  using wrote_short [of s "string_bytes bs" t] by (simp add: string_bytes_def)

lemma fixed_length_bytes_transports:
  assumes lt: "PB_LTYPE (ftype f) = PB_LTYPE_FIXED_LENGTH_BYTES"
  shows "transports pb_enc_fixed_length_bytes pb_dec_fixed_length_bytes pre same env f h src"
  unfolding transports_def
proof (intro allI impI)
  fix s u t h' assume b: "buffered s" and e: "pb_enc_fixed_length_bytes f src (s, h) = Ok u (t, h')"
  let ?n = "unat (data_size f)"
  obtain bs where bs: "load h src ?n = Some bs" "wrote s (string_bytes bs) t" and h': "h' = h"
    using put_string_Ok [of s src "ucast (data_size f)" h u t h'] e b
    by (auto simp: pb_enc_fixed_length_bytes_def buffered_def)
  have len: "length bs = ?n" using length_load [OF bs(1)] .
  then have sz: "of_nat (length bs) = data_size f" by simp
  have "delivers pb_dec_fixed_length_bytes f dst (string_bytes bs) (receives pre env f dst)
      (\<lambda>h3. element_same same env f h src h3 dst)" for dst
    unfolding delivers_def
  proof (intro allI impI)
    fix s2 h2 assume fd: "feed (string_bytes bs) s2" and r: "receives pre env f dst h2"
    obtain s1 where s1: "pb_decode_varint32 s2 = Ok (of_nat (length bs)) s1" "feed bs s1"
      "advance (length bs) s1 = advance (length (string_bytes bs)) s2"
      using decode_length [OF fd feed_string_short [OF b bs(2)]] by blast
    have m: "mapped (cells h2) dst (length bs)" using r len by (simp add: receives_def)
    have z: "dst = 0 \<Longrightarrow> bs = []"
      using mapped_not_null [OF m] r by (auto simp: receives_def)
    obtain h3 where h3: "read_to dst (of_nat (length bs)) (s1, h2) = Ok () (advance (length bs) s1, h3)"
      "load h3 dst (length bs) = Some bs"
      using read_to_stores [OF s1(2) m z] by blast
    have small: "\<not> PB_SIZE_MAX < data_size f" by (simp add: PB_SIZE_MAX_def)
    have "pb_dec_fixed_length_bytes f dst (s2, h2) = Ok () (advance (length (string_bytes bs)) s2,
        if bs = [] then h2 else h3)"
    proof (cases "data_size f = 0")
      case True
      then have "bs = []" using len by simp
      then show ?thesis
        using s1 True by (simp add: pb_dec_fixed_length_bytes_def on_stream_def wr_def memset_zero_def store_def PB_SIZE_MAX_def)
    next
      case False
      then have "bs \<noteq> []" using len by (auto simp: word_unat_eq_iff)
      then show ?thesis using s1 sz h3(1) False small len
        by (simp add: pb_dec_fixed_length_bytes_def on_stream_def)
    qed
    moreover have "load (if bs = [] then h2 else h3) dst ?n = Some bs"
      using h3(2) len by (auto simp: load_def)
    ultimately show "\<exists>h3. pb_dec_fixed_length_bytes f dst (s2, h2) = Ok () (advance (length (string_bytes bs)) s2, h3) \<and>
        element_same same env f h src h3 dst"
      using bs(1) lt by (auto simp: element_same_def pb_consts)
  qed
  with bs h' show "h' = h \<and> (\<exists>bs. wrote s bs t \<and> (\<forall>dst. delivers pb_dec_fixed_length_bytes f dst bs
      (receives pre env f dst) (\<lambda>h3. element_same same env f h src h3 dst)))" by blast
qed

lemma static_target:
  "PB_ATYPE (ftype f) = PB_ATYPE_STATIC \<Longrightarrow> unat a \<le> unat (data_size f) \<Longrightarrow>
   string_target env f dst a msg st = Ok dst st"
proof -
  assume A: "PB_ATYPE (ftype f) = PB_ATYPE_STATIC" and a: "unat a \<le> unat (data_size f)"
  have "\<not> ucast (data_size f) < a" using a by (simp add: word_less_nat_alt unat_ucast_64)
  then show ?thesis using A by (simp add: string_target_def pb_consts)
qed

lemma takeWhile_shorter: "x \<in> set xs \<Longrightarrow> \<not> P x \<Longrightarrow> length (takeWhile P xs) < length xs"
  by (induction xs) auto

lemma takeWhile_nonzero: "0 \<notin> set (takeWhile (\<lambda>c. c \<noteq> 0) bs)"
  by (auto dest: set_takeWhileD)

lemma string_encoded:
  assumes A: "PB_ATYPE (ftype f) = PB_ATYPE_STATIC" and null: "cells h 0 = None"
    and ends: "load h src (unat (data_size f)) = Some full" "0 \<in> set full"
    and b: "buffered s" and e: "pb_enc_string f src (s, h) = Ok u (t, h')"
  shows "h' = h \<and> wrote s (string_bytes (takeWhile (\<lambda>c. c \<noteq> 0) full)) t \<and>
    length (takeWhile (\<lambda>c. c \<noteq> 0) full) < unat (data_size f)"
proof -
  let ?n = "unat (data_size f)" and ?bs = "takeWhile (\<lambda>c. c \<noteq> 0) full"
  have "length ?bs < length full" using takeWhile_shorter [OF ends(2)] by simp
  then have short: "length ?bs < ?n" using length_load [OF ends(1)] by simp
  have m: "mapped (cells h) src ?n" using ends(1) load_bytes_None [of "cells h" src ?n] by (auto simp: load_def)
  have src: "src \<noteq> 0" using mapped_not_null [OF m null] short by simp
  have "string_size h src (ucast (data_size f)) 0 = Some (0 + of_nat (length ?bs))"
    by (rule string_size_value) (use ends(1) in \<open>simp_all add: unat_ucast_64\<close>)
  then have put: "put_string src (of_nat (length ?bs)) (s, h) = Ok u (t, h')"
    using e src A by (simp add: pb_enc_string_def rd_def pb_consts)
  have ub: "unat (of_nat (length ?bs) :: u64) = length ?bs"
    by (rule unat_of_nat_id) (use short data_size_bound [of f] in simp)
  have "load h src (length ?bs) = Some ?bs"
    using load_prefix [OF ends(1), of "length ?bs"] short by (simp add: takeWhile_eq_take [symmetric])
  then show ?thesis
    using put_string_Ok [OF _ put] b ub short by (auto simp: buffered_def)
qed

text \<open>Reading the bytes of a string and putting the terminator after them.\<close>

lemma string_stored:
  assumes f: "feed bs s" and m: "mapped (cells h) dst n" and short: "length bs < n" "n \<le> 2 ^ 32"
    and nz: "dst \<noteq> 0" "0 \<notin> set bs"
  shows "\<exists>h3 h4. read_to dst (of_nat (length bs)) (s, h) = Ok () (advance (length bs) s, h3) \<and>
    store_u8 h3 (dst + of_nat (length bs)) 0 = Some h4 \<and> c_string h4 dst n = Some bs"
proof -
  have "mapped (cells h) dst (length bs)" using m short by (simp add: mapped_def)
  then obtain h3 where h3: "read_to dst (of_nat (length bs)) (s, h) = Ok () (advance (length bs) s, h3)"
    "load h3 dst (length bs) = Some bs" "changes_only dst (length bs) h h3"
    using read_to_stores [OF f] nz by blast
  have m3: "mapped (cells h3) dst n" using h3(3) m by (simp add: changes_only_def)
  then have "mapped (cells h3) (dst + of_nat (length bs)) 1" using short by (auto simp: mapped_def)
  then obtain h4 where h4: "store_u8 h3 (dst + of_nat (length bs)) 0 = Some h4" using u8.st_total by blast
  have "load h4 dst (length bs) = load h3 dst (length bs)"
  proof (rule u8.st_other [OF h4], intro allI impI)
    fix i assume i: "i < length bs"
    then have "unat (of_nat i :: addr) = i" "unat (of_nat (length bs) :: addr) = length bs"
      using short by (simp_all add: unat_of_nat_id)
    then have "(of_nat i :: addr) \<noteq> of_nat (length bs)" using i by (auto dest: arg_cong [of _ _ unat])
    then show "\<not> in_region (dst + of_nat (length bs)) 1 (dst + of_nat i)" by (simp add: in_region_def unat_gt_0)
  qed
  then have l4: "load h4 dst (length bs) = Some bs" using h3(2) by simp
  obtain out where out: "load h4 dst n = Some out" "length out = n"
    using load_defined [of h4 dst n] u8.st_mapped [OF h4] m3 by auto
  have "take (length bs) out = bs" using load_prefix [OF out(1), of "length bs"] l4 short by simp
  moreover have "out ! length bs = 0" using load_u8_part [OF out(1) short(1)] u8.st_ld [OF h4] by simp
  ultimately have "out = bs @ 0 # drop (Suc (length bs)) out"
    using short(1) out(2) by (metis id_take_nth_drop)
  then obtain rest where r: "out = bs @ 0 # rest" by blast
  have "takeWhile (\<lambda>c. c \<noteq> 0) out = bs" unfolding r using nz(2) by (subst takeWhile_append2) auto
  with h3(1) h4 out(1) show ?thesis by (auto simp: c_string_def)
qed

lemma string_decoded:
  assumes A: "PB_ATYPE (ftype f) = PB_ATYPE_STATIC"
    and fd: "feed (string_bytes bs) s" and m: "mapped (cells h) dst (unat (data_size f))"
    and short: "length bs < unat (data_size f)" and nz: "cells h 0 = None" "0 \<notin> set bs"
  shows "\<exists>h4. pb_dec_string env f dst (s, h) = Ok () (advance (length (string_bytes bs)) s, h4) \<and>
    c_string h4 dst (unat (data_size f)) = Some bs"
proof -
  have b32: "length bs < 2 ^ 32" "Suc (length bs) < 2 ^ 32"
    using short unsigned_less [of "data_size f", where ?'a = nat] by simp_all
  obtain s1 where s1: "pb_decode_varint32 s = Ok (of_nat (length bs)) s1" "feed bs s1"
    "advance (length bs) s1 = advance (length (string_bytes bs)) s"
    using decode_length [OF fd b32(1)] by blast
  have dst: "dst \<noteq> 0" using mapped_not_null [OF m nz(1)] short by simp
  obtain h3 h4 where h: "read_to dst (of_nat (length bs)) (s1, h) = Ok () (advance (length bs) s1, h3)"
    "store_u8 h3 (dst + of_nat (length bs)) 0 = Some h4" "c_string h4 dst (unat (data_size f)) = Some bs"
    using string_stored [OF s1(2) m short data_size_bound dst nz(2)] by blast
  have szu: "(ucast (of_nat (length bs) :: u32) :: u64) = of_nat (length bs)"
    by (rule ucast_of_nat_32 [OF b32(1)])
  have alloc: "unat (ucast (of_nat (length bs) + 1 :: u32) :: u64) = Suc (length bs)"
  proof -
    have "of_nat (length bs) + 1 = (of_nat (Suc (length bs)) :: u32)" by simp
    moreover have "unat (of_nat (Suc (length bs)) :: u32) = Suc (length bs)"
      by (rule unat_of_nat_id) (use b32 in simp)
    ultimately show ?thesis by (simp only: unat_ucast_64)
  qed
  have ub: "unat (of_nat (length bs) :: u64) = length bs" by (rule unat_of_nat_id) (use b32 in simp)
  have "\<not> ucast (of_nat (length bs) + 1 :: u32) < (ucast (of_nat (length bs) :: u32) :: u64)"
    unfolding szu word_less_nat_alt alloc ub by simp
  moreover have "string_target env f dst (ucast (of_nat (length bs) + 1 :: u32)) msg st = Ok dst st" for msg st
    by (rule static_target [OF A]) (use alloc short in simp)
  ultimately show ?thesis
    using s1 h by (simp add: pb_dec_string_def on_stream_def Let_def szu wr_def)
qed

lemma string_transports:
  assumes lt: "PB_LTYPE (ftype f) = PB_LTYPE_STRING" and A: "PB_ATYPE (ftype f) = PB_ATYPE_STATIC"
    and null: "cells h 0 = None"
    and ends: "load h src (unat (data_size f)) = Some full" "0 \<in> set full"
  shows "transports pb_enc_string (pb_dec_string env) pre same env f h src"
  unfolding transports_def
proof (intro allI impI)
  fix s u t h' assume b: "buffered s" and e: "pb_enc_string f src (s, h) = Ok u (t, h')"
  let ?bs = "takeWhile (\<lambda>c. c \<noteq> 0) full"
  have w: "h' = h" "wrote s (string_bytes ?bs) t" "length ?bs < unat (data_size f)"
    using string_encoded [OF A null ends b e] by blast+
  have "delivers (pb_dec_string env) f dst (string_bytes ?bs) (receives pre env f dst)
      (\<lambda>h3. element_same same env f h src h3 dst)" for dst
    unfolding delivers_def
  proof (intro allI impI)
    fix s2 h2 assume fd: "feed (string_bytes ?bs) s2" and r: "receives pre env f dst h2"
    obtain h4 where "pb_dec_string env f dst (s2, h2) = Ok () (advance (length (string_bytes ?bs)) s2, h4)"
      "c_string h4 dst (unat (data_size f)) = Some ?bs"
      using string_decoded [OF A fd _ w(3) _ takeWhile_nonzero] r unfolding receives_def by blast
    then show "\<exists>h3. pb_dec_string env f dst (s2, h2) = Ok () (advance (length (string_bytes ?bs)) s2, h3) \<and>
        element_same same env f h src h3 dst"
      using ends(1) lt by (auto simp: element_same_def c_string_def pb_consts)
  qed
  with w show "h' = h \<and> (\<exists>bs. wrote s bs t \<and> (\<forall>dst. delivers (pb_dec_string env) f dst bs
      (receives pre env f dst) (\<lambda>h3. element_same same env f h src h3 dst)))" by blast
qed

lemma alloc_word: "unat (PB_BYTES_ARRAY_T_ALLOCSIZE (ucast (k :: u32))) = unat k + 4"
proof -
  have "unat (ucast k :: u64) = unat k" by (rule unat_ucast_64)
  moreover have "unat k < 2 ^ 32" using unsigned_less [of k, where ?'a = nat] by simp
  ultimately show ?thesis unfolding PB_BYTES_ARRAY_T_ALLOCSIZE_def by (subst unat_plus_if_no_wrap) simp_all
qed

lemma bytes_encoded:
  assumes A: "PB_ATYPE (ftype f) = PB_ATYPE_STATIC" and null: "cells h 0 = None"
    and m: "mapped (cells h) src (unat (data_size f))" "4 \<le> unat (data_size f)"
    and b: "buffered s" and e: "pb_enc_bytes f src (s, h) = Ok u (t, h')"
  shows "h' = h \<and> (\<exists>k bs. load_u32 h src = Some k \<and> unat k + 4 \<le> unat (data_size f) \<and>
    load h (src + 4) (unat k) = Some bs \<and> wrote s (string_bytes bs) t)"
proof -
  have "src \<noteq> 0" using mapped_not_null [OF m(1) null] m(2) by simp
  then have e': "andthen (rd (\<lambda>h. load_u32 h src) (s, h)) (\<lambda>sz st'.
      if ucast (data_size f) < PB_BYTES_ARRAY_T_ALLOCSIZE (ucast sz) then enc_error ''bytes size exceeded'' st'
      else put_string (src + bytes_offset) (ucast sz) st') = Ok u (t, h')"
    using e A by (simp add: pb_enc_bytes_def)
  then obtain k where k: "load_u32 h src = Some k"
    and put: "\<not> ucast (data_size f) < PB_BYTES_ARRAY_T_ALLOCSIZE (ucast k)"
      "put_string (src + bytes_offset) (ucast k) (s, h) = Ok u (t, h')"
    unfolding after_rd by (auto simp: enc_error_def on_stream_Ok oreturn_error_def split: if_splits)
  have "unat k + 4 \<le> unat (data_size f)"
    using put(1) unfolding word_less_nat_alt alloc_word unat_ucast_64 by simp
  moreover obtain bs where "h' = h" "load h (src + 4) (unat k) = Some bs" "wrote s (string_bytes bs) t"
    using put_string_Ok [OF _ put(2)] b by (auto simp: buffered_def bytes_offset_def unat_ucast_64)
  ultimately show ?thesis using k by blast
qed

lemma still_null: "(\<And>b n. mapped (cells h') b n = mapped (cells h) b n) \<Longrightarrow> cells h 0 = None \<Longrightarrow> cells h' 0 = None"
proof -
  have one: "mapped c 0 1 \<longleftrightarrow> c 0 \<noteq> None" for c by (auto simp: mapped_def less_Suc_eq)
  assume "\<And>b n. mapped (cells h') b n = mapped (cells h) b n" "cells h 0 = None"
  then show ?thesis using one by blast
qed

lemma bytes_decoded:
  assumes A: "PB_ATYPE (ftype f) = PB_ATYPE_STATIC"
    and fd: "feed (string_bytes bs) s" and len: "length bs = unat (k :: u32)"
    and m: "mapped (cells h) dst (unat (data_size f))" and fits: "unat k + 4 \<le> unat (data_size f)"
    and null: "cells h 0 = None"
  shows "\<exists>h4. pb_dec_bytes env f dst (s, h) = Ok () (advance (length (string_bytes bs)) s, h4) \<and>
    load_u32 h4 dst = Some k \<and> load h4 (dst + 4) (unat k) = Some bs"
proof -
  have b32: "length bs < 2 ^ 32" using len unsigned_less [of k, where ?'a = nat] by simp
  have k: "of_nat (length bs) = k" by (simp add: len)
  obtain s1 where s1: "pb_decode_varint32 s = Ok k s1" "feed bs s1"
    "advance (length bs) s1 = advance (length (string_bytes bs)) s"
    using decode_length [OF fd b32] by (auto simp: k)
  have "mapped (cells h) dst 4" using m fits by (simp add: mapped_def)
  then obtain h3 where h3: "store_u32 h dst k = Some h3" using u32.st_total by blast
  have bound: "unat (data_size f) \<le> 2 ^ 32" by (rule data_size_bound)
  have w: "within dst (unat (data_size f)) (dst + 4) (unat k)"
    using within_front [of 4 "unat k" "unat (data_size f)" dst] fits bound by simp
  have "mapped (cells h3) dst (unat (data_size f))" using u32.st_mapped [OF h3] m by simp
  then have m3: "mapped (cells h3) (dst + 4) (length bs)"
    using mapped_within [OF _ w] bound len by simp
  have "cells h3 0 = None" by (rule still_null [OF u32.st_mapped [OF h3] null])
  then have z: "dst + 4 = 0 \<Longrightarrow> bs = []" using mapped_not_null [OF m3] by auto
  obtain h4 where h4: "read_to (dst + 4) (of_nat (length bs)) (s1, h3) = Ok () (advance (length bs) s1, h4)"
    "load h4 (dst + 4) (length bs) = Some bs" "changes_only (dst + 4) (length bs) h3 h4"
    using read_to_stores [OF s1(2) m3 z] by blast
  have "agree_on (dst + 0) 4 h3 h4"
    by (rule agree_apart [where a = 4 and n = "length bs" and sz = "unat (data_size f)"])
       (use h4(3) fits bound len in \<open>simp_all add: within_def\<close>)
  then have "load_u32 h4 dst = Some k"
    using load_u32_agree [of dst 4 h3 h4 dst] u32.st_ld [OF h3] by simp
  moreover have "\<not> PB_SIZE_MAX < k" by (simp add: PB_SIZE_MAX_def)
  moreover have "\<not> PB_BYTES_ARRAY_T_ALLOCSIZE (ucast k) < ucast k"
    unfolding word_less_nat_alt alloc_word unat_ucast_64 by simp
  moreover have "string_target env f dst (PB_BYTES_ARRAY_T_ALLOCSIZE (ucast k)) msg st = Ok dst st" for msg st
    by (rule static_target [OF A]) (use fits in \<open>simp add: alloc_word\<close>)
  moreover have "(of_nat (length bs) :: u64) = ucast k" using len by (simp add: word_unat_eq_iff unat_ucast_64)
  then have "read_to (dst + 4) (ucast k) (s1, h3) = Ok () (advance (length bs) s1, h4)" using h4(1) by simp
  moreover have "load h4 (dst + 4) (unat k) = Some bs" using h4(2) unfolding len .
  ultimately show ?thesis
    using s1(1,3) h3 unfolding pb_dec_bytes_def by (simp add: on_stream_def Let_def wr_def bytes_offset_def)
qed

lemma bytes_transports:
  assumes lt: "PB_LTYPE (ftype f) = PB_LTYPE_BYTES" and A: "PB_ATYPE (ftype f) = PB_ATYPE_STATIC"
    and null: "cells h 0 = None" and m: "mapped (cells h) src (unat (data_size f))" "4 \<le> unat (data_size f)"
  shows "transports pb_enc_bytes (pb_dec_bytes env) pre same env' f h src"
  unfolding transports_def
proof (intro allI impI)
  fix s u t h' assume b: "buffered s" and e: "pb_enc_bytes f src (s, h) = Ok u (t, h')"
  from bytes_encoded [OF A null m b e] obtain k bs where k: "load_u32 h src = Some k"
    "unat k + 4 \<le> unat (data_size f)" "load h (src + 4) (unat k) = Some bs" "wrote s (string_bytes bs) t" "h' = h"
    by blast
  have "delivers (pb_dec_bytes env) f dst (string_bytes bs) (receives pre env' f dst)
      (\<lambda>h3. element_same same env' f h src h3 dst)" for dst
    unfolding delivers_def
  proof (intro allI impI)
    fix s2 h2 assume fd: "feed (string_bytes bs) s2" and r: "receives pre env' f dst h2"
    obtain h4 where "pb_dec_bytes env f dst (s2, h2) = Ok () (advance (length (string_bytes bs)) s2, h4)"
      "load_u32 h4 dst = Some k" "load h4 (dst + 4) (unat k) = Some bs"
      using bytes_decoded [OF A fd length_load [OF k(3)] _ k(2)] r unfolding receives_def by blast
    then show "\<exists>h3. pb_dec_bytes env f dst (s2, h2) = Ok () (advance (length (string_bytes bs)) s2, h3) \<and>
        element_same same env' f h src h3 dst"
      using k lt by (auto simp: element_same_def pb_consts)
  qed
  with k show "h' = h \<and> (\<exists>bs. wrote s bs t \<and> (\<forall>dst. delivers (pb_dec_bytes env) f dst bs
      (receives pre env' f dst) (\<lambda>h3. element_same same env' f h src h3 dst)))" by blast
qed

subsection \<open>Submessages\<close>

text \<open>Encoding only reads memory: shown for what counts, an encoder that returns true.\<close>

definition keeps_heap :: "(est \<Rightarrow> (unit, est) outcome) \<Rightarrow> heap \<Rightarrow> bool" where
  "keeps_heap op h \<longleftrightarrow> (\<forall>s u t h'. op (s, h) = Ok u (t, h') \<longrightarrow> h' = h)"

definition msg_transports :: "nat \<Rightarrow> env \<Rightarrow> pb_field list \<Rightarrow> nat \<Rightarrow> heap \<Rightarrow> addr \<Rightarrow> bool" where
  "msg_transports n env fs sz h src \<longleftrightarrow>
     (\<forall>s u t h'. buffered s \<longrightarrow> pb_encode n env fs src (s, h) = Ok u (t, h') \<longrightarrow>
        (\<exists>bs. wrote s bs t \<and> (\<forall>dst s2 h2. feed bs s2 \<longrightarrow> unat (bytes_left s2) = length bs \<longrightarrow>
           cells h2 0 = None \<longrightarrow> mapped (cells h2) dst sz \<longrightarrow> cleared n env fs h2 dst \<longrightarrow>
           (\<exists>h3. pb_decode_noinit n env fs dst (s2, h2) = Ok () (advance (length bs) s2, h3) \<and>
              msg_same n env fs h src h3 dst))))"

lemma submessage_encoded:
  assumes b: "buffered s" and e: "pb_encode_submessage rec fs src (s, h) = Ok u (t, h')"
    and keep: "keeps_heap (rec fs src) h"
    and rec: "\<And>s u t h'. buffered s \<Longrightarrow> rec fs src (s, h) = Ok u (t, h') \<Longrightarrow> \<exists>bs. wrote s bs t \<and> P bs"
  shows "h' = h \<and> (\<exists>bs. wrote s (string_bytes bs) t \<and> P bs)"
proof -
  obtain sub h1 s1 where sub: "rec fs src (PB_OSTREAM_SIZING, h) = Ok () (sub, h1)"
    and s1: "pb_encode_varint s (bytes_written sub) = Ok () s1"
    and body1: "submessage_body rec fs src sub (s1, h1) = Ok u (t, h')"
    using e by (auto simp: pb_encode_submessage_def on_stream_Ok andthen_eq_Ok split: outcome.splits)
  have body: "submessage_body rec fs src sub (s1, h) = Ok u (t, h')"
    using body1 sub keep by (auto simp: keeps_heap_def)
  have w1: "wrote s (varint_bytes (bytes_written sub)) s1"
    by (rule varint_Ok_wrote [OF _ s1]) (use b in \<open>simp add: buffered_def\<close>)
  have b1: "buffered s1" by (rule wrote_buffered [OF b w1])
  define sub2 where "sub2 = sub\<lparr>ocallback := ocallback s1, ostate := ostate s1, room := room s1,
      max_size := bytes_written sub, bytes_written := 0, oerrmsg := None\<rparr>"
  obtain t2 h2 where t2: "rec fs src (sub2, h) = Ok () (t2, h2)" "bytes_written t2 = bytes_written sub"
    and t: "t = s1\<lparr>bytes_written := bytes_written s1 + bytes_written t2, ostate := ostate t2, room := room t2,
      oerrmsg := oerrmsg t2\<rparr>" "h' = h2"
    using body b1 unfolding submessage_body_def Let_def fst_conv snd_conv sub2_def [symmetric]
    by (auto simp: buffered_def enc_error_def on_stream_Ok oreturn_error_def split: if_splits outcome.splits)
  have b2: "buffered sub2" using b1 by (simp add: buffered_def sub2_def)
  from rec [OF b2 t2(1)] obtain bs where bs: "wrote sub2 bs t2" "P bs" by blast
  have "h2 = h" using keep t2(1) by (auto simp: keeps_heap_def)
  have len: "bytes_written sub = of_nat (length bs)"
    using wrote_fields [OF bs(1)] t2(2) by (simp add: sub2_def)
  have "wrote s1 bs t"
    using bs(1) b1 t(1) by (auto simp: wrote_def stored_def sub2_def buffered_def)
  with w1 have "wrote s (string_bytes bs) t"
    unfolding string_bytes_def len by (rule wrote_append)
  with bs(2) t(2) \<open>h2 = h\<close> show ?thesis by blast
qed

lemma submessage_decoded:
  assumes f: "feed (string_bytes bs) s" "length bs < 2 ^ 32"
    and p: "ptr f = Ptr_fields k" "PB_HTYPE (ftype f) \<noteq> PB_HTYPE_REPEATED"
    and dec: "\<And>s2. feed bs s2 \<Longrightarrow> unat (bytes_left s2) = length bs \<Longrightarrow>
      \<exists>h3. noinit (msgs env k) dst (s2, h) = Ok () (advance (length bs) s2, h3) \<and> P h3"
  shows "\<exists>h3. pb_dec_submessage n env noinit f dst (s, h) = Ok () (advance (length (string_bytes bs)) s, h3) \<and> P h3"
proof -
  obtain s1 where s1: "pb_decode_varint32 s = Ok (of_nat (length bs)) s1" "feed bs s1"
    "advance (length bs) s1 = advance (length (string_bytes bs)) s"
    using decode_length [OF f] by blast
  have szu: "(ucast (of_nat (length bs) :: u32) :: u64) = of_nat (length bs)" by (rule ucast_of_nat_32 [OF f(2)])
  have ub: "unat (of_nat (length bs) :: u64) = length bs" by (rule unat_of_nat_id) (use f(2) in simp)
  let ?sub = "s1\<lparr>bytes_left := of_nat (length bs)\<rparr>" and ?p = "s1\<lparr>bytes_left := bytes_left s1 - of_nat (length bs)\<rparr>"
  have "\<not> bytes_left s1 < of_nat (length bs)" using s1(2) by (simp add: word_less_nat_alt ub feed_def)
  then have open': "pb_make_string_substream s = Ok ?sub ?p"
    using s1(1) by (simp add: pb_make_string_substream_def szu)
  have "feed bs ?sub" using s1(2) ub by (simp add: feed_def)
  from dec [OF this] ub obtain h3 where h3: "noinit (msgs env k) dst (?sub, h) = Ok () (advance (length bs) ?sub, h3)" "P h3"
    by auto
  have "pb_close_string_substream ?p (advance (length bs) ?sub) = Ok () (advance (length bs) s1)"
    by (simp add: pb_close_string_substream_def advance_def)
  then have "pb_dec_submessage n env noinit f dst (s, h) = Ok () (advance (length bs) s1, h3)"
    using open' p h3(1) by (simp add: pb_dec_submessage_def on_stream_def in_substream_def close_sub_def)
  with s1(3) h3(2) show ?thesis by auto
qed

lemma submessage_transports:
  assumes lt: "PB_LTYPE (ftype f) = PB_LTYPE_SUBMESSAGE" "ptr f = Ptr_fields k" "PB_HTYPE (ftype f) \<noteq> PB_HTYPE_REPEATED"
    and sub: "msg_transports n env (msgs env k) (unat (data_size f)) h src" "keeps_heap (pb_encode n env (msgs env k) src) h"
  shows "transports (pb_enc_submessage env (pb_encode n env)) (pb_dec_submessage n env (pb_decode_noinit n env))
    (cleared n env) (msg_same n env) env f h src"
  unfolding transports_def
proof (intro allI impI)
  fix s u t h' assume b: "buffered s" and e: "pb_enc_submessage env (pb_encode n env) f src (s, h) = Ok u (t, h')"
  let ?fs = "msgs env k"
  let ?P = "\<lambda>bs. \<forall>dst s2 h2. feed bs s2 \<longrightarrow> unat (bytes_left s2) = length bs \<longrightarrow>
      cells h2 0 = None \<longrightarrow> mapped (cells h2) dst (unat (data_size f)) \<longrightarrow> cleared n env ?fs h2 dst \<longrightarrow>
      (\<exists>h3. pb_decode_noinit n env ?fs dst (s2, h2) = Ok () (advance (length bs) s2, h3) \<and>
         msg_same n env ?fs h src h3 dst)"
  have e': "pb_encode_submessage (pb_encode n env) ?fs src (s, h) = Ok u (t, h')"
    using e lt(2) by (simp add: pb_enc_submessage_def)
  have "h' = h \<and> (\<exists>bs. wrote s (string_bytes bs) t \<and> ?P bs)"
    by (rule submessage_encoded [OF b e' sub(2)]) (use sub(1) in \<open>unfold msg_transports_def, blast\<close>)
  then obtain bs where bs: "wrote s (string_bytes bs) t" "?P bs" and h': "h' = h" by blast
  have "delivers (pb_dec_submessage n env (pb_decode_noinit n env)) f dst (string_bytes bs)
      (receives (cleared n env) env f dst) (\<lambda>h3. element_same (msg_same n env) env f h src h3 dst)" for dst
    unfolding delivers_def
  proof (intro allI impI)
    fix s2 h2 assume fd: "feed (string_bytes bs) s2" and r: "receives (cleared n env) env f dst h2"
    have "\<exists>h3. pb_dec_submessage n env (pb_decode_noinit n env) f dst (s2, h2) =
        Ok () (advance (length (string_bytes bs)) s2, h3) \<and> msg_same n env ?fs h src h3 dst"
      by (rule submessage_decoded [OF fd feed_string_short [OF b bs(1)] lt(2,3)])
         (use bs(2) r lt in \<open>auto simp: receives_def\<close>)
    then show "\<exists>h3. pb_dec_submessage n env (pb_decode_noinit n env) f dst (s2, h2) =
        Ok () (advance (length (string_bytes bs)) s2, h3) \<and> element_same (msg_same n env) env f h src h3 dst"
      using lt by (simp add: element_same_def)
  qed
  with bs(1) h' show "h' = h \<and> (\<exists>bs. wrote s bs t \<and>
      (\<forall>dst. delivers (pb_dec_submessage n env (pb_decode_noinit n env)) f dst bs
        (receives (cleared n env) env f dst) (\<lambda>h3. element_same (msg_same n env) env f h src h3 dst)))"
    by blast
qed

subsection \<open>One field\<close>

lemma size_off_offset:
  assumes "wf_fields fs" "i < length fs" "PB_HTYPE (ftype (fs ! i)) \<noteq> PB_HTYPE_ONEOF"
  shows "size_off fs i = offset_addr (data_off fs i) (size_offset (fs ! i))"
proof (cases i)
  case 0
  then show ?thesis using assms(2)
    by (simp add: size_off_def data_off_def iter_at.simps pb_field_iter_begin_def Let_def field_at_def)
next
  case (Suc j)
  then have j: "j < length fs" using assms(2) by simp
  have t: "tag (field_at fs j) \<noteq> 0" "tag (field_at fs (Suc j)) \<noteq> 0"
    using assms(1,2) Suc j field_at_tag by blast+
  show ?thesis
    unfolding Suc size_off_def data_off_def
    using iter_at_fields [OF assms(1) j, of 0] t assms(2,3) Suc
    by (simp add: iter_at.simps pb_field_iter_next_def Let_def cur_def field_at_def)
qed

lemma encoder_keeps:
  assumes enc: "PB_ENCODERS env rec (PB_LTYPE (ftype f)) = Some enc"
    and lt: "PB_LTYPE (ftype f) \<noteq> PB_LTYPE_SUBMESSAGE" "PB_LTYPE (ftype f) \<noteq> PB_LTYPE_EXTENSION"
  shows "keeps_heap (enc f src) h"
proof -
  have "keeps_heap (pb_enc_varint f src) h" "keeps_heap (pb_enc_uvarint f src) h" "keeps_heap (pb_enc_svarint f src) h"
    "keeps_heap (pb_enc_fixed32 f src) h" "keeps_heap (pb_enc_fixed64 f src) h"
    by (auto simp: keeps_heap_def pb_enc_varint_def pb_enc_uvarint_def pb_enc_svarint_def pb_enc_fixed32_def
        pb_enc_fixed64_def after_read after_rd on_stream_Ok)
  moreover have put: "put_string p n (s, h) = Ok u (t, h') \<Longrightarrow> h' = h" for p n s u t h'
    by (auto simp: put_string_def on_stream_Ok)
  then have "keeps_heap (pb_enc_fixed_length_bytes f src) h" "keeps_heap (pb_enc_string f src) h"
    "keeps_heap (pb_enc_bytes f src) h"
    by (auto simp: keeps_heap_def pb_enc_fixed_length_bytes_def pb_enc_string_def pb_enc_bytes_def after_rd
        on_stream_Ok enc_error_def Let_def split: if_splits)
  ultimately show ?thesis
    using enc lt by (auto simp: PB_ENCODERS_def split: if_splits)
qed

lemma plain_field_encoded:
  assumes p: "field_plain sub env sz f d s0" and enc: "PB_ENCODERS env rec (PB_LTYPE (ftype f)) = Some enc"
    and e: "encode_field n env rec f a (s, h) = Ok u (t, h')"
  shows "(PB_HTYPE (ftype f) = PB_HTYPE_OPTIONAL \<and> load_bool h (offset_addr a (size_offset f)) = Some False \<and> t = s \<and> h' = h) \<or>
    ((PB_HTYPE (ftype f) = PB_HTYPE_OPTIONAL \<longrightarrow> load_bool h (offset_addr a (size_offset f)) = Some True) \<and>
     (\<exists>s1. pb_encode_tag_for_field s f = Ok () s1 \<and> enc f a (s1, h) = Ok u (t, h')))"
proof -
  have A: "PB_ATYPE (ftype f) = PB_ATYPE_STATIC" using p by (simp add: field_plain_def)
  then have b: "encode_basic_field n env rec f a (s, h) = Ok u (t, h')" using e by (simp add: encode_field_def)
  have put: "andthen (on_stream (\<lambda>s. pb_encode_tag_for_field s f) (s, h)) (\<lambda>_ st'. enc f a st') = Ok u (t, h') \<longleftrightarrow>
      (\<exists>s1. pb_encode_tag_for_field s f = Ok () s1 \<and> enc f a (s1, h) = Ok u (t, h'))"
    by (auto simp: andthen_eq_Ok on_stream_Ok)
  from p consider (req) "PB_HTYPE (ftype f) = PB_HTYPE_REQUIRED"
    | (opt) "PB_HTYPE (ftype f) = PB_HTYPE_OPTIONAL" "size_offset f \<noteq> 0"
    by (auto simp: field_plain_def)
  then show ?thesis
  proof cases
    case req
    have n: "PB_HTYPE (ftype f) \<noteq> PB_HTYPE_OPTIONAL" using req by (simp add: pb_consts)
    have "a \<noteq> 0"
      using b A n req by (auto simp: encode_basic_field_def enc enc_error_def on_stream_Ok oreturn_error_def pb_consts Let_def)
    then show ?thesis
      using b A n req put by (simp add: encode_basic_field_def enc Let_def pb_consts)
  next
    case opt
    then show ?thesis
      using b A put
      by (auto simp: encode_basic_field_def enc Let_def pb_consts after_rd split: if_splits)
  qed
qed

lemma wire_type_bytes:
  assumes "wire_type_of (PB_LTYPE (ftype f)) = Some wt" "ocallback s = Some Buf_write"
    "pb_encode_tag_for_field s f = Ok u t"
  shows "wrote s (tag_bytes (wt, tag f)) t"
  using varint_Ok_wrote [OF assms(2)] assms(1,3)
  by (simp add: pb_encode_tag_for_field_def pb_encode_tag_def tag_bytes_def tag_word_def)

lemma element_plain_wire:
  "element_plain sub env f \<Longrightarrow> \<exists>wt. wire_type_of (PB_LTYPE (ftype f)) = Some wt \<and> wt < 8"
  using packable_cases [of "PB_LTYPE (ftype f)"]
  by (auto simp: element_plain_def Let_def wire_type_of_def pb_consts)

lemma element_plain_coders:
  "element_plain sub env f \<Longrightarrow> \<exists>enc dec. PB_ENCODERS env rec (PB_LTYPE (ftype f)) = Some enc \<and>
     PB_DECODERS n env noinit (PB_LTYPE (ftype f)) = Some dec \<and> PB_LTYPE (ftype f) \<noteq> PB_LTYPE_EXTENSION"
  using packable_cases [of "PB_LTYPE (ftype f)"]
  by (auto simp: element_plain_def Let_def PB_ENCODERS_def PB_DECODERS_def pb_consts)

text \<open>Every kind of value is transported, submessages by induction.\<close>

lemma element_transports:
  assumes p: "field_plain (plain n env) env sz f d s0"
    and enc: "PB_ENCODERS env (pb_encode n env) (PB_LTYPE (ftype f)) = Some enc"
    and dec: "PB_DECODERS n env (pb_decode_noinit n env) (PB_LTYPE (ftype f)) = Some dec"
    and src: "cells h 0 = None" "mapped (cells h) src (unat (data_size f))"
    and ends: "PB_LTYPE (ftype f) = PB_LTYPE_STRING \<Longrightarrow>
      (case load h src (unat (data_size f)) of Some bs \<Rightarrow> 0 \<in> set bs | None \<Rightarrow> False)"
    and sub: "\<And>k. PB_LTYPE (ftype f) = PB_LTYPE_SUBMESSAGE \<Longrightarrow> ptr f = Ptr_fields k \<Longrightarrow>
      msg_transports n env (msgs env k) (unat (data_size f)) h src \<and> keeps_heap (pb_encode n env (msgs env k) src) h"
  shows "transports enc dec (cleared n env) (msg_same n env) env f h src"
proof -
  have A: "PB_ATYPE (ftype f) = PB_ATYPE_STATIC" and el: "element_plain (plain n env) env f"
    and H: "PB_HTYPE (ftype f) \<noteq> PB_HTYPE_REPEATED"
    using p by (auto simp: field_plain_def pb_consts)
  consider (scalar) "PB_LTYPE (ftype f) \<le> PB_LTYPE_LAST_PACKABLE" "width_ok f"
    | (str) "PB_LTYPE (ftype f) = PB_LTYPE_STRING" | (bts) "PB_LTYPE (ftype f) = PB_LTYPE_BYTES" "4 \<le> unat (data_size f)"
    | (flb) "PB_LTYPE (ftype f) = PB_LTYPE_FIXED_LENGTH_BYTES"
    | (msg) k where "PB_LTYPE (ftype f) = PB_LTYPE_SUBMESSAGE" "ptr f = Ptr_fields k"
    using el by (auto simp: element_plain_def Let_def split: fptr.splits)
  then show ?thesis
  proof cases
    case scalar
    show ?thesis by (rule scalar_transports [OF scalar enc dec src(2)])
  next
    case str
    then obtain full where full: "load h src (unat (data_size f)) = Some full" "0 \<in> set full"
      using ends by (auto split: option.splits)
    have "enc = pb_enc_string" "dec = pb_dec_string env"
      using enc dec str by (simp_all add: PB_ENCODERS_def PB_DECODERS_def pb_consts)
    with string_transports [OF str A src(1) full] show ?thesis by simp
  next
    case bts
    have "enc = pb_enc_bytes" "dec = pb_dec_bytes env"
      using enc dec bts by (simp_all add: PB_ENCODERS_def PB_DECODERS_def pb_consts)
    with bytes_transports [OF bts(1) A src bts(2)] show ?thesis by simp
  next
    case flb
    have "enc = pb_enc_fixed_length_bytes" "dec = pb_dec_fixed_length_bytes"
      using enc dec flb by (simp_all add: PB_ENCODERS_def PB_DECODERS_def pb_consts)
    with fixed_length_bytes_transports [OF flb] show ?thesis by simp
  next
    case msg
    have "enc = pb_enc_submessage env (pb_encode n env)" "dec = pb_dec_submessage n env (pb_decode_noinit n env)"
      using enc dec msg by (simp_all add: PB_ENCODERS_def PB_DECODERS_def pb_consts)
    with submessage_transports [OF msg H] sub [OF msg] show ?thesis by simp
  qed
qed

subsection \<open>Encoding a message\<close>

lemma submessage_keeps:
  assumes "keeps_heap (rec fs src) h"
  shows "keeps_heap (pb_encode_submessage rec fs src) h"
  unfolding keeps_heap_def
proof (intro allI impI)
  fix s u t h' assume e: "pb_encode_submessage rec fs src (s, h) = Ok u (t, h')"
  obtain sub h1 s1 where sub: "rec fs src (PB_OSTREAM_SIZING, h) = Ok () (sub, h1)"
    and body: "submessage_body rec fs src sub (s1, h1) = Ok u (t, h')"
    using e by (auto simp: pb_encode_submessage_def on_stream_Ok andthen_eq_Ok split: outcome.splits)
  have "h1 = h" using sub assms by (auto simp: keeps_heap_def)
  then show "h' = h"
    using body assms
    by (auto simp: submessage_body_def Let_def keeps_heap_def on_stream_Ok enc_error_def oreturn_error_def
        split: if_splits outcome.splits)
qed

lemma plain_iter:
  assumes "plain (Suc n) env fs sz" "i < length fs"
  shows "cur (iter_at fs b i) = fs ! i" "pData (iter_at fs b i) = b + data_off fs i"
    "pSize (iter_at fs b i) = b + size_off fs i"
    "offset_addr (b + data_off fs i) (size_offset (fs ! i)) = b + size_off fs i"
    "PB_LTYPE (ftype (fs ! i)) \<noteq> PB_LTYPE_EXTENSION"
proof -
  have wf: "wf_fields fs" using assms(1) by simp
  show "cur (iter_at fs b i) = fs ! i" "pData (iter_at fs b i) = b + data_off fs i"
    "pSize (iter_at fs b i) = b + size_off fs i"
    using cur_iter_at [OF wf assms(2)] iter_at_offsets [OF wf assms(2)] by simp_all
  have p: "field_plain (plain n env) env sz (fs ! i) (data_off fs i) (size_off fs i)"
    by (rule plain_field(1) [OF assms])
  then have "PB_HTYPE (ftype (fs ! i)) \<noteq> PB_HTYPE_ONEOF" by (auto simp: field_plain_def pb_consts)
  from size_off_offset [OF wf assms(2) this]
  show "offset_addr (b + data_off fs i) (size_offset (fs ! i)) = b + size_off fs i"
    by (simp add: offset_addr_def)
  show "PB_LTYPE (ftype (fs ! i)) \<noteq> PB_LTYPE_EXTENSION"
    using p element_plain_coders unfolding field_plain_def by blast
qed

lemma plain_encode_one:
  assumes "plain (Suc n) env fs sz" "i < length fs"
  shows "encode_one n env rec (iter_at fs b i) st = encode_field n env rec (fs ! i) (b + data_off fs i) st"
  using plain_iter [OF assms] by (simp add: encode_one_def)

lemma plain_coders:
  assumes "plain (Suc n) env fs sz" "i < length fs"
  obtains enc dec wt where "PB_ENCODERS env rec (PB_LTYPE (ftype (fs ! i))) = Some enc"
    "PB_DECODERS m env noinit (PB_LTYPE (ftype (fs ! i))) = Some dec"
    "wire_type_of (PB_LTYPE (ftype (fs ! i))) = Some wt" "wt < 8"
proof -
  have "element_plain (plain n env) env (fs ! i)" using plain_field(1) [OF assms] by (simp add: field_plain_def)
  from element_plain_coders [OF this, of rec m noinit] element_plain_wire [OF this] show thesis using that by blast
qed

lemma pb_encode_walk:
  assumes "wf_fields fs" "fs \<noteq> []"
  shows "pb_encode (Suc n) env fs src st = iter_do_while (encode_one n env (pb_encode n env)) (iter_at fs src 0) st"
  using begin_nonempty [OF assms(1), of src] assms(2) by (simp add: case_prod_beta iter_at.simps)

lemma pb_encode_keeps: "plain n env fs sz \<Longrightarrow> keeps_heap (pb_encode n env fs src) h"
proof (induction n arbitrary: fs sz src)
  case (Suc n)
  have wf: "wf_fields fs" "fs \<noteq> []" using Suc.prems by simp_all
  have one: "partly (\<lambda>_ st. snd st = h) (\<lambda>_. True) (encode_one n env (pb_encode n env) (iter_at fs src i) st)"
    if i: "i < length fs" and st: "snd st = h" for i and st :: est
  proof -
    obtain s where s: "st = (s, h)" using st by (cases st) auto
    let ?f = "fs ! i"
    obtain enc dec wt where enc: "PB_ENCODERS env (pb_encode n env) (PB_LTYPE (ftype ?f)) = Some enc"
      by (rule plain_coders [OF Suc.prems i])
    have "keeps_heap (enc ?f a) h" for a
    proof (cases "PB_LTYPE (ftype ?f) = PB_LTYPE_SUBMESSAGE")
      case True
      then obtain k where k: "ptr ?f = Ptr_fields k"
        using plain_field(1) [OF Suc.prems i]
        by (auto simp: field_plain_def element_plain_def Let_def pb_consts split: fptr.splits)
      have "enc = pb_enc_submessage env (pb_encode n env)" using enc True by (simp add: PB_ENCODERS_def pb_consts)
      moreover have "keeps_heap (pb_encode_submessage (pb_encode n env) (msgs env k) a) h"
        by (rule submessage_keeps) (rule Suc.IH [OF plain_field(5) [OF Suc.prems i True k]])
      ultimately show ?thesis using k by (simp add: keeps_heap_def pb_enc_submessage_def)
    next
      case False
      from encoder_keeps [OF enc False plain_iter(5) [OF Suc.prems i]] show ?thesis .
    qed
    then have "encode_field n env (pb_encode n env) ?f (src + data_off fs i) (s, h) = Ok u (t, h') \<Longrightarrow> h' = h" for u t h'
      using plain_field_encoded [OF plain_field(1) [OF Suc.prems i] enc] unfolding keeps_heap_def by blast
    then show ?thesis
      unfolding s plain_encode_one [OF Suc.prems i]
      by (cases "encode_field n env (pb_encode n env) ?f (src + data_off fs i) (s, h)") auto
  qed
  have walk: "partly (\<lambda>_ st. snd st = h) (\<lambda>_. True) (pb_encode (Suc n) env fs src (s, h))" for s
    unfolding pb_encode_walk [OF wf]
    by (rule iter_do_while_partly [OF wf(1), where I = "\<lambda>_ st. snd st = h"]) (use one wf in auto)
  show ?case
    unfolding keeps_heap_def
  proof (intro allI impI)
    fix s u t h' assume "pb_encode (Suc n) env fs src (s, h) = Ok u (t, h')"
    with walk [of s] show "h' = h" by (simp del: pb_encode.simps)
  qed
qed simp

definition chunk_ok :: "nat \<Rightarrow> env \<Rightarrow> pb_field list \<Rightarrow> heap \<Rightarrow> addr \<Rightarrow> nat \<Rightarrow> byte list \<Rightarrow> bool" where
  "chunk_ok n env fs h src i c \<longleftrightarrow>
     (c = [] \<and> PB_HTYPE (ftype (fs ! i)) = PB_HTYPE_OPTIONAL \<and> load_bool h (src + size_off fs i) = Some False) \<or>
     ((PB_HTYPE (ftype (fs ! i)) = PB_HTYPE_OPTIONAL \<longrightarrow> load_bool h (src + size_off fs i) = Some True) \<and>
      (\<exists>wt p dec. wire_type_of (PB_LTYPE (ftype (fs ! i))) = Some wt \<and> c = tag_bytes (wt, tag (fs ! i)) @ p \<and>
         PB_DECODERS n env (pb_decode_noinit n env) (PB_LTYPE (ftype (fs ! i))) = Some dec \<and>
         (\<forall>dst. delivers dec (fs ! i) dst p (receives (cleared n env) env (fs ! i) dst)
            (\<lambda>h3. element_same (msg_same n env) env (fs ! i) h (src + data_off fs i) h3 dst))))"

text \<open>What encoding a field writes, and encoding all of them from the i-th on.\<close>

lemma field_chunk:
  assumes p: "plain (Suc n) env fs sz" and i: "i < length fs"
    and src: "cells h 0 = None" "mapped (cells h) src sz" and ends: "strings_end (Suc n) env fs h src"
    and IH: "\<And>fs sz src. plain n env fs sz \<Longrightarrow> cells h 0 = None \<Longrightarrow> mapped (cells h) src sz \<Longrightarrow>
      strings_end n env fs h src \<Longrightarrow> msg_transports n env fs sz h src"
    and b: "buffered s" and e: "encode_one n env (pb_encode n env) (iter_at fs src i) (s, h) = Ok u (t, h')"
  shows "h' = h \<and> (\<exists>c. wrote s c t \<and> chunk_ok n env fs h src i c)"
proof -
  let ?f = "fs ! i" and ?d = "src + data_off fs i"
  note pf = plain_field(1) [OF p i]
  obtain enc dec wt where cd: "PB_ENCODERS env (pb_encode n env) (PB_LTYPE (ftype ?f)) = Some enc"
    "PB_DECODERS n env (pb_decode_noinit n env) (PB_LTYPE (ftype ?f)) = Some dec"
    "wire_type_of (PB_LTYPE (ftype ?f)) = Some wt"
    by (rule plain_coders [OF p i])
  have e': "encode_field n env (pb_encode n env) ?f ?d (s, h) = Ok u (t, h')"
    using e plain_encode_one [OF p i] by simp
  have m: "mapped (cells h) ?d (unat (data_size ?f))"
    by (rule mapped_within [OF src(2) plain_field(3,2) [OF p i]])
  have fe: "field_ends (strings_end n env) env ?f h ?d (src + size_off fs i)" using ends i by simp
  from plain_field_encoded [OF pf cd(1) e'] show ?thesis
    unfolding plain_iter(4) [OF p i]
  proof (elim disjE conjE exE)
    fix s1 assume pres: "PB_HTYPE (ftype ?f) = PB_HTYPE_OPTIONAL \<longrightarrow> load_bool h (src + size_off fs i) = Some True"
      and tg: "pb_encode_tag_for_field s ?f = Ok () s1" and val: "enc ?f ?d (s1, h) = Ok u (t, h')"
    have w1: "wrote s (tag_bytes (wt, tag ?f)) s1"
      by (rule wire_type_bytes [OF cd(3) _ tg]) (use b in \<open>simp add: buffered_def\<close>)
    have tr: "transports enc dec (cleared n env) (msg_same n env) env ?f h ?d"
    proof (rule element_transports [OF pf cd(1,2) src(1) m])
      show "PB_LTYPE (ftype ?f) = PB_LTYPE_STRING \<Longrightarrow>
          (case load h ?d (unat (data_size ?f)) of Some bs \<Rightarrow> 0 \<in> set bs | None \<Rightarrow> False)"
        using fe pres by (simp add: field_ends_def)
      fix k assume k: "PB_LTYPE (ftype ?f) = PB_LTYPE_SUBMESSAGE" "ptr ?f = Ptr_fields k"
      have "strings_end n env (msgs env k) h ?d" using fe pres k by (simp add: field_ends_def)
      with IH [OF plain_field(5) [OF p i k] src(1) m] pb_encode_keeps [OF plain_field(5) [OF p i k]]
      show "msg_transports n env (msgs env k) (unat (data_size ?f)) h ?d \<and>
          keeps_heap (pb_encode n env (msgs env k) ?d) h" by blast
    qed
    obtain bs where bs: "h' = h" "wrote s1 bs t"
      "\<forall>dst. delivers dec ?f dst bs (receives (cleared n env) env ?f dst)
         (\<lambda>h3. element_same (msg_same n env) env ?f h ?d h3 dst)"
      using tr wrote_buffered [OF b w1] val unfolding transports_def by blast
    have "chunk_ok n env fs h src i (tag_bytes (wt, tag ?f) @ bs)"
      unfolding chunk_ok_def using pres cd(2,3) bs(3) by blast
    with bs(1) wrote_append [OF w1 bs(2)] show ?thesis by blast
  next
    assume "PB_HTYPE (ftype ?f) = PB_HTYPE_OPTIONAL" "load_bool h (src + size_off fs i) = Some False" "t = s" "h' = h"
    then show ?thesis by (intro conjI exI [of _ "[]"]) (simp_all add: chunk_ok_def)
  qed
qed

lemma message_chunks:
  assumes p: "plain (Suc n) env fs sz" and src: "cells h 0 = None" "mapped (cells h) src sz"
    and ends: "strings_end (Suc n) env fs h src"
    and IH: "\<And>fs sz src. plain n env fs sz \<Longrightarrow> cells h 0 = None \<Longrightarrow> mapped (cells h) src sz \<Longrightarrow>
      strings_end n env fs h src \<Longrightarrow> msg_transports n env fs sz h src"
  shows "i < length fs \<Longrightarrow> buffered s \<Longrightarrow>
    iter_do_while (encode_one n env (pb_encode n env)) (iter_at fs src i) (s, h) = Ok u (t, h') \<Longrightarrow>
    \<exists>cs. length cs = length fs - i \<and> wrote s (concat cs) t \<and> (\<forall>j < length cs. chunk_ok n env fs h src (i + j) (cs ! j))"
proof (induction "length fs - i" arbitrary: i s)
  case 0
  then show ?case by simp
next
  case (Suc m)
  have wf: "wf_fields fs" using p by simp
  obtain s1 h1 where one: "encode_one n env (pb_encode n env) (iter_at fs src i) (s, h) = Ok () (s1, h1)"
    and rest: "(if Suc i < length fs
      then iter_do_while (encode_one n env (pb_encode n env)) (iter_at fs src (Suc i)) (s1, h1)
      else Ok () (s1, h1)) = Ok u (t, h')"
    using Suc.prems(3) unfolding iter_do_while_step [OF wf Suc.prems(1)] by (auto simp: andthen_eq_Ok)
  from field_chunk [OF p Suc.prems(1) src ends IH Suc.prems(2) one]
  obtain c where c: "h1 = h" "wrote s c s1" "chunk_ok n env fs h src i c" by blast
  show ?case
  proof (cases "Suc i < length fs")
    case True
    have m: "m = length fs - Suc i" using Suc.hyps(2) by simp
    have "iter_do_while (encode_one n env (pb_encode n env)) (iter_at fs src (Suc i)) (s1, h) = Ok u (t, h')"
      using rest True c(1) by simp
    from Suc.hyps(1) [OF m True wrote_buffered [OF Suc.prems(2) c(2)] this]
    obtain cs where cs: "length cs = length fs - Suc i" "wrote s1 (concat cs) t"
      "\<forall>j < length cs. chunk_ok n env fs h src (Suc i + j) (cs ! j)"
      by blast
    have "\<forall>j < length (c # cs). chunk_ok n env fs h src (i + j) ((c # cs) ! j)"
      using c(3) cs(3) by (auto simp: less_Suc_eq_0_disj)
    moreover have "wrote s (concat (c # cs)) t" using wrote_append [OF c(2) cs(2)] by simp
    ultimately show ?thesis using cs(1) True by (intro exI [of _ "c # cs"]) auto
  next
    case False
    then have "t = s1" using rest by simp
    with False c Suc.prems(1) show ?thesis by (intro exI [of _ "[c]"]) auto
  qed
qed

subsection \<open>The bits of the required fields\<close>

lemma count_word: "c < 2 ^ 32 \<Longrightarrow> unat (drop_bit 5 (of_nat c :: u32)) = c div 32"
  "c < 2 ^ 32 \<Longrightarrow> unat ((of_nat c :: u32) AND 31) = c mod 32"
proof -
  assume c: "c < 2 ^ 32"
  then have u: "unat (of_nat c :: u32) = c" by (intro unat_of_nat_id) simp
  have "unat (drop_bit 5 (of_nat c :: u32)) = drop_bit 5 (unat (of_nat c :: u32))" by (rule unat_drop_bit_eq)
  then show "unat (drop_bit 5 (of_nat c :: u32)) = c div 32" by (simp only: u) (simp add: drop_bit_eq_div)
  have m: "(of_nat c :: u32) AND 31 = take_bit 5 (of_nat c)" by (simp add: take_bit_eq_mask mask_eq_exp_minus_1)
  have "unat (take_bit 5 (of_nat c :: u32)) = take_bit 5 (unat (of_nat c :: u32))" by (rule unsigned_take_bit_eq)
  then show "unat ((of_nat c :: u32) AND 31) = c mod 32" unfolding m by (simp only: u) (simp add: take_bit_eq_mod)
qed

lemma all_ones_iff: "(w :: u32) = allbits \<longleftrightarrow> (\<forall>i < 32. bit w i)"
  by (auto simp: allbits_def intro!: bit_word_eqI)

lemma low_ones_iff:
  assumes "r < 32" "\<forall>i. bit w i \<longrightarrow> i < r"
  shows "(w :: u32) = drop_bit (32 - r) allbits \<longleftrightarrow> (\<forall>i < r. bit w i)"
proof -
  have "bit (drop_bit (32 - r) allbits) i \<longleftrightarrow> i < r" for i
    using assms(1) by (auto simp: allbits_def bit_simps)
  then show ?thesis using assms by (auto intro!: bit_word_eqI)
qed

lemma required_check_bits:
  assumes "c < 64" and "c \<noteq> 32" and "\<forall>i. bit w0 i \<longrightarrow> i < c" and "\<forall>i. bit w1 i \<longrightarrow> 32 + i < c"
  shows "all_required_seen (of_nat c) [w0, w1] =
    Some (\<forall>i < c. if i < 32 then bit w0 i else bit w1 (i - 32))"
proof (cases "c < 32")
  case True
  then have w: "unat (drop_bit 5 (of_nat c :: u32)) = 0" "unat ((of_nat c :: u32) AND 31) = c"
    using count_word [of c] by simp_all
  have z: "(of_nat c :: u32) = 0 \<longleftrightarrow> c = 0"
    using unat_of_nat_id [of c, where ?'a = 32] True by (auto simp: word_unat_eq_iff)
  show ?thesis
    using True assms(3) low_ones_iff [OF True, of w0]
    unfolding all_required_seen_def Let_def w z by auto
next
  case False
  define r where "r = c - 32"
  have r: "c = 32 + r" "r < 32" "r \<noteq> 0" using False assms(1,2) by (auto simp: r_def)
  have w: "unat (drop_bit 5 (of_nat c :: u32)) = 1" "unat ((of_nat c :: u32) AND 31) = r"
    using count_word [of c] r by simp_all
  have z: "(of_nat c :: u32) \<noteq> 0"
    using unat_of_nat_id [of c, where ?'a = 32] False assms(1) by (auto simp: word_unat_eq_iff)
  have split: "(\<forall>i < c. if i < 32 then bit w0 i else bit w1 (i - 32)) \<longleftrightarrow>
      (\<forall>i < 32. bit w0 i) \<and> (\<forall>i < r. bit w1 i)"
  proof (intro iffI conjI allI impI)
    assume all: "\<forall>i < c. if i < 32 then bit w0 i else bit w1 (i - 32)"
    show "bit w0 i" if "i < 32" for i using all that r by (auto dest: spec [of _ i])
    show "bit w1 i" if "i < r" for i using all that r by (auto dest: spec [of _ "32 + i"])
  qed (use r in auto)
  have "\<forall>i. bit w1 i \<longrightarrow> i < r" using assms(4) r by auto
  with low_ones_iff [OF r(2) this] z r(3) show ?thesis
    unfolding all_required_seen_def Let_def w split all_ones_iff [symmetric] by auto
qed

definition seen_ok :: "nat \<Rightarrow> u32 list \<Rightarrow> bool" where
  "seen_ok c seen \<longleftrightarrow> (\<exists>w0 w1. seen = [w0, w1] \<and> (\<forall>b < 32. bit w0 b \<longleftrightarrow> b < c) \<and> (\<forall>b < 32. bit w1 b \<longleftrightarrow> 32 + b < c))"

lemma seen_ok_start: "seen_ok 0 [0, 0]"
  by (simp add: seen_ok_def)

lemma seen_ok_mark:
  assumes s: "seen_ok c seen" and c: "c < 64" "required_field_index it = of_nat c"
    and r: "PB_HTYPE (ftype (cur it)) = PB_HTYPE_REQUIRED"
  shows "seen_ok (Suc c) (mark_seen it seen)"
proof -
  obtain w0 w1 where w: "seen = [w0, w1]" "\<forall>b < 32. bit w0 b \<longleftrightarrow> b < c" "\<forall>b < 32. bit w1 b \<longleftrightarrow> 32 + b < c"
    using s by (auto simp: seen_ok_def)
  have lt: "(of_nat c :: u32) < PB_MAX_REQUIRED_FIELDS"
    using c(1) unat_of_nat_id [of c, where ?'a = 32] by (simp add: word_less_nat_alt PB_MAX_REQUIRED_FIELDS_def)
  have m: "mark_seen it seen = seen[c div 32 := seen ! (c div 32) OR push_bit (c mod 32) 1]"
    using count_word [of c] c lt r by (simp add: mark_seen_def Let_def)
  show ?thesis
  proof (cases "c < 32")
    case True
    then have "mark_seen it seen = [w0 OR push_bit c 1, w1]" using m w(1) by simp
    moreover have "\<forall>b < 32. bit (w0 OR push_bit c 1) b \<longleftrightarrow> b < Suc c" using w(2) by (auto simp: bit_simps)
    moreover have "\<forall>b < 32. bit w1 b \<longleftrightarrow> 32 + b < Suc c" using w(3) True by auto
    ultimately show ?thesis unfolding seen_ok_def by blast
  next
    case False
    then obtain d where d: "c = 32 + d" "d < 32" using c(1) by (metis add_diff_inverse_nat add_less_cancel_left numeral_Bit0)
    then have "c div 32 = 1" "c mod 32 = d" by simp_all
    then have "mark_seen it seen = [w0, w1 OR push_bit d 1]" using m w(1) by simp
    moreover have "\<forall>b < 32. bit w0 b \<longleftrightarrow> b < Suc c" using w(2) False by auto
    moreover have "\<forall>b < 32. bit (w1 OR push_bit d 1) b \<longleftrightarrow> 32 + b < Suc c" using w(3) d by (auto simp: bit_simps)
    ultimately show ?thesis unfolding seen_ok_def by blast
  qed
qed

lemma seen_ok_complete:
  assumes "seen_ok c seen" "c < 64" "c \<noteq> 32"
  shows "all_required_seen (of_nat c) seen = Some True"
proof -
  obtain w0 w1 where w: "seen = [w0, w1]" "\<forall>b < 32. bit w0 b \<longleftrightarrow> b < c" "\<forall>b < 32. bit w1 b \<longleftrightarrow> 32 + b < c"
    using assms(1) by (auto simp: seen_ok_def)
  have len: "bit (v :: u32) b \<Longrightarrow> b < 32" for v b by (drule bit_imp_le_length) simp
  have "\<forall>b. bit w0 b \<longrightarrow> b < c" using w(2) len [of w0] by blast
  moreover have "\<forall>b. bit w1 b \<longrightarrow> 32 + b < c" using w(3) len [of w1] by blast
  ultimately have "all_required_seen (of_nat c) [w0, w1] = Some (\<forall>i < c. if i < 32 then bit w0 i else bit w1 (i - 32))"
    by (rule required_check_bits [OF assms(2,3)])
  moreover have "\<forall>i < c. if i < 32 then bit w0 i else bit w1 (i - 32)" using w(2,3) assms(2) by auto
  ultimately show ?thesis using w(1) by simp
qed

subsection \<open>Decoding the fields in turn\<close>

text \<open>The destination when the first \<open>i\<close> fields have been decoded.\<close>

definition half_done ::
  "nat \<Rightarrow> env \<Rightarrow> pb_field list \<Rightarrow> nat \<Rightarrow> heap \<Rightarrow> addr \<Rightarrow> addr \<Rightarrow> nat \<Rightarrow> heap \<Rightarrow> bool" where
  "half_done n env fs sz h src dst i h2 \<longleftrightarrow> cells h2 0 = None \<and> mapped (cells h2) dst sz \<and>
     (\<forall>k < length fs.
        if k < i then field_same (msg_same n env) env (fs ! k) h (src + data_off fs k) (src + size_off fs k)
          h2 (dst + data_off fs k) (dst + size_off fs k)
        else field_cleared (cleared n env) env (fs ! k) h2 (dst + data_off fs k) (dst + size_off fs k))"

text \<open>What a field holds only depends on its slots.\<close>

lemma field_same_agree:
  assumes p: "plain (Suc n) env fs sz" "i < length fs"
    and d: "agree_on (b + data_off fs i) (unat (data_size (fs ! i))) h' h''"
    and s: "PB_HTYPE (ftype (fs ! i)) = PB_HTYPE_OPTIONAL \<Longrightarrow> agree_on (b + size_off fs i) 1 h' h''"
    and same: "field_same (msg_same n env) env (fs ! i) h x y h' (b + data_off fs i) (b + size_off fs i)"
  shows "field_same (msg_same n env) env (fs ! i) h x y h'' (b + data_off fs i) (b + size_off fs i)"
proof -
  have el: "element_same (msg_same n env) env (fs ! i) h x h'' (b + data_off fs i)"
    if "element_same (msg_same n env) env (fs ! i) h x h' (b + data_off fs i)"
    by (rule element_same_agree [OF that d]) (rule msg_same_agree [OF plain_field(5) [OF p] _ d])
  have fl: "PB_HTYPE (ftype (fs ! i)) = PB_HTYPE_OPTIONAL \<Longrightarrow>
      load_bool h'' (b + size_off fs i) = load_bool h' (b + size_off fs i)"
    using load_bool_agree [OF s, of "b + size_off fs i"] by simp
  show ?thesis using same el fl by (auto simp: field_same_def split: if_splits)
qed

lemma field_cleared_agree:
  assumes p: "plain (Suc n) env fs sz" "i < length fs"
    and d: "agree_on (b + data_off fs i) (unat (data_size (fs ! i))) h' h''"
    and s: "PB_HTYPE (ftype (fs ! i)) = PB_HTYPE_OPTIONAL \<Longrightarrow> agree_on (b + size_off fs i) 1 h' h''"
    and cl: "field_cleared (cleared n env) env (fs ! i) h' (b + data_off fs i) (b + size_off fs i)"
  shows "field_cleared (cleared n env) env (fs ! i) h'' (b + data_off fs i) (b + size_off fs i)"
proof -
  have fl: "PB_HTYPE (ftype (fs ! i)) = PB_HTYPE_OPTIONAL \<Longrightarrow>
      load_bool h'' (b + size_off fs i) = load_bool h' (b + size_off fs i)"
    using load_bool_agree [OF s, of "b + size_off fs i"] by simp
  show ?thesis using cl fl cleared_agree [OF plain_field(5) [OF p] _ d]
    by (auto simp: field_cleared_def split: fptr.splits)
qed

text \<open>Changing the slots of field \<open>i\<close> only, and making that field the same.\<close>

lemma half_done_step:
  assumes p: "plain (Suc n) env fs sz" and i: "i < length fs" and hd: "half_done n env fs sz h src dst i h2"
    and maps: "\<And>b n. mapped (cells h3) b n = mapped (cells h2) b n"
    and others: "\<And>k. k < length fs \<Longrightarrow> k \<noteq> i \<Longrightarrow> agree_on (dst + data_off fs k) (unat (data_size (fs ! k))) h2 h3 \<and>
      (PB_HTYPE (ftype (fs ! k)) = PB_HTYPE_OPTIONAL \<longrightarrow> agree_on (dst + size_off fs k) 1 h2 h3)"
    and same: "field_same (msg_same n env) env (fs ! i) h (src + data_off fs i) (src + size_off fs i)
      h3 (dst + data_off fs i) (dst + size_off fs i)"
  shows "half_done n env fs sz h src dst (Suc i) h3"
  unfolding half_done_def
proof (intro conjI allI impI)
  show "cells h3 0 = None" using hd by (intro still_null [OF maps]) (simp add: half_done_def)
  show "mapped (cells h3) dst sz" using hd maps by (simp add: half_done_def)
  fix k assume k: "k < length fs"
  show "if k < Suc i then field_same (msg_same n env) env (fs ! k) h (src + data_off fs k) (src + size_off fs k)
          h3 (dst + data_off fs k) (dst + size_off fs k)
        else field_cleared (cleared n env) env (fs ! k) h3 (dst + data_off fs k) (dst + size_off fs k)"
  proof (cases "k = i")
    case True
    then show ?thesis using same by simp
  next
    case False
    note o = others [OF k False]
    have "if k < i then field_same (msg_same n env) env (fs ! k) h (src + data_off fs k) (src + size_off fs k)
          h2 (dst + data_off fs k) (dst + size_off fs k)
        else field_cleared (cleared n env) env (fs ! k) h2 (dst + data_off fs k) (dst + size_off fs k)"
      using hd k by (simp add: half_done_def)
    then show ?thesis
      using False field_same_agree [OF p k, of dst h2 h3] field_cleared_agree [OF p k, of dst h2 h3] o
      by (cases "k < i") auto
  qed
qed

lemma half_done_absent:
  assumes p: "plain (Suc n) env fs sz" and hd: "half_done n env fs sz h src dst i h2" and i: "i < length fs"
    and o: "PB_HTYPE (ftype (fs ! i)) = PB_HTYPE_OPTIONAL" "load_bool h (src + size_off fs i) = Some False"
  shows "half_done n env fs sz h src dst (Suc i) h2"
proof (rule half_done_step [OF p i hd refl])
  have "field_cleared (cleared n env) env (fs ! i) h2 (dst + data_off fs i) (dst + size_off fs i)"
    using hd i unfolding half_done_def by (metis less_irrefl)
  then show "field_same (msg_same n env) env (fs ! i) h (src + data_off fs i) (src + size_off fs i)
      h2 (dst + data_off fs i) (dst + size_off fs i)"
    using o by (simp add: field_same_def field_cleared_def)
qed (simp add: agree_on_def)

lemma agree_trans: "agree_on b n h h' \<Longrightarrow> agree_on b n h' h'' \<Longrightarrow> agree_on b n h h''"
  by (simp add: agree_on_def)

text \<open>Decoding the value changes the data slot only, so the other fields and the field's own flag stay.\<close>

lemma decode_plain_value:
  assumes p: "plain (Suc n) env fs sz" and i: "i < length fs" and nm: "\<not> enable_malloc env"
    and dec: "PB_DECODERS n env (pb_decode_noinit n env) (PB_LTYPE (ftype (fs ! i))) = Some dec"
    and s: "in_ok s" and ok: "dec (fs ! i) (dst + data_off fs i) (s, h2) = Ok u (t, h3)"
    and m: "mapped (cells h2) dst sz"
  shows "changes_only (dst + data_off fs i) (unat (data_size (fs ! i))) h2 h3"
proof -
  let ?f = "fs ! i" and ?d = "dst + data_off fs i"
  have fit: "element_fits (msg_fits n env) env ?f" and A: "PB_ATYPE (ftype ?f) = PB_ATYPE_STATIC"
    using plain_field(1) [OF p i] element_plain_fits [of "plain n env" env ?f "msg_fits n env"] plain_msg_fits
    by (auto simp: field_plain_def)
  have "tame ?d (unat (data_size ?f)) (dec ?f ?d)"
    by (rule decoder_tame [OF fit A dec nm]) (use pb_decode_noinit_tame [OF nm] message_defaults_tame in blast)
  moreover have "ready ?d (unat (data_size ?f)) (s, h2)"
    using s mapped_within [OF m plain_field(3,2) [OF p i]] by (simp add: ready_def)
  ultimately show ?thesis using tameD ok by (fastforce simp: after_def)
qed

lemma scast_ucast_id_32: "ucast (scast (w :: u32) :: u64) = w"
  by (rule bit_word_eqI) (auto simp: bit_simps)

lemma own_flag_apart:
  assumes "plain (Suc n) env fs sz" "i < length fs" "PB_HTYPE (ftype (fs ! i)) = PB_HTYPE_OPTIONAL"
  shows "apart (data_off fs i, unat (data_size (fs ! i))) (size_off fs i, 1)" "size_off fs i \<noteq> data_off fs i"
proof -
  show "apart (data_off fs i, unat (data_size (fs ! i))) (size_off fs i, 1)"
    using assms by (simp add: slots_apart_def)
  have "size_offset (fs ! i) \<noteq> 0" using plain_field(1) [OF assms(1,2)] assms(3) by (auto simp: field_plain_def pb_consts)
  then have "(scast (size_offset (fs ! i)) :: u64) \<noteq> 0"
    using scast_ucast_id_32 [of "size_offset (fs ! i)"] by force
  moreover have "offset_addr (0 + data_off fs i) (size_offset (fs ! i)) = 0 + size_off fs i"
    by (rule plain_iter(4) [OF assms(1,2)])
  ultimately show "size_off fs i \<noteq> data_off fs i" by (auto simp: offset_addr_def)
qed

lemma plain_decode_field:
  assumes p: "plain (Suc n) env fs sz" and i: "i < length fs"
    and dec: "PB_DECODERS n env noinit (PB_LTYPE (ftype (fs ! i))) = Some dec"
  shows "decode_field n env noinit wt (iter_at fs dst i) st =
    andthen (if PB_HTYPE (ftype (fs ! i)) = PB_HTYPE_OPTIONAL
       then wr (\<lambda>h. store_bool h (dst + size_off fs i) True) st else Ok () st) (\<lambda>_ st1.
    andthen (dec (fs ! i) (dst + data_off fs i) st1) (\<lambda>_. Ok (iter_at fs dst i)))"
proof -
  have A: "PB_ATYPE (ftype (fs ! i)) = PB_ATYPE_STATIC"
    and H: "PB_HTYPE (ftype (fs ! i)) = PB_HTYPE_REQUIRED \<or> PB_HTYPE (ftype (fs ! i)) = PB_HTYPE_OPTIONAL"
    using plain_field(1) [OF p i] by (auto simp: field_plain_def)
  have "PB_HTYPE (ftype (fs ! i)) \<noteq> PB_HTYPE_ONEOF" using H by (auto simp: pb_consts)
  then show ?thesis
    using H A dec own_flag_apart(2) [OF p i] plain_iter(1-3) [OF p i, of dst]
    by (auto simp: decode_field_def decode_static_field_def Let_def pb_consts andthen_assoc)
qed

text \<open>The has-flag is set before the value is decoded; that touches nothing else.\<close>

definition untouched :: "pb_field list \<Rightarrow> addr \<Rightarrow> nat \<Rightarrow> heap \<Rightarrow> heap \<Rightarrow> bool" where
  "untouched fs b i h h' \<longleftrightarrow> (\<forall>x n. mapped (cells h') x n = mapped (cells h) x n) \<and>
     (\<forall>k < length fs. k \<noteq> i \<longrightarrow> agree_on (b + data_off fs k) (unat (data_size (fs ! k))) h h' \<and>
        (PB_HTYPE (ftype (fs ! k)) = PB_HTYPE_OPTIONAL \<longrightarrow> agree_on (b + size_off fs k) 1 h h'))"

lemma untouched_refl: "untouched fs b i h h"
  by (simp add: untouched_def agree_on_def)

lemma untouched_trans: "untouched fs b i h h' \<Longrightarrow> untouched fs b i h' h'' \<Longrightarrow> untouched fs b i h h''"
  by (simp add: untouched_def agree_on_def)

lemma slot_untouched:
  assumes "plain (Suc n) env fs sz" "i < length fs" "(a, k) \<in> set (slots fs i)" "changes_only (b + a) k h h'"
  shows "untouched fs b i h h'"
  using other_field_kept [OF assms(1,2) _ _ assms(4,3)] assms(4) by (auto simp: untouched_def changes_only_def)

lemma own_slots_agree:
  assumes p: "plain (Suc n) env fs sz" "i < length fs" and o: "PB_HTYPE (ftype (fs ! i)) = PB_HTYPE_OPTIONAL"
  shows "changes_only (b + size_off fs i) 1 h h' \<Longrightarrow> agree_on (b + data_off fs i) (unat (data_size (fs ! i))) h h'"
    and "changes_only (b + data_off fs i) (unat (data_size (fs ! i))) h h' \<Longrightarrow> agree_on (b + size_off fs i) 1 h h'"
proof -
  have sl: "(size_off fs i, 1) \<in> set (slots fs i)" "(data_off fs i, unat (data_size (fs ! i))) \<in> set (slots fs i)"
    using o by (simp_all add: slots_def)
  note w = slots_within [OF p sl(1)] slots_within [OF p sl(2)]
  have ap: "apart (data_off fs i, unat (data_size (fs ! i))) (size_off fs i, 1)"
    "apart (size_off fs i, 1) (data_off fs i, unat (data_size (fs ! i)))"
    using own_flag_apart(1) [OF p o] by (simp_all add: apart_sym del: apart.simps)
  show "changes_only (b + size_off fs i) 1 h h' \<Longrightarrow> agree_on (b + data_off fs i) (unat (data_size (fs ! i))) h h'"
    by (rule agree_apart [OF _ ap(2) w plain_field(2) [OF p]])
  show "changes_only (b + data_off fs i) (unat (data_size (fs ! i))) h h' \<Longrightarrow> agree_on (b + size_off fs i) 1 h h'"
    by (rule agree_apart [OF _ ap(1) w(2,1) plain_field(2) [OF p]])
qed

lemma flag_raised:
  assumes p: "plain (Suc n) env fs sz" "i < length fs" and hd: "half_done n env fs sz h src dst i h2"
  shows "\<exists>h1. (if PB_HTYPE (ftype (fs ! i)) = PB_HTYPE_OPTIONAL
      then wr (\<lambda>h. store_bool h (dst + size_off fs i) True) (s, h2) else Ok () (s, h2)) = Ok () (s, h1) \<and>
    (PB_HTYPE (ftype (fs ! i)) = PB_HTYPE_OPTIONAL \<longrightarrow> load_bool h1 (dst + size_off fs i) = Some True) \<and>
    untouched fs dst i h2 h1 \<and> receives (cleared n env) env (fs ! i) (dst + data_off fs i) h1"
proof -
  let ?f = "fs ! i" and ?d = "dst + data_off fs i" and ?s = "dst + size_off fs i"
  have m2: "mapped (cells h2) dst sz" "cells h2 0 = None" using hd by (simp_all add: half_done_def)
  have "field_cleared (cleared n env) env ?f h2 ?d ?s"
    using hd p(2) unfolding half_done_def by (metis less_irrefl)
  then have r2: "receives (cleared n env) env ?f ?d h2"
    using m2 mapped_within [OF m2(1) plain_field(3,2) [OF p]] by (simp add: receives_def field_cleared_def)
  show ?thesis
  proof (cases "PB_HTYPE (ftype ?f) = PB_HTYPE_OPTIONAL")
    case True
    have "mapped (cells h2) ?s 1" by (rule mapped_within [OF m2(1) plain_field(4) [OF p True] plain_field(2) [OF p]])
    then obtain h1 where h1: "store_bool h2 ?s True = Some h1" using bool.st_total by blast
    have c1: "changes_only ?s 1 h2 h1" by (rule bool.st_changes [OF h1])
    have maps: "\<And>b m. mapped (cells h1) b m = mapped (cells h2) b m" using c1 by (simp add: changes_only_def)
    have "receives (cleared n env) env ?f ?d h1"
      unfolding receives_def
    proof (intro conjI impI)
      show "cells h1 0 = None" by (rule still_null [OF maps m2(2)])
      show "mapped (cells h1) ?d (unat (data_size ?f))" using r2 maps by (simp add: receives_def)
      assume lt: "PB_LTYPE (ftype ?f) = PB_LTYPE_SUBMESSAGE"
      then obtain k where k: "ptr ?f = Ptr_fields k" "cleared n env (msgs env k) h2 ?d"
        using r2 by (auto simp: receives_def split: fptr.splits)
      from cleared_agree [OF plain_field(5) [OF p lt k(1)] k(2) own_slots_agree(1) [OF p True c1]]
      show "case ptr ?f of Ptr_fields k \<Rightarrow> cleared n env (msgs env k) h1 ?d | _ \<Rightarrow> False" by (simp add: k(1))
    qed
    moreover have "untouched fs dst i h2 h1"
      by (rule slot_untouched [OF p _ c1]) (use True in \<open>simp add: slots_def\<close>)
    ultimately show ?thesis using h1 True bool.st_ld [OF h1] by (intro exI [of _ h1]) (simp add: wr_def)
  next
    case False
    then show ?thesis using r2 untouched_refl by (intro exI [of _ h2]) simp
  qed
qed

lemma decode_present:
  assumes p: "plain (Suc n) env fs sz" "i < length fs" and nm: "\<not> enable_malloc env"
    and hd: "half_done n env fs sz h src dst i h2" and s: "in_ok s" "feed bs s"
    and dec: "PB_DECODERS n env (pb_decode_noinit n env) (PB_LTYPE (ftype (fs ! i))) = Some dec"
    and del: "delivers dec (fs ! i) (dst + data_off fs i) bs (receives (cleared n env) env (fs ! i) (dst + data_off fs i))
      (\<lambda>h3. element_same (msg_same n env) env (fs ! i) h (src + data_off fs i) h3 (dst + data_off fs i))"
    and pres: "PB_HTYPE (ftype (fs ! i)) = PB_HTYPE_OPTIONAL \<longrightarrow> load_bool h (src + size_off fs i) = Some True"
  shows "\<exists>h3. decode_field n env (pb_decode_noinit n env) wt (iter_at fs dst i) (s, h2) =
      Ok (iter_at fs dst i) (advance (length bs) s, h3) \<and> half_done n env fs sz h src dst (Suc i) h3"
proof -
  let ?f = "fs ! i" and ?d = "dst + data_off fs i" and ?s = "dst + size_off fs i"
  from flag_raised [OF p hd, of s] obtain h1 where h1: "(if PB_HTYPE (ftype ?f) = PB_HTYPE_OPTIONAL
      then wr (\<lambda>h. store_bool h ?s True) (s, h2) else Ok () (s, h2)) = Ok () (s, h1)"
    "PB_HTYPE (ftype ?f) = PB_HTYPE_OPTIONAL \<longrightarrow> load_bool h1 ?s = Some True"
    "untouched fs dst i h2 h1" "receives (cleared n env) env ?f ?d h1"
    by (elim exE conjE) (rule that)
  from del [unfolded delivers_def, rule_format, OF s(2) h1(4)]
  obtain h3 where h3: "dec ?f ?d (s, h1) = Ok () (advance (length bs) s, h3)"
    "element_same (msg_same n env) env ?f h (src + data_off fs i) h3 ?d" by (elim exE conjE) (rule that)
  have "mapped (cells h1) dst sz" using h1(3) hd by (simp add: untouched_def half_done_def)
  then have c3: "changes_only ?d (unat (data_size ?f)) h1 h3"
    by (rule decode_plain_value [OF p nm dec s(1) h3(1)])
  have "untouched fs dst i h1 h3" by (rule slot_untouched [OF p _ c3]) (simp add: slots_def)
  then have u: "untouched fs dst i h2 h3" by (rule untouched_trans [OF h1(3)])
  have "PB_HTYPE (ftype ?f) = PB_HTYPE_OPTIONAL \<Longrightarrow> load_bool h3 ?s = Some True"
    using h1(2) load_bool_agree [OF own_slots_agree(2) [OF p _ c3], of ?s] by simp
  then have same: "field_same (msg_same n env) env ?f h (src + data_off fs i) (src + size_off fs i) h3 ?d ?s"
    using pres h3(2) by (simp add: field_same_def)
  have "half_done n env fs sz h src dst (Suc i) h3"
    by (rule half_done_step [OF p hd _ _ same]) (use u in \<open>auto simp: untouched_def\<close>)
  moreover have "decode_field n env (pb_decode_noinit n env) wt (iter_at fs dst i) (s, h2) =
      Ok (iter_at fs dst i) (advance (length bs) s, h3)"
    unfolding plain_decode_field [OF p dec] h1(1) by (simp add: h3(1))
  ultimately show ?thesis by blast
qed

end
