(* ===== verification/Pb_Message.thy ===== *)
theory Pb_Message
  imports Pb_Roundtrip
begin

unbundle bit_operations_syntax

section \<open>Whole messages round-trip\<close>

text \<open>
  The decoder's loop over the chunks of bytes that the encoder wrote for the fields of a plain
  message type, the defaults that precede it, and the round trip of \<^verbatim>\<open>pb_encode\<close> and \<^verbatim>\<open>pb_decode\<close>.
\<close>

subsection \<open>One round of the decoder's loop\<close>

abbreviation scanning :: "pb_field list \<Rightarrow> addr \<Rightarrow> nat \<Rightarrow> u32 list \<Rightarrow> scan" where
  "scanning fs dst j seen \<equiv> \<lparr>sc_iter = iter_at fs dst j, sc_seen = seen, sc_ext_start = 0\<rparr>"

lemma required_before_Suc:
  "i < length fs \<Longrightarrow>
   required_before fs (Suc i) = (if is_required (fs ! i) then Suc (required_before fs i) else required_before fs i)"
  by (simp add: required_before_def take_Suc_conv_app_nth)

lemma required_before_le: "required_before fs i \<le> length (filter is_required fs)"
proof -
  have "length (filter is_required (take i fs @ drop i fs)) = length (filter is_required fs)" by simp
  then show ?thesis unfolding required_before_def filter_append length_append by linarith
qed

lemma seen_ok_next:
  assumes "plain (Suc n) env fs sz" "i < length fs" "seen_ok (required_before fs i) seen"
  shows "seen_ok (required_before fs (Suc i)) (mark_seen (iter_at fs dst i) seen)"
proof (cases "is_required (fs ! i)")
  case True
  have wf: "wf_fields fs" and req: "required_ok fs" using assms(1) by simp_all
  have "required_before fs i < 64" using req required_before_le [of fs i] by (simp add: required_ok_def Let_def)
  from seen_ok_mark [OF assms(3) this required_field_index_iter_at [OF wf assms(2)]]
  show ?thesis using True cur_iter_at [OF wf assms(2)] assms(2)
    by (simp add: required_before_Suc is_required_def)
next
  case False
  then have "mark_seen (iter_at fs dst i) seen = seen"
    using plain_iter(1) [OF assms(1,2)] by (simp add: mark_seen_def is_required_def)
  then show ?thesis using False assms(2,3) by (simp add: required_before_Suc)
qed

lemma tag_bytes_nonempty: "tag_bytes x @ b \<noteq> []"
  by (cases x) (simp add: tag_bytes_def)

lemma feed_in_ok: "feed bs s \<Longrightarrow> unat (bytes_left s) = length bs \<Longrightarrow> in_ok s"
  by (simp add: feed_def in_ok_def)

lemma left_after: "unat (bytes_left s) = length xs + m \<Longrightarrow> unat (bytes_left (advance (length xs) s)) = m"
  by (simp add: unat_sub_of_nat)

lemma decode_round:
  assumes p: "plain (Suc n) env fs sz" "i < length fs" "j < length fs" and nm: "\<not> enable_malloc env"
    and hd: "half_done n env fs sz h src dst i h2"
    and s: "feed (c @ rest) s" "unat (bytes_left s) = length (c @ rest)"
    and c: "c \<noteq> []" "chunk_ok n env fs h src i c"
  shows "\<exists>h3. decode_loop (Suc k) n env (pb_decode_noinit n env) (scanning fs dst j seen) (s, h2) =
      decode_loop k n env (pb_decode_noinit n env)
        (scanning fs dst i (mark_seen (iter_at fs dst i) seen)) (advance (length c) s, h3) \<and>
    half_done n env fs sz h src dst (Suc i) h3"
proof -
  let ?f = "fs ! i"
  have wf: "wf_fields fs" and dt: "distinct_tags fs" using p(1) by simp_all
  obtain wt b dec where cd: "wire_type_of (PB_LTYPE (ftype ?f)) = Some wt" "c = tag_bytes (wt, tag ?f) @ b"
    "PB_DECODERS n env (pb_decode_noinit n env) (PB_LTYPE (ftype ?f)) = Some dec"
    and del: "\<And>dst. delivers dec ?f dst b (receives (cleared n env) env ?f dst)
       (\<lambda>h3. element_same (msg_same n env) env ?f h (src + data_off fs i) h3 dst)"
    and pres: "PB_HTYPE (ftype ?f) = PB_HTYPE_OPTIONAL \<longrightarrow> load_bool h (src + size_off fs i) = Some True"
    using c unfolding chunk_ok_def by blast
  have tg: "tag_ok (wt, tag ?f)"
  proof -
    obtain wt' where "wire_type_of (PB_LTYPE (ftype ?f)) = Some wt'" "wt' < 8"
      by (rule plain_coders [OF p(1,2)])
    moreover have "tag ?f \<noteq> 0" using wf p(2) by (simp add: wf_fields_def)
    moreover have "tag ?f < 2 ^ 29" using plain_field(1) [OF p(1,2)] by (simp add: field_plain_def)
    ultimately show ?thesis using cd(1) by (simp add: tag_ok_def word_gt_0)
  qed
  have fd: "feed (tag_bytes (wt, tag ?f)) s" "feed (b @ rest) (advance (length (tag_bytes (wt, tag ?f))) s)"
    using s(1) unfolding cd(2) append_assoc by (simp_all only: feed_append)
  let ?s1 = "advance (length (tag_bytes (wt, tag ?f))) s"
  have left: "unat (bytes_left ?s1) = length (b @ rest)"
    by (rule left_after) (simp add: s(2) cd(2))
  have find: "pb_field_iter_find (iter_at fs dst j) (tag ?f) = Some (iter_at fs dst i, True)"
    by (rule pb_field_iter_find_distinct [OF wf dt p(3,2) plain_iter(5) [OF p(1,2)]])
  obtain h3 where h3: "decode_field n env (pb_decode_noinit n env) wt (iter_at fs dst i) (?s1, h2) =
      Ok (iter_at fs dst i) (advance (length b) ?s1, h3)"
    "half_done n env fs sz h src dst (Suc i) h3"
    using decode_present [OF p(1,2) nm hd feed_in_ok [OF fd(2) left] _ cd(3) del pres, of wt] fd(2)
    by (auto simp only: feed_append)
  have ne: "bytes_left s \<noteq> 0" using s(2) c(1) by auto
  have "decode_tagged n env (pb_decode_noinit n env) (tag ?f) wt (scanning fs dst j seen) (?s1, h2) =
      Ok (scanning fs dst i (mark_seen (iter_at fs dst i) seen)) (advance (length c) s, h3)"
    using h3(1) cd(2) by (simp add: decode_tagged_def find)
  then have "decode_loop (Suc k) n env (pb_decode_noinit n env) (scanning fs dst j seen) (s, h2) =
      decode_loop k n env (pb_decode_noinit n env)
        (scanning fs dst i (mark_seen (iter_at fs dst i) seen)) (advance (length c) s, h3)"
    using ne pb_decode_tag_bytes [OF tg fd(1)] by (simp add: on_stream_def)
  with h3(2) show ?thesis by blast
qed

text \<open>All the rounds: the iterator ends on some field, and every field is decoded.\<close>

lemma decode_chunks:
  assumes p: "plain (Suc n) env fs sz" and nm: "\<not> enable_malloc env"
  shows "length cs = length fs - i \<Longrightarrow> i \<le> length fs \<Longrightarrow> j < length fs \<Longrightarrow>
    half_done n env fs sz h src dst i h2 \<Longrightarrow> feed (concat cs) s \<Longrightarrow>
    unat (bytes_left s) = length (concat cs) \<Longrightarrow> \<forall>m < length cs. chunk_ok n env fs h src (i + m) (cs ! m) \<Longrightarrow>
    seen_ok (required_before fs i) seen \<Longrightarrow> length (concat cs) < k \<Longrightarrow>
    \<exists>j' h3 seen'. decode_loop k n env (pb_decode_noinit n env) (scanning fs dst j seen) (s, h2) =
        Ok (scanning fs dst j' seen') (advance (length (concat cs)) s, h3) \<and> j' < length fs \<and>
      half_done n env fs sz h src dst (length fs) h3 \<and> seen_ok (required_before fs (length fs)) seen'"
proof (induction cs arbitrary: i j h2 s seen k)
  case Nil
  then have "i = length fs" "bytes_left s = 0" by (simp_all add: unsigned_eq_0_iff)
  with Nil.prems show ?case by (cases k) auto
next
  case (Cons c cs)
  have i: "i < length fs" using Cons.prems(1) by simp
  have c: "chunk_ok n env fs h src i c" using Cons.prems(7) by (auto dest: spec [of _ 0])
  have cs: "\<forall>m < length cs. chunk_ok n env fs h src (Suc i + m) (cs ! m)"
    using Cons.prems(7) by auto
  have len: "length cs = length fs - Suc i" "Suc i \<le> length fs" using Cons.prems(1) i by simp_all
  have fd: "feed (c @ concat cs) s" "unat (bytes_left s) = length (c @ concat cs)"
    using Cons.prems(5,6) by simp_all
  show ?case
  proof (cases "c = []")
    case True
    then have o: "PB_HTYPE (ftype (fs ! i)) = PB_HTYPE_OPTIONAL" "load_bool h (src + size_off fs i) = Some False"
      using c tag_bytes_nonempty unfolding chunk_ok_def by blast+
    then have "\<not> is_required (fs ! i)" by (auto simp: is_required_def pb_consts)
    then have "seen_ok (required_before fs (Suc i)) seen" using Cons.prems(8) i by (simp add: required_before_Suc)
    from Cons.IH [OF len Cons.prems(3) half_done_absent [OF p Cons.prems(4) i o] _ _ cs this, of s k] fd Cons.prems(9)
    show ?thesis using True by simp
  next
    case False
    obtain m where k: "k = Suc m" using Cons.prems(9) by (cases k) auto
    from decode_round [OF p i Cons.prems(3) nm Cons.prems(4) fd False c, of m seen]
    obtain h3 where h3: "decode_loop k n env (pb_decode_noinit n env) (scanning fs dst j seen) (s, h2) =
        decode_loop m n env (pb_decode_noinit n env)
          (scanning fs dst i (mark_seen (iter_at fs dst i) seen)) (advance (length c) s, h3)"
      "half_done n env fs sz h src dst (Suc i) h3" unfolding k by blast
    have rest: "feed (concat cs) (advance (length c) s)" using fd(1) by (simp only: feed_append)
    have left: "unat (bytes_left (advance (length c) s)) = length (concat cs)"
      by (rule left_after) (simp add: fd(2))
    have "length (concat cs) < m" using Cons.prems(9) False k by (cases c) auto
    from Cons.IH [OF len i h3(2) rest left cs seen_ok_next [OF p i Cons.prems(8)] this]
    show ?thesis unfolding h3(1) by (simp add: add.commute)
  qed
qed

subsection \<open>What the encoder writes, the decoder reads\<close>

lemma noinit_after:
  assumes p: "plain (Suc n) env fs sz" and j: "j < length fs" and seen: "seen_ok (required_before fs (length fs)) seen"
    and loop: "decode_loop (Suc (unat (bytes_left s))) n env (pb_decode_noinit n env) (scanning fs dst 0 [0, 0]) (s, h2) =
      Ok (scanning fs dst j seen) st"
  shows "pb_decode_noinit (Suc n) env fs dst (s, h2) = Ok () st"
proof -
  have wf: "wf_fields fs" and req: "required_ok fs" using p by simp_all
  have "required_before fs (length fs) = length (filter is_required fs)" by (simp add: required_before_def)
  then have "all_required_seen (req_field_count (iter_at fs dst j)) seen = Some True"
    using seen_ok_complete [OF seen] req req_field_count_iter_at [OF wf j, of dst]
    by (simp add: required_ok_def Let_def)
  then show ?thesis using loop by (simp add: iter_at.simps del: decode_loop.simps)
qed

lemma plain_transports:
  "plain n env fs sz \<Longrightarrow> \<not> enable_malloc env \<Longrightarrow> cells h 0 = None \<Longrightarrow> mapped (cells h) src sz \<Longrightarrow>
   strings_end n env fs h src \<Longrightarrow> msg_transports n env fs sz h src"
proof (induction n arbitrary: fs sz src)
  case (Suc n)
  note p = Suc.prems(1)
  have wf: "wf_fields fs" "fs \<noteq> []" using p by simp_all
  show ?case
    unfolding msg_transports_def
  proof (intro allI impI)
    fix s u t h' assume b: "buffered s" and e: "pb_encode (Suc n) env fs src (s, h) = Ok u (t, h')"
    have z: "0 < length fs" using wf(2) by simp
    obtain cs where cs: "length cs = length fs - 0" "wrote s (concat cs) t"
      "\<forall>m < length cs. chunk_ok n env fs h src (0 + m) (cs ! m)"
      using message_chunks [OF p Suc.prems(3-5) _ z b, of u t h'] e Suc.IH [OF _ Suc.prems(2)]
      unfolding pb_encode_walk [OF wf] by blast
    show "\<exists>bs. wrote s bs t \<and> (\<forall>dst s2 h2. feed bs s2 \<longrightarrow> unat (bytes_left s2) = length bs \<longrightarrow>
        cells h2 0 = None \<longrightarrow> mapped (cells h2) dst sz \<longrightarrow> cleared (Suc n) env fs h2 dst \<longrightarrow>
        (\<exists>h3. pb_decode_noinit (Suc n) env fs dst (s2, h2) = Ok () (advance (length bs) s2, h3) \<and>
          msg_same (Suc n) env fs h src h3 dst))"
    proof (intro exI [of _ "concat cs"] conjI allI impI)
      fix dst s2 h2 assume fd: "feed (concat cs) s2" "unat (bytes_left s2) = length (concat cs)"
        and m: "cells h2 0 = None" "mapped (cells h2) dst sz" and cl: "cleared (Suc n) env fs h2 dst"
      have hd: "half_done n env fs sz h src dst 0 h2" using m cl by (simp add: half_done_def)
      have st: "seen_ok (required_before fs 0) [0, 0]" using seen_ok_start by (simp add: required_before_def)
      have k: "length (concat cs) < Suc (unat (bytes_left s2))" using fd(2) by simp
      from decode_chunks [OF p Suc.prems(2) cs(1) le0 z hd fd cs(3) st k]
      obtain j' h3 seen' where d: "decode_loop (Suc (unat (bytes_left s2))) n env (pb_decode_noinit n env)
          (scanning fs dst 0 [0, 0]) (s2, h2) = Ok (scanning fs dst j' seen') (advance (length (concat cs)) s2, h3)"
        "j' < length fs" "half_done n env fs sz h src dst (length fs) h3" "seen_ok (required_before fs (length fs)) seen'"
        by blast
      have "msg_same (Suc n) env fs h src h3 dst" using d(3) by (simp add: half_done_def)
      with noinit_after [OF p d(2,4,1)]
      show "\<exists>h3. pb_decode_noinit (Suc n) env fs dst (s2, h2) = Ok () (advance (length (concat cs)) s2, h3) \<and>
          msg_same (Suc n) env fs h src h3 dst" by blast
    qed (rule cs(2))
  qed
qed simp

subsection \<open>Defaults\<close>

lemma copy_default_stores:
  assumes "default_ok f" "PB_LTYPE (ftype f) \<noteq> PB_LTYPE_SUBMESSAGE" "mapped (cells h) d (unat (data_size f))"
  shows "\<exists>h1. copy_default f d (s, h) = Ok () (s, h1) \<and> changes_only d (unat (data_size f)) h h1"
proof -
  have b: "unat (data_size f) \<le> 2 ^ 64" using data_size_bound [of f] by simp
  have st: "\<exists>h1. store h d bs = Some h1 \<and> changes_only d (unat (data_size f)) h h1"
    if "length bs = unat (data_size f)" for bs
    using store_changes [of bs h d] that b assms(3) by simp
  show ?thesis
  proof (cases "ptr f")
    case Ptr_null
    with st [of "replicate (unat (data_size f)) 0"] show ?thesis
      by (auto simp: copy_default_def wr_def memset_zero_def)
  next
    case (Ptr_fields k)
    with assms(1,2) show ?thesis by (simp add: default_ok_def)
  next
    case (Ptr_default bs)
    with assms(1,2) have "unat (data_size f) \<le> length bs" by (simp add: default_ok_def)
    with st [of "take (unat (data_size f)) bs"] Ptr_default show ?thesis
      by (auto simp: copy_default_def wr_def)
  qed
qed

text \<open>Setting one field to its default.\<close>

lemma plain_default_one:
  assumes p: "plain (Suc n) env fs sz" "i < length fs" and m: "mapped (cells h) dst sz"
    and IH: "\<And>k (h :: heap) d l. plain n env (msgs env k) l \<Longrightarrow> mapped (cells h) d l \<Longrightarrow>
      \<exists>h1. message_walk (pb_field_set_to_default n env) (msgs env k) d (s, h) = Ok () (s, h1) \<and>
        changes_only d l h h1 \<and> cleared n env (msgs env k) h1 d"
  shows "\<exists>h1. pb_field_set_to_default (Suc n) env (iter_at fs dst i) (s, h) = Ok () (s, h1) \<and>
    changes_only dst sz h h1 \<and> untouched fs dst i h h1 \<and>
    field_cleared (cleared n env) env (fs ! i) h1 (dst + data_off fs i) (dst + size_off fs i)"
proof -
  let ?f = "fs ! i" and ?d = "dst + data_off fs i" and ?s = "dst + size_off fs i"
  note pf = plain_field [OF p]
  have f: "PB_ATYPE (ftype ?f) = PB_ATYPE_STATIC" "default_ok ?f"
    "PB_HTYPE (ftype ?f) = PB_HTYPE_REQUIRED \<or> PB_HTYPE (ftype ?f) = PB_HTYPE_OPTIONAL"
    using pf(1) by (auto simp: field_plain_def)
  define flag where "flag = (PB_HTYPE (ftype ?f) = PB_HTYPE_OPTIONAL)"
  obtain h0 where h0: "(if flag then wr (\<lambda>h. store_bool h ?s False) (s, h) else Ok () (s, h)) = Ok () (s, h0)"
    "flag \<longrightarrow> load_bool h0 ?s = Some False" "changes_only dst sz h h0" "untouched fs dst i h h0"
  proof (cases flag)
    case True
    have w: "within dst sz ?s 1" using True pf(4) by (simp add: flag_def)
    obtain h0 where h0: "store_bool h ?s False = Some h0" using bool.st_total mapped_within [OF m w pf(2)] by blast
    have c: "changes_only ?s 1 h h0" by (rule bool.st_changes [OF h0])
    have "untouched fs dst i h h0" by (rule slot_untouched [OF p _ c]) (use True in \<open>simp add: slots_def flag_def\<close>)
    with True h0 bool.st_ld [OF h0] changes_only_within [OF c w pf(2)] that [of h0] show thesis by (simp add: wr_def)
  next
    case False
    with that [of h] untouched_refl show thesis by simp
  qed
  have m0: "mapped (cells h0) ?d (unat (data_size ?f))"
    using mapped_within [OF m pf(3,2)] h0(3) by (simp add: changes_only_def)
  define init where "init = (if PB_LTYPE (ftype ?f) = PB_LTYPE_SUBMESSAGE
     then (case ptr ?f of
        Ptr_fields k \<Rightarrow> message_walk (pb_field_set_to_default n env) (msgs env k) ?d (s, h0) | _ \<Rightarrow> Fault)
     else copy_default ?f ?d (s, h0))"
  obtain h1 where h1: "init = Ok () (s, h1)" "changes_only ?d (unat (data_size ?f)) h0 h1"
    "PB_LTYPE (ftype ?f) = PB_LTYPE_SUBMESSAGE \<longrightarrow>
       (case ptr ?f of Ptr_fields k \<Rightarrow> cleared n env (msgs env k) h1 ?d | _ \<Rightarrow> False)"
  proof (cases "PB_LTYPE (ftype ?f) = PB_LTYPE_SUBMESSAGE")
    case True
    then obtain k where k: "ptr ?f = Ptr_fields k"
      using pf(1) by (auto simp: field_plain_def element_plain_def Let_def pb_consts split: fptr.splits)
    from IH [OF pf(5) [OF True k] m0] True k that show thesis by (auto simp: init_def)
  next
    case False
    from copy_default_stores [OF f(2) False m0, of s] False that show thesis by (auto simp: init_def)
  qed
  have u: "untouched fs dst i h h1"
    by (rule untouched_trans [OF h0(4) slot_untouched [OF p _ h1(2)]]) (simp add: slots_def)
  have "flag \<longrightarrow> load_bool h1 ?s = Some False"
    using h0(2) load_bool_agree [OF own_slots_agree(2) [OF p _ h1(2)], of ?s] by (simp add: flag_def)
  with h1(3) have cl: "field_cleared (cleared n env) env ?f h1 ?d ?s" by (simp add: field_cleared_def flag_def)
  have ch: "changes_only dst sz h h1"
    by (rule changes_only_trans [OF h0(3) changes_only_within [OF h1(2) pf(3,2)]])
  have it: "cur (iter_at fs dst i) = ?f" "pData (iter_at fs dst i) = ?d" "pSize (iter_at fs dst i) = ?s"
    using plain_iter(1-3) [OF p] by auto
  have ne: "flag \<Longrightarrow> ?s \<noteq> ?d" using own_flag_apart(2) [OF p] by (simp add: flag_def)
  have eq: "pb_field_set_to_default (Suc n) env (iter_at fs dst i) (s, h) = Ok () (s, h1)"
    using h0(1) h1(1) f(1,3) ne plain_iter(5) [OF p]
    by (auto simp: it Let_def init_def flag_def pb_consts split: if_splits fptr.splits)
  show ?thesis using eq ch u cl by blast
qed

lemma okay_Ok: "okay P (\<lambda>_. False) m \<Longrightarrow> \<exists>a s. m = Ok a s \<and> P a s"
  by (cases m) auto

lemma defaults_clear:
  "plain n env fs sz \<Longrightarrow> mapped (cells h) dst sz \<Longrightarrow>
    \<exists>h1. message_walk (pb_field_set_to_default n env) fs dst (s, h) = Ok () (s, h1) \<and>
      changes_only dst sz h h1 \<and> cleared n env fs h1 dst"
proof (induction n arbitrary: fs sz h dst)
  case (Suc n)
  note p = Suc.prems(1)
  have wf: "wf_fields fs" "fs \<noteq> []" using p by simp_all
  define clr where "clr h' k \<longleftrightarrow>
    field_cleared (cleared n env) env (fs ! k) h' (dst + data_off fs k) (dst + size_off fs k)" for h' k
  define I where "I j st \<longleftrightarrow> fst st = s \<and> changes_only dst sz h (snd st) \<and> (\<forall>k < j. clr (snd st) k)"
    for j :: nat and st
  have one: "okay (\<lambda>_ st'. I (Suc j) st') (\<lambda>_. False) (pb_field_set_to_default (Suc n) env (iter_at fs dst j) st)"
    if j: "j < length fs" and I: "I j st" for j st
  proof -
    obtain h' where st: "st = (s, h')" and c: "changes_only dst sz h h'" and d: "\<forall>k < j. clr h' k"
      using I by (cases st) (auto simp: I_def)
    have m: "mapped (cells h') dst sz" using c Suc.prems(2) by (simp add: changes_only_def)
    obtain h1 where h1: "pb_field_set_to_default (Suc n) env (iter_at fs dst j) (s, h') = Ok () (s, h1)"
      "changes_only dst sz h' h1" "untouched fs dst j h' h1" "clr h1 j"
      using plain_default_one [OF p j m, of s] Suc.IH unfolding clr_def by blast
    have "clr h1 k" if k: "k < Suc j" for k
    proof (cases "k = j")
      case False
      then have kj: "k < j" "k < length fs" using k j by simp_all
      then show ?thesis
        using field_cleared_agree [OF p kj(2), of dst h' h1] h1(3) d False by (simp add: untouched_def clr_def)
    qed (use h1(4) in simp)
    then have "I (Suc j) (s, h1)" using changes_only_trans [OF c h1(2)] by (simp add: I_def)
    then show ?thesis by (simp only: st h1(1) okay.simps)
  qed
  have "okay (\<lambda>_ st'. I (length fs) st') (\<lambda>_. False)
      (iter_do_while (pb_field_set_to_default (Suc n) env) (iter_at fs dst 0) (s, h))"
    by (rule iter_do_while_okay [OF wf(1), where I = I]) (use one wf(2) in \<open>auto simp: I_def\<close>)
  then obtain h1 where h1: "iter_do_while (pb_field_set_to_default (Suc n) env) (iter_at fs dst 0) (s, h) = Ok () (s, h1)"
    "I (length fs) (s, h1)"
    by (auto dest!: okay_Ok simp: I_def)
  moreover have "message_walk (pb_field_set_to_default (Suc n) env) fs dst (s, h) =
      iter_do_while (pb_field_set_to_default (Suc n) env) (iter_at fs dst 0) (s, h)"
    using begin_nonempty [OF wf(1), of dst] wf(2) by (simp add: message_walk_def case_prod_beta iter_at.simps)
  moreover have "cleared (Suc n) env fs h1 dst" using h1(2) by (simp add: I_def clr_def)
  moreover have "changes_only dst sz h h1" using h1(2) by (simp add: I_def)
  ultimately show ?case by (intro exI [of _ h1] conjI) (simp_all only:)
qed simp

subsection \<open>The round trip\<close>

lemma plain_message_roundtrip:
  assumes p: "plain n env fs sz" and nm: "\<not> enable_malloc env"
    and src: "cells h 0 = None" "mapped (cells h) src sz" "strings_end n env fs h src"
    and b: "buffered s" and e: "pb_encode n env fs src (s, h) = Ok u (t, h')"
  shows "h' = h \<and> (\<exists>bs. wrote s bs t \<and> (\<forall>dst s2 h2. feed bs s2 \<longrightarrow> unat (bytes_left s2) = length bs \<longrightarrow>
    cells h2 0 = None \<longrightarrow> mapped (cells h2) dst sz \<longrightarrow>
    (\<exists>h3. pb_decode n env fs dst (s2, h2) = Ok () (advance (length bs) s2, h3) \<and>
       msg_same n env fs h src h3 dst)))"
proof -
  obtain bs where bs: "wrote s bs t" and noinit: "\<And>dst s2 h2. feed bs s2 \<Longrightarrow> unat (bytes_left s2) = length bs \<Longrightarrow>
      cells h2 0 = None \<Longrightarrow> mapped (cells h2) dst sz \<Longrightarrow> cleared n env fs h2 dst \<Longrightarrow>
      \<exists>h3. pb_decode_noinit n env fs dst (s2, h2) = Ok () (advance (length bs) s2, h3) \<and>
        msg_same n env fs h src h3 dst"
    using plain_transports [OF p nm src] b e unfolding msg_transports_def by blast
  have "\<exists>h3. pb_decode n env fs dst (s2, h2) = Ok () (advance (length bs) s2, h3) \<and> msg_same n env fs h src h3 dst"
    if fd: "feed bs s2" "unat (bytes_left s2) = length bs" and m: "cells h2 0 = None" "mapped (cells h2) dst sz"
    for dst s2 h2
  proof -
    obtain h1 where h1: "pb_message_set_to_defaults n env fs dst (s2, h2) = Ok () (s2, h1)"
      "changes_only dst sz h2 h1" "cleared n env fs h1 dst"
      using defaults_clear [OF p m(2), of s2] unfolding pb_message_set_to_defaults_def by blast
    have maps: "\<And>b n. mapped (cells h1) b n = mapped (cells h2) b n" using h1(2) by (simp add: changes_only_def)
    from noinit [OF fd still_null [OF maps m(1)] _ h1(3)] maps m(2)
    show ?thesis by (auto simp: pb_decode_def decode_after_init_def h1(1))
  qed
  moreover have "h' = h" using pb_encode_keeps [OF p] e unfolding keeps_heap_def by blast
  ultimately show ?thesis using bs by blast
qed

end
