(* ===== verification/Pb_Correct.thy ===== *)
theory Pb_Correct
  imports Pb_Samples Pb_Message Pb_Writer Pb_Reader
begin

unbundle bit_operations_syntax

section \<open>What nanopb guarantees\<close>

text \<open>
  C1. Decoding is memory safe: in a build without malloc, for every message type whose fields lie
  in their struct, and whatever bytes are on the stream, pb_decode has defined behaviour and
  returns; whether it returns true or false it has read only bytes of the stream, changed memory
  only inside the destination struct, and allocated nothing.
\<close>

theorem decode_memory_safe:
  assumes "\<not> enable_malloc env" and "msg_fits n env fs sz"
    and "in_ok s" and "mapped (cells h) base sz"
  shows "okay (\<lambda>_ (t, h'). in_ok t \<and> unat (bytes_left t) \<le> unat (bytes_left s) \<and> changes_only base sz h h')
     (\<lambda>(t, h'). in_ok t \<and> unat (bytes_left t) \<le> unat (bytes_left s) \<and> changes_only base sz h h')
     (pb_decode n env fs base (s, h))"
proof -
  have "ready base sz (s, h)" using assms(3,4) by (simp add: ready_def)
  from tameD [OF pb_decode_tame [OF assms(1,2)] this] show ?thesis
    by (rule okay_mono) (use lag_in_ok [OF assms(3)] lag_unat in \<open>auto simp: after_def\<close>)
qed

theorem decode_memory_safe_witness:
  "okay (\<lambda>_ (t, h'). in_ok t \<and> unat (bytes_left t) \<le> unat (2 :: u64) \<and> changes_only 4096 20 sample_heap h')
     (\<lambda>(t, h'). in_ok t \<and> unat (bytes_left t) \<le> unat (2 :: u64) \<and> changes_only 4096 20 sample_heap h')
     (pb_decode (Suc (Suc 0)) sample_env (message_fields sample_outer) 4096
        (pb_istream_from_buffer [26, 200, 0] 2, sample_heap))"
  using decode_memory_safe [of sample_env "Suc (Suc 0)" "message_fields sample_outer" 20
      "pb_istream_from_buffer [26, 200, 0] 2" sample_heap 4096]
  by (simp add: sample_fits [simplified] sample_mapped in_ok_def pb_istream_from_buffer_def
      sample_env_def [THEN arg_cong [where f = enable_malloc]] del: message_fields.simps)

text \<open>
  C2. Sizing predicts writing: when pb_get_encoded_size succeeds, memory is unchanged and its result
  is the length of one byte sequence, and pb_encode on any buffer stream (unless the source struct
  makes it fault) stores exactly that sequence if the stream has room for it, and otherwise stops
  with a proper prefix of it, an error message and no write past the buffer.
\<close>

theorem sizing_predicts_writing:
  assumes "callbacks_settle h env" and "pb_get_encoded_size n env fs src h = Ok k h'"
  shows "h' = h \<and> (\<exists>bs. k = of_nat (length bs) \<and>
    (\<forall>s. fresh s \<longrightarrow> pb_encode n env fs src (s, h) \<noteq> Fault \<longrightarrow>
      (length bs \<le> space s \<longrightarrow> pb_encode n env fs src (s, h) = Ok () (stored bs s, h)) \<and>
      (space s < length bs \<longrightarrow> unat (bytes_written s) + length bs < 2 ^ 64 \<longrightarrow>
         (\<exists>t. pb_encode n env fs src (s, h) = Fail (t, h) \<and> cut_short bs s t))))"
proof -
  have size: "ocallback PB_OSTREAM_SIZING = None" "bytes_written PB_OSTREAM_SIZING = 0"
    by (simp_all add: PB_OSTREAM_SIZING_def)
  obtain t where t: "pb_encode n env fs src (PB_OSTREAM_SIZING, h) = Ok () (t, h')" "k = bytes_written t"
    using assms(2) by (auto simp: pb_get_encoded_size_def split: outcome.splits)
  with pb_encode_settles [OF assms(1), of n fs src] size(1)
  obtain bs where bs: "sizes h (pb_encode n env fs src) bs" "puts h (pb_encode n env fs src) bs"
    by (auto simp: settles_def unsized_def)
  then have "t = counted bs PB_OSTREAM_SIZING" "h' = h"
    using t(1) size(1) by (auto simp: sizes_def)
  with bs(2) t(2) size(2) show ?thesis unfolding puts_def by (auto intro!: exI [of _ bs])
qed

theorem sizing_predicts_writing_witness:
  "sample_heap = sample_heap \<and> (\<exists>bs. (11 :: u64) = of_nat (length bs) \<and>
    (\<forall>s. fresh s \<longrightarrow> pb_encode 2 sample_env (message_fields sample_outer) 4096 (s, sample_heap) \<noteq> Fault \<longrightarrow>
      (length bs \<le> space s \<longrightarrow>
         pb_encode 2 sample_env (message_fields sample_outer) 4096 (s, sample_heap) = Ok () (stored bs s, sample_heap)) \<and>
      (space s < length bs \<longrightarrow> unat (bytes_written s) + length bs < 2 ^ 64 \<longrightarrow>
         (\<exists>t. pb_encode 2 sample_env (message_fields sample_outer) 4096 (s, sample_heap) = Fail (t, sample_heap) \<and>
            cut_short bs s t))))"
  by (rule sizing_predicts_writing [OF sample_callbacks sample_size])

subsection \<open>The wire format\<close>

text \<open>An emitter and a codec of the same bytes round-trip over a pair of buffers.\<close>

lemma advance_from_buffer:
  "advance (length bs) (pb_istream_from_buffer (bs @ rest) n) =
   pb_istream_from_buffer rest (n - of_nat (length bs))"
  by (simp add: advance_def pb_istream_from_buffer_def)

lemma buffer_roundtrip:
  assumes e: "emitter op (enc a)" and c: "codec enc dec valid" and a: "valid a"
    and s: "out_ok s" "length (enc a) \<le> k" "k \<le> space s"
  shows "\<exists>bs. length bs \<le> k \<and> op s = Ok () (stored bs s) \<and>
    (\<forall>rest n. length bs \<le> unat n \<longrightarrow>
       dec (pb_istream_from_buffer (bs @ rest) n) = Ok a (pb_istream_from_buffer rest (n - of_nat (length bs))))"
proof (intro exI conjI allI impI)
  show "length (enc a) \<le> k" by (rule s(2))
  show "op s = Ok () (stored (enc a) s)" using emitter.stores [OF e] s by simp
  fix rest n assume "length (enc a) \<le> unat (n :: u64)"
  from codec.dec_enc [OF c a feed_from_buffer [OF this]]
  show "dec (pb_istream_from_buffer (enc a @ rest) n) =
      Ok a (pb_istream_from_buffer rest (n - of_nat (length (enc a))))"
    by (simp only: advance_from_buffer)
qed

text \<open>The stream of the witnesses: a buffer of sixteen bytes.\<close>

lemma sample_stream: "out_ok (pb_ostream_from_buffer 16 16)" "k \<le> 16 \<Longrightarrow> k \<le> space (pb_ostream_from_buffer 16 16)"
  by (simp_all add: out_ok_def space_def pb_ostream_from_buffer_def)

text \<open>
  C4. Varint round trip: on a buffer with ten bytes of room the encoder stores at most ten bytes
  for any 64-bit value, and the decoder, given those bytes followed by anything, returns the value
  and stops right after them.
\<close>

theorem varint_roundtrip:
  assumes "out_ok s" and "10 \<le> space s"
  shows "\<exists>bs. length bs \<le> 10 \<and> pb_encode_varint s v = Ok () (stored bs s) \<and>
    (\<forall>rest n. length bs \<le> unat n \<longrightarrow>
       pb_decode_varint (pb_istream_from_buffer (bs @ rest) n) =
       Ok v (pb_istream_from_buffer rest (n - of_nat (length bs))))"
  by (rule buffer_roundtrip [OF write_varint.emitter_axioms varint.codec_axioms TrueI assms(1) length_varint_bytes_le_10 assms(2)])

theorem varint_roundtrip_witness:
  "\<exists>bs. length bs \<le> 10 \<and>
    pb_encode_varint (pb_ostream_from_buffer 16 16) 300 = Ok () (stored bs (pb_ostream_from_buffer 16 16)) \<and>
    (\<forall>rest n. length bs \<le> unat n \<longrightarrow>
       pb_decode_varint (pb_istream_from_buffer (bs @ rest) n) =
       Ok 300 (pb_istream_from_buffer rest (n - of_nat (length bs))))"
  by (rule varint_roundtrip) (simp_all add: sample_stream)

text \<open>
  Signed varint round trip: zig-zag encoding and decoding of any 64-bit signed value are inverse
  through a pair of buffers, in at most ten bytes.
\<close>

theorem svarint_roundtrip:
  assumes "out_ok s" and "10 \<le> space s"
  shows "\<exists>bs. length bs \<le> 10 \<and> pb_encode_svarint s v = Ok () (stored bs s) \<and>
    (\<forall>rest n. length bs \<le> unat n \<longrightarrow>
       pb_decode_svarint (pb_istream_from_buffer (bs @ rest) n) =
       Ok v (pb_istream_from_buffer rest (n - of_nat (length bs))))"
proof -
  have "length (svarint_bytes v) \<le> 10" by (simp add: svarint_bytes_def length_varint_bytes_le_10)
  from buffer_roundtrip [OF write_svarint.emitter_axioms svarint.codec_axioms TrueI assms(1) this assms(2)]
  show ?thesis .
qed

theorem svarint_roundtrip_witness:
  "\<exists>bs. length bs \<le> 10 \<and>
    pb_encode_svarint (pb_ostream_from_buffer 16 16) (- 3) = Ok () (stored bs (pb_ostream_from_buffer 16 16)) \<and>
    (\<forall>rest n. length bs \<le> unat n \<longrightarrow>
       pb_decode_svarint (pb_istream_from_buffer (bs @ rest) n) =
       Ok (- 3) (pb_istream_from_buffer rest (n - of_nat (length bs))))"
  by (rule svarint_roundtrip) (simp_all add: sample_stream)

text \<open>
  Tag round trip: a field tag with a wire type below eight and a field number between one and
  2^29 - 1 is written in at most five bytes, and pb_decode_tag reads the same wire type and number
  back, without reporting the end of the message.
\<close>

theorem tag_roundtrip:
  assumes "out_ok s" and "5 \<le> space s" and "wt < 8" and "0 < num" and "num < 2 ^ 29"
  shows "\<exists>bs. length bs \<le> 5 \<and> pb_encode_tag s wt num = Ok () (stored bs s) \<and>
    (\<forall>rest n. length bs \<le> unat n \<longrightarrow>
       pb_decode_tag (pb_istream_from_buffer (bs @ rest) n) =
       Ok (True, wt, num, False) (pb_istream_from_buffer rest (n - of_nat (length bs))))"
proof (intro exI conjI allI impI)
  have ok: "tag_ok (wt, num)" using assms by (simp add: tag_ok_def)
  show l: "length (tag_bytes (wt, num)) \<le> 5"
    using length_varint_bytes_bound [of "tag_word wt num" 5] tag_word_parts(4) [OF ok]
    by (simp add: tag_bytes_def)
  show "pb_encode_tag s wt num = Ok () (stored (tag_bytes (wt, num)) s)"
    using write_tag.stores l assms(1,2) by simp
  fix rest n assume n: "length (tag_bytes (wt, num)) \<le> unat (n :: u64)"
  show "pb_decode_tag (pb_istream_from_buffer (tag_bytes (wt, num) @ rest) n) =
      Ok (True, wt, num, False) (pb_istream_from_buffer rest (n - of_nat (length (tag_bytes (wt, num)))))"
    using pb_decode_tag_bytes [OF ok feed_from_buffer [OF n, of rest]] by (simp only: advance_from_buffer)
qed

theorem tag_roundtrip_witness:
  "\<exists>bs. length bs \<le> 5 \<and>
    pb_encode_tag (pb_ostream_from_buffer 16 16) 2 1000 = Ok () (stored bs (pb_ostream_from_buffer 16 16)) \<and>
    (\<forall>rest n. length bs \<le> unat n \<longrightarrow>
       pb_decode_tag (pb_istream_from_buffer (bs @ rest) n) =
       Ok (True, 2, 1000, False) (pb_istream_from_buffer rest (n - of_nat (length bs))))"
  by (rule tag_roundtrip) (simp_all add: sample_stream)

text \<open>
  Fixed-width round trip: 32-bit and 64-bit values are written in exactly four and eight bytes
  and read back unchanged.
\<close>

theorem fixed_roundtrip:
  assumes "out_ok s" and "8 \<le> space s"
  shows "(\<exists>bs. length bs = 4 \<and> pb_encode_fixed32 s v = Ok () (stored bs s) \<and>
      (\<forall>rest n. length bs \<le> unat n \<longrightarrow> pb_decode_fixed32 (pb_istream_from_buffer (bs @ rest) n) =
         Ok v (pb_istream_from_buffer rest (n - of_nat (length bs))))) \<and>
    (\<exists>bs. length bs = 8 \<and> pb_encode_fixed64 s w = Ok () (stored bs s) \<and>
      (\<forall>rest n. length bs \<le> unat n \<longrightarrow> pb_decode_fixed64 (pb_istream_from_buffer (bs @ rest) n) =
         Ok w (pb_istream_from_buffer rest (n - of_nat (length bs)))))"
proof (intro conjI exI allI impI)
  show "pb_encode_fixed32 s v = Ok () (stored (fixed32_bytes v) s)"
    "pb_encode_fixed64 s w = Ok () (stored (fixed64_bytes w) s)"
    using write_fixed32.stores write_fixed64.stores assms by simp_all
  fix rest n assume n: "length (fixed32_bytes v) \<le> unat (n :: u64)"
  from fixed32.dec_enc [OF TrueI feed_from_buffer [OF n]]
  show "pb_decode_fixed32 (pb_istream_from_buffer (fixed32_bytes v @ rest) n) =
      Ok v (pb_istream_from_buffer rest (n - of_nat (length (fixed32_bytes v))))"
    by (simp only: advance_from_buffer)
next
  fix rest n assume n: "length (fixed64_bytes w) \<le> unat (n :: u64)"
  from fixed64.dec_enc [OF TrueI feed_from_buffer [OF n]]
  show "pb_decode_fixed64 (pb_istream_from_buffer (fixed64_bytes w @ rest) n) =
      Ok w (pb_istream_from_buffer rest (n - of_nat (length (fixed64_bytes w))))"
    by (simp only: advance_from_buffer)
qed simp_all

theorem fixed_roundtrip_witness:
  "(\<exists>bs. length bs = 4 \<and>
      pb_encode_fixed32 (pb_ostream_from_buffer 16 16) 258 = Ok () (stored bs (pb_ostream_from_buffer 16 16)) \<and>
      (\<forall>rest n. length bs \<le> unat n \<longrightarrow> pb_decode_fixed32 (pb_istream_from_buffer (bs @ rest) n) =
         Ok 258 (pb_istream_from_buffer rest (n - of_nat (length bs))))) \<and>
    (\<exists>bs. length bs = 8 \<and>
      pb_encode_fixed64 (pb_ostream_from_buffer 16 16) 259 = Ok () (stored bs (pb_ostream_from_buffer 16 16)) \<and>
      (\<forall>rest n. length bs \<le> unat n \<longrightarrow> pb_decode_fixed64 (pb_istream_from_buffer (bs @ rest) n) =
         Ok 259 (pb_istream_from_buffer rest (n - of_nat (length bs)))))"
  by (rule fixed_roundtrip) (simp_all add: sample_stream)

text \<open>
  The 32-bit varint decoder truncates: a varint whose value needs 33 to 35 bits is accepted, and
  the bits above the 32nd are dropped without an error.
\<close>

theorem varint32_truncates:
  assumes "unat v < 2 ^ 35" and "length (varint_bytes v) \<le> unat n"
  shows "pb_decode_varint32 (pb_istream_from_buffer (varint_bytes v @ rest) n) =
    Ok (ucast v) (pb_istream_from_buffer rest (n - of_nat (length (varint_bytes v))))"
  using pb_decode_varint32_bytes [OF feed_from_buffer [OF assms(2), of rest] assms(1)]
  by (simp only: advance_from_buffer)

theorem varint32_truncates_witness:
  "pb_decode_varint32 (pb_istream_from_buffer (varint_bytes 0x100000005 @ [7]) 9) =
    Ok 5 (pb_istream_from_buffer [7] (9 - of_nat (length (varint_bytes 0x100000005))))"
proof -
  have "length (varint_bytes 0x100000005) \<le> 5" by (rule length_varint_bytes_bound) simp_all
  then show ?thesis using varint32_truncates [of "0x100000005" 9 "[7]"] by simp
qed

lemma varint_loop_overflow:
  "feed bs s \<Longrightarrow> \<forall>b \<in> set bs. b AND 0x80 \<noteq> 0 \<Longrightarrow> length bs \<le> 10 \<Longrightarrow>
   unat bitpos = 7 * (10 - length bs) \<Longrightarrow>
   varint_loop s bitpos r = return_error (advance (length bs) s) ''varint overflow''"
proof (induction bs arbitrary: s bitpos r)
  case Nil
  then have "64 \<le> bitpos" by (simp add: word_le_nat_alt)
  then show ?case by (simp add: varint_loop.simps [of s])
next
  case (Cons b bs)
  then have f: "feed [b] s" "feed bs (advance 1 s)" using feed_Cons [of b bs s] by simp_all
  have small: "unat bitpos \<le> 63" using Cons.prems(3,4) by simp
  then have bp: "\<not> 64 \<le> bitpos" "bitpos < 64" by (simp_all add: word_less_nat_alt word_le_nat_alt)
  have "7 * (10 - length bs) = unat bitpos + 7" using Cons.prems(3,4) by simp
  then have "unat (bitpos + 7) = 7 * (10 - length bs)" using unat_bitpos_add_7 [OF bp(2)] by simp
  with Cons.IH [OF f(2)] Cons.prems(2,3) feed_pb_readbyte [OF f(1)] bp show ?case
    by (simp add: varint_loop.simps [of s] Let_def)
qed

text \<open>
  Overlong varints are rejected: if ten bytes in a row have the continuation bit, the 64-bit
  decoder consumes exactly those ten and fails with the message ``varint overflow''; it never
  shifts by 64 or more and never reads an eleventh byte.
\<close>

theorem overlong_varint_rejected:
  assumes "length bs = 10" and "\<forall>b \<in> set bs. b AND 0x80 \<noteq> 0" and "10 \<le> unat n"
  shows "pb_decode_varint (pb_istream_from_buffer (bs @ rest) n) =
    Fail ((pb_istream_from_buffer rest (n - 10))\<lparr>errmsg := Some ''varint overflow''\<rparr>)"
proof -
  have "feed bs (pb_istream_from_buffer (bs @ rest) n)" using assms by (intro feed_from_buffer) simp
  from varint_loop_overflow [OF this assms(2), of 0 0] assms(1) advance_from_buffer [of bs rest n]
  show ?thesis
    by (simp add: pb_decode_varint_def return_error_def PB_SET_ERROR_def)
       (simp add: pb_istream_from_buffer_def)
qed

theorem overlong_varint_rejected_witness:
  "pb_decode_varint (pb_istream_from_buffer (replicate 10 0xFF @ [1]) 11) =
    Fail ((pb_istream_from_buffer [1] (11 - 10))\<lparr>errmsg := Some ''varint overflow''\<rparr>)"
  by (rule overlong_varint_rejected) simp_all

lemma pb_skip_varint_bytes:
  "feed (varint_bytes v) s \<Longrightarrow> pb_skip_varint s = Ok () (advance (length (varint_bytes v)) s)"
proof (induction v arbitrary: s rule: varint_bytes.induct)
  case (1 v)
  show ?case
  proof (cases "v \<le> 0x7F")
    case True
    with "1.prems" have "feed [ucast v] s" by (simp add: varint_bytes_small)
    from feed_pb_read [OF this, of 1 False] True show ?thesis
      by (simp add: pb_skip_varint.simps [of s] ucast_small_top varint_bytes_small)
  next
    case False
    let ?b = "ucast ((v AND 0x7F) OR 0x80 :: u64) :: byte"
    have "feed (?b # varint_bytes (drop_bit 7 v)) s"
      using "1.prems" False by (simp add: varint_bytes_large)
    then have f: "feed [?b] s" "feed (varint_bytes (drop_bit 7 v)) (advance 1 s)"
      using feed_Cons [of ?b _ s] by blast+
    have "pb_skip_varint s = pb_skip_varint (advance 1 s)"
      using feed_pb_read [OF f(1), of 1 False] varint_byte_top [of v] by (simp add: pb_skip_varint.simps [of s])
    with "1.IH" [OF False f(2)] False show ?thesis by (simp add: varint_bytes_large)
  qed
qed

lemma down_of_nat: "(ucast (of_nat n :: u64) :: u32) = of_nat n"
  by (rule bit_word_eqI) (auto simp: bit_simps)

lemma pb_skip_string_bytes:
  assumes "feed (string_bytes bs) s" "length bs < 2 ^ 32"
  shows "pb_skip_string s = Ok () (advance (length (string_bytes bs)) s)"
proof -
  have f: "feed (varint_bytes (of_nat (length bs))) s"
    "feed bs (advance (length (varint_bytes (of_nat (length bs)))) s)"
    using assms(1) by (simp_all add: string_bytes_def feed_append)
  have u: "unat (of_nat (length bs) :: u64) = length bs" by (rule unat_of_nat_id) (use assms(2) in simp)
  then have d: "pb_decode_varint32 s = Ok (of_nat (length bs)) (advance (length (varint_bytes (of_nat (length bs)))) s)"
    using pb_decode_varint32_bytes [OF f(1)] assms(2) by (simp add: down_of_nat)
  show ?thesis
    using feed_pb_read [OF f(2) refl, of True] d ucast_of_nat_32 [OF assms(2)]
    by (simp add: pb_skip_string_def string_bytes_def)
qed

text \<open>
  C7. Skipping an unknown field consumes exactly its payload: on a varint, a length-delimited string
  shorter than 2^32, and four or eight fixed bytes, pb_skip_field with the matching wire type stops
  right after them; with any other wire type it fails and reads nothing.
\<close>

theorem skip_consumes_payload:
  "(feed (varint_bytes v) s \<longrightarrow> pb_skip_field s PB_WT_VARINT = Ok () (advance (length (varint_bytes v)) s)) \<and>
   (feed (string_bytes bs) s \<and> length bs < 2 ^ 32 \<longrightarrow>
      pb_skip_field s PB_WT_STRING = Ok () (advance (length (string_bytes bs)) s)) \<and>
   (feed (fixed32_bytes x) s \<longrightarrow> pb_skip_field s PB_WT_32BIT = Ok () (advance 4 s)) \<and>
   (feed (fixed64_bytes y) s \<longrightarrow> pb_skip_field s PB_WT_64BIT = Ok () (advance 8 s)) \<and>
   (wt \<notin> {PB_WT_VARINT, PB_WT_STRING, PB_WT_32BIT, PB_WT_64BIT} \<longrightarrow>
      pb_skip_field s wt = return_error s ''invalid wire_type'')"
  using pb_skip_varint_bytes [of v s] pb_skip_string_bytes [of bs s]
    feed_pb_read [of "fixed32_bytes x" s 4 True] feed_pb_read [of "fixed64_bytes y" s 8 True]
  by (auto simp: pb_skip_field_def pb_consts)

theorem skip_consumes_payload_witness:
  "pb_skip_field (pb_istream_from_buffer (string_bytes [1, 2, 3] @ [9]) 5) PB_WT_STRING =
     Ok () (advance (length (string_bytes [1, 2, 3])) (pb_istream_from_buffer (string_bytes [1, 2, 3] @ [9]) 5))"
proof -
  have "length (string_bytes [1, 2, 3]) \<le> unat (5 :: u64)"
    by (simp add: string_bytes_def varint_bytes_small)
  from skip_consumes_payload [of _ "pb_istream_from_buffer (string_bytes [1, 2, 3] @ [9]) 5" "[1, 2, 3]"]
    feed_from_buffer [OF this, of "[9]"] show ?thesis by simp
qed

subsection \<open>Whole messages\<close>

lemma sample_slots: "slots_apart (message_fields sample_outer)" "slots_apart (message_fields sample_inner)"
  by code_simp+

lemma sample_ends: "strings_end 2 sample_env (message_fields sample_outer) sample_heap 4096"
  by code_simp

lemma sample_inner_plain: "plain (Suc 0) sample_env (message_fields sample_inner) 4"
  using sample_slots(2)
  unfolding plain.simps(2) [of 0] sample_indices list.set ball_simps sample_offset
  by (simp add: sample_inner_fields sample_env_def distinct_tags_def width_ok_def
    wf_fields_def required_ok_def is_required_def field_plain_def element_plain_def default_ok_def within_def
    PB_LTYPE_def PB_ATYPE_def PB_HTYPE_def pb_consts)

lemma sample_plain: "plain (Suc (Suc 0)) sample_env (message_fields sample_outer) 20"
  using sample_inner_plain sample_slots(1)
  unfolding plain.simps(2) [of "Suc 0"] sample_indices sample_offset list.set ball_simps
  by (simp add: sample_outer_fields sample_offset sample_env_def distinct_tags_def width_ok_def
    wf_fields_def required_ok_def is_required_def field_plain_def element_plain_def default_ok_def within_def
    PB_LTYPE_def PB_ATYPE_def PB_HTYPE_def pb_consts del: plain.simps)

lemma sample_encodes:
  "case pb_encode 2 sample_env (message_fields sample_outer) 4096 (pb_ostream_from_buffer 16 16, sample_heap) of
     Ok _ (t, h) \<Rightarrow> True | _ \<Rightarrow> False"
  by code_simp

text \<open>
  C3. Message round trip: for every message type built from static required and optional fields
  (integers, fixed-width numbers, strings, bytes and submessages of such types, to any depth), in a
  build without malloc, whatever pb_encode writes for a struct to a buffer, pb_decode reads back: it
  returns true, stops exactly at the end of those bytes, and the destination, wherever it is and
  whatever it held before, holds the same message. Encoding leaves memory unchanged.
\<close>

theorem message_roundtrip:
  assumes "plain n env fs sz" and "\<not> enable_malloc env"
    and "cells h 0 = None" and "mapped (cells h) src sz" and "strings_end n env fs h src"
    and "buffered s" and "pb_encode n env fs src (s, h) = Ok u (t, h')"
  shows "h' = h \<and> (\<exists>bs. t = stored bs s \<and> length bs \<le> room s \<and>
    (\<forall>rest dst h2. cells h2 0 = None \<longrightarrow> mapped (cells h2) dst sz \<longrightarrow>
       (\<exists>h3. pb_decode n env fs dst (pb_istream_from_buffer (bs @ rest) (of_nat (length bs)), h2) =
            Ok () (pb_istream_from_buffer rest 0, h3) \<and>
          msg_same n env fs h src h3 dst)))"
proof -
  have h': "h' = h" using plain_message_roundtrip [OF assms] by blast
  from plain_message_roundtrip [OF assms] obtain bs where bs: "wrote s bs t" and dec: "\<And>dst s2 h2. feed bs s2 \<Longrightarrow> unat (bytes_left s2) = length bs \<Longrightarrow>
      cells h2 0 = None \<Longrightarrow> mapped (cells h2) dst sz \<Longrightarrow>
      \<exists>h3. pb_decode n env fs dst (s2, h2) = Ok () (advance (length bs) s2, h3) \<and> msg_same n env fs h src h3 dst"
    by blast
  have len: "unat (of_nat (length bs) :: u64) = length bs"
    using wrote_short [OF assms(6) bs] by (intro unat_of_nat_id) simp
  have "\<exists>h3. pb_decode n env fs dst (pb_istream_from_buffer (bs @ rest) (of_nat (length bs)), h2) =
        Ok () (pb_istream_from_buffer rest 0, h3) \<and> msg_same n env fs h src h3 dst"
    if "cells h2 0 = None" "mapped (cells h2) dst sz" for rest dst h2
  proof -
    have fd: "feed bs (pb_istream_from_buffer (bs @ rest) (of_nat (length bs)))"
      by (rule feed_from_buffer) (simp add: len)
    have left: "unat (bytes_left (pb_istream_from_buffer (bs @ rest) (of_nat (length bs)))) = length bs"
      by (simp add: pb_istream_from_buffer_def len)
    from dec [OF fd left that] show ?thesis unfolding advance_from_buffer diff_self .
  qed
  with h' bs show ?thesis unfolding wrote_def by blast
qed

theorem message_roundtrip_witness:
  "\<exists>t. pb_encode 2 sample_env (message_fields sample_outer) 4096 (pb_ostream_from_buffer 16 16, sample_heap) =
      Ok () (t, sample_heap) \<and>
    (\<exists>bs h3. t = stored bs (pb_ostream_from_buffer 16 16) \<and>
       pb_decode 2 sample_env (message_fields sample_outer) 8192
         (pb_istream_from_buffer (bs @ [255]) (of_nat (length bs)), sample_heap) =
         Ok () (pb_istream_from_buffer [255] 0, h3) \<and>
       msg_same 2 sample_env (message_fields sample_outer) sample_heap 4096 h3 8192)"
proof -
  obtain t h' where e: "pb_encode 2 sample_env (message_fields sample_outer) 4096
      (pb_ostream_from_buffer 16 16, sample_heap) = Ok () (t, h')"
    using sample_encodes by (auto split: outcome.splits)
  have null: "cells sample_heap 0 = None" by (simp add: sample_heap_def)
  have b: "buffered (pb_ostream_from_buffer 16 16)" by (simp add: buffered_def pb_ostream_from_buffer_def)
  have nm: "\<not> enable_malloc sample_env" by (simp add: sample_env_def)
  from message_roundtrip [OF sample_plain [folded numeral_2_eq_2] nm null sample_mapped(1) sample_ends b e] e null sample_mapped(2)
  show ?thesis by blast
qed
subsection \<open>Descriptors and iterators\<close>

text \<open>
  C6. Addresses: for a descriptor that the PB_FIELD macros build from the members of a struct, the
  iterator at every entry holds the address of the member and, where the entry has one, of its
  has-flag or count, in whatever order entries are visited.
\<close>

theorem iterator_finds_members:
  assumes "layout_ok es" and "i < length es" and "j < length es"
    and "distinct_tags (message_fields es)" and "e_type (es ! j) \<noteq> EXTENSION"
  shows "\<exists>it. pb_field_iter_find (iter_at (message_fields es) base i) (e_tag (es ! j)) = Some (it, True) \<and>
    pos it = j \<and> pData it = base + of_nat (moffset (e_mem (es ! j))) \<and>
    pSize it = base + of_nat (moffset (if uses_aux (es ! j) then e_aux (es ! j) else e_mem (es ! j)))"
proof -
  let ?fs = "message_fields es"
  have wf: "wf_fields ?fs" using assms(1) by (rule message_fields_wf)
  have ok: "entry_ok (es ! j)" using assms(1,3) by (simp add: layout_ok_def)
  have "\<exists>place prev. ?fs ! j = entry_field place prev (es ! j)"
    using message_fields_nth [OF assms(3)] by (auto split: if_splits)
  then obtain place prev where f: "?fs ! j = entry_field place prev (es ! j)" by blast
  have o: "e_rule (es ! j) \<noteq> OPTEXT" using ok by (simp add: entry_ok_def)
  have t: "tag (?fs ! j) = e_tag (es ! j)" by (simp add: f entry_field_parts [OF o])
  have "PB_LTYPE (ftype (?fs ! j)) = PB_LTYPE_MAP (e_type (es ! j))"
    unfolding f entry_field_parts [OF o] by (rule ltype_part) (simp_all add: atype_of_def htype_of_def split: field_alloc.splits field_rule.splits)
  then have "PB_LTYPE (ftype (?fs ! j)) \<noteq> PB_LTYPE_EXTENSION"
    using assms(5) by (cases "e_type (es ! j)") (simp_all add: pb_consts)
  then have "pb_field_iter_find (iter_at ?fs base i) (e_tag (es ! j)) = Some (iter_at ?fs base j, True)"
    using pb_field_iter_find_distinct [OF wf assms(4), of i j base] assms(2,3) t by simp
  then show ?thesis
    using iter_at_layout [OF assms(1,3), of base] iter_at_fields [OF wf, of j base] assms(3) by simp
qed

theorem iterator_finds_members_witness:
  "\<exists>it. pb_field_iter_find (iter_at (message_fields sample_outer) 4096 1) (e_tag (sample_outer ! 2)) = Some (it, True) \<and>
    pos it = 2 \<and> pData it = 4096 + of_nat (moffset (e_mem (sample_outer ! 2))) \<and>
    pSize it = 4096 + of_nat (moffset (if uses_aux (sample_outer ! 2) then e_aux (sample_outer ! 2) else e_mem (sample_outer ! 2)))"
proof (rule iterator_finds_members)
  show "layout_ok sample_outer"
    by (simp add: layout_ok_def entry_ok_def sample_outer_def sample_member_def member_after_def)
  show "distinct_tags (message_fields sample_outer)"
    by (simp add: sample_outer_fields distinct_tags_def)
qed (simp_all add: sample_outer_def)

text \<open>
  Searching for a tag always terminates within one round of the descriptor array, from
  whichever entry it starts: it reports success exactly if some entry has the tag and is no
  extension range, then standing on such an entry, and otherwise is back where it started.
\<close>

theorem field_search_complete:
  assumes "wf_fields fs" and "i < length fs"
  shows "\<exists>it found. pb_field_iter_find (iter_at fs base i) t = Some (it, found) \<and>
    (found \<longleftrightarrow> (\<exists>f \<in> set fs. tag f = t \<and> PB_LTYPE (ftype f) \<noteq> PB_LTYPE_EXTENSION)) \<and>
    (if found then tag (cur it) = t \<and> dest_struct it = base else it = iter_at fs base i)"
  using pb_field_iter_find_result [OF assms, of t base]
proof (elim disjE exE conjE)
  fix j assume j: "j < length fs" "field_matches t (fs ! j)"
    "pb_field_iter_find (iter_at fs base i) t = Some (iter_at fs base j, True)"
  then have "\<exists>f \<in> set fs. tag f = t \<and> PB_LTYPE (ftype f) \<noteq> PB_LTYPE_EXTENSION"
    by (auto simp: field_matches_def)
  with j show ?thesis
    using cur_iter_at [OF assms(1) j(1)] iter_at_fields [OF assms(1) j(1)]
    by (auto simp: field_matches_def)
next
  assume "\<forall>f \<in> set fs. \<not> field_matches t f"
    "pb_field_iter_find (iter_at fs base i) t = Some (iter_at fs base i, False)"
  then show ?thesis by (auto simp: field_matches_def)
qed

theorem field_search_complete_witness:
  "\<exists>it found. pb_field_iter_find (iter_at (message_fields sample_outer) 4096 2) 7 = Some (it, found) \<and>
    (found \<longleftrightarrow> (\<exists>f \<in> set (message_fields sample_outer). tag f = 7 \<and> PB_LTYPE (ftype f) \<noteq> PB_LTYPE_EXTENSION)) \<and>
    (if found then tag (cur it) = 7 \<and> dest_struct it = 4096 else it = iter_at (message_fields sample_outer) 4096 2)"
  by (rule field_search_complete) (simp_all add: sample_outer_fields wf_fields_def)

subsection \<open>Substreams\<close>

text \<open>
  C5. Closing a substream lands right after its bytes: whatever part of the substream its reader has
  consumed, pb_close_string_substream succeeds and puts the parent stream exactly past the
  length-delimited data; opening one always consumes at least the length byte.
\<close>

theorem substream_close_lands_after:
  assumes "in_ok s" and "pb_make_string_substream s = Ok sub p" and "later sub sub'"
  shows "(\<exists>e. pb_close_string_substream p sub' =
       Ok () (p\<lparr>state := drop (unat (bytes_left sub)) (state p), errmsg := e\<rparr>)) \<and>
    unat (bytes_left p) + unat (bytes_left sub) < unat (bytes_left s)"
proof -
  obtain t n where t: "in_ok t" "unat (bytes_left t) < unat (bytes_left s)" "n \<le> bytes_left t"
    and eq: "(sub, p) = opened t n"
    by (rule pb_make_string_substream_Ok [OF assms(1,2)])
  have later: "later (fst (opened t n)) sub'" using assms(3) eq by (metis fst_conv)
  obtain e where "pb_close_string_substream (snd (opened t n)) sub' =
      Ok () (t\<lparr>bytes_left := bytes_left t - n, state := drop (unat n) (state t), errmsg := e\<rparr>)"
    using pb_close_string_substream_drained [OF t(1,3) later] by blast
  with eq have "pb_close_string_substream p sub' =
      Ok () (p\<lparr>state := drop (unat (bytes_left sub)) (state p), errmsg := e\<rparr>)"
    by (simp add: opened_def)
  moreover have "unat (bytes_left p) + unat (bytes_left sub) < unat (bytes_left s)"
    using eq t(2,3) by (simp add: opened_def unat_sub word_le_nat_alt)
  ultimately show ?thesis by blast
qed

theorem substream_close_lands_after_witness:
  "(\<exists>e. pb_close_string_substream (pb_istream_from_buffer [1, 2, 8] 1) ((pb_istream_from_buffer [2, 8] 1)) =
       Ok () ((pb_istream_from_buffer [1, 2, 8] 1)\<lparr>state := drop (unat (2 :: u64)) [1, 2, 8], errmsg := e\<rparr>)) \<and>
    unat (1 :: u64) + unat (2 :: u64) < unat (4 :: u64)"
proof -
  have made: "pb_make_string_substream (pb_istream_from_buffer [2, 1, 2, 8] 4) =
      Ok (pb_istream_from_buffer [1, 2, 8] 2) (pb_istream_from_buffer [1, 2, 8] 1)"
    by (simp add: pb_make_string_substream_def pb_decode_varint32_def pb_readbyte_def call_callback_def
        buf_read_def pb_istream_from_buffer_def)
  have "later (pb_istream_from_buffer [1, 2, 8] 2) (pb_istream_from_buffer [2, 8] 1)"
    by (auto simp: later_def pb_istream_from_buffer_def intro!: exI [of _ 1])
  from substream_close_lands_after [OF _ made this] show ?thesis
    by (simp add: in_ok_def pb_istream_from_buffer_def)
qed

subsection \<open>Writing within bounds\<close>

text \<open>
  Writing a string never overruns: the length prefix and the bytes are stored if they fit the
  stream, and otherwise a proper prefix of them is stored and the call fails with a message.
\<close>

theorem string_write_bounded:
  assumes "out_ok s" and "length bs < 2 ^ 32" and "unat (bytes_written s) + length (string_bytes bs) < 2 ^ 64"
  shows "if length (string_bytes bs) \<le> space s
    then pb_encode_string s bs (of_nat (length bs)) = Ok () (stored (string_bytes bs) s)
    else \<exists>t. pb_encode_string s bs (of_nat (length bs)) = Fail t \<and> cut_short (string_bytes bs) s t"
  using write_string.stores [OF assms(1), of bs] write_string.refuses [OF assms(1) _ assms(3)]
  by (cases "length (string_bytes bs) \<le> space s") (auto simp: not_le)

theorem string_write_bounded_witness:
  "if length (string_bytes [104, 105]) \<le> space (pb_ostream_from_buffer 2 2)
    then pb_encode_string (pb_ostream_from_buffer 2 2) [104, 105] (of_nat (length [104 :: byte, 105])) =
      Ok () (stored (string_bytes [104, 105]) (pb_ostream_from_buffer 2 2))
    else \<exists>t. pb_encode_string (pb_ostream_from_buffer 2 2) [104, 105] (of_nat (length [104 :: byte, 105])) = Fail t \<and>
      cut_short (string_bytes [104, 105]) (pb_ostream_from_buffer 2 2) t"
  by (rule string_write_bounded)
     (simp_all add: out_ok_def pb_ostream_from_buffer_def string_bytes_def varint_bytes_small)

subsection \<open>Size checks\<close>

text \<open>
  The overflow test before an allocation is exact: for a non-zero element count it fires if and
  only if the product of element size and count does not fit in 64 bits.
\<close>

theorem alloc_overflow_exact:
  assumes "asize \<noteq> 0"
  shows "alloc_overflows dsize asize \<longleftrightarrow> 2 ^ 64 \<le> unat dsize * unat asize"
proof -
  have a: "0 < unat asize" using assms by (simp add: unat_gt_0)
  have lim: "unat check_limit = 2 ^ 32" by (simp add: check_limit_def)
  have max: "unat (- 1 :: u64) = 2 ^ 64 - 1" by (simp add: unsigned_minus_1_eq_mask mask_eq_exp_minus_1)
  have "(- 1 :: u64) div asize < dsize \<longleftrightarrow> (2 ^ 64 - 1) div unat asize < unat dsize"
    unfolding word_less_nat_alt unat_div max ..
  also have "\<dots> \<longleftrightarrow> 2 ^ 64 \<le> unat dsize * unat asize"
    using div_less_iff_less_mult [OF a, of "2 ^ 64 - 1" "unat dsize"] by auto
  finally have div: "(- 1 :: u64) div asize < dsize \<longleftrightarrow> 2 ^ 64 \<le> unat dsize * unat asize" .
  have "unat dsize * unat asize < 2 ^ 64" if "unat dsize < 2 ^ 32" "unat asize < 2 ^ 32"
  proof -
    have "unat dsize * unat asize < 2 ^ 32 * 2 ^ 32" using that by (intro mult_strict_mono) simp_all
    then show ?thesis by simp
  qed
  then show ?thesis
    unfolding alloc_overflows_def div word_le_nat_alt lim by (meson not_le)
qed

theorem alloc_overflow_exact_witness:
  "alloc_overflows 0x100000000 0x100000000 \<longleftrightarrow> 2 ^ 64 \<le> unat (0x100000000 :: u64) * unat (0x100000000 :: u64)"
  by (rule alloc_overflow_exact) simp

subsection \<open>Required fields\<close>

text \<open>
  The check for required fields is exact for the counts it is defined on: with fewer than 64
  required fields, their number not 32, and no bit set beyond them, it succeeds if and only if the
  bit of every required field is set.
\<close>

theorem required_check_exact:
  assumes "c < 64" and "c \<noteq> 32" and "\<forall>i. bit w0 i \<longrightarrow> i < c" and "\<forall>i. bit w1 i \<longrightarrow> 32 + i < c"
  shows "all_required_seen (of_nat c) [w0, w1] =
    Some (\<forall>i < c. if i < 32 then bit w0 i else bit w1 (i - 32))"
  by (rule required_check_bits) (use assms in simp_all)

theorem required_check_exact_witness:
  "all_required_seen (of_nat 3) [5, 0] = Some (\<forall>i < 3. if i < 32 then bit (5 :: u32) i else bit (0 :: u32) (i - 32))"
proof (rule required_check_exact)
  have "take_bit 3 (5 :: u32) = 5" by simp
  then show "\<forall>i. bit (5 :: u32) i \<longrightarrow> i < 3" by (metis bit_take_bit_iff)
qed simp_all

text \<open>
  C8. The same check is undefined on the counts C15 leaves out: with exactly 32 required fields, all
  present, it shifts a 32-bit word by 32, and with 64 or more, the first 64 present, it reads past
  the end of \<^verbatim>\<open>fields_seen\<close>.
\<close>

theorem required_check_undefined:
  "all_required_seen 32 [allbits, w] = None \<and>
   (64 \<le> c \<longrightarrow> c < 2 ^ 32 \<longrightarrow> all_required_seen (of_nat c) [allbits, allbits] = None)"
proof (intro conjI impI)
  show "all_required_seen 32 [allbits, w] = None"
    using count_word [of 32] by (simp add: all_required_seen_def Let_def)
  assume c: "64 \<le> c" "c < 2 ^ 32"
  then have "unat (of_nat c :: u32) = c" by (intro unat_of_nat_id) simp
  then have "(of_nat c :: u32) \<noteq> 0" using c by auto
  moreover have "2 \<le> c div 32" using c(1) by simp
  ultimately show "all_required_seen (of_nat c) [allbits, allbits] = None"
    unfolding all_required_seen_def Let_def count_word [OF c(2)] by (auto simp: nth_Cons split: nat.splits)
qed

theorem required_check_undefined_witness: "all_required_seen (of_nat 64) [allbits, allbits] = None"
  using required_check_undefined [of allbits 64] by simp

subsection \<open>The ends of a message\<close>

lemma noinit_stops:
  assumes wf: "wf_fields fs" "fs \<noteq> []"
    and loop: "decode_loop (Suc (unat (bytes_left s))) n env (pb_decode_noinit n env)
      \<lparr>sc_iter = fst (pb_field_iter_begin fs dest), sc_seen = [0, 0], sc_ext_start = 0\<rparr> (s, h) =
      Ok \<lparr>sc_iter = fst (pb_field_iter_begin fs dest), sc_seen = [0, 0], sc_ext_start = 0\<rparr> (t, h)"
    and req: "required_ok fs"
  shows "pb_decode_noinit (Suc n) env fs dest (s, h) =
    (if \<exists>f \<in> set fs. is_required f then dec_error ''missing required field'' (t, h) else Ok () (t, h))"
proof -
  let ?c = "length (filter is_required fs)"
  have z: "0 < length fs" using wf(2) by simp
  have "req_field_count (fst (pb_field_iter_begin fs dest)) = of_nat ?c"
    using req_field_count_iter_at [OF wf(1) z, of dest] by (simp add: iter_at.simps)
  moreover have "all_required_seen (of_nat ?c) [0, 0] = Some (\<not> (\<exists>f \<in> set fs. is_required f))"
  proof -
    have "all_required_seen (of_nat ?c) [0, 0] =
        Some (\<forall>i < ?c. if i < 32 then bit (0 :: u32) i else bit (0 :: u32) (i - 32))"
      using req by (intro required_check_bits) (auto simp: required_ok_def Let_def)
    moreover have "(\<forall>i < ?c. if i < 32 then bit (0 :: u32) i else bit (0 :: u32) (i - 32)) \<longleftrightarrow> ?c = 0"
      by auto
    moreover have "?c = 0 \<longleftrightarrow> \<not> (\<exists>f \<in> set fs. is_required f)" by (simp add: filter_empty_conv)
    ultimately show ?thesis by simp
  qed
  ultimately show ?thesis
    using loop by (cases "\<exists>f \<in> set fs. is_required f") (auto simp del: decode_loop.simps)
qed

text \<open>
  Empty input is a message without fields: pb_decode_noinit on a stream with no bytes left reads
  nothing, stores nothing, and succeeds exactly if the message type has no required field.
\<close>

theorem decode_empty_input:
  assumes "wf_fields fs" and "fs \<noteq> []" and "required_ok fs" and "bytes_left s = 0"
  shows "pb_decode_noinit (Suc n) env fs dest (s, h) =
    (if \<exists>f \<in> set fs. is_required f then dec_error ''missing required field'' (s, h) else Ok () (s, h))"
  by (rule noinit_stops [OF assms(1,2) _ assms(3)]) (simp add: assms(4))

theorem decode_empty_input_witness:
  "pb_decode_noinit 1 sample_env (message_fields sample_outer) 4096 (pb_istream_from_buffer [] 0, sample_heap) =
    (if \<exists>f \<in> set (message_fields sample_outer). is_required f
     then dec_error ''missing required field'' (pb_istream_from_buffer [] 0, sample_heap)
     else Ok () (pb_istream_from_buffer [] 0, sample_heap))"
  unfolding One_nat_def
  by (rule decode_empty_input)
     (simp_all add: sample_outer_fields wf_fields_def required_ok_def is_required_def Let_def PB_HTYPE_def pb_consts
        pb_istream_from_buffer_def)

text \<open>
  C9. A message cut off inside a tag is accepted: a stream whose last byte starts a varint that never
  ends is taken for the regular end of the message, because pb_decode_tag reports end of file
  whenever its varint fails with no bytes left. So a decoder does not notice that the input was
  truncated there.
\<close>

theorem truncated_tag_accepted:
  assumes "wf_fields fs" and "fs \<noteq> []" and "\<forall>f \<in> set fs. \<not> is_required f" and "b AND 0x80 \<noteq> 0"
  shows "pb_decode_noinit (Suc n) env fs dest (pb_istream_from_buffer [b] 1, h) =
    Ok () (pb_istream_from_buffer [] 0\<lparr>errmsg := Some ''end-of-stream''\<rparr>, h)"
proof -
  let ?s = "pb_istream_from_buffer [b] 1"
  let ?t = "pb_istream_from_buffer [] 0\<lparr>errmsg := Some ''end-of-stream''\<rparr>"
  have r: "pb_readbyte ?s = Ok b (pb_istream_from_buffer [] 0)"
    by (simp add: pb_readbyte_def call_callback_def buf_read_def pb_istream_from_buffer_def)
  have e: "pb_readbyte (pb_istream_from_buffer [] 0) = Fail ?t"
    by (simp add: pb_readbyte_def return_error_def PB_SET_ERROR_def pb_istream_from_buffer_def)
  have "pb_decode_varint32 ?s = Fail ?t"
    using assms(4) r e by (simp add: pb_decode_varint32_def varint32_loop.simps)
  then have tag: "pb_decode_tag ?s = Ok (False, 0, 0, True) ?t"
    by (simp add: pb_decode_tag_def pb_istream_from_buffer_def)
  have "pb_decode_noinit (Suc n) env fs dest (?s, h) =
      (if \<exists>f \<in> set fs. is_required f then dec_error ''missing required field'' (?t, h) else Ok () (?t, h))"
  proof (rule noinit_stops [OF assms(1,2)])
    have "bytes_left ?s = 1" by (simp add: pb_istream_from_buffer_def)
    then show "decode_loop (Suc (unat (bytes_left ?s))) n env (pb_decode_noinit n env)
        \<lparr>sc_iter = fst (pb_field_iter_begin fs dest), sc_seen = [0, 0], sc_ext_start = 0\<rparr> (?s, h) =
        Ok \<lparr>sc_iter = fst (pb_field_iter_begin fs dest), sc_seen = [0, 0], sc_ext_start = 0\<rparr> (?t, h)"
      using tag by (simp add: on_stream_def)
    have "filter is_required fs = []" using assms(3) by (simp add: filter_empty_conv)
    then show "required_ok fs" by (simp add: required_ok_def)
  qed
  with assms(3) show ?thesis by simp
qed

definition optional_only :: "pb_field list" where
  "optional_only = [\<lparr>tag = 1, ftype = 0x10, data_offset = 4, size_offset = - 4, data_size = 4, array_size = 0,
     ptr = Ptr_null\<rparr>]"

theorem truncated_tag_accepted_witness:
  "pb_decode_noinit 1 sample_env optional_only 4096 (pb_istream_from_buffer [0x88] 1, sample_heap) =
    Ok () (pb_istream_from_buffer [] 0\<lparr>errmsg := Some ''end-of-stream''\<rparr>, sample_heap)"
  unfolding One_nat_def
  by (rule truncated_tag_accepted)
     (simp_all add: optional_only_def wf_fields_def is_required_def PB_HTYPE_def pb_consts)

end
