(* ===== verification/FBase64.thy ===== *)
theory FBase64
  imports Prelude
begin

unbundle bit_operations_syntax

section \<open>Base64 of the WebSocket client (SocketRocket/fbase64.c)\<close>

text \<open>
  \<^verbatim>\<open>f_b64_ntop\<close> and \<^verbatim>\<open>f_b64_pton\<close>, the encoder's text \<open>b64_encode\<close> as a function of the bytes, and
  the proofs that the encoder stores exactly this text and a NUL or fails, that neither
  function leaves its buffers, and that decoding inverts encoding.

  A buffer is the list of its bytes; a store outside it is \<open>Fault\<close>. \<^verbatim>\<open>Fail\<close> is the return value -1,
  with whatever was stored before.
\<close>

subsection \<open>The alphabet and the text\<close>

definition Base64 :: "byte list" where
  "Base64 = map of_char ''ABCDEFGHIJKLMNOPQRSTUVWXYZabcdefghijklmnopqrstuvwxyz0123456789+/''"

definition Pad64 :: byte where "Pad64 = of_char (CHR ''='')"

definition sextets :: "byte \<Rightarrow> byte \<Rightarrow> byte \<Rightarrow> byte list" where
  "sextets a b c =
     [drop_bit 2 a, push_bit 4 (a AND 0x03) + drop_bit 4 b, push_bit 2 (b AND 0x0F) + drop_bit 6 c,
      c AND 0x3F]"

definition b64_char :: "byte \<Rightarrow> byte" where "b64_char v = Base64 ! unat v"

fun b64_encode :: "byte list \<Rightarrow> byte list" where
  "b64_encode (a # b # c # rest) = map b64_char (sextets a b c) @ b64_encode rest"
| "b64_encode [a, b] = map b64_char (take 3 (sextets a b 0)) @ [Pad64]"
| "b64_encode [a] = map b64_char (take 2 (sextets a 0 0)) @ [Pad64, Pad64]"
| "b64_encode [] = []"

subsection \<open>Encoding: f_b64_ntop\<close>

text \<open>\<^verbatim>\<open>target[datalength++] = c\<close> for each character.\<close>

primrec put_chars :: "u64 \<Rightarrow> byte list \<Rightarrow> byte list \<Rightarrow> (unit, byte list) outcome" where
  "put_chars i [] t = Ok () t"
| "put_chars i (c # cs) t =
     (if unat i < length t then put_chars (i + 1) cs (t[unat i := c]) else Fault)"

text \<open>The loop; its value is \<^verbatim>\<open>src\<close>, \<^verbatim>\<open>srclength\<close> and \<^verbatim>\<open>datalength\<close> after it.\<close>

function ntop_loop ::
  "byte list \<Rightarrow> u64 \<Rightarrow> u64 \<Rightarrow> u64 \<Rightarrow> byte list \<Rightarrow> (byte list \<times> u64 \<times> u64, byte list) outcome" where
  "ntop_loop src srclength datalength targsize t =
     (if 2 < srclength then
        (case src of
           a # b # c # rest \<Rightarrow>
             if targsize < datalength + 4 then Fail t
             else andthen (put_chars datalength (map b64_char (sextets a b c)) t) (\<lambda>_ t'.
               ntop_loop rest (srclength - 3) (datalength + 4) targsize t')
         | _ \<Rightarrow> Fault)
      else Ok (src, srclength, datalength) t)"
  by pat_completeness auto
termination
  by (relation "measure (\<lambda>(src, n, d, ts, t). unat n)") (auto, unat_arith)

declare ntop_loop.simps [simp del]

definition ntop_pad :: "byte list \<Rightarrow> u64 \<Rightarrow> u64 \<Rightarrow> u64 \<Rightarrow> byte list \<Rightarrow> (u64, byte list) outcome" where
  "ntop_pad src srclength datalength targsize t =
     (if srclength \<noteq> 0 then
        (if length src < unat srclength then Fault
         else let a = src ! 0; b = (if srclength = 1 then 0 else src ! 1); out = sextets a b 0 in
           if targsize < datalength + 4 then Fail t
           else andthen (put_chars datalength
               [b64_char (out ! 0), b64_char (out ! 1),
                if srclength = 1 then Pad64 else b64_char (out ! 2), Pad64] t) (\<lambda>_ t'.
             Ok (datalength + 4) t'))
      else Ok datalength t)"

definition ntop_end :: "u64 \<Rightarrow> u64 \<Rightarrow> byte list \<Rightarrow> (u32, byte list) outcome" where
  "ntop_end datalength targsize t =
     (if targsize \<le> datalength then Fail t
      else andthen (put_chars datalength [0] t) (\<lambda>_ t'. Ok (ucast datalength) t'))"

definition ntop_from :: "byte list \<Rightarrow> u64 \<Rightarrow> u64 \<Rightarrow> u64 \<Rightarrow> byte list \<Rightarrow> (u32, byte list) outcome" where
  "ntop_from src srclength datalength targsize t =
     andthen (ntop_loop src srclength datalength targsize t) (\<lambda>(src', n, d) t1.
     andthen (ntop_pad src' n d targsize t1) (\<lambda>d' t2. ntop_end d' targsize t2))"

definition f_b64_ntop :: "byte list \<Rightarrow> u64 \<Rightarrow> byte list \<Rightarrow> u64 \<Rightarrow> (u32, byte list) outcome" where
  "f_b64_ntop src srclength target targsize = ntop_from src srclength 0 targsize target"

subsection \<open>Decoding: f_b64_pton\<close>

text \<open>
  \<^verbatim>\<open>char\<close> is signed: a byte from 0x80 on reaches \<^verbatim>\<open>isspace\<close> as a negative \<^verbatim>\<open>int\<close>, which is defined
  only for EOF (the byte 0xFF). \<open>None\<close> is the undefined case.
\<close>

definition c_isspace :: "byte \<Rightarrow> bool option" where
  "c_isspace c =
     (if c < 0x80 then Some (c = 0x20 \<or> (0x09 \<le> c \<and> c \<le> 0x0D))
      else if c = 0xFF then Some False else None)"

primrec index_of :: "byte \<Rightarrow> byte list \<Rightarrow> nat option" where
  "index_of c [] = None"
| "index_of c (x # xs) = (if c = x then Some 0 else map_option Suc (index_of c xs))"

definition c_strchr :: "byte \<Rightarrow> byte option" where
  "c_strchr c = map_option of_nat (index_of c Base64)"

text \<open>A store to and an update of \<^verbatim>\<open>target[i]\<close>; \<open>None\<close> is outside the buffer.\<close>

definition upd :: "byte list \<Rightarrow> u32 \<Rightarrow> (byte \<Rightarrow> byte) \<Rightarrow> byte list option" where
  "upd t i f = (if unat i < length t then Some (t[unat i := f (t ! unat i)]) else None)"

text \<open>
  One digit of value \<open>v\<close> in the state \<open>st\<close>: the next state, \<^verbatim>\<open>tarindex\<close>, and the target, which is
  absent when the caller only counts.
\<close>

datatype pton_state = S0 | S1 | S2 | S3

definition two_stores ::
  "byte list \<Rightarrow> u32 \<Rightarrow> u64 \<Rightarrow> (byte \<Rightarrow> byte) \<Rightarrow> byte \<Rightarrow> (unit, byte list option) outcome" where
  "two_stores t i targsize f w =
     (if targsize \<le> ucast (i + 1) then Fail (Some t)
      else case upd t i f of
             None \<Rightarrow> Fault
           | Some t1 \<Rightarrow> (case upd t1 (i + 1) (\<lambda>_. w) of None \<Rightarrow> Fault | Some t2 \<Rightarrow> Ok () (Some t2)))"

definition one_store ::
  "byte list \<Rightarrow> u32 \<Rightarrow> u64 \<Rightarrow> (byte \<Rightarrow> byte) \<Rightarrow> (unit, byte list option) outcome" where
  "one_store t i targsize f =
     (if targsize \<le> ucast i then Fail (Some t)
      else case upd t i f of None \<Rightarrow> Fault | Some t1 \<Rightarrow> Ok () (Some t1))"

fun pton_digit ::
  "pton_state \<Rightarrow> u32 \<Rightarrow> byte \<Rightarrow> u64 \<Rightarrow> byte list option \<Rightarrow> (pton_state \<times> u32, byte list option) outcome"
where
  "pton_digit S0 i v ts None = Ok (S1, i) None"
| "pton_digit S0 i v ts (Some t) =
     andthen (one_store t i ts (\<lambda>_. push_bit 2 v)) (\<lambda>_. Ok (S1, i))"
| "pton_digit S1 i v ts None = Ok (S2, i + 1) None"
| "pton_digit S1 i v ts (Some t) =
     andthen (two_stores t i ts (\<lambda>b. b OR drop_bit 4 v) (push_bit 4 (v AND 0x0F))) (\<lambda>_. Ok (S2, i + 1))"
| "pton_digit S2 i v ts None = Ok (S3, i + 1) None"
| "pton_digit S2 i v ts (Some t) =
     andthen (two_stores t i ts (\<lambda>b. b OR drop_bit 2 v) (push_bit 6 (v AND 0x03))) (\<lambda>_. Ok (S3, i + 1))"
| "pton_digit S3 i v ts None = Ok (S0, i + 1) None"
| "pton_digit S3 i v ts (Some t) =
     andthen (one_store t i ts (\<lambda>b. b OR v)) (\<lambda>_. Ok (S0, i + 1))"

text \<open>
  The loop over the text. \<^verbatim>\<open>src\<close> is the bytes from the pointer to the end of its object, which has to
  hold a NUL. The value is the character the loop stopped at (NUL or the pad), the rest, the state
  and \<^verbatim>\<open>tarindex\<close>.
\<close>

fun pton_loop ::
  "byte list \<Rightarrow> pton_state \<Rightarrow> u32 \<Rightarrow> u64 \<Rightarrow> byte list option \<Rightarrow>
   (byte \<times> byte list \<times> pton_state \<times> u32, byte list option) outcome" where
  "pton_loop [] s i ts t = Fault"
| "pton_loop (ch # src) s i ts t =
     (if ch = 0 then Ok (ch, src, s, i) t
      else case c_isspace ch of
        None \<Rightarrow> Fault
      | Some True \<Rightarrow> pton_loop src s i ts t
      | Some False \<Rightarrow>
          if ch = Pad64 then Ok (ch, src, s, i) t
          else case c_strchr ch of
            None \<Rightarrow> Fail t
          | Some v \<Rightarrow> andthen (pton_digit s i v ts t) (\<lambda>(s', i') t'. pton_loop src s' i' ts t'))"

text \<open>
  \<^verbatim>\<open>for (; ch != '\0'; ch = *src++) if (!isspace(ch)) break;\<close> from the character \<open>hd src\<close> on: the
  rest starting with the character the loop stopped at. \<open>None\<close> is undefined behaviour.
\<close>

fun skip_spaces :: "byte list \<Rightarrow> byte list option" where
  "skip_spaces [] = None"
| "skip_spaces (ch # src) =
     (if ch = 0 then Some (ch # src)
      else case c_isspace ch of
        None \<Rightarrow> None
      | Some True \<Rightarrow> skip_spaces src
      | Some False \<Rightarrow> Some (ch # src))"

text \<open>After the last pad: only white space up to the NUL, and no bits left over in the target.\<close>

definition pton_trailer :: "byte list \<Rightarrow> u32 \<Rightarrow> byte list option \<Rightarrow> (u32, byte list option) outcome" where
  "pton_trailer src i t =
     (case skip_spaces src of
        Some (ch # _) \<Rightarrow>
          if ch \<noteq> 0 then Fail t
          else (case t of
                  None \<Rightarrow> Ok i t
                | Some bs \<Rightarrow> if \<not> unat i < length bs then Fault
                              else if bs ! unat i \<noteq> 0 then Fail t else Ok i t)
      | _ \<Rightarrow> Fault)"

definition pton_pad ::
  "byte list \<Rightarrow> pton_state \<Rightarrow> u32 \<Rightarrow> byte list option \<Rightarrow> (u32, byte list option) outcome" where
  "pton_pad src s i t =
     (if src = [] then Fault
      else case s of
        S0 \<Rightarrow> Fail t
      | S1 \<Rightarrow> Fail t
      | S2 \<Rightarrow> (case skip_spaces src of
                Some (ch # src') \<Rightarrow> if ch \<noteq> Pad64 then Fail t else pton_trailer src' i t
              | _ \<Rightarrow> Fault)
      | S3 \<Rightarrow> pton_trailer src i t)"

definition pton_end ::
  "byte \<times> byte list \<times> pton_state \<times> u32 \<Rightarrow> byte list option \<Rightarrow> (u32, byte list option) outcome" where
  "pton_end = (\<lambda>(ch, rest, s, i) t.
     if ch = Pad64 then pton_pad rest s i t
     else if s \<noteq> S0 then Fail t else Ok i t)"

definition f_b64_pton :: "byte list \<Rightarrow> byte list option \<Rightarrow> u64 \<Rightarrow> (u32, byte list option) outcome" where
  "f_b64_pton src target targsize = andthen (pton_loop src S0 0 targsize target) pton_end"

subsection \<open>What the encoder stores\<close>

text \<open>\<open>patch t i bs\<close> is the buffer \<open>t\<close> with \<open>bs\<close> stored from index \<open>i\<close> on.\<close>

definition patch :: "byte list \<Rightarrow> nat \<Rightarrow> byte list \<Rightarrow> byte list" where
  "patch t i bs = take i t @ bs @ drop (i + length bs) t"

lemma patch_Nil [simp]: "patch t i [] = t"
  by (simp add: patch_def)

lemma length_patch: "i + length bs \<le> length t \<Longrightarrow> length (patch t i bs) = length t"
  by (simp add: patch_def)

lemma patch_patch:
  "i + length xs \<le> length t \<Longrightarrow> patch (patch t i xs) (i + length xs) ys = patch t i (xs @ ys)"
  by (simp add: patch_def add_ac)

lemma drop_patch: "i + length xs \<le> k \<Longrightarrow> i \<le> length t \<Longrightarrow> drop k (patch t i xs) = drop k t"
proof -
  assume k: "i + length xs \<le> k" and "i \<le> length t"
  then have "drop k ((take i t @ xs) @ drop (i + length xs) t) =
      drop (k - (i + length xs)) (drop (i + length xs) t)"
    by (subst drop_append) (simp add: min_def)
  with k show ?thesis by (simp add: patch_def)
qed

lemma put_chars_patch:
  "unat i + length cs \<le> length t \<Longrightarrow> length t < 2 ^ 64 \<Longrightarrow> put_chars i cs t = Ok () (patch t (unat i) cs)"
proof (induction cs arbitrary: i t)
  case (Cons c cs)
  have lt: "unat i < length t" using Cons.prems(1) by simp
  have "cs = [] \<or> unat (i + 1) = Suc (unat i)"
    using Cons.prems by (cases cs) (auto simp: unat_plus_if_no_wrap)
  then show ?case
  proof
    assume "cs = []"
    then show ?thesis using lt
      by (simp add: patch_def upd_conv_take_nth_drop)
  next
    assume i: "unat (i + 1) = Suc (unat i)"
    have "put_chars (i + 1) cs (t[unat i := c]) = Ok () (patch (t[unat i := c]) (Suc (unat i)) cs)"
      using Cons.IH [of "i + 1" "t[unat i := c]"] Cons.prems i by simp
    moreover have "t[unat i := c] = patch t (unat i) [c]"
      using lt by (simp add: patch_def upd_conv_take_nth_drop)
    ultimately show ?thesis using lt patch_patch [of "unat i" "[c]" t cs] by simp
  qed
qed simp

lemma length_b64_encode: "length (b64_encode bs) = 4 * ((length bs + 2) div 3)"
  by (induction bs rule: b64_encode.induct) (simp_all add: sextets_def, presburger)

text \<open>
  The result of a run from \<open>datalength\<close> on, where \<open>enc\<close> is still to be stored: it and a NUL if there
  is room for both, else a failure that has stored something within \<open>targsize\<close>.
\<close>

definition ntop_result ::
  "byte list \<Rightarrow> u64 \<Rightarrow> u64 \<Rightarrow> byte list \<Rightarrow> (u32, byte list) outcome \<Rightarrow> bool" where
  "ntop_result enc datalength targsize t r \<longleftrightarrow>
     (if unat datalength + length enc < unat targsize
      then r = Ok (of_nat (unat datalength + length enc)) (patch t (unat datalength) (enc @ [0]))
      else \<exists>t'. r = Fail t' \<and> length t' = length t \<and> drop (unat targsize) t' = drop (unat targsize) t)"

lemma ntop_result_step:
  assumes "unat d + length xs \<le> unat ts" "unat ts \<le> length t" "unat d' = unat d + length xs"
    and "ntop_result ys d' ts (patch t (unat d) xs) r"
  shows "ntop_result (xs @ ys) d ts t r"
proof -
  have "drop (unat ts) (patch t (unat d) xs) = drop (unat ts) t"
    using assms(1,2) by (intro drop_patch) simp_all
  moreover have "unat d + length xs \<le> length t" using assms(1,2) by simp
  ultimately show ?thesis
    using assms patch_patch [of "unat d" xs t] length_patch [of "unat d" xs t]
    by (auto simp: ntop_result_def split: if_splits)
qed

lemma ntop_end_result:
  assumes "unat ts \<le> length t" "length t < 2 ^ 63"
  shows "ntop_result [] d ts t (ntop_end d ts t)"
proof (cases "ts \<le> d")
  case True
  then show ?thesis by (auto simp: ntop_result_def ntop_end_def word_le_nat_alt)
next
  case False
  then have "unat d + length [0 :: byte] \<le> length t"
    using assms by (simp add: word_le_nat_alt)
  then have "put_chars d [0] t = Ok () (patch t (unat d) [0])"
    using assms by (intro put_chars_patch) simp_all
  moreover have "(ucast d :: u32) = of_nat (unat d)" by simp
  ultimately show ?thesis using False
    by (simp add: ntop_result_def ntop_end_def word_le_nat_alt)
qed

text \<open>Storing a group of four, or failing because it does not fit.\<close>

lemma group_fits:
  fixes d ts :: u64
  assumes "unat ts \<le> length t" "length t < 2 ^ 63" "d \<le> ts"
  shows "ts < d + 4 \<longleftrightarrow> unat ts < unat d + 4"
    and "\<not> ts < d + 4 \<Longrightarrow> unat (d + 4) = unat d + 4"
proof -
  have "unat d \<le> unat ts" using assms(3) by (simp add: word_le_nat_alt)
  then have "unat (d + 4) = unat d + 4" using assms by (subst unat_plus_if_no_wrap) simp_all
  then show "ts < d + 4 \<longleftrightarrow> unat ts < unat d + 4" "\<not> ts < d + 4 \<Longrightarrow> unat (d + 4) = unat d + 4"
    by (simp_all add: word_less_nat_alt)
qed

lemma ntop_no_room:
  "unat ts < unat d + length enc \<Longrightarrow> ntop_result enc d ts t (Fail t)"
  by (simp add: ntop_result_def)

lemma ntop_from_result:
  assumes "unat ts \<le> length t" "length t < 2 ^ 63" "d \<le> ts" "unat n = length src"
  shows "ntop_result (b64_encode src) d ts t (ntop_from src n d ts t)"
  using assms
proof (induction src arbitrary: n d t rule: b64_encode.induct)
  case (1 a b c rest)
  have n: "2 < n" "unat (n - 3) = length rest"
    using "1.prems"(4) by (simp_all add: word_less_nat_alt unat_sub word_le_nat_alt)
  let ?g = "map b64_char (sextets a b c)"
  have len: "length ?g = 4" by (simp add: sextets_def)
  note fit = group_fits [OF "1.prems"(1-3)]
  show ?case
  proof (cases "ts < d + 4")
    case True
    then have "ntop_from (a # b # c # rest) n d ts t = Fail t"
      using n by (simp add: ntop_from_def ntop_loop.simps [of "a # b # c # rest"])
    with True fit(1) len show ?thesis by (auto intro!: ntop_no_room)
  next
    case False
    have le: "unat d + length ?g \<le> unat ts" using False fit(1) len by simp
    then have "put_chars d ?g t = Ok () (patch t (unat d) ?g)"
      using "1.prems"(1,2) by (intro put_chars_patch) simp_all
    then have eq: "ntop_from (a # b # c # rest) n d ts t =
        ntop_from rest (n - 3) (d + 4) ts (patch t (unat d) ?g)"
      using n False by (simp add: ntop_from_def ntop_loop.simps [of "a # b # c # rest"])
    have "length (patch t (unat d) ?g) = length t"
      using le "1.prems"(1) by (intro length_patch) simp
    moreover have "d + 4 \<le> ts" using False by simp
    ultimately have "ntop_result (b64_encode rest) (d + 4) ts (patch t (unat d) ?g)
        (ntop_from rest (n - 3) (d + 4) ts (patch t (unat d) ?g))"
      using "1.IH" [of "patch t (unat d) ?g" "d + 4" "n - 3"] "1.prems" n by simp
    from ntop_result_step [OF le "1.prems"(1) _ this] show ?thesis
      unfolding eq using fit(2) [OF False] len by simp
  qed
next
  case (2 a b)
  have n: "n = 2" using "2.prems"(4) by (simp add: word_unat_eq_iff)
  let ?g = "b64_encode [a, b]"
  have len: "length ?g = 4" by (simp add: sextets_def)
  note fit = group_fits [OF "2.prems"(1-3)]
  have eq: "ntop_from [a, b] n d ts t =
      (if ts < d + 4 then Fail t
       else andthen (put_chars d ?g t) (\<lambda>_ t'. ntop_end (d + 4) ts t'))"
    by (simp add: ntop_from_def ntop_loop.simps [of "[a, b]"] ntop_pad_def n sextets_def andthen_assoc)
  show ?case
  proof (cases "ts < d + 4")
    case True
    with eq fit(1) len show ?thesis by (auto intro!: ntop_no_room)
  next
    case False
    have le: "unat d + length ?g \<le> unat ts" using False fit(1) len by simp
    then have "put_chars d ?g t = Ok () (patch t (unat d) ?g)"
      using "2.prems"(1,2) by (intro put_chars_patch) simp_all
    moreover have "length (patch t (unat d) ?g) = length t"
      using le "2.prems"(1) by (intro length_patch) simp
    ultimately have "ntop_result [] (d + 4) ts (patch t (unat d) ?g) (ntop_from [a, b] n d ts t)"
      using eq False ntop_end_result [of ts "patch t (unat d) ?g" "d + 4"] "2.prems"(1,2) by simp
    from ntop_result_step [OF le "2.prems"(1) _ this] show ?thesis
      using fit(2) [OF False] len by simp
  qed
next
  case (3 a)
  have n: "n = 1" using "3.prems"(4) by (simp add: word_unat_eq_iff)
  let ?g = "b64_encode [a]"
  have len: "length ?g = 4" by (simp add: sextets_def)
  note fit = group_fits [OF "3.prems"(1-3)]
  have eq: "ntop_from [a] n d ts t =
      (if ts < d + 4 then Fail t
       else andthen (put_chars d ?g t) (\<lambda>_ t'. ntop_end (d + 4) ts t'))"
    by (simp add: ntop_from_def ntop_loop.simps [of "[a]"] ntop_pad_def n sextets_def andthen_assoc)
  show ?case
  proof (cases "ts < d + 4")
    case True
    with eq fit(1) len show ?thesis by (auto intro!: ntop_no_room)
  next
    case False
    have le: "unat d + length ?g \<le> unat ts" using False fit(1) len by simp
    then have "put_chars d ?g t = Ok () (patch t (unat d) ?g)"
      using "3.prems"(1,2) by (intro put_chars_patch) simp_all
    moreover have "length (patch t (unat d) ?g) = length t"
      using le "3.prems"(1) by (intro length_patch) simp
    ultimately have "ntop_result [] (d + 4) ts (patch t (unat d) ?g) (ntop_from [a] n d ts t)"
      using eq False ntop_end_result [of ts "patch t (unat d) ?g" "d + 4"] "3.prems"(1,2) by simp
    from ntop_result_step [OF le "3.prems"(1) _ this] show ?thesis
      using fit(2) [OF False] len by simp
  qed
next
  case 4
  then have "n = 0" by (simp add: word_unat_eq_iff)
  then show ?case using ntop_end_result [OF 4(1,2), of d]
    by (simp add: ntop_from_def ntop_loop.simps [of "[]"] ntop_pad_def)
qed

subsection \<open>Decoding the digits the encoder writes\<close>

lemma Base64_list: "Base64 = [65, 66, 67, 68, 69, 70, 71, 72, 73, 74, 75, 76, 77, 78, 79, 80, 81, 82, 83, 84, 85, 86, 87, 88, 89, 90, 97, 98, 99, 100, 101, 102, 103, 104, 105, 106, 107, 108, 109, 110, 111, 112, 113, 114, 115, 116, 117, 118, 119, 120, 121, 122, 48, 49, 50, 51, 52, 53, 54, 55, 56, 57, 43, 47]"
  by (simp add: Base64_def)

definition digit_ok :: "byte \<Rightarrow> bool" where
  "digit_ok v \<longleftrightarrow> b64_char v \<noteq> 0 \<and> b64_char v \<noteq> Pad64 \<and> c_isspace (b64_char v) = Some False \<and>
     c_strchr (b64_char v) = Some v"

lemma digits_ok: "v < 64 \<Longrightarrow> digit_ok v"
proof -
  assume "v < 64"
  then have "unat v \<in> set [0..<64]" by (simp add: word_less_nat_alt)
  moreover have "list_all digit_ok (map of_nat [0..<64])"
    by (simp add: digit_ok_def upt_conv_Cons b64_char_def Base64_list Pad64_def c_isspace_def
        c_strchr_def)
  ultimately have "digit_ok (of_nat (unat v))" unfolding list_all_iff set_map by blast
  then show ?thesis by simp
qed

lemma pton_loop_digit:
  "v < 64 \<Longrightarrow> pton_loop (b64_char v # src) s i ts t =
     andthen (pton_digit s i v ts t) (\<lambda>(s', i') t'. pton_loop src s' i' ts t')"
  using digits_ok [of v] by (simp add: digit_ok_def)

lemma sextet_masks:
  "a AND 0x03 = take_bit 2 (a :: byte)" "a AND 0x0F = take_bit 4 a" "a AND 0x3F = take_bit 6 a"
  by (simp_all add: take_bit_eq_mask mask_eq_exp_minus_1)

lemma sextet_bits:
  "push_bit 4 (take_bit 2 a) + drop_bit 4 b = push_bit 4 (take_bit 2 a) OR drop_bit 4 (b :: byte)"
  "push_bit 2 (take_bit 4 a) + drop_bit 6 b = push_bit 2 (take_bit 4 a) OR drop_bit 6 (b :: byte)"
  by (rule disjunctive_add_eq_or; rule bit_word_eqI; auto simp: bit_simps dest: bit_imp_le_length)+

lemma sextets_small: "list_all (\<lambda>v. v < 64) (sextets a b c)"
proof -
  have small: "v < 64" if "\<And>n. 6 \<le> n \<Longrightarrow> n < 8 \<Longrightarrow> \<not> bit v n" for v :: byte
  proof -
    have "v = take_bit 6 v"
    proof (rule bit_word_eqI)
      fix n assume "n < LENGTH(8)"
      then show "bit v n = bit (take_bit 6 v) n"
        using that [of n] by (cases "n < 6") (auto simp: bit_simps)
    qed
    then have "unat v = take_bit 6 (unat v)" by (metis unsigned_take_bit_eq)
    then have "unat v < 2 ^ 6" by (metis take_bit_nat_less_exp)
    then show "v < 64" by (simp add: word_less_nat_alt)
  qed
  show ?thesis unfolding sextets_def sextet_masks sextet_bits list.pred_inject
    by (intro conjI small) (auto simp: bit_simps dest: bit_imp_le_length)
qed

lemma Suc_Suc_minus_2: "Suc (Suc (n - 2)) = (if 2 \<le> n then n else 2)"
  by (cases "2 \<le> n") arith+

lemma sextets_join:
  "push_bit 2 (drop_bit 2 a) OR drop_bit 4 (push_bit 4 (a AND 0x03) + drop_bit 4 b) = (a :: byte)"
  "push_bit 4 ((push_bit 4 (a AND 0x03) + drop_bit 4 b) AND 0x0F) OR
     drop_bit 2 (push_bit 2 (b AND 0x0F) + drop_bit 6 c) = b"
  "push_bit 6 ((push_bit 2 (b AND 0x0F) + drop_bit 6 c) AND 0x03) OR (c AND 0x3F) = (c :: byte)"
  unfolding sextet_masks sextet_bits
  by (rule bit_word_eqI; auto simp: bit_simps Suc_Suc_minus_2 dest: bit_imp_le_length)+


text \<open>The stores of a digit, on a buffer split at \<^verbatim>\<open>tarindex\<close>.\<close>

lemma upd_at: "unat i = length pre \<Longrightarrow> upd (pre @ x # post) i f = Some (pre @ f x # post)"
  by (simp add: upd_def)

lemma one_store_at:
  assumes "unat i = length pre" "length pre < unat ts"
  shows "one_store (pre @ x # post) i ts f = Ok () (Some (pre @ f x # post))"
  using assms by (simp add: one_store_def upd_at word_le_nat_alt)

lemma two_stores_at:
  assumes "unat i = length pre" "Suc (length pre) < unat ts" "Suc (length pre) < 2 ^ 32"
  shows "two_stores (pre @ x # y # post) i ts f w = Ok () (Some (pre @ f x # w # post))"
proof -
  have i: "unat (i + 1) = Suc (length pre)" using assms by (subst unat_plus_if_no_wrap) simp_all
  then have "upd ((pre @ [f x]) @ y # post) (i + 1) (\<lambda>_. w) = Some ((pre @ [f x]) @ w # post)"
    by (intro upd_at) simp
  then show ?thesis using assms i by (simp add: two_stores_def upd_at word_le_nat_alt)
qed

lemma pton_group:
  assumes "unat i = length pre" "length pre + 3 \<le> unat ts" "length pre + 3 < 2 ^ 32"
  shows "pton_loop (map b64_char (sextets a b c) @ src) S0 i ts (Some (pre @ x # y # z # post)) =
    pton_loop src S0 (i + 3) ts (Some (pre @ a # b # c # post))"
proof -
  have i1: "unat (i + 1) = length (pre @ [a])" using assms by (subst unat_plus_if_no_wrap) simp_all
  have i2: "unat (i + 2) = length (pre @ [a, b])" using assms by (subst unat_plus_if_no_wrap) simp_all
  have eq: "i + 1 + 1 = i + 2" "i + 2 + 1 = i + 3" by simp_all
  obtain v0 v1 v2 v3 where v: "sextets a b c = [v0, v1, v2, v3]"
      and small: "v0 < 64" "v1 < 64" "v2 < 64" "v3 < 64"
      and join: "push_bit 2 v0 OR drop_bit 4 v1 = a" "push_bit 4 (v1 AND 0x0F) OR drop_bit 2 v2 = b"
        "push_bit 6 (v2 AND 0x03) OR v3 = c"
    using sextets_small [of a b c] sextets_join(1) [of a b] sextets_join(2) [of a b c]
      sextets_join(3) [of b c]
    unfolding sextets_def list.pred_inject by blast
  have lt: "length pre < unat ts" "Suc (length pre) < unat ts" "Suc (length pre) < 2 ^ 32"
    "Suc (length (pre @ [a])) < unat ts" "Suc (length (pre @ [a])) < 2 ^ 32"
    "length (pre @ [a, b]) < unat ts"
    using assms by simp_all
  note d0 = one_store_at [OF assms(1) lt(1), of x "y # z # post" "\<lambda>_. push_bit 2 v0"]
  note d1 = two_stores_at [OF assms(1) lt(2,3), of "push_bit 2 v0" y "z # post"
      "\<lambda>b. b OR drop_bit 4 v1" "push_bit 4 (v1 AND 0x0F)", unfolded join]
  note d2 = two_stores_at [OF i1 lt(4,5), of "push_bit 4 (v1 AND 0x0F)" z post
      "\<lambda>b. b OR drop_bit 2 v2" "push_bit 6 (v2 AND 0x03)", unfolded join append_assoc append.simps]
  note d3 = one_store_at [OF i2 lt(6), of "push_bit 6 (v2 AND 0x03)" post "\<lambda>b. b OR v3",
      unfolded join append_assoc append.simps]
  show ?thesis
    unfolding v list.map append.simps
    by (simp only: pton_loop_digit small pton_digit.simps d0 d1 d2 d3 andthen.simps prod.case eq)
qed

lemma pad_facts: "Pad64 \<noteq> 0" "c_isspace Pad64 = Some False"
  by (simp_all add: Pad64_def c_isspace_def)

lemma pton_loop_pad: "pton_loop (Pad64 # src) s i ts t = Ok (Pad64, src, s, i) t"
  by (simp add: pad_facts)

lemma pton_trailer_at:
  "unat i = length pre \<Longrightarrow> pton_trailer (0 # z) i (Some (pre @ 0 # post)) = Ok i (Some (pre @ 0 # post))"
  by (simp add: pton_trailer_def)

lemma pton_one_byte:
  assumes "unat i = length pre" "length pre + 2 \<le> unat ts" "length pre + 2 < 2 ^ 32"
  shows "andthen (pton_loop (b64_encode [a] @ 0 # z) S0 i ts (Some (pre @ x # y # post))) pton_end =
    Ok (i + 1) (Some (pre @ a # 0 # post))"
proof -
  have i1: "unat (i + 1) = length (pre @ [a])" using assms by (subst unat_plus_if_no_wrap) simp_all
  obtain v0 v1 where v: "take 2 (sextets a 0 0) = [v0, v1]" and small: "v0 < 64" "v1 < 64"
      and join: "push_bit 2 v0 OR drop_bit 4 v1 = a"
      and v1: "v1 = push_bit 4 (a AND 0x03) + drop_bit 4 0"
    using sextets_small [of a 0 0] sextets_join(1) [of a 0]
    by (simp add: sextets_def del: push_bit_and)
  have zero: "push_bit 4 (v1 AND 0x0F) = 0"
    unfolding v1 sextet_masks sextet_bits
    by (rule bit_word_eqI) (auto simp: bit_simps)
  have lt: "length pre < unat ts" "Suc (length pre) < unat ts" "Suc (length pre) < 2 ^ 32"
    using assms by simp_all
  note d0 = one_store_at [OF assms(1) lt(1), of x "y # post" "\<lambda>_. push_bit 2 v0"]
  note d1 = two_stores_at [OF assms(1) lt(2,3), of "push_bit 2 v0" y post
      "\<lambda>b. b OR drop_bit 4 v1" "push_bit 4 (v1 AND 0x0F)", unfolded join zero]
  have "pton_loop (b64_encode [a] @ 0 # z) S0 i ts (Some (pre @ x # y # post)) =
      Ok (Pad64, Pad64 # 0 # z, S2, i + 1) (Some (pre @ a # 0 # post))"
    unfolding b64_encode.simps v list.map append.simps append_assoc
    by (simp only: pton_loop_digit small pton_digit.simps zero d0 d1 andthen.simps prod.case
        pton_loop_pad)
  then show ?thesis
    using pton_trailer_at [OF i1, of z post]
    by (simp add: pton_end_def pton_pad_def pad_facts)
qed

lemma pton_two_bytes:
  assumes "unat i = length pre" "length pre + 3 \<le> unat ts" "length pre + 3 < 2 ^ 32"
  shows "andthen (pton_loop (b64_encode [a, b] @ 0 # zz) S0 i ts (Some (pre @ x # y # z # post))) pton_end =
    Ok (i + 2) (Some (pre @ a # b # 0 # post))"
proof -
  have i1: "unat (i + 1) = length (pre @ [a])" using assms by (subst unat_plus_if_no_wrap) simp_all
  have i2: "unat (i + 2) = length (pre @ [a, b])" using assms by (subst unat_plus_if_no_wrap) simp_all
  have eq: "i + 1 + 1 = i + 2" by simp
  obtain v0 v1 v2 where v: "take 3 (sextets a b 0) = [v0, v1, v2]"
      and small: "v0 < 64" "v1 < 64" "v2 < 64"
      and join: "push_bit 2 v0 OR drop_bit 4 v1 = a" "push_bit 4 (v1 AND 0x0F) OR drop_bit 2 v2 = b"
      and v2: "v2 = push_bit 2 (b AND 0x0F) + drop_bit 6 0"
    using sextets_small [of a b 0] sextets_join(1) [of a b] sextets_join(2) [of a b 0]
    by (simp add: sextets_def del: push_bit_and)
  have zero: "push_bit 6 (v2 AND 0x03) = 0"
    unfolding v2 sextet_masks sextet_bits
    by (rule bit_word_eqI) (auto simp: bit_simps)
  have lt: "length pre < unat ts" "Suc (length pre) < unat ts" "Suc (length pre) < 2 ^ 32"
    "Suc (length (pre @ [a])) < unat ts" "Suc (length (pre @ [a])) < 2 ^ 32"
    using assms by simp_all
  note d0 = one_store_at [OF assms(1) lt(1), of x "y # z # post" "\<lambda>_. push_bit 2 v0"]
  note d1 = two_stores_at [OF assms(1) lt(2,3), of "push_bit 2 v0" y "z # post"
      "\<lambda>b. b OR drop_bit 4 v1" "push_bit 4 (v1 AND 0x0F)", unfolded join]
  note d2 = two_stores_at [OF i1 lt(4,5), of "push_bit 4 (v1 AND 0x0F)" z post
      "\<lambda>b. b OR drop_bit 2 v2" "push_bit 6 (v2 AND 0x03)", unfolded join zero append_assoc append.simps]
  have "pton_loop (b64_encode [a, b] @ 0 # zz) S0 i ts (Some (pre @ x # y # z # post)) =
      Ok (Pad64, 0 # zz, S3, i + 2) (Some (pre @ a # b # 0 # post))"
    unfolding b64_encode.simps v list.map append.simps append_assoc
    by (simp only: pton_loop_digit small pton_digit.simps zero d0 d1 d2 andthen.simps prod.case
        pton_loop_pad eq)
  then show ?thesis
    using pton_trailer_at [OF i2, of zz post]
    by (simp add: pton_end_def pton_pad_def)
qed

definition slack :: "byte list \<Rightarrow> nat" where
  "slack bs = (if length bs mod 3 = 0 then 0 else 1)"

lemma pton_decodes:
  assumes "unat i = length pre" "length pre + length bs + slack bs \<le> unat ts"
    "length pre + length bs + slack bs < 2 ^ 32" "length old = length bs + slack bs"
  shows "andthen (pton_loop (b64_encode bs @ 0 # z) S0 i ts (Some (pre @ old @ post))) pton_end =
    Ok (i + of_nat (length bs)) (Some (pre @ bs @ replicate (slack bs) 0 @ post))"
  using assms
proof (induction bs arbitrary: i pre old rule: b64_encode.induct)
  case (1 a b c rest)
  have sl: "slack (a # b # c # rest) = slack rest" by (simp add: slack_def)
  obtain x y w old' where old: "old = x # y # w # old'"
    using "1.prems"(4) by (auto simp: length_Suc_conv)
  have i: "unat (i + 3) = length (pre @ [a, b, c])"
    using "1.prems" by (subst unat_plus_if_no_wrap) simp_all
  have "andthen (pton_loop (b64_encode rest @ 0 # z) S0 (i + 3) ts
        (Some ((pre @ [a, b, c]) @ old' @ post))) pton_end =
      Ok (i + 3 + of_nat (length rest)) (Some ((pre @ [a, b, c]) @ rest @ replicate (slack rest) 0 @ post))"
    by (rule "1.IH") (use "1.prems" i sl old in auto)
  moreover have "pton_loop (b64_encode (a # b # c # rest) @ 0 # z) S0 i ts (Some (pre @ old @ post)) =
      pton_loop (b64_encode rest @ 0 # z) S0 (i + 3) ts (Some ((pre @ [a, b, c]) @ old' @ post))"
    unfolding old b64_encode.simps append_assoc append.simps
    by (rule pton_group) (use "1.prems" in simp_all)
  ultimately show ?case by (simp add: sl)
next
  case (2 a b)
  have "length old = Suc (Suc (Suc 0))" using "2"(4) by (simp add: slack_def)
  then obtain x y w where old: "old = [x, y, w]" by (auto simp: length_Suc_conv)
  from 2 show ?case
    using pton_two_bytes [of i pre ts a b z x y w post] by (simp add: old slack_def del: b64_encode.simps)
next
  case (3 a)
  have "length old = Suc (Suc 0)" using "3"(4) by (simp add: slack_def)
  then obtain x y where old: "old = [x, y]" by (auto simp: length_Suc_conv)
  from 3 show ?case
    using pton_one_byte [of i pre ts a z x y post] by (simp add: old slack_def del: b64_encode.simps)
next
  case 4
  then show ?case by (simp add: pton_end_def slack_def Pad64_def)
qed

subsection \<open>The decoder stays in its buffer\<close>

text \<open>A text the decoder may be given: it ends with a NUL, and is ASCII up to there.\<close>

definition text_ok :: "byte list \<Rightarrow> bool" where
  "text_ok src \<longleftrightarrow> 0 \<in> set src \<and> (\<forall>c \<in> set (takeWhile (\<lambda>c. c \<noteq> 0) src). c < 0x80)"

lemma text_ok_Cons: "text_ok (c # src) \<Longrightarrow> c \<noteq> 0 \<Longrightarrow> text_ok src \<and> (\<exists>b. c_isspace c = Some b)"
  by (auto simp: text_ok_def c_isspace_def)

definition kept :: "byte list \<Rightarrow> u64 \<Rightarrow> byte list option \<Rightarrow> bool" where
  "kept t ts r \<longleftrightarrow> (\<exists>t'. r = Some t' \<and> length t' = length t \<and> drop (unat ts) t' = drop (unat ts) t)"

definition pton_inv :: "u64 \<Rightarrow> pton_state \<Rightarrow> u32 \<Rightarrow> bool" where
  "pton_inv ts s i \<longleftrightarrow> unat i \<le> unat ts \<and> (s \<noteq> S0 \<longrightarrow> unat i < unat ts)"

lemma keptI [intro]: "length t' = length t \<Longrightarrow> drop (unat ts) t' = drop (unat ts) t \<Longrightarrow> kept t ts (Some t')"
  by (simp add: kept_def)

lemma upd_kept:
  "unat i < unat ts \<Longrightarrow> unat ts \<le> length t \<Longrightarrow>
   \<exists>t'. upd t i f = Some t' \<and> length t' = length t \<and> drop (unat ts) t' = drop (unat ts) t"
  by (simp add: upd_def)

lemma unat_i1: "unat i < unat (ts :: u64) \<Longrightarrow> unat (i + 1 :: u32) \<le> unat ts"
proof -
  assume "unat i < unat ts"
  moreover have "unat (i + 1) \<le> unat i + 1"
    by (simp add: unat_word_ariths)
  ultimately show ?thesis by simp
qed

lemma one_store_kept:
  assumes "unat ts \<le> length t"
  shows "okay (\<lambda>_ r. unat i < unat ts \<and> kept t ts r) (kept t ts) (one_store t i ts f)"
  using upd_kept [of i ts t f] assms
  by (cases "ts \<le> ucast i") (auto simp: one_store_def word_le_nat_alt)

lemma two_stores_kept:
  assumes "unat ts \<le> length t" "unat i < unat ts"
  shows "okay (\<lambda>_ r. unat (i + 1) < unat ts \<and> kept t ts r) (kept t ts) (two_stores t i ts f w)"
proof (cases "ts \<le> ucast (i + 1)")
  case True
  then show ?thesis by (auto simp: two_stores_def)
next
  case False
  then have lt: "unat (i + 1) < unat ts" by (simp add: word_le_nat_alt)
  obtain t1 where t1: "upd t i f = Some t1" "length t1 = length t" "drop (unat ts) t1 = drop (unat ts) t"
    using upd_kept [OF assms(2,1)] by blast
  moreover have "unat ts \<le> length t1" using assms t1 by simp
  from upd_kept [OF lt this] obtain t2 where "upd t1 (i + 1) (\<lambda>_. w) = Some t2" "length t2 = length t1"
    "drop (unat ts) t2 = drop (unat ts) t1" by blast
  ultimately show ?thesis using False lt by (auto simp: two_stores_def)
qed

lemma pton_digit_kept:
  assumes "unat ts \<le> length t" "pton_inv ts s i"
  shows "okay (\<lambda>(s', i') r. pton_inv ts s' i' \<and> kept t ts r) (kept t ts) (pton_digit s i v ts (Some t))"
proof (cases s)
  case S0
  then show ?thesis
    by (auto intro!: okay_andthen [OF one_store_kept [OF assms(1)]] simp: pton_inv_def)
next
  case S1
  then have "unat i < unat ts" using assms by (simp add: pton_inv_def)
  with S1 show ?thesis
    by (auto intro!: okay_andthen [OF two_stores_kept [OF assms(1)]] simp: pton_inv_def)
next
  case S2
  then have "unat i < unat ts" using assms by (simp add: pton_inv_def)
  with S2 show ?thesis
    by (auto intro!: okay_andthen [OF two_stores_kept [OF assms(1)]] simp: pton_inv_def)
next
  case S3
  then show ?thesis
    by (auto intro!: okay_andthen [OF one_store_kept [OF assms(1)]] unat_i1 simp: pton_inv_def)
qed

lemma kept_trans: "kept t ts (Some t') \<Longrightarrow> kept t' ts r \<Longrightarrow> kept t ts r"
  by (auto simp: kept_def)

lemma pton_loop_kept:
  assumes "text_ok src" "unat ts \<le> length t" "pton_inv ts s i"
  shows "okay (\<lambda>(ch, rest, s', i') r. pton_inv ts s' i' \<and> kept t ts r \<and> (ch = Pad64 \<longrightarrow> text_ok rest))
    (kept t ts) (pton_loop src s i ts (Some t))"
  using assms
proof (induction src arbitrary: s i t)
  case Nil
  then show ?case by (simp add: text_ok_def)
next
  case (Cons c src)
  show ?case
  proof (cases "c = 0")
    case True
    then show ?thesis using Cons.prems by (auto simp: pad_facts)
  next
    case False
    with Cons.prems(1) obtain b where src: "text_ok src" and b: "c_isspace c = Some b"
      using text_ok_Cons by blast
    have digit: "okay (\<lambda>(ch, rest, s', i') r. pton_inv ts s' i' \<and> kept t ts r \<and> (ch = Pad64 \<longrightarrow> text_ok rest))
        (kept t ts) (andthen (pton_digit s i v ts (Some t)) (\<lambda>(s', i') t'. pton_loop src s' i' ts t'))" for v
    proof (rule okay_andthen [OF pton_digit_kept [OF Cons.prems(2,3)]])
      fix a r assume "(case a of (s', i') \<Rightarrow> \<lambda>r. pton_inv ts s' i' \<and> kept t ts r) r"
      then obtain s' i' t' where a: "a = (s', i')" "pton_inv ts s' i'" "r = Some t'" "kept t ts (Some t')"
        by (auto simp: kept_def)
      then have "unat ts \<le> length t'" using Cons.prems(2) by (auto simp: kept_def)
      from Cons.IH [OF src this a(2)] a show "okay (\<lambda>(ch, rest, s', i') r. pton_inv ts s' i' \<and>
          kept t ts r \<and> (ch = Pad64 \<longrightarrow> text_ok rest)) (kept t ts)
          ((case a of (s', i') \<Rightarrow> \<lambda>t'. pton_loop src s' i' ts t') r)"
        by (auto elim!: okay_mono intro: kept_trans)
    qed
    show ?thesis using False b Cons.IH [OF src Cons.prems(2,3)] Cons.prems src digit
      by (auto split: bool.splits option.splits)
  qed
qed

lemma skip_spaces_ok: "text_ok src \<Longrightarrow> \<exists>c rest. skip_spaces src = Some (c # rest) \<and> (c \<noteq> 0 \<longrightarrow> text_ok rest)"
proof (induction src)
  case (Cons c src)
  show ?case
  proof (cases "c = 0")
    case False
    then obtain b where "text_ok src" "c_isspace c = Some b" using Cons.prems text_ok_Cons by blast
    with False Cons.IH show ?thesis by (cases b) auto
  qed simp
qed (simp add: text_ok_def)

lemma pton_trailer_kept:
  "text_ok src \<Longrightarrow> unat i < length t \<Longrightarrow> okay (\<lambda>n r. n = i \<and> r = Some t) (\<lambda>r. r = Some t) (pton_trailer src i (Some t))"
  using skip_spaces_ok [of src] by (cases "t ! unat i = 0") (auto simp: pton_trailer_def)

lemma f_b64_pton_kept:
  assumes "text_ok src" "unat ts \<le> length t"
  shows "okay (\<lambda>n r. unat n \<le> unat ts \<and> kept t ts r) (kept t ts) (f_b64_pton src (Some t) ts)"
  unfolding f_b64_pton_def
proof (rule okay_andthen [OF pton_loop_kept [OF assms]])
  show "pton_inv ts S0 0" by (simp add: pton_inv_def)
next
  fix a r
  assume "(case a of (ch, rest, s', i') \<Rightarrow> \<lambda>r. pton_inv ts s' i' \<and> kept t ts r \<and> (ch = Pad64 \<longrightarrow> text_ok rest)) r"
  then obtain ch rest s i t' where a: "a = (ch, rest, s, i)" and inv: "pton_inv ts s i"
    and r: "r = Some t'" "kept t ts (Some t')" and rest: "ch = Pad64 \<longrightarrow> text_ok rest"
    by (auto simp: kept_def)
  have trailer: "okay (\<lambda>n r. unat n \<le> unat ts \<and> kept t ts r) (kept t ts) (pton_trailer src' i (Some t'))"
    if "text_ok src'" "s \<noteq> S0" for src'
  proof (rule okay_mono [OF pton_trailer_kept [OF that(1)]])
    show "unat i < length t'" using inv that(2) r(2) assms(2) by (auto simp: pton_inv_def kept_def)
  qed (use inv r in \<open>auto simp: pton_inv_def\<close>)
  show "okay (\<lambda>n r. unat n \<le> unat ts \<and> kept t ts r) (kept t ts) (pton_end a r)"
  proof (cases "ch = Pad64")
    case False
    then show ?thesis using a r inv by (auto simp: pton_end_def pton_inv_def)
  next
    case True
    then have ok: "text_ok rest" "rest \<noteq> []" using rest by (auto simp: text_ok_def)
    obtain c more where sk: "skip_spaces rest = Some (c # more)" "c \<noteq> 0 \<longrightarrow> text_ok more"
      using skip_spaces_ok [OF ok(1)] by blast
    show ?thesis using True a r ok sk trailer [of rest] trailer [of more]
      by (cases s) (auto simp: pton_end_def pton_pad_def pad_facts)
  qed
qed

subsection \<open>Counting without a buffer\<close>

lemma one_store_Some: "one_store t i ts f = Ok u r \<Longrightarrow> \<exists>t'. r = Some t'"
  by (cases "upd t i f"; cases "ts \<le> ucast i"; simp add: one_store_def; metis)

lemma two_stores_Some: "two_stores t i ts f w = Ok u r \<Longrightarrow> \<exists>t'. r = Some t'"
  by (cases "upd t i f"; cases "upd (the (upd t i f)) (i + 1) (\<lambda>_. w)"; cases "ts \<le> ucast (i + 1)";
      simp add: two_stores_def; metis)

lemma pton_digit_count:
  "pton_digit s i v ts (Some t) = Ok p r \<Longrightarrow> pton_digit s i v ts' None = Ok p None \<and> r \<noteq> None"
  by (cases s)
     (auto simp: andthen_eq_Ok dest: one_store_Some two_stores_Some)

lemma pton_loop_count:
  "pton_loop src s i ts (Some t) = Ok p r \<Longrightarrow> pton_loop src s i ts' None = Ok p None \<and> r \<noteq> None"
proof (induction src arbitrary: s i t)
  case (Cons c src)
  show ?case
  proof (cases "c = 0 \<or> c = Pad64 \<or> c_isspace c \<noteq> Some False")
    case True
    then show ?thesis using Cons
      by (auto split: if_splits option.splits bool.splits simp: pad_facts)
  next
    case False
    then obtain v q where v: "c_strchr c = Some v" and q: "pton_digit s i v ts (Some t) = Ok (fst q) (snd q)"
      and rest: "pton_loop src (fst (fst q)) (snd (fst q)) ts (snd q) = Ok p r"
      using Cons.prems by (auto split: option.splits simp: andthen_eq_Ok)
    note d = pton_digit_count [OF q, of ts']
    then obtain t' where "snd q = Some t'" by auto
    with rest have "pton_loop src (fst (fst q)) (snd (fst q)) ts' None = Ok p None \<and> r \<noteq> None"
      using Cons.IH by simp
    with False v d show ?thesis by (auto simp: case_prod_beta)
  qed
qed simp

lemma f_b64_pton_count:
  assumes "f_b64_pton src (Some t) ts = Ok n r"
  shows "f_b64_pton src None ts' = Ok n None"
proof -
  obtain p q where p: "pton_loop src S0 0 ts (Some t) = Ok p q" and e: "pton_end p q = Ok n r"
    using assms by (auto simp: f_b64_pton_def andthen_eq_Ok)
  from pton_loop_count [OF p, of ts'] obtain t' where n: "pton_loop src S0 0 ts' None = Ok p None"
    and q: "q = Some t'" by auto
  have tr: "pton_trailer x i (Some t') = Ok n r \<Longrightarrow> pton_trailer x i None = Ok n None" for x i
    by (auto simp: pton_trailer_def split: option.splits list.splits if_splits)
  obtain ch rest st i where pe: "p = (ch, rest, st, i)" by (cases p)
  have "pton_end p None = Ok n None"
    using e unfolding pe q
    by (cases st) (auto simp: pton_end_def pton_pad_def tr split: option.splits list.splits if_splits)
  then show ?thesis by (simp add: f_b64_pton_def n)
qed

end
