(* ===== verification/B64_Spec.thy ===== *)
theory B64_Spec
  imports FBase64
begin

unbundle bit_operations_syntax

section \<open>The base64 encoding of RFC 1521\<close>

text \<open>
  The encoding as section 5.2 of the RFC states it, without reference to the code: the octets are a stream of bits, each octet
  with its most significant bit first; the stream is filled up with zero bits to full groups of six; every group is a number
  that is looked up in the RFC's table 1 (\<open>rfc_letter\<close>, over ASCII); and as many \<^verbatim>\<open>=\<close> follow as octets are missing from the last
  group of three. The encoder's text \<open>b64_encode\<close> is this text.
\<close>

definition octet_bits :: "byte \<Rightarrow> bool list" where "octet_bits x = map (bit x) [7, 6, 5, 4, 3, 2, 1, 0]"

definition rfc_letter :: "nat \<Rightarrow> byte" where
  "rfc_letter n =
     of_nat (if n < 26 then 65 + n else if n < 52 then 97 + (n - 26) else if n < 62 then 48 + (n - 52) else if n = 62 then 43 else 47)"

definition bits_number :: "bool list \<Rightarrow> nat" where "bits_number bs = foldl (\<lambda>n b. 2 * n + of_bool b) 0 bs"

fun rfc_groups :: "bool list \<Rightarrow> byte list" where
  "rfc_groups [] = []"
| "rfc_groups (b # bs) =
     (let group = take 6 (b # bs) in rfc_letter (bits_number (group @ replicate (6 - length group) False)) # rfc_groups (drop 5 bs))"

definition rfc1521_text :: "byte list \<Rightarrow> byte list" where
  "rfc1521_text octets = rfc_groups (concat (map octet_bits octets)) @ replicate ((3 - length octets mod 3) mod 3) 61"

subsection \<open>The encoder's text\<close>

lemma bits_number_byte: "bits_number (map (bit (w :: byte)) [5, 4, 3, 2, 1, 0]) = unat w mod 64"
proof -
  have "[0..<6] = [0, 1, 2, 3, 4, 5 :: nat]" by code_simp
  then have "take_bit 6 (unat w) = horner_sum of_bool 2 (map (bit (unat w)) [0, 1, 2, 3, 4, 5])"
    using horner_sum_bit_eq_take_bit [of "unat w" 6] by metis
  then show ?thesis by (simp add: bits_number_def bit_unsigned_iff take_bit_eq_mod)
qed

lemma rfc_letter_table: "v < 64 \<Longrightarrow> rfc_letter (unat v) = b64_char v"
proof -
  have "list_all (\<lambda>n. rfc_letter n = Base64 ! n) [0..<64]" by code_simp
  then show "v < 64 \<Longrightarrow> rfc_letter (unat v) = b64_char v" by (simp add: list_all_iff b64_char_def word_less_nat_alt)
qed

lemma letter_of:
  assumes "bs = map (bit w) [5, 4, 3, 2, 1, 0]" "(w :: byte) < 64"
  shows "rfc_letter (bits_number bs) = b64_char w"
  using rfc_letter_table [OF assms(2)] assms bits_number_byte [of w] by (simp add: word_less_nat_alt)

text \<open>The four groups of three octets are the code's four numbers.\<close>

lemma byte_bit [simp]: "8 \<le> n \<Longrightarrow> \<not> bit (v :: byte) n"
  using bit_imp_le_length [of v n] by auto

lemma sextets_or: "sextets a b c = [drop_bit 2 a, push_bit 4 (a AND 0x03) OR drop_bit 4 b, push_bit 2 (b AND 0x0F) OR drop_bit 6 c, c AND 0x3F]"
proof -
  have "push_bit 4 (a AND 0x03) AND drop_bit 4 b = 0" "push_bit 2 (b AND 0x0F) AND drop_bit 6 c = 0"
    by (rule bit_word_eqI, auto simp: bit_simps)+
  then show ?thesis by (simp add: sextets_def disjunctive_add_eq_or)
qed

lemma byte_small: "\<not> bit (v :: byte) 6 \<Longrightarrow> \<not> bit v 7 \<Longrightarrow> v < 64"
proof -
  assume h: "\<not> bit v 6" "\<not> bit v 7"
  have "take_bit 6 v = v"
  proof (rule bit_word_eqI)
    fix n assume "n < LENGTH(8)"
    then have "n < 6 \<or> n = 6 \<or> n = 7" by simp linarith
    then show "bit (take_bit 6 v) n = bit v n" using h by (auto simp: bit_simps)
  qed
  then have "unat v < 2 ^ 6" by (metis take_bit_nat_less_exp unsigned_take_bit_eq)
  then show "v < 64" by (simp add: word_less_nat_alt)
qed

lemma sextets_below: "v \<in> set (sextets a b c) \<Longrightarrow> v < 64"
  by (rule byte_small) (auto simp: sextets_or bit_simps)

lemma sextet_letters:
  "map b64_char (sextets a b c) =
    [rfc_letter (bits_number [bit a 7, bit a 6, bit a 5, bit a 4, bit a 3, bit a 2]),
     rfc_letter (bits_number [bit a 1, bit a 0, bit b 7, bit b 6, bit b 5, bit b 4]),
     rfc_letter (bits_number [bit b 3, bit b 2, bit b 1, bit b 0, bit c 7, bit c 6]),
     rfc_letter (bits_number [bit c 5, bit c 4, bit c 3, bit c 2, bit c 1, bit c 0])]"
proof -
  note small = sextets_below [of _ a b c, unfolded sextets_or, simplified]
  show ?thesis unfolding sextets_or list.map
    by (intro arg_cong2 [where f = "(#)"] refl sym [OF letter_of] small) (auto simp: bit_simps)
qed

lemma rfc_groups_octets:
  "rfc_groups (octet_bits a @ octet_bits b @ octet_bits c @ rest) = map b64_char (sextets a b c) @ rfc_groups rest"
  "rfc_groups (octet_bits a @ octet_bits b) = map b64_char (take 3 (sextets a b 0))"
  "rfc_groups (octet_bits a) = map b64_char (take 2 (sextets a 0 0))"
  unfolding take_map [symmetric] sextet_letters by (simp_all add: octet_bits_def Let_def numeral_eq_Suc)

theorem b64_encode_rfc: "b64_encode octets = rfc1521_text octets"
proof (induction octets rule: b64_encode.induct)
  case (1 a b c rest)
  have "(3 - length (a # b # c # rest) mod 3) mod 3 = (3 - length rest mod 3) mod 3" by simp
  then show ?case using 1 rfc_groups_octets(1) [of a b c] by (simp add: rfc1521_text_def)
qed (simp_all add: rfc1521_text_def rfc_groups_octets Pad64_def numeral_2_eq_2)

end
