(* ===== verification/B64_Correct.thy ===== *)
theory B64_Correct
  imports B64_Spec
begin

unbundle bit_operations_syntax

section \<open>What the base64 functions guarantee\<close>

text \<open>
  The properties of \<^verbatim>\<open>f_b64_ntop\<close> and \<^verbatim>\<open>f_b64_pton\<close> that the WebSocket handshake rests on: the encoder
  computes RFC 1521's text and never leaves its buffer, the decoder never leaves its buffer whatever
  it reads, a round trip, and the counting mode.
\<close>

text \<open>
  C10. The encoder is RFC 1521's: given a target of at least targsize bytes it stores the text that the RFC
  defines (groups of six bits of the stream of octets, looked up in the RFC's alphabet, and padding) and a NUL at its
  start and returns the length of the text, when both fit; otherwise it returns -1, and in neither case does it touch
  a byte at or beyond targsize.
\<close>

theorem ntop_specified:
  assumes "unat targsize \<le> length target" "length target < 2 ^ 63" "unat srclength = length src"
  shows "ntop_result (rfc1521_text src) 0 targsize target (f_b64_ntop src srclength target targsize)"
  unfolding f_b64_ntop_def b64_encode_rfc [symmetric] by (rule ntop_from_result [OF assms(1,2) _ assms(3)]) simp

theorem ntop_specified_witness:
  "ntop_result (rfc1521_text [77, 97]) 0 5 (replicate 8 1) (f_b64_ntop [77, 97] 2 (replicate 8 1) 5)"
  by (rule ntop_specified) simp_all

text \<open>
  C11. Round trip: decoding the text of any byte string gives back the bytes and their number, if
  the target has a byte more than they need whenever their number is not a multiple of three. The
  bytes of the target behind them are untouched.
\<close>

theorem base64_roundtrip:
  assumes "length bs + slack bs \<le> unat targsize" "length bs + slack bs < 2 ^ 32"
    "length old = length bs + slack bs"
  shows "f_b64_pton (b64_encode bs @ 0 # z) (Some (old @ post)) targsize =
    Ok (of_nat (length bs)) (Some (bs @ replicate (slack bs) 0 @ post))"
  using pton_decodes [of 0 "[]" bs targsize old z post] assms by (simp add: f_b64_pton_def)

theorem base64_roundtrip_witness:
  "f_b64_pton (b64_encode [1, 2, 255, 7] @ 0 # [9]) (Some (replicate 5 3 @ [8])) 6 =
    Ok (of_nat (length [1, 2, 255, 7 :: byte]))
      (Some ([1, 2, 255, 7] @ replicate (slack [1, 2, 255, 7]) 0 @ [8]))"
  by (rule base64_roundtrip) (simp_all add: slack_def)

text \<open>
  C12. The decoder is memory safe: on any NUL-terminated ASCII text, well formed or not, it neither
  reads nor writes outside its buffers; it changes no byte at or beyond targsize, and a returned
  length is at most targsize.
\<close>

theorem pton_memory_safe:
  assumes "text_ok src" "unat targsize \<le> length t"
  shows "okay (\<lambda>n r. unat n \<le> unat targsize \<and> kept t targsize r) (kept t targsize)
    (f_b64_pton src (Some t) targsize)"
  using assms by (rule f_b64_pton_kept)

theorem pton_memory_safe_witness:
  "okay (\<lambda>n r. unat n \<le> unat (2 :: u64) \<and> kept [1, 2, 3] 2 r) (kept [1, 2, 3] 2)
    (f_b64_pton [81, 32, 81, 61, 61, 33, 0] (Some [1, 2, 3]) 2)"
  by (rule pton_memory_safe) (simp_all add: text_ok_def)

text \<open>
  Counting: with a NULL target the decoder accepts every text it decodes into some buffer, and
  returns the same length.
\<close>

theorem pton_counts:
  assumes "f_b64_pton src (Some t) targsize = Ok n r"
  shows "f_b64_pton src None targsize' = Ok n None"
  using assms by (rule f_b64_pton_count)

theorem pton_counts_witness: "f_b64_pton [81, 81, 61, 61, 0] None 0 = Ok 1 None"
proof (rule pton_counts)
  show "f_b64_pton [81, 81, 61, 61, 0] (Some [0, 0]) 2 = Ok 1 (Some [65, 0])" by code_simp
qed

lemma two_digits_one_byte:
  "v < 64 \<Longrightarrow> w < 64 \<Longrightarrow>
    \<exists>r. andthen (pton_loop (b64_char v # b64_char w # rest) S0 0 1 (Some [x])) pton_end = Fail r"
  by (simp add: pton_loop_digit one_store_def upd_def two_stores_def del: pton_loop.simps)

text \<open>
  A target with exactly the bytes of the result is too small when their number is not a
  multiple of three: one byte, encoded and decoded into a buffer of one byte, is an error.
\<close>

theorem pton_needs_spare_byte: "\<exists>r. f_b64_pton (b64_encode [b] @ [0]) (Some [x]) 1 = Fail r"
  using two_digits_one_byte [of "drop_bit 2 b" "push_bit 4 (b AND 3)"] sextets_small [of b 0 0]
  by (simp add: sextets_def f_b64_pton_def del: pton_loop.simps)

end
