(* ===== verification/Lv_Coding.thy ===== *)
theory Lv_Coding
  imports Prelude
begin

unbundle bit_operations_syntax

section \<open>Coding of integers and strings (leveldb util/coding)\<close>

text \<open>
  \<^verbatim>\<open>util/coding.h\<close> and \<^verbatim>\<open>util/coding.cc\<close>: fixed-width and varint encodings and length-prefixed strings.
  A \<^verbatim>\<open>Slice\<close> or \<^verbatim>\<open>std::string\<close> is the list of its bytes, and a pair of pointers \<open>p, limit\<close> is the list of
  the bytes between them. An encoder into a buffer returns the bytes it writes. A decoder returns
  the value and the remaining input, or \<open>None\<close> for \<^verbatim>\<open>NULL\<close> or \<^verbatim>\<open>false\<close>. A load that the code performs
  without a bounds check is \<open>None\<close> when it would leave the object.
\<close>

type_synonym slice = "byte list"

subsection \<open>Fixed width\<close>

definition EncodeFixed32 :: "u32 \<Rightarrow> slice" where "EncodeFixed32 v = le_bytes 4 v"

definition EncodeFixed64 :: "u64 \<Rightarrow> slice" where "EncodeFixed64 v = le_bytes 8 v"

definition PutFixed32 :: "slice \<Rightarrow> u32 \<Rightarrow> slice" where "PutFixed32 dst v = dst @ EncodeFixed32 v"

definition PutFixed64 :: "slice \<Rightarrow> u64 \<Rightarrow> slice" where "PutFixed64 dst v = dst @ EncodeFixed64 v"

definition DecodeFixed32 :: "slice \<Rightarrow> u32 option" where
  "DecodeFixed32 p = (if length p < 4 then None else Some (le_word (take 4 p)))"

definition DecodeFixed64 :: "slice \<Rightarrow> u64 option" where
  "DecodeFixed64 p = (if length p < 8 then None else Some (le_word (take 8 p)))"

subsection \<open>Varints\<close>

definition EncodeVarint32 :: "u32 \<Rightarrow> slice" where
  "EncodeVarint32 v =
     (if v < push_bit 7 1 then [ucast v]
      else if v < push_bit 14 1 then [ucast (v OR 128), ucast (drop_bit 7 v)]
      else if v < push_bit 21 1
      then [ucast (v OR 128), ucast (drop_bit 7 v OR 128), ucast (drop_bit 14 v)]
      else if v < push_bit 28 1
      then [ucast (v OR 128), ucast (drop_bit 7 v OR 128), ucast (drop_bit 14 v OR 128), ucast (drop_bit 21 v)]
      else [ucast (v OR 128), ucast (drop_bit 7 v OR 128), ucast (drop_bit 14 v OR 128),
        ucast (drop_bit 21 v OR 128), ucast (drop_bit 28 v)])"

function EncodeVarint64 :: "u64 \<Rightarrow> slice" where
  "EncodeVarint64 v =
     (if 128 \<le> v then ucast ((v AND 127) OR 128) # EncodeVarint64 (drop_bit 7 v) else [ucast v])"
  by pat_completeness auto
termination
proof (relation "measure unat")
  fix v :: u64 assume "128 \<le> v"
  then have "128 \<le> unat v" by (simp add: word_le_nat_alt)
  then show "(drop_bit 7 v, v) \<in> measure unat" by (simp add: unat_drop_bit_7)
qed simp

declare EncodeVarint64.simps [simp del]

definition PutVarint32 :: "slice \<Rightarrow> u32 \<Rightarrow> slice" where "PutVarint32 dst v = dst @ EncodeVarint32 v"

definition PutVarint64 :: "slice \<Rightarrow> u64 \<Rightarrow> slice" where "PutVarint64 dst v = dst @ EncodeVarint64 v"

text \<open>\<^verbatim>\<open>value.size()\<close> is cut to 32 bits.\<close>

definition PutLengthPrefixedSlice :: "slice \<Rightarrow> slice \<Rightarrow> slice" where
  "PutLengthPrefixedSlice dst v = PutVarint32 dst (of_nat (length v)) @ v"

function VarintLength_loop :: "u64 \<Rightarrow> nat \<Rightarrow> nat" where
  "VarintLength_loop v len = (if 128 \<le> v then VarintLength_loop (drop_bit 7 v) (len + 1) else len)"
  by pat_completeness auto
termination
proof (relation "measure (\<lambda>(v, len). unat v)")
  fix v :: u64 and len :: nat assume "128 \<le> v"
  then have "128 \<le> unat v" by (simp add: word_le_nat_alt)
  then show "((drop_bit 7 v, len + 1), v, len) \<in> measure (\<lambda>(v, len). unat v)" by (simp add: unat_drop_bit_7)
qed simp

declare VarintLength_loop.simps [simp del]

definition VarintLength :: "u64 \<Rightarrow> nat" where "VarintLength v = VarintLength_loop v 1"

text \<open>
  The loop of both decoders, for a result of \<open>LENGTH('a)\<close> bits and shifts up to \<open>maxs\<close>. A shift is
  below the width of the result, so it is defined.
\<close>

fun varint_ptr_loop :: "nat \<Rightarrow> 'a::len word \<Rightarrow> nat \<Rightarrow> slice \<Rightarrow> ('a word \<times> slice) option" where
  "varint_ptr_loop maxs result shift [] = None"
| "varint_ptr_loop maxs result shift (b # p) =
     (if maxs < shift then None
      else let byte = ucast b in
        if byte AND 128 \<noteq> 0
        then varint_ptr_loop maxs (result OR push_bit shift (byte AND 127)) (shift + 7) p
        else Some (result OR push_bit shift byte, p))"

definition GetVarint32PtrFallback :: "slice \<Rightarrow> (u32 \<times> slice) option" where
  "GetVarint32PtrFallback p = varint_ptr_loop 28 0 0 p"

definition GetVarint32Ptr :: "slice \<Rightarrow> (u32 \<times> slice) option" where
  "GetVarint32Ptr p =
     (case p of
        b # q \<Rightarrow> let result = ucast b in
          if result AND 128 = 0 then Some (result, q) else GetVarint32PtrFallback p
      | [] \<Rightarrow> GetVarint32PtrFallback p)"

definition GetVarint64Ptr :: "slice \<Rightarrow> (u64 \<times> slice) option" where
  "GetVarint64Ptr p = varint_ptr_loop 63 0 0 p"

definition GetVarint32 :: "slice \<Rightarrow> (u32 \<times> slice) option" where
  "GetVarint32 input = (case GetVarint32Ptr input of None \<Rightarrow> None | Some (v, q) \<Rightarrow> Some (v, q))"

definition GetVarint64 :: "slice \<Rightarrow> (u64 \<times> slice) option" where
  "GetVarint64 input = (case GetVarint64Ptr input of None \<Rightarrow> None | Some (v, q) \<Rightarrow> Some (v, q))"

text \<open>The pointer version and the \<^verbatim>\<open>Slice\<close> version of reading a length-prefixed string.\<close>

definition GetLengthPrefixedSlicePtr :: "slice \<Rightarrow> (slice \<times> slice) option" where
  "GetLengthPrefixedSlicePtr p =
     (case GetVarint32Ptr p of
        None \<Rightarrow> None
      | Some (len, q) \<Rightarrow> if length q < unat len then None else Some (take (unat len) q, drop (unat len) q))"

definition GetLengthPrefixedSlice :: "slice \<Rightarrow> (slice \<times> slice) option" where
  "GetLengthPrefixedSlice input =
     (case GetVarint32 input of
        None \<Rightarrow> None
      | Some (len, q) \<Rightarrow> if unat len \<le> length q then Some (take (unat len) q, drop (unat len) q) else None)"

subsection \<open>The contract of an encoding\<close>

locale slice_codec =
  fixes put :: "'a \<Rightarrow> slice" and get :: "slice \<Rightarrow> ('a \<times> slice) option" and valid :: "'a \<Rightarrow> bool"
  assumes get_put: "valid a \<Longrightarrow> get (put a @ rest) = Some (a, rest)"
begin

lemma put_prefix_free: "valid a \<Longrightarrow> valid b \<Longrightarrow> put a @ xs = put b @ ys \<Longrightarrow> a = b \<and> xs = ys"
  by (metis get_put option.inject prod.inject)

lemma put_inj: "valid a \<Longrightarrow> valid b \<Longrightarrow> put a = put b \<Longrightarrow> a = b"
  by (metis append_Nil2 put_prefix_free)

text \<open>Reading values one after the other, as often as there are.\<close>

primrec get_seq :: "nat \<Rightarrow> slice \<Rightarrow> ('a list \<times> slice) option" where
  "get_seq 0 s = Some ([], s)"
| "get_seq (Suc n) s =
     (case get s of None \<Rightarrow> None
      | Some (a, s') \<Rightarrow> (case get_seq n s' of None \<Rightarrow> None | Some (as, s'') \<Rightarrow> Some (a # as, s'')))"

lemma get_seq_put: "\<forall>a \<in> set as. valid a \<Longrightarrow> get_seq (length as) (concat (map put as) @ rest) = Some (as, rest)"
  by (induction as) (simp_all add: get_put)

end

subsection \<open>Fixed width round-trips\<close>

lemma length_EncodeFixed [simp]: "length (EncodeFixed32 v) = 4" "length (EncodeFixed64 w) = 8"
  by (simp_all add: EncodeFixed32_def EncodeFixed64_def)

lemma DecodeFixed_Encode [simp]:
  "DecodeFixed32 (EncodeFixed32 v @ rest) = Some v" "DecodeFixed64 (EncodeFixed64 w @ rest) = Some w"
  by (simp_all add: EncodeFixed32_def EncodeFixed64_def DecodeFixed32_def DecodeFixed64_def)

lemma DecodeFixed32_inj: "DecodeFixed32 p = Some v \<Longrightarrow> take 4 p = EncodeFixed32 v"
  by (auto simp: DecodeFixed32_def EncodeFixed32_def le_bytes_le_word split: if_splits)

lemma DecodeFixed64_inj: "DecodeFixed64 p = Some v \<Longrightarrow> take 8 p = EncodeFixed64 v"
  by (auto simp: DecodeFixed64_def EncodeFixed64_def le_bytes_le_word split: if_splits)

definition get_fixed32 :: "slice \<Rightarrow> (u32 \<times> slice) option" where
  "get_fixed32 p = map_option (\<lambda>v. (v, drop 4 p)) (DecodeFixed32 p)"

definition get_fixed64 :: "slice \<Rightarrow> (u64 \<times> slice) option" where
  "get_fixed64 p = map_option (\<lambda>v. (v, drop 8 p)) (DecodeFixed64 p)"

interpretation lv_fixed32: slice_codec EncodeFixed32 get_fixed32 "\<lambda>_. True"
  by unfold_locales (simp add: get_fixed32_def)

interpretation lv_fixed64: slice_codec EncodeFixed64 get_fixed64 "\<lambda>_. True"
  by unfold_locales (simp add: get_fixed64_def)

subsection \<open>Varints round-trip\<close>

lemma le_127: "\<not> 128 \<le> (v :: u64) \<longleftrightarrow> unat v < 128"
  by (simp add: word_le_nat_alt not_le)

lemma EncodeVarint64_small: "unat v < 128 \<Longrightarrow> EncodeVarint64 v = [ucast v]"
  using le_127 [of v] by (simp add: EncodeVarint64.simps)

lemma EncodeVarint64_large:
  "128 \<le> unat v \<Longrightarrow> EncodeVarint64 v = ucast ((v AND 127) OR 128) # EncodeVarint64 (drop_bit 7 v)"
  using le_127 [of v] by (simp add: EncodeVarint64.simps)

lemma EncodeVarint64_not_Nil [simp]: "EncodeVarint64 v \<noteq> []"
  by (subst EncodeVarint64.simps) simp

lemma length_EncodeVarint64_bound: "unat v < 128 ^ k \<Longrightarrow> 0 < k \<Longrightarrow> length (EncodeVarint64 v) \<le> k"
proof (induction k arbitrary: v)
  case (Suc k)
  show ?case
  proof (cases "unat v < 128")
    case True
    then show ?thesis by (simp add: EncodeVarint64_small)
  next
    case False
    then have "0 < k" using Suc.prems(1) by (cases k) auto
    moreover have "unat (drop_bit 7 v) < 128 ^ k"
      using Suc.prems(1) by (simp add: unat_drop_bit_7 less_mult_imp_div_less)
    ultimately show ?thesis using Suc.IH False by (simp add: EncodeVarint64_large)
  qed
qed simp

lemma length_EncodeVarint64: "length (EncodeVarint64 v) \<le> 10"
proof (rule length_EncodeVarint64_bound)
  show "unat v < 128 ^ 10" using unsigned_less [of v, where ?'a = nat] by simp
qed simp

text \<open>The unrolled 32-bit encoder writes the same bytes as the loop.\<close>

lemma varint_byte: "ucast ((ucast (w :: u32) AND 127) OR 128 :: u64) = (ucast (w OR 128) :: byte)"
  by (rule bit_word_eqI) (auto simp: bit_simps and_7F wire_bits)

lemma drop_ucast: "drop_bit n (ucast (v :: u32) :: u64) = ucast (drop_bit n v)"
  by (rule bit_word_eqI) (auto simp: bit_simps dest: bit_imp_le_length)

lemma unat_drop: "unat (drop_bit n (v :: u32)) = unat v div 2 ^ n"
  unfolding unat_drop_bit_eq by (rule drop_bit_eq_div)

lemma less_shift:
  "v < 0x80 \<longleftrightarrow> unat v < 2 ^ 7" "v < 0x4000 \<longleftrightarrow> unat v < 2 ^ 14" "v < 0x200000 \<longleftrightarrow> unat v < 2 ^ 21"
  "v < 0x10000000 \<longleftrightarrow> unat v < 2 ^ 28" for v :: u32
  by (simp_all add: word_less_nat_alt)

lemma ucast_byte: "ucast (ucast (w :: u32) :: u64) = (ucast w :: byte)"
  by (rule bit_word_eqI) (auto simp: bit_simps)

lemma encode_step:
  "128 \<le> unat (w :: u32) \<Longrightarrow> EncodeVarint64 (ucast w) = ucast (w OR 128) # EncodeVarint64 (ucast (drop_bit 7 w))"
  using EncodeVarint64_large [of "ucast w"] by (simp add: varint_byte drop_ucast)

lemma encode_stop: "unat (w :: u32) < 128 \<Longrightarrow> EncodeVarint64 (ucast w) = [ucast w]"
  using EncodeVarint64_small [of "ucast w"] by (simp add: ucast_byte)

lemma EncodeVarint32_loop: "EncodeVarint32 v = EncodeVarint64 (ucast v)"
proof -
  have lim: "unat v < 2 ^ 32" using unsigned_less [of v, where ?'a = nat] by simp
  have d: "drop_bit 7 (drop_bit n v) = drop_bit (n + 7) v" for n by (simp add: add.commute)
  have s: "EncodeVarint64 (ucast (drop_bit n v)) =
      ucast (drop_bit n v OR 128) # EncodeVarint64 (ucast (drop_bit (n + 7) v))" if "2 ^ (n + 7) \<le> unat v" for n
  proof -
    have "128 \<le> unat (drop_bit n v)"
      unfolding unat_drop using div_le_mono [OF that, of "2 ^ n"] by (simp add: power_add)
    from encode_step [OF this] show ?thesis unfolding d .
  qed
  have e: "EncodeVarint64 (ucast (drop_bit n v)) = [ucast (drop_bit n v)]" if "unat v < 2 ^ (n + 7)" for n
  proof -
    have "unat (drop_bit n v) < 128"
      unfolding unat_drop using that by (intro less_mult_imp_div_less) (simp add: power_add mult.commute)
    then show ?thesis by (rule encode_stop)
  qed
  show ?thesis
    using s [of 0] s [of 7] s [of 14] s [of 21] e [of 0] e [of 7] e [of 14] e [of 21] e [of 28] lim
    by (simp add: EncodeVarint32_def less_shift)
qed

lemma and_128_eq_0: "7 < LENGTH('a) \<Longrightarrow> w AND 128 = 0 \<longleftrightarrow> \<not> bit w 7" for w :: "'a::len word"
proof -
  have eq: "(128 :: 'a word) = 2 ^ 7" by simp
  show ?thesis unfolding eq by (rule and_exp_eq_0_iff_not_bit)
qed

lemma small_bits: "unat v < 128 \<Longrightarrow> bit v i \<Longrightarrow> i < 7" for v :: u64
proof -
  assume "unat v < 128"
  then have "unat (take_bit 7 v) = unat v" by (simp add: unsigned_take_bit_eq take_bit_nat_eq_self)
  then have "take_bit 7 v = v" by (simp only: word_unat_eq_iff)
  then show "bit v i \<Longrightarrow> i < 7" by (metis bit_take_bit_iff)
qed

lemma last_byte:
  fixes v :: u64
  assumes "unat v < 128" "7 < LENGTH('a::len)"
  shows "ucast (ucast v :: byte) = (ucast v :: 'a word)" "(ucast v :: 'a word) AND 128 = 0"
proof -
  show "ucast (ucast v :: byte) = (ucast v :: 'a word)"
    by (rule bit_word_eqI) (use small_bits [OF assms(1)] in \<open>force simp: bit_simps\<close>)
  show "(ucast v :: 'a word) AND 128 = 0"
    using small_bits [OF assms(1), of 7] by (auto simp: and_128_eq_0 [OF assms(2)] bit_simps)
qed

lemma more_byte:
  fixes v :: u64
  assumes "7 < LENGTH('a::len)"
  defines "b \<equiv> ucast ((v AND 127) OR 128) :: byte"
  shows "(ucast b :: 'a word) AND 128 \<noteq> 0" "(ucast b :: 'a word) AND 127 = take_bit 7 (ucast v)"
proof -
  show "(ucast b :: 'a word) AND 128 \<noteq> 0"
    using assms(1) by (simp add: and_128_eq_0 b_def bit_simps wire_bits)
  show "(ucast b :: 'a word) AND 127 = take_bit 7 (ucast v)"
    unfolding and_7F b_def by (rule bit_word_eqI) (auto simp: bit_simps wire_bits)
qed

lemma varint_ptr_loop_encode:
  assumes len: "7 < LENGTH('a::len)"
  shows "unat v < 128 ^ k \<Longrightarrow> 0 < k \<Longrightarrow> shift + 7 * k = maxs + 7 \<Longrightarrow>
    varint_ptr_loop maxs result shift (EncodeVarint64 v @ rest) = Some (result OR push_bit shift (ucast v :: 'a word), rest)"
proof (induction k arbitrary: v shift result)
  case (Suc k)
  show ?case
  proof (cases "unat v < 128")
    case True
    then show ?thesis using Suc.prems(3) by (simp add: EncodeVarint64_small last_byte len)
  next
    case False
    then have big: "128 \<le> unat v" and k: "0 < k" using Suc.prems(1) by (cases k; simp)+
    have v7: "unat (drop_bit 7 v) < 128 ^ k"
      using Suc.prems(1) by (simp add: unat_drop_bit_7 less_mult_imp_div_less)
    have "push_bit shift (take_bit 7 (ucast v)) OR push_bit (shift + 7) (ucast (drop_bit 7 v)) =
        push_bit shift (ucast v :: 'a word)"
    proof (rule bit_word_eqI)
      fix n assume "n < LENGTH('a)"
      then show "bit (push_bit shift (take_bit 7 (ucast v)) OR push_bit (shift + 7) (ucast (drop_bit 7 v)) :: 'a word) n =
          bit (push_bit shift (ucast v :: 'a word)) n"
        by (cases "shift + 7 \<le> n") (auto simp: bit_simps)
    qed
    then show ?thesis
      using Suc.IH [OF v7 k, of "shift + 7"] Suc.prems(3)
      by (simp add: EncodeVarint64_large [OF big] more_byte len Let_def or.assoc)
  qed
qed simp

lemma GetVarint64Ptr_Encode: "GetVarint64Ptr (EncodeVarint64 v @ rest) = Some (v, rest)"
proof -
  have "unat v < 128 ^ 10" using unsigned_less [of v, where ?'a = nat] by simp
  from varint_ptr_loop_encode [OF _ this, where ?'a = 64, of 0 63 0 rest] show ?thesis
    by (simp add: GetVarint64Ptr_def)
qed

lemma GetVarint32Ptr_fast: "GetVarint32Ptr p = GetVarint32PtrFallback p"
  by (cases p) (auto simp: GetVarint32Ptr_def GetVarint32PtrFallback_def Let_def)

lemma GetVarint32Ptr_Encode: "GetVarint32Ptr (EncodeVarint32 v @ rest) = Some (v, rest)"
proof -
  have "unat (ucast v :: u64) < 128 ^ 5" using unsigned_less [of v, where ?'a = nat] by simp
  moreover have "ucast (ucast v :: u64) = v" by (rule bit_word_eqI) (auto simp: bit_simps)
  ultimately show ?thesis
    using varint_ptr_loop_encode [of "ucast v" 5, where ?'a = 32, of 0 28 0 rest]
    by (simp add: GetVarint32Ptr_fast GetVarint32PtrFallback_def EncodeVarint32_loop)
qed

interpretation lv_varint32: slice_codec EncodeVarint32 GetVarint32 "\<lambda>_. True"
  by unfold_locales (simp add: GetVarint32_def GetVarint32Ptr_Encode)

interpretation lv_varint64: slice_codec EncodeVarint64 GetVarint64 "\<lambda>_. True"
  by unfold_locales (simp add: GetVarint64_def GetVarint64Ptr_Encode)

interpretation lv_string: slice_codec "PutLengthPrefixedSlice []" GetLengthPrefixedSlice "\<lambda>s. length s < 2 ^ 32"
proof
  fix s rest :: slice assume s: "length s < 2 ^ 32"
  then have "unat (of_nat (length s) :: u32) = length s" by (intro unat_of_nat_id) simp
  then show "GetLengthPrefixedSlice (PutLengthPrefixedSlice [] s @ rest) = Some (s, rest)"
    using lv_varint32.get_put [OF TrueI, of "of_nat (length s)" "s @ rest"]
    by (simp add: GetLengthPrefixedSlice_def PutLengthPrefixedSlice_def PutVarint32_def)
qed

text \<open>The two versions of the string reader agree.\<close>

lemma GetLengthPrefixedSlice_ptr: "GetLengthPrefixedSlicePtr p = GetLengthPrefixedSlice p"
  by (auto simp: GetLengthPrefixedSlicePtr_def GetLengthPrefixedSlice_def GetVarint32_def split: option.splits)

text \<open>A decoder consumes at least one byte, and no more bytes than its type needs.\<close>

lemma varint_ptr_loop_consumes:
  "varint_ptr_loop maxs result shift p = Some (v, q) \<Longrightarrow>
   \<exists>pre. p = pre @ q \<and> 0 < length pre \<and> shift + 7 * length pre \<le> maxs + 7"
proof (induction maxs result shift p rule: varint_ptr_loop.induct)
  case (2 maxs result shift b p)
  show ?case
  proof (cases "(ucast b :: 'a word) AND 128 = 0")
    case True
    with 2(2) show ?thesis by (intro exI [of _ "[b]"]) (auto simp: Let_def split: if_splits)
  next
    case False
    then have "\<not> maxs < shift"
      "varint_ptr_loop maxs (result OR push_bit shift (ucast b AND 127)) (shift + 7) p = Some (v, q)"
      using 2(2) by (auto simp: Let_def split: if_splits)
    from 2(1) [OF this(1) refl False this(2)] obtain pre where "p = pre @ q" "0 < length pre"
      "shift + 7 + 7 * length pre \<le> maxs + 7" by blast
    then show ?thesis by (intro exI [of _ "b # pre"]) simp
  qed
qed simp

lemma GetVarint32_consumes:
  "GetVarint32 p = Some (v, q) \<Longrightarrow> \<exists>pre. p = pre @ q \<and> 0 < length pre \<and> length pre \<le> 5"
  using varint_ptr_loop_consumes [of 28 "0 :: u32" 0 p v q]
  by (auto simp: GetVarint32_def GetVarint32Ptr_fast GetVarint32PtrFallback_def split: option.splits)

lemma GetVarint64_consumes:
  "GetVarint64 p = Some (v, q) \<Longrightarrow> \<exists>pre. p = pre @ q \<and> 0 < length pre \<and> length pre \<le> 10"
  using varint_ptr_loop_consumes [of 63 "0 :: u64" 0 p v q]
  by (auto simp: GetVarint64_def GetVarint64Ptr_def split: option.splits)

lemma VarintLength_loop: "VarintLength_loop v len + 1 = length (EncodeVarint64 v) + len"
proof (induction v len rule: VarintLength_loop.induct)
  case (1 v len)
  then show ?case
    by (cases "128 \<le> v") (simp_all add: VarintLength_loop.simps [of v] EncodeVarint64.simps [of v])
qed

lemma VarintLength_Encode: "VarintLength v = length (EncodeVarint64 v)"
  using VarintLength_loop [of v 1] by (simp add: VarintLength_def)

subsection \<open>Arrays of fixed-width integers\<close>

lemma PutFixed32_all: "foldl PutFixed32 r os = r @ concat (map EncodeFixed32 os)"
  by (induction os arbitrary: r) (simp_all add: PutFixed32_def)

lemma fixed_array: "i < length os \<Longrightarrow> DecodeFixed32 (drop (4 * i) (concat (map EncodeFixed32 os) @ z)) = Some (os ! i)"
proof (induction os arbitrary: i)
  case (Cons v os)
  show ?case
  proof (cases i)
    case (Suc j)
    then have "drop (4 * i) (EncodeFixed32 v @ concat (map EncodeFixed32 os) @ z) =
        drop (4 * j) (concat (map EncodeFixed32 os) @ z)" by simp
    then show ?thesis using Cons Suc by simp
  qed simp
qed simp

lemma length_fixed_array: "length (concat (map EncodeFixed32 os)) = 4 * length os"
  by (induction os) (simp_all add: EncodeFixed32_def)

subsection \<open>Decoders and longer inputs\<close>

text \<open>What a decoder reads does not depend on what follows it, and it leaves less than it was given.\<close>

lemma varint_ptr_loop_append:
  "varint_ptr_loop maxs result shift p = Some (v, q) \<Longrightarrow> varint_ptr_loop maxs result shift (p @ z) = Some (v, q @ z)"
  by (induction maxs result shift p rule: varint_ptr_loop.induct) (auto simp: Let_def split: if_splits)

lemma GetVarint_append:
  "GetVarint32 p = Some (v, q) \<Longrightarrow> GetVarint32 (p @ z) = Some (v, q @ z)"
  "GetVarint64 p = Some (w, q) \<Longrightarrow> GetVarint64 (p @ z) = Some (w, q @ z)"
  using varint_ptr_loop_append [of 28 "0 :: u32" 0 p v q z] varint_ptr_loop_append [of 63 "0 :: u64" 0 p w q z]
  by (auto simp: GetVarint32_def GetVarint32Ptr_fast GetVarint32PtrFallback_def GetVarint64_def GetVarint64Ptr_def
      split: option.splits)

lemma GetLengthPrefixedSlice_append:
  assumes "GetLengthPrefixedSlice p = Some (s, q)"
  shows "GetLengthPrefixedSlice (p @ z) = Some (s, q @ z)"
proof -
  obtain len r where r: "GetVarint32 p = Some (len, r)" "unat len \<le> length r" "s = take (unat len) r" "q = drop (unat len) r"
    using assms by (auto simp: GetLengthPrefixedSlice_def split: option.splits if_splits)
  then show ?thesis using GetVarint_append(1) [OF r(1), of z] by (simp add: GetLengthPrefixedSlice_def)
qed

lemma GetVarint32_shorter: "GetVarint32 p = Some (v, q) \<Longrightarrow> length q < length p"
  using GetVarint32_consumes [of p v q] by auto

lemma GetVarint64_shorter: "GetVarint64 p = Some (v, q) \<Longrightarrow> length q < length p"
  using GetVarint64_consumes [of p v q] by auto

lemma GetLengthPrefixedSlice_shorter: "GetLengthPrefixedSlice p = Some (s, q) \<Longrightarrow> length q < length p"
  by (auto simp: GetLengthPrefixedSlice_def split: option.splits if_splits dest!: GetVarint32_shorter)

end
