(* ===== verification/Lv_Bloom.thy ===== *)
theory Lv_Bloom
  imports Lv_Coding
begin

unbundle bit_operations_syntax

section \<open>Hashing and Bloom filters (leveldb util/hash, util/bloom)\<close>

text \<open>
  \<^verbatim>\<open>Hash\<close> and the built-in filter policy: \<^verbatim>\<open>CreateFilter\<close> summarises a list of keys in a bit array and
  \<^verbatim>\<open>KeyMayMatch\<close> tests a key against it. The policy promises that no key of the list is ever denied;
  the locale \<open>filter_policy\<close> states that contract for the filter blocks of a table.
\<close>

subsection \<open>Hash\<close>

definition hash_m :: u32 where "hash_m = 0xc6a4a793"

text \<open>Four bytes at a time; the value is \<^verbatim>\<open>h\<close> and the remaining bytes.\<close>

fun hash_words :: "u32 \<Rightarrow> slice \<Rightarrow> u32 \<times> slice" where
  "hash_words h (a # b # c # d # data) =
     (let w = le_word [a, b, c, d]; h1 = (h + w) * hash_m in hash_words (h1 XOR drop_bit 16 h1) data)"
| "hash_words h data = (h, data)"

definition hash_last :: "u32 \<Rightarrow> u32" where
  "hash_last h = (let h1 = h * hash_m in h1 XOR drop_bit 24 h1)"

definition hash_tail :: "u32 \<Rightarrow> slice \<Rightarrow> u32" where
  "hash_tail h data =
     (case data of
        [a] \<Rightarrow> hash_last (h + ucast a)
      | [a, b] \<Rightarrow> hash_last (h + push_bit 8 (ucast b) + ucast a)
      | [a, b, c] \<Rightarrow> hash_last (h + push_bit 16 (ucast c) + push_bit 8 (ucast b) + ucast a)
      | _ \<Rightarrow> h)"

text \<open>\<^verbatim>\<open>n * m\<close> is a product of 64 bits, cut to 32 when it is assigned.\<close>

definition Hash :: "slice \<Rightarrow> u32 \<Rightarrow> u32" where
  "Hash data seed =
     (let h = ucast (ucast seed XOR (of_nat (length data) * ucast hash_m :: u64)) in
      case hash_words h data of (h', rest) \<Rightarrow> hash_tail h' rest)"

subsection \<open>The policy\<close>

record bloom_policy =
  bits_per_key :: u64
  k_probes :: u64

definition BloomHash :: "slice \<Rightarrow> u32" where "BloomHash key = Hash key 0xbc9f1d34"

text \<open>
  The constructor, for an \<^verbatim>\<open>int\<close> argument. \<^verbatim>\<open>bits_per_key * 0.69\<close> is computed in double precision and
  truncated; up to the cap of 30 that is \<open>bits_per_key * 69 div 100\<close>. Converting a double of -1 or
  less to \<^verbatim>\<open>size_t\<close> is undefined (\<open>None\<close>).
\<close>

definition BloomFilterPolicy :: "int \<Rightarrow> bloom_policy option" where
  "BloomFilterPolicy bpk =
     (if bpk < - 1 then None
      else let k = (if bpk < 0 then 0 else bpk * 69 div 100); k1 = (if k < 1 then 1 else k);
               k2 = (if 30 < k1 then 30 else k1)
           in Some \<lparr>bits_per_key = of_int bpk, k_probes = of_int k2\<rparr>)"

definition hash_delta :: "u32 \<Rightarrow> u32" where "hash_delta h = drop_bit 17 h OR push_bit 15 h"

definition bit_position :: "u32 \<Rightarrow> u64 \<Rightarrow> u32" where
  "bit_position h bits = ucast (ucast h mod bits :: u64)"

primrec add_probes :: "nat \<Rightarrow> u32 \<Rightarrow> u32 \<Rightarrow> u64 \<Rightarrow> slice \<Rightarrow> slice" where
  "add_probes 0 h delta bits array = array"
| "add_probes (Suc j) h delta bits array =
     (let bitpos = bit_position h bits; i = unat (bitpos div 8) in
      add_probes j (h + delta) delta bits
        (array[i := array ! i OR push_bit (unat (bitpos mod 8)) 1]))"

primrec check_probes :: "nat \<Rightarrow> u32 \<Rightarrow> u32 \<Rightarrow> u64 \<Rightarrow> slice \<Rightarrow> bool" where
  "check_probes 0 h delta bits array = True"
| "check_probes (Suc j) h delta bits array =
     (let bitpos = bit_position h bits in
      if array ! unat (bitpos div 8) AND push_bit (unat (bitpos mod 8)) 1 = 0 then False
      else check_probes j (h + delta) delta bits array)"

definition add_key :: "bloom_policy \<Rightarrow> u64 \<Rightarrow> slice \<Rightarrow> slice \<Rightarrow> slice" where
  "add_key pol bits array key =
     add_probes (unat (k_probes pol)) (BloomHash key) (hash_delta (BloomHash key)) bits array"

definition filter_bytes :: "bloom_policy \<Rightarrow> nat \<Rightarrow> u64" where
  "filter_bytes pol n =
     (let bits = of_nat n * bits_per_key pol; bits1 = (if bits < 64 then 64 else bits) in (bits1 + 7) div 8)"

text \<open>
  The filter is appended to \<^verbatim>\<open>dst\<close>. If the size in bits is so close to \<open>2 ^ 64\<close> that rounding it up
  wraps to 0, the code divides by zero: \<open>None\<close>. The number of keys is an \<^verbatim>\<open>int\<close>; a longer list is \<open>None\<close>.
\<close>

definition CreateFilter :: "bloom_policy \<Rightarrow> slice list \<Rightarrow> slice \<Rightarrow> slice option" where
  "CreateFilter pol keys dst =
     (let bytes = filter_bytes pol (length keys); bits = bytes * 8; array = replicate (unat bytes) 0 in
      if 2 ^ 31 \<le> length keys \<or> (bits = 0 \<and> keys \<noteq> []) then None
      else Some (dst @ foldl (add_key pol bits) array keys @ [ucast (k_probes pol)]))"

text \<open>The last byte is read as a signed \<^verbatim>\<open>char\<close>, so from 0x80 on it is a huge number of probes.\<close>

definition bloom_KeyMayMatch :: "slice \<Rightarrow> slice \<Rightarrow> bool" where
  "bloom_KeyMayMatch key bloom_filter =
     (let len = length bloom_filter in
      if len < 2 then False
      else let bits = (of_nat len - 1) * 8 :: u64; k = scast (bloom_filter ! (len - 1)) :: u64 in
        if 30 < k then True
        else check_probes (unat k) (BloomHash key) (hash_delta (BloomHash key)) bits bloom_filter)"

subsection \<open>Bits are only added\<close>

definition covers :: "slice \<Rightarrow> slice \<Rightarrow> bool" where
  "covers a b \<longleftrightarrow> length a = length b \<and> (\<forall>i < length b. \<forall>n. bit (b ! i) n \<longrightarrow> bit (a ! i) n)"

lemma covers_refl: "covers a a"
  by (simp add: covers_def)

lemma covers_trans: "covers a b \<Longrightarrow> covers b c \<Longrightarrow> covers a c"
  by (simp add: covers_def)

lemma covers_update: "covers (a[i := a ! i OR w]) a"
  by (cases "i < length a") (auto simp: covers_def nth_list_update bit_simps)

lemma add_probes_covers: "covers (add_probes k h d bits array) array"
proof (induction k arbitrary: h array)
  case (Suc k)
  show ?case
    unfolding add_probes.simps Let_def by (rule covers_trans [OF Suc.IH covers_update])
qed (simp add: covers_refl)

lemma add_keys_cover: "covers (foldl (add_key pol bits) array keys) array"
proof (induction keys arbitrary: array)
  case (Cons key keys)
  show ?case
    unfolding foldl.simps by (rule covers_trans [OF Cons.IH]) (simp add: add_key_def add_probes_covers)
qed (simp add: covers_refl)

subsection \<open>No key is denied\<close>

lemma bit_position_less:
  assumes "unat bits = 8 * n" "0 < n"
  shows "unat (bit_position h bits div 8) < n" "unat (bit_position h bits mod 8) < 8"
proof -
  have "unat (ucast h mod bits :: u64) = unat h mod (8 * n)" using assms by (simp add: unat_mod)
  moreover have "unat h < 2 ^ 32" using unsigned_less [of h, where ?'a = nat] by simp
  ultimately have p: "unat (bit_position h bits) = unat h mod (8 * n)"
    unfolding bit_position_def
    by (simp add: unsigned_ucast_eq take_bit_nat_eq_self less_imp_le_nat mod_less_eq_dividend [THEN le_less_trans])
  have "unat h mod (8 * n) < 8 * n" using assms by simp
  then show "unat (bit_position h bits div 8) < n" unfolding unat_div p by (simp add: less_mult_imp_div_less mult.commute)
  show "unat (bit_position h bits mod 8) < 8" unfolding unat_mod by simp
qed

lemma probe_bit: "(b :: byte) AND 2 ^ n = 0 \<longleftrightarrow> \<not> bit b n"
  by (rule and_exp_eq_0_iff_not_bit)

lemma check_probes_covers:
  assumes "covers a b" "unat bits = 8 * n" "0 < n" "length b = n"
  shows "check_probes k h d bits b \<Longrightarrow> check_probes k h d bits (a @ z)"
proof (induction k arbitrary: h)
  case (Suc k)
  note p = bit_position_less [OF assms(2,3), of h]
  have len: "length a = n" using assms(1,4) by (simp add: covers_def)
  from Suc.prems have b: "bit (b ! unat (bit_position h bits div 8)) (unat (bit_position h bits mod 8))"
    and rest: "check_probes k (h + d) d bits b"
    by (auto simp: Let_def probe_bit split: if_splits)
  have "bit (a ! unat (bit_position h bits div 8)) (unat (bit_position h bits mod 8))"
    using b assms(1,4) p(1) by (simp add: covers_def)
  then show ?case using Suc.IH [OF rest] p len by (simp add: Let_def probe_bit nth_append)
qed simp

lemma check_add_probes:
  assumes "unat bits = 8 * n" "0 < n"
  shows "length array = n \<Longrightarrow> check_probes k h d bits (add_probes k h d bits array)"
proof (induction k arbitrary: h array)
  case (Suc k)
  note p = bit_position_less [OF assms, of h]
  let ?i = "unat (bit_position h bits div 8)" and ?b = "unat (bit_position h bits mod 8)"
  let ?a = "array[?i := array ! ?i OR push_bit ?b 1]"
  have c: "covers (add_probes k (h + d) d bits ?a) ?a" by (rule add_probes_covers)
  have "bit (?a ! ?i) ?b" using p Suc.prems by (simp add: bit_simps)
  then have "bit (add_probes k (h + d) d bits ?a ! ?i) ?b" using c p(1) Suc.prems by (simp add: covers_def)
  then show ?case using Suc.IH [of ?a "h + d"] Suc.prems p by (simp add: Let_def probe_bit)
qed simp

lemma check_added_key:
  assumes "unat bits = 8 * n" "0 < n" "length array = n" "key \<in> set keys"
  shows "check_probes (unat (k_probes pol)) (BloomHash key) (hash_delta (BloomHash key)) bits
    (foldl (add_key pol bits) array keys @ z)"
proof -
  obtain xs ys where keys: "keys = xs @ key # ys" using assms(4) by (meson split_list)
  let ?a = "foldl (add_key pol bits) array xs"
  have len: "length ?a = n" using add_keys_cover [of pol bits array xs] assms(3) by (simp add: covers_def)
  have "length (add_key pol bits ?a key) = n"
    using add_probes_covers [of _ _ _ _ ?a] len by (simp add: add_key_def [of pol bits ?a key] covers_def)
  moreover have "covers (foldl (add_key pol bits) array keys) (add_key pol bits ?a key)"
    unfolding keys foldl_append foldl.simps by (rule add_keys_cover)
  moreover have "check_probes (unat (k_probes pol)) (BloomHash key) (hash_delta (BloomHash key)) bits (add_key pol bits ?a key)"
    unfolding add_key_def [of pol bits ?a key] by (rule check_add_probes [OF assms(1,2) len])
  ultimately show ?thesis using check_probes_covers [OF _ assms(1,2)] by blast
qed

text \<open>A policy as its constructor makes it, for a number of keys whose filter has a size below \<open>2 ^ 63\<close> bits.\<close>

definition bloom_ok :: "bloom_policy \<Rightarrow> nat \<Rightarrow> bool" where
  "bloom_ok pol n \<longleftrightarrow> unat (k_probes pol) \<le> 30 \<and> n < 2 ^ 31 \<and> n * unat (bits_per_key pol) < 2 ^ 63"

lemma filter_bytes:
  assumes "bloom_ok pol n"
  shows "8 \<le> unat (filter_bytes pol n)" "unat (filter_bytes pol n * 8) = 8 * unat (filter_bytes pol n)"
    "8 * unat (filter_bytes pol n) < 2 ^ 64"
proof -
  have small: "n * unat (bits_per_key pol) < 2 ^ 63" using assms by (simp add: bloom_ok_def)
  let ?bits = "of_nat n * bits_per_key pol"
  have bits: "unat ?bits < 2 ^ 63"
  proof (cases "bits_per_key pol = 0")
    case False
    then have "n \<le> n * unat (bits_per_key pol)" by (simp add: unat_gt_0 Suc_le_eq)
    then have "n < 2 ^ 63" using small by (rule le_less_trans)
    then have n: "unat (of_nat n :: u64) = n" by (intro unat_of_nat_id) simp
    then have "unat ?bits = n * unat (bits_per_key pol)"
      using small by (subst unat_mult_lem [THEN iffD1]) simp_all
    then show ?thesis using small by simp
  qed simp
  define b where "b = (if ?bits < 64 then 64 else ?bits)"
  have b: "64 \<le> unat b" "unat b < 2 ^ 63" using bits by (auto simp: b_def word_less_nat_alt)
  then have "unat (b + 7) = unat b + 7" by (subst unat_plus_if_no_wrap) simp_all
  then have f: "unat (filter_bytes pol n) = (unat b + 7) div 8"
    by (simp add: filter_bytes_def Let_def b_def unat_div)
  show "8 \<le> unat (filter_bytes pol n)" using f b(1) by simp
  show less: "8 * unat (filter_bytes pol n) < 2 ^ 64" using f b(2) by simp
  then show "unat (filter_bytes pol n * 8) = 8 * unat (filter_bytes pol n)"
    by (subst unat_mult_lem [THEN iffD1]) (simp_all add: mult.commute)
qed

lemma small_char: "unat k \<le> 30 \<Longrightarrow> (scast (ucast k :: byte) :: u64) = k" for k :: u64
proof -
  assume "unat k \<le> 30"
  then have "unat (take_bit 5 k) = unat k" by (simp add: unsigned_take_bit_eq take_bit_nat_eq_self)
  then have k: "k = take_bit 5 k" by (simp only: word_unat_eq_iff)
  have "(scast (ucast (take_bit 5 k) :: byte) :: u64) = take_bit 5 k"
    by (rule bit_word_eqI) (auto simp: bit_simps min_def)
  then show ?thesis unfolding k [symmetric] .
qed

lemma CreateFilter_matches:
  assumes ok: "bloom_ok pol (length keys)"
  shows "\<exists>f. CreateFilter pol keys dst = Some (dst @ f) \<and> (\<forall>key \<in> set keys. bloom_KeyMayMatch key f)"
proof -
  define bytes where "bytes = filter_bytes pol (length keys)"
  note fb = filter_bytes [OF ok, folded bytes_def]
  let ?a = "foldl (add_key pol (bytes * 8)) (replicate (unat bytes) 0) keys"
  let ?f = "?a @ [ucast (k_probes pol)]"
  have len: "length ?a = unat bytes"
    using add_keys_cover [of pol "bytes * 8" "replicate (unat bytes) 0" keys] by (simp add: covers_def)
  have "bytes * 8 \<noteq> 0" using fb(1,2) by (metis mult_eq_0_iff not_numeral_le_zero unsigned_0 zero_neq_numeral)
  then have "CreateFilter pol keys dst = Some (dst @ ?f)"
    using ok by (simp add: CreateFilter_def Let_def bytes_def bloom_ok_def)
  moreover have "bloom_KeyMayMatch key ?f" if key: "key \<in> set keys" for key
  proof -
    have "(of_nat (length ?f) - 1) * 8 = bytes * 8" by (simp add: len)
    moreover have "(scast (ucast (k_probes pol) :: byte) :: u64) = k_probes pol"
      by (rule small_char) (use ok in \<open>simp add: bloom_ok_def\<close>)
    moreover have "\<not> length ?f < 2" using fb(1) len by simp
    moreover have "\<not> 30 < k_probes pol" using ok by (simp add: bloom_ok_def word_less_nat_alt not_less)
    moreover have "check_probes (unat (k_probes pol)) (BloomHash key) (hash_delta (BloomHash key)) (bytes * 8) ?f"
      by (rule check_added_key [OF fb(2) _ _ key]) (use fb(1) in simp_all)
    moreover have "?f ! (length ?f - 1) = ucast (k_probes pol)" by (simp add: nth_append)
    ultimately show ?thesis unfolding bloom_KeyMayMatch_def Let_def by (simp only: if_False)
  qed
  ultimately show ?thesis by blast
qed

end
