(* ===== verification/Lv_Filter.thy ===== *)
theory Lv_Filter
  imports Lv_Bloom
begin

unbundle bit_operations_syntax

section \<open>Filter blocks (leveldb table/filter_block)\<close>

text \<open>
  \<^verbatim>\<open>FilterBlockBuilder\<close> collects the keys of the blocks of a table and emits one filter for every two
  kilobytes of block offsets; \<^verbatim>\<open>FilterBlockReader\<close> finds the filter of a block again. The filter policy
  is an argument (\<open>create\<close> for \<^verbatim>\<open>CreateFilter\<close>, \<open>may_match\<close> for \<^verbatim>\<open>KeyMayMatch\<close>); its contract is the
  locale \<open>filter_policy\<close>, which the Bloom policy satisfies. \<open>None\<close> is a failed assertion, undefined
  behaviour, or a load outside the block.
\<close>

definition kFilterBaseLg :: nat where "kFilterBaseLg = 11"

definition kFilterBase :: u64 where "kFilterBase = push_bit kFilterBaseLg 1"

subsection \<open>The builder\<close>

record filter_builder =
  fb_keys :: slice
  fb_start :: "nat list"
  fb_result :: slice
  fb_offsets :: "u32 list"

definition FilterBlockBuilder :: filter_builder where
  "FilterBlockBuilder = \<lparr>fb_keys = [], fb_start = [], fb_result = [], fb_offsets = []\<rparr>"

type_synonym filter_creator = "slice list \<Rightarrow> slice \<Rightarrow> slice option"

definition unflatten :: "slice \<Rightarrow> nat list \<Rightarrow> slice list" where
  "unflatten ks start =
     (let start' = start @ [length ks] in
      map (\<lambda>i. take (start' ! (i + 1) - start' ! i) (drop (start' ! i) ks)) [0..<length start])"

definition GenerateFilter :: "filter_creator \<Rightarrow> filter_builder \<Rightarrow> filter_builder option" where
  "GenerateFilter create b =
     (let offsets = fb_offsets b @ [of_nat (length (fb_result b))] in
      if fb_start b = [] then Some (b\<lparr>fb_offsets := offsets\<rparr>)
      else case create (unflatten (fb_keys b) (fb_start b)) (fb_result b) of
        None \<Rightarrow> None
      | Some r \<Rightarrow> Some (b\<lparr>fb_keys := [], fb_start := [], fb_result := r, fb_offsets := offsets\<rparr>))"

lemma GenerateFilter_offsets: "GenerateFilter create b = Some b' \<Longrightarrow> length (fb_offsets b') = Suc (length (fb_offsets b))"
  by (auto simp: GenerateFilter_def Let_def split: if_splits option.splits)

function generate_until :: "filter_creator \<Rightarrow> nat \<Rightarrow> filter_builder \<Rightarrow> filter_builder option" where
  "generate_until create index b =
     (if length (fb_offsets b) < index
      then (case GenerateFilter create b of None \<Rightarrow> None | Some b' \<Rightarrow> generate_until create index b')
      else Some b)"
  by pat_completeness auto
termination
  by (relation "measure (\<lambda>(create, index, b). index - length (fb_offsets b))")
     (auto dest: GenerateFilter_offsets)

declare generate_until.simps [simp del]

definition filter_index :: "u64 \<Rightarrow> nat" where "filter_index block_offset = unat (block_offset div kFilterBase)"

text \<open>The assertion that block offsets do not go back to an earlier filter ends the program.\<close>

definition StartBlock :: "filter_creator \<Rightarrow> u64 \<Rightarrow> filter_builder \<Rightarrow> filter_builder option" where
  "StartBlock create block_offset b =
     (if filter_index block_offset < length (fb_offsets b) then None
      else generate_until create (filter_index block_offset) b)"

definition AddKey :: "slice \<Rightarrow> filter_builder \<Rightarrow> filter_builder" where
  "AddKey key b = b\<lparr>fb_start := fb_start b @ [length (fb_keys b)], fb_keys := fb_keys b @ key\<rparr>"

definition Finish :: "filter_creator \<Rightarrow> filter_builder \<Rightarrow> slice option" where
  "Finish create b =
     (case (if fb_start b \<noteq> [] then GenerateFilter create b else Some b) of
        None \<Rightarrow> None
      | Some b1 \<Rightarrow>
          let array_offset = of_nat (length (fb_result b1));
              r = foldl PutFixed32 (fb_result b1) (fb_offsets b1)
          in Some (PutFixed32 r array_offset @ [of_nat kFilterBaseLg]))"

text \<open>The calls a table makes: every block is started and its keys are added.\<close>

fun add_blocks :: "filter_creator \<Rightarrow> (u64 \<times> slice list) list \<Rightarrow> filter_builder \<Rightarrow> filter_builder option" where
  "add_blocks create [] b = Some b"
| "add_blocks create ((off, ks) # rest) b =
     (case StartBlock create off b of
        None \<Rightarrow> None
      | Some b1 \<Rightarrow> add_blocks create rest (fold AddKey ks b1))"

subsection \<open>The reader\<close>

text \<open>\<open>fr_offset\<close> is the position of \<^verbatim>\<open>offset_\<close> in \<^verbatim>\<open>data_\<close>.\<close>

record filter_reader =
  fr_data :: slice
  fr_offset :: nat
  fr_num :: u64
  fr_base_lg :: u64

definition FilterBlockReader :: "slice \<Rightarrow> filter_reader option" where
  "FilterBlockReader contents =
     (let n = length contents; empty = \<lparr>fr_data = [], fr_offset = 0, fr_num = 0, fr_base_lg = 0\<rparr> in
      if n < 5 then Some empty
      else let r = empty\<lparr>fr_base_lg := scast (contents ! (n - 1))\<rparr> in
        case DecodeFixed32 (drop (n - 5) contents) of
          None \<Rightarrow> None
        | Some last_word \<Rightarrow>
            if n - 5 < unat last_word then Some r
            else Some (r\<lparr>fr_data := contents, fr_offset := unat last_word,
              fr_num := (of_nat n - 5 - ucast last_word) div 4\<rparr>))"

text \<open>Shifting a 64-bit offset by 64 or more is undefined.\<close>

definition KeyMayMatch :: "(slice \<Rightarrow> slice \<Rightarrow> bool) \<Rightarrow> filter_reader \<Rightarrow> u64 \<Rightarrow> slice \<Rightarrow> bool option" where
  "KeyMayMatch may_match r block_offset key =
     (if 64 \<le> fr_base_lg r then None
      else let index = drop_bit (unat (fr_base_lg r)) block_offset in
        if index < fr_num r then
          (let p = fr_offset r + unat index * 4 in
           case (DecodeFixed32 (drop p (fr_data r)), DecodeFixed32 (drop (p + 4) (fr_data r))) of
             (Some start, Some limit) \<Rightarrow>
               if start \<le> limit \<and> unat limit \<le> fr_offset r
               then Some (may_match key (take (unat (limit - start)) (drop (unat start) (fr_data r))))
               else if start = limit then Some False
               else Some True
           | _ \<Rightarrow> None)
        else Some True)"

subsection \<open>The reader stays inside the block\<close>

lemma DecodeFixed32_Some: "4 \<le> length p \<Longrightarrow> \<exists>v. DecodeFixed32 p = Some v"
  by (simp add: DecodeFixed32_def)

lemma FilterBlockReader_total: "\<exists>r. FilterBlockReader contents = Some r"
  using DecodeFixed32_Some [of "drop (length contents - 5) contents"]
  by (auto simp: FilterBlockReader_def Let_def)

lemma reader_in_bounds:
  assumes "FilterBlockReader contents = Some r" "length contents < 2 ^ 64" "i < unat (fr_num r)"
  shows "fr_offset r + i * 4 + 8 \<le> length (fr_data r)" "fr_offset r \<le> length (fr_data r)"
proof -
  have n: "\<not> length contents < 5"
  proof
    assume "length contents < 5"
    then have "fr_num r = 0" using assms(1) by (auto simp: FilterBlockReader_def)
    with assms(3) show False by simp
  qed
  obtain w where w: "\<not> length contents - 5 < unat (w :: u32)" "fr_data r = contents" "fr_offset r = unat w"
    "fr_num r = (of_nat (length contents) - 5 - ucast w) div 4"
    using assms(1,3) n by (auto simp: FilterBlockReader_def Let_def split: if_splits option.splits)
  have len: "unat (of_nat (length contents) :: u64) = length contents" using assms(2) by (intro unat_of_nat_id) simp
  have "unat (of_nat (length contents) - 5 :: u64) = length contents - 5"
    using unat_sub_of_nat [of 5 "of_nat (length contents) :: u64"] n len by simp
  then have "unat (of_nat (length contents) - 5 - ucast w :: u64) = length contents - 5 - unat w"
    using w(1) by (subst unat_sub) (simp_all add: word_le_nat_alt)
  then have "unat (fr_num r) = (length contents - 5 - unat w) div 4" using w(4) by (simp add: unat_div)
  with assms(3) w(1-3) n show "fr_offset r + i * 4 + 8 \<le> length (fr_data r)" "fr_offset r \<le> length (fr_data r)"
    by auto
qed

lemma KeyMayMatch_in_bounds:
  assumes "FilterBlockReader contents = Some r" "length contents < 2 ^ 64"
  shows "KeyMayMatch may_match r off key = None \<longleftrightarrow> 64 \<le> fr_base_lg r"
proof (cases "64 \<le> fr_base_lg r \<or> \<not> drop_bit (unat (fr_base_lg r)) off < fr_num r")
  case True
  then show ?thesis by (auto simp: KeyMayMatch_def Let_def)
next
  case False
  let ?i = "unat (drop_bit (unat (fr_base_lg r)) off)"
  have "?i < unat (fr_num r)" using False by (simp add: word_less_nat_alt)
  from reader_in_bounds(1) [OF assms this]
  have "4 \<le> length (drop (fr_offset r + ?i * 4) (fr_data r))" "4 \<le> length (drop (fr_offset r + ?i * 4 + 4) (fr_data r))"
    by simp_all
  then obtain v w where "DecodeFixed32 (drop (fr_offset r + ?i * 4) (fr_data r)) = Some v"
    "DecodeFixed32 (drop (fr_offset r + ?i * 4 + 4) (fr_data r)) = Some w"
    using DecodeFixed32_Some by blast
  then show ?thesis using False by (auto simp: KeyMayMatch_def Let_def)
qed

subsection \<open>Lists of pieces\<close>

text \<open>Where each piece starts in the concatenation.\<close>

definition starts :: "slice list \<Rightarrow> nat list" where
  "starts xs = map (\<lambda>i. length (concat (take i xs))) [0..<length xs]"

lemma length_starts [simp]: "length (starts xs) = length xs"
  by (simp add: starts_def)

lemma starts_Nil [simp]: "starts [] = []" "starts xs = [] \<longleftrightarrow> xs = []"
  by (simp_all add: starts_def)

lemma starts_snoc: "starts (xs @ [x]) = starts xs @ [length (concat xs)]"
  by (simp add: starts_def)

lemma starts_end_nth:
  "i \<le> length xs \<Longrightarrow> (starts xs @ [length (concat xs)]) ! i = length (concat (take i xs))"
  by (auto simp: starts_def nth_append less_Suc_eq_le not_less)

lemma piece_at:
  assumes "i < length xs"
  shows "take (length (concat (take (Suc i) xs)) - length (concat (take i xs)))
      (drop (length (concat (take i xs))) (concat xs @ z)) = xs ! i"
    "length (concat (take i xs)) \<le> length (concat (take (Suc i) xs))"
    "length (concat (take (Suc i) xs)) \<le> length (concat xs)"
proof -
  have xs: "xs = take i xs @ xs ! i # drop (Suc i) xs" using assms by (rule id_take_nth_drop)
  have s: "concat (take (Suc i) xs) = concat (take i xs) @ xs ! i" using assms by (simp add: take_Suc_conv_app_nth)
  have c: "concat xs = concat (take i xs) @ xs ! i @ concat (drop (Suc i) xs)" by (subst xs) simp
  show "take (length (concat (take (Suc i) xs)) - length (concat (take i xs)))
      (drop (length (concat (take i xs))) (concat xs @ z)) = xs ! i"
    "length (concat (take i xs)) \<le> length (concat (take (Suc i) xs))"
    "length (concat (take (Suc i) xs)) \<le> length (concat xs)"
    unfolding s by (simp_all add: c)
qed

lemma unflatten_starts: "unflatten (concat xs) (starts xs) = xs"
proof (rule nth_equalityI)
  show "length (unflatten (concat xs) (starts xs)) = length xs" by (simp add: unflatten_def Let_def)
  fix i assume "i < length (unflatten (concat xs) (starts xs))"
  then have i: "i < length xs" by (simp add: unflatten_def Let_def)
  then show "unflatten (concat xs) (starts xs) ! i = xs ! i"
    using piece_at(1) [OF i, of "[]"] starts_end_nth [of i xs] starts_end_nth [of "Suc i" xs]
    by (simp add: unflatten_def Let_def)
qed

lemma scast_11: "scast (11 :: byte) = (11 :: u64)"
  by (simp add: signed_take_bit_eq_if_positive)

subsection \<open>The contract of a filter policy\<close>

locale filter_policy =
  fixes create :: filter_creator and may_match :: "slice \<Rightarrow> slice \<Rightarrow> bool" and cap :: nat and fkey :: "slice \<Rightarrow> bool"
  assumes create_matches:
    "length ks \<le> cap \<Longrightarrow> \<forall>key \<in> set ks. fkey key \<Longrightarrow> \<exists>f. create ks dst = Some (dst @ f) \<and> (\<forall>key \<in> set ks. may_match key f)"
begin

text \<open>
  The state of a builder: \<open>gs\<close> are the keys of the filters generated so far, \<open>pend\<close> the keys that
  wait for the next one, \<open>fs\<close> the generated filters. Keys are those the policy takes, \<open>fkey\<close>.
\<close>

definition holds :: "slice list list \<Rightarrow> slice list \<Rightarrow> slice list \<Rightarrow> filter_builder \<Rightarrow> bool" where
  "holds gs pend fs b \<longleftrightarrow> fb_keys b = concat pend \<and> fb_start b = starts pend \<and> fb_result b = concat fs \<and>
     fb_offsets b = map of_nat (starts fs) \<and> length fs = length gs \<and> (\<forall>key \<in> set pend. fkey key) \<and>
     (\<forall>i < length gs. \<forall>key \<in> set (gs ! i). may_match key (fs ! i))"

lemma holds_start: "holds [] [] [] FilterBlockBuilder"
  by (simp add: holds_def FilterBlockBuilder_def)

lemma holds_AddKey: "holds gs pend fs b \<Longrightarrow> fkey key \<Longrightarrow> holds gs (pend @ [key]) fs (AddKey key b)"
  by (simp add: holds_def AddKey_def starts_snoc)

lemma holds_AddKeys: "holds gs pend fs b \<Longrightarrow> \<forall>key \<in> set ks. fkey key \<Longrightarrow> holds gs (pend @ ks) fs (fold AddKey ks b)"
proof (induction ks arbitrary: pend b)
  case (Cons key ks)
  from Cons.IH [OF holds_AddKey [OF Cons.prems(1), of key]] show ?case using Cons.prems(2) by simp
qed simp

lemma holds_snoc:
  assumes "holds gs pend fs b" "\<forall>key \<in> set pend. may_match key f"
  shows "i < Suc (length gs) \<Longrightarrow> key \<in> set ((gs @ [pend]) ! i) \<Longrightarrow> may_match key ((fs @ [f]) ! i)"
  using assms by (cases "i = length gs") (auto simp: holds_def nth_append)

lemma holds_GenerateFilter:
  assumes h: "holds gs pend fs b" and n: "length pend \<le> cap"
  shows "\<exists>b' f. GenerateFilter create b = Some b' \<and> holds (gs @ [pend]) [] (fs @ [f]) b'"
proof (cases "pend = []")
  case True
  have "holds (gs @ [pend]) [] (fs @ [[]]) (b\<lparr>fb_offsets := fb_offsets b @ [of_nat (length (fb_result b))]\<rparr>)"
    using h holds_snoc [OF h, of "[]"] True by (auto simp: holds_def starts_snoc less_Suc_eq_le)
  then show ?thesis using h True by (intro exI) (auto simp: GenerateFilter_def holds_def)
next
  case False
  have u: "unflatten (fb_keys b) (fb_start b) = pend" and ne: "fb_start b \<noteq> []"
    using h False by (simp_all add: holds_def unflatten_starts)
  obtain f where f: "create pend (fb_result b) = Some (fb_result b @ f)" "\<forall>key \<in> set pend. may_match key f"
    using create_matches [OF n] h unfolding holds_def by blast
  let ?b = "b\<lparr>fb_keys := [], fb_start := [], fb_result := fb_result b @ f,
      fb_offsets := fb_offsets b @ [of_nat (length (fb_result b))]\<rparr>"
  have "holds (gs @ [pend]) [] (fs @ [f]) ?b"
    using h holds_snoc [OF h f(2)] by (auto simp: holds_def starts_snoc)
  moreover have "GenerateFilter create b = Some ?b" using u ne f(1) by (simp add: GenerateFilter_def Let_def)
  ultimately show ?thesis by blast
qed

lemma holds_length: "holds gs pend fs b \<Longrightarrow> length (fb_offsets b) = length gs"
  by (simp add: holds_def)

text \<open>Generating filters up to an index keeps the pending keys at their place.\<close>

lemma holds_generate_until:
  "holds gs pend fs b \<Longrightarrow> length pend \<le> cap \<Longrightarrow> length gs \<le> index \<Longrightarrow>
   \<exists>b' gs' pend' fs'. generate_until create index b = Some b' \<and> holds gs' pend' fs' b' \<and> length gs' = index \<and>
     length pend' \<le> length pend \<and> take (length gs) gs' = gs \<and> (gs' @ [pend']) ! length gs = pend"
proof (induction "index - length gs" arbitrary: gs pend fs b)
  case 0
  then have "length gs = index" by simp
  then have "generate_until create index b = Some b"
    using holds_length [OF 0(2)] by (simp add: generate_until.simps)
  with 0 \<open>length gs = index\<close> show ?case by (intro exI [of _ b] exI [of _ gs] exI [of _ pend] exI [of _ fs]) auto
next
  case (Suc m)
  then have less: "length gs < index" by simp
  obtain b1 f where b1: "GenerateFilter create b = Some b1" "holds (gs @ [pend]) [] (fs @ [f]) b1"
    using holds_GenerateFilter [OF Suc.prems(1,2)] by blast
  have m: "m = index - length (gs @ [pend])" "length (gs @ [pend]) \<le> index" using Suc.hyps(2) by simp_all
  from Suc.hyps(1) [OF m(1) b1(2) _ m(2)]
  obtain b' gs' pend' fs' where b': "generate_until create index b1 = Some b'" "holds gs' pend' fs' b'"
    "length gs' = index" "length pend' \<le> 0" "take (length (gs @ [pend])) gs' = gs @ [pend]" by auto
  have "gs' ! length gs = pend"
    using b'(5) less b'(3) by (metis length_append_singleton lessI nth_append_length nth_take)
  moreover have "take (length gs) gs' = gs"
    using b'(5) by (metis append_eq_conv_conj length_append_singleton lessI less_imp_le min.absorb1 take_take)
  moreover have "generate_until create index b = Some b'"
    using b1(1) b'(1) less holds_length [OF Suc.prems(1)] by (simp add: generate_until.simps [of create index b])
  ultimately show ?case using b' less
    by (intro exI [of _ b'] exI [of _ gs'] exI [of _ pend'] exI [of _ fs']) (auto simp: nth_append)
qed

lemma holds_add_blocks:
  "holds gs pend fs b \<Longrightarrow> sorted (map (filter_index \<circ> fst) blocks) \<Longrightarrow>
   \<forall>(off, ks) \<in> set blocks. length gs \<le> filter_index off \<Longrightarrow>
   length pend + length (concat (map snd blocks)) \<le> cap \<Longrightarrow> \<forall>key \<in> set (concat (map snd blocks)). fkey key \<Longrightarrow>
   \<exists>b' gs' pend' fs'. add_blocks create blocks b = Some b' \<and> holds gs' pend' fs' b' \<and> length pend' \<le> cap \<and>
     length gs \<le> length gs' \<and> (\<forall>i \<le> length gs. set ((gs @ [pend]) ! i) \<subseteq> set ((gs' @ [pend']) ! i)) \<and>
     (\<forall>(off, ks) \<in> set blocks. filter_index off \<le> length gs' \<and> set ks \<subseteq> set ((gs' @ [pend']) ! filter_index off))"
proof (induction blocks arbitrary: gs pend fs b)
  case Nil
  then show ?case by (intro exI [of _ b] exI [of _ gs] exI [of _ pend] exI [of _ fs]) auto
next
  case (Cons blk blocks)
  obtain off ks where blk: "blk = (off, ks)" by (cases blk)
  let ?idx = "filter_index off"
  have idx: "length gs \<le> ?idx" and cap: "length pend \<le> cap" using Cons.prems(3,4) by (auto simp: blk)
  obtain b1 gs1 pend1 fs1 where b1: "generate_until create ?idx b = Some b1" "holds gs1 pend1 fs1 b1"
    "length gs1 = ?idx" "length pend1 \<le> length pend" "take (length gs) gs1 = gs" "(gs1 @ [pend1]) ! length gs = pend"
    using holds_generate_until [OF Cons.prems(1) cap idx] by blast
  have sb: "StartBlock create off b = Some b1"
    using idx holds_length [OF Cons.prems(1)] b1(1) by (simp add: StartBlock_def)
  have h: "holds gs1 (pend1 @ ks) fs1 (fold AddKey ks b1)" using Cons.prems(5) by (intro holds_AddKeys [OF b1(2)]) (auto simp: blk)
  have so: "sorted (map (filter_index \<circ> fst) blocks)" and ge: "\<forall>(o', k') \<in> set blocks. length gs1 \<le> filter_index o'"
    using Cons.prems(2) b1(3) by (auto simp: blk comp_def)
  have len: "length (pend1 @ ks) + length (concat (map snd blocks)) \<le> cap"
    using Cons.prems(4) b1(4) by (simp add: blk)
  have fk: "\<forall>key \<in> set (concat (map snd blocks)). fkey key" using Cons.prems(5) by simp
  obtain b' gs' pend' fs' where b': "add_blocks create blocks (fold AddKey ks b1) = Some b'" "holds gs' pend' fs' b'"
    "length pend' \<le> cap" "length gs1 \<le> length gs'"
    "\<forall>i \<le> length gs1. set ((gs1 @ [pend1 @ ks]) ! i) \<subseteq> set ((gs' @ [pend']) ! i)"
    "\<forall>(off, ks) \<in> set blocks. filter_index off \<le> length gs' \<and> set ks \<subseteq> set ((gs' @ [pend']) ! filter_index off)"
    using Cons.IH [OF h so ge len fk] by blast
  have old: "set ((gs @ [pend]) ! i) \<subseteq> set ((gs' @ [pend']) ! i)" if i: "i \<le> length gs" for i
  proof -
    have i1: "i \<le> length gs1" using i idx b1(3) by simp
    have "set ((gs @ [pend]) ! i) \<subseteq> set ((gs1 @ [pend1 @ ks]) ! i)"
    proof (cases "i = length gs")
      case True
      have e: "(gs @ [pend]) ! i = (gs1 @ [pend1]) ! i" using True b1(6) by simp
      show ?thesis unfolding e using i1 by (cases "i = length gs1") (auto simp: nth_append)
    next
      case False
      then have l: "i < length gs" using i by simp
      then have "gs ! i = gs1 ! i" using b1(5) by (metis nth_take)
      then show ?thesis using l idx b1(3) by (simp add: nth_append)
    qed
    with b'(5) i1 show ?thesis by blast
  qed
  have new: "?idx \<le> length gs' \<and> set ks \<subseteq> set ((gs' @ [pend']) ! ?idx)"
    using b'(4,5) b1(3) by (auto dest!: spec [of _ ?idx] simp: nth_append)
  have "add_blocks create (blk # blocks) b = Some b'" by (simp add: blk sb b'(1))
  with b' old new idx b1(3) show ?case
    by (intro exI [of _ b'] exI [of _ gs'] exI [of _ pend'] exI [of _ fs']) (auto simp: blk)
qed

text \<open>The finished block: the filters, where each starts, where that array starts, and the base.\<close>

lemma holds_Finish:
  assumes h: "holds gs pend fs b" and n: "length pend \<le> cap"
  shows "\<exists>gs' fs'. Finish create b = Some (concat fs' @ concat (map EncodeFixed32 (map of_nat (starts fs'))) @
      EncodeFixed32 (of_nat (length (concat fs'))) @ [11]) \<and>
    length fs' = length gs' \<and> (\<forall>i < length gs'. \<forall>key \<in> set (gs' ! i). may_match key (fs' ! i)) \<and>
    (gs' = gs @ [pend] \<or> (pend = [] \<and> gs' = gs))"
proof -
  obtain gs' fs' b1 where b1: "(if fb_start b \<noteq> [] then GenerateFilter create b else Some b) = Some b1"
    "holds gs' [] fs' b1" "gs' = gs @ [pend] \<or> (pend = [] \<and> gs' = gs)"
  proof (cases "pend = []")
    case True
    then show thesis using h that [of b gs fs] by (simp add: holds_def)
  next
    case False
    then have ne: "fb_start b \<noteq> []" using h by (simp add: holds_def)
    obtain b1 f where "GenerateFilter create b = Some b1" "holds (gs @ [pend]) [] (fs @ [f]) b1"
      using holds_GenerateFilter [OF h n] by blast
    with ne show thesis using that [of b1 "gs @ [pend]" "fs @ [f]"] by simp
  qed
  then show ?thesis
    by (intro exI [of _ gs'] exI [of _ fs'])
       (auto simp: Finish_def Let_def PutFixed32_all PutFixed32_def holds_def kFilterBaseLg_def)
qed

text \<open>The reader finds the i-th filter.\<close>

lemma reader_of_Finish:
  fixes fs' :: "slice list"
  defines "contents \<equiv> concat fs' @ concat (map EncodeFixed32 (map of_nat (starts fs'))) @
      EncodeFixed32 (of_nat (length (concat fs'))) @ [11]"
  assumes len: "length contents < 2 ^ 32"
  shows "\<exists>r. FilterBlockReader contents = Some r \<and>
    KeyMayMatch may_match r off key =
      Some (filter_index off < length fs' \<longrightarrow> may_match key (fs' ! filter_index off))"
proof -
  let ?d = "concat fs'" and ?os = "map of_nat (starts fs') @ [of_nat (length (concat fs'))] :: u32 list"
  have arr: "contents = ?d @ concat (map EncodeFixed32 ?os) @ [11]" by (simp add: contents_def)
  have l4: "length (concat (map EncodeFixed32 os)) = 4 * length os" for os by (induction os) simp_all
  have n: "length contents = length ?d + 4 * length fs' + 5"
    unfolding arr length_append l4 by simp
  then have d32: "unat (of_nat k :: u32) = k" if "k \<le> length ?d" for k
    using len that by (intro unat_of_nat_id) simp
  have n64: "unat (of_nat (length contents) :: u64) = length contents" using len by (intro unat_of_nat_id) simp
  have at: "DecodeFixed32 (drop (length ?d + 4 * i) contents) = Some (?os ! i)" if "i \<le> length fs'" for i
    unfolding arr using fixed_array [of i ?os "[11]"] that by simp
  have last: "DecodeFixed32 (drop (length contents - 5) contents) = Some (of_nat (length ?d))"
    using at [of "length fs'"] n by (simp add: nth_append)
  have lg: "contents ! (length contents - 1) = 11" by (simp add: arr nth_append)
  define r where "r = \<lparr>fr_data = contents, fr_offset = length ?d,
    fr_num = (of_nat (length contents) - 5 - ucast (of_nat (length ?d) :: u32)) div 4, fr_base_lg = 11\<rparr>"
  have r: "FilterBlockReader contents = Some r"
    using n last lg d32 [of "length ?d"] by (simp add: FilterBlockReader_def Let_def r_def scast_11)
  have num: "unat (fr_num r) = length fs'"
  proof -
    have "unat (of_nat (length contents) - 5 :: u64) = length contents - 5"
      using unat_sub_of_nat [of 5 "of_nat (length contents) :: u64"] n n64 by simp
    then have "unat (of_nat (length contents) - 5 - ucast (of_nat (length ?d) :: u32) :: u64) = 4 * length fs'"
      using n d32 [of "length ?d"] by (subst unat_sub) (simp_all add: word_le_nat_alt)
    then show ?thesis by (simp add: r_def unat_div)
  qed
  have index: "unat (drop_bit 11 off) = filter_index off"
  proof -
    have "kFilterBase = 2048" by (simp add: kFilterBase_def kFilterBaseLg_def)
    then show ?thesis unfolding filter_index_def by (simp add: unat_drop_bit_eq drop_bit_eq_div unat_div)
  qed
  have "KeyMayMatch may_match r off key =
      Some (filter_index off < length fs' \<longrightarrow> may_match key (fs' ! filter_index off))"
  proof (cases "filter_index off < length fs'")
    case False
    then have "\<not> drop_bit 11 off < fr_num r" using num index by (simp add: word_less_nat_alt)
    then show ?thesis using False by (simp add: KeyMayMatch_def Let_def r_def)
  next
    case True
    let ?i = "filter_index off"
    have i: "drop_bit 11 off < fr_num r" using True num index by (simp add: word_less_nat_alt)
    define a where "a = length (concat (take ?i fs'))"
    define c where "c = length (concat (take (Suc ?i) fs'))"
    note pc = piece_at [OF True, folded a_def c_def]
    have os: "?os = map of_nat (starts fs' @ [length (concat fs')])" by simp
    have oa: "?os ! ?i = of_nat a" and oc: "?os ! Suc ?i = of_nat c"
      unfolding os a_def c_def using True starts_end_nth [of ?i fs'] starts_end_nth [of "Suc ?i" fs']
      by (simp_all only: nth_map length_append length_starts list.size)
    have ac: "unat (of_nat a :: u32) = a" "unat (of_nat c :: u32) = c" using pc d32 by simp_all
    then have le: "(of_nat a :: u32) \<le> of_nat c" using pc(2) by (simp add: word_le_nat_alt)
    have sub: "unat (of_nat c - of_nat a :: u32) = c - a" using ac le by (simp add: unat_sub)
    have "take (c - a) (drop a contents) = fs' ! ?i" unfolding arr by (rule pc(1))
    moreover have "DecodeFixed32 (drop (length ?d + ?i * 4) contents) = Some (of_nat a)"
      "DecodeFixed32 (drop (length ?d + ?i * 4 + 4) contents) = Some (of_nat c)"
      using at [of ?i] at [of "Suc ?i"] True oa oc by (simp_all add: ac_simps)
    ultimately show ?thesis
      using i index True le ac sub pc(3) by (simp add: KeyMayMatch_def Let_def r_def)
  qed
  with r show ?thesis by blast
qed

theorem no_false_negatives:
  assumes "sorted (map (filter_index \<circ> fst) blocks)" "length (concat (map snd blocks)) \<le> cap"
    "\<forall>key \<in> set (concat (map snd blocks)). fkey key"
  shows "\<exists>b contents. add_blocks create blocks FilterBlockBuilder = Some b \<and> Finish create b = Some contents \<and>
    (length contents < 2 ^ 32 \<longrightarrow> (\<exists>r. FilterBlockReader contents = Some r \<and>
      (\<forall>(off, ks) \<in> set blocks. \<forall>key \<in> set ks. KeyMayMatch may_match r off key = Some True)))"
proof -
  obtain b gs pend fs where b: "add_blocks create blocks FilterBlockBuilder = Some b" "holds gs pend fs b"
    "length pend \<le> cap"
    "\<forall>(off, ks) \<in> set blocks. filter_index off \<le> length gs \<and> set ks \<subseteq> set ((gs @ [pend]) ! filter_index off)"
    using holds_add_blocks [OF holds_start assms(1)] assms(2,3) by auto
  obtain gs' fs' where f: "Finish create b = Some (concat fs' @ concat (map EncodeFixed32 (map of_nat (starts fs'))) @
      EncodeFixed32 (of_nat (length (concat fs'))) @ [11])"
    "length fs' = length gs'" "\<forall>i < length gs'. \<forall>key \<in> set (gs' ! i). may_match key (fs' ! i)"
    "gs' = gs @ [pend] \<or> (pend = [] \<and> gs' = gs)"
    using holds_Finish [OF b(2,3)] by blast
  let ?c = "concat fs' @ concat (map EncodeFixed32 (map of_nat (starts fs'))) @ EncodeFixed32 (of_nat (length (concat fs'))) @ [11]"
  have "\<exists>r. FilterBlockReader ?c = Some r \<and>
      (\<forall>(off, ks) \<in> set blocks. \<forall>key \<in> set ks. KeyMayMatch may_match r off key = Some True)" if c: "length ?c < 2 ^ 32"
  proof -
    obtain r where r: "FilterBlockReader ?c = Some r" using FilterBlockReader_total by blast
    have "KeyMayMatch may_match r off key = Some True" if m: "(off, ks) \<in> set blocks" "key \<in> set ks" for off ks key
    proof -
      have k: "key \<in> set ((gs @ [pend]) ! filter_index off)" using b(4) m by blast
      have "filter_index off < length fs' \<longrightarrow> may_match key (fs' ! filter_index off)"
        using f(2-4) k by (auto simp: nth_append split: if_splits)
      then show ?thesis using reader_of_Finish [OF c, of off key] r by auto
    qed
    with r show ?thesis by blast
  qed
  with b(1) f(1) show ?thesis by blast
qed

end

subsection \<open>The Bloom policy satisfies the contract\<close>

text \<open>Ten bits a key, the value the documentation recommends: 6 probes.\<close>

definition bloom10 :: bloom_policy where "bloom10 = \<lparr>bits_per_key = 10, k_probes = 6\<rparr>"

lemma bloom10_made: "BloomFilterPolicy 10 = Some bloom10"
  by (simp add: BloomFilterPolicy_def bloom10_def)

interpretation bloom: filter_policy "CreateFilter bloom10" bloom_KeyMayMatch "2 ^ 31 - 1" "\<lambda>_. True"
proof
  fix ks :: "slice list" and dst
  assume "length ks \<le> 2 ^ 31 - 1"
  then have "bloom_ok bloom10 (length ks)" by (simp add: bloom_ok_def bloom10_def)
  then show "\<exists>f. CreateFilter bloom10 ks dst = Some (dst @ f) \<and> (\<forall>key \<in> set ks. bloom_KeyMayMatch key f)"
    by (rule CreateFilter_matches)
qed

end
