(* ===== verification/Lv_Log.thy ===== *)
theory Lv_Log
  imports Lv_Crc
begin

unbundle bit_operations_syntax

section \<open>The log format (leveldb db/log_format, db/log_writer, db/log_reader)\<close>

text \<open>
  A log is a sequence of blocks of 32 KB. A record is written as one or more physical records, each
  a header (masked checksum, length, type) and a fragment of the record, none of which crosses a
  block boundary; less than seven bytes at the end of a block are filled with zeros.

  The file a log is written to is \<open>wfile\<close>: its contents and the answers its next calls give, where
  \<open>None\<close> is success, \<open>Some k\<close> a failure after \<open>k\<close> bytes, and no answer left success; \<open>sfile\<close> is a file
  being read: what is left of it and the answers of its next calls. The writer's functions return
  \<open>Ok\<close> for an OK status, \<open>Fail\<close> for an error and \<open>Fault\<close> for a failed assertion. Checksums are
  computed with \<open>Extend\<close> on a buffer at address 0; by \<open>Extend_crc32c\<close> (Lv_Crc) they are \<open>crc32c\<close> at any address.
\<close>

definition log_crc :: "u32 \<Rightarrow> slice \<Rightarrow> u32" where "log_crc crc p = the (Extend 0 crc p)"

lemma log_crc_crc32c: "length p \<le> 65536 \<Longrightarrow> log_crc crc p = crc32c crc p"
  by (simp add: log_crc_def Extend_crc32c)

definition kZeroType :: u32 where "kZeroType = 0"
definition kFullType :: u32 where "kFullType = 1"
definition kFirstType :: u32 where "kFirstType = 2"
definition kMiddleType :: u32 where "kMiddleType = 3"
definition kLastType :: u32 where "kLastType = 4"
definition kMaxRecordType :: u32 where "kMaxRecordType = kLastType"
definition kEof :: u32 where "kEof = kMaxRecordType + 1"
definition kBadRecord :: u32 where "kBadRecord = kMaxRecordType + 2"

definition kBlockSize :: nat where "kBlockSize = 32768"
definition kHeaderSize :: nat where "kHeaderSize = 4 + 2 + 1"

lemmas record_types = kZeroType_def kFullType_def kFirstType_def kMiddleType_def kLastType_def
  kMaxRecordType_def kEof_def kBadRecord_def

subsection \<open>Files\<close>

record wfile =
  wf_data :: slice
  wf_answers :: "nat option list"

definition wf_Append :: "slice \<Rightarrow> wfile \<Rightarrow> bool \<times> wfile" where
  "wf_Append s f =
     (case wf_answers f of
        Some k # as \<Rightarrow> (False, f\<lparr>wf_data := wf_data f @ take k s, wf_answers := as\<rparr>)
      | None # as \<Rightarrow> (True, f\<lparr>wf_data := wf_data f @ s, wf_answers := as\<rparr>)
      | [] \<Rightarrow> (True, f\<lparr>wf_data := wf_data f @ s\<rparr>))"

definition wf_Flush :: "wfile \<Rightarrow> bool \<times> wfile" where
  "wf_Flush f =
     (case wf_answers f of
        Some k # as \<Rightarrow> (False, f\<lparr>wf_answers := as\<rparr>)
      | None # as \<Rightarrow> (True, f\<lparr>wf_answers := as\<rparr>)
      | [] \<Rightarrow> (True, f))"

record sfile =
  sf_data :: slice
  sf_answers :: "bool list"

definition sf_status :: "sfile \<Rightarrow> bool" where
  "sf_status f = (case sf_answers f of a # as \<Rightarrow> a | [] \<Rightarrow> True)"

definition sf_Read :: "nat \<Rightarrow> sfile \<Rightarrow> bool \<times> slice \<times> sfile" where
  "sf_Read n f = (sf_status f, take n (sf_data f), f\<lparr>sf_data := drop n (sf_data f), sf_answers := tl (sf_answers f)\<rparr>)"

definition sf_Skip :: "nat \<Rightarrow> sfile \<Rightarrow> bool \<times> sfile" where
  "sf_Skip n f = (sf_status f, f\<lparr>sf_data := drop n (sf_data f), sf_answers := tl (sf_answers f)\<rparr>)"

subsection \<open>The writer\<close>

record log_writer =
  lw_dest :: wfile
  lw_block_offset :: nat
  lw_type_crc :: "u32 list"

definition InitTypeCrc :: "u32 list" where
  "InitTypeCrc = map (\<lambda>i. log_crc 0 [of_nat i]) [0..<unat kMaxRecordType + 1]"

definition Writer :: "wfile \<Rightarrow> log_writer" where
  "Writer dest = \<lparr>lw_dest = dest, lw_block_offset = 0, lw_type_crc = InitTypeCrc\<rparr>"

definition Writer_at :: "wfile \<Rightarrow> u64 \<Rightarrow> log_writer" where
  "Writer_at dest dest_length =
     \<lparr>lw_dest = dest, lw_block_offset = unat (dest_length mod of_nat kBlockSize), lw_type_crc = InitTypeCrc\<rparr>"

definition record_header :: "u32 \<Rightarrow> u32 \<Rightarrow> nat \<Rightarrow> slice" where
  "record_header crc t n = EncodeFixed32 crc @ [of_nat (n mod 256), of_nat (n div 256), ucast t]"

definition EmitPhysicalRecord :: "u32 \<Rightarrow> slice \<Rightarrow> log_writer \<Rightarrow> (unit, log_writer) outcome" where
  "EmitPhysicalRecord t p w =
     (let n = length p in
      if \<not> n \<le> 0xffff \<or> \<not> lw_block_offset w + kHeaderSize + n \<le> kBlockSize \<or> \<not> unat t < length (lw_type_crc w)
      then Fault
      else
        let crc = crc32c_Mask (log_crc (lw_type_crc w ! unat t) p);
            w1 = w\<lparr>lw_block_offset := lw_block_offset w + (kHeaderSize + n)\<rparr>;
            (ok1, f1) = wf_Append (record_header crc t n) (lw_dest w)
        in if \<not> ok1 then Fail (w1\<lparr>lw_dest := f1\<rparr>)
           else let (ok2, f2) = wf_Append p f1
                in if \<not> ok2 then Fail (w1\<lparr>lw_dest := f2\<rparr>)
                   else let (ok3, f3) = wf_Flush f2
                        in if ok3 then Ok () (w1\<lparr>lw_dest := f3\<rparr>) else Fail (w1\<lparr>lw_dest := f3\<rparr>))"

text \<open>Switching to a new block when no header fits. The status of writing the trailer is dropped.\<close>

definition switch_block :: "log_writer \<Rightarrow> log_writer" where
  "switch_block w =
     (let leftover = kBlockSize - lw_block_offset w in
      if leftover < kHeaderSize
      then (if 0 < leftover then w\<lparr>lw_dest := snd (wf_Append (replicate leftover 0) (lw_dest w)), lw_block_offset := 0\<rparr>
            else w\<lparr>lw_block_offset := 0\<rparr>)
      else w)"

definition fragment_type :: "bool \<Rightarrow> bool \<Rightarrow> u32" where
  "fragment_type bgn fin =
     (if bgn \<and> fin then kFullType else if bgn then kFirstType else if fin then kLastType else kMiddleType)"

text \<open>One round of \<^verbatim>\<open>AddRecord\<close>; its value is what is left of the record.\<close>

definition add_fragment :: "bool \<Rightarrow> slice \<Rightarrow> log_writer \<Rightarrow> (slice, log_writer) outcome" where
  "add_fragment bgn p w =
     (if kBlockSize < lw_block_offset w then Fault
      else let w1 = switch_block w in
        if kBlockSize < lw_block_offset w1 + kHeaderSize then Fault
        else let avail = kBlockSize - lw_block_offset w1 - kHeaderSize;
                 fragment_length = (if length p < avail then length p else avail)
             in andthen (EmitPhysicalRecord (fragment_type bgn (length p = fragment_length)) (take fragment_length p) w1)
                  (\<lambda>_. Ok (drop fragment_length p)))"

lemma switch_block_offset: "lw_block_offset (switch_block w) =
    (if kBlockSize - lw_block_offset w < kHeaderSize then 0 else lw_block_offset w)"
  by (simp add: switch_block_def Let_def)

lemma Emit_offset:
  "EmitPhysicalRecord t p w = Ok () w' \<Longrightarrow> lw_block_offset w' = lw_block_offset w + (kHeaderSize + length p)"
  by (auto simp: EmitPhysicalRecord_def Let_def split: if_splits prod.splits)

lemma add_fragment_progress:
  assumes "add_fragment bgn p w = Ok q w'" "q \<noteq> []"
  shows "length q < length p \<or> (q = p \<and> kBlockSize - lw_block_offset w = kHeaderSize \<and> lw_block_offset w' = kBlockSize)"
proof -
  let ?o = "lw_block_offset (switch_block w)"
  define n where "n = (if length p < kBlockSize - ?o - kHeaderSize then length p else kBlockSize - ?o - kHeaderSize)"
  have fit: "?o + kHeaderSize \<le> kBlockSize"
    using assms(1) by (auto simp: add_fragment_def Let_def split: if_splits)
  have q: "q = drop n p"
    and e: "EmitPhysicalRecord (fragment_type bgn (length p = n)) (take n p) (switch_block w) = Ok () w'"
    using assms(1) by (auto simp: add_fragment_def Let_def n_def andthen_eq_Ok split: if_splits)
  have "n < length p" using q assms(2) by (simp add: not_le [symmetric])
  then have n: "n = kBlockSize - ?o - kHeaderSize" by (auto simp: n_def split: if_splits)
  show ?thesis
  proof (cases "n = 0")
    case True
    then have o: "?o + kHeaderSize = kBlockSize" using n fit by simp
    then have "kBlockSize - lw_block_offset w = kHeaderSize"
      unfolding switch_block_offset by (auto simp: kBlockSize_def kHeaderSize_def split: if_splits)
    then show ?thesis using q True Emit_offset [OF e] o by simp
  next
    case False
    then show ?thesis using q \<open>n < length p\<close> by (intro disjI1) auto
  qed
qed

function add_fragments :: "bool \<Rightarrow> slice \<Rightarrow> log_writer \<Rightarrow> (unit, log_writer) outcome" where
  "add_fragments bgn p w =
     andthen (add_fragment bgn p w) (\<lambda>q w'. if q \<noteq> [] then add_fragments False q w' else Ok () w')"
  by pat_completeness auto
termination
proof (relation "measure (\<lambda>(b, p, w). 2 * length p + (if kBlockSize - lw_block_offset w = kHeaderSize then 1 else 0))")
  fix bgn p w q w'
  assume "add_fragment bgn p w = Ok q w'" "q \<noteq> []"
  from add_fragment_progress [OF this]
  show "((False, q, w'), (bgn, p, w)) \<in> measure
      (\<lambda>(b, p, w). 2 * length p + (if kBlockSize - lw_block_offset w = kHeaderSize then 1 else 0))"
    by (auto simp: kHeaderSize_def)
qed simp

declare add_fragments.simps [simp del]

definition AddRecord :: "slice \<Rightarrow> log_writer \<Rightarrow> (unit, log_writer) outcome" where
  "AddRecord s w = add_fragments True s w"


text \<open>Several records, in order, as the clients of the writer do it.\<close>

fun add_records :: "slice list \<Rightarrow> log_writer \<Rightarrow> (unit, log_writer) outcome" where
  "add_records [] w = Ok () w"
| "add_records (s # ss) w = andthen (AddRecord s w) (\<lambda>_. add_records ss)"

subsection \<open>The reader\<close>

datatype drop_reason = ReadFailed | SkipFailed | Corruption string | UnknownRecordType u32

record log_reader =
  lr_file :: sfile
  lr_reporter :: "(u64 \<times> drop_reason) list option"
  lr_checksum :: bool
  lr_buffer :: slice
  lr_eof :: bool
  lr_last_record_offset :: u64
  lr_end_of_buffer_offset :: u64
  lr_initial_offset :: u64
  lr_resyncing :: bool

definition Reader :: "sfile \<Rightarrow> bool \<Rightarrow> bool \<Rightarrow> u64 \<Rightarrow> log_reader" where
  "Reader f reporter checksum initial_offset =
     \<lparr>lr_file = f, lr_reporter = (if reporter then Some [] else None), lr_checksum = checksum, lr_buffer = [], lr_eof = False,
      lr_last_record_offset = 0, lr_end_of_buffer_offset = 0, lr_initial_offset = initial_offset,
      lr_resyncing = (0 < initial_offset)\<rparr>"

definition ReportDrop :: "u64 \<Rightarrow> drop_reason \<Rightarrow> log_reader \<Rightarrow> log_reader" where
  "ReportDrop n reason r =
     (case lr_reporter r of
        None \<Rightarrow> r
      | Some l \<Rightarrow>
          if lr_initial_offset r \<le> lr_end_of_buffer_offset r - of_nat (length (lr_buffer r)) - n
          then r\<lparr>lr_reporter := Some (l @ [(n, reason)])\<rparr> else r)"

definition ReportCorruption :: "u64 \<Rightarrow> string \<Rightarrow> log_reader \<Rightarrow> log_reader" where
  "ReportCorruption n reason = ReportDrop n (Corruption reason)"

definition SkipToInitialBlock :: "log_reader \<Rightarrow> bool \<times> log_reader" where
  "SkipToInitialBlock r =
     (let offset_in_block = lr_initial_offset r mod of_nat kBlockSize;
          location = lr_initial_offset r - offset_in_block;
          location = (if of_nat (kBlockSize - 6) < offset_in_block then location + of_nat kBlockSize else location);
          r1 = r\<lparr>lr_end_of_buffer_offset := location\<rparr>
      in if 0 < location
         then let (ok, f) = sf_Skip (unat location) (lr_file r1); r2 = r1\<lparr>lr_file := f\<rparr>
              in if ok then (True, r2) else (False, ReportDrop location SkipFailed r2)
         else (True, r1))"

text \<open>The first branch of the loop of \<^verbatim>\<open>ReadPhysicalRecord\<close>: filling the buffer.\<close>

definition read_block :: "log_reader \<Rightarrow> bool \<times> log_reader" where
  "read_block r =
     (let (ok, b, f) = sf_Read kBlockSize (lr_file r);
          r1 = r\<lparr>lr_file := f, lr_buffer := b, lr_end_of_buffer_offset := lr_end_of_buffer_offset r + of_nat (length b)\<rparr>
      in if \<not> ok then (False, (ReportDrop (of_nat kBlockSize) ReadFailed (r1\<lparr>lr_buffer := []\<rparr>))\<lparr>lr_eof := True\<rparr>)
         else (True, r1\<lparr>lr_eof := (length b < kBlockSize)\<rparr>))"

text \<open>
  The rest of the loop's body, with a header in the buffer. The record's type is a \<^verbatim>\<open>char\<close> converted to
  \<^verbatim>\<open>unsigned int\<close>; the payload is assigned only where the record is good.
\<close>

definition header_length :: "slice \<Rightarrow> u32" where
  "header_length h = (ucast (h ! 4) AND 0xff) OR push_bit 8 (ucast (h ! 5) AND 0xff)"

definition parse_record :: "slice \<Rightarrow> log_reader \<Rightarrow> u32 \<times> slice \<times> log_reader" where
  "parse_record result r =
     (let header = lr_buffer r;
          type = scast (header ! 6);
          n = unat (header_length header);
          bad = (\<lambda>reason. (kBadRecord, result, ReportCorruption (of_nat (length header)) reason (r\<lparr>lr_buffer := []\<rparr>)))
      in if length header < kHeaderSize + n
         then (if \<not> lr_eof r then bad ''bad record length'' else (kEof, result, r\<lparr>lr_buffer := []\<rparr>))
         else if type = kZeroType \<and> n = 0 then (kBadRecord, result, r\<lparr>lr_buffer := []\<rparr>)
         else if lr_checksum r \<and> log_crc 0 (take (1 + n) (drop 6 header)) \<noteq> crc32c_Unmask (the (DecodeFixed32 header))
         then bad ''checksum mismatch''
         else
           let r1 = r\<lparr>lr_buffer := drop (kHeaderSize + n) header\<rparr>
           in if lr_end_of_buffer_offset r1 - of_nat (length (lr_buffer r1)) - of_nat kHeaderSize - of_nat n < lr_initial_offset r1
              then (kBadRecord, [], r1)
              else (type, take n (drop kHeaderSize header), r1))"

function ReadPhysicalRecord :: "slice \<Rightarrow> log_reader \<Rightarrow> u32 \<times> slice \<times> log_reader" where
  "ReadPhysicalRecord result r =
     (if length (lr_buffer r) < kHeaderSize
      then (if \<not> lr_eof r
            then (case read_block r of (ok, r1) \<Rightarrow> if ok then ReadPhysicalRecord result r1 else (kEof, result, r1))
            else (kEof, result, r\<lparr>lr_buffer := []\<rparr>))
      else parse_record result r)"
  by pat_completeness auto
termination
  by (relation "measure (\<lambda>(_, r). (if lr_eof r then 0 else 1) + (if length (lr_buffer r) < kHeaderSize then 1 else 0))")
    (auto simp: read_block_def sf_Read_def Let_def kBlockSize_def kHeaderSize_def split: if_splits)

declare ReadPhysicalRecord.simps [simp del]


subsection \<open>Reading a logical record\<close>

record read_frame =
  rf_in_fragmented :: bool
  rf_prospective :: u64
  rf_fragment :: slice
  rf_scratch :: slice

text \<open>The check of \<^verbatim>\<open>resyncing_\<close>: whether the physical record is passed over, and the reader after it.\<close>

definition resync :: "u32 \<Rightarrow> log_reader \<Rightarrow> bool \<times> log_reader" where
  "resync t r =
     (if lr_resyncing r
      then if t = kMiddleType then (True, r)
           else if t = kLastType then (True, r\<lparr>lr_resyncing := False\<rparr>)
           else (False, r\<lparr>lr_resyncing := False\<rparr>)
      else (False, r))"

text \<open>
  The switch: \<open>Inl\<close> the frame when the loop goes on, \<open>Inr\<close> the value when it returns, \<open>None\<close> for \<^verbatim>\<open>false\<close>.
  A record that begins inside another one is reported unless nothing of the other was read.
\<close>

definition begin_record :: "string \<Rightarrow> read_frame \<Rightarrow> log_reader \<Rightarrow> read_frame \<times> log_reader" where
  "begin_record reason fr r =
     (if rf_in_fragmented fr
      then if rf_scratch fr = [] then (fr\<lparr>rf_in_fragmented := False\<rparr>, r)
           else (fr, ReportCorruption (of_nat (length (rf_scratch fr))) reason r)
      else (fr, r))"

definition read_switch :: "u32 \<Rightarrow> u64 \<Rightarrow> read_frame \<Rightarrow> log_reader \<Rightarrow> (read_frame + slice option) \<times> log_reader" where
  "read_switch t offset fr r =
     (let fragment = rf_fragment fr; scratch = rf_scratch fr in
      if t = kFullType then
        (case begin_record ''partial record without end(1)'' fr r of
           (_, r1) \<Rightarrow> (Inr (Some fragment), r1\<lparr>lr_last_record_offset := offset\<rparr>))
      else if t = kFirstType then
        (case begin_record ''partial record without end(2)'' fr r of
           (fr1, r1) \<Rightarrow> (Inl (fr1\<lparr>rf_prospective := offset, rf_scratch := fragment, rf_in_fragmented := True\<rparr>), r1))
      else if t = kMiddleType then
        (if \<not> rf_in_fragmented fr
         then (Inl fr, ReportCorruption (of_nat (length fragment)) ''missing start of fragmented record(1)'' r)
         else (Inl (fr\<lparr>rf_scratch := scratch @ fragment\<rparr>), r))
      else if t = kLastType then
        (if \<not> rf_in_fragmented fr
         then (Inl fr, ReportCorruption (of_nat (length fragment)) ''missing start of fragmented record(2)'' r)
         else (Inr (Some (scratch @ fragment)), r\<lparr>lr_last_record_offset := rf_prospective fr\<rparr>))
      else if t = kEof then (Inr None, r)
      else if t = kBadRecord then
        (if rf_in_fragmented fr
         then (Inl (fr\<lparr>rf_in_fragmented := False, rf_scratch := []\<rparr>),
           ReportCorruption (of_nat (length scratch)) ''error in middle of record'' r)
         else (Inl fr, r))
      else
        (Inl (fr\<lparr>rf_in_fragmented := False, rf_scratch := []\<rparr>),
         ReportDrop (of_nat (length fragment + (if rf_in_fragmented fr then length scratch else 0))) (UnknownRecordType t) r))"

text \<open>One round of the loop of \<^verbatim>\<open>ReadRecord\<close>.\<close>

definition read_round :: "read_frame \<Rightarrow> log_reader \<Rightarrow> (read_frame + slice option) \<times> log_reader" where
  "read_round fr r =
     (case ReadPhysicalRecord (rf_fragment fr) r of
        (t, fragment, r1) \<Rightarrow>
          let offset = lr_end_of_buffer_offset r1 - of_nat (length (lr_buffer r1)) - of_nat kHeaderSize - of_nat (length fragment);
              fr1 = fr\<lparr>rf_fragment := fragment\<rparr>
          in (case resync t r1 of
                (pass, r2) \<Rightarrow> if pass then (Inl fr1, r2) else read_switch t offset fr1 r2))"

text \<open>What is left to read: each round that goes on consumes at least a header.\<close>

definition unread :: "log_reader \<Rightarrow> nat" where
  "unread r = length (lr_buffer r) + length (sf_data (lr_file r))"

lemma report_simps [simp]:
  "lr_file (ReportDrop n e r) = lr_file r" "lr_buffer (ReportDrop n e r) = lr_buffer r"
  "lr_eof (ReportDrop n e r) = lr_eof r"
  "lr_initial_offset (ReportDrop n e r) = lr_initial_offset r"
  "lr_file (ReportCorruption n s r) = lr_file r" "lr_buffer (ReportCorruption n s r) = lr_buffer r"
  "lr_eof (ReportCorruption n s r) = lr_eof r"
  "lr_initial_offset (ReportCorruption n s r) = lr_initial_offset r"
  by (simp_all add: ReportDrop_def ReportCorruption_def split: option.splits)

lemma parse_record_unread:
  assumes "kHeaderSize \<le> length (lr_buffer r)" "parse_record result r = (t, x, r')"
  shows "unread r' + 7 \<le> unread r"
proof -
  have "7 \<le> length (lr_buffer r)" using assms(1) by (simp add: kHeaderSize_def)
  then show ?thesis using assms(2)
    by (auto simp: parse_record_def Let_def unread_def kHeaderSize_def split: if_splits)
qed

lemma read_block_unread: "read_block r = (ok, r') \<Longrightarrow> lr_buffer r = [] \<or> length (lr_buffer r) < kHeaderSize \<Longrightarrow> unread r' \<le> unread r"
  by (auto simp: read_block_def sf_Read_def Let_def unread_def split: if_splits)

lemma ReadPhysicalRecord_unread:
  "ReadPhysicalRecord result r = (t, x, r') \<Longrightarrow> unread r' \<le> unread r \<and> (t = kEof \<or> unread r' + 7 \<le> unread r)"
proof (induction result r rule: ReadPhysicalRecord.induct)
  case (1 result r)
  show ?case
  proof (cases "length (lr_buffer r) < kHeaderSize")
    case False
    then show ?thesis using 1(2) parse_record_unread [of r result t x r']
      by (simp add: ReadPhysicalRecord.simps [of result r])
  next
    case small: True
    show ?thesis
    proof (cases "lr_eof r")
      case True
      then show ?thesis using 1(2) small by (auto simp: ReadPhysicalRecord.simps [of result r] unread_def)
    next
      case False
      obtain ok r1 where b: "read_block r = (ok, r1)" by fastforce
      note le = read_block_unread [OF b disjI2, OF small]
      show ?thesis
        using 1(1) [OF small False b [symmetric]] 1(2) small False b le
        by (auto simp: ReadPhysicalRecord.simps [of result r] split: if_splits)
    qed
  qed
qed

lemma resync_unread [simp]: "unread (snd (resync t r)) = unread r"
  by (simp add: resync_def unread_def)

lemma read_switch_unread:
  "read_switch t off fr r = (v, r') \<Longrightarrow> unread r' = unread r \<and> (t = kEof \<longrightarrow> v = Inr None)"
  by (auto simp: read_switch_def begin_record_def Let_def unread_def record_types split: if_splits prod.splits)

lemma read_round_unread:
  assumes "read_round fr r = (v, r')"
  shows "unread r' \<le> unread r \<and> (v = Inr None \<or> unread r' + 7 \<le> unread r)"
proof -
  obtain t x r1 where p: "ReadPhysicalRecord (rf_fragment fr) r = (t, x, r1)" by (metis prod_cases3)
  obtain pass r2 where s: "resync t r1 = (pass, r2)" by fastforce
  have u: "unread r2 = unread r1" using resync_unread [of t r1] s by simp
  have e: "pass \<Longrightarrow> t \<noteq> kEof" using s by (auto simp: resync_def record_types split: if_splits)
  show ?thesis using assms ReadPhysicalRecord_unread [OF p] u e
    by (auto simp: read_round_def p s Let_def dest: read_switch_unread split: if_splits)
qed

function read_rounds :: "read_frame \<Rightarrow> log_reader \<Rightarrow> slice option \<times> log_reader" where
  "read_rounds fr r =
     (case read_round fr r of
        (Inl fr', r') \<Rightarrow> read_rounds fr' r'
      | (Inr v, r') \<Rightarrow> (v, r'))"
  by pat_completeness auto
termination
  by (relation "measure (\<lambda>(_, r). unread r)") (auto dest!: read_round_unread [OF sym])

declare read_rounds.simps [simp del]

definition ReadRecord :: "log_reader \<Rightarrow> slice option \<times> log_reader" where
  "ReadRecord r =
     (let (ok, r1) = (if lr_last_record_offset r < lr_initial_offset r then SkipToInitialBlock r else (True, r))
      in if \<not> ok then (None, r1)
         else read_rounds \<lparr>rf_in_fragmented = False, rf_prospective = 0, rf_fragment = [], rf_scratch = []\<rparr> r1)"

definition LastRecordOffset :: "log_reader \<Rightarrow> u64" where "LastRecordOffset r = lr_last_record_offset r"

lemma read_rounds_unread:
  "read_rounds fr r = (v, r') \<Longrightarrow> unread r' \<le> unread r \<and> (v = None \<or> unread r' + 7 \<le> unread r)"
proof (induction fr r rule: read_rounds.induct)
  case (1 fr r)
  obtain v1 r1 where s: "read_round fr r = (v1, r1)" by fastforce
  note step = read_round_unread [OF s]
  show ?case
  proof (cases v1)
    case (Inl fr1)
    then show ?thesis using 1(1) [OF s [symmetric] Inl] 1(2) s step by (auto simp: read_rounds.simps [of fr r])
  next
    case (Inr w)
    then show ?thesis using 1(2) s step by (auto simp: read_rounds.simps [of fr r])
  qed
qed

lemma ReadRecord_unread: "ReadRecord r = (Some x, r') \<Longrightarrow> unread r' + 7 \<le> unread r"
proof -
  have "unread r1 \<le> unread r" if "SkipToInitialBlock r = (ok, r1)" for ok r1
    using that by (auto simp: SkipToInitialBlock_def Let_def sf_Skip_def unread_def split: if_splits)
  then show "ReadRecord r = (Some x, r') \<Longrightarrow> unread r' + 7 \<le> unread r"
    by (force simp: ReadRecord_def Let_def split: if_splits prod.splits dest: read_rounds_unread)
qed

text \<open>The clients' loop: reading until \<^verbatim>\<open>ReadRecord\<close> returns false.\<close>

function read_log :: "log_reader \<Rightarrow> slice list \<times> log_reader" where
  "read_log r =
     (case ReadRecord r of
        (None, r') \<Rightarrow> ([], r')
      | (Some x, r') \<Rightarrow> (case read_log r' of (xs, r'') \<Rightarrow> (x # xs, r'')))"
  by pat_completeness auto
termination
  by (relation "measure unread") (auto dest!: ReadRecord_unread [OF sym])

declare read_log.simps [simp del]

lemma read_log_bound: "7 * length (fst (read_log r)) \<le> unread r"
proof (induction r rule: read_log.induct)
  case (1 r)
  obtain v r1 where v: "ReadRecord r = (v, r1)" by fastforce
  show ?case
  proof (cases v)
    case (Some x)
    then show ?thesis using 1 v ReadRecord_unread [of r x r1]
      by (auto simp: read_log.simps [of r] split: prod.splits)
  qed (simp add: v read_log.simps [of r])
qed

end
