(* ===== verification/Lv_Log_Correct.thy ===== *)
theory Lv_Log_Correct
  imports Lv_Log
begin

section \<open>What is written to a log is read back\<close>

text \<open>
  \<open>phys p (t, x)\<close> are the bytes of a physical record of type \<open>t\<close> and payload \<open>x\<close> at offset \<open>p\<close> of a log,
  the trailer of the block before it included; \<open>next_pos p\<close> is where its header starts. A writer puts a
  record on the file as the physical records of one of its \<open>fragments\<close>.
\<close>

definition next_pos :: "nat \<Rightarrow> nat" where
  "next_pos p = (if kBlockSize - p mod kBlockSize < kHeaderSize then p + (kBlockSize - p mod kBlockSize) else p)"

definition log_header :: "u32 \<Rightarrow> slice \<Rightarrow> slice" where
  "log_header t x = record_header (crc32c_Mask (crc32c 0 (ucast t # x))) t (length x)"

definition phys :: "nat \<Rightarrow> u32 \<times> slice \<Rightarrow> slice" where
  "phys p = (\<lambda>(t, x). replicate (next_pos p - p) 0 @ log_header t x @ x)"

fun phys_all :: "nat \<Rightarrow> (u32 \<times> slice) list \<Rightarrow> slice" where
  "phys_all p [] = []"
| "phys_all p (f # fs) = phys p f @ phys_all (p + length (phys p f)) fs"

definition fits :: "nat \<Rightarrow> slice \<Rightarrow> bool" where
  "fits p x \<longleftrightarrow> next_pos p mod kBlockSize + kHeaderSize + length x \<le> kBlockSize"

fun fits_all :: "nat \<Rightarrow> (u32 \<times> slice) list \<Rightarrow> bool" where
  "fits_all p [] \<longleftrightarrow> True"
| "fits_all p (f # fs) \<longleftrightarrow> fits p (snd f) \<and> fits_all (p + length (phys p f)) fs"

fun fragments :: "bool \<Rightarrow> slice \<Rightarrow> (u32 \<times> slice) list \<Rightarrow> bool" where
  "fragments b s [] \<longleftrightarrow> False"
| "fragments b s [(t, x)] \<longleftrightarrow> t = fragment_type b True \<and> x = s"
| "fragments b s ((t, x) # fs) \<longleftrightarrow> t = fragment_type b False \<and> take (length x) s = x \<and> fragments False (drop (length x) s) fs"

lemmas log_sizes = kBlockSize_def kHeaderSize_def

lemma block_end: "(p + m - p mod m) mod m = 0" for p m :: nat
proof -
  have "p + m - p mod m = (p - p mod m) + m" using mod_less_eq_dividend [of p m] by linarith
  then show ?thesis by (simp add: minus_mod_eq_mult_div)
qed

lemma next_pos_bounds: "p \<le> next_pos p" "next_pos p < p + 7" "next_pos p mod 32768 + 7 \<le> 32768"
proof -
  have "p mod 32768 < 32768" by simp
  then show "p \<le> next_pos p" "next_pos p < p + 7" "next_pos p mod 32768 + 7 \<le> 32768"
    using block_end [of p] by (auto simp: next_pos_def log_sizes)
qed

lemma length_header [simp]: "length (log_header t x) = 7"
  by (simp add: log_header_def record_header_def EncodeFixed32_def)

lemma length_phys: "length (phys p (t, x)) = next_pos p - p + 7 + length x"
  by (simp add: phys_def)

lemma phys_end: "p + length (phys p (t, x)) = next_pos p + 7 + length x"
  using next_pos_bounds(1) [of p] by (simp add: length_phys)

lemma phys_all_append: "phys_all p (fs @ gs) = phys_all p fs @ phys_all (p + length (phys_all p fs)) gs"
  by (induction fs arbitrary: p) (simp_all add: add.assoc)

lemma fits_all_append: "fits_all p (fs @ gs) \<longleftrightarrow> fits_all p fs \<and> fits_all (p + length (phys_all p fs)) gs"
  by (induction fs arbitrary: p) (simp_all add: add.assoc)

subsection \<open>The writer\<close>

definition writer_at :: "slice \<Rightarrow> log_writer \<Rightarrow> bool" where
  "writer_at d w \<longleftrightarrow> lw_dest w = \<lparr>wf_data = d, wf_answers = []\<rparr> \<and> lw_type_crc w = InitTypeCrc \<and>
     lw_block_offset w \<le> kBlockSize \<and> lw_block_offset w mod kBlockSize = length d mod kBlockSize"

lemma InitTypeCrc_map: "InitTypeCrc = map (\<lambda>i. crc32c 0 [of_nat i]) [0..<5]"
  by (simp add: InitTypeCrc_def log_crc_crc32c record_types)

lemma InitTypeCrc_nth: "t < 5 \<Longrightarrow> InitTypeCrc ! unat t = crc32c 0 [ucast t]" for t :: u32
  by (simp add: InitTypeCrc_map nth_map_upt word_less_nat_alt del: upt_rec_numeral)

lemma length_InitTypeCrc: "length InitTypeCrc = 5"
  by (simp add: InitTypeCrc_def record_types)

lemma fragment_type_less: "fragment_type b e < 5"
  by (simp add: fragment_type_def record_types)

lemma switch_block_at:
  assumes "writer_at d w"
  shows "writer_at (d @ replicate (next_pos (length d) - length d) 0) (switch_block w)"
    "lw_block_offset (switch_block w) = next_pos (length d) mod kBlockSize"
proof -
  let ?o = "lw_block_offset w"
  have o: "?o \<le> 32768" "?o mod 32768 = length d mod 32768" using assms by (simp_all add: writer_at_def kBlockSize_def)
  have cases: "?o = length d mod 32768 \<or> ?o = 32768 \<and> length d mod 32768 = 0"
  proof (cases "?o = 32768")
    case False
    then have "?o < 32768" using o(1) by simp
    then show ?thesis using o(2) by simp
  qed (use o in simp)
  then show off: "lw_block_offset (switch_block w) = next_pos (length d) mod kBlockSize"
    unfolding switch_block_offset next_pos_def log_sizes by (auto simp: block_end)
  have data: "lw_dest (switch_block w) = \<lparr>wf_data = d @ replicate (next_pos (length d) - length d) 0, wf_answers = []\<rparr>"
    using cases assms unfolding next_pos_def
    by (auto simp: switch_block_def Let_def writer_at_def wf_Append_def log_sizes)
  have "lw_block_offset (switch_block w) mod kBlockSize = (length d + (next_pos (length d) - length d)) mod kBlockSize"
    using next_pos_bounds(1) [of "length d"] by (simp add: off)
  moreover have "lw_type_crc (switch_block w) = lw_type_crc w" by (simp add: switch_block_def Let_def)
  ultimately show "writer_at (d @ replicate (next_pos (length d) - length d) 0) (switch_block w)"
    using assms data next_pos_bounds(3) [of "length d"] by (simp add: writer_at_def off) (simp add: log_sizes)
qed

lemma Emit_at:
  assumes "writer_at d w" "t < 5" "lw_block_offset w + kHeaderSize + length x \<le> kBlockSize"
  shows "\<exists>w'. EmitPhysicalRecord t x w = Ok () w' \<and> writer_at (d @ log_header t x @ x) w'"
proof -
  have n: "length x \<le> 0xffff" "length x \<le> 65536" using assms(3) by (simp_all add: log_sizes)
  have t: "unat t < length (lw_type_crc w)"
    using assms(1,2) by (simp add: writer_at_def length_InitTypeCrc word_less_nat_alt)
  have w: "lw_type_crc w = InitTypeCrc" using assms(1) by (simp add: writer_at_def)
  have crc: "log_crc (InitTypeCrc ! unat t) x = crc32c 0 (ucast t # x)"
    using assms(2) n crc32c_append [of 0 "[ucast t]" x] by (simp add: InitTypeCrc_nth log_crc_crc32c)
  have "(lw_block_offset w + (7 + length x)) mod 32768 = (length d + (7 + length x)) mod 32768"
    using assms(1) by (metis writer_at_def kBlockSize_def mod_add_left_eq)
  then show ?thesis
    using assms t n by (simp add: EmitPhysicalRecord_def Let_def w crc wf_Append_def wf_Flush_def writer_at_def log_header_def
        record_header_def EncodeFixed32_def log_sizes add.commute)
qed

lemma add_fragment_at:
  assumes "writer_at d w"
  obtains x q w' where "p = x @ q" "fits (length d) x" "q \<noteq> [] \<Longrightarrow> x = [] \<Longrightarrow> kBlockSize - lw_block_offset w = kHeaderSize"
    "add_fragment b p w = Ok q w'" "writer_at (d @ phys (length d) (fragment_type b (q = []), x)) w'"
proof -
  let ?w = "switch_block w"
  note s = switch_block_at [OF assms]
  define n where "n = (if length p < kBlockSize - lw_block_offset ?w - kHeaderSize then length p
    else kBlockSize - lw_block_offset ?w - kHeaderSize)"
  let ?x = "take n p"
  have n: "n \<le> length p" "lw_block_offset ?w + kHeaderSize + n \<le> kBlockSize"
    using next_pos_bounds(3) [of "length d"] by (auto simp: n_def s(2) log_sizes)
  then have end_eq: "(length p = n) = (drop n p = [])" by auto
  obtain w' where e: "EmitPhysicalRecord (fragment_type b (length p = n)) ?x ?w = Ok () w'"
    and w': "writer_at ((d @ replicate (next_pos (length d) - length d) 0) @
      log_header (fragment_type b (length p = n)) ?x @ ?x) w'"
    using Emit_at [OF s(1) fragment_type_less [of b "length p = n"], of ?x] n by auto
  have "\<not> kBlockSize < lw_block_offset w" "\<not> kBlockSize < lw_block_offset ?w + kHeaderSize"
    using assms n by (simp_all add: writer_at_def)
  then have "add_fragment b p w = andthen (EmitPhysicalRecord (fragment_type b (length p = n)) ?x ?w) (\<lambda>_. Ok (drop n p))"
    unfolding add_fragment_def Let_def n_def by (simp only: if_False diff_diff_left)
  then have "add_fragment b p w = Ok (drop n p) w'" by (simp add: e)
  moreover have "fits (length d) ?x" using n by (simp add: fits_def s(2))
  moreover have "kBlockSize - lw_block_offset w = kHeaderSize" if "drop n p \<noteq> []" "?x = []"
  proof -
    have "n = 0" "n < length p" using that by auto
    then have "lw_block_offset ?w + kHeaderSize = kBlockSize" using n by (simp add: n_def split: if_splits)
    then show ?thesis unfolding switch_block_offset by (auto simp: log_sizes split: if_splits)
  qed
  ultimately show thesis
    using that [of ?x "drop n p" w'] w' by (simp add: phys_def end_eq)
qed

lemma add_fragments_at:
  assumes "writer_at d w"
  shows "\<exists>w' fs. add_fragments b p w = Ok () w' \<and> fragments b p fs \<and> fits_all (length d) fs \<and>
    writer_at (d @ phys_all (length d) fs) w'"
  using assms
proof (induction b p w arbitrary: d rule: add_fragments.induct)
  case (1 b p w)
  from add_fragment_at [OF 1(2), where b = b and p = p] obtain x q w1 where p: "p = x @ q" and f: "fits (length d) x"
    and step: "add_fragment b p w = Ok q w1" and w1: "writer_at (d @ phys (length d) (fragment_type b (q = []), x)) w1"
    by metis
  have unfold: "add_fragments b p w = (if q \<noteq> [] then add_fragments False q w1 else Ok () w1)"
    using step by (simp add: add_fragments.simps [of b p w])
  show ?case
  proof (cases "q = []")
    case True
    then show ?thesis using p f unfold w1
      by (intro exI [of _ w1] exI [of _ "[(fragment_type b True, x)]"]) (simp add: unfold)
  next
    case False
    from 1(1) [OF step False w1] obtain w' fs where
      "add_fragments False q w1 = Ok () w'" "fragments False q fs"
      "fits_all (length d + length (phys (length d) (fragment_type b False, x))) fs"
      "writer_at (d @ phys_all (length d) ((fragment_type b False, x) # fs)) w'"
      using False by auto
    moreover have "fragments b p ((fragment_type b False, x) # fs)"
      using p \<open>fragments False q fs\<close> by (cases fs) simp_all
    ultimately show ?thesis using f step False
      by (intro exI [of _ w'] exI [of _ "(fragment_type b False, x) # fs"]) (simp add: unfold)
  qed
qed

fun written :: "nat \<Rightarrow> slice list \<Rightarrow> (u32 \<times> slice) list list \<Rightarrow> bool" where
  "written p [] fss \<longleftrightarrow> fss = []"
| "written p (s # ss) fss \<longleftrightarrow> (case fss of [] \<Rightarrow> False
    | fs # fss' \<Rightarrow> fragments True s fs \<and> fits_all p fs \<and> written (p + length (phys_all p fs)) ss fss')"

lemma add_records_at:
  "writer_at d w \<Longrightarrow> \<exists>w' fss. add_records ss w = Ok () w' \<and> written (length d) ss fss \<and>
    writer_at (d @ phys_all (length d) (concat fss)) w'"
proof (induction ss arbitrary: d w)
  case (Cons s ss)
  from add_fragments_at [OF Cons.prems, of True s] obtain w1 fs where
    1: "AddRecord s w = Ok () w1" "fragments True s fs" "fits_all (length d) fs" "writer_at (d @ phys_all (length d) fs) w1"
    by (auto simp: AddRecord_def)
  from Cons.IH [OF 1(4)] obtain w' fss where
    2: "add_records ss w1 = Ok () w'" "written (length d + length (phys_all (length d) fs)) ss fss"
    "writer_at ((d @ phys_all (length d) fs) @ phys_all (length d + length (phys_all (length d) fs)) (concat fss)) w'"
    by auto
  show ?case using 1 2
    by (intro exI [of _ w'] exI [of _ "fs # fss"]) (simp add: phys_all_append)
qed simp

subsection \<open>Parsing a physical record\<close>

lemma header_length_bytes:
  assumes "n < 65536"
  shows "((ucast (of_nat (n mod 256) :: byte) AND 0xff) OR push_bit 8 (ucast (of_nat (n div 256) :: byte) AND 0xff) :: u32) = of_nat n"
proof -
  have n: "n = take_bit 16 n" using assms by (simp add: take_bit_nat_eq_self)
  have m: "(0xff :: u32) = mask 8" by (simp add: mask_eq_exp_minus_1)
  show ?thesis
  proof (rule bit_word_eqI)
    fix i assume "i < LENGTH(32)"
    have "bit n i \<longleftrightarrow> i < 16 \<and> bit n i" by (subst (1) n) (simp add: bit_take_bit_iff)
    then show "bit ((ucast (of_nat (n mod 256) :: byte) AND 0xff) OR
        push_bit 8 (ucast (of_nat (n div 256) :: byte) AND 0xff) :: u32) i = bit (of_nat n :: u32) i"
      using \<open>i < LENGTH(32)\<close> unfolding m
      by (cases "i < 8") (auto simp: bit_simps take_bit_eq_mod [of 8, simplified, symmetric] drop_bit_eq_div [of 8, simplified, symmetric])
  qed
qed

definition payload_type :: "u32 \<Rightarrow> bool" where "payload_type t \<longleftrightarrow> t = 1 \<or> t = 2 \<or> t = 3 \<or> t = 4"

lemma fragment_payload: "payload_type (fragment_type b e)"
  by (simp add: payload_type_def fragment_type_def record_types)

lemma fragments_payload: "fragments b s fs \<Longrightarrow> \<forall>f \<in> set fs. payload_type (fst f)"
  by (induction b s fs rule: fragments.induct) (auto simp: fragment_payload)

lemma header_nth:
  assumes "length x < 65536" "payload_type t"
  shows "unat (header_length (log_header t x @ ys)) = length x" "scast ((log_header t x @ ys) ! 6) = t"
    "the (DecodeFixed32 (log_header t x @ ys)) = crc32c_Mask (crc32c 0 (ucast t # x))"
proof -
  have l: "length (EncodeFixed32 c) = 4" for c by (simp add: EncodeFixed32_def)
  show "scast ((log_header t x @ ys) ! 6) = t"
    using assms(2) by (auto simp: log_header_def record_header_def nth_append l payload_type_def)
  have "header_length (log_header t x @ ys) = of_nat (length x)"
    unfolding header_length_bytes [OF assms(1), symmetric]
    by (simp add: log_header_def record_header_def header_length_def nth_append l)
  then show "unat (header_length (log_header t x @ ys)) = length x"
    using assms(1) by (simp add: unat_of_nat take_bit_nat_eq_self)
  show "the (DecodeFixed32 (log_header t x @ ys)) = crc32c_Mask (crc32c 0 (ucast t # x))"
    by (simp add: log_header_def record_header_def DecodeFixed32_def EncodeFixed32_def)
qed

lemma header_drop: "drop 6 (log_header t x) = [ucast t]"
  by (simp add: log_header_def record_header_def EncodeFixed32_def)

lemma parse_whole:
  assumes "lr_buffer r = log_header t x @ x @ ys" "payload_type t" "length x < 65536" "lr_initial_offset r = 0"
  shows "parse_record res r = (t, x, r\<lparr>lr_buffer := ys\<rparr>)"
proof -
  have "t \<noteq> kZeroType" using assms(2) by (auto simp: payload_type_def record_types)
  moreover have "log_crc 0 (ucast t # x) = crc32c 0 (ucast t # x)" using assms(3) by (simp add: log_crc_crc32c)
  ultimately show ?thesis
    using assms header_nth [OF assms(3,2), of "x @ ys"]
    by (simp add: parse_record_def Let_def header_drop Unmask_Mask kHeaderSize_def)
qed

lemma parse_torn:
  assumes "lr_buffer r = log_header t x @ take k x" "payload_type t" "length x < 65536" "k < length x" "lr_eof r"
  shows "parse_record res r = (kEof, res, r\<lparr>lr_buffer := []\<rparr>)"
  using assms header_nth [OF assms(3,2), of "take k x"]
  by (simp add: parse_record_def Let_def kHeaderSize_def)

subsection \<open>The reader\<close>

definition reader_at :: "slice \<Rightarrow> nat \<Rightarrow> log_reader \<Rightarrow> bool" where
  "reader_at d p r \<longleftrightarrow> (\<exists>e. p \<le> e \<and> e \<le> length d \<and> lr_buffer r = drop p (take e d) \<and>
     lr_file r = \<lparr>sf_data = drop e d, sf_answers = []\<rparr> \<and>
     (if lr_eof r then e = length d else e mod kBlockSize = 0) \<and>
     (p = e \<or> e \<le> (p div kBlockSize + 1) * kBlockSize)) \<and>
     lr_initial_offset r = 0 \<and> \<not> lr_resyncing r"

lemma reader_atE:
  assumes "reader_at d p r"
  obtains e where "p \<le> e" "e \<le> length d" "lr_buffer r = drop p (take e d)"
    "lr_file r = \<lparr>sf_data = drop e d, sf_answers = []\<rparr>" "lr_eof r \<Longrightarrow> e = length d"
    "\<not> lr_eof r \<Longrightarrow> e mod 32768 = 0" "p = e \<or> e \<le> (p div 32768 + 1) * 32768"
    "lr_initial_offset r = 0" "\<not> lr_resyncing r" "length (lr_buffer r) = e - p"
  using assms unfolding reader_at_def kBlockSize_def by (fastforce split: if_splits)

lemma block_boundary:
  fixes e p m :: nat
  assumes "e mod m = 0" "p < e" "0 < m"
  shows "(p div m + 1) * m \<le> e"
proof -
  obtain k where k: "e = k * m" using assms(1) by (metis div_mult_mod_eq add.right_neutral)
  then have "p div m < k" using assms(2,3) by (simp add: less_mult_imp_div_less)
  then have "(p div m + 1) * m \<le> k * m" by (intro mult_le_mono1) simp
  then show ?thesis using k by simp
qed

lemma block_rest: "0 < m \<Longrightarrow> (p div m + 1) * m = p + (m - p mod m)" for p m :: nat
proof -
  assume "0 < m"
  have "(p div m + 1) * m = p div m * m + m" by simp
  moreover have "p = p div m * m + p mod m" by simp
  moreover have "p mod m < m" using \<open>0 < m\<close> by simp
  ultimately show ?thesis by linarith
qed

lemma read_block_at:
  assumes "reader_at d p r" "length (lr_buffer r) < 7" "\<not> lr_eof r"
  obtains r1 where "read_block r = (True, r1)" "reader_at d (next_pos p) r1" "lr_reporter r1 = lr_reporter r"
    "lr_eof r1 \<or> 7 \<le> length (lr_buffer r1)" "next_pos p \<le> length d"
proof -
  obtain e where e: "p \<le> e" "e \<le> length d" "lr_file r = \<lparr>sf_data = drop e d, sf_answers = []\<rparr>" "e mod 32768 = 0"
    "p = e \<or> e \<le> (p div 32768 + 1) * 32768" "lr_initial_offset r = 0" "\<not> lr_resyncing r" "e - p < 7"
    using reader_atE [OF assms(1)] assms(2,3) by metis
  have np: "next_pos p = e"
  proof (cases "p = e")
    case False
    then have "e = (p div 32768 + 1) * 32768" using block_boundary [OF e(4), of p] e by simp
    then have "e = p + (32768 - p mod 32768)" by (simp only: block_rest)
    then show ?thesis using e by (simp add: next_pos_def log_sizes)
  qed (use e in \<open>simp add: next_pos_def log_sizes\<close>)
  define e1 where "e1 = min (e + 32768) (length d)"
  define r1 where "r1 = snd (read_block r)"
  have rb: "read_block r = (True, r1)"
    and r1: "lr_buffer r1 = take 32768 (drop e d)" "lr_file r1 = \<lparr>sf_data = drop e1 d, sf_answers = []\<rparr>"
    "lr_eof r1 = (length d - e < 32768)" "lr_initial_offset r1 = 0" "\<not> lr_resyncing r1" "lr_reporter r1 = lr_reporter r"
    using e by (auto simp: r1_def read_block_def sf_Read_def sf_status_def Let_def e1_def kBlockSize_def min_def add.commute)
  have "lr_buffer r1 = drop e (take e1 d)" using r1(1) e(2) by (simp add: e1_def drop_take min_def)
  moreover have "e1 \<le> (e div 32768 + 1) * 32768" using e(4) div_mult_mod_eq [of e 32768] by (simp add: e1_def)
  moreover have "(e + 32768) mod 32768 = 0" using e(4) by simp
  ultimately have "reader_at d e r1"
    using e(2) r1 unfolding reader_at_def kBlockSize_def by (intro conjI exI [of _ e1]) (auto simp: e1_def min_def)
  moreover have "lr_eof r1 \<or> 7 \<le> length (lr_buffer r1)" using r1(1,3) by (cases "length d - e < 32768") simp_all
  ultimately show thesis using that rb r1 np e(2) by simp
qed

lemma read_physical_at:
  assumes "reader_at d p r"
  obtains r1 where "lr_reporter r1 = lr_reporter r"
    "ReadPhysicalRecord res r = parse_record res r1" "reader_at d (next_pos p) r1" "7 \<le> length (lr_buffer r1)"
  | r1 where "lr_reporter r1 = lr_reporter r" "ReadPhysicalRecord res r = (kEof, res, r1)" "length d < next_pos p + 7" "\<not> lr_resyncing r1"
proof (cases "length (lr_buffer r) < 7")
  case False
  obtain e where e: "p \<le> e" "p = e \<or> e \<le> (p div 32768 + 1) * 32768" "length (lr_buffer r) = e - p"
    using reader_atE [OF assms] by metis
  have "e \<le> p + (32768 - p mod 32768)" using e(1,2) by (auto simp only: block_rest)
  then have "7 \<le> 32768 - p mod 32768" using e False by linarith
  then have "next_pos p = p" by (simp add: next_pos_def log_sizes)
  then show thesis using that(1) [of r] False assms by (simp add: ReadPhysicalRecord.simps [of res r] kHeaderSize_def)
next
  case small: True
  show thesis
  proof (cases "lr_eof r")
    case True
    then obtain e where "e = length d" "length (lr_buffer r) = e - p" using reader_atE [OF assms] by metis
    then have "length d < next_pos p + 7" using small next_pos_bounds(1) [of p] by linarith
    then show thesis using that(2) [of "r\<lparr>lr_buffer := []\<rparr>"] small True assms by (simp add: reader_at_def ReadPhysicalRecord.simps [of res r] kHeaderSize_def)
  next
    case False
    obtain r1 where r1: "read_block r = (True, r1)" "reader_at d (next_pos p) r1" "lr_reporter r1 = lr_reporter r"
      "lr_eof r1 \<or> 7 \<le> length (lr_buffer r1)" using read_block_at [OF assms small False] by metis
    have *: "ReadPhysicalRecord res r = ReadPhysicalRecord res r1"
      using small False r1(1) by (simp add: ReadPhysicalRecord.simps [of res r] kHeaderSize_def)
    show thesis
    proof (cases "length (lr_buffer r1) < 7")
      case True
      then have eof: "lr_eof r1" using r1(4) by simp
      then obtain e where "e = length d" "length (lr_buffer r1) = e - next_pos p" using reader_atE [OF r1(2)] by metis
      then have "length d < next_pos p + 7" using True by linarith
      then show thesis using that(2) [of "r1\<lparr>lr_buffer := []\<rparr>"] * r1 True eof by (simp add: reader_at_def ReadPhysicalRecord.simps [of res r1] kHeaderSize_def)
    next
      case False
      then show thesis using that(1) * r1 by (simp add: ReadPhysicalRecord.simps [of res r1] kHeaderSize_def)
    qed
  qed
qed

lemma fits_length: "fits p x \<Longrightarrow> length x < 65536"
  by (simp add: fits_def log_sizes)

lemma next_block:
  assumes "fits p x" "e mod 32768 = 0" "next_pos p < e"
  shows "next_pos p + 7 + length x \<le> e"
proof -
  have "next_pos p + (32768 - next_pos p mod 32768) \<le> e"
    using block_boundary [OF assms(2,3)] by (simp only: block_rest)
  moreover have "7 + length x \<le> 32768 - next_pos p mod 32768" using assms(1) by (simp add: fits_def log_sizes)
  ultimately show ?thesis by linarith
qed

lemma read_whole:
  assumes "reader_at d p r" "d = a @ phys p (t, x) @ rest" "length a = p" "fits p x" "payload_type t"
  obtains r1 where "ReadPhysicalRecord res r = (t, x, r1)" "reader_at d (p + length (phys p (t, x))) r1"
    "lr_reporter r1 = lr_reporter r"
proof -
  have len: "next_pos p + 7 + length x \<le> length d"
    using assms(2,3) next_pos_bounds(1) [of p] by (simp add: length_phys)
  from read_physical_at [OF assms(1), of res] show thesis
  proof cases
    case (1 r1)
    obtain e where e: "next_pos p \<le> e" "e \<le> length d" "lr_buffer r1 = drop (next_pos p) (take e d)"
      "lr_file r1 = \<lparr>sf_data = drop e d, sf_answers = []\<rparr>" "lr_eof r1 \<Longrightarrow> e = length d"
      "\<not> lr_eof r1 \<Longrightarrow> e mod 32768 = 0" "next_pos p = e \<or> e \<le> (next_pos p div 32768 + 1) * 32768"
      "lr_initial_offset r1 = 0" "\<not> lr_resyncing r1" "length (lr_buffer r1) = e - next_pos p"
      using reader_atE [OF 1(3)] by metis
    let ?p = "next_pos p + 7 + length x"
    have small: "next_pos p < e" using e(10) 1(4) by simp
    then have le: "?p \<le> e" using e(2,5,6) len next_block [OF assms(4)] by (cases "lr_eof r1") auto
    have "drop (next_pos p) d = log_header t x @ x @ rest"
      using assms(2,3) next_pos_bounds(1) [of p] by (simp add: phys_def)
    then have "lr_buffer r1 = log_header t x @ x @ drop ?p (take e d)"
      using e(3) le by (simp add: drop_take take_append) (simp add: assms(2,3) drop_append phys_def)
    then have parse: "parse_record res r1 = (t, x, r1\<lparr>lr_buffer := drop ?p (take e d)\<rparr>)"
      using assms(4,5) e(8) by (intro parse_whole) (simp_all add: fits_length)
    have "e \<le> (?p div 32768 + 1) * 32768"
      using e(7) small div_le_mono [of "next_pos p" ?p 32768] by (auto elim: order_trans)
    then have "reader_at d ?p (r1\<lparr>lr_buffer := drop ?p (take e d)\<rparr>)"
      using e le unfolding reader_at_def kBlockSize_def by (intro conjI exI [of _ e]) auto
    then show thesis using that 1(1,2) parse by (simp add: phys_end)
  qed (use len in linarith)
qed

lemma read_torn:
  assumes "reader_at d p r" "d = a @ take k (phys p (t, x))" "length a = p" "k < length (phys p (t, x))" "fits p x" "payload_type t"
  obtains r1 where "ReadPhysicalRecord res r = (kEof, res, r1)" "lr_reporter r1 = lr_reporter r" "\<not> lr_resyncing r1"
proof -
  have len: "length d < next_pos p + 7 + length x"
    using assms(2,3,4) next_pos_bounds(1) [of p] by (simp add: length_phys)
  from read_physical_at [OF assms(1), of res] show thesis
  proof cases
    case (1 r1)
    obtain e where e: "e \<le> length d" "lr_buffer r1 = drop (next_pos p) (take e d)"
      "\<not> lr_eof r1 \<Longrightarrow> e mod 32768 = 0" "lr_eof r1 \<Longrightarrow> e = length d"
      "\<not> lr_resyncing r1" "length (lr_buffer r1) = e - next_pos p"
      using reader_atE [OF 1(3)] by metis
    have "next_pos p < e" using e(6) 1(4) by linarith
    then have eof: "lr_eof r1" using e(1,3) len next_block [OF assms(5), of e] by linarith
    define m where "m = k - (next_pos p - p) - 7"
    have "next_pos p + 7 \<le> length d" using e 1(4) eof by simp
    then have k: "k = (next_pos p - p) + 7 + m" using assms(2,3,4) next_pos_bounds(1) [of p] by (simp add: m_def)
    have "m < length x" using assms(4) by (simp add: k length_phys)
    moreover from this have "lr_buffer r1 = log_header t x @ take m x"
      using e eof assms(2,3) next_pos_bounds(1) [of p] by (simp add: phys_def k)
    ultimately have "parse_record res r1 = (kEof, res, r1\<lparr>lr_buffer := []\<rparr>)"
      using eof assms(5,6) by (intro parse_torn) (simp_all add: fits_length)
    then show thesis using that [of "r1\<lparr>lr_buffer := []\<rparr>"] 1(1,2) e(5) by simp
  qed (use that in blast)
qed

lemma round_eq:
  assumes "ReadPhysicalRecord (rf_fragment fr) r = (t, x, r1)" "\<not> lr_resyncing r1"
  obtains off where "read_round fr r = read_switch t off (fr\<lparr>rf_fragment := x\<rparr>) r1"
  using assms by (simp add: read_round_def Let_def resync_def)

lemma reader_at_last [simp]: "reader_at d p (r\<lparr>lr_last_record_offset := off\<rparr>) = reader_at d p r"
  by (simp add: reader_at_def)

lemma reader_at_resyncing: "reader_at d p r \<Longrightarrow> \<not> lr_resyncing r"
  by (simp add: reader_at_def)

lemma round_whole:
  assumes "reader_at d p r" "d = a @ phys p (t, x) @ rest" "length a = p" "fits p x" "payload_type t"
  shows "\<exists>r1 off. read_round fr r = read_switch t off (fr\<lparr>rf_fragment := x\<rparr>) r1 \<and>
    reader_at d (p + length (phys p (t, x))) r1 \<and> lr_reporter r1 = lr_reporter r"
proof -
  obtain r1 where r1: "ReadPhysicalRecord (rf_fragment fr) r = (t, x, r1)" "reader_at d (p + length (phys p (t, x))) r1"
    "lr_reporter r1 = lr_reporter r" using read_whole [OF assms] by metis
  then show ?thesis using round_eq [OF r1(1) reader_at_resyncing [OF r1(2)]] by metis
qed

lemma round_torn:
  assumes "reader_at d p r" "d = a @ take k (phys p (t, x))" "length a = p" "k < length (phys p (t, x))" "fits p x" "payload_type t"
  shows "\<exists>r1. read_round fr r = (Inr None, r1) \<and> lr_reporter r1 = lr_reporter r"
proof -
  obtain r1 where r1: "ReadPhysicalRecord (rf_fragment fr) r = (kEof, rf_fragment fr, r1)" "lr_reporter r1 = lr_reporter r"
    "\<not> lr_resyncing r1" using read_torn [OF assms] by metis
  from round_eq [OF r1(1,3)] obtain off where "read_round fr r = read_switch kEof off (fr\<lparr>rf_fragment := rf_fragment fr\<rparr>) r1" .
  then show ?thesis using r1(2) by (simp add: read_switch_def record_types Let_def)
qed

lemma switch_more:
  assumes "t = fragment_type b False" "rf_in_fragmented fr = (\<not> b)"
  shows "\<exists>fr1. read_switch t off (fr\<lparr>rf_fragment := x\<rparr>) r = (Inl fr1, r) \<and> rf_in_fragmented fr1 \<and>
    rf_scratch fr1 = (if b then x else rf_scratch fr @ x)"
  using assms by (auto simp: read_switch_def begin_record_def fragment_type_def record_types Let_def)

lemma switch_final:
  assumes "t = fragment_type b True" "rf_in_fragmented fr = (\<not> b)"
  shows "\<exists>off'. read_switch t off (fr\<lparr>rf_fragment := x\<rparr>) r =
    (Inr (Some (if b then x else rf_scratch fr @ x)), r\<lparr>lr_last_record_offset := off'\<rparr>)"
  using assms by (auto simp: read_switch_def begin_record_def fragment_type_def record_types Let_def)

lemma read_rounds_Inl: "read_round fr r = (Inl fr1, r1) \<Longrightarrow> read_rounds fr r = read_rounds fr1 r1"
  by (simp add: read_rounds.simps [of fr r])

lemma read_rounds_Inr: "read_round fr r = (Inr v, r1) \<Longrightarrow> read_rounds fr r = (v, r1)"
  by (simp add: read_rounds.simps [of fr r])

lemma fragments_Cons:
  assumes "fragments b s ((t, x) # fs)" "fs \<noteq> []"
  shows "t = fragment_type b False" "fragments False (drop (length x) s) fs" "s = x @ drop (length x) s"
  using assms by (cases fs; simp; metis append_take_drop_id)+

lemma read_fragments:
  assumes "fragments b s fs" "fits_all p fs" "reader_at d p r" "d = a @ phys_all p fs @ rest" "length a = p"
    "rf_in_fragmented fr = (\<not> b)"
  shows "\<exists>r'. read_rounds fr r = (Some (if b then s else rf_scratch fr @ s), r') \<and>
    reader_at d (p + length (phys_all p fs)) r' \<and> lr_reporter r' = lr_reporter r"
  using assms
proof (induction fs arbitrary: b s p a r fr)
  case (Cons f fs)
  obtain t x where f: "f = (t, x)" by fastforce
  let ?q = "p + length (phys p (t, x))"
  have fits: "fits p x" "fits_all ?q fs" using Cons.prems(2) f by simp_all
  have d: "d = a @ phys p (t, x) @ (phys_all ?q fs @ rest)" using Cons.prems(4) f by simp
  have pt: "payload_type t" using fragments_payload [OF Cons.prems(1)] f by simp
  from round_whole [OF Cons.prems(3) d Cons.prems(5) fits(1) pt, of fr] obtain r1 off where
    round: "read_round fr r = read_switch t off (fr\<lparr>rf_fragment := x\<rparr>) r1" and r1: "reader_at d ?q r1"
    and rep: "lr_reporter r1 = lr_reporter r" by metis
  show ?case
  proof (cases "fs = []")
    case True
    then have t: "t = fragment_type b True" "x = s" using Cons.prems(1) f by simp_all
    from switch_final [OF t(1) Cons.prems(6), of off x r1] round t(2) obtain off' where
      "read_round fr r = (Inr (Some (if b then s else rf_scratch fr @ s)), r1\<lparr>lr_last_record_offset := off'\<rparr>)" by auto
    from read_rounds_Inr [OF this] show ?thesis using r1 rep True f by simp
  next
    case False
    note t = fragments_Cons [OF Cons.prems(1) [unfolded f] False]
    from switch_more [OF t(1) Cons.prems(6), of off x r1] obtain fr1 where
      fr1: "read_round fr r = (Inl fr1, r1)" "rf_in_fragmented fr1" "rf_scratch fr1 = (if b then x else rf_scratch fr @ x)"
      unfolding round [symmetric] by metis
    have "d = (a @ phys p (t, x)) @ phys_all ?q fs @ rest" using d by simp
    from Cons.IH [OF t(2) fits(2) r1 this, of fr1] obtain r' where
      "read_rounds fr1 r1 = (Some (rf_scratch fr1 @ drop (length x) s), r')"
      "reader_at d (?q + length (phys_all ?q fs)) r'" "lr_reporter r' = lr_reporter r1"
      using fr1(2) Cons.prems(5) by auto
    moreover have "rf_scratch fr1 @ drop (length x) s = (if b then s else rf_scratch fr @ s)"
      by (subst (2 3) t(3)) (simp add: fr1(3))
    ultimately show ?thesis using read_rounds_Inl [OF fr1(1)] rep f by (simp add: add.assoc)
  qed
qed simp

lemma read_torn_fragments:
  assumes "fragments b s fs" "fits_all p fs" "reader_at d p r" "d = a @ take k (phys_all p fs)" "length a = p"
    "k < length (phys_all p fs)" "rf_in_fragmented fr = (\<not> b)"
  shows "\<exists>r'. read_rounds fr r = (None, r') \<and> lr_reporter r' = lr_reporter r"
  using assms
proof (induction fs arbitrary: b s p a r fr k)
  case (Cons f fs)
  obtain t x where f: "f = (t, x)" by fastforce
  let ?q = "p + length (phys p (t, x))" and ?k = "k - length (phys p (t, x))"
  have fits: "fits p x" "fits_all ?q fs" using Cons.prems(2) f by simp_all
  have pt: "payload_type t" using fragments_payload [OF Cons.prems(1)] f by simp
  show ?case
  proof (cases "k < length (phys p (t, x))")
    case True
    then have "d = a @ take k (phys p (t, x))" using Cons.prems(4) f by simp
    from round_torn [OF Cons.prems(3) this Cons.prems(5) True fits(1) pt, of fr] show ?thesis
      using read_rounds_Inr by metis
  next
    case False
    then have fs: "fs \<noteq> []" using Cons.prems(6) f by auto
    note t = fragments_Cons [OF Cons.prems(1) [unfolded f] fs]
    have d: "d = a @ phys p (t, x) @ take ?k (phys_all ?q fs)" using Cons.prems(4) f False by simp
    from round_whole [OF Cons.prems(3) d Cons.prems(5) fits(1) pt, of fr] obtain r1 off where
      round: "read_round fr r = read_switch t off (fr\<lparr>rf_fragment := x\<rparr>) r1" and r1: "reader_at d ?q r1"
      and rep: "lr_reporter r1 = lr_reporter r" by metis
    from switch_more [OF t(1) Cons.prems(7), of off x r1] obtain fr1 where
      fr1: "read_round fr r = (Inl fr1, r1)" "rf_in_fragmented fr1" unfolding round [symmetric] by metis
    have "d = (a @ phys p (t, x)) @ take ?k (phys_all ?q fs)" using d by simp
    from Cons.IH [OF t(2) fits(2) r1 this, of fr1] show ?thesis
      using fr1(2) Cons.prems(5,6) False read_rounds_Inl [OF fr1(1)] rep f by auto
  qed
qed simp

lemma ReadRecord_eq:
  "reader_at d p r \<Longrightarrow>
    ReadRecord r = read_rounds \<lparr>rf_in_fragmented = False, rf_prospective = 0, rf_fragment = [], rf_scratch = []\<rparr> r"
  by (simp add: ReadRecord_def reader_at_def)

lemma read_log_at:
  assumes "written p ss fss" "reader_at d p r" "d = a @ phys_all p (concat fss) @ take k (phys_all q fs)" "length a = p"
    "q = p + length (phys_all p (concat fss))" "fragments True s fs" "fits_all q fs" "k < length (phys_all q fs)"
  shows "\<exists>r'. read_log r = (ss, r') \<and> lr_reporter r' = lr_reporter r"
  using assms
proof (induction ss arbitrary: p fss a r)
  case Nil
  then have "d = a @ take k (phys_all q fs)" "q = p" by simp_all
  then obtain r' where "ReadRecord r = (None, r')" "lr_reporter r' = lr_reporter r"
    using read_torn_fragments [OF Nil(6,7), where d = d and r = r and a = a and k = k
        and fr = "\<lparr>rf_in_fragmented = False, rf_prospective = 0, rf_fragment = [], rf_scratch = []\<rparr>"]
      Nil ReadRecord_eq [OF Nil(2)] by auto
  then show ?case by (simp add: read_log.simps [of r])
next
  case (Cons x xs)
  then obtain gs gss where g: "fss = gs # gss" "fragments True x gs" "fits_all p gs"
    "written (p + length (phys_all p gs)) xs gss" by (auto split: list.splits)
  let ?p = "p + length (phys_all p gs)"
  have d: "d = a @ phys_all p gs @ (phys_all ?p (concat gss) @ take k (phys_all q fs))"
    using Cons.prems(3) g(1) by (simp add: phys_all_append)
  obtain r1 where r1: "ReadRecord r = (Some x, r1)" "reader_at d ?p r1" "lr_reporter r1 = lr_reporter r"
    using read_fragments [OF g(2,3) Cons.prems(2) d Cons.prems(4),
        where fr = "\<lparr>rf_in_fragmented = False, rf_prospective = 0, rf_fragment = [], rf_scratch = []\<rparr>"]
      ReadRecord_eq [OF Cons.prems(2)] by auto
  have d': "d = (a @ phys_all p gs) @ phys_all ?p (concat gss) @ take k (phys_all q fs)" using d by simp
  have "q = ?p + length (phys_all ?p (concat gss))" using Cons.prems(5) g(1) by (simp add: phys_all_append)
  with Cons.IH [OF g(4) r1(2) d' _ _ Cons.prems(6-8)] Cons.prems(4) obtain r' where
    "read_log r1 = (xs, r')" "lr_reporter r' = lr_reporter r1" by auto
  then show ?case using r1 by (simp add: read_log.simps [of r])
qed

subsection \<open>The log as a file\<close>

definition log_file :: "slice list \<Rightarrow> slice option" where
  "log_file ss = (case add_records ss (Writer \<lparr>wf_data = [], wf_answers = []\<rparr>) of Ok _ w \<Rightarrow> Some (wf_data (lw_dest w)) | _ \<Rightarrow> None)"

lemma add_records_append: "add_records (xs @ ys) w = andthen (add_records xs w) (\<lambda>_. add_records ys)"
proof (induction xs arbitrary: w)
  case (Cons x xs)
  then show ?case by (cases "AddRecord x w") simp_all
qed simp

lemma writer_at_start: "writer_at [] (Writer \<lparr>wf_data = [], wf_answers = []\<rparr>)"
  by (simp add: writer_at_def Writer_def)

lemma log_file_written:
  obtains w fss where "add_records ss (Writer \<lparr>wf_data = [], wf_answers = []\<rparr>) = Ok () w" "written 0 ss fss"
    "log_file ss = Some (phys_all 0 (concat fss))" "writer_at (phys_all 0 (concat fss)) w"
proof -
  obtain w fss where w: "add_records ss (Writer \<lparr>wf_data = [], wf_answers = []\<rparr>) = Ok () w" "written 0 ss fss"
    "writer_at (phys_all 0 (concat fss)) w" using add_records_at [OF writer_at_start, of ss] by auto
  have "log_file ss = Some (phys_all 0 (concat fss))" using w(1,3) by (simp add: log_file_def writer_at_def)
  then show thesis using that w by blast
qed

lemma reader_at_start: "reader_at d 0 (Reader \<lparr>sf_data = d, sf_answers = []\<rparr> rep c 0)"
  by (auto simp: reader_at_def Reader_def intro!: exI [of _ 0])

lemma empty_fragment: "fragments True [] [(kFullType, [])]" "fits_all q [(kFullType, [])]"
  using next_pos_bounds(3) [of q] by (simp_all add: fragment_type_def fits_def log_sizes)

lemma read_log_whole:
  assumes "log_file ss = Some d"
  shows "\<exists>r'. read_log (Reader \<lparr>sf_data = d, sf_answers = []\<rparr> rep c 0) = (ss, r') \<and>
    lr_reporter r' = (if rep then Some [] else None)"
proof -
  obtain fss where f: "written 0 ss fss" "d = phys_all 0 (concat fss)" using log_file_written [of ss] assms by auto
  let ?q = "length d"
  have "d = [] @ phys_all 0 (concat fss) @ take 0 (phys_all ?q [(kFullType, [])])" using f(2) by simp
  from read_log_at [OF f(1) reader_at_start [of d rep c] this _ _ empty_fragment(1) empty_fragment(2)]
  show ?thesis using f(2) by (simp add: length_phys Reader_def)
qed

lemma read_log_torn:
  assumes "log_file ss = Some d1" "log_file (ss @ [s]) = Some d2" "length d1 \<le> n" "n < length d2"
  shows "\<exists>r'. read_log (Reader \<lparr>sf_data = take n d2, sf_answers = []\<rparr> rep c 0) = (ss, r') \<and>
    lr_reporter r' = (if rep then Some [] else None)"
proof -
  obtain w fss where f: "add_records ss (Writer \<lparr>wf_data = [], wf_answers = []\<rparr>) = Ok () w" "written 0 ss fss"
    "d1 = phys_all 0 (concat fss)" "writer_at d1 w"
    using log_file_written [of ss] assms(1) by auto
  obtain w2 fs where g: "AddRecord s w = Ok () w2" "fragments True s fs" "fits_all (length d1) fs"
    "writer_at (d1 @ phys_all (length d1) fs) w2"
    using add_fragments_at [OF f(4), of True s] by (auto simp: AddRecord_def)
  have d2: "d2 = d1 @ phys_all (length d1) fs"
    using assms(2) g f(1) by (simp add: log_file_def add_records_append writer_at_def)
  let ?d = "take n d2" and ?k = "n - length d1"
  have "?d = [] @ phys_all 0 (concat fss) @ take ?k (phys_all (length d1) fs)" using assms(3) d2 f(3) by simp
  from read_log_at [OF f(2) reader_at_start [of ?d rep c] this _ _ g(2,3)]
  show ?thesis using assms(3,4) d2 f(3) by (simp add: Reader_def)
qed

lemma log_file_append: "log_file (ss @ ts) = Some d \<Longrightarrow> \<exists>d1 e. log_file ss = Some d1 \<and> d = d1 @ e"
proof -
  assume a: "log_file (ss @ ts) = Some d"
  obtain w fss where f: "add_records ss (Writer \<lparr>wf_data = [], wf_answers = []\<rparr>) = Ok () w" "written 0 ss fss"
    "log_file ss = Some (phys_all 0 (concat fss))" "writer_at (phys_all 0 (concat fss)) w" using log_file_written [of ss] .
  from add_records_at [OF f(4), of ts] show ?thesis using a f(1,3)
    by (auto simp: log_file_def add_records_append writer_at_def)
qed

text \<open>\<open>record_end ss j\<close> is where the first \<open>j\<close> records of the log of \<open>ss\<close> end.\<close>

definition record_end :: "slice list \<Rightarrow> nat \<Rightarrow> nat" where
  "record_end ss j = (case log_file (take j ss) of Some d \<Rightarrow> length d | None \<Rightarrow> 0)"

lemma log_file_some: "\<exists>d. log_file ss = Some d"
  using log_file_written [of ss] by blast

lemma read_log_cut:
  assumes "log_file ss = Some d" "j < length ss" "record_end ss j \<le> n" "n < record_end ss (Suc j)"
  shows "\<exists>r'. read_log (Reader \<lparr>sf_data = take n d, sf_answers = []\<rparr> rep c 0) = (take j ss, r') \<and>
    lr_reporter r' = (if rep then Some [] else None)"
proof -
  obtain d1 where d1: "log_file (take j ss) = Some d1" using log_file_some by blast
  obtain d2 where d2: "log_file (take (Suc j) ss) = Some d2" using log_file_some by blast
  have "log_file (take (Suc j) ss @ drop (Suc j) ss) = Some d" using assms(1) by simp
  then obtain e where "d = d2 @ e" using log_file_append d2 by fastforce
  then have "take n d = take n d2" using assms(4) d2 by (simp add: record_end_def)
  then show ?thesis
    using read_log_torn [OF d1, of "ss ! j" d2 n rep c] assms d1 d2
    by (simp add: take_Suc_conv_app_nth record_end_def)
qed

subsection \<open>The assertions of the writer\<close>

definition writer_ok :: "log_writer \<Rightarrow> bool" where
  "writer_ok w \<longleftrightarrow> lw_block_offset w \<le> kBlockSize \<and> lw_type_crc w = InitTypeCrc"

lemma Writer_ok: "writer_ok (Writer f)" "writer_ok (Writer_at f n)"
  by (simp_all add: writer_ok_def Writer_def Writer_at_def unat_mod_distrib kBlockSize_def)

lemma Emit_ok:
  assumes "writer_ok w" "t < 5" "lw_block_offset w + kHeaderSize + length x \<le> kBlockSize"
  shows "okay (\<lambda>_. writer_ok) writer_ok (EmitPhysicalRecord t x w)"
proof -
  have "unat t < length (lw_type_crc w)" using assms(1,2) by (simp add: writer_ok_def length_InitTypeCrc word_less_nat_alt)
  moreover have "length x \<le> 0xffff" using assms(3) by (simp add: log_sizes)
  ultimately show ?thesis using assms(1,3)
    by (auto simp: EmitPhysicalRecord_def Let_def writer_ok_def split: prod.splits)
qed

lemma add_fragment_ok:
  assumes "writer_ok w"
  shows "okay (\<lambda>_. writer_ok) writer_ok (add_fragment b p w)"
proof -
  let ?w = "switch_block w"
  have o: "lw_block_offset ?w + kHeaderSize \<le> kBlockSize" using assms by (auto simp: switch_block_offset writer_ok_def log_sizes)
  have w: "writer_ok ?w" using assms by (simp add: switch_block_def Let_def writer_ok_def)
  show ?thesis unfolding add_fragment_def Let_def using assms o
    by (auto simp: writer_ok_def intro!: okay_andthen [OF Emit_ok [OF w fragment_type_less]]
        simp del: diff_diff_left)
qed

lemma AddRecord_ok: "writer_ok w \<Longrightarrow> okay (\<lambda>_. writer_ok) writer_ok (AddRecord s w)"
proof -
  have "writer_ok w \<Longrightarrow> okay (\<lambda>_. writer_ok) writer_ok (add_fragments b s w)" for b
  proof (induction b s w rule: add_fragments.induct)
    case (1 b p w)
    show ?case unfolding add_fragments.simps [of b p w]
      using 1(1) by (intro okay_andthen [OF add_fragment_ok [OF 1(2)]]) auto
  qed
  then show "writer_ok w \<Longrightarrow> okay (\<lambda>_. writer_ok) writer_ok (AddRecord s w)" by (simp add: AddRecord_def)
qed

subsection \<open>Damaged records\<close>

text \<open>
  A payload changed within four consecutive bytes, its header intact: the record is refused, the rest of
  the block is dropped, and the drop is reported.
\<close>

lemma parse_damaged:
  assumes "lr_buffer r = log_header t (pre @ b @ post) @ (pre @ b' @ post) @ ys" "payload_type t"
    "length (pre @ b @ post) < 65536" "length b = length b'" "b \<noteq> b'" "length b \<le> 4" "lr_checksum r"
  shows "parse_record res r = (kBadRecord, res,
    ReportCorruption (of_nat (length (lr_buffer r))) ''checksum mismatch'' (r\<lparr>lr_buffer := []\<rparr>))"
proof -
  let ?x = "pre @ b @ post" and ?x' = "pre @ b' @ post"
  have len: "length ?x' = length ?x" using assms(4) by simp
  have "t \<noteq> kZeroType" using assms(2) by (auto simp: payload_type_def record_types)
  moreover have "take (1 + length ?x) (drop 6 (lr_buffer r)) = ucast t # ?x'"
    unfolding assms(1) len [symmetric] by (simp add: header_drop)
  moreover have "log_crc 0 (ucast t # ?x') = crc32c 0 (ucast t # ?x')" using assms(3,4) by (simp add: log_crc_crc32c)
  moreover have "crc32c 0 (ucast t # ?x') \<noteq> crc32c 0 (ucast t # ?x)"
    using crc32c_burst [OF assms(4-6), of 0 "ucast t # pre" post] by simp
  moreover have "length (lr_buffer r) = 7 + length ?x + length ys" unfolding assms(1) using len by simp
  moreover note header_nth [OF assms(3,2), of "?x' @ ys", folded assms(1)]
  ultimately show ?thesis using assms(7)
    by (simp add: parse_record_def Let_def Unmask_Mask kHeaderSize_def del: take_drop One_nat_def)
qed

end
