(* ===== verification/Lv_Correct.thy ===== *)
theory Lv_Correct
  imports Lv_Filter Lv_Log_Correct
begin

unbundle bit_operations_syntax

section \<open>What the leveldb components guarantee\<close>

text \<open>
  The properties of the coding routines, the checksum, the filters and the write-ahead log on which
  the on-disk cache of the database client rests.
\<close>

text \<open>
  C13. Recovery is exact. A log that holds whole records and then a part of another one, because the
  process died while it was being written, is read as the records that were written completely, in
  order; the torn one is dropped without a report. This holds wherever the cut falls: inside a
  header, a payload, a block's trailer, or between the fragments of a record.
\<close>

theorem log_crash_safe:
  assumes "log_file ss = Some d" "j < length ss" "record_end ss j \<le> n" "n < record_end ss (Suc j)"
  shows "\<exists>r'. read_log (Reader \<lparr>sf_data = take n d, sf_answers = []\<rparr> True c 0) = (take j ss, r') \<and>
    lr_reporter r' = Some []"
  using read_log_cut [OF assms, of True c] by simp

theorem log_crash_safe_witness:
  "\<exists>d r'. log_file [[1, 2, 3]] = Some d \<and>
    read_log (Reader \<lparr>sf_data = take 8 d, sf_answers = []\<rparr> True True 0) = ([], r') \<and> lr_reporter r' = Some []"
proof -
  obtain d where d: "log_file [[1, 2, 3]] = Some d" using log_file_some by blast
  have "record_end [[1, 2, 3]] 0 = 0" by (simp add: record_end_def log_file_def Writer_def)
  moreover have "record_end [[1, 2, 3]] 1 = 10"
    by (simp add: record_end_def log_file_def Writer_def AddRecord_def add_fragments.simps add_fragment_def switch_block_def
        log_sizes fragment_type_def record_types EmitPhysicalRecord_def length_InitTypeCrc wf_Append_def wf_Flush_def
        record_header_def EncodeFixed32_def Let_def)
  ultimately show ?thesis using log_crash_safe [OF d, of 0 8 True] d by auto
qed

text \<open>
  C14. Round trip: whatever the records are, empty ones and ones of many blocks included, the writer
  accepts them all and the reader gives them back in order, then reports the end, and no corruption.
\<close>

theorem log_roundtrip:
  "\<exists>d r'. log_file ss = Some d \<and> read_log (Reader \<lparr>sf_data = d, sf_answers = []\<rparr> True c 0) = (ss, r') \<and>
    lr_reporter r' = Some []"
  using log_file_some [of ss] read_log_whole [of ss _ True c] by fastforce

text \<open>
  C15. Damage is found: if at most four consecutive bytes of the payload of a physical record written
  by \<^verbatim>\<open>EmitPhysicalRecord\<close> have changed, the reader does not return it; it drops the block's rest.
\<close>

theorem log_damage_detected:
  assumes "writer_at d w" "t = kFullType \<or> t = kFirstType \<or> t = kMiddleType \<or> t = kLastType"
    "lw_block_offset w + kHeaderSize + length (pre @ b @ post) \<le> kBlockSize"
    "EmitPhysicalRecord t (pre @ b @ post) w = Ok () w'" "wf_data (lw_dest w') = d @ h @ pre @ b @ post"
    "length b = length b'" "b \<noteq> b'" "length b \<le> 4" "lr_checksum r" "lr_buffer r = h @ (pre @ b' @ post) @ ys"
  shows "ReadPhysicalRecord res r = (kBadRecord, res,
    ReportCorruption (of_nat (length (lr_buffer r))) ''checksum mismatch'' (r\<lparr>lr_buffer := []\<rparr>))"
proof -
  have t: "payload_type t" "t < 5" using assms(2) by (auto simp: payload_type_def record_types)
  from Emit_at [OF assms(1) t(2) assms(3)] assms(4,5) have h: "h = log_header t (pre @ b @ post)"
    by (auto simp: writer_at_def)
  have "length (pre @ b @ post) < 65536" using assms(3) by (simp add: log_sizes)
  from parse_damaged [OF _ t(1) this assms(6-9)] assms(10) h
  have "parse_record res r = (kBadRecord, res,
      ReportCorruption (of_nat (length (lr_buffer r))) ''checksum mismatch'' (r\<lparr>lr_buffer := []\<rparr>))" by blast
  moreover have "\<not> length (lr_buffer r) < kHeaderSize" using assms(10) h by (simp add: kHeaderSize_def)
  ultimately show ?thesis by (simp add: ReadPhysicalRecord.simps [of res r])
qed

theorem log_damage_detected_witness:
  "ReadPhysicalRecord [] ((Reader \<lparr>sf_data = [], sf_answers = []\<rparr> True True 0)\<lparr>lr_buffer := log_header kFullType [1, 2] @ [1, 3]\<rparr>) =
    (kBadRecord, [], ReportCorruption 9 ''checksum mismatch'' (Reader \<lparr>sf_data = [], sf_answers = []\<rparr> True True 0))"
proof -
  let ?w = "Writer \<lparr>wf_data = [], wf_answers = []\<rparr>"
  have fit: "lw_block_offset ?w + kHeaderSize + length ([1] @ [2] @ [] :: slice) \<le> kBlockSize"
    by (simp add: Writer_def log_sizes)
  have t: "kFullType < 5" by (simp add: kFullType_def)
  obtain w' where w': "EmitPhysicalRecord kFullType ([1] @ [2] @ []) ?w = Ok () w'"
    "writer_at ([] @ log_header kFullType ([1] @ [2] @ []) @ [1] @ [2] @ []) w'"
    using Emit_at [OF writer_at_start t fit] by blast
  show ?thesis
    using log_damage_detected [OF writer_at_start _ fit w'(1), of "log_header kFullType [1, 2]" "[3]"
        "(Reader \<lparr>sf_data = [], sf_answers = []\<rparr> True True 0)\<lparr>lr_buffer := log_header kFullType [1, 2] @ [1, 3]\<rparr>" "[]" "[]"] w'(2)
    by (simp add: writer_at_def Reader_def)
qed

text \<open>
  C16. The assertions of the writer never fail, and the position in the block never exceeds its size,
  whatever the record and however the file's calls fail in between.
\<close>

theorem log_writer_invariant:
  assumes "writer_ok w"
  shows "okay (\<lambda>_. writer_ok) writer_ok (AddRecord s w)"
  using assms by (rule AddRecord_ok)

theorem log_writer_invariant_witness:
  "okay (\<lambda>_. writer_ok) writer_ok (AddRecord [1, 2, 3] (Writer_at \<lparr>wf_data = [], wf_answers = [Some 4]\<rparr> 70000))"
  by (rule log_writer_invariant) (rule Writer_ok)

text \<open>
  C17. Reading ends: on any bytes and any answers of the file, the loop that reads a log until
  \<^verbatim>\<open>ReadRecord\<close> fails returns at most one record for every seven bytes, with every round bounded.
\<close>

theorem read_log_terminates: "7 * length (fst (read_log r)) \<le> unread r"
  by (rule read_log_bound)

text \<open>
  C18. The table-driven checksum, which takes single bytes up to a four-byte boundary and then sixteen and
  four bytes at a time from four tables, is the bit-serial CRC-32C at every alignment of the buffer.
\<close>

theorem crc_tables_correct:
  assumes "unat pval + length buf + 3 < 2 ^ 64"
  shows "Extend pval crc buf = Some (crc32c crc buf)"
  using assms by (rule Extend_crc32c)

theorem crc_tables_correct_witness: "Extend 5 7 [1, 2, 3, 4, 5, 6] = Some (crc32c 7 [1, 2, 3, 4, 5, 6])"
  by (rule crc_tables_correct) simp

text \<open>The checksum detects every change confined to four consecutive bytes, wherever they are.\<close>

theorem crc_detects_bursts:
  assumes "length b = length b'" "b \<noteq> b'" "length b \<le> 4"
    "unat pval + length (pre @ b @ post) + 3 < 2 ^ 64" "unat pval' + length (pre @ b' @ post) + 3 < 2 ^ 64"
  shows "Extend pval crc (pre @ b @ post) \<noteq> Extend pval' crc (pre @ b' @ post)"
  using crc32c_burst [OF assms(1-3)] Extend_crc32c [OF assms(4)] Extend_crc32c [OF assms(5)] by simp

theorem crc_detects_bursts_witness: "Extend 0 0 ([1] @ [2, 3] @ [4]) \<noteq> Extend 2 0 ([1] @ [2, 7] @ [4])"
  by (rule crc_detects_bursts) simp_all

text \<open>Masking a checksum for storage loses nothing, and every stored value is a masked one.\<close>

theorem mask_roundtrip: "crc32c_Unmask (crc32c_Mask crc) = crc \<and> crc32c_Mask (crc32c_Unmask m) = m"
  using Unmask_Mask Mask_Unmask by blast

text \<open>
  C19. A filter block has no false negatives: if the blocks of a table are added in the order of their
  offsets, with less than \<open>2 ^ 31\<close> keys, building never fails, and in a filter block of less than 4 GB
  the filter found for a block's offset matches every key of that block.
\<close>

theorem filter_block_complete:
  assumes "sorted (map (filter_index \<circ> fst) blocks)" "length (concat (map snd blocks)) \<le> 2 ^ 31 - 1"
  shows "\<exists>b contents. add_blocks (CreateFilter bloom10) blocks FilterBlockBuilder = Some b \<and>
    Finish (CreateFilter bloom10) b = Some contents \<and>
    (length contents < 2 ^ 32 \<longrightarrow> (\<exists>r. FilterBlockReader contents = Some r \<and>
      (\<forall>(off, ks) \<in> set blocks. \<forall>key \<in> set ks. KeyMayMatch bloom_KeyMayMatch r off key = Some True)))"
  using bloom.no_false_negatives [OF assms] by simp

theorem filter_block_complete_witness:
  "\<exists>b contents r. add_blocks (CreateFilter bloom10) [(0, [[1]])] FilterBlockBuilder = Some b \<and>
    Finish (CreateFilter bloom10) b = Some contents \<and> FilterBlockReader contents = Some r \<and>
    KeyMayMatch bloom_KeyMayMatch r 0 [1] = Some True"
proof -
  have n: "unat (filter_bytes bloom10 (Suc 0)) = 8" "filter_bytes bloom10 (Suc 0) \<noteq> 0"
    by (simp_all add: filter_bytes_def bloom10_def)
  have len: "length (foldl (add_key bloom10 bits) array keys) = length array" for bits array keys
    using add_keys_cover [of bloom10 bits array keys] by (simp add: covers_def)
  have len1: "length (add_key bloom10 bits array key) = length array" for bits array key
    using len [of bits array "[key]"] by simp
  have *: "length contents < 2 ^ 32" if "add_blocks (CreateFilter bloom10) [(0, [[1]])] FilterBlockBuilder = Some b"
    "Finish (CreateFilter bloom10) b = Some contents" for b contents
    using that by (auto simp: FilterBlockBuilder_def StartBlock_def filter_index_def generate_until.simps AddKey_def
        Finish_def GenerateFilter_def unflatten_def CreateFilter_def Let_def len1 n PutFixed32_def EncodeFixed32_def
        split: if_splits option.splits)
  from filter_block_complete [of "[(0, [[1]])]"] obtain b contents where
    "add_blocks (CreateFilter bloom10) [(0, [[1]])] FilterBlockBuilder = Some b"
    "Finish (CreateFilter bloom10) b = Some contents"
    "length contents < 2 ^ 32 \<longrightarrow> (\<exists>r. FilterBlockReader contents = Some r \<and>
      KeyMayMatch bloom_KeyMayMatch r 0 [1] = Some True)" by auto
  with * show ?thesis by blast
qed

text \<open>
  Reading a filter block of any content stays inside it, and is defined unless the byte that holds
  the logarithm of the filter's range, which the reader does not check, is 64 or more: such a block
  shifts the 64-bit offset by its width or more.
\<close>

theorem filter_reader_undefined:
  assumes "FilterBlockReader contents = Some r" "length contents < 2 ^ 64"
  shows "KeyMayMatch may_match r off key = None \<longleftrightarrow> 64 \<le> fr_base_lg r"
  using assms by (rule KeyMayMatch_in_bounds)

theorem filter_reader_undefined_witness:
  "\<exists>r. FilterBlockReader [0, 0, 0, 0, 64] = Some r \<and> KeyMayMatch bloom_KeyMayMatch r 0 [1] = None"
proof -
  obtain r where r: "FilterBlockReader [0, 0, 0, 0, 64] = Some r" using FilterBlockReader_total by blast
  moreover have "64 \<le> fr_base_lg r"
    using r by (auto simp: FilterBlockReader_def Let_def DecodeFixed32_def signed_take_bit_eq_if_positive split: if_splits)
  ultimately show ?thesis using filter_reader_undefined [OF r, of bloom_KeyMayMatch 0 "[1]"] by simp
qed

text \<open>
  The Bloom filter has no false negatives, for every policy the constructor makes of up to a million
  bits per key, and every list of keys whose number is an \<^verbatim>\<open>int\<close>.
\<close>

theorem bloom_complete:
  assumes "BloomFilterPolicy bpk = Some pol" "0 \<le> bpk" "bpk \<le> 1000000" "length keys < 2 ^ 31"
  shows "\<exists>f. CreateFilter pol keys dst = Some (dst @ f) \<and> (\<forall>key \<in> set keys. bloom_KeyMayMatch key f)"
proof -
  have pol: "bits_per_key pol = of_int bpk" "unat (k_probes pol) \<le> 30"
    using assms(1,2) by (auto simp: BloomFilterPolicy_def Let_def unsigned_of_int take_bit_int_eq_self split: if_splits)
  have "unat (bits_per_key pol) \<le> 1000000"
    using assms(2,3) pol(1) by (simp add: unsigned_of_int take_bit_int_eq_self)
  then have "length keys * unat (bits_per_key pol) \<le> 2 ^ 31 * 1000000" using assms(4) by (intro mult_le_mono) simp_all
  then have "bloom_ok pol (length keys)" using pol(2) assms(4) by (simp add: bloom_ok_def)
  then show ?thesis by (rule CreateFilter_matches)
qed

theorem bloom_complete_witness:
  "\<exists>f. CreateFilter bloom10 [[1], [2, 3]] [9] = Some ([9] @ f) \<and> (\<forall>key \<in> set [[1], [2, 3]]. bloom_KeyMayMatch key f)"
  by (rule bloom_complete [OF bloom10_made]) simp_all

text \<open>
  The coding routines are self-delimiting: each decoder gives back the encoded number and exactly
  the bytes that followed it.
\<close>

theorem coding_roundtrip:
  "DecodeFixed32 (EncodeFixed32 a @ rest) = Some a \<and> DecodeFixed64 (EncodeFixed64 b @ rest) = Some b \<and>
   GetVarint32 (EncodeVarint32 a @ rest) = Some (a, rest) \<and> GetVarint64 (EncodeVarint64 b @ rest) = Some (b, rest)"
  using lv_fixed32.get_put [OF TrueI, of a rest] lv_fixed64.get_put [OF TrueI, of b rest]
    lv_varint32.get_put [OF TrueI, of a rest] lv_varint64.get_put [OF TrueI, of b rest]
  by (auto simp: get_fixed32_def get_fixed64_def split: option.splits)

text \<open>
  Length-prefixed strings of less than 4 GB are prefix-free: two sequences that begin with such
  strings are equal only if the strings and the rests are.
\<close>

theorem strings_prefix_free:
  assumes "length s < 2 ^ 32" "length t < 2 ^ 32" "PutLengthPrefixedSlice [] s @ xs = PutLengthPrefixedSlice [] t @ ys"
  shows "s = t \<and> xs = ys"
  using assms by (rule lv_string.put_prefix_free)

theorem strings_prefix_free_witness: "[1, 2] = [1, 2 :: byte] \<and> [3] = ([3] :: slice)"
  using strings_prefix_free [of "[1, 2]" "[1, 2]" "[3]" "[3]"] by simp

text \<open>
  The unrolled 32-bit encoder writes what the 64-bit loop writes for the same number, and the
  predicted length is the length written.
\<close>

theorem varint_encoders_agree:
  "EncodeVarint32 v = EncodeVarint64 (ucast v) \<and> VarintLength w = length (EncodeVarint64 w)"
  using EncodeVarint32_loop VarintLength_Encode by blast

end
