(* ===== verification/Lv_Key.thy ===== *)
theory Lv_Key
  imports Lv_Coding
begin

unbundle bit_operations_syntax

section \<open>Comparators and internal keys (leveldb util/comparator, db/dbformat)\<close>

text \<open>
  Tables and memtables order their keys with a \<^verbatim>\<open>Comparator\<close>: a three-way comparison and two functions that
  shorten keys for an index. The locale \<open>comparator\<close> states what they promise. The byte-wise comparator
  satisfies it, and so does the order of internal keys over any user comparator that does: by user key,
  then by decreasing sequence number and type, which are the last eight bytes. \<open>None\<close> is a failed assertion.
\<close>

subsection \<open>Slices\<close>

text \<open>Only the sign of \<^verbatim>\<open>memcmp\<close> and of the comparisons built on it is used.\<close>

fun memcmp :: "slice \<Rightarrow> slice \<Rightarrow> int" where
  "memcmp (a # as) (b # bs) = (if a < b then - 1 else if b < a then 1 else memcmp as bs)"
| "memcmp _ _ = 0"

definition Slice_compare :: "slice \<Rightarrow> slice \<Rightarrow> int" where
  "Slice_compare a b =
     (let min_len = (if length a < length b then length a else length b);
          r = memcmp (take min_len a) (take min_len b) in
      if r = 0 then (if length a < length b then - 1 else if length b < length a then 1 else r) else r)"

definition starts_with :: "slice \<Rightarrow> slice \<Rightarrow> bool" where
  "starts_with s x \<longleftrightarrow> length x \<le> length s \<and> memcmp (take (length x) s) x = 0"

subsection \<open>The byte-wise comparator\<close>

fun common_prefix :: "slice \<Rightarrow> slice \<Rightarrow> nat" where
  "common_prefix (a # as) (b # bs) = (if a = b then Suc (common_prefix as bs) else 0)"
| "common_prefix _ _ = 0"

definition FindShortestSeparator :: "slice \<Rightarrow> slice \<Rightarrow> slice option" where
  "FindShortestSeparator start limit =
     (let min_length = min (length start) (length limit); diff_index = common_prefix start limit in
      if min_length \<le> diff_index then Some start
      else let diff_byte = start ! diff_index in
        if diff_byte < 0xff \<and> unat diff_byte + 1 < unat (limit ! diff_index)
        then let start' = take diff_index start @ [diff_byte + 1] in
          (if Slice_compare start' limit < 0 then Some start' else None)
        else Some start)"

fun FindShortSuccessor :: "slice \<Rightarrow> slice" where
  "FindShortSuccessor [] = []"
| "FindShortSuccessor (b # key) = (if b \<noteq> 0xff then [b + 1] else b # FindShortSuccessor key)"

subsection \<open>Internal keys\<close>

definition kTypeDeletion :: byte where "kTypeDeletion = 0"
definition kTypeValue :: byte where "kTypeValue = 1"
definition kValueTypeForSeek :: byte where "kValueTypeForSeek = kTypeValue"
definition kMaxSequenceNumber :: u64 where "kMaxSequenceNumber = push_bit 56 1 - 1"

record parsed_key =
  pk_user_key :: slice
  pk_sequence :: u64
  pk_type :: byte

definition InternalKeyEncodingLength :: "parsed_key \<Rightarrow> nat" where
  "InternalKeyEncodingLength k = length (pk_user_key k) + 8"

definition PackSequenceAndType :: "u64 \<Rightarrow> byte \<Rightarrow> u64 option" where
  "PackSequenceAndType sq t =
     (if sq \<le> kMaxSequenceNumber \<and> t \<le> kValueTypeForSeek then Some (push_bit 8 sq OR ucast t) else None)"

definition AppendInternalKey :: "slice \<Rightarrow> parsed_key \<Rightarrow> slice option" where
  "AppendInternalKey result k =
     map_option (PutFixed64 (result @ pk_user_key k)) (PackSequenceAndType (pk_sequence k) (pk_type k))"

definition ParseInternalKey :: "slice \<Rightarrow> parsed_key option" where
  "ParseInternalKey k =
     (let n = length k in
      if n < 8 then None
      else case DecodeFixed64 (drop (n - 8) k) of
        None \<Rightarrow> None
      | Some num \<Rightarrow>
          let c = ucast (num AND 0xff) in
          if c \<le> kTypeValue then Some \<lparr>pk_user_key = take (n - 8) k, pk_sequence = drop_bit 8 num, pk_type = c\<rparr>
          else None)"

definition ExtractUserKey :: "slice \<Rightarrow> slice option" where
  "ExtractUserKey k = (if 8 \<le> length k then Some (take (length k - 8) k) else None)"

definition ExtractValueType :: "slice \<Rightarrow> byte option" where
  "ExtractValueType k =
     (if 8 \<le> length k then map_option (\<lambda>num. ucast (num AND 0xff)) (DecodeFixed64 (drop (length k - 8) k)) else None)"

type_synonym compare = "slice \<Rightarrow> slice \<Rightarrow> int"

definition InternalCompare :: "compare \<Rightarrow> slice \<Rightarrow> slice \<Rightarrow> int option" where
  "InternalCompare ucmp akey bkey =
     (case (ExtractUserKey akey, ExtractUserKey bkey) of
        (Some a, Some b) \<Rightarrow>
          let r = ucmp a b in
          if r = 0
          then (case (DecodeFixed64 (drop (length akey - 8) akey), DecodeFixed64 (drop (length bkey - 8) bkey)) of
              (Some anum, Some bnum) \<Rightarrow> Some (if bnum < anum then - 1 else if anum < bnum then 1 else r)
            | _ \<Rightarrow> None)
          else Some r
      | _ \<Rightarrow> None)"

text \<open>The two shortening functions; the tag of a shortened key is the first one in the order.\<close>

definition InternalSeparator :: "compare \<Rightarrow> (slice \<Rightarrow> slice \<Rightarrow> slice option) \<Rightarrow> slice \<Rightarrow> slice \<Rightarrow> slice option" where
  "InternalSeparator ucmp usep start limit =
     (case (ExtractUserKey start, ExtractUserKey limit) of
        (Some user_start, Some user_limit) \<Rightarrow>
          (case usep user_start user_limit of
             None \<Rightarrow> None
           | Some tmp \<Rightarrow>
               if length tmp < length user_start \<and> ucmp user_start tmp < 0
               then (case PackSequenceAndType kMaxSequenceNumber kValueTypeForSeek of
                   None \<Rightarrow> None
                 | Some tag \<Rightarrow>
                     let tmp' = PutFixed64 tmp tag in
                     (case (InternalCompare ucmp start tmp', InternalCompare ucmp tmp' limit) of
                        (Some x, Some y) \<Rightarrow> if x < 0 \<and> y < 0 then Some tmp' else None
                      | _ \<Rightarrow> None))
               else Some start)
      | _ \<Rightarrow> None)"

definition InternalSuccessor :: "compare \<Rightarrow> (slice \<Rightarrow> slice option) \<Rightarrow> slice \<Rightarrow> slice option" where
  "InternalSuccessor ucmp usucc key =
     (case ExtractUserKey key of
        None \<Rightarrow> None
      | Some user_key \<Rightarrow>
          (case usucc user_key of
             None \<Rightarrow> None
           | Some tmp \<Rightarrow>
               if length tmp < length user_key \<and> ucmp user_key tmp < 0
               then (case PackSequenceAndType kMaxSequenceNumber kValueTypeForSeek of
                   None \<Rightarrow> None
                 | Some tag \<Rightarrow>
                     let tmp' = PutFixed64 tmp tag in
                     (case InternalCompare ucmp key tmp' of
                        Some x \<Rightarrow> if x < 0 then Some tmp' else None
                      | None \<Rightarrow> None))
               else Some key))"

text \<open>The filter policy of internal keys passes on the user keys.\<close>

fun user_keys :: "slice list \<Rightarrow> slice list option" where
  "user_keys [] = Some []"
| "user_keys (k # ks) =
     (case (ExtractUserKey k, user_keys ks) of (Some u, Some us) \<Rightarrow> Some (u # us) | _ \<Rightarrow> None)"

definition InternalCreateFilter :: "(slice list \<Rightarrow> slice \<Rightarrow> slice option) \<Rightarrow> slice list \<Rightarrow> slice \<Rightarrow> slice option" where
  "InternalCreateFilter create ks dst = (case user_keys ks of None \<Rightarrow> None | Some us \<Rightarrow> create us dst)"

definition InternalKeyMayMatch :: "(slice \<Rightarrow> slice \<Rightarrow> bool) \<Rightarrow> slice \<Rightarrow> slice \<Rightarrow> bool option" where
  "InternalKeyMayMatch may_match key f = map_option (\<lambda>u. may_match u f) (ExtractUserKey key)"

text \<open>
  A lookup key: its bytes, and where the internal key starts in them. \<open>None\<close> also when the bytes would not
  fit the buffer of \<^verbatim>\<open>needed\<close> bytes.
\<close>

record lookup_key =
  lk_bytes :: slice
  lk_kstart :: nat

definition LookupKey :: "slice \<Rightarrow> u64 \<Rightarrow> lookup_key option" where
  "LookupKey user_key s =
     (let usize = length user_key; needed = usize + 13; prefix = EncodeVarint32 (of_nat (usize + 8)) in
      case PackSequenceAndType s kValueTypeForSeek of
        None \<Rightarrow> None
      | Some tag \<Rightarrow>
          let dst = prefix @ user_key @ EncodeFixed64 tag in
          if needed < length dst then None else Some \<lparr>lk_bytes = dst, lk_kstart = length prefix\<rparr>)"

definition memtable_key :: "lookup_key \<Rightarrow> slice" where "memtable_key k = lk_bytes k"

definition internal_key :: "lookup_key \<Rightarrow> slice" where "internal_key k = drop (lk_kstart k) (lk_bytes k)"

definition lookup_user_key :: "lookup_key \<Rightarrow> slice" where
  "lookup_user_key k = take (length (lk_bytes k) - lk_kstart k - 8) (drop (lk_kstart k) (lk_bytes k))"

subsection \<open>The contract of a comparator\<close>

text \<open>
  \<open>valid\<close> delimits the keys the comparator is used on. \<open>sep\<close> and \<open>succ\<close> are the shortening functions.
\<close>

locale comparator =
  fixes cmp :: compare and valid :: "slice \<Rightarrow> bool"
    and sep :: "slice \<Rightarrow> slice \<Rightarrow> slice option" and shorten :: "slice \<Rightarrow> slice option"
  assumes swap: "valid a \<Longrightarrow> valid b \<Longrightarrow> cmp a b < 0 \<longleftrightarrow> 0 < cmp b a"
    and trans: "valid a \<Longrightarrow> valid b \<Longrightarrow> valid c \<Longrightarrow> cmp a b \<le> 0 \<Longrightarrow> cmp b c \<le> 0 \<Longrightarrow> cmp a c \<le> 0"
    and separates: "valid a \<Longrightarrow> valid b \<Longrightarrow> cmp a b < 0 \<Longrightarrow>
      \<exists>s. sep a b = Some s \<and> valid s \<and> cmp a s \<le> 0 \<and> cmp s b < 0 \<and> length s \<le> length a"
    and separates_eq: "valid a \<Longrightarrow> valid b \<Longrightarrow> cmp a b = 0 \<Longrightarrow> \<exists>s. sep a b = Some s \<and> \<not> cmp a s < 0"
    and succeeds: "valid a \<Longrightarrow> \<exists>s. shorten a = Some s \<and> valid s \<and> cmp a s \<le> 0 \<and> length s \<le> length a"
begin

lemma cmp_self: "valid a \<Longrightarrow> cmp a a = 0"
  using swap [of a a] by (cases "cmp a a" "0 :: int" rule: linorder_cases) auto

lemma le_swap: "valid a \<Longrightarrow> valid b \<Longrightarrow> cmp a b \<le> 0 \<longleftrightarrow> 0 \<le> cmp b a"
  using swap [of b a] by linarith

lemma eq_swap: "valid a \<Longrightarrow> valid b \<Longrightarrow> cmp a b = 0 \<longleftrightarrow> cmp b a = 0"
  using swap [of a b] swap [of b a] by linarith

lemma less_le_trans: "valid a \<Longrightarrow> valid b \<Longrightarrow> valid c \<Longrightarrow> cmp a b < 0 \<Longrightarrow> cmp b c \<le> 0 \<Longrightarrow> cmp a c < 0"
  using trans [of b c a] swap [of a c] swap [of a b] by (meson not_le)

lemma le_less_trans: "valid a \<Longrightarrow> valid b \<Longrightarrow> valid c \<Longrightarrow> cmp a b \<le> 0 \<Longrightarrow> cmp b c < 0 \<Longrightarrow> cmp a c < 0"
  using trans [of c a b] swap [of a c] swap [of b c] by (meson not_le)

lemma less_trans: "valid a \<Longrightarrow> valid b \<Longrightarrow> valid c \<Longrightarrow> cmp a b < 0 \<Longrightarrow> cmp b c < 0 \<Longrightarrow> cmp a c < 0"
  using less_le_trans [of a b c] by simp

text \<open>Two keys separated by a separator stay separated from what is beyond them.\<close>

lemma separator_between:
  assumes "valid a" "valid b" "valid x" "valid y" "cmp a b < 0" "sep a b = Some s" "cmp x a \<le> 0" "cmp b y \<le> 0"
  shows "cmp x s \<le> 0 \<and> cmp s y < 0"
  using separates [OF assms(1,2,5)] assms trans [of x a s] less_le_trans [of s b y] by auto

end

subsection \<open>The byte-wise comparator keeps the contract\<close>

lemma Slice_compare_simps [simp]:
  "Slice_compare [] [] = 0"
  "Slice_compare [] (b # bs) = - 1"
  "Slice_compare (a # as) [] = 1"
  "Slice_compare (a # as) (b # bs) = (if a < b then - 1 else if b < a then 1 else Slice_compare as bs)"
  by (simp_all add: Slice_compare_def Let_def)

lemma Slice_compare_induct [case_names Nil Nil_Cons Cons_Nil Cons]:
  assumes "P [] []" "\<And>b bs. P [] (b # bs)" "\<And>a as. P (a # as) []" "\<And>a as b bs. P as bs \<Longrightarrow> P (a # as) (b # bs)"
  shows "P xs ys"
  using assms by (rule list_induct2')

lemma Slice_compare_0 [simp]: "Slice_compare a b = 0 \<longleftrightarrow> a = b"
  by (induction a b rule: Slice_compare_induct) (auto simp: less_le)

lemma Slice_compare_self: "Slice_compare a a = 0"
  by simp

lemma Slice_compare_lexord: "Slice_compare a b < 0 \<longleftrightarrow> (a, b) \<in> lexord {(x, y). x < y}"
  by (induction a b rule: Slice_compare_induct) (auto simp: less_le)

lemma Slice_compare_swap: "Slice_compare a b = - Slice_compare b a"
  by (induction a b rule: Slice_compare_induct) auto

lemma Slice_compare_trans: "Slice_compare a b \<le> 0 \<Longrightarrow> Slice_compare b c \<le> 0 \<Longrightarrow> Slice_compare a c \<le> 0"
proof (induction a b arbitrary: c rule: Slice_compare_induct)
  case (Cons a as b bs)
  then show ?case by (cases c) (auto split: if_splits)
next
  case Nil_Cons
  then show ?case by (cases c) auto
qed auto

lemma common_prefix_le: "common_prefix a b \<le> length a" "common_prefix a b \<le> length b"
  by (induction a b rule: common_prefix.induct) auto

lemma common_prefix_take: "take (common_prefix a b) a = take (common_prefix a b) b"
  by (induction a b rule: common_prefix.induct) auto

lemma common_prefix_self: "common_prefix a a = length a"
  by (induction a) auto

lemma Slice_compare_prefix: "Slice_compare (p @ a) (p @ b) = Slice_compare a b"
  by (induction p) auto

lemma byte_increment: "b \<noteq> 0xff \<Longrightarrow> unat (b + 1) = unat b + 1" for b :: byte
proof -
  assume "b \<noteq> 0xff"
  then have "unat b \<noteq> 255" using word_unat_eq_iff [of b "0xff"] by simp
  then have "unat b + 1 < 2 ^ 8" using unsigned_less [of b, where ?'a = nat] by simp
  then show ?thesis by (simp add: unat_plus_if')
qed

lemma FindShortestSeparator_between:
  assumes "Slice_compare a b < 0"
  shows "\<exists>s. FindShortestSeparator a b = Some s \<and> Slice_compare a s \<le> 0 \<and> Slice_compare s b < 0 \<and> length s \<le> length a"
proof -
  define d where "d = common_prefix a b"
  show ?thesis
  proof (cases "d < min (length a) (length b) \<and> a ! d < 0xff \<and> unat (a ! d) + 1 < unat (b ! d)")
    case False
    then have "FindShortestSeparator a b = Some a" by (auto simp: FindShortestSeparator_def Let_def d_def)
    then show ?thesis using assms by (simp add: Slice_compare_self)
  next
    case True
    let ?s = "take d a @ [a ! d + 1]"
    have up: "unat (a ! d + 1) = unat (a ! d) + 1" using True by (intro byte_increment) auto
    have a: "a = take d a @ a ! d # drop (Suc d) a" and b: "b = take d a @ b ! d # drop (Suc d) b"
      using True id_take_nth_drop [of d a] id_take_nth_drop [of d b] common_prefix_take [of a b] by (auto simp: d_def)
    have "Slice_compare ?s b < 0" using True up by (subst b) (simp add: Slice_compare_prefix word_less_nat_alt)
    moreover have "Slice_compare a ?s \<le> 0" using up by (subst a) (simp add: Slice_compare_prefix word_less_nat_alt)
    moreover have "length ?s \<le> length a" using True by simp
    moreover have "\<not> min (length a) (length b) \<le> d" using True by (simp add: min_le_iff_disj not_le)
    moreover have "FindShortestSeparator a b = Some ?s"
      using True calculation(1,4) by (simp add: FindShortestSeparator_def Let_def d_def [symmetric])
    ultimately show ?thesis by blast
  qed
qed

lemma FindShortSuccessor_after: "Slice_compare a (FindShortSuccessor a) \<le> 0 \<and> length (FindShortSuccessor a) \<le> length a"
proof (induction a)
  case (Cons b bs)
  then show ?case using byte_increment [of b] by (auto simp: word_less_nat_alt)
qed simp

interpretation bytewise: comparator Slice_compare "\<lambda>_. True" FindShortestSeparator "Some \<circ> FindShortSuccessor"
proof
  show "Slice_compare a b < 0 \<longleftrightarrow> 0 < Slice_compare b a" for a b using Slice_compare_swap [of a b] by linarith
  show "Slice_compare a b \<le> 0 \<Longrightarrow> Slice_compare b c \<le> 0 \<Longrightarrow> Slice_compare a c \<le> 0" for a b c
    by (rule Slice_compare_trans)
  show "\<exists>s. FindShortestSeparator a b = Some s \<and> True \<and> Slice_compare a s \<le> 0 \<and> Slice_compare s b < 0 \<and> length s \<le> length a"
    if "Slice_compare a b < 0" for a b using FindShortestSeparator_between [OF that] by simp
  show "\<exists>s. FindShortestSeparator a b = Some s \<and> \<not> Slice_compare a s < 0" if "Slice_compare a b = 0" for a b
    using that common_prefix_self [of a]
    by (intro exI [of _ a]) (simp add: FindShortestSeparator_def Let_def Slice_compare_self)
  show "\<exists>s. (Some \<circ> FindShortSuccessor) a = Some s \<and> True \<and> Slice_compare a s \<le> 0 \<and> length s \<le> length a" for a
    using FindShortSuccessor_after [of a] by simp
qed

subsection \<open>Internal keys\<close>

text \<open>The two parts of an internal key, and the order on them.\<close>

definition ik_user :: "slice \<Rightarrow> slice" where "ik_user k = take (length k - 8) k"

definition ik_tag :: "slice \<Rightarrow> u64" where "ik_tag k = le_word (drop (length k - 8) k)"

lemma ik_parts [simp]: "ik_user (u @ EncodeFixed64 t) = u" "ik_tag (u @ EncodeFixed64 t) = t"
  by (simp_all add: ik_user_def ik_tag_def EncodeFixed64_def)

lemma ik_split: "8 \<le> length k \<Longrightarrow> k = ik_user k @ EncodeFixed64 (ik_tag k)"
  using le_bytes_le_word [of "drop (length k - 8) k", where ?'a = 64] by (simp add: ik_user_def ik_tag_def EncodeFixed64_def)

lemma InternalCompare_parts:
  "8 \<le> length a \<Longrightarrow> 8 \<le> length b \<Longrightarrow> InternalCompare ucmp a b =
    Some (if ucmp (ik_user a) (ik_user b) = 0 then (if ik_tag b < ik_tag a then - 1 else if ik_tag a < ik_tag b then 1 else 0)
      else ucmp (ik_user a) (ik_user b))"
  by (simp add: InternalCompare_def ExtractUserKey_def DecodeFixed64_def Let_def ik_user_def ik_tag_def)

definition internal_compare :: "compare \<Rightarrow> compare" where
  "internal_compare ucmp a b = the (InternalCompare ucmp a b)"

definition internal_valid :: "(slice \<Rightarrow> bool) \<Rightarrow> slice \<Rightarrow> bool" where
  "internal_valid valid k \<longleftrightarrow> 8 \<le> length k \<and> valid (ik_user k)"

lemma tag_max: "PackSequenceAndType kMaxSequenceNumber kValueTypeForSeek = Some 0xffffffffffffff01"
  by (simp add: PackSequenceAndType_def kMaxSequenceNumber_def kValueTypeForSeek_def kTypeValue_def)

lemma Some_eq: "(x :: 'a option) = Some (the x) \<longleftrightarrow> x \<noteq> None"
  by (cases x) simp_all

context comparator
begin

lemma internal_Compare:
  "internal_valid valid a \<Longrightarrow> internal_valid valid b \<Longrightarrow> InternalCompare cmp a b = Some (internal_compare cmp a b)"
  by (simp add: internal_compare_def internal_valid_def InternalCompare_parts)

lemma internal_less:
  assumes "internal_valid valid a" "internal_valid valid b"
  shows "internal_compare cmp a b < 0 \<longleftrightarrow>
    cmp (ik_user a) (ik_user b) < 0 \<or> (cmp (ik_user a) (ik_user b) = 0 \<and> ik_tag b < ik_tag a)"
  using assms by (simp add: internal_compare_def internal_valid_def InternalCompare_parts)

lemma internal_greater:
  assumes "internal_valid valid a" "internal_valid valid b"
  shows "0 < internal_compare cmp a b \<longleftrightarrow>
    0 < cmp (ik_user a) (ik_user b) \<or> (cmp (ik_user a) (ik_user b) = 0 \<and> ik_tag a < ik_tag b)"
  using assms by (auto simp: internal_compare_def internal_valid_def InternalCompare_parts)

lemma internal_swap:
  assumes "internal_valid valid a" "internal_valid valid b"
  shows "internal_compare cmp a b < 0 \<longleftrightarrow> 0 < internal_compare cmp b a"
  unfolding internal_less [OF assms] internal_greater [OF assms(2,1)]
  using assms swap [of "ik_user a" "ik_user b"] eq_swap [of "ik_user a" "ik_user b"] by (simp add: internal_valid_def)

lemma internal_trans:
  assumes v: "internal_valid valid a" "internal_valid valid b" "internal_valid valid c"
    and le: "internal_compare cmp a b \<le> 0" "internal_compare cmp b c \<le> 0"
  shows "internal_compare cmp a c \<le> 0"
proof -
  have u: "valid (ik_user a)" "valid (ik_user b)" "valid (ik_user c)" using v by (simp_all add: internal_valid_def)
  have not_gt: "internal_compare cmp x y \<le> 0 \<longleftrightarrow> cmp (ik_user x) (ik_user y) < 0 \<or>
      (cmp (ik_user x) (ik_user y) = 0 \<and> ik_tag y \<le> ik_tag x)" if "internal_valid valid x" "internal_valid valid y" for x y
    using internal_greater [OF that] by (simp add: not_less [symmetric]) linarith
  show ?thesis
    using le trans [OF u] less_le_trans [OF u] le_less_trans [OF u] swap [OF u(1,3)] eq_swap [OF u(1,2)] eq_swap [OF u(2,3)]
      trans [OF u(3,2,1)] eq_swap [OF u(1,3)]
    unfolding not_gt [OF v(1,2)] not_gt [OF v(2,3)] not_gt [OF v(1,3)] by (smt (verit) order_trans)
qed

lemma internal_valid_put: "internal_valid valid (PutFixed64 u t) \<longleftrightarrow> valid u"
  by (simp add: internal_valid_def PutFixed64_def)

lemma shortened:
  assumes "internal_valid valid a" "valid s" "cmp (ik_user a) s < 0"
  shows "internal_compare cmp a (PutFixed64 s t) < 0"
  using assms internal_less [of a "PutFixed64 s t"] internal_valid_put [of s t] by (simp add: PutFixed64_def)

lemma internal_separates:
  assumes v: "internal_valid valid a" "internal_valid valid b" and less: "internal_compare cmp a b < 0"
  shows "\<exists>s. InternalSeparator cmp sep a b = Some s \<and> internal_valid valid s \<and> internal_compare cmp a s \<le> 0 \<and>
    internal_compare cmp s b < 0 \<and> length s \<le> length a"
proof -
  have u: "8 \<le> length a" "8 \<le> length b" "valid (ik_user a)" "valid (ik_user b)" using v by (simp_all add: internal_valid_def)
  have ex: "ExtractUserKey a = Some (ik_user a)" "ExtractUserKey b = Some (ik_user b)"
    using u by (simp_all add: ExtractUserKey_def ik_user_def)
  have keep: "internal_compare cmp a a \<le> 0" using internal_swap [OF v(1) v(1)] by linarith
  have le: "cmp (ik_user a) (ik_user b) < 0 \<or> cmp (ik_user a) (ik_user b) = 0" using internal_less [OF v] less by blast
  obtain s where s: "sep (ik_user a) (ik_user b) = Some s"
    "cmp (ik_user a) s < 0 \<Longrightarrow> valid s \<and> cmp s (ik_user b) < 0"
    using le separates [OF u(3,4)] separates_eq [OF u(3,4)] by auto
  show ?thesis
  proof (cases "length s < length (ik_user a) \<and> cmp (ik_user a) s < 0")
    case False
    then have "InternalSeparator cmp sep a b = Some a" by (auto simp: InternalSeparator_def ex s(1))
    then show ?thesis using v less keep by blast
  next
    case True
    let ?s = "PutFixed64 s 0xffffffffffffff01"
    have s': "valid s" "cmp s (ik_user b) < 0" using True s(2) by blast+
    have vs: "internal_valid valid ?s" using s'(1) by (simp add: internal_valid_put)
    have 1: "internal_compare cmp a ?s < 0" using shortened [OF v(1) s'(1)] True by blast
    have 2: "internal_compare cmp ?s b < 0"
      using internal_less [OF vs v(2)] s'(2) by (simp add: PutFixed64_def)
    have "InternalSeparator cmp sep a b = Some ?s"
      using True 1 2 internal_Compare [OF v(1) vs] internal_Compare [OF vs v(2)]
      by (simp add: InternalSeparator_def ex s(1) tag_max Let_def)
    moreover have "length ?s \<le> length a" using True u(1) by (simp add: PutFixed64_def EncodeFixed64_def ik_user_def) linarith
    ultimately show ?thesis using vs 1 2 by (intro exI [of _ ?s]) simp
  qed
qed

lemma internal_separates_eq:
  assumes v: "internal_valid valid a" "internal_valid valid b" and eq: "internal_compare cmp a b = 0"
  shows "\<exists>s. InternalSeparator cmp sep a b = Some s \<and> \<not> internal_compare cmp a s < 0"
proof -
  have u: "8 \<le> length a" "8 \<le> length b" "valid (ik_user a)" "valid (ik_user b)" using v by (simp_all add: internal_valid_def)
  have ex: "ExtractUserKey a = Some (ik_user a)" "ExtractUserKey b = Some (ik_user b)"
    using u by (simp_all add: ExtractUserKey_def ik_user_def)
  have "cmp (ik_user a) (ik_user b) = 0"
    using internal_less [OF v] internal_greater [OF v] eq by linarith
  then obtain s where "sep (ik_user a) (ik_user b) = Some s" "\<not> cmp (ik_user a) s < 0"
    using separates_eq [OF u(3,4)] by blast
  then have "InternalSeparator cmp sep a b = Some a" by (simp add: InternalSeparator_def ex)
  then show ?thesis using internal_swap [OF v(1) v(1)] by (intro exI [of _ a]) linarith
qed

lemma internal_succeeds:
  assumes v: "internal_valid valid a"
  shows "\<exists>s. InternalSuccessor cmp shorten a = Some s \<and> internal_valid valid s \<and> internal_compare cmp a s \<le> 0 \<and>
    length s \<le> length a"
proof -
  have u: "8 \<le> length a" "valid (ik_user a)" using v by (simp_all add: internal_valid_def)
  have ex: "ExtractUserKey a = Some (ik_user a)" using u by (simp add: ExtractUserKey_def ik_user_def)
  have keep: "internal_compare cmp a a \<le> 0" using internal_swap [OF v v] by linarith
  obtain s where s: "shorten (ik_user a) = Some s" "valid s" using succeeds [OF u(2)] by blast
  show ?thesis
  proof (cases "length s < length (ik_user a) \<and> cmp (ik_user a) s < 0")
    case False
    then have "InternalSuccessor cmp shorten a = Some a" by (auto simp: InternalSuccessor_def ex s(1))
    then show ?thesis using v keep by blast
  next
    case True
    let ?s = "PutFixed64 s 0xffffffffffffff01"
    have vs: "internal_valid valid ?s" using s(2) by (simp add: internal_valid_put)
    have 1: "internal_compare cmp a ?s < 0" using shortened [OF v s(2)] True by blast
    have "InternalSuccessor cmp shorten a = Some ?s"
      using True 1 internal_Compare [OF v vs] by (simp add: InternalSuccessor_def ex s(1) tag_max Let_def)
    moreover have "length ?s \<le> length a" using True u(1) by (simp add: PutFixed64_def EncodeFixed64_def ik_user_def) linarith
    ultimately show ?thesis using vs 1 by (intro exI [of _ ?s]) simp
  qed
qed

lemma internal_comparator:
  "comparator (internal_compare cmp) (internal_valid valid) (InternalSeparator cmp sep) (InternalSuccessor cmp shorten)"
  by (unfold_locales) (blast intro: internal_swap internal_trans internal_separates internal_separates_eq internal_succeeds
      dest: internal_swap)+

end

text \<open>The order of internal keys over a comparator keeps the contract too; here over the byte-wise one.\<close>

interpretation internal: comparator "internal_compare Slice_compare" "internal_valid (\<lambda>_. True)"
  "InternalSeparator Slice_compare FindShortestSeparator" "InternalSuccessor Slice_compare (Some \<circ> FindShortSuccessor)"
  by (rule bytewise.internal_comparator)

subsection \<open>Encoding internal keys\<close>

lemma tag_parts:
  assumes "sq \<le> kMaxSequenceNumber"
  shows "ucast ((push_bit 8 sq OR ucast t) AND 0xff) = (t :: byte)" "drop_bit 8 (push_bit 8 sq OR ucast t) = sq"
proof -
  have "unat sq < 2 ^ 56" using assms by (simp add: kMaxSequenceNumber_def word_le_nat_alt)
  then have t: "sq = take_bit 56 sq"
    by (simp add: word_unat_eq_iff unsigned_take_bit_eq take_bit_nat_eq_self)
  have high: "bit sq i \<Longrightarrow> i < 56" for i by (subst (asm) t) (simp add: bit_take_bit_iff)
  show "drop_bit 8 (push_bit 8 sq OR ucast t) = sq"
    by (rule bit_word_eqI) (auto simp: bit_simps dest: high bit_imp_le_length)
  have m: "(0xff :: u64) = mask 8" by (simp add: mask_eq_exp_minus_1)
  show "ucast ((push_bit 8 sq OR ucast t) AND 0xff) = t"
    unfolding m by (rule bit_word_eqI) (auto simp: bit_simps)
qed

lemma AppendInternalKey_parse:
  assumes "AppendInternalKey [] k = Some s"
  shows "ParseInternalKey s = Some k" "ExtractUserKey s = Some (pk_user_key k)" "length s = InternalKeyEncodingLength k"
    "ExtractValueType s = Some (pk_type k)"
proof -
  let ?tag = "push_bit 8 (pk_sequence k) OR ucast (pk_type k) :: u64"
  have ok: "pk_sequence k \<le> kMaxSequenceNumber" "pk_type k \<le> kTypeValue" and s: "s = pk_user_key k @ EncodeFixed64 ?tag"
    using assms by (auto simp: AppendInternalKey_def PackSequenceAndType_def PutFixed64_def kValueTypeForSeek_def split: if_splits)
  have "length (EncodeFixed64 ?tag) = 8" by (simp add: EncodeFixed64_def)
  moreover have "DecodeFixed64 (EncodeFixed64 ?tag) = Some ?tag" by (simp add: DecodeFixed64_def EncodeFixed64_def)
  ultimately show "ParseInternalKey s = Some k" "ExtractUserKey s = Some (pk_user_key k)" "length s = InternalKeyEncodingLength k"
    "ExtractValueType s = Some (pk_type k)"
    using ok tag_parts [OF ok(1), of "pk_type k"]
    by (simp_all add: s ParseInternalKey_def ExtractUserKey_def ExtractValueType_def InternalKeyEncodingLength_def Let_def)
qed

lemma AppendInternalKey_defined:
  "AppendInternalKey r k \<noteq> None \<longleftrightarrow> pk_sequence k \<le> kMaxSequenceNumber \<and> pk_type k \<le> kTypeValue"
  by (simp add: AppendInternalKey_def PackSequenceAndType_def kValueTypeForSeek_def)

lemma tag_join: "push_bit 8 (drop_bit 8 num) OR ucast (ucast (num AND 0xff) :: byte) = (num :: u64)"
proof -
  have m: "(0xff :: u64) = mask 8" by (simp add: mask_eq_exp_minus_1)
  show ?thesis unfolding m
  proof (rule bit_word_eqI)
    fix i assume "i < LENGTH(64)"
    then show "bit (push_bit 8 (drop_bit 8 num) OR ucast (ucast (num AND mask 8) :: byte)) i = bit num i"
      by (cases "i < 8") (auto simp: bit_simps)
  qed
qed

lemma drop_8_max: "drop_bit 8 num \<le> kMaxSequenceNumber" for num :: u64
proof -
  have "unat num div 2 ^ 8 < 2 ^ 56" using unsigned_less [of num, where ?'a = nat] by (simp add: div_less_iff_less_mult)
  then show ?thesis by (simp add: kMaxSequenceNumber_def word_le_nat_alt drop_bit_eq_div unat_div)
qed

lemma ParseInternalKey_append:
  assumes "ParseInternalKey s = Some k"
  shows "AppendInternalKey [] k = Some s"
proof -
  have n: "8 \<le> length s" using assms by (auto simp: ParseInternalKey_def Let_def split: if_splits)
  have d: "DecodeFixed64 (drop (length s - 8) s) = Some (ik_tag s)" using n by (simp add: DecodeFixed64_def ik_tag_def)
  have k: "k = \<lparr>pk_user_key = ik_user s, pk_sequence = drop_bit 8 (ik_tag s), pk_type = ucast (ik_tag s AND 0xff)\<rparr>"
    "ucast (ik_tag s AND 0xff) \<le> kTypeValue"
    using assms n d by (auto simp: ParseInternalKey_def Let_def ik_user_def split: if_splits)
  show ?thesis using k(2) drop_8_max [of "ik_tag s"] ik_split [OF n]
    by (simp add: AppendInternalKey_def PackSequenceAndType_def k(1) kValueTypeForSeek_def tag_join PutFixed64_def)
qed

subsection \<open>Lookup keys\<close>

lemma LookupKey_parts:
  assumes "s \<le> kMaxSequenceNumber" "length u + 8 < 2 ^ 32"
  obtains lk where "LookupKey u s = Some lk"
    "internal_key lk = u @ EncodeFixed64 (push_bit 8 s OR 1)" "lookup_user_key lk = u"
    "memtable_key lk = PutLengthPrefixedSlice [] (internal_key lk)"
proof -
  let ?prefix = "EncodeVarint32 (of_nat (length u + 8))" and ?tag = "push_bit 8 s OR 1 :: u64"
  have len: "length ?prefix \<le> 5" by (simp add: EncodeVarint32_def)
  have t: "PackSequenceAndType s kValueTypeForSeek = Some ?tag"
    using assms(1) by (simp add: PackSequenceAndType_def kValueTypeForSeek_def kTypeValue_def)
  have l8: "length (EncodeFixed64 ?tag) = 8" by (simp add: EncodeFixed64_def)
  let ?lk = "\<lparr>lk_bytes = ?prefix @ u @ EncodeFixed64 ?tag, lk_kstart = length ?prefix\<rparr>"
  have "LookupKey u s = Some ?lk" using len l8 t by (simp add: LookupKey_def Let_def)
  moreover have "internal_key ?lk = u @ EncodeFixed64 ?tag" by (simp add: internal_key_def)
  moreover have "lookup_user_key ?lk = u" using l8 by (simp add: lookup_user_key_def)
  moreover have "memtable_key ?lk = PutLengthPrefixedSlice [] (internal_key ?lk)"
    using l8 by (simp add: memtable_key_def internal_key_def PutLengthPrefixedSlice_def PutVarint32_def)
  ultimately show thesis using that by blast
qed

lemma low_byte: "unat (ucast (n AND 0xff) :: byte) = unat n mod 256" for n :: u64
proof -
  have m: "(0xff :: u64) = mask 8" by (simp add: mask_eq_exp_minus_1)
  have "(ucast (n AND mask 8) :: byte) = ucast n" by (rule bit_word_eqI) (auto simp: bit_simps)
  then show ?thesis unfolding m by (simp add: unsigned_ucast_eq take_bit_eq_mod)
qed

lemma unat_tag:
  assumes "sq \<le> kMaxSequenceNumber"
  shows "unat (push_bit 8 sq OR ucast (t :: byte)) = 256 * unat sq + unat t"
proof -
  let ?n = "unat (push_bit 8 sq OR ucast t)"
  have "?n div 256 = unat sq"
    using arg_cong [OF tag_parts(2) [OF assms, of t], of unat] by (simp add: drop_bit_eq_div unat_div)
  moreover have "?n mod 256 = unat t"
    using arg_cong [OF tag_parts(1) [OF assms, of t], of unat] by (simp only: low_byte)
  ultimately show ?thesis using mult_div_mod_eq [of 256 ?n] by simp
qed

text \<open>
  A lookup key at a sequence number stands before exactly those versions of its user key that are not newer.
\<close>

context comparator
begin

lemma lookup_visible:
  assumes "LookupKey u s = Some lk" "AppendInternalKey [] \<lparr>pk_user_key = u, pk_sequence = q, pk_type = t\<rparr> = Some e"
    "valid u" "length u + 8 < 2 ^ 32"
  shows "internal_compare cmp (internal_key lk) e \<le> 0 \<longleftrightarrow> q \<le> s"
proof -
  have s: "s \<le> kMaxSequenceNumber" using assms(1) by (auto simp: LookupKey_def PackSequenceAndType_def Let_def split: if_splits)
  have q: "q \<le> kMaxSequenceNumber" "t \<le> 1" "e = u @ EncodeFixed64 (push_bit 8 q OR ucast t)"
    using assms(2) by (auto simp: AppendInternalKey_def PackSequenceAndType_def PutFixed64_def kValueTypeForSeek_def
        kTypeValue_def split: if_splits)
  have l: "internal_key lk = u @ EncodeFixed64 (push_bit 8 s OR ucast (1 :: byte))"
    using LookupKey_parts [OF s assms(4)] assms(1) by (metis option.inject ucast_1)
  have v: "internal_valid valid (internal_key lk)" "internal_valid valid e"
    using assms(3) by (simp_all add: l q(3) internal_valid_def EncodeFixed64_def ik_user_def)
  have "internal_compare cmp (internal_key lk) e \<le> 0 \<longleftrightarrow>
      push_bit 8 q OR ucast t \<le> (push_bit 8 s OR ucast (1 :: byte) :: u64)"
    using internal_greater [OF v] cmp_self [OF assms(3)] unfolding l q(3) ik_parts by (simp add: not_less [symmetric])
  also have "\<dots> \<longleftrightarrow> 256 * unat q + unat t \<le> 256 * unat s + unat (1 :: byte)"
    unfolding word_le_nat_alt unat_tag [OF q(1)] unat_tag [OF s] ..
  also have "\<dots> \<longleftrightarrow> q \<le> s" using q(2) by (auto simp: word_le_nat_alt)
  finally show ?thesis .
qed

end

end
