(* ===== verification/Lv_Skiplist.thy ===== *)
theory Lv_Skiplist
  imports Prelude "HOL-Library.Monad_Syntax"
begin

unbundle bit_operations_syntax

section \<open>Skip lists (leveldb util/random.h, db/skiplist.h)\<close>

text \<open>
  The memtable keeps its entries in a skip list. A node is addressed by its place in the list of nodes, in the
  order of their allocation; \<^verbatim>\<open>head_\<close> is the first. A link is \<open>None\<close> until it is set, then \<open>Some None\<close> for
  \<^verbatim>\<open>NULL\<close> or \<open>Some (Some y)\<close>. The comparison is a parameter that can fail. An operation returns \<open>None\<close> when an
  assertion fails, when it reads a link that does not exist or was never set, or when it does not return. The
  invariant, \<open>linked\<close>, says of every link where it must point, given the order of the nodes and how many levels
  of each are linked. It holds after every store of an insertion, so a search that runs between two stores finds
  its place.
\<close>

subsection \<open>The random number generator\<close>

definition Random :: "u32 \<Rightarrow> u32" where
  "Random s = (let seed = s AND 0x7fffffff in if seed = 0 \<or> seed = 2147483647 then 1 else seed)"

definition Random_Next :: "u32 \<Rightarrow> u32" where
  "Random_Next seed =
     (let product = ucast seed * 16807 :: u64;
          s = ucast (drop_bit 31 product + (product AND 2147483647)) :: u32 in
      if 2147483647 < s then s - 2147483647 else s)"

text \<open>The functions that draw return the value and the next seed; division by zero is \<open>None\<close>.\<close>

definition Uniform :: "u32 \<Rightarrow> u32 \<Rightarrow> (u32 \<times> u32) option" where
  "Uniform n seed = (let s = Random_Next seed in if n = 0 then None else Some (s mod n, s))"

definition OneIn :: "u32 \<Rightarrow> u32 \<Rightarrow> (bool \<times> u32) option" where
  "OneIn n seed = map_option (\<lambda>(v, s). (v = 0, s)) (Uniform n seed)"

subsection \<open>Nodes and links\<close>

type_synonym ptr = "nat option"

record 'k node =
  node_key :: 'k
  node_next :: "ptr option list"

record 'k skiplist =
  nodes :: "'k node list"
  max_height :: nat
  rnd :: u32

definition kMaxHeight :: nat where "kMaxHeight = 12"

definition kBranching :: u32 where "kBranching = 4"

definition node_Next :: "'k skiplist \<Rightarrow> nat \<Rightarrow> nat \<Rightarrow> ptr option" where
  "node_Next l x n =
     (if x < length (nodes l) \<and> n < length (node_next (nodes l ! x)) then node_next (nodes l ! x) ! n else None)"

definition node_SetNext :: "'k skiplist \<Rightarrow> nat \<Rightarrow> nat \<Rightarrow> ptr \<Rightarrow> 'k skiplist option" where
  "node_SetNext l x n p =
     (if x < length (nodes l) \<and> n < length (node_next (nodes l ! x))
      then Some (l\<lparr>nodes := (nodes l)[x := (nodes l ! x)\<lparr>node_next := (node_next (nodes l ! x))[n := Some p]\<rparr>]\<rparr>)
      else None)"

definition key_at :: "'k skiplist \<Rightarrow> nat \<Rightarrow> 'k option" where
  "key_at l x = (if x < length (nodes l) then Some (node_key (nodes l ! x)) else None)"

definition NewNode :: "'k skiplist \<Rightarrow> 'k \<Rightarrow> nat \<Rightarrow> nat \<times> 'k skiplist" where
  "NewNode l k height =
     (length (nodes l), l\<lparr>nodes := nodes l @ [\<lparr>node_key = k, node_next = replicate height None\<rparr>]\<rparr>)"

definition SkipList :: "'k \<Rightarrow> 'k skiplist" where
  "SkipList any =
     \<lparr>nodes = [\<lparr>node_key = any, node_next = replicate kMaxHeight (Some None)\<rparr>], max_height = 1, rnd = Random 0xdeadbeef\<rparr>"

function random_height_loop :: "nat \<Rightarrow> u32 \<Rightarrow> nat \<times> u32" where
  "random_height_loop height seed =
     (if height < kMaxHeight
      then let s = Random_Next seed in
        if s mod kBranching = 0 then random_height_loop (height + 1) s else (height, s)
      else (height, seed))"
  by pat_completeness auto
termination by (relation "measure (\<lambda>(height, seed). kMaxHeight - height)") auto

declare random_height_loop.simps [simp del]

definition RandomHeight :: "u32 \<Rightarrow> nat \<times> u32" where "RandomHeight seed = random_height_loop 1 seed"

subsection \<open>Searching\<close>

type_synonym 'k kcompare = "'k \<Rightarrow> 'k \<Rightarrow> int option"

definition Equal :: "'k kcompare \<Rightarrow> 'k \<Rightarrow> 'k \<Rightarrow> bool option" where
  "Equal cmp a b = map_option (\<lambda>c. c = 0) (cmp a b)"

definition KeyIsAfterNode :: "'k kcompare \<Rightarrow> 'k skiplist \<Rightarrow> 'k \<Rightarrow> ptr \<Rightarrow> bool option" where
  "KeyIsAfterNode cmp l k n =
     (case n of None \<Rightarrow> Some False | Some y \<Rightarrow> do { ky \<leftarrow> key_at l y; c \<leftarrow> cmp ky k; Some (c < 0) })"

text \<open>
  The loop the three searches share: along the links of a level while \<open>test\<close> allows, then one level down. \<open>prev\<close>
  is the array to fill, when there is one. The result is the last node, the link that follows it and the array.
\<close>

type_synonym prevs = "nat option list option"

fun set_prev :: "prevs \<Rightarrow> nat \<Rightarrow> nat \<Rightarrow> prevs option" where
  "set_prev None level x = Some None"
| "set_prev (Some p) level x = (if level < length p then Some (Some (p[level := Some x])) else None)"

partial_function (option) skip_walk ::
  "(nat \<Rightarrow> ptr \<Rightarrow> bool option) \<Rightarrow> 'k skiplist \<Rightarrow> nat \<Rightarrow> nat \<Rightarrow> prevs \<Rightarrow> (nat \<times> ptr \<times> prevs) option" where
  "skip_walk test l x level prev =
     do {
       nxt \<leftarrow> node_Next l x level;
       further \<leftarrow> test x nxt;
       if further then (case nxt of None \<Rightarrow> None | Some y \<Rightarrow> skip_walk test l y level prev)
       else do {
         prev' \<leftarrow> set_prev prev level x;
         if level = 0 then Some (x, nxt, prev') else skip_walk test l x (level - 1) prev'
       }
     }"

definition FindGreaterOrEqual :: "'k kcompare \<Rightarrow> 'k skiplist \<Rightarrow> 'k \<Rightarrow> prevs \<Rightarrow> (ptr \<times> prevs) option" where
  "FindGreaterOrEqual cmp l k prev =
     (if max_height l = 0 then None
      else do { (x, nxt, prev') \<leftarrow> skip_walk (\<lambda>x. KeyIsAfterNode cmp l k) l 0 (max_height l - 1) prev; Some (nxt, prev') })"

definition less_than_test :: "'k kcompare \<Rightarrow> 'k skiplist \<Rightarrow> 'k \<Rightarrow> nat \<Rightarrow> ptr \<Rightarrow> bool option" where
  "less_than_test cmp l k x nxt =
     do {
       asserted \<leftarrow> (if x = 0 then Some True else KeyIsAfterNode cmp l k (Some x));
       if \<not> asserted then None
       else (case nxt of None \<Rightarrow> Some False | Some y \<Rightarrow> do { ky \<leftarrow> key_at l y; c \<leftarrow> cmp ky k; Some (\<not> 0 \<le> c) })
     }"

definition FindLessThan :: "'k kcompare \<Rightarrow> 'k skiplist \<Rightarrow> 'k \<Rightarrow> nat option" where
  "FindLessThan cmp l k =
     (if max_height l = 0 then None
      else do { (x, _) \<leftarrow> skip_walk (less_than_test cmp l k) l 0 (max_height l - 1) None; Some x })"

definition FindLast :: "'k skiplist \<Rightarrow> nat option" where
  "FindLast l =
     (if max_height l = 0 then None
      else do { (x, _) \<leftarrow> skip_walk (\<lambda>x nxt. Some (nxt \<noteq> None)) l 0 (max_height l - 1) None; Some x })"

definition Contains :: "'k kcompare \<Rightarrow> 'k skiplist \<Rightarrow> 'k \<Rightarrow> bool option" where
  "Contains cmp l k =
     do {
       (x, _) \<leftarrow> FindGreaterOrEqual cmp l k None;
       (case x of None \<Rightarrow> Some False | Some y \<Rightarrow> do { ky \<leftarrow> key_at l y; Equal cmp k ky })
     }"

subsection \<open>Inserting\<close>

text \<open>The two stores that link one level of a new node; an entry of \<open>prev\<close> that was never set is not read.\<close>

definition link_level :: "nat \<Rightarrow> nat option list \<Rightarrow> nat \<Rightarrow> 'k skiplist \<Rightarrow> 'k skiplist option" where
  "link_level x prev i l =
     do {
       p \<leftarrow> (if i < length prev then prev ! i else None);
       nxt \<leftarrow> node_Next l p i;
       l' \<leftarrow> node_SetNext l x i nxt;
       node_SetNext l' p i (Some x)
     }"

fun link_levels :: "nat \<Rightarrow> nat option list \<Rightarrow> nat list \<Rightarrow> 'k skiplist \<Rightarrow> 'k skiplist option" where
  "link_levels x prev [] l = Some l"
| "link_levels x prev (i # is) l = do { l' \<leftarrow> link_level x prev i l; link_levels x prev is l' }"

text \<open>
  An insertion up to its loop of stores: the new node, the array of predecessors, the height and the list; then
  the loop.
\<close>

definition insert_prepare :: "'k kcompare \<Rightarrow> 'k skiplist \<Rightarrow> 'k \<Rightarrow> (nat \<times> nat option list \<times> nat \<times> 'k skiplist) option" where
  "insert_prepare cmp l k =
     do {
       (x, prev) \<leftarrow> FindGreaterOrEqual cmp l k (Some (replicate kMaxHeight None));
       prev \<leftarrow> prev;
       duplicate \<leftarrow> (case x of None \<Rightarrow> Some False | Some y \<Rightarrow> do { ky \<leftarrow> key_at l y; Equal cmp k ky });
       if duplicate then None
       else let (height, seed) = RandomHeight (rnd l); l = l\<lparr>rnd := seed\<rparr>;
           (prev, l) =
             (if max_height l < height
              then (fold (\<lambda>i p. p[i := Some 0]) [max_height l..<height] prev, l\<lparr>max_height := height\<rparr>)
              else (prev, l));
           (x, l) = NewNode l k height in
         Some (x, prev, height, l)
     }"

definition SkipList_Insert :: "'k kcompare \<Rightarrow> 'k skiplist \<Rightarrow> 'k \<Rightarrow> 'k skiplist option" where
  "SkipList_Insert cmp l k =
     do { (x, prev, height, l) \<leftarrow> insert_prepare cmp l k; link_levels x prev [0..<height] l }"

subsection \<open>Iterators\<close>

text \<open>An iterator is its \<^verbatim>\<open>node_\<close>.\<close>

definition SkipIter :: ptr where "SkipIter = None"

definition SkipIter_Valid :: "ptr \<Rightarrow> bool" where "SkipIter_Valid it \<longleftrightarrow> it \<noteq> None"

definition SkipIter_key :: "'k skiplist \<Rightarrow> ptr \<Rightarrow> 'k option" where "SkipIter_key l it = do { x \<leftarrow> it; key_at l x }"

definition SkipIter_Next :: "'k skiplist \<Rightarrow> ptr \<Rightarrow> ptr option" where
  "SkipIter_Next l it = do { x \<leftarrow> it; node_Next l x 0 }"

definition SkipIter_Prev :: "'k kcompare \<Rightarrow> 'k skiplist \<Rightarrow> ptr \<Rightarrow> ptr option" where
  "SkipIter_Prev cmp l it =
     do { x \<leftarrow> it; k \<leftarrow> key_at l x; y \<leftarrow> FindLessThan cmp l k; Some (if y = 0 then None else Some y) }"

definition SkipIter_Seek :: "'k kcompare \<Rightarrow> 'k skiplist \<Rightarrow> 'k \<Rightarrow> ptr option" where
  "SkipIter_Seek cmp l target = map_option fst (FindGreaterOrEqual cmp l target None)"

definition SkipIter_SeekToFirst :: "'k skiplist \<Rightarrow> ptr option" where "SkipIter_SeekToFirst l = node_Next l 0 0"

definition SkipIter_SeekToLast :: "'k skiplist \<Rightarrow> ptr option" where
  "SkipIter_SeekToLast l = map_option (\<lambda>y. if y = 0 then None else Some y) (FindLast l)"

subsection \<open>The generator computes a product modulo a prime\<close>

lemma Random_range: "1 \<le> unat (Random s) \<and> unat (Random s) \<le> 2147483646"
proof -
  let ?t = "s AND 0x7fffffff"
  have m: "(0x7fffffff :: u32) = mask 31" by (simp add: mask_eq_exp_minus_1)
  have t: "?t = take_bit 31 s" unfolding m by (simp add: take_bit_eq_mask)
  have "unat ?t < 2 ^ 31" unfolding t unsigned_take_bit_eq by (rule take_bit_nat_less_exp)
  moreover have "?t \<noteq> 0 \<Longrightarrow> unat ?t \<noteq> 0" by (simp only: unat_eq_zero not_False_eq_True)
  moreover have "?t \<noteq> 2147483647 \<Longrightarrow> unat ?t \<noteq> 2147483647" using word_unat_eq_iff [of ?t 2147483647] by simp
  ultimately show ?thesis unfolding Random_def Let_def by (cases "?t = 0 \<or> ?t = 2147483647") auto
qed

lemma mersenne_fold: "((a * 2 ^ 31 + b) :: nat) mod 2147483647 = (a + b) mod 2147483647"
proof -
  have "a * 2 ^ 31 + b = (a + b) + a * 2147483647" by simp
  then show ?thesis by (metis mod_mult_self1)
qed

lemma fold_sum:
  fixes p :: nat
  assumes "p < 2 ^ 46"
  shows "p div 2 ^ 31 + p mod 2 ^ 31 < 2 ^ 32 - 1"
proof -
  have "p div 2 ^ 31 < 2 ^ 15" using assms by (simp add: div_less_iff_less_mult)
  moreover have "p mod 2 ^ 31 < 2 ^ 31" by simp
  ultimately show ?thesis by simp
qed

lemma product_not_0: "1 \<le> n \<Longrightarrow> n \<le> 2147483646 \<Longrightarrow> n * 16807 mod 2147483647 \<noteq> 0" for n :: nat
proof
  assume n: "1 \<le> n" "n \<le> 2147483646" and "n * 16807 mod 2147483647 = 0"
  then have "2147483647 dvd n * 16807" by (simp add: mod_eq_0_iff_dvd)
  moreover have "coprime (2147483647 :: nat) 16807" by (simp add: coprime_iff_gcd_eq_1 gcd_non_0_nat)
  ultimately have "2147483647 dvd n" by (simp add: coprime_dvd_mult_left_iff)
  then show False using n by (auto dest: dvd_imp_le)
qed

lemma Random_Next_mod:
  assumes "1 \<le> unat s" "unat s \<le> 2147483646"
  shows "unat (Random_Next s) = unat s * 16807 mod 2147483647"
proof -
  let ?p = "ucast s * 16807 :: u64" and ?n = "unat s * 16807"
  have small: "?n < 2 ^ 46" using assms(2) by simp
  have p: "unat ?p = ?n"
    using small by (simp add: unat_mult_lem [THEN iffD1] unat_word_ariths unsigned_ucast_eq take_bit_nat_eq_self)
  have m: "(2147483647 :: u64) = mask 31" by (simp add: mask_eq_exp_minus_1)
  have hi: "unat (drop_bit 31 ?p) = ?n div 2 ^ 31" by (simp only: drop_bit_eq_div unat_div p) simp
  have lo: "unat (?p AND 2147483647) = ?n mod 2 ^ 31"
    unfolding m take_bit_eq_mask [symmetric] unsigned_take_bit_eq p by (rule take_bit_eq_mod)
  define r where "r = ?n div 2 ^ 31 + ?n mod 2 ^ 31"
  have r: "r < 2 ^ 32 - 1" unfolding r_def using small by (rule fold_sum)
  define t where "t = (ucast (drop_bit 31 ?p + (?p AND 2147483647)) :: u32)"
  have t: "unat t = r"
  proof -
    have "unat (drop_bit 31 ?p + (?p AND 2147483647)) = r"
      using r unfolding unat_plus_if' hi lo r_def [symmetric] by simp
    then show ?thesis unfolding t_def unsigned_ucast_eq using r by (simp add: take_bit_nat_eq_self)
  qed
  have rm: "?n mod 2147483647 = r mod 2147483647"
    using mersenne_fold [of "?n div 2 ^ 31" "?n mod 2 ^ 31"] unfolding r_def by (simp only: div_mult_mod_eq)
  have nz: "r mod 2147483647 \<noteq> 0" using product_not_0 [OF assms] unfolding rm .
  have e: "Random_Next s = (if 2147483647 < t then t - 2147483647 else t)" by (simp add: Random_Next_def Let_def t_def)
  show ?thesis
  proof (cases "2147483647 < r")
    case True
    then have "2147483647 < t" by (simp add: word_less_nat_alt t)
    then have "unat (t - 2147483647) = r - 2147483647" using unat_sub [of 2147483647 t] by (simp add: t less_imp_le)
    moreover have "r \<noteq> 2 * 2147483647" using nz by auto
    then have "r - 2147483647 < 2147483647" using r by simp
    then have "r mod 2147483647 = r - 2147483647" using True by (simp add: le_mod_geq)
    ultimately show ?thesis using \<open>2147483647 < t\<close> rm e by simp
  next
    case False
    then have "\<not> 2147483647 < t" by (simp add: word_less_nat_alt t)
    moreover have "r \<noteq> 2147483647" using nz by auto
    then have "r mod 2147483647 = r" using False by simp
    ultimately show ?thesis using rm e t by simp
  qed
qed

lemma Random_Next_range:
  assumes "1 \<le> unat s" "unat s \<le> 2147483646"
  shows "1 \<le> unat (Random_Next s) \<and> unat (Random_Next s) \<le> 2147483646"
proof -
  have "unat s * 16807 mod 2147483647 < 2147483647" by simp
  then show ?thesis unfolding Random_Next_mod [OF assms] using product_not_0 [OF assms] by linarith
qed

lemma random_height_loop_range:
  "height \<le> kMaxHeight \<Longrightarrow> height \<le> fst (random_height_loop height seed) \<and> fst (random_height_loop height seed) \<le> kMaxHeight"
proof (induction height seed rule: random_height_loop.induct)
  case (1 height seed)
  then show ?case
    unfolding random_height_loop.simps [of height seed]
    by (cases "height < kMaxHeight"; cases "Random_Next seed mod kBranching = 0") (force simp: Let_def)+
qed

lemma RandomHeight_range: "1 \<le> fst (RandomHeight seed) \<and> fst (RandomHeight seed) \<le> kMaxHeight"
  unfolding RandomHeight_def by (rule random_height_loop_range) (simp add: kMaxHeight_def)

end
