(* ===== verification/Lv_Skiplist_Correct.thy ===== *)
theory Lv_Skiplist_Correct
  imports Lv_Skiplist
begin

section \<open>Skip lists keep their keys in order\<close>

text \<open>
  The locale \<open>key_order\<close> states what the list asks of its comparison. Over it, a skip list represents a sorted
  list of keys: the searches find the place of a key in that list, an insertion adds a key at its place, and the
  iterator is a cursor on the list. The invariant holds after every store of an insertion.
\<close>

definition before :: "'k kcompare \<Rightarrow> 'k \<Rightarrow> 'k \<Rightarrow> bool" where
  "before cmp a b = (case cmp a b of None \<Rightarrow> False | Some c \<Rightarrow> c < 0)"

locale key_order =
  fixes kcmp :: "'k kcompare" and valid :: "'k \<Rightarrow> bool"
  assumes defined: "valid a \<Longrightarrow> valid b \<Longrightarrow> \<exists>c. kcmp a b = Some c"
    and asym: "valid a \<Longrightarrow> valid b \<Longrightarrow> before kcmp a b \<Longrightarrow> \<not> before kcmp b a"
    and same: "valid a \<Longrightarrow> valid b \<Longrightarrow> kcmp a b = Some 0 \<longleftrightarrow> \<not> before kcmp a b \<and> \<not> before kcmp b a"
    and not_before: "valid a \<Longrightarrow> valid b \<Longrightarrow> valid c \<Longrightarrow> \<not> before kcmp a b \<Longrightarrow> \<not> before kcmp b c \<Longrightarrow> \<not> before kcmp a c"
begin

lemma trans: "valid a \<Longrightarrow> valid b \<Longrightarrow> valid c \<Longrightarrow> before kcmp a b \<Longrightarrow> before kcmp b c \<Longrightarrow> before kcmp a c"
  using not_before [of a c b] asym [of b c] by blast

end

subsection \<open>The links of a list\<close>

text \<open>\<open>linked l h xs r\<close>: every link of the nodes \<open>xs\<close>, below the height \<open>h\<close>, points to the next node that is high
  enough among those that follow in \<open>xs @ r\<close>.\<close>

fun linked :: "'k skiplist \<Rightarrow> (nat \<Rightarrow> nat) \<Rightarrow> nat list \<Rightarrow> nat list \<Rightarrow> bool" where
  "linked l h [] r \<longleftrightarrow> True"
| "linked l h (z # zs) r \<longleftrightarrow> (\<forall>n < h z. node_Next l z n = Some (find (\<lambda>y. n < h y) (zs @ r))) \<and> linked l h zs r"

lemma linked_append: "linked l h (as @ bs) r \<longleftrightarrow> linked l h as (bs @ r) \<and> linked l h bs r"
  by (induction as) auto

lemma find_append: "find P (as @ bs) = (case find P as of None \<Rightarrow> find P bs | Some y \<Rightarrow> Some y)"
  by (induction as) auto

lemma find_skip: "\<forall>y \<in> set as. \<not> P y \<Longrightarrow> find P (as @ bs) = find P bs"
  by (induction as) auto

lemma find_in: "find P xs = Some y \<Longrightarrow> y \<in> set xs"
  by (induction xs) (auto split: if_splits)

lemma find_agree: "\<forall>y \<in> set as. P y = Q y \<Longrightarrow> find P bs = find Q cs \<Longrightarrow> find P (as @ bs) = find Q (as @ cs)"
  by (induction as) auto

lemma linked_agree:
  assumes "\<And>z. z \<in> set as \<Longrightarrow> h' z = h z"
    and "\<And>z n. z \<in> set as \<Longrightarrow> n < h z \<Longrightarrow> node_Next l' z n = node_Next l z n"
    and "\<And>z n. z \<in> set as \<Longrightarrow> n < h z \<Longrightarrow> find (\<lambda>y. n < h' y) r' = find (\<lambda>y. n < h y) r"
  shows "linked l h as r \<Longrightarrow> linked l' h' as r'"
  using assms
proof (induction as)
  case (Cons a as)
  have "find (\<lambda>y. n < h' y) (as @ r') = find (\<lambda>y. n < h y) (as @ r)" if "n < h a" for n
    using Cons.prems(2) Cons.prems(4) [of a n] that by (intro find_agree) auto
  moreover have "linked l' h' as r'"
  proof (rule Cons.IH)
    fix z n assume z: "z \<in> set as"
    show "h' z = h z" using Cons.prems(2) z by simp
    assume n: "n < h z"
    show "node_Next l' z n = node_Next l z n" using Cons.prems(3) z n by simp
    show "find (\<lambda>y. n < h' y) r' = find (\<lambda>y. n < h y) r" using Cons.prems(4) [of z n] z n by simp
  qed (use Cons.prems(1) in simp)
  ultimately show ?case using Cons.prems(1) Cons.prems(2,3) [of a] by simp
qed simp

definition first_of :: "nat list \<Rightarrow> ptr" where "first_of xs = (case xs of [] \<Rightarrow> None | y # _ \<Rightarrow> Some y)"

lemma find_first: "\<forall>y \<in> set xs. P y \<Longrightarrow> find P xs = first_of xs"
  by (cases xs) (auto simp: first_of_def)

subsection \<open>The walk\<close>

text \<open>What the walk leaves in the array: at each level the last node that is high enough.\<close>

definition prevs_upto :: "(nat \<Rightarrow> nat) \<Rightarrow> nat \<Rightarrow> nat list \<Rightarrow> prevs \<Rightarrow> prevs \<Rightarrow> bool" where
  "prevs_upto h m xs prev prev' =
     (case prev of
        None \<Rightarrow> prev' = None
      | Some p \<Rightarrow> (\<exists>p'. prev' = Some p' \<and> length p' = length p \<and>
          (\<forall>n < m. p' ! n = Some (last (filter (\<lambda>y. n < h y) xs))) \<and> (\<forall>n \<ge> m. p' ! n = p ! n)))"

lemma prevs_upto_step:
  assumes "set_prev prev level x = Some q" "prevs_upto h level xs q prev'"
    "last (filter (\<lambda>y. level < h y) xs) = x"
  shows "prevs_upto h (Suc level) xs prev prev'"
  using assms by (cases prev) (auto simp: prevs_upto_def less_Suc_eq split: if_splits)

lemma prevs_upto_0: "prevs_upto h 0 xs prev prev"
  by (cases prev) (auto simp: prevs_upto_def)

lemma prevs_upto_skip:
  assumes "prevs_upto h m (y # ys) prev prev'" "\<forall>n < m. n < h y"
  shows "prevs_upto h m (x # as @ y # ys) prev prev'"
  using assms by (cases prev) (auto simp: prevs_upto_def)

lemma skip_walk_finds:
  assumes "linked l h (x # us @ bs) []" "level < h x" "\<forall>u \<in> set us. 0 < h u"
    and "\<forall>z \<in> set (x # us). \<forall>y \<in> set us. test z (Some y) = Some True"
    and "\<forall>z \<in> set (x # us). \<forall>y \<in> set bs. test z (Some y) = Some False"
    and "\<forall>z \<in> set (x # us). test z None = Some False"
    and "\<forall>p. prev = Some p \<longrightarrow> level < length p"
  shows "\<exists>prev'. skip_walk test l x level prev = Some (last (x # us), find (\<lambda>y. 0 < h y) bs, prev') \<and>
    prevs_upto h (Suc level) (x # us) prev prev'"
  using assms
proof (induction "level + length us" arbitrary: x us level prev rule: less_induct)
  case less
  have nxt: "node_Next l x level = Some (find (\<lambda>y. level < h y) (us @ bs))" using less.prems(1,2) by simp
  show ?case
  proof (cases "\<exists>u \<in> set us. level < h u")
    case True
    then obtain as y ws where us: "us = as @ y # ws" and y: "level < h y" and as: "\<forall>z \<in> set as. \<not> level < h z"
      using split_list_first_prop [of us "\<lambda>u. level < h u"] by blast
    have n: "node_Next l x level = Some (Some y)" unfolding nxt us using as y by (simp add: find_skip)
    have t: "test x (Some y) = Some True" using less.prems(4) us by simp
    have linked: "linked l h (y # ws @ bs) []" using less.prems(1) by (simp add: us linked_append)
    obtain prev' where p: "skip_walk test l y level prev = Some (last (y # ws), find (\<lambda>y. 0 < h y) bs, prev')"
      "prevs_upto h (Suc level) (y # ws) prev prev'"
      using less.hyps [of level ws y prev] linked y less.prems(3-7) us by force
    have "skip_walk test l x level prev = Some (last (x # us), find (\<lambda>y. 0 < h y) bs, prev')"
      by (subst skip_walk.simps) (simp add: n t p(1) us)
    moreover have "prevs_upto h (Suc level) (x # us) prev prev'"
      unfolding us by (rule prevs_upto_skip [OF p(2)]) (use y in auto)
    ultimately show ?thesis by blast
  next
    case False
    then have n: "node_Next l x level = Some (find (\<lambda>y. level < h y) bs)" unfolding nxt by (simp add: find_skip)
    have t: "test x (find (\<lambda>y. level < h y) bs) = Some False"
      using less.prems(5,6) by (cases "find (\<lambda>y. level < h y) bs") (auto dest: find_in)
    obtain q where q: "set_prev prev level x = Some q" "\<forall>p. q = Some p \<longrightarrow> level < length p"
      using less.prems(7) by (cases prev) auto
    have last: "last (filter (\<lambda>y. level < h y) (x # us)) = x"
      using False less.prems(2) by (simp add: filter_empty_conv)
    show ?thesis
    proof (cases level)
      case 0
      then have "us = []" using False less.prems(3) by (cases us) auto
      then have "skip_walk test l x level prev = Some (last (x # us), find (\<lambda>y. 0 < h y) bs, q)"
        by (subst skip_walk.simps) (use n t q(1) 0 in simp)
      moreover have "prevs_upto h (Suc level) (x # us) prev q"
        by (rule prevs_upto_step [OF q(1) _ last]) (simp add: 0 prevs_upto_0)
      ultimately show ?thesis by blast
    next
      case (Suc m)
      have m: "m + length us < level + length us" "m < h x" "\<forall>p. q = Some p \<longrightarrow> m < length p"
        using less.prems(2) q(2) Suc by auto
      then obtain prev' where p: "skip_walk test l x m q = Some (last (x # us), find (\<lambda>y. 0 < h y) bs, prev')"
        "prevs_upto h (Suc m) (x # us) q prev'"
        using less.hyps [OF m(1) less.prems(1) m(2) less.prems(3-6) m(3)] by blast
      have "skip_walk test l x level prev = Some (last (x # us), find (\<lambda>y. 0 < h y) bs, prev')"
        by (subst skip_walk.simps) (use n t q(1) p(1) Suc in simp)
      moreover have "prevs_upto h (Suc level) (x # us) prev prev'"
        by (rule prevs_upto_step [OF q(1) _ last]) (use p(2) Suc in simp)
      ultimately show ?thesis by blast
    qed
  qed
qed

subsection \<open>Linking one level\<close>

lemma node_Next_SetNext:
  "node_SetNext l x n p = Some l' \<Longrightarrow> node_Next l' z m = (if z = x \<and> m = n then Some p else node_Next l z m)"
  by (auto simp: node_SetNext_def node_Next_def nth_list_update split: if_splits)

definition height_of :: "'k skiplist \<Rightarrow> nat \<Rightarrow> nat" where "height_of l x = length (node_next (nodes l ! x))"

text \<open>A store changes nothing but one link.\<close>

definition same_nodes :: "'k skiplist \<Rightarrow> 'k skiplist \<Rightarrow> bool" where
  "same_nodes l l' \<longleftrightarrow> length (nodes l') = length (nodes l) \<and> key_at l' = key_at l \<and> height_of l' = height_of l \<and>
     max_height l' = max_height l \<and> rnd l' = rnd l"

lemma SetNext_same: "node_SetNext l x n p = Some l' \<Longrightarrow> same_nodes l l'"
  by (auto simp: node_SetNext_def same_nodes_def key_at_def height_of_def nth_list_update fun_eq_iff split: if_splits)

lemma same_nodes_trans: "same_nodes l l' \<Longrightarrow> same_nodes l' l'' \<Longrightarrow> same_nodes l l''"
  by (simp add: same_nodes_def)

lemma SetNext_defined: "x < length (nodes l) \<Longrightarrow> n < height_of l x \<Longrightarrow> \<exists>l'. node_SetNext l x n p = Some l'"
  by (simp add: node_SetNext_def height_of_def)

lemma Next_in: "node_Next l x n = Some p \<Longrightarrow> x < length (nodes l) \<and> n < height_of l x"
  by (auto simp: node_Next_def height_of_def split: if_splits)

lemma link_level_links:
  assumes links: "linked l h (as @ x # bs) []" and i: "h x = i" "\<exists>y \<in> set as. i < h y"
    and fresh: "x \<notin> set as" "x \<notin> set bs" "distinct (as @ bs)"
    and room: "x < length (nodes l)" "i < height_of l x"
    and prev: "i < length prev" "prev ! i = Some (last (filter (\<lambda>y. i < h y) as))"
  shows "\<exists>l1 l'. node_SetNext l x i (find (\<lambda>y. i < h y) bs) = Some l1 \<and> linked l1 h (as @ x # bs) [] \<and>
    link_level x prev i l = Some l' \<and> linked l' (h(x := Suc i)) (as @ x # bs) [] \<and> same_nodes l l1 \<and> same_nodes l l'"
proof -
  obtain as1 p as2 where as: "as = as1 @ p # as2" and p: "i < h p" and as2: "\<forall>y \<in> set as2. \<not> i < h y"
    using i(2) split_list_last_prop [of as "\<lambda>y. i < h y"] by blast
  have last: "prev ! i = Some p" using prev(2) p as2 by (simp add: as filter_empty_conv [THEN iffD2])
  have np: "node_Next l p i = Some (find (\<lambda>y. i < h y) bs)"
    using links p as2 i(1) by (simp add: as linked_append find_skip)
  obtain l1 where l1: "node_SetNext l x i (find (\<lambda>y. i < h y) bs) = Some l1" using SetNext_defined [OF room] by blast
  have s1: "same_nodes l l1" by (rule SetNext_same [OF l1])
  obtain l' where l': "node_SetNext l1 p i (Some x) = Some l'"
    using SetNext_defined [of p l1 i] Next_in [OF np] s1 by (auto simp: same_nodes_def)
  have "link_level x prev i l = Some l'" using prev(1) by (simp add: link_level_def last np l1 l')
  moreover have s: "same_nodes l l'" by (rule same_nodes_trans [OF s1 SetNext_same [OF l']])
  have px: "p \<noteq> x" using fresh(1) as by auto
  have nx: "node_Next l' z n = (if z = p \<and> n = i then Some (Some x)
      else if z = x \<and> n = i then Some (find (\<lambda>y. i < h y) bs) else node_Next l z n)" for z n
    using node_Next_SetNext [OF l1] node_Next_SetNext [OF l'] px by simp
  have other: "n \<noteq> i \<Longrightarrow> (n < (h(x := Suc i)) y) = (n < h y)" for n y using i(1) by auto
  let ?h = "h(x := Suc i)"
  have d: "p \<notin> set as1" "p \<notin> set as2" "p \<notin> set bs" using fresh(3) by (auto simp: as)
  have keep: "find (\<lambda>y. n < ?h y) bs = find (\<lambda>y. n < h y) bs" for n
    using fresh(2) by (intro find_cong) auto
  have 1: "linked l h as1 (p # as2 @ x # bs)" and 2: "\<forall>n < h p. node_Next l p n = Some (find (\<lambda>y. n < h y) (as2 @ x # bs))"
    and 3: "linked l h as2 (x # bs)" and 4: "\<forall>n < i. node_Next l x n = Some (find (\<lambda>y. n < h y) bs)"
    and 5: "linked l h bs []"
    using links i(1) by (simp_all add: as linked_append)
  have "linked l' ?h as1 (p # as2 @ x # bs)"
  proof (rule linked_agree [OF _ _ _ 1])
    fix z n assume z: "z \<in> set as1"
    show "?h z = h z" using z fresh(1) as by auto
    show "node_Next l' z n = node_Next l z n" using z d fresh(1) as by (auto simp: nx)
    show "find (\<lambda>y. n < ?h y) (p # as2 @ x # bs) = find (\<lambda>y. n < h y) (p # as2 @ x # bs)"
    proof (cases "n = i")
      case False
      show ?thesis by (simp only: other [OF False])
    qed (use p px in simp)
  qed
  moreover have "linked l' ?h as2 (x # bs)"
  proof (rule linked_agree [OF _ _ _ 3])
    fix z n assume z: "z \<in> set as2"
    show "?h z = h z" using z fresh(1) as by auto
    assume "n < h z"
    then have n: "n \<noteq> i" using z as2 by auto
    show "node_Next l' z n = node_Next l z n" using n by (simp add: nx)
    show "find (\<lambda>y. n < ?h y) (x # bs) = find (\<lambda>y. n < h y) (x # bs)" by (simp only: other [OF n])
  qed
  moreover have "linked l' ?h bs []"
  proof (rule linked_agree [OF _ _ _ 5])
    fix z n assume z: "z \<in> set bs"
    show "?h z = h z" using z fresh(2) by auto
    show "node_Next l' z n = node_Next l z n" using z d fresh(2) by (auto simp: nx)
  qed simp
  moreover have "\<forall>n < ?h p. node_Next l' p n = Some (find (\<lambda>y. n < ?h y) (as2 @ x # bs))"
  proof (intro allI impI)
    fix n assume n: "n < ?h p"
    show "node_Next l' p n = Some (find (\<lambda>y. n < ?h y) (as2 @ x # bs))"
    proof (cases "n = i")
      case True
      have "\<forall>y \<in> set as2. \<not> i < ?h y" using as2 fresh(1) as by auto
      then show ?thesis by (simp add: nx True find_skip)
    next
      case False
      have "node_Next l' p n = Some (find (\<lambda>y. n < h y) (as2 @ x # bs))" using 2 n px False by (simp add: nx)
      then show ?thesis by (simp only: other [OF False])
    qed
  qed
  moreover have "\<forall>n < ?h x. node_Next l' x n = Some (find (\<lambda>y. n < ?h y) bs)"
    using 4 px unfolding keep by (auto simp: nx less_Suc_eq)
  ultimately have "linked l' ?h (as @ x # bs) []" by (simp add: as linked_append)
  moreover have "linked l1 h (as @ x # bs) []"
  proof (rule linked_agree [OF _ _ _ links])
    fix z n assume "z \<in> set (as @ x # bs)" "n < h z"
    then show "node_Next l1 z n = node_Next l z n" using i(1) by (auto simp: node_Next_SetNext [OF l1])
  qed simp_all
  ultimately show ?thesis using l1 s1 s \<open>link_level x prev i l = Some l'\<close> by blast
qed

subsection \<open>What a skip list represents\<close>

definition skip_rep ::
  "'k kcompare \<Rightarrow> ('k \<Rightarrow> bool) \<Rightarrow> 'k skiplist \<Rightarrow> (nat \<Rightarrow> nat) \<Rightarrow> nat list \<Rightarrow> 'k list \<Rightarrow> bool" where
  "skip_rep cmp valid l h xs ks \<longleftrightarrow>
     linked l h (0 # xs) [] \<and> distinct (0 # xs) \<and> map (key_at l) xs = map Some ks \<and>
     sorted_wrt (before cmp) ks \<and> (\<forall>k \<in> set ks. valid k) \<and>
     1 \<le> max_height l \<and> max_height l \<le> kMaxHeight \<and> h 0 = kMaxHeight \<and> 0 < length (nodes l) \<and>
     (\<forall>x \<in> set xs. 0 < h x \<and> h x \<le> max_height l)"

definition pos :: "nat list \<Rightarrow> nat \<Rightarrow> ptr" where "pos xs i = (if i < length xs then Some (xs ! i) else None)"

lemma first_of_drop: "first_of (drop i xs) = pos xs i"
  by (cases "i < length xs") (simp_all add: first_of_def pos_def Cons_nth_drop_Suc [symmetric])

lemma rep_length: "skip_rep cmp valid l h xs ks \<Longrightarrow> length ks = length xs"
  unfolding skip_rep_def by (metis length_map)

lemma rep_key: "skip_rep cmp valid l h xs ks \<Longrightarrow> i < length xs \<Longrightarrow> key_at l (xs ! i) = Some (ks ! i)"
  using rep_length [of cmp valid l h xs ks] unfolding skip_rep_def by (metis nth_map)

lemma rep_empty: "skip_rep cmp valid (SkipList any) (\<lambda>x. if x = 0 then kMaxHeight else 0) [] []"
  by (simp add: skip_rep_def SkipList_def node_Next_def kMaxHeight_def)

text \<open>The place of a key in a sorted list.\<close>

definition place :: "'k kcompare \<Rightarrow> 'k list \<Rightarrow> 'k \<Rightarrow> nat" where
  "place cmp ks k = length (takeWhile (\<lambda>a. before cmp a k) ks)"

lemma place_le: "place cmp ks k \<le> length ks"
  by (simp add: place_def length_takeWhile_le)

lemma place_before: "i < place cmp ks k \<Longrightarrow> before cmp (ks ! i) k"
  unfolding place_def by (metis nth_mem set_takeWhileD takeWhile_nth)

definition add_key :: "'k kcompare \<Rightarrow> 'k \<Rightarrow> 'k list \<Rightarrow> 'k list" where
  "add_key cmp k ks = take (place cmp ks k) ks @ k # drop (place cmp ks k) ks"

lemma set_add_key: "set (add_key cmp k ks) = insert k (set ks)"
proof -
  have "set (take n ks) \<union> set (drop n ks) = set ks" for n by (metis append_take_drop_id set_append)
  then show ?thesis unfolding add_key_def by auto
qed

lemma in_take: "u \<in> set (take n xs) \<Longrightarrow> \<exists>i < length xs. i < n \<and> u = xs ! i"
  by (auto simp: in_set_conv_nth)

lemma in_drop: "u \<in> set (drop n xs) \<Longrightarrow> \<exists>i < length xs. n \<le> i \<and> u = xs ! i"
proof -
  assume "u \<in> set (drop n xs)"
  then obtain j where "j < length (drop n xs)" "u = drop n xs ! j" by (auto simp: in_set_conv_nth)
  then show ?thesis by (intro exI [of _ "n + j"]) auto
qed

text \<open>What an insertion has before its stores: a fresh node, and the right predecessor at every level it links.\<close>

definition prepared :: "(nat \<Rightarrow> nat) \<Rightarrow> nat list \<Rightarrow> nat \<Rightarrow> 'k \<Rightarrow> nat \<times> nat option list \<times> nat \<times> 'k skiplist \<Rightarrow> bool" where
  "prepared h xs n k = (\<lambda>(x, prev, height, l).
     x \<notin> set xs \<and> x \<noteq> 0 \<and> x < length (nodes l) \<and> height_of l x = height \<and> key_at l x = Some k \<and>
     1 \<le> height \<and> height \<le> max_height l \<and> height \<le> length prev \<and>
     (\<forall>i < height. prev ! i = Some (last (filter (\<lambda>y. i < h y) (0 # take n xs)))))"

lemma raise_prev:
  "length (fold (\<lambda>i p. p[i := Some v]) is p) = length p"
  "n < length p \<Longrightarrow> fold (\<lambda>i p. p[i := Some v]) is p ! n = (if n \<in> set is then Some v else p ! n)"
  by (induction "is" arbitrary: p) (auto simp: nth_list_update)

lemma link_levels_append:
  "link_levels x prev (is @ js) l = do { l' \<leftarrow> link_levels x prev is l; link_levels x prev js l' }"
  by (induction "is" arbitrary: l) (auto split: Option.bind_splits)

context key_order
begin

lemma place_after:
  assumes "sorted_wrt (before kcmp) ks" "\<forall>k \<in> set ks. valid k" "valid k" "place kcmp ks k \<le> i" "i < length ks"
  shows "\<not> before kcmp (ks ! i) k"
proof
  assume b: "before kcmp (ks ! i) k"
  let ?n = "place kcmp ks k"
  have n: "?n < length ks" using assms(4,5) by simp
  have stop: "\<not> before kcmp (ks ! ?n) k" using n nth_length_takeWhile unfolding place_def by metis
  then have "?n < i" using b assms(4) by (cases "?n = i") auto
  then have "before kcmp (ks ! ?n) (ks ! i)" using assms(1,5) by (simp add: sorted_wrt_nth_less)
  then show False using stop b trans [of "ks ! ?n" "ks ! i" k] assms n by auto
qed

lemma place_nth:
  assumes "sorted_wrt (before kcmp) ks" "\<forall>k \<in> set ks. valid k" "i < length ks"
  shows "place kcmp ks (ks ! i) = i"
proof (rule ccontr)
  have v: "valid (ks ! i)" using assms by auto
  have irrefl: "\<not> before kcmp (ks ! i) (ks ! i)" using asym [OF v v] by blast
  assume "place kcmp ks (ks ! i) \<noteq> i"
  then consider "place kcmp ks (ks ! i) < i" | "i < place kcmp ks (ks ! i)" by linarith
  then show False
  proof cases
    case 1
    then show False
      using place_after [OF assms(1,2) v, of "place kcmp ks (ks ! i)"] assms(1,3) by (simp add: sorted_wrt_nth_less)
  next
    case 2
    then show False using place_before [OF 2] irrefl by blast
  qed
qed

lemma add_key_sorted:
  assumes s: "sorted_wrt (before kcmp) ks" "\<forall>k \<in> set ks. valid k" "valid k" and new: "\<forall>a \<in> set ks. kcmp k a \<noteq> Some 0"
  shows "sorted_wrt (before kcmp) (add_key kcmp k ks)"
proof -
  let ?n = "place kcmp ks k"
  have 1: "before kcmp a k" if "a \<in> set (take ?n ks)" for a
    using that place_before by (fastforce simp: in_set_conv_nth)
  have 2: "before kcmp k a" if mem: "a \<in> set (drop ?n ks)" for a
  proof -
    obtain i where i: "i < length ks" "?n \<le> i" "a = ks ! i" using in_drop [OF mem] by blast
    then have "\<not> before kcmp a k" using place_after [OF s, of i] by simp
    then show ?thesis using same [of k a] new i s by auto
  qed
  have "sorted_wrt (before kcmp) (take ?n ks @ drop ?n ks)" using s(1) by simp
  then show ?thesis unfolding add_key_def sorted_wrt_append using 1 2 by simp
qed

text \<open>The tests of the searches along the nodes of a represented list.\<close>

lemma KeyIsAfterNode_rep:
  assumes "skip_rep kcmp valid l h xs ks" "valid k" "i < length xs"
  shows "KeyIsAfterNode kcmp l k (Some (xs ! i)) = Some (i < place kcmp ks k)"
proof -
  have i: "i < length ks" and v: "valid (ks ! i)" using assms rep_length [OF assms(1)] by (auto simp: skip_rep_def)
  have s: "sorted_wrt (before kcmp) ks" "\<forall>k \<in> set ks. valid k" using assms(1) by (simp_all add: skip_rep_def)
  have "before kcmp (ks ! i) k \<longleftrightarrow> i < place kcmp ks k"
    using place_before [of i kcmp ks k] place_after [OF s assms(2) _ i] by (meson not_less)
  then show ?thesis
    using defined [OF v assms(2)] rep_key [OF assms(1,3)] by (auto simp: KeyIsAfterNode_def before_def)
qed

lemma FindGreaterOrEqual_rep:
  assumes rep: "skip_rep kcmp valid l h xs ks" and k: "valid k" and p: "\<forall>p. prev = Some p \<longrightarrow> max_height l \<le> length p"
  shows "\<exists>prev'. FindGreaterOrEqual kcmp l k prev = Some (pos xs (place kcmp ks k), prev') \<and>
    prevs_upto h (max_height l) (0 # take (place kcmp ks k) xs) prev prev'"
proof -
  let ?n = "place kcmp ks k"
  have r: "linked l h (0 # take ?n xs @ drop ?n xs) []" "1 \<le> max_height l" "max_height l - 1 < h 0"
    using rep by (auto simp: skip_rep_def kMaxHeight_def)
  have hs: "\<forall>x \<in> set xs. 0 < h x" using rep by (simp add: skip_rep_def)
  let ?t = "\<lambda>x. KeyIsAfterNode kcmp l k"
  have t1: "\<forall>z \<in> set (0 # take ?n xs). \<forall>y \<in> set (take ?n xs). ?t z (Some y) = Some True"
    using in_take KeyIsAfterNode_rep [OF rep k] by metis
  have t2: "\<forall>z \<in> set (0 # take ?n xs). \<forall>y \<in> set (drop ?n xs). ?t z (Some y) = Some False"
    using in_drop KeyIsAfterNode_rep [OF rep k] by (metis not_less)
  have t3: "\<forall>z \<in> set (0 # take ?n xs). ?t z None = Some False" by (simp add: KeyIsAfterNode_def)
  have h1: "\<forall>u \<in> set (take ?n xs). 0 < h u" using hs by (auto dest: in_set_takeD)
  have h2: "\<forall>p. prev = Some p \<longrightarrow> max_height l - 1 < length p" using p r(2) by force
  obtain prev' where "skip_walk (\<lambda>x. KeyIsAfterNode kcmp l k) l 0 (max_height l - 1) prev =
      Some (last (0 # take ?n xs), find (\<lambda>y. 0 < h y) (drop ?n xs), prev')"
    "prevs_upto h (Suc (max_height l - 1)) (0 # take ?n xs) prev prev'"
    using skip_walk_finds [OF r(1,3) h1 t1 t2 t3 h2] by blast
  moreover have "find (\<lambda>y. 0 < h y) (drop ?n xs) = pos xs ?n"
    using hs by (subst find_first) (auto dest: in_set_dropD simp: first_of_drop)
  ultimately show ?thesis using r(2) by (simp add: FindGreaterOrEqual_def)
qed

lemma insert_prepare_rep:
  assumes rep: "skip_rep kcmp valid l h xs ks" and k: "valid k" and new: "\<forall>a \<in> set ks. kcmp k a \<noteq> Some 0"
  shows "\<exists>x prev height l0. insert_prepare kcmp l k = Some (x, prev, height, l0) \<and>
    prepared h xs (place kcmp ks k) k (x, prev, height, l0) \<and> skip_rep kcmp valid l0 (h(x := 0)) xs ks"
proof -
  let ?n = "place kcmp ks k"
  obtain p where f: "FindGreaterOrEqual kcmp l k (Some (replicate kMaxHeight None)) = Some (pos xs ?n, Some p)"
    and p: "length p = kMaxHeight" "\<forall>i < max_height l. p ! i = Some (last (filter (\<lambda>y. i < h y) (0 # take ?n xs)))"
    using FindGreaterOrEqual_rep [OF rep k, of "Some (replicate kMaxHeight None)"] rep
    by (auto simp: prevs_upto_def skip_rep_def)
  have nodup: "(case pos xs ?n of None \<Rightarrow> Some False | Some y \<Rightarrow> do { ky \<leftarrow> key_at l y; Equal kcmp k ky }) = Some False"
  proof (cases "?n < length xs")
    case True
    then have m: "ks ! ?n \<in> set ks" using rep_length [OF rep] by simp
    then have "valid (ks ! ?n)" using rep by (simp add: skip_rep_def)
    then obtain c where "kcmp k (ks ! ?n) = Some c" using defined [OF k] by blast
    then show ?thesis using rep_key [OF rep True] new m True by (auto simp: pos_def Equal_def)
  qed (simp add: pos_def)
  obtain height seed where rh: "RandomHeight (rnd l) = (height, seed)" by (cases "RandomHeight (rnd l)")
  have height: "1 \<le> height" "height \<le> kMaxHeight" using RandomHeight_range [of "rnd l"] by (simp_all add: rh)
  define q where "q = (if max_height l < height then fold (\<lambda>i p. p[i := Some 0]) [max_height l..<height] p else p)"
  let ?x = "length (nodes l)"
  define l0 where "l0 = l\<lparr>rnd := seed, max_height := max (max_height l) height,
    nodes := nodes l @ [\<lparr>node_key = k, node_next = replicate height None\<rparr>]\<rparr>"
  have prep: "insert_prepare kcmp l k = Some (?x, q, height, l0)"
    by (simp add: insert_prepare_def f nodup rh NewNode_def q_def l0_def max_def)
  have keys: "key_at l0 y = key_at l y" if "y \<noteq> ?x" for y using that by (auto simp: key_at_def l0_def nth_append)
  have in_nodes: "y < ?x" if "y \<in> set (0 # xs)" for y
  proof (cases "y = 0")
    case True
    then show ?thesis using rep by (simp add: skip_rep_def)
  next
    case False
    then have "y \<in> set xs" using that by simp
    then obtain i where "i < length xs" "y = xs ! i" by (auto simp: in_set_conv_nth)
    then have "key_at l y = Some (ks ! i)" using rep_key [OF rep] by simp
    then show ?thesis by (simp add: key_at_def split: if_splits)
  qed
  have fresh: "?x \<notin> set (0 # xs)" using in_nodes by blast
  have nxt: "node_Next l0 z i = node_Next l z i" if "z < ?x" for z i
    using that by (simp add: node_Next_def l0_def nth_append)
  have low: "filter (\<lambda>y. i < h y) (0 # take ?n xs) = [0]" if "max_height l \<le> i" "i < height" for i
    using rep that height(2) by (auto simp: skip_rep_def filter_empty_conv dest!: in_set_takeD)
  have q: "\<forall>i < height. q ! i = Some (last (filter (\<lambda>y. i < h y) (0 # take ?n xs)))"
  proof (intro allI impI)
    fix i assume i: "i < height"
    then have "i < length p" using height(2) p(1) by simp
    then show "q ! i = Some (last (filter (\<lambda>y. i < h y) (0 # take ?n xs)))"
      using i p(2) low [of i] by (cases "max_height l \<le> i") (simp_all add: q_def raise_prev)
  qed
  have "prepared h xs ?n k (?x, q, height, l0)"
    using fresh q height p(1) by (auto simp: prepared_def height_of_def key_at_def q_def raise_prev l0_def)
  moreover have "skip_rep kcmp valid l0 (h(?x := 0)) xs ks"
  proof -
    have "linked l0 (h(?x := 0)) (0 # xs) []"
    proof (rule linked_agree [where h = h and l = l and r = "[]"])
      fix z n assume z: "z \<in> set (0 # xs)"
      then show "(h(?x := 0)) z = h z" using fresh by auto
      show "node_Next l0 z n = node_Next l z n" using in_nodes [OF z] by (rule nxt)
    qed (use rep in \<open>simp_all add: skip_rep_def\<close>)
    moreover have "map (key_at l0) xs = map (key_at l) xs" using fresh keys by (intro map_cong refl) (metis list.set_intros(2))
    moreover have "max_height l0 = max (max_height l) height" "0 < length (nodes l0)" by (simp_all add: l0_def)
    moreover have "\<forall>y \<in> set xs. 0 < (h(?x := 0)) y \<and> (h(?x := 0)) y \<le> max (max_height l) height" "(h(?x := 0)) 0 = h 0"
      using rep fresh unfolding skip_rep_def by (auto simp: le_max_iff_disj)
    ultimately show ?thesis
      using rep height(2) unfolding skip_rep_def by (metis (no_types) max.bounded_iff max.coboundedI1)
  qed
  ultimately show ?thesis using prep by blast
qed

lemma link_levels_links:
  assumes prep: "prepared h xs n k (x, prev, height, l0)" and links: "linked l0 (h(x := 0)) (0 # take n xs @ x # drop n xs) []"
    and d: "distinct (0 # xs)" and top: "height \<le> h 0"
  shows "j \<le> height \<Longrightarrow> \<exists>l. link_levels x prev [0..<j] l0 = Some l \<and> same_nodes l0 l \<and>
    linked l (h(x := j)) (0 # take n xs @ x # drop n xs) [] \<and>
    (j < height \<longrightarrow> (\<exists>l1 l2. node_SetNext l x j (find (\<lambda>y. j < (h(x := j)) y) (drop n xs)) = Some l1 \<and> same_nodes l0 l1 \<and>
      linked l1 (h(x := j)) (0 # take n xs @ x # drop n xs) [] \<and> link_level x prev j l = Some l2 \<and> same_nodes l0 l2 \<and>
      linked l2 (h(x := Suc j)) (0 # take n xs @ x # drop n xs) []))"
proof (induction j)
  have p: "x \<notin> set (take n xs)" "x \<notin> set (drop n xs)" "x \<noteq> 0" "x < length (nodes l0)" "height_of l0 x = height"
    "height \<le> length prev" "\<forall>i < height. prev ! i = Some (last (filter (\<lambda>y. i < h y) (0 # take n xs)))"
    using prep by (auto simp: prepared_def dest: in_set_takeD in_set_dropD)
  have dist: "distinct ((0 # take n xs) @ drop n xs)" using d by auto
  have next_level: "\<exists>l1 l2. node_SetNext l x j (find (\<lambda>y. j < (h(x := j)) y) (drop n xs)) = Some l1 \<and> same_nodes l0 l1 \<and>
      linked l1 (h(x := j)) (0 # take n xs @ x # drop n xs) [] \<and> link_level x prev j l = Some l2 \<and> same_nodes l0 l2 \<and>
      linked l2 (h(x := Suc j)) (0 # take n xs @ x # drop n xs) []"
    if l: "linked l (h(x := j)) (0 # take n xs @ x # drop n xs) []" "same_nodes l0 l" and j: "j < height" for l j
  proof -
    have f: "filter (\<lambda>y. j < (h(x := j)) y) (0 # take n xs) = filter (\<lambda>y. j < h y) (0 # take n xs)"
      using p(1,3) by (intro filter_cong) auto
    have 1: "linked l (h(x := j)) ((0 # take n xs) @ x # drop n xs) []" using l(1) by simp
    have 2: "\<exists>y \<in> set (0 # take n xs). j < (h(x := j)) y" using top j p(3) by auto
    have 3: "x \<notin> set (0 # take n xs)" using p by simp
    have 4: "x < length (nodes l)" "j < height_of l x" using l(2) p(4,5) j by (simp_all add: same_nodes_def)
    have 5: "j < length prev" "prev ! j = Some (last (filter (\<lambda>y. j < (h(x := j)) y) (0 # take n xs)))"
      unfolding f using p(6,7) j by simp_all
    have 6: "(h(x := j)) x = j" by simp
    obtain l1 l2 where "node_SetNext l x j (find (\<lambda>y. j < (h(x := j)) y) (drop n xs)) = Some l1" "same_nodes l l1"
      "linked l1 (h(x := j)) (0 # take n xs @ x # drop n xs) []" "link_level x prev j l = Some l2" "same_nodes l l2"
      "linked l2 (h(x := Suc j)) (0 # take n xs @ x # drop n xs) []"
      using link_level_links [OF 1 6 2 3 p(2) dist 4 5] unfolding fun_upd_upd append_Cons by blast
    then show ?thesis using same_nodes_trans [OF l(2)] by blast
  qed
  {
    case 0
    have "same_nodes l0 l0" by (simp add: same_nodes_def)
    moreover have "link_levels x prev [0..<0] l0 = Some l0" by simp
    ultimately show ?case using next_level [OF links] links by blast
  next
    case (Suc j)
    then obtain l l2 where l: "link_levels x prev [0..<j] l0 = Some l" "link_level x prev j l = Some l2" "same_nodes l0 l2"
      "linked l2 (h(x := Suc j)) (0 # take n xs @ x # drop n xs) []" by (meson Suc_le_eq less_imp_le)
    then have "link_levels x prev [0..<Suc j] l0 = Some l2" by (simp add: link_levels_append)
    then show ?case using l next_level [OF l(4,3)] by blast
  }
qed

text \<open>A node that is not linked at any level is not seen; one that is linked at level 0 is in the list.\<close>

lemma linked_without:
  assumes "linked l h (as @ x # bs) []" "h x = 0"
  shows "linked l h (as @ bs) []"
proof -
  have 1: "linked l h as (x # bs)" and 2: "linked l h bs []" using assms(1) by (simp_all add: linked_append)
  have "linked l h as bs" by (rule linked_agree [OF _ _ _ 1]) (use assms(2) in simp_all)
  then show ?thesis using 2 by (simp add: linked_append)
qed

lemma insertion_rep:
  assumes rep: "skip_rep kcmp valid l0 (h(x := 0)) xs ks" and k: "valid k" and new: "\<forall>a \<in> set ks. kcmp k a \<noteq> Some 0"
    and prep: "prepared h xs (place kcmp ks k) k (x, prev, height, l0)" and j: "j \<le> height"
    and l: "same_nodes l0 l" "linked l (h(x := j)) (0 # take (place kcmp ks k) xs @ x # drop (place kcmp ks k) xs) []"
  shows "\<exists>h' xs'. skip_rep kcmp valid l h' xs' (if j = 0 then ks else add_key kcmp k ks)"
proof (cases j)
  let ?n = "place kcmp ks k"
  have x: "x \<notin> set xs" "x \<noteq> 0" "x < length (nodes l0)" "key_at l0 x = Some k" "height \<le> max_height l0"
    using prep by (auto simp: prepared_def)
  have same: "length (nodes l) = length (nodes l0)" "key_at l = key_at l0" "max_height l = max_height l0"
    using l(1) by (simp_all add: same_nodes_def)
  {
    case 0
    have "linked l (h(x := 0)) ((0 # take ?n xs) @ x # drop ?n xs) []" using l(2) unfolding 0 append_Cons .
    then have "linked l (h(x := 0)) ((0 # take ?n xs) @ drop ?n xs) []" by (rule linked_without) simp
    then have "skip_rep kcmp valid l (h(x := 0)) xs ks"
      using rep unfolding skip_rep_def same append_Cons append_take_drop_id by blast
    then show ?thesis using 0 by auto
  next
    case (Suc i)
    let ?xs = "take ?n xs @ x # drop ?n xs"
    have len: "length xs = length ks" using rep_length [OF rep] by simp
    have ok: "map (key_at l0) xs = map Some ks" "sorted_wrt (before kcmp) ks" "\<forall>k \<in> set ks. valid k" "distinct xs" "0 \<notin> set xs"
      "\<forall>y \<in> set xs. 0 < h y \<and> h y \<le> max_height l0" "h 0 = kMaxHeight"
      using rep x(1,2) by (auto simp: skip_rep_def fun_upd_def split: if_splits)
    have "map (key_at l0) (take ?n xs) = map Some (take ?n ks)" "map (key_at l0) (drop ?n xs) = map Some (drop ?n ks)"
      using ok(1) by (simp_all add: take_map [symmetric] drop_map [symmetric])
    then have "map (key_at l) ?xs = map Some (add_key kcmp k ks)" by (simp add: same(2) x(4) add_key_def)
    moreover have "distinct (0 # ?xs)"
    proof -
      have "distinct (take ?n xs @ drop ?n xs)" using ok(4) unfolding append_take_drop_id .
      then have "distinct ?xs" using x(1) unfolding distinct_append by (auto dest: in_set_takeD in_set_dropD)
      then show ?thesis using ok(5) x(2) by (auto dest: in_set_takeD in_set_dropD)
    qed
    moreover have "sorted_wrt (before kcmp) (add_key kcmp k ks)" using add_key_sorted [OF ok(2,3) k new] .
    moreover have "\<forall>k' \<in> set (add_key kcmp k ks). valid k'" using ok(3) k by (simp add: set_add_key)
    moreover have "\<forall>y \<in> set ?xs. 0 < (h(x := j)) y \<and> (h(x := j)) y \<le> max_height l"
      using ok(6) j x(1,5) Suc by (auto simp: same dest: in_set_takeD in_set_dropD)
    ultimately have "skip_rep kcmp valid l (h(x := j)) ?xs (add_key kcmp k ks)"
      using rep l(2) x(2) ok(7) by (simp add: skip_rep_def same)
    then show ?thesis using Suc by auto
  }
qed

text \<open>Every state between two stores of an insertion represents the old keys or the new ones.\<close>

lemma insert_states:
  assumes rep: "skip_rep kcmp valid l h xs ks" and k: "valid k" and new: "\<forall>a \<in> set ks. kcmp k a \<noteq> Some 0"
    and prep: "insert_prepare kcmp l k = Some (x, prev, height, l0)" and j: "j \<le> height"
  shows "\<exists>lj. link_levels x prev [0..<j] l0 = Some lj \<and>
    (\<exists>h' xs'. skip_rep kcmp valid lj h' xs' (if j = 0 then ks else add_key kcmp k ks)) \<and>
    (j < height \<longrightarrow> (\<exists>nxt l1. node_SetNext lj x j nxt = Some l1 \<and>
      (\<exists>h' xs'. skip_rep kcmp valid l1 h' xs' (if j = 0 then ks else add_key kcmp k ks)) \<and>
      (\<exists>p l2. prev ! j = Some p \<and> node_Next lj p j = Some nxt \<and> node_SetNext l1 p j (Some x) = Some l2 \<and>
        link_level x prev j lj = Some l2)))"
proof -
  have p: "prepared h xs (place kcmp ks k) k (x, prev, height, l0)" and r: "skip_rep kcmp valid l0 (h(x := 0)) xs ks"
    using insert_prepare_rep [OF rep k new] prep by auto
  let ?all = "0 # take (place kcmp ks k) xs @ x # drop (place kcmp ks k) xs"
  have x: "x \<notin> set xs" "x \<noteq> 0" using p by (auto simp: prepared_def)
  have links: "linked l0 (h(x := 0)) ?all []"
  proof -
    let ?n = "place kcmp ks k"
    have "linked l0 (h(x := 0)) ((0 # take ?n xs) @ drop ?n xs) []"
      using r unfolding skip_rep_def append_Cons append_take_drop_id by blast
    then have 1: "linked l0 (h(x := 0)) (0 # take ?n xs) (drop ?n xs)" and 2: "linked l0 (h(x := 0)) (drop ?n xs) []"
      unfolding linked_append by simp_all
    have "linked l0 (h(x := 0)) (0 # take ?n xs) (x # drop ?n xs)" by (rule linked_agree [OF _ _ _ 1]) simp_all
    moreover have "linked l0 (h(x := 0)) (x # drop ?n xs) []" using 2 by simp
    ultimately have "linked l0 (h(x := 0)) ((0 # take ?n xs) @ x # drop ?n xs) []"
      unfolding linked_append by (simp only: append_Nil2 simp_thms)
    then show ?thesis by (simp only: append_Cons)
  qed
  have d: "distinct (0 # xs)" and top: "height \<le> h 0"
    using r p x(2) by (auto simp: skip_rep_def prepared_def)
  obtain lj where lj: "link_levels x prev [0..<j] l0 = Some lj" "same_nodes l0 lj" "linked lj (h(x := j)) ?all []"
    and more: "j < height \<Longrightarrow> \<exists>l1 l2. node_SetNext lj x j (find (\<lambda>y. j < (h(x := j)) y) (drop (place kcmp ks k) xs)) = Some l1 \<and>
      same_nodes l0 l1 \<and> linked l1 (h(x := j)) ?all [] \<and> link_level x prev j lj = Some l2"
    using link_levels_links [OF p links d top j] by blast
  have "\<exists>nxt l1. node_SetNext lj x j nxt = Some l1 \<and>
      (\<exists>h' xs'. skip_rep kcmp valid l1 h' xs' (if j = 0 then ks else add_key kcmp k ks)) \<and>
      (\<exists>p l2. prev ! j = Some p \<and> node_Next lj p j = Some nxt \<and> node_SetNext l1 p j (Some x) = Some l2 \<and>
        link_level x prev j lj = Some l2)" if below: "j < height"
  proof -
    obtain l2 where "link_level x prev j lj = Some l2" using more [OF below] by blast
    then obtain q nxt l1 where q: "prev ! j = Some q" "node_Next lj q j = Some nxt" "node_SetNext lj x j nxt = Some l1"
      "node_SetNext l1 q j (Some x) = Some l2" "link_level x prev j lj = Some l2"
      by (auto simp: link_level_def split: Option.bind_splits if_splits)
    have "linked l1 (h(x := j)) ?all []"
    proof (rule linked_agree [OF _ _ _ lj(3)])
      fix z n assume "z \<in> set ?all" "n < (h(x := j)) z"
      then show "node_Next l1 z n = node_Next lj z n" using x by (auto simp: node_Next_SetNext [OF q(3)] split: if_splits)
    qed simp_all
    from insertion_rep [OF r k new p j same_nodes_trans [OF lj(2) SetNext_same [OF q(3)]] this] show ?thesis using q by blast
  qed
  then show ?thesis using lj(1) insertion_rep [OF r k new p j lj(2,3)] by blast
qed

lemma SkipList_Insert_rep:
  assumes "skip_rep kcmp valid l h xs ks" "valid k" "\<forall>a \<in> set ks. kcmp k a \<noteq> Some 0"
  shows "\<exists>l' h' xs'. SkipList_Insert kcmp l k = Some l' \<and> skip_rep kcmp valid l' h' xs' (add_key kcmp k ks)"
proof -
  obtain x prev height l0 where prep: "insert_prepare kcmp l k = Some (x, prev, height, l0)"
    "prepared h xs (place kcmp ks k) k (x, prev, height, l0)"
    using insert_prepare_rep [OF assms] by blast
  then have "height \<noteq> 0" by (simp add: prepared_def)
  then show ?thesis using insert_states [OF assms prep(1) order_refl] prep(1) by (auto simp: SkipList_Insert_def)
qed

subsection \<open>Membership and iteration\<close>

lemma Contains_rep:
  assumes rep: "skip_rep kcmp valid l h xs ks" and k: "valid k"
  shows "Contains kcmp l k = Some (\<exists>a \<in> set ks. kcmp k a = Some 0)"
proof -
  let ?n = "place kcmp ks k"
  have s: "sorted_wrt (before kcmp) ks" "\<forall>k \<in> set ks. valid k" using rep by (simp_all add: skip_rep_def)
  have f: "map_option fst (FindGreaterOrEqual kcmp l k None) = Some (pos xs ?n)"
    using FindGreaterOrEqual_rep [OF rep k, of None] by auto
  have at: "i = ?n" if "i < length ks" "kcmp k (ks ! i) = Some 0" for i
  proof -
    have v: "valid (ks ! i)" using s(2) that(1) by simp
    have nb: "\<not> before kcmp k (ks ! i)" "\<not> before kcmp (ks ! i) k" using same [OF k v] that(2) by simp_all
    have "\<not> i < ?n" using place_before [of i kcmp ks k] nb(2) by blast
    moreover have "\<not> ?n < i"
    proof
      assume n: "?n < i"
      then have b: "before kcmp (ks ! ?n) (ks ! i)" using s(1) that(1) by (simp add: sorted_wrt_nth_less)
      have vn: "valid (ks ! ?n)" using s(2) n that(1) by simp
      have "\<not> before kcmp (ks ! ?n) k" using place_after [OF s k, of ?n] n that(1) by simp
      then show False using not_before [OF vn k v] nb(1) b by blast
    qed
    ultimately show ?thesis by simp
  qed
  show ?thesis
  proof (cases "?n < length xs")
    case True
    then have n: "?n < length ks" using rep_length [OF rep] by simp
    then have "valid (ks ! ?n)" using s(2) by simp
    then obtain c where c: "kcmp k (ks ! ?n) = Some c" using defined [OF k] by blast
    have "(\<exists>a \<in> set ks. kcmp k a = Some 0) \<longleftrightarrow> c = 0"
    proof
      assume "\<exists>a \<in> set ks. kcmp k a = Some 0"
      then obtain i where "i < length ks" "kcmp k (ks ! i) = Some 0" by (metis in_set_conv_nth)
      then show "c = 0" using at [of i] c by simp
    next
      assume "c = 0"
      then show "\<exists>a \<in> set ks. kcmp k a = Some 0" using n c by (intro bexI [of _ "ks ! ?n"]) simp_all
    qed
    then show ?thesis using f rep_key [OF rep True] c True by (auto simp: Contains_def pos_def Equal_def)
  next
    case False
    then have "\<not> (\<exists>a \<in> set ks. kcmp k a = Some 0)" using at rep_length [OF rep] by (auto simp: in_set_conv_nth)
    then show ?thesis using f False by (auto simp: Contains_def pos_def)
  qed
qed

text \<open>The iterator is a cursor on the list of keys.\<close>

lemma SkipIter_key_rep: "skip_rep kcmp valid l h xs ks \<Longrightarrow> i < length ks \<Longrightarrow> SkipIter_key l (pos xs i) = Some (ks ! i)"
  using rep_key [of kcmp valid l h xs ks i] rep_length [of kcmp valid l h xs ks] by (simp add: SkipIter_key_def pos_def)

lemma SkipIter_Valid_rep: "skip_rep kcmp valid l h xs ks \<Longrightarrow> SkipIter_Valid (pos xs i) \<longleftrightarrow> i < length ks"
  using rep_length [of kcmp valid l h xs ks] by (simp add: SkipIter_Valid_def pos_def)

lemma SkipIter_Seek_rep:
  "skip_rep kcmp valid l h xs ks \<Longrightarrow> valid k \<Longrightarrow> SkipIter_Seek kcmp l k = Some (pos xs (place kcmp ks k))"
  using FindGreaterOrEqual_rep [of l h xs ks k None] by (auto simp: SkipIter_Seek_def)

lemma SkipIter_SeekToFirst_rep: "skip_rep kcmp valid l h xs ks \<Longrightarrow> SkipIter_SeekToFirst l = Some (pos xs 0)"
  using find_first [of xs "\<lambda>y. 0 < h y"] first_of_drop [of 0 xs]
  by (auto simp: skip_rep_def SkipIter_SeekToFirst_def kMaxHeight_def)

lemma SkipIter_Next_rep:
  assumes rep: "skip_rep kcmp valid l h xs ks" and i: "i < length ks"
  shows "SkipIter_Next l (pos xs i) = Some (pos xs (Suc i))"
proof -
  have x: "i < length xs" using rep_length [OF rep] i by simp
  have "linked l h (0 # (take i xs @ xs ! i # drop (Suc i) xs)) []" using rep x by (simp add: skip_rep_def id_take_nth_drop [symmetric])
  then have "\<forall>n < h (xs ! i). node_Next l (xs ! i) n = Some (find (\<lambda>y. n < h y) (drop (Suc i) xs))"
    by (simp add: linked_append)
  moreover have hs: "\<forall>y \<in> set xs. 0 < h y" using rep by (simp add: skip_rep_def)
  ultimately have "node_Next l (xs ! i) 0 = Some (first_of (drop (Suc i) xs))"
    using x by (simp add: find_first in_set_dropD)
  then show ?thesis using x by (simp add: SkipIter_Next_def pos_def [of xs i] first_of_drop)
qed

lemma last_take: "last (0 # take i xs) = (if i = 0 \<or> xs = [] then 0 else xs ! (min i (length xs) - 1))"
  by (cases "take i xs = []") (auto simp: last_conv_nth min_def)

lemma FindLast_rep:
  assumes rep: "skip_rep kcmp valid l h xs ks"
  shows "FindLast l = Some (last (0 # xs))"
proof -
  have r: "linked l h (0 # xs @ []) []" "1 \<le> max_height l" "max_height l - 1 < h 0" "\<forall>u \<in> set xs. 0 < h u"
    using rep by (auto simp: skip_rep_def kMaxHeight_def)
  show ?thesis
    using skip_walk_finds [OF r(1,3,4), of "\<lambda>x nxt. Some (nxt \<noteq> None)" None] r(2) by (auto simp: FindLast_def)
qed

lemma FindLessThan_rep:
  assumes rep: "skip_rep kcmp valid l h xs ks" and k: "valid k"
  shows "FindLessThan kcmp l k = Some (last (0 # take (place kcmp ks k) xs))"
proof -
  let ?n = "place kcmp ks k" and ?t = "less_than_test kcmp l k"
  have r: "linked l h (0 # take ?n xs @ drop ?n xs) []" "1 \<le> max_height l" "max_height l - 1 < h 0"
    "\<forall>u \<in> set (take ?n xs). 0 < h u"
    using rep by (auto simp: skip_rep_def kMaxHeight_def dest: in_set_takeD)
  have t: "?t z nxt = KeyIsAfterNode kcmp l k nxt" if "z \<in> set (0 # take ?n xs)" for z nxt
  proof -
    have a: "(if z = 0 then Some True else KeyIsAfterNode kcmp l k (Some z)) = Some True"
      using that KeyIsAfterNode_rep [OF rep k] in_take [of z ?n xs] by auto
    have "(case nxt of None \<Rightarrow> Some False | Some y \<Rightarrow> do { ky \<leftarrow> key_at l y; c \<leftarrow> kcmp ky k; Some (\<not> 0 \<le> c) }) =
        KeyIsAfterNode kcmp l k nxt"
      by (simp add: KeyIsAfterNode_def not_le cong: option.case_cong)
    then show ?thesis by (simp add: less_than_test_def a)
  qed
  have t1: "\<forall>z \<in> set (0 # take ?n xs). \<forall>y \<in> set (take ?n xs). ?t z (Some y) = Some True"
  proof (intro ballI)
    fix z y assume z: "z \<in> set (0 # take ?n xs)" and y: "y \<in> set (take ?n xs)"
    obtain i where "i < length xs" "i < ?n" "y = xs ! i" using in_take [OF y] by blast
    then show "?t z (Some y) = Some True" using t [OF z] KeyIsAfterNode_rep [OF rep k] by simp
  qed
  have t2: "\<forall>z \<in> set (0 # take ?n xs). \<forall>y \<in> set (drop ?n xs). ?t z (Some y) = Some False"
  proof (intro ballI)
    fix z y assume z: "z \<in> set (0 # take ?n xs)" and y: "y \<in> set (drop ?n xs)"
    obtain i where "i < length xs" "?n \<le> i" "y = xs ! i" using in_drop [OF y] by blast
    then show "?t z (Some y) = Some False" using t [OF z] KeyIsAfterNode_rep [OF rep k] by simp
  qed
  have t3: "\<forall>z \<in> set (0 # take ?n xs). ?t z None = Some False" using t by (simp add: KeyIsAfterNode_def)
  show ?thesis
    using skip_walk_finds [OF r(1,3,4) t1 t2 t3, of None] r(2) by (auto simp: FindLessThan_def)
qed

lemma SkipIter_Prev_rep:
  assumes rep: "skip_rep kcmp valid l h xs ks" and i: "i < length ks"
  shows "SkipIter_Prev kcmp l (pos xs i) = Some (if i = 0 then None else pos xs (i - 1))"
proof -
  have s: "sorted_wrt (before kcmp) ks" "\<forall>k \<in> set ks. valid k" "0 \<notin> set xs" using rep by (simp_all add: skip_rep_def)
  have x: "i < length xs" using rep_length [OF rep] i by simp
  have "FindLessThan kcmp l (ks ! i) = Some (last (0 # take i xs))"
    using FindLessThan_rep [OF rep, of "ks ! i"] s(2) i place_nth [OF s(1,2) i] by simp
  moreover have "i \<noteq> 0 \<Longrightarrow> xs ! (i - 1) \<noteq> 0" using s(3) x by (metis less_imp_diff_less nth_mem)
  moreover have "xs \<noteq> []" using x by auto
  ultimately show ?thesis
    using x rep_key [OF rep x] by (cases "i = 0") (simp_all add: SkipIter_Prev_def pos_def last_take last_ConsL del: last.simps)
qed

lemma SkipIter_SeekToLast_rep:
  assumes rep: "skip_rep kcmp valid l h xs ks"
  shows "SkipIter_SeekToLast l = Some (if ks = [] then None else pos xs (length ks - 1))"
proof -
  have "last (0 # xs) = (if xs = [] then 0 else xs ! (length xs - 1))" by (simp add: last_conv_nth)
  moreover have "xs \<noteq> [] \<Longrightarrow> xs ! (length xs - 1) \<noteq> 0"
    using rep unfolding skip_rep_def by (metis diff_less distinct.simps(2) length_greater_0_conv less_one nth_mem)
  ultimately show ?thesis
    using FindLast_rep [OF rep] rep_length [OF rep] by (auto simp: SkipIter_SeekToLast_def pos_def simp del: last.simps)
qed

end

end
