(* ===== verification/Lv_Memtable.thy ===== *)
theory Lv_Memtable
  imports Lv_Key Lv_Skiplist_Correct
begin

unbundle bit_operations_syntax

section \<open>Memtables (leveldb db/memtable)\<close>

text \<open>
  A memtable is a skip list of entries, each one buffer: the internal key, then the value, both with their
  length in front. A pointer to an entry is the list of the bytes from there to the end of its buffer. The
  memory of the arena is not modelled here. The theory shows that \<^verbatim>\<open>Get\<close> returns what the entries say: the newest
  version of the key that the lookup key may see.
\<close>

subsection \<open>Entries\<close>

text \<open>The pointer version of reading a length-prefixed string, and what follows it.\<close>

definition mem_slice :: "slice \<Rightarrow> (slice \<times> slice) option" where
  "mem_slice data =
     do {
       (len, q) \<leftarrow> GetVarint32Ptr (take 5 data);
       let p = drop (length (take 5 data) - length q) data;
       if length p < unat len then None else Some (take (unat len) p, drop (unat len) p)
     }"

definition KeyComparator :: "compare \<Rightarrow> slice kcompare" where
  "KeyComparator ucmp aptr bptr =
     do { (a, _) \<leftarrow> mem_slice aptr; (b, _) \<leftarrow> mem_slice bptr; InternalCompare ucmp a b }"

definition EncodeKey :: "slice \<Rightarrow> slice" where "EncodeKey target = PutVarint32 [] (of_nat (length target)) @ target"

subsection \<open>The memtable and its iterator\<close>

record memtable =
  mt_table :: "slice skiplist"
  mt_refs :: int

definition MemTable :: memtable where "MemTable = \<lparr>mt_table = SkipList [], mt_refs = 0\<rparr>"

definition MemTable_Ref :: "memtable \<Rightarrow> memtable" where "MemTable_Ref m = m\<lparr>mt_refs := mt_refs m + 1\<rparr>"

text \<open>\<open>Some None\<close>: the memtable is deleted.\<close>

definition MemTable_Unref :: "memtable \<Rightarrow> memtable option option" where
  "MemTable_Unref m =
     (let r = mt_refs m - 1 in
      if r < 0 then None else if r \<le> 0 then Some None else Some (Some (m\<lparr>mt_refs := r\<rparr>)))"

definition MemIter_Seek :: "compare \<Rightarrow> memtable \<Rightarrow> slice \<Rightarrow> ptr option" where
  "MemIter_Seek ucmp m k = SkipIter_Seek (KeyComparator ucmp) (mt_table m) (EncodeKey k)"

definition MemIter_SeekToFirst :: "memtable \<Rightarrow> ptr option" where
  "MemIter_SeekToFirst m = SkipIter_SeekToFirst (mt_table m)"

definition MemIter_SeekToLast :: "memtable \<Rightarrow> ptr option" where
  "MemIter_SeekToLast m = SkipIter_SeekToLast (mt_table m)"

definition MemIter_Next :: "memtable \<Rightarrow> ptr \<Rightarrow> ptr option" where "MemIter_Next m it = SkipIter_Next (mt_table m) it"

definition MemIter_Prev :: "compare \<Rightarrow> memtable \<Rightarrow> ptr \<Rightarrow> ptr option" where
  "MemIter_Prev ucmp m it = SkipIter_Prev (KeyComparator ucmp) (mt_table m) it"

definition MemIter_key :: "memtable \<Rightarrow> ptr \<Rightarrow> slice option" where
  "MemIter_key m it = do { e \<leftarrow> SkipIter_key (mt_table m) it; map_option fst (mem_slice e) }"

definition MemIter_value :: "memtable \<Rightarrow> ptr \<Rightarrow> slice option" where
  "MemIter_value m it =
     do { e \<leftarrow> SkipIter_key (mt_table m) it; (_, rest) \<leftarrow> mem_slice e; map_option fst (mem_slice rest) }"

subsection \<open>Adding and getting\<close>

text \<open>\<open>None\<close> also when the entry is not as long as was computed, which is an assertion.\<close>

definition MemTable_Add :: "compare \<Rightarrow> memtable \<Rightarrow> u64 \<Rightarrow> byte \<Rightarrow> slice \<Rightarrow> slice \<Rightarrow> memtable option" where
  "MemTable_Add ucmp m s t k v =
     (let key_size = length k; val_size = length v; internal_key_size = key_size + 8;
          encoded_len = VarintLength (of_nat internal_key_size) + internal_key_size + VarintLength (of_nat val_size) + val_size;
          buf = EncodeVarint32 (of_nat internal_key_size) @ k @ EncodeFixed64 (push_bit 8 s OR ucast t) @
            EncodeVarint32 (of_nat val_size) @ v in
      if length buf \<noteq> encoded_len then None
      else map_option (\<lambda>table. m\<lparr>mt_table := table\<rparr>) (SkipList_Insert (KeyComparator ucmp) (mt_table m) buf))"

datatype get_result = Found slice | Deleted | Missing

definition MemTable_Get :: "compare \<Rightarrow> memtable \<Rightarrow> lookup_key \<Rightarrow> get_result option" where
  "MemTable_Get ucmp m key =
     do {
       it \<leftarrow> SkipIter_Seek (KeyComparator ucmp) (mt_table m) (memtable_key key);
       if \<not> SkipIter_Valid it then Some Missing
       else do {
         entry \<leftarrow> SkipIter_key (mt_table m) it;
         (key_length, q) \<leftarrow> GetVarint32Ptr (take 5 entry);
         let key_ptr = drop (length (take 5 entry) - length q) entry;
         if length key_ptr < unat (key_length - 8) then None
         else if ucmp (take (unat (key_length - 8)) key_ptr) (lookup_user_key key) = 0
         then do {
           tag \<leftarrow> DecodeFixed64 (drop (unat key_length - 8) key_ptr);
           let t = (ucast (tag AND 0xff) :: byte);
           if t = kTypeValue then do { (v, _) \<leftarrow> mem_slice (drop (unat key_length) key_ptr); Some (Found v) }
           else if t = kTypeDeletion then Some Deleted
           else Some Missing
         }
         else Some Missing
       }
     }"

subsection \<open>Reading entries\<close>

lemma mem_slice_put:
  assumes "length s < 2 ^ 32"
  shows "mem_slice (PutLengthPrefixedSlice [] s @ r) = Some (s, r)"
    "GetVarint32Ptr (take 5 (PutLengthPrefixedSlice [] s @ r)) =
      Some (of_nat (length s), take (5 - length (EncodeVarint32 (of_nat (length s)))) (s @ r))"
proof -
  let ?e = "EncodeVarint32 (of_nat (length s))"
  have e: "length ?e \<le> 5" by (simp add: EncodeVarint32_def)
  have t: "take 5 (PutLengthPrefixedSlice [] s @ r) = ?e @ take (5 - length ?e) (s @ r)"
    using e by (simp add: PutLengthPrefixedSlice_def PutVarint32_def)
  have u: "unat (of_nat (length s) :: u32) = length s" using assms by (intro unat_of_nat_id) simp
  show g: "GetVarint32Ptr (take 5 (PutLengthPrefixedSlice [] s @ r)) = Some (of_nat (length s), take (5 - length ?e) (s @ r))"
    unfolding t by (rule GetVarint32Ptr_Encode)
  have d: "drop (length (take 5 (PutLengthPrefixedSlice [] s @ r)) - length (take (5 - length ?e) (s @ r)))
      (PutLengthPrefixedSlice [] s @ r) = s @ r"
    unfolding t by (simp add: PutLengthPrefixedSlice_def PutVarint32_def)
  show "mem_slice (PutLengthPrefixedSlice [] s @ r) = Some (s, r)"
    unfolding mem_slice_def g bind.bind_lunit prod.case Let_def d u by simp
qed

record entry =
  e_key :: slice
  e_seq :: u64
  e_type :: byte
  e_value :: slice

definition e_internal :: "entry \<Rightarrow> slice" where
  "e_internal e = e_key e @ EncodeFixed64 (push_bit 8 (e_seq e) OR ucast (e_type e))"

definition entry_bytes :: "entry \<Rightarrow> slice" where
  "entry_bytes e = PutLengthPrefixedSlice (PutLengthPrefixedSlice [] (e_internal e)) (e_value e)"

definition entry_ok :: "(slice \<Rightarrow> bool) \<Rightarrow> entry \<Rightarrow> bool" where
  "entry_ok valid e \<longleftrightarrow> valid (e_key e) \<and> length (e_key e) + 8 < 2 ^ 32 \<and> length (e_value e) < 2 ^ 32 \<and>
     e_seq e \<le> kMaxSequenceNumber \<and> e_type e \<le> kTypeValue"

text \<open>The keys the list is used on: entries, and the keys of lookups, which are the first part of an entry.\<close>

definition mem_key :: "(slice \<Rightarrow> bool) \<Rightarrow> slice \<Rightarrow> bool" where
  "mem_key valid s \<longleftrightarrow> (\<exists>k r. s = PutLengthPrefixedSlice [] k @ r \<and> length k < 2 ^ 32 \<and> internal_valid valid k)"

definition mem_ik :: "slice \<Rightarrow> slice" where "mem_ik s = fst (the (mem_slice s))"

lemma PutLengthPrefixed_append: "PutLengthPrefixedSlice a s = a @ PutLengthPrefixedSlice [] s"
  by (simp add: PutLengthPrefixedSlice_def PutVarint32_def)

lemma e_internal_valid: "internal_valid valid (e_internal e) \<longleftrightarrow> valid (e_key e)"
  by (simp add: e_internal_def internal_valid_def)

lemma entry_mem_key:
  assumes "entry_ok valid e"
  shows "mem_key valid (entry_bytes e)" "mem_ik (entry_bytes e) = e_internal e"
proof -
  have l: "length (e_internal e) < 2 ^ 32" using assms by (simp add: entry_ok_def e_internal_def)
  have e: "entry_bytes e = PutLengthPrefixedSlice [] (e_internal e) @ PutLengthPrefixedSlice [] (e_value e)"
    unfolding entry_bytes_def by (rule PutLengthPrefixed_append)
  show "mem_key valid (entry_bytes e)" using assms l e by (auto simp: mem_key_def e_internal_valid entry_ok_def)
  show "mem_ik (entry_bytes e) = e_internal e" unfolding e using mem_slice_put(1) [OF l] by (simp add: mem_ik_def)
qed

context comparator
begin

lemma KeyComparator_mem:
  assumes "mem_key valid a" "mem_key valid b"
  shows "KeyComparator cmp a b = Some (internal_compare cmp (mem_ik a) (mem_ik b))"
    "internal_valid valid (mem_ik a)"
proof -
  obtain k r where a: "a = PutLengthPrefixedSlice [] k @ r" "length k < 2 ^ 32" "internal_valid valid k"
    using assms(1) unfolding mem_key_def by blast
  obtain k' r' where b: "b = PutLengthPrefixedSlice [] k' @ r'" "length k' < 2 ^ 32" "internal_valid valid k'"
    using assms(2) unfolding mem_key_def by blast
  show "KeyComparator cmp a b = Some (internal_compare cmp (mem_ik a) (mem_ik b))" "internal_valid valid (mem_ik a)"
    using mem_slice_put(1) [OF a(2), of r] mem_slice_put(1) [OF b(2), of r'] internal_Compare [OF a(3) b(3)] a(3)
    by (simp_all add: KeyComparator_def a(1) b(1) mem_ik_def)
qed

lemma before_mem:
  "mem_key valid a \<Longrightarrow> mem_key valid b \<Longrightarrow> before (KeyComparator cmp) a b \<longleftrightarrow> internal_compare cmp (mem_ik a) (mem_ik b) < 0"
  by (simp add: before_def KeyComparator_mem)

lemma KeyComparator_order: "key_order (KeyComparator cmp) (mem_key valid)"
proof
  fix a b assume ab: "mem_key valid a" "mem_key valid b"
  have v: "internal_valid valid (mem_ik a)" "internal_valid valid (mem_ik b)"
    using KeyComparator_mem(2) ab by blast+
  note sw = internal_swap [OF v] internal_swap [OF v(2,1)]
  show "\<exists>c. KeyComparator cmp a b = Some c" using KeyComparator_mem(1) [OF ab] by blast
  show "\<not> before (KeyComparator cmp) b a" if "before (KeyComparator cmp) a b"
    using that sw unfolding before_mem [OF ab] before_mem [OF ab(2,1)] by linarith
  show "KeyComparator cmp a b = Some 0 \<longleftrightarrow> \<not> before (KeyComparator cmp) a b \<and> \<not> before (KeyComparator cmp) b a"
    using sw unfolding before_mem [OF ab] before_mem [OF ab(2,1)] KeyComparator_mem(1) [OF ab] by auto
  fix c assume c: "mem_key valid c"
  have vc: "internal_valid valid (mem_ik c)" using KeyComparator_mem(2) [OF c c] .
  show "\<not> before (KeyComparator cmp) a c" if "\<not> before (KeyComparator cmp) a b" "\<not> before (KeyComparator cmp) b c"
    using that internal_trans [OF vc v(2,1)] internal_swap [OF v(1) vc] internal_swap [OF v(2) vc] internal_swap [OF v]
    unfolding before_mem [OF ab] before_mem [OF ab(1) c] before_mem [OF ab(2) c] by linarith
qed

end

text \<open>The order of the memtable's keys, over the byte-wise comparator.\<close>

interpretation mem_order: key_order "KeyComparator Slice_compare" "mem_key (\<lambda>_. True)"
  by (rule bytewise.KeyComparator_order)

subsection \<open>What a memtable holds\<close>

text \<open>A memtable that holds the entries \<open>es\<close>, in the order they were added.\<close>

definition mem_rep :: "compare \<Rightarrow> (slice \<Rightarrow> bool) \<Rightarrow> memtable \<Rightarrow> entry list \<Rightarrow> bool" where
  "mem_rep ucmp valid m es \<longleftrightarrow>
     (\<exists>h xs ks. skip_rep (KeyComparator ucmp) (mem_key valid) (mt_table m) h xs ks \<and> set ks = entry_bytes ` set es) \<and>
     (\<forall>e \<in> set es. entry_ok valid e)"

definition sees :: "compare \<Rightarrow> slice \<Rightarrow> u64 \<Rightarrow> entry \<Rightarrow> bool" where
  "sees ucmp u s e \<longleftrightarrow> ucmp (e_key e) u = 0 \<and> e_seq e \<le> s"

definition outcome_of :: "entry \<Rightarrow> get_result" where
  "outcome_of e = (if e_type e = kTypeValue then Found (e_value e) else Deleted)"

text \<open>The specification: the last entry of the history that the lookup sees.\<close>

definition mem_lookup :: "compare \<Rightarrow> entry list \<Rightarrow> slice \<Rightarrow> u64 \<Rightarrow> get_result" where
  "mem_lookup ucmp es u s =
     (case rev (filter (sees ucmp u s) es) of [] \<Rightarrow> Missing | e # _ \<Rightarrow> outcome_of e)"

lemma mem_rep_empty: "mem_rep ucmp valid MemTable []"
  unfolding mem_rep_def MemTable_def using rep_empty by fastforce

lemma MemTable_Add_inserts:
  assumes "length k + 8 < 2 ^ 32" "length v < 2 ^ 32"
  shows "MemTable_Add ucmp m s t k v = map_option (\<lambda>table. m\<lparr>mt_table := table\<rparr>)
    (SkipList_Insert (KeyComparator ucmp) (mt_table m) (entry_bytes \<lparr>e_key = k, e_seq = s, e_type = t, e_value = v\<rparr>))"
proof -
  have u: "ucast (of_nat n :: u32) = (of_nat n :: u64)" if "n < 2 ^ 32" for n
    using that unat_of_nat_id [of n, where ?'a = 32] unat_of_nat_id [of n, where ?'a = 64]
    by (simp add: word_unat_eq_iff unsigned_ucast_eq take_bit_nat_eq_self)
  have len: "VarintLength (of_nat n) = length (EncodeVarint32 (of_nat n))" if "n < 2 ^ 32" for n
    unfolding VarintLength_Encode EncodeVarint32_loop u [OF that] ..
  have b: "EncodeVarint32 (of_nat (length k + 8)) @ k @ EncodeFixed64 (push_bit 8 s OR ucast t) @
      EncodeVarint32 (of_nat (length v)) @ v = entry_bytes \<lparr>e_key = k, e_seq = s, e_type = t, e_value = v\<rparr>"
    by (simp add: entry_bytes_def e_internal_def PutLengthPrefixedSlice_def PutVarint32_def)
  show ?thesis unfolding MemTable_Add_def Let_def b len [OF assms(1)] len [OF assms(2)]
    unfolding b [symmetric] by simp
qed

text \<open>What \<^verbatim>\<open>Get\<close> makes of the entry it finds.\<close>

lemma read_entry:
  assumes ok: "entry_ok valid e" and key: "SkipIter_Seek (KeyComparator ucmp) (mt_table m) (memtable_key lk) = Some it"
    "SkipIter_Valid it" "SkipIter_key (mt_table m) it = Some (entry_bytes e)"
  shows "MemTable_Get ucmp m lk = Some (if ucmp (e_key e) (lookup_user_key lk) = 0 then outcome_of e else Missing)"
proof -
  let ?ik = "e_internal e" and ?tag = "push_bit 8 (e_seq e) OR ucast (e_type e) :: u64"
  let ?r = "PutLengthPrefixedSlice [] (e_value e)"
  have l: "length ?ik < 2 ^ 32" "length (e_value e) < 2 ^ 32" "length ?ik = length (e_key e) + 8"
    using ok by (simp_all add: entry_ok_def e_internal_def)
  have b: "entry_bytes e = PutLengthPrefixedSlice [] ?ik @ ?r" unfolding entry_bytes_def by (rule PutLengthPrefixed_append)
  have n: "unat (of_nat (length ?ik) :: u32) = length ?ik" using l(1) by (intro unat_of_nat_id) simp
  have "8 \<le> (of_nat (length ?ik) :: u32)" unfolding word_le_nat_alt n using l(3) by simp
  then have n8: "unat (of_nat (length ?ik) - 8 :: u32) = length (e_key e)"
    using unat_sub [of 8 "of_nat (length ?ik) :: u32"] n l(3) by simp
  have split5: "drop (length (take 5 (x @ y)) - length (take (5 - length x) y)) (x @ y) = y" if "length x \<le> 5" for x y :: slice
    using that by simp
  have e5: "length (EncodeVarint32 v) \<le> 5" for v by (simp add: EncodeVarint32_def)
  have b': "entry_bytes e = EncodeVarint32 (of_nat (length ?ik)) @ (?ik @ ?r)"
    unfolding b by (simp add: PutLengthPrefixedSlice_def PutVarint32_def)
  have p: "drop (length (take 5 (entry_bytes e)) -
      length (take (5 - length (EncodeVarint32 (of_nat (length ?ik)))) (?ik @ ?r))) (entry_bytes e) = ?ik @ ?r"
    unfolding b' by (rule split5 [OF e5])
  have g: "GetVarint32Ptr (take 5 (entry_bytes e)) =
      Some (of_nat (length ?ik), take (5 - length (EncodeVarint32 (of_nat (length ?ik)))) (?ik @ ?r))"
    unfolding b by (rule mem_slice_put(2) [OF l(1)])
  have t: "DecodeFixed64 (drop (length ?ik - 8) (?ik @ ?r)) = Some ?tag" by (simp add: l(3)) (simp add: e_internal_def)
  have ty: "ucast (?tag AND 0xff) = e_type e" using ok by (simp only: entry_ok_def tag_parts(1))
  have v: "mem_slice (drop (length ?ik) (?ik @ ?r)) = Some (e_value e, [])" using mem_slice_put(1) [OF l(2), of "[]"] by simp
  have u: "take (length (e_key e)) (?ik @ ?r) = e_key e" by (simp add: e_internal_def)
  have w: "\<not> length (?ik @ ?r) < length (e_key e)" by (simp add: l(3))
  have ty01: "e_type e = kTypeValue \<or> e_type e = kTypeDeletion"
  proof -
    have "unat (e_type e) \<le> 1" using ok by (simp add: entry_ok_def kTypeValue_def word_le_nat_alt)
    then show ?thesis by (auto simp: kTypeValue_def kTypeDeletion_def word_unat_eq_iff)
  qed
  show ?thesis
    unfolding MemTable_Get_def key(1) bind.bind_lunit key(3) if_False key(2) g prod.case Let_def p n n8 u t ty v w
    using ty01 key(2) l(3) by (auto simp: outcome_of_def)
qed

context comparator
begin

lemma lookup_memkey:
  assumes "LookupKey u s = Some lk" "valid u" "length u + 8 < 2 ^ 32"
  shows "mem_key valid (memtable_key lk)" "mem_ik (memtable_key lk) = internal_key lk"
    "internal_key lk = u @ EncodeFixed64 (push_bit 8 s OR ucast (1 :: byte))" "lookup_user_key lk = u" "s \<le> kMaxSequenceNumber"
proof -
  show s: "s \<le> kMaxSequenceNumber" using assms(1) by (auto simp: LookupKey_def PackSequenceAndType_def Let_def split: if_splits)
  have k: "internal_key lk = u @ EncodeFixed64 (push_bit 8 s OR 1)" "lookup_user_key lk = u"
    "memtable_key lk = PutLengthPrefixedSlice [] (internal_key lk)"
    using LookupKey_parts [OF s assms(3)] assms(1) by (metis option.inject)+
  show "internal_key lk = u @ EncodeFixed64 (push_bit 8 s OR ucast (1 :: byte))" "lookup_user_key lk = u" using k by simp_all
  have l: "length (internal_key lk) < 2 ^ 32" using assms(3) by (simp add: k(1))
  show "mem_key valid (memtable_key lk)"
    unfolding mem_key_def by (rule exI [of _ "internal_key lk"], rule exI [of _ "[]"])
      (use k l assms(2) in \<open>simp add: internal_valid_def\<close>)
  show "mem_ik (memtable_key lk) = internal_key lk" using mem_slice_put(1) [OF l, of "[]"] by (simp add: k(3) mem_ik_def)
qed

lemma tag_less: "a \<le> kMaxSequenceNumber \<Longrightarrow> b \<le> kMaxSequenceNumber \<Longrightarrow> a < b \<Longrightarrow>
  push_bit 8 a OR ucast (x :: byte) < (push_bit 8 b OR ucast (y :: byte) :: u64)"
  using unsigned_less [of x, where ?'a = nat] by (simp add: word_less_nat_alt unat_tag)

text \<open>The entries at or after the lookup key.\<close>

lemma not_before_lookup:
  assumes "LookupKey u s = Some lk" "valid u" "length u + 8 < 2 ^ 32" "entry_ok valid e"
  shows "\<not> before (KeyComparator cmp) (entry_bytes e) (memtable_key lk) \<longleftrightarrow> 0 < cmp (e_key e) u \<or> sees cmp u s e"
proof -
  note lk = lookup_memkey [OF assms(1-3)] and e = entry_mem_key [OF assms(4)]
  have ok: "valid (e_key e)" "e_seq e \<le> kMaxSequenceNumber" "e_type e \<le> 1"
    using assms(4) by (simp_all add: entry_ok_def kTypeValue_def)
  have v: "internal_valid valid (e_internal e)" "internal_valid valid (internal_key lk)"
    using ok assms(2) unfolding e_internal_valid lk(3) by (simp_all add: internal_valid_def)
  have "before (KeyComparator cmp) (entry_bytes e) (memtable_key lk) \<longleftrightarrow> internal_compare cmp (e_internal e) (internal_key lk) < 0"
    using before_mem [OF e(1) lk(1)] by (simp add: e(2) lk(2))
  also have "\<dots> \<longleftrightarrow> cmp (e_key e) u < 0 \<or> (cmp (e_key e) u = 0 \<and>
      push_bit 8 s OR ucast (1 :: byte) < (push_bit 8 (e_seq e) OR ucast (e_type e) :: u64))"
    unfolding internal_less [OF v] unfolding lk(3) e_internal_def ik_parts ..
  also have "push_bit 8 s OR ucast (1 :: byte) < (push_bit 8 (e_seq e) OR ucast (e_type e) :: u64) \<longleftrightarrow> s < e_seq e"
  proof -
    have "unat (e_type e) \<le> 1" using ok(3) by (simp add: word_le_nat_alt)
    then show ?thesis using unat_tag [OF lk(5), of 1] unat_tag [OF ok(2), of "e_type e"]
      by (simp add: word_less_nat_alt) linarith
  qed
  finally show ?thesis by (auto simp: sees_def not_le not_less)
qed

lemma MemTable_Get_at:
  assumes rep: "mem_rep cmp valid m es" and lk: "LookupKey u s = Some lk" "valid u" "length u + 8 < 2 ^ 32"
  obtains "MemTable_Get cmp m lk = Some Missing" "\<forall>e \<in> set es. \<not> sees cmp u s e"
  | e where "e \<in> set es" "MemTable_Get cmp m lk = Some (if cmp (e_key e) u = 0 then outcome_of e else Missing)"
    "0 < cmp (e_key e) u \<or> sees cmp u s e"
    "\<forall>e' \<in> set es. sees cmp u s e' \<longrightarrow> e' = e \<or> entry_bytes e' = entry_bytes e \<or>
       internal_compare cmp (e_internal e) (e_internal e') < 0"
proof -
  obtain h xs ks where r: "skip_rep (KeyComparator cmp) (mem_key valid) (mt_table m) h xs ks"
    "set ks = entry_bytes ` set es" and ok: "\<forall>e \<in> set es. entry_ok valid e"
    using rep unfolding mem_rep_def by blast
  note keys = lookup_memkey [OF lk]
  let ?n = "place (KeyComparator cmp) ks (memtable_key lk)"
  have seek: "SkipIter_Seek (KeyComparator cmp) (mt_table m) (memtable_key lk) = Some (pos xs ?n)"
    by (rule key_order.SkipIter_Seek_rep [OF KeyComparator_order r(1) keys(1)])
  have sorted: "sorted_wrt (before (KeyComparator cmp)) ks" using r(1) by (simp add: skip_rep_def)
  have after: "\<exists>j. ?n \<le> j \<and> j < length ks \<and> ks ! j = entry_bytes e" if "e \<in> set es" "sees cmp u s e" for e
  proof -
    have "entry_bytes e \<in> set ks" using that(1) r(2) by simp
    then obtain j where j: "j < length ks" "ks ! j = entry_bytes e" by (auto simp: in_set_conv_nth)
    have "\<not> before (KeyComparator cmp) (entry_bytes e) (memtable_key lk)"
      using not_before_lookup [OF lk] ok that by blast
    then have "\<not> j < ?n" using place_before [of j "KeyComparator cmp" ks "memtable_key lk"] j(2) by auto
    then show ?thesis using j by (intro exI [of _ j]) simp
  qed
  have len: "length xs = length ks" using rep_length [OF r(1)] by simp
  show thesis
  proof (cases "?n < length ks")
    case False
    then have "MemTable_Get cmp m lk = Some Missing"
      using seek len by (simp add: MemTable_Get_def pos_def SkipIter_Valid_def)
    moreover have "\<forall>e \<in> set es. \<not> sees cmp u s e" using after False by fastforce
    ultimately show thesis by (rule that(1))
  next
    case True
    then have "ks ! ?n \<in> entry_bytes ` set es" using r(2) nth_mem by blast
    then obtain e where e: "e \<in> set es" "ks ! ?n = entry_bytes e" by blast
    have key: "SkipIter_key (mt_table m) (pos xs ?n) = Some (entry_bytes e)"
      using key_order.SkipIter_key_rep [OF KeyComparator_order r(1) True] e(2) by simp
    have "SkipIter_Valid (pos xs ?n)" using True len by (simp add: SkipIter_Valid_def pos_def)
    moreover have "entry_ok valid e" using ok e(1) by blast
    ultimately have get: "MemTable_Get cmp m lk = Some (if cmp (e_key e) u = 0 then outcome_of e else Missing)"
      using read_entry [OF _ seek _ key] keys(4) by blast
    have vk: "\<forall>k \<in> set ks. mem_key valid k" using r(1) by (simp add: skip_rep_def)
    have "\<not> before (KeyComparator cmp) (entry_bytes e) (memtable_key lk)"
      using key_order.place_after [OF KeyComparator_order sorted vk keys(1) order_refl True] e(2) by simp
    then have vis: "0 < cmp (e_key e) u \<or> sees cmp u s e" using not_before_lookup [OF lk] ok e(1) by blast
    have "\<forall>e' \<in> set es. sees cmp u s e' \<longrightarrow> e' = e \<or> entry_bytes e' = entry_bytes e \<or>
        internal_compare cmp (e_internal e) (e_internal e') < 0"
    proof (intro ballI impI)
      fix e' assume e': "e' \<in> set es" "sees cmp u s e'"
      then obtain j where j: "?n \<le> j" "j < length ks" "ks ! j = entry_bytes e'" using after by blast
      show "e' = e \<or> entry_bytes e' = entry_bytes e \<or> internal_compare cmp (e_internal e) (e_internal e') < 0"
      proof (cases "j = ?n")
        case False
        then have "?n < j" using j(1) by simp
        then have "before (KeyComparator cmp) (entry_bytes e) (entry_bytes e')"
          using sorted_wrt_nth_less [OF sorted _ j(2), of ?n] e(2) j(3) by simp
        moreover have oke: "entry_ok valid e" "entry_ok valid e'" using ok e(1) e'(1) by blast+
        ultimately show ?thesis
          using before_mem [OF entry_mem_key(1) [OF oke(1)] entry_mem_key(1) [OF oke(2)]]
            entry_mem_key(2) [OF oke(1)] entry_mem_key(2) [OF oke(2)] by simp
      qed (use e j in simp)
    qed
    then show thesis using that(2) e(1) get vis by blast
  qed
qed

text \<open>Two entries with the same bytes are the same.\<close>

lemma entry_bytes_inj:
  assumes "entry_ok valid e" "entry_ok valid e'" "entry_bytes e = entry_bytes e'"
  shows "e = e'"
proof -
  have ik: "e_internal e = e_internal e'" using assms entry_mem_key(2) by metis
  have len: "length (e_key e) = length (e_key e')" using arg_cong [OF ik, of length] by (simp add: e_internal_def)
  have k: "e_key e = e_key e'" and t: "EncodeFixed64 (push_bit 8 (e_seq e) OR ucast (e_type e)) =
      EncodeFixed64 (push_bit 8 (e_seq e') OR ucast (e_type e'))"
    using ik len by (simp_all add: e_internal_def)
  have "push_bit 8 (e_seq e) OR ucast (e_type e) = (push_bit 8 (e_seq e') OR ucast (e_type e') :: u64)"
    using t by (metis DecodeFixed_Encode(2) append_Nil2 option.inject)
  then have st: "e_seq e = e_seq e'" "e_type e = e_type e'"
    using assms(1,2) unfolding entry_ok_def by (metis tag_parts(2), metis tag_parts(1))
  have "PutLengthPrefixedSlice [] (e_value e) = PutLengthPrefixedSlice [] (e_value e')"
    using assms(3) ik unfolding entry_bytes_def PutLengthPrefixed_append [of "PutLengthPrefixedSlice [] _"] by simp
  then have "e_value e = e_value e'" using assms(1,2) lv_string.put_inj by (simp add: entry_ok_def)
  then show ?thesis using k st by (cases e, cases e') simp
qed

text \<open>\<^verbatim>\<open>Get\<close> meets its specification on a history with increasing sequence numbers.\<close>

lemma MemTable_Get_spec:
  assumes rep: "mem_rep cmp valid m es" and hist: "sorted_wrt (\<lambda>a b. e_seq a < e_seq b) es"
    and lk: "LookupKey u s = Some lk" "valid u" "length u + 8 < 2 ^ 32"
  shows "MemTable_Get cmp m lk = Some (mem_lookup cmp es u s)"
proof (cases rule: MemTable_Get_at [OF rep lk])
  case 1
  then have "filter (sees cmp u s) es = []" by (simp add: filter_empty_conv)
  then show ?thesis using 1 by (simp add: mem_lookup_def)
next
  case (2 e)
  have ok: "\<forall>e \<in> set es. entry_ok valid e" using rep by (simp add: mem_rep_def)
  have ve: "valid (e_key e)" "internal_valid valid (e_internal e)" "e_seq e \<le> kMaxSequenceNumber"
    using ok 2(1) by (auto simp: entry_ok_def e_internal_valid)
  show ?thesis
  proof (cases "rev (filter (sees cmp u s) es)")
    case Nil
    then have "\<not> sees cmp u s e" using 2(1) by (simp add: filter_empty_conv)
    then have "cmp (e_key e) u \<noteq> 0" using 2(3) by (auto simp: sees_def)
    then show ?thesis using 2(2) Nil by (simp add: mem_lookup_def)
  next
    case (Cons a as)
    then have f: "filter (sees cmp u s) es = rev as @ [a]" by (metis rev_rev_ident rev.simps(2))
    have "a \<in> set (filter (sees cmp u s) es)" unfolding f by simp
    then have a: "a \<in> set es" "sees cmp u s a" by simp_all
    have oka: "valid (e_key a)" "internal_valid valid (e_internal a)" "e_seq a \<le> kMaxSequenceNumber"
      using ok a(1) by (auto simp: entry_ok_def e_internal_valid)
    have "a = e"
    proof (rule ccontr)
      assume ne: "a \<noteq> e"
      then have "internal_compare cmp (e_internal e) (e_internal a) < 0" using 2(1,4) a entry_bytes_inj ok by blast
      then have less: "cmp (e_key e) (e_key a) < 0 \<or> (cmp (e_key e) (e_key a) = 0 \<and>
          push_bit 8 (e_seq a) OR ucast (e_type a) < (push_bit 8 (e_seq e) OR ucast (e_type e) :: u64))"
        unfolding internal_less [OF ve(2) oka(2)] by (simp add: e_internal_def)
      have au: "cmp (e_key a) u = 0" using a(2) by (simp add: sees_def)
      have eu: "0 \<le> cmp (e_key e) u" using 2(3) by (auto simp: sees_def)
      have "\<not> cmp (e_key e) (e_key a) < 0"
        using less_le_trans [OF ve(1) oka(1) lk(2)] au eu by fastforce
      then have l2: "cmp (e_key e) (e_key a) = 0"
        "push_bit 8 (e_seq a) OR ucast (e_type a) < (push_bit 8 (e_seq e) OR ucast (e_type e) :: u64)"
        using less by simp_all
      have "cmp (e_key e) u \<le> 0" using trans [OF ve(1) oka(1) lk(2)] l2(1) au by simp
      then have "sees cmp u s e" using 2(3) by auto
      then have "e \<in> set (filter (sees cmp u s) es)" using 2(1) by simp
      then have "e \<in> set (rev as)" using ne unfolding f by auto
      moreover have "sorted_wrt (\<lambda>a b. e_seq a < e_seq b) (rev as @ [a])" using sorted_wrt_filter [OF hist, of "sees cmp u s"] f by simp
      ultimately have "e_seq e < e_seq a" by (simp add: sorted_wrt_append)
      then have "push_bit 8 (e_seq e) OR ucast (e_type e) < (push_bit 8 (e_seq a) OR ucast (e_type a) :: u64)"
        by (rule tag_less [OF ve(3) oka(3)])
      then show False using l2(2) by (simp add: not_less_iff_gr_or_eq)
    qed
    then show ?thesis using 2(2) a(2) Cons by (simp add: mem_lookup_def sees_def)
  qed
qed

text \<open>Adding an entry with a new sequence number.\<close>

lemma entry_is_new:
  assumes "mem_rep cmp valid m es" and ok: "entry_ok valid e" and new: "\<forall>a \<in> set es. e_seq a < e_seq e"
  shows "\<forall>k \<in> entry_bytes ` set es. KeyComparator cmp (entry_bytes e) k \<noteq> Some 0"
proof
  have oks: "\<forall>e \<in> set es. entry_ok valid e" using assms(1) by (simp add: mem_rep_def)
  fix k assume "k \<in> entry_bytes ` set es"
  then obtain a where a: "a \<in> set es" "k = entry_bytes a" by auto
  have oka: "entry_ok valid a" using oks a(1) by blast
  have v: "internal_valid valid (e_internal a)" "internal_valid valid (e_internal e)"
    using oka ok by (simp_all add: entry_ok_def e_internal_valid)
  have "push_bit 8 (e_seq a) OR ucast (e_type a) < (push_bit 8 (e_seq e) OR ucast (e_type e) :: u64)"
    using new a(1) oka ok by (intro tag_less) (auto simp: entry_ok_def)
  then have "internal_compare cmp (e_internal e) (e_internal a) \<noteq> 0"
    using internal_less [OF v(2,1)] internal_greater [OF v(2,1)] by (auto simp: e_internal_def)
  then show "KeyComparator cmp (entry_bytes e) k \<noteq> Some 0"
    using KeyComparator_mem(1) [OF entry_mem_key(1) [OF ok] entry_mem_key(1) [OF oka]] entry_mem_key(2) [OF ok]
      entry_mem_key(2) [OF oka] a(2) by simp
qed

lemma MemTable_Add_rep:
  assumes rep: "mem_rep cmp valid m es" and ok: "entry_ok valid e" and new: "\<forall>a \<in> set es. e_seq a < e_seq e"
  shows "\<exists>m'. MemTable_Add cmp m (e_seq e) (e_type e) (e_key e) (e_value e) = Some m' \<and> mem_rep cmp valid m' (es @ [e]) \<and>
    mt_refs m' = mt_refs m"
proof -
  obtain h xs ks where r: "skip_rep (KeyComparator cmp) (mem_key valid) (mt_table m) h xs ks"
    "set ks = entry_bytes ` set es" and oks: "\<forall>e \<in> set es. entry_ok valid e"
    using rep unfolding mem_rep_def by blast
  have "\<forall>k \<in> set ks. KeyComparator cmp (entry_bytes e) k \<noteq> Some 0" using entry_is_new [OF rep ok new] r(2) by simp
  from key_order.SkipList_Insert_rep [OF KeyComparator_order r(1) entry_mem_key(1) [OF ok] this]
  obtain t h' xs' where t: "SkipList_Insert (KeyComparator cmp) (mt_table m) (entry_bytes e) = Some t"
    "skip_rep (KeyComparator cmp) (mem_key valid) t h' xs' (add_key (KeyComparator cmp) (entry_bytes e) ks)" by blast
  have l: "length (e_key e) + 8 < 2 ^ 32" "length (e_value e) < 2 ^ 32" using ok by (simp_all add: entry_ok_def)
  have "MemTable_Add cmp m (e_seq e) (e_type e) (e_key e) (e_value e) = Some (m\<lparr>mt_table := t\<rparr>)"
    using MemTable_Add_inserts [OF l, of cmp m "e_seq e" "e_type e"] t(1) by (cases e) simp
  moreover have "mem_rep cmp valid (m\<lparr>mt_table := t\<rparr>) (es @ [e])"
    unfolding mem_rep_def using t(2) r(2) ok oks by (auto simp: set_add_key intro!: exI)
  ultimately show ?thesis by simp
qed

end

end
