(* ===== verification/Lv_Status.thy ===== *)
theory Lv_Status
  imports Lv_Coding
begin

unbundle bit_operations_syntax

section \<open>Statuses (leveldb include/leveldb/status.h, util/status.cc)\<close>

text \<open>
  A \<^verbatim>\<open>Status\<close> is made by one of the static functions, which are the constructors of \<open>status\<close> here; the other
  theories use these. What the object holds is \<open>state_of\<close>: \<open>None\<close> for the \<^verbatim>\<open>NULL\<close> of \<^verbatim>\<open>OK\<close>, else an array of
  the length of the message, the code and the message. The lengths are 32-bit numbers that wrap around: then the
  array is too short for what is copied into it, which is the outer \<open>None\<close>.
\<close>

definition chars :: "string \<Rightarrow> slice" where "chars s = map of_char s"

datatype status =
    OK
  | NotFound slice slice
  | Corruption slice slice
  | NotSupported slice slice
  | InvalidArgument slice slice
  | IOError slice slice

definition Status_make :: "byte \<Rightarrow> slice \<Rightarrow> slice \<Rightarrow> slice option" where
  "Status_make code msg msg2 =
     (if code = 0 then None
      else let len1 = of_nat (length msg) :: u32; len2 = of_nat (length msg2) :: u32;
          sz = len1 + (if len2 \<noteq> 0 then 2 + len2 else 0);
          written = le_bytes 4 sz @ [code] @ take (unat len1) msg @
            (if len2 \<noteq> 0 then chars '': '' @ take (unat len2) msg2 else []) in
        if unat (sz + 5) < length written then None else Some written)"

fun state_of :: "status \<Rightarrow> slice option option" where
  "state_of OK = Some None"
| "state_of (NotFound m n) = map_option Some (Status_make 1 m n)"
| "state_of (Corruption m n) = map_option Some (Status_make 2 m n)"
| "state_of (NotSupported m n) = map_option Some (Status_make 3 m n)"
| "state_of (InvalidArgument m n) = map_option Some (Status_make 4 m n)"
| "state_of (IOError m n) = map_option Some (Status_make 5 m n)"

definition Status_code :: "slice option \<Rightarrow> byte" where
  "Status_code st = (case st of None \<Rightarrow> 0 | Some s \<Rightarrow> s ! 4)"

definition Status_ok :: "slice option \<Rightarrow> bool" where "Status_ok st \<longleftrightarrow> st = None"

definition IsNotFound :: "slice option \<Rightarrow> bool" where "IsNotFound st \<longleftrightarrow> Status_code st = 1"
definition IsCorruption :: "slice option \<Rightarrow> bool" where "IsCorruption st \<longleftrightarrow> Status_code st = 2"
definition IsNotSupportedError :: "slice option \<Rightarrow> bool" where "IsNotSupportedError st \<longleftrightarrow> Status_code st = 3"
definition IsInvalidArgument :: "slice option \<Rightarrow> bool" where "IsInvalidArgument st \<longleftrightarrow> Status_code st = 4"
definition IsIOError :: "slice option \<Rightarrow> bool" where "IsIOError st \<longleftrightarrow> Status_code st = 5"

definition CopyState :: "slice \<Rightarrow> slice option" where
  "CopyState state =
     (case DecodeFixed32 state of
        None \<Rightarrow> None
      | Some sz \<Rightarrow>
          let n = unat (sz + 5) in if length state < n then None else Some (take n state))"

text \<open>Copying a status; the decimal number of an unknown code is a parameter.\<close>

definition Status_copy :: "slice option \<Rightarrow> slice option option" where
  "Status_copy st = (case st of None \<Rightarrow> Some None | Some s \<Rightarrow> map_option Some (CopyState s))"

definition Status_assign :: "slice option \<Rightarrow> slice option \<Rightarrow> slice option option" where
  "Status_assign st other = (if st \<noteq> other then Status_copy other else Some st)"

definition type_text :: "(byte \<Rightarrow> string) \<Rightarrow> byte \<Rightarrow> slice" where
  "type_text unknown code = chars
     (if code = 0 then ''OK''
      else if code = 1 then ''NotFound: ''
      else if code = 2 then ''Corruption: ''
      else if code = 3 then ''Not implemented: ''
      else if code = 4 then ''Invalid argument: ''
      else if code = 5 then ''IO error: ''
      else take 29 (unknown code))"

definition Status_ToString :: "(byte \<Rightarrow> string) \<Rightarrow> slice option \<Rightarrow> slice option" where
  "Status_ToString unknown st =
     (case st of
        None \<Rightarrow> Some (chars ''OK'')
      | Some s \<Rightarrow>
          (case DecodeFixed32 s of
             None \<Rightarrow> None
           | Some len \<Rightarrow>
               if length s < 5 + unat len then None
               else Some (type_text unknown (s ! 4) @ take (unat len) (drop 5 s))))"

subsection \<open>What a status holds\<close>

text \<open>The message of a status: the two parts, with a colon between them when there is a second one.\<close>

definition message :: "slice \<Rightarrow> slice \<Rightarrow> slice" where
  "message m n = (if n = [] then m else m @ chars '': '' @ n)"

lemma chars_simps [simp]: "chars [] = []" "chars (c # s) = of_char c # chars s" "length (chars s) = length s"
  by (simp_all add: chars_def)

lemma Status_make_holds:
  assumes "code \<noteq> 0" "length (message m n) + 5 < 2 ^ 32"
  shows "Status_make code m n = Some (EncodeFixed32 (of_nat (length (message m n))) @ [code] @ message m n)"
proof -
  have l: "length m < 2 ^ 32" "length n < 2 ^ 32" using assms(2) by (simp_all add: message_def split: if_splits)
  have u: "unat (of_nat (length m) :: u32) = length m" "unat (of_nat (length n) :: u32) = length n"
    using l by (intro unat_of_nat_id; simp)+
  have z: "(of_nat (length n) :: u32) \<noteq> 0 \<longleftrightarrow> n \<noteq> []" using u(2) by (metis length_0_conv unat_eq_zero)
  have s: "of_nat (length m) + (if n \<noteq> [] then 2 + of_nat (length n) else 0) = (of_nat (length (message m n)) :: u32)"
    by (simp add: message_def algebra_simps)
  have n5: "unat (of_nat (length (message m n)) + 5 :: u32) = length (message m n) + 5"
  proof -
    have "(of_nat (length (message m n)) + 5 :: u32) = of_nat (length (message m n) + 5)" by simp
    then show ?thesis using assms(2) unat_of_nat_id [of "length (message m n) + 5", where ?'a = 32] by simp
  qed
  have w: "le_bytes 4 (of_nat (length (message m n)) :: u32) @ [code] @ take (length m) m @
      (if n \<noteq> [] then chars '': '' @ take (length n) n else []) =
      EncodeFixed32 (of_nat (length (message m n))) @ [code] @ message m n"
    by (simp add: message_def EncodeFixed32_def)
  show ?thesis
    unfolding Status_make_def Let_def z u s w n5 using assms(1) by (simp add: EncodeFixed32_def)
qed

lemma Status_text:
  assumes "code \<noteq> 0" "length (message m n) + 5 < 2 ^ 32" "Status_make code m n = Some s"
  shows "Status_ToString unknown (Some s) = Some (type_text unknown code @ message m n)" "Status_code (Some s) = code"
    "Status_copy (Some s) = Some (Some s)"
proof -
  have s: "s = EncodeFixed32 (of_nat (length (message m n))) @ [code] @ message m n"
    using Status_make_holds [OF assms(1,2)] assms(3) by simp
  have u: "unat (of_nat (length (message m n)) :: u32) = length (message m n)" using assms(2) by (intro unat_of_nat_id) simp
  have n5: "unat (of_nat (length (message m n)) + 5 :: u32) = length (message m n) + 5"
  proof -
    have "(of_nat (length (message m n)) + 5 :: u32) = of_nat (length (message m n) + 5)" by simp
    then show ?thesis using assms(2) unat_of_nat_id [of "length (message m n) + 5", where ?'a = 32] by simp
  qed
  show "Status_ToString unknown (Some s) = Some (type_text unknown code @ message m n)"
    unfolding s by (simp add: Status_ToString_def nth_append u)
  show "Status_code (Some s) = code" unfolding s by (simp add: Status_code_def nth_append)
  show "Status_copy (Some s) = Some (Some s)" unfolding s by (simp add: Status_copy_def CopyState_def Let_def n5)
qed

end
