(* ===== verification/Lv_Batch.thy ===== *)
theory Lv_Batch
  imports Lv_Memtable Lv_Status
begin

unbundle bit_operations_syntax

section \<open>Write batches (leveldb db/write_batch)\<close>

text \<open>
  A batch is its \<^verbatim>\<open>rep_\<close>: a sequence number, a count and a list of records. \<^verbatim>\<open>Iterate\<close> calls a handler for each
  record; the handler is a pair of functions on a state. \<open>None\<close> is a load or store outside \<^verbatim>\<open>rep_\<close>, or a signed
  overflow of a count.
\<close>

definition kHeader :: nat where "kHeader = 12"

definition WriteBatch_Clear :: slice where "WriteBatch_Clear = replicate kHeader 0"

definition Batch_Count :: "slice \<Rightarrow> int option" where
  "Batch_Count rep = map_option sint (DecodeFixed32 (drop 8 rep))"

definition Batch_SetCount :: "slice \<Rightarrow> int \<Rightarrow> slice option" where
  "Batch_SetCount rep n =
     (if length rep < kHeader then None else Some (take 8 rep @ EncodeFixed32 (word_of_int n) @ drop 12 rep))"

definition Batch_Sequence :: "slice \<Rightarrow> u64 option" where "Batch_Sequence rep = DecodeFixed64 rep"

definition Batch_SetSequence :: "slice \<Rightarrow> u64 \<Rightarrow> slice option" where
  "Batch_SetSequence rep s = (if length rep < 8 then None else Some (EncodeFixed64 s @ drop 8 rep))"

text \<open>The sum of two \<^verbatim>\<open>int\<close>s.\<close>

definition int_add :: "int \<Rightarrow> int \<Rightarrow> int option" where
  "int_add a b = (if - (2 ^ 31) \<le> a + b \<and> a + b < 2 ^ 31 then Some (a + b) else None)"

definition WriteBatch_Put :: "slice \<Rightarrow> slice \<Rightarrow> slice \<Rightarrow> slice option" where
  "WriteBatch_Put rep k v =
     do {
       c \<leftarrow> Batch_Count rep;
       n \<leftarrow> int_add c 1;
       rep \<leftarrow> Batch_SetCount rep n;
       Some (PutLengthPrefixedSlice (PutLengthPrefixedSlice (rep @ [kTypeValue]) k) v)
     }"

definition WriteBatch_Delete :: "slice \<Rightarrow> slice \<Rightarrow> slice option" where
  "WriteBatch_Delete rep k =
     do {
       c \<leftarrow> Batch_Count rep;
       n \<leftarrow> int_add c 1;
       rep \<leftarrow> Batch_SetCount rep n;
       Some (PutLengthPrefixedSlice (rep @ [kTypeDeletion]) k)
     }"

definition Batch_Append :: "slice \<Rightarrow> slice \<Rightarrow> slice option" where
  "Batch_Append dst src =
     do {
       c \<leftarrow> Batch_Count dst;
       d \<leftarrow> Batch_Count src;
       n \<leftarrow> int_add c d;
       dst \<leftarrow> Batch_SetCount dst n;
       if length src < kHeader then None else Some (dst @ drop kHeader src)
     }"

definition Batch_SetContents :: "slice \<Rightarrow> slice option" where
  "Batch_SetContents contents = (if kHeader \<le> length contents then Some contents else None)"

subsection \<open>Iterating\<close>

record 'h handler =
  h_put :: "slice \<Rightarrow> slice \<Rightarrow> 'h \<Rightarrow> 'h option"
  h_delete :: "slice \<Rightarrow> 'h \<Rightarrow> 'h option"

text \<open>The loop returns the status so far, the number of records found and the state of the handler.\<close>

function batch_loop :: "'h handler \<Rightarrow> slice \<Rightarrow> nat \<Rightarrow> 'h \<Rightarrow> (status \<times> nat \<times> 'h) option" where
  "batch_loop hnd [] found h = Some (OK, found, h)"
| "batch_loop hnd (tag # input) found h =
     (if 2 ^ 31 \<le> found + 1 then None
      else if tag = kTypeValue
      then (case GetLengthPrefixedSlice input of
          None \<Rightarrow> Some (Corruption (chars ''bad WriteBatch Put'') [], found + 1, h)
        | Some (k, input1) \<Rightarrow>
            (case GetLengthPrefixedSlice input1 of
               None \<Rightarrow> Some (Corruption (chars ''bad WriteBatch Put'') [], found + 1, h)
             | Some (v, input2) \<Rightarrow> do { h \<leftarrow> h_put hnd k v h; batch_loop hnd input2 (found + 1) h }))
      else if tag = kTypeDeletion
      then (case GetLengthPrefixedSlice input of
          None \<Rightarrow> Some (Corruption (chars ''bad WriteBatch Delete'') [], found + 1, h)
        | Some (k, input1) \<Rightarrow> do { h \<leftarrow> h_delete hnd k h; batch_loop hnd input1 (found + 1) h })
      else Some (Corruption (chars ''unknown WriteBatch tag'') [], found + 1, h))"
  by pat_completeness auto
termination
  by (relation "measure (\<lambda>(hnd, input, found, h). length input)")
    (auto dest!: GetLengthPrefixedSlice_shorter)

declare batch_loop.simps [simp del]

definition WriteBatch_Iterate :: "'h handler \<Rightarrow> slice \<Rightarrow> 'h \<Rightarrow> (status \<times> 'h) option" where
  "WriteBatch_Iterate hnd rep h =
     (if length rep < kHeader then Some (Corruption (chars ''malformed WriteBatch (too small)'') [], h)
      else do {
        (st, found, h) \<leftarrow> batch_loop hnd (drop kHeader rep) 0 h;
        if st \<noteq> OK then Some (st, h)
        else do {
          c \<leftarrow> Batch_Count rep;
          Some (if int found \<noteq> c then Corruption (chars ''WriteBatch has wrong count'') [] else OK, h)
        }
      })"

text \<open>The handler that inserts into a memtable; its state is the sequence number and the memtable.\<close>

definition MemTableInserter :: "compare \<Rightarrow> (u64 \<times> memtable) handler" where
  "MemTableInserter ucmp = \<lparr>
     h_put = (\<lambda>k v (s, m). map_option (\<lambda>m. (s + 1, m)) (MemTable_Add ucmp m s kTypeValue k v)),
     h_delete = (\<lambda>k (s, m). map_option (\<lambda>m. (s + 1, m)) (MemTable_Add ucmp m s kTypeDeletion k []))\<rparr>"

definition Batch_InsertInto :: "compare \<Rightarrow> slice \<Rightarrow> memtable \<Rightarrow> (status \<times> memtable) option" where
  "Batch_InsertInto ucmp rep m =
     do {
       s \<leftarrow> Batch_Sequence rep;
       (st, (_, m)) \<leftarrow> WriteBatch_Iterate (MemTableInserter ucmp) rep (s, m);
       Some (st, m)
     }"

subsection \<open>The bytes of a batch\<close>

datatype op = PutOp slice slice | DelOp slice

fun op_key :: "op \<Rightarrow> slice" where
  "op_key (PutOp k v) = k"
| "op_key (DelOp k) = k"

fun op_ok :: "op \<Rightarrow> bool" where
  "op_ok (PutOp k v) \<longleftrightarrow> length k < 2 ^ 32 \<and> length v < 2 ^ 32"
| "op_ok (DelOp k) \<longleftrightarrow> length k < 2 ^ 32"

fun op_bytes :: "op \<Rightarrow> slice" where
  "op_bytes (PutOp k v) = kTypeValue # PutLengthPrefixedSlice [] k @ PutLengthPrefixedSlice [] v"
| "op_bytes (DelOp k) = kTypeDeletion # PutLengthPrefixedSlice [] k"

definition batch_bytes :: "u64 \<Rightarrow> op list \<Rightarrow> slice" where
  "batch_bytes s ops = EncodeFixed64 s @ EncodeFixed32 (of_nat (length ops)) @ concat (map op_bytes ops)"

text \<open>The calls that build a batch, and what a handler makes of them.\<close>

fun add_op :: "slice \<Rightarrow> op \<Rightarrow> slice option" where
  "add_op rep (PutOp k v) = WriteBatch_Put rep k v"
| "add_op rep (DelOp k) = WriteBatch_Delete rep k"

fun add_ops :: "slice \<Rightarrow> op list \<Rightarrow> slice option" where
  "add_ops rep [] = Some rep"
| "add_ops rep (p # ps) = do { rep \<leftarrow> add_op rep p; add_ops rep ps }"

fun handle_op :: "'h handler \<Rightarrow> op \<Rightarrow> 'h \<Rightarrow> 'h option" where
  "handle_op hnd (PutOp k v) h = h_put hnd k v h"
| "handle_op hnd (DelOp k) h = h_delete hnd k h"

fun handle_ops :: "'h handler \<Rightarrow> op list \<Rightarrow> 'h \<Rightarrow> 'h option" where
  "handle_ops hnd [] h = Some h"
| "handle_ops hnd (p # ps) h = do { h \<leftarrow> handle_op hnd p h; handle_ops hnd ps h }"

lemma batch_Count: "length ops < 2 ^ 31 \<Longrightarrow> Batch_Count (batch_bytes s ops) = Some (int (length ops))"
proof -
  assume l: "length ops < 2 ^ 31"
  have "sint (of_nat (length ops) :: u32) = int (length ops)"
    using l by (simp add: signed_of_nat signed_take_bit_int_eq_self)
  then show ?thesis by (simp add: Batch_Count_def batch_bytes_def)
qed

lemma batch_add_op:
  assumes "length ops + 1 < 2 ^ 31"
  shows "add_op (batch_bytes s ops) p = Some (batch_bytes s (ops @ [p]))"
proof -
  have c: "Batch_Count (batch_bytes s ops) = Some (int (length ops))" using assms by (intro batch_Count) simp
  have n: "int_add (int (length ops)) 1 = Some (int (length ops + 1))" using assms by (simp add: int_add_def)
  have s: "Batch_SetCount (batch_bytes s ops) (int (length ops + 1)) =
      Some (EncodeFixed64 s @ EncodeFixed32 (of_nat (length ops + 1)) @ concat (map op_bytes ops))"
    by (simp add: Batch_SetCount_def batch_bytes_def kHeader_def)
  have b: "EncodeFixed64 s @ EncodeFixed32 (of_nat (length ops + 1)) @ concat (map op_bytes ops) @ op_bytes p =
      batch_bytes s (ops @ [p])"
    by (simp add: batch_bytes_def)
  have add: "add_op r p = do { c \<leftarrow> Batch_Count r; n \<leftarrow> int_add c 1; r \<leftarrow> Batch_SetCount r n; Some (r @ op_bytes p) }" for r
    by (cases p) (simp_all add: WriteBatch_Put_def WriteBatch_Delete_def
        PutLengthPrefixed_append [of "PutLengthPrefixedSlice _ _"] PutLengthPrefixed_append [of "_ @ _"])
  show ?thesis unfolding add c bind.bind_lunit n s append_assoc b ..
qed

lemma batch_add_ops:
  "length ops + length ps < 2 ^ 31 \<Longrightarrow> add_ops (batch_bytes s ops) ps = Some (batch_bytes s (ops @ ps))"
  by (induction ps arbitrary: ops) (simp_all add: batch_add_op)

lemma batch_Clear: "WriteBatch_Clear = batch_bytes 0 []"
  by (simp add: WriteBatch_Clear_def batch_bytes_def kHeader_def EncodeFixed64_def EncodeFixed32_def le_bytes_def
      numeral_eq_Suc)

lemma batch_Sequence:
  "Batch_Sequence (batch_bytes s ops) = Some s" "Batch_SetSequence (batch_bytes s ops) t = Some (batch_bytes t ops)"
  by (simp_all add: Batch_Sequence_def Batch_SetSequence_def batch_bytes_def)

lemma batch_Append:
  assumes "length ops + length ps < 2 ^ 31"
  shows "Batch_Append (batch_bytes s ops) (batch_bytes t ps) = Some (batch_bytes s (ops @ ps))"
proof -
  have "int_add (int (length ops)) (int (length ps)) = Some (int (length ops + length ps))"
    using assms by (simp add: int_add_def)
  moreover have "Batch_SetCount (batch_bytes s ops) (int (length ops + length ps)) =
      Some (EncodeFixed64 s @ EncodeFixed32 (of_nat (length ops + length ps)) @ concat (map op_bytes ops))"
    by (simp add: Batch_SetCount_def batch_bytes_def kHeader_def)
  moreover have "kHeader \<le> length (batch_bytes t ps)" "drop kHeader (batch_bytes t ps) = concat (map op_bytes ps)"
    by (simp_all add: batch_bytes_def kHeader_def)
  ultimately show ?thesis using assms by (simp add: Batch_Append_def batch_Count not_less) (simp add: batch_bytes_def)
qed

subsection \<open>Iterating over a batch\<close>

lemma types_differ [simp]: "kTypeDeletion \<noteq> kTypeValue" "kTypeValue \<noteq> kTypeDeletion"
  by (simp_all add: kTypeDeletion_def kTypeValue_def)

text \<open>The record at the front of an input, or the error of a bad one; a step of the loop reads a record.\<close>

definition get_op :: "slice \<Rightarrow> status + op \<times> slice" where
  "get_op s =
     (if hd s = kTypeValue
      then (case GetLengthPrefixedSlice (tl s) of
          None \<Rightarrow> Inl (Corruption (chars ''bad WriteBatch Put'') [])
        | Some (k, s1) \<Rightarrow>
            (case GetLengthPrefixedSlice s1 of
               None \<Rightarrow> Inl (Corruption (chars ''bad WriteBatch Put'') [])
             | Some (v, s2) \<Rightarrow> Inr (PutOp k v, s2)))
      else if hd s = kTypeDeletion
      then (case GetLengthPrefixedSlice (tl s) of
          None \<Rightarrow> Inl (Corruption (chars ''bad WriteBatch Delete'') [])
        | Some (k, s1) \<Rightarrow> Inr (DelOp k, s1))
      else Inl (Corruption (chars ''unknown WriteBatch tag'') []))"

lemma batch_loop_step:
  assumes "s \<noteq> []"
  shows "batch_loop hnd s found h =
    (if 2 ^ 31 \<le> found + 1 then None
     else case get_op s of
       Inl err \<Rightarrow> Some (err, found + 1, h)
     | Inr (p, rest) \<Rightarrow> do { h \<leftarrow> handle_op hnd p h; batch_loop hnd rest (found + 1) h })"
proof -
  obtain tag input where "s = tag # input" using assms by (cases s) auto
  then show ?thesis
    by (auto simp: batch_loop.simps(2) get_op_def split: option.splits prod.splits)
qed

lemma get_op_bytes: "op_ok p \<Longrightarrow> get_op (op_bytes p @ rest) = Inr (p, rest)"
  by (cases p) (simp_all add: get_op_def lv_string.get_put)

lemma get_op_append: "s \<noteq> [] \<Longrightarrow> get_op s = Inr (p, rest) \<Longrightarrow> get_op (s @ q) = Inr (p, rest @ q)"
  by (auto simp: get_op_def GetLengthPrefixedSlice_append split: option.splits prod.splits if_splits)

lemma get_op_shorter: "s \<noteq> [] \<Longrightarrow> get_op s = Inr (p, rest) \<Longrightarrow> length rest < length s"
  by (cases s) (auto simp: get_op_def split: option.splits prod.splits if_splits dest!: GetLengthPrefixedSlice_shorter)

lemma get_op_error: "get_op s = Inl err \<Longrightarrow> err \<noteq> OK"
  by (auto simp: get_op_def split: option.splits prod.splits if_splits)

lemma batch_loop_op:
  assumes "op_ok p" "found + 1 < 2 ^ 31"
  shows "batch_loop hnd (op_bytes p @ rest) found h = do { h \<leftarrow> handle_op hnd p h; batch_loop hnd rest (found + 1) h }"
proof -
  have "op_bytes p @ rest \<noteq> []" by (cases p) simp_all
  then show ?thesis using assms by (simp add: batch_loop_step get_op_bytes not_le)
qed

lemma batch_loop_ops:
  "\<forall>p \<in> set ops. op_ok p \<Longrightarrow> found + length ops < 2 ^ 31 \<Longrightarrow>
    batch_loop hnd (concat (map op_bytes ops)) found h = map_option (\<lambda>h. (OK, found + length ops, h)) (handle_ops hnd ops h)"
proof (induction ops arbitrary: found h)
  case (Cons p ops)
  show ?case
  proof (cases "handle_op hnd p h")
    case None
    then show ?thesis using Cons.prems by (simp add: batch_loop_op)
  next
    case (Some h')
    have "batch_loop hnd (concat (map op_bytes ops)) (found + 1) h' =
        map_option (\<lambda>h. (OK, found + 1 + length ops, h)) (handle_ops hnd ops h')"
      using Cons.prems by (intro Cons.IH) simp_all
    then show ?thesis using Cons.prems Some batch_loop_op [of p found hnd "concat (map op_bytes ops)" h] by simp
  qed
qed (simp add: batch_loop.simps(1))

lemma batch_parts:
  "length (batch_bytes s ops) = kHeader + length (concat (map op_bytes ops))"
  "drop kHeader (batch_bytes s ops) = concat (map op_bytes ops)"
  by (simp_all add: batch_bytes_def kHeader_def)

lemma batch_Iterate:
  assumes "\<forall>p \<in> set ops. op_ok p" "length ops < 2 ^ 31"
  shows "WriteBatch_Iterate hnd (batch_bytes s ops) h = map_option (\<lambda>h. (OK, h)) (handle_ops hnd ops h)"
proof -
  have "batch_loop hnd (concat (map op_bytes ops)) 0 h = map_option (\<lambda>h. (OK, length ops, h)) (handle_ops hnd ops h)"
    using batch_loop_ops [OF assms(1), of 0 hnd h] assms(2) by simp
  then show ?thesis
    unfolding WriteBatch_Iterate_def batch_parts
    by (cases "handle_ops hnd ops h") (simp_all add: batch_Count [OF assms(2)])
qed

subsection \<open>A batch that was cut short\<close>

text \<open>What the loop does on an input does not depend on what follows it.\<close>

lemma batch_loop_append:
  "batch_loop hnd p found h = Some (OK, found', h') \<Longrightarrow> batch_loop hnd (p @ q) found h = batch_loop hnd q found' h'"
proof (induction "length p" arbitrary: p found h rule: less_induct)
  case less
  show ?case
  proof (cases "p = []")
    case True
    then show ?thesis using less.prems by (simp add: batch_loop.simps(1))
  next
    case False
    then obtain r rest h1 where g: "\<not> 2 ^ 31 \<le> found + 1" "get_op p = Inr (r, rest)" "handle_op hnd r h = Some h1"
      "batch_loop hnd rest (found + 1) h1 = Some (OK, found', h')"
      using less.prems
      by (auto simp: batch_loop_step split: sum.splits prod.splits Option.bind_splits if_splits dest: get_op_error)
    have "batch_loop hnd (rest @ q) (found + 1) h1 = batch_loop hnd q found' h'"
      by (rule less.hyps [OF get_op_shorter [OF False g(2)] g(4)])
    then show ?thesis
      using False g(1,3) get_op_append [OF False g(2), of q] by (simp add: batch_loop_step)
  qed
qed

lemma batch_loop_found:
  "batch_loop hnd p found h = Some (OK, found', h') \<Longrightarrow> found \<le> found' \<and> (p \<noteq> [] \<longrightarrow> found < found')"
proof (induction "length p" arbitrary: p found h rule: less_induct)
  case less
  show ?case
  proof (cases "p = []")
    case True
    then show ?thesis using less.prems by (simp add: batch_loop.simps(1))
  next
    case False
    then obtain r rest h1 where g: "get_op p = Inr (r, rest)"
      "batch_loop hnd rest (found + 1) h1 = Some (OK, found', h')"
      using less.prems
      by (auto simp: batch_loop_step split: sum.splits prod.splits Option.bind_splits if_splits dest: get_op_error)
    from less.hyps [OF get_op_shorter [OF False g(1)] g(2)] show ?thesis by auto
  qed
qed

text \<open>
  A prefix of an accepted batch is not accepted: its last record is cut, or its count is wrong. A prefix that is
  shorter than the header is refused without looking at it.
\<close>

lemma batch_prefix_refused:
  assumes "WriteBatch_Iterate hnd (p @ q) h = Some (OK, h1)" "q \<noteq> []"
  shows "WriteBatch_Iterate hnd p h \<noteq> Some (OK, h2)"
proof
  assume ok: "WriteBatch_Iterate hnd p h = Some (OK, h2)"
  then have len: "kHeader \<le> length p" by (auto simp: WriteBatch_Iterate_def split: if_splits)
  obtain f c where f: "batch_loop hnd (drop kHeader p) 0 h = Some (OK, f, h2)" "Batch_Count p = Some c" "int f = c"
    using ok len by (auto simp: WriteBatch_Iterate_def split: if_splits Option.bind_splits)
  obtain f' c' where f': "batch_loop hnd (drop kHeader (p @ q)) 0 h = Some (OK, f', h1)" "Batch_Count (p @ q) = Some c'" "int f' = c'"
    using assms(1) len by (auto simp: WriteBatch_Iterate_def split: if_splits Option.bind_splits)
  have "Batch_Count (p @ q) = Batch_Count p" using len by (simp add: Batch_Count_def DecodeFixed32_def kHeader_def)
  then have "f' = f" using f(2,3) f'(2,3) by simp
  moreover have "batch_loop hnd q f h2 = Some (OK, f', h1)"
    using batch_loop_append [OF f(1), of q] f'(1) len by simp
  from batch_loop_found [OF this] have "f < f'" using assms(2) by simp
  ultimately show False by simp
qed

subsection \<open>A batch applied to a memtable\<close>

definition op_entry :: "u64 \<Rightarrow> op \<Rightarrow> entry" where
  "op_entry s p = \<lparr>e_key = op_key p, e_seq = s, e_type = (case p of PutOp k v \<Rightarrow> kTypeValue | DelOp k \<Rightarrow> kTypeDeletion),
     e_value = (case p of PutOp k v \<Rightarrow> v | DelOp k \<Rightarrow> [])\<rparr>"

fun op_entries :: "u64 \<Rightarrow> op list \<Rightarrow> entry list" where
  "op_entries s [] = []"
| "op_entries s (p # ps) = op_entry s p # op_entries (s + 1) ps"

lemma entry_op_ok:
  assumes "op_ok p" "length (op_key p) + 8 < 2 ^ 32" "s \<le> kMaxSequenceNumber"
  shows "entry_ok (\<lambda>_. True) (op_entry s p)"
  using assms by (cases p) (auto simp: entry_ok_def op_entry_def kTypeValue_def kTypeDeletion_def)

lemma handle_op_insert:
  "handle_op (MemTableInserter ucmp) p (s, m) = map_option (\<lambda>m. (s + 1, m))
     (MemTable_Add ucmp m (e_seq (op_entry s p)) (e_type (op_entry s p)) (e_key (op_entry s p)) (e_value (op_entry s p)))"
  by (cases p) (simp_all add: MemTableInserter_def op_entry_def)

lemma seq_step: "unat s + Suc n \<le> unat kMaxSequenceNumber \<Longrightarrow> unat (s + 1) = unat s + 1" for s :: u64
  by (simp add: kMaxSequenceNumber_def unat_plus_if')

context comparator
begin

lemma handle_ops_rep:
  assumes "mem_rep cmp valid m es" "\<forall>p \<in> set ops. op_ok p \<and> length (op_key p) + 8 < 2 ^ 32 \<and> valid (op_key p)"
    "unat s + length ops \<le> unat kMaxSequenceNumber" "\<forall>a \<in> set es. e_seq a < s"
    "sorted_wrt (\<lambda>a b. e_seq a < e_seq b) es"
  shows "\<exists>m'. handle_ops (MemTableInserter cmp) ops (s, m) = Some (s + of_nat (length ops), m') \<and>
    mem_rep cmp valid m' (es @ op_entries s ops) \<and> sorted_wrt (\<lambda>a b. e_seq a < e_seq b) (es @ op_entries s ops)"
  using assms
proof (induction ops arbitrary: s m es)
  case (Cons p ops)
  let ?e = "op_entry s p"
  have seq: "e_seq ?e = s" by (simp add: op_entry_def)
  have step: "unat (s + 1) = unat s + 1" using Cons.prems(3) by (intro seq_step [of _ "length ops"]) simp
  have "s \<le> kMaxSequenceNumber" using Cons.prems(3) by (simp add: word_le_nat_alt)
  then have ok: "entry_ok valid ?e"
    using Cons.prems(2) entry_op_ok [of p s] by (auto simp: entry_ok_def op_entry_def)
  obtain m1 where m1: "MemTable_Add cmp m (e_seq ?e) (e_type ?e) (e_key ?e) (e_value ?e) = Some m1"
    "mem_rep cmp valid m1 (es @ [?e])"
    using MemTable_Add_rep [OF Cons.prems(1) ok] Cons.prems(4) unfolding seq by blast
  have less: "\<forall>a \<in> set (es @ [?e]). e_seq a < s + 1"
    using Cons.prems(4) step seq by (auto simp: word_less_nat_alt)
  have sorted: "sorted_wrt (\<lambda>a b. e_seq a < e_seq b) (es @ [?e])"
    using Cons.prems(4,5) seq by (simp add: sorted_wrt_append)
  have "unat (s + 1) + length ops \<le> unat kMaxSequenceNumber" using Cons.prems(3) step by simp
  from Cons.IH [OF m1(2) _ this less sorted] Cons.prems(2) obtain m' where
    "handle_ops (MemTableInserter cmp) ops (s + 1, m1) = Some (s + 1 + of_nat (length ops), m')"
    "mem_rep cmp valid m' ((es @ [?e]) @ op_entries (s + 1) ops)"
    "sorted_wrt (\<lambda>a b. e_seq a < e_seq b) ((es @ [?e]) @ op_entries (s + 1) ops)" by auto
  then show ?case using m1(1) by (auto simp: handle_op_insert algebra_simps)
qed simp

lemma InsertInto_rep:
  assumes "mem_rep cmp valid m es" "\<forall>p \<in> set ops. op_ok p \<and> length (op_key p) + 8 < 2 ^ 32 \<and> valid (op_key p)"
    "unat s + length ops \<le> unat kMaxSequenceNumber" "\<forall>a \<in> set es. e_seq a < s"
    "sorted_wrt (\<lambda>a b. e_seq a < e_seq b) es" "length ops < 2 ^ 31"
  shows "\<exists>m'. Batch_InsertInto cmp (batch_bytes s ops) m = Some (OK, m') \<and>
    mem_rep cmp valid m' (es @ op_entries s ops) \<and> sorted_wrt (\<lambda>a b. e_seq a < e_seq b) (es @ op_entries s ops)"
proof -
  obtain m' where m': "handle_ops (MemTableInserter cmp) ops (s, m) = Some (s + of_nat (length ops), m')"
    "mem_rep cmp valid m' (es @ op_entries s ops)" "sorted_wrt (\<lambda>a b. e_seq a < e_seq b) (es @ op_entries s ops)"
    using handle_ops_rep [OF assms(1-5)] by blast
  have "\<forall>p \<in> set ops. op_ok p" using assms(2) by blast
  then show ?thesis
    using m' batch_Iterate [OF _ assms(6), of "MemTableInserter cmp" s "(s, m)"]
    by (auto simp: Batch_InsertInto_def batch_Sequence)
qed

end

text \<open>The last operation of a list on a key.\<close>

definition last_write :: "op list \<Rightarrow> slice \<Rightarrow> get_result" where
  "last_write ops u =
     (case rev (filter (\<lambda>p. op_key p = u) ops) of
        [] \<Rightarrow> Missing
      | PutOp k v # _ \<Rightarrow> Found v
      | DelOp k # _ \<Rightarrow> Deleted)"

lemma op_entries_append: "op_entries s (ps @ qs) = op_entries s ps @ op_entries (s + of_nat (length ps)) qs"
  by (induction ps arbitrary: s) (simp_all add: algebra_simps)

lemma mem_lookup_snoc:
  "mem_lookup ucmp (es @ [e]) u s = (if sees ucmp u s e then outcome_of e else mem_lookup ucmp es u s)"
  by (simp add: mem_lookup_def)

lemma last_write_snoc:
  "last_write (ps @ [p]) u =
    (if op_key p = u then (case p of PutOp k v \<Rightarrow> Found v | DelOp k \<Rightarrow> Deleted) else last_write ps u)"
  by (cases p) (simp_all add: last_write_def)

text \<open>Looking up with a sequence number that sees \<open>n\<close> of the operations is reading after the first \<open>n\<close>.\<close>

lemma lookup_op_entries:
  "unat s + length ops \<le> unat kMaxSequenceNumber \<Longrightarrow>
    mem_lookup Slice_compare (op_entries s ops) u t = last_write (take (unat t + 1 - unat s) ops) u"
proof (induction ops rule: rev_induct)
  case (snoc p ops)
  let ?n = "unat t + 1 - unat s"
  let ?q = "s + of_nat (length ops) :: u64"
  have max: "unat kMaxSequenceNumber < 2 ^ 64" by (simp add: kMaxSequenceNumber_def)
  have "unat (of_nat (length ops) :: u64) = length ops" using snoc.prems max by (intro unat_of_nat_id) simp
  then have q: "unat ?q = unat s + length ops" using snoc.prems max by (simp add: unat_plus_if')
  have e: "op_entries s (ops @ [p]) = op_entries s ops @ [op_entry ?q p]" by (simp add: op_entries_append)
  have sees: "sees Slice_compare u t (op_entry ?q p) \<longleftrightarrow> op_key p = u \<and> length ops < ?n"
    using q by (auto simp: sees_def op_entry_def word_le_nat_alt)
  have out: "outcome_of (op_entry ?q p) = (case p of PutOp k v \<Rightarrow> Found v | DelOp k \<Rightarrow> Deleted)"
    by (cases p) (simp_all add: outcome_of_def op_entry_def)
  have ih: "mem_lookup Slice_compare (op_entries s ops) u t = last_write (take ?n ops) u" using snoc by simp
  show ?case
  proof (cases "length ops < ?n")
    case True
    then have "take ?n (ops @ [p]) = ops @ [p]" "take ?n ops = ops" by simp_all
    then show ?thesis unfolding e mem_lookup_snoc sees out ih using True by (simp add: last_write_snoc)
  next
    case False
    then show ?thesis unfolding e mem_lookup_snoc sees ih by simp
  qed
qed (simp add: mem_lookup_def last_write_def)

end
