(* ===== verification/Lv_Block.thy ===== *)
theory Lv_Block
  imports Lv_Key
begin

unbundle bit_operations_syntax

section \<open>Blocks of a table (leveldb table/block_builder, table/block)\<close>

text \<open>
  A block holds key/value pairs in the order of their keys. A key is stored without the prefix it shares
  with the key before it, except at the restart points, whose offsets stand at the block's end; a
  reader finds a key by a binary search among the restart points and a scan from there.

  The comparator is an argument. In the iterator \<open>Ok\<close> is \<^verbatim>\<open>true\<close> (or returning), \<open>Fail\<close> is \<^verbatim>\<open>false\<close>, \<open>Fault\<close> a
  failed assertion, a pointer or a read outside the block, or an undefined pointer difference; \<open>Loop\<close> is a binary search
  that has used up its fuel, one round for each restart point, which happens only if the 32-bit
  sum of two indices wraps. Offsets and indices are 32-bit words, as in the code.
\<close>

subsection \<open>The builder\<close>

record block_options =
  opt_comparator :: compare
  block_restart_interval :: nat

record block_builder =
  bb_buffer :: slice
  bb_restarts :: "u32 list"
  bb_counter :: nat
  bb_finished :: bool
  bb_last_key :: slice

definition BlockBuilder :: "block_options \<Rightarrow> block_builder option" where
  "BlockBuilder options =
     (if 1 \<le> block_restart_interval options
      then Some \<lparr>bb_buffer = [], bb_restarts = [0], bb_counter = 0, bb_finished = False, bb_last_key = []\<rparr>
      else None)"

definition BlockBuilder_Reset :: "block_builder \<Rightarrow> block_builder" where
  "BlockBuilder_Reset b =
     b\<lparr>bb_buffer := [], bb_restarts := [0], bb_counter := 0, bb_finished := False, bb_last_key := []\<rparr>"

definition CurrentSizeEstimate :: "block_builder \<Rightarrow> nat" where
  "CurrentSizeEstimate b = length (bb_buffer b) + length (bb_restarts b) * 4 + 4"

definition BlockBuilder_Finish :: "block_builder \<Rightarrow> slice \<times> block_builder" where
  "BlockBuilder_Finish b =
     (let buffer = PutFixed32 (foldl PutFixed32 (bb_buffer b) (bb_restarts b)) (of_nat (length (bb_restarts b)))
      in (buffer, b\<lparr>bb_buffer := buffer, bb_finished := True\<rparr>))"

definition BlockBuilder_Add :: "block_options \<Rightarrow> slice \<Rightarrow> slice \<Rightarrow> block_builder \<Rightarrow> block_builder option" where
  "BlockBuilder_Add options key val b =
     (if bb_finished b \<or> block_restart_interval options < bb_counter b \<or>
         \<not> (bb_buffer b = [] \<or> 0 < opt_comparator options key (bb_last_key b))
      then None
      else
        let share = bb_counter b < block_restart_interval options;
            shared = (if share then common_prefix (bb_last_key b) key else 0);
            restarts = (if share then bb_restarts b else bb_restarts b @ [of_nat (length (bb_buffer b))]);
            counter = (if share then bb_counter b else 0);
            non_shared = length key - shared;
            buffer = PutVarint32 (PutVarint32 (PutVarint32 (bb_buffer b) (of_nat shared)) (of_nat non_shared))
              (of_nat (length val));
            last_key = take shared (bb_last_key b) @ take non_shared (drop shared key)
        in if last_key \<noteq> key then None
           else Some (b\<lparr>bb_buffer := buffer @ take non_shared (drop shared key) @ val, bb_restarts := restarts,
             bb_counter := counter + 1, bb_last_key := last_key\<rparr>))"

fun add_all :: "block_options \<Rightarrow> (slice \<times> slice) list \<Rightarrow> block_builder \<Rightarrow> block_builder option" where
  "add_all options [] b = Some b"
| "add_all options ((k, v) # kvs) b =
     (case BlockBuilder_Add options k v b of None \<Rightarrow> None | Some b1 \<Rightarrow> add_all options kvs b1)"

subsection \<open>Entries\<close>

text \<open>
  The entry at \<open>p\<close>: its three lengths and where its key delta starts. The two lengths are added in 32 bits
  before they are compared with the room there is.
\<close>

definition DecodeEntry :: "slice \<Rightarrow> nat \<Rightarrow> nat \<Rightarrow> (u32 \<times> u32 \<times> u32 \<times> nat) option" where
  "DecodeEntry data p limit =
     (if limit < p + 3 then None
      else
        let q = drop p (take limit data); s = ucast (q ! 0); n = ucast (q ! 1); v = ucast (q ! 2) in
        case (if s OR n OR v < (128 :: u32) then Some (s, n, v, drop 3 q)
              else case GetVarint32Ptr q of None \<Rightarrow> None
                | Some (s, q1) \<Rightarrow> (case GetVarint32Ptr q1 of None \<Rightarrow> None
                | Some (n, q2) \<Rightarrow> (case GetVarint32Ptr q2 of None \<Rightarrow> None
                | Some (v, q3) \<Rightarrow> Some (s, n, v, q3)))) of
          None \<Rightarrow> None
        | Some (s, n, v, q3) \<Rightarrow> if of_nat (length q3) < n + v then None else Some (s, n, v, limit - length q3))"

subsection \<open>Blocks\<close>

text \<open>\<open>restart_offset_\<close> is left unset for a malformed block, and then not read.\<close>

record block =
  bl_data :: slice
  bl_size :: nat
  bl_restart_offset :: u32

definition NumRestarts :: "slice \<Rightarrow> nat \<Rightarrow> u32 option" where
  "NumRestarts data n = (if 4 \<le> n then DecodeFixed32 (drop (n - 4) data) else None)"

definition Block :: "slice \<Rightarrow> block option" where
  "Block contents =
     (let n = length contents in
      if n < 4 then Some \<lparr>bl_data = contents, bl_size = 0, bl_restart_offset = 0\<rparr>
      else case NumRestarts contents n of
        None \<Rightarrow> None
      | Some num \<Rightarrow>
          if (n - 4) div 4 < unat num then Some \<lparr>bl_data = contents, bl_size = 0, bl_restart_offset = 0\<rparr>
          else Some \<lparr>bl_data = contents, bl_size = n, bl_restart_offset = of_nat n - (1 + num) * 4\<rparr>)"

record block_iter =
  it_data :: slice
  it_restarts :: u32
  it_num :: u32
  it_current :: u32
  it_index :: u32
  it_key :: slice
  it_value :: "(nat \<times> nat) option"
  it_ok :: bool

text \<open>
  An iterator's value is a slice of the block, given by its offset and length, or the empty slice, which
  points elsewhere (\<open>None\<close>). An iterator over a malformed block has an error status, one over a block without
  restart points is empty; neither is ever valid.
\<close>

datatype iter = ErrorIterator | EmptyIterator | Iter block_iter

definition new_iter :: "slice \<Rightarrow> u32 \<Rightarrow> u32 \<Rightarrow> block_iter option" where
  "new_iter data restarts num_restarts =
     (if 0 < num_restarts
      then Some \<lparr>it_data = data, it_restarts = restarts, it_num = num_restarts, it_current = restarts,
        it_index = num_restarts, it_key = [], it_value = None, it_ok = True\<rparr>
      else None)"

definition NewIterator :: "block \<Rightarrow> iter option" where
  "NewIterator b =
     (if bl_size b < 4 then Some ErrorIterator
      else case NumRestarts (bl_data b) (bl_size b) of
        None \<Rightarrow> None
      | Some num \<Rightarrow>
          if num = 0 then Some EmptyIterator else map_option Iter (new_iter (bl_data b) (bl_restart_offset b) num))"

subsection \<open>The iterator\<close>

definition Valid :: "block_iter \<Rightarrow> bool" where "Valid it \<longleftrightarrow> it_current it < it_restarts it"

definition iter_key :: "block_iter \<Rightarrow> slice option" where
  "iter_key it = (if Valid it then Some (it_key it) else None)"

definition iter_value :: "block_iter \<Rightarrow> slice option" where
  "iter_value it =
     (if Valid it
      then (case it_value it of
          None \<Rightarrow> Some []
        | Some (p, n) \<Rightarrow> if p + n \<le> length (it_data it) then Some (take n (drop p (it_data it))) else None)
      else None)"

text \<open>
  Pointers into a block are offsets; a pointer farther than one past its end is undefined. The end of a value that leaves the
  block is \<open>None\<close> here, as is the end of the empty slice, which does not point into the block.
\<close>

definition NextEntryOffset :: "block_iter \<Rightarrow> u32 option" where
  "NextEntryOffset it =
     (case it_value it of
        None \<Rightarrow> None
      | Some (p, n) \<Rightarrow> if p + n \<le> length (it_data it) then Some (of_nat (p + n)) else None)"

definition GetRestartPoint :: "block_iter \<Rightarrow> u32 \<Rightarrow> u32 option" where
  "GetRestartPoint it i =
     (if i < it_num it then DecodeFixed32 (drop (unat (it_restarts it) + unat i * 4) (it_data it)) else None)"

definition SeekToRestartPoint :: "u32 \<Rightarrow> block_iter \<Rightarrow> (unit, block_iter) outcome" where
  "SeekToRestartPoint i it =
     (case GetRestartPoint it i of
        None \<Rightarrow> Fault
      | Some offset \<Rightarrow>
          if length (it_data it) < unat offset then Fault
          else Ok () (it\<lparr>it_key := [], it_index := i, it_value := Some (unat offset, 0)\<rparr>))"

definition CorruptionError :: "block_iter \<Rightarrow> block_iter" where
  "CorruptionError it =
     it\<lparr>it_current := it_restarts it, it_index := it_num it, it_ok := False, it_key := [], it_value := None\<rparr>"

text \<open>The loop that moves the restart index up to the entry just parsed.\<close>

function advance_index :: "block_iter \<Rightarrow> (unit, block_iter) outcome" where
  "advance_index it =
     (if it_index it + 1 < it_num it
      then (case GetRestartPoint it (it_index it + 1) of
          None \<Rightarrow> Fault
        | Some offset \<Rightarrow>
            if offset < it_current it then advance_index (it\<lparr>it_index := it_index it + 1\<rparr>) else Ok () it)
      else Ok () it)"
  by pat_completeness auto
termination
proof (relation "measure (\<lambda>it. if it_index it = - 1 then unat (it_num it) + 1 else unat (it_num it) - unat (it_index it))")
  fix it :: block_iter and x
  assume less: "it_index it + 1 < it_num it"
  show "(it\<lparr>it_index := it_index it + 1\<rparr>, it) \<in>
      measure (\<lambda>it. if it_index it = - 1 then unat (it_num it) + 1 else unat (it_num it) - unat (it_index it))"
  proof (cases "it_index it = - 1")
    case False
    then have "unat (it_index it + 1) = unat (it_index it) + 1"
      by (metis Suc_eq_plus1 add.commute unatSuc add_eq_0_iff)
    moreover have "it_index it + 1 \<noteq> - 1" using less by (metis word_order.extremum_strict)
    ultimately show ?thesis using less False by (simp add: word_less_nat_alt)
  qed simp
qed simp

declare advance_index.simps [simp del]

definition ParseNextKey :: "block_iter \<Rightarrow> (unit, block_iter) outcome" where
  "ParseNextKey it =
     (case NextEntryOffset it of
        None \<Rightarrow> Fault
      | Some current \<Rightarrow>
          if it_restarts it \<le> current
          then Fail (it\<lparr>it_current := it_restarts it, it_index := it_num it\<rparr>)
          else if length (it_data it) < unat (it_restarts it) then Fault
          else
            (case DecodeEntry (it_data it) (unat current) (unat (it_restarts it)) of
               None \<Rightarrow> Fail (CorruptionError it)
             | Some (shared, non_shared, value_length, p) \<Rightarrow>
                 if length (it_key it) < unat shared then Fail (CorruptionError it)
                 else if length (it_data it) < p + unat non_shared then Fault
                 else advance_index (it\<lparr>it_current := current,
                   it_key := take (unat shared) (it_key it) @ take (unat non_shared) (drop p (it_data it)),
                   it_value := Some (p + unat non_shared, unat value_length)\<rparr>)))"

definition Next :: "block_iter \<Rightarrow> (unit, block_iter) outcome" where
  "Next it =
     (if Valid it then (case ParseNextKey it of Fail it' \<Rightarrow> Ok () it' | r \<Rightarrow> r) else Fault)"

text \<open>A successful parse ends farther in the block than it began.\<close>

lemma advance_index_same:
  "advance_index it = Ok u it' \<Longrightarrow> it_data it' = it_data it \<and> it_restarts it' = it_restarts it \<and> it_num it' = it_num it \<and>
    it_current it' = it_current it \<and> it_key it' = it_key it \<and> it_value it' = it_value it \<and> it_ok it' = it_ok it"
proof (induction it rule: advance_index.induct)
  case (1 it)
  show ?case
  proof (cases "it_index it + 1 < it_num it")
    case less: True
    show ?thesis
    proof (cases "GetRestartPoint it (it_index it + 1)")
      case None
      then show ?thesis using 1(2) less by (simp add: advance_index.simps [of it])
    next
      case (Some x)
      then show ?thesis using 1(1) [OF less Some] 1(2) less by (auto simp: advance_index.simps [of it] split: if_splits)
    qed
  next
    case False
    then show ?thesis using 1(2) by (simp add: advance_index.simps [of it])
  qed
qed

lemma GetVarint32Ptr_shorter: "GetVarint32Ptr q = Some (x, r) \<Longrightarrow> length r < length q"
  using GetVarint32_consumes [of q x r] by (auto simp: GetVarint32_def)

definition entry_head :: "slice \<Rightarrow> (u32 \<times> u32 \<times> u32 \<times> slice) option" where
  "entry_head q =
     (let s = ucast (q ! 0); n = ucast (q ! 1); v = ucast (q ! 2) in
      if s OR n OR v < (128 :: u32) then Some (s, n, v, drop 3 q)
      else case GetVarint32Ptr q of None \<Rightarrow> None
        | Some (s, q1) \<Rightarrow> (case GetVarint32Ptr q1 of None \<Rightarrow> None
        | Some (n, q2) \<Rightarrow> (case GetVarint32Ptr q2 of None \<Rightarrow> None
        | Some (v, q3) \<Rightarrow> Some (s, n, v, q3))))"

lemma DecodeEntry_head:
  "DecodeEntry data p limit =
     (if limit < p + 3 then None
      else case entry_head (drop p (take limit data)) of
        None \<Rightarrow> None
      | Some (s, n, v, q3) \<Rightarrow> if of_nat (length q3) < n + v then None else Some (s, n, v, limit - length q3))"
  by (simp add: DecodeEntry_def entry_head_def Let_def)

lemma entry_head_shorter:
  assumes "entry_head q = Some (s, n, v, r)" "q \<noteq> []"
  shows "length r < length q"
  using assms
  by (auto simp: entry_head_def Let_def split: if_splits option.splits dest!: GetVarint32Ptr_shorter)

lemma DecodeEntry_room:
  assumes "DecodeEntry data p limit = Some (s, n, v, q)" "limit \<le> length data"
  shows "p < q \<and> q + unat (n + v) \<le> limit"
proof -
  let ?q = "drop p (take limit data)"
  obtain r where r: "p + 3 \<le> limit" "entry_head ?q = Some (s, n, v, r)" "q = limit - length r" "\<not> of_nat (length r) < n + v"
    using assms by (auto simp: DecodeEntry_head split: if_splits option.splits)
  have "?q \<noteq> []" using r(1) assms(2) by simp
  then have "length r < limit - p" using entry_head_shorter [OF r(2)] assms(2) by simp
  moreover have "unat (n + v) \<le> length r"
    using r(4) by (simp add: not_less word_le_nat_alt unsigned_of_nat) (metis order_trans take_bit_nat_less_eq_self)
  ultimately show ?thesis using r(3) by linarith
qed

lemma ParseNextKey_Ok:
  assumes "ParseNextKey it = Ok u it'"
  obtains c s n v p where "NextEntryOffset it = Some c" "c < it_restarts it" "unat (it_restarts it) \<le> length (it_data it)"
    "DecodeEntry (it_data it) (unat c) (unat (it_restarts it)) = Some (s, n, v, p)" "unat s \<le> length (it_key it)"
    "p + unat n \<le> length (it_data it)" "it_data it' = it_data it" "it_restarts it' = it_restarts it" "it_num it' = it_num it"
    "it_current it' = c" "it_key it' = take (unat s) (it_key it) @ take (unat n) (drop p (it_data it))"
    "it_value it' = Some (p + unat n, unat v)" "it_ok it' = it_ok it"
  using assms by (auto simp: ParseNextKey_def split: option.splits if_splits dest!: advance_index_same)

lemma ParseNextKey_progress:
  assumes "ParseNextKey it = Ok u it'"
  shows "\<exists>c. NextEntryOffset it = Some c \<and> c < it_restarts it \<and> it_restarts it' = it_restarts it \<and>
    (\<forall>e. NextEntryOffset it' = Some e \<longrightarrow> c < e \<and> e \<le> it_restarts it)"
proof -
  from ParseNextKey_Ok [OF assms] obtain c s n v p where c: "NextEntryOffset it = Some c" "unat (it_restarts it) \<le> length (it_data it)"
    "DecodeEntry (it_data it) (unat c) (unat (it_restarts it)) = Some (s, n, v, p)" "it_restarts it' = it_restarts it"
    "it_value it' = Some (p + unat n, unat v)" "c < it_restarts it" by metis
  have room: "unat c < p" "p + unat (n + v) \<le> unat (it_restarts it)" using DecodeEntry_room [OF c(3,2)] by auto
  have "c < e \<and> e \<le> it_restarts it" if "NextEntryOffset it' = Some e" for e
  proof -
    have e: "e = of_nat (p + unat (n + v))" using that by (auto simp: NextEntryOffset_def c(5) add.assoc split: if_splits)
    have "unat (of_nat (p + unat (n + v)) :: u32) = p + unat (n + v)"
      using room(2) unsigned_less [of "it_restarts it", where ?'a = nat] by (intro unat_of_nat_id) simp
    then have "unat e = p + unat (n + v)" unfolding e .
    then show ?thesis using room unfolding word_less_nat_alt word_le_nat_alt by linarith
  qed
  then show ?thesis using c(1,4,6) by blast
qed

subsection \<open>Moving\<close>

text \<open>\<open>rest_of it\<close> is how far the next entry is from the end: every parse makes it smaller.\<close>

definition rest_of :: "block_iter \<Rightarrow> nat" where
  "rest_of it = (case NextEntryOffset it of None \<Rightarrow> 0 | Some c \<Rightarrow> unat (it_restarts it) - unat c)"

lemma ParseNextKey_rest: "ParseNextKey it = Ok u it' \<Longrightarrow> rest_of it' < rest_of it"
  using ParseNextKey_progress [of it u it'] by (auto simp: rest_of_def word_less_nat_alt word_le_nat_alt split: option.splits)

text \<open>
  Scanning: parse entries until one satisfies the condition, which ends the loop, or there are no more. The condition may be
  undefined.
\<close>

function scan_until :: "(block_iter \<Rightarrow> bool option) \<Rightarrow> block_iter \<Rightarrow> (unit, block_iter) outcome" where
  "scan_until stop it =
     (case ParseNextKey it of
        Ok u it' \<Rightarrow>
          (case stop it' of None \<Rightarrow> Fault | Some True \<Rightarrow> Ok () it' | Some False \<Rightarrow> scan_until stop it')
      | Fail it' \<Rightarrow> Ok () it'
      | Fault \<Rightarrow> Fault
      | Loop \<Rightarrow> Loop)"
  by pat_completeness auto
termination
  by (relation "measure (\<lambda>(_, it). rest_of it)") (auto dest: ParseNextKey_rest)

declare scan_until.simps [simp del]

definition SeekToFirst :: "block_iter \<Rightarrow> (unit, block_iter) outcome" where
  "SeekToFirst it =
     andthen (SeekToRestartPoint 0 it) (\<lambda>_ it1. case ParseNextKey it1 of Fail it2 \<Rightarrow> Ok () it2 | r \<Rightarrow> r)"

text \<open>\<open>at_or_after n it\<close>: the end of the entry just parsed is at \<open>n\<close> or beyond.\<close>

definition at_or_after :: "u32 \<Rightarrow> block_iter \<Rightarrow> bool option" where
  "at_or_after n it = map_option (\<lambda>e. n \<le> e) (NextEntryOffset it)"

definition SeekToLast :: "block_iter \<Rightarrow> (unit, block_iter) outcome" where
  "SeekToLast it =
     andthen (SeekToRestartPoint (it_num it - 1) it) (\<lambda>_ it1. scan_until (at_or_after (it_restarts it1)) it1)"

text \<open>The loop of \<^verbatim>\<open>Prev\<close> over the restart points; its value is false when there is no entry before.\<close>

function restart_before :: "u32 \<Rightarrow> block_iter \<Rightarrow> (unit, block_iter) outcome" where
  "restart_before original it =
     (case GetRestartPoint it (it_index it) of
        None \<Rightarrow> Fault
      | Some offset \<Rightarrow>
          if original \<le> offset
          then (if it_index it = 0 then Fail (it\<lparr>it_current := it_restarts it, it_index := it_num it\<rparr>)
                else restart_before original (it\<lparr>it_index := it_index it - 1\<rparr>))
          else Ok () it)"
  by pat_completeness auto
termination
  by (relation "measure (\<lambda>(_, it). unat (it_index it))") (auto simp: unat_minus_one unat_gt_0)

declare restart_before.simps [simp del]

definition Prev :: "block_iter \<Rightarrow> (unit, block_iter) outcome" where
  "Prev it =
     (if \<not> Valid it then Fault
      else let original = it_current it in
        case restart_before original it of
          Ok _ it1 \<Rightarrow> andthen (SeekToRestartPoint (it_index it1) it1) (\<lambda>_. scan_until (at_or_after original))
        | Fail it1 \<Rightarrow> Ok () it1
        | Fault \<Rightarrow> Fault
        | Loop \<Rightarrow> Loop)"

text \<open>The binary search of \<^verbatim>\<open>Seek\<close>: its value is \<^verbatim>\<open>left\<close>, and false after a corruption error.\<close>

primrec seek_search :: "nat \<Rightarrow> compare \<Rightarrow> slice \<Rightarrow> u32 \<Rightarrow> u32 \<Rightarrow> block_iter \<Rightarrow> (u32, block_iter) outcome" where
  "seek_search 0 cmp target left right it = (if left < right then Loop else Ok left it)"
| "seek_search (Suc fuel) cmp target left right it =
     (if left < right
      then
        let mid = (left + right + 1) div 2 in
        (case GetRestartPoint it mid of
           None \<Rightarrow> Fault
         | Some region_offset \<Rightarrow>
             if length (it_data it) < unat (it_restarts it) \<or> length (it_data it) < unat region_offset then Fault
             else
             (case DecodeEntry (it_data it) (unat region_offset) (unat (it_restarts it)) of
                None \<Rightarrow> Fail (CorruptionError it)
              | Some (shared, non_shared, value_length, p) \<Rightarrow>
                  if shared \<noteq> 0 then Fail (CorruptionError it)
                  else if length (it_data it) < p + unat non_shared then Fault
                  else if cmp (take (unat non_shared) (drop p (it_data it))) target < 0
                  then seek_search fuel cmp target mid right it
                  else seek_search fuel cmp target left (mid - 1) it))
      else Ok left it)"

definition Seek :: "compare \<Rightarrow> slice \<Rightarrow> block_iter \<Rightarrow> (unit, block_iter) outcome" where
  "Seek cmp target it =
     (case seek_search (unat (it_num it)) cmp target 0 (it_num it - 1) it of
        Ok left it1 \<Rightarrow>
          andthen (SeekToRestartPoint left it1) (\<lambda>_. scan_until (\<lambda>it2. Some (0 \<le> cmp (it_key it2) target)))
      | Fail it1 \<Rightarrow> Ok () it1
      | Fault \<Rightarrow> Fault
      | Loop \<Rightarrow> Loop)"

end
