(* ===== verification/Lv_Block_Correct.thy ===== *)
theory Lv_Block_Correct
  imports Lv_Block
begin

unbundle bit_operations_syntax

section \<open>A block gives back what was put into it\<close>

text \<open>
  The abstract block is the list of its pairs with, for each, the length of the key's stored prefix, and the
  list of the positions of the restart points. \<open>ly_data\<close> are its bytes: the builder produces them, and the
  iterator on them behaves as a cursor into the list.
\<close>

record layout =
  ly_kvs :: "(slice \<times> slice) list"
  ly_shared :: "nat list"
  ly_restarts :: "nat list"

abbreviation ly_n :: "layout \<Rightarrow> nat" where "ly_n L \<equiv> length (ly_kvs L)"

abbreviation ly_key :: "layout \<Rightarrow> nat \<Rightarrow> slice" where "ly_key L i \<equiv> fst (ly_kvs L ! i)"

abbreviation ly_val :: "layout \<Rightarrow> nat \<Rightarrow> slice" where "ly_val L i \<equiv> snd (ly_kvs L ! i)"

definition head :: "nat \<Rightarrow> slice \<Rightarrow> slice \<Rightarrow> slice" where
  "head sh k v = EncodeVarint32 (of_nat sh) @ EncodeVarint32 (of_nat (length k - sh)) @ EncodeVarint32 (of_nat (length v))"

definition entry :: "nat \<Rightarrow> slice \<Rightarrow> slice \<Rightarrow> slice" where
  "entry sh k v = head sh k v @ drop sh k @ v"

definition ly_entry :: "layout \<Rightarrow> nat \<Rightarrow> slice" where
  "ly_entry L i = entry (ly_shared L ! i) (ly_key L i) (ly_val L i)"

definition ly_entries :: "layout \<Rightarrow> nat \<Rightarrow> slice" where
  "ly_entries L i = concat (map (ly_entry L) [0..<i])"

definition off :: "layout \<Rightarrow> nat \<Rightarrow> nat" where "off L i = length (ly_entries L i)"

definition ly_trailer :: "layout \<Rightarrow> slice" where
  "ly_trailer L = concat (map EncodeFixed32 (map (\<lambda>i. of_nat (off L i)) (ly_restarts L))) @
     EncodeFixed32 (of_nat (length (ly_restarts L)))"

definition ly_data :: "layout \<Rightarrow> slice" where
  "ly_data L = ly_entries L (ly_n L) @ ly_trailer L"

definition ly_ok :: "layout \<Rightarrow> bool" where
  "ly_ok L \<longleftrightarrow> length (ly_shared L) = ly_n L \<and>
     (\<forall>i < ly_n L. ly_shared L ! i \<le> (if i = 0 then 0 else common_prefix (ly_key L (i - 1)) (ly_key L i))) \<and>
     ly_restarts L \<noteq> [] \<and> ly_restarts L ! 0 = 0 \<and> sorted_wrt (<) (ly_restarts L) \<and>
     (\<forall>j < length (ly_restarts L). 0 < j \<longrightarrow> ly_restarts L ! j < ly_n L) \<and>
     (\<forall>j < length (ly_restarts L). ly_restarts L ! j < ly_n L \<longrightarrow> ly_shared L ! (ly_restarts L ! j) = 0)"

subsection \<open>Offsets\<close>

lemma off_0 [simp]: "off L 0 = 0"
  by (simp add: off_def ly_entries_def)

lemma ly_entries_Suc: "ly_entries L (Suc i) = ly_entries L i @ ly_entry L i"
  by (simp add: ly_entries_def)

lemma off_Suc: "off L (Suc i) = off L i + length (ly_entry L i)"
  by (simp add: off_def ly_entries_Suc)

lemma varint_nonempty: "0 < length (EncodeVarint32 v)"
  by (simp add: EncodeVarint32_def)

lemma head_3: "3 \<le> length (head sh k v)"
  unfolding head_def length_append
  using varint_nonempty [of "of_nat sh"] varint_nonempty [of "of_nat (length k - sh)"] varint_nonempty [of "of_nat (length v)"]
  by linarith

lemma length_ly_entry:
  "length (ly_entry L i) = length (head (ly_shared L ! i) (ly_key L i) (ly_val L i)) + (length (ly_key L i) - ly_shared L ! i) + length (ly_val L i)"
  by (simp add: ly_entry_def entry_def)

lemma off_step: "off L i + 3 \<le> off L (Suc i)"
  using head_3 [of "ly_shared L ! i" "ly_key L i" "ly_val L i"] by (simp add: off_Suc length_ly_entry)

lemma off_less: "i < j \<Longrightarrow> off L i < off L j"
proof (induction j)
  case (Suc j)
  then show ?case using off_step [of L j] by (cases "i = j") auto
qed simp

lemma off_le: "i \<le> j \<Longrightarrow> off L i \<le> off L j"
  using off_less [of i j L] by (cases "i = j") auto

lemma off_less_iff: "off L i < off L j \<longleftrightarrow> i < j"
  using off_less [of i j L] off_le [of j i L] by (auto simp: not_less [symmetric])

lemma off_le_iff: "off L i \<le> off L j \<longleftrightarrow> i \<le> j"
  by (simp add: not_less [symmetric] off_less_iff)

lemma ly_entries_split:
  assumes "i < n"
  shows "\<exists>z. ly_entries L n = ly_entries L i @ ly_entry L i @ z"
proof -
  have "[0..<n] = [0..<i] @ i # [Suc i..<n]" using assms by (metis less_imp_le_nat upt_conv_Cons upt_add_eq_append le0 le_add_diff_inverse)
  then show ?thesis by (simp add: ly_entries_def)
qed

text \<open>A key is no longer than the entries up to it: what it shares was stored before.\<close>

lemma key_bound:
  assumes "ly_ok L" "i < ly_n L"
  shows "length (ly_key L i) \<le> off L (Suc i)"
  using assms(2)
proof (induction i)
  case 0
  then have "ly_shared L ! 0 = 0" using assms(1) by (auto simp: ly_ok_def)
  then show ?case by (simp add: off_Suc length_ly_entry)
next
  case (Suc i)
  have "ly_shared L ! Suc i \<le> length (ly_key L i)"
    using assms(1) Suc.prems common_prefix_le(1) [of "ly_key L i" "ly_key L (Suc i)"] by (fastforce simp: ly_ok_def)
  then show ?case using Suc by (simp add: off_Suc [of L "Suc i"] length_ly_entry)
qed

subsection \<open>Parsing an entry\<close>

lemma less_128: "x < 128 \<longleftrightarrow> drop_bit 7 x = 0" for x :: u32
proof -
  have "drop_bit 7 x = 0 \<longleftrightarrow> unat x div 128 = 0" by (simp add: word_unat_eq_iff drop_bit_eq_div unat_div)
  then show ?thesis by (simp add: word_less_nat_alt div_eq_0_iff)
qed

lemma or_less_128: "a OR b < 128 \<longleftrightarrow> a < 128 \<and> b < 128" for a b :: u32
  unfolding less_128 by (simp add: or_eq_0_iff)

lemma varint_small:
  assumes "EncodeVarint32 v = b # r" "ucast b < (128 :: u32)"
  shows "r = [] \<and> ucast b = v"
proof (cases "v < 128")
  case True
  then have v: "unat v < 128" by (simp add: word_less_nat_alt)
  then have "take_bit 8 (unat v) = unat v" by (simp add: take_bit_nat_eq_self)
  then have "ucast (ucast v :: byte) = v" by (simp add: word_unat_eq_iff unsigned_ucast_eq unsigned_take_bit_eq)
  then show ?thesis using assms(1) True by (simp add: EncodeVarint32_def)
next
  case False
  then have b: "b = ucast (v OR 2 ^ 7)" using assms(1) by (simp add: EncodeVarint32_def split: if_splits)
  have "bit (ucast b :: u32) 7" unfolding b by (simp only: bit_simps) simp
  then have "bit (drop_bit 7 (ucast b :: u32)) 0" by (simp add: bit_drop_bit_eq)
  then show ?thesis using assms(2) by (simp add: less_128)
qed

lemma entry_head_entry: "entry_head (head sh k v @ z) = Some (of_nat sh, of_nat (length k - sh), of_nat (length v), z)"
proof -
  let ?s = "of_nat sh :: u32" and ?n = "of_nat (length k - sh) :: u32" and ?v = "of_nat (length v) :: u32"
  obtain a as where a: "EncodeVarint32 ?s = a # as" using varint_nonempty [of ?s] by (cases "EncodeVarint32 ?s") auto
  obtain b bs where b: "EncodeVarint32 ?n = b # bs" using varint_nonempty [of ?n] by (cases "EncodeVarint32 ?n") auto
  obtain c cs where c: "EncodeVarint32 ?v = c # cs" using varint_nonempty [of ?v] by (cases "EncodeVarint32 ?v") auto
  let ?q = "head sh k v @ z"
  show ?thesis
  proof (cases "ucast (?q ! 0) OR ucast (?q ! 1) OR ucast (?q ! 2) < (128 :: u32)")
    case True
    have s: "as = []" "ucast a = ?s" using True varint_small [OF a] by (auto simp: or_less_128 head_def a)
    have n: "bs = []" "ucast b = ?n" using True varint_small [OF b] by (auto simp: or_less_128 head_def a b s(1))
    have v: "cs = []" "ucast c = ?v" using True varint_small [OF c] by (auto simp: or_less_128 head_def a b c s(1) n(1))
    show ?thesis using True by (simp add: entry_head_def Let_def head_def a b c s n v)
  next
    case False
    then show ?thesis by (simp add: entry_head_def Let_def head_def GetVarint32Ptr_Encode)
  qed
qed

text \<open>The sizes of the data, which must be less than 4 GB for the offsets to be 32-bit words.\<close>

definition ly_small :: "layout \<Rightarrow> bool" where "ly_small L \<longleftrightarrow> ly_ok L \<and> length (ly_data L) < 2 ^ 32"

lemma length_ly_data: "length (ly_data L) = off L (ly_n L) + 4 * length (ly_restarts L) + 4"
proof -
  have "length (ly_trailer L) = 4 * length (ly_restarts L) + 4"
    unfolding ly_trailer_def length_append length_fixed_array by (simp add: EncodeFixed32_def)
  then show ?thesis by (simp add: ly_data_def off_def)
qed

lemma unat_off: "ly_small L \<Longrightarrow> i \<le> ly_n L \<Longrightarrow> unat (of_nat (off L i) :: u32) = off L i"
  using off_le [of i "ly_n L" L] by (intro unat_of_nat_id) (simp add: ly_small_def length_ly_data)

lemma restarts_sorted:
  "ly_ok L \<Longrightarrow> i < j \<Longrightarrow> j < length (ly_restarts L) \<Longrightarrow> ly_restarts L ! i < ly_restarts L ! j"
  by (simp add: ly_ok_def sorted_wrt_iff_nth_less)

lemma restart_le: "ly_ok L \<Longrightarrow> j < length (ly_restarts L) \<Longrightarrow> ly_restarts L ! j \<le> ly_n L"
  by (cases "j = 0") (auto simp: ly_ok_def)

lemma count_restarts: "ly_ok L \<Longrightarrow> j < length (ly_restarts L) \<Longrightarrow> j \<le> ly_restarts L ! j"
proof (induction j)
  case (Suc j)
  then show ?case using restarts_sorted [OF Suc.prems(1), of j "Suc j"] by simp
qed simp

lemma unat_restarts: "ly_small L \<Longrightarrow> unat (of_nat (length (ly_restarts L)) :: u32) = length (ly_restarts L)"
  by (intro unat_of_nat_id) (simp add: ly_small_def length_ly_data)

lemma data_at:
  assumes "i < ly_n L"
  obtains z where "drop (off L i) (take (off L (ly_n L)) (ly_data L)) =
    head (ly_shared L ! i) (ly_key L i) (ly_val L i) @ drop (ly_shared L ! i) (ly_key L i) @ ly_val L i @ z"
    "drop (off L i) (ly_data L) = ly_entry L i @ z @ ly_trailer L"
proof -
  obtain z where z: "ly_entries L (ly_n L) = ly_entries L i @ ly_entry L i @ z" using ly_entries_split [OF assms] by blast
  have "take (off L (ly_n L)) (ly_data L) = ly_entries L (ly_n L)" by (simp add: ly_data_def off_def)
  then have "drop (off L i) (take (off L (ly_n L)) (ly_data L)) = ly_entry L i @ z" by (simp add: z off_def)
  moreover have "drop (off L i) (ly_data L) = ly_entry L i @ z @ ly_trailer L" by (simp add: ly_data_def z off_def)
  ultimately show thesis using that by (simp add: ly_entry_def entry_def)
qed

lemma DecodeEntry_at:
  assumes "ly_small L" "i < ly_n L"
  shows "DecodeEntry (ly_data L) (off L i) (off L (ly_n L)) =
    Some (of_nat (ly_shared L ! i), of_nat (length (ly_key L i) - ly_shared L ! i), of_nat (length (ly_val L i)),
      off L i + length (head (ly_shared L ! i) (ly_key L i) (ly_val L i)))"
proof -
  let ?h = "head (ly_shared L ! i) (ly_key L i) (ly_val L i)" and ?k = "drop (ly_shared L ! i) (ly_key L i)"
  obtain z where z: "drop (off L i) (take (off L (ly_n L)) (ly_data L)) = ?h @ ?k @ ly_val L i @ z"
    using data_at [OF assms(2)] by metis
  have len: "length (?h @ ?k @ ly_val L i @ z) = off L (ly_n L) - off L i"
    unfolding z [symmetric] by (simp add: length_ly_data)
  have lim: "off L i + 3 \<le> off L (ly_n L)"
    using off_step [of L i] off_le [of "Suc i" "ly_n L" L] assms(2) by simp
  have "length (?k @ ly_val L i @ z) \<le> off L (ly_n L)" using len unfolding length_append by linarith
  then have "length (?k @ ly_val L i @ z) < 2 ^ 32"
    using assms(1) unfolding ly_small_def length_ly_data by linarith
  then have "unat (of_nat (length (?k @ ly_val L i @ z)) :: u32) = length (?k @ ly_val L i @ z)"
    by (intro unat_of_nat_id) simp
  moreover have "unat (of_nat (length ?k + length (ly_val L i)) :: u32) = length ?k + length (ly_val L i)"
    using \<open>length (?k @ ly_val L i @ z) < 2 ^ 32\<close> by (intro unat_of_nat_id) simp
  ultimately have room: "\<not> (of_nat (length (?k @ ly_val L i @ z)) :: u32) < of_nat (length ?k) + of_nat (length (ly_val L i))"
    unfolding of_nat_add [symmetric] word_less_nat_alt by simp
  have rest: "off L (ly_n L) - length (?k @ ly_val L i @ z) = off L i + length ?h"
    using len lim by simp
  show ?thesis
    unfolding DecodeEntry_head z entry_head_entry
    using lim room rest by simp
qed

subsection \<open>Where an iterator stands\<close>

definition it_on :: "layout \<Rightarrow> block_iter \<Rightarrow> bool" where
  "it_on L it \<longleftrightarrow> it_data it = ly_data L \<and> it_restarts it = of_nat (off L (ly_n L)) \<and>
     it_num it = of_nat (length (ly_restarts L)) \<and> it_ok it"

text \<open>\<open>it_before i\<close>: about to parse entry \<open>i\<close>; \<open>it_at i\<close>: on entry \<open>i\<close>; \<open>it_past\<close>: on none.\<close>

definition index_ok :: "layout \<Rightarrow> nat \<Rightarrow> block_iter \<Rightarrow> bool" where
  "index_ok L i it \<longleftrightarrow> unat (it_index it) < length (ly_restarts L) \<and> ly_restarts L ! unat (it_index it) \<le> i"

definition it_before :: "layout \<Rightarrow> nat \<Rightarrow> block_iter \<Rightarrow> bool" where
  "it_before L i it \<longleftrightarrow> it_on L it \<and> i \<le> ly_n L \<and> NextEntryOffset it = Some (of_nat (off L i)) \<and> index_ok L i it \<and>
     (i < ly_n L \<longrightarrow> ly_shared L ! i \<le> length (it_key it) \<and>
       take (ly_shared L ! i) (it_key it) = take (ly_shared L ! i) (ly_key L i))"

definition it_at :: "layout \<Rightarrow> nat \<Rightarrow> block_iter \<Rightarrow> bool" where
  "it_at L i it \<longleftrightarrow> it_on L it \<and> i < ly_n L \<and> it_current it = of_nat (off L i) \<and> it_key it = ly_key L i \<and>
     it_value it = Some (off L (Suc i) - length (ly_val L i), length (ly_val L i)) \<and> index_ok L i it"

definition it_past :: "layout \<Rightarrow> block_iter \<Rightarrow> bool" where
  "it_past L it \<longleftrightarrow> it_on L it \<and> it_current it = it_restarts it"

lemma GetRestartPoint_at:
  assumes "ly_small L" "it_on L it" "unat j < length (ly_restarts L)"
  shows "GetRestartPoint it j = Some (of_nat (off L (ly_restarts L ! unat j)))"
proof -
  have j: "j < it_num it" using assms unat_restarts [OF assms(1)] by (simp add: it_on_def word_less_nat_alt)
  have "unat (it_restarts it) = length (ly_entries L (ly_n L))"
    using assms(2) unat_off [OF assms(1), of "ly_n L"] by (simp add: it_on_def off_def)
  then have "drop (unat (it_restarts it) + unat j * 4) (it_data it) = drop (4 * unat j) (ly_trailer L)"
    using assms(2) by (simp add: it_on_def ly_data_def mult.commute)
  moreover have "DecodeFixed32 (drop (4 * unat j) (ly_trailer L)) = Some (of_nat (off L (ly_restarts L ! unat j)))"
    unfolding ly_trailer_def by (subst fixed_array) (use assms(3) in simp_all)
  ultimately show ?thesis using j by (simp add: GetRestartPoint_def)
qed

lemma unat_index_Suc:
  assumes "ly_small L" "unat i + 1 < length (ly_restarts L)"
  shows "unat (i + 1 :: u32) = unat i + 1"
proof -
  have "unat i + 1 < 2 ^ 32" using assms by (simp add: ly_small_def length_ly_data)
  then show ?thesis by (simp add: unat_plus_if')
qed

lemma advance_index_at:
  assumes "ly_small L" "it_on L it" "index_ok L i it" "i < ly_n L" "it_current it = of_nat (off L i)"
  shows "\<exists>j. advance_index it = Ok () (it\<lparr>it_index := j\<rparr>) \<and> index_ok L i (it\<lparr>it_index := j\<rparr>)"
  using assms
proof (induction it rule: advance_index.induct)
  case (1 it)
  let ?j = "it_index it + 1" and ?rs = "ly_restarts L"
  have num: "unat (it_num it) = length ?rs" using 1(2,3) by (simp add: it_on_def unat_restarts)
  show ?case
  proof (cases "?j < it_num it \<and> unat ?j < length ?rs \<and> off L (?rs ! unat ?j) < off L i")
    case False
    have "advance_index it = Ok () it"
    proof (cases "?j < it_num it")
      case True
      then have j: "unat ?j < length ?rs" using num by (simp add: word_less_nat_alt)
      then have "?rs ! unat ?j \<le> ly_n L" using 1(2) restart_le by (simp add: ly_small_def)
      then have "\<not> (of_nat (off L (?rs ! unat ?j)) :: u32) < of_nat (off L i)"
        using False True j 1(2,5) by (simp add: word_less_nat_alt unat_off)
      then show ?thesis using True GetRestartPoint_at [OF 1(2,3) j] 1(6) by (simp add: advance_index.simps [of it])
    qed (simp add: advance_index.simps [of it])
    then show ?thesis using 1(4) by (intro exI [of _ "it_index it"]) (simp add: index_ok_def)
  next
    case True
    then have r: "?rs ! unat ?j < i" by (simp add: off_less_iff)
    note rp = GetRestartPoint_at [OF 1(2,3)] 
    have le: "?rs ! unat ?j \<le> ly_n L" using True 1(2) restart_le by (simp add: ly_small_def)
    have less: "(of_nat (off L (?rs ! unat ?j)) :: u32) < it_current it"
      using True le 1(2,5,6) by (simp add: word_less_nat_alt unat_off)
    let ?it = "it\<lparr>it_index := ?j\<rparr>"
    have "it_on L ?it" "index_ok L i ?it" using 1(3) True r by (simp_all add: it_on_def index_ok_def)
    then obtain j where "advance_index ?it = Ok () (?it\<lparr>it_index := j\<rparr>)" "index_ok L i (?it\<lparr>it_index := j\<rparr>)"
      using 1(1) [OF _ rp less 1(2)] 1(5,6) True by auto
    moreover have "advance_index it = advance_index ?it"
      using True rp [of ?j] less by (simp add: advance_index.simps [of it])
    ultimately show ?thesis by auto
  qed
qed

text \<open>Parsing an entry puts the iterator on it; there, it is before the next one.\<close>

lemma shared_Suc:
  assumes "ly_ok L" "Suc i < ly_n L"
  shows "ly_shared L ! Suc i \<le> common_prefix (ly_key L i) (ly_key L (Suc i))"
proof -
  have "\<forall>i < ly_n L. ly_shared L ! i \<le> (if i = 0 then 0 else common_prefix (ly_key L (i - 1)) (ly_key L i))"
    using assms(1) unfolding ly_ok_def by blast
  from spec [OF this, of "Suc i"] assms(2) show ?thesis by simp
qed

lemma shared_prefix:
  assumes "ly_ok L" "Suc i < ly_n L"
  shows "ly_shared L ! Suc i \<le> length (ly_key L i)" "take (ly_shared L ! Suc i) (ly_key L i) = take (ly_shared L ! Suc i) (ly_key L (Suc i))"
proof -
  let ?p = "common_prefix (ly_key L i) (ly_key L (Suc i))" and ?s = "ly_shared L ! Suc i"
  note s = shared_Suc [OF assms]
  show "?s \<le> length (ly_key L i)" using s common_prefix_le(1) [of "ly_key L i" "ly_key L (Suc i)"] by linarith
  have "take ?s (take ?p (ly_key L i)) = take ?s (take ?p (ly_key L (Suc i)))" by (rule arg_cong [OF common_prefix_take])
  then show "take ?s (ly_key L i) = take ?s (ly_key L (Suc i))" using s by (simp add: min_def)
qed

lemma shared_le:
  assumes "ly_ok L" "i < ly_n L"
  shows "ly_shared L ! i \<le> length (ly_key L i)"
proof (cases i)
  case 0
  have "\<forall>i < ly_n L. ly_shared L ! i \<le> (if i = 0 then 0 else common_prefix (ly_key L (i - 1)) (ly_key L i))"
    using assms(1) unfolding ly_ok_def by blast
  from spec [OF this, of 0] show ?thesis using assms(2) 0 by simp
next
  case (Suc j)
  then show ?thesis using shared_Suc [OF assms(1), of j] assms(2) common_prefix_le(2) [of "ly_key L j" "ly_key L i"] by simp
qed

lemma entry_fits:
  assumes "ly_small L" "i < ly_n L"
  shows "unat (of_nat (ly_shared L ! i) :: u32) = ly_shared L ! i"
    "unat (of_nat (length (ly_key L i) - ly_shared L ! i) :: u32) = length (ly_key L i) - ly_shared L ! i"
    "unat (of_nat (length (ly_val L i)) :: u32) = length (ly_val L i)"
    "off L i + length (head (ly_shared L ! i) (ly_key L i) (ly_val L i)) + (length (ly_key L i) - ly_shared L ! i) \<le> length (ly_data L)"
    "take (length (ly_key L i) - ly_shared L ! i)
      (drop (off L i + length (head (ly_shared L ! i) (ly_key L i) (ly_val L i))) (ly_data L)) = drop (ly_shared L ! i) (ly_key L i)"
proof -
  let ?sh = "ly_shared L ! i" and ?k = "ly_key L i" and ?v = "ly_val L i"
  let ?h = "length (head ?sh ?k ?v)"
  have ok: "ly_ok L" using assms(1) by (simp add: ly_small_def)
  note sh = shared_le [OF ok assms(2)]
  have kb: "length ?k < 2 ^ 32" 
    using key_bound [OF ok assms(2)] off_le [of "Suc i" "ly_n L" L] assms by (simp add: ly_small_def length_ly_data)
  have step: "off L (Suc i) = off L i + ?h + (length ?k - ?sh) + length ?v" by (simp add: off_Suc length_ly_entry)
  have "off L (Suc i) \<le> off L (ly_n L)" using off_le [of "Suc i" "ly_n L" L] assms(2) by simp
  then have vb: "length ?v < 2 ^ 32" "off L i + ?h + (length ?k - ?sh) \<le> length (ly_data L)"
    using assms(1) step by (simp_all add: ly_small_def length_ly_data)
  then show "off L i + ?h + (length ?k - ?sh) \<le> length (ly_data L)" by blast
  show "unat (of_nat ?sh :: u32) = ?sh" using kb sh by (intro unat_of_nat_id) simp
  show "unat (of_nat (length ?k - ?sh) :: u32) = length ?k - ?sh" using kb by (intro unat_of_nat_id) simp
  show "unat (of_nat (length ?v) :: u32) = length ?v" using vb by (intro unat_of_nat_id) simp
  obtain z where "drop (off L i) (ly_data L) = ly_entry L i @ z" using data_at [OF assms(2)] by metis
  then have "drop (off L i + ?h) (ly_data L) = drop ?sh ?k @ ?v @ z"
    by (simp add: drop_drop [symmetric] add.commute [of "off L i"] ly_entry_def entry_def del: drop_drop)
  then show "take (length ?k - ?sh) (drop (off L i + ?h) (ly_data L)) = drop ?sh ?k" using sh by simp
qed

lemma parse_before:
  assumes "ly_small L" "it_before L i it" "i < ly_n L"
  shows "\<exists>it'. ParseNextKey it = Ok () it' \<and> it_at L i it'"
proof -
  let ?sh = "ly_shared L ! i" and ?k = "ly_key L i" and ?v = "ly_val L i"
  let ?h = "length (head ?sh ?k ?v)"
  have on: "it_on L it" and ix: "index_ok L i it" and nxt: "NextEntryOffset it = Some (of_nat (off L i))"
    and key: "?sh \<le> length (it_key it)" "take ?sh (it_key it) = take ?sh ?k"
    using assms(2,3) by (simp_all add: it_before_def)
  have u: "unat (of_nat (off L i) :: u32) = off L i" "unat (it_restarts it) = off L (ly_n L)"
    using assms(1,3) on by (simp_all add: it_on_def unat_off)
  have step: "off L (Suc i) = off L i + ?h + (length ?k - ?sh) + length ?v" by (simp add: off_Suc length_ly_entry)
  let ?it = "it\<lparr>it_current := of_nat (off L i), it_key := ?k, it_value := Some (off L (Suc i) - length ?v, length ?v)\<rparr>"
  have "\<not> it_restarts it \<le> of_nat (off L i)"
    using u assms(3) by (simp add: word_le_nat_alt not_le off_less_iff)
  moreover have "\<not> length (it_data it) < unat (it_restarts it)" using on u by (simp add: it_on_def length_ly_data)
  moreover have "take ?sh (it_key it) @ drop ?sh ?k = ?k" unfolding key(2) by simp
  ultimately have parse: "ParseNextKey it = advance_index ?it"
    using on u key(1) entry_fits [OF assms(1,3)] step DecodeEntry_at [OF assms(1,3)]
    by (simp add: ParseNextKey_def nxt it_on_def add.assoc)
  have "it_on L ?it" "index_ok L i ?it" using on ix by (simp_all add: it_on_def index_ok_def)
  from advance_index_at [OF assms(1) this assms(3)] obtain j where
    "advance_index ?it = Ok () (?it\<lparr>it_index := j\<rparr>)" "index_ok L i (?it\<lparr>it_index := j\<rparr>)" by auto
  then show ?thesis using parse on assms(3) by (simp add: it_at_def it_on_def)
qed

lemma parse_end:
  assumes "ly_small L" "it_before L (ly_n L) it"
  shows "\<exists>it'. ParseNextKey it = Fail it' \<and> it_past L it'"
  using assms by (simp add: ParseNextKey_def it_before_def it_on_def it_past_def)

lemma it_at_next_offset: "it_at L i it \<Longrightarrow> NextEntryOffset it = Some (of_nat (off L (Suc i)))"
  using off_le [of "Suc i" "ly_n L" L]
  by (simp add: it_at_def it_on_def NextEntryOffset_def length_ly_data) (simp add: off_Suc length_ly_entry)

lemma it_at_before: "ly_small L \<Longrightarrow> it_at L i it \<Longrightarrow> it_before L (Suc i) it"
  using it_at_next_offset [of L i it] shared_prefix [of L i]
  by (auto simp: it_before_def it_at_def index_ok_def ly_small_def Suc_le_eq)

lemma it_at_rest: "it_on L it \<Longrightarrow> ly_small L \<Longrightarrow> it_before L i it \<Longrightarrow> it_before L i (it\<lparr>it_current := c\<rparr>)"
  by (simp add: it_before_def it_on_def index_ok_def NextEntryOffset_def cong: option.case_cong)

subsection \<open>The cursor\<close>

text \<open>\<open>cursor j\<close>: the iterator is on entry \<open>j\<close>, or on none when \<open>j\<close> is the number of entries.\<close>

definition cursor :: "layout \<Rightarrow> nat \<Rightarrow> block_iter \<Rightarrow> bool" where
  "cursor L j it \<longleftrightarrow> (if j < ly_n L then it_at L j it else it_past L it)"

lemma cursor_on: "cursor L j it \<Longrightarrow> it_on L it"
  by (simp add: cursor_def it_at_def it_past_def split: if_splits)

lemma it_at_value:
  assumes "ly_small L" "it_at L i it"
  shows "iter_key it = Some (ly_key L i) \<and> iter_value it = Some (ly_val L i)"
proof -
  have i: "i < ly_n L" and on: "it_on L it" using assms(2) by (simp_all add: it_at_def)
  obtain z where z: "drop (off L i) (ly_data L) = ly_entry L i @ z" using data_at [OF i] by metis
  let ?p = "off L (Suc i) - length (ly_val L i)"
  have p: "?p = off L i + (length (ly_entry L i) - length (ly_val L i))"
    by (simp add: off_Suc length_ly_entry)
  have "drop ?p (ly_data L) = drop (length (ly_entry L i) - length (ly_val L i)) (ly_entry L i @ z)"
    unfolding z [symmetric] p by (simp add: add.commute)
  also have "\<dots> = ly_val L i @ z" by (simp add: ly_entry_def entry_def)
  finally have v: "take (length (ly_val L i)) (drop ?p (ly_data L)) = ly_val L i" by simp
  have "off L (Suc i) \<le> off L (ly_n L)" using off_le [of "Suc i" "ly_n L" L] i by simp
  then have "?p + length (ly_val L i) \<le> length (ly_data L)" by (simp add: length_ly_data off_Suc length_ly_entry)
  moreover have "Valid it"
    using assms on i by (simp add: Valid_def it_on_def it_at_def word_less_nat_alt unat_off off_less_iff)
  ultimately show ?thesis using assms(2) on v by (simp add: iter_key_def iter_value_def it_at_def it_on_def)
qed

lemma cursor_valid: "ly_small L \<Longrightarrow> cursor L j it \<Longrightarrow> Valid it \<longleftrightarrow> j < ly_n L"
  using it_at_value [of L j it] by (auto simp: cursor_def it_past_def Valid_def iter_key_def split: if_splits)

lemma parse_cursor:
  assumes "ly_small L" "it_before L i it"
  shows "\<exists>it'. cursor L i it' \<and> ParseNextKey it = (if i < ly_n L then Ok () it' else Fail it')"
proof (cases "i < ly_n L")
  case True
  then show ?thesis using parse_before [OF assms] by (auto simp: cursor_def)
next
  case False
  then have "i = ly_n L" using assms(2) by (simp add: it_before_def)
  then show ?thesis using parse_end [OF assms(1), of it] assms(2) by (auto simp: cursor_def)
qed

lemma scan_until_at:
  assumes "ly_small L" "\<And>j it. it_at L j it \<Longrightarrow> stop it = Some (S j)" "it_before L i it"
  shows "\<exists>it'. scan_until stop it = Ok () it' \<and> cursor L (i + length (takeWhile (\<lambda>j. \<not> S j) [i..<ly_n L])) it'"
  using assms(3)
proof (induction "ly_n L - i" arbitrary: i it rule: less_induct)
  case less
  obtain it1 where it1: "cursor L i it1" "ParseNextKey it = (if i < ly_n L then Ok () it1 else Fail it1)"
    using parse_cursor [OF assms(1) less.prems] by blast
  show ?case
  proof (cases "i < ly_n L")
    case False
    then show ?thesis using it1 by (simp add: scan_until.simps [of stop it])
  next
    case True
    then have at: "it_at L i it1" using it1(1) by (simp add: cursor_def)
    show ?thesis
    proof (cases "S i")
      case True
      then show ?thesis using it1 \<open>i < ly_n L\<close> assms(2) [OF at] by (simp add: scan_until.simps [of stop it] upt_conv_Cons)
    next
      case False
      then show ?thesis
        using less.hyps [of "Suc i" it1] it_at_before [OF assms(1) at] it1 \<open>i < ly_n L\<close> assms(2) [OF at]
        by (simp add: scan_until.simps [of stop it] upt_conv_Cons)
    qed
  qed
qed

lemma SeekToRestartPoint_at:
  assumes "ly_small L" "it_on L it" "unat j < length (ly_restarts L)"
  shows "\<exists>it'. SeekToRestartPoint j it = Ok () it' \<and> it_before L (ly_restarts L ! unat j) it'"
proof -
  have ok: "ly_ok L" using assms(1) by (simp add: ly_small_def)
  note le = restart_le [OF ok assms(3)]
  have "ly_restarts L ! unat j < ly_n L \<longrightarrow> ly_shared L ! (ly_restarts L ! unat j) = 0"
    using ok assms(3) unfolding ly_ok_def by blast
  moreover have "\<not> length (ly_data L) < off L (ly_restarts L ! unat j)" using off_le [OF le, of L] by (simp add: length_ly_data)
  ultimately show ?thesis
    using assms le GetRestartPoint_at [OF assms] unat_off [OF assms(1) le]
    by (simp add: SeekToRestartPoint_def it_before_def it_on_def index_ok_def NextEntryOffset_def)
qed

lemma restarts_pos: "ly_ok L \<Longrightarrow> 0 < length (ly_restarts L)" "ly_ok L \<Longrightarrow> ly_restarts L ! 0 = 0"
  by (simp_all add: ly_ok_def)

lemma SeekToFirst_at:
  assumes "ly_small L" "it_on L it"
  shows "\<exists>it'. SeekToFirst it = Ok () it' \<and> cursor L 0 it'"
proof -
  have ok: "ly_ok L" using assms(1) by (simp add: ly_small_def)
  obtain it1 where it1: "SeekToRestartPoint 0 it = Ok () it1" "it_before L 0 it1"
    using SeekToRestartPoint_at [OF assms, of 0] restarts_pos [OF ok] by auto
  then show ?thesis using parse_cursor [OF assms(1) it1(2)] by (auto simp: SeekToFirst_def)
qed

lemma Next_at:
  assumes "ly_small L" "it_at L i it"
  shows "\<exists>it'. Next it = Ok () it' \<and> cursor L (Suc i) it'"
proof -
  have "Valid it" using it_at_value [OF assms] by (auto simp: iter_key_def split: if_splits)
  then show ?thesis using parse_cursor [OF assms(1) it_at_before [OF assms]] by (auto simp: Next_def split: if_splits)
qed

lemma takeWhile_upt:
  "(\<And>j. i \<le> j \<Longrightarrow> j < m \<Longrightarrow> P j) \<Longrightarrow> i \<le> m \<Longrightarrow> (m < n \<Longrightarrow> \<not> P m) \<Longrightarrow> m \<le> n \<Longrightarrow> takeWhile P [i..<n] = [i..<m]"
proof -
  assume a: "\<And>j. i \<le> j \<Longrightarrow> j < m \<Longrightarrow> P j" "i \<le> m" "m < n \<Longrightarrow> \<not> P m" "m \<le> n"
  then have "[i..<n] = [i..<m] @ [m..<n]" by (metis upt_add_eq_append le_add_diff_inverse)
  moreover have "takeWhile P [m..<n] = []" using a(3,4) by (cases "m < n") (simp_all add: upt_conv_Cons)
  moreover have "takeWhile P ([i..<m] @ [m..<n]) = [i..<m] @ takeWhile P [m..<n]"
    by (rule takeWhile_append2) (use a(1) in auto)
  ultimately show ?thesis by simp
qed

lemma at_or_after_at:
  assumes "ly_small L" "it_at L j it" "i \<le> ly_n L"
  shows "at_or_after (of_nat (off L i)) it = Some (i \<le> Suc j)"
proof -
  have "j < ly_n L" using assms(2) by (simp add: it_at_def)
  then show ?thesis
    using it_at_next_offset [OF assms(2)] assms(1,3) by (simp add: at_or_after_def word_le_nat_alt unat_off off_le_iff)
qed

lemma SeekToLast_at:
  assumes "ly_small L" "it_on L it"
  shows "\<exists>it'. SeekToLast it = Ok () it' \<and> cursor L (ly_n L - 1) it'"
proof -
  have ok: "ly_ok L" using assms(1) by (simp add: ly_small_def)
  let ?j = "it_num it - 1"
  have num: "it_num it = of_nat (length (ly_restarts L))" using assms(2) by (simp add: it_on_def)
  have "it_num it \<noteq> 0" using restarts_pos [OF ok] unat_restarts [OF assms(1)] num by (metis less_numeral_extra(3) unsigned_0)
  then have "unat ?j = length (ly_restarts L) - 1" using unat_restarts [OF assms(1)] num by (simp add: unat_minus_one)
  then have j: "unat ?j < length (ly_restarts L)" using restarts_pos [OF ok] by simp
  let ?r = "ly_restarts L ! unat ?j"
  obtain it1 where it1: "SeekToRestartPoint ?j it = Ok () it1" "it_before L ?r it1"
    using SeekToRestartPoint_at [OF assms j] by blast
  have "it_restarts it1 = of_nat (off L (ly_n L))" using it1(2) by (simp add: it_before_def it_on_def)
  then have S: "it_at L k it' \<Longrightarrow> at_or_after (it_restarts it1) it' = Some (ly_n L \<le> Suc k)" for k it'
    using at_or_after_at [OF assms(1)] by simp
  obtain it2 where it2: "scan_until (at_or_after (it_restarts it1)) it1 = Ok () it2"
    "cursor L (?r + length (takeWhile (\<lambda>k. \<not> ly_n L \<le> Suc k) [?r..<ly_n L])) it2"
    using scan_until_at [where S = "\<lambda>k. ly_n L \<le> Suc k" and stop = "at_or_after (it_restarts it1)", OF assms(1) S it1(2)]
    by blast
  have "?r + length (takeWhile (\<lambda>k. \<not> ly_n L \<le> Suc k) [?r..<ly_n L]) = ly_n L - 1"
  proof (cases "ly_n L = 0")
    case True
    then show ?thesis using restart_le [OF ok j] by simp
  next
    case False
    have "?r \<le> ly_n L - 1"
    proof (cases "unat ?j = 0")
      case True
      then show ?thesis using restarts_pos [OF ok] by simp
    next
      case False
      then have "?r < ly_n L" using ok j unfolding ly_ok_def by blast
      then show ?thesis by simp
    qed
    then have "takeWhile (\<lambda>k. \<not> ly_n L \<le> Suc k) [?r..<ly_n L] = [?r..<ly_n L - 1]"
      using False by (intro takeWhile_upt) auto
    then show ?thesis using \<open>?r \<le> ly_n L - 1\<close> by simp
  qed
  then show ?thesis using it1(1) it2 by (simp add: SeekToLast_def)
qed

lemma restart_before_at:
  assumes "ly_small L" "it_at L i it"
  shows "if i = 0 then \<exists>it'. restart_before (of_nat (off L i)) it = Fail it' \<and> it_past L it'
    else \<exists>j. restart_before (of_nat (off L i)) it = Ok () (it\<lparr>it_index := j\<rparr>) \<and>
      unat j < length (ly_restarts L) \<and> ly_restarts L ! unat j < i"
proof -
  have i: "i < ly_n L" and on: "it_on L it" and ix: "unat (it_index it) < length (ly_restarts L)"
    using assms(2) by (simp_all add: it_at_def index_ok_def)
  from on ix show ?thesis
  proof (induction "of_nat (off L i) :: u32" it rule: restart_before.induct)
    case (1 it)
    let ?r = "ly_restarts L ! unat (it_index it)"
    have ok: "ly_ok L" using assms(1) by (simp add: ly_small_def)
    note rp = GetRestartPoint_at [OF assms(1) 1(2,3)]
    have cmp: "(of_nat (off L i) :: u32) \<le> of_nat (off L ?r) \<longleftrightarrow> i \<le> ?r"
      using assms(1) i restart_le [OF ok 1(3)] by (simp add: word_le_nat_alt unat_off off_le_iff)
    show ?case
    proof (cases "i \<le> ?r")
      case False
      then show ?thesis using rp cmp 1(3)
        by (simp add: restart_before.simps [of _ it]) (intro exI [of _ "it_index it"], simp)
    next
      case True
      show ?thesis
      proof (cases "it_index it = 0")
        case z: True
        then have "i = 0" using True restarts_pos [OF ok] by simp
        then show ?thesis using rp cmp True z 1(2) by (simp add: restart_before.simps [of _ it] it_past_def it_on_def)
      next
        case False
        let ?it = "it\<lparr>it_index := it_index it - 1\<rparr>"
        have "restart_before (of_nat (off L i)) it = restart_before (of_nat (off L i)) ?it"
          using rp cmp True False by (simp add: restart_before.simps [of _ it])
        moreover have "it_on L ?it" "unat (it_index ?it) < length (ly_restarts L)"
          using 1(2,3) False by (simp_all add: it_on_def unat_minus_one)
        ultimately show ?thesis using 1(1) [OF rp _ False] cmp True by auto
      qed
    qed
  qed
qed

lemma Prev_at:
  assumes "ly_small L" "it_at L i it"
  shows "\<exists>it'. Prev it = Ok () it' \<and> cursor L (if i = 0 then ly_n L else i - 1) it'"
proof -
  have i: "i < ly_n L" and on: "it_on L it" and cur: "it_current it = of_nat (off L i)"
    using assms(2) by (simp_all add: it_at_def)
  have v: "Valid it" using it_at_value [OF assms] by (auto simp: iter_key_def split: if_splits)
  note rb = restart_before_at [OF assms]
  show ?thesis
  proof (cases "i = 0")
    case True
    then show ?thesis using rb v cur by (auto simp: Prev_def cursor_def)
  next
    case False
    then obtain j where j: "restart_before (of_nat (off L i)) it = Ok () (it\<lparr>it_index := j\<rparr>)"
      "unat j < length (ly_restarts L)" "ly_restarts L ! unat j < i" using rb by auto
    let ?r = "ly_restarts L ! unat j"
    have "it_on L (it\<lparr>it_index := j\<rparr>)" using on by (simp add: it_on_def)
    then obtain it1 where it1: "SeekToRestartPoint j (it\<lparr>it_index := j\<rparr>) = Ok () it1" "it_before L ?r it1"
      using SeekToRestartPoint_at [OF assms(1) _ j(2)] by blast
    have S: "it_at L k it' \<Longrightarrow> at_or_after (of_nat (off L i)) it' = Some (i \<le> Suc k)" for k it'
      using at_or_after_at [OF assms(1)] i by simp
    obtain it2 where it2: "scan_until (at_or_after (of_nat (off L i))) it1 = Ok () it2"
      "cursor L (?r + length (takeWhile (\<lambda>k. \<not> i \<le> Suc k) [?r..<ly_n L])) it2"
      using scan_until_at [where S = "\<lambda>k. i \<le> Suc k" and stop = "at_or_after (of_nat (off L i))", OF assms(1) S it1(2)]
      by blast
    have "takeWhile (\<lambda>k. \<not> i \<le> Suc k) [?r..<ly_n L] = [?r..<i - 1]"
      using j(3) i False by (intro takeWhile_upt) auto
    then have "?r + length (takeWhile (\<lambda>k. \<not> i \<le> Suc k) [?r..<ly_n L]) = i - 1" using j(3) by simp
    then show ?thesis using v j(1) it1(1) it2 False cur by (simp add: Prev_def)
  qed
qed

subsection \<open>Seeking\<close>

lemma seek_search_at:
  assumes "ly_small L" "it_on L it" "unat right < length (ly_restarts L)" "unat left \<le> unat right" "unat right - unat left \<le> fuel"
    "unat left = 0 \<or> cmp (ly_key L (ly_restarts L ! unat left)) target < 0"
  shows "\<exists>l. seek_search fuel cmp target left right it = Ok l it \<and> unat l < length (ly_restarts L) \<and>
    (unat l = 0 \<or> cmp (ly_key L (ly_restarts L ! unat l)) target < 0)"
  using assms(3-6)
proof (induction fuel arbitrary: left right)
  case 0
  then show ?case by (auto simp: word_less_nat_alt)
next
  case (Suc fuel)
  show ?case
  proof (cases "left < right")
    case False
    then show ?thesis using Suc.prems by (auto simp: word_less_nat_alt)
  next
    case True
    then have less: "unat left < unat right" by (simp add: word_less_nat_alt)
    define mid where "mid = (left + right + 1) div 2"
    let ?rs = "ly_restarts L"
    have ok: "ly_ok L" using assms(1) by (simp add: ly_small_def)
    have "4 * length ?rs < 2 ^ 32" using assms(1) by (simp add: ly_small_def length_ly_data)
    then have "unat left + unat right + 1 < 2 ^ 32" using Suc.prems(1,2) by simp
    then have "unat (left + right + 1) = unat left + unat right + 1" by (simp add: unat_plus_if')
    then have mid: "unat mid = (unat left + unat right + 1) div 2" by (simp add: mid_def unat_div)
    then have m: "unat left < unat mid" "unat mid \<le> unat right" "unat mid < length ?rs" "mid \<noteq> 0"
      using less Suc.prems(1) by auto
    let ?i = "?rs ! unat mid"
    have i: "?i < ly_n L" and sh: "ly_shared L ! ?i = 0"
      using ok m(1,3) unfolding ly_ok_def by (metis gr_implies_not0 neq0_conv)+
    have rp: "GetRestartPoint it mid = Some (of_nat (off L ?i))" by (rule GetRestartPoint_at [OF assms(1,2) m(3)])
    have data: "it_data it = ly_data L" "unat (it_restarts it) = off L (ly_n L)" "unat (of_nat (off L ?i) :: u32) = off L ?i"
      using assms(1,2) i by (simp_all add: it_on_def unat_off)
    have le: "off L ?i \<le> length (ly_data L)" using off_le [of ?i "ly_n L" L] i by (simp add: length_ly_data)
    have minus: "unat (mid - 1) = unat mid - 1" using m(4) by (rule unat_minus_one)
    have step: "seek_search (Suc fuel) cmp target left right it =
        (if cmp (ly_key L ?i) target < 0 then seek_search fuel cmp target mid right it
         else seek_search fuel cmp target left (mid - 1) it)"
      using True rp le entry_fits [OF assms(1) i] DecodeEntry_at [OF assms(1) i] sh
      by (simp add: mid_def [symmetric] data Let_def length_ly_data)
    show ?thesis
    proof (cases "cmp (ly_key L ?i) target < 0")
      case True
      then show ?thesis unfolding step using Suc.IH [of right mid] Suc.prems(1,3) m by simp
    next
      case False
      then show ?thesis unfolding step using Suc.IH [of "mid - 1" left] Suc.prems(3,4) m minus by simp
    qed
  qed
qed

definition kvs_sorted :: "compare \<Rightarrow> (slice \<Rightarrow> bool) \<Rightarrow> (slice \<times> slice) list \<Rightarrow> bool" where
  "kvs_sorted cmp valid kvs \<longleftrightarrow> sorted_wrt (\<lambda>a b. cmp (fst a) (fst b) < 0) kvs \<and> (\<forall>kv \<in> set kvs. valid (fst kv))"

text \<open>The position of the first key that is not before the target.\<close>

definition seek_pos :: "compare \<Rightarrow> slice \<Rightarrow> (slice \<times> slice) list \<Rightarrow> nat" where
  "seek_pos cmp target kvs = length (takeWhile (\<lambda>kv. cmp (fst kv) target < 0) kvs)"

context comparator
begin

lemma seek_pos_from:
  assumes "kvs_sorted cmp valid kvs" "valid target" "r \<le> length kvs" "r = 0 \<or> (r < length kvs \<and> cmp (fst (kvs ! r)) target < 0)"
  shows "r + length (takeWhile (\<lambda>j. \<not> 0 \<le> cmp (fst (kvs ! j)) target) [r..<length kvs]) = seek_pos cmp target kvs"
proof -
  let ?P = "\<lambda>kv. cmp (fst kv) target < 0" and ?m = "seek_pos cmp target kvs"
  have m: "?m \<le> length kvs" by (simp add: seek_pos_def length_takeWhile_le)
  have before: "?P (kvs ! j)" if "j < ?m" for j
    using that by (metis seek_pos_def nth_mem set_takeWhileD takeWhile_nth)
  have stop: "\<not> ?P (kvs ! ?m)" if "?m < length kvs"
    using nth_length_takeWhile [of ?P kvs] that by (simp add: seek_pos_def)
  have "r \<le> ?m"
  proof (rule ccontr)
    assume "\<not> r \<le> ?m"
    then have r: "?m < r" "r < length kvs" "cmp (fst (kvs ! r)) target < 0" using assms(4) by auto
    have v: "valid (fst (kvs ! ?m))" "valid (fst (kvs ! r))" using assms(1) r by (simp_all add: kvs_sorted_def)
    have "cmp (fst (kvs ! ?m)) (fst (kvs ! r)) < 0"
      using assms(1) r by (simp add: kvs_sorted_def sorted_wrt_iff_nth_less)
    then have "?P (kvs ! ?m)" using less_trans [OF v assms(2)] r(3) by blast
    then show False using stop r by simp
  qed
  have "takeWhile (\<lambda>j. \<not> 0 \<le> cmp (fst (kvs ! j)) target) [r..<length kvs] = [r..<?m]"
    using before stop m \<open>r \<le> ?m\<close> by (intro takeWhile_upt) (auto simp: not_le)
  then show ?thesis using \<open>r \<le> ?m\<close> by simp
qed

lemma Seek_at:
  assumes "ly_small L" "it_on L it" "kvs_sorted cmp valid (ly_kvs L)" "valid target"
  shows "\<exists>it'. Seek cmp target it = Ok () it' \<and> cursor L (seek_pos cmp target (ly_kvs L)) it'"
proof -
  have ok: "ly_ok L" using assms(1) by (simp add: ly_small_def)
  let ?rs = "ly_restarts L"
  have num: "it_num it = of_nat (length ?rs)" using assms(2) by (simp add: it_on_def)
  then have "it_num it \<noteq> 0"
    using restarts_pos(1) [OF ok] unat_restarts [OF assms(1)] by (metis less_numeral_extra(3) unsigned_0)
  then have right: "unat (it_num it - 1) = length ?rs - 1" using unat_restarts [OF assms(1)] num by (simp add: unat_minus_one)
  obtain l where l: "seek_search (unat (it_num it)) cmp target 0 (it_num it - 1) it = Ok l it" "unat l < length ?rs"
    "unat l = 0 \<or> cmp (ly_key L (?rs ! unat l)) target < 0"
    using seek_search_at [OF assms(1,2), of "it_num it - 1" 0 "unat (it_num it)" cmp target] right
      restarts_pos(1) [OF ok] unat_restarts [OF assms(1)] num by auto
  let ?r = "?rs ! unat l"
  obtain it1 where it1: "SeekToRestartPoint l it = Ok () it1" "it_before L ?r it1"
    using SeekToRestartPoint_at [OF assms(1,2) l(2)] by blast
  have r: "?r \<le> ly_n L" "?r = 0 \<or> (?r < ly_n L \<and> cmp (ly_key L ?r) target < 0)"
    using restart_le [OF ok l(2)] restarts_pos(2) [OF ok] l(2,3) ok unfolding ly_ok_def by (metis gr0I)+
  have S: "it_at L k it' \<Longrightarrow> Some (0 \<le> cmp (it_key it') target) = Some (0 \<le> cmp (ly_key L k) target)" for k it'
    by (simp add: it_at_def)
  obtain it2 where it2: "scan_until (\<lambda>it. Some (0 \<le> cmp (it_key it) target)) it1 = Ok () it2"
    "cursor L (?r + length (takeWhile (\<lambda>k. \<not> 0 \<le> cmp (ly_key L k) target) [?r..<ly_n L])) it2"
    using scan_until_at [where S = "\<lambda>k. 0 \<le> cmp (ly_key L k) target" and stop = "\<lambda>it. Some (0 \<le> cmp (it_key it) target)",
        OF assms(1) S it1(2)] by blast
  then show ?thesis using seek_pos_from [OF assms(3,4) r] l(1) it1(1) by (simp add: Seek_def)
qed

end

subsection \<open>Building\<close>

definition built :: "block_options \<Rightarrow> layout \<Rightarrow> block_builder \<Rightarrow> bool" where
  "built options L b \<longleftrightarrow> ly_ok L \<and> \<not> bb_finished b \<and> bb_buffer b = ly_entries L (ly_n L) \<and>
     bb_restarts b = map (\<lambda>i. of_nat (off L i)) (ly_restarts L) \<and> bb_counter b \<le> block_restart_interval options \<and>
     bb_last_key b = (if ly_kvs L = [] then [] else fst (last (ly_kvs L))) \<and> (ly_kvs L = [] \<longrightarrow> bb_counter b = 0 \<and> ly_restarts L = [0])"

lemma built_start: "BlockBuilder options = Some b \<Longrightarrow> built options \<lparr>ly_kvs = [], ly_shared = [], ly_restarts = [0]\<rparr> b"
  by (auto simp: BlockBuilder_def built_def ly_ok_def ly_entries_def split: if_splits)

text \<open>A layout with one more pair.\<close>

definition ly_snoc :: "layout \<Rightarrow> slice \<times> slice \<Rightarrow> nat \<Rightarrow> bool \<Rightarrow> layout" where
  "ly_snoc L kv sh restart = \<lparr>ly_kvs = ly_kvs L @ [kv], ly_shared = ly_shared L @ [sh],
     ly_restarts = (if restart then ly_restarts L @ [ly_n L] else ly_restarts L)\<rparr>"

lemma ly_entries_snoc:
  assumes "length (ly_shared L) = ly_n L" "i \<le> ly_n L"
  shows "ly_entries (ly_snoc L kv sh restart) i = ly_entries L i"
proof -
  have "map (ly_entry (ly_snoc L kv sh restart)) [0..<i] = map (ly_entry L) [0..<i]"
    using assms by (intro map_cong) (auto simp: ly_entry_def ly_snoc_def nth_append)
  then show ?thesis by (simp only: ly_entries_def)
qed

lemma ly_ok_snoc:
  assumes "ly_ok L" "sh \<le> (if ly_kvs L = [] then 0 else common_prefix (fst (last (ly_kvs L))) (fst kv))"
    "restart \<Longrightarrow> sh = 0 \<and> ly_kvs L \<noteq> []" "ly_kvs L = [] \<Longrightarrow> ly_restarts L = [0]"
  shows "ly_ok (ly_snoc L kv sh restart)"
proof -
  let ?n = "ly_n L"
  have len: "length (ly_shared L) = ?n" and rs: "ly_restarts L \<noteq> []" "ly_restarts L ! 0 = 0" "sorted_wrt (<) (ly_restarts L)"
    and lt: "\<And>j. j < length (ly_restarts L) \<Longrightarrow> 0 < j \<Longrightarrow> ly_restarts L ! j < ?n"
    and z: "\<And>j. j < length (ly_restarts L) \<Longrightarrow> ly_restarts L ! j < ?n \<Longrightarrow> ly_shared L ! (ly_restarts L ! j) = 0"
    using assms(1) unfolding ly_ok_def by blast+
  have sh: "\<And>i. i < ?n \<Longrightarrow> ly_shared L ! i \<le> (if i = 0 then 0 else common_prefix (ly_key L (i - 1)) (ly_key L i))"
    using assms(1) unfolding ly_ok_def by blast
  have all: "r < ?n" if "r \<in> set (ly_restarts L)" "ly_kvs L \<noteq> []" for r
  proof -
    obtain j where "j < length (ly_restarts L)" "r = ly_restarts L ! j" using \<open>r \<in> _\<close> by (metis in_set_conv_nth)
    then show ?thesis using lt [of j] rs(2) that(2) by (cases "j = 0") auto
  qed
  let ?L = "ly_snoc L kv sh restart"
  have rest: "ly_restarts ?L = (if restart then ly_restarts L @ [?n] else ly_restarts L)" by (simp add: ly_snoc_def)
  have "ly_shared ?L ! i \<le> (if i = 0 then 0 else common_prefix (ly_key ?L (i - 1)) (ly_key ?L i))" if "i < ly_n ?L" for i
  proof (cases "i < ?n")
    case True
    then show ?thesis using sh [of i] len by (auto simp: ly_snoc_def nth_append)
  next
    case False
    then have "i = ?n" using that by (simp add: ly_snoc_def)
    then show ?thesis using assms(2) len by (auto simp: ly_snoc_def nth_append last_conv_nth)
  qed
  moreover have "sorted_wrt (<) (ly_restarts ?L)" using rs(3) all assms(3) by (auto simp: rest sorted_wrt_append)
  moreover have "ly_restarts ?L ! j < ly_n ?L" if "j < length (ly_restarts ?L)" "0 < j" for j
    using that lt [of j] by (auto simp: rest ly_snoc_def nth_append split: if_splits)
  moreover have "ly_shared ?L ! (ly_restarts ?L ! j) = 0" if "j < length (ly_restarts ?L)" for j
  proof (cases "ly_restarts ?L ! j < ?n")
    case True
    then show ?thesis using that z [of j] len by (auto simp: rest ly_snoc_def nth_append split: if_splits)
  next
    case False
    have "sh = 0"
    proof (cases "ly_kvs L = []")
      case False
      then have "ly_restarts ?L ! j \<notin> set (ly_restarts L)" using all \<open>\<not> _ < ?n\<close> by blast
      then have "restart" using that by (auto simp: rest in_set_conv_nth split: if_splits)
      then show ?thesis using assms(3) by blast
    qed (use assms(2) in simp)
    moreover have "ly_restarts ?L ! j = ?n"
    proof (cases "ly_kvs L = []")
      case True
      then have "ly_restarts L = [0]" "\<not> restart" using assms(3,4) by auto
      then show ?thesis using that True unfolding rest by simp
    next
      case False
      then have "ly_restarts ?L ! j \<notin> set (ly_restarts L)" using all \<open>\<not> _ < ?n\<close> by blast
      moreover have "ly_restarts ?L ! j \<in> set (ly_restarts ?L)" using that by simp
      ultimately show ?thesis by (auto simp: rest split: if_splits)
    qed
    ultimately show ?thesis using len by (simp add: ly_snoc_def nth_append)
  qed
  ultimately show ?thesis using len rs by (simp add: ly_ok_def rest nth_append) (simp add: ly_snoc_def)
qed

lemma off_snoc: "length (ly_shared L) = ly_n L \<Longrightarrow> i \<le> ly_n L \<Longrightarrow> off (ly_snoc L kv sh r) i = off L i"
  by (simp add: off_def ly_entries_snoc)

lemma entries_empty: "ly_ok L \<Longrightarrow> ly_entries L (ly_n L) = [] \<longleftrightarrow> ly_kvs L = []"
  using off_less [of 0 "ly_n L" L] by (cases "ly_kvs L = []") (auto simp: off_def ly_entries_def)

lemma Add_built:
  assumes "built options L b" "1 \<le> block_restart_interval options"
    "ly_kvs L = [] \<or> 0 < opt_comparator options k (fst (last (ly_kvs L)))"
  shows "\<exists>L' b'. BlockBuilder_Add options k v b = Some b' \<and> built options L' b' \<and> ly_kvs L' = ly_kvs L @ [(k, v)]"
proof -
  have ok: "ly_ok L" and fin: "\<not> bb_finished b" and buf: "bb_buffer b = ly_entries L (ly_n L)"
    and rs: "bb_restarts b = map (\<lambda>i. of_nat (off L i)) (ly_restarts L)"
    and cnt: "bb_counter b \<le> block_restart_interval options"
    and last: "bb_last_key b = (if ly_kvs L = [] then [] else fst (last (ly_kvs L)))"
    and empty: "ly_kvs L = [] \<Longrightarrow> bb_counter b = 0 \<and> ly_restarts L = [0]"
    using assms(1) by (auto simp: built_def)
  define share where "share \<longleftrightarrow> bb_counter b < block_restart_interval options"
  define sh where "sh = (if share then common_prefix (bb_last_key b) k else 0)"
  let ?L = "ly_snoc L (k, v) sh (\<not> share)"
  have len: "length (ly_shared L) = ly_n L" using ok unfolding ly_ok_def by blast
  have okL: "ly_ok ?L"
    using ok empty assms(2) by (intro ly_ok_snoc) (auto simp: sh_def share_def last)
  have key: "take sh (bb_last_key b) @ take (length k - sh) (drop sh k) = k"
    using common_prefix_take [of "bb_last_key b" k] by (simp add: sh_def)
  have n: "ly_n ?L = Suc (ly_n L)" by (simp add: ly_snoc_def)
  have e: "ly_entry ?L (ly_n L) = entry sh k v" using len by (simp add: ly_entry_def ly_snoc_def nth_append)
  have entries: "ly_entries ?L (ly_n ?L) = ly_entries L (ly_n L) @ entry sh k v"
    unfolding n ly_entries_Suc e ly_entries_snoc [OF len order_refl] ..
  have r: "map (\<lambda>i. of_nat (off ?L i)) (ly_restarts ?L) =
      (if share then bb_restarts b else bb_restarts b @ [of_nat (length (bb_buffer b))])"
  proof -
    define L' where "L' = ?L"
    have "ly_restarts L' = (if share then ly_restarts L else ly_restarts L @ [ly_n L])" by (simp add: L'_def ly_snoc_def)
    moreover have "map (\<lambda>i. of_nat (off L' i)) (ly_restarts L) = (map (\<lambda>i. of_nat (off L i)) (ly_restarts L) :: u32 list)"
      using restart_le [OF ok] off_snoc [OF len] unfolding L'_def by (intro map_cong) (auto simp: in_set_conv_nth)
    moreover have "off L' (ly_n L) = length (bb_buffer b)"
      using off_snoc [OF len order_refl] unfolding L'_def by (simp add: off_def buf)
    ultimately show ?thesis unfolding L'_def [symmetric] by (simp add: rs)
  qed
  have pre: "\<not> (bb_finished b \<or> block_restart_interval options < bb_counter b \<or>
      \<not> (bb_buffer b = [] \<or> 0 < opt_comparator options k (bb_last_key b)))"
    using fin cnt assms(3) entries_empty [OF ok] by (auto simp: buf last)
  let ?b = "b\<lparr>bb_buffer := bb_buffer b @ entry sh k v,
      bb_restarts := (if share then bb_restarts b else bb_restarts b @ [of_nat (length (bb_buffer b))]),
      bb_counter := (if share then bb_counter b else 0) + 1, bb_last_key := k\<rparr>"
  have "BlockBuilder_Add options k v b = Some ?b"
    using pre key unfolding BlockBuilder_Add_def Let_def share_def [symmetric] sh_def [symmetric]
    by (simp add: entry_def head_def PutVarint32_def)
  moreover have "built options ?L ?b"
    using okL fin entries r cnt assms(2) by (auto simp: built_def buf share_def) (simp_all add: ly_snoc_def)
  moreover have "ly_kvs ?L = ly_kvs L @ [(k, v)]" by (simp add: ly_snoc_def)
  ultimately show ?thesis by blast
qed

lemma add_all_built:
  assumes "built options L b" "1 \<le> block_restart_interval options"
    "sorted_wrt (\<lambda>a b. 0 < opt_comparator options (fst b) (fst a)) (ly_kvs L @ kvs)"
  shows "\<exists>L' b'. add_all options kvs b = Some b' \<and> built options L' b' \<and> ly_kvs L' = ly_kvs L @ kvs"
  using assms(1,3)
proof (induction kvs arbitrary: L b)
  case (Cons kv kvs)
  obtain k v where kv: "kv = (k, v)" by fastforce
  have "ly_kvs L = [] \<or> 0 < opt_comparator options k (fst (last (ly_kvs L)))"
  proof -
    have "\<forall>x \<in> set (ly_kvs L). 0 < opt_comparator options k (fst x)"
      using Cons.prems(2) by (simp add: kv sorted_wrt_append)
    then show ?thesis using last_in_set [of "ly_kvs L"] by blast
  qed
  then obtain L1 b1 where 1: "BlockBuilder_Add options k v b = Some b1" "built options L1 b1" "ly_kvs L1 = ly_kvs L @ [(k, v)]"
    using Add_built [OF Cons.prems(1) assms(2)] by blast
  then show ?case using Cons.IH [OF 1(2)] Cons.prems(2) by (simp add: kv)
qed auto

definition block_contents :: "block_options \<Rightarrow> (slice \<times> slice) list \<Rightarrow> slice option" where
  "block_contents options kvs =
     (case BlockBuilder options of None \<Rightarrow> None | Some b \<Rightarrow> map_option (\<lambda>b. fst (BlockBuilder_Finish b)) (add_all options kvs b))"

lemma block_contents_layout:
  assumes "1 \<le> block_restart_interval options" "sorted_wrt (\<lambda>a b. 0 < opt_comparator options (fst b) (fst a)) kvs"
  shows "\<exists>L. ly_ok L \<and> ly_kvs L = kvs \<and> block_contents options kvs = Some (ly_data L)"
proof -
  obtain b where b: "BlockBuilder options = Some b" using assms(1) by (simp add: BlockBuilder_def)
  obtain L b' where L: "add_all options kvs b = Some b'" "built options L b'" "ly_kvs L = kvs"
    using add_all_built [OF built_start [OF b] assms(1), of kvs] assms(2) by (simp, blast)
  have "fst (BlockBuilder_Finish b') = ly_data L"
    using L(2) unfolding BlockBuilder_Finish_def Let_def PutFixed32_all
    by (simp add: built_def ly_data_def ly_trailer_def PutFixed32_def)
  then show ?thesis using b L by (auto simp: block_contents_def built_def)
qed

lemma open_block:
  assumes "ly_small L"
  shows "\<exists>b it. Block (ly_data L) = Some b \<and> NewIterator b = Some (Iter it) \<and> cursor L (ly_n L) it"
proof -
  let ?num = "of_nat (length (ly_restarts L)) :: u32" and ?n = "length (ly_data L)"
  have ok: "ly_ok L" using assms by (simp add: ly_small_def)
  have n: "?n = off L (ly_n L) + 4 * length (ly_restarts L) + 4" by (rule length_ly_data)
  note u = unat_restarts [OF assms]
  have "drop (?n - 4) (ly_data L) = EncodeFixed32 ?num"
    unfolding n using length_fixed_array [of "map (\<lambda>i. of_nat (off L i)) (ly_restarts L)"]
    by (simp add: ly_data_def ly_trailer_def off_def del: map_map)
  then have num: "NumRestarts (ly_data L) ?n = Some ?num"
    using n by (simp add: NumRestarts_def DecodeFixed32_def EncodeFixed32_def)
  have r: "(of_nat ?n :: u32) - (1 + ?num) * 4 = of_nat (off L (ly_n L))"
    unfolding n by (simp add: algebra_simps)
  have pos: "0 < ?num" using restarts_pos(1) [OF ok] u by (simp add: word_less_nat_alt)
  let ?b = "\<lparr>bl_data = ly_data L, bl_size = ?n, bl_restart_offset = of_nat (off L (ly_n L))\<rparr>"
  have "Block (ly_data L) = Some ?b" using num r u n by (simp add: Block_def Let_def)
  moreover obtain it where "new_iter (ly_data L) (of_nat (off L (ly_n L))) ?num = Some it" "cursor L (ly_n L) it"
    using pos by (simp add: new_iter_def cursor_def it_past_def it_on_def)
  moreover have "NewIterator ?b = map_option Iter (new_iter (ly_data L) (of_nat (off L (ly_n L))) ?num)"
    using num less_imp_neq [OF pos] n by (simp add: NewIterator_def)
  ultimately show ?thesis by auto
qed

subsection \<open>Simulation of the cursor\<close>

text \<open>
  \<open>simulates cmp valid kvs R\<close>: an iterator related by \<open>R\<close> to a position is on the pair at that position, and
  every operation keeps the relation, as it moves the position in the list.
\<close>

definition simulates :: "compare \<Rightarrow> (slice \<Rightarrow> bool) \<Rightarrow> (slice \<times> slice) list \<Rightarrow> (nat \<Rightarrow> block_iter \<Rightarrow> bool) \<Rightarrow> bool" where
  "simulates cmp valid kvs R \<longleftrightarrow> (\<forall>j it. R j it \<longrightarrow>
     it_ok it \<and> (Valid it \<longleftrightarrow> j < length kvs) \<and>
     (j < length kvs \<longrightarrow> iter_key it = Some (fst (kvs ! j)) \<and> iter_value it = Some (snd (kvs ! j)) \<and>
       (\<exists>it'. Next it = Ok () it' \<and> R (Suc j) it') \<and>
       (\<exists>it'. Prev it = Ok () it' \<and> R (if j = 0 then length kvs else j - 1) it')) \<and>
     (\<exists>it'. SeekToFirst it = Ok () it' \<and> R 0 it') \<and>
     (\<exists>it'. SeekToLast it = Ok () it' \<and> R (length kvs - 1) it') \<and>
     (\<forall>target. valid target \<longrightarrow> (\<exists>it'. Seek cmp target it = Ok () it' \<and> R (seek_pos cmp target kvs) it')))"

context comparator
begin

lemma cursor_simulates:
  assumes "ly_small L" "kvs_sorted cmp valid (ly_kvs L)"
  shows "simulates cmp valid (ly_kvs L) (cursor L)"
  unfolding simulates_def
proof (intro allI impI)
  fix j it assume c: "cursor L j it"
  have on: "it_on L it" by (rule cursor_on [OF c])
  have at: "j < ly_n L \<Longrightarrow> it_at L j it" using c by (simp add: cursor_def)
  have "it_ok it" using on by (simp add: it_on_def)
  moreover have "j < ly_n L \<longrightarrow> iter_key it = Some (ly_key L j) \<and> iter_value it = Some (ly_val L j) \<and>
      (\<exists>it'. Next it = Ok () it' \<and> cursor L (Suc j) it') \<and>
      (\<exists>it'. Prev it = Ok () it' \<and> cursor L (if j = 0 then ly_n L else j - 1) it')"
    using it_at_value [OF assms(1) at] Next_at [OF assms(1) at] Prev_at [OF assms(1) at] by blast
  moreover have "\<forall>target. valid target \<longrightarrow> (\<exists>it'. Seek cmp target it = Ok () it' \<and> cursor L (seek_pos cmp target (ly_kvs L)) it')"
    using Seek_at [OF assms(1) on assms(2)] by blast
  ultimately show "it_ok it \<and> (Valid it \<longleftrightarrow> j < ly_n L) \<and>
     (j < ly_n L \<longrightarrow> iter_key it = Some (ly_key L j) \<and> iter_value it = Some (ly_val L j) \<and>
       (\<exists>it'. Next it = Ok () it' \<and> cursor L (Suc j) it') \<and>
       (\<exists>it'. Prev it = Ok () it' \<and> cursor L (if j = 0 then ly_n L else j - 1) it')) \<and>
     (\<exists>it'. SeekToFirst it = Ok () it' \<and> cursor L 0 it') \<and>
     (\<exists>it'. SeekToLast it = Ok () it' \<and> cursor L (ly_n L - 1) it') \<and>
     (\<forall>target. valid target \<longrightarrow> (\<exists>it'. Seek cmp target it = Ok () it' \<and> cursor L (seek_pos cmp target (ly_kvs L)) it'))"
    using cursor_valid [OF assms(1) c] SeekToFirst_at [OF assms(1) on] SeekToLast_at [OF assms(1) on] by blast
qed

theorem block_simulates:
  assumes "kvs_sorted cmp valid kvs" "1 \<le> interval"
  shows "\<exists>c. block_contents \<lparr>opt_comparator = cmp, block_restart_interval = interval\<rparr> kvs = Some c \<and>
    (length c < 2 ^ 32 \<longrightarrow> (\<exists>b it R. Block c = Some b \<and> NewIterator b = Some (Iter it) \<and> R (length kvs) it \<and>
      simulates cmp valid kvs R))"
proof -
  have "sorted_wrt (\<lambda>a b. 0 < cmp (fst b) (fst a)) kvs"
    using assms(1) swap unfolding kvs_sorted_def by (auto elim!: sorted_wrt_mono_rel [rotated])
  then obtain L where L: "ly_ok L" "ly_kvs L = kvs"
    "block_contents \<lparr>opt_comparator = cmp, block_restart_interval = interval\<rparr> kvs = Some (ly_data L)"
    using block_contents_layout [of "\<lparr>opt_comparator = cmp, block_restart_interval = interval\<rparr>" kvs] assms(2) by auto
  have "\<exists>b it R. Block (ly_data L) = Some b \<and> NewIterator b = Some (Iter it) \<and> R (length kvs) it \<and> simulates cmp valid kvs R"
    if "length (ly_data L) < 2 ^ 32"
  proof -
    have s: "ly_small L" using L(1) that by (simp add: ly_small_def)
    show ?thesis using open_block [OF s] cursor_simulates [OF s] assms(1) L(2) by blast
  qed
  then show ?thesis using L(3) by blast
qed

end

text \<open>
  A malformed entry: a key delta of \<open>2 ^ 32 - 1\<close> bytes and a value of one. Their sum is 0 in 32 bits, so
  the check passes.
\<close>

definition wrapping_block :: slice where
  "wrapping_block = [0, 0xff, 0xff, 0xff, 0xff, 0x0f, 1] @ EncodeFixed32 0 @ EncodeFixed32 1"

lemma wrapping_entry: "DecodeEntry wrapping_block 0 7 = Some (0, 0xffffffff, 1, 7)"
  by (simp add: wrapping_block_def DecodeEntry_def GetVarint32Ptr_def GetVarint32PtrFallback_def Let_def)

lemma wrapping_read:
  "\<exists>b it. Block wrapping_block = Some b \<and> NewIterator b = Some (Iter it) \<and> SeekToFirst it = Fault"
proof -
  let ?it = "\<lparr>it_data = wrapping_block, it_restarts = 7, it_num = 1, it_current = 7, it_index = 1, it_key = [],
    it_value = None, it_ok = True\<rparr>"
  have len: "length wrapping_block = 15" by (simp add: wrapping_block_def EncodeFixed32_def)
  have num: "NumRestarts wrapping_block 15 = Some 1"
    by (simp add: wrapping_block_def NumRestarts_def DecodeFixed32_def EncodeFixed32_def)
  have "Block wrapping_block = Some \<lparr>bl_data = wrapping_block, bl_size = 15, bl_restart_offset = 7\<rparr>"
    by (simp add: Block_def len num)
  moreover have "NewIterator \<lparr>bl_data = wrapping_block, bl_size = 15, bl_restart_offset = 7\<rparr> = Some (Iter ?it)"
    by (simp add: NewIterator_def num new_iter_def)
  moreover have "GetRestartPoint ?it 0 = Some 0"
    by (simp add: GetRestartPoint_def wrapping_block_def DecodeFixed32_def EncodeFixed32_def)
  then have "SeekToFirst ?it = Fault"
    by (simp add: SeekToFirst_def SeekToRestartPoint_def ParseNextKey_def NextEntryOffset_def wrapping_entry len)
  ultimately show ?thesis by blast
qed

subsection \<open>Blocks of any content\<close>

text \<open>
  What the constructor of a block establishes for its iterators, whatever the bytes are, and what the calls on an iterator keep.
  Two things can go wrong: a restart point that lies outside the block, and an entry whose two lengths wrap.
\<close>

definition in_block :: "block_iter \<Rightarrow> bool" where
  "in_block it \<longleftrightarrow> unat (it_restarts it) + 4 * unat (it_num it) + 4 = length (it_data it) \<and> 0 < it_num it \<and> length (it_data it) < 2 ^ 32"

definition restart_outside :: "block_iter \<Rightarrow> bool" where
  "restart_outside it \<longleftrightarrow> (\<exists>i q. GetRestartPoint it i = Some q \<and> length (it_data it) < unat q)"

definition lengths_wrap :: "block_iter \<Rightarrow> bool" where
  "lengths_wrap it \<longleftrightarrow> (\<exists>p s n v q. DecodeEntry (it_data it) p (unat (it_restarts it)) = Some (s, n, v, q) \<and> 2 ^ 32 \<le> unat n + unat v)"

definition sound :: "block_iter \<Rightarrow> bool" where "sound it \<longleftrightarrow> in_block it \<and> \<not> restart_outside it \<and> \<not> lengths_wrap it"

text \<open>Ready to parse the next entry; and what holds between two calls.\<close>

definition ready :: "block_iter \<Rightarrow> bool" where "ready it \<longleftrightarrow> sound it \<and> NextEntryOffset it \<noteq> None \<and> it_index it < it_num it"

definition steady :: "block_iter \<Rightarrow> bool" where "steady it \<longleftrightarrow> sound it \<and> (Valid it \<longrightarrow> ready it)"

definition same_block :: "block_iter \<Rightarrow> block_iter \<Rightarrow> bool" where
  "same_block it it' \<longleftrightarrow> it_data it' = it_data it \<and> it_restarts it' = it_restarts it \<and> it_num it' = it_num it"

lemma same_block_GetRestartPoint: "same_block it it' \<Longrightarrow> GetRestartPoint it' = GetRestartPoint it"
  by (simp add: same_block_def GetRestartPoint_def fun_eq_iff)

lemma sound_same: "sound it \<Longrightarrow> same_block it it' \<Longrightarrow> sound it'"
  using same_block_GetRestartPoint [of it it']
  by (simp add: sound_def in_block_def restart_outside_def lengths_wrap_def same_block_def)

lemma same_block_trans: "same_block a b \<Longrightarrow> same_block b c \<Longrightarrow> same_block a c" by (simp add: same_block_def)

lemma Block_in_block:
  assumes "Block c = Some b" "NewIterator b = Some (Iter it)" "length c < 2 ^ 32"
  shows "in_block it" "it_data it = c" "\<not> Valid it"
proof -
  obtain num where c: "4 \<le> length c" "NumRestarts c (length c) = Some num" "unat num \<le> (length c - 4) div 4"
    "b = \<lparr>bl_data = c, bl_size = length c, bl_restart_offset = of_nat (length c) - (1 + num) * 4\<rparr>"
    using assms(1,2) by (auto simp: Block_def NewIterator_def Let_def split: if_splits option.splits)
  have r: "4 + 4 * unat num \<le> length c" using c(1,3) by linarith
  have "(of_nat (length c) - (1 + num) * 4 :: u32) = of_nat (length c - (4 + 4 * unat num))"
    using r by (simp add: of_nat_diff algebra_simps)
  moreover have "unat (of_nat (length c - (4 + 4 * unat num)) :: u32) = length c - (4 + 4 * unat num)"
    using assms(3) by (intro unat_of_nat_id) simp
  moreover have it: "it_data it = c" "it_num it = num" "it_restarts it = of_nat (length c) - (1 + num) * 4" "0 < num"
    "it_current it = it_restarts it"
    using assms(2) c by (auto simp: NewIterator_def new_iter_def split: if_splits)
  ultimately show "in_block it" using r assms(3) by (simp add: in_block_def mult.commute)
  show "it_data it = c" "\<not> Valid it" using it by (simp_all add: Valid_def)
qed

lemma GetRestartPoint_in_block:
  assumes "in_block it" "i < it_num it"
  shows "\<exists>q. GetRestartPoint it i = Some q"
proof -
  have "unat i < unat (it_num it)" using assms(2) by (simp add: word_less_nat_alt)
  then have "4 \<le> length (it_data it) - (unat (it_restarts it) + unat i * 4)" using assms(1) unfolding in_block_def by linarith
  then show ?thesis using assms(2) by (simp add: GetRestartPoint_def DecodeFixed32_def)
qed

lemma restart_inside: "sound it \<Longrightarrow> i < it_num it \<Longrightarrow> \<exists>q. GetRestartPoint it i = Some q \<and> unat q \<le> length (it_data it)"
  using GetRestartPoint_in_block [of it i] unfolding sound_def restart_outside_def by (meson not_less)

lemma advance_index_in_block:
  "in_block it \<Longrightarrow> it_index it < it_num it \<Longrightarrow> \<exists>it'. advance_index it = Ok () it' \<and> it_index it' < it_num it'"
proof (induction it rule: advance_index.induct)
  case (1 it)
  show ?case
  proof (cases "it_index it + 1 < it_num it")
    case True
    then obtain o' where o: "GetRestartPoint it (it_index it + 1) = Some o'" using GetRestartPoint_in_block [OF 1(2)] by blast
    have "in_block (it\<lparr>it_index := it_index it + 1\<rparr>)" using 1(2) by (simp add: in_block_def)
    then show ?thesis using 1(1) [OF True o] 1(3) True o by (auto simp: advance_index.simps [of it])
  qed (use 1(3) in \<open>simp add: advance_index.simps [of it]\<close>)
qed

lemma entry_inside:
  assumes "sound it" "DecodeEntry (it_data it) p (unat (it_restarts it)) = Some (s, n, v, q)"
  shows "q + unat n + unat v \<le> length (it_data it)" "unat (it_restarts it) \<le> length (it_data it)"
proof -
  show lim: "unat (it_restarts it) \<le> length (it_data it)" using assms(1) by (simp add: sound_def in_block_def)
  have "\<not> 2 ^ 32 \<le> unat n + unat v" using assms unfolding sound_def lengths_wrap_def by blast
  then have "unat (n + v) = unat n + unat v" by (simp add: unat_plus_if')
  then show "q + unat n + unat v \<le> length (it_data it)" using DecodeEntry_room [OF assms(2) lim] lim by linarith
qed

lemma ParseNextKey_sound:
  assumes "ready it"
  shows "\<exists>it'. same_block it it' \<and> (ParseNextKey it = Ok () it' \<and> ready it' \<or> ParseNextKey it = Fail it' \<and> \<not> Valid it')"
proof -
  have s: "sound it" "in_block it" "it_index it < it_num it" using assms by (simp_all add: ready_def sound_def)
  obtain c where c: "NextEntryOffset it = Some c" using assms by (auto simp: ready_def)
  have lim: "unat (it_restarts it) \<le> length (it_data it)" using s(2) by (simp add: in_block_def)
  show ?thesis
  proof (cases "it_restarts it \<le> c \<or> DecodeEntry (it_data it) (unat c) (unat (it_restarts it)) = None")
    case True
    then show ?thesis using c lim by (auto simp: ParseNextKey_def CorruptionError_def Valid_def same_block_def)
  next
    case False
    then obtain s' n v q where d: "DecodeEntry (it_data it) (unat c) (unat (it_restarts it)) = Some (s', n, v, q)" by auto
    note room = entry_inside [OF s(1) d]
    let ?it = "it\<lparr>it_current := c, it_key := take (unat s') (it_key it) @ take (unat n) (drop q (it_data it)),
      it_value := Some (q + unat n, unat v)\<rparr>"
    have "in_block ?it" "it_index ?it < it_num ?it" using s(2,3) by (simp_all add: in_block_def)
    then obtain it' where it': "advance_index ?it = Ok () it'" "it_index it' < it_num it'" using advance_index_in_block by blast
    note k = advance_index_same [OF it'(1)]
    have same: "same_block it it'" using k by (simp add: same_block_def)
    have "ready it'" using sound_same [OF s(1) same] it'(2) k room by (simp add: ready_def NextEntryOffset_def)
    then show ?thesis using False c lim d it'(1) same room
      by (auto simp: ParseNextKey_def CorruptionError_def Valid_def same_block_def)
  qed
qed

lemma ready_steady: "ready it \<Longrightarrow> steady it" by (simp add: ready_def steady_def)

lemma invalid_steady: "sound it \<Longrightarrow> same_block it it' \<Longrightarrow> \<not> Valid it' \<Longrightarrow> steady it'"
  using sound_same by (simp add: steady_def)

lemma scan_until_sound:
  assumes "ready it" "\<And>it. ready it \<Longrightarrow> stop it \<noteq> None"
  shows "\<exists>it'. scan_until stop it = Ok () it' \<and> same_block it it' \<and> steady it'"
  using assms
proof (induction stop it rule: scan_until.induct)
  case (1 stop it)
  consider (ok) it1 where "same_block it it1" "ParseNextKey it = Ok () it1" "ready it1"
    | (fail) it1 where "same_block it it1" "ParseNextKey it = Fail it1" "\<not> Valid it1"
    using ParseNextKey_sound [OF 1(2)] by blast
  then show ?case
  proof cases
    case fail
    then show ?thesis using 1(2) invalid_steady by (auto simp: scan_until.simps [of stop it] ready_def)
  next
    case ok
    obtain x where x: "stop it1 = Some x" using 1(3) [OF ok(3)] by auto
    show ?thesis
    proof (cases x)
      case True
      then show ?thesis using ok x ready_steady by (simp add: scan_until.simps [of stop it])
    next
      case False
      then obtain it' where "scan_until stop it1 = Ok () it'" "same_block it1 it'" "steady it'"
        using 1(1) [OF ok(2) _ _ ok(3) 1(3)] x by auto
      then show ?thesis using ok x False same_block_trans by (auto simp: scan_until.simps [of stop it])
    qed
  qed
qed

lemma at_or_after_defined: "ready it \<Longrightarrow> at_or_after n it \<noteq> None" by (simp add: ready_def at_or_after_def)

lemma SeekToRestartPoint_sound:
  assumes "sound it" "i < it_num it"
  shows "\<exists>it'. SeekToRestartPoint i it = Ok () it' \<and> same_block it it' \<and> ready it'"
proof -
  obtain q where q: "GetRestartPoint it i = Some q" "unat q \<le> length (it_data it)" using restart_inside [OF assms] by blast
  let ?it = "it\<lparr>it_key := [], it_index := i, it_value := Some (unat q, 0)\<rparr>"
  have same: "same_block it ?it" by (simp add: same_block_def)
  have "ready ?it" using sound_same [OF assms(1) same] assms(2) q(2) by (simp add: ready_def NextEntryOffset_def)
  then show ?thesis using q same by (simp add: SeekToRestartPoint_def)
qed

lemma restart_before_sound:
  "sound it \<Longrightarrow> it_index it < it_num it \<Longrightarrow>
    (\<exists>it'. same_block it it' \<and> (restart_before n it = Ok () it' \<and> it_index it' < it_num it' \<or> restart_before n it = Fail it' \<and> \<not> Valid it'))"
proof (induction n it rule: restart_before.induct)
  case (1 n it)
  obtain q where q: "GetRestartPoint it (it_index it) = Some q" using restart_inside [OF 1(2,3)] by blast
  let ?it = "it\<lparr>it_index := it_index it - 1\<rparr>"
  have same: "same_block it ?it" by (simp add: same_block_def)
  consider "\<not> n \<le> q" | "n \<le> q" "it_index it = 0" | (down) "n \<le> q" "it_index it \<noteq> 0" by blast
  then show ?case
  proof cases
    case down
    have "it_index it - 1 < it_num it" using down(2) 1(3) by (simp add: word_less_nat_alt unat_minus_one)
    then obtain it' where "same_block ?it it'"
      "restart_before n ?it = Ok () it' \<and> it_index it' < it_num it' \<or> restart_before n ?it = Fail it' \<and> \<not> Valid it'"
      using 1(1) [OF q down sound_same [OF 1(2) same]] by auto
    then show ?thesis using down q same_block_trans [OF same] by (auto simp: restart_before.simps [of n it])
  qed (use q 1(3) in \<open>auto simp: restart_before.simps [of n it] same_block_def Valid_def\<close>)
qed

lemma seek_search_sound:
  assumes "sound it" "left \<le> right" "right < it_num it" "unat right - unat left \<le> fuel"
  shows "(\<exists>l. seek_search fuel cmp target left right it = Ok l it \<and> l < it_num it) \<or>
    seek_search fuel cmp target left right it = Fail (CorruptionError it)"
  using assms(2-)
proof (induction fuel arbitrary: left right)
  case 0
  then have "\<not> left < right" by (simp add: word_less_nat_alt)
  then show ?case using 0 by auto
next
  case (Suc fuel)
  show ?case
  proof (cases "left < right")
    case True
    let ?mid = "(left + right + 1) div 2"
    have num: "unat (it_num it) < 2 ^ 30" using assms(1) by (simp add: sound_def in_block_def)
    have lr: "unat left < unat right" "unat right < unat (it_num it)" using True Suc.prems(2) by (simp_all add: word_less_nat_alt)
    have "unat (left + right) = unat left + unat right" using lr num by (simp add: unat_plus_if')
    then have "unat (left + right + 1) = unat left + unat right + 1" using lr num by (simp add: unat_plus_if')
    then have mid: "unat ?mid = (unat left + unat right + 1) div 2" by (simp add: unat_div)
    then have m: "unat left < unat ?mid" "unat ?mid \<le> unat right" using lr by linarith+
    then have "?mid \<noteq> 0" by (metis not_less_zero unsigned_0)
    then have m1: "unat (?mid - 1) = unat ?mid - 1" by (simp add: unat_minus_one)
    have "?mid < it_num it" using m lr by (simp add: word_less_nat_alt)
    then obtain q where q: "GetRestartPoint it ?mid = Some q" "unat q \<le> length (it_data it)" using restart_inside [OF assms(1)] by blast
    have lim: "unat (it_restarts it) \<le> length (it_data it)" using assms(1) by (simp add: sound_def in_block_def)
    show ?thesis
    proof (cases "DecodeEntry (it_data it) (unat q) (unat (it_restarts it))")
      case None
      then show ?thesis using True q lim by (simp add: Let_def)
    next
      case (Some e)
      obtain s n v p where e: "e = (s, n, v, p)" by (cases e)
      have "p + unat n \<le> length (it_data it)" using entry_inside(1) [OF assms(1) Some [unfolded e]] by simp
      then have step: "seek_search (Suc fuel) cmp target left right it = (if s \<noteq> 0 then Fail (CorruptionError it)
          else if cmp (take (unat n) (drop p (it_data it))) target < 0 then seek_search fuel cmp target ?mid right it
          else seek_search fuel cmp target left (?mid - 1) it)"
        using True q lim Some e by (simp add: Let_def)
      have up: "?mid \<le> right" "unat right - unat ?mid \<le> fuel" using m Suc.prems(3) by (simp_all add: word_le_nat_alt)
      have down: "left \<le> ?mid - 1" "?mid - 1 < it_num it" "unat (?mid - 1) - unat left \<le> fuel"
        using m m1 lr Suc.prems(3) by (simp_all add: word_le_nat_alt word_less_nat_alt)
      show ?thesis unfolding step using Suc.IH [OF up(1) Suc.prems(2) up(2)] Suc.IH [OF down] by simp
    qed
  next
    case False
    then show ?thesis using Suc.prems by auto
  qed
qed

text \<open>The calls on an iterator. Its client asks \<^verbatim>\<open>Valid\<close> before it moves on or back.\<close>

datatype iter_call = ToFirst | ToLast | ToKey slice | ToNext | ToPrev

fun iter_move :: "compare \<Rightarrow> iter_call \<Rightarrow> block_iter \<Rightarrow> (unit, block_iter) outcome" where
  "iter_move cmp ToFirst it = SeekToFirst it"
| "iter_move cmp ToLast it = SeekToLast it"
| "iter_move cmp (ToKey target) it = Seek cmp target it"
| "iter_move cmp ToNext it = (if Valid it then Next it else Ok () it)"
| "iter_move cmp ToPrev it = (if Valid it then Prev it else Ok () it)"

primrec iter_walk :: "compare \<Rightarrow> iter_call list \<Rightarrow> block_iter \<Rightarrow> (unit, block_iter) outcome" where
  "iter_walk cmp [] it = Ok () it"
| "iter_walk cmp (c # cs) it = andthen (iter_move cmp c it) (\<lambda>_. iter_walk cmp cs)"

lemma parse_once:
  assumes "ready it"
  shows "\<exists>it'. (case ParseNextKey it of Fail it2 \<Rightarrow> Ok () it2 | r \<Rightarrow> r) = Ok () it' \<and> same_block it it' \<and> steady it'"
  using ParseNextKey_sound [OF assms] ready_steady invalid_steady [of it] assms by (auto simp: ready_def)

lemma iter_move_sound:
  assumes "steady it"
  shows "\<exists>it'. iter_move cmp c it = Ok () it' \<and> same_block it it' \<and> steady it'"
proof -
  have s: "sound it" "0 < it_num it" "it_num it - 1 < it_num it"
    using assms by (auto simp: steady_def sound_def in_block_def word_gt_0 word_less_nat_alt unat_minus_one unat_gt_0)
  have seek: "\<exists>it'. andthen (SeekToRestartPoint i it1) f = Ok () it' \<and> same_block it1 it' \<and> steady it'"
    if "sound it1" "i < it_num it1" "\<And>it2. ready it2 \<Longrightarrow> \<exists>it'. f () it2 = Ok () it' \<and> same_block it2 it' \<and> steady it'" for i f it1
    using SeekToRestartPoint_sound [OF that(1,2)] that(3) same_block_trans by fastforce
  show ?thesis
  proof (cases c)
    case ToFirst
    from seek [where f = "\<lambda>_ it2. case ParseNextKey it2 of Fail it3 \<Rightarrow> Ok () it3 | r \<Rightarrow> r", OF s(1,2) parse_once]
    show ?thesis using ToFirst by (simp add: SeekToFirst_def)
  next
    case ToLast
    have "\<exists>it'. scan_until (at_or_after (it_restarts it1)) it1 = Ok () it' \<and> same_block it1 it' \<and> steady it'" if "ready it1" for it1
      by (rule scan_until_sound [OF that at_or_after_defined])
    from seek [OF s(1,3) this] show ?thesis using ToLast by (simp add: SeekToLast_def)
  next
    case (ToKey target)
    have "unat (it_num it - 1) - unat (0 :: u32) \<le> unat (it_num it)" using s(3) by (simp add: word_less_nat_alt)
    then consider l where "seek_search (unat (it_num it)) cmp target 0 (it_num it - 1) it = Ok l it" "l < it_num it"
      | "seek_search (unat (it_num it)) cmp target 0 (it_num it - 1) it = Fail (CorruptionError it)"
      using seek_search_sound [OF s(1) _ s(3)] by (meson word_zero_le)
    then show ?thesis
    proof cases
      case 1
      have "\<exists>it'. scan_until (\<lambda>it2. Some (0 \<le> cmp (it_key it2) target)) it1 = Ok () it' \<and> same_block it1 it' \<and> steady it'" if "ready it1" for it1
        by (rule scan_until_sound [OF that]) simp
      from seek [OF s(1) 1(2) this] show ?thesis using 1(1) ToKey by (simp add: Seek_def)
    next
      case 2
      have "same_block it (CorruptionError it)" "\<not> Valid (CorruptionError it)" by (simp_all add: same_block_def CorruptionError_def Valid_def)
      then show ?thesis using 2 ToKey invalid_steady [OF s(1)] by (simp add: Seek_def)
    qed
  next
    case ToNext
    then show ?thesis using parse_once [of it] assms by (auto simp: Next_def steady_def same_block_def)
  next
    case ToPrev
    show ?thesis
    proof (cases "Valid it")
      case True
      then have "it_index it < it_num it" using assms by (simp add: steady_def ready_def)
      from restart_before_sound [OF s(1) this] obtain it1 where it1: "same_block it it1"
        "restart_before (it_current it) it = Ok () it1 \<and> it_index it1 < it_num it1 \<or> restart_before (it_current it) it = Fail it1 \<and> \<not> Valid it1"
        by blast
      have "\<exists>it'. scan_until (at_or_after (it_current it)) it2 = Ok () it' \<and> same_block it2 it' \<and> steady it'" if "ready it2" for it2
        by (rule scan_until_sound [OF that at_or_after_defined])
      from seek [OF sound_same [OF s(1) it1(1)] _ this, of "it_index it1"]
      show ?thesis using it1 ToPrev True invalid_steady [OF s(1) it1(1)] same_block_trans [OF it1(1)] by (auto simp: Prev_def Let_def)
    qed (use assms ToPrev in \<open>simp add: same_block_def\<close>)
  qed
qed

lemma iter_walk_sound:
  assumes "steady it"
  shows "\<exists>it'. iter_walk cmp cs it = Ok () it' \<and> same_block it it' \<and> steady it'"
  using assms
proof (induction cs arbitrary: it)
  case (Cons c cs)
  obtain it1 where "iter_move cmp c it = Ok () it1" "same_block it it1" "steady it1" using iter_move_sound [OF Cons.prems] by blast
  then show ?case using Cons.IH [of it1] same_block_trans by fastforce
qed (simp add: same_block_def)

end
