(* ===== verification/Lv_Store_Correct.thy ===== *)
theory Lv_Store_Correct
  imports Lv_Batch Lv_Block_Correct
begin

unbundle bit_operations_syntax

section \<open>What the stored data guarantees\<close>

text \<open>
  The properties of keys, table blocks, skip lists, memtables and write batches, over the byte-wise comparator,
  which is the one the database client opens its stores with.
\<close>

text \<open>
  C20. What is written is what is read. A batch built by any sequence of \<^verbatim>\<open>Put\<close> and \<^verbatim>\<open>Delete\<close> calls, given the
  sequence number \<open>s\<close> and inserted into an empty memtable, is accepted; then \<^verbatim>\<open>Get\<close> with a lookup key of any
  sequence number \<open>t\<close> gives the outcome of the last operation on the key among those numbered up to \<open>t\<close>.
\<close>

theorem batch_applied_reads_back:
  assumes "\<forall>p \<in> set ops. op_ok p \<and> length (op_key p) + 8 < 2 ^ 32" "length ops < 2 ^ 31"
    "unat s + length ops \<le> unat kMaxSequenceNumber"
  shows "\<exists>rep rep' m. add_ops WriteBatch_Clear ops = Some rep \<and> Batch_SetSequence rep s = Some rep' \<and>
    Batch_InsertInto Slice_compare rep' MemTable = Some (OK, m) \<and>
    (\<forall>u t lk. length u + 8 < 2 ^ 32 \<longrightarrow> LookupKey u t = Some lk \<longrightarrow>
      MemTable_Get Slice_compare m lk = Some (last_write (take (unat t + 1 - unat s) ops) u))"
proof -
  have "add_ops WriteBatch_Clear ops = Some (batch_bytes 0 ops)"
    using batch_add_ops [of "[]" ops 0] assms(2) by (simp add: batch_Clear)
  moreover have "Batch_SetSequence (batch_bytes 0 ops) s = Some (batch_bytes s ops)" by (rule batch_Sequence)
  moreover obtain m where m: "Batch_InsertInto Slice_compare (batch_bytes s ops) MemTable = Some (OK, m)"
    "mem_rep Slice_compare (\<lambda>_. True) m (op_entries s ops)"
    "sorted_wrt (\<lambda>a b. e_seq a < e_seq b) (op_entries s ops)"
    using bytewise.InsertInto_rep [OF mem_rep_empty _ assms(3) _ _ assms(2)] assms(1) by auto
  moreover have "MemTable_Get Slice_compare m lk = Some (last_write (take (unat t + 1 - unat s) ops) u)"
    if "length u + 8 < 2 ^ 32" "LookupKey u t = Some lk" for u t lk
    using bytewise.MemTable_Get_spec [OF m(2,3) that(2) TrueI that(1)] lookup_op_entries [OF assms(3), of u t] by simp
  ultimately show ?thesis by blast
qed

theorem batch_applied_reads_back_witness:
  "\<exists>rep rep' m. add_ops WriteBatch_Clear [PutOp [1] [2], DelOp [1]] = Some rep \<and> Batch_SetSequence rep 5 = Some rep' \<and>
    Batch_InsertInto Slice_compare rep' MemTable = Some (OK, m) \<and>
    (\<exists>lk. LookupKey [1] 5 = Some lk \<and> MemTable_Get Slice_compare m lk = Some (Found [2])) \<and>
    (\<exists>lk. LookupKey [1] 6 = Some lk \<and> MemTable_Get Slice_compare m lk = Some Deleted)"
proof -
  let ?ops = "[PutOp [1] [2], DelOp [1]]"
  have lk: "\<exists>lk. LookupKey [1] t = Some lk" if "t \<le> kMaxSequenceNumber" for t
    using LookupKey_parts [OF that, of "[1]"] by auto
  have "\<exists>rep rep' m. add_ops WriteBatch_Clear ?ops = Some rep \<and> Batch_SetSequence rep 5 = Some rep' \<and>
    Batch_InsertInto Slice_compare rep' MemTable = Some (OK, m) \<and>
    (\<forall>u t lk. length u + 8 < 2 ^ 32 \<longrightarrow> LookupKey u t = Some lk \<longrightarrow>
      MemTable_Get Slice_compare m lk = Some (last_write (take (unat t + 1 - unat (5 :: u64)) ?ops) u))"
    by (rule batch_applied_reads_back) (simp_all add: kMaxSequenceNumber_def)
  then obtain rep rep' m where r: "add_ops WriteBatch_Clear ?ops = Some rep" "Batch_SetSequence rep 5 = Some rep'"
    "Batch_InsertInto Slice_compare rep' MemTable = Some (OK, m)"
    "\<forall>u t lk. length u + 8 < 2 ^ 32 \<longrightarrow> LookupKey u t = Some lk \<longrightarrow>
      MemTable_Get Slice_compare m lk = Some (last_write (take (unat t + 1 - unat (5 :: u64)) ?ops) u)" by blast
  obtain lk5 lk6 where k: "LookupKey [1] 5 = Some lk5" "LookupKey [1] 6 = Some lk6"
    using lk [of 5] lk [of 6] by (auto simp: kMaxSequenceNumber_def)
  have "MemTable_Get Slice_compare m lk5 = Some (last_write (take 1 ?ops) [1])" using r(4) k(1) by force
  moreover have "MemTable_Get Slice_compare m lk6 = Some (last_write (take 2 ?ops) [1])" using r(4) k(2) by force
  ultimately show ?thesis using r(1-3) k by (auto simp: last_write_def)
qed

text \<open>
  C21. Readers need no lock. Between any two stores of an insertion into the memtable (with \<open>j\<close> levels of the new
  node linked, and also when its own link of the next level is set but not yet its predecessor's), \<^verbatim>\<open>Get\<close> answers
  from the old history if no level is linked yet, and from the new one otherwise. \<open>None\<close> of these reads touches a
  link that is not set.
\<close>

theorem readers_between_stores:
  assumes "mem_rep Slice_compare (\<lambda>_. True) m es" "sorted_wrt (\<lambda>a b. e_seq a < e_seq b) es"
    "entry_ok (\<lambda>_. True) e" "\<forall>a \<in> set es. e_seq a < e_seq e"
    "insert_prepare (KeyComparator Slice_compare) (mt_table m) (entry_bytes e) = Some (x, prev, height, l0)" "j \<le> height"
    "LookupKey u s = Some lk" "length u + 8 < 2 ^ 32"
  shows "\<exists>lj. link_levels x prev [0..<j] l0 = Some lj \<and>
    MemTable_Get Slice_compare (m\<lparr>mt_table := lj\<rparr>) lk = Some (mem_lookup Slice_compare (if j = 0 then es else es @ [e]) u s) \<and>
    (j < height \<longrightarrow> (\<exists>p nxt l1. prev ! j = Some p \<and> node_Next lj p j = Some nxt \<and> node_SetNext lj x j nxt = Some l1 \<and>
      MemTable_Get Slice_compare (m\<lparr>mt_table := l1\<rparr>) lk = Some (mem_lookup Slice_compare (if j = 0 then es else es @ [e]) u s)))"
proof -
  let ?K = "KeyComparator Slice_compare" and ?V = "mem_key (\<lambda>_. True)"
  obtain h xs ks where r: "skip_rep ?K ?V (mt_table m) h xs ks" "set ks = entry_bytes ` set es"
    using assms(1) unfolding mem_rep_def by blast
  have new: "\<forall>a \<in> set ks. ?K (entry_bytes e) a \<noteq> Some 0"
    using bytewise.entry_is_new [OF assms(1,3,4)] r(2) by blast
  have get: "MemTable_Get Slice_compare (m\<lparr>mt_table := l\<rparr>) lk = Some (mem_lookup Slice_compare (if j = 0 then es else es @ [e]) u s)"
    if "skip_rep ?K ?V l h' xs' (if j = 0 then ks else add_key ?K (entry_bytes e) ks)" for l h' xs'
  proof -
    have "mem_rep Slice_compare (\<lambda>_. True) (m\<lparr>mt_table := l\<rparr>) (if j = 0 then es else es @ [e])"
      using that assms(1,3) r(2) unfolding mem_rep_def by (cases "j = 0") (auto simp: set_add_key intro!: exI)
    moreover have "sorted_wrt (\<lambda>a b. e_seq a < e_seq b) (if j = 0 then es else es @ [e])"
      using assms(2,4) by (simp add: sorted_wrt_append)
    ultimately show ?thesis using bytewise.MemTable_Get_spec [OF _ _ assms(7) TrueI assms(8)] by blast
  qed
  show ?thesis
    using mem_order.insert_states [OF r(1) entry_mem_key(1) [OF assms(3)] new assms(5,6)] get by blast
qed

definition sample_entry :: entry where
  "sample_entry = \<lparr>e_key = [1], e_seq = 5, e_type = kTypeValue, e_value = [7]\<rparr>"

lemma sample_entry_ok: "entry_ok (\<lambda>_. True) sample_entry"
  by (simp add: entry_ok_def sample_entry_def kMaxSequenceNumber_def)

theorem readers_between_stores_witness:
  "\<exists>x prev height l0 lj lk. insert_prepare (KeyComparator Slice_compare) (mt_table MemTable) (entry_bytes sample_entry) =
      Some (x, prev, height, l0) \<and> link_levels x prev [0..<height] l0 = Some lj \<and> LookupKey [1] 9 = Some lk \<and>
    MemTable_Get Slice_compare (MemTable\<lparr>mt_table := lj\<rparr>) lk = Some (Found [7])"
proof -
  have rep: "mem_rep Slice_compare (\<lambda>_. True) MemTable []" by (rule mem_rep_empty)
  obtain x prev height l0 where p: "insert_prepare (KeyComparator Slice_compare) (mt_table MemTable) (entry_bytes sample_entry) =
      Some (x, prev, height, l0)" "prepared (\<lambda>x. if x = 0 then kMaxHeight else 0) []
      (place (KeyComparator Slice_compare) [] (entry_bytes sample_entry)) (entry_bytes sample_entry) (x, prev, height, l0)"
    using mem_order.insert_prepare_rep [OF rep_empty [of _ _ "[]"] entry_mem_key(1) [OF sample_entry_ok]]
    unfolding MemTable_def memtable.simps list.set by blast
  obtain lk where lk: "LookupKey [1] 9 = Some lk"
    using LookupKey_parts [of 9 "[1]"] by (auto simp: kMaxSequenceNumber_def)
  have h: "height \<noteq> 0" using p(2) by (simp add: prepared_def)
  have "sees Slice_compare [1] 9 sample_entry" "outcome_of sample_entry = Found [7]"
    by (simp_all add: sees_def outcome_of_def sample_entry_def)
  then have "mem_lookup Slice_compare [sample_entry] [1] 9 = Found [7]" by (simp add: mem_lookup_def)
  then show ?thesis
    using readers_between_stores [OF rep _ sample_entry_ok _ p(1) order_refl lk] p(1) lk h by auto
qed

text \<open>
  C22. Insertion completes: from any of these states the stores that are left succeed, and then every reader sees
  the new entry.
\<close>

theorem insertion_completes:
  assumes "mem_rep Slice_compare (\<lambda>_. True) m es" "entry_ok (\<lambda>_. True) e" "\<forall>a \<in> set es. e_seq a < e_seq e"
  shows "\<exists>x prev height l0. insert_prepare (KeyComparator Slice_compare) (mt_table m) (entry_bytes e) = Some (x, prev, height, l0) \<and>
    1 \<le> height \<and> height \<le> kMaxHeight \<and>
    (\<forall>j \<le> height. \<exists>lj l. link_levels x prev [0..<j] l0 = Some lj \<and> link_levels x prev [j..<height] lj = Some l \<and>
      MemTable_Add Slice_compare m (e_seq e) (e_type e) (e_key e) (e_value e) = Some (m\<lparr>mt_table := l\<rparr>) \<and>
      mem_rep Slice_compare (\<lambda>_. True) (m\<lparr>mt_table := l\<rparr>) (es @ [e]))"
proof -
  let ?K = "KeyComparator Slice_compare" and ?V = "mem_key (\<lambda>_. True)"
  obtain h xs ks where r: "skip_rep ?K ?V (mt_table m) h xs ks" "set ks = entry_bytes ` set es"
    using assms(1) unfolding mem_rep_def by blast
  have new: "\<forall>a \<in> set ks. ?K (entry_bytes e) a \<noteq> Some 0"
    using bytewise.entry_is_new [OF assms] r(2) by blast
  note key = entry_mem_key(1) [OF assms(2)]
  obtain x prev height l0 where p: "insert_prepare ?K (mt_table m) (entry_bytes e) = Some (x, prev, height, l0)"
    "prepared h xs (place ?K ks (entry_bytes e)) (entry_bytes e) (x, prev, height, l0)" "skip_rep ?K ?V l0 (h(x := 0)) xs ks"
    using mem_order.insert_prepare_rep [OF r(1) key new] by blast
  obtain m' where m': "MemTable_Add Slice_compare m (e_seq e) (e_type e) (e_key e) (e_value e) = Some m'"
    "mem_rep Slice_compare (\<lambda>_. True) m' (es @ [e])" using bytewise.MemTable_Add_rep [OF assms] by blast
  have l: "length (e_key e) + 8 < 2 ^ 32" "length (e_value e) < 2 ^ 32" using assms(2) by (simp_all add: entry_ok_def)
  have "\<exists>lj l. link_levels x prev [0..<j] l0 = Some lj \<and> link_levels x prev [j..<height] lj = Some l \<and>
      MemTable_Add Slice_compare m (e_seq e) (e_type e) (e_key e) (e_value e) = Some (m\<lparr>mt_table := l\<rparr>) \<and>
      mem_rep Slice_compare (\<lambda>_. True) (m\<lparr>mt_table := l\<rparr>) (es @ [e])" if below: "j \<le> height" for j
  proof -
    obtain lj where lj: "link_levels x prev [0..<j] l0 = Some lj"
      using mem_order.insert_states [OF r(1) key new p(1) below] by blast
    obtain l where l': "link_levels x prev [0..<height] l0 = Some l"
      using mem_order.insert_states [OF r(1) key new p(1) order_refl] by blast
    have "[0..<height] = [0..<j] @ [j..<height]" using below upt_add_eq_append [of 0 j "height - j"] by simp
    then have "link_levels x prev [j..<height] lj = Some l" using l' lj by (simp add: link_levels_append)
    moreover have "MemTable_Add Slice_compare m (e_seq e) (e_type e) (e_key e) (e_value e) = Some (m\<lparr>mt_table := l\<rparr>)"
      using MemTable_Add_inserts [OF l, of Slice_compare m "e_seq e" "e_type e"] p(1) l'
      by (cases e) (simp add: SkipList_Insert_def)
    ultimately show ?thesis using lj m' by auto
  qed
  moreover have "1 \<le> height" "height \<le> kMaxHeight" using p(2,3) by (auto simp: prepared_def skip_rep_def)
  ultimately show ?thesis using p(1) by blast
qed

theorem insertion_completes_witness:
  "\<exists>l. MemTable_Add Slice_compare MemTable 5 kTypeValue [1] [7] = Some (MemTable\<lparr>mt_table := l\<rparr>)"
  using insertion_completes [OF mem_rep_empty sample_entry_ok] by (auto simp: sample_entry_def)

text \<open>
  The generator of the skip list's heights computes \<open>seed * 16807 mod (2 ^ 31 - 1)\<close> with shifts and one
  subtraction, and never reaches the two seeds it would be stuck on, whatever it was started with.
\<close>

theorem generator_is_multiplicative:
  "1 \<le> unat ((Random_Next ^^ n) (Random s)) \<and> unat ((Random_Next ^^ n) (Random s)) \<le> 2147483646 \<and>
   unat (Random_Next ((Random_Next ^^ n) (Random s))) = unat ((Random_Next ^^ n) (Random s)) * 16807 mod 2147483647"
proof -
  have "1 \<le> unat ((Random_Next ^^ n) (Random s)) \<and> unat ((Random_Next ^^ n) (Random s)) \<le> 2147483646"
    by (induction n) (use Random_range in \<open>simp_all add: Random_Next_range [simplified]\<close>)
  then show ?thesis using Random_Next_mod by blast
qed

text \<open>
  C23. Round trip of batches: the records of a batch built by \<^verbatim>\<open>Put\<close> and \<^verbatim>\<open>Delete\<close> calls, also of two batches
  joined by \<^verbatim>\<open>Append\<close>, are given to the handler of \<^verbatim>\<open>Iterate\<close> in the order of the calls, each once; the status is
  OK, unless the handler itself goes wrong.
\<close>

theorem batch_roundtrip:
  assumes "\<forall>p \<in> set (ops @ ops'). op_ok p" "length (ops @ ops') < 2 ^ 31"
  shows "\<exists>rep rep' both. add_ops WriteBatch_Clear ops = Some rep \<and> add_ops WriteBatch_Clear ops' = Some rep' \<and>
    Batch_Append rep rep' = Some both \<and>
    WriteBatch_Iterate hnd both h = map_option (\<lambda>h. (OK, h)) (handle_ops hnd (ops @ ops') h)"
proof -
  have "add_ops WriteBatch_Clear ps = Some (batch_bytes 0 ps)" if "length ps < 2 ^ 31" for ps
    using batch_add_ops [of "[]" ps 0] that by (simp add: batch_Clear)
  then have "add_ops WriteBatch_Clear ops = Some (batch_bytes 0 ops)" "add_ops WriteBatch_Clear ops' = Some (batch_bytes 0 ops')"
    using assms(2) by simp_all
  moreover have "Batch_Append (batch_bytes 0 ops) (batch_bytes 0 ops') = Some (batch_bytes 0 (ops @ ops'))"
    using assms(2) by (intro batch_Append) simp
  ultimately show ?thesis using batch_Iterate [OF assms, of hnd 0 h] by (intro exI conjI) assumption+
qed

theorem batch_roundtrip_witness:
  "\<exists>rep rep' both. add_ops WriteBatch_Clear [PutOp [1] [2]] = Some rep \<and> add_ops WriteBatch_Clear [DelOp [3]] = Some rep' \<and>
    Batch_Append rep rep' = Some both \<and>
    WriteBatch_Iterate \<lparr>h_put = \<lambda>k v h. Some (h @ [(k, v)]), h_delete = \<lambda>k h. Some (h @ [(k, [])])\<rparr> both [] =
      Some (OK, [([1], [2]), ([3], [])])"
  using batch_roundtrip [of "[PutOp [1] [2]]" "[DelOp [3]]"
      "\<lparr>h_put = \<lambda>k v h. Some (h @ [(k, v)]), h_delete = \<lambda>k h. Some (h @ [(k, [])])\<rparr>" "[]"]
  by simp

text \<open>
  C24. A batch that lost its end is refused: if the batch is accepted, no proper prefix of it is, whatever the
  batch and the handler are.
\<close>

theorem batch_truncation_detected:
  assumes "WriteBatch_Iterate hnd rep h = Some (OK, h1)" "n < length rep"
  shows "WriteBatch_Iterate hnd (take n rep) h \<noteq> Some (OK, h2)"
  using batch_prefix_refused [of hnd "take n rep" "drop n rep" h h1 h2] assms by simp

theorem batch_truncation_detected_witness:
  "WriteBatch_Iterate \<lparr>h_put = \<lambda>k v h. Some (h + 1), h_delete = \<lambda>k h. Some (h + 1)\<rparr>
     (take 20 (batch_bytes 7 [PutOp [1] [2], DelOp [3, 4]])) (0 :: nat) \<noteq> Some (OK, 1)"
proof (rule batch_truncation_detected)
  show "WriteBatch_Iterate \<lparr>h_put = \<lambda>k v h. Some (h + 1), h_delete = \<lambda>k h. Some (h + 1)\<rparr>
      (batch_bytes 7 [PutOp [1] [2], DelOp [3, 4]]) (0 :: nat) = Some (OK, 2)"
    by (subst batch_Iterate) simp_all
  show "20 < length (batch_bytes 7 [PutOp [1] [2], DelOp [3, 4]])"
    by (simp add: batch_bytes_def PutLengthPrefixedSlice_def PutVarint32_def EncodeVarint32_def)
qed

text \<open>
  C27. The keys of an index: the shortened key that \<^verbatim>\<open>FindShortestSeparator\<close> of the internal comparator makes
  from the last key \<open>a\<close> of a block and the first key \<open>b\<close> of the next is at or after \<open>a\<close>, before \<open>b\<close>, and not longer
  than \<open>a\<close>; no assertion in it fails.
\<close>

theorem separator_separates:
  assumes "8 \<le> length a" "8 \<le> length b" "InternalCompare Slice_compare a b = Some c" "c < 0"
  shows "\<exists>s x y. InternalSeparator Slice_compare FindShortestSeparator a b = Some s \<and> length s \<le> length a \<and>
    InternalCompare Slice_compare a s = Some x \<and> x \<le> 0 \<and> InternalCompare Slice_compare s b = Some y \<and> y < 0"
proof -
  have v: "internal_valid (\<lambda>_. True) a" "internal_valid (\<lambda>_. True) b" using assms(1,2) by (simp_all add: internal_valid_def)
  have "internal_compare Slice_compare a b < 0" using assms(3,4) by (simp add: internal_compare_def)
  from internal.separates [OF v this] obtain s where
    "InternalSeparator Slice_compare FindShortestSeparator a b = Some s" "internal_valid (\<lambda>_. True) s"
    "internal_compare Slice_compare a s \<le> 0" "internal_compare Slice_compare s b < 0" "length s \<le> length a" by blast
  then show ?thesis using bytewise.internal_Compare v by blast
qed

theorem separator_separates_witness:
  "\<exists>s x y. InternalSeparator Slice_compare FindShortestSeparator ([1, 2, 3] @ EncodeFixed64 0x101) ([1, 4] @ EncodeFixed64 0x101) = Some s \<and>
    length s \<le> length ([1, 2, 3] @ EncodeFixed64 0x101 :: slice) \<and>
    InternalCompare Slice_compare ([1, 2, 3] @ EncodeFixed64 0x101) s = Some x \<and> x \<le> 0 \<and>
    InternalCompare Slice_compare s ([1, 4] @ EncodeFixed64 0x101) = Some y \<and> y < 0"
proof (rule separator_separates)
  show "InternalCompare Slice_compare ([1, 2, 3] @ EncodeFixed64 0x101) ([1, 4] @ EncodeFixed64 0x101) = Some (- 1)"
    by (subst InternalCompare_parts) (simp_all only: ik_parts, simp_all)
qed simp_all

text \<open>
  C28. Snapshots: in the order of internal keys the lookup key of a sequence number \<open>s\<close> is at or before exactly
  those versions of its user key that were written at \<open>s\<close> or earlier, deletions included.
\<close>

theorem lookup_key_visibility:
  assumes "LookupKey u s = Some lk" "AppendInternalKey [] \<lparr>pk_user_key = u, pk_sequence = q, pk_type = t\<rparr> = Some e"
    "length u + 8 < 2 ^ 32"
  shows "\<exists>c. InternalCompare Slice_compare (internal_key lk) e = Some c \<and> (c \<le> 0 \<longleftrightarrow> q \<le> s)"
proof -
  have e: "8 \<le> length e" using AppendInternalKey_parse(3) [OF assms(2)] by (simp add: InternalKeyEncodingLength_def)
  have "internal_valid (\<lambda>_. True) (internal_key lk)"
    using bytewise.lookup_memkey(3) [OF assms(1) TrueI assms(3)] by (simp add: internal_valid_def)
  moreover have "internal_valid (\<lambda>_. True) e" using e by (simp add: internal_valid_def)
  ultimately show ?thesis
    using bytewise.internal_Compare bytewise.lookup_visible [OF assms(1,2) TrueI assms(3)] by blast
qed

theorem lookup_key_visibility_witness:
  "\<exists>lk e c. LookupKey [1] 7 = Some lk \<and> AppendInternalKey [] \<lparr>pk_user_key = [1], pk_sequence = 8, pk_type = 0\<rparr> = Some e \<and>
    InternalCompare Slice_compare (internal_key lk) e = Some c \<and> 0 < c"
proof -
  obtain lk where lk: "LookupKey [1] 7 = Some lk"
    using LookupKey_parts [of 7 "[1]"] by (auto simp: kMaxSequenceNumber_def)
  obtain e where e: "AppendInternalKey [] \<lparr>pk_user_key = [1], pk_sequence = 8, pk_type = 0\<rparr> = Some e"
    by (simp add: AppendInternalKey_def PackSequenceAndType_def kMaxSequenceNumber_def)
  from lookup_key_visibility [OF lk e] show ?thesis using lk e by auto
qed

text \<open>
  C29. Internal keys round-trip both ways: what \<^verbatim>\<open>AppendInternalKey\<close> writes, \<^verbatim>\<open>ParseInternalKey\<close> reads, and what
  \<^verbatim>\<open>ParseInternalKey\<close> accepts is what \<^verbatim>\<open>AppendInternalKey\<close> writes for its result. Exactly the keys with a sequence
  number below \<open>2 ^ 56\<close> and a known type can be written.
\<close>

theorem internal_key_roundtrip:
  "(AppendInternalKey [] k = Some s \<longleftrightarrow> ParseInternalKey s = Some k) \<and>
   (AppendInternalKey [] k \<noteq> None \<longleftrightarrow> pk_sequence k \<le> kMaxSequenceNumber \<and> pk_type k \<le> kTypeValue)"
  using AppendInternalKey_parse(1) [of k s] ParseInternalKey_append [of s k] AppendInternalKey_defined [of "[]" k] by blast

text \<open>
  A status keeps what it was made of: for messages that together stay below 4 GB, the array holds the code
  and the message, copies are equal, and \<^verbatim>\<open>ToString\<close> gives the name of the code and the message, with a colon
  between the two parts when there is a second one.
\<close>

theorem status_keeps_message:
  assumes "length (message m n) + 5 < 2 ^ 32"
  shows "\<exists>st. state_of (Corruption m n) = Some (Some st) \<and> IsCorruption (Some st) \<and> \<not> IsNotFound (Some st) \<and>
    Status_copy (Some st) = Some (Some st) \<and>
    Status_ToString unknown (Some st) = Some (chars ''Corruption: '' @ message m n)"
proof -
  obtain st where st: "Status_make 2 m n = Some st" using Status_make_holds [of 2 m n] assms by auto
  from Status_text [OF _ assms st] show ?thesis
    by (simp add: st IsCorruption_def IsNotFound_def type_text_def)
qed

theorem status_keeps_message_witness:
  "\<exists>st. state_of (Corruption (chars ''VersionEdit'') (chars ''unknown tag'')) = Some (Some st) \<and> IsCorruption (Some st) \<and>
    Status_ToString (\<lambda>_. []) (Some st) = Some (chars ''Corruption: VersionEdit: unknown tag'')"
  using status_keeps_message [of "chars ''VersionEdit''" "chars ''unknown tag''" "\<lambda>_. []"] by (auto simp: message_def)

text \<open>
  C25. A block is a cursor on what was added to it: for pairs in increasing order of their internal keys the
  builder's assertions hold, and if the block has less than 4 GB, its iterator is related to the positions of the
  list in such a way that every operation moves as in the list: \<^verbatim>\<open>Next\<close>, \<^verbatim>\<open>Prev\<close>, \<^verbatim>\<open>SeekToFirst\<close>, \<^verbatim>\<open>SeekToLast\<close>, and
  \<^verbatim>\<open>Seek\<close> to the first key that is not before the target; it never fails or loops.
\<close>

theorem block_is_cursor:
  assumes "kvs_sorted (internal_compare Slice_compare) (internal_valid (\<lambda>_. True)) kvs" "1 \<le> interval"
  shows "\<exists>c. block_contents \<lparr>opt_comparator = internal_compare Slice_compare, block_restart_interval = interval\<rparr> kvs = Some c \<and>
    (length c < 2 ^ 32 \<longrightarrow> (\<exists>b it R. Block c = Some b \<and> NewIterator b = Some (Iter it) \<and> R (length kvs) it \<and>
      simulates (internal_compare Slice_compare) (internal_valid (\<lambda>_. True)) kvs R))"
  using assms by (rule internal.block_simulates)

theorem block_is_cursor_witness:
  "\<exists>c. block_contents \<lparr>opt_comparator = internal_compare Slice_compare, block_restart_interval = 2\<rparr>
      [([1] @ EncodeFixed64 0x301, [5]), ([1] @ EncodeFixed64 0x201, []), ([2, 7] @ EncodeFixed64 0x100, [8, 9])] = Some c"
proof -
  let ?kvs = "[([1] @ EncodeFixed64 0x301, [5]), ([1] @ EncodeFixed64 0x201, []), ([2, 7] @ EncodeFixed64 0x100, [8, 9])] :: (slice \<times> slice) list"
  have valid: "internal_valid (\<lambda>_. True) (u @ EncodeFixed64 t)" for u t by (simp add: internal_valid_def)
  have less: "internal_compare Slice_compare (u @ EncodeFixed64 t) (v @ EncodeFixed64 w) < 0 \<longleftrightarrow>
      Slice_compare u v < 0 \<or> (u = v \<and> w < t)" for u t v w
    unfolding bytewise.internal_less [OF valid valid] ik_parts by simp
  have "kvs_sorted (internal_compare Slice_compare) (internal_valid (\<lambda>_. True)) ?kvs"
    using less [of "[1]" "0x301" "[1]" "0x201"]
      less [of "[1]" "0x301" "[2, 7]" "0x100"]
      less [of "[1]" "0x201" "[2, 7]" "0x100"]
      valid [of "[1]" "0x301"] valid [of "[1]" "0x201"] valid [of "[2, 7]" "0x100"]
    by (simp add: kvs_sorted_def)
  then have "\<exists>c. block_contents \<lparr>opt_comparator = internal_compare Slice_compare, block_restart_interval = 2\<rparr> ?kvs = Some c \<and>
    (length c < 2 ^ 32 \<longrightarrow> (\<exists>b it R. Block c = Some b \<and> NewIterator b = Some (Iter it) \<and> R (length ?kvs) it \<and>
      simulates (internal_compare Slice_compare) (internal_valid (\<lambda>_. True)) ?kvs R))"
    by (rule block_is_cursor) simp
  then show ?thesis by blast
qed

text \<open>
  The two lengths of an entry are added in 32 bits, so a block whose entry has a key delta of \<open>2 ^ 32 - 1\<close>
  bytes and a value of one is accepted, and reading its first entry leaves the block. A restart point is used as it
  is found in the block, and may lie anywhere.
\<close>

theorem block_entry_overflow:
  "\<exists>b it. Block wrapping_block = Some b \<and> NewIterator b = Some (Iter it) \<and> SeekToFirst it = Fault"
  by (rule wrapping_read)

definition misplaced_block :: slice where "misplaced_block = EncodeFixed32 100 @ EncodeFixed32 1"

theorem block_restart_outside:
  "\<exists>b it. Block misplaced_block = Some b \<and> NewIterator b = Some (Iter it) \<and> SeekToFirst it = Fault"
proof -
  let ?it = "\<lparr>it_data = misplaced_block, it_restarts = 0, it_num = 1, it_current = 0, it_index = 1, it_key = [],
    it_value = None, it_ok = True\<rparr>"
  have len: "length misplaced_block = 8" by (simp add: misplaced_block_def EncodeFixed32_def)
  have num: "NumRestarts misplaced_block 8 = Some 1"
    by (simp add: misplaced_block_def NumRestarts_def DecodeFixed32_def EncodeFixed32_def)
  have "Block misplaced_block = Some \<lparr>bl_data = misplaced_block, bl_size = 8, bl_restart_offset = 0\<rparr>"
    by (simp add: Block_def len num)
  moreover have "NewIterator \<lparr>bl_data = misplaced_block, bl_size = 8, bl_restart_offset = 0\<rparr> = Some (Iter ?it)"
    by (simp add: NewIterator_def num new_iter_def)
  moreover have "GetRestartPoint ?it 0 = Some 100"
    by (simp add: GetRestartPoint_def misplaced_block_def DecodeFixed32_def EncodeFixed32_def)
  then have "SeekToFirst ?it = Fault" by (simp add: SeekToFirst_def SeekToRestartPoint_def len)
  ultimately show ?thesis by blast
qed

text \<open>
  C26. These two are the only ways. On a block of any content and less than 4 GB, every sequence of calls on its iterator (to
  the first or the last entry, to a key, and on or back while the iterator is valid), with any comparison function, returns:
  no pointer leaves the block, nothing outside it is read, no assertion fails and no loop runs forever. The exceptions are
  blocks with a restart point outside the block, and blocks with an entry whose two lengths do not fit 32 bits together.
\<close>

theorem block_walk_safe:
  assumes "Block c = Some b" "NewIterator b = Some (Iter it0)" "length c < 2 ^ 32"
  shows "(\<exists>it. iter_walk cmp calls it0 = Ok () it) \<or>
    (\<exists>i offset. GetRestartPoint it0 i = Some offset \<and> length c < unat offset) \<or>
    (\<exists>p s n v q. DecodeEntry c p (unat (it_restarts it0)) = Some (s, n, v, q) \<and> 2 ^ 32 \<le> unat n + unat v)"
proof -
  note b = Block_in_block [OF assms]
  have "steady it0" if "\<not> restart_outside it0" "\<not> lengths_wrap it0" using b(1,3) that by (simp add: steady_def sound_def)
  then show ?thesis using iter_walk_sound [of it0 cmp calls] b(2) unfolding restart_outside_def lengths_wrap_def by metis
qed

text \<open>A block with one entry, walked in all five ways.\<close>

theorem block_walk_safe_witness:
  "let c = [0, 1, 1, 97, 98] @ EncodeFixed32 0 @ EncodeFixed32 1;
     it0 = \<lparr>it_data = c, it_restarts = 5, it_num = 1, it_current = 5, it_index = 1, it_key = [], it_value = None, it_ok = True\<rparr> in
   (\<exists>it. iter_walk Slice_compare [ToFirst, ToNext, ToKey [97], ToPrev, ToLast] it0 = Ok () it) \<or>
    (\<exists>i offset. GetRestartPoint it0 i = Some offset \<and> length c < unat offset) \<or>
    (\<exists>p s n v q. DecodeEntry c p 5 = Some (s, n, v, q) \<and> 2 ^ 32 \<le> unat n + unat v)"
proof -
  let ?c = "[0, 1, 1, 97, 98] @ EncodeFixed32 0 @ EncodeFixed32 1"
  let ?it0 = "\<lparr>it_data = ?c, it_restarts = 5, it_num = 1, it_current = 5, it_index = 1, it_key = [], it_value = None, it_ok = True\<rparr>"
  have num: "NumRestarts ?c 13 = Some 1" by (simp add: NumRestarts_def DecodeFixed32_def EncodeFixed32_def)
  have len: "length ?c = 13" by (simp add: EncodeFixed32_def)
  have b: "Block ?c = Some \<lparr>bl_data = ?c, bl_size = 13, bl_restart_offset = 5\<rparr>" unfolding Block_def len Let_def num by simp
  have it: "NewIterator \<lparr>bl_data = ?c, bl_size = 13, bl_restart_offset = 5\<rparr> = Some (Iter ?it0)"
    unfolding NewIterator_def block.select_convs num by (simp add: new_iter_def)
  show ?thesis
    using block_walk_safe [OF b it, of Slice_compare "[ToFirst, ToNext, ToKey [97], ToPrev, ToLast]"] len unfolding Let_def by simp
qed

end
