(* ===== verification/Lv_Cache.thy ===== *)
theory Lv_Cache
  imports Lv_Bloom "HOL-Library.Multiset" "HOL-Library.Monad_Syntax"
begin

unbundle bit_operations_syntax

section \<open>The LRU cache (leveldb util/cache)\<close>

text \<open>
  Entries are objects of a heap: they are numbered as they are allocated, and a number is never used again. Each
  shard has two circular lists of entries, linked both ways through its two dummy heads, and a hash table of chains.
  A pointer to a pointer in the table is a \<open>slot\<close>. The heap also keeps the calls that were made to the entries' deleters,
  in order. \<open>None\<close> is a failed assertion, undefined behaviour (the use of a freed entry or of a pointer that was never set)
  or a loop that does not end. Locks on mutexes are not modelled: an operation is a step of its own.
\<close>

subsection \<open>Entries\<close>

text \<open>The nodes of the lists of one shard.\<close>

datatype node = LruHead | InUseHead | Entry nat

text \<open>Fields that \<^verbatim>\<open>malloc\<close> leaves without a value are \<open>None\<close>; \<^verbatim>\<open>next_hash\<close> is always set before it is read.\<close>

record 'v lru_handle =
  h_value :: 'v
  h_deleter :: nat
  h_next_hash :: "nat option"
  h_next :: "node option"
  h_prev :: "node option"
  h_charge :: u64
  h_key_data :: slice
  h_in_cache :: bool
  h_refs :: u32
  h_hash :: u32

record 'v heap =
  hp_fresh :: nat
  hp_obj :: "nat \<Rightarrow> 'v lru_handle option"
  hp_deleted :: "(nat \<times> slice \<times> 'v) list"

definition modify_entry :: "nat \<Rightarrow> ('v lru_handle \<Rightarrow> 'v lru_handle) \<Rightarrow> 'v heap \<Rightarrow> 'v heap option" where
  "modify_entry a f hp = do { e \<leftarrow> hp_obj hp a; Some (hp\<lparr>hp_obj := (hp_obj hp)(a := Some (f e))\<rparr>) }"

text \<open>An entry that is its own successor would hold its key in \<^verbatim>\<open>value\<close>; no entry here does.\<close>

definition handle_key :: "nat \<Rightarrow> 'v heap \<Rightarrow> slice option" where
  "handle_key a hp = do { e \<leftarrow> hp_obj hp a; n \<leftarrow> h_next e; if n = Entry a then None else Some (h_key_data e) }"

subsection \<open>The hash table\<close>

record handle_table =
  ht_length :: u32
  ht_elems :: u32
  ht_list :: "nat option list"

datatype slot = Bucket nat | NextHash nat

fun read_slot :: "slot \<Rightarrow> 'v heap \<times> handle_table \<Rightarrow> nat option option" where
  "read_slot (Bucket i) (hp, t) = (if i < length (ht_list t) then Some (ht_list t ! i) else None)"
| "read_slot (NextHash a) (hp, t) = map_option h_next_hash (hp_obj hp a)"

fun write_slot :: "slot \<Rightarrow> nat option \<Rightarrow> 'v heap \<times> handle_table \<Rightarrow> ('v heap \<times> handle_table) option" where
  "write_slot (Bucket i) v (hp, t) =
     (if i < length (ht_list t) then Some (hp, t\<lparr>ht_list := (ht_list t)[i := v]\<rparr>) else None)"
| "write_slot (NextHash a) v (hp, t) = do { hp1 \<leftarrow> modify_entry a (\<lambda>e. e\<lparr>h_next_hash := v\<rparr>) hp; Some (hp1, t) }"

partial_function (option) find_slot :: "slice \<Rightarrow> u32 \<Rightarrow> slot \<Rightarrow> 'v heap \<times> handle_table \<Rightarrow> slot option" where
  "find_slot key hash p s =
     do {
       r \<leftarrow> read_slot p s;
       (case r of
          None \<Rightarrow> Some p
        | Some a \<Rightarrow> do {
            e \<leftarrow> hp_obj (fst s) a;
            other \<leftarrow> (if h_hash e \<noteq> hash then Some True else do { k \<leftarrow> handle_key a (fst s); Some (key \<noteq> k) });
            if other then find_slot key hash (NextHash a) s else Some p
          })
     }"

definition FindPointer :: "slice \<Rightarrow> u32 \<Rightarrow> 'v heap \<times> handle_table \<Rightarrow> slot option" where
  "FindPointer key hash s = find_slot key hash (Bucket (unat (hash AND (ht_length (snd s) - 1)))) s"

definition table_Lookup :: "slice \<Rightarrow> u32 \<Rightarrow> 'v heap \<times> handle_table \<Rightarrow> nat option option" where
  "table_Lookup key hash s = do { p \<leftarrow> FindPointer key hash s; read_slot p s }"

partial_function (option) grow_length :: "u32 \<Rightarrow> u32 \<Rightarrow> u32 option" where
  "grow_length elems n = (if n < elems then grow_length elems (n * 2) else Some n)"

text \<open>Moving the entries of a chain into the new array, and counting them.\<close>

partial_function (option) move_chain :: "u32 \<Rightarrow> nat option \<Rightarrow> 'v heap \<times> nat option list \<times> u32 \<Rightarrow>
    ('v heap \<times> nat option list \<times> u32) option" where
  "move_chain n h s =
     (case h of
        None \<Rightarrow> Some s
      | Some a \<Rightarrow>
          (case s of (hp, new_list, moved) \<Rightarrow> do {
            e \<leftarrow> hp_obj hp a;
            let i = unat (h_hash e AND (n - 1));
            if i < length new_list then do {
              hp1 \<leftarrow> modify_entry a (\<lambda>e. e\<lparr>h_next_hash := new_list ! i\<rparr>) hp;
              move_chain n (h_next_hash e) (hp1, new_list[i := Some a], moved + 1)
            } else None
          }))"

fun move_chains :: "u32 \<Rightarrow> nat option list \<Rightarrow> 'v heap \<times> nat option list \<times> u32 \<Rightarrow> ('v heap \<times> nat option list \<times> u32) option" where
  "move_chains n [] s = Some s"
| "move_chains n (h # hs) s = do { s1 \<leftarrow> move_chain n h s; move_chains n hs s1 }"

definition Resize :: "'v heap \<times> handle_table \<Rightarrow> ('v heap \<times> handle_table) option" where
  "Resize s =
     (case s of (hp, t) \<Rightarrow> do {
       new_length \<leftarrow> grow_length (ht_elems t) 4;
       (hp1, new_list, moved) \<leftarrow> move_chains new_length (ht_list t) (hp, replicate (unat new_length) None, 0);
       if ht_elems t \<noteq> moved then None else Some (hp1, t\<lparr>ht_list := new_list, ht_length := new_length\<rparr>)
     })"

definition HandleTable :: "'v heap \<Rightarrow> ('v heap \<times> handle_table) option" where
  "HandleTable hp = Resize (hp, \<lparr>ht_length = 0, ht_elems = 0, ht_list = []\<rparr>)"

definition table_Insert :: "nat \<Rightarrow> 'v heap \<times> handle_table \<Rightarrow> (nat option \<times> 'v heap \<times> handle_table) option" where
  "table_Insert a s =
     do {
       e \<leftarrow> hp_obj (fst s) a;
       k \<leftarrow> handle_key a (fst s);
       p \<leftarrow> FindPointer k (h_hash e) s;
       old \<leftarrow> read_slot p s;
       nh \<leftarrow> (case old of None \<Rightarrow> Some None | Some b \<Rightarrow> map_option h_next_hash (hp_obj (fst s) b));
       hp1 \<leftarrow> modify_entry a (\<lambda>e. e\<lparr>h_next_hash := nh\<rparr>) (fst s);
       (hp2, t2) \<leftarrow> write_slot p (Some a) (hp1, snd s);
       (if old = None
        then do {
          let t3 = t2\<lparr>ht_elems := ht_elems t2 + 1\<rparr>;
          s4 \<leftarrow> (if ht_length t3 < ht_elems t3 then Resize (hp2, t3) else Some (hp2, t3));
          Some (old, s4)
        }
        else Some (old, hp2, t2))
     }"

definition table_Remove :: "slice \<Rightarrow> u32 \<Rightarrow> 'v heap \<times> handle_table \<Rightarrow> (nat option \<times> 'v heap \<times> handle_table) option" where
  "table_Remove key hash s =
     do {
       p \<leftarrow> FindPointer key hash s;
       result \<leftarrow> read_slot p s;
       (case result of
          None \<Rightarrow> Some (None, s)
        | Some a \<Rightarrow> do {
            e \<leftarrow> hp_obj (fst s) a;
            (hp1, t1) \<leftarrow> write_slot p (h_next_hash e) s;
            Some (result, hp1, t1\<lparr>ht_elems := ht_elems t1 - 1\<rparr>)
          })
     }"

subsection \<open>A shard\<close>

record lru_cache =
  lc_capacity :: u64
  lc_usage :: u64
  lc_lru_next :: node
  lc_lru_prev :: node
  lc_use_next :: node
  lc_use_prev :: node
  lc_table :: handle_table

type_synonym 'v lru = "'v heap \<times> lru_cache"

fun get_next :: "node \<Rightarrow> 'v lru \<Rightarrow> node option" where
  "get_next LruHead (hp, c) = Some (lc_lru_next c)"
| "get_next InUseHead (hp, c) = Some (lc_use_next c)"
| "get_next (Entry a) (hp, c) = do { e \<leftarrow> hp_obj hp a; h_next e }"

fun get_prev :: "node \<Rightarrow> 'v lru \<Rightarrow> node option" where
  "get_prev LruHead (hp, c) = Some (lc_lru_prev c)"
| "get_prev InUseHead (hp, c) = Some (lc_use_prev c)"
| "get_prev (Entry a) (hp, c) = do { e \<leftarrow> hp_obj hp a; h_prev e }"

fun set_next :: "node \<Rightarrow> node \<Rightarrow> 'v lru \<Rightarrow> 'v lru option" where
  "set_next LruHead n (hp, c) = Some (hp, c\<lparr>lc_lru_next := n\<rparr>)"
| "set_next InUseHead n (hp, c) = Some (hp, c\<lparr>lc_use_next := n\<rparr>)"
| "set_next (Entry a) n (hp, c) = do { hp1 \<leftarrow> modify_entry a (\<lambda>e. e\<lparr>h_next := Some n\<rparr>) hp; Some (hp1, c) }"

fun set_prev :: "node \<Rightarrow> node \<Rightarrow> 'v lru \<Rightarrow> 'v lru option" where
  "set_prev LruHead n (hp, c) = Some (hp, c\<lparr>lc_lru_prev := n\<rparr>)"
| "set_prev InUseHead n (hp, c) = Some (hp, c\<lparr>lc_use_prev := n\<rparr>)"
| "set_prev (Entry a) n (hp, c) = do { hp1 \<leftarrow> modify_entry a (\<lambda>e. e\<lparr>h_prev := Some n\<rparr>) hp; Some (hp1, c) }"

definition LRUCache :: "'v heap \<Rightarrow> 'v lru option" where
  "LRUCache hp =
     do {
       (hp1, t) \<leftarrow> HandleTable hp;
       Some (hp1, \<lparr>lc_capacity = 0, lc_usage = 0, lc_lru_next = LruHead, lc_lru_prev = LruHead,
         lc_use_next = InUseHead, lc_use_prev = InUseHead, lc_table = t\<rparr>)
     }"

definition SetCapacity :: "u64 \<Rightarrow> lru_cache \<Rightarrow> lru_cache" where "SetCapacity capacity c = c\<lparr>lc_capacity := capacity\<rparr>"

definition LRU_Remove :: "nat \<Rightarrow> 'v lru \<Rightarrow> 'v lru option" where
  "LRU_Remove a s =
     do {
       n \<leftarrow> get_next (Entry a) s;
       p \<leftarrow> get_prev (Entry a) s;
       s1 \<leftarrow> set_prev n p s;
       p \<leftarrow> get_prev (Entry a) s1;
       n \<leftarrow> get_next (Entry a) s1;
       set_next p n s1
     }"

definition LRU_Append :: "node \<Rightarrow> nat \<Rightarrow> 'v lru \<Rightarrow> 'v lru option" where
  "LRU_Append list a s =
     do {
       s1 \<leftarrow> set_next (Entry a) list s;
       l \<leftarrow> get_prev list s1;
       s2 \<leftarrow> set_prev (Entry a) l s1;
       p \<leftarrow> get_prev (Entry a) s2;
       s3 \<leftarrow> set_next p (Entry a) s2;
       n \<leftarrow> get_next (Entry a) s3;
       set_prev n (Entry a) s3
     }"

definition modify :: "nat \<Rightarrow> ('v lru_handle \<Rightarrow> 'v lru_handle) \<Rightarrow> 'v lru \<Rightarrow> 'v lru option" where
  "modify a f s = do { hp1 \<leftarrow> modify_entry a f (fst s); Some (hp1, snd s) }"

definition Ref :: "nat \<Rightarrow> 'v lru \<Rightarrow> 'v lru option" where
  "Ref a s =
     do {
       e \<leftarrow> hp_obj (fst s) a;
       s1 \<leftarrow> (if h_refs e = 1 \<and> h_in_cache e then do { s1 \<leftarrow> LRU_Remove a s; LRU_Append InUseHead a s1 } else Some s);
       modify a (\<lambda>e. e\<lparr>h_refs := h_refs e + 1\<rparr>) s1
     }"

text \<open>The deleter is called with the key and the value, and the entry is freed.\<close>

definition free_entry :: "nat \<Rightarrow> 'v lru \<Rightarrow> 'v lru option" where
  "free_entry a s =
     do {
       e \<leftarrow> hp_obj (fst s) a;
       k \<leftarrow> handle_key a (fst s);
       Some ((fst s)\<lparr>hp_obj := (hp_obj (fst s))(a := None), hp_deleted := hp_deleted (fst s) @ [(h_deleter e, k, h_value e)]\<rparr>, snd s)
     }"

definition Unref :: "nat \<Rightarrow> 'v lru \<Rightarrow> 'v lru option" where
  "Unref a s =
     do {
       e \<leftarrow> hp_obj (fst s) a;
       if h_refs e = 0 then None
       else do {
         s1 \<leftarrow> modify a (\<lambda>e. e\<lparr>h_refs := h_refs e - 1\<rparr>) s;
         if h_refs e = 1
         then if h_in_cache e then None else free_entry a s1
         else if h_in_cache e \<and> h_refs e = 2 then do { s2 \<leftarrow> LRU_Remove a s1; LRU_Append LruHead a s2 }
         else Some s1
       }
     }"

definition FinishErase :: "nat option \<Rightarrow> 'v lru \<Rightarrow> (bool \<times> 'v lru) option" where
  "FinishErase r s =
     (case r of
        None \<Rightarrow> Some (False, s)
      | Some a \<Rightarrow> do {
          e \<leftarrow> hp_obj (fst s) a;
          if \<not> h_in_cache e then None
          else do {
            s1 \<leftarrow> LRU_Remove a s;
            s2 \<leftarrow> modify a (\<lambda>e. e\<lparr>h_in_cache := False\<rparr>) s1;
            let s3 = (fst s2, (snd s2)\<lparr>lc_usage := lc_usage (snd s2) - h_charge e\<rparr>);
            s4 \<leftarrow> Unref a s3;
            Some (True, s4)
          }
        })"

text \<open>An operation of the shard's table.\<close>

definition on_table :: "('v heap \<times> handle_table \<Rightarrow> ('r \<times> 'v heap \<times> handle_table) option) \<Rightarrow> 'v lru \<Rightarrow> ('r \<times> 'v lru) option" where
  "on_table f s = do { (r, hp1, t1) \<leftarrow> f (fst s, lc_table (snd s)); Some (r, hp1, (snd s)\<lparr>lc_table := t1\<rparr>) }"

definition shard_Lookup :: "slice \<Rightarrow> u32 \<Rightarrow> 'v lru \<Rightarrow> (nat option \<times> 'v lru) option" where
  "shard_Lookup key hash s =
     do {
       r \<leftarrow> table_Lookup key hash (fst s, lc_table (snd s));
       (case r of None \<Rightarrow> Some (None, s) | Some a \<Rightarrow> do { s1 \<leftarrow> Ref a s; Some (Some a, s1) })
     }"

definition shard_Release :: "nat \<Rightarrow> 'v lru \<Rightarrow> 'v lru option" where "shard_Release a s = Unref a s"

text \<open>The oldest entry that no client uses leaves the cache.\<close>

definition evict_oldest :: "'v lru \<Rightarrow> 'v lru option" where
  "evict_oldest s =
     (case lc_lru_next (snd s) of
        Entry a \<Rightarrow> do {
          e \<leftarrow> hp_obj (fst s) a;
          if h_refs e \<noteq> 1 then None
          else do {
            k \<leftarrow> handle_key a (fst s);
            (r, s1) \<leftarrow> on_table (table_Remove k (h_hash e)) s;
            (erased, s2) \<leftarrow> FinishErase r s1;
            if erased then Some s2 else None
          }
        }
      | _ \<Rightarrow> None)"

partial_function (option) evict_while :: "(lru_cache \<Rightarrow> bool) \<Rightarrow> 'v lru \<Rightarrow> 'v lru option" where
  "evict_while cond s =
     (if cond (snd s) \<and> lc_lru_next (snd s) \<noteq> LruHead then do { s1 \<leftarrow> evict_oldest s; evict_while cond s1 } else Some s)"

definition new_entry :: "slice \<Rightarrow> u32 \<Rightarrow> 'v \<Rightarrow> u64 \<Rightarrow> nat \<Rightarrow> 'v lru_handle" where
  "new_entry key hash val charge deleter =
     \<lparr>h_value = val, h_deleter = deleter, h_next_hash = None, h_next = None, h_prev = None, h_charge = charge,
      h_key_data = key, h_in_cache = False, h_refs = 1, h_hash = hash\<rparr>"

definition allocate :: "'v lru_handle \<Rightarrow> 'v lru \<Rightarrow> nat \<times> 'v lru" where
  "allocate e s = (let hp = fst s in (hp_fresh hp, hp\<lparr>hp_fresh := hp_fresh hp + 1, hp_obj := (hp_obj hp)(hp_fresh hp := Some e)\<rparr>, snd s))"

definition shard_Insert :: "slice \<Rightarrow> u32 \<Rightarrow> 'v \<Rightarrow> u64 \<Rightarrow> nat \<Rightarrow> 'v lru \<Rightarrow> (nat \<times> 'v lru) option" where
  "shard_Insert key hash val charge deleter s =
     (case allocate (new_entry key hash val charge deleter) s of (a, s1) \<Rightarrow> do {
        s5 \<leftarrow> (if 0 < lc_capacity (snd s1)
          then do {
            s2 \<leftarrow> modify a (\<lambda>e. e\<lparr>h_refs := h_refs e + 1, h_in_cache := True\<rparr>) s1;
            s3 \<leftarrow> LRU_Append InUseHead a s2;
            let s4 = (fst s3, (snd s3)\<lparr>lc_usage := lc_usage (snd s3) + charge\<rparr>);
            (old, s4) \<leftarrow> on_table (table_Insert a) s4;
            (erased, s5) \<leftarrow> FinishErase old s4;
            Some s5
          }
          else Some s1);
        s6 \<leftarrow> evict_while (\<lambda>c. lc_capacity c < lc_usage c) s5;
        Some (a, s6)
      })"

definition shard_Erase :: "slice \<Rightarrow> u32 \<Rightarrow> 'v lru \<Rightarrow> 'v lru option" where
  "shard_Erase key hash s =
     do { (r, s1) \<leftarrow> on_table (table_Remove key hash) s; (erased, s2) \<leftarrow> FinishErase r s1; Some s2 }"

definition shard_Prune :: "'v lru \<Rightarrow> 'v lru option" where "shard_Prune s = evict_while (\<lambda>c. True) s"

definition shard_TotalCharge :: "'v lru \<Rightarrow> u64" where "shard_TotalCharge s = lc_usage (snd s)"

text \<open>Destroying a shard: no entry may be in use; the others are deleted, oldest first.\<close>

partial_function (option) destroy_entries :: "node \<Rightarrow> 'v lru \<Rightarrow> 'v lru option" where
  "destroy_entries n s =
     (case n of
        LruHead \<Rightarrow> Some s
      | InUseHead \<Rightarrow> None
      | Entry a \<Rightarrow> do {
          e \<leftarrow> hp_obj (fst s) a;
          next_node \<leftarrow> get_next (Entry a) s;
          if \<not> h_in_cache e then None
          else do {
            s1 \<leftarrow> modify a (\<lambda>e. e\<lparr>h_in_cache := False\<rparr>) s;
            if h_refs e \<noteq> 1 then None else do { s2 \<leftarrow> Unref a s1; destroy_entries next_node s2 }
          }
        })"

definition shard_destroy :: "'v lru \<Rightarrow> 'v lru option" where
  "shard_destroy s = (if lc_use_next (snd s) \<noteq> InUseHead then None else destroy_entries (lc_lru_next (snd s)) s)"

subsection \<open>The sharded cache\<close>

definition kNumShardBits :: nat where "kNumShardBits = 4"
definition kNumShards :: nat where "kNumShards = 2 ^ kNumShardBits"

definition HashSlice :: "slice \<Rightarrow> u32" where "HashSlice s = Hash s 0"

definition Shard :: "u32 \<Rightarrow> nat" where "Shard hash = unat (drop_bit (32 - kNumShardBits) hash)"

record 'v sharded_cache =
  sc_heap :: "'v heap"
  sc_shards :: "lru_cache list"
  sc_last_id :: u64

definition on_shard :: "nat \<Rightarrow> ('v lru \<Rightarrow> ('r \<times> 'v lru) option) \<Rightarrow> 'v sharded_cache \<Rightarrow> ('r \<times> 'v sharded_cache) option" where
  "on_shard i f s =
     (if i < length (sc_shards s)
      then do { (r, hp, c) \<leftarrow> f (sc_heap s, sc_shards s ! i); Some (r, s\<lparr>sc_heap := hp, sc_shards := (sc_shards s)[i := c]\<rparr>) }
      else None)"

fun make_shards :: "nat \<Rightarrow> u64 \<Rightarrow> 'v heap \<Rightarrow> ('v heap \<times> lru_cache list) option" where
  "make_shards 0 capacity hp = Some (hp, [])"
| "make_shards (Suc n) capacity hp =
     do {
       (hp1, c) \<leftarrow> LRUCache hp;
       (hp2, cs) \<leftarrow> make_shards n capacity hp1;
       Some (hp2, SetCapacity capacity c # cs)
     }"

definition ShardedLRUCache :: "u64 \<Rightarrow> 'v heap \<Rightarrow> 'v sharded_cache option" where
  "ShardedLRUCache capacity hp =
     do {
       let per_shard = (capacity + (of_nat kNumShards - 1)) div of_nat kNumShards;
       (hp1, cs) \<leftarrow> make_shards kNumShards per_shard hp;
       Some \<lparr>sc_heap = hp1, sc_shards = cs, sc_last_id = 0\<rparr>
     }"

definition cache_Insert :: "slice \<Rightarrow> 'v \<Rightarrow> u64 \<Rightarrow> nat \<Rightarrow> 'v sharded_cache \<Rightarrow> (nat \<times> 'v sharded_cache) option" where
  "cache_Insert key val charge deleter s =
     (let hash = HashSlice key in on_shard (Shard hash) (shard_Insert key hash val charge deleter) s)"

definition cache_Lookup :: "slice \<Rightarrow> 'v sharded_cache \<Rightarrow> (nat option \<times> 'v sharded_cache) option" where
  "cache_Lookup key s = (let hash = HashSlice key in on_shard (Shard hash) (shard_Lookup key hash) s)"

definition no_result :: "('v lru \<Rightarrow> 'v lru option) \<Rightarrow> 'v lru \<Rightarrow> (unit \<times> 'v lru) option" where
  "no_result f s = map_option (Pair ()) (f s)"

definition cache_Release :: "nat \<Rightarrow> 'v sharded_cache \<Rightarrow> 'v sharded_cache option" where
  "cache_Release a s =
     do {
       e \<leftarrow> hp_obj (sc_heap s) a;
       (u, s1) \<leftarrow> on_shard (Shard (h_hash e)) (no_result (shard_Release a)) s;
       Some s1
     }"

definition cache_Erase :: "slice \<Rightarrow> 'v sharded_cache \<Rightarrow> 'v sharded_cache option" where
  "cache_Erase key s =
     (let hash = HashSlice key in map_option snd (on_shard (Shard hash) (no_result (shard_Erase key hash)) s))"

definition cache_Value :: "nat \<Rightarrow> 'v sharded_cache \<Rightarrow> 'v option" where
  "cache_Value a s = map_option h_value (hp_obj (sc_heap s) a)"

definition cache_NewId :: "'v sharded_cache \<Rightarrow> u64 \<times> 'v sharded_cache" where
  "cache_NewId s = (sc_last_id s + 1, s\<lparr>sc_last_id := sc_last_id s + 1\<rparr>)"

fun prune_shards :: "nat list \<Rightarrow> 'v sharded_cache \<Rightarrow> 'v sharded_cache option" where
  "prune_shards [] s = Some s"
| "prune_shards (i # is) s = do { (u, s1) \<leftarrow> on_shard i (no_result shard_Prune) s; prune_shards is s1 }"

definition cache_Prune :: "'v sharded_cache \<Rightarrow> 'v sharded_cache option" where
  "cache_Prune s = prune_shards [0..<kNumShards] s"

definition cache_TotalCharge :: "'v sharded_cache \<Rightarrow> u64" where
  "cache_TotalCharge s = foldl (\<lambda>total c. total + lc_usage c) 0 (sc_shards s)"

end
