(* ===== verification/Lv_Cache_Lists.thy ===== *)
theory Lv_Cache_Lists
  imports Lv_Cache
begin

section \<open>The lists of the LRU cache\<close>

text \<open>
  A circular list through a head represents a list of entries (\<open>ring\<close>). Removing and appending an entry do that to the list,
  leave the other ring alone and change nothing but links.
\<close>

subsection \<open>Rings\<close>

fun linked :: "(node \<Rightarrow> node option) \<Rightarrow> (node \<Rightarrow> node option) \<Rightarrow> node list \<Rightarrow> bool" where
  "linked nx pv (x # y # zs) \<longleftrightarrow> nx x = Some y \<and> pv y = Some x \<and> linked nx pv (y # zs)"
| "linked nx pv _ \<longleftrightarrow> True"

lemma nodes_linked_append: "linked nx pv (xs @ y # zs) \<longleftrightarrow> linked nx pv (xs @ [y]) \<and> linked nx pv (y # zs)"
  by (induction nx pv xs rule: linked.induct) (auto simp: neq_Nil_conv intro: list.exhaust [of zs])

lemma linked_middle: "linked nx pv ((C @ [p]) @ x # n # D) \<longleftrightarrow>
    linked nx pv (C @ [p]) \<and> nx p = Some x \<and> pv x = Some p \<and> nx x = Some n \<and> pv n = Some x \<and> linked nx pv (n # D)"
  using nodes_linked_append [of nx pv C p "x # n # D"] by auto

lemma linked_next: "p \<notin> set (butlast ys) \<Longrightarrow> linked (nx(p := v)) pv ys \<longleftrightarrow> linked nx pv ys"
  by (induction nx pv ys rule: linked.induct) auto

lemma linked_prev: "n \<notin> set (tl ys) \<Longrightarrow> linked nx (pv(n := v)) ys \<longleftrightarrow> linked nx pv ys"
  by (induction nx pv ys rule: linked.induct) auto

definition ring :: "(node \<Rightarrow> node option) \<Rightarrow> (node \<Rightarrow> node option) \<Rightarrow> node \<Rightarrow> nat list \<Rightarrow> bool" where
  "ring nx pv h xs \<longleftrightarrow> linked nx pv (h # map Entry xs @ [h])"

text \<open>The node before an element, and the one after it.\<close>

definition before_node :: "node \<Rightarrow> nat list \<Rightarrow> node" where "before_node h xs = last (h # map Entry xs)"
definition after_node :: "node \<Rightarrow> nat list \<Rightarrow> node" where "after_node h ys = hd (map Entry ys @ [h])"

definition is_head :: "node \<Rightarrow> bool" where "is_head h \<longleftrightarrow> h = LruHead \<or> h = InUseHead"

lemma head_not_Entry: "is_head h \<Longrightarrow> h \<noteq> Entry a" by (auto simp: is_head_def)

lemma before_split: "h # map Entry xs = butlast (h # map Entry xs) @ [before_node h xs]"
  unfolding before_node_def by (rule append_butlast_last_id [symmetric]) simp

lemma after_split: "map Entry ys @ [h] = after_node h ys # tl (map Entry ys @ [h])"
  by (simp add: after_node_def)

lemma before_in: "before_node h xs \<in> insert h (Entry ` set xs)"
  unfolding before_node_def using last_in_set [of "h # map Entry xs"] by (simp del: last.simps)

lemma after_in: "after_node h ys \<in> insert h (Entry ` set ys)"
  by (cases ys) (simp_all add: after_node_def)

lemma ring_split:
  assumes "ring nx pv h (xs @ a # ys)"
  shows "nx (before_node h xs) = Some (Entry a)" "pv (Entry a) = Some (before_node h xs)"
    "nx (Entry a) = Some (after_node h ys)" "pv (after_node h ys) = Some (Entry a)"
proof -
  have "linked nx pv ((h # map Entry xs) @ Entry a # map Entry ys @ [h])" using assms by (simp add: ring_def)
  then have l: "linked nx pv ((butlast (h # map Entry xs) @ [before_node h xs]) @ Entry a # after_node h ys # tl (map Entry ys @ [h]))"
    unfolding before_split [of h xs, symmetric] after_split [of ys h, symmetric] .
  then show "nx (before_node h xs) = Some (Entry a)" "pv (Entry a) = Some (before_node h xs)"
    "nx (Entry a) = Some (after_node h ys)" "pv (after_node h ys) = Some (Entry a)"
    unfolding linked_middle by blast+
qed

lemma ring_last: "ring nx pv h xs \<Longrightarrow> pv h = Some (before_node h xs) \<and> nx (before_node h xs) = Some h"
proof -
  assume "ring nx pv h xs"
  then have "linked nx pv ((butlast (h # map Entry xs) @ [before_node h xs]) @ [h])"
    unfolding ring_def using before_split [of h xs] by (metis append_Cons)
  then show ?thesis using nodes_linked_append [of nx pv "butlast (h # map Entry xs)" "before_node h xs" "[h]"] by simp
qed

lemma ring_first: "ring nx pv h xs \<Longrightarrow> nx h = Some (after_node h xs)"
  by (cases xs) (simp_all add: ring_def after_node_def)

lemma ring_remove:
  assumes "ring nx pv h (xs @ a # ys)" "is_head h" "distinct (xs @ a # ys)"
  shows "ring (nx(before_node h xs := Some (after_node h ys))) (pv(after_node h ys := Some (before_node h xs))) h (xs @ ys)"
proof -
  let ?p = "before_node h xs" and ?n = "after_node h ys" and ?C = "butlast (h # map Entry xs)" and ?D = "tl (map Entry ys @ [h])"
  have e: "h # map Entry (xs @ a # ys) @ [h] = (?C @ [?p]) @ Entry a # ?n # ?D"
    unfolding before_split [of h xs, symmetric] after_split [of ys h, symmetric] by simp
  have e': "h # map Entry (xs @ ys) @ [h] = ?C @ ?p # ?n # ?D"
    using before_split [of h xs] after_split [of ys h] by (metis (no_types) append_Cons append_Nil append_assoc map_append)
  have l: "linked nx pv (?C @ [?p])" "linked nx pv (?n # ?D)"
    using assms(1) unfolding ring_def e linked_middle by blast+
  note h = head_not_Entry [OF assms(2)]
  have d: "distinct (h # map Entry xs)" "distinct (map Entry ys @ [h])" "set xs \<inter> set ys = {}"
    using assms(3) h by (auto simp: distinct_map inj_on_def)
  have "distinct (?C @ [?p])" "distinct (?n # ?D)" using d(1,2) before_split [of h xs] after_split [of ys h] by metis+
  then have pn: "?p \<notin> set ?C" "?n \<notin> set ?D" by auto
  have "butlast (?n # ?D) = map Entry ys" unfolding after_split [of ys h, symmetric] by simp
  moreover have "tl (?C @ [?p]) = map Entry xs" unfolding before_split [of h xs, symmetric] by simp
  moreover have "?p \<notin> Entry ` set ys" "?n \<notin> Entry ` set xs"
    using before_in [of h xs] after_in [of h ys] h d(3) by (auto simp: image_iff)
  ultimately have "linked (nx(?p := Some ?n)) (pv(?n := Some ?p)) (?C @ [?p])" "linked (nx(?p := Some ?n)) (pv(?n := Some ?p)) (?n # ?D)"
    using l pn by (simp_all add: linked_next linked_prev)
  then show ?thesis unfolding ring_def e' nodes_linked_append [of _ _ ?C ?p "?n # ?D"] by simp
qed

lemma ring_append:
  assumes "ring nx pv h xs" "is_head h" "distinct xs" "a \<notin> set xs"
  shows "ring (nx(Entry a := Some h, before_node h xs := Some (Entry a))) (pv(Entry a := Some (before_node h xs), h := Some (Entry a)))
    h (xs @ [a])"
proof -
  let ?p = "before_node h xs" and ?C = "butlast (h # map Entry xs)"
  have e: "h # map Entry xs @ [h] = ?C @ ?p # [h]" using before_split [of h xs] by (metis append_Cons append_Nil append_assoc)
  have e': "h # map Entry (xs @ [a]) @ [h] = ?C @ ?p # [Entry a, h]"
    using before_split [of h xs] by (metis append_Cons append_Nil append_assoc list.simps(8) list.simps(9) map_append)
  have l: "linked nx pv (?C @ [?p])" using assms(1) unfolding ring_def e nodes_linked_append [of nx pv ?C ?p "[h]"] by simp
  note h = head_not_Entry [OF assms(2)]
  have d: "distinct (h # map Entry xs)" using assms(3) h by (auto simp: distinct_map inj_on_def)
  then have p: "?p \<notin> set ?C" using before_split [of h xs] by (metis distinct_append disjoint_iff list.set_intros(1))
  have t: "tl (?C @ [?p]) = map Entry xs" unfolding before_split [of h xs, symmetric] by simp
  have all: "Entry a \<notin> set (h # map Entry xs)" using assms(4) h by (auto dest: sym)
  have a: "Entry a \<notin> set ?C" "Entry a \<noteq> h" "Entry a \<notin> set (map Entry xs)"
    using all in_set_butlastD [of "Entry a" "h # map Entry xs"] by fastforce+
  moreover have p': "Entry a \<noteq> ?p" using a(2,3) before_in [of h xs] by auto
  moreover have "h \<notin> set (map Entry xs)" using h by auto
  ultimately have "linked (nx(Entry a := Some h, ?p := Some (Entry a))) (pv(Entry a := Some ?p, h := Some (Entry a))) (?C @ [?p])"
    using l p t by (simp add: linked_next linked_prev del: butlast.simps)
  then show ?thesis unfolding ring_def e' nodes_linked_append [of _ _ ?C ?p "[Entry a, h]"] using a p' by simp
qed

text \<open>Links of nodes that are not in a ring may change.\<close>

lemma ring_other:
  assumes "x \<notin> insert h (Entry ` set xs)"
  shows "ring (nx(x := v)) pv h xs \<longleftrightarrow> ring nx pv h xs" "ring nx (pv(x := v)) h xs \<longleftrightarrow> ring nx pv h xs"
proof -
  have "x \<notin> set (butlast (h # map Entry xs @ [h]))" using assms by (auto dest: in_set_butlastD)
  then show "ring (nx(x := v)) pv h xs \<longleftrightarrow> ring nx pv h xs" unfolding ring_def by (rule linked_next)
  have "x \<notin> set (tl (h # map Entry xs @ [h]))" using assms by auto
  then show "ring nx (pv(x := v)) h xs \<longleftrightarrow> ring nx pv h xs" unfolding ring_def by (rule linked_prev)
qed

lemma ring_cong:
  assumes "\<And>x. x \<in> insert h (Entry ` set xs) \<Longrightarrow> nx x = nx' x \<and> pv x = pv' x"
  shows "ring nx pv h xs \<longleftrightarrow> ring nx' pv' h xs"
proof -
  have "linked nx pv ys \<longleftrightarrow> linked nx' pv' ys" if "set ys \<subseteq> insert h (Entry ` set xs)" for ys
    using that
  proof (induction ys)
    case (Cons y ys)
    then show ?case using assms by (cases ys) auto
  qed simp
  then show ?thesis unfolding ring_def by simp
qed

subsection \<open>What a state's links and its entries are\<close>

abbreviation nexts :: "'v lru \<Rightarrow> node \<Rightarrow> node option" where "nexts s \<equiv> \<lambda>x. get_next x s"
abbreviation prevs_of :: "'v lru \<Rightarrow> node \<Rightarrow> node option" where "prevs_of s \<equiv> \<lambda>x. get_prev x s"

text \<open>An entry without its links in the lists.\<close>

definition blank :: "'v lru_handle \<Rightarrow> 'v lru_handle" where "blank e = e\<lparr>h_next := None, h_prev := None\<rparr>"

definition data :: "'v lru \<Rightarrow> nat \<Rightarrow> 'v lru_handle option" where "data s = (\<lambda>a. map_option blank (hp_obj (fst s) a))"

lemma blank_simps [simp]: "h_value (blank e) = h_value e" "h_deleter (blank e) = h_deleter e" "h_next_hash (blank e) = h_next_hash e"
  "h_charge (blank e) = h_charge e" "h_key_data (blank e) = h_key_data e" "h_in_cache (blank e) = h_in_cache e"
  "h_refs (blank e) = h_refs e" "h_hash (blank e) = h_hash e"
  by (simp_all add: blank_def)

text \<open>Everything else of a state is as it was: only the entries in \<open>A\<close> and the links of the heads may change.\<close>

definition same_rest :: "nat set \<Rightarrow> 'v lru \<Rightarrow> 'v lru \<Rightarrow> bool" where
  "same_rest A s s' \<longleftrightarrow> (\<forall>b. b \<notin> A \<longrightarrow> hp_obj (fst s') b = hp_obj (fst s) b) \<and> hp_fresh (fst s') = hp_fresh (fst s) \<and> hp_deleted (fst s') = hp_deleted (fst s) \<and>
     lc_capacity (snd s') = lc_capacity (snd s) \<and> lc_usage (snd s') = lc_usage (snd s) \<and> lc_table (snd s') = lc_table (snd s)"

lemma same_rest_trans: "same_rest A s1 s2 \<Longrightarrow> same_rest A s2 s3 \<Longrightarrow> same_rest A s1 s3"
  by (simp add: same_rest_def)

lemma same_rest_mono: "same_rest A s s' \<Longrightarrow> A \<subseteq> B \<Longrightarrow> same_rest B s s'"
  by (auto simp: same_rest_def)

lemma obj_data: "hp_obj (fst s) a = Some e \<Longrightarrow> data s a = Some (blank e)" by (simp add: data_def)

lemma data_obj: "data s a = Some e \<Longrightarrow> \<exists>e0. hp_obj (fst s) a = Some e0 \<and> e = blank e0" by (auto simp: data_def)

lemma set_next_spec:
  assumes "get_next x s = Some y0 \<or> (\<exists>a. x = Entry a \<and> data s a \<noteq> None) \<or> is_head x \<or> get_prev x s = Some y0" "is_head x \<or> x \<in> Entry ` A"
  shows "\<exists>s'. set_next x y s = Some s' \<and> nexts s' = (nexts s)(x := Some y) \<and> prevs_of s' = prevs_of s \<and> data s' = data s \<and> same_rest A s s'"
proof -
  obtain hp c where s: "s = (hp, c)" by (cases s)
  show ?thesis
  proof (cases x)
    case (Entry a)
    then obtain e where e: "hp_obj hp a = Some e" using assms(1)
      by (cases "hp_obj hp a") (auto simp: s data_def is_head_def)
    let ?s' = "(hp\<lparr>hp_obj := (hp_obj hp)(a := Some (e\<lparr>h_next := Some y\<rparr>))\<rparr>, c)"
    have "set_next x y s = Some ?s'" using e by (simp add: s Entry modify_entry_def)
    moreover have "get_next z ?s' = ((nexts s)(x := Some y)) z" "get_prev z ?s' = get_prev z s" for z
      using e by (cases z; auto simp: s Entry)+
    moreover have "data ?s' = data s" using e by (auto simp: data_def s blank_def)
    ultimately show ?thesis using assms(2) by (auto simp: same_rest_def s Entry is_head_def)
  next
    case LruHead
    have "get_next z (hp, c\<lparr>lc_lru_next := y\<rparr>) = ((nexts s)(x := Some y)) z" "get_prev z (hp, c\<lparr>lc_lru_next := y\<rparr>) = get_prev z s" for z
      by (cases z; auto simp: s LruHead)+
    then show ?thesis by (auto simp: s LruHead data_def same_rest_def)
  next
    case InUseHead
    have "get_next z (hp, c\<lparr>lc_use_next := y\<rparr>) = ((nexts s)(x := Some y)) z" "get_prev z (hp, c\<lparr>lc_use_next := y\<rparr>) = get_prev z s" for z
      by (cases z; auto simp: s InUseHead)+
    then show ?thesis by (auto simp: s InUseHead data_def same_rest_def)
  qed
qed

lemma set_prev_spec:
  assumes "get_next x s = Some y0 \<or> (\<exists>a. x = Entry a \<and> data s a \<noteq> None) \<or> is_head x \<or> get_prev x s = Some y0" "is_head x \<or> x \<in> Entry ` A"
  shows "\<exists>s'. set_prev x y s = Some s' \<and> nexts s' = nexts s \<and> prevs_of s' = (prevs_of s)(x := Some y) \<and> data s' = data s \<and> same_rest A s s'"
proof -
  obtain hp c where s: "s = (hp, c)" by (cases s)
  show ?thesis
  proof (cases x)
    case (Entry a)
    then obtain e where e: "hp_obj hp a = Some e" using assms(1)
      by (cases "hp_obj hp a") (auto simp: s data_def is_head_def)
    let ?s' = "(hp\<lparr>hp_obj := (hp_obj hp)(a := Some (e\<lparr>h_prev := Some y\<rparr>))\<rparr>, c)"
    have "set_prev x y s = Some ?s'" using e by (simp add: s Entry modify_entry_def)
    moreover have "get_prev z ?s' = ((prevs_of s)(x := Some y)) z" "get_next z ?s' = get_next z s" for z
      using e by (cases z; auto simp: s Entry)+
    moreover have "data ?s' = data s" using e by (auto simp: data_def s blank_def)
    ultimately show ?thesis using assms(2) by (auto simp: same_rest_def s Entry is_head_def)
  next
    case LruHead
    have "get_prev z (hp, c\<lparr>lc_lru_prev := y\<rparr>) = ((prevs_of s)(x := Some y)) z" "get_next z (hp, c\<lparr>lc_lru_prev := y\<rparr>) = get_next z s" for z
      by (cases z; auto simp: s LruHead)+
    then show ?thesis by (auto simp: s LruHead data_def same_rest_def)
  next
    case InUseHead
    have "get_prev z (hp, c\<lparr>lc_use_prev := y\<rparr>) = ((prevs_of s)(x := Some y)) z" "get_next z (hp, c\<lparr>lc_use_prev := y\<rparr>) = get_next z s" for z
      by (cases z; auto simp: s InUseHead)+
    then show ?thesis by (auto simp: s InUseHead data_def same_rest_def)
  qed
qed

lemma modify_spec:
  assumes "data s a = Some e" "\<And>e. h_next (f e) = h_next e" "\<And>e. h_prev (f e) = h_prev e" "\<And>e. blank (f e) = f (blank e)"
  shows "\<exists>s'. modify a f s = Some s' \<and> nexts s' = nexts s \<and> prevs_of s' = prevs_of s \<and> data s' = (data s)(a := Some (f e)) \<and>
    same_rest {a} s s' \<and> snd s' = snd s"
proof -
  obtain hp c where s: "s = (hp, c)" by (cases s)
  obtain e0 where e0: "hp_obj hp a = Some e0" "e = blank e0" using data_obj [OF assms(1)] by (auto simp: s)
  let ?s' = "(hp\<lparr>hp_obj := (hp_obj hp)(a := Some (f e0))\<rparr>, c)"
  have "modify a f s = Some ?s'" using e0 by (simp add: s modify_def modify_entry_def)
  moreover have "get_next z ?s' = get_next z s" "get_prev z ?s' = get_prev z s" for z
    using e0 assms(2,3) by (cases z; auto simp: s)+
  moreover have "data ?s' = (data s)(a := Some (f e))" using e0 assms(4) by (auto simp: data_def s)
  ultimately show ?thesis by (auto simp: same_rest_def s)
qed

subsection \<open>Removing and appending\<close>

lemma LRU_Remove_spec:
  assumes "ring (nexts s) (prevs_of s) h (xs @ a # ys)" "is_head h" "distinct (xs @ a # ys)"
  shows "\<exists>s'. LRU_Remove a s = Some s' \<and> nexts s' = (nexts s)(before_node h xs := Some (after_node h ys)) \<and>
    prevs_of s' = (prevs_of s)(after_node h ys := Some (before_node h xs)) \<and> data s' = data s \<and> same_rest (set (xs @ a # ys)) s s'"
proof -
  let ?p = "before_node h xs" and ?n = "after_node h ys"
  note r = ring_split [OF assms(1)]
  have n: "?n \<noteq> Entry a" using after_in [of h ys] assms(2,3) by (auto simp: is_head_def)
  have pn: "is_head ?p \<or> ?p \<in> Entry ` set (xs @ a # ys)" "is_head ?n \<or> ?n \<in> Entry ` set (xs @ a # ys)"
    using before_in [of h xs] after_in [of h ys] assms(2) by auto
  obtain s1 where s1: "set_prev ?n ?p s = Some s1" "nexts s1 = nexts s" "prevs_of s1 = (prevs_of s)(?n := Some ?p)"
    "data s1 = data s" "same_rest (set (xs @ a # ys)) s s1" using set_prev_spec [of ?n s "Entry a" "set (xs @ a # ys)" ?p] r(4) pn(2) by blast
  have g: "get_prev (Entry a) s1 = Some ?p" "get_next (Entry a) s1 = Some ?n"
    using fun_cong [OF s1(3), of "Entry a"] fun_cong [OF s1(2), of "Entry a"] n r(2,3) by simp_all
  have "get_next ?p s1 = Some (Entry a)" using fun_cong [OF s1(2), of ?p] r(1) by simp
  then obtain s2 where s2: "set_next ?p ?n s1 = Some s2" "nexts s2 = (nexts s1)(?p := Some ?n)" "prevs_of s2 = prevs_of s1"
    "data s2 = data s1" "same_rest (set (xs @ a # ys)) s1 s2" using set_next_spec [of ?p s1 "Entry a" "set (xs @ a # ys)" ?n] pn(1) by blast
  have "LRU_Remove a s = Some s2" using r(2,3) s1(1) g s2(1) by (simp add: LRU_Remove_def)
  then show ?thesis using s1 s2 same_rest_trans [OF s1(5) s2(5)] by auto
qed

lemma LRU_Append_spec:
  assumes "ring (nexts s) (prevs_of s) h xs" "is_head h" "a \<notin> set xs" "data s a \<noteq> None"
  shows "\<exists>s'. LRU_Append h a s = Some s' \<and> nexts s' = (nexts s)(Entry a := Some h, before_node h xs := Some (Entry a)) \<and>
    prevs_of s' = (prevs_of s)(Entry a := Some (before_node h xs), h := Some (Entry a)) \<and> data s' = data s \<and> same_rest (insert a (set xs)) s s'"
proof -
  let ?l = "before_node h xs"
  have r: "get_prev h s = Some ?l" "get_next ?l s = Some h" using ring_last [OF assms(1)] by simp_all
  have ne: "?l \<noteq> Entry a" "h \<noteq> Entry a" using before_in [of h xs] assms(2,3) by (auto simp: is_head_def)
  have lh: "is_head ?l \<or> ?l \<in> Entry ` insert a (set xs)" using before_in [of h xs] assms(2) by auto
  obtain s1 where s1: "set_next (Entry a) h s = Some s1" "nexts s1 = (nexts s)(Entry a := Some h)" "prevs_of s1 = prevs_of s"
    "data s1 = data s" "same_rest (insert a (set xs)) s s1" using set_next_spec [of "Entry a" s _ "insert a (set xs)" h] assms(4) by blast
  have g1: "get_prev h s1 = Some ?l" using fun_cong [OF s1(3), of h] r(1) by simp
  obtain s2 where s2: "set_prev (Entry a) ?l s1 = Some s2" "nexts s2 = nexts s1" "prevs_of s2 = (prevs_of s1)(Entry a := Some ?l)"
    "data s2 = data s1" "same_rest (insert a (set xs)) s1 s2" using set_prev_spec [of "Entry a" s1 _ "insert a (set xs)" ?l] assms(4) s1(4) by auto
  have g2: "get_prev (Entry a) s2 = Some ?l" using fun_cong [OF s2(3), of "Entry a"] by simp
  have "get_next ?l s2 = Some h" using fun_cong [OF s2(2), of ?l] fun_cong [OF s1(2), of ?l] r(2) ne by simp
  then obtain s3 where s3: "set_next ?l (Entry a) s2 = Some s3" "nexts s3 = (nexts s2)(?l := Some (Entry a))" "prevs_of s3 = prevs_of s2"
    "data s3 = data s2" "same_rest (insert a (set xs)) s2 s3" using set_next_spec [of ?l s2 h "insert a (set xs)" "Entry a"] lh by blast
  have g3: "get_next (Entry a) s3 = Some h"
    using fun_cong [OF s3(2), of "Entry a"] fun_cong [OF s2(2), of "Entry a"] fun_cong [OF s1(2), of "Entry a"] ne by simp
  obtain s4 where s4: "set_prev h (Entry a) s3 = Some s4" "nexts s4 = nexts s3" "prevs_of s4 = (prevs_of s3)(h := Some (Entry a))"
    "data s4 = data s3" "same_rest (insert a (set xs)) s3 s4" using set_prev_spec [of h s3 _ "insert a (set xs)" "Entry a"] assms(2) by blast
  have "LRU_Append h a s = Some s4" using s1(1) g1 s2(1) g2 s3(1) g3 s4(1) by (simp add: LRU_Append_def)
  moreover have "same_rest (insert a (set xs)) s s4" using s1(5) s2(5) s3(5) s4(5) same_rest_trans by blast
  moreover have "nexts s4 = (nexts s)(Entry a := Some h, ?l := Some (Entry a))" unfolding s4(2) s3(2) s2(2) s1(2) by simp
  moreover have "prevs_of s4 = (prevs_of s)(Entry a := Some ?l, h := Some (Entry a))" unfolding s4(3) s3(3) s2(3) s1(3) by simp
  ultimately show ?thesis using s1(4) s2(4) s3(4) s4(4) by auto
qed

subsection \<open>The invariant of the lists\<close>

text \<open>
  \<open>mine\<close> tells the hashes of this shard, \<open>T\<close> are the handles that clients hold, of this and of other shards. An entry counts
  its handles, and one more when it is in the cache; it is in the first list exactly when no client holds it.
\<close>

definition readable :: "'v lru \<Rightarrow> nat \<Rightarrow> bool" where "readable s a \<longleftrightarrow> (\<exists>n. get_next (Entry a) s = Some n \<and> n \<noteq> Entry a)"

definition entry_ok :: "nat multiset \<Rightarrow> nat list \<Rightarrow> nat list \<Rightarrow> nat \<Rightarrow> 'v lru_handle \<Rightarrow> bool" where
  "entry_ok T lru use a e \<longleftrightarrow> unat (h_refs e) = count T a + (if h_in_cache e then 1 else 0) \<and>
     (h_in_cache e \<longleftrightarrow> a \<in> set lru \<union> set use) \<and> (a \<in> set lru \<longleftrightarrow> count T a = 0)"

definition lists_inv :: "(u32 \<Rightarrow> bool) \<Rightarrow> nat multiset \<Rightarrow> nat list \<Rightarrow> nat list \<Rightarrow> 'v lru \<Rightarrow> bool" where
  "lists_inv mine T lru use s \<longleftrightarrow>
     ring (nexts s) (prevs_of s) LruHead lru \<and> ring (nexts s) (prevs_of s) InUseHead use \<and> distinct (lru @ use) \<and>
     (\<forall>a \<in> set lru \<union> set use. \<exists>e. data s a = Some e \<and> mine (h_hash e)) \<and>
     (\<forall>a e. data s a = Some e \<longrightarrow> mine (h_hash e) \<longrightarrow> entry_ok T lru use a e \<and> readable s a)"

lemma lists_invD:
  assumes "lists_inv mine T lru use s"
  shows "ring (nexts s) (prevs_of s) LruHead lru" "ring (nexts s) (prevs_of s) InUseHead use" "distinct (lru @ use)"
    "a \<in> set lru \<union> set use \<Longrightarrow> \<exists>e. data s a = Some e \<and> mine (h_hash e)"
    "data s a = Some e \<Longrightarrow> mine (h_hash e) \<Longrightarrow> entry_ok T lru use a e" "data s a = Some e \<Longrightarrow> mine (h_hash e) \<Longrightarrow> readable s a"
  using assms unfolding lists_inv_def by blast+

lemma remove1_split: "distinct (xs @ a # ys) \<Longrightarrow> remove1 a (xs @ a # ys) = xs @ ys"
  by (simp add: remove1_append)

lemma ring_links_other:
  assumes "ring nx pv h' zs" "is_head h" "is_head h'" "h \<noteq> h'" "set zs \<inter> A = {}" "p \<in> insert h (Entry ` A)" "n \<in> insert h (Entry ` A)"
  shows "ring (nx(p := v)) (pv(n := w)) h' zs"
proof -
  have "x \<notin> insert h' (Entry ` set zs)" if "x \<in> insert h (Entry ` A)" for x
    using that assms(2-5) by (auto simp: is_head_def)
  then show ?thesis using assms(1,6,7) ring_other by metis
qed

text \<open>Taking an entry out of its list.\<close>

definition rings :: "nat list \<Rightarrow> nat list \<Rightarrow> 'v lru \<Rightarrow> bool" where
  "rings lru use s \<longleftrightarrow> ring (nexts s) (prevs_of s) LruHead lru \<and> ring (nexts s) (prevs_of s) InUseHead use \<and> distinct (lru @ use)"

lemma remove_step:
  assumes "rings lru use s" "a \<in> set lru \<union> set use" "\<And>b. b \<in> S \<Longrightarrow> readable s b"
  shows "\<exists>s'. LRU_Remove a s = Some s' \<and> rings (remove1 a lru) (remove1 a use) s' \<and> data s' = data s \<and> same_rest (set lru \<union> set use) s s' \<and>
    (\<forall>b \<in> S. readable s' b)"
proof -
  have heads: "is_head LruHead" "is_head InUseHead" by (simp_all add: is_head_def)
  have read: "\<forall>b \<in> S. readable s' b"
    if n: "nexts s' = (nexts s)(before_node h xs := Some (after_node h ys))" and h: "is_head h" "distinct (xs @ a # ys)"
    for s' :: "'v lru" and h xs ys
  proof
    fix b assume "b \<in> S"
    then have b: "readable s b" by (rule assms(3))
    have "after_node h ys \<noteq> before_node h xs \<or> before_node h xs = h"
      using before_in [of h xs] after_in [of h ys] h by (auto simp: is_head_def)
    then have "after_node h ys \<noteq> Entry b" if "before_node h xs = Entry b" using that h(1) by (auto simp: is_head_def)
    then show "readable s' b" using b fun_cong [OF n, of "Entry b"] by (auto simp: readable_def)
  qed
  consider (lru) "a \<in> set lru" "a \<notin> set use" | (use) "a \<in> set use" "a \<notin> set lru" using assms(1,2) by (auto simp: rings_def)
  then show ?thesis
  proof cases
    case lru
    then obtain xs ys where l: "lru = xs @ a # ys" by (meson split_list)
    have r: "ring (nexts s) (prevs_of s) LruHead (xs @ a # ys)" "distinct (xs @ a # ys)"
      using assms(1) by (auto simp: rings_def l)
    obtain s' where s': "LRU_Remove a s = Some s'" "nexts s' = (nexts s)(before_node LruHead xs := Some (after_node LruHead ys))"
      "prevs_of s' = (prevs_of s)(after_node LruHead ys := Some (before_node LruHead xs))" "data s' = data s" "same_rest (set (xs @ a # ys)) s s'"
      using LRU_Remove_spec [OF r(1) heads(1) r(2)] by blast
    have "ring (nexts s') (prevs_of s') InUseHead use" unfolding s'(2,3)
      by (rule ring_links_other [of _ _ InUseHead use LruHead "set xs \<union> set ys"])
         (use assms(1) heads before_in [of LruHead xs] after_in [of LruHead ys] in \<open>auto simp: rings_def l\<close>)
    moreover have "ring (nexts s') (prevs_of s') LruHead (xs @ ys)" unfolding s'(2,3) by (rule ring_remove [OF r(1) heads(1) r(2)])
    ultimately have "rings (remove1 a lru) (remove1 a use) s'"
      using lru(2) assms(1) r(2) by (auto simp: rings_def l remove1_append remove1_idem)
    moreover have "same_rest (set lru \<union> set use) s s'" by (rule same_rest_mono [OF s'(5)]) (auto simp: l)
    ultimately show ?thesis using s'(1,4) read [OF s'(2) heads(1) r(2)] by blast
  next
    case use
    then obtain xs ys where l: "use = xs @ a # ys" by (meson split_list)
    have r: "ring (nexts s) (prevs_of s) InUseHead (xs @ a # ys)" "distinct (xs @ a # ys)"
      using assms(1) by (auto simp: rings_def l)
    obtain s' where s': "LRU_Remove a s = Some s'" "nexts s' = (nexts s)(before_node InUseHead xs := Some (after_node InUseHead ys))"
      "prevs_of s' = (prevs_of s)(after_node InUseHead ys := Some (before_node InUseHead xs))" "data s' = data s" "same_rest (set (xs @ a # ys)) s s'"
      using LRU_Remove_spec [OF r(1) heads(2) r(2)] by blast
    have "ring (nexts s') (prevs_of s') LruHead lru" unfolding s'(2,3)
      by (rule ring_links_other [of _ _ LruHead lru InUseHead "set xs \<union> set ys"])
         (use assms(1) heads before_in [of InUseHead xs] after_in [of InUseHead ys] in \<open>auto simp: rings_def l\<close>)
    moreover have "ring (nexts s') (prevs_of s') InUseHead (xs @ ys)" unfolding s'(2,3) by (rule ring_remove [OF r(1) heads(2) r(2)])
    ultimately have "rings (remove1 a lru) (remove1 a use) s'"
      using use(2) assms(1) r(2) by (auto simp: rings_def l remove1_append remove1_idem)
    moreover have "same_rest (set lru \<union> set use) s s'" by (rule same_rest_mono [OF s'(5)]) (auto simp: l)
    ultimately show ?thesis using s'(1,4) read [OF s'(2) heads(2) r(2)] by blast
  qed
qed

text \<open>Putting an entry at the end of one of the lists.\<close>

lemma append_step:
  assumes "rings lru use s" "a \<notin> set lru \<union> set use" "data s a \<noteq> None" "\<And>b. b \<in> S \<Longrightarrow> readable s b"
  shows "\<exists>s'. LRU_Append LruHead a s = Some s' \<and> rings (lru @ [a]) use s' \<and> data s' = data s \<and> same_rest (insert a (set lru \<union> set use)) s s' \<and>
      (\<forall>b \<in> insert a S. readable s' b)"
    "\<exists>s'. LRU_Append InUseHead a s = Some s' \<and> rings lru (use @ [a]) s' \<and> data s' = data s \<and> same_rest (insert a (set lru \<union> set use)) s s' \<and>
      (\<forall>b \<in> insert a S. readable s' b)"
proof -
  have heads: "is_head LruHead" "is_head InUseHead" by (simp_all add: is_head_def)
  have read: "\<forall>b \<in> insert a S. readable s' b"
    if n: "nexts s' = (nexts s)(Entry a := Some h, before_node h xs := Some (Entry a))" and h: "is_head h" "a \<notin> set xs"
    for s' :: "'v lru" and h xs
  proof
    fix b assume "b \<in> insert a S"
    moreover have "before_node h xs \<noteq> Entry a" using before_in [of h xs] h by (auto simp: is_head_def)
    ultimately show "readable s' b" using assms(4) [of b] fun_cong [OF n, of "Entry b"] head_not_Entry [OF h(1)]
      by (cases "b = a") (auto simp: readable_def)
  qed
  have r: "ring (nexts s) (prevs_of s) LruHead lru" "ring (nexts s) (prevs_of s) InUseHead use" "distinct lru" "distinct use"
    "set lru \<inter> set use = {}" "a \<notin> set lru" "a \<notin> set use" using assms(1,2) by (auto simp: rings_def)
  have other: "ring ((nexts s)(Entry a := v, p := v')) ((prevs_of s)(Entry a := w, n := w')) h' zs"
    if "ring (nexts s) (prevs_of s) h' zs" "is_head h" "is_head h'" "h \<noteq> h'" "a \<notin> set zs" "set zs \<inter> A = {}"
      "p \<in> insert h (Entry ` A)" "n \<in> insert h (Entry ` A)" for h h' zs A p n v v' w w'
    by (rule ring_links_other [where A = A, OF ring_links_other [where A = "{a}", OF that(1-4)] that(2-4)]) (use that in auto)
  obtain s' where s': "LRU_Append LruHead a s = Some s'" "nexts s' = (nexts s)(Entry a := Some LruHead, before_node LruHead lru := Some (Entry a))"
    "prevs_of s' = (prevs_of s)(Entry a := Some (before_node LruHead lru), LruHead := Some (Entry a))" "data s' = data s" "same_rest (insert a (set lru)) s s'"
    using LRU_Append_spec [OF r(1) heads(1) r(6) assms(3)] by blast
  have "ring (nexts s') (prevs_of s') LruHead (lru @ [a])" unfolding s'(2,3) by (rule ring_append [OF r(1) heads(1) r(3,6)])
  moreover have "ring (nexts s') (prevs_of s') InUseHead use" unfolding s'(2,3)
    by (rule other [OF r(2) heads, of "set lru"]) (use r before_in [of LruHead lru] in auto)
  ultimately have "rings (lru @ [a]) use s'" using r by (auto simp: rings_def)
  moreover have "same_rest (insert a (set lru \<union> set use)) s s'" by (rule same_rest_mono [OF s'(5)]) auto
  ultimately show "\<exists>s'. LRU_Append LruHead a s = Some s' \<and> rings (lru @ [a]) use s' \<and> data s' = data s \<and> same_rest (insert a (set lru \<union> set use)) s s' \<and>
      (\<forall>b \<in> insert a S. readable s' b)" using s'(1,4) read [OF s'(2) heads(1) r(6)] by blast
  obtain s' where s': "LRU_Append InUseHead a s = Some s'" "nexts s' = (nexts s)(Entry a := Some InUseHead, before_node InUseHead use := Some (Entry a))"
    "prevs_of s' = (prevs_of s)(Entry a := Some (before_node InUseHead use), InUseHead := Some (Entry a))" "data s' = data s" "same_rest (insert a (set use)) s s'"
    using LRU_Append_spec [OF r(2) heads(2) r(7) assms(3)] by blast
  have "ring (nexts s') (prevs_of s') InUseHead (use @ [a])" unfolding s'(2,3) by (rule ring_append [OF r(2) heads(2) r(4,7)])
  moreover have "ring (nexts s') (prevs_of s') LruHead lru" unfolding s'(2,3)
    by (rule other [OF r(1) heads(2,1), of "set use"]) (use r before_in [of InUseHead use] in auto)
  ultimately have "rings lru (use @ [a]) s'" using r by (auto simp: rings_def)
  moreover have "same_rest (insert a (set lru \<union> set use)) s s'" by (rule same_rest_mono [OF s'(5)]) auto
  ultimately show "\<exists>s'. LRU_Append InUseHead a s = Some s' \<and> rings lru (use @ [a]) s' \<and> data s' = data s \<and> same_rest (insert a (set lru \<union> set use)) s s' \<and>
      (\<forall>b \<in> insert a S. readable s' b)" using s'(1,4) read [OF s'(2) heads(2) r(7)] by blast
qed

end
