(* ===== verification/Lv_Cache_Refs.thy ===== *)
theory Lv_Cache_Refs
  imports Lv_Cache_Lists
begin

section \<open>References of the LRU cache's entries\<close>

text \<open>
  What taking, giving back and erasing do to the two lists and to the entry. An entry is freed, its deleter called, exactly
  when it is out of the cache and its last handle is given back.
\<close>

definition mine_of :: "(u32 \<Rightarrow> bool) \<Rightarrow> 'v lru \<Rightarrow> nat set" where
  "mine_of mine s = {a. \<exists>e. data s a = Some e \<and> mine (h_hash e)}"

lemma lists_inv_iff:
  "lists_inv mine T lru use s \<longleftrightarrow> rings lru use s \<and> set lru \<union> set use \<subseteq> mine_of mine s \<and>
     (\<forall>a e. data s a = Some e \<longrightarrow> mine (h_hash e) \<longrightarrow> entry_ok T lru use a e) \<and> (\<forall>a \<in> mine_of mine s. readable s a)"
  unfolding lists_inv_def rings_def mine_of_def by blast

lemma readable_cong: "nexts s' = nexts s \<Longrightarrow> readable s' a = readable s a"
  using fun_cong [of "nexts s'" "nexts s" "Entry a"] by (simp add: readable_def)

lemma rings_cong: "nexts s' = nexts s \<Longrightarrow> prevs_of s' = prevs_of s \<Longrightarrow> rings lru use s' = rings lru use s"
  by (simp add: rings_def)

lemma entry_ok_other:
  assumes "entry_ok T lru use b e" "count T' b = count T b" "b \<in> set lru' \<longleftrightarrow> b \<in> set lru" "b \<in> set use' \<longleftrightarrow> b \<in> set use"
  shows "entry_ok T' lru' use' b e"
  using assms by (simp add: entry_ok_def)

lemma counted_first:
  assumes "entry_ok T lru use a e"
  shows "unat (h_refs e) = 1 \<and> h_in_cache e \<longleftrightarrow> a \<in> set lru"
proof -
  have "u = n + (if c then 1 else 0) \<Longrightarrow> c = (l \<or> k) \<Longrightarrow> l = (n = 0) \<Longrightarrow> u = 1 \<and> c \<longleftrightarrow> l" for u n :: nat and c l k by auto
  from this [of "unat (h_refs e)" "count T a"] show ?thesis using assms unfolding entry_ok_def by blast
qed

lemma Ref_spec:
  assumes inv: "lists_inv mine T lru use s" and e: "data s a = Some e" "mine (h_hash e)" and room: "size T < 2 ^ 30"
  shows "\<exists>s'. Ref a s = Some s' \<and>
    lists_inv mine (add_mset a T) (remove1 a lru) (if a \<in> set lru then use @ [a] else use) s' \<and>
    data s' = (data s)(a := Some (e\<lparr>h_refs := h_refs e + 1\<rparr>)) \<and> same_rest (insert a (set lru \<union> set use)) s s'"
proof -
  let ?M = "insert a (set lru \<union> set use)"
  let ?S = "mine_of mine s" and ?use = "if a \<in> set lru then use @ [a] else use"
  have i: "rings lru use s" "set lru \<union> set use \<subseteq> ?S" "\<And>b d. data s b = Some d \<Longrightarrow> mine (h_hash d) \<Longrightarrow> entry_ok T lru use b d"
    "\<And>b. b \<in> ?S \<Longrightarrow> readable s b" using inv by (auto simp: lists_inv_iff)
  have ok: "entry_ok T lru use a e" using i(3) e by blast
  have c: "count T a < 2 ^ 30" using room count_le_size [of T a] by linarith
  have one: "h_refs e = 1 \<longleftrightarrow> unat (h_refs e) = 1" by (metis unat_1 word_unat_eq_iff)
  have first: "h_refs e = 1 \<and> h_in_cache e \<longleftrightarrow> a \<in> set lru" using counted_first [OF ok] one by blast
  obtain e0 where e0: "hp_obj (fst s) a = Some e0" "e = blank e0" using data_obj [OF e(1)] by blast
  have "\<exists>s1. (if h_refs e0 = 1 \<and> h_in_cache e0 then do { s1 \<leftarrow> LRU_Remove a s; LRU_Append InUseHead a s1 } else Some s) = Some s1 \<and>
      rings (remove1 a lru) ?use s1 \<and> data s1 = data s \<and> same_rest ?M s s1 \<and> (\<forall>b \<in> ?S. readable s1 b)"
  proof (cases "a \<in> set lru")
    case False
    then show ?thesis using first i(1,4) e0(2) by (intro exI [of _ s]) (auto simp: remove1_idem same_rest_def)
  next
    case True
    obtain s1 where s1: "LRU_Remove a s = Some s1" "rings (remove1 a lru) (remove1 a use) s1" "data s1 = data s" "same_rest (set lru \<union> set use) s s1"
      "\<forall>b \<in> ?S. readable s1 b" using remove_step [OF i(1) _ i(4), of a ?S] True by blast
    have u: "a \<notin> set use" "distinct lru" using i(1) True by (auto simp: rings_def)
    then have "a \<notin> set (remove1 a lru) \<union> set (remove1 a use)" "data s1 a \<noteq> None" using e(1) s1(3) by auto
    then obtain s2 where s2: "LRU_Append InUseHead a s1 = Some s2" "rings (remove1 a lru) (remove1 a use @ [a]) s2" "data s2 = data s1"
      "same_rest (insert a (set (remove1 a lru) \<union> set (remove1 a use))) s1 s2" "\<forall>b \<in> insert a ?S. readable s2 b" using append_step(2) [OF s1(2)] s1(5) by blast
    have mo: "same_rest ?M s s2"
      by (rule same_rest_trans [OF same_rest_mono [OF s1(4)] same_rest_mono [OF s2(4)]]) (auto dest: notin_set_remove1)
    show ?thesis using s2 True first e0(2) s1 u mo by (simp add: remove1_idem)
  qed
  then obtain s1 where s1: "(if h_refs e0 = 1 \<and> h_in_cache e0 then do { s1 \<leftarrow> LRU_Remove a s; LRU_Append InUseHead a s1 } else Some s) = Some s1"
    "rings (remove1 a lru) ?use s1" "data s1 = data s" "same_rest ?M s s1" "\<forall>b \<in> ?S. readable s1 b" by blast
  obtain s2 where s2: "modify a (\<lambda>e. e\<lparr>h_refs := h_refs e + 1\<rparr>) s1 = Some s2" "nexts s2 = nexts s1" "prevs_of s2 = prevs_of s1"
    "data s2 = (data s1)(a := Some (e\<lparr>h_refs := h_refs e + 1\<rparr>))" "same_rest {a} s1 s2"
    using modify_spec [of s1 a e "\<lambda>e. e\<lparr>h_refs := h_refs e + 1\<rparr>"] e(1) s1(3) by (auto simp: blank_def)
  have "Ref a s = Some s2" using e0(1) s1(1) s2(1) by (auto simp: Ref_def)
  moreover have d: "data s2 = (data s)(a := Some (e\<lparr>h_refs := h_refs e + 1\<rparr>))" using s2(4) s1(3) by simp
  moreover have "lists_inv mine (add_mset a T) (remove1 a lru) ?use s2"
    unfolding lists_inv_iff
  proof (intro conjI allI impI)
    show "rings (remove1 a lru) ?use s2" using s1(2) rings_cong [OF s2(2,3)] by simp
    have S: "mine_of mine s2 = ?S" using d e by (auto simp: mine_of_def)
    show "set (remove1 a lru) \<union> set ?use \<subseteq> mine_of mine s2"
      unfolding S using i(2) set_remove1_subset [of a lru] by (auto split: if_splits)
    show "\<forall>b \<in> mine_of mine s2. readable s2 b" unfolding S using s1(5) readable_cong [OF s2(2)] by blast
    fix b d assume b: "data s2 b = Some d" "mine (h_hash d)"
    show "entry_ok (add_mset a T) (remove1 a lru) ?use b d"
    proof (cases "b = a")
      case False
      have "entry_ok T lru use b d" using b d i(3) False by simp
      then show ?thesis by (rule entry_ok_other) (use False in auto)
    next
      case True
      have "unat (h_refs e) < 2 ^ 31" using ok c by (simp add: entry_ok_def)
      then have "unat (h_refs e + 1) = unat (h_refs e) + 1" by (simp add: unat_plus_if')
      moreover have "a \<notin> set (remove1 a lru)" using i(1) by (simp add: rings_def)
      moreover have "d = e\<lparr>h_refs := h_refs e + 1\<rparr>" using b(1) d True by simp
      moreover have "a \<in> set (remove1 a lru) \<union> set ?use \<longleftrightarrow> a \<in> set lru \<union> set use" using i(1) by (auto simp: rings_def)
      ultimately show ?thesis using ok unfolding True entry_ok_def by simp
    qed
  qed
  moreover have "same_rest ?M s s2" by (rule same_rest_trans [OF s1(4) same_rest_mono [OF s2(5)]]) simp
  ultimately show ?thesis by blast
qed

text \<open>Giving a handle back.\<close>

definition same_shard :: "nat set \<Rightarrow> 'v lru \<Rightarrow> 'v lru \<Rightarrow> bool" where
  "same_shard A s s' \<longleftrightarrow> (\<forall>b. b \<notin> A \<longrightarrow> hp_obj (fst s') b = hp_obj (fst s) b) \<and> hp_fresh (fst s') = hp_fresh (fst s) \<and> lc_capacity (snd s') = lc_capacity (snd s) \<and>
     lc_usage (snd s') = lc_usage (snd s) \<and> lc_table (snd s') = lc_table (snd s)"

lemma same_restD: "same_rest A s s' \<Longrightarrow> same_shard A s s'" "same_rest A s s' \<Longrightarrow> hp_deleted (fst s') = hp_deleted (fst s)"
  by (simp_all add: same_rest_def same_shard_def)

lemma same_shard_trans: "same_shard A s1 s2 \<Longrightarrow> same_shard A s2 s3 \<Longrightarrow> same_shard A s1 s3"
  by (simp add: same_shard_def)

lemma same_shard_mono: "same_shard A s s' \<Longrightarrow> A \<subseteq> B \<Longrightarrow> same_shard B s s'"
  by (auto simp: same_shard_def)

definition deletion :: "'v lru_handle \<Rightarrow> nat \<times> slice \<times> 'v" where
  "deletion e = (h_deleter e, h_key_data e, h_value e)"

lemma free_spec:
  assumes "rings lru use s" "a \<notin> set lru \<union> set use" "data s a = Some e" "readable s a" "\<And>b. b \<in> S \<Longrightarrow> readable s b"
  shows "\<exists>s'. free_entry a s = Some s' \<and> rings lru use s' \<and> data s' = (data s)(a := None) \<and> same_shard {a} s s' \<and>
    hp_deleted (fst s') = hp_deleted (fst s) @ [deletion e] \<and> (\<forall>b \<in> S - {a}. readable s' b)"
proof -
  obtain e0 where e0: "hp_obj (fst s) a = Some e0" "e = blank e0" using data_obj [OF assms(3)] by blast
  obtain hp c where s: "s = (hp, c)" by (cases s)
  have k: "handle_key a (fst s) = Some (h_key_data e)" using assms(4) e0 by (auto simp: readable_def handle_key_def s)
  define s' where "s' = ((fst s)\<lparr>hp_obj := (hp_obj (fst s))(a := None),
    hp_deleted := hp_deleted (fst s) @ [(h_deleter e0, h_key_data e, h_value e0)]\<rparr>, snd s)"
  have l: "get_next x s' = get_next x s" "get_prev x s' = get_prev x s" if "x \<noteq> Entry a" for x
    using that by (cases x; simp add: s'_def s)+
  have "ring (nexts s') (prevs_of s') h xs \<longleftrightarrow> ring (nexts s) (prevs_of s) h xs" if "is_head h" "a \<notin> set xs" for h xs
  proof -
    have "x \<noteq> Entry a" if "x \<in> insert h (Entry ` set xs)" for x using that \<open>is_head h\<close> \<open>a \<notin> set xs\<close> by (auto simp: is_head_def)
    then show ?thesis using l by (intro ring_cong) blast
  qed
  then have "rings lru use s'" using assms(1,2) by (simp add: rings_def is_head_def)
  moreover have "readable s' b" if "b \<in> S - {a}" for b using assms(5) [of b] l(1) [of "Entry b"] that by (simp add: readable_def)
  moreover have "free_entry a s = Some s'" using e0(1) k by (simp add: free_entry_def s'_def)
  moreover have "data s' = (data s)(a := None)" by (auto simp: data_def s'_def)
  moreover have "same_shard {a} s s'" "hp_deleted (fst s') = hp_deleted (fst s) @ [deletion e]"
    using e0(2) by (simp_all add: same_shard_def s'_def deletion_def)
  ultimately show ?thesis by blast
qed

lemma Unref_spec:
  assumes inv: "lists_inv mine (add_mset a T) lru use s" and e: "data s a = Some e" "mine (h_hash e)" and room: "size T < 2 ^ 30"
  defines "kept \<equiv> a \<in> set use \<or> a \<in># T"
  shows "\<exists>s'. Unref a s = Some s' \<and>
    lists_inv mine T (if a \<in> set use \<and> a \<notin># T then lru @ [a] else lru) (if a \<notin># T then remove1 a use else use) s' \<and>
    data s' = (data s)(a := if kept then Some (e\<lparr>h_refs := h_refs e - 1\<rparr>) else None) \<and> same_shard (insert a (set lru \<union> set use)) s s' \<and>
    hp_deleted (fst s') = hp_deleted (fst s) @ (if kept then [] else [deletion e])"
proof -
  let ?M = "insert a (set lru \<union> set use)"
  let ?S = "mine_of mine s" and ?e = "e\<lparr>h_refs := h_refs e - 1\<rparr>"
  let ?lru = "if a \<in> set use \<and> a \<notin># T then lru @ [a] else lru" and ?use = "if a \<notin># T then remove1 a use else use"
  have i: "rings lru use s" "set lru \<union> set use \<subseteq> ?S" "\<And>b d. data s b = Some d \<Longrightarrow> mine (h_hash d) \<Longrightarrow> entry_ok (add_mset a T) lru use b d"
    "\<And>b. b \<in> ?S \<Longrightarrow> readable s b" using inv by (auto simp: lists_inv_iff)
  have ok: "entry_ok (add_mset a T) lru use a e" using i(3) e by blast
  have aS: "a \<in> ?S" using e by (auto simp: mine_of_def)
  define n where "n = count T a"
  have n: "n < 2 ^ 30" using room count_le_size [of T a] by (simp add: n_def)
  have mem: "a \<in># T \<longleftrightarrow> 0 < n" by (simp add: n_def)
  have refs: "unat (h_refs e) = n + 1 + (if h_in_cache e then 1 else 0)" and nl: "a \<notin> set lru" and ic: "h_in_cache e \<longleftrightarrow> a \<in> set use"
    using ok by (auto simp: entry_ok_def n_def)
  have ne: "h_refs e \<noteq> 0" using refs by (metis Suc_eq_plus1 add_is_0 nat.distinct(1) unat_0 add.assoc add.commute)
  then have minus: "unat (h_refs e - 1) = unat (h_refs e) - 1" by (simp add: unat_minus_one)
  have one: "h_refs e = 1 \<longleftrightarrow> unat (h_refs e) = 1" "h_refs e = 2 \<longleftrightarrow> unat (h_refs e) = 2"
    by (simp_all add: word_unat_eq_iff)
  have is1: "h_refs e = 1 \<longleftrightarrow> \<not> kept" and is2: "h_in_cache e \<and> h_refs e = 2 \<longleftrightarrow> a \<in> set use \<and> a \<notin># T"
    unfolding one kept_def mem refs ic by auto
  obtain e0 where e0: "hp_obj (fst s) a = Some e0" "e = blank e0" using data_obj [OF e(1)] by blast
  obtain s1 where s1: "modify a (\<lambda>e. e\<lparr>h_refs := h_refs e - 1\<rparr>) s = Some s1" "nexts s1 = nexts s" "prevs_of s1 = prevs_of s"
    "data s1 = (data s)(a := Some ?e)" "same_rest {a} s s1"
    using modify_spec [of s a e "\<lambda>e. e\<lparr>h_refs := h_refs e - 1\<rparr>"] e(1) by (auto simp: blank_def)
  have i1: "rings lru use s1" "\<And>b. b \<in> ?S \<Longrightarrow> readable s1 b" using i(1,4) rings_cong [OF s1(2,3)] readable_cong [OF s1(2)] by simp_all
  have unref: "Unref a s = (if \<not> kept then free_entry a s1
      else if a \<in> set use \<and> a \<notin># T then do { s2 \<leftarrow> LRU_Remove a s1; LRU_Append LruHead a s2 } else Some s1)"
  proof -
    have "h_in_cache e \<Longrightarrow> kept" using ic by (simp add: kept_def)
    then show ?thesis using e0 s1(1) ne is1 is2 by (auto simp: Unref_def)
  qed
  have "\<exists>s2. Unref a s = Some s2 \<and> rings ?lru ?use s2 \<and> data s2 = (if kept then data s1 else (data s1)(a := None)) \<and> same_shard ?M s1 s2 \<and>
      hp_deleted (fst s2) = hp_deleted (fst s1) @ (if kept then [] else [deletion e]) \<and> (\<forall>b \<in> (if kept then ?S else ?S - {a}). readable s2 b)"
  proof -
    consider (free) "\<not> kept" | (move) "kept" "a \<in> set use \<and> a \<notin># T" | (stay) "kept" "\<not> (a \<in> set use \<and> a \<notin># T)" by blast
    then show ?thesis
    proof cases
      case free
      then have out: "a \<notin> set lru \<union> set use" "a \<notin># T" using nl by (simp_all add: kept_def)
      have "data s1 a = Some ?e" using s1(4) by simp
      then obtain s2 where "free_entry a s1 = Some s2" "rings lru use s2" "data s2 = (data s1)(a := None)" "same_shard {a} s1 s2"
        "hp_deleted (fst s2) = hp_deleted (fst s1) @ [deletion ?e]" "\<forall>b \<in> ?S - {a}. readable s2 b"
        using free_spec [OF i1(1) out(1) _ i1(2) [OF aS] i1(2), of ?e ?S] by blast
      moreover have "deletion ?e = deletion e" by (simp add: deletion_def)
      moreover have "same_shard ?M s1 s2" by (rule same_shard_mono [OF calculation(4)]) simp
      ultimately show ?thesis using unref free out by (intro exI [of _ s2]) (simp add: remove1_idem)
    next
      case move
      obtain s2 where s2: "LRU_Remove a s1 = Some s2" "rings (remove1 a lru) (remove1 a use) s2" "data s2 = data s1" "same_rest (set lru \<union> set use) s1 s2"
        "\<forall>b \<in> ?S. readable s2 b" using remove_step [OF i1(1) _ i1(2), of a ?S] move(2) by blast
      have d: "distinct use" using i(1) by (simp add: rings_def)
      then have "a \<notin> set (remove1 a lru) \<union> set (remove1 a use)" "data s2 a \<noteq> None" using nl s2(3) s1(4) by (auto simp: remove1_idem)
      then obtain s3 where s3: "LRU_Append LruHead a s2 = Some s3" "rings (remove1 a lru @ [a]) (remove1 a use) s3" "data s3 = data s2"
        "same_rest (insert a (set (remove1 a lru) \<union> set (remove1 a use))) s2 s3" "\<forall>b \<in> insert a ?S. readable s3 b" using append_step(1) [OF s2(2)] s2(5) by blast
      have mo: "same_rest ?M s1 s3"
        by (rule same_rest_trans [OF same_rest_mono [OF s2(4)] same_rest_mono [OF s3(4)]]) (auto dest: notin_set_remove1)
      show ?thesis using s3 unref move s2 nl same_restD [OF mo]
        by (intro exI [of _ s3]) (simp add: remove1_idem)
    next
      case stay
      then have "?lru = lru" "?use = use" by (auto simp: kept_def remove1_idem)
      then have r: "rings ?lru ?use s1" using i1(1) by (simp only:)
      have u: "Unref a s = Some s1" using unref stay by simp
      show ?thesis by (intro exI [of _ s1] conjI; (rule u | rule r | simp add: same_shard_def stay(1) i1(2)))
    qed
  qed
  then obtain s2 where s2: "Unref a s = Some s2" "rings ?lru ?use s2" "data s2 = (if kept then data s1 else (data s1)(a := None))"
    "same_shard ?M s1 s2" "hp_deleted (fst s2) = hp_deleted (fst s1) @ (if kept then [] else [deletion e])"
    "\<forall>b \<in> (if kept then ?S else ?S - {a}). readable s2 b" by blast
  have d: "data s2 = (data s)(a := if kept then Some ?e else None)" using s2(3) s1(4) by auto
  have S: "mine_of mine s2 = (if kept then ?S else ?S - {a})" using d e by (auto simp: mine_of_def)
  have "lists_inv mine T ?lru ?use s2"
    unfolding lists_inv_iff
  proof (intro conjI allI impI)
    show "rings ?lru ?use s2" by (rule s2(2))
    show "set ?lru \<union> set ?use \<subseteq> mine_of mine s2"
      unfolding S using i(2) set_remove1_subset [of a use] nl by (auto simp: kept_def split: if_splits)
    show "\<forall>b \<in> mine_of mine s2. readable s2 b" unfolding S by (rule s2(6))
    fix b d assume b: "data s2 b = Some d" "mine (h_hash d)"
    show "entry_ok T ?lru ?use b d"
    proof (cases "b = a")
      case False
      have "entry_ok (add_mset a T) lru use b d" using b d i(3) False by simp
      then show ?thesis by (rule entry_ok_other) (use False in auto)
    next
      case True
      then have k: kept and de: "d = ?e" using b(1) d by (simp_all split: if_splits)
      have "distinct use" using i(1) by (simp add: rings_def)
      then have "a \<in> set ?lru \<longleftrightarrow> n = 0" "a \<in> set ?lru \<union> set ?use \<longleftrightarrow> a \<in> set use" using nl k mem by (auto simp: kept_def)
      moreover have "unat (h_refs d) = n + (if h_in_cache d then 1 else 0)" unfolding de using minus refs by simp
      ultimately show ?thesis unfolding True entry_ok_def n_def [symmetric] using de ic by simp
    qed
  qed
  moreover have "same_shard ?M s s2" by (rule same_shard_trans [OF same_shard_mono [OF same_restD(1) [OF s1(5)]] s2(4)]) simp
  ultimately show ?thesis using s2(1,5) d same_restD(2) [OF s1(5)] by auto
qed

text \<open>The shard's own fields do not touch the lists.\<close>

lemma set_usage [simp]:
  "nexts (hp, c\<lparr>lc_usage := u\<rparr>) = nexts (hp, c)" "prevs_of (hp, c\<lparr>lc_usage := u\<rparr>) = prevs_of (hp, c)"
  "data (hp, c\<lparr>lc_usage := u\<rparr>) = data (hp, c)"
proof -
  have "get_next x (hp, c\<lparr>lc_usage := u\<rparr>) = get_next x (hp, c)" "get_prev x (hp, c\<lparr>lc_usage := u\<rparr>) = get_prev x (hp, c)" for x
    by (cases x; simp)+
  then show "nexts (hp, c\<lparr>lc_usage := u\<rparr>) = nexts (hp, c)" "prevs_of (hp, c\<lparr>lc_usage := u\<rparr>) = prevs_of (hp, c)" by auto
qed (simp add: data_def)

lemma set_table [simp]:
  "nexts (hp, c\<lparr>lc_table := t\<rparr>) = nexts (hp, c)" "prevs_of (hp, c\<lparr>lc_table := t\<rparr>) = prevs_of (hp, c)"
  "data (hp, c\<lparr>lc_table := t\<rparr>) = data (hp, c)"
proof -
  have "get_next x (hp, c\<lparr>lc_table := t\<rparr>) = get_next x (hp, c)" "get_prev x (hp, c\<lparr>lc_table := t\<rparr>) = get_prev x (hp, c)" for x
    by (cases x; simp)+
  then show "nexts (hp, c\<lparr>lc_table := t\<rparr>) = nexts (hp, c)" "prevs_of (hp, c\<lparr>lc_table := t\<rparr>) = prevs_of (hp, c)" by auto
qed (simp add: data_def)

lemma lists_inv_cong:
  assumes "nexts s' = nexts s" "prevs_of s' = prevs_of s" "data s' = data s"
  shows "lists_inv mine T lru use s' = lists_inv mine T lru use s"
  unfolding lists_inv_iff mine_of_def rings_cong [OF assms(1,2)] readable_cong [OF assms(1)] assms(3) ..

text \<open>An entry leaves the cache; it lives on while clients hold it.\<close>

lemma FinishErase_spec:
  assumes inv: "lists_inv mine T lru use s" and a: "a \<in> set lru \<union> set use" and e: "data s a = Some e" and room: "size T < 2 ^ 30"
  shows "\<exists>s'. FinishErase (Some a) s = Some (True, s') \<and> lists_inv mine T (remove1 a lru) (remove1 a use) s' \<and>
    data s' = (data s)(a := if a \<in># T then Some (e\<lparr>h_in_cache := False, h_refs := h_refs e - 1\<rparr>) else None) \<and>
    (\<forall>b. b \<notin> set lru \<union> set use \<longrightarrow> hp_obj (fst s') b = hp_obj (fst s) b) \<and>
    hp_fresh (fst s') = hp_fresh (fst s) \<and> lc_capacity (snd s') = lc_capacity (snd s) \<and> lc_table (snd s') = lc_table (snd s) \<and>
    lc_usage (snd s') = lc_usage (snd s) - h_charge e \<and>
    hp_deleted (fst s') = hp_deleted (fst s) @ (if a \<in># T then [] else [deletion e])"
proof -
  let ?S = "mine_of mine s" and ?e = "e\<lparr>h_in_cache := False\<rparr>"
  have i: "rings lru use s" "set lru \<union> set use \<subseteq> ?S" "\<And>b d. data s b = Some d \<Longrightarrow> mine (h_hash d) \<Longrightarrow> entry_ok T lru use b d"
    "\<And>b. b \<in> ?S \<Longrightarrow> readable s b" using inv by (auto simp: lists_inv_iff)
  have m: "mine (h_hash e)" using a i(2) e by (auto simp: mine_of_def)
  have ok: "entry_ok T lru use a e" using i(3) e m by blast
  obtain e0 where e0: "hp_obj (fst s) a = Some e0" "e = blank e0" using data_obj [OF e] by blast
  have ic: "h_in_cache e0" using ok a e0(2) by (simp add: entry_ok_def)
  obtain s1 where s1: "LRU_Remove a s = Some s1" "rings (remove1 a lru) (remove1 a use) s1" "data s1 = data s" "same_rest (set lru \<union> set use) s s1"
    "\<forall>b \<in> ?S. readable s1 b" using remove_step [OF i(1) a i(4), of ?S] by blast
  obtain s2 where s2: "modify a (\<lambda>e. e\<lparr>h_in_cache := False\<rparr>) s1 = Some s2" "nexts s2 = nexts s1" "prevs_of s2 = prevs_of s1"
    "data s2 = (data s1)(a := Some ?e)" "same_rest {a} s1 s2"
    using modify_spec [of s1 a e "\<lambda>e. e\<lparr>h_in_cache := False\<rparr>"] e s1(3) by (auto simp: blank_def)
  define s3 where "s3 = (fst s2, (snd s2)\<lparr>lc_usage := lc_usage (snd s2) - h_charge e0\<rparr>)"
  have v: "nexts s3 = nexts s2" "prevs_of s3 = prevs_of s2" "data s3 = data s2"
    by (simp_all only: s3_def set_usage prod.collapse)
  have out: "a \<notin> set (remove1 a lru) \<union> set (remove1 a use)" using i(1) by (auto simp: rings_def)
  have d: "data s3 = (data s)(a := Some ?e)" using v(3) s2(4) s1(3) by simp
  have S: "mine_of mine s3 = ?S" using d e m by (auto simp: mine_of_def)
  have inv3: "lists_inv mine (add_mset a T) (remove1 a lru) (remove1 a use) s3"
    unfolding lists_inv_iff
  proof (intro conjI allI impI)
    show "rings (remove1 a lru) (remove1 a use) s3"
      using s1(2) rings_cong [OF s2(2,3)] rings_cong [OF v(1,2)] by simp
    show "set (remove1 a lru) \<union> set (remove1 a use) \<subseteq> mine_of mine s3"
      unfolding S using i(2) set_remove1_subset by fastforce
    show "\<forall>b \<in> mine_of mine s3. readable s3 b"
      unfolding S using s1(5) readable_cong [OF s2(2)] readable_cong [OF v(1)] by simp
    fix b d' assume b: "data s3 b = Some d'" "mine (h_hash d')"
    show "entry_ok (add_mset a T) (remove1 a lru) (remove1 a use) b d'"
    proof (cases "b = a")
      case False
      have "entry_ok T lru use b d'" using b d i(3) False by simp
      then show ?thesis by (rule entry_ok_other) (use False in auto)
    next
      case True
      have "d' = ?e" using b(1) d True by simp
      then show ?thesis using ok a out unfolding True entry_ok_def by simp
    qed
  qed
  have d3: "data s3 a = Some ?e" "mine (h_hash ?e)" using d m by simp_all
  have k: "a \<in> set (remove1 a use) \<or> a \<in># T \<longleftrightarrow> a \<in># T" "\<not> (a \<in> set (remove1 a use) \<and> a \<notin># T)"
    "(if a \<notin># T then remove1 a (remove1 a use) else remove1 a use) = remove1 a use" using out by (simp_all add: remove1_idem)
  obtain s4 where s4: "Unref a s3 = Some s4" "lists_inv mine T (remove1 a lru) (remove1 a use) s4"
    "data s4 = (data s3)(a := if a \<in># T then Some (?e\<lparr>h_refs := h_refs ?e - 1\<rparr>) else None)" "same_shard (insert a (set (remove1 a lru) \<union> set (remove1 a use))) s3 s4"
    "hp_deleted (fst s4) = hp_deleted (fst s3) @ (if a \<in># T then [] else [deletion ?e])"
    using Unref_spec [OF inv3 d3 room] unfolding k using k(2) by auto
  have "FinishErase (Some a) s = Some (True, s4)"
    using e0(1) ic s1(1) s2(1) s4(1) by (simp add: FinishErase_def s3_def)
  moreover have "data s4 = (data s)(a := if a \<in># T then Some (e\<lparr>h_in_cache := False, h_refs := h_refs e - 1\<rparr>) else None)"
    using s4(3) d by simp
  moreover have "hp_fresh (fst s4) = hp_fresh (fst s) \<and> lc_capacity (snd s4) = lc_capacity (snd s) \<and> lc_table (snd s4) = lc_table (snd s) \<and>
      lc_usage (snd s4) = lc_usage (snd s) - h_charge e \<and> hp_deleted (fst s4) = hp_deleted (fst s) @ (if a \<in># T then [] else [deletion e])"
    using s4(4,5) s1(4) s2(5) e0(2) by (simp add: same_shard_def same_rest_def s3_def deletion_def)
  moreover have "hp_obj (fst s4) b = hp_obj (fst s) b" if "b \<notin> set lru \<union> set use" for b
  proof -
    have "b \<noteq> a" "b \<notin> insert a (set (remove1 a lru) \<union> set (remove1 a use))" using that a by (auto dest: notin_set_remove1)
    then show ?thesis using s4(4) s1(4) s2(5) that by (simp add: same_shard_def same_rest_def s3_def)
  qed
  ultimately show ?thesis using s4(2) by blast
qed

text \<open>A new entry goes into the list of those in use.\<close>

lemma new_entry_spec:
  assumes inv: "lists_inv mine T lru use s" and fresh: "data s (hp_fresh (fst s)) = None" "hp_fresh (fst s) \<notin># T" and m: "mine hash"
    and e_def: "e = new_entry key hash val charge deleter"
  defines "a \<equiv> hp_fresh (fst s)"
  shows "\<exists>s1 s2 s3. allocate e s = (a, s1) \<and> snd s1 = snd s \<and> modify a (\<lambda>e. e\<lparr>h_refs := h_refs e + 1, h_in_cache := True\<rparr>) s1 = Some s2 \<and>
    LRU_Append InUseHead a s2 = Some s3 \<and> lists_inv mine (add_mset a T) lru (use @ [a]) s3 \<and>
    data s3 = (data s)(a := Some (e\<lparr>h_refs := 2, h_in_cache := True\<rparr>)) \<and> hp_fresh (fst s3) = a + 1 \<and>
    (\<forall>b. b \<notin> insert a (set lru \<union> set use) \<longrightarrow> hp_obj (fst s3) b = hp_obj (fst s) b) \<and>
    hp_deleted (fst s3) = hp_deleted (fst s) \<and> lc_capacity (snd s3) = lc_capacity (snd s) \<and> lc_usage (snd s3) = lc_usage (snd s) \<and>
    lc_table (snd s3) = lc_table (snd s)"
proof -
  let ?S = "mine_of mine s" and ?e = "e\<lparr>h_refs := 2, h_in_cache := True\<rparr>"
  have i: "rings lru use s" "set lru \<union> set use \<subseteq> ?S" "\<And>b d. data s b = Some d \<Longrightarrow> mine (h_hash d) \<Longrightarrow> entry_ok T lru use b d"
    "\<And>b. b \<in> ?S \<Longrightarrow> readable s b" using inv by (auto simp: lists_inv_iff)
  obtain hp c where s: "s = (hp, c)" by (cases s)
  define s1 where "s1 = (hp\<lparr>hp_fresh := a + 1, hp_obj := (hp_obj hp)(a := Some e)\<rparr>, c)"
  have al: "allocate e s = (a, s1)" by (simp add: allocate_def s s1_def a_def Let_def)
  have none: "hp_obj hp a = None" using fresh(1) by (simp add: data_def s a_def)
  have l: "get_next x s1 = get_next x s" "get_prev x s1 = get_prev x s" if "x \<noteq> Entry a" for x
    using that by (cases x; simp add: s1_def s)+
  have aS: "a \<notin> ?S" using fresh(1) by (simp add: mine_of_def a_def)
  then have out: "a \<notin> set lru \<union> set use" using i(2) by blast
  have "ring (nexts s1) (prevs_of s1) h xs \<longleftrightarrow> ring (nexts s) (prevs_of s) h xs" if "is_head h" "a \<notin> set xs" for h xs
  proof -
    have "x \<noteq> Entry a" if "x \<in> insert h (Entry ` set xs)" for x using that \<open>is_head h\<close> \<open>a \<notin> set xs\<close> by (auto simp: is_head_def)
    then show ?thesis using l by (intro ring_cong) blast
  qed
  then have r1: "rings lru use s1" using i(1) out by (simp add: rings_def is_head_def)
  have rd1: "readable s1 b" if "b \<in> ?S" for b
  proof -
    have "b \<noteq> a" using that aS by blast
    then show ?thesis using i(4) [OF that] l(1) [of "Entry b"] by (simp add: readable_def)
  qed
  have d1: "data s1 = (data s)(a := Some e)" by (auto simp: data_def s1_def s e_def new_entry_def blank_def)
  obtain s2 where s2: "modify a (\<lambda>e. e\<lparr>h_refs := h_refs e + 1, h_in_cache := True\<rparr>) s1 = Some s2" "nexts s2 = nexts s1" "prevs_of s2 = prevs_of s1"
    "data s2 = (data s1)(a := Some (e\<lparr>h_refs := h_refs e + 1, h_in_cache := True\<rparr>))" "same_rest {a} s1 s2"
    using modify_spec [of s1 a e "\<lambda>e. e\<lparr>h_refs := h_refs e + 1, h_in_cache := True\<rparr>"] d1 by (auto simp: blank_def)
  have d2: "data s2 = (data s)(a := Some ?e)" using s2(4) d1 by (simp add: e_def new_entry_def)
  have r2: "rings lru use s2" "\<And>b. b \<in> ?S \<Longrightarrow> readable s2 b" using r1 rd1 rings_cong [OF s2(2,3)] readable_cong [OF s2(2)] by simp_all
  have "data s2 a \<noteq> None" using d2 by simp
  then obtain s3 where s3: "LRU_Append InUseHead a s2 = Some s3" "rings lru (use @ [a]) s3" "data s3 = data s2" "same_rest (insert a (set lru \<union> set use)) s2 s3"
    "\<forall>b \<in> insert a ?S. readable s3 b" using append_step(2) [OF r2(1) out _ r2(2), of ?S] by blast
  have S: "mine_of mine s3 = insert a ?S" using s3(3) d2 m by (auto simp: mine_of_def e_def new_entry_def)
  have "lists_inv mine (add_mset a T) lru (use @ [a]) s3"
    unfolding lists_inv_iff
  proof (intro conjI allI impI)
    show "rings lru (use @ [a]) s3" by (rule s3(2))
    show "set lru \<union> set (use @ [a]) \<subseteq> mine_of mine s3" unfolding S using i(2) by auto
    show "\<forall>b \<in> mine_of mine s3. readable s3 b" unfolding S by (rule s3(5))
    fix b d assume b: "data s3 b = Some d" "mine (h_hash d)"
    show "entry_ok (add_mset a T) lru (use @ [a]) b d"
    proof (cases "b = a")
      case False
      have "entry_ok T lru use b d" using b d2 s3(3) i(3) False by simp
      then show ?thesis by (rule entry_ok_other) (use False in auto)
    next
      case True
      then have "d = ?e" using b(1) d2 s3(3) by simp
      moreover have "count T a = 0" using fresh(2) by (simp add: a_def not_in_iff)
      ultimately show ?thesis using out unfolding True entry_ok_def by simp
    qed
  qed
  then show ?thesis using al s2(1,5) s3(1,3,4) d2
    by (intro exI [of _ s1] exI [of _ s2] exI [of _ s3]) (simp add: same_rest_def s1_def s)
qed

end
