(* ===== verification/Lv_Cache_Table.thy ===== *)
theory Lv_Cache_Table
  imports Lv_Cache
begin

unbundle bit_operations_syntax

section \<open>The hash table of the LRU cache\<close>

text \<open>
  The chains of the table represent a list of buckets (\<open>table_ok\<close>). Looking up, inserting, removing and resizing do what they
  do to the set of entries, and change nothing of the entries but \<^verbatim>\<open>next_hash\<close>.
\<close>

subsection \<open>Chains\<close>

definition tdata :: "'v heap \<Rightarrow> nat \<Rightarrow> (nat option \<times> u32 \<times> slice) option" where
  "tdata hp a = map_option (\<lambda>e. (h_next_hash e, h_hash e, h_key_data e)) (hp_obj hp a)"

fun seg :: "(nat \<Rightarrow> (nat option \<times> 'x) option) \<Rightarrow> nat option \<Rightarrow> nat list \<Rightarrow> nat option \<Rightarrow> bool" where
  "seg d p [] q \<longleftrightarrow> p = q"
| "seg d p (a # as) q \<longleftrightarrow> p = Some a \<and> (\<exists>n x. d a = Some (n, x) \<and> seg d n as q)"

lemma seg_append: "seg d p (xs @ ys) q \<longleftrightarrow> (\<exists>r. seg d p xs r \<and> seg d r ys q)"
  by (induction xs arbitrary: p) auto

lemma seg_cong: "(\<And>a. a \<in> set as \<Longrightarrow> map_option fst (d' a) = map_option fst (d a)) \<Longrightarrow> seg d' p as q \<longleftrightarrow> seg d p as q"
proof (induction as arbitrary: p)
  case (Cons a as)
  have "map_option fst (d' a) = map_option fst (d a)" using Cons.prems by simp
  then show ?case using Cons.IH Cons.prems by (cases "d a"; cases "d' a") auto
qed simp

text \<open>The slot behind some entries of a bucket.\<close>

definition slot_after :: "slot \<Rightarrow> nat list \<Rightarrow> slot" where "slot_after p pre = (if pre = [] then p else NextHash (last pre))"

definition matches :: "'v heap \<Rightarrow> slice \<Rightarrow> u32 \<Rightarrow> nat \<Rightarrow> bool" where
  "matches hp key hash a \<longleftrightarrow> (\<exists>e. hp_obj hp a = Some e \<and> h_hash e = hash \<and> h_key_data e = key)"

definition keyed :: "'v heap \<Rightarrow> nat \<Rightarrow> bool" where
  "keyed hp a \<longleftrightarrow> (\<exists>e. hp_obj hp a = Some e \<and> handle_key a hp = Some (h_key_data e))"

abbreviation unmatched :: "'v heap \<Rightarrow> slice \<Rightarrow> u32 \<Rightarrow> nat list \<Rightarrow> nat list" where
  "unmatched hp key hash as \<equiv> takeWhile (\<lambda>a. \<not> matches hp key hash a) as"

lemma find_slot_spec:
  assumes "read_slot p (hp, t) = Some q" "seg (tdata hp) q as None" "\<And>a. a \<in> set as \<Longrightarrow> keyed hp a"
  shows "find_slot key hash p (hp, t) = Some (slot_after p (unmatched hp key hash as)) \<and>
    read_slot (slot_after p (unmatched hp key hash as)) (hp, t) = Some (find (matches hp key hash) as)"
  using assms
proof (induction as arbitrary: p q)
  case Nil
  then show ?case by (simp add: slot_after_def find_slot.simps [of key hash p])
next
  case (Cons a as)
  obtain e where e: "hp_obj hp a = Some e" "handle_key a hp = Some (h_key_data e)" using Cons.prems(3) [of a] by (auto simp: keyed_def)
  have "tdata hp a = Some (h_next_hash e, h_hash e, h_key_data e)" using e(1) by (simp add: tdata_def)
  then have q: "q = Some a" "seg (tdata hp) (h_next_hash e) as None" using Cons.prems(2) by auto
  show ?case
  proof (cases "matches hp key hash a")
    case True
    then show ?thesis using Cons.prems(1) e q by (simp add: matches_def slot_after_def find_slot.simps [of key hash p])
  next
    case False
    then have "find_slot key hash p (hp, t) = find_slot key hash (NextHash a) (hp, t)"
      using Cons.prems(1) e q by (auto simp: matches_def find_slot.simps [of key hash p])
    moreover have "read_slot (NextHash a) (hp, t) = Some (h_next_hash e)" using e by simp
    moreover have "slot_after (NextHash a) xs = slot_after p (a # xs)" for xs by (simp add: slot_after_def)
    ultimately show ?thesis using Cons.IH [of "NextHash a" "h_next_hash e"] q(2) Cons.prems(3) False by simp
  qed
qed

text \<open>What changes in a heap: links of chains.\<close>

definition links_only :: "'v heap \<Rightarrow> 'v heap \<Rightarrow> nat set \<Rightarrow> bool" where
  "links_only hp hp' A \<longleftrightarrow> hp_fresh hp' = hp_fresh hp \<and> hp_deleted hp' = hp_deleted hp \<and>
     (\<forall>b. b \<notin> A \<longrightarrow> hp_obj hp' b = hp_obj hp b) \<and> (\<forall>b. \<exists>n. hp_obj hp' b = map_option (\<lambda>e. e\<lparr>h_next_hash := n\<rparr>) (hp_obj hp b))"

lemma links_only_refl: "links_only hp hp A"
proof -
  have "\<exists>n. hp_obj hp b = map_option (\<lambda>e. e\<lparr>h_next_hash := n\<rparr>) (hp_obj hp b)" for b
    by (cases "hp_obj hp b") (auto intro: exI [of _ "h_next_hash (the (hp_obj hp b))"])
  then show ?thesis by (simp add: links_only_def)
qed

lemma links_only_trans: "links_only hp hp1 A \<Longrightarrow> links_only hp1 hp2 B \<Longrightarrow> A \<subseteq> C \<Longrightarrow> B \<subseteq> C \<Longrightarrow> links_only hp hp2 C"
proof -
  assume a: "links_only hp hp1 A" "links_only hp1 hp2 B" "A \<subseteq> C" "B \<subseteq> C"
  have "\<exists>n. hp_obj hp2 b = map_option (\<lambda>e. e\<lparr>h_next_hash := n\<rparr>) (hp_obj hp b)" for b
  proof -
    obtain n m where "hp_obj hp1 b = map_option (\<lambda>e. e\<lparr>h_next_hash := n\<rparr>) (hp_obj hp b)"
      "hp_obj hp2 b = map_option (\<lambda>e. e\<lparr>h_next_hash := m\<rparr>) (hp_obj hp1 b)" using a(1,2) unfolding links_only_def by blast
    then show ?thesis by (intro exI [of _ m]) (simp add: option.map_comp comp_def)
  qed
  moreover have "\<forall>b. b \<notin> C \<longrightarrow> hp_obj hp2 b = hp_obj hp b" using a unfolding links_only_def by (metis subsetD)
  ultimately show ?thesis using a unfolding links_only_def by simp
qed

lemma links_only_mono: "links_only hp hp' A \<Longrightarrow> A \<subseteq> B \<Longrightarrow> links_only hp hp' B"
  by (auto simp: links_only_def)

lemma links_only_entry:
  assumes "links_only hp hp' A" "hp_obj hp a = Some e"
  shows "\<exists>n. hp_obj hp' a = Some (e\<lparr>h_next_hash := n\<rparr>)"
  using assms unfolding links_only_def by (metis option.simps(9))

lemma links_only_keyed: "links_only hp hp' A \<Longrightarrow> keyed hp a \<Longrightarrow> keyed hp' a"
proof -
  assume a: "links_only hp hp' A" "keyed hp a"
  then obtain e where e: "hp_obj hp a = Some e" "handle_key a hp = Some (h_key_data e)" by (auto simp: keyed_def)
  then show ?thesis using links_only_entry [OF a(1) e(1)]
    by (auto simp: keyed_def handle_key_def split: if_splits option.splits simp: Option.bind_eq_Some_conv)
qed

lemma links_only_matches: "links_only hp hp' A \<Longrightarrow> matches hp' key hash a \<longleftrightarrow> matches hp key hash a"
proof -
  assume "links_only hp hp' A"
  then obtain n where "hp_obj hp' a = map_option (\<lambda>e. e\<lparr>h_next_hash := n\<rparr>) (hp_obj hp a)" unfolding links_only_def by blast
  then show ?thesis by (auto simp: matches_def)
qed

lemma modify_links:
  assumes "hp_obj hp a = Some e"
  shows "\<exists>hp'. modify_entry a (\<lambda>e. e\<lparr>h_next_hash := n\<rparr>) hp = Some hp' \<and> links_only hp hp' {a} \<and>
    tdata hp' = (tdata hp)(a := Some (n, h_hash e, h_key_data e))"
proof -
  let ?hp' = "hp\<lparr>hp_obj := (hp_obj hp)(a := Some (e\<lparr>h_next_hash := n\<rparr>))\<rparr>"
  have "\<exists>m. hp_obj ?hp' b = map_option (\<lambda>e. e\<lparr>h_next_hash := m\<rparr>) (hp_obj hp b)" for b
    using assms by (cases "b = a"; cases "hp_obj hp b") (auto intro: exI [of _ "h_next_hash (the (hp_obj hp b))"])
  then have "links_only hp ?hp' {a}" by (simp add: links_only_def)
  then show ?thesis using assms by (auto simp: modify_entry_def tdata_def)
qed

subsection \<open>The table\<close>

definition bucket_of :: "handle_table \<Rightarrow> u32 \<Rightarrow> nat" where "bucket_of t hash = unat (hash AND (ht_length t - 1))"

definition chains_ok :: "(nat \<Rightarrow> (nat option \<times> u32 \<times> slice) option) \<Rightarrow> u32 \<Rightarrow> nat option list \<Rightarrow> nat list list \<Rightarrow> bool" where
  "chains_ok d n bl bks \<longleftrightarrow> length bl = unat n \<and> length bks = unat n \<and> distinct (concat bks) \<and>
     (\<forall>i < unat n. seg d (bl ! i) (bks ! i) None) \<and>
     (\<forall>i < unat n. \<forall>a \<in> set (bks ! i). \<exists>m h k. d a = Some (m, h, k) \<and> unat (h AND (n - 1)) = i)"

definition table_size :: "u32 \<Rightarrow> bool" where "table_size n \<longleftrightarrow> (\<exists>k. 2 \<le> k \<and> k \<le> 31 \<and> unat n = 2 ^ k)"

definition table_ok :: "'v heap \<Rightarrow> handle_table \<Rightarrow> nat list list \<Rightarrow> bool" where
  "table_ok hp t bks \<longleftrightarrow> table_size (ht_length t) \<and> chains_ok (tdata hp) (ht_length t) (ht_list t) bks \<and>
     ht_elems t = of_nat (length (concat bks)) \<and> length (concat bks) \<le> unat (ht_length t)"

lemma table_size_index:
  assumes "table_size n"
  shows "unat (h AND (n - 1)) < unat n"
proof -
  have "0 < unat n" using assms by (auto simp: table_size_def)
  then have "n \<noteq> 0" by (metis unat_0 less_irrefl)
  have "h AND (n - 1) \<le> n - 1" by (rule word_and_le1)
  then have "unat (h AND (n - 1)) \<le> unat (n - 1)" by (simp add: word_le_nat_alt)
  moreover have "unat (n - 1) < unat n" using \<open>n \<noteq> 0\<close> \<open>0 < unat n\<close> by (simp add: unat_minus_one)
  ultimately show ?thesis by linarith
qed

lemma mset_concat_update:
  "i < length bks \<Longrightarrow> mset (concat (bks[i := xs])) + mset (bks ! i) = mset (concat bks) + mset xs"
proof (induction bks arbitrary: i)
  case (Cons b bks)
  then show ?case by (cases i) (auto simp: ac_simps)
qed simp

lemma in_bucket:
  assumes "chains_ok d n bl bks" "a \<in> set (concat bks)" "d a = Some (m, h, k)"
  shows "a \<in> set (bks ! unat (h AND (n - 1)))" "unat (h AND (n - 1)) < length bks"
proof -
  obtain i where i: "i < length bks" "a \<in> set (bks ! i)" using assms(2) by (metis UN_E in_set_conv_nth set_concat)
  then have "unat (h AND (n - 1)) = i" using assms(1,3) unfolding chains_ok_def by (metis Pair_inject option.inject)
  then show "a \<in> set (bks ! unat (h AND (n - 1)))" "unat (h AND (n - 1)) < length bks" using i by simp_all
qed

text \<open>Other heaps: the table only depends on the entries in it.\<close>

lemma chains_ok_mono:
  assumes "\<And>a. a \<in> set (concat bks) \<Longrightarrow> d' a = d a" "chains_ok d n bl bks"
  shows "chains_ok d' n bl bks"
proof -
  have l: "length bks = unat n" using assms(2) by (simp add: chains_ok_def)
  have m: "d' a = d a" if "i < unat n" "a \<in> set (bks ! i)" for i a using that l by (intro assms(1)) auto
  have "seg d' p (bks ! i) None \<longleftrightarrow> seg d p (bks ! i) None" if "i < unat n" for i p
    using m [OF that] by (intro seg_cong) simp
  then show ?thesis using assms(2) m by (simp add: chains_ok_def)
qed

text \<open>Changing one bucket.\<close>

lemma bucket_update:
  assumes ok: "chains_ok d n bl bks" and i: "i < unat n" and d': "\<And>a. a \<notin> A \<Longrightarrow> d' a = d a"
    and A: "A \<inter> (set (concat bks) - set (bks ! i)) = {}" and s: "seg d' p xs None" and dist: "distinct xs"
    and new: "set xs \<inter> (set (concat bks) - set (bks ! i)) = {}"
    and home: "\<And>a. a \<in> set xs \<Longrightarrow> \<exists>m h k. d' a = Some (m, h, k) \<and> unat (h AND (n - 1)) = i"
  shows "chains_ok d' n (bl[i := p]) (bks[i := xs])"
proof -
  have l: "length bl = unat n" "length bks = unat n" "distinct (concat bks)" "\<And>j. j < unat n \<Longrightarrow> seg d (bl ! j) (bks ! j) None"
    "\<And>j a. j < unat n \<Longrightarrow> a \<in> set (bks ! j) \<Longrightarrow> \<exists>m h k. d a = Some (m, h, k) \<and> unat (h AND (n - 1)) = j"
    using ok by (auto simp: chains_ok_def)
  have other: "a \<in> set (concat bks) - set (bks ! i)" if "j < unat n" "j \<noteq> i" "a \<in> set (bks ! j)" for j a
  proof -
    have "a \<notin> set (bks ! i)" using l(5) [OF that(1,3)] l(5) [OF i, of a] that(2) by auto
    then show ?thesis using that(1,3) l(2) by auto
  qed
  have same: "d' a = d a" if "j < unat n" "j \<noteq> i" "a \<in> set (bks ! j)" for j a
    using other [OF that] A by (intro d') blast
  have "seg d' ((bl[i := p]) ! j) ((bks[i := xs]) ! j) None" if j: "j < unat n" for j
  proof (cases "j = i")
    case True
    then show ?thesis using s l(1,2) i by simp
  next
    case False
    have "seg d' (bl ! j) (bks ! j) None \<longleftrightarrow> seg d (bl ! j) (bks ! j) None" using same [OF j False] by (intro seg_cong) simp
    then show ?thesis using l(4) [OF j] False by simp
  qed
  moreover have "\<exists>m h k. d' a = Some (m, h, k) \<and> unat (h AND (n - 1)) = j" if "j < unat n" "a \<in> set ((bks[i := xs]) ! j)" for j a
  proof (cases "j = i")
    case True
    then show ?thesis using home that(2) l(2) i by simp
  next
    case False
    then show ?thesis using same [OF that(1) False] l(5) [OF that(1)] that(2) by simp
  qed
  moreover have "distinct (concat (bks[i := xs]))"
  proof -
    have b: "bks = take i bks @ bks ! i # drop (Suc i) bks" using id_take_nth_drop [of i bks] l(2) i by simp
    have c: "concat bks = concat (take i bks) @ bks ! i @ concat (drop (Suc i) bks)" by (subst b) simp
    have d: "distinct (concat (take i bks) @ bks ! i @ concat (drop (Suc i) bks))" using l(3) unfolding c .
    then have "set xs \<inter> (set (concat (take i bks)) \<union> set (concat (drop (Suc i) bks))) = {}" using new unfolding c distinct_append set_append by blast
    then have "distinct (concat (take i bks) @ xs @ concat (drop (Suc i) bks))" using dist d by auto
    moreover have "bks[i := xs] = take i bks @ xs # drop (Suc i) bks" using l(2) i by (intro upd_conv_take_nth_drop) simp
    ultimately show ?thesis by simp
  qed
  ultimately show ?thesis using l(1,2) by (simp add: chains_ok_def)
qed

subsection \<open>Looking up, inserting and removing\<close>

lemma table_bucket:
  assumes "table_ok hp t bks"
  shows "bucket_of t hash < unat (ht_length t)" "bucket_of t hash < length (ht_list t)" "bucket_of t hash < length bks"
    "seg (tdata hp) (ht_list t ! bucket_of t hash) (bks ! bucket_of t hash) None" "set (bks ! bucket_of t hash) \<subseteq> set (concat bks)"
    "distinct (bks ! bucket_of t hash)"
proof -
  show b: "bucket_of t hash < unat (ht_length t)" using assms table_size_index by (simp add: table_ok_def bucket_of_def)
  then show l: "bucket_of t hash < length (ht_list t)" "bucket_of t hash < length bks"
    "seg (tdata hp) (ht_list t ! bucket_of t hash) (bks ! bucket_of t hash) None"
    using assms by (simp_all add: table_ok_def chains_ok_def)
  then have b: "bks ! bucket_of t hash \<in> set bks" by simp
  then show "set (bks ! bucket_of t hash) \<subseteq> set (concat bks)" by auto
  have "distinct (concat bks)" using assms by (simp add: table_ok_def chains_ok_def)
  then show "distinct (bks ! bucket_of t hash)" using b distinct_concat_iff by blast
qed

lemma FindPointer_spec:
  assumes "table_ok hp t bks" "\<And>a. a \<in> set (concat bks) \<Longrightarrow> keyed hp a" and i_def: "i = bucket_of t hash"
  shows "FindPointer key hash (hp, t) = Some (slot_after (Bucket i) (unmatched hp key hash (bks ! i)))"
    "read_slot (slot_after (Bucket i) (unmatched hp key hash (bks ! i))) (hp, t) = Some (find (matches hp key hash) (bks ! i))"
proof -
  note b = table_bucket [OF assms(1), of hash, folded i_def]
  have "find_slot key hash (Bucket i) (hp, t) = Some (slot_after (Bucket i) (unmatched hp key hash (bks ! i))) \<and>
    read_slot (slot_after (Bucket i) (unmatched hp key hash (bks ! i))) (hp, t) = Some (find (matches hp key hash) (bks ! i))"
    using b by (intro find_slot_spec [where q = "ht_list t ! i"] assms(2)) auto
  then show "FindPointer key hash (hp, t) = Some (slot_after (Bucket i) (unmatched hp key hash (bks ! i)))"
    "read_slot (slot_after (Bucket i) (unmatched hp key hash (bks ! i))) (hp, t) = Some (find (matches hp key hash) (bks ! i))"
    by (simp_all add: FindPointer_def i_def bucket_of_def)
qed

text \<open>A match in the table is in its bucket.\<close>

lemma find_whole:
  assumes "table_ok hp t bks"
  shows "find (matches hp key hash) (bks ! bucket_of t hash) = None \<longleftrightarrow> (\<forall>a \<in> set (concat bks). \<not> matches hp key hash a)"
    "find (matches hp key hash) (bks ! bucket_of t hash) = Some a \<Longrightarrow> a \<in> set (concat bks) \<and> matches hp key hash a"
proof -
  note b = table_bucket [OF assms, of hash]
  have "a \<in> set (bks ! bucket_of t hash)" if a: "a \<in> set (concat bks)" "matches hp key hash a" for a
  proof -
    obtain m where "tdata hp a = Some (m, hash, key)" using a(2) by (auto simp: matches_def tdata_def)
    moreover have "chains_ok (tdata hp) (ht_length t) (ht_list t) bks" using assms by (simp add: table_ok_def)
    ultimately show ?thesis unfolding bucket_of_def using in_bucket(1) a(1) by blast
  qed
  then show "find (matches hp key hash) (bks ! bucket_of t hash) = None \<longleftrightarrow> (\<forall>a \<in> set (concat bks). \<not> matches hp key hash a)"
    using b(5) by (auto simp: find_None_iff)
  show "find (matches hp key hash) (bks ! bucket_of t hash) = Some a \<Longrightarrow> a \<in> set (concat bks) \<and> matches hp key hash a"
    using b(5) by (metis find_Some_iff nth_mem subsetD)
qed

lemma table_Lookup_spec:
  assumes "table_ok hp t bks" "\<And>a. a \<in> set (concat bks) \<Longrightarrow> keyed hp a"
  shows "\<exists>r. table_Lookup key hash (hp, t) = Some r \<and>
    (case r of None \<Rightarrow> \<forall>a \<in> set (concat bks). \<not> matches hp key hash a | Some a \<Rightarrow> a \<in> set (concat bks) \<and> matches hp key hash a)"
  using FindPointer_spec [where key = key and hash = hash, OF assms refl] find_whole [OF assms(1), of key hash]
  by (auto simp: table_Lookup_def split: option.splits)

text \<open>Writing the slot behind some entries of a bucket changes what follows them.\<close>

lemma write_after:
  assumes ok: "chains_ok (tdata hp) n (ht_list t) bks" and i: "i < unat n" and b: "bks ! i = pre @ rest"
    and v: "seg (tdata hp) v xs None" "distinct (pre @ xs)" "set xs \<inter> (set (concat bks) - set rest) = {}"
    and home: "\<And>a. a \<in> set xs \<Longrightarrow> \<exists>m h k. tdata hp a = Some (m, h, k) \<and> unat (h AND (n - 1)) = i"
  shows "\<exists>hp' bl. write_slot (slot_after (Bucket i) pre) v (hp, t) = Some (hp', t\<lparr>ht_list := bl\<rparr>) \<and>
    chains_ok (tdata hp') n bl (bks[i := pre @ xs]) \<and> links_only hp hp' (set pre)"
proof -
  have l: "length (ht_list t) = unat n" "length bks = unat n" "seg (tdata hp) (ht_list t ! i) (bks ! i) None" "distinct (concat bks)"
    "\<And>a. a \<in> set (bks ! i) \<Longrightarrow> \<exists>m h k. tdata hp a = Some (m, h, k) \<and> unat (h AND (n - 1)) = i"
    using ok i by (auto simp: chains_ok_def)
  have bin: "bks ! i \<in> set bks" using i l(2) by simp
  then have sub: "set (bks ! i) \<subseteq> set (concat bks)" by auto
  have dr: "set pre \<inter> set rest = {}" using l(4) bin b by (metis distinct_append distinct_concat_iff)
  have new: "set (pre @ xs) \<inter> (set (concat bks) - set (bks ! i)) = {}" using v(3) b by auto
  show ?thesis
  proof (cases "pre = []")
    case True
    have "chains_ok (tdata hp) n ((ht_list t)[i := v]) (bks[i := pre @ xs])"
      using True v home new by (intro bucket_update [OF ok i, where A = "{}"]) auto
    then show ?thesis using True i l(1) links_only_refl by (auto simp: slot_after_def)
  next
    case False
    let ?z = "last pre"
    have z: "?z \<in> set (bks ! i)" using False b by simp
    obtain e where e: "hp_obj hp ?z = Some e" using l(5) [OF z] by (auto simp: tdata_def)
    obtain hp' where hp': "modify_entry ?z (\<lambda>e. e\<lparr>h_next_hash := v\<rparr>) hp = Some hp'" "links_only hp hp' {?z}"
      "tdata hp' = (tdata hp)(?z := Some (v, h_hash e, h_key_data e))" using modify_links [OF e] by blast
    have s1: "seg (tdata hp') v xs None"
    proof -
      have "?z \<in> set pre" using False by simp
      then have "?z \<notin> set xs" using v(2) by (auto simp del: last_in_set)
      then have "seg (tdata hp') v xs None \<longleftrightarrow> seg (tdata hp) v xs None" using hp'(3) by (intro seg_cong) auto
      then show ?thesis using v(1) by simp
    qed
    have s2: "seg (tdata hp') (ht_list t ! i) pre v"
    proof -
      obtain ys where ys: "pre = ys @ [?z]" using False by (metis append_butlast_last_id)
      obtain r where "seg (tdata hp) (ht_list t ! i) (ys @ [?z]) r" using l(3) b ys seg_append by metis
      then have p: "seg (tdata hp) (ht_list t ! i) ys (Some ?z)" by (auto simp: seg_append)
      have "?z \<notin> set ys" using v(2) ys by (metis distinct.simps(2) distinct1_rotate distinct_append rotate1.simps(2) rotate1_rotate_swap append_Cons append_Nil not_distinct_conv_prefix)
      then have "seg (tdata hp') (ht_list t ! i) ys (Some ?z) \<longleftrightarrow> seg (tdata hp) (ht_list t ! i) ys (Some ?z)"
        using hp'(3) by (intro seg_cong) auto
      then have "seg (tdata hp') (ht_list t ! i) (ys @ [?z]) v" using p hp'(3) by (simp add: seg_append)
      then show ?thesis using ys by simp
    qed
    have "chains_ok (tdata hp') n ((ht_list t)[i := ht_list t ! i]) (bks[i := pre @ xs])"
    proof (rule bucket_update [OF ok i, where A = "{?z}"])
      show "seg (tdata hp') (ht_list t ! i) (pre @ xs) None" using s1 s2 seg_append by blast
      show "\<exists>m h k. tdata hp' a = Some (m, h, k) \<and> unat (h AND (n - 1)) = i" if "a \<in> set (pre @ xs)" for a
      proof (cases "a = ?z")
        case True
        then show ?thesis using l(5) [OF z] e hp'(3) by (auto simp: tdata_def)
      next
        case False
        then show ?thesis using that hp'(3) home l(5) b by auto
      qed
    qed (use hp'(3) z v(2) new in auto)
    moreover have "links_only hp hp' (set pre)" using False by (intro links_only_mono [OF hp'(2)]) simp
    ultimately show ?thesis using False hp'(1) by (intro exI [of _ hp'] exI [of _ "ht_list t"]) (simp add: slot_after_def)
  qed
qed

lemma tdata_entry: "hp_obj hp a = Some e \<Longrightarrow> tdata hp a = Some (h_next_hash e, h_hash e, h_key_data e)"
  by (simp add: tdata_def)

lemma find_split:
  "find P xs = None \<Longrightarrow> takeWhile (\<lambda>a. \<not> P a) xs = xs"
  "find P xs = Some b \<Longrightarrow> \<exists>ys. xs = takeWhile (\<lambda>a. \<not> P a) xs @ b # ys"
proof -
  show "find P xs = None \<Longrightarrow> takeWhile (\<lambda>a. \<not> P a) xs = xs" by (auto simp: find_None_iff takeWhile_eq_all_conv)
  show "find P xs = Some b \<Longrightarrow> \<exists>ys. xs = takeWhile (\<lambda>a. \<not> P a) xs @ b # ys" by (induction xs) (auto split: if_splits)
qed

lemma bucket_home:
  assumes "chains_ok d n bl bks" "i < unat n" "bks ! i = pre @ rest" "a \<in> set (pre @ rest)"
  shows "\<exists>m h k. d a = Some (m, h, k) \<and> unat (h AND (n - 1)) = i"
  using assms unfolding chains_ok_def by metis

lemma table_Remove_spec:
  assumes ok: "table_ok hp t bks" and key: "\<And>a. a \<in> set (concat bks) \<Longrightarrow> keyed hp a"
  shows "(table_Remove key hash (hp, t) = Some (None, hp, t) \<and> (\<forall>a \<in> set (concat bks). \<not> matches hp key hash a)) \<or>
    (\<exists>a hp' t' bks'. table_Remove key hash (hp, t) = Some (Some a, hp', t') \<and> a \<in> set (concat bks) \<and> matches hp key hash a \<and>
       table_ok hp' t' bks' \<and> mset (concat bks') = mset (remove1 a (concat bks)) \<and> links_only hp hp' (set (concat bks)))"
proof -
  define i where "i = bucket_of t hash"
  note F = FindPointer_spec [where key = key and hash = hash, OF ok key i_def]
  note B = table_bucket [OF ok, of hash, folded i_def]
  note W = find_whole [OF ok, of key hash, folded i_def]
  let ?pre = "unmatched hp key hash (bks ! i)"
  have c: "chains_ok (tdata hp) (ht_length t) (ht_list t) bks" using ok by (simp add: table_ok_def)
  show ?thesis
  proof (cases "find (matches hp key hash) (bks ! i)")
    case None
    then show ?thesis using F W(1) by (simp add: table_Remove_def)
  next
    case (Some a)
    then obtain rest where b: "bks ! i = ?pre @ a # rest" using find_split(2) [OF Some] by blast
    have a: "a \<in> set (concat bks)" "matches hp key hash a" using W(2) Some by simp_all
    obtain e where e: "hp_obj hp a = Some e" using a(2) by (auto simp: matches_def)
    have "seg (tdata hp) (ht_list t ! i) (?pre @ a # rest) None" using B(4) b by simp
    then have v: "seg (tdata hp) (h_next_hash e) rest None" using tdata_entry [OF e] by (auto simp: seg_append)
    have d: "distinct (?pre @ a # rest)" using B(6) b by simp
    have all: "distinct (concat bks)" using c by (simp add: chains_ok_def)
    have "set rest \<inter> (set (concat bks) - set (a # rest)) = {}" by auto
    moreover have "\<exists>m h k. tdata hp x = Some (m, h, k) \<and> unat (h AND (ht_length t - 1)) = i" if "x \<in> set rest" for x
      using that by (intro bucket_home [OF c B(1) b]) simp
    ultimately obtain hp' bl where w: "write_slot (slot_after (Bucket i) ?pre) (h_next_hash e) (hp, t) = Some (hp', t\<lparr>ht_list := bl\<rparr>)"
      "chains_ok (tdata hp') (ht_length t) bl (bks[i := ?pre @ rest])" "links_only hp hp' (set ?pre)"
      using write_after [OF c B(1) b v] d by fastforce
    define t' where "t' = t\<lparr>ht_list := bl, ht_elems := ht_elems t - 1\<rparr>"
    have "mset (concat (bks[i := ?pre @ rest])) + mset (?pre @ a # rest) = mset (concat bks) + mset (?pre @ rest)"
      using mset_concat_update [of i bks "?pre @ rest"] B(3) b by simp
    then have "add_mset a (mset (concat (bks[i := ?pre @ rest]))) = mset (concat bks)" by simp
    then have m: "mset (concat (bks[i := ?pre @ rest])) = mset (remove1 a (concat bks))" by (metis add_mset_remove_trivial mset_remove1)
    then have l: "length (concat (bks[i := ?pre @ rest])) = length (concat bks) - 1" using a(1) mset_eq_length length_remove1 by metis
    have p: "0 < length (concat bks)" using a(1) by (metis length_pos_if_in_set)
    have "ht_elems t = of_nat (length (concat bks))" "length (concat bks) \<le> unat (ht_length t)" "table_size (ht_length t)"
      using ok by (simp_all add: table_ok_def)
    then have "table_ok hp' t' (bks[i := ?pre @ rest])" using w(2) l p by (cases "length (concat bks)") (simp_all add: table_ok_def t'_def del: length_concat)
    moreover have "table_Remove key hash (hp, t) = Some (Some a, hp', t')" using F Some e w(1) by (simp add: table_Remove_def t'_def)
    moreover have "set ?pre \<subseteq> set (concat bks)" using B(5) by (metis set_takeWhileD subset_eq)
    ultimately show ?thesis using a m links_only_mono [OF w(3)] by blast
  qed
qed

lemma insert_bucket_spec:
  assumes ok: "table_ok hp t bks" and key: "\<And>a. a \<in> set (concat bks) \<Longrightarrow> keyed hp a" and a: "a \<notin> set (concat bks)"
    and e: "hp_obj hp a = Some e"
  defines "i \<equiv> bucket_of t (h_hash e)"
  defines "old \<equiv> find (matches hp (h_key_data e) (h_hash e)) (bks ! i)"
  shows "\<exists>nh hp1 hp2 bl bks'. (case old of None \<Rightarrow> Some None | Some b \<Rightarrow> map_option h_next_hash (hp_obj hp b)) = Some nh \<and>
    modify_entry a (\<lambda>e. e\<lparr>h_next_hash := nh\<rparr>) hp = Some hp1 \<and>
    write_slot (slot_after (Bucket i) (unmatched hp (h_key_data e) (h_hash e) (bks ! i))) (Some a) (hp1, t) = Some (hp2, t\<lparr>ht_list := bl\<rparr>) \<and>
    chains_ok (tdata hp2) (ht_length t) bl bks' \<and> links_only hp hp2 (insert a (set (concat bks))) \<and>
    mset (concat bks') = mset (a # (case old of None \<Rightarrow> concat bks | Some b \<Rightarrow> remove1 b (concat bks)))"
proof -
  let ?pre = "unmatched hp (h_key_data e) (h_hash e) (bks ! i)" and ?n = "ht_length t"
  note B = table_bucket [OF ok, of "h_hash e", folded i_def]
  have c: "chains_ok (tdata hp) ?n (ht_list t) bks" using ok by (simp add: table_ok_def)
  have an: "a \<notin> set (bks ! i)" using a B(5) by blast
  have pre: "set ?pre \<subseteq> set (concat bks)" using B(5) by (metis set_takeWhileD subset_eq)
  obtain rest xs nh where b: "bks ! i = ?pre @ rest" "seg (tdata hp) nh xs None" "set xs \<subseteq> set rest" "distinct xs"
    "(case old of None \<Rightarrow> Some None | Some b \<Rightarrow> map_option h_next_hash (hp_obj hp b)) = Some nh"
    "mset rest = mset (case old of None \<Rightarrow> xs | Some b \<Rightarrow> b # xs)"
  proof (cases old)
    case None
    then have "?pre = bks ! i" unfolding old_def by (rule find_split(1))
    then have "bks ! i = ?pre @ []" unfolding append_Nil2 by (rule sym)
    then show thesis using that [of "[]" None "[]"] None by simp
  next
    case (Some b)
    then obtain xs where xs: "bks ! i = ?pre @ b # xs" using find_split(2) [of "matches hp (h_key_data e) (h_hash e)" "bks ! i" b] by (auto simp: old_def)
    obtain eb where eb: "hp_obj hp b = Some eb"
      using find_whole(2) [OF ok, of "h_key_data e" "h_hash e" b] Some by (auto simp: old_def i_def matches_def)
    have "seg (tdata hp) (ht_list t ! i) (?pre @ b # xs) None" using B(4) xs by simp
    then have "seg (tdata hp) (h_next_hash eb) xs None" using tdata_entry [OF eb] by (auto simp: seg_append)
    moreover have "distinct xs" using B(6) xs by (metis distinct_append distinct.simps(2))
    ultimately show thesis using that [of "b # xs" "h_next_hash eb" xs] xs Some eb by auto
  qed
  obtain hp1 where hp1: "modify_entry a (\<lambda>e. e\<lparr>h_next_hash := nh\<rparr>) hp = Some hp1" "links_only hp hp1 {a}"
    "tdata hp1 = (tdata hp)(a := Some (nh, h_hash e, h_key_data e))" using modify_links [OF e] by blast
  have c1: "chains_ok (tdata hp1) ?n (ht_list t) bks" using hp1(3) a by (intro chains_ok_mono [OF _ c]) auto
  have xa: "a \<notin> set xs" using b(1,3) an by (metis Un_iff set_append subsetD)
  have "seg (tdata hp1) nh xs None \<longleftrightarrow> seg (tdata hp) nh xs None" using hp1(3) xa by (intro seg_cong) auto
  then have s: "seg (tdata hp1) (Some a) (a # xs) None" using b(2) hp1(3) by simp
  have bd: "distinct (?pre @ rest)" "a \<notin> set (?pre @ rest)" using B(6) an b(1) by simp_all
  then have d: "distinct (?pre @ a # xs)" using b(3,4) by auto
  have new: "set (a # xs) \<inter> (set (concat bks) - set rest) = {}" using a b(3) by auto
  have home: "\<exists>m h k. tdata hp1 x = Some (m, h, k) \<and> unat (h AND (?n - 1)) = i" if "x \<in> set (a # xs)" for x
  proof (cases "x = a")
    case True
    then show ?thesis using hp1(3) by (simp add: i_def bucket_of_def)
  next
    case False
    then have "x \<in> set (?pre @ rest)" using that b(3) by auto
    then show ?thesis by (rule bucket_home [OF c1 B(1) b(1)])
  qed
  obtain hp2 bl where w: "write_slot (slot_after (Bucket i) ?pre) (Some a) (hp1, t) = Some (hp2, t\<lparr>ht_list := bl\<rparr>)"
    "chains_ok (tdata hp2) ?n bl (bks[i := ?pre @ a # xs])" "links_only hp1 hp2 (set ?pre)"
    using write_after [OF c1 B(1) b(1) s d new home] by blast
  have "mset (concat (bks[i := ?pre @ a # xs])) + mset (?pre @ rest) = mset (concat bks) + mset (?pre @ a # xs)"
    using mset_concat_update [of i bks "?pre @ a # xs"] B(3) b(1) by simp
  then have m0: "mset (concat (bks[i := ?pre @ a # xs])) + mset rest = add_mset a (mset (concat bks) + mset xs)" by simp
  have "mset (concat (bks[i := ?pre @ a # xs])) = mset (a # (case old of None \<Rightarrow> concat bks | Some b \<Rightarrow> remove1 b (concat bks)))"
  proof (cases old)
    case None
    then show ?thesis using m0 b(6) by simp
  next
    case (Some x)
    then have "x \<in> set rest" using b(6) by (metis list.set_intros(1) mset_eq_setD option.simps(5))
    then have "x \<in># mset (concat bks)" using b(1) B(5) by (metis UnCI set_append set_mset_mset subsetD)
    then obtain M where M: "mset (concat bks) = add_mset x M" by (meson multi_member_split)
    have "mset (concat (bks[i := ?pre @ a # xs])) + add_mset x (mset xs) = add_mset a (add_mset x M + mset xs)"
      using m0 b(6) Some M by simp
    then have "mset (concat (bks[i := ?pre @ a # xs])) = add_mset a M" by simp
    then show ?thesis using Some M by simp
  qed
  moreover have "links_only hp hp2 (insert a (set (concat bks)))" by (rule links_only_trans [OF hp1(2) w(3)]) (use pre in auto)
  ultimately show ?thesis using b(5) hp1(1) w(1,2) by blast
qed

subsection \<open>Resizing\<close>

lemma grow_length_spec:
  assumes "unat n = 2 ^ k" "2 \<le> k" "k \<le> 31" "unat elems \<le> 2 ^ 31"
  shows "\<exists>n'. grow_length elems n = Some n' \<and> table_size n' \<and> unat elems \<le> unat n'"
  using assms
proof (induction "31 - k" arbitrary: n k)
  case 0
  have ts: "table_size n" using 0 unfolding table_size_def by blast
  have "k = 31" using 0 by simp
  then have "\<not> n < elems" using 0 by (simp add: word_less_nat_alt)
  then show ?case using ts by (simp add: grow_length.simps [of elems n] word_less_nat_alt)
next
  case (Suc m)
  show ?case
  proof (cases "n < elems")
    case False
    then show ?thesis using Suc.prems by (auto simp: grow_length.simps [of elems n] table_size_def word_less_nat_alt)
  next
    case True
    have k: "k + 1 \<le> 31" "m = 31 - (k + 1)" "2 \<le> k + 1" using Suc.hyps(2) Suc.prems(2) by linarith+
    have "(2::nat) ^ (k + 1) \<le> 2 ^ 31" using k(1) by (intro power_increasing) simp_all
    then have "unat n * 2 < 2 ^ 32" using Suc.prems(1) by simp
    then have "unat (n * 2) = 2 ^ (k + 1)" using Suc.prems(1) by (simp add: unat_word_ariths)
    from Suc.hyps(1) [OF k(2) this k(3,1) Suc.prems(4)] show ?thesis using True by (simp add: grow_length.simps [of elems n])
  qed
qed

lemma move_chain_spec:
  assumes "seg (tdata hp) h as None" "chains_ok (tdata hp) n nl nb" "table_size n" "distinct as" "set as \<inter> set (concat nb) = {}"
  shows "\<exists>hp' nl' nb'. move_chain n h (hp, nl, moved) = Some (hp', nl', moved + of_nat (length as)) \<and> chains_ok (tdata hp') n nl' nb' \<and>
    mset (concat nb') = mset as + mset (concat nb) \<and> links_only hp hp' (set as)"
  using assms
proof (induction as arbitrary: h hp nl nb moved)
  case Nil
  then show ?case using links_only_refl
    by (intro exI [of _ hp] exI [of _ nl] exI [of _ nb]) (simp add: move_chain.simps [of n None])
next
  case (Cons a as)
  obtain m x where "h = Some a" "tdata hp a = Some (m, x)" "seg (tdata hp) m as None" using Cons.prems(1) by auto
  then obtain e where e: "h = Some a" "hp_obj hp a = Some e" "seg (tdata hp) (h_next_hash e) as None" by (auto simp: tdata_def)
  define i where "i = unat (h_hash e AND (n - 1))"
  have i: "i < unat n" using table_size_index [OF Cons.prems(3)] by (simp add: i_def)
  have l: "length nl = unat n" "length nb = unat n" "seg (tdata hp) (nl ! i) (nb ! i) None" "distinct (concat nb)"
    using Cons.prems(2) i by (simp_all add: chains_ok_def)
  obtain hp1 where hp1: "modify_entry a (\<lambda>e. e\<lparr>h_next_hash := nl ! i\<rparr>) hp = Some hp1" "links_only hp hp1 {a}"
    "tdata hp1 = (tdata hp)(a := Some (nl ! i, h_hash e, h_key_data e))" using modify_links [OF e(2)] by blast
  have an: "a \<notin> set (concat nb)" "a \<notin> set as" using Cons.prems(4,5) by auto
  have bin: "nb ! i \<in> set nb" using i l(2) by simp
  then have anb: "a \<notin> set (nb ! i)" "distinct (nb ! i)" using an(1) l(4) distinct_concat_iff by auto
  have "seg (tdata hp1) (nl ! i) (nb ! i) None \<longleftrightarrow> seg (tdata hp) (nl ! i) (nb ! i) None"
    using hp1(3) anb(1) by (intro seg_cong) auto
  then have s: "seg (tdata hp1) (Some a) (a # nb ! i) None" using l(3) hp1(3) by simp
  have c1: "chains_ok (tdata hp1) n (nl[i := Some a]) (nb[i := a # nb ! i])"
  proof (rule bucket_update [OF Cons.prems(2) i, where A = "{a}", OF _ _ s])
    show "\<exists>m h k. tdata hp1 x = Some (m, h, k) \<and> unat (h AND (n - 1)) = i" if "x \<in> set (a # nb ! i)" for x
    proof (cases "x = a")
      case True
      then show ?thesis using hp1(3) by (simp add: i_def)
    next
      case False
      then have "x \<in> set ([] @ nb ! i)" using that by simp
      then show ?thesis using bucket_home [OF Cons.prems(2) i, of "[]" "nb ! i"] hp1(3) False by simp
    qed
  qed (use hp1(3) an anb in auto)
  have ms: "mset (concat (nb[i := a # nb ! i])) = add_mset a (mset (concat nb))"
    using mset_concat_update [of i nb "a # nb ! i"] i l(2) by simp
  have "set (concat (nb[i := a # nb ! i])) = insert a (set (concat nb))" using ms by (metis set_mset_add_mset_insert set_mset_mset)
  then have dis: "set as \<inter> set (concat (nb[i := a # nb ! i])) = {}" using Cons.prems(5) an(2) by auto
  have "seg (tdata hp1) (h_next_hash e) as None \<longleftrightarrow> seg (tdata hp) (h_next_hash e) as None"
    using hp1(3) an(2) by (intro seg_cong) auto
  then have "seg (tdata hp1) (h_next_hash e) as None" using e(3) by simp
  then obtain hp' nl' nb' where r: "move_chain n (h_next_hash e) (hp1, nl[i := Some a], moved + 1) = Some (hp', nl', moved + 1 + of_nat (length as))"
    "chains_ok (tdata hp') n nl' nb'" "mset (concat nb') = mset as + mset (concat (nb[i := a # nb ! i]))" "links_only hp1 hp' (set as)"
    using Cons.IH [OF _ c1 Cons.prems(3) _ dis] Cons.prems(4) by fastforce
  have "move_chain n h (hp, nl, moved) = Some (hp', nl', moved + of_nat (length (a # as)))"
    using e hp1(1) r(1) i l(1) by (simp add: move_chain.simps [of n "Some a"] i_def [symmetric] ac_simps)
  moreover have "links_only hp hp' (set (a # as))" by (rule links_only_trans [OF hp1(2) r(4)]) auto
  ultimately show ?case using r(2,3) ms by auto
qed

lemma move_chains_spec:
  assumes "list_all2 (\<lambda>h as. seg (tdata hp) h as None) bl bks" "chains_ok (tdata hp) n nl nb" "table_size n" "distinct (concat bks)"
    "set (concat bks) \<inter> set (concat nb) = {}"
  shows "\<exists>hp' nl' nb'. move_chains n bl (hp, nl, moved) = Some (hp', nl', moved + of_nat (length (concat bks))) \<and>
    chains_ok (tdata hp') n nl' nb' \<and> mset (concat nb') = mset (concat bks) + mset (concat nb) \<and> links_only hp hp' (set (concat bks))"
  using assms
proof (induction bks arbitrary: bl hp nl nb moved rule: list.induct)
  case Nil
  have "bl = []" using Nil.prems(1) by (cases bl) simp_all
  then show ?case using Nil links_only_refl by (intro exI [of _ hp] exI [of _ nl] exI [of _ nb]) simp
next
  case (Cons as bks)
  obtain h bl' where bl: "bl = h # bl'" "seg (tdata hp) h as None" "list_all2 (\<lambda>h as. seg (tdata hp) h as None) bl' bks"
    using Cons.prems(1) by (auto simp: list_all2_Cons2)
  have d: "distinct as" "set as \<inter> set (concat nb) = {}" "distinct (concat bks)" "set as \<inter> set (concat bks) = {}"
    "set (concat bks) \<inter> set (concat nb) = {}" using Cons.prems(4,5) by auto
  obtain hp1 nl1 nb1 where 1: "move_chain n h (hp, nl, moved) = Some (hp1, nl1, moved + of_nat (length as))" "chains_ok (tdata hp1) n nl1 nb1"
    "mset (concat nb1) = mset as + mset (concat nb)" "links_only hp hp1 (set as)"
    using move_chain_spec [OF bl(2) Cons.prems(2,3) d(1,2)] by blast
  have s1: "set (concat nb1) = set as \<union> set (concat nb)" using 1(3) by (metis set_mset_mset set_mset_union)
  have same: "tdata hp1 b = tdata hp b" if "b \<notin> set as" for b using 1(4) that by (simp add: links_only_def tdata_def)
  have "list_all2 (\<lambda>h as. seg (tdata hp1) h as None) bl' bks"
  proof (rule list.rel_mono_strong [OF bl(3)])
    fix h' as' assume m: "as' \<in> set bks" "seg (tdata hp) h' as' None"
    have "set as' \<inter> set as = {}" using m(1) d(4) by auto
    then have "tdata hp1 b = tdata hp b" if "b \<in> set as'" for b using that by (intro same) blast
    then have "seg (tdata hp1) h' as' None \<longleftrightarrow> seg (tdata hp) h' as' None" by (intro seg_cong) simp
    then show "seg (tdata hp1) h' as' None" using m(2) by simp
  qed
  moreover have "set (concat bks) \<inter> set (concat nb1) = {}" using s1 d(4,5) by auto
  ultimately obtain hp2 nl2 nb2 where 2: "move_chains n bl' (hp1, nl1, moved + of_nat (length as)) =
      Some (hp2, nl2, moved + of_nat (length as) + of_nat (length (concat bks)))" "chains_ok (tdata hp2) n nl2 nb2"
    "mset (concat nb2) = mset (concat bks) + mset (concat nb1)" "links_only hp1 hp2 (set (concat bks))"
    using Cons.IH [OF _ 1(2) Cons.prems(3) d(3)] by blast
  have "links_only hp hp2 (set (concat (as # bks)))" by (rule links_only_trans [OF 1(4) 2(4)]) auto
  then show ?case using bl(1) 1(1,3) 2(1-3) by (intro exI [of _ hp2] exI [of _ nl2] exI [of _ nb2]) (simp add: ac_simps)
qed

lemma Resize_spec:
  assumes c: "chains_ok (tdata hp) (ht_length t) (ht_list t) bks" and n: "ht_elems t = of_nat (length (concat bks))"
    "length (concat bks) \<le> 2 ^ 31"
  shows "\<exists>hp' t' bks'. Resize (hp, t) = Some (hp', t') \<and> table_ok hp' t' bks' \<and> mset (concat bks') = mset (concat bks) \<and>
    links_only hp hp' (set (concat bks))"
proof -
  have u: "unat (ht_elems t) = length (concat bks)" unfolding n(1) using n(2) by (intro unat_of_nat_id) simp
  have "unat (4 :: u32) = 2 ^ 2" by simp
  then obtain m where m: "grow_length (ht_elems t) 4 = Some m" "table_size m" "unat (ht_elems t) \<le> unat m"
    using grow_length_spec [of 4 2 "ht_elems t"] u n(2) by auto
  let ?k = "unat m"
  have "chains_ok (tdata hp) m (replicate ?k None) (replicate ?k [])" by (simp add: chains_ok_def)
  moreover have "list_all2 (\<lambda>h as. seg (tdata hp) h as None) (ht_list t) bks"
    using c by (simp add: chains_ok_def list_all2_conv_all_nth)
  moreover have "distinct (concat bks)" using c by (simp add: chains_ok_def)
  ultimately obtain hp' nl' nb' where r: "move_chains m (ht_list t) (hp, replicate ?k None, 0) = Some (hp', nl', 0 + of_nat (length (concat bks)))"
    "chains_ok (tdata hp') m nl' nb'" "mset (concat nb') = mset (concat bks) + mset (concat (replicate ?k []))"
    "links_only hp hp' (set (concat bks))"
    using move_chains_spec [of hp "ht_list t" bks m "replicate ?k None" "replicate ?k []" 0] m(2) by (auto simp del: length_concat)
  have ms: "mset (concat nb') = mset (concat bks)" using r(3) by simp
  then have "length (concat nb') = length (concat bks)" by (rule mset_eq_length)
  then have "table_ok hp' (t\<lparr>ht_list := nl', ht_length := m\<rparr>) nb'" using m(2,3) r(2) n u by (simp add: table_ok_def)
  moreover have "Resize (hp, t) = Some (hp', t\<lparr>ht_list := nl', ht_length := m\<rparr>)" using m(1) r(1) n(1) by (simp add: Resize_def)
  ultimately show ?thesis using ms r(4) by blast
qed

lemma HandleTable_spec: "\<exists>hp' t bks. HandleTable hp = Some (hp', t) \<and> table_ok hp' t bks \<and> concat bks = [] \<and> links_only hp hp' {}"
  using Resize_spec [of hp "\<lparr>ht_length = 0, ht_elems = 0, ht_list = []\<rparr>" "[]"]
  by (auto simp: HandleTable_def chains_ok_def)

lemma table_Insert_spec:
  assumes ok: "table_ok hp t bks" and key: "\<And>b. b \<in> insert a (set (concat bks)) \<Longrightarrow> keyed hp b" and a: "a \<notin> set (concat bks)"
    and e: "hp_obj hp a = Some e" and small: "length (concat bks) < 2 ^ 31"
  shows "\<exists>old hp' t' bks'. table_Insert a (hp, t) = Some (old, hp', t') \<and> table_ok hp' t' bks' \<and>
    links_only hp hp' (insert a (set (concat bks))) \<and>
    (case old of
       None \<Rightarrow> (\<forall>b \<in> set (concat bks). \<not> matches hp (h_key_data e) (h_hash e) b) \<and> mset (concat bks') = mset (a # concat bks)
     | Some b \<Rightarrow> b \<in> set (concat bks) \<and> matches hp (h_key_data e) (h_hash e) b \<and> mset (concat bks') = mset (a # remove1 b (concat bks)))"
proof -
  let ?i = "bucket_of t (h_hash e)"
  define old where "old = find (matches hp (h_key_data e) (h_hash e)) (bks ! ?i)"
  have k: "\<And>b. b \<in> set (concat bks) \<Longrightarrow> keyed hp b" using key by blast
  note F = FindPointer_spec [where key = "h_key_data e" and hash = "h_hash e", OF ok k refl, folded old_def]
  note W = find_whole [OF ok, of "h_key_data e" "h_hash e", folded old_def]
  have ka: "handle_key a hp = Some (h_key_data e)" using key [of a] e by (auto simp: keyed_def)
  obtain nh hp1 hp2 bl bks' where b: "(case old of None \<Rightarrow> Some None | Some b \<Rightarrow> map_option h_next_hash (hp_obj hp b)) = Some nh"
    "modify_entry a (\<lambda>e. e\<lparr>h_next_hash := nh\<rparr>) hp = Some hp1"
    "write_slot (slot_after (Bucket ?i) (unmatched hp (h_key_data e) (h_hash e) (bks ! ?i))) (Some a) (hp1, t) = Some (hp2, t\<lparr>ht_list := bl\<rparr>)"
    "chains_ok (tdata hp2) (ht_length t) bl bks'" "links_only hp hp2 (insert a (set (concat bks)))"
    "mset (concat bks') = mset (a # (case old of None \<Rightarrow> concat bks | Some b \<Rightarrow> remove1 b (concat bks)))"
    using insert_bucket_spec [OF ok k a e, folded old_def] by blast
  have o: "ht_elems t = of_nat (length (concat bks))" "length (concat bks) \<le> unat (ht_length t)" "table_size (ht_length t)"
    using ok by (simp_all add: table_ok_def)
  show ?thesis
  proof (cases old)
    case (Some x)
    then have x: "x \<in> set (concat bks)" "matches hp (h_key_data e) (h_hash e) x" using W(2) by blast+
    obtain eb where eb: "hp_obj hp x = Some eb" "h_next_hash eb = nh" using b(1) Some by auto
    have m: "mset (concat bks') = mset (a # remove1 x (concat bks))" using b(6) Some by simp
    have "length (concat bks') = length (a # remove1 x (concat bks))" using m by (rule mset_eq_length)
    also have "\<dots> = length (concat bks)" using x(1) length_pos_if_in_set [OF x(1)] by (simp add: length_remove1 del: length_concat set_concat)
    finally have "table_ok hp2 (t\<lparr>ht_list := bl\<rparr>) bks'" using b(4) o by (simp add: table_ok_def)
    moreover have "table_Insert a (hp, t) = Some (old, hp2, t\<lparr>ht_list := bl\<rparr>)"
      using e ka F b(2,3) Some eb by (simp add: table_Insert_def)
    ultimately show ?thesis using b(5) m x Some by (intro exI [of _ old] exI [of _ hp2] exI [of _ "t\<lparr>ht_list := bl\<rparr>"] exI [of _ bks']) simp
  next
    case None
    then have x: "\<forall>b \<in> set (concat bks). \<not> matches hp (h_key_data e) (h_hash e) b" using W(1) by blast
    have m: "mset (concat bks') = mset (a # concat bks)" using b(6) None by simp
    then have l: "length (concat bks') = Suc (length (concat bks))" using mset_eq_length by (metis length_Cons)
    let ?t = "t\<lparr>ht_list := bl, ht_elems := ht_elems t + 1\<rparr>"
    have el: "ht_elems ?t = of_nat (length (concat bks'))" using o(1) l by simp
    have le: "length (concat bks') \<le> 2 ^ 31" using l small by simp
    have u: "unat (ht_elems ?t) = length (concat bks')" unfolding el using le by (intro unat_of_nat_id) simp
    have "\<exists>hp' t' bks''. (if ht_length ?t < ht_elems ?t then Resize (hp2, ?t) else Some (hp2, ?t)) = Some (hp', t') \<and> table_ok hp' t' bks'' \<and>
        mset (concat bks'') = mset (concat bks') \<and> links_only hp2 hp' (set (concat bks'))"
    proof (cases "ht_length ?t < ht_elems ?t")
      case True
      then show ?thesis using Resize_spec [of hp2 ?t bks'] b(4) el le by simp
    next
      case False
      then have "length (concat bks') \<le> unat (ht_length t)" using u by (simp add: word_less_nat_alt not_less)
      then have "table_ok hp2 ?t bks'" using b(4) el o(3) by (simp add: table_ok_def)
      then show ?thesis using False links_only_refl by (intro exI [of _ hp2] exI [of _ ?t] exI [of _ bks']) simp
    qed
    then obtain hp' t' bks'' where r: "(if ht_length ?t < ht_elems ?t then Resize (hp2, ?t) else Some (hp2, ?t)) = Some (hp', t')"
      "table_ok hp' t' bks''" "mset (concat bks'') = mset (concat bks')" "links_only hp2 hp' (set (concat bks'))" by blast
    have "table_Insert a (hp, t) = Some (old, hp', t')" using e ka F b(1-3) None r(1) by (simp add: table_Insert_def split: if_splits)
    moreover have "set (concat bks') = insert a (set (concat bks))" using m by (metis list.set(2) mset_eq_setD)
    then have "links_only hp hp' (insert a (set (concat bks)))" using links_only_trans [OF b(5) r(4)] by blast
    ultimately show ?thesis using r(2,3) m x None by (intro exI [of _ old] exI [of _ hp'] exI [of _ t'] exI [of _ bks'']) simp
  qed
qed

end
