(* ===== verification/Lv_Cache_Shard.thy ===== *)
theory Lv_Cache_Shard
  imports Lv_Cache_Refs Lv_Cache_Table
begin

section \<open>A shard of the LRU cache\<close>

text \<open>
  The invariant of a shard: its lists, its table, and what is in them. Looking up, releasing, inserting, erasing and pruning
  keep it, do what they promise to the two lists, and do not touch the entries of other shards.
\<close>

subsection \<open>The invariant\<close>

text \<open>What never changes in an entry.\<close>

definition core :: "'v lru_handle \<Rightarrow> slice \<times> 'v \<times> u64 \<times> u32 \<times> nat" where
  "core e = (h_key_data e, h_value e, h_charge e, h_hash e, h_deleter e)"

definition cores :: "'v lru \<Rightarrow> nat \<Rightarrow> (slice \<times> 'v \<times> u64 \<times> u32 \<times> nat) option" where
  "cores s a = map_option core (hp_obj (fst s) a)"

definition key_of :: "'v lru \<Rightarrow> nat \<Rightarrow> slice option" where "key_of s a = map_option fst (cores s a)"

definition charge_of :: "'v lru \<Rightarrow> nat \<Rightarrow> nat" where
  "charge_of s a = (case cores s a of None \<Rightarrow> 0 | Some (k, v, c, h, d) \<Rightarrow> unat c)"

definition total :: "'v lru \<Rightarrow> nat list \<Rightarrow> nat" where "total s as = sum_list (map (charge_of s) as)"

definition core_ok :: "(slice \<Rightarrow> 'v \<Rightarrow> bool) \<Rightarrow> slice \<times> 'v \<times> u64 \<times> u32 \<times> nat \<Rightarrow> bool" where
  "core_ok good x = (case x of (k, v, c, h, d) \<Rightarrow> h = HashSlice k \<and> good k v \<and> 0 < c \<and> unat c < 2 ^ 32)"

definition core_mine :: "(u32 \<Rightarrow> bool) \<Rightarrow> slice \<times> 'v \<times> u64 \<times> u32 \<times> nat \<Rightarrow> bool" where
  "core_mine mine x = (case x of (k, v, c, h, d) \<Rightarrow> mine h)"

definition shard_inv :: "(u32 \<Rightarrow> bool) \<Rightarrow> (slice \<Rightarrow> 'v \<Rightarrow> bool) \<Rightarrow> nat multiset \<Rightarrow> nat list \<Rightarrow> nat list \<Rightarrow> 'v lru \<Rightarrow> bool" where
  "shard_inv mine good T lru use s \<longleftrightarrow> lists_inv mine T lru use s \<and>
     (\<exists>bks. table_ok (fst s) (lc_table (snd s)) bks \<and> mset (concat bks) = mset (lru @ use)) \<and>
     (\<forall>a x. cores s a = Some x \<longrightarrow> core_mine mine x \<longrightarrow> core_ok good x) \<and> inj_on (key_of s) (set (lru @ use)) \<and>
     unat (lc_usage (snd s)) = total s (lru @ use) \<and>
     0 < lc_capacity (snd s) \<and> (\<forall>a \<ge> hp_fresh (fst s). hp_obj (fst s) a = None)"

text \<open>Entries of other shards are the same.\<close>

definition frame :: "(u32 \<Rightarrow> bool) \<Rightarrow> 'v lru \<Rightarrow> 'v lru \<Rightarrow> bool" where
  "frame mine s s' \<longleftrightarrow> (\<forall>b e. \<not> mine (h_hash e) \<longrightarrow> hp_obj (fst s') b = Some e \<longleftrightarrow> hp_obj (fst s) b = Some e) \<and>
     lc_capacity (snd s') = lc_capacity (snd s) \<and> hp_fresh (fst s) \<le> hp_fresh (fst s')"

lemma frame_refl: "frame mine s s" by (simp add: frame_def)

lemma frame_trans: "frame mine s1 s2 \<Longrightarrow> frame mine s2 s3 \<Longrightarrow> frame mine s1 s3"
  unfolding frame_def by (metis order_trans)

lemma frameI:
  fixes s s' :: "'v lru"
  assumes "\<And>b. b \<notin> A \<Longrightarrow> hp_obj (fst s') b = hp_obj (fst s) b" "\<And>b e. b \<in> A \<Longrightarrow> hp_obj (fst s) b = Some e \<Longrightarrow> mine (h_hash e)"
    "\<And>b e. b \<in> A \<Longrightarrow> hp_obj (fst s') b = Some e \<Longrightarrow> mine (h_hash e)"
    "lc_capacity (snd s') = lc_capacity (snd s)" "hp_fresh (fst s) \<le> hp_fresh (fst s')"
  shows "frame mine s s'"
  unfolding frame_def
proof (intro conjI allI impI)
  fix b and e :: "'v lru_handle" assume "\<not> mine (h_hash e)"
  then show "hp_obj (fst s') b = Some e \<longleftrightarrow> hp_obj (fst s) b = Some e" using assms(1-3) [of b] by (cases "b \<in> A") auto
qed (use assms(4,5) in auto)

lemma cores_data: "cores s a = map_option core (data s a)"
  by (cases "hp_obj (fst s) a") (simp_all add: cores_def data_def core_def)

lemma tdata_data: "tdata (fst s) a = map_option (\<lambda>e. (h_next_hash e, h_hash e, h_key_data e)) (data s a)"
  by (cases "hp_obj (fst s) a") (simp_all add: tdata_def data_def)

lemma readable_keyed: "readable s a \<Longrightarrow> data s a \<noteq> None \<Longrightarrow> keyed (fst s) a"
proof -
  assume r: "readable s a" "data s a \<noteq> None"
  obtain hp c where s: "s = (hp, c)" by (cases s)
  obtain e where "hp_obj hp a = Some e" using r(2) by (cases "hp_obj hp a") (auto simp: data_def s)
  then show ?thesis using r(1) by (auto simp: readable_def keyed_def handle_key_def s)
qed

lemma shard_invD:
  assumes "shard_inv mine good T lru use s"
  shows "lists_inv mine T lru use s" "distinct (lru @ use)" "0 < lc_capacity (snd s)" "unat (lc_usage (snd s)) = total s (lru @ use)"
    "a \<in> set lru \<union> set use \<Longrightarrow> keyed (fst s) a"
    "a \<in> set lru \<union> set use \<Longrightarrow> \<exists>e. data s a = Some e \<and> mine (h_hash e) \<and> core_ok good (core e)"
    "\<exists>bks. table_ok (fst s) (lc_table (snd s)) bks \<and> mset (concat bks) = mset (lru @ use)"
    "inj_on (key_of s) (set (lru @ use))"
proof -
  show l: "lists_inv mine T lru use s" and "0 < lc_capacity (snd s)" "unat (lc_usage (snd s)) = total s (lru @ use)"
    "\<exists>bks. table_ok (fst s) (lc_table (snd s)) bks \<and> mset (concat bks) = mset (lru @ use)" "inj_on (key_of s) (set (lru @ use))"
    using assms by (simp_all add: shard_inv_def)
  show "distinct (lru @ use)" using l by (simp add: lists_inv_def)
  assume "a \<in> set lru \<union> set use"
  then obtain e where e: "data s a = Some e" "mine (h_hash e)" using l unfolding lists_inv_def by blast
  then have "readable s a" using l unfolding lists_inv_def by blast
  then show "keyed (fst s) a" using e by (intro readable_keyed) simp_all
  have "cores s a = Some (core e)" "core_mine mine (core e)" using e by (simp_all add: cores_data core_mine_def core_def)
  then have "core_ok good (core e)" using assms unfolding shard_inv_def by blast
  then show "\<exists>e. data s a = Some e \<and> mine (h_hash e) \<and> core_ok good (core e)" using e by blast
qed

lemma key_of_data: "data s a = Some e \<Longrightarrow> key_of s a = Some (h_key_data e)"
  by (simp add: key_of_def cores_data core_def)

lemma matches_data: "matches (fst s) key hash a \<longleftrightarrow> (\<exists>e. data s a = Some e \<and> h_hash e = hash \<and> h_key_data e = key)"
  by (cases "hp_obj (fst s) a") (simp_all add: matches_def data_def)

lemma matches_key:
  assumes "shard_inv mine good T lru use s" "a \<in> set lru \<union> set use"
  shows "matches (fst s) key (HashSlice key) a \<longleftrightarrow> key_of s a = Some key"
proof -
  obtain e where e: "data s a = Some e" "core_ok good (core e)" using shard_invD(6) [OF assms] by blast
  have "h_hash e = HashSlice (h_key_data e)" using e(2) by (simp add: core_ok_def core_def)
  then show ?thesis using e(1) key_of_data [OF e(1)] by (auto simp: matches_data)
qed

text \<open>Only the counts of one entry change, or it goes away.\<close>

lemma shard_inv_counts:
  assumes inv: "shard_inv mine good T lru use s" and l: "lists_inv mine T' lru' use' s'" and m: "mset (lru' @ use') = mset (lru @ use)"
    and d: "data s' = (data s)(a := d')" "data s a = Some e"
      "d' = None \<and> a \<notin> set lru \<union> set use \<or> (\<exists>n i. d' = Some (e\<lparr>h_refs := n, h_in_cache := i\<rparr>))"
    and r: "same_shard A s s'"
  shows "shard_inv mine good T' lru' use' s'"
proof -
  have sets: "set (lru' @ use') = set (lru @ use)" using m by (rule mset_eq_setD)
  have c: "cores s' b = cores s b \<or> cores s' b = None \<and> b \<notin> set (lru @ use)" for b
    using d by (cases "b = a") (auto simp: cores_data core_def)
  have t: "tdata (fst s') b = tdata (fst s) b" if "b \<in> set (lru @ use)" for b
    using d that by (cases "b = a") (auto simp: tdata_data)
  obtain bks where b: "table_ok (fst s) (lc_table (snd s)) bks" "mset (concat bks) = mset (lru @ use)" using shard_invD(7) [OF inv] by blast
  have "set (concat bks) = set (lru @ use)" using b(2) by (rule mset_eq_setD)
  then have ct: "chains_ok (tdata (fst s')) (ht_length (lc_table (snd s))) (ht_list (lc_table (snd s))) bks"
    using b(1) t by (intro chains_ok_mono [of bks "tdata (fst s')" "tdata (fst s)"]) (auto simp: table_ok_def)
  then have "table_ok (fst s') (lc_table (snd s')) bks" using b(1) r by (simp add: table_ok_def same_shard_def)
  moreover have "core_ok good x" if "cores s' b = Some x" "core_mine mine x" for b x
  proof -
    have "cores s b = Some x" using c [of b] that(1) by auto
    then show ?thesis using inv that(2) unfolding shard_inv_def by blast
  qed
  moreover have k: "key_of s' b = key_of s b" "charge_of s' b = charge_of s b" if "b \<in> set (lru @ use)" for b
  proof -
    have "cores s' b = cores s b" using c [of b] that by blast
    then show "key_of s' b = key_of s b" "charge_of s' b = charge_of s b" by (simp_all add: key_of_def charge_of_def)
  qed
  moreover have "inj_on (key_of s') (set (lru' @ use'))"
    unfolding sets using shard_invD(8) [OF inv] k(1) by (subst inj_on_cong) auto
  moreover have "total s' (lru' @ use') = total s (lru @ use)"
  proof -
    have "map (charge_of s') (lru' @ use') = map (charge_of s) (lru' @ use')" using k(2) unfolding sets [symmetric] by (intro map_cong) simp_all
    then have "total s' (lru' @ use') = sum_mset (image_mset (charge_of s) (mset (lru' @ use')))"
      unfolding total_def by (metis mset_map sum_mset_sum_list)
    then show ?thesis unfolding m total_def by (metis mset_map sum_mset_sum_list)
  qed
  moreover have "hp_obj (fst s') b = None" if "hp_fresh (fst s') \<le> b" for b
  proof -
    have "hp_obj (fst s) b = None" using inv r that unfolding shard_inv_def same_shard_def by auto
    then have "cores s b = None" by (simp add: cores_def)
    then have "cores s' b = None" using c [of b] by auto
    then show ?thesis by (simp add: cores_def)
  qed
  ultimately show ?thesis using l m b(2) shard_invD(3,4) [OF inv] r unfolding shard_inv_def same_shard_def by auto
qed

lemma counts_frame:
  assumes inv: "shard_inv mine good T lru use s" and m: "mine (h_hash e)"
    and d: "data s' = (data s)(a := d')" "data s a = Some e" "d' = None \<or> (\<exists>n i. d' = Some (e\<lparr>h_refs := n, h_in_cache := i\<rparr>))"
    and r: "same_shard (insert a (set lru \<union> set use)) s s'"
  shows "frame mine s s'"
proof (rule frameI [where A = "insert a (set lru \<union> set use)"])
  have old: "mine (h_hash f)" if "b \<in> insert a (set lru \<union> set use)" "data s b = Some f" for b f
  proof (cases "b = a")
    case False
    then show ?thesis using that shard_invD(6) [OF inv, of b] by auto
  qed (use that d(2) m in simp)
  show "mine (h_hash f)" if "b \<in> insert a (set lru \<union> set use)" "hp_obj (fst s) b = Some f" for b f
    using old [OF that(1) obj_data [OF that(2)]] by simp
  show "mine (h_hash f)" if h: "b \<in> insert a (set lru \<union> set use)" "hp_obj (fst s') b = Some f" for b f
  proof (cases "b = a")
    case True
    then obtain n i where "blank f = e\<lparr>h_refs := n, h_in_cache := i\<rparr>" using obj_data [OF h(2)] d(1,3) by auto
    then have "h_hash (blank f) = h_hash e" by simp
    then show ?thesis using m by simp
  next
    case False
    then show ?thesis using obj_data [OF h(2)] d(1) old [OF h(1), of "blank f"] by simp
  qed
qed (use r in \<open>auto simp: same_shard_def\<close>)

subsection \<open>Looking up and releasing\<close>

lemma shard_Lookup_spec:
  assumes inv: "shard_inv mine good T lru use s" and room: "size T < 2 ^ 30"
  shows "(shard_Lookup key (HashSlice key) s = Some (None, s) \<and> (\<forall>a \<in> set (lru @ use). key_of s a \<noteq> Some key)) \<or>
    (\<exists>a s'. shard_Lookup key (HashSlice key) s = Some (Some a, s') \<and> a \<in> set (lru @ use) \<and> key_of s a = Some key \<and>
       shard_inv mine good (add_mset a T) (remove1 a lru) (if a \<in> set lru then use @ [a] else use) s' \<and> frame mine s s' \<and>
       cores s' = cores s \<and> hp_deleted (fst s') = hp_deleted (fst s))"
proof -
  obtain bks where b: "table_ok (fst s) (lc_table (snd s)) bks" "mset (concat bks) = mset (lru @ use)" using shard_invD(7) [OF inv] by blast
  have sets: "set (concat bks) = set (lru @ use)" using b(2) by (rule mset_eq_setD)
  have "\<And>a. a \<in> set (concat bks) \<Longrightarrow> keyed (fst s) a" unfolding sets using shard_invD(5) [OF inv] by simp
  from table_Lookup_spec [OF b(1) this, of key "HashSlice key"]
  obtain r where r: "table_Lookup key (HashSlice key) (fst s, lc_table (snd s)) = Some r"
    "case r of None \<Rightarrow> \<forall>a \<in> set (lru @ use). \<not> matches (fst s) key (HashSlice key) a
      | Some a \<Rightarrow> a \<in> set (lru @ use) \<and> matches (fst s) key (HashSlice key) a" unfolding sets by blast
  show ?thesis
  proof (cases r)
    case None
    then show ?thesis using r matches_key [OF inv, of _ key] by (simp add: shard_Lookup_def)
  next
    case (Some a)
    then have a: "a \<in> set (lru @ use)" "key_of s a = Some key" using r(2) matches_key [OF inv, of a key] by simp_all
    obtain e where e: "data s a = Some e" "mine (h_hash e)" using shard_invD(6) [OF inv, of a] a(1) by auto
    obtain s' where s': "Ref a s = Some s'" "lists_inv mine (add_mset a T) (remove1 a lru) (if a \<in> set lru then use @ [a] else use) s'"
      "data s' = (data s)(a := Some (e\<lparr>h_refs := h_refs e + 1\<rparr>))" "same_rest (insert a (set lru \<union> set use)) s s'"
      using Ref_spec [OF shard_invD(1) [OF inv] e room] by blast
    have d: "\<exists>n i. Some (e\<lparr>h_refs := h_refs e + 1\<rparr>) = Some (e\<lparr>h_refs := n, h_in_cache := i\<rparr>)"
      by (intro exI [of _ "h_refs e + 1"] exI [of _ "h_in_cache e"]) simp
    have m: "mset (remove1 a lru @ (if a \<in> set lru then use @ [a] else use)) = mset (lru @ use)" by (simp add: remove1_idem)
    have "shard_inv mine good (add_mset a T) (remove1 a lru) (if a \<in> set lru then use @ [a] else use) s'"
      using shard_inv_counts [OF inv s'(2) m s'(3) e(1)] d same_restD(1) [OF s'(4)] by blast
    moreover have "frame mine s s'" using counts_frame [OF inv e(2) s'(3) e(1)] d same_restD(1) [OF s'(4)] by blast
    moreover have "cores s' = cores s" using s'(3) e(1) by (auto simp: cores_data core_def)
    ultimately show ?thesis using r(1) Some s'(1) a same_restD(2) [OF s'(4)] by (intro disjI2 exI [of _ a] exI [of _ s']) (simp add: shard_Lookup_def)
  qed
qed

lemma shard_Release_spec:
  assumes inv: "shard_inv mine good (add_mset a T) lru use s" and e: "data s a = Some e" "mine (h_hash e)" and room: "size T < 2 ^ 30"
  defines "kept \<equiv> a \<in> set use \<or> a \<in># T"
  shows "\<exists>s'. shard_Release a s = Some s' \<and>
    shard_inv mine good T (if a \<in> set use \<and> a \<notin># T then lru @ [a] else lru) (if a \<notin># T then remove1 a use else use) s' \<and> frame mine s s' \<and>
    cores s' = (cores s)(a := if kept then cores s a else None) \<and>
    hp_deleted (fst s') = hp_deleted (fst s) @ (if kept then [] else [deletion e])"
proof -
  let ?lru = "if a \<in> set use \<and> a \<notin># T then lru @ [a] else lru" and ?use = "if a \<notin># T then remove1 a use else use"
  let ?d = "if kept then Some (e\<lparr>h_refs := h_refs e - 1\<rparr>) else None"
  obtain s' where s': "Unref a s = Some s'" "lists_inv mine T ?lru ?use s'" "data s' = (data s)(a := ?d)"
    "same_shard (insert a (set lru \<union> set use)) s s'" "hp_deleted (fst s') = hp_deleted (fst s) @ (if kept then [] else [deletion e])"
    using Unref_spec [OF shard_invD(1) [OF inv] e room] unfolding kept_def by blast
  have "entry_ok (add_mset a T) lru use a e" using shard_invD(1) [OF inv] e unfolding lists_inv_def by blast
  then have nl: "a \<notin> set lru" by (simp add: entry_ok_def)
  have "\<exists>n i. e\<lparr>h_refs := h_refs e - 1\<rparr> = e\<lparr>h_refs := n, h_in_cache := i\<rparr>"
    by (intro exI [of _ "h_refs e - 1"] exI [of _ "h_in_cache e"]) simp
  then have d: "?d = None \<and> a \<notin> set lru \<union> set use \<or> (\<exists>n i. ?d = Some (e\<lparr>h_refs := n, h_in_cache := i\<rparr>))"
    using nl by (auto simp: kept_def)
  have m: "mset (?lru @ ?use) = mset (lru @ use)" by (auto simp: remove1_idem)
  have "shard_inv mine good T ?lru ?use s'" by (rule shard_inv_counts [OF inv s'(2) m s'(3) e(1) d s'(4)])
  moreover have "frame mine s s'" using counts_frame [OF inv e(2) s'(3) e(1) _ s'(4)] d by blast
  moreover have "cores s' = (cores s)(a := if kept then cores s a else None)" using s'(3) e(1) by (auto simp: cores_data core_def)
  ultimately show ?thesis using s'(1,5) unfolding shard_Release_def by blast
qed

subsection \<open>Leaving the cache\<close>

text \<open>The invariant without the table.\<close>

definition base :: "(u32 \<Rightarrow> bool) \<Rightarrow> (slice \<Rightarrow> 'v \<Rightarrow> bool) \<Rightarrow> nat multiset \<Rightarrow> nat list \<Rightarrow> nat list \<Rightarrow> 'v lru \<Rightarrow> bool" where
  "base mine good T lru use s \<longleftrightarrow> lists_inv mine T lru use s \<and> (\<forall>a x. cores s a = Some x \<longrightarrow> core_mine mine x \<longrightarrow> core_ok good x) \<and>
     unat (lc_usage (snd s)) = total s (lru @ use) \<and> 0 < lc_capacity (snd s) \<and> (\<forall>a \<ge> hp_fresh (fst s). hp_obj (fst s) a = None)"

definition tabled :: "nat list \<Rightarrow> 'v lru \<Rightarrow> bool" where
  "tabled as s \<longleftrightarrow> (\<exists>bks. table_ok (fst s) (lc_table (snd s)) bks \<and> mset (concat bks) = mset as) \<and> inj_on (key_of s) (set as)"

lemma shard_inv_base: "shard_inv mine good T lru use s \<longleftrightarrow> base mine good T lru use s \<and> tabled (lru @ use) s"
  unfolding shard_inv_def base_def tabled_def by blast

lemma base_entry:
  assumes "base mine good T lru use s" "a \<in> set lru \<union> set use"
  shows "\<exists>e. data s a = Some e \<and> mine (h_hash e) \<and> core_ok good (core e) \<and> keyed (fst s) a \<and> entry_ok T lru use a e"
proof -
  have l: "lists_inv mine T lru use s" using assms(1) by (simp add: base_def)
  obtain e where e: "data s a = Some e" "mine (h_hash e)" using l assms(2) unfolding lists_inv_def by blast
  then have "readable s a" "entry_ok T lru use a e" using l unfolding lists_inv_def by blast+
  moreover have "cores s a = Some (core e)" "core_mine mine (core e)" using e by (simp_all add: cores_data core_mine_def core_def)
  then have "core_ok good (core e)" using assms(1) unfolding base_def by blast
  ultimately show ?thesis using e by (auto intro: readable_keyed)
qed

lemma remove1_both: "distinct (lru @ use) \<Longrightarrow> remove1 a lru @ remove1 a use = remove1 a (lru @ use)"
proof (cases "a \<in> set lru")
  case True
  assume "distinct (lru @ use)"
  then have "a \<notin> set use" using True by auto
  then show ?thesis using True by (simp add: remove1_append remove1_idem)
qed (simp add: remove1_append remove1_idem)

text \<open>A change of the table's links.\<close>

lemma links_views:
  assumes "links_only (fst s) hp' A" "s' = (hp', (snd s)\<lparr>lc_table := t'\<rparr>)"
  shows "nexts s' = nexts s" "prevs_of s' = prevs_of s" "\<exists>n. data s' a = map_option (\<lambda>e. e\<lparr>h_next_hash := n\<rparr>) (data s a)" "cores s' = cores s"
proof -
  obtain hp c where s: "s = (hp, c)" by (cases s)
  have o: "\<exists>n. hp_obj hp' b = map_option (\<lambda>e. e\<lparr>h_next_hash := n\<rparr>) (hp_obj hp b)" for b
    using assms(1) unfolding links_only_def s by simp
  have "get_next x s' = get_next x s" "get_prev x s' = get_prev x s" for x
  proof -
    have "get_next (Entry b) s' = get_next (Entry b) s \<and> get_prev (Entry b) s' = get_prev (Entry b) s" for b
      using o [of b] by (cases "hp_obj hp b") (auto simp: s assms(2))
    then show "get_next x s' = get_next x s" "get_prev x s' = get_prev x s" by (cases x; simp add: s assms(2))+
  qed
  then show "nexts s' = nexts s" "prevs_of s' = prevs_of s" by auto
  have d: "\<exists>n. data s' b = map_option (\<lambda>e. e\<lparr>h_next_hash := n\<rparr>) (data s b)" for b
  proof -
    obtain n where "hp_obj hp' b = map_option (\<lambda>e. e\<lparr>h_next_hash := n\<rparr>) (hp_obj hp b)" using o by blast
    then show ?thesis by (intro exI [of _ n]) (cases "hp_obj hp b"; simp add: data_def s assms(2) blank_def)
  qed
  then show "\<exists>n. data s' a = map_option (\<lambda>e. e\<lparr>h_next_hash := n\<rparr>) (data s a)" .
  have "cores s' b = cores s b" for b
  proof -
    obtain n where "data s' b = map_option (\<lambda>e. e\<lparr>h_next_hash := n\<rparr>) (data s b)" using d by blast
    then show ?thesis by (cases "data s b") (simp_all add: cores_data core_def)
  qed
  then show "cores s' = cores s" by auto
qed

lemma total_cong: "cores s' = cores s \<Longrightarrow> total s' as = total s as"
proof -
  assume "cores s' = cores s"
  then have "charge_of s' = charge_of s" by (simp add: charge_of_def fun_eq_iff)
  then show ?thesis by (simp add: total_def)
qed

lemma key_cong: "cores s' = cores s \<Longrightarrow> key_of s' = key_of s"
  by (simp add: key_of_def fun_eq_iff)

lemma links_base:
  assumes inv: "base mine good T lru use s" and l: "links_only (fst s) hp' A" and s': "s' = (hp', (snd s)\<lparr>lc_table := t'\<rparr>)"
  shows "base mine good T lru use s'"
proof -
  note v = links_views [OF l s']
  have L: "rings lru use s" "set lru \<union> set use \<subseteq> mine_of mine s" "\<forall>a e. data s a = Some e \<longrightarrow> mine (h_hash e) \<longrightarrow> entry_ok T lru use a e"
    "\<forall>a \<in> mine_of mine s. readable s a" using inv by (simp_all add: base_def lists_inv_iff)
  have d: "\<exists>e0 n. data s a = Some e0 \<and> e = e0\<lparr>h_next_hash := n\<rparr>" if "data s' a = Some e" for a e using v(3) [of a] that by (cases "data s a") auto
  have S: "mine_of mine s' = mine_of mine s"
  proof -
    have "(\<exists>e. data s' a = Some e \<and> mine (h_hash e)) \<longleftrightarrow> (\<exists>e. data s a = Some e \<and> mine (h_hash e))" for a
      using v(3) [of a] by (cases "data s a") auto
    then show ?thesis by (simp add: mine_of_def)
  qed
  have "entry_ok T lru use a e" if h: "data s' a = Some e" "mine (h_hash e)" for a e
  proof -
    obtain e0 n where e0: "data s a = Some e0" "e = e0\<lparr>h_next_hash := n\<rparr>" using d [OF h(1)] by blast
    then have "entry_ok T lru use a e0" using L(3) h(2) by simp
    then show ?thesis by (simp add: entry_ok_def e0(2))
  qed
  then have "lists_inv mine T lru use s'"
    using L S rings_cong [OF v(1,2)] readable_cong [OF v(1)] by (simp add: lists_inv_iff)
  moreover have "hp_obj (fst s') a = None" if "hp_fresh (fst s') \<le> a" for a
  proof -
    have "hp_obj (fst s) a = None" using inv l s' that by (simp add: base_def links_only_def)
    then have "cores s a = None" by (simp add: cores_def)
    then have "cores s' a = None" using v(4) by simp
    then show ?thesis by (simp add: cores_def)
  qed
  ultimately show ?thesis using inv v(4) total_cong [OF v(4)] s' unfolding base_def by simp
qed

lemma links_frame:
  assumes inv: "base mine good T lru use s" and l: "links_only (fst s) hp' A" "A \<subseteq> set lru \<union> set use" and s': "s' = (hp', (snd s)\<lparr>lc_table := t'\<rparr>)"
  shows "frame mine s s'"
proof (rule frameI [where A = "set lru \<union> set use"])
  fix b e assume b: "b \<in> set lru \<union> set use"
  show m: "mine (h_hash e)" if "hp_obj (fst s) b = Some e"
    using base_entry [OF inv b] obj_data [OF that] by auto
  show "mine (h_hash e)" if h: "hp_obj (fst s') b = Some e"
  proof -
    obtain n where "data s' b = map_option (\<lambda>e. e\<lparr>h_next_hash := n\<rparr>) (data s b)" using links_views(3) [OF l(1) s'] by blast
    then obtain e0 where "data s b = Some e0" "blank e = e0\<lparr>h_next_hash := n\<rparr>"
      using obj_data [OF h] by (cases "data s b") auto
    then have "data s b = Some e0" "h_hash (blank e) = h_hash e0" by simp_all
    then show ?thesis using base_entry [OF inv b] by auto
  qed
qed (use l s' in \<open>auto simp: links_only_def\<close>)

text \<open>Finishing the erasure of an entry that is no longer in the table.\<close>

lemma finish_step:
  assumes inv: "base mine good T lru use s" and b: "b \<in> set (lru @ use)" and t: "tabled (remove1 b (lru @ use)) s" and room: "size T < 2 ^ 30"
  shows "\<exists>s' e. FinishErase (Some b) s = Some (True, s') \<and> shard_inv mine good T (remove1 b lru) (remove1 b use) s' \<and> frame mine s s' \<and>
    data s b = Some e \<and> cores s' = (cores s)(b := if b \<in># T then cores s b else None) \<and>
    hp_deleted (fst s') = hp_deleted (fst s) @ (if b \<in># T then [] else [deletion e])"
proof -
  have l: "lists_inv mine T lru use s" and bu: "b \<in> set lru \<union> set use" using inv b by (simp_all add: base_def)
  have dist: "distinct (lru @ use)" using l by (simp add: lists_inv_def)
  obtain e where e: "data s b = Some e" "mine (h_hash e)" "core_ok good (core e)" using base_entry [OF inv bu] by blast
  obtain s' where s': "FinishErase (Some b) s = Some (True, s')" "lists_inv mine T (remove1 b lru) (remove1 b use) s'"
    "data s' = (data s)(b := if b \<in># T then Some (e\<lparr>h_in_cache := False, h_refs := h_refs e - 1\<rparr>) else None)"
    "\<forall>a. a \<notin> set lru \<union> set use \<longrightarrow> hp_obj (fst s') a = hp_obj (fst s) a"
    "hp_fresh (fst s') = hp_fresh (fst s)" "lc_capacity (snd s') = lc_capacity (snd s)" "lc_table (snd s') = lc_table (snd s)"
    "lc_usage (snd s') = lc_usage (snd s) - h_charge e" "hp_deleted (fst s') = hp_deleted (fst s) @ (if b \<in># T then [] else [deletion e])"
    using FinishErase_spec [OF l bu e(1) room] by blast
  have c: "cores s' = (cores s)(b := if b \<in># T then cores s b else None)" using s'(3) e(1) by (auto simp: cores_data core_def)
  let ?r = "remove1 b (lru @ use)"
  have rest: "remove1 b lru @ remove1 b use = ?r" by (rule remove1_both [OF dist])
  have nb: "b \<notin> set ?r" using dist by simp
  have total: "total s (lru @ use) = charge_of s b + total s ?r"
    unfolding total_def by (rule sum_list_map_remove1 [OF b])
  have "map (charge_of s') ?r = map (charge_of s) ?r"
    using c nb by (intro map_cong) (auto simp: charge_of_def)
  then have tot: "total s' ?r = total s ?r" unfolding total_def by (rule arg_cong)
  have cb: "charge_of s b = unat (h_charge e)" using e(1) by (simp add: charge_of_def cores_data core_def)
  have "unat (lc_usage (snd s')) = total s' (remove1 b lru @ remove1 b use)"
  proof -
    have u: "unat (lc_usage (snd s)) = total s (lru @ use)" using inv by (simp add: base_def)
    then have "h_charge e \<le> lc_usage (snd s)" using total cb by (simp add: word_le_nat_alt)
    then show ?thesis using u total cb unfolding rest tot s'(8) by (simp add: unat_sub)
  qed
  moreover have "\<forall>a x. cores s' a = Some x \<longrightarrow> core_mine mine x \<longrightarrow> core_ok good x"
  proof (intro allI impI)
    fix a x assume "cores s' a = Some x" "core_mine mine x"
    then have "cores s a = Some x" using c by (auto split: if_splits)
    then show "core_ok good x" using inv \<open>core_mine mine x\<close> unfolding base_def by blast
  qed
  moreover have "hp_obj (fst s') a = None" if "hp_fresh (fst s') \<le> a" for a
  proof -
    have n: "hp_obj (fst s) a = None" using inv s'(5) that by (simp add: base_def)
    then have "data s a = None" by (simp add: data_def)
    then have "data s' a = None" using s'(3) e(1) by (cases "a = b") auto
    then show ?thesis by (simp add: data_def)
  qed
  ultimately have "base mine good T (remove1 b lru) (remove1 b use) s'" using inv s'(2,6) unfolding base_def by simp
  moreover have "tabled (remove1 b lru @ remove1 b use) s'"
  proof -
    obtain bks where k: "table_ok (fst s) (lc_table (snd s)) bks" "mset (concat bks) = mset ?r" "inj_on (key_of s) (set ?r)"
      using t by (auto simp: tabled_def)
    have sets: "set (concat bks) = set ?r" using k(2) by (rule mset_eq_setD)
    have "tdata (fst s') a = tdata (fst s) a" if "a \<in> set (concat bks)" for a
    proof -
      have "a \<noteq> b" using that nb sets by blast
      then show ?thesis using s'(3) by (simp add: tdata_data)
    qed
    then have "table_ok (fst s') (lc_table (snd s')) bks"
      using k(1) s'(7) chains_ok_mono [of bks "tdata (fst s')" "tdata (fst s)"] by (simp add: table_ok_def)
    moreover have "key_of s' a = key_of s a" if "a \<in> set ?r" for a
    proof -
      have "a \<noteq> b" using that nb by blast
      then show ?thesis using c by (simp add: key_of_def)
    qed
    then have "inj_on (key_of s') (set ?r)" using k(3) inj_on_cong by blast
    ultimately show ?thesis using k(2) unfolding rest tabled_def by blast
  qed
  moreover have "frame mine s s'"
  proof (rule frameI [where A = "set lru \<union> set use"])
    fix a f assume a: "a \<in> set lru \<union> set use"
    have m: "mine (h_hash g)" if "data s a = Some g" for g using base_entry [OF inv a] that by auto
    show "mine (h_hash f)" if "hp_obj (fst s) a = Some f" using m [OF obj_data [OF that]] by simp
    show "mine (h_hash f)" if h: "hp_obj (fst s') a = Some f"
    proof (cases "a = b")
      case True
      then have "blank f = e\<lparr>h_in_cache := False, h_refs := h_refs e - 1\<rparr>" using obj_data [OF h] s'(3) by (simp split: if_splits)
      then have "h_hash (blank f) = h_hash e" by simp
      then show ?thesis using e(2) by simp
    next
      case False
      then show ?thesis using obj_data [OF h] s'(3) m [of "blank f"] by simp
    qed
  qed (use s'(4,5,6) in auto)
  ultimately show ?thesis using s'(1,9) c e(1) unfolding shard_inv_base by blast
qed

text \<open>Erasing the entry of a key.\<close>

lemma erase_step:
  assumes inv: "shard_inv mine good T lru use s" and room: "size T < 2 ^ 30"
  shows "(on_table (table_Remove key (HashSlice key)) s = Some (None, s) \<and> (\<forall>a \<in> set (lru @ use). key_of s a \<noteq> Some key)) \<or>
    (\<exists>a e s1 s'. on_table (table_Remove key (HashSlice key)) s = Some (Some a, s1) \<and> FinishErase (Some a) s1 = Some (True, s') \<and>
       a \<in> set (lru @ use) \<and> key_of s a = Some key \<and> shard_inv mine good T (remove1 a lru) (remove1 a use) s' \<and> frame mine s s' \<and>
       cores s a = Some (core e) \<and> cores s' = (cores s)(a := if a \<in># T then cores s a else None) \<and>
       hp_deleted (fst s') = hp_deleted (fst s) @ (if a \<in># T then [] else [deletion e]))"
proof -
  have bs: "base mine good T lru use s" and dist: "distinct (lru @ use)" using inv shard_invD(2) [OF inv] by (simp_all add: shard_inv_base)
  obtain bks where b: "table_ok (fst s) (lc_table (snd s)) bks" "mset (concat bks) = mset (lru @ use)" using shard_invD(7) [OF inv] by blast
  have sets: "set (concat bks) = set (lru @ use)" using b(2) by (rule mset_eq_setD)
  have kd: "\<And>a. a \<in> set (concat bks) \<Longrightarrow> keyed (fst s) a" unfolding sets using shard_invD(5) [OF inv] by simp
  have m: "matches (fst s) key (HashSlice key) a \<longleftrightarrow> key_of s a = Some key" if "a \<in> set (lru @ use)" for a
    using matches_key [OF inv, of a key] that by simp
  consider (none) "table_Remove key (HashSlice key) (fst s, lc_table (snd s)) = Some (None, fst s, lc_table (snd s))"
      "\<forall>a \<in> set (concat bks). \<not> matches (fst s) key (HashSlice key) a"
    | (found) a hp' t' bks' where "table_Remove key (HashSlice key) (fst s, lc_table (snd s)) = Some (Some a, hp', t')" "a \<in> set (concat bks)"
        "matches (fst s) key (HashSlice key) a" "table_ok hp' t' bks'" "mset (concat bks') = mset (remove1 a (concat bks))"
        "links_only (fst s) hp' (set (concat bks))"
    using table_Remove_spec [OF b(1) kd, of key "HashSlice key"] by blast
  then show ?thesis
  proof cases
    case none
    have "on_table (table_Remove key (HashSlice key)) s = Some (None, s)" using none(1) by (simp add: on_table_def)
    then show ?thesis using none(2) m unfolding sets by blast
  next
    case found
    define s1 where "s1 = (hp', (snd s)\<lparr>lc_table := t'\<rparr>)"
    have a: "a \<in> set (lru @ use)" using found(2) unfolding sets .
    have bs1: "base mine good T lru use s1" by (rule links_base [OF bs found(6) s1_def])
    have f1: "frame mine s s1" using links_frame [OF bs found(6) _ s1_def] sets by simp
    have c1: "cores s1 = cores s" by (rule links_views(4) [OF found(6) s1_def])
    have "mset (concat bks') = mset (remove1 a (lru @ use))" using found(5) b(2) by simp
    moreover have "inj_on (key_of s1) (set (remove1 a (lru @ use)))"
      using shard_invD(8) [OF inv] key_cong [OF c1] by (metis inj_on_subset set_remove1_subset)
    ultimately have "tabled (remove1 a (lru @ use)) s1" using found(4) by (auto simp: tabled_def s1_def)
    from finish_step [OF bs1 a this room] obtain s' e where s': "FinishErase (Some a) s1 = Some (True, s')"
      "shard_inv mine good T (remove1 a lru) (remove1 a use) s'" "frame mine s1 s'" "data s1 a = Some e"
      "cores s' = (cores s1)(a := if a \<in># T then cores s1 a else None)"
      "hp_deleted (fst s') = hp_deleted (fst s1) @ (if a \<in># T then [] else [deletion e])" by blast
    have "on_table (table_Remove key (HashSlice key)) s = Some (Some a, s1)" using found(1) by (simp add: on_table_def s1_def)
    moreover have "cores s a = Some (core e)" using s'(4) c1 by (metis cores_data option.simps(9))
    moreover have "key_of s a = Some key" using m [OF a] found(3) by simp
    moreover have "hp_deleted (fst s1) = hp_deleted (fst s)" using found(6) by (simp add: s1_def links_only_def)
    ultimately show ?thesis using a s'(1,2,5,6) c1 frame_trans [OF f1 s'(3)]
      by (intro disjI2 exI [of _ a] exI [of _ e] exI [of _ s1] exI [of _ s']) simp
  qed
qed

lemma shard_Erase_spec:
  assumes inv: "shard_inv mine good T lru use s" and room: "size T < 2 ^ 30"
  shows "\<exists>s' lru' use'. shard_Erase key (HashSlice key) s = Some s' \<and> shard_inv mine good T lru' use' s' \<and> frame mine s s' \<and>
    (\<forall>a \<in> set (lru' @ use'). key_of s' a \<noteq> Some key) \<and> set (lru' @ use') = {a \<in> set (lru @ use). key_of s a \<noteq> Some key} \<and>
    (\<forall>a. a \<in># T \<or> key_of s a \<noteq> Some key \<longrightarrow> cores s' a = cores s a)"
proof -
  have inj: "inj_on (key_of s) (set (lru @ use))" by (rule shard_invD(8) [OF inv])
  consider (none) "on_table (table_Remove key (HashSlice key)) s = Some (None, s)" "\<forall>a \<in> set (lru @ use). key_of s a \<noteq> Some key"
    | (found) a s1 s' where "on_table (table_Remove key (HashSlice key)) s = Some (Some a, s1)" "FinishErase (Some a) s1 = Some (True, s')"
        "a \<in> set (lru @ use)" "key_of s a = Some key" "shard_inv mine good T (remove1 a lru) (remove1 a use) s'" "frame mine s s'"
        "cores s' = (cores s)(a := if a \<in># T then cores s a else None)"
    using erase_step [OF inv room, of key] by blast
  then show ?thesis
  proof cases
    case none
    then have "shard_Erase key (HashSlice key) s = Some s" by (simp add: shard_Erase_def FinishErase_def)
    moreover have "set (lru @ use) = {a \<in> set (lru @ use). key_of s a \<noteq> Some key}" using none(2) by blast
    ultimately show ?thesis using none(2) inv frame_refl by blast
  next
    case found
    have "shard_Erase key (HashSlice key) s = Some s'" using found(1,2) by (simp add: shard_Erase_def)
    moreover have rest: "set (remove1 a lru @ remove1 a use) = {b \<in> set (lru @ use). key_of s b \<noteq> Some key}"
      using shard_invD(2) [OF inv] found(3,4) inj by (auto simp: inj_on_def)
    moreover have k: "key_of s' b = key_of s b" if "b \<noteq> a" for b using found(7) that by (simp add: key_of_def)
    have "\<forall>b \<in> set (remove1 a lru @ remove1 a use). key_of s' b \<noteq> Some key"
    proof
      fix b assume b: "b \<in> set (remove1 a lru @ remove1 a use)"
      then have "key_of s b \<noteq> Some key" unfolding rest by simp
      moreover have "b \<noteq> a" using calculation found(4) by blast
      ultimately show "key_of s' b \<noteq> Some key" using k by simp
    qed
    moreover have "cores s' b = cores s b" if "b \<in># T \<or> key_of s b \<noteq> Some key" for b using found(4,7) that by (cases "b = a") auto
    ultimately show ?thesis using found(5,6) by blast
  qed
qed

subsection \<open>Evicting\<close>

definition del_of :: "slice \<times> 'v \<times> u64 \<times> u32 \<times> nat \<Rightarrow> nat \<times> slice \<times> 'v" where
  "del_of x = (case x of (k, v, c, h, d) \<Rightarrow> (d, k, v))"

definition dels :: "'v lru \<Rightarrow> nat list \<Rightarrow> (nat \<times> slice \<times> 'v) list" where "dels s as = map (\<lambda>a. del_of (the (cores s a))) as"

lemma deletion_core: "deletion e = del_of (core e)" by (simp add: deletion_def del_of_def core_def)

lemma evict_oldest_spec:
  assumes inv: "shard_inv mine good T (a # lru) use s" and room: "size T < 2 ^ 30"
  shows "lc_lru_next (snd s) = Entry a"
    "\<exists>s'. evict_oldest s = Some s' \<and> shard_inv mine good T lru use s' \<and> frame mine s s' \<and> cores s' = (cores s)(a := None) \<and>
      hp_deleted (fst s') = hp_deleted (fst s) @ dels s [a]"
proof -
  obtain hp c where s: "s = (hp, c)" by (cases s)
  have bs: "base mine good T (a # lru) use s" and d: "distinct ((a # lru) @ use)" using inv shard_invD(2) [OF inv] by (simp_all add: shard_inv_base)
  have "ring (nexts s) (prevs_of s) LruHead (a # lru)" using shard_invD(1) [OF inv] by (simp add: lists_inv_def)
  then have "get_next LruHead s = Some (Entry a)" using ring_first by (fastforce simp: after_node_def)
  then show n: "lc_lru_next (snd s) = Entry a" by (simp add: s)
  obtain e where e: "data s a = Some e" "mine (h_hash e)" "core_ok good (core e)" "keyed (fst s) a" "entry_ok T (a # lru) use a e"
    using base_entry [OF bs, of a] by auto
  obtain e0 where e0: "hp_obj (fst s) a = Some e0" "e = blank e0" using data_obj [OF e(1)] by blast
  have r: "h_refs e0 = 1" using e(5) e0(2) by (simp add: entry_ok_def word_unat_eq_iff)
  have k: "handle_key a (fst s) = Some (h_key_data e0)" "h_hash e0 = HashSlice (h_key_data e0)"
    using e(3,4) e0 by (auto simp: keyed_def core_ok_def core_def)
  have ka: "key_of s a = Some (h_key_data e0)" using key_of_data [OF e(1)] e0(2) by simp
  have na: "a \<notin># T" using e(5) by (simp add: entry_ok_def not_in_iff)
  have ca: "cores s a = Some (core e)" using e(1) by (simp add: cores_data)
  obtain b e1 s1 s' where b: "on_table (table_Remove (h_key_data e0) (HashSlice (h_key_data e0))) s = Some (Some b, s1)"
    "FinishErase (Some b) s1 = Some (True, s')" "b \<in> set ((a # lru) @ use)" "key_of s b = Some (h_key_data e0)"
    "shard_inv mine good T (remove1 b (a # lru)) (remove1 b use) s'" "frame mine s s'"
    "cores s b = Some (core e1)" "cores s' = (cores s)(b := if b \<in># T then cores s b else None)"
    "hp_deleted (fst s') = hp_deleted (fst s) @ (if b \<in># T then [] else [deletion e1])"
    using erase_step [OF inv room, of "h_key_data e0"] ka by auto
  have "key_of s b = key_of s a" using b(4) ka by simp
  then have ab: "b = a" by (rule inj_onD [OF shard_invD(8) [OF inv] _ b(3)]) simp
  have "evict_oldest s = Some s'" using n e0(1) r k b(1,2) ab by (simp add: evict_oldest_def)
  moreover have "shard_inv mine good T lru use s'" using b(5) d unfolding ab by (simp add: remove1_idem)
  moreover have "hp_deleted (fst s') = hp_deleted (fst s) @ dels s [a]"
    using b(7,9) na ca unfolding ab by (simp add: dels_def deletion_core)
  ultimately show "\<exists>s'. evict_oldest s = Some s' \<and> shard_inv mine good T lru use s' \<and> frame mine s s' \<and> cores s' = (cores s)(a := None) \<and>
      hp_deleted (fst s') = hp_deleted (fst s) @ dels s [a]"
    using b(6,8) na unfolding ab by (intro exI [of _ s']) simp
qed

lemma total_other: "a \<notin> set as \<Longrightarrow> cores s' = (cores s)(a := x) \<Longrightarrow> total s' as = total s as"
proof -
  assume a: "a \<notin> set as" "cores s' = (cores s)(a := x)"
  have "map (charge_of s') as = map (charge_of s) as" using a by (intro map_cong) (auto simp: charge_of_def)
  then show ?thesis unfolding total_def by (rule arg_cong)
qed

lemma evict_while_spec:
  assumes "shard_inv mine good T lru use s" "size T < 2 ^ 30" "\<And>c. lc_capacity c = lc_capacity (snd s) \<Longrightarrow> cond c \<longleftrightarrow> Q (unat (lc_usage c))"
  shows "\<exists>k s'. evict_while cond s = Some s' \<and> k \<le> length lru \<and> shard_inv mine good T (drop k lru) use s' \<and> frame mine s s' \<and>
    (\<forall>j < k. Q (total s (drop j lru @ use))) \<and> (k = length lru \<or> \<not> Q (total s (drop k lru @ use))) \<and>
    cores s' = (\<lambda>b. if b \<in> set (take k lru) then None else cores s b) \<and>
    hp_deleted (fst s') = hp_deleted (fst s) @ dels s (take k lru) \<and> hp_fresh (fst s) \<le> hp_fresh (fst s')"
  using assms
proof (induction lru arbitrary: s)
  case Nil
  obtain hp c where s: "s = (hp, c)" by (cases s)
  have "ring (nexts s) (prevs_of s) LruHead []" using shard_invD(1) [OF Nil.prems(1)] by (simp add: lists_inv_def)
  then have "get_next LruHead s = Some LruHead" using ring_first by (fastforce simp: after_node_def)
  then have "evict_while cond s = Some s" by (simp add: s evict_while.simps [of cond])
  then show ?case using Nil.prems(1) frame_refl by (intro exI [of _ 0] exI [of _ s]) (simp add: dels_def)
next
  case (Cons a lru)
  have u: "unat (lc_usage (snd s)) = total s ((a # lru) @ use)" by (rule shard_invD(4) [OF Cons.prems(1)])
  have d: "distinct ((a # lru) @ use)" by (rule shard_invD(2) [OF Cons.prems(1)])
  note E = evict_oldest_spec [OF Cons.prems(1,2)]
  have cq: "cond (snd s) \<longleftrightarrow> Q (total s ((a # lru) @ use))" using Cons.prems(3) u by simp
  show ?case
  proof (cases "cond (snd s)")
    case False
    then have "evict_while cond s = Some s" by (simp add: evict_while.simps [of cond])
    then show ?thesis using Cons.prems(1) False cq frame_refl by (intro exI [of _ 0] exI [of _ s]) (simp add: dels_def)
  next
    case True
    obtain s1 where s1: "evict_oldest s = Some s1" "shard_inv mine good T lru use s1" "frame mine s s1" "cores s1 = (cores s)(a := None)"
      "hp_deleted (fst s1) = hp_deleted (fst s) @ dels s [a]" using E(2) by blast
    have cap: "lc_capacity (snd s1) = lc_capacity (snd s)" using s1(3) by (simp add: frame_def)
    obtain k s' where k: "evict_while cond s1 = Some s'" "k \<le> length lru" "shard_inv mine good T (drop k lru) use s'" "frame mine s1 s'"
      "\<forall>j < k. Q (total s1 (drop j lru @ use))" "k = length lru \<or> \<not> Q (total s1 (drop k lru @ use))"
      "cores s' = (\<lambda>b. if b \<in> set (take k lru) then None else cores s1 b)" "hp_deleted (fst s') = hp_deleted (fst s1) @ dels s1 (take k lru)"
      using Cons.IH [OF s1(2) Cons.prems(2) Cons.prems(3) [unfolded cap [symmetric]]] by blast
    have t: "total s1 (drop j lru @ use) = total s (drop j lru @ use)" for j
      using d by (intro total_other [OF _ s1(4)]) (auto dest: in_set_dropD)
    have "dels s1 (take k lru) = dels s (take k lru)"
      unfolding dels_def using d s1(4) by (intro map_cong) (auto dest: in_set_takeD)
    then have dd: "hp_deleted (fst s') = hp_deleted (fst s) @ dels s (take (Suc k) (a # lru))" using k(8) s1(5) by (simp add: dels_def)
    have "\<forall>j < Suc k. Q (total s (drop j (a # lru) @ use))"
    proof (intro allI impI)
      fix j assume "j < Suc k"
      then show "Q (total s (drop j (a # lru) @ use))" using k(5) t True cq by (cases j) auto
    qed
    moreover have "evict_while cond s = Some s'" using True E(1) s1(1) k(1) by (simp add: evict_while.simps [of cond s])
    moreover have "cores s' = (\<lambda>b. if b \<in> set (take (Suc k) (a # lru)) then None else cores s b)" using k(7) s1(4) by auto
    moreover have "frame mine s s'" by (rule frame_trans [OF s1(3) k(4)])
    moreover have "hp_fresh (fst s) \<le> hp_fresh (fst s')" using calculation(4) by (simp add: frame_def)
    ultimately show ?thesis using k(2,3,6) t dd by (intro exI [of _ "Suc k"] exI [of _ s']) simp
  qed
qed

lemma shard_Prune_spec:
  assumes "shard_inv mine good T lru use s" "size T < 2 ^ 30"
  shows "\<exists>s'. shard_Prune s = Some s' \<and> shard_inv mine good T [] use s' \<and> frame mine s s' \<and>
    cores s' = (\<lambda>b. if b \<in> set lru then None else cores s b) \<and> hp_deleted (fst s') = hp_deleted (fst s) @ dels s lru"
proof -
  obtain k s' where k: "evict_while (\<lambda>c. True) s = Some s'" "k \<le> length lru" "shard_inv mine good T (drop k lru) use s'" "frame mine s s'"
    "k = length lru \<or> \<not> True" "cores s' = (\<lambda>b. if b \<in> set (take k lru) then None else cores s b)"
    "hp_deleted (fst s') = hp_deleted (fst s) @ dels s (take k lru)"
    using evict_while_spec [OF assms, of "\<lambda>c. True" "\<lambda>u. True"] by auto
  then show ?thesis by (auto simp: shard_Prune_def)
qed

subsection \<open>Inserting\<close>

lemma use_held: "lists_inv mine T lru use s \<Longrightarrow> length use \<le> size T"
proof -
  assume l: "lists_inv mine T lru use s"
  have "set_mset (mset use) \<subseteq> set_mset T"
  proof
    fix a assume "a \<in># mset use"
    then have a: "a \<in> set use" by simp
    then obtain e where "data s a = Some e" "mine (h_hash e)" using l unfolding lists_inv_def by blast
    then have "entry_ok T lru use a e" using l unfolding lists_inv_def by blast
    moreover have "a \<notin> set lru" using l a by (auto simp: lists_inv_def)
    ultimately show "a \<in># T" using a by (auto simp: entry_ok_def not_in_iff)
  qed
  moreover have "distinct use" using l by (simp add: lists_inv_def)
  ultimately have "mset use \<subseteq># T"
    by (intro mset_subset_eqI) (auto simp: distinct_count_atmost_1 Suc_leI subset_iff)
  then show ?thesis using size_mset_mono by fastforce
qed

lemma total_bound:
  assumes "base mine good T lru use s" "set as \<subseteq> set lru \<union> set use"
  shows "length as \<le> total s as" "total s as \<le> length as * 2 ^ 32"
proof -
  have c: "1 \<le> charge_of s a \<and> charge_of s a \<le> 2 ^ 32" if h: "a \<in> set as" for a
  proof -
    obtain e where "data s a = Some e" "core_ok good (core e)" using base_entry [OF assms(1), of a] assms(2) h by blast
    then show ?thesis by (auto simp: charge_of_def cores_data core_def core_ok_def word_gt_0 Suc_le_eq unat_gt_0)
  qed
  then have "sum_list (map (\<lambda>a. 1) as) \<le> total s as" "total s as \<le> sum_list (map (\<lambda>a. 2 ^ 32) as)"
    unfolding total_def by (intro sum_list_mono; blast)+
  then show "length as \<le> total s as" "total s as \<le> length as * 2 ^ 32" by (simp_all add: sum_list_triv)
qed

text \<open>The new entry, in the list of the entries in use and counted, not yet in the table.\<close>

lemma insert_entry:
  assumes inv: "shard_inv mine good T lru use s" and len: "length (lru @ use) \<le> 2 ^ 30"
    and fresh: "hp_fresh (fst s) \<notin># T" and m: "mine (HashSlice key)" and v: "good key v" and c: "0 < charge" "unat charge < 2 ^ 32"
  defines "a \<equiv> hp_fresh (fst s)"
  shows "\<exists>s1 s2 s3 s4. allocate (new_entry key (HashSlice key) v charge deleter) s = (a, s1) \<and> snd s1 = snd s \<and>
    modify a (\<lambda>e. e\<lparr>h_refs := h_refs e + 1, h_in_cache := True\<rparr>) s1 = Some s2 \<and> LRU_Append InUseHead a s2 = Some s3 \<and>
    s4 = (fst s3, (snd s3)\<lparr>lc_usage := lc_usage (snd s3) + charge\<rparr>) \<and>
    base mine good (add_mset a T) lru (use @ [a]) s4 \<and> tabled (lru @ use) s4 \<and> a \<notin> set (lru @ use) \<and> frame mine s s4 \<and>
    cores s4 = (cores s)(a := Some (key, v, charge, HashSlice key, deleter)) \<and> cores s a = None \<and> hp_deleted (fst s4) = hp_deleted (fst s)"
proof -
  let ?e = "(new_entry key (HashSlice key) v charge deleter)\<lparr>h_refs := 2, h_in_cache := True\<rparr>"
  have bs: "base mine good T lru use s" and tb: "tabled (lru @ use) s" using inv by (simp_all add: shard_inv_base)
  have l: "lists_inv mine T lru use s" by (rule shard_invD(1) [OF inv])
  have none: "hp_obj (fst s) b = None" if "a \<le> b" for b using bs that by (simp add: base_def a_def)
  have na: "data s a = None" "cores s a = None" using none [of a] by (simp_all add: data_def cores_def)
  obtain s1 s2 s3 where s3: "allocate (new_entry key (HashSlice key) v charge deleter) s = (a, s1)" "snd s1 = snd s"
    "modify a (\<lambda>e. e\<lparr>h_refs := h_refs e + 1, h_in_cache := True\<rparr>) s1 = Some s2" "LRU_Append InUseHead a s2 = Some s3"
    "lists_inv mine (add_mset a T) lru (use @ [a]) s3" "data s3 = (data s)(a := Some ?e)" "hp_fresh (fst s3) = a + 1"
    "\<forall>b. b \<notin> insert a (set lru \<union> set use) \<longrightarrow> hp_obj (fst s3) b = hp_obj (fst s) b"
    "hp_deleted (fst s3) = hp_deleted (fst s)" "lc_capacity (snd s3) = lc_capacity (snd s)" "lc_usage (snd s3) = lc_usage (snd s)"
    "lc_table (snd s3) = lc_table (snd s)"
    using new_entry_spec [OF l na(1) [unfolded a_def] fresh m refl, where val = v and charge = charge and deleter = deleter] unfolding a_def by blast
  define s4 where "s4 = (fst s3, (snd s3)\<lparr>lc_usage := lc_usage (snd s3) + charge\<rparr>)"
  have v4: "data s4 = data s3" "nexts s4 = nexts s3" "prevs_of s4 = prevs_of s3" "cores s4 = cores s3" "key_of s4 = key_of s3"
    by (simp_all add: s4_def set_usage cores_def key_of_def fun_eq_iff)
  have out: "a \<notin> set (lru @ use)" using base_entry [OF bs, of a] na(1) by auto
  have c4: "cores s4 = (cores s)(a := Some (key, v, charge, HashSlice key, deleter))"
    unfolding v4(4) using s3(6) by (auto simp: cores_data core_def new_entry_def)
  have t: "total s4 as = total s as" if "a \<notin> set as" for as by (rule total_other [OF that c4])
  have tot: "total s4 (lru @ use @ [a]) = total s (lru @ use) + unat charge"
  proof -
    have "total s4 (lru @ use @ [a]) = total s4 (lru @ use) + charge_of s4 a" by (simp add: total_def)
    then show ?thesis using t [OF out] c4 by (simp add: charge_of_def)
  qed
  have "total s (lru @ use) \<le> length (lru @ use) * 2 ^ 32" using total_bound(2) [OF bs, of "lru @ use"] by simp
  then have b: "total s (lru @ use) + unat charge < 2 ^ 64" using len c(2) by simp
  have u: "unat (lc_usage (snd s)) = total s (lru @ use)" by (rule shard_invD(4) [OF inv])
  have "unat (lc_usage (snd s) + charge) = unat (lc_usage (snd s)) + unat charge"
  proof (rule iffD1 [OF unat_add_lem])
    have "LENGTH(64) = 64" by simp
    then show "unat (lc_usage (snd s)) + unat charge < 2 ^ LENGTH(64)" unfolding u using b by (simp only:)
  qed
  moreover have "lc_usage (snd s4) = lc_usage (snd s) + charge" using s3(11) by (simp add: s4_def)
  ultimately have u4: "unat (lc_usage (snd s4)) = total s4 (lru @ use @ [a])" unfolding tot u by (simp only:)
  have l4: "lists_inv mine (add_mset a T) lru (use @ [a]) s4" using s3(5) unfolding lists_inv_cong [OF v4(2,3,1)] .
  have ok: "\<forall>b x. cores s4 b = Some x \<longrightarrow> core_mine mine x \<longrightarrow> core_ok good x"
  proof (intro allI impI)
    fix b x assume h: "cores s4 b = Some x" "core_mine mine x"
    show "core_ok good x"
    proof (cases "b = a")
      case True
      then show ?thesis using h(1) c4 v c by (auto simp: core_ok_def)
    next
      case False
      then have "cores s b = Some x" using h(1) c4 by simp
      then show ?thesis using bs h(2) unfolding base_def by blast
    qed
  qed
  have n4: "hp_obj (fst s4) b = None" if "hp_fresh (fst s4) \<le> b" for b
  proof -
    have "a < b" using that s3(7) by (simp add: s4_def)
    then have "cores s4 b = None" using c4 none [of b] by (simp add: cores_def)
    then show ?thesis by (simp add: cores_def)
  qed
  have "base mine good (add_mset a T) lru (use @ [a]) s4"
    unfolding base_def using l4 ok u4 n4 shard_invD(3) [OF inv] s3(10) by (simp add: s4_def)
  moreover have "tabled (lru @ use) s4"
  proof -
    obtain bks where k: "table_ok (fst s) (lc_table (snd s)) bks" "mset (concat bks) = mset (lru @ use)" "inj_on (key_of s) (set (lru @ use))"
      using tb by (auto simp: tabled_def)
    have sets: "set (concat bks) = set (lru @ use)" using k(2) by (rule mset_eq_setD)
    have "tdata (fst s4) b = tdata (fst s) b" if "b \<in> set (concat bks)" for b
    proof -
      have "b \<noteq> a" using that out sets by blast
      then show ?thesis using s3(6) v4(1) by (simp add: tdata_data)
    qed
    then have "table_ok (fst s4) (lc_table (snd s4)) bks"
      using k(1) s3(12) chains_ok_mono [of bks "tdata (fst s4)" "tdata (fst s)"] by (simp add: table_ok_def s4_def)
    moreover have "key_of s4 b = key_of s b" if "b \<in> set (lru @ use)" for b
    proof -
      have "b \<noteq> a" using that out by blast
      then show ?thesis using c4 by (simp add: key_of_def)
    qed
    then have "inj_on (key_of s4) (set (lru @ use))" using k(3) inj_on_cong by blast
    ultimately show ?thesis using k(2) unfolding tabled_def by blast
  qed
  moreover have "frame mine s s4"
  proof (rule frameI [where A = "insert a (set lru \<union> set use)"])
    fix b f assume h: "b \<in> insert a (set lru \<union> set use)"
    have old: "mine (h_hash g)" if "data s b = Some g" for g using base_entry [OF bs, of b] h that na(1) by auto
    show "mine (h_hash f)" if "hp_obj (fst s) b = Some f" using old [OF obj_data [OF that]] by simp
    show "mine (h_hash f)" if g: "hp_obj (fst s4) b = Some f"
    proof (cases "b = a")
      case True
      then have "blank f = ?e" using obj_data [OF g] v4(1) s3(6) by simp
      then have "h_hash (blank f) = HashSlice key" by (simp add: new_entry_def)
      then show ?thesis using m by simp
    next
      case False
      then show ?thesis using obj_data [OF g] v4(1) s3(6) old [of "blank f"] by simp
    qed
  qed (use s3(7,8,10) in \<open>auto simp: s4_def a_def\<close>)
  ultimately show ?thesis using s3(1-4,9) out c4 na(2) s4_def by (intro exI [of _ s1] exI [of _ s2] exI [of _ s3] exI [of _ s4]) (simp add: s4_def)
qed


lemma filter_one: "distinct as \<Longrightarrow> b \<in> set as \<Longrightarrow> filter (\<lambda>a. a = b) as = [b]"
  by (induction as) (auto simp: filter_empty_conv)

lemma matching_filter:
  assumes "distinct (lru @ use)" "inj_on f (set (lru @ use))" "b \<in> set (lru @ use)" "f b = x"
  shows "remove1 b lru = filter (\<lambda>a. f a \<noteq> x) lru" "remove1 b use = filter (\<lambda>a. f a \<noteq> x) use" "filter (\<lambda>a. f a = x) (lru @ use) = [b]"
proof -
  have u: "f a = x \<longleftrightarrow> a = b" if "a \<in> set (lru @ use)" for a using assms(2-4) that by (auto dest: inj_onD)
  have "remove1 b as = filter (\<lambda>a. f a \<noteq> x) as" if "distinct as" "set as \<subseteq> set (lru @ use)" for as
  proof -
    have "remove1 b as = filter (\<lambda>a. a \<noteq> b) as" using distinct_remove1_removeAll [OF that(1), of b] by (simp add: removeAll_filter_not_eq eq_commute)
    also have "\<dots> = filter (\<lambda>a. f a \<noteq> x) as" using u that(2) by (intro filter_cong) auto
    finally show ?thesis .
  qed
  then show "remove1 b lru = filter (\<lambda>a. f a \<noteq> x) lru" "remove1 b use = filter (\<lambda>a. f a \<noteq> x) use" using assms(1) by simp_all
  have "filter (\<lambda>a. f a = x) (lru @ use) = filter (\<lambda>a. a = b) (lru @ use)" using u by (intro filter_cong) auto
  also have "\<dots> = [b]" using assms(1,3) by (rule filter_one)
  finally show "filter (\<lambda>a. f a = x) (lru @ use) = [b]" .
qed

text \<open>It enters the table; an entry that had its key leaves the cache.\<close>

lemma insert_table:
  assumes bs: "base mine good (add_mset a T) lru (use @ [a]) s" and tb: "tabled (lru @ use) s" and a: "a \<notin> set (lru @ use)"
    and k: "key_of s a = Some key" and len: "length (lru @ use) \<le> 2 ^ 30" and room: "size T + 1 < 2 ^ 30"
  defines "old \<equiv> filter (\<lambda>b. key_of s b = Some key) (lru @ use)"
  shows "\<exists>r s1 x s2. on_table (table_Insert a) s = Some (r, s1) \<and> FinishErase r s1 = Some (x, s2) \<and>
    shard_inv mine good (add_mset a T) (filter (\<lambda>b. key_of s b \<noteq> Some key) lru) (filter (\<lambda>b. key_of s b \<noteq> Some key) use @ [a]) s2 \<and>
    frame mine s s2 \<and> cores s2 = (\<lambda>b. if b \<in> set old \<and> b \<notin># T then None else cores s b) \<and>
    hp_deleted (fst s2) = hp_deleted (fst s) @ dels s (filter (\<lambda>b. b \<notin># T) old)"
proof -
  obtain bks where b: "table_ok (fst s) (lc_table (snd s)) bks" "mset (concat bks) = mset (lru @ use)" "inj_on (key_of s) (set (lru @ use))"
    using tb by (auto simp: tabled_def)
  have sets: "set (concat bks) = set (lru @ use)" using b(2) by (rule mset_eq_setD)
  have lenb: "length (concat bks) = length (lru @ use)" using b(2) by (metis size_mset)
  have dist: "distinct (lru @ use)" using bs by (auto simp: base_def lists_inv_def)
  have kd: "keyed (fst s) c" if "c \<in> insert a (set (concat bks))" for c
    using base_entry [OF bs, of c] that unfolding sets by auto
  obtain e where e: "data s a = Some e" "mine (h_hash e)" "core_ok good (core e)" using base_entry [OF bs, of a] by auto
  obtain e0 where e0: "hp_obj (fst s) a = Some e0" "e = blank e0" using data_obj [OF e(1)] by blast
  have k0: "h_key_data e0 = key" "h_hash e0 = HashSlice key"
    using key_of_data [OF e(1)] k e0(2) e(3) by (simp_all add: core_ok_def core_def)
  have m: "matches (fst s) key (HashSlice key) c \<longleftrightarrow> key_of s c = Some key" if c: "c \<in> set (lru @ use)" for c
  proof -
    obtain d where d: "data s c = Some d" "core_ok good (core d)" using base_entry [OF bs, of c] c by auto
    have "h_hash d = HashSlice (h_key_data d)" using d(2) by (simp add: core_ok_def core_def)
    then show ?thesis using d(1) key_of_data [OF d(1)] by (auto simp: matches_data)
  qed
  obtain r hp' t' bks' where r: "table_Insert a (fst s, lc_table (snd s)) = Some (r, hp', t')" "table_ok hp' t' bks'"
    "links_only (fst s) hp' (insert a (set (concat bks)))"
    "case r of None \<Rightarrow> (\<forall>b \<in> set (concat bks). \<not> matches (fst s) key (HashSlice key) b) \<and> mset (concat bks') = mset (a # concat bks)
     | Some b \<Rightarrow> b \<in> set (concat bks) \<and> matches (fst s) key (HashSlice key) b \<and> mset (concat bks') = mset (a # remove1 b (concat bks))"
    using table_Insert_spec [OF b(1) kd _ e0(1)] a lenb len unfolding sets k0 by fastforce
  define s1 where "s1 = (hp', (snd s)\<lparr>lc_table := t'\<rparr>)"
  have ot: "on_table (table_Insert a) s = Some (r, s1)" using r(1) by (simp add: on_table_def s1_def)
  have bs1: "base mine good (add_mset a T) lru (use @ [a]) s1" by (rule links_base [OF bs r(3) s1_def])
  have f1: "frame mine s s1" using links_frame [OF bs r(3) _ s1_def] sets by auto
  have c1: "cores s1 = cores s" by (rule links_views(4) [OF r(3) s1_def])
  have ko1: "key_of s1 = key_of s" by (rule key_cong [OF c1])
  have d1: "hp_deleted (fst s1) = hp_deleted (fst s)" using r(3) by (simp add: s1_def links_only_def)
  show ?thesis
  proof (cases r)
    case None
    have nk: "\<forall>b \<in> set (lru @ use). key_of s b \<noteq> Some key" using r(4) None m unfolding sets by simp
    then have f: "filter (\<lambda>b. key_of s b \<noteq> Some key) lru = lru" "filter (\<lambda>b. key_of s b \<noteq> Some key) use = use" "old = []"
      unfolding old_def by (auto simp: filter_empty_conv intro: filter_True)
    have "mset (concat bks') = mset (lru @ use @ [a])" using r(4) None b(2) by simp
    moreover have "inj_on (key_of s1) (set (lru @ use @ [a]))" using b(3) nk k ko1 by (auto simp: inj_on_def)
    ultimately have "tabled (lru @ use @ [a]) s1" using r(2) by (auto simp: tabled_def s1_def)
    then have "shard_inv mine good (add_mset a T) lru (use @ [a]) s1" using bs1 by (simp add: shard_inv_base)
    then show ?thesis using ot f1 c1 d1 None unfolding f
      by (intro exI [of _ r] exI [of _ s1] exI [of _ False] exI [of _ s1]) (simp add: FinishErase_def dels_def)
  next
    case (Some b')
    have b': "b' \<in> set (lru @ use)" using r(4) Some unfolding sets by simp
    moreover have "key_of s b' = Some key" using m [OF b'] r(4) Some by simp
    ultimately have b': "b' \<in> set (lru @ use)" "key_of s b' = Some key" by simp_all
    note F = matching_filter [OF dist b(3) b', folded old_def]
    have ba: "b' \<noteq> a" using a b'(1) by blast
    have rm: "remove1 b' (lru @ use @ [a]) = remove1 b' (lru @ use) @ [a]" using b'(1) by (auto simp: remove1_append remove1_idem)
    have "mset (concat bks') = mset (remove1 b' (lru @ use @ [a]))" using r(4) Some b(2) unfolding rm by simp
    moreover have "inj_on (key_of s1) (set (remove1 b' (lru @ use @ [a])))"
    proof -
      have nk: "key_of s c \<noteq> Some key" if "c \<in> set (remove1 b' (lru @ use))" for c
      proof -
        have "c \<in> set (lru @ use)" "c \<noteq> b'" using that dist by auto
        then show ?thesis using inj_onD [OF b(3) _ _ b'(1), of c] b'(2) by auto
      qed
      have "key_of s a \<notin> key_of s ` (set (remove1 b' (lru @ use)) - {a})"
      proof
        assume "key_of s a \<in> key_of s ` (set (remove1 b' (lru @ use)) - {a})"
        then obtain c where "c \<in> set (remove1 b' (lru @ use))" "key_of s c = Some key" using k by force
        then show False using nk by blast
      qed
      moreover have "inj_on (key_of s) (set (remove1 b' (lru @ use)))" using b(3) by (meson inj_on_subset set_remove1_subset)
      moreover have "set (remove1 b' (lru @ use) @ [a]) = insert a (set (remove1 b' (lru @ use)))" by simp
      ultimately show ?thesis unfolding rm ko1 by (simp only: inj_on_insert simp_thms)
    qed
    ultimately have "tabled (remove1 b' (lru @ use @ [a])) s1" using r(2) by (auto simp: tabled_def s1_def)
    moreover have "b' \<in> set (lru @ use @ [a])" using b'(1) by simp
    moreover have sz: "size (add_mset a T) < 2 ^ 30" using room by simp
    ultimately obtain s2 e1 where s2: "FinishErase (Some b') s1 = Some (True, s2)"
      "shard_inv mine good (add_mset a T) (remove1 b' lru) (remove1 b' (use @ [a])) s2" "frame mine s1 s2" "data s1 b' = Some e1"
      "cores s2 = (cores s1)(b' := if b' \<in># add_mset a T then cores s1 b' else None)"
      "hp_deleted (fst s2) = hp_deleted (fst s1) @ (if b' \<in># add_mset a T then [] else [deletion e1])"
      using finish_step [OF bs1] by blast
    have u: "remove1 b' (use @ [a]) = filter (\<lambda>b. key_of s b \<noteq> Some key) use @ [a]"
    proof -
      have "remove1 b' (use @ [a]) = remove1 b' use @ [a]" using ba by (cases "b' \<in> set use") (simp_all add: remove1_append remove1_idem)
      then show ?thesis using F(2) by simp
    qed
    have "cores s b' = Some (core e1)" using s2(4) c1 by (metis cores_data option.simps(9))
    then have "hp_deleted (fst s2) = hp_deleted (fst s) @ dels s (filter (\<lambda>b. b \<notin># T) old)"
      using s2(6) d1 ba unfolding F(3) by (simp add: dels_def deletion_core)
    moreover have "cores s2 = (\<lambda>b. if b \<in> set old \<and> b \<notin># T then None else cores s b)"
      using s2(5) c1 ba unfolding F(3) by (auto simp: fun_eq_iff)
    ultimately show ?thesis using ot Some s2(1,2) frame_trans [OF f1 s2(3)] unfolding u F(1)
      by (intro exI [of _ r] exI [of _ s1] exI [of _ True] exI [of _ s2]) simp
  qed
qed


theorem shard_Insert_spec:
  assumes inv: "shard_inv mine good T lru use s" and len: "length (lru @ use) \<le> 2 ^ 30" and room: "size T + 1 < 2 ^ 30"
    and fresh: "hp_fresh (fst s) \<notin># T" and m: "mine (HashSlice key)" and v: "good key v" and c: "0 < charge" "unat charge < 2 ^ 32"
  defines "a \<equiv> hp_fresh (fst s)" and "old \<equiv> filter (\<lambda>b. key_of s b = Some key) (lru @ use)"
    and "lru1 \<equiv> filter (\<lambda>b. key_of s b \<noteq> Some key) lru" and "use1 \<equiv> filter (\<lambda>b. key_of s b \<noteq> Some key) use"
    and "cap \<equiv> unat (lc_capacity (snd s))"
  shows "\<exists>k s'. shard_Insert key (HashSlice key) v charge deleter s = Some (a, s') \<and> k \<le> length lru1 \<and>
    shard_inv mine good (add_mset a T) (drop k lru1) (use1 @ [a]) s' \<and> frame mine s s' \<and> a \<notin> set (lru @ use) \<and> cores s a = None \<and>
    (\<forall>j < k. cap < total s (drop j lru1 @ use1) + unat charge) \<and>
    (k = length lru1 \<or> total s (drop k lru1 @ use1) + unat charge \<le> cap) \<and>
    cores s' = (\<lambda>b. if b = a then Some (key, v, charge, HashSlice key, deleter)
      else if b \<in> set old \<and> b \<notin># T \<or> b \<in> set (take k lru1) then None else cores s b) \<and>
    hp_deleted (fst s') = hp_deleted (fst s) @ dels s (filter (\<lambda>b. b \<notin># T) old) @ dels s (take k lru1)"
proof -
  obtain s1 s2 s3 s4 where s4: "allocate (new_entry key (HashSlice key) v charge deleter) s = (a, s1)" "snd s1 = snd s"
    "modify a (\<lambda>e. e\<lparr>h_refs := h_refs e + 1, h_in_cache := True\<rparr>) s1 = Some s2" "LRU_Append InUseHead a s2 = Some s3"
    "s4 = (fst s3, (snd s3)\<lparr>lc_usage := lc_usage (snd s3) + charge\<rparr>)"
    "base mine good (add_mset a T) lru (use @ [a]) s4" "tabled (lru @ use) s4" "a \<notin> set (lru @ use)" "frame mine s s4"
    "cores s4 = (cores s)(a := Some (key, v, charge, HashSlice key, deleter))" "cores s a = None" "hp_deleted (fst s4) = hp_deleted (fst s)"
    using insert_entry [where T = T and good = good, OF inv len fresh m v c, of deleter] unfolding a_def by blast
  have ko: "key_of s4 b = key_of s b" if "b \<noteq> a" for b using s4(10) that by (simp add: key_of_def)
  have ka: "key_of s4 a = Some key" using s4(10) by (simp add: key_of_def)
  have fl: "filter (\<lambda>b. P (key_of s4 b)) as = filter (\<lambda>b. P (key_of s b)) as" if h: "a \<notin> set as" for P as
  proof (rule filter_cong [OF refl])
    fix b assume "b \<in> set as"
    then have "b \<noteq> a" using h by blast
    then show "P (key_of s4 b) \<longleftrightarrow> P (key_of s b)" by (simp add: ko)
  qed
  have out: "a \<notin> set lru" "a \<notin> set use" using s4(8) by simp_all
  have f: "filter (\<lambda>b. key_of s4 b = Some key) (lru @ use) = old" "filter (\<lambda>b. key_of s4 b \<noteq> Some key) lru = lru1"
    "filter (\<lambda>b. key_of s4 b \<noteq> Some key) use = use1"
    unfolding old_def lru1_def use1_def using fl [OF s4(8), of "\<lambda>x. x = Some key"] fl [OF out(1), of "\<lambda>x. x \<noteq> Some key"]
      fl [OF out(2), of "\<lambda>x. x \<noteq> Some key"] by simp_all
  obtain r s5 x s6 where s6: "on_table (table_Insert a) s4 = Some (r, s5)" "FinishErase r s5 = Some (x, s6)"
    "shard_inv mine good (add_mset a T) lru1 (use1 @ [a]) s6" "frame mine s4 s6"
    "cores s6 = (\<lambda>b. if b \<in> set old \<and> b \<notin># T then None else cores s4 b)"
    "hp_deleted (fst s6) = hp_deleted (fst s4) @ dels s4 (filter (\<lambda>b. b \<notin># T) old)"
    using insert_table [OF s4(6-8) ka len room, unfolded f] by blast
  have f6: "frame mine s s6" by (rule frame_trans [OF s4(9) s6(4)])
  have cap: "lc_capacity (snd s6) = lc_capacity (snd s)" using f6 by (simp add: frame_def)
  have sz: "size (add_mset a T) < 2 ^ 30" using room by simp
  have cond: "lc_capacity c < lc_usage c \<longleftrightarrow> cap < unat (lc_usage c)" if "lc_capacity c = lc_capacity (snd s6)" for c :: lru_cache
    using that cap by (simp add: cap_def word_less_nat_alt)
  obtain k s' where k: "evict_while (\<lambda>c. lc_capacity c < lc_usage c) s6 = Some s'" "k \<le> length lru1"
    "shard_inv mine good (add_mset a T) (drop k lru1) (use1 @ [a]) s'" "frame mine s6 s'"
    "\<forall>j < k. cap < total s6 (drop j lru1 @ use1 @ [a])" "k = length lru1 \<or> \<not> cap < total s6 (drop k lru1 @ use1 @ [a])"
    "cores s' = (\<lambda>b. if b \<in> set (take k lru1) then None else cores s6 b)"
    "hp_deleted (fst s') = hp_deleted (fst s6) @ dels s6 (take k lru1)"
    using evict_while_spec [where cond = "\<lambda>c. lc_capacity c < lc_usage c" and Q = "\<lambda>u. cap < u", OF s6(3) sz cond] by blast
  have sub: "b \<notin> set old \<and> b \<noteq> a" if "b \<in> set lru1 \<or> b \<in> set use1" for b using that out by (auto simp: old_def lru1_def use1_def)
  have ao: "a \<notin> set old" using out by (auto simp: old_def)
  have c6: "cores s6 b = cores s b" if "b \<in> set lru1 \<or> b \<in> set use1" for b using sub [OF that] s6(5) s4(10) by simp
  have "cores s6 a = Some (key, v, charge, HashSlice key, deleter)" using ao s6(5) s4(10) by simp
  then have ca: "charge_of s6 a = unat charge" by (simp add: charge_of_def)
  have tot: "total s6 (drop j lru1 @ use1 @ [a]) = total s (drop j lru1 @ use1) + unat charge" for j
  proof -
    have "map (charge_of s6) (drop j lru1 @ use1) = map (charge_of s) (drop j lru1 @ use1)"
      using c6 by (intro map_cong) (auto simp: charge_of_def dest: in_set_dropD)
    then have "total s6 (drop j lru1 @ use1) = total s (drop j lru1 @ use1)" unfolding total_def by (rule arg_cong)
    then show ?thesis using ca by (simp add: total_def)
  qed
  have d: "dels s4 (filter (\<lambda>b. b \<notin># T) old) = dels s (filter (\<lambda>b. b \<notin># T) old)" "dels s6 (take k lru1) = dels s (take k lru1)"
    unfolding dels_def using s4(10) ao c6 by (intro map_cong; auto dest: in_set_takeD)+
  have "shard_Insert key (HashSlice key) v charge deleter s = Some (a, s')"
    using s4(1-5) s6(1,2) k(1) shard_invD(3) [OF inv] by (simp add: shard_Insert_def Let_def)
  moreover have "cores s' = (\<lambda>b. if b = a then Some (key, v, charge, HashSlice key, deleter)
      else if b \<in> set old \<and> b \<notin># T \<or> b \<in> set (take k lru1) then None else cores s b)"
  proof -
    have "a \<notin> set (take k lru1)" using sub by (blast dest: in_set_takeD)
    then show ?thesis using k(7) s6(5) s4(10) ao by (auto simp: fun_eq_iff)
  qed
  moreover have "\<forall>j < k. cap < total s (drop j lru1 @ use1) + unat charge"
    "k = length lru1 \<or> total s (drop k lru1 @ use1) + unat charge \<le> cap" using k(5,6) unfolding tot by auto
  ultimately show ?thesis using k(2,3,8) frame_trans [OF f6 k(4)] s4(8,11,12) s6(6) d by (intro exI [of _ k] exI [of _ s']) simp
qed

subsection \<open>A new shard\<close>

lemma LRUCache_spec:
  fixes hp :: "'v heap"
  assumes no: "\<And>a e. hp_obj hp a = Some e \<Longrightarrow> \<not> mine (h_hash e)" and fresh: "\<And>a. hp_fresh hp \<le> a \<Longrightarrow> hp_obj hp a = None"
    and cap: "0 < capacity"
  shows "\<exists>c. LRUCache hp = Some (hp, c) \<and> shard_inv mine good T [] [] (hp, SetCapacity capacity c) \<and> lc_capacity (SetCapacity capacity c) = capacity"
proof -
  obtain hp' t bks where t: "HandleTable hp = Some (hp', t)" "table_ok hp' t bks" "concat bks = []" "links_only hp hp' {}"
    using HandleTable_spec [of hp] by blast
  have "hp_obj hp' a = hp_obj hp a" for a using t(4) by (simp add: links_only_def)
  then have h: "hp' = hp" using t(4) by (intro heap.equality) (auto simp: links_only_def)
  define c where "c = \<lparr>lc_capacity = 0, lc_usage = 0, lc_lru_next = LruHead, lc_lru_prev = LruHead,
    lc_use_next = InUseHead, lc_use_prev = InUseHead, lc_table = t\<rparr>"
  let ?s = "(hp, SetCapacity capacity c)"
  have new: "LRUCache hp = Some (hp, c)" using t(1) h by (simp add: LRUCache_def c_def)
  have n: "\<not> mine (h_hash e)" if h: "data ?s a = Some e" for a e
  proof -
    obtain e0 where "hp_obj hp a = Some e0" "e = blank e0" using data_obj [of ?s a e] h by auto
    then show ?thesis using no by simp
  qed
  then have "lists_inv mine T [] [] ?s" by (auto simp: lists_inv_def ring_def SetCapacity_def c_def)
  moreover have "\<not> core_mine mine x" if h: "cores ?s a = Some x" for a x
  proof -
    obtain e where "data ?s a = Some e" "x = core e" using h cores_data [of ?s a] by (cases "data ?s a") auto
    then show ?thesis using n by (simp add: core_mine_def core_def)
  qed
  moreover have "table_ok hp t bks" using t(2) h by simp
  ultimately have "shard_inv mine good T [] [] ?s"
    using t(3) cap fresh by (fastforce simp: shard_inv_def SetCapacity_def c_def total_def)
  then show ?thesis using new by (simp add: SetCapacity_def)
qed

end
