(* ===== verification/Lv_Cache_Shared.thy ===== *)
theory Lv_Cache_Shared
  imports Lv_Cache_Shard
begin

section \<open>The sharded cache\<close>

text \<open>
  The sixteen shards share one heap. Every operation works on the shard that the hash of its key selects and leaves the others
  alone, so that the invariants of all the shards are kept together: no handle that a client holds is ever freed.
\<close>

subsection \<open>Shards do not disturb each other\<close>

lemma shard_inv_other:
  assumes inv: "shard_inv mine good T lru use (hp, c)"
    and same: "\<And>b e. mine (h_hash e) \<Longrightarrow> hp_obj hp' b = Some e \<longleftrightarrow> hp_obj hp b = Some e"
    and T: "\<And>b e. hp_obj hp b = Some e \<Longrightarrow> mine (h_hash e) \<Longrightarrow> count T' b = count T b"
    and fresh: "\<And>a. hp_fresh hp' \<le> a \<Longrightarrow> hp_obj hp' a = None"
  shows "shard_inv mine good T' lru use (hp', c)"
proof -
  let ?s = "(hp, c)" and ?s' = "(hp', c)" and ?A = "set lru \<union> set use"
  have l: "lists_inv mine T lru use ?s" by (rule shard_invD(1) [OF inv])
  have d: "data ?s' b = Some e \<longleftrightarrow> data ?s b = Some e" if "mine (h_hash e)" for b e
  proof
    assume "data ?s' b = Some e"
    then obtain z where "hp_obj hp' b = Some z" "e = blank z" using data_obj [of ?s' b e] by auto
    then show "data ?s b = Some e" using same [of z b] that by (simp add: data_def)
  next
    assume "data ?s b = Some e"
    then obtain z where "hp_obj hp b = Some z" "e = blank z" using data_obj [of ?s b e] by auto
    then show "data ?s' b = Some e" using same [of z b] that by (simp add: data_def)
  qed
  have o: "\<exists>e. hp_obj hp b = Some e \<and> hp_obj hp' b = Some e \<and> mine (h_hash e)" if b: "b \<in> ?A" for b
  proof -
    obtain e where "data ?s b = Some e" "mine (h_hash e)" using shard_invD(6) [OF inv b] by blast
    then obtain e0 where "hp_obj hp b = Some e0" "mine (h_hash e0)" using data_obj [of ?s b e] by auto
    then show ?thesis using same [of e0 b] by blast
  qed
  have dA: "data ?s' b = data ?s b" if "b \<in> ?A" for b using o [OF that] by (auto simp: data_def)
  have link: "get_next x ?s' = get_next x ?s" "get_prev x ?s' = get_prev x ?s" if x: "is_head x \<or> x \<in> Entry ` ?A" for x
  proof -
    have "get_next x ?s' = get_next x ?s \<and> get_prev x ?s' = get_prev x ?s"
    proof (cases x)
      case (Entry b)
      then have "b \<in> ?A" using x by (auto simp: is_head_def)
      then show ?thesis using o [of b] Entry by auto
    qed simp_all
    then show "get_next x ?s' = get_next x ?s" "get_prev x ?s' = get_prev x ?s" by simp_all
  qed
  have r: "ring (nexts ?s') (prevs_of ?s') h xs \<longleftrightarrow> ring (nexts ?s) (prevs_of ?s) h xs" if "is_head h" "set xs \<subseteq> ?A" for h xs
    using that link by (intro ring_cong) blast
  have rd: "readable ?s' b \<longleftrightarrow> readable ?s b" if h: "data ?s b = Some e" "mine (h_hash e)" for b e
  proof -
    obtain e0 where "hp_obj hp b = Some e0" "mine (h_hash e0)" using data_obj [OF h(1)] h(2) by auto
    then have "hp_obj hp' b = hp_obj hp b" using same [of e0 b] by simp
    then show ?thesis by (simp add: readable_def)
  qed
  have cnt: "entry_ok T' lru use b e" if h: "data ?s b = Some e" "mine (h_hash e)" "entry_ok T lru use b e" for b e
  proof -
    obtain e0 where "hp_obj hp b = Some e0" "mine (h_hash e0)" using data_obj [OF h(1)] h(2) by auto
    then show ?thesis using T h(3) by (simp add: entry_ok_def)
  qed
  have "lists_inv mine T' lru use ?s'"
    unfolding lists_inv_def
  proof (intro conjI ballI allI impI)
    show "ring (nexts ?s') (prevs_of ?s') LruHead lru" "ring (nexts ?s') (prevs_of ?s') InUseHead use" "distinct (lru @ use)"
      using l r by (simp_all add: lists_inv_def is_head_def)
    show "\<exists>e. data ?s' a = Some e \<and> mine (h_hash e)" if "a \<in> ?A" for a using l dA that by (simp add: lists_inv_def)
    fix a e assume h: "data ?s' a = Some e" "mine (h_hash e)"
    then have ds: "data ?s a = Some e" using d by simp
    then have "entry_ok T lru use a e" "readable ?s a" using l h(2) unfolding lists_inv_def by blast+
    then show "entry_ok T' lru use a e" "readable ?s' a" using cnt [OF ds h(2)] rd [OF ds h(2)] by simp_all
  qed
  moreover have cA: "cores ?s' b = cores ?s b" if "b \<in> ?A" for b using dA [OF that] by (simp add: cores_data)
  then have kA: "key_of ?s' b = key_of ?s b" "charge_of ?s' b = charge_of ?s b" if "b \<in> ?A" for b
    using that by (simp_all add: key_of_def charge_of_def)
  then have "inj_on (key_of ?s') (set (lru @ use))" using shard_invD(8) [OF inv] inj_on_cong [of "set (lru @ use)" "key_of ?s'" "key_of ?s"] by simp
  moreover have "total ?s' (lru @ use) = total ?s (lru @ use)"
  proof -
    have "map (charge_of ?s') (lru @ use) = map (charge_of ?s) (lru @ use)" using kA(2) by (intro map_cong) auto
    then show ?thesis unfolding total_def by (rule arg_cong)
  qed
  moreover have "core_ok good x" if h: "cores ?s' a = Some x" "core_mine mine x" for a x
  proof -
    obtain e where e: "data ?s' a = Some e" "x = core e" using h(1) by (cases "data ?s' a") (auto simp: cores_data)
    then have "mine (h_hash e)" using h(2) by (simp add: core_mine_def core_def)
    then have "cores ?s a = Some x" using d e by (simp add: cores_data)
    then show ?thesis using inv h(2) unfolding shard_inv_def by blast
  qed
  moreover obtain bks where b: "table_ok hp (lc_table c) bks" "mset (concat bks) = mset (lru @ use)" using shard_invD(7) [OF inv] by auto
  have sets: "set (concat bks) = set (lru @ use)" using b(2) by (rule mset_eq_setD)
  have "tdata hp' a = tdata hp a" if "a \<in> set (concat bks)" for a
    using dA [of a] that unfolding sets by (simp add: tdata_data [of ?s, simplified] tdata_data [of ?s', simplified])
  then have "table_ok hp' (lc_table c) bks" using b(1) chains_ok_mono [of bks "tdata hp'" "tdata hp"] by (simp add: table_ok_def)
  moreover have "0 < lc_capacity c" "unat (lc_usage c) = total ?s (lru @ use)" using shard_invD(3,4) [OF inv] by simp_all
  ultimately show ?thesis using b(2) fresh by (auto simp: shard_inv_def)
qed

subsection \<open>The invariant of the cache\<close>

definition in_shard :: "nat \<Rightarrow> u32 \<Rightarrow> bool" where "in_shard i hash \<longleftrightarrow> Shard hash = i"

definition shard_held :: "(slice \<Rightarrow> 'v \<Rightarrow> bool) \<Rightarrow> nat multiset \<Rightarrow> nat \<Rightarrow> nat list \<Rightarrow> nat list \<Rightarrow> 'v sharded_cache \<Rightarrow> bool" where
  "shard_held good T i lru use s \<longleftrightarrow> shard_inv (in_shard i) good T lru use (sc_heap s, sc_shards s ! i) \<and>
     length (lru @ use) \<le> 2 ^ 30 \<and> unat (lc_capacity (sc_shards s ! i)) \<le> 2 ^ 30"

text \<open>The clients hold the handles \<open>T\<close>.\<close>

definition cache_held :: "(slice \<Rightarrow> 'v \<Rightarrow> bool) \<Rightarrow> nat multiset \<Rightarrow> 'v sharded_cache \<Rightarrow> bool" where
  "cache_held good T s \<longleftrightarrow> length (sc_shards s) = kNumShards \<and> (\<forall>i < kNumShards. \<exists>lru use. shard_held good T i lru use s) \<and>
     (\<forall>a \<in># T. hp_obj (sc_heap s) a \<noteq> None) \<and> size T < 2 ^ 30"

lemma length_moved: "a \<in> set xs \<Longrightarrow> Suc (length (remove1 a xs)) = length xs"
  using length_pos_if_in_set [of a xs] by (simp add: length_remove1)

lemma Shard_less: "Shard hash < kNumShards"
proof -
  have "unat hash < 2 ^ 32" using unsigned_less [of hash] by simp
  then have "unat (drop_bit 28 hash) < 2 ^ 4"
    unfolding unat_drop_bit_eq by (simp add: drop_bit_eq_div less_mult_imp_div_less)
  then show ?thesis by (simp add: Shard_def kNumShards_def kNumShardBits_def)
qed

text \<open>A step of one shard.\<close>

lemma shard_step:
  assumes held: "cache_held good T s" and i: "i < kNumShards" and fr: "frame (in_shard i) (sc_heap s, sc_shards s ! i) (hp', c')"
    and inv: "shard_inv (in_shard i) good T' lru use (hp', c')" and len: "length (lru @ use) \<le> 2 ^ 30"
    and T: "\<And>b e. hp_obj (sc_heap s) b = Some e \<Longrightarrow> \<not> in_shard i (h_hash e) \<Longrightarrow> count T' b = count T b"
    and dom: "\<And>a. a \<in># T' \<Longrightarrow> hp_obj hp' a \<noteq> None" and sz: "size T' < 2 ^ 30"
  shows "cache_held good T' (s\<lparr>sc_heap := hp', sc_shards := (sc_shards s)[i := c']\<rparr>)"
proof -
  let ?s = "s\<lparr>sc_heap := hp', sc_shards := (sc_shards s)[i := c']\<rparr>"
  have n: "length (sc_shards s) = kNumShards" using held by (simp add: cache_held_def)
  have "\<exists>lru use. shard_held good T' j lru use ?s" if j: "j < kNumShards" for j
  proof (cases "j = i")
    case True
    obtain l u where "shard_held good T i l u s" using held i by (auto simp: cache_held_def)
    then have "unat (lc_capacity c') \<le> 2 ^ 30" using fr by (simp add: shard_held_def frame_def)
    then have "shard_held good T' i lru use ?s" using inv len n i by (simp add: shard_held_def)
    then show ?thesis using True by blast
  next
    case False
    obtain l u where h: "shard_held good T j l u s" using held j by (auto simp: cache_held_def)
    then have v: "shard_inv (in_shard j) good T l u (sc_heap s, sc_shards s ! j)" by (simp add: shard_held_def)
    have no: "\<not> in_shard i x" if "in_shard j x" for x using that False by (simp add: in_shard_def)
    have "shard_inv (in_shard j) good T' l u (hp', sc_shards s ! j)"
    proof (rule shard_inv_other [OF v])
      show "hp_obj hp' b = Some e \<longleftrightarrow> hp_obj (sc_heap s) b = Some e" if "in_shard j (h_hash e)" for b e
        using fr no [OF that] by (simp add: frame_def)
      show "count T' b = count T b" if "hp_obj (sc_heap s) b = Some e" "in_shard j (h_hash e)" for b e using T that no by blast
      show "hp_obj hp' a = None" if "hp_fresh hp' \<le> a" for a using inv that by (simp add: shard_inv_def)
    qed
    then have "shard_held good T' j l u ?s" using h False by (simp add: shard_held_def)
    then show ?thesis by blast
  qed
  then show ?thesis using n dom sz by (simp add: cache_held_def)
qed


text \<open>One operation on the shard of a hash.\<close>

lemma held_shard:
  assumes "cache_held good T s"
  shows "\<exists>lru use. shard_inv (in_shard (Shard hash)) good T lru use (sc_heap s, sc_shards s ! Shard hash) \<and>
    length (lru @ use) \<le> 2 ^ 30 \<and> unat (lc_capacity (sc_shards s ! Shard hash)) \<le> 2 ^ 30"
    "Shard hash < length (sc_shards s)"
  using assms Shard_less [of hash] by (auto simp: cache_held_def shard_held_def)

lemma on_shard_step:
  assumes "cache_held good T s" "f (sc_heap s, sc_shards s ! Shard hash) = Some (r, hp', c')"
  shows "on_shard (Shard hash) f s = Some (r, s\<lparr>sc_heap := hp', sc_shards := (sc_shards s)[Shard hash := c']\<rparr>)"
  using assms held_shard(2) [OF assms(1), of hash] by (simp add: on_shard_def)

lemma cores_obj: "cores s a = Some (k, v, c, h, d) \<longleftrightarrow>
    (\<exists>e. hp_obj (fst s) a = Some e \<and> h_key_data e = k \<and> h_value e = v \<and> h_charge e = c \<and> h_hash e = h \<and> h_deleter e = d)"
  by (cases "hp_obj (fst s) a") (simp_all add: cores_def core_def)

text \<open>The key and the value of a handle.\<close>

definition held_key :: "nat \<Rightarrow> 'v sharded_cache \<Rightarrow> slice option" where
  "held_key a s = map_option h_key_data (hp_obj (sc_heap s) a)"

lemma held_entry:
  assumes held: "cache_held good T s" and a: "hp_obj (sc_heap s) a = Some e"
  shows "h_hash e = HashSlice (h_key_data e)" "good (h_key_data e) (h_value e)"
proof -
  obtain lru use where i: "shard_inv (in_shard (Shard (h_hash e))) good T lru use (sc_heap s, sc_shards s ! Shard (h_hash e))"
    using held_shard(1) [OF held, of "h_hash e"] by blast
  have "cores (sc_heap s, sc_shards s ! Shard (h_hash e)) a = Some (core e)" using a by (simp add: cores_def)
  moreover have "core_mine (in_shard (Shard (h_hash e))) (core e)" by (simp add: core_mine_def core_def in_shard_def)
  ultimately have "core_ok good (core e)" using i unfolding shard_inv_def by blast
  then show "h_hash e = HashSlice (h_key_data e)" "good (h_key_data e) (h_value e)" by (simp_all add: core_ok_def core_def)
qed

text \<open>A handle of the cache: an entry that its shard's table holds.\<close>

definition cached :: "(slice \<Rightarrow> 'v \<Rightarrow> bool) \<Rightarrow> nat multiset \<Rightarrow> slice \<Rightarrow> nat \<Rightarrow> 'v sharded_cache \<Rightarrow> bool" where
  "cached good T key a s \<longleftrightarrow> held_key a s = Some key \<and> (\<exists>lru use. shard_held good T (Shard (HashSlice key)) lru use s \<and> a \<in> set (lru @ use))"

text \<open>An entry that is in the cache under a key, by its own flag.\<close>

definition listed :: "slice \<Rightarrow> nat \<Rightarrow> 'v sharded_cache \<Rightarrow> bool" where
  "listed key a s \<longleftrightarrow> (\<exists>e. hp_obj (sc_heap s) a = Some e \<and> h_key_data e = key \<and> h_in_cache e)"

lemma listed_lists:
  assumes "shard_inv (in_shard i) good T lru use (sc_heap s, c)" "hp_obj (sc_heap s) a = Some e" "in_shard i (h_hash e)"
  shows "listed key a s \<longleftrightarrow> a \<in> set (lru @ use) \<and> key_of (sc_heap s, c) a = Some key"
proof -
  have d: "data (sc_heap s, c) a = Some (blank e)" using assms(2) by (simp add: data_def)
  then have "entry_ok T lru use a (blank e)" using shard_invD(1) [OF assms(1)] assms(3) unfolding lists_inv_def by simp
  then show ?thesis using assms(2) key_of_data [OF d] by (auto simp: listed_def entry_ok_def)
qed

lemma cached_listed:
  assumes held: "cache_held good T s"
  shows "cached good T key a s \<longleftrightarrow> listed key a s"
proof (cases "hp_obj (sc_heap s) a")
  case None
  then show ?thesis by (simp add: cached_def held_key_def listed_def)
next
  case (Some e)
  have h: "h_hash e = HashSlice (h_key_data e)" by (rule held_entry(1) [OF held Some])
  have k: "key_of (sc_heap s, c) a = Some (h_key_data e)" for c using Some by (simp add: key_of_def cores_def core_def)
  have L: "listed key a s \<longleftrightarrow> a \<in> set (lru @ use)" if "shard_held good T (Shard (HashSlice key)) lru use s" "h_key_data e = key" for lru use
    using listed_lists [where i = "Shard (HashSlice key)" and c = "sc_shards s ! Shard (HashSlice key)" and key = key, OF _ Some] that h k
    by (auto simp: shard_held_def in_shard_def)
  obtain lru use where "shard_held good T (Shard (HashSlice key)) lru use s"
    using held Shard_less [of "HashSlice key"] unfolding cache_held_def by blast
  then show ?thesis using L Some by (auto simp: cached_def held_key_def listed_def)
qed

lemma listed_moves:
  assumes other: "\<forall>b e. \<not> in_shard i (h_hash e) \<longrightarrow> hp_obj (sc_heap s') b = Some e \<longleftrightarrow> hp_obj (sc_heap s) b = Some e"
    and inv: "shard_inv (in_shard i) good T lru use (sc_heap s, c)" "shard_inv (in_shard i) good T' lru' use' (sc_heap s', c')"
    and moves: "b \<in> set (lru @ use) \<Longrightarrow> key_of (sc_heap s, c) b = Some key \<Longrightarrow> b \<in> set (lru' @ use') \<and> key_of (sc_heap s', c') b = Some key"
    and l: "listed key b s"
  shows "listed key b s'"
proof -
  obtain e where e: "hp_obj (sc_heap s) b = Some e" "h_key_data e = key" "h_in_cache e" using l by (auto simp: listed_def)
  show ?thesis
  proof (cases "in_shard i (h_hash e)")
    case True
    then have b: "b \<in> set (lru' @ use')" "key_of (sc_heap s', c') b = Some key" using listed_lists [OF inv(1) e(1)] l moves by simp_all
    then obtain e' where "data (sc_heap s', c') b = Some e'" "in_shard i (h_hash e')" using shard_invD(6) [OF inv(2), of b] by auto
    moreover from this obtain e0 where "hp_obj (sc_heap s') b = Some e0" "e' = blank e0" using data_obj [of "(sc_heap s', c')" b e'] by auto
    ultimately show ?thesis using listed_lists [OF inv(2)] b by simp
  next
    case False
    then have "hp_obj (sc_heap s') b = Some e" using other e(1) by blast
    then show ?thesis using e(2,3) by (simp add: listed_def)
  qed
qed

theorem cache_Lookup_spec:
  assumes held: "cache_held good T s" and room: "size T + 1 < 2 ^ 30"
  shows "(cache_Lookup key s = Some (None, s)) \<or>
    (\<exists>a s' v. cache_Lookup key s = Some (Some a, s') \<and> cached good T key a s \<and> cache_held good (add_mset a T) s' \<and>
       held_key a s' = Some key \<and> cache_Value a s' = Some v \<and> good key v \<and> (\<forall>b. held_key b s' = held_key b s \<and> cache_Value b s' = cache_Value b s) \<and>
       (\<forall>k b. listed k b s' \<longleftrightarrow> listed k b s))"
proof -
  let ?i = "Shard (HashSlice key)" and ?s = "(sc_heap s, sc_shards s ! Shard (HashSlice key))"
  obtain lru use where i: "shard_inv (in_shard ?i) good T lru use ?s" "length (lru @ use) \<le> 2 ^ 30"
      "unat (lc_capacity (sc_shards s ! ?i)) \<le> 2 ^ 30"
    using held_shard(1) [OF held] by blast
  have r: "size T < 2 ^ 30" using room by simp
  consider (none) "shard_Lookup key (HashSlice key) ?s = Some (None, ?s)"
    | (found) a s1 where "shard_Lookup key (HashSlice key) ?s = Some (Some a, s1)" "a \<in> set (lru @ use)" "key_of ?s a = Some key"
      "shard_inv (in_shard ?i) good (add_mset a T) (remove1 a lru) (if a \<in> set lru then use @ [a] else use) s1" "frame (in_shard ?i) ?s s1"
      "cores s1 = cores ?s"
    using shard_Lookup_spec [OF i(1) r, of key] by blast
  then show ?thesis
  proof cases
    case none
    have "s\<lparr>sc_heap := sc_heap s, sc_shards := (sc_shards s)[?i := sc_shards s ! ?i]\<rparr> = s" by simp
    then show ?thesis using on_shard_step [where f = "shard_Lookup key (HashSlice key)", OF held none] by (simp add: cache_Lookup_def Let_def)
  next
    case found
    obtain hp' c' where s1: "s1 = (hp', c')" by (cases s1)
    let ?s' = "s\<lparr>sc_heap := hp', sc_shards := (sc_shards s)[?i := c']\<rparr>"
    have op: "cache_Lookup key s = Some (Some a, ?s')"
      using on_shard_step [where f = "shard_Lookup key (HashSlice key)", OF held found(1) [unfolded s1]] by (simp add: cache_Lookup_def Let_def)
    have co: "map_option core (hp_obj hp' b) = map_option core (hp_obj (sc_heap s) b)" for b
      using fun_cong [OF found(6), of b] by (simp add: cores_def s1)
    have same: "held_key b ?s' = held_key b s \<and> cache_Value b ?s' = cache_Value b s" for b
      using co [of b] by (cases "hp_obj hp' b"; cases "hp_obj (sc_heap s) b") (simp_all add: held_key_def cache_Value_def core_def)
    have dom: "hp_obj hp' b = None \<longleftrightarrow> hp_obj (sc_heap s) b = None" for b
      using co [of b] by (cases "hp_obj hp' b"; cases "hp_obj (sc_heap s) b") simp_all
    obtain e where e: "data ?s a = Some e" "in_shard ?i (h_hash e)" using shard_invD(6) [OF i(1), of a] found(2) by auto
    obtain e0 where e0: "hp_obj (sc_heap s) a = Some e0" "e = blank e0" using data_obj [OF e(1)] by auto
    have len: "length (remove1 a lru @ (if a \<in> set lru then use @ [a] else use)) \<le> 2 ^ 30"
      using i(2) length_moved [of a lru] by (cases "a \<in> set lru") (auto simp: remove1_idem)
    have held': "cache_held good (add_mset a T) ?s'"
    proof (rule shard_step [OF held Shard_less found(5) [unfolded s1] found(4) [unfolded s1] len])
      show "count (add_mset a T) b = count T b" if "hp_obj (sc_heap s) b = Some d" "\<not> in_shard ?i (h_hash d)" for b d
        using that e0 e(2) by auto
      show "hp_obj hp' b \<noteq> None" if "b \<in># add_mset a T" for b
        using that held e0(1) dom [of b] by (auto simp: cache_held_def)
      show "size (add_mset a T) < 2 ^ 30" using room by simp
    qed
    have "h_key_data e0 = key" using key_of_data [OF e(1)] found(3) e0(2) by simp
    then have "held_key a ?s' = Some key" "cache_Value a ?s' = Some (h_value e0)" "good key (h_value e0)"
      using same [of a] e0(1) held_entry(2) [OF held e0(1)] by (simp_all add: held_key_def cache_Value_def)
    moreover have "cached good T key a s"
      using i found(2) calculation(1) same [of a] unfolding cached_def shard_held_def by auto
    moreover have "listed k b ?s' \<longleftrightarrow> listed k b s" for k b
    proof -
      have sets: "set (remove1 a lru @ (if a \<in> set lru then use @ [a] else use)) = set (lru @ use)"
        using shard_invD(2) [OF i(1)] found(2) by (auto simp: set_remove1_eq)
      have kk: "key_of (hp', c') = key_of ?s" using found(6) by (simp add: key_of_def s1 fun_eq_iff)
      have o: "\<forall>b e. \<not> in_shard ?i (h_hash e) \<longrightarrow> hp_obj hp' b = Some e \<longleftrightarrow> hp_obj (sc_heap s) b = Some e"
        using found(5) by (simp add: frame_def s1)
      have v: "shard_inv (in_shard ?i) good (add_mset a T) (remove1 a lru) (if a \<in> set lru then use @ [a] else use) (sc_heap ?s', c')"
        using found(4) by (simp add: s1)
      show ?thesis
      proof
        show "listed k b s" if "listed k b ?s'"
          by (rule listed_moves [where s = ?s' and s' = s and i = ?i, OF _ v i(1) _ that]) (use o kk sets in \<open>simp_all del: set_append\<close>)
        show "listed k b ?s'" if "listed k b s"
          by (rule listed_moves [where s = s and s' = ?s' and i = ?i, OF _ i(1) v _ that]) (use o kk sets in \<open>simp_all del: set_append\<close>)
      qed
    qed
    ultimately show ?thesis using op held' same by blast
  qed
qed

theorem cache_Release_spec:
  assumes held: "cache_held good (add_mset a T) s"
  shows "\<exists>s'. cache_Release a s = Some s' \<and> cache_held good T s' \<and>
    (\<forall>b. b \<noteq> a \<or> a \<in># T \<longrightarrow> held_key b s' = held_key b s \<and> cache_Value b s' = cache_Value b s) \<and>
    (\<forall>k b. listed k b s' \<longrightarrow> listed k b s) \<and> (\<forall>k b. b \<in># T \<longrightarrow> listed k b s \<longrightarrow> listed k b s')"
proof -
  obtain e0 where e0: "hp_obj (sc_heap s) a = Some e0" using held by (auto simp: cache_held_def)
  let ?i = "Shard (h_hash e0)" and ?s = "(sc_heap s, sc_shards s ! Shard (h_hash e0))"
  obtain lru use where i: "shard_inv (in_shard ?i) good (add_mset a T) lru use ?s" "length (lru @ use) \<le> 2 ^ 30"
    using held_shard(1) [OF held] by blast
  have r: "size T < 2 ^ 30" using held by (simp add: cache_held_def)
  have e: "data ?s a = Some (blank e0)" "in_shard ?i (h_hash (blank e0))" using e0 by (simp_all add: data_def in_shard_def)
  let ?kept = "a \<in> set use \<or> a \<in># T"
  let ?lru = "if a \<in> set use \<and> a \<notin># T then lru @ [a] else lru" and ?use = "if a \<notin># T then remove1 a use else use"
  obtain s1 where s1: "shard_Release a ?s = Some s1" "shard_inv (in_shard ?i) good T ?lru ?use s1" "frame (in_shard ?i) ?s s1"
    "cores s1 = (cores ?s)(a := if ?kept then cores ?s a else None)"
    using shard_Release_spec [OF i(1) e r] by blast
  obtain hp' c' where p: "s1 = (hp', c')" by (cases s1)
  let ?s' = "s\<lparr>sc_heap := hp', sc_shards := (sc_shards s)[?i := c']\<rparr>"
  have "no_result (shard_Release a) ?s = Some ((), hp', c')" using s1(1) p by (simp add: no_result_def)
  from on_shard_step [where f = "no_result (shard_Release a)", OF held this]
  have op: "cache_Release a s = Some ?s'" using e0 by (simp add: cache_Release_def)
  have co: "map_option core (hp_obj hp' b) = map_option core (hp_obj (sc_heap s) b)" if "b \<noteq> a \<or> a \<in># T" for b
    using fun_cong [OF s1(4), of b] that by (auto simp: cores_def p split: if_splits)
  have same: "held_key b ?s' = held_key b s \<and> cache_Value b ?s' = cache_Value b s" if "b \<noteq> a \<or> a \<in># T" for b
    using co [OF that] by (cases "hp_obj hp' b"; cases "hp_obj (sc_heap s) b") (simp_all add: held_key_def cache_Value_def core_def)
  have len: "length (?lru @ ?use) \<le> 2 ^ 30"
    using i(2) length_moved [of a use] by (cases "a \<in> set use") (auto simp: remove1_idem)
  have "cache_held good T ?s'"
  proof (rule shard_step [OF held Shard_less s1(3) [unfolded p] s1(2) [unfolded p] len])
    show "count T b = count (add_mset a T) b" if "hp_obj (sc_heap s) b = Some d" "\<not> in_shard ?i (h_hash d)" for b d
      using that e0 by (auto simp: in_shard_def)
    show "hp_obj hp' b \<noteq> None" if b: "b \<in># T" for b
    proof -
      have "hp_obj (sc_heap s) b \<noteq> None" using held b by (simp add: cache_held_def)
      moreover have "b \<noteq> a \<or> a \<in># T" using b by blast
      ultimately show ?thesis using co [of b] by (cases "hp_obj hp' b") auto
    qed
    show "size T < 2 ^ 30" by (rule r)
  qed
  moreover have o: "\<forall>b e. \<not> in_shard ?i (h_hash e) \<longrightarrow> hp_obj hp' b = Some e \<longleftrightarrow> hp_obj (sc_heap s) b = Some e"
    using s1(3) by (simp add: frame_def p)
  have k: "key_of (hp', c') b = (if b = a \<and> \<not> ?kept then None else key_of ?s b)" for b
    using s1(4) by (simp add: key_of_def p)
  have "listed k b s" if "listed k b ?s'" for k b
  proof (rule listed_moves [where s = ?s' and s' = s and i = ?i, OF _ _ i(1) _ that])
    show "shard_inv (in_shard ?i) good T ?lru ?use (sc_heap ?s', c')" using s1(2) by (simp add: p)
    show "b \<in> set (lru @ use) \<and> key_of ?s b = Some k" if "b \<in> set (?lru @ ?use)" "key_of (sc_heap ?s', c') b = Some k"
      using that k [of b] by (auto split: if_splits dest: notin_set_remove1)
  qed (use o in simp)
  moreover have "listed k b ?s'" if "b \<in># T" "listed k b s" for k b
  proof (rule listed_moves [where s = s and s' = ?s' and i = ?i, OF _ i(1) _ _ that(2)])
    show "shard_inv (in_shard ?i) good T ?lru ?use (sc_heap ?s', c')" using s1(2) by (simp add: p)
    show "b \<in> set (?lru @ ?use) \<and> key_of (sc_heap ?s', c') b = Some k" if "b \<in> set (lru @ use)" "key_of ?s b = Some k"
      using that \<open>b \<in># T\<close> k [of b] by (cases "b = a") (auto simp: in_set_remove1)
  qed (use o in simp)
  ultimately show ?thesis using op same by blast
qed


text \<open>The heap determines which entries are in the lists of a shard.\<close>

lemma in_shard_lists:
  assumes "shard_inv mine good T l u s" "shard_inv mine good T l' u' s"
  shows "mset (l @ u) = mset (l' @ u')"
proof -
  have "set xs \<subseteq> set ys" if h: "shard_inv mine good T lru use s" "shard_inv mine good T lru' use' s" "xs = lru @ use" "ys = lru' @ use'"
    for lru use lru' use' xs ys
  proof
    fix a assume "a \<in> set xs"
    then have a: "a \<in> set lru \<union> set use" using h(3) by simp
    obtain e where e: "data s a = Some e" "mine (h_hash e)" using shard_invD(6) [OF h(1) a] by blast
    have "h_in_cache e" using shard_invD(1) [OF h(1)] e a unfolding lists_inv_def entry_ok_def by blast
    then have "a \<in> set lru' \<union> set use'" using shard_invD(1) [OF h(2)] e unfolding lists_inv_def entry_ok_def by blast
    then show "a \<in> set ys" using h(4) by simp
  qed
  then have "set (l @ u) = set (l' @ u')" using assms by blast
  then show ?thesis using shard_invD(2) [OF assms(1)] shard_invD(2) [OF assms(2)] set_eq_iff_mset_eq_distinct by blast
qed

theorem cache_Insert_spec:
  assumes held: "cache_held good T s" and room: "size T + 1 < 2 ^ 30" and v: "good key v" and c: "0 < charge" "unat charge < 2 ^ 32"
  shows "\<exists>a s'. cache_Insert key v charge deleter s = Some (a, s') \<and> cache_held good (add_mset a T) s' \<and>
    cached good (add_mset a T) key a s' \<and> cache_Value a s' = Some v \<and> a \<notin># T \<and>
    (\<forall>b. b \<in># T \<longrightarrow> held_key b s' = held_key b s \<and> cache_Value b s' = cache_Value b s) \<and>
    (\<forall>k b. k \<noteq> key \<longrightarrow> listed k b s' \<longrightarrow> listed k b s) \<and> (\<forall>k b. k \<noteq> key \<longrightarrow> b \<in># T \<longrightarrow> listed k b s \<longrightarrow> listed k b s')"
proof -
  let ?i = "Shard (HashSlice key)" and ?s = "(sc_heap s, sc_shards s ! Shard (HashSlice key))"
  obtain lru use where i: "shard_inv (in_shard ?i) good T lru use ?s" "length (lru @ use) \<le> 2 ^ 30" "unat (lc_capacity (sc_shards s ! ?i)) \<le> 2 ^ 30"
    using held_shard(1) [OF held] by blast
  let ?a = "hp_fresh (fst ?s)" and ?lru = "filter (\<lambda>b. key_of ?s b \<noteq> Some key) lru" and ?use = "filter (\<lambda>b. key_of ?s b \<noteq> Some key) use"
  have dom: "hp_obj (sc_heap s) b \<noteq> None" if "b \<in># T" for b using held that by (simp add: cache_held_def)
  have none: "hp_obj (sc_heap s) ?a = None" using i(1) by (simp add: shard_inv_def)
  then have fresh: "?a \<notin># T" using dom by blast
  have m: "in_shard ?i (HashSlice key)" by (simp add: in_shard_def)
  obtain k s1 where s1: "shard_Insert key (HashSlice key) v charge deleter ?s = Some (?a, s1)" "k \<le> length ?lru"
    "shard_inv (in_shard ?i) good (add_mset ?a T) (drop k ?lru) (?use @ [?a]) s1" "frame (in_shard ?i) ?s s1"
    "k = length ?lru \<or> total ?s (drop k ?lru @ ?use) + unat charge \<le> unat (lc_capacity (snd ?s))"
    "cores s1 = (\<lambda>b. if b = ?a then Some (key, v, charge, HashSlice key, deleter)
      else if b \<in> set (filter (\<lambda>b. key_of ?s b = Some key) (lru @ use)) \<and> b \<notin># T \<or> b \<in> set (take k ?lru) then None else cores ?s b)"
    using shard_Insert_spec [where deleter = deleter, OF i(1,2) room fresh m v c] by blast
  obtain hp' c' where p: "s1 = (hp', c')" by (cases s1)
  let ?s' = "s\<lparr>sc_heap := hp', sc_shards := (sc_shards s)[?i := c']\<rparr>"
  have op: "cache_Insert key v charge deleter s = Some (?a, ?s')"
    using on_shard_step [where f = "shard_Insert key (HashSlice key) v charge deleter", OF held s1(1) [unfolded p]]
    by (simp add: cache_Insert_def Let_def)
  have ent: "entry_ok T lru use b e" if "data ?s b = Some e" "in_shard ?i (h_hash e)" for b e
    using shard_invD(1) [OF i(1)] that unfolding lists_inv_def by blast
  have nl: "b \<notin> set lru" if b: "b \<in># T" for b
  proof
    assume l: "b \<in> set lru"
    then obtain e where e: "data ?s b = Some e" "in_shard ?i (h_hash e)" using shard_invD(6) [OF i(1), of b] by auto
    have "b \<notin># T" using ent [OF e] l by (simp add: entry_ok_def not_in_iff)
    then show False using b by blast
  qed
  have co: "map_option core (hp_obj hp' b) = map_option core (hp_obj (sc_heap s) b)" if b: "b \<in># T" for b
  proof -
    have "b \<noteq> ?a" "b \<notin> set (take k ?lru)" using b fresh nl [OF b] by (auto dest: in_set_takeD)
    then have "cores s1 b = cores ?s b" using s1(6) b by simp
    then show ?thesis by (simp add: cores_def p)
  qed
  have same: "held_key b ?s' = held_key b s \<and> cache_Value b ?s' = cache_Value b s" if "b \<in># T" for b
    using co [OF that] by (cases "hp_obj hp' b"; cases "hp_obj (sc_heap s) b") (simp_all add: held_key_def cache_Value_def core_def)
  have "cores s1 ?a = Some (key, v, charge, HashSlice key, deleter)" using s1(6) by simp
  then obtain e where e: "hp_obj hp' ?a = Some e" "h_key_data e = key" "h_value e = v" by (auto simp: cores_obj p)
  have sz: "size (add_mset ?a T) < 2 ^ 30" using room by simp
  have len: "length (drop k ?lru @ ?use @ [?a]) \<le> 2 ^ 30"
  proof (cases "k = length ?lru")
    case True
    have "length (?use @ [?a]) \<le> size (add_mset ?a T)" using use_held [OF shard_invD(1) [OF s1(3)]] .
    then show ?thesis using True sz by simp
  next
    case False
    have bs: "base (in_shard ?i) good T lru use ?s" using i(1) by (simp add: shard_inv_base)
    have "set (drop k ?lru @ ?use) \<subseteq> set lru \<union> set use" by (auto dest: in_set_dropD)
    from total_bound(1) [OF bs this] have "length (drop k ?lru @ ?use) \<le> total ?s (drop k ?lru @ ?use)" .
    moreover have "0 < unat charge" using c(1) by (simp add: unat_gt_0)
    moreover have "total ?s (drop k ?lru @ ?use) + unat charge \<le> 2 ^ 30" using s1(5) False i(3) by simp
    ultimately show ?thesis by simp
  qed
  have held': "cache_held good (add_mset ?a T) ?s'"
  proof (rule shard_step [OF held Shard_less s1(4) [unfolded p] s1(3) [unfolded p] len])
    show "count (add_mset ?a T) b = count T b" if "hp_obj (sc_heap s) b = Some d" "\<not> in_shard ?i (h_hash d)" for b d
      using that none by auto
    show "hp_obj hp' b \<noteq> None" if b: "b \<in># add_mset ?a T" for b
    proof (cases "b = ?a")
      case False
      then have bT: "b \<in># T" using b by simp
      then show ?thesis using co [OF bT] dom [OF bT] by (cases "hp_obj hp' b") auto
    qed (use e in simp)
    show "size (add_mset ?a T) < 2 ^ 30" by (rule sz)
  qed
  have "?i < length (sc_shards s)" by (rule held_shard(2) [OF held])
  moreover have "lc_capacity c' = lc_capacity (sc_shards s ! ?i)" using s1(4) p by (simp add: frame_def)
  ultimately have "shard_held good (add_mset ?a T) ?i (drop k ?lru) (?use @ [?a]) ?s'"
    using s1(3) p len i(3) by (simp add: shard_held_def)
  then have "cached good (add_mset ?a T) key ?a ?s'" unfolding cached_def using e by (fastforce simp: held_key_def)
  moreover have o: "\<forall>b e. \<not> in_shard ?i (h_hash e) \<longrightarrow> hp_obj hp' b = Some e \<longleftrightarrow> hp_obj (sc_heap s) b = Some e"
    using s1(4) by (simp add: frame_def p)
  have ka: "key_of (hp', c') b = (if b = ?a then Some key
      else if b \<in> set (filter (\<lambda>b. key_of ?s b = Some key) (lru @ use)) \<and> b \<notin># T \<or> b \<in> set (take k ?lru) then None else key_of ?s b)" for b
    unfolding key_of_def [of "(hp', c')"] s1(6) [unfolded p] by (simp only: fst_conv if_distrib [of "map_option fst"] option.map key_of_def [of ?s])
  have "listed k' b s" if "k' \<noteq> key" "listed k' b ?s'" for k' b
  proof (rule listed_moves [where s = ?s' and s' = s and i = ?i, OF _ _ i(1) _ that(2)])
    show "shard_inv (in_shard ?i) good (add_mset ?a T) (drop k ?lru) (?use @ [?a]) (sc_heap ?s', c')" using s1(3) by (simp add: p)
    show "b \<in> set (lru @ use) \<and> key_of ?s b = Some k'" if "b \<in> set (drop k ?lru @ ?use @ [?a])" "key_of (sc_heap ?s', c') b = Some k'"
      using that \<open>k' \<noteq> key\<close> ka [of b] by (auto split: if_splits dest!: in_set_dropD)
  qed (use o in simp)
  moreover have "listed k' b ?s'" if "k' \<noteq> key" "b \<in># T" "listed k' b s" for k' b
  proof (rule listed_moves [where s = s and s' = ?s' and i = ?i, OF _ i(1) _ _ that(3)])
    show "shard_inv (in_shard ?i) good (add_mset ?a T) (drop k ?lru) (?use @ [?a]) (sc_heap ?s', c')" using s1(3) by (simp add: p)
    show "b \<in> set (drop k ?lru @ ?use @ [?a]) \<and> key_of (sc_heap ?s', c') b = Some k'" if "b \<in> set (lru @ use)" "key_of ?s b = Some k'"
      using that \<open>k' \<noteq> key\<close> \<open>b \<in># T\<close> nl [OF \<open>b \<in># T\<close>] fresh ka [of b] by (auto dest!: in_set_takeD)
  qed (use o in simp)
  ultimately show ?thesis using op held' same fresh e(1,3) by (intro exI [of _ ?a] exI [of _ ?s']) (simp add: cache_Value_def)
qed

text \<open>A cached entry is what a lookup of its key finds.\<close>

theorem cache_Lookup_cached:
  assumes held: "cache_held good T s" and room: "size T + 1 < 2 ^ 30" and a: "cached good T key a s"
  shows "\<exists>s'. cache_Lookup key s = Some (Some a, s')"
proof -
  let ?i = "Shard (HashSlice key)" and ?s = "(sc_heap s, sc_shards s ! Shard (HashSlice key))"
  obtain lru use where i: "shard_inv (in_shard ?i) good T lru use ?s" "a \<in> set (lru @ use)"
    using a by (auto simp: cached_def shard_held_def)
  have ka: "key_of ?s a = Some key"
    using a by (cases "hp_obj (sc_heap s) a") (simp_all add: cached_def held_key_def key_of_def cores_def core_def)
  have r: "size T < 2 ^ 30" using room by simp
  obtain b s1 where b: "shard_Lookup key (HashSlice key) ?s = Some (Some b, s1)" "b \<in> set (lru @ use)" "key_of ?s b = Some key"
    using shard_Lookup_spec [OF i(1) r, of key] ka i(2) by blast
  have "b = a" using inj_onD [OF shard_invD(8) [OF i(1)] _ b(2) i(2)] b(3) ka by simp
  moreover obtain hp' c' where "s1 = (hp', c')" by (cases s1)
  ultimately show ?thesis using on_shard_step [where f = "shard_Lookup key (HashSlice key)", OF held, of "HashSlice key" "Some b" hp' c'] b(1)
    by (simp add: cache_Lookup_def Let_def)
qed

theorem cache_Erase_spec:
  assumes held: "cache_held good T s"
  shows "\<exists>s'. cache_Erase key s = Some s' \<and> cache_held good T s' \<and> (\<forall>a. \<not> cached good T key a s') \<and>
    (\<forall>b. b \<in># T \<longrightarrow> held_key b s' = held_key b s \<and> cache_Value b s' = cache_Value b s) \<and>
    (\<forall>k b. listed k b s' \<longleftrightarrow> listed k b s \<and> k \<noteq> key)"
proof -
  let ?i = "Shard (HashSlice key)" and ?s = "(sc_heap s, sc_shards s ! Shard (HashSlice key))"
  obtain lru use where i: "shard_inv (in_shard ?i) good T lru use ?s" "length (lru @ use) \<le> 2 ^ 30" "unat (lc_capacity (sc_shards s ! ?i)) \<le> 2 ^ 30"
    using held_shard(1) [OF held] by blast
  have r: "size T < 2 ^ 30" and dom: "\<And>b. b \<in># T \<Longrightarrow> hp_obj (sc_heap s) b \<noteq> None" using held by (simp_all add: cache_held_def)
  obtain s1 lru' use' where s1: "shard_Erase key (HashSlice key) ?s = Some s1" "shard_inv (in_shard ?i) good T lru' use' s1"
    "frame (in_shard ?i) ?s s1" "\<forall>a \<in> set (lru' @ use'). key_of s1 a \<noteq> Some key"
    "set (lru' @ use') = {a \<in> set (lru @ use). key_of ?s a \<noteq> Some key}" "\<forall>a. a \<in># T \<or> key_of ?s a \<noteq> Some key \<longrightarrow> cores s1 a = cores ?s a"
    using shard_Erase_spec [OF i(1) r, of key] by blast
  obtain hp' c' where p: "s1 = (hp', c')" by (cases s1)
  let ?s' = "s\<lparr>sc_heap := hp', sc_shards := (sc_shards s)[?i := c']\<rparr>"
  have "no_result (shard_Erase key (HashSlice key)) ?s = Some ((), hp', c')" using s1(1) p by (simp add: no_result_def)
  from on_shard_step [where f = "no_result (shard_Erase key (HashSlice key))", OF held this]
  have op: "cache_Erase key s = Some ?s'" by (simp add: cache_Erase_def Let_def)
  have co: "map_option core (hp_obj hp' b) = map_option core (hp_obj (sc_heap s) b)" if "b \<in># T" for b
    using s1(6) that by (simp add: cores_def p)
  have same: "held_key b ?s' = held_key b s \<and> cache_Value b ?s' = cache_Value b s" if "b \<in># T" for b
    using co [OF that] by (cases "hp_obj hp' b"; cases "hp_obj (sc_heap s) b") (simp_all add: held_key_def cache_Value_def core_def)
  have "card (set (lru' @ use')) \<le> card (set (lru @ use))" unfolding s1(5) by (intro card_mono) auto
  then have len: "length (lru' @ use') \<le> 2 ^ 30"
    using i(2) distinct_card [OF shard_invD(2) [OF i(1)]] distinct_card [OF shard_invD(2) [OF s1(2)]] by simp
  have held': "cache_held good T ?s'"
  proof (rule shard_step [OF held Shard_less s1(3) [unfolded p] s1(2) [unfolded p] len])
    show "hp_obj hp' b \<noteq> None" if "b \<in># T" for b using co [OF that] dom [OF that] by (cases "hp_obj hp' b") auto
  qed (use r in simp_all)
  have "\<not> cached good T key a ?s'" for a
  proof
    assume "cached good T key a ?s'"
    then obtain l u where c: "held_key a ?s' = Some key" "shard_held good T ?i l u ?s'" "a \<in> set (l @ u)" by (auto simp: cached_def)
    have "?i < length (sc_shards s)" by (rule held_shard(2) [OF held])
    then have "shard_inv (in_shard ?i) good T l u s1" using c(2) by (simp add: shard_held_def p)
    then have "mset (l @ u) = mset (lru' @ use')"
      using in_shard_lists [OF _ s1(2)] by blast
    then have "a \<in> set (lru' @ use')" using c(3) by (metis mset_eq_setD)
    moreover have "key_of s1 a = Some key"
      using c(1) by (cases "hp_obj hp' a") (simp_all add: held_key_def key_of_def cores_def core_def p)
    ultimately show False using s1(4) by blast
  qed
  moreover have o: "\<forall>b e. \<not> in_shard ?i (h_hash e) \<longrightarrow> hp_obj hp' b = Some e \<longleftrightarrow> hp_obj (sc_heap s) b = Some e"
    using s1(3) by (simp add: frame_def p)
  have kk: "key_of (hp', c') b = key_of ?s b" if "key_of ?s b \<noteq> Some key" for b using s1(6) that by (simp add: key_of_def p)
  have v: "shard_inv (in_shard ?i) good T lru' use' (sc_heap ?s', c')" using s1(2) by (simp add: p)
  have "listed k b s \<and> k \<noteq> key" if l: "listed k b ?s'" for k b
  proof
    show "listed k b s"
    proof (rule listed_moves [where s = ?s' and s' = s and i = ?i, OF _ v i(1) _ l])
      show "b \<in> set (lru @ use) \<and> key_of ?s b = Some k" if "b \<in> set (lru' @ use')" "key_of (sc_heap ?s', c') b = Some k"
        using that s1(5) kk [of b] by fastforce
    qed (use o in simp)
    show "k \<noteq> key" using l calculation cached_listed [OF held'] by blast
  qed
  moreover have "listed k b ?s'" if l: "listed k b s" "k \<noteq> key" for k b
  proof (rule listed_moves [where s = s and s' = ?s' and i = ?i, OF _ i(1) v _ l(1)])
    show "b \<in> set (lru' @ use') \<and> key_of (sc_heap ?s', c') b = Some k" if "b \<in> set (lru @ use)" "key_of ?s b = Some k"
      using that s1(5) kk [of b] l(2) by auto
  qed (use o in simp)
  ultimately show ?thesis using op held' same by blast
qed

text \<open>Pruning removes what no client holds, and nothing else.\<close>

definition keeps_held :: "nat multiset \<Rightarrow> 'v sharded_cache \<Rightarrow> 'v sharded_cache \<Rightarrow> bool" where
  "keeps_held T s s' \<longleftrightarrow> (\<forall>b. b \<in># T \<longrightarrow> held_key b s' = held_key b s \<and> cache_Value b s' = cache_Value b s) \<and>
     (\<forall>k b. listed k b s' \<longrightarrow> listed k b s) \<and> (\<forall>k b. b \<in># T \<longrightarrow> listed k b s \<longrightarrow> listed k b s')"

lemma keeps_held_trans:
  assumes "keeps_held T s s1" "keeps_held T s1 s2"
  shows "keeps_held T s s2"
  unfolding keeps_held_def
proof (intro conjI allI impI)
  show "held_key b s2 = held_key b s" "cache_Value b s2 = cache_Value b s" if "b \<in># T" for b
    using assms that unfolding keeps_held_def by simp_all
  show "listed k b s" if "listed k b s2" for k b using assms that unfolding keeps_held_def by blast
  show "listed k b s2" if "b \<in># T" "listed k b s" for k b using assms that unfolding keeps_held_def by blast
qed

lemma prune_shard:
  assumes held: "cache_held good T s" and n: "n < kNumShards"
  shows "\<exists>s'. on_shard n (no_result shard_Prune) s = Some ((), s') \<and> cache_held good T s' \<and> keeps_held T s s'"
proof -
  let ?s = "(sc_heap s, sc_shards s ! n)"
  obtain lru use where i: "shard_inv (in_shard n) good T lru use ?s" "length (lru @ use) \<le> 2 ^ 30" "n < length (sc_shards s)"
    using held n unfolding cache_held_def shard_held_def by metis
  have r: "size T < 2 ^ 30" and dom: "\<And>b. b \<in># T \<Longrightarrow> hp_obj (sc_heap s) b \<noteq> None" using held by (simp_all add: cache_held_def)
  obtain s1 where s1: "shard_Prune ?s = Some s1" "shard_inv (in_shard n) good T [] use s1" "frame (in_shard n) ?s s1"
    "cores s1 = (\<lambda>b. if b \<in> set lru then None else cores ?s b)" using shard_Prune_spec [OF i(1) r] by blast
  obtain hp' c' where p: "s1 = (hp', c')" by (cases s1)
  let ?s' = "s\<lparr>sc_heap := hp', sc_shards := (sc_shards s)[n := c']\<rparr>"
  have op: "on_shard n (no_result shard_Prune) s = Some ((), ?s')" using s1(1) p i(3) by (simp add: on_shard_def no_result_def)
  have nl: "b \<notin> set lru" if b: "b \<in># T" for b
  proof
    assume l: "b \<in> set lru"
    then obtain e where e: "data ?s b = Some e" "in_shard n (h_hash e)" using shard_invD(6) [OF i(1), of b] by auto
    then have "entry_ok T lru use b e" using shard_invD(1) [OF i(1)] unfolding lists_inv_def by blast
    then show False using l b by (simp add: entry_ok_def count_eq_zero_iff)
  qed
  have co: "map_option core (hp_obj hp' b) = map_option core (hp_obj (sc_heap s) b)" if "b \<in># T" for b
    using s1(4) nl [OF that] by (simp add: cores_def p fun_eq_iff)
  have same: "held_key b ?s' = held_key b s \<and> cache_Value b ?s' = cache_Value b s" if "b \<in># T" for b
    using co [OF that] by (cases "hp_obj hp' b"; cases "hp_obj (sc_heap s) b") (simp_all add: held_key_def cache_Value_def core_def)
  have len: "length ([] @ use) \<le> 2 ^ 30" using i(2) by simp
  have held': "cache_held good T ?s'"
  proof (rule shard_step [OF held n s1(3) [unfolded p] s1(2) [unfolded p] len])
    show "hp_obj hp' b \<noteq> None" if "b \<in># T" for b using co [OF that] dom [OF that] by (cases "hp_obj hp' b") auto
  qed (use r in simp_all)
  have o: "\<forall>b e. \<not> in_shard n (h_hash e) \<longrightarrow> hp_obj hp' b = Some e \<longleftrightarrow> hp_obj (sc_heap s) b = Some e"
    using s1(3) by (simp add: frame_def p)
  have kk: "key_of (hp', c') b = (if b \<in> set lru then None else key_of ?s b)" for b using s1(4) by (simp add: key_of_def p)
  have v: "shard_inv (in_shard n) good T [] use (sc_heap ?s', c')" using s1(2) by (simp add: p)
  have "listed k b s" if l: "listed k b ?s'" for k b
  proof (rule listed_moves [where s = ?s' and s' = s and i = n, OF _ v i(1) _ l])
    show "b \<in> set (lru @ use) \<and> key_of ?s b = Some k" if "b \<in> set ([] @ use)" "key_of (sc_heap ?s', c') b = Some k"
      using that kk [of b] by (auto split: if_splits)
  qed (use o in simp)
  moreover have "listed k b ?s'" if l: "b \<in># T" "listed k b s" for k b
  proof (rule listed_moves [where s = s and s' = ?s' and i = n, OF _ i(1) v _ l(2)])
    show "b \<in> set ([] @ use) \<and> key_of (sc_heap ?s', c') b = Some k" if "b \<in> set (lru @ use)" "key_of ?s b = Some k"
      using that kk [of b] nl [OF l(1)] by auto
  qed (use o in simp)
  ultimately show ?thesis using op held' same by (simp add: keeps_held_def)
qed

lemma prune_shards_spec:
  assumes "cache_held good T s" "\<forall>n \<in> set ns. n < kNumShards"
  shows "\<exists>s'. prune_shards ns s = Some s' \<and> cache_held good T s' \<and> keeps_held T s s'"
  using assms
proof (induction ns arbitrary: s)
  case (Cons n ns)
  obtain s1 where s1: "on_shard n (no_result shard_Prune) s = Some ((), s1)" "cache_held good T s1" "keeps_held T s s1"
    using prune_shard [OF Cons.prems(1)] Cons.prems(2) by auto
  obtain s' where s': "prune_shards ns s1 = Some s'" "cache_held good T s'" "keeps_held T s1 s'"
    using Cons.IH [OF s1(2)] Cons.prems(2) by auto
  have "keeps_held T s s'" by (rule keeps_held_trans [OF s1(3) s'(3)])
  then show ?case using s1(1) s'(1,2) by simp
qed (simp add: keeps_held_def)

theorem cache_Prune_spec: "cache_held good T s \<Longrightarrow> \<exists>s'. cache_Prune s = Some s' \<and> cache_held good T s' \<and> keeps_held T s s'"
  unfolding cache_Prune_def by (rule prune_shards_spec, assumption, rule ballI, simp)

theorem cache_NewId_spec: "cache_held good T s \<Longrightarrow> cache_held good T (snd (cache_NewId s))"
  by (simp add: cache_held_def shard_held_def cache_NewId_def)

subsection \<open>A new cache\<close>

lemma make_shards_spec:
  assumes cap: "0 < capacity" and no: "\<And>a. hp_obj hp a = None"
  shows "\<exists>cs. make_shards n capacity hp = Some (hp, cs) \<and> length cs = n \<and>
    (\<forall>i < n. \<forall>mine. shard_inv mine good T [] [] (hp, cs ! i) \<and> lc_capacity (cs ! i) = capacity)"
proof (induction n)
  case (Suc n)
  have c: "\<exists>c. LRUCache hp = Some (hp, c) \<and> (\<forall>mine. shard_inv mine good T [] [] (hp, SetCapacity capacity c) \<and> lc_capacity (SetCapacity capacity c) = capacity)"
  proof -
    obtain c where "LRUCache hp = Some (hp, c)" using LRUCache_spec [of hp "\<lambda>_. False", OF _ _ cap] no by fastforce
    moreover have "shard_inv mine good T [] [] (hp, SetCapacity capacity c) \<and> lc_capacity (SetCapacity capacity c) = capacity" for mine
      using LRUCache_spec [of hp mine capacity good T, OF _ _ cap] no calculation by fastforce
    ultimately show ?thesis by blast
  qed
  then show ?case using Suc.IH by (fastforce simp: less_Suc_eq_0_disj)
qed simp

theorem ShardedLRUCache_spec:
  assumes cap: "0 < capacity" "unat capacity \<le> 2 ^ 34" and no: "\<And>a. hp_obj hp a = None"
  shows "\<exists>s. ShardedLRUCache capacity hp = Some s \<and> cache_held good {#} s"
proof -
  let ?p = "(capacity + (of_nat kNumShards - 1)) div of_nat kNumShards :: u64"
  have "unat (capacity + 15) = unat capacity + unat (15 :: u64)"
  proof (rule iffD1 [OF unat_add_lem])
    show "unat capacity + unat (15 :: u64) < 2 ^ LENGTH(64)" using cap(2) by simp
  qed
  then have "unat ((capacity + 15) div 16) = (unat capacity + 15) div 16" by (simp add: unat_div_distrib)
  moreover have "?p = (capacity + 15) div 16" by (simp add: kNumShards_def kNumShardBits_def)
  ultimately have u: "unat ?p = (unat capacity + 15) div 16" by simp
  have "0 < unat capacity" using cap(1) by (simp add: unat_gt_0)
  then have p: "0 < ?p" "unat ?p \<le> 2 ^ 30" using u cap(2) by (simp_all add: word_gt_0 flip: unat_gt_0)
  obtain cs where "make_shards kNumShards ?p hp = Some (hp, cs)" "length cs = kNumShards"
    "\<forall>i < kNumShards. \<forall>mine. shard_inv mine good {#} [] [] (hp, cs ! i) \<and> lc_capacity (cs ! i) = ?p"
    using make_shards_spec [OF p(1) no] by blast
  then show ?thesis using p(2) by (auto simp: ShardedLRUCache_def Let_def cache_held_def shard_held_def intro!: exI [of _ "[]"])
qed

definition empty_heap :: "'v heap" where "empty_heap = \<lparr>hp_fresh = 0, hp_obj = (\<lambda>a. None), hp_deleted = []\<rparr>"

lemma new_cache:
  assumes "0 < capacity" "unat capacity \<le> 2 ^ 34"
  shows "\<exists>s. ShardedLRUCache capacity (empty_heap :: 'v heap) = Some s \<and> cache_held good {#} s"
  using ShardedLRUCache_spec [OF assms, of "empty_heap :: 'v heap" good] by (simp add: empty_heap_def)

end
