(* ===== verification/Lv_Cache_Correct.thy ===== *)
theory Lv_Cache_Correct
  imports Lv_Cache_Shared
begin

section \<open>What the cache guarantees\<close>

text \<open>
  The properties of the LRU cache: a client that releases each handle it was given once never meets a freed entry, however its
  calls are ordered; what it inserted is found until it leaves; and the entries that leave are the oldest unused ones.
\<close>

subsection \<open>Clients\<close>

text \<open>
  A client's calls. It keeps the handles it holds, with the key and the value they were obtained for; a release names one of
  them by its position, and one out of range is no call.
\<close>

datatype 'v cache_call = CallInsert slice 'v u64 | CallLookup slice | CallRelease nat | CallErase slice | CallNewId | CallPrune

type_synonym 'v client = "(slice \<times> 'v \<times> nat) list \<times> 'v sharded_cache"

definition client_step :: "'v cache_call \<Rightarrow> 'v client \<Rightarrow> 'v client option" where
  "client_step call st =
     (case st of (hs, s) \<Rightarrow>
       (case call of
          CallInsert k v charge \<Rightarrow> do { (a, s1) \<leftarrow> cache_Insert k v charge 0 s; Some ((k, v, a) # hs, s1) }
        | CallLookup k \<Rightarrow> do {
            (r, s1) \<leftarrow> cache_Lookup k s;
            (case r of None \<Rightarrow> Some (hs, s1) | Some a \<Rightarrow> do { v \<leftarrow> cache_Value a s1; Some ((k, v, a) # hs, s1) })
          }
        | CallRelease i \<Rightarrow>
            if i < length hs
            then do { s1 \<leftarrow> cache_Release (snd (snd (hs ! i))) s; Some (take i hs @ drop (Suc i) hs, s1) }
            else Some (hs, s)
        | CallErase k \<Rightarrow> do { s1 \<leftarrow> cache_Erase k s; Some (hs, s1) }
        | CallNewId \<Rightarrow> Some (hs, snd (cache_NewId s))
        | CallPrune \<Rightarrow> do { s1 \<leftarrow> cache_Prune s; Some (hs, s1) }))"

fun client_run :: "'v cache_call list \<Rightarrow> 'v client \<Rightarrow> 'v client option" where
  "client_run [] st = Some st"
| "client_run (call # calls) st = do { st1 \<leftarrow> client_step call st; client_run calls st1 }"

text \<open>A charge is positive and less than \<open>2 ^ 32\<close>.\<close>

definition call_ok :: "'v cache_call \<Rightarrow> bool" where
  "call_ok call \<longleftrightarrow> (case call of CallInsert k v charge \<Rightarrow> 0 < charge \<and> unat charge < 2 ^ 32 | _ \<Rightarrow> True)"

text \<open>The calls that put an entry under a key, and those that take away the entry there.\<close>

definition inserts :: "slice \<Rightarrow> 'v cache_call \<Rightarrow> bool" where
  "inserts key call \<longleftrightarrow> (case call of CallInsert k v charge \<Rightarrow> k = key | _ \<Rightarrow> False)"

definition displaces :: "slice \<Rightarrow> 'v cache_call \<Rightarrow> bool" where
  "displaces key call \<longleftrightarrow> (case call of CallInsert k v charge \<Rightarrow> k = key | CallErase k \<Rightarrow> k = key | _ \<Rightarrow> False)"

text \<open>The client's handles are good, while others hold the handles \<open>X\<close>.\<close>

definition client_beside :: "nat multiset \<Rightarrow> 'v client \<Rightarrow> bool" where
  "client_beside X st \<longleftrightarrow> (case st of (hs, s) \<Rightarrow> cache_held (\<lambda>k v. True) (mset (map (snd \<circ> snd) hs) + X) s \<and>
     (\<forall>(k, v, a) \<in> set hs. held_key a s = Some k \<and> cache_Value a s = Some v))"

text \<open>What calls do to the entries the others hold, and to what is in the cache.\<close>

definition beside_kept :: "nat multiset \<Rightarrow> 'v cache_call set \<Rightarrow> 'v sharded_cache \<Rightarrow> 'v sharded_cache \<Rightarrow> bool" where
  "beside_kept X calls s s' \<longleftrightarrow>
     (\<forall>b. b \<in># X \<longrightarrow> held_key b s' = held_key b s \<and> cache_Value b s' = cache_Value b s) \<and>
     (\<forall>key b. (\<forall>call \<in> calls. \<not> displaces key call) \<longrightarrow> b \<in># X \<longrightarrow> listed key b s \<longrightarrow> listed key b s') \<and>
     (\<forall>key b. (\<forall>call \<in> calls. \<not> inserts key call) \<longrightarrow> listed key b s' \<longrightarrow> listed key b s)"

lemma beside_kept_refl: "beside_kept X calls s s" by (simp add: beside_kept_def)

lemma beside_kept_trans: "beside_kept X A s s1 \<Longrightarrow> beside_kept X B s1 s2 \<Longrightarrow> beside_kept X (A \<union> B) s s2"
  by (auto simp: beside_kept_def)

lemma held_cong:
  assumes "\<forall>(k, v, a) \<in> set hs. held_key a s = Some k \<and> cache_Value a s = Some v"
    "\<And>b. b \<in># mset (map (snd \<circ> snd) hs) \<Longrightarrow> held_key b s' = held_key b s \<and> cache_Value b s' = cache_Value b s"
  shows "\<forall>(k, v, a) \<in> set hs. held_key a s' = Some k \<and> cache_Value a s' = Some v"
  using assms by fastforce

lemma client_step_beside:
  assumes ok: "client_beside X (hs, s)" and call: "call_ok call" and room: "length hs + size X + 1 < 2 ^ 30"
  shows "\<exists>hs' s'. client_step call (hs, s) = Some (hs', s') \<and> client_beside X (hs', s') \<and> length hs' \<le> length hs + 1 \<and>
    beside_kept X {call} s s'"
proof -
  let ?T = "mset (map (snd \<circ> snd) hs) + X"
  have held: "cache_held (\<lambda>k v. True) ?T s" and hs: "\<forall>(k, v, a) \<in> set hs. held_key a s = Some k \<and> cache_Value a s = Some v"
    using ok by (simp_all add: client_beside_def)
  have sz: "size ?T + 1 < 2 ^ 30" using room by simp
  show ?thesis
  proof (cases call)
    case (CallInsert k v charge)
    then have c: "0 < charge" "unat charge < 2 ^ 32" using call by (simp_all add: call_ok_def)
    obtain a s' where a: "cache_Insert k v charge 0 s = Some (a, s')" "cache_held (\<lambda>k v. True) (add_mset a ?T) s'"
      "held_key a s' = Some k" "cache_Value a s' = Some v"
      "\<forall>b. b \<in># ?T \<longrightarrow> held_key b s' = held_key b s \<and> cache_Value b s' = cache_Value b s"
      "\<forall>key b. key \<noteq> k \<longrightarrow> listed key b s' \<longrightarrow> listed key b s" "\<forall>key b. key \<noteq> k \<longrightarrow> b \<in># ?T \<longrightarrow> listed key b s \<longrightarrow> listed key b s'"
      using cache_Insert_spec [OF held sz TrueI c, of k v 0] by (auto simp: cached_def)
    have "\<forall>(k, v, a) \<in> set hs. held_key a s' = Some k \<and> cache_Value a s' = Some v" using held_cong [OF hs] a(5) by simp
    then have "client_beside X ((k, v, a) # hs, s')" using a(2-4) by (simp add: client_beside_def)
    moreover have "beside_kept X {call} s s'" using a(5-7) CallInsert by (auto simp: beside_kept_def displaces_def inserts_def)
    ultimately show ?thesis using a(1) CallInsert by (simp add: client_step_def)
  next
    case (CallLookup k)
    consider "cache_Lookup k s = Some (None, s)"
      | (found) a s' v where "cache_Lookup k s = Some (Some a, s')" "cache_held (\<lambda>k v. True) (add_mset a ?T) s'" "held_key a s' = Some k"
        "cache_Value a s' = Some v" "\<forall>b. held_key b s' = held_key b s \<and> cache_Value b s' = cache_Value b s"
        "\<forall>k b. listed k b s' \<longleftrightarrow> listed k b s"
      using cache_Lookup_spec [OF held sz, of k] by blast
    then show ?thesis
    proof cases
      case found
      have "\<forall>(k, v, a) \<in> set hs. held_key a s' = Some k \<and> cache_Value a s' = Some v" using held_cong [OF hs] found(5) by blast
      then have "client_beside X ((k, v, a) # hs, s')" using found(2-4) by (simp add: client_beside_def)
      moreover have "beside_kept X {call} s s'" using found(5,6) by (simp add: beside_kept_def)
      ultimately show ?thesis using found(1,4) CallLookup by (simp add: client_step_def)
    qed (use ok CallLookup beside_kept_refl in \<open>simp add: client_step_def\<close>)
  next
    case (CallRelease i)
    show ?thesis
    proof (cases "i < length hs")
      case True
      let ?a = "snd (snd (hs ! i))" and ?hs = "take i hs @ drop (Suc i) hs"
      let ?R = "mset (map (snd \<circ> snd) ?hs) + X"
      have "mset (map (snd \<circ> snd) (take i hs @ hs ! i # drop (Suc i) hs)) = add_mset ?a (mset (map (snd \<circ> snd) ?hs))" by simp
      then have m: "?T = add_mset ?a ?R" using id_take_nth_drop [OF True] by simp
      have held': "cache_held (\<lambda>k v. True) (add_mset ?a ?R) s" using held unfolding m .
      obtain s' where s': "cache_Release ?a s = Some s'" "cache_held (\<lambda>k v. True) ?R s'"
        "\<forall>b. b \<noteq> ?a \<or> ?a \<in># ?R \<longrightarrow> held_key b s' = held_key b s \<and> cache_Value b s' = cache_Value b s"
        "\<forall>k b. listed k b s' \<longrightarrow> listed k b s" "\<forall>k b. b \<in># ?R \<longrightarrow> listed k b s \<longrightarrow> listed k b s'"
        using cache_Release_spec [OF held'] by blast
      have R: "held_key b s' = held_key b s \<and> cache_Value b s' = cache_Value b s" if "b \<in># ?R" for b
        using s'(3) that by (cases "b = ?a") blast+
      have "\<forall>(k, v, a) \<in> set ?hs. held_key a s = Some k \<and> cache_Value a s = Some v"
        using hs by (auto dest: in_set_takeD in_set_dropD)
      moreover have "held_key b s' = held_key b s \<and> cache_Value b s' = cache_Value b s" if "b \<in># mset (map (snd \<circ> snd) ?hs)" for b
        using R [of b] that by (simp only: union_iff simp_thms)
      ultimately have "\<forall>(k, v, a) \<in> set ?hs. held_key a s' = Some k \<and> cache_Value a s' = Some v" by (rule held_cong)
      then have "client_beside X (?hs, s')" using s'(2) by (simp add: client_beside_def)
      moreover have "beside_kept X {call} s s'" using R s'(4,5) by (simp add: beside_kept_def)
      ultimately show ?thesis using s'(1) True CallRelease by (simp add: client_step_def)
    qed (use ok CallRelease beside_kept_refl in \<open>simp add: client_step_def\<close>)
  next
    case (CallErase k)
    obtain s' where s': "cache_Erase k s = Some s'" "cache_held (\<lambda>k v. True) ?T s'"
      "\<forall>b. b \<in># ?T \<longrightarrow> held_key b s' = held_key b s \<and> cache_Value b s' = cache_Value b s"
      "\<forall>key b. listed key b s' \<longleftrightarrow> listed key b s \<and> key \<noteq> k"
      using cache_Erase_spec [OF held, of k] by blast
    have "\<forall>(k, v, a) \<in> set hs. held_key a s' = Some k \<and> cache_Value a s' = Some v" using held_cong [OF hs] s'(3) by simp
    then have "client_beside X (hs, s')" using s'(2) by (simp add: client_beside_def)
    moreover have "beside_kept X {call} s s'" using s'(3,4) CallErase by (auto simp: beside_kept_def displaces_def)
    ultimately show ?thesis using s'(1) CallErase by (simp add: client_step_def)
  next
    case CallNewId
    have "client_beside X (hs, snd (cache_NewId s))" "beside_kept X {call} s (snd (cache_NewId s))"
      using cache_NewId_spec [OF held] hs
      by (simp_all add: client_beside_def beside_kept_def cache_NewId_def held_key_def cache_Value_def listed_def)
    then show ?thesis using CallNewId by (simp add: client_step_def)
  next
    case CallPrune
    obtain s' where s': "cache_Prune s = Some s'" "cache_held (\<lambda>k v. True) ?T s'" "keeps_held ?T s s'"
      using cache_Prune_spec [OF held] by blast
    have "\<forall>(k, v, a) \<in> set hs. held_key a s' = Some k \<and> cache_Value a s' = Some v"
      using held_cong [OF hs] s'(3) by (simp add: keeps_held_def)
    then have "client_beside X (hs, s')" using s'(2) by (simp add: client_beside_def)
    moreover have "beside_kept X {call} s s'" using s'(3) by (simp add: beside_kept_def keeps_held_def)
    ultimately show ?thesis using s'(1) CallPrune by (simp add: client_step_def)
  qed
qed

lemma client_run_beside:
  assumes "client_beside X (hs, s)" "\<forall>call \<in> set calls. call_ok call" "length hs + size X + length calls < 2 ^ 30"
  shows "\<exists>hs' s'. client_run calls (hs, s) = Some (hs', s') \<and> client_beside X (hs', s') \<and> length hs' \<le> length hs + length calls \<and>
    beside_kept X (set calls) s s'"
  using assms
proof (induction calls arbitrary: hs s)
  case Nil
  then show ?case by (simp add: beside_kept_refl)
next
  case (Cons call calls)
  obtain hs1 s1 where s1: "client_step call (hs, s) = Some (hs1, s1)" "client_beside X (hs1, s1)" "length hs1 \<le> length hs + 1"
    "beside_kept X {call} s s1"
    using client_step_beside [OF Cons.prems(1), of call] Cons.prems(2,3) by auto
  obtain hs' s' where s': "client_run calls (hs1, s1) = Some (hs', s')" "client_beside X (hs', s')" "length hs' \<le> length hs1 + length calls"
    "beside_kept X (set calls) s1 s'"
    using Cons.IH [OF s1(2)] Cons.prems(2,3) s1(3) by auto
  have "beside_kept X (set (call # calls)) s s'" using beside_kept_trans [OF s1(4) s'(4)] by simp
  then show ?case using s1(1,3) s'(1-3) by simp
qed

text \<open>
  C37. No handle goes bad while it is held. A client makes any sequence of calls on a new cache of any capacity from 1 to 16 GiB:
  it inserts, looks up, erases, prunes, takes ids and releases handles it holds. Every call is defined: no freed entry is touched, no
  assertion fails, no reference count or usage overflows. In the end every handle it still holds has the key it was obtained
  for and the value that was inserted under it, whatever was evicted, replaced or erased meanwhile.
\<close>

theorem cache_handles_stay_good:
  fixes calls :: "'v cache_call list"
  assumes "0 < capacity" "unat capacity \<le> 2 ^ 34" "\<forall>call \<in> set calls. call_ok call" "length calls < 2 ^ 30"
  shows "\<exists>s hs s'. ShardedLRUCache capacity empty_heap = Some s \<and> client_run calls ([], s) = Some (hs, s') \<and>
    (\<forall>(k, v, a) \<in> set hs. held_key a s' = Some k \<and> cache_Value a s' = Some v)"
proof -
  obtain s :: "'v sharded_cache" where s: "ShardedLRUCache capacity empty_heap = Some s" "cache_held (\<lambda>k v. True) {#} s"
    using new_cache [OF assms(1,2)] by blast
  have "client_beside {#} ([], s)" using s(2) by (simp add: client_beside_def)
  from client_run_beside [OF this assms(3)] s(1) assms(4) show ?thesis by (fastforce simp: client_beside_def)
qed

theorem cache_handles_stay_good_witness:
  "\<exists>s hs s'. ShardedLRUCache 1 empty_heap = Some s \<and>
    client_run [CallInsert [1] (10 :: nat) 1, CallInsert [1] 11 1, CallErase [1], CallLookup [1]] ([], s) = Some (hs, s') \<and>
    (\<forall>(k, v, a) \<in> set hs. held_key a s' = Some k \<and> cache_Value a s' = Some v)"
  by (rule cache_handles_stay_good) (simp_all add: call_ok_def)

text \<open>
  C38. What is in use is found, and what was erased is not. On a cache of any capacity from 1 to 16 GiB that clients have used in any
  way, an entry is inserted, and its handle is kept. Whatever the clients then do, short of inserting or erasing under
  that key (they may insert so much else that everything unused is evicted, look up, erase, prune, and release all handles of
  their own), a lookup of the key finds that very entry with its value. After the key is erased, and whatever the clients do
  short of inserting under it again, a lookup of it finds nothing, and the kept handle still has its value.
\<close>

theorem cache_finds_held:
  fixes v :: 'v
  assumes "0 < capacity" "unat capacity \<le> 2 ^ 34" "0 < charge" "unat charge < 2 ^ 32"
    "\<forall>call \<in> set (before @ during @ after). call_ok call" "length (before @ during @ after) + 3 < 2 ^ 30"
    "\<forall>call \<in> set during. \<not> displaces key call" "\<forall>call \<in> set after. \<not> inserts key call"
  shows "\<exists>s0 hs s a s1 hs1 s2 s3 s4 hs2 s5. ShardedLRUCache capacity empty_heap = Some s0 \<and>
    client_run before ([], s0) = Some (hs, s) \<and> cache_Insert key v charge 0 s = Some (a, s1) \<and>
    client_run during (hs, s1) = Some (hs1, s2) \<and> cache_Lookup key s2 = Some (Some a, s3) \<and> cache_Value a s3 = Some v \<and>
    cache_Erase key s3 = Some s4 \<and> client_run after (hs1, s4) = Some (hs2, s5) \<and> cache_Lookup key s5 = Some (None, s5) \<and>
    cache_Value a s5 = Some v"
proof -
  let ?T = "\<lambda>hs. mset (map (snd \<circ> snd) hs) :: nat multiset"
  obtain s0 :: "'v sharded_cache" where s0: "ShardedLRUCache capacity empty_heap = Some s0" "cache_held (\<lambda>k v. True) {#} s0"
    using new_cache [OF assms(1,2)] by blast
  have "client_beside {#} ([], s0)" using s0(2) by (simp add: client_beside_def)
  then obtain hs s where s: "client_run before ([], s0) = Some (hs, s)" "client_beside {#} (hs, s)" "length hs \<le> length before"
    using client_run_beside [of "{#}" "[]" s0 before] assms(5,6) by auto
  have held: "cache_held (\<lambda>k v. True) (?T hs) s" and r: "size (?T hs) + 1 < 2 ^ 30" using s(2,3) assms(6) by (simp_all add: client_beside_def)
  obtain a s1 where s1: "cache_Insert key v charge 0 s = Some (a, s1)" "cache_held (\<lambda>k v. True) (add_mset a (?T hs)) s1"
    "cached (\<lambda>k v. True) (add_mset a (?T hs)) key a s1" "cache_Value a s1 = Some v"
    "\<forall>b. b \<in># ?T hs \<longrightarrow> held_key b s1 = held_key b s \<and> cache_Value b s1 = cache_Value b s"
    using cache_Insert_spec [OF held r TrueI assms(3,4), of key v 0] by blast
  have l1: "listed key a s1" using cached_listed [OF s1(2)] s1(3) by blast
  have "\<forall>(k, v, a) \<in> set hs. held_key a s1 = Some k \<and> cache_Value a s1 = Some v"
    using s(2) s1(5) held_cong [of hs s s1] by (simp add: client_beside_def)
  then have "client_beside {#a#} (hs, s1)" using s1(2) by (simp add: client_beside_def)
  then obtain hs1 s2 where s2: "client_run during (hs, s1) = Some (hs1, s2)" "client_beside {#a#} (hs1, s2)"
    "length hs1 \<le> length hs + length during" "beside_kept {#a#} (set during) s1 s2"
    using client_run_beside [of "{#a#}" hs s1 during] assms(5,6) s(3) by auto
  have l2: "listed key a s2" "cache_Value a s2 = Some v" using s2(4) l1 s1(4) assms(7) unfolding beside_kept_def by simp_all
  have held2: "cache_held (\<lambda>k v. True) (add_mset a (?T hs1)) s2" and r2: "size (add_mset a (?T hs1)) + 1 < 2 ^ 30"
    using s2(2,3) s(3) assms(6) by (simp_all add: client_beside_def)
  have "cached (\<lambda>k v. True) (add_mset a (?T hs1)) key a s2" using cached_listed [OF held2] l2(1) by blast
  then obtain s3 where s3: "cache_Lookup key s2 = Some (Some a, s3)" using cache_Lookup_cached [OF held2 r2] by blast
  have s3': "cache_held (\<lambda>k v. True) (add_mset a (add_mset a (?T hs1))) s3" "\<forall>b. held_key b s3 = held_key b s2 \<and> cache_Value b s3 = cache_Value b s2"
    using cache_Lookup_spec [OF held2 r2, of key] s3 by auto
  obtain s4 where s4: "cache_Erase key s3 = Some s4" "cache_held (\<lambda>k v. True) (add_mset a (add_mset a (?T hs1))) s4"
    "\<forall>b. b \<in># add_mset a (add_mset a (?T hs1)) \<longrightarrow> held_key b s4 = held_key b s3 \<and> cache_Value b s4 = cache_Value b s3"
    "\<forall>k b. listed k b s4 \<longleftrightarrow> listed k b s3 \<and> k \<noteq> key"
    using cache_Erase_spec [OF s3'(1), of key] by blast
  have "\<forall>(k, v, a) \<in> set hs1. held_key a s4 = Some k \<and> cache_Value a s4 = Some v"
    using s2(2) s4(3) s3'(2) held_cong [of hs1 s2 s4] by (simp add: client_beside_def)
  then have "client_beside {#a, a#} (hs1, s4)" using s4(2) by (simp add: client_beside_def)
  then obtain hs2 s5 where s5: "client_run after (hs1, s4) = Some (hs2, s5)" "client_beside {#a, a#} (hs2, s5)"
    "length hs2 \<le> length hs1 + length after" "beside_kept {#a, a#} (set after) s4 s5"
    using client_run_beside [of "{#a, a#}" hs1 s4 after] assms(5,6) s(3) s2(3) by auto
  have held5: "cache_held (\<lambda>k v. True) (?T hs2 + {#a, a#}) s5" and r5: "size (?T hs2 + {#a, a#}) + 1 < 2 ^ 30"
    using s5(2,3) s2(3) s(3) assms(6) by (simp_all add: client_beside_def)
  have no: "\<not> listed key b s5" for b using s5(4) s4(4) assms(8) unfolding beside_kept_def by blast
  have "cache_Lookup key s5 = Some (None, s5)" using cache_Lookup_spec [OF held5 r5, of key] cached_listed [OF held5] no by blast
  moreover have "cache_Value a s3 = Some v" "cache_Value a s5 = Some v"
    using s5(4) s4(3) s3'(2) l2(2) unfolding beside_kept_def by simp_all
  ultimately show ?thesis using s0(1) s(1) s1(1) s2(1) s3 s4(1) s5(1) by blast
qed

text \<open>A cache of capacity 1, in which the clients insert and release two more entries while the first is kept.\<close>

theorem cache_finds_held_witness:
  "\<exists>s0 hs s a s1 hs1 s2 s3 s4 hs2 s5. ShardedLRUCache 1 empty_heap = Some s0 \<and>
    client_run [CallInsert [1] (9 :: nat) 1] ([], s0) = Some (hs, s) \<and> cache_Insert [1] 10 1 0 s = Some (a, s1) \<and>
    client_run [CallInsert [2] 11 1, CallRelease 0, CallPrune, CallInsert [3] 12 1, CallRelease 0] (hs, s1) = Some (hs1, s2) \<and>
    cache_Lookup [1] s2 = Some (Some a, s3) \<and> cache_Value a s3 = Some 10 \<and> cache_Erase [1] s3 = Some s4 \<and>
    client_run [CallLookup [1], CallErase [1]] (hs1, s4) = Some (hs2, s5) \<and> cache_Lookup [1] s5 = Some (None, s5) \<and> cache_Value a s5 = Some 10"
  by (rule cache_finds_held) (simp_all add: call_ok_def displaces_def inserts_def)

text \<open>
  C39. What leaves, and when. An insertion into a shard takes its key's old entry out of the cache, appends the new entry to the
  list of entries in use, and then evicts from the old end of the list of unused entries, one by one, exactly while the usage
  is over the capacity: so either the charges of what remains fit the capacity, or every entry that remains is in use. Entries
  evicted or replaced while no client holds them are deleted with their keys and values, and nothing else is.
\<close>

theorem cache_evicts_oldest:
  assumes "shard_inv mine good T lru use s" "length (lru @ use) \<le> 2 ^ 30" "size T + 1 < 2 ^ 30" "hp_fresh (fst s) \<notin># T"
    "mine (HashSlice key)" "good key v" "0 < charge" "unat charge < 2 ^ 32"
    "others = (\<lambda>as. filter (\<lambda>b. key_of s b \<noteq> Some key) as)"
  shows "\<exists>k s'. shard_Insert key (HashSlice key) v charge deleter s = Some (hp_fresh (fst s), s') \<and> k \<le> length (others lru) \<and>
    shard_inv mine good (add_mset (hp_fresh (fst s)) T) (drop k (others lru)) (others use @ [hp_fresh (fst s)]) s' \<and>
    (\<forall>j < k. unat (lc_capacity (snd s)) < total s (drop j (others lru) @ others use) + unat charge) \<and>
    (k = length (others lru) \<or> total s (drop k (others lru) @ others use) + unat charge \<le> unat (lc_capacity (snd s))) \<and>
    hp_deleted (fst s') = hp_deleted (fst s) @
      dels s (filter (\<lambda>b. key_of s b = Some key \<and> b \<notin># T) (lru @ use)) @ dels s (take k (others lru))"
proof -
  have "filter (\<lambda>b. b \<notin># T) (filter (\<lambda>b. key_of s b = Some key) (lru @ use)) = filter (\<lambda>b. key_of s b = Some key \<and> b \<notin># T) (lru @ use)"
    by (simp add: conj_commute)
  then show ?thesis using shard_Insert_spec [OF assms(1-8), of deleter] unfolding assms(9) by (elim exE conjE) (intro exI conjI; simp)
qed

text \<open>A shard of capacity 1: the second insertion evicts the first entry, which was released.\<close>

theorem cache_evicts_oldest_witness:
  "\<exists>c s1 s2 s3. LRUCache (empty_heap :: nat heap) = Some (empty_heap, c) \<and>
    shard_Insert [1] (HashSlice [1]) (10 :: nat) 1 7 (empty_heap, SetCapacity 1 c) = Some (0, s1) \<and> shard_Release 0 s1 = Some s2 \<and>
    shard_Insert [2] (HashSlice [2]) (20 :: nat) 1 7 s2 = Some (hp_fresh (fst s2), s3) \<and>
    shard_inv (\<lambda>h. True) (\<lambda>k v. True) {#hp_fresh (fst s2)#} [] [hp_fresh (fst s2)] s3 \<and> hp_deleted (fst s3) = [(7, [1], 10)]"
proof -
  let ?inv = "shard_inv (\<lambda>h. True) (\<lambda>k v. True)"
  obtain c where c: "LRUCache (empty_heap :: nat heap) = Some (empty_heap, c)" "?inv {#} [] [] (empty_heap :: nat heap, SetCapacity 1 c)"
    using LRUCache_spec [of "empty_heap :: nat heap" "\<lambda>h. True" 1 "\<lambda>k v. True" "{#}"] by (auto simp: empty_heap_def)
  have f: "hp_fresh (empty_heap :: nat heap) = 0" "hp_deleted (empty_heap :: nat heap) = []" by (simp_all add: empty_heap_def)
  obtain s1 where s1: "shard_Insert [1] (HashSlice [1]) (10 :: nat) 1 7 (empty_heap, SetCapacity 1 c) = Some (0, s1)" "?inv {#0#} [] [0] s1"
    "cores s1 0 = Some ([1], 10, 1, HashSlice [1], 7)" "hp_deleted (fst s1) = []" "frame (\<lambda>h. True) (empty_heap, SetCapacity 1 c) s1"
    using shard_Insert_spec [where key = "[1]" and v = 10 and charge = 1 and deleter = 7, OF c(2)] f by (auto simp: dels_def)
  obtain e where e: "data s1 0 = Some e" using shard_invD(6) [OF s1(2), of 0] by auto
  obtain s2 where s2: "shard_Release 0 s1 = Some s2" "?inv {#} [0] [] s2" "cores s2 0 = cores s1 0" "hp_deleted (fst s2) = []"
    "frame (\<lambda>h. True) s1 s2"
    using shard_Release_spec [OF s1(2) e] s1(4) by auto
  have k: "key_of s2 0 = Some [1]" "charge_of s2 0 = 1" using s2(3) s1(3) by (simp_all add: key_of_def charge_of_def)
  have cap: "lc_capacity (snd s2) = 1" using s1(5) s2(5) by (simp add: frame_def SetCapacity_def)
  have d: "dels s2 [0] = [(7, [1], 10)]" using s2(3) s1(3) by (simp add: dels_def del_of_def)
  obtain s3 where s3: "shard_Insert [2] (HashSlice [2]) (20 :: nat) 1 7 s2 = Some (hp_fresh (fst s2), s3)"
    "?inv {#hp_fresh (fst s2)#} [] [hp_fresh (fst s2)] s3" "hp_deleted (fst s3) = dels s2 [0]"
    using cache_evicts_oldest [where key = "[2]" and v = 20 and charge = 1 and deleter = 7, OF s2(2) _ _ _ _ _ _ _ refl] k cap s2(4)
    by (auto simp: dels_def total_def le_Suc_eq)
  show ?thesis
    by (intro exI [of _ c] exI [of _ s1] exI [of _ s2] exI [of _ s3] conjI) (rule c(1) s1(1) s2(1) s3(1,2) s3(3) [unfolded d])+
qed

text \<open>
  C40. A cache of capacity 0 cannot be used. Its entries are not linked into any list, so their \<^verbatim>\<open>next\<close> field is never set;
  releasing the handle of an insertion reads it, to find the key for the deleter. On any new cache of capacity 0 every
  insertion is defined and every release of its handle is undefined.
\<close>

theorem zero_capacity_undefined:
  assumes "LRUCache hp = Some (hp', c)" "s = (hp', SetCapacity 0 c)"
  shows "\<exists>s'. shard_Insert key hash v charge deleter s = Some (hp_fresh hp', s') \<and> shard_Release (hp_fresh hp') s' = None"
proof -
  have u: "lc_usage c = 0" using assms(1) by (auto simp: LRUCache_def split: bind_splits)
  have "evict_while (\<lambda>c. lc_capacity c < lc_usage c) (hp, SetCapacity 0 c) = Some (hp, SetCapacity 0 c)" for hp :: "'a heap"
    using u by (simp add: evict_while.simps [of "\<lambda>c. lc_capacity c < lc_usage c"] SetCapacity_def)
  then show ?thesis
    by (simp add: assms(2) shard_Insert_def allocate_def Let_def SetCapacity_def new_entry_def shard_Release_def Unref_def modify_def
        modify_entry_def free_entry_def handle_key_def)
qed

theorem zero_capacity_undefined_witness:
  "\<exists>c s'. LRUCache (empty_heap :: nat heap) = Some (empty_heap, c) \<and>
    shard_Insert [1] 5 (10 :: nat) 1 0 (empty_heap, SetCapacity 0 c) = Some (0, s') \<and> shard_Release 0 s' = None"
proof -
  obtain c where c: "LRUCache (empty_heap :: nat heap) = Some (empty_heap, c)"
    using LRUCache_spec [of "empty_heap :: nat heap" "\<lambda>h. True" 1 "\<lambda>k v. True" "{#}"] by (auto simp: empty_heap_def)
  then show ?thesis using zero_capacity_undefined [OF c refl, of "[1]" 5 10 1 0] by (simp add: empty_heap_def)
qed

end
