(* ===== verification/Lv_Iter.thy ===== *)
theory Lv_Iter
  imports Lv_Block_Correct Lv_Status "HOL-Library.Monad_Syntax"
begin

unbundle bit_operations_syntax

section \<open>Iterators (leveldb include/leveldb/iterator.h, table/iterator, table/iterator_wrapper.h)\<close>

text \<open>
  The abstract class \<^verbatim>\<open>Iterator\<close> is the record of its virtual functions, over the type of an iterator's state; \<open>None\<close> is a
  failed assertion or other undefined behaviour, or an operation that does not return. The locale \<open>list_iterator\<close> is
  its contract: the iterator is a cursor in a list of pairs. Iterators over a block and the empty iterator keep it.
\<close>

subsection \<open>The interface\<close>

record 'i iterator_ops =
  op_Valid :: "'i \<Rightarrow> bool"
  op_SeekToFirst :: "'i \<Rightarrow> 'i option"
  op_SeekToLast :: "'i \<Rightarrow> 'i option"
  op_Seek :: "slice \<Rightarrow> 'i \<Rightarrow> 'i option"
  op_Next :: "'i \<Rightarrow> 'i option"
  op_Prev :: "'i \<Rightarrow> 'i option"
  op_key :: "'i \<Rightarrow> slice option"
  op_value :: "'i \<Rightarrow> slice option"
  op_status :: "'i \<Rightarrow> status"

text \<open>
  The functions registered for an iterator's destruction, in the order in which the destructor calls them: the first
  one registered stays the first, a later one is put right behind it.
\<close>

fun RegisterCleanup :: "'c \<Rightarrow> 'c list \<Rightarrow> 'c list" where
  "RegisterCleanup c [] = [c]"
| "RegisterCleanup c (c0 # cs) = c0 # c # cs"

fun Iterator_destroy :: "('c \<Rightarrow> 's \<Rightarrow> 's option) \<Rightarrow> 'c list \<Rightarrow> 's \<Rightarrow> 's option" where
  "Iterator_destroy run [] s = Some s"
| "Iterator_destroy run (c # cs) s = do { s1 \<leftarrow> run c s; Iterator_destroy run cs s1 }"

subsection \<open>The wrapper that keeps an iterator's validity and key\<close>

record 'i wrapper =
  w_iter :: "'i option"
  w_valid :: bool
  w_key :: slice

definition IteratorWrapper :: "'i wrapper" where "IteratorWrapper = \<lparr>w_iter = None, w_valid = False, w_key = []\<rparr>"

definition wrapper_Update :: "'i iterator_ops \<Rightarrow> 'i wrapper \<Rightarrow> 'i wrapper option" where
  "wrapper_Update ops w =
     do {
       it \<leftarrow> w_iter w;
       if op_Valid ops it then do { k \<leftarrow> op_key ops it; Some (w\<lparr>w_valid := True, w_key := k\<rparr>) }
       else Some (w\<lparr>w_valid := False\<rparr>)
     }"

definition wrapper_Set :: "'i iterator_ops \<Rightarrow> 'i option \<Rightarrow> 'i wrapper \<Rightarrow> 'i wrapper option" where
  "wrapper_Set ops it w =
     (if it = None then Some (w\<lparr>w_iter := None, w_valid := False\<rparr>) else wrapper_Update ops (w\<lparr>w_iter := it\<rparr>))"

definition wrapper_key :: "'i wrapper \<Rightarrow> slice option" where
  "wrapper_key w = (if w_valid w then Some (w_key w) else None)"

definition wrapper_value :: "'i iterator_ops \<Rightarrow> 'i wrapper \<Rightarrow> slice option" where
  "wrapper_value ops w = (if w_valid w then do { it \<leftarrow> w_iter w; op_value ops it } else None)"

definition wrapper_status :: "'i iterator_ops \<Rightarrow> 'i wrapper \<Rightarrow> status option" where
  "wrapper_status ops w = map_option (op_status ops) (w_iter w)"

definition wrapper_move :: "'i iterator_ops \<Rightarrow> ('i \<Rightarrow> 'i option) \<Rightarrow> 'i wrapper \<Rightarrow> 'i wrapper option" where
  "wrapper_move ops f w = do { it \<leftarrow> w_iter w; it' \<leftarrow> f it; wrapper_Update ops (w\<lparr>w_iter := Some it'\<rparr>) }"

definition wrapper_Next :: "'i iterator_ops \<Rightarrow> 'i wrapper \<Rightarrow> 'i wrapper option" where
  "wrapper_Next ops = wrapper_move ops (op_Next ops)"

definition wrapper_Prev :: "'i iterator_ops \<Rightarrow> 'i wrapper \<Rightarrow> 'i wrapper option" where
  "wrapper_Prev ops = wrapper_move ops (op_Prev ops)"

definition wrapper_Seek :: "'i iterator_ops \<Rightarrow> slice \<Rightarrow> 'i wrapper \<Rightarrow> 'i wrapper option" where
  "wrapper_Seek ops k = wrapper_move ops (op_Seek ops k)"

definition wrapper_SeekToFirst :: "'i iterator_ops \<Rightarrow> 'i wrapper \<Rightarrow> 'i wrapper option" where
  "wrapper_SeekToFirst ops = wrapper_move ops (op_SeekToFirst ops)"

definition wrapper_SeekToLast :: "'i iterator_ops \<Rightarrow> 'i wrapper \<Rightarrow> 'i wrapper option" where
  "wrapper_SeekToLast ops = wrapper_move ops (op_SeekToLast ops)"

subsection \<open>The iterators over a block\<close>

text \<open>A \<^verbatim>\<open>Block::Iter\<close>, or the \<^verbatim>\<open>EmptyIterator\<close> of an empty or a malformed block, whose status the latter carries.\<close>

definition returned :: "(unit, 's) outcome \<Rightarrow> 's option" where
  "returned r = (case r of Ok _ s \<Rightarrow> Some s | Fail s \<Rightarrow> Some s | Fault \<Rightarrow> None | Loop \<Rightarrow> None)"

datatype table_iter = EmptyIter status | BlockIter block_iter

definition of_iter :: "iter \<Rightarrow> table_iter" where
  "of_iter it =
     (case it of
        ErrorIterator \<Rightarrow> EmptyIter (Corruption (chars ''bad block contents'') [])
      | EmptyIterator \<Rightarrow> EmptyIter OK
      | Iter b \<Rightarrow> BlockIter b)"

definition seek_op :: "(block_iter \<Rightarrow> (unit, block_iter) outcome) \<Rightarrow> table_iter \<Rightarrow> table_iter option" where
  "seek_op f it = (case it of EmptyIter st \<Rightarrow> Some it | BlockIter b \<Rightarrow> map_option BlockIter (returned (f b)))"

definition step_op :: "(block_iter \<Rightarrow> (unit, block_iter) outcome) \<Rightarrow> table_iter \<Rightarrow> table_iter option" where
  "step_op f it = (case it of EmptyIter st \<Rightarrow> None | BlockIter b \<Rightarrow> map_option BlockIter (returned (f b)))"

definition block_ops :: "compare \<Rightarrow> table_iter iterator_ops" where
  "block_ops cmp =
     \<lparr>op_Valid = (\<lambda>it. case it of EmptyIter st \<Rightarrow> False | BlockIter b \<Rightarrow> Valid b),
      op_SeekToFirst = seek_op SeekToFirst,
      op_SeekToLast = seek_op SeekToLast,
      op_Seek = (\<lambda>target. seek_op (Seek cmp target)),
      op_Next = step_op Next,
      op_Prev = step_op Prev,
      op_key = (\<lambda>it. case it of EmptyIter st \<Rightarrow> None | BlockIter b \<Rightarrow> iter_key b),
      op_value = (\<lambda>it. case it of EmptyIter st \<Rightarrow> None | BlockIter b \<Rightarrow> iter_value b),
      op_status = (\<lambda>it. case it of EmptyIter st \<Rightarrow> st
        | BlockIter b \<Rightarrow> if it_ok b then OK else Corruption (chars ''bad entry in block'') [])\<rparr>"

subsection \<open>The contract: a cursor in a list\<close>

text \<open>
  \<open>R j it\<close> relates an iterator to its position: \<open>j < length kvs\<close> on the pair \<open>kvs ! j\<close>, and any other \<open>j\<close> an iterator that
  is not valid. Stepping back from the first pair makes an iterator invalid.
\<close>

definition prev_pos :: "nat \<Rightarrow> nat \<Rightarrow> nat" where "prev_pos n j = (if j = 0 then n else j - 1)"

locale list_iterator =
  fixes ops :: "'i iterator_ops" and cmp :: compare and valid :: "slice \<Rightarrow> bool" and kvs :: "(slice \<times> slice) list"
    and R :: "nat \<Rightarrow> 'i \<Rightarrow> bool"
  assumes status_ok: "R j it \<Longrightarrow> op_status ops it = OK"
    and valid_iff: "R j it \<Longrightarrow> op_Valid ops it \<longleftrightarrow> j < length kvs"
    and key_at: "R j it \<Longrightarrow> j < length kvs \<Longrightarrow> op_key ops it = Some (fst (kvs ! j))"
    and value_at: "R j it \<Longrightarrow> j < length kvs \<Longrightarrow> op_value ops it = Some (snd (kvs ! j))"
    and next_at: "R j it \<Longrightarrow> j < length kvs \<Longrightarrow> \<exists>it'. op_Next ops it = Some it' \<and> R (Suc j) it'"
    and prev_at: "R j it \<Longrightarrow> j < length kvs \<Longrightarrow> \<exists>it'. op_Prev ops it = Some it' \<and> R (prev_pos (length kvs) j) it'"
    and first_at: "R j it \<Longrightarrow> \<exists>it'. op_SeekToFirst ops it = Some it' \<and> R 0 it'"
    and last_at: "R j it \<Longrightarrow> \<exists>it'. op_SeekToLast ops it = Some it' \<and> R (length kvs - 1) it'"
    and seek_at: "R j it \<Longrightarrow> valid target \<Longrightarrow> \<exists>it'. op_Seek ops target it = Some it' \<and> R (seek_pos cmp target kvs) it'"
begin

text \<open>A wrapper on the iterator: what it keeps is what the iterator says.\<close>

definition wraps :: "nat \<Rightarrow> 'i wrapper \<Rightarrow> bool" where
  "wraps j w \<longleftrightarrow> (\<exists>it. w_iter w = Some it \<and> R j it \<and> (w_valid w \<longleftrightarrow> j < length kvs) \<and> (w_valid w \<longrightarrow> w_key w = fst (kvs ! j)))"

lemma update_wraps: "R j it \<Longrightarrow> \<exists>w'. wrapper_Update ops (w\<lparr>w_iter := Some it\<rparr>) = Some w' \<and> wraps j w'"
  using valid_iff [of j it] key_at [of j it] by (auto simp: wrapper_Update_def wraps_def)

lemma set_wraps: "R j it \<Longrightarrow> \<exists>w'. wrapper_Set ops (Some it) w = Some w' \<and> wraps j w'"
  using update_wraps by (simp add: wrapper_Set_def)

lemma move_wraps:
  assumes "wraps j w" "\<And>it. R j it \<Longrightarrow> \<exists>it'. f it = Some it' \<and> R i it'"
  shows "\<exists>w'. wrapper_move ops f w = Some w' \<and> wraps i w'"
proof -
  obtain it where it: "w_iter w = Some it" "R j it" using assms(1) by (auto simp: wraps_def)
  obtain it' where "f it = Some it'" "R i it'" using assms(2) [OF it(2)] by blast
  then show ?thesis using it(1) update_wraps [of i it' w] by (simp add: wrapper_move_def)
qed

lemma wrapper_Next_at: "wraps j w \<Longrightarrow> j < length kvs \<Longrightarrow> \<exists>w'. wrapper_Next ops w = Some w' \<and> wraps (Suc j) w'"
  unfolding wrapper_Next_def using next_at by (intro move_wraps) auto

lemma wrapper_Prev_at: "wraps j w \<Longrightarrow> j < length kvs \<Longrightarrow> \<exists>w'. wrapper_Prev ops w = Some w' \<and> wraps (prev_pos (length kvs) j) w'"
  unfolding wrapper_Prev_def using prev_at by (intro move_wraps) auto

lemma wrapper_Seek_at: "wraps j w \<Longrightarrow> valid target \<Longrightarrow> \<exists>w'. wrapper_Seek ops target w = Some w' \<and> wraps (seek_pos cmp target kvs) w'"
  unfolding wrapper_Seek_def using seek_at by (intro move_wraps) auto

lemma wrapper_SeekToFirst_at: "wraps j w \<Longrightarrow> \<exists>w'. wrapper_SeekToFirst ops w = Some w' \<and> wraps 0 w'"
  unfolding wrapper_SeekToFirst_def using first_at by (intro move_wraps) auto

lemma wrapper_SeekToLast_at: "wraps j w \<Longrightarrow> \<exists>w'. wrapper_SeekToLast ops w = Some w' \<and> wraps (length kvs - 1) w'"
  unfolding wrapper_SeekToLast_def using last_at by (intro move_wraps) auto

lemma wraps_valid: "wraps j w \<Longrightarrow> w_valid w \<longleftrightarrow> j < length kvs" by (auto simp: wraps_def)

lemma wraps_iter: "wraps j w \<Longrightarrow> \<exists>it. w_iter w = Some it \<and> R j it" by (auto simp: wraps_def)

lemma wraps_key: "wraps j w \<Longrightarrow> j < length kvs \<Longrightarrow> wrapper_key w = Some (fst (kvs ! j))"
  by (auto simp: wraps_def wrapper_key_def)

lemma wraps_value: "wraps j w \<Longrightarrow> j < length kvs \<Longrightarrow> wrapper_value ops w = Some (snd (kvs ! j))"
  by (auto simp: wraps_def wrapper_value_def value_at)

lemma wraps_status: "wraps j w \<Longrightarrow> wrapper_status ops w = Some OK"
  by (auto simp: wraps_def wrapper_status_def status_ok)

end

text \<open>The iterator of an empty block keeps the contract for the empty list.\<close>

interpretation empty_block: list_iterator "block_ops cmp" cmp valid "[]" "\<lambda>j it. it = EmptyIter OK"
  by unfold_locales (simp_all add: block_ops_def seek_op_def)

text \<open>So does an iterator over a well-formed block, for the pairs in the block.\<close>

definition block_cursor :: "layout \<Rightarrow> nat \<Rightarrow> table_iter \<Rightarrow> bool" where
  "block_cursor L j it \<longleftrightarrow> (\<exists>b. it = BlockIter b \<and> cursor L j b)"

context comparator
begin

lemma block_list_iterator:
  assumes "ly_small L" "kvs_sorted cmp valid (ly_kvs L)"
  shows "list_iterator (block_ops cmp) cmp valid (ly_kvs L) (block_cursor L)"
proof
  fix j it assume "block_cursor L j it"
  then obtain b where b: "it = BlockIter b" "cursor L j b" by (auto simp: block_cursor_def)
  note sim = cursor_simulates [OF assms, unfolded simulates_def, rule_format, OF b(2)]
  show "op_status (block_ops cmp) it = OK" "op_Valid (block_ops cmp) it = (j < ly_n L)"
    using sim by (simp_all add: b(1) block_ops_def)
  show "\<exists>it'. op_SeekToFirst (block_ops cmp) it = Some it' \<and> block_cursor L 0 it'"
    "\<exists>it'. op_SeekToLast (block_ops cmp) it = Some it' \<and> block_cursor L (ly_n L - 1) it'"
    using sim by (auto simp: b(1) block_ops_def seek_op_def returned_def block_cursor_def)
  show "\<exists>it'. op_Seek (block_ops cmp) target it = Some it' \<and> block_cursor L (seek_pos cmp target (ly_kvs L)) it'"
    if "valid target" for target
    using sim that by (fastforce simp: b(1) block_ops_def seek_op_def returned_def block_cursor_def)
  assume j: "j < ly_n L"
  show "op_key (block_ops cmp) it = Some (ly_key L j)" "op_value (block_ops cmp) it = Some (ly_val L j)"
    using sim j by (simp_all add: b(1) block_ops_def)
  show "\<exists>it'. op_Next (block_ops cmp) it = Some it' \<and> block_cursor L (Suc j) it'"
    "\<exists>it'. op_Prev (block_ops cmp) it = Some it' \<and> block_cursor L (prev_pos (ly_n L) j) it'"
    using sim j by (auto simp: b(1) block_ops_def step_op_def returned_def block_cursor_def prev_pos_def)
qed

end

end
