(* ===== verification/Lv_Two_Level.thy ===== *)
theory Lv_Two_Level
  imports Lv_Iter "HOL-Library.Multiset"
begin

section \<open>Iterators over a list of blocks (leveldb table/two_level_iterator)\<close>

text \<open>
  An index iterator yields the handles of blocks; a block function opens an iterator on the block of a handle. Both
  iterators are used through their virtual functions and wrappers. Opening and deleting a data iterator may change
  a state of type \<open>'s\<close> (a block cache), which goes with the iterator.
\<close>

subsection \<open>The iterator\<close>

record ('i, 'd) two_level =
  tl_status :: status
  tl_index :: "'i wrapper"
  tl_data :: "'d wrapper"
  tl_handle :: slice

record ('i, 'd, 's) two_level_parts =
  index_ops :: "'i iterator_ops"
  data_ops :: "'d iterator_ops"
  block_function :: "slice \<Rightarrow> 's \<Rightarrow> ('d \<times> 's) option"
  delete_data :: "'d \<Rightarrow> 's \<Rightarrow> 's option"

definition NewTwoLevelIterator :: "('i, 'd, 's) two_level_parts \<Rightarrow> 'i \<Rightarrow> ('i, 'd) two_level option" where
  "NewTwoLevelIterator p it =
     do {
       w \<leftarrow> wrapper_Set (index_ops p) (Some it) IteratorWrapper;
       Some \<lparr>tl_status = OK, tl_index = w, tl_data = IteratorWrapper, tl_handle = []\<rparr>
     }"

definition TwoLevel_status :: "('i, 'd, 's) two_level_parts \<Rightarrow> ('i, 'd) two_level \<Rightarrow> status option" where
  "TwoLevel_status p t =
     do {
       si \<leftarrow> wrapper_status (index_ops p) (tl_index t);
       if si \<noteq> OK then Some si
       else (case wrapper_status (data_ops p) (tl_data t) of
           Some sd \<Rightarrow> Some (if sd \<noteq> OK then sd else tl_status t)
         | None \<Rightarrow> Some (tl_status t))
     }"

definition SaveError :: "status \<Rightarrow> ('i, 'd) two_level \<Rightarrow> ('i, 'd) two_level" where
  "SaveError s t = (if tl_status t = OK \<and> s \<noteq> OK then t\<lparr>tl_status := s\<rparr> else t)"

definition SetDataIterator :: "('i, 'd, 's) two_level_parts \<Rightarrow> 'd option \<Rightarrow> ('i, 'd) two_level \<times> 's \<Rightarrow>
    (('i, 'd) two_level \<times> 's) option" where
  "SetDataIterator p d = (\<lambda>(t, s).
     do {
       let t1 = (case w_iter (tl_data t) of None \<Rightarrow> t | Some old \<Rightarrow> SaveError (op_status (data_ops p) old) t);
       s1 \<leftarrow> (case w_iter (tl_data t) of None \<Rightarrow> Some s | Some old \<Rightarrow> delete_data p old s);
       w \<leftarrow> wrapper_Set (data_ops p) d (tl_data t1);
       Some (t1\<lparr>tl_data := w\<rparr>, s1)
     })"

definition InitDataBlock :: "('i, 'd, 's) two_level_parts \<Rightarrow> ('i, 'd) two_level \<times> 's \<Rightarrow> (('i, 'd) two_level \<times> 's) option" where
  "InitDataBlock p = (\<lambda>(t, s).
     if \<not> w_valid (tl_index t) then SetDataIterator p None (t, s)
     else do {
       handle \<leftarrow> wrapper_value (index_ops p) (tl_index t);
       if w_iter (tl_data t) \<noteq> None \<and> Slice_compare handle (tl_handle t) = 0 then Some (t, s)
       else do {
         (d, s1) \<leftarrow> block_function p handle s;
         SetDataIterator p (Some d) (t\<lparr>tl_handle := handle\<rparr>, s1)
       }
     })"

text \<open>Moving one of the two iterators; the data iterator only when there is one.\<close>

definition move_index :: "('i wrapper \<Rightarrow> 'i wrapper option) \<Rightarrow> ('i, 'd) two_level \<times> 's \<Rightarrow> (('i, 'd) two_level \<times> 's) option" where
  "move_index f = (\<lambda>(t, s). do { w \<leftarrow> f (tl_index t); Some (t\<lparr>tl_index := w\<rparr>, s) })"

definition move_data :: "('d wrapper \<Rightarrow> 'd wrapper option) \<Rightarrow> ('i, 'd) two_level \<times> 's \<Rightarrow> (('i, 'd) two_level \<times> 's) option" where
  "move_data f = (\<lambda>(t, s). do { w \<leftarrow> f (tl_data t); Some (t\<lparr>tl_data := w\<rparr>, s) })"

definition move_data_if :: "('d wrapper \<Rightarrow> 'd wrapper option) \<Rightarrow> ('i, 'd) two_level \<times> 's \<Rightarrow> (('i, 'd) two_level \<times> 's) option" where
  "move_data_if f st = (if w_iter (tl_data (fst st)) \<noteq> None then move_data f st else Some st)"

definition no_data :: "('i, 'd) two_level \<times> 's \<Rightarrow> bool" where
  "no_data st \<longleftrightarrow> w_iter (tl_data (fst st)) = None \<or> \<not> w_valid (tl_data (fst st))"

partial_function (option) SkipEmptyDataBlocksForward ::
    "('i, 'd, 's) two_level_parts \<Rightarrow> ('i, 'd) two_level \<times> 's \<Rightarrow> (('i, 'd) two_level \<times> 's) option" where
  "SkipEmptyDataBlocksForward p st =
     (if no_data st
      then if \<not> w_valid (tl_index (fst st)) then SetDataIterator p None st
        else do {
          st1 \<leftarrow> move_index (wrapper_Next (index_ops p)) st;
          st2 \<leftarrow> InitDataBlock p st1;
          st3 \<leftarrow> move_data_if (wrapper_SeekToFirst (data_ops p)) st2;
          SkipEmptyDataBlocksForward p st3
        }
      else Some st)"

partial_function (option) SkipEmptyDataBlocksBackward ::
    "('i, 'd, 's) two_level_parts \<Rightarrow> ('i, 'd) two_level \<times> 's \<Rightarrow> (('i, 'd) two_level \<times> 's) option" where
  "SkipEmptyDataBlocksBackward p st =
     (if no_data st
      then if \<not> w_valid (tl_index (fst st)) then SetDataIterator p None st
        else do {
          st1 \<leftarrow> move_index (wrapper_Prev (index_ops p)) st;
          st2 \<leftarrow> InitDataBlock p st1;
          st3 \<leftarrow> move_data_if (wrapper_SeekToLast (data_ops p)) st2;
          SkipEmptyDataBlocksBackward p st3
        }
      else Some st)"

definition TwoLevel_Seek :: "('i, 'd, 's) two_level_parts \<Rightarrow> slice \<Rightarrow> ('i, 'd) two_level \<times> 's \<Rightarrow> (('i, 'd) two_level \<times> 's) option" where
  "TwoLevel_Seek p target st =
     do {
       st1 \<leftarrow> move_index (wrapper_Seek (index_ops p) target) st;
       st2 \<leftarrow> InitDataBlock p st1;
       st3 \<leftarrow> move_data_if (wrapper_Seek (data_ops p) target) st2;
       SkipEmptyDataBlocksForward p st3
     }"

definition TwoLevel_SeekToFirst :: "('i, 'd, 's) two_level_parts \<Rightarrow> ('i, 'd) two_level \<times> 's \<Rightarrow> (('i, 'd) two_level \<times> 's) option" where
  "TwoLevel_SeekToFirst p st =
     do {
       st1 \<leftarrow> move_index (wrapper_SeekToFirst (index_ops p)) st;
       st2 \<leftarrow> InitDataBlock p st1;
       st3 \<leftarrow> move_data_if (wrapper_SeekToFirst (data_ops p)) st2;
       SkipEmptyDataBlocksForward p st3
     }"

definition TwoLevel_SeekToLast :: "('i, 'd, 's) two_level_parts \<Rightarrow> ('i, 'd) two_level \<times> 's \<Rightarrow> (('i, 'd) two_level \<times> 's) option" where
  "TwoLevel_SeekToLast p st =
     do {
       st1 \<leftarrow> move_index (wrapper_SeekToLast (index_ops p)) st;
       st2 \<leftarrow> InitDataBlock p st1;
       st3 \<leftarrow> move_data_if (wrapper_SeekToLast (data_ops p)) st2;
       SkipEmptyDataBlocksBackward p st3
     }"

definition TwoLevel_Next :: "('i, 'd, 's) two_level_parts \<Rightarrow> ('i, 'd) two_level \<times> 's \<Rightarrow> (('i, 'd) two_level \<times> 's) option" where
  "TwoLevel_Next p st =
     (if w_valid (tl_data (fst st))
      then do { st1 \<leftarrow> move_data (wrapper_Next (data_ops p)) st; SkipEmptyDataBlocksForward p st1 }
      else None)"

definition TwoLevel_Prev :: "('i, 'd, 's) two_level_parts \<Rightarrow> ('i, 'd) two_level \<times> 's \<Rightarrow> (('i, 'd) two_level \<times> 's) option" where
  "TwoLevel_Prev p st =
     (if w_valid (tl_data (fst st))
      then do { st1 \<leftarrow> move_data (wrapper_Prev (data_ops p)) st; SkipEmptyDataBlocksBackward p st1 }
      else None)"

text \<open>Destroying the iterator destroys the wrapper of the data iterator, which deletes it.\<close>

definition TwoLevel_destroy :: "('i, 'd, 's) two_level_parts \<Rightarrow> ('i, 'd) two_level \<times> 's \<Rightarrow> 's option" where
  "TwoLevel_destroy p = (\<lambda>(t, s). case w_iter (tl_data t) of None \<Rightarrow> Some s | Some d \<Rightarrow> delete_data p d s)"

text \<open>The class as an iterator. Its index iterator is never \<^verbatim>\<open>NULL\<close>, so the status is always there.\<close>

definition two_level_ops :: "('i, 'd, 's) two_level_parts \<Rightarrow> (('i, 'd) two_level \<times> 's) iterator_ops" where
  "two_level_ops p =
     \<lparr>op_Valid = (\<lambda>st. w_valid (tl_data (fst st))),
      op_SeekToFirst = TwoLevel_SeekToFirst p,
      op_SeekToLast = TwoLevel_SeekToLast p,
      op_Seek = TwoLevel_Seek p,
      op_Next = TwoLevel_Next p,
      op_Prev = TwoLevel_Prev p,
      op_key = (\<lambda>st. wrapper_key (tl_data (fst st))),
      op_value = (\<lambda>st. wrapper_value (data_ops p) (tl_data (fst st))),
      op_status = (\<lambda>st. the (TwoLevel_status p (fst st)))\<rparr>"

subsection \<open>The contract of the parts\<close>

text \<open>
  The index lists a separator and a handle for each block, in order: the keys of a block are at most its separator,
  those of later blocks greater. \<open>content h\<close> is what the block with the handle \<open>h\<close> holds. An open data iterator
  holds a token (\<open>RD h tk\<close> relates it to its position), and \<open>Inv T s\<close> says that the state \<open>s\<close> is good and the tokens
  \<open>T\<close> are out: opening takes a token, deleting gives it back, and nothing else does.
  A new token is only promised while less than \<open>room\<close> are out: the iterator needs two of them at once.
\<close>

locale two_level_contract =
  comparator cmp valid sep shorten + ix: list_iterator "index_ops p" cmp valid ikvs RI
  for cmp :: compare and valid :: "slice \<Rightarrow> bool" and sep :: "slice \<Rightarrow> slice \<Rightarrow> slice option" and shorten :: "slice \<Rightarrow> slice option"
    and p :: "('i, 'd, 's) two_level_parts" and ikvs :: "(slice \<times> slice) list" and RI :: "nat \<Rightarrow> 'i \<Rightarrow> bool" +
  fixes content :: "slice \<Rightarrow> (slice \<times> slice) list" and RD :: "slice \<Rightarrow> 't \<Rightarrow> nat \<Rightarrow> 'd \<Rightarrow> bool"
    and Inv :: "'t multiset \<Rightarrow> 's \<Rightarrow> bool" and room :: nat
  assumes data_iterator: "h \<in> snd ` set ikvs \<Longrightarrow> list_iterator (data_ops p) cmp valid (content h) (RD h tk)"
    and opens: "h \<in> snd ` set ikvs \<Longrightarrow> size T < room \<Longrightarrow> Inv T s \<Longrightarrow>
      \<exists>d s' tk j. block_function p h s = Some (d, s') \<and> RD h tk j d \<and> Inv (add_mset tk T) s'"
    and deletes: "h \<in> snd ` set ikvs \<Longrightarrow> RD h tk j d \<Longrightarrow> Inv (add_mset tk T) s \<Longrightarrow>
      \<exists>s'. delete_data p d s = Some s' \<and> Inv T s'"
    and all_sorted: "kvs_sorted cmp valid (concat (map (content \<circ> snd) ikvs))"
    and separators_valid: "sp \<in> fst ` set ikvs \<Longrightarrow> valid sp"
    and separated: "i < length ikvs \<Longrightarrow> kv \<in> set (content (snd (ikvs ! i))) \<Longrightarrow> cmp (fst kv) (fst (ikvs ! i)) \<le> 0"
      "j < length ikvs \<Longrightarrow> i < j \<Longrightarrow> kv \<in> set (content (snd (ikvs ! j))) \<Longrightarrow> cmp (fst (ikvs ! i)) (fst kv) < 0"
begin

definition all_kvs :: "(slice \<times> slice) list" where "all_kvs = concat (map (content \<circ> snd) ikvs)"

definition blk :: "nat \<Rightarrow> (slice \<times> slice) list" where "blk i = content (snd (ikvs ! i))"

definition before :: "nat \<Rightarrow> nat" where "before i = length (concat (map (content \<circ> snd) (take i ikvs)))"

lemma before_0 [simp]: "before 0 = 0" by (simp add: before_def)

lemma before_Suc: "i < length ikvs \<Longrightarrow> before (Suc i) = before i + length (blk i)"
  by (simp add: before_def blk_def take_Suc_conv_app_nth)

lemma before_all: "before (length ikvs) = length all_kvs" by (simp add: before_def all_kvs_def)

lemma all_split: "i < length ikvs \<Longrightarrow>
    all_kvs = concat (map (content \<circ> snd) (take i ikvs)) @ blk i @ concat (map (content \<circ> snd) (drop (Suc i) ikvs))"
  using arg_cong [OF id_take_nth_drop [of i ikvs], of "\<lambda>xs. concat (map (content \<circ> snd) xs)"]
  by (simp add: all_kvs_def blk_def)

lemma all_nth: "i < length ikvs \<Longrightarrow> q < length (blk i) \<Longrightarrow> all_kvs ! (before i + q) = blk i ! q"
  using all_split [of i] by (simp add: before_def nth_append)

lemma all_nth_less: "i < length ikvs \<Longrightarrow> q < length (blk i) \<Longrightarrow> before i + q < length all_kvs"
  using all_split [of i] by (simp add: before_def)

subsection \<open>Opening the block of the index\<close>

definition is_open :: "slice \<Rightarrow> 't multiset \<Rightarrow> nat \<Rightarrow> ('i, 'd) two_level \<times> 's \<Rightarrow> bool" where
  "is_open h T q st \<longleftrightarrow> h \<in> snd ` set ikvs \<and> tl_handle (fst st) = h \<and>
     (\<exists>tk. list_iterator.wraps (content h) (RD h tk) q (tl_data (fst st)) \<and> Inv (add_mset tk T) (snd st)) \<and> size T + 1 < room"

definition is_closed :: "'t multiset \<Rightarrow> ('i, 'd) two_level \<times> 's \<Rightarrow> bool" where
  "is_closed T st \<longleftrightarrow> w_iter (tl_data (fst st)) = None \<and> \<not> w_valid (tl_data (fst st)) \<and> Inv T (snd st) \<and> size T + 1 < room"

text \<open>The index iterator is at block \<open>i\<close>, and no error was seen.\<close>

definition indexed :: "nat \<Rightarrow> ('i, 'd) two_level \<times> 's \<Rightarrow> bool" where
  "indexed i st \<longleftrightarrow> ix.wraps i (tl_index (fst st)) \<and> tl_status (fst st) = OK"

text \<open>The data iterator is the one of the index's block, at \<open>q\<close>, or there is none.\<close>

definition placed :: "'t multiset \<Rightarrow> nat \<Rightarrow> nat \<Rightarrow> ('i, 'd) two_level \<times> 's \<Rightarrow> bool" where
  "placed T i q st \<longleftrightarrow> indexed i st \<and> (if i < length ikvs then is_open (snd (ikvs ! i)) T q st else is_closed T st)"

lemma index_valid: "indexed i st \<Longrightarrow> w_valid (tl_index (fst st)) \<longleftrightarrow> i < length ikvs"
  using ix.wraps_valid by (auto simp: indexed_def)

lemma handle_in: "i < length ikvs \<Longrightarrow> snd (ikvs ! i) \<in> snd ` set ikvs" by simp

lemma close_data:
  assumes "is_open h T q st \<or> is_closed T st" "indexed i st"
  shows "\<exists>st'. SetDataIterator p None st = Some st' \<and> is_closed T st' \<and> indexed i st'"
proof -
  obtain t s where st: "st = (t, s)" by (cases st)
  show ?thesis
  proof (cases "is_closed T st")
    case True
    then show ?thesis using assms(2)
      by (simp add: st SetDataIterator_def is_closed_def indexed_def wrapper_Set_def)
  next
    case False
    then obtain tk where h: "h \<in> snd ` set ikvs" and tk: "list_iterator.wraps (content h) (RD h tk) q (tl_data t)" "Inv (add_mset tk T) s"
      "size T + 1 < room" using assms(1) by (auto simp: is_open_def st)
    obtain d where d: "w_iter (tl_data t) = Some d" "RD h tk q d"
      using list_iterator.wraps_iter [OF data_iterator [OF h] tk(1)] by blast
    have ok: "op_status (data_ops p) d = OK" using list_iterator.status_ok [OF data_iterator [OF h] d(2)] .
    obtain s' where "delete_data p d s = Some s'" "Inv T s'" using deletes [OF h d(2) tk(2)] by blast
    then show ?thesis using assms(2) d(1) ok tk(3)
      by (simp add: st SetDataIterator_def is_closed_def indexed_def wrapper_Set_def SaveError_def)
  qed
qed

lemma replace_data:
  assumes "(\<exists>h' tk' q. h' \<in> snd ` set ikvs \<and> list_iterator.wraps (content h') (RD h' tk') q (tl_data t) \<and>
      Inv (add_mset tk' (add_mset tk T)) s) \<or> (w_iter (tl_data t) = None \<and> Inv (add_mset tk T) s)"
    "h \<in> snd ` set ikvs" "RD h tk j d" "tl_handle t = h" "indexed i (t, s)" "size T + 1 < room"
  shows "\<exists>st'. SetDataIterator p (Some d) (t, s) = Some st' \<and> is_open h T j st' \<and> indexed i st'"
proof -
  obtain w where w: "wrapper_Set (data_ops p) (Some d) (tl_data t) = Some w" "list_iterator.wraps (content h) (RD h tk) j w"
    using list_iterator.set_wraps [OF data_iterator [OF assms(2)] assms(3)] by blast
  show ?thesis
  proof (cases "w_iter (tl_data t)")
    case None
    then have "Inv (add_mset tk T) s"
      using assms(1) list_iterator.wraps_iter [OF data_iterator] by fastforce
    then show ?thesis using None w assms by (auto simp: SetDataIterator_def is_open_def indexed_def)
  next
    case (Some old)
    then obtain h' tk' q where h': "h' \<in> snd ` set ikvs" "list_iterator.wraps (content h') (RD h' tk') q (tl_data t)"
      "Inv (add_mset tk' (add_mset tk T)) s" using assms(1) by auto
    have old: "RD h' tk' q old" using list_iterator.wraps_iter [OF data_iterator [OF h'(1)] h'(2)] Some by auto
    have ok: "op_status (data_ops p) old = OK" using list_iterator.status_ok [OF data_iterator [OF h'(1)] old] .
    obtain s' where "delete_data p old s = Some s'" "Inv (add_mset tk T) s'" using deletes [OF h'(1) old h'(3)] by blast
    then show ?thesis using Some w assms(2,4,5,6) ok
      by (auto simp: SetDataIterator_def is_open_def indexed_def SaveError_def)
  qed
qed

lemma init_block:
  assumes "indexed i st" "is_open h T q st \<or> is_closed T st"
  shows "\<exists>st' q'. InitDataBlock p st = Some st' \<and> placed T i q' st'"
proof -
  obtain t s where st: "st = (t, s)" by (cases st)
  have ix: "ix.wraps i (tl_index t)" using assms(1) by (simp add: indexed_def st)
  show ?thesis
  proof (cases "i < length ikvs")
    case False
    then have "InitDataBlock p st = SetDataIterator p None st" using ix.wraps_valid [OF ix] by (simp add: InitDataBlock_def st)
    then show ?thesis using close_data [OF assms(2,1)] False by (auto simp: placed_def)
  next
    case True
    define h0 where "h0 = snd (ikvs ! i)"
    have h0: "h0 \<in> snd ` set ikvs" using True by (simp add: h0_def)
    have start: "w_valid (tl_index t)" "wrapper_value (index_ops p) (tl_index t) = Some h0"
      using ix.wraps_valid [OF ix] ix.wraps_value [OF ix True] True by (simp_all add: h0_def)
    show ?thesis
    proof (cases "w_iter (tl_data t) \<noteq> None \<and> h0 = tl_handle t")
      case same: True
      then have "is_open h T q st" using assms(2) by (auto simp: is_closed_def st)
      then have "is_open h0 T q st" using same by (auto simp: is_open_def st)
      then show ?thesis using assms(1) same start True by (auto simp: InitDataBlock_def st placed_def h0_def)
    next
      case False
      have "\<exists>tk s1 d j. block_function p h0 s = Some (d, s1) \<and> RD h0 tk j d \<and>
          ((\<exists>h' tk' q. h' \<in> snd ` set ikvs \<and> list_iterator.wraps (content h') (RD h' tk') q (tl_data t) \<and>
            Inv (add_mset tk' (add_mset tk T)) s1) \<or> (w_iter (tl_data t) = None \<and> Inv (add_mset tk T) s1))"
      proof (cases "is_closed T st")
        case True
        then show ?thesis using opens [OF h0, of T s] by (auto simp: is_closed_def st)
      next
        case False
        then obtain tk' where tk': "h \<in> snd ` set ikvs" "list_iterator.wraps (content h) (RD h tk') q (tl_data t)"
          "Inv (add_mset tk' T) s" "size (add_mset tk' T) < room"
          using assms(2) by (auto simp: is_open_def st)
        obtain d s1 tk j where "block_function p h0 s = Some (d, s1)" "RD h0 tk j d" "Inv (add_mset tk (add_mset tk' T)) s1"
          using opens [OF h0 tk'(4,3)] by blast
        moreover from this(3) have "Inv (add_mset tk' (add_mset tk T)) s1" by (simp only: add_mset_commute)
        ultimately show ?thesis using tk'(1,2) by blast
      qed
      then obtain tk s1 d j where b: "block_function p h0 s = Some (d, s1)" "RD h0 tk j d"
          "(\<exists>h' tk' q. h' \<in> snd ` set ikvs \<and> list_iterator.wraps (content h') (RD h' tk') q (tl_data t) \<and>
            Inv (add_mset tk' (add_mset tk T)) s1) \<or> (w_iter (tl_data t) = None \<and> Inv (add_mset tk T) s1)"
        by blast
      have td: "tl_data (t\<lparr>tl_handle := h0\<rparr>) = tl_data t" "tl_handle (t\<lparr>tl_handle := h0\<rparr>) = h0" by simp_all
      have "indexed i (t\<lparr>tl_handle := h0\<rparr>, s1)" using assms(1) by (simp add: indexed_def st)
      moreover have "size T + 1 < room" using assms(2) by (auto simp: is_open_def is_closed_def)
      ultimately obtain st' where "SetDataIterator p (Some d) (t\<lparr>tl_handle := h0\<rparr>, s1) = Some st'" "is_open h0 T j st'" "indexed i st'"
        using replace_data [of "t\<lparr>tl_handle := h0\<rparr>", unfolded td(1), OF b(3) h0 b(2) td(2)] by blast
      moreover from this(2,3) have "placed T i j st'" using True by (simp add: placed_def h0_def)
      ultimately show ?thesis using False start b(1) by (intro exI [of _ st'] exI [of _ j]) (auto simp: InitDataBlock_def st)
    qed
  qed
qed

subsection \<open>Moving the iterators\<close>

lemma move_placed:
  assumes "placed T i q st"
    "\<And>tk w. i < length ikvs \<Longrightarrow> list_iterator.wraps (blk i) (RD (snd (ikvs ! i)) tk) q w \<Longrightarrow>
      \<exists>w'. f w = Some w' \<and> list_iterator.wraps (blk i) (RD (snd (ikvs ! i)) tk) q' w'"
  shows "\<exists>st'. move_data_if f st = Some st' \<and> placed T i q' st'" "i < length ikvs \<Longrightarrow> \<exists>st'. move_data f st = Some st' \<and> placed T i q' st'"
proof -
  obtain t s where st: "st = (t, s)" by (cases st)
  show *: "\<exists>st'. move_data f st = Some st' \<and> placed T i q' st'" if i: "i < length ikvs"
  proof -
    obtain tk where tk: "list_iterator.wraps (blk i) (RD (snd (ikvs ! i)) tk) q (tl_data t)" "Inv (add_mset tk T) s"
      using assms(1) i by (auto simp: placed_def is_open_def st blk_def)
    obtain w' where "f (tl_data t) = Some w'" "list_iterator.wraps (blk i) (RD (snd (ikvs ! i)) tk) q' w'"
      using assms(2) [OF i tk(1)] by blast
    then show ?thesis using assms(1) i tk(2)
      by (auto simp: move_data_def st placed_def is_open_def indexed_def blk_def)
  qed
  show "\<exists>st'. move_data_if f st = Some st' \<and> placed T i q' st'"
  proof (cases "i < length ikvs")
    case True
    then obtain tk where "list_iterator.wraps (blk i) (RD (snd (ikvs ! i)) tk) q (tl_data t)"
      using assms(1) by (auto simp: placed_def is_open_def st blk_def)
    then have "w_iter (tl_data t) \<noteq> None"
      using list_iterator.wraps_iter [OF data_iterator [OF handle_in [OF True]]] by (fastforce simp: blk_def)
    then show ?thesis using * [OF True] by (simp add: move_data_if_def st)
  next
    case False
    then show ?thesis using assms(1) by (simp add: move_data_if_def placed_def is_closed_def)
  qed
qed

lemma placed_open: "placed T i q st \<Longrightarrow> (\<exists>h. is_open h T q st) \<or> is_closed T st" by (auto simp: placed_def split: if_splits)

lemma move_indexed:
  assumes "ix.wraps j (tl_index (fst st)) \<Longrightarrow> \<exists>w'. f (tl_index (fst st)) = Some w' \<and> ix.wraps i w'"
    "indexed j st" "is_open h T q st \<or> is_closed T st"
  shows "\<exists>st1 st2 q'. move_index f st = Some st1 \<and> InitDataBlock p st1 = Some st2 \<and> placed T i q' st2"
proof -
  obtain t s where st: "st = (t, s)" by (cases st)
  obtain w' where w': "f (tl_index t) = Some w'" "ix.wraps i w'" using assms(1,2) by (auto simp: indexed_def st)
  have "indexed i (t\<lparr>tl_index := w'\<rparr>, s)" "is_open h T q (t\<lparr>tl_index := w'\<rparr>, s) \<or> is_closed T (t\<lparr>tl_index := w'\<rparr>, s)"
    using assms(2,3) w'(2) by (auto simp: indexed_def is_open_def is_closed_def st)
  then obtain st' q' where "InitDataBlock p (t\<lparr>tl_index := w'\<rparr>, s) = Some st'" "placed T i q' st'" using init_block by blast
  then show ?thesis using w'(1) by (intro exI [of _ "(t\<lparr>tl_index := w'\<rparr>, s)"] exI [of _ st'] exI [of _ q']) (simp add: move_index_def st)
qed

text \<open>Positions of the two-level iterator.\<close>

definition at :: "'t multiset \<Rightarrow> nat \<Rightarrow> ('i, 'd) two_level \<times> 's \<Rightarrow> bool" where
  "at T j st \<longleftrightarrow> (\<exists>i. indexed i st \<and> (if j < length all_kvs
     then \<exists>q. i < length ikvs \<and> q < length (blk i) \<and> j = before i + q \<and> is_open (snd (ikvs ! i)) T q st else is_closed T st))"

lemma placed_at: "placed T i q st \<Longrightarrow> i < length ikvs \<Longrightarrow> q < length (blk i) \<Longrightarrow> at T (before i + q) st"
  using all_nth_less by (auto simp: placed_def at_def)

lemma placed_no_data:
  assumes "placed T i q st"
  shows "no_data st \<longleftrightarrow> \<not> (i < length ikvs \<and> q < length (blk i))"
proof (cases "i < length ikvs")
  case True
  then obtain tk where "list_iterator.wraps (blk i) (RD (snd (ikvs ! i)) tk) q (tl_data (fst st))"
    using assms by (auto simp: placed_def is_open_def blk_def)
  then show ?thesis
    using list_iterator.wraps_iter [OF data_iterator [OF handle_in [OF True]], folded blk_def]
      list_iterator.wraps_valid [OF data_iterator [OF handle_in [OF True]], folded blk_def] True
    by (fastforce simp: no_data_def)
next
  case False
  then show ?thesis using assms by (simp add: placed_def is_closed_def no_data_def)
qed

lemma at_end:
  assumes "placed T i q st" "\<not> i < length ikvs"
  shows "\<exists>st'. SetDataIterator p None st = Some st' \<and> at T (length all_kvs) st'" "no_data st" "\<not> w_valid (tl_index (fst st))"
  using assms close_data [of _ T q st i] placed_no_data [OF assms(1)] ix.wraps_valid [of i "tl_index (fst st)"]
  by (auto simp: placed_def at_def indexed_def)

lemma forward:
  assumes "placed T i q st" "i < length ikvs \<longrightarrow> q \<le> length (blk i)"
  shows "\<exists>st'. SkipEmptyDataBlocksForward p st = Some st' \<and> at T (if i < length ikvs then before i + q else length all_kvs) st'"
  using assms
proof (induction "length ikvs - i" arbitrary: i q st)
  case 0
  then have "\<not> i < length ikvs" by simp
  then show ?case using at_end [OF 0(2)] SkipEmptyDataBlocksForward.simps [of p st] by simp
next
  case (Suc k)
  have i: "i < length ikvs" using Suc(2) by simp
  show ?case
  proof (cases "q < length (blk i)")
    case True
    then show ?thesis using placed_no_data [OF Suc(3)] placed_at [OF Suc(3) i True] i SkipEmptyDataBlocksForward.simps [of p st] by simp
  next
    case False
    have nd: "no_data st" using placed_no_data [OF Suc(3)] False by simp
    have ix: "indexed i st" using Suc(3) by (simp add: placed_def)
    then have v: "w_valid (tl_index (fst st))" using index_valid i by blast
    obtain h where h: "is_open h T q st \<or> is_closed T st" using placed_open [OF Suc(3)] by blast
    obtain st1 st2 q' where s12: "move_index (wrapper_Next (index_ops p)) st = Some st1" "InitDataBlock p st1 = Some st2"
      "placed T (Suc i) q' st2"
      using move_indexed [where f = "wrapper_Next (index_ops p)", OF _ ix h] ix.wrapper_Next_at [OF _ i] by blast
    obtain st3 where s3: "move_data_if (wrapper_SeekToFirst (data_ops p)) st2 = Some st3" "placed T (Suc i) 0 st3"
      using move_placed(1) [OF s12(3)] list_iterator.wrapper_SeekToFirst_at [OF data_iterator [OF handle_in], folded blk_def] by blast
    have k: "k = length ikvs - Suc i" and z: "Suc i < length ikvs \<longrightarrow> 0 \<le> length (blk (Suc i))" using Suc(2) by simp_all
    obtain st' where "SkipEmptyDataBlocksForward p st3 = Some st'"
      "at T (if Suc i < length ikvs then before (Suc i) + 0 else length all_kvs) st'"
      using Suc(1) [OF k s3(2) z] by blast
    moreover have "before i + q = before (Suc i)" using before_Suc [OF i] False Suc(4) i by simp
    moreover have "\<not> Suc i < length ikvs \<Longrightarrow> before (Suc i) = length all_kvs" using before_all i by (metis Suc_lessI)
    ultimately show ?thesis
      using nd v s12(1,2) s3(1) i SkipEmptyDataBlocksForward.simps [of p st] by (cases "Suc i < length ikvs") auto
  qed
qed

lemma backward_valid:
  assumes "placed T i q st" "i < length ikvs" "q < length (blk i)"
  shows "SkipEmptyDataBlocksBackward p st = Some st"
  using placed_no_data [OF assms(1)] assms(2,3) SkipEmptyDataBlocksBackward.simps [of p st] by simp

lemma backward_end:
  assumes "placed T i q st" "\<not> i < length ikvs"
  shows "\<exists>st'. SkipEmptyDataBlocksBackward p st = Some st' \<and> at T (length all_kvs) st'"
  using at_end [OF assms] SkipEmptyDataBlocksBackward.simps [of p st] by simp

lemma backward:
  assumes "placed T i q st" "i < length ikvs" "length (blk i) \<le> q"
  shows "\<exists>st'. SkipEmptyDataBlocksBackward p st = Some st' \<and> at T (if before i = 0 then length all_kvs else before i - 1) st'"
  using assms
proof (induction i arbitrary: q st)
  case (0 q st)
  have nd: "no_data st" using placed_no_data [OF 0(1)] 0(3) by simp
  have ix: "indexed 0 st" using 0(1) by (simp add: placed_def)
  then have v: "w_valid (tl_index (fst st))" using index_valid 0(2) by blast
  obtain h where h: "is_open h T q st \<or> is_closed T st" using placed_open [OF 0(1)] by blast
  have "ix.wraps 0 w \<Longrightarrow> \<exists>w'. wrapper_Prev (index_ops p) w = Some w' \<and> ix.wraps (length ikvs) w'" for w
    using ix.wrapper_Prev_at [OF _ 0(2)] by (simp add: prev_pos_def)
  then obtain st1 st2 q' where s12: "move_index (wrapper_Prev (index_ops p)) st = Some st1" "InitDataBlock p st1 = Some st2"
    "placed T (length ikvs) q' st2"
    using move_indexed [where f = "wrapper_Prev (index_ops p)", OF _ ix h] by blast
  have "move_data_if (wrapper_SeekToLast (data_ops p)) st2 = Some st2"
    using s12(3) by (simp add: move_data_if_def placed_def is_closed_def)
  then show ?case using backward_end [OF s12(3)] nd v s12(1,2) SkipEmptyDataBlocksBackward.simps [of p st] by simp
next
  case (Suc i q st)
  have i: "i < length ikvs" using Suc.prems(2) by simp
  have nd: "no_data st" using placed_no_data [OF Suc.prems(1)] Suc.prems(3) by simp
  have ix: "indexed (Suc i) st" using Suc.prems(1) by (simp add: placed_def)
  then have v: "w_valid (tl_index (fst st))" using index_valid Suc.prems(2) by blast
  obtain h where h: "is_open h T q st \<or> is_closed T st" using placed_open [OF Suc.prems(1)] by blast
  have "ix.wraps (Suc i) w \<Longrightarrow> \<exists>w'. wrapper_Prev (index_ops p) w = Some w' \<and> ix.wraps i w'" for w
    using ix.wrapper_Prev_at [OF _ Suc.prems(2)] by (simp add: prev_pos_def)
  then obtain st1 st2 q' where s12: "move_index (wrapper_Prev (index_ops p)) st = Some st1" "InitDataBlock p st1 = Some st2"
    "placed T i q' st2"
    using move_indexed [where f = "wrapper_Prev (index_ops p)", OF _ ix h] by blast
  obtain st3 where s3: "move_data_if (wrapper_SeekToLast (data_ops p)) st2 = Some st3" "placed T i (length (blk i) - 1) st3"
    using move_placed(1) [OF s12(3)] list_iterator.wrapper_SeekToLast_at [OF data_iterator [OF handle_in], folded blk_def] by blast
  have step: "SkipEmptyDataBlocksBackward p st = SkipEmptyDataBlocksBackward p st3"
    using nd v s12(1,2) s3(1) SkipEmptyDataBlocksBackward.simps [of p st] by simp
  show ?case
  proof (cases "blk i = []")
    case True
    then show ?thesis using Suc.IH [OF s3(2) i] before_Suc [OF i] step by (cases "before i = 0") simp_all
  next
    case False
    then have n: "before (Suc i) \<noteq> 0" "before (Suc i) - 1 = before i + (length (blk i) - 1)" "length (blk i) - 1 < length (blk i)"
      using before_Suc [OF i] length_greater_0_conv [of "blk i"] by linarith+
    have "at T (before (Suc i) - 1) st3" unfolding n(2) by (rule placed_at [OF s3(2) i n(3)])
    then show ?thesis using backward_valid [OF s3(2) i n(3)] n(1) step by simp
  qed
qed

subsection \<open>The two-level iterator is a cursor in all the pairs\<close>

lemma at_start:
  assumes "at T j st"
  obtains i h q where "indexed i st" "is_open h T q st \<or> is_closed T st"
  using assms by (auto simp: at_def split: if_splits)

lemma at_inside:
  assumes "at T j st" "j < length all_kvs"
  obtains i q where "i < length ikvs" "q < length (blk i)" "j = before i + q" "placed T i q st"
  using assms by (auto simp: at_def placed_def)

lemma at_valid: "at T j st \<Longrightarrow> w_valid (tl_data (fst st)) \<longleftrightarrow> j < length all_kvs"
proof (cases "j < length all_kvs")
  case True
  assume "at T j st"
  then obtain i q where q: "i < length ikvs" "q < length (blk i)" "placed T i q st" using True by (rule at_inside) blast
  then show ?thesis using placed_no_data [OF q(3)] True by (simp add: no_data_def)
next
  case False
  assume "at T j st"
  then show ?thesis using False by (auto simp: at_def is_closed_def)
qed

lemma at_pair:
  assumes "at T j st" "j < length all_kvs"
  shows "wrapper_key (tl_data (fst st)) = Some (fst (all_kvs ! j))"
    "wrapper_value (data_ops p) (tl_data (fst st)) = Some (snd (all_kvs ! j))"
proof -
  obtain i q where q: "i < length ikvs" "q < length (blk i)" "j = before i + q" "placed T i q st"
    using at_inside [OF assms] by blast
  obtain tk where "list_iterator.wraps (blk i) (RD (snd (ikvs ! i)) tk) q (tl_data (fst st))"
    using q(1,4) by (auto simp: placed_def is_open_def blk_def)
  note w = this
  have e: "all_kvs ! j = blk i ! q" using all_nth [OF q(1,2)] q(3) by simp
  note it = data_iterator [OF handle_in [OF q(1)], of tk, folded blk_def]
  show "wrapper_key (tl_data (fst st)) = Some (fst (all_kvs ! j))"
    unfolding e using list_iterator.wraps_key [OF it w q(2)] .
  show "wrapper_value (data_ops p) (tl_data (fst st)) = Some (snd (all_kvs ! j))"
    unfolding e using list_iterator.wraps_value [OF it w q(2)] .
qed

lemma at_status: "at T j st \<Longrightarrow> TwoLevel_status p (fst st) = Some OK"
proof -
  assume a: "at T j st"
  then obtain i where i: "indexed i st" by (rule at_start)
  have "wrapper_status (data_ops p) (tl_data (fst st)) \<in> {None, Some OK}"
  proof (cases "j < length all_kvs")
    case True
    then obtain i q tk where "i < length ikvs" "list_iterator.wraps (blk i) (RD (snd (ikvs ! i)) tk) q (tl_data (fst st))"
      using a by (auto simp: at_def is_open_def blk_def)
    then show ?thesis using list_iterator.wraps_status [OF data_iterator [OF handle_in], folded blk_def] by blast
  next
    case False
    then show ?thesis using a by (auto simp: at_def is_closed_def wrapper_status_def)
  qed
  then show ?thesis using i ix.wraps_status by (auto simp: TwoLevel_status_def indexed_def)
qed

lemma in_blocks:
  "kv \<in> set (concat (map (content \<circ> snd) (take i ikvs))) \<longleftrightarrow> (\<exists>k < length ikvs. k < i \<and> kv \<in> set (blk k))"
  "kv \<in> set (concat (map (content \<circ> snd) (drop i ikvs))) \<longleftrightarrow> (\<exists>k < length ikvs. i \<le> k \<and> kv \<in> set (blk k))"
proof -
  have t: "set (take i ikvs) = (!) ikvs ` {k. k < length ikvs \<and> k < i}" by (auto simp: set_conv_nth image_iff) (metis nth_take)
  have "set (drop i ikvs) = (\<lambda>k. ikvs ! (i + k)) ` {k. k < length ikvs - i}" by (auto simp: set_conv_nth)
  also have "\<dots> = (!) ikvs ` {k. k < length ikvs \<and> i \<le> k}"
  proof -
    have "{k. k < length ikvs \<and> i \<le> k} = (+) i ` {k. k < length ikvs - i}"
      by (auto simp: image_iff intro: exI [where x = "_ - i"]) (metis diff_less_mono le_add_diff_inverse)
    then show ?thesis by (simp add: image_image)
  qed
  finally have d: "set (drop i ikvs) = (!) ikvs ` {k. k < length ikvs \<and> i \<le> k}" .
  show "kv \<in> set (concat (map (content \<circ> snd) (take i ikvs))) \<longleftrightarrow> (\<exists>k < length ikvs. k < i \<and> kv \<in> set (blk k))"
    "kv \<in> set (concat (map (content \<circ> snd) (drop i ikvs))) \<longleftrightarrow> (\<exists>k < length ikvs. i \<le> k \<and> kv \<in> set (blk k))"
    by (auto simp: t d blk_def)
qed

lemma seek_pos_all:
  assumes "valid target"
  shows "seek_pos cmp target all_kvs =
    (let i = seek_pos cmp target ikvs in if i < length ikvs then before i + seek_pos cmp target (blk i) else length all_kvs)"
proof -
  let ?P = "\<lambda>kv. cmp (fst kv) target < 0"
  define i where "i = seek_pos cmp target ikvs"
  have i_le: "i \<le> length ikvs" by (simp add: i_def seek_pos_def length_takeWhile_le)
  have early: "?P (ikvs ! k)" if "k < i" for k
    using that by (metis i_def seek_pos_def nth_mem set_takeWhileD takeWhile_nth)
  have v: "valid (fst kv)" if "k < length ikvs" "kv \<in> set (blk k)" for k kv
    using all_sorted that by (auto simp: kvs_sorted_def blk_def)
  have vs: "valid (fst (ikvs ! k))" if "k < length ikvs" for k using separators_valid that by simp
  have first: "?P kv" if h: "kv \<in> set (concat (map (content \<circ> snd) (take i ikvs)))" for kv
  proof -
    obtain k where k: "k < i" "k < length ikvs" "kv \<in> set (blk k)" using h unfolding in_blocks by auto
    then show ?thesis
      using le_less_trans [OF v [OF k(2,3)] vs [OF k(2)] assms] separated(1) [OF k(2)] early [OF k(1)] by (simp add: blk_def)
  qed
  show ?thesis
  proof (cases "i < length ikvs")
    case False
    then have "\<forall>kv \<in> set all_kvs. ?P kv" using first i_le by (simp add: all_kvs_def)
    then have "takeWhile ?P all_kvs = all_kvs" by (simp add: takeWhile_eq_all_conv)
    then have "seek_pos cmp target all_kvs = length all_kvs" by (simp only: seek_pos_def)
    then show ?thesis using False unfolding i_def by (simp add: Let_def)
  next
    case True
    have stop: "\<not> ?P (ikvs ! i)" using nth_length_takeWhile [of ?P ikvs] True by (simp add: i_def seek_pos_def)
    have last: "\<not> ?P kv" if h: "kv \<in> set (concat (map (content \<circ> snd) (drop (Suc i) ikvs)))" for kv
    proof
      assume P: "?P kv"
      obtain k where k: "i < k" "k < length ikvs" "kv \<in> set (blk k)" using h unfolding in_blocks by (auto simp: Suc_le_eq)
      have "?P (ikvs ! i)"
        using less_trans [OF vs [OF True] v [OF k(2,3)] assms] separated(2) [OF k(2,1)] k(3) P by (simp add: blk_def)
      then show False using stop by simp
    qed
    have "takeWhile ?P all_kvs = concat (map (content \<circ> snd) (take i ikvs)) @ takeWhile ?P (blk i)"
    proof -
      have tail: "takeWhile ?P (concat (map (content \<circ> snd) (drop (Suc i) ikvs))) = []"
        using last by (metis hd_in_set takeWhile_eq_Nil_iff)
      have mid: "takeWhile ?P (blk i @ concat (map (content \<circ> snd) (drop (Suc i) ikvs))) = takeWhile ?P (blk i)"
        by (cases "\<forall>kv \<in> set (blk i). ?P kv") (auto simp: takeWhile_append tail takeWhile_eq_all_conv [THEN iffD2])
      show ?thesis
        unfolding all_split [OF True] by (subst takeWhile_append2) (use first mid in auto)
    qed
    then show ?thesis using True by (simp add: seek_pos_def i_def [unfolded seek_pos_def, symmetric] before_def)
  qed
qed

lemma start_at:
  assumes "RI (length ikvs) it" "Inv T s" "size T + 1 < room"
  shows "\<exists>t. NewTwoLevelIterator p it = Some t \<and> at T (length all_kvs) (t, s)"
proof -
  obtain w where "wrapper_Set (index_ops p) (Some it) IteratorWrapper = Some w" "ix.wraps (length ikvs) w"
    using ix.set_wraps [OF assms(1)] by blast
  then show ?thesis using assms(2,3)
    by (simp add: NewTwoLevelIterator_def at_def indexed_def is_closed_def IteratorWrapper_def) blast
qed

lemma destroy_at:
  assumes "at T j st"
  shows "\<exists>s'. TwoLevel_destroy p st = Some s' \<and> Inv T s'"
proof -
  obtain t s where st: "st = (t, s)" by (cases st)
  obtain i h q where "is_open h T q st \<or> is_closed T st" using assms by (rule at_start)
  then show ?thesis
  proof
    assume "is_closed T st"
    then show ?thesis by (simp add: st TwoLevel_destroy_def is_closed_def)
  next
    assume "is_open h T q st"
    then obtain tk where h: "h \<in> snd ` set ikvs" and tk: "list_iterator.wraps (content h) (RD h tk) q (tl_data t)" "Inv (add_mset tk T) s"
      by (auto simp: is_open_def st)
    obtain d where "w_iter (tl_data t) = Some d" "RD h tk q d"
      using list_iterator.wraps_iter [OF data_iterator [OF h] tk(1)] by blast
    then show ?thesis using deletes [OF h _ tk(2)] by (simp add: st TwoLevel_destroy_def)
  qed
qed

theorem two_level_iterates: "list_iterator (two_level_ops p) cmp valid all_kvs (at T)"
proof
  fix j and st :: "('i, 'd) two_level \<times> 's" assume a: "at T j st"
  show "op_status (two_level_ops p) st = OK" using at_status [OF a] by (simp add: two_level_ops_def)
  show "op_Valid (two_level_ops p) st = (j < length all_kvs)" using at_valid [OF a] by (simp add: two_level_ops_def)
  obtain i0 h0 q0 where ix: "indexed i0 st" and dat: "is_open h0 T q0 st \<or> is_closed T st" by (rule at_start [OF a])
  show "\<exists>st'. op_SeekToFirst (two_level_ops p) st = Some st' \<and> at T 0 st'"
  proof -
    obtain st1 st2 q where m: "move_index (wrapper_SeekToFirst (index_ops p)) st = Some st1" "InitDataBlock p st1 = Some st2"
      "placed T 0 q st2" using move_indexed [where f = "wrapper_SeekToFirst (index_ops p)", OF ix.wrapper_SeekToFirst_at ix dat] by blast
    obtain st3 where s3: "move_data_if (wrapper_SeekToFirst (data_ops p)) st2 = Some st3" "placed T 0 0 st3"
      using move_placed(1) [OF m(3)] list_iterator.wrapper_SeekToFirst_at [OF data_iterator [OF handle_in], folded blk_def] by blast
    have "(if 0 < length ikvs then before 0 + 0 else length all_kvs) = 0"
      by (metis before_all before_0 gr0I add_0_right)
    then show ?thesis
      using forward [OF s3(2)] m(1,2) s3(1) by (auto simp: two_level_ops_def TwoLevel_SeekToFirst_def)
  qed
  show "\<exists>st'. op_SeekToLast (two_level_ops p) st = Some st' \<and> at T (length all_kvs - 1) st'"
  proof -
    let ?i = "length ikvs - 1"
    obtain st1 st2 q where m: "move_index (wrapper_SeekToLast (index_ops p)) st = Some st1" "InitDataBlock p st1 = Some st2"
      "placed T ?i q st2" using move_indexed [where f = "wrapper_SeekToLast (index_ops p)", OF ix.wrapper_SeekToLast_at ix dat] by blast
    obtain st3 where s3: "move_data_if (wrapper_SeekToLast (data_ops p)) st2 = Some st3" "placed T ?i (length (blk ?i) - 1) st3"
      using move_placed(1) [OF m(3)] list_iterator.wrapper_SeekToLast_at [OF data_iterator [OF handle_in], folded blk_def] by blast
    have "\<exists>st'. SkipEmptyDataBlocksBackward p st3 = Some st' \<and> at T (length all_kvs - 1) st'"
    proof (cases "ikvs = []")
      case True
      have "length all_kvs = 0" using True before_all before_0 by (metis list.size(3))
      then have "length all_kvs - 1 = length all_kvs" by linarith
      moreover have "\<not> ?i < length ikvs" using True by simp
      ultimately show ?thesis using backward_end [OF s3(2)] by metis
    next
      case False
      then have i: "?i < length ikvs" "Suc ?i = length ikvs" by simp_all
      have all: "length all_kvs = before ?i + length (blk ?i)" using before_Suc [OF i(1)] i(2) before_all by simp
      show ?thesis
      proof (cases "blk ?i = []")
        case True
        then show ?thesis using backward [OF s3(2) i(1)] all by (cases "before ?i = 0") simp_all
      next
        case blk: False
        then have q: "length (blk ?i) - 1 < length (blk ?i)" "before ?i + (length (blk ?i) - 1) = length all_kvs - 1"
          using all length_greater_0_conv [of "blk ?i"] by linarith+
        show ?thesis using backward_valid [OF s3(2) i(1) q(1)] placed_at [OF s3(2) i(1) q(1)] unfolding q(2) by blast
      qed
    qed
    then show ?thesis using m(1,2) s3(1) by (auto simp: two_level_ops_def TwoLevel_SeekToLast_def)
  qed
  show "\<exists>st'. op_Seek (two_level_ops p) target st = Some st' \<and> at T (seek_pos cmp target all_kvs) st'" if v: "valid target" for target
  proof -
    let ?i = "seek_pos cmp target ikvs"
    obtain st1 st2 q where m: "move_index (wrapper_Seek (index_ops p) target) st = Some st1" "InitDataBlock p st1 = Some st2"
      "placed T ?i q st2" using move_indexed [where f = "wrapper_Seek (index_ops p) target", OF ix.wrapper_Seek_at [OF _ v] ix dat] by blast
    obtain st3 where s3: "move_data_if (wrapper_Seek (data_ops p) target) st2 = Some st3"
      "placed T ?i (seek_pos cmp target (blk ?i)) st3"
      using move_placed(1) [OF m(3)] list_iterator.wrapper_Seek_at [OF data_iterator [OF handle_in] _ v, folded blk_def] by blast
    have "seek_pos cmp target (blk ?i) \<le> length (blk ?i)" by (simp add: seek_pos_def length_takeWhile_le)
    then obtain st' where "SkipEmptyDataBlocksForward p st3 = Some st'" "at T (seek_pos cmp target all_kvs) st'"
      using forward [OF s3(2)] unfolding seek_pos_all [OF v] Let_def by blast
    then show ?thesis using m(1,2) s3(1) by (simp add: two_level_ops_def TwoLevel_Seek_def)
  qed
  assume j: "j < length all_kvs"
  show "op_key (two_level_ops p) st = Some (fst (all_kvs ! j))" "op_value (two_level_ops p) st = Some (snd (all_kvs ! j))"
    using at_pair [OF a j] by (simp_all add: two_level_ops_def)
  obtain i q where q: "i < length ikvs" "q < length (blk i)" "j = before i + q" "placed T i q st" using at_inside [OF a j] by blast
  have w: "w_valid (tl_data (fst st))" using at_valid [OF a] j by blast
  note it = data_iterator [OF handle_in [OF q(1)], folded blk_def]
  show "\<exists>st'. op_Next (two_level_ops p) st = Some st' \<and> at T (Suc j) st'"
  proof -
    obtain st1 where s1: "move_data (wrapper_Next (data_ops p)) st = Some st1" "placed T i (Suc q) st1"
      using move_placed(2) [OF q(4) _ q(1)] list_iterator.wrapper_Next_at [OF it _ q(2)] by blast
    have "before i + Suc q = Suc j" using q(3) by simp
    then show ?thesis using forward [OF s1(2)] q(1,2) s1(1) w by (auto simp: two_level_ops_def TwoLevel_Next_def)
  qed
  show "\<exists>st'. op_Prev (two_level_ops p) st = Some st' \<and> at T (prev_pos (length all_kvs) j) st'"
  proof -
    obtain st1 where s1: "move_data (wrapper_Prev (data_ops p)) st = Some st1" "placed T i (prev_pos (length (blk i)) q) st1"
      using move_placed(2) [OF q(4) _ q(1)] list_iterator.wrapper_Prev_at [OF it _ q(2)] by blast
    have "\<exists>st'. SkipEmptyDataBlocksBackward p st1 = Some st' \<and> at T (prev_pos (length all_kvs) j) st'"
    proof (cases q)
      case 0
      then show ?thesis using backward [OF s1(2) q(1)] q(3) by (simp add: prev_pos_def)
    next
      case (Suc q')
      then have q': "prev_pos (length (blk i)) q = q'" "q' < length (blk i)" "prev_pos (length all_kvs) j = before i + q'"
        using q(2,3) by (simp_all add: prev_pos_def)
      show ?thesis
        using backward_valid [OF s1(2) [unfolded q'(1)] q(1) q'(2)] placed_at [OF s1(2) [unfolded q'(1)] q(1) q'(2)]
        unfolding q'(3) by blast
    qed
    then show ?thesis using s1(1) w by (auto simp: two_level_ops_def TwoLevel_Prev_def)
  qed
qed

end

end
