(* ===== verification/Lv_Format.thy ===== *)
theory Lv_Format
  imports Lv_Crc Lv_Status
begin

unbundle bit_operations_syntax

section \<open>The format of a table file (leveldb table/format)\<close>

text \<open>
  Block handles, the footer and the reading of a block with its trailer. A function that returns a \<^verbatim>\<open>Status\<close> returns
  it with the new values of what it was given; an outer \<open>None\<close> is undefined behaviour: a failed assertion or a
  load outside the bytes. Files and the compression library are parameters.
\<close>

subsection \<open>Handles and the footer\<close>

record block_handle =
  bh_offset :: u64
  bh_size :: u64

definition BlockHandle :: block_handle where "BlockHandle = \<lparr>bh_offset = - 1, bh_size = - 1\<rparr>"

definition kMaxEncodedLength :: nat where "kMaxEncodedLength = 10 + 10"

definition BlockHandle_EncodeTo :: "block_handle \<Rightarrow> slice \<Rightarrow> slice option" where
  "BlockHandle_EncodeTo h dst =
     (if bh_offset h = NOT 0 \<or> bh_size h = NOT 0 then None else Some (PutVarint64 (PutVarint64 dst (bh_offset h)) (bh_size h)))"

definition BlockHandle_DecodeFrom :: "block_handle \<Rightarrow> slice \<Rightarrow> status \<times> block_handle \<times> slice" where
  "BlockHandle_DecodeFrom h input =
     (case GetVarint64 input of
        None \<Rightarrow> (Corruption (chars ''bad block handle'') [], h, input)
      | Some (offset, input1) \<Rightarrow>
          (case GetVarint64 input1 of
             None \<Rightarrow> (Corruption (chars ''bad block handle'') [], h\<lparr>bh_offset := offset\<rparr>, input1)
           | Some (sz, input2) \<Rightarrow> (OK, h\<lparr>bh_offset := offset, bh_size := sz\<rparr>, input2)))"

record footer =
  metaindex_handle :: block_handle
  index_handle :: block_handle

definition Footer :: footer where "Footer = \<lparr>metaindex_handle = BlockHandle, index_handle = BlockHandle\<rparr>"

definition kEncodedLength :: nat where "kEncodedLength = 2 * kMaxEncodedLength + 8"

definition kTableMagicNumber :: u64 where "kTableMagicNumber = 0xdb4775248b80fb57"

definition resize :: "nat \<Rightarrow> slice \<Rightarrow> slice" where "resize n s = take n s @ replicate (n - length s) 0"

definition Footer_EncodeTo :: "footer \<Rightarrow> slice \<Rightarrow> slice option" where
  "Footer_EncodeTo f dst =
     (case BlockHandle_EncodeTo (metaindex_handle f) dst of
        None \<Rightarrow> None
      | Some dst1 \<Rightarrow>
          (case BlockHandle_EncodeTo (index_handle f) dst1 of
             None \<Rightarrow> None
           | Some dst2 \<Rightarrow>
               let dst3 = PutFixed32 (PutFixed32 (resize (2 * kMaxEncodedLength) dst2) (ucast (kTableMagicNumber AND 0xffffffff)))
                 (ucast (drop_bit 32 kTableMagicNumber)) in
               if length dst3 = length dst + kEncodedLength then Some dst3 else None))"

definition Footer_DecodeFrom :: "footer \<Rightarrow> slice \<Rightarrow> (status \<times> footer \<times> slice) option" where
  "Footer_DecodeFrom f input =
     (let magic_ptr = drop (kEncodedLength - 8) input in
      case (DecodeFixed32 magic_ptr, DecodeFixed32 (drop 4 magic_ptr)) of
        (Some magic_lo, Some magic_hi) \<Rightarrow>
          let magic = push_bit 32 (ucast magic_hi) OR ucast magic_lo in
          if magic \<noteq> kTableMagicNumber
          then Some (Corruption (chars ''not an sstable (bad magic number)'') [], f, input)
          else (case BlockHandle_DecodeFrom (metaindex_handle f) input of
              (st, h, input1) \<Rightarrow>
                if st \<noteq> OK then Some (st, f\<lparr>metaindex_handle := h\<rparr>, input1)
                else (case BlockHandle_DecodeFrom (index_handle f) input1 of
                    (st, h2, input2) \<Rightarrow>
                      let f' = f\<lparr>metaindex_handle := h, index_handle := h2\<rparr> in
                      if st \<noteq> OK then Some (st, f', input2) else Some (OK, f', drop kEncodedLength input)))
      | _ \<Rightarrow> None)"

subsection \<open>Reading a block\<close>

definition kBlockTrailerSize :: u64 where "kBlockTrailerSize = 5"

definition kNoCompression :: byte where "kNoCompression = 0"
definition kSnappyCompression :: byte where "kSnappyCompression = 1"

record block_result =
  br_data :: slice
  br_cachable :: bool
  br_heap_allocated :: bool

text \<open>
  What the file answers: a status, the bytes it read, the address they are at, and whether that is the buffer it
  was given. \<open>ulength\<close> and \<open>uncompress\<close> are the two calls of the compression library.
\<close>

record read_answer =
  ra_status :: status
  ra_contents :: slice
  ra_addr :: u64
  ra_in_buffer :: bool

type_synonym file_read = "u64 \<Rightarrow> u64 \<Rightarrow> read_answer"

record snappy =
  sn_ulength :: "slice \<Rightarrow> nat option"
  sn_uncompress :: "slice \<Rightarrow> nat \<Rightarrow> slice option"

text \<open>A load of four bytes at an offset; offsets are 64-bit numbers, as the sums in the code are.\<close>

definition load32_at :: "slice \<Rightarrow> u64 \<Rightarrow> u32 option" where "load32_at data i = DecodeFixed32 (drop (unat i) data)"

text \<open>The result of uncompressing is put into a buffer of the announced length; one of another length is undefined here.\<close>

definition read_contents :: "snappy \<Rightarrow> slice \<Rightarrow> u64 \<Rightarrow> bool \<Rightarrow> (status \<times> block_result) option" where
  "read_contents sn data n in_buffer =
     (if length data \<le> unat n then None
      else let start = \<lparr>br_data = [], br_cachable = False, br_heap_allocated = False\<rparr>; t = data ! unat n in
        if t = kNoCompression
        then Some (OK, \<lparr>br_data = take (unat n) data, br_cachable = in_buffer, br_heap_allocated = in_buffer\<rparr>)
        else if t = kSnappyCompression
        then (case sn_ulength sn (take (unat n) data) of
            None \<Rightarrow> Some (Corruption (chars ''corrupted compressed block contents'') [], start)
          | Some ulength \<Rightarrow>
              (case sn_uncompress sn (take (unat n) data) ulength of
                 None \<Rightarrow> Some (Corruption (chars ''corrupted compressed block contents'') [], start)
               | Some u \<Rightarrow>
                   if length u = ulength then Some (OK, \<lparr>br_data = u, br_cachable = True, br_heap_allocated = True\<rparr>) else None))
        else Some (Corruption (chars ''bad block type'') [], start))"

definition ReadBlock :: "file_read \<Rightarrow> snappy \<Rightarrow> bool \<Rightarrow> block_handle \<Rightarrow> (status \<times> block_result) option" where
  "ReadBlock file sn verify_checksums handle =
     (let start = \<lparr>br_data = [], br_cachable = False, br_heap_allocated = False\<rparr>; n = bh_size handle;
          a = file (bh_offset handle) (n + kBlockTrailerSize); data = ra_contents a in
      if ra_status a \<noteq> OK then Some (ra_status a, start)
      else if of_nat (length data) \<noteq> n + kBlockTrailerSize then Some (Corruption (chars ''truncated block read'') [], start)
      else if verify_checksums
      then (case load32_at data (n + 1) of
          None \<Rightarrow> None
        | Some masked \<Rightarrow>
            if length data < unat (n + 1) then None
            else (case crc32c_Value (ra_addr a) (take (unat (n + 1)) data) of
                None \<Rightarrow> None
              | Some actual \<Rightarrow>
                  if actual \<noteq> crc32c_Unmask masked
                  then Some (Corruption (chars ''block checksum mismatch'') [], start)
                  else read_contents sn data n (ra_in_buffer a)))
      else read_contents sn data n (ra_in_buffer a))"

subsection \<open>Handles and footers round-trip\<close>

lemma length_PutVarint64: "length (PutVarint64 dst v) \<le> length dst + 10"
  using length_EncodeVarint64 [of v] by (simp add: PutVarint64_def)

lemma BlockHandle_roundtrip:
  assumes "BlockHandle_EncodeTo h dst = Some s"
  shows "\<exists>e. s = dst @ e \<and> length e \<le> kMaxEncodedLength \<and> BlockHandle_DecodeFrom h0 (e @ rest) = (OK, h, rest)"
proof -
  let ?e = "EncodeVarint64 (bh_offset h) @ EncodeVarint64 (bh_size h)"
  have "s = dst @ ?e" using assms by (simp add: BlockHandle_EncodeTo_def PutVarint64_def split: if_splits)
  moreover have "length ?e \<le> kMaxEncodedLength"
    using length_EncodeVarint64 [of "bh_offset h"] length_EncodeVarint64 [of "bh_size h"] by (simp add: kMaxEncodedLength_def)
  moreover have "BlockHandle_DecodeFrom h0 (?e @ rest) = (OK, h, rest)"
    by (simp add: BlockHandle_DecodeFrom_def lv_varint64.get_put)
  ultimately show ?thesis by blast
qed

lemma magic_parts:
  "push_bit 32 (ucast (ucast (drop_bit 32 w) :: u32) :: u64) OR (ucast (ucast (w AND 0xffffffff) :: u32) :: u64) = (w :: u64)"
proof -
  have m: "(0xffffffff :: u64) = mask 32" by (simp add: mask_eq_exp_minus_1)
  show ?thesis unfolding m
  proof (rule bit_word_eqI)
    fix i assume "i < LENGTH(64)"
    then show "bit (push_bit 32 (ucast (ucast (drop_bit 32 w) :: u32) :: u64) OR (ucast (ucast (w AND mask 32) :: u32) :: u64)) i = bit w i"
      by (cases "i < 32") (auto simp: bit_simps)
  qed
qed

lemma Footer_roundtrip:
  assumes "bh_offset (metaindex_handle f) \<noteq> NOT 0" "bh_size (metaindex_handle f) \<noteq> NOT 0"
    "bh_offset (index_handle f) \<noteq> NOT 0" "bh_size (index_handle f) \<noteq> NOT 0"
  shows "\<exists>s. Footer_EncodeTo f [] = Some s \<and> length s = kEncodedLength \<and>
    Footer_DecodeFrom f0 (s @ rest) = Some (OK, f, rest)"
proof -
  obtain e1 where e1: "BlockHandle_EncodeTo (metaindex_handle f) [] = Some e1" "length e1 \<le> kMaxEncodedLength"
    "\<And>h r. BlockHandle_DecodeFrom h (e1 @ r) = (OK, metaindex_handle f, r)"
    using BlockHandle_roundtrip [of "metaindex_handle f" "[]"] assms(1,2)
    by (simp add: BlockHandle_EncodeTo_def)
  obtain e2 where e2: "BlockHandle_EncodeTo (index_handle f) e1 = Some (e1 @ e2)" "length e2 \<le> kMaxEncodedLength"
    "\<And>h r. BlockHandle_DecodeFrom h (e2 @ r) = (OK, index_handle f, r)"
    using BlockHandle_roundtrip [of "index_handle f" e1] assms(3,4)
    by (simp add: BlockHandle_EncodeTo_def) (metis append_same_eq same_append_eq)
  let ?lo = "EncodeFixed32 (ucast (kTableMagicNumber AND 0xffffffff))" and ?hi = "EncodeFixed32 (ucast (drop_bit 32 kTableMagicNumber))"
  have len: "length (e1 @ e2) \<le> 2 * kMaxEncodedLength" using e1(2) e2(2) by simp
  define pad :: slice where "pad = replicate (2 * kMaxEncodedLength - length (e1 @ e2)) 0"
  have r: "resize (2 * kMaxEncodedLength) (e1 @ e2) = e1 @ e2 @ pad" using len by (simp add: resize_def pad_def)
  have l40: "length (e1 @ e2 @ pad) = 2 * kMaxEncodedLength" using len by (simp add: pad_def)
  let ?s = "e1 @ e2 @ pad @ ?lo @ ?hi"
  have ls: "length ?s = kEncodedLength" using l40 by (simp add: kEncodedLength_def)
  have "Footer_EncodeTo f [] = Some ?s"
    using ls by (simp add: Footer_EncodeTo_def e1(1) e2(1) r PutFixed32_def Let_def)
  moreover have "drop (kEncodedLength - 8) (?s @ rest) = ?lo @ ?hi @ rest"
    using l40 by (simp add: kEncodedLength_def)
  moreover have "drop kEncodedLength (?s @ rest) = rest" using ls by simp
  ultimately show ?thesis
    using ls magic_parts [of kTableMagicNumber] e1(3) e2(3)
    by (intro exI [of _ ?s]) (simp add: Footer_DecodeFrom_def Let_def)
qed

subsection \<open>Stored blocks\<close>

text \<open>
  What the table builder stores for the contents \<open>c\<close> with the type \<open>t\<close>, and what a file promises: a read within
  the file answers with the bytes that are there. An answer is memory, so it does not reach the end of the address space.
\<close>

definition stored_block :: "byte \<Rightarrow> slice \<Rightarrow> slice" where
  "stored_block t c = c @ [t] @ EncodeFixed32 (crc32c_Mask (crc32c 0 (c @ [t])))"

definition answer_placed :: "read_answer \<Rightarrow> bool" where
  "answer_placed a \<longleftrightarrow> unat (ra_addr a) + length (ra_contents a) + 3 < 2 ^ 64"

definition file_holds :: "file_read \<Rightarrow> slice \<Rightarrow> bool" where
  "file_holds file bytes \<longleftrightarrow> (\<forall>i n. unat i + unat n \<le> length bytes \<longrightarrow>
     ra_status (file i n) = OK \<and> ra_contents (file i n) = take (unat n) (drop (unat i) bytes) \<and> answer_placed (file i n))"

lemma length_stored [simp]: "length (stored_block t c) = length c + 5" by (simp add: stored_block_def)

lemma trailer_arith:
  assumes "length c + 5 < 2 ^ 64"
  shows "unat (of_nat (length c) :: u64) = length c" "unat (of_nat (length c) + 5 :: u64) = length c + 5"
    "unat (of_nat (length c) + 1 :: u64) = length c + 1"
proof -
  have e: "(of_nat (length c) + 5 :: u64) = of_nat (length c + 5)" "(of_nat (length c) + 1 :: u64) = of_nat (length c + 1)" by simp_all
  show "unat (of_nat (length c) :: u64) = length c" using assms by (intro unat_of_nat_id) simp
  show "unat (of_nat (length c) + 5 :: u64) = length c + 5" unfolding e using assms by (intro unat_of_nat_id) simp
  show "unat (of_nat (length c) + 1 :: u64) = length c + 1" unfolding e using assms by (intro unat_of_nat_id) simp
qed

lemma read_answer_block:
  assumes "ra_status (file (bh_offset h) (bh_size h + kBlockTrailerSize)) = OK"
    "ra_contents (file (bh_offset h) (bh_size h + kBlockTrailerSize)) = body @ EncodeFixed32 (crc32c_Mask crc)"
    "answer_placed (file (bh_offset h) (bh_size h + kBlockTrailerSize))" "length body = length c + 1"
    "bh_size h = of_nat (length c)" "length c + 5 < 2 ^ 64"
  shows "ReadBlock file sn verify h =
    (if verify \<and> crc32c 0 body \<noteq> crc
     then Some (Corruption (chars ''block checksum mismatch'') [], \<lparr>br_data = [], br_cachable = False, br_heap_allocated = False\<rparr>)
     else read_contents sn (body @ EncodeFixed32 (crc32c_Mask crc)) (bh_size h)
       (ra_in_buffer (file (bh_offset h) (bh_size h + kBlockTrailerSize))))"
proof -
  define a where "a = file (bh_offset h) (bh_size h + kBlockTrailerSize)"
  note a = assms(1-3) [folded a_def]
  note n = trailer_arith [OF assms(6)]
  have five: "(of_nat (length (ra_contents a)) :: u64) = bh_size h + kBlockTrailerSize"
    using a(2) assms(4,5) by (simp add: kBlockTrailerSize_def)
  have l: "load32_at (ra_contents a) (bh_size h + 1) = Some (crc32c_Mask crc)"
    using assms(4,5) a(2) n DecodeFixed_Encode(1) [of _ "[]"] by (simp add: load32_at_def)
  have v: "crc32c_Value (ra_addr a) (take (unat (bh_size h + 1)) (ra_contents a)) = Some (crc32c 0 body)"
    unfolding crc32c_Value_def using a(2,3) assms(4,5) n
    by (simp add: answer_placed_def Extend_crc32c)
  have short: "\<not> length (ra_contents a) < unat (bh_size h + 1)" using a(2) assms(4,5) n by simp
  show ?thesis
    unfolding ReadBlock_def Let_def a_def [symmetric]
    using a(1) five l v short by (simp add: a(2) Unmask_Mask)
qed

text \<open>A block that was stored without compression is read back; damage within four bytes of it is reported.\<close>

lemma ReadBlock_stored:
  assumes "file_holds file bytes" "bytes = pre @ stored_block kNoCompression c @ post"
    "bh_offset h = of_nat (length pre)" "bh_size h = of_nat (length c)" "length bytes < 2 ^ 64"
  shows "\<exists>b. ReadBlock file sn verify h = Some (OK, \<lparr>br_data = c, br_cachable = b, br_heap_allocated = b\<rparr>)"
proof -
  have lc: "length c + 5 < 2 ^ 64" and lp: "unat (bh_offset h) = length pre"
    using assms unat_of_nat_id [of "length pre", where ?'a = 64] by simp_all
  note n = trailer_arith [OF lc]
  let ?a = "file (bh_offset h) (bh_size h + kBlockTrailerSize)"
  have nn: "unat (bh_size h + kBlockTrailerSize) = length c + 5" using n assms(4) by (simp add: kBlockTrailerSize_def)
  then have "unat (bh_offset h) + unat (bh_size h + kBlockTrailerSize) \<le> length bytes" using assms(2) lp by simp
  then have a: "ra_status ?a = OK" "ra_contents ?a = take (unat (bh_size h + kBlockTrailerSize)) (drop (unat (bh_offset h)) bytes)"
      "answer_placed ?a"
    using assms(1) unfolding file_holds_def by blast+
  have c: "ra_contents ?a = (c @ [kNoCompression]) @ EncodeFixed32 (crc32c_Mask (crc32c 0 (c @ [kNoCompression])))"
    unfolding a(2) nn lp assms(2) by (simp add: stored_block_def)
  show ?thesis
    using read_answer_block [of "file" h, OF a(1) c a(3) _ assms(4) lc, of sn verify] n(1) assms(4) by (simp add: read_contents_def nth_append Let_def)
qed

lemma ReadBlock_damage:
  assumes "ra_status (file (bh_offset h) (bh_size h + kBlockTrailerSize)) = OK"
    "ra_contents (file (bh_offset h) (bh_size h + kBlockTrailerSize)) =
       pre @ b' @ post @ EncodeFixed32 (crc32c_Mask (crc32c 0 (pre @ b @ post)))"
    "answer_placed (file (bh_offset h) (bh_size h + kBlockTrailerSize))"
    "length (pre @ b @ post) = Suc (length c)" "bh_size h = of_nat (length c)" "length c + 5 < 2 ^ 64"
    "length b' = length b" "b' \<noteq> b" "length b \<le> 4"
  shows "\<exists>r. ReadBlock file sn True h = Some (Corruption (chars ''block checksum mismatch'') [], r)"
proof -
  have "crc32c 0 (pre @ b' @ post) \<noteq> crc32c 0 (pre @ b @ post)" using crc32c_burst [of b' b] assms(7-9) by metis
  then show ?thesis
    using read_answer_block [of "file" h "pre @ b' @ post", OF assms(1) _ assms(3) _ assms(5,6)]
      assms(2,4,7) by simp
qed

text \<open>
  The size read is \<^verbatim>\<open>n + kBlockTrailerSize\<close> in 64 bits. Below the wrap-around reading a block is defined; above it,
  when the file answers with as many bytes as the wrapped sum, the block's type is looked for beyond them.
\<close>

lemma ReadBlock_defined:
  assumes "answer_placed (file (bh_offset h) (bh_size h + 5))" "unat (bh_size h) + 5 < 2 ^ 64"
    "\<And>c n u. sn_ulength sn c = Some n \<Longrightarrow> sn_uncompress sn c n = Some u \<Longrightarrow> length u = n"
  shows "ReadBlock file sn verify h \<noteq> None"
proof -
  define n where "n = bh_size h"
  define a where "a = file (bh_offset h) (n + 5)"
  have la: "unat (ra_addr a) + length (ra_contents a) + 3 < 2 ^ 64" using assms by (simp add: answer_placed_def a_def n_def)
  have n5: "unat (n + 5) = unat n + 5" "unat (n + 1) = unat n + 1"
    using assms(2) by (simp_all add: n_def unat_plus_if')
  show ?thesis
  proof (cases "ra_status a = OK \<and> of_nat (length (ra_contents a)) = n + 5")
    case True
    moreover have "unat (of_nat (length (ra_contents a)) :: u64) = length (ra_contents a)"
      using la by (intro unat_of_nat_id) simp
    ultimately have l: "length (ra_contents a) = unat n + 5" using n5 by metis
    then have "load32_at (ra_contents a) (n + 1) \<noteq> None" using n5 by (simp add: load32_at_def DecodeFixed32_def)
    moreover have "crc32c_Value (ra_addr a) (take (unat (n + 1)) (ra_contents a)) = Some (crc32c 0 (take (unat (n + 1)) (ra_contents a)))"
      unfolding crc32c_Value_def using la by (intro Extend_crc32c) simp
    moreover have "read_contents sn (ra_contents a) n b \<noteq> None" for b
      using l assms(3) by (auto simp: read_contents_def Let_def split: option.splits)
    ultimately show ?thesis
      using l n5 unfolding ReadBlock_def Let_def kBlockTrailerSize_def n_def [symmetric] a_def [symmetric]
      by (auto split: option.splits)
  next
    case False
    then show ?thesis
      unfolding ReadBlock_def Let_def kBlockTrailerSize_def n_def [symmetric] a_def [symmetric] by auto
  qed
qed

lemma ReadBlock_wraps:
  assumes "2 ^ 64 - 5 \<le> unat (bh_size h)" "ra_status (file (bh_offset h) (bh_size h + 5)) = OK"
    "length (ra_contents (file (bh_offset h) (bh_size h + 5))) = unat (bh_size h + 5)"
  shows "ReadBlock file sn False h = None"
proof -
  have "unat (bh_size h + 5) < unat (bh_size h)"
    using assms(1) unsigned_less [of "bh_size h", where ?'a = nat] by (simp add: unat_plus_if')
  moreover have "of_nat (unat (bh_size h + 5)) = bh_size h + 5" by simp
  ultimately show ?thesis
    unfolding ReadBlock_def Let_def kBlockTrailerSize_def using assms(2,3) by (simp add: read_contents_def)
qed

end
