(* ===== verification/Lv_Table_Builder.thy ===== *)
theory Lv_Table_Builder
  imports Lv_Block_Correct Lv_Format Lv_Filter "HOL-Library.Monad_Syntax"
begin

unbundle bit_operations_syntax

section \<open>Building a table (leveldb table/table_builder)\<close>

text \<open>
  A table is a file of data blocks, an optional filter block, a block that names it, the index block and the footer.
  Comparators and filter policies are records of their virtual functions; the file is a state \<open>'f\<close> with the functions
  that append to it and flush it. \<open>None\<close> is a failed assertion or undefined behaviour. A buffer whose checksum is taken is
  placed at address 0, as in \<open>Lv_Log\<close>. The number of entries is a natural number; the scratch string for compressed
  data is not kept.
\<close>

subsection \<open>The objects a builder uses\<close>

text \<open>\<open>co_id\<close> is the comparator's address: two comparators are compared by it only.\<close>

record comparator_object =
  co_id :: nat
  co_Compare :: compare
  co_FindShortestSeparator :: "slice \<Rightarrow> slice \<Rightarrow> slice option"
  co_FindShortSuccessor :: "slice \<Rightarrow> slice option"

record filter_policy_object =
  fp_Name :: slice
  fp_CreateFilter :: filter_creator
  fp_KeyMayMatch :: "slice \<Rightarrow> slice \<Rightarrow> bool"

text \<open>The options of a database, without the environment, the logger and the block cache, which are passed along by themselves.\<close>

record leveldb_options =
  o_comparator :: comparator_object
  o_create_if_missing :: bool
  o_error_if_exists :: bool
  o_paranoid_checks :: bool
  o_write_buffer_size :: nat
  o_max_open_files :: int
  o_block_size :: nat
  o_block_restart_interval :: nat
  o_max_file_size :: nat
  o_compression :: byte
  o_reuse_logs :: bool
  o_filter_policy :: "filter_policy_object option"

definition for_blocks :: "leveldb_options \<Rightarrow> block_options" where
  "for_blocks opt =
     \<lparr>opt_comparator = co_Compare (o_comparator opt), block_restart_interval = o_block_restart_interval opt\<rparr>"

record 'f writable_file =
  wf_Append :: "slice \<Rightarrow> 'f \<Rightarrow> status \<times> 'f"
  wf_Flush :: "'f \<Rightarrow> status \<times> 'f"

text \<open>The library is built without the compression library: compressing always reports failure.\<close>

definition Snappy_Compress :: "slice \<Rightarrow> slice option" where "Snappy_Compress input = None"

definition port_snappy :: snappy where
  "port_snappy = \<lparr>sn_ulength = (\<lambda>input. None), sn_uncompress = (\<lambda>input n. None)\<rparr>"

text \<open>The policy for internal keys passes their user keys on to the user's policy; keys have eight bytes or more.\<close>

definition InternalFilterPolicy :: "filter_policy_object \<Rightarrow> filter_policy_object" where
  "InternalFilterPolicy p =
     \<lparr>fp_Name = fp_Name p,
      fp_CreateFilter = (\<lambda>ks dst. if \<exists>k \<in> set ks. ExtractUserKey k = None then None
        else fp_CreateFilter p (map (\<lambda>k. the (ExtractUserKey k)) ks) dst),
      fp_KeyMayMatch = (\<lambda>k f. fp_KeyMayMatch p (the (ExtractUserKey k)) f)\<rparr>"

subsection \<open>The builder\<close>

record 'f table_builder =
  tb_options :: leveldb_options
  tb_index_options :: leveldb_options
  tb_file :: 'f
  tb_offset :: u64
  tb_status :: status
  tb_data_block :: block_builder
  tb_index_block :: block_builder
  tb_last_key :: slice
  tb_num_entries :: nat
  tb_closed :: bool
  tb_filter_block :: "filter_builder option"
  tb_filter_policy :: "filter_policy_object option"
  tb_pending_index_entry :: bool
  tb_pending_handle :: block_handle

definition tb_ok :: "'f table_builder \<Rightarrow> bool" where "tb_ok tb \<longleftrightarrow> tb_status tb = OK"

text \<open>
  A call on the filter block's builder, which is there when the options of the constructor have a policy. It keeps that policy
  (\<open>tb_filter_policy\<close>) when the options change.
\<close>

definition with_filter :: "(filter_creator \<Rightarrow> filter_builder \<Rightarrow> filter_builder option) \<Rightarrow> 'f table_builder \<Rightarrow> 'f table_builder option" where
  "with_filter f tb =
     (case tb_filter_block tb of
        None \<Rightarrow> Some tb
      | Some fb \<Rightarrow> do {
          pol \<leftarrow> tb_filter_policy tb;
          fb1 \<leftarrow> f (fp_CreateFilter pol) fb;
          Some (tb\<lparr>tb_filter_block := Some fb1\<rparr>)
        })"

definition TableBuilder :: "leveldb_options \<Rightarrow> 'f \<Rightarrow> 'f table_builder option" where
  "TableBuilder opt file =
     do {
       let index_opt = opt\<lparr>o_block_restart_interval := 1\<rparr>;
       data_block \<leftarrow> BlockBuilder (for_blocks opt);
       index_block \<leftarrow> BlockBuilder (for_blocks opt);
       with_filter (\<lambda>create. StartBlock create 0)
         \<lparr>tb_options = opt, tb_index_options = index_opt, tb_file = file, tb_offset = 0, tb_status = OK,
          tb_data_block = data_block, tb_index_block = index_block, tb_last_key = [], tb_num_entries = 0,
          tb_closed = False, tb_filter_block = map_option (\<lambda>p. FilterBlockBuilder) (o_filter_policy opt),
          tb_filter_policy = o_filter_policy opt, tb_pending_index_entry = False, tb_pending_handle = BlockHandle\<rparr>
     }"

definition ChangeOptions :: "leveldb_options \<Rightarrow> 'f table_builder \<Rightarrow> status \<times> 'f table_builder" where
  "ChangeOptions opt tb =
     (if co_id (o_comparator opt) \<noteq> co_id (o_comparator (tb_options tb))
      then (InvalidArgument (chars ''changing comparator while building table'') [], tb)
      else (OK, tb\<lparr>tb_options := opt, tb_index_options := opt\<lparr>o_block_restart_interval := 1\<rparr>\<rparr>))"

definition WriteRawBlock :: "'f writable_file \<Rightarrow> slice \<Rightarrow> byte \<Rightarrow> 'f table_builder \<Rightarrow> (block_handle \<times> 'f table_builder) option" where
  "WriteRawBlock fo contents t tb =
     do {
       let handle = \<lparr>bh_offset = tb_offset tb, bh_size = of_nat (length contents)\<rparr>;
       let (st, file) = wf_Append fo contents (tb_file tb);
       let tb1 = tb\<lparr>tb_status := st, tb_file := file\<rparr>;
       if st \<noteq> OK then Some (handle, tb1)
       else do {
         crc0 \<leftarrow> crc32c_Value 0 contents;
         crc \<leftarrow> Extend 0 crc0 [t];
         let (st, file) = wf_Append fo ([t] @ EncodeFixed32 (crc32c_Mask crc)) (tb_file tb1);
         let tb2 = tb1\<lparr>tb_status := st, tb_file := file\<rparr>;
         Some (handle, if st \<noteq> OK then tb2
           else tb2\<lparr>tb_offset := tb_offset tb2 + of_nat (length contents) + kBlockTrailerSize\<rparr>)
       }
     }"

text \<open>What is stored of a block: compressed only when that saves an eighth. The type of another number stores nothing.\<close>

definition block_stored :: "byte \<Rightarrow> slice \<Rightarrow> slice \<times> byte" where
  "block_stored t raw =
     (if t = kNoCompression then (raw, t)
      else if t = kSnappyCompression
      then (case Snappy_Compress raw of
          Some compressed \<Rightarrow>
            if length compressed < length raw - length raw div 8 then (compressed, t) else (raw, kNoCompression)
        | None \<Rightarrow> (raw, kNoCompression))
      else ([], t))"

definition WriteBlock :: "'f writable_file \<Rightarrow> block_builder \<Rightarrow> 'f table_builder \<Rightarrow>
    (block_builder \<times> block_handle \<times> 'f table_builder) option" where
  "WriteBlock fo block tb =
     (if \<not> tb_ok tb then None
      else do {
        let (raw, block1) = BlockBuilder_Finish block;
        let (contents, t) = block_stored (o_compression (tb_options tb)) raw;
        (handle, tb1) \<leftarrow> WriteRawBlock fo contents t tb;
        Some (BlockBuilder_Reset block1, handle, tb1)
      })"

definition Flush :: "'f writable_file \<Rightarrow> 'f table_builder \<Rightarrow> 'f table_builder option" where
  "Flush fo tb =
     (if tb_closed tb then None
      else if \<not> tb_ok tb then Some tb
      else if bb_buffer (tb_data_block tb) = [] then Some tb
      else if tb_pending_index_entry tb then None
      else do {
        (data, handle, tb1) \<leftarrow> WriteBlock fo (tb_data_block tb) tb;
        let tb2 = tb1\<lparr>tb_data_block := data, tb_pending_handle := handle\<rparr>;
        let tb3 = (if tb_ok tb2
          then (let (st, file) = wf_Flush fo (tb_file tb2) in tb2\<lparr>tb_pending_index_entry := True, tb_status := st, tb_file := file\<rparr>)
          else tb2);
        with_filter (\<lambda>create. StartBlock create (tb_offset tb3)) tb3
      })"

text \<open>The index entry of the block before: under a key that separates it from the next one.\<close>

definition add_index_entry :: "slice \<Rightarrow> 'f table_builder \<Rightarrow> 'f table_builder option" where
  "add_index_entry last_key tb =
     do {
       handle_encoding \<leftarrow> BlockHandle_EncodeTo (tb_pending_handle tb) [];
       index \<leftarrow> BlockBuilder_Add (for_blocks (tb_index_options tb)) last_key handle_encoding (tb_index_block tb);
       Some (tb\<lparr>tb_last_key := last_key, tb_index_block := index, tb_pending_index_entry := False\<rparr>)
     }"

definition TableBuilder_Add :: "'f writable_file \<Rightarrow> slice \<Rightarrow> slice \<Rightarrow> 'f table_builder \<Rightarrow> 'f table_builder option" where
  "TableBuilder_Add fo key val tb =
     (if tb_closed tb then None
      else if \<not> tb_ok tb then Some tb
      else if 0 < tb_num_entries tb \<and> \<not> 0 < co_Compare (o_comparator (tb_options tb)) key (tb_last_key tb) then None
      else do {
        tb1 \<leftarrow> (if tb_pending_index_entry tb
          then if bb_buffer (tb_data_block tb) \<noteq> [] then None
            else do {
              s \<leftarrow> co_FindShortestSeparator (o_comparator (tb_options tb)) (tb_last_key tb) key;
              add_index_entry s tb
            }
          else Some tb);
        tb2 \<leftarrow> with_filter (\<lambda>create fb. Some (AddKey key fb)) tb1;
        let tb3 = tb2\<lparr>tb_last_key := key, tb_num_entries := tb_num_entries tb2 + 1\<rparr>;
        data \<leftarrow> BlockBuilder_Add (for_blocks (tb_options tb3)) key val (tb_data_block tb3);
        let tb4 = tb3\<lparr>tb_data_block := data\<rparr>;
        if o_block_size (tb_options tb4) \<le> CurrentSizeEstimate data then Flush fo tb4 else Some tb4
      })"

text \<open>The steps of \<^verbatim>\<open>Finish\<close>, each done only while the status is good. A handle not written stays as constructed.\<close>

definition write_filter_block :: "'f writable_file \<Rightarrow> 'f table_builder \<Rightarrow> (block_handle \<times> 'f table_builder) option" where
  "write_filter_block fo tb =
     (case tb_filter_block tb of
        Some fb \<Rightarrow>
          if tb_ok tb
          then do {
            pol \<leftarrow> tb_filter_policy tb;
            contents \<leftarrow> Finish (fp_CreateFilter pol) fb;
            WriteRawBlock fo contents kNoCompression tb
          }
          else Some (BlockHandle, tb)
      | None \<Rightarrow> Some (BlockHandle, tb))"

definition filter_key :: "filter_policy_object \<Rightarrow> slice" where "filter_key pol = chars ''filter.'' @ fp_Name pol"

definition write_metaindex_block :: "'f writable_file \<Rightarrow> block_handle \<Rightarrow> 'f table_builder \<Rightarrow>
    (block_handle \<times> 'f table_builder) option" where
  "write_metaindex_block fo filter_handle tb =
     (if \<not> tb_ok tb then Some (BlockHandle, tb)
      else do {
        meta \<leftarrow> BlockBuilder (for_blocks (tb_options tb));
        meta1 \<leftarrow> (case tb_filter_block tb of
            None \<Rightarrow> Some meta
          | Some fb \<Rightarrow> do {
              pol \<leftarrow> o_filter_policy (tb_options tb);
              handle_encoding \<leftarrow> BlockHandle_EncodeTo filter_handle [];
              BlockBuilder_Add (for_blocks (tb_options tb)) (filter_key pol) handle_encoding meta
            });
        (meta2, handle, tb1) \<leftarrow> WriteBlock fo meta1 tb;
        Some (handle, tb1)
      })"

definition write_index_block :: "'f writable_file \<Rightarrow> 'f table_builder \<Rightarrow> (block_handle \<times> 'f table_builder) option" where
  "write_index_block fo tb =
     (if \<not> tb_ok tb then Some (BlockHandle, tb)
      else do {
        tb1 \<leftarrow> (if tb_pending_index_entry tb
          then do { s \<leftarrow> co_FindShortSuccessor (o_comparator (tb_options tb)) (tb_last_key tb); add_index_entry s tb }
          else Some tb);
        (index, handle, tb2) \<leftarrow> WriteBlock fo (tb_index_block tb1) tb1;
        Some (handle, tb2\<lparr>tb_index_block := index\<rparr>)
      })"

definition write_footer :: "'f writable_file \<Rightarrow> block_handle \<Rightarrow> block_handle \<Rightarrow> 'f table_builder \<Rightarrow> 'f table_builder option" where
  "write_footer fo metaindex index tb =
     (if \<not> tb_ok tb then Some tb
      else do {
        footer_encoding \<leftarrow> Footer_EncodeTo (Footer\<lparr>metaindex_handle := metaindex, index_handle := index\<rparr>) [];
        let (st, file) = wf_Append fo footer_encoding (tb_file tb);
        let tb1 = tb\<lparr>tb_status := st, tb_file := file\<rparr>;
        Some (if st = OK then tb1\<lparr>tb_offset := tb_offset tb1 + of_nat (length footer_encoding)\<rparr> else tb1)
      })"

definition TableBuilder_Finish :: "'f writable_file \<Rightarrow> 'f table_builder \<Rightarrow> (status \<times> 'f table_builder) option" where
  "TableBuilder_Finish fo tb =
     do {
       tb0 \<leftarrow> Flush fo tb;
       if tb_closed tb0 then None
       else do {
         (filter_handle, tb1) \<leftarrow> write_filter_block fo (tb0\<lparr>tb_closed := True\<rparr>);
         (metaindex, tb2) \<leftarrow> write_metaindex_block fo filter_handle tb1;
         (index, tb3) \<leftarrow> write_index_block fo tb2;
         tb4 \<leftarrow> write_footer fo metaindex index tb3;
         Some (tb_status tb4, tb4)
       }
     }"

definition Abandon :: "'f table_builder \<Rightarrow> 'f table_builder option" where
  "Abandon tb = (if tb_closed tb then None else Some (tb\<lparr>tb_closed := True\<rparr>))"

definition NumEntries :: "'f table_builder \<Rightarrow> nat" where "NumEntries tb = tb_num_entries tb"

definition FileSize :: "'f table_builder \<Rightarrow> u64" where "FileSize tb = tb_offset tb"

text \<open>Only a builder that was finished or abandoned may be destroyed.\<close>

definition TableBuilder_destroy :: "'f table_builder \<Rightarrow> unit option" where
  "TableBuilder_destroy tb = (if tb_closed tb then Some () else None)"

fun add_pairs :: "'f writable_file \<Rightarrow> (slice \<times> slice) list \<Rightarrow> 'f table_builder \<Rightarrow> 'f table_builder option" where
  "add_pairs fo [] tb = Some tb"
| "add_pairs fo ((k, v) # kvs) tb = do { tb1 \<leftarrow> TableBuilder_Add fo k v tb; add_pairs fo kvs tb1 }"

end
