(* ===== verification/Lv_Table.thy ===== *)
theory Lv_Table
  imports Lv_Two_Level Lv_Table_Builder
begin

section \<open>Reading a table (leveldb table/table)\<close>

text \<open>
  Opening a table reads its footer, its index block and its filter; a lookup seeks in the index and then in one data block, and
  an iterator walks over all of them. A block cache is an object with the virtual functions of \<^verbatim>\<open>Cache\<close> and a state
  \<open>'c\<close>; \<open>'h\<close> are its handles. \<open>None\<close> is undefined behaviour or an operation that does not return. Storage is not
  modelled beyond the cache: deleting a block has no effect here.
\<close>

record ('c, 'h) cache_ops =
  ca_NewId :: "'c \<Rightarrow> u64 \<times> 'c"
  ca_Lookup :: "slice \<Rightarrow> 'c \<Rightarrow> ('h option \<times> 'c) option"
  ca_Value :: "'h \<Rightarrow> 'c \<Rightarrow> block option"
  ca_Insert :: "slice \<Rightarrow> block \<Rightarrow> nat \<Rightarrow> 'c \<Rightarrow> ('h \<times> 'c) option"
  ca_Release :: "'h \<Rightarrow> 'c \<Rightarrow> 'c option"
  ca_Erase :: "slice \<Rightarrow> 'c \<Rightarrow> 'c option"
  ca_Prune :: "'c \<Rightarrow> 'c option"
  ca_TotalCharge :: "'c \<Rightarrow> u64"

type_synonym ('c, 'h) block_cache = "('c, 'h) cache_ops option"

record read_options =
  ro_verify_checksums :: bool
  ro_fill_cache :: bool

definition ReadOptions :: read_options where "ReadOptions = \<lparr>ro_verify_checksums = False, ro_fill_cache = True\<rparr>"

record table =
  ta_options :: leveldb_options
  ta_file :: file_read
  ta_cache_id :: u64
  ta_filter :: "filter_reader option"
  ta_metaindex_handle :: block_handle
  ta_index_block :: block

subsection \<open>Opening\<close>

definition ReadFilter :: "slice \<Rightarrow> table \<Rightarrow> table option" where
  "ReadFilter filter_handle_value t =
     (case BlockHandle_DecodeFrom BlockHandle filter_handle_value of
        (st, filter_handle, v) \<Rightarrow>
          if st \<noteq> OK then Some t
          else do {
            (st, block) \<leftarrow> ReadBlock (ta_file t) port_snappy (o_paranoid_checks (ta_options t)) filter_handle;
            if st \<noteq> OK then Some t
            else do { r \<leftarrow> FilterBlockReader (br_data block); Some (t\<lparr>ta_filter := Some r\<rparr>) }
          })"

definition ReadMeta :: "footer \<Rightarrow> table \<Rightarrow> table option" where
  "ReadMeta ftr t =
     (case o_filter_policy (ta_options t) of
        None \<Rightarrow> Some t
      | Some pol \<Rightarrow>
          do {
            (st, contents) \<leftarrow> ReadBlock (ta_file t) port_snappy (o_paranoid_checks (ta_options t)) (metaindex_handle ftr);
            if st \<noteq> OK then Some t
            else do {
              meta \<leftarrow> Block (br_data contents);
              it \<leftarrow> map_option of_iter (NewIterator meta);
              it1 \<leftarrow> op_Seek (block_ops Slice_compare) (filter_key pol) it;
              if \<not> op_Valid (block_ops Slice_compare) it1 then Some t
              else do {
                k \<leftarrow> op_key (block_ops Slice_compare) it1;
                if k \<noteq> filter_key pol then Some t
                else do { v \<leftarrow> op_value (block_ops Slice_compare) it1; ReadFilter v t }
              }
            }
          })"

definition Table_Open :: "('c, 'h) block_cache \<Rightarrow> leveldb_options \<Rightarrow> file_read \<Rightarrow> u64 \<Rightarrow> 'c \<Rightarrow> (status \<times> table option \<times> 'c) option" where
  "Table_Open cache opt fread fsize c =
     (if fsize < of_nat kEncodedLength then Some (Corruption (chars ''file is too short to be an sstable'') [], None, c)
      else
        let a = fread (fsize - of_nat kEncodedLength) (of_nat kEncodedLength) in
        if ra_status a \<noteq> OK then Some (ra_status a, None, c)
        else do {
          (st, ftr, footer_input) \<leftarrow> Footer_DecodeFrom Footer (ra_contents a);
          if st \<noteq> OK then Some (st, None, c)
          else do {
            (st, contents) \<leftarrow> ReadBlock fread port_snappy (o_paranoid_checks opt) (index_handle ftr);
            if st \<noteq> OK then Some (st, None, c)
            else do {
              index_block \<leftarrow> Block (br_data contents);
              let (id, c1) = (case cache of Some ops \<Rightarrow> ca_NewId ops c | None \<Rightarrow> (0, c));
              t \<leftarrow> ReadMeta ftr \<lparr>ta_options = opt, ta_file = fread, ta_cache_id = id, ta_filter = None,
                ta_metaindex_handle = metaindex_handle ftr, ta_index_block = index_block\<rparr>;
              Some (OK, Some t, c1)
            }
          }
        })"

subsection \<open>The blocks of a table\<close>

text \<open>What is done when a data iterator is deleted: the block is deleted, or its handle is released.\<close>

datatype 'h cleanup = DeleteBlock | ReleaseBlock 'h

fun run_cleanup :: "('c, 'h) block_cache \<Rightarrow> 'h cleanup \<Rightarrow> 'c \<Rightarrow> 'c option" where
  "run_cleanup cache DeleteBlock c = Some c"
| "run_cleanup cache (ReleaseBlock h) c = do { ops \<leftarrow> cache; ca_Release ops h c }"

record 'h data_iter =
  di_iter :: table_iter
  di_cleanups :: "'h cleanup list"

definition data_iter_ops :: "compare \<Rightarrow> 'h data_iter iterator_ops" where
  "data_iter_ops cmp =
     (let move = (\<lambda>f d. map_option (\<lambda>it. d\<lparr>di_iter := it\<rparr>) (f (di_iter d))); ops = block_ops cmp in
     \<lparr>op_Valid = (\<lambda>d. op_Valid ops (di_iter d)),
      op_SeekToFirst = move (op_SeekToFirst ops),
      op_SeekToLast = move (op_SeekToLast ops),
      op_Seek = (\<lambda>k. move (op_Seek ops k)),
      op_Next = move (op_Next ops),
      op_Prev = move (op_Prev ops),
      op_key = (\<lambda>d. op_key ops (di_iter d)),
      op_value = (\<lambda>d. op_value ops (di_iter d)),
      op_status = (\<lambda>d. op_status ops (di_iter d))\<rparr>)"

definition cache_key :: "table \<Rightarrow> block_handle \<Rightarrow> slice" where
  "cache_key t handle = EncodeFixed64 (ta_cache_id t) @ EncodeFixed64 (bh_offset handle)"

text \<open>The block of a handle, and the cache's handle when the cache holds it.\<close>

definition read_new_block :: "table \<Rightarrow> read_options \<Rightarrow> block_handle \<Rightarrow> (status \<times> (block \<times> bool) option) option" where
  "read_new_block t opt handle =
     do {
       (st, contents) \<leftarrow> ReadBlock (ta_file t) port_snappy (ro_verify_checksums opt) handle;
       if st \<noteq> OK then Some (st, None)
       else do { b \<leftarrow> Block (br_data contents); Some (OK, Some (b, br_cachable contents)) }
     }"

definition find_block :: "('c, 'h) block_cache \<Rightarrow> table \<Rightarrow> read_options \<Rightarrow> block_handle \<Rightarrow> 'c \<Rightarrow>
    (status \<times> (block \<times> 'h option) option \<times> 'c) option" where
  "find_block cache t opt handle c =
     (case cache of
        None \<Rightarrow> do {
          (st, r) \<leftarrow> read_new_block t opt handle;
          Some (st, map_option (\<lambda>(b, cachable). (b, None)) r, c)
        }
      | Some ops \<Rightarrow> do {
          (h, c1) \<leftarrow> ca_Lookup ops (cache_key t handle) c;
          (case h of
             Some h \<Rightarrow> do { b \<leftarrow> ca_Value ops h c1; Some (OK, Some (b, Some h), c1) }
           | None \<Rightarrow> do {
               (st, r) \<leftarrow> read_new_block t opt handle;
               (case r of
                  None \<Rightarrow> Some (st, None, c1)
                | Some (b, cachable) \<Rightarrow>
                    if cachable \<and> ro_fill_cache opt
                    then do { (h, c2) \<leftarrow> ca_Insert ops (cache_key t handle) b (bl_size b) c1; Some (st, Some (b, Some h), c2) }
                    else Some (st, Some (b, None), c1))
             })
        })"

definition BlockReader :: "('c, 'h) block_cache \<Rightarrow> table \<Rightarrow> read_options \<Rightarrow> slice \<Rightarrow> 'c \<Rightarrow> ('h data_iter \<times> 'c) option" where
  "BlockReader cache t opt index_value c =
     (case BlockHandle_DecodeFrom BlockHandle index_value of
        (st, handle, input) \<Rightarrow>
          do {
            (st, r, c1) \<leftarrow> (if st = OK then find_block cache t opt handle c else Some (st, None, c));
            (case r of
               None \<Rightarrow> Some (\<lparr>di_iter = EmptyIter st, di_cleanups = []\<rparr>, c1)
             | Some (b, cache_handle) \<Rightarrow>
                 do {
                   it \<leftarrow> map_option of_iter (NewIterator b);
                   Some (\<lparr>di_iter = it, di_cleanups = RegisterCleanup
                     (case cache_handle of None \<Rightarrow> DeleteBlock | Some h \<Rightarrow> ReleaseBlock h) []\<rparr>, c1)
                 })
          })"

definition delete_data_iter :: "('c, 'h) block_cache \<Rightarrow> 'h data_iter \<Rightarrow> 'c \<Rightarrow> 'c option" where
  "delete_data_iter cache d = Iterator_destroy (run_cleanup cache) (di_cleanups d)"

subsection \<open>Iterators and lookups\<close>

definition table_compare :: "table \<Rightarrow> compare" where "table_compare t = co_Compare (o_comparator (ta_options t))"

definition table_parts :: "('c, 'h) block_cache \<Rightarrow> table \<Rightarrow> read_options \<Rightarrow> (table_iter, 'h data_iter, 'c) two_level_parts" where
  "table_parts cache t opt =
     \<lparr>index_ops = block_ops (table_compare t), data_ops = data_iter_ops (table_compare t),
      block_function = BlockReader cache t opt, delete_data = delete_data_iter cache\<rparr>"

definition Table_NewIterator :: "('c, 'h) block_cache \<Rightarrow> table \<Rightarrow> read_options \<Rightarrow> (table_iter, 'h data_iter) two_level option" where
  "Table_NewIterator cache t opt =
     do {
       it \<leftarrow> map_option of_iter (NewIterator (ta_index_block t));
       NewTwoLevelIterator (table_parts cache t opt) it
     }"

text \<open>A lookup: the status, and the pair that is passed to the callback when it is called.\<close>

definition filtered_out :: "table \<Rightarrow> slice \<Rightarrow> slice \<Rightarrow> bool option" where
  "filtered_out t handle_value k =
     (case (ta_filter t, o_filter_policy (ta_options t)) of
        (Some r, Some pol) \<Rightarrow>
          (case BlockHandle_DecodeFrom BlockHandle handle_value of
             (st, handle, v) \<Rightarrow>
               if st = OK then map_option Not (KeyMayMatch (fp_KeyMayMatch pol) r (bh_offset handle) k) else Some False)
      | _ \<Rightarrow> Some False)"

definition InternalGet :: "('c, 'h) block_cache \<Rightarrow> table \<Rightarrow> read_options \<Rightarrow> slice \<Rightarrow> 'c \<Rightarrow>
    (status \<times> (slice \<times> slice) option \<times> 'c) option" where
  "InternalGet cache t opt k c =
     do {
       let iops = block_ops (table_compare t);
       let dops = data_iter_ops (table_compare t);
       ii0 \<leftarrow> map_option of_iter (NewIterator (ta_index_block t));
       iiter \<leftarrow> op_Seek iops k ii0;
       (s, saved, c1) \<leftarrow>
         (if \<not> op_Valid iops iiter then Some (OK, None, c)
          else do {
            handle_value \<leftarrow> op_value iops iiter;
            out \<leftarrow> filtered_out t handle_value k;
            if out then Some (OK, None, c)
            else do {
              (d0, c1) \<leftarrow> BlockReader cache t opt handle_value c;
              d \<leftarrow> op_Seek dops k d0;
              saved \<leftarrow> (if op_Valid dops d
                then do { bk \<leftarrow> op_key dops d; bv \<leftarrow> op_value dops d; Some (Some (bk, bv)) }
                else Some None);
              c2 \<leftarrow> delete_data_iter cache d c1;
              Some (op_status dops d, saved, c2)
            }
          });
       Some (if s = OK then op_status iops iiter else s, saved, c1)
     }"

definition ApproximateOffsetOf :: "table \<Rightarrow> slice \<Rightarrow> u64 option" where
  "ApproximateOffsetOf t key =
     do {
       let iops = block_ops (table_compare t);
       ii0 \<leftarrow> map_option of_iter (NewIterator (ta_index_block t));
       iiter \<leftarrow> op_Seek iops key ii0;
       if op_Valid iops iiter
       then do {
         v \<leftarrow> op_value iops iiter;
         (case BlockHandle_DecodeFrom BlockHandle v of
            (st, handle, input) \<Rightarrow> Some (if st = OK then bh_offset handle else bh_offset (ta_metaindex_handle t)))
       }
       else Some (bh_offset (ta_metaindex_handle t))
     }"

end
