(* ===== verification/Lv_Table_Layout.thy ===== *)
theory Lv_Table_Layout
  imports Lv_Table
begin

section \<open>The layout of a table file\<close>

text \<open>
  What the builder writes, as functions of the pairs: the bytes of a block, the data blocks one after the other, their
  handles and the entries of the index, and bounds on their sizes.
\<close>

subsection \<open>Blocks built from the start\<close>

definition empty_builder :: block_builder where
  "empty_builder = \<lparr>bb_buffer = [], bb_restarts = [0], bb_counter = 0, bb_finished = False, bb_last_key = []\<rparr>"

definition ordered_by :: "compare \<Rightarrow> (slice \<times> slice) list \<Rightarrow> bool" where
  "ordered_by cmp kvs \<longleftrightarrow> sorted_wrt (\<lambda>a b. 0 < cmp (fst b) (fst a)) kvs"

lemma BlockBuilder_start: "1 \<le> block_restart_interval options \<Longrightarrow> BlockBuilder options = Some empty_builder"
  by (simp add: BlockBuilder_def empty_builder_def)

lemma Reset_start: "BlockBuilder_Reset b = empty_builder"
  by (simp add: BlockBuilder_Reset_def empty_builder_def)

lemma Finish_reset: "BlockBuilder_Reset (snd (BlockBuilder_Finish b)) = empty_builder"
  by (rule Reset_start)

definition block_bytes :: "block_options \<Rightarrow> (slice \<times> slice) list \<Rightarrow> slice" where
  "block_bytes options kvs = the (block_contents options kvs)"

lemma add_all_append:
  "add_all options (xs @ ys) b = (case add_all options xs b of None \<Rightarrow> None | Some b1 \<Rightarrow> add_all options ys b1)"
  by (induction xs arbitrary: b) (auto split: option.splits)

lemma add_all_snoc:
  "add_all options xs b = Some b1 \<Longrightarrow> BlockBuilder_Add options k v b1 = Some b2 \<Longrightarrow> add_all options (xs @ [(k, v)]) b = Some b2"
  by (simp add: add_all_append)

lemma add_all_start:
  assumes "1 \<le> block_restart_interval options" "ordered_by (opt_comparator options) kvs"
  shows "\<exists>L b. add_all options kvs empty_builder = Some b \<and> built options L b \<and> ly_kvs L = kvs"
  using add_all_built [OF built_start [OF BlockBuilder_start [OF assms(1)]] assms(1), of kvs] assms(2)
  by (auto simp: ordered_by_def)

lemma builder_empty:
  assumes "1 \<le> block_restart_interval options" "ordered_by (opt_comparator options) kvs"
    "add_all options kvs empty_builder = Some b"
  shows "bb_buffer b = [] \<longleftrightarrow> kvs = []" "fst (BlockBuilder_Finish b) = block_bytes options kvs"
proof -
  obtain L where L: "built options L b" "ly_kvs L = kvs" using add_all_start [OF assms(1,2)] assms(3) by auto
  show "bb_buffer b = [] \<longleftrightarrow> kvs = []" using L entries_empty [of L] by (simp add: built_def)
  show "fst (BlockBuilder_Finish b) = block_bytes options kvs"
    using BlockBuilder_start [OF assms(1)] assms(3) by (simp add: block_bytes_def block_contents_def)
qed

lemma builder_add:
  assumes "1 \<le> block_restart_interval options" "ordered_by (opt_comparator options) (kvs @ [(k, v)])"
    "add_all options kvs empty_builder = Some b"
  shows "\<exists>b'. BlockBuilder_Add options k v b = Some b' \<and> add_all options (kvs @ [(k, v)]) empty_builder = Some b'"
proof -
  obtain b' where "add_all options (kvs @ [(k, v)]) empty_builder = Some b'" using add_all_start [OF assms(1,2)] by blast
  then show ?thesis using assms(3) by (auto simp: add_all_append split: option.splits)
qed

lemma block_bytes_layout:
  assumes "1 \<le> block_restart_interval options" "ordered_by (opt_comparator options) kvs"
  shows "\<exists>L. ly_ok L \<and> ly_kvs L = kvs \<and> block_bytes options kvs = ly_data L"
  using block_contents_layout [OF assms(1), of kvs] assms(2) by (auto simp: block_bytes_def ordered_by_def)

subsection \<open>Sizes\<close>

definition pairs_size :: "(slice \<times> slice) list \<Rightarrow> nat" where
  "pairs_size kvs = (\<Sum>(k, v) \<leftarrow> kvs. length k + length v + 19)"

lemma pairs_size_simps [simp]:
  "pairs_size [] = 0" "pairs_size ((k, v) # kvs) = length k + length v + 19 + pairs_size kvs"
  "pairs_size (xs @ ys) = pairs_size xs + pairs_size ys"
  by (simp_all add: pairs_size_def)

lemma pairs_size_length: "19 * length kvs \<le> pairs_size kvs"
  by (induction kvs) auto

lemma length_EncodeVarint32: "length (EncodeVarint32 v) \<le> 5"
  by (simp add: EncodeVarint32_def)

lemma off_size:
  "n \<le> ly_n L \<Longrightarrow> off L n + 4 * n \<le> pairs_size (take n (ly_kvs L))"
proof (induction n)
  case (Suc n)
  have "length (head (ly_shared L ! n) (ly_key L n) (ly_val L n)) \<le> 15"
    unfolding head_def length_append
    using length_EncodeVarint32 [of "of_nat (ly_shared L ! n)"] length_EncodeVarint32 [of "of_nat (length (ly_key L n) - ly_shared L ! n)"]
      length_EncodeVarint32 [of "of_nat (length (ly_val L n))"] by linarith
  then have "length (ly_entry L n) \<le> length (ly_key L n) + length (ly_val L n) + 15" by (simp add: length_ly_entry)
  moreover have "take (Suc n) (ly_kvs L) = take n (ly_kvs L) @ [(ly_key L n, ly_val L n)]"
    using Suc.prems by (simp add: take_Suc_conv_app_nth)
  ultimately show ?case using Suc by (cases "ly_kvs L ! n") (simp add: off_Suc)
qed simp

lemma length_restarts:
  assumes "ly_ok L"
  shows "length (ly_restarts L) \<le> Suc (ly_n L)"
proof (cases "length (ly_restarts L) = 0")
  case False
  then have "length (ly_restarts L) - 1 \<le> ly_restarts L ! (length (ly_restarts L) - 1)"
    using count_restarts [OF assms] by simp
  also have "\<dots> \<le> ly_n L" using restart_le [OF assms] False by simp
  finally show ?thesis by simp
qed simp

lemma block_bytes_size:
  assumes "1 \<le> block_restart_interval options" "ordered_by (opt_comparator options) kvs"
  shows "length (block_bytes options kvs) \<le> pairs_size kvs + 8"
proof -
  obtain L where L: "ly_ok L" "ly_kvs L = kvs" "block_bytes options kvs = ly_data L" using block_bytes_layout [OF assms] by blast
  show ?thesis using off_size [of "ly_n L" L] length_restarts [OF L(1)] L(2) unfolding L(3) length_ly_data by simp
qed

subsection \<open>Data blocks, handles and index entries\<close>

definition body :: "block_options \<Rightarrow> (slice \<times> slice) list list \<Rightarrow> slice" where
  "body options bs = concat (map (\<lambda>b. stored_block kNoCompression (block_bytes options b)) bs)"

definition place :: "block_options \<Rightarrow> (slice \<times> slice) list list \<Rightarrow> nat \<Rightarrow> nat" where
  "place options bs i = length (body options (take i bs))"

definition handle_of :: "block_options \<Rightarrow> (slice \<times> slice) list list \<Rightarrow> nat \<Rightarrow> block_handle" where
  "handle_of options bs i = \<lparr>bh_offset = of_nat (place options bs i), bh_size = of_nat (length (block_bytes options (bs ! i)))\<rparr>"

definition handle_bytes :: "block_handle \<Rightarrow> slice" where "handle_bytes h = PutVarint64 (PutVarint64 [] (bh_offset h)) (bh_size h)"

definition index_pairs :: "block_options \<Rightarrow> (slice \<times> slice) list list \<Rightarrow> slice list \<Rightarrow> (slice \<times> slice) list" where
  "index_pairs options bs seps = map (\<lambda>i. (seps ! i, handle_bytes (handle_of options bs i))) [0..<length seps]"

lemma body_simps [simp]: "body options [] = []"
  "body options (bs @ cs) = body options bs @ body options cs"
  "body options [b] = stored_block kNoCompression (block_bytes options b)"
  by (simp_all add: body_def)

lemma place_0 [simp]: "place options bs 0 = 0" by (simp add: place_def)

lemma place_append: "i \<le> length bs \<Longrightarrow> place options (bs @ cs) i = place options bs i" by (simp add: place_def)

lemma place_length: "place options bs (length bs) = length (body options bs)" by (simp add: place_def)

lemma place_Suc: "i < length bs \<Longrightarrow> place options bs (Suc i) = place options bs i + length (block_bytes options (bs ! i)) + 5"
  by (simp add: place_def take_Suc_conv_app_nth)

lemma place_less: "i < j \<Longrightarrow> j \<le> length bs \<Longrightarrow> place options bs i < place options bs j"
proof (induction j)
  case (Suc j)
  then show ?case using place_Suc [of j bs options] by (cases "i = j") auto
qed simp

lemma block_place_le: "i \<le> length bs \<Longrightarrow> place options bs i \<le> length (body options bs)"
  using place_less [of i "length bs" bs options] by (cases "i = length bs") (auto simp: place_length)

lemma handle_of_append: "i < length bs \<Longrightarrow> handle_of options (bs @ cs) i = handle_of options bs i"
  by (simp add: handle_of_def place_append nth_append)

lemma index_pairs_append: "length seps \<le> length bs \<Longrightarrow> index_pairs options (bs @ cs) seps = index_pairs options bs seps"
  by (auto simp: index_pairs_def handle_of_append)

lemma index_pairs_snoc:
  "index_pairs options bs (seps @ [s]) = index_pairs options bs seps @ [(s, handle_bytes (handle_of options bs (length seps)))]"
  by (auto simp: index_pairs_def nth_append)

lemma length_index_pairs [simp]: "length (index_pairs options bs seps) = length seps" by (simp add: index_pairs_def)

lemma index_pairs_nth: "i < length seps \<Longrightarrow> index_pairs options bs seps ! i = (seps ! i, handle_bytes (handle_of options bs i))"
  by (simp add: index_pairs_def)

lemma handle_bytes_size: "length (handle_bytes h) \<le> 20"
  using length_PutVarint64 [of "PutVarint64 [] (bh_offset h)" "bh_size h"] length_PutVarint64 [of "[]" "bh_offset h"]
  by (simp add: handle_bytes_def)

lemma handle_bytes_decode: "BlockHandle_DecodeFrom h0 (handle_bytes h @ rest) = (OK, h, rest)"
  by (simp add: handle_bytes_def PutVarint64_def BlockHandle_DecodeFrom_def lv_varint64.get_put)

lemma handle_bytes_inj: "handle_bytes h = handle_bytes h' \<Longrightarrow> h = h'"
  using handle_bytes_decode [of BlockHandle h "[]"] handle_bytes_decode [of BlockHandle h' "[]"] by simp

lemma offset_below: "n < 2 ^ 62 \<Longrightarrow> of_nat n \<noteq> (- 1 :: u64)"
proof
  assume n: "n < 2 ^ 62" "of_nat n = (- 1 :: u64)"
  have "unat (of_nat n :: u64) = n" using n(1) by (intro unat_of_nat_id) simp
  then show False using n by (simp add: unsigned_minus_1_eq_mask mask_eq_exp_minus_1)
qed

lemma handle_encoded:
  assumes "length (body options bs) < 2 ^ 62" "i < length bs"
  shows "BlockHandle_EncodeTo (handle_of options bs i) [] = Some (handle_bytes (handle_of options bs i))"
proof -
  have p: "place options bs (Suc i) < 2 ^ 62" using block_place_le [of "Suc i" bs options] assms by simp
  then have "place options bs i < 2 ^ 62" "length (block_bytes options (bs ! i)) < 2 ^ 62" using place_Suc [OF assms(2)] by simp_all
  then have "of_nat (place options bs i) \<noteq> (- 1 :: u64)" "of_nat (length (block_bytes options (bs ! i))) \<noteq> (- 1 :: u64)"
    by (simp_all add: offset_below)
  then show ?thesis by (simp add: BlockHandle_EncodeTo_def handle_bytes_def handle_of_def)
qed

end
