(* ===== verification/Lv_Table_Build.thy ===== *)
theory Lv_Table_Build
  imports Lv_Table_Layout
begin

section \<open>What the table builder writes\<close>

text \<open>
  The locale \<open>table_building\<close> fixes a comparator and its contract, the options, a file and what it promises, and the
  contract of the filter policy. Inside it, adding pairs in order and finishing never faults, and when every write
  succeeds the file holds the layout: data blocks, filter block, metaindex block, index block and footer.
\<close>

subsection \<open>The calls to the filter block's builder\<close>

definition filter_calls :: "block_options \<Rightarrow> (slice \<times> slice) list list \<Rightarrow> (slice \<times> slice) list \<Rightarrow> (u64 \<times> slice list) list" where
  "filter_calls options bs cur =
     map (\<lambda>i. (of_nat (place options bs i), map fst (bs ! i))) [0..<length bs] @ [(of_nat (length (body options bs)), map fst cur)]"

lemma add_blocks_snoc:
  "add_blocks create (xs @ [(pos, ks)]) b =
     (case add_blocks create xs b of None \<Rightarrow> None | Some b1 \<Rightarrow> map_option (fold AddKey ks) (StartBlock create pos b1))"
  by (induction create xs b rule: add_blocks.induct) (auto split: option.splits)

lemma filter_calls_key:
  "add_blocks create (filter_calls options bs (cur @ [(k, v)])) b = map_option (AddKey k) (add_blocks create (filter_calls options bs cur) b)"
  by (auto simp: filter_calls_def add_blocks_snoc option.map_comp split: option.splits)

lemma filter_calls_flush:
  "filter_calls options (bs @ [cur]) [] = filter_calls options bs cur @ [(of_nat (length (body options (bs @ [cur]))), [])]"
  by (auto simp: filter_calls_def place_append nth_append place_length [symmetric])

lemma generate_until_length:
  "generate_until create n b = Some b' \<Longrightarrow> length (fb_offsets b) \<le> n \<Longrightarrow> length (fb_offsets b') = n"
proof (induction create n b rule: generate_until.induct)
  case (1 create n b)
  show ?case
  proof (cases "length (fb_offsets b) < n")
    case True
    then obtain b1 where b1: "GenerateFilter create b = Some b1" "generate_until create n b1 = Some b'"
      using 1(2) by (auto simp: generate_until.simps [of create n b] split: option.splits)
    then show ?thesis using 1(1) [OF True b1(1) b1(2)] True GenerateFilter_offsets [OF b1(1)] by simp
  next
    case False
    then show ?thesis using 1(2,3) by (simp add: generate_until.simps [of create n b])
  qed
qed

lemma StartBlock_length: "StartBlock create pos b = Some b' \<Longrightarrow> length (fb_offsets b') = filter_index pos"
  by (auto simp: StartBlock_def not_less split: if_splits intro: generate_until_length)

lemma fold_AddKey: "fb_offsets (fold AddKey ks b) = fb_offsets b" "fb_result (fold AddKey ks b) = fb_result b"
  by (induction ks arbitrary: b) (simp_all add: AddKey_def)

lemma filter_calls_length:
  "add_blocks create (filter_calls options bs cur) b = Some b' \<Longrightarrow>
   length (fb_offsets b') = filter_index (of_nat (length (body options bs)))"
  by (auto simp: filter_calls_def add_blocks_snoc fold_AddKey dest: StartBlock_length split: option.splits)

text \<open>Starting the block at which the builder already is has no effect.\<close>

lemma StartBlock_again:
  assumes "add_blocks create (filter_calls options bs cur) b = Some b'"
  shows "StartBlock create (of_nat (length (body options bs))) b' = Some b'"
  using filter_calls_length [OF assms] by (simp add: StartBlock_def generate_until.simps)

lemma filter_index_mono: "a \<le> b \<Longrightarrow> filter_index a \<le> filter_index b"
  by (simp add: filter_index_def unat_div div_le_mono word_le_nat_alt)

lemma filter_index_offset: "n < 2 ^ 64 \<Longrightarrow> filter_index (of_nat n) = n div 2048"
  using unat_of_nat_id [of n, where ?'a = 64] by (simp add: filter_index_def unat_div kFilterBase_def kFilterBaseLg_def)

lemma sorted_filter_calls:
  assumes "length (body options bs) < 2 ^ 64"
  shows "sorted (map (filter_index \<circ> fst) (filter_calls options bs cur))"
proof -
  have p: "filter_index (of_nat (place options bs i)) = place options bs i div 2048" if "i \<le> length bs" for i
    using block_place_le [OF that, of options] assms by (intro filter_index_offset) simp
  have "map (filter_index \<circ> fst) (filter_calls options bs cur) = map (\<lambda>i. place options bs i div 2048) [0..<Suc (length bs)]"
    using p p [of "length bs"] by (auto simp: filter_calls_def place_length)
  moreover have "place options bs i \<le> place options bs j" if "i \<le> j" "j \<le> length bs" for i j
    using place_less [of i j bs options] that by (cases "i = j") auto
  then have "sorted (map (\<lambda>i. place options bs i div 2048) [0..<Suc (length bs)])"
    by (auto simp: sorted_iff_nth_mono div_le_mono simp del: upt_Suc)
  ultimately show ?thesis by simp
qed

lemma filter_calls_keys: "concat (map snd (filter_calls options bs cur)) = map fst (concat bs @ cur)"
proof -
  have "map (\<lambda>i. map fst (bs ! i)) [0..<length bs] = map (map fst) bs" by (intro nth_equalityI) simp_all
  then have "concat (map (\<lambda>i. map fst (bs ! i)) [0..<length bs]) = map fst (concat bs)" by (simp add: map_concat)
  then show ?thesis by (simp add: filter_calls_def comp_def)
qed

text \<open>
  The size of what a builder has generated, when a filter takes at most \<open>g\<close> bytes for each of its keys and \<open>g\<close>
  more; \<open>n\<close> is the number of keys that were added.
\<close>

definition fits :: "nat \<Rightarrow> nat \<Rightarrow> filter_builder \<Rightarrow> bool" where
  "fits g n b \<longleftrightarrow> length (fb_result b) + g * length (fb_start b) \<le> g * (length (fb_offsets b) + n)"

locale filter_sizes =
  fixes create :: filter_creator and g :: nat
  assumes create_size: "create ks dst = Some r \<Longrightarrow> length r \<le> length dst + g * (length ks + 1)"
begin

lemma fits_GenerateFilter:
  assumes "fits g n b" "GenerateFilter create b = Some b'"
  shows "fits g n b'"
proof (cases "fb_start b = []")
  case True
  then have "b' = b\<lparr>fb_offsets := fb_offsets b @ [of_nat (length (fb_result b))]\<rparr>"
    using assms(2) by (simp add: GenerateFilter_def)
  then show ?thesis using assms(1) by (simp add: fits_def)
next
  case False
  then obtain r where r: "create (unflatten (fb_keys b) (fb_start b)) (fb_result b) = Some r"
    "b' = b\<lparr>fb_keys := [], fb_start := [], fb_result := r, fb_offsets := fb_offsets b @ [of_nat (length (fb_result b))]\<rparr>"
    using assms(2) by (auto simp: GenerateFilter_def Let_def split: option.splits)
  have "length (unflatten (fb_keys b) (fb_start b)) = length (fb_start b)" by (simp add: unflatten_def Let_def)
  then have "length r \<le> length (fb_result b) + g * (length (fb_start b) + 1)" using create_size [OF r(1)] by simp
  then show ?thesis using assms(1) by (simp add: fits_def r(2) algebra_simps)
qed

lemma fits_generate_until: "generate_until create m b = Some b' \<Longrightarrow> fits g n b \<Longrightarrow> fits g n b'"
proof (induction "m - length (fb_offsets b)" arbitrary: b)
  case 0
  then show ?case by (simp add: generate_until.simps [of create m b])
next
  case (Suc k)
  then obtain b1 where b1: "GenerateFilter create b = Some b1" "generate_until create m b1 = Some b'"
    by (auto simp: generate_until.simps [of create m b] split: option.splits if_splits)
  then show ?case
    using Suc(1) [of b1] Suc(2) GenerateFilter_offsets [OF b1(1)] fits_GenerateFilter [OF Suc(4) b1(1)] by simp
qed

lemma fits_AddKeys: "fits g n b \<Longrightarrow> fits g (n + length ks) (fold AddKey ks b)"
proof (induction ks arbitrary: n b)
  case (Cons k ks)
  have "fits g (n + 1) (AddKey k b)" using Cons.prems by (simp add: fits_def AddKey_def algebra_simps)
  then show ?case using Cons.IH by fastforce
qed simp

lemma fits_add_blocks:
  "add_blocks create xs b = Some b' \<Longrightarrow> fits g n b \<Longrightarrow> fits g (n + length (concat (map snd xs))) b'"
proof (induction xs arbitrary: n b)
  case (Cons x xs)
  obtain pos ks where x: "x = (pos, ks)" by (cases x)
  obtain b1 where b1: "StartBlock create pos b = Some b1" "add_blocks create xs (fold AddKey ks b1) = Some b'"
    using Cons.prems(1) by (auto simp: x split: option.splits)
  have "fits g n b1" using b1(1) fits_generate_until Cons.prems(2) by (auto simp: StartBlock_def split: if_splits)
  then show ?case using Cons.IH [OF b1(2) fits_AddKeys] by (simp add: x add.assoc)
qed simp

lemma fits_Finish:
  assumes "fits g n b" "Finish create b = Some c"
  shows "length c \<le> g * (length (fb_offsets b) + n) + 4 * (length (fb_offsets b) + 1) + g + 5"
proof -
  obtain b1 where b1: "(if fb_start b \<noteq> [] then GenerateFilter create b else Some b) = Some b1"
    "c = PutFixed32 (foldl PutFixed32 (fb_result b1) (fb_offsets b1)) (of_nat (length (fb_result b1))) @ [of_nat kFilterBaseLg]"
    using assms(2) by (auto simp: Finish_def Let_def split: option.splits)
  have f: "fits g n b1" "length (fb_offsets b1) \<le> length (fb_offsets b) + 1"
    using b1(1) assms(1) fits_GenerateFilter [OF assms(1)] GenerateFilter_offsets [of create b b1]
    by (auto split: if_splits)
  have "length (fb_result b1) \<le> g * (length (fb_offsets b1) + n)" using f(1) by (simp add: fits_def)
  also have "\<dots> \<le> g * (length (fb_offsets b) + 1 + n)" using f(2) by (intro mult_le_mono2) simp
  finally have "length (fb_result b1) \<le> g * (length (fb_offsets b) + 1 + n)" .
  moreover note f(2)
  moreover have "length c = length (fb_result b1) + 4 * length (fb_offsets b1) + 5"
    by (simp add: b1(2) PutFixed32_all PutFixed32_def length_fixed_array)
  ultimately show ?thesis by (simp add: algebra_simps)
qed

end

text \<open>The Bloom filter of ten bits a key.\<close>

lemma length_add_probes: "length (add_probes j h d bits array) = length array"
  by (induction j arbitrary: h array) (simp_all add: Let_def)

lemma length_add_keys: "length (foldl (add_key pol bits) array ks) = length array"
  by (induction ks arbitrary: array) (simp_all add: add_key_def length_add_probes)

interpretation bloom_sizes: filter_sizes "CreateFilter bloom10" 10
proof
  fix ks :: "slice list" and dst r assume c: "CreateFilter bloom10 ks dst = Some r"
  let ?n = "length ks"
  have n: "?n < 2 ^ 31" using c by (simp add: CreateFilter_def Let_def not_le split: if_splits)
  define b where "b = (if (of_nat ?n * 10 :: u64) < 64 then 64 else of_nat ?n * 10 :: u64)"
  have "unat (of_nat (?n * 10) :: u64) = ?n * 10" using n by (intro unat_of_nat_id) simp
  then have "unat (of_nat ?n * 10 :: u64) = ?n * 10" by simp
  then have b: "unat b \<le> ?n * 10 + 64" by (simp add: b_def)
  then have "unat (b + 7) = unat b + 7" using n by (simp add: unat_plus_if')
  moreover have "filter_bytes bloom10 ?n = (b + 7) div 8" by (simp add: filter_bytes_def b_def bloom10_def Let_def)
  ultimately have "unat (filter_bytes bloom10 ?n) = (unat b + 7) div 8" by (simp add: unat_div)
  then have "unat (filter_bytes bloom10 ?n) \<le> 10 * ?n + 9" using b by linarith
  then show "length r \<le> length dst + 10 * (?n + 1)"
    using c by (auto simp: CreateFilter_def Let_def length_add_keys split: if_splits)
qed

subsection \<open>The setting\<close>

locale table_building =
  comparator cmp valid sep shorten
  for cmp :: compare and valid :: "slice \<Rightarrow> bool" and sep :: "slice \<Rightarrow> slice \<Rightarrow> slice option" and shorten :: "slice \<Rightarrow> slice option" +
  fixes opt :: leveldb_options and fo :: "'f writable_file" and stored :: "'f \<Rightarrow> slice" and cap :: nat and g :: nat
  assumes comparator_of: "co_Compare (o_comparator opt) = cmp" "co_FindShortestSeparator (o_comparator opt) = sep"
      "co_FindShortSuccessor (o_comparator opt) = shorten"
    and interval: "1 \<le> o_block_restart_interval opt"
    and compression: "o_compression opt = kNoCompression \<or> o_compression opt = kSnappyCompression"
    and policy: "o_filter_policy opt = Some pol \<Longrightarrow> filter_policy (fp_CreateFilter pol) (fp_KeyMayMatch pol) cap valid"
    and policy_size: "o_filter_policy opt = Some pol \<Longrightarrow> filter_sizes (fp_CreateFilter pol) g"
    and policy_name: "o_filter_policy opt = Some pol \<Longrightarrow> length (fp_Name pol) < 2 ^ 38"
    and g_small: "g < 2 ^ 20"
    and appends: "wf_Append fo s f = (OK, f') \<Longrightarrow> stored f' = stored f @ s"
    and flushes: "wf_Flush fo f = (OK, f') \<Longrightarrow> stored f' = stored f"
begin

abbreviation dopts :: block_options where "dopts \<equiv> for_blocks opt"
abbreviation iopt :: leveldb_options where "iopt \<equiv> opt\<lparr>o_block_restart_interval := 1\<rparr>"
abbreviation iopts :: block_options where "iopts \<equiv> for_blocks iopt"

lemma opts [simp]: "opt_comparator dopts = cmp" "opt_comparator iopts = cmp" "1 \<le> block_restart_interval dopts"
  "Suc 0 \<le> block_restart_interval dopts" "block_restart_interval iopts = 1"
  "opt_comparator (for_blocks (opt\<lparr>o_block_restart_interval := Suc 0\<rparr>)) = cmp"
  "block_restart_interval (for_blocks (opt\<lparr>o_block_restart_interval := Suc 0\<rparr>)) = 1"
  using interval by (simp_all add: for_blocks_def comparator_of)

lemma sorted_ordered: "kvs_sorted cmp valid kvs \<Longrightarrow> ordered_by cmp kvs"
  using swap unfolding kvs_sorted_def ordered_by_def by (auto elim!: sorted_wrt_mono_rel [rotated])

subsection \<open>Writing a block\<close>

definition wrote :: "slice \<Rightarrow> byte \<Rightarrow> 'f table_builder \<Rightarrow> 'f table_builder \<Rightarrow> bool" where
  "wrote c t tb tb' \<longleftrightarrow> (\<exists>st f. tb' = tb\<lparr>tb_status := st, tb_file := f,
       tb_offset := (if st = OK then tb_offset tb + of_nat (length c) + 5 else tb_offset tb)\<rparr> \<and>
     (st = OK \<longrightarrow> stored f = stored (tb_file tb) @ stored_block t c))"

lemma WriteRawBlock_wrote:
  assumes "length c < 2 ^ 62" "tb_ok tb"
  shows "\<exists>tb'. WriteRawBlock fo c t tb = Some (\<lparr>bh_offset = tb_offset tb, bh_size = of_nat (length c)\<rparr>, tb') \<and> wrote c t tb tb'"
proof -
  obtain st1 f1 where 1: "wf_Append fo c (tb_file tb) = (st1, f1)" by fastforce
  show ?thesis
  proof (cases "st1 = OK")
    case False
    then show ?thesis using 1 unfolding WriteRawBlock_def wrote_def
      by (intro exI [of _ "tb\<lparr>tb_status := st1, tb_file := f1\<rparr>"]) (auto simp: Let_def)
  next
    case True
    have "crc32c_Value 0 c = Some (crc32c 0 c)" using assms(1) by (simp add: crc32c_Value_def Extend_crc32c)
    moreover have "Extend 0 (crc32c 0 c) [t] = Some (crc32c 0 (c @ [t]))" by (simp add: Extend_crc32c crc32c_append)
    moreover obtain st2 f2 where 2: "wf_Append fo ([t] @ EncodeFixed32 (crc32c_Mask (crc32c 0 (c @ [t])))) f1 = (st2, f2)"
      by fastforce
    moreover have "st2 = OK \<Longrightarrow> stored f2 = stored (tb_file tb) @ stored_block t c"
      using appends [of c "tb_file tb" f1] appends [of "[t] @ EncodeFixed32 (crc32c_Mask (crc32c 0 (c @ [t])))" f1 f2] 1 2 True
      by (simp add: stored_block_def)
    ultimately show ?thesis using 1 True unfolding WriteRawBlock_def wrote_def
      by (auto simp: Let_def kBlockTrailerSize_def)
  qed
qed

lemma WriteBlock_wrote:
  assumes "fst (BlockBuilder_Finish b) = raw" "length raw < 2 ^ 62" "tb_ok tb" "tb_options tb = opt"
  shows "\<exists>tb'. WriteBlock fo b tb = Some (empty_builder, \<lparr>bh_offset = tb_offset tb, bh_size = of_nat (length raw)\<rparr>, tb') \<and>
    wrote raw kNoCompression tb tb'"
proof -
  obtain b1 where b1: "BlockBuilder_Finish b = (raw, b1)" using assms(1) by (cases "BlockBuilder_Finish b") auto
  have "block_stored (o_compression opt) raw = (raw, kNoCompression)"
    using compression by (auto simp: block_stored_def Snappy_Compress_def kNoCompression_def kSnappyCompression_def)
  then show ?thesis using WriteRawBlock_wrote [OF assms(2,3), of kNoCompression] assms(3,4) b1
    by (auto simp: WriteBlock_def Reset_start)
qed

subsection \<open>Pairs, blocks and separators\<close>

definition kvs_ok :: "(slice \<times> slice) list \<Rightarrow> bool" where
  "kvs_ok kvs \<longleftrightarrow> kvs_sorted cmp valid kvs \<and> pairs_size kvs < 2 ^ 38 \<and> length kvs \<le> cap"

definition separated :: "(slice \<times> slice) list list \<Rightarrow> slice list \<Rightarrow> (slice \<times> slice) list \<Rightarrow> bool" where
  "separated bs seps cur \<longleftrightarrow> (\<forall>i < length seps. valid (seps ! i) \<and> length (seps ! i) \<le> length (fst (last (bs ! i))) \<and>
     (\<forall>kv \<in> set (bs ! i). cmp (fst kv) (seps ! i) \<le> 0) \<and>
     (\<forall>kv \<in> set (concat (drop (Suc i) bs) @ cur). cmp (seps ! i) (fst kv) < 0))"

text \<open>A separator is the one the comparator makes of the last key of its block and the next key, once there is one.\<close>

definition cut_by :: "(slice \<times> slice) list list \<Rightarrow> slice list \<Rightarrow> (slice \<times> slice) list \<Rightarrow> bool" where
  "cut_by bs seps cur \<longleftrightarrow> (\<forall>i < length seps. concat (drop (Suc i) bs) @ cur \<noteq> [] \<longrightarrow>
     sep (fst (last (bs ! i))) (fst (hd (concat (drop (Suc i) bs) @ cur))) = Some (seps ! i))"

definition well_cut :: "(slice \<times> slice) list list \<Rightarrow> slice list \<Rightarrow> (slice \<times> slice) list \<Rightarrow> bool" where
  "well_cut bs seps cur \<longleftrightarrow> kvs_ok (concat bs @ cur) \<and> [] \<notin> set bs \<and> length seps \<le> length bs \<and>
     separated bs seps cur \<and> cut_by bs seps cur"

lemma kvs_sorted_append:
  "kvs_sorted cmp valid (xs @ ys) \<longleftrightarrow> kvs_sorted cmp valid xs \<and> kvs_sorted cmp valid ys \<and>
     (\<forall>x \<in> set xs. \<forall>y \<in> set ys. cmp (fst x) (fst y) < 0)"
  by (auto simp: kvs_sorted_def sorted_wrt_append)

lemma kvs_sorted_concat: "kvs_sorted cmp valid (concat bs) \<Longrightarrow> b \<in> set bs \<Longrightarrow> kvs_sorted cmp valid b"
  by (induction bs) (auto simp: kvs_sorted_append)

lemma well_cut_block: "well_cut bs seps cur \<Longrightarrow> b \<in> set bs \<Longrightarrow> ordered_by cmp b \<and> b \<noteq> []"
  using kvs_sorted_concat sorted_ordered by (auto simp: well_cut_def kvs_ok_def kvs_sorted_append)

lemma well_cut_cur: "well_cut bs seps cur \<Longrightarrow> ordered_by cmp cur"
  using sorted_ordered by (simp add: well_cut_def kvs_ok_def kvs_sorted_append)

lemma body_size:
  assumes "\<And>b. b \<in> set bs \<Longrightarrow> ordered_by cmp b \<and> b \<noteq> []"
  shows "length (body dopts bs) \<le> 2 * pairs_size (concat bs)"
  using assms
proof (induction bs)
  case (Cons b bs)
  have "length (block_bytes dopts b) \<le> pairs_size b + 8" using Cons.prems by (intro block_bytes_size) auto
  moreover have "19 \<le> pairs_size b" using pairs_size_length [of b] Cons.prems [of b] by (cases b) auto
  ultimately show ?case using Cons.IH Cons.prems by (simp add: body_def)
qed (simp add: body_def)

lemma well_cut_size:
  assumes "well_cut bs seps cur"
  shows "length (body dopts bs) < 2 ^ 39" "length (block_bytes dopts cur) < 2 ^ 39"
proof -
  have p: "pairs_size (concat bs) + pairs_size cur < 2 ^ 38" using assms by (simp add: well_cut_def kvs_ok_def)
  show "length (body dopts bs) < 2 ^ 39" using body_size [of bs] well_cut_block [OF assms] p by fastforce
  have "length (block_bytes dopts cur) \<le> pairs_size cur + 8" using well_cut_cur [OF assms] by (intro block_bytes_size) simp_all
  then show "length (block_bytes dopts cur) < 2 ^ 39" using p by simp
qed

lemma index_sorted:
  assumes "well_cut bs seps cur"
  shows "kvs_sorted cmp valid (index_pairs dopts bs seps)"
proof -
  have s: "separated bs seps cur" "length seps \<le> length bs" using assms by (simp_all add: well_cut_def)
  have "cmp (seps ! i) (seps ! j) < 0" if ij: "i < j" "j < length seps" for i j
  proof -
    have "bs ! j \<noteq> []" using well_cut_block [OF assms] ij s(2) by simp
    then obtain kv where kv: "kv \<in> set (bs ! j)" by (meson list.set_sel(1))
    have "bs ! j \<in> set (drop (Suc i) bs)"
      using ij s(2) in_set_conv_nth [of "bs ! j" "drop (Suc i) bs"] by (auto intro!: exI [of _ "j - Suc i"])
    then have "kv \<in> set (concat (drop (Suc i) bs) @ cur)" using kv by auto
    then have "cmp (seps ! i) (fst kv) < 0" "cmp (fst kv) (seps ! j) \<le> 0" "valid (seps ! i)" "valid (seps ! j)"
      using s(1) kv ij unfolding separated_def by (meson less_trans_Suc order.strict_trans)+
    moreover have "valid (fst kv)"
      using assms kv ij s(2) by (force simp: well_cut_def kvs_ok_def kvs_sorted_def)
    ultimately show ?thesis using less_le_trans by blast
  qed
  then show ?thesis using s by (auto simp: kvs_sorted_def sorted_wrt_iff_nth_less index_pairs_nth separated_def in_set_conv_nth)
qed

lemma pairs_size_index:
  assumes "well_cut bs seps cur"
  shows "pairs_size (index_pairs dopts bs seps) \<le> 3 * pairs_size (concat bs)"
proof -
  have s: "length seps \<le> length bs" "separated bs seps cur" using assms by (simp_all add: well_cut_def)
  have "pairs_size (index_pairs dopts bs seps) = (\<Sum>i \<leftarrow> [0..<length seps]. length (seps ! i) + length (handle_bytes (handle_of dopts bs i)) + 19)"
    by (simp add: pairs_size_def index_pairs_def comp_def)
  also have "\<dots> \<le> (\<Sum>i \<leftarrow> [0..<length seps]. 3 * pairs_size (bs ! i))"
  proof (rule sum_list_mono)
    fix i assume "i \<in> set [0..<length seps]"
    then have i: "i < length seps" by simp
    have ne: "bs ! i \<noteq> []" using well_cut_block [OF assms] i s(1) by simp
    have "length (seps ! i) \<le> length (fst (last (bs ! i)))" using s(2) i by (simp add: separated_def)
    moreover have "length (fst (last (bs ! i))) + 19 \<le> pairs_size (bs ! i)"
      using pairs_size_simps(3) [of "butlast (bs ! i)" "[last (bs ! i)]", unfolded append_butlast_last_id [OF ne]]
      by (cases "last (bs ! i)") simp
    ultimately show "length (seps ! i) + length (handle_bytes (handle_of dopts bs i)) + 19 \<le> 3 * pairs_size (bs ! i)"
      using handle_bytes_size [of "handle_of dopts bs i"] by linarith
  qed
  also have "\<dots> = 3 * (\<Sum>i \<leftarrow> [0..<length seps]. pairs_size (bs ! i))" by (simp add: sum_list_const_mult)
  also have "(\<Sum>i \<leftarrow> [0..<length seps]. pairs_size (bs ! i)) = pairs_size (concat (take (length seps) bs))"
  proof -
    have "pairs_size (concat cs) = (\<Sum>c \<leftarrow> cs. pairs_size c)" for cs by (induction cs) simp_all
    moreover have "map (\<lambda>i. pairs_size (bs ! i)) [0..<length seps] = map pairs_size (take (length seps) bs)"
      using s(1) by (intro nth_equalityI) simp_all
    ultimately show ?thesis by simp
  qed
  also have "\<dots> \<le> pairs_size (concat bs)"
    by (metis append_take_drop_id concat_append le_add1 pairs_size_simps(3))
  finally show ?thesis by simp
qed

subsection \<open>The builder's invariant\<close>

definition filter_inv :: "(slice \<times> slice) list list \<Rightarrow> (slice \<times> slice) list \<Rightarrow> filter_builder option \<Rightarrow> bool" where
  "filter_inv bs cur ofb \<longleftrightarrow> (case o_filter_policy opt of
       None \<Rightarrow> ofb = None
     | Some pol \<Rightarrow> \<exists>fb. ofb = Some fb \<and>
         add_blocks (fp_CreateFilter pol) (filter_calls dopts bs cur) FilterBlockBuilder = Some fb)"

definition inv :: "(slice \<times> slice) list list \<Rightarrow> slice list \<Rightarrow> (slice \<times> slice) list \<Rightarrow> 'f table_builder \<Rightarrow> bool" where
  "inv bs seps cur tb \<longleftrightarrow> well_cut bs seps cur \<and>
     tb_options tb = opt \<and> tb_index_options tb = iopt \<and> \<not> tb_closed tb \<and> tb_status tb = OK \<and>
     stored (tb_file tb) = body dopts bs \<and> tb_offset tb = of_nat (length (body dopts bs)) \<and>
     add_all dopts cur empty_builder = Some (tb_data_block tb) \<and>
     add_all iopts (index_pairs dopts bs seps) empty_builder = Some (tb_index_block tb) \<and>
     (if tb_pending_index_entry tb
      then length bs = Suc (length seps) \<and> cur = [] \<and> tb_pending_handle tb = handle_of dopts bs (length seps)
      else length seps = length bs \<and> (bs = [] \<or> cur \<noteq> [])) \<and>
     tb_num_entries tb = length (concat bs @ cur) \<and> (concat bs @ cur \<noteq> [] \<longrightarrow> tb_last_key tb = fst (last (concat bs @ cur))) \<and>
     filter_inv bs cur (tb_filter_block tb) \<and> tb_filter_policy tb = o_filter_policy opt"

text \<open>After an error nothing is written any more.\<close>

definition dead :: "'f table_builder \<Rightarrow> bool" where "dead tb \<longleftrightarrow> tb_status tb \<noteq> OK \<and> \<not> tb_closed tb"

lemma filter_total:
  assumes "kvs_ok (concat bs @ cur)" "length (body dopts bs) < 2 ^ 64" "o_filter_policy opt = Some pol"
  shows "\<exists>fb. add_blocks (fp_CreateFilter pol) (filter_calls dopts bs cur) FilterBlockBuilder = Some fb"
proof -
  note p = policy [OF assms(3)]
  have "length (concat (map snd (filter_calls dopts bs cur))) \<le> cap"
    using assms(1) unfolding filter_calls_keys kvs_ok_def by simp
  moreover have "\<forall>key \<in> set (concat (map snd (filter_calls dopts bs cur))). valid key"
    using assms(1) unfolding filter_calls_keys kvs_ok_def kvs_sorted_def by auto
  ultimately show ?thesis
    using filter_policy.holds_add_blocks [OF p filter_policy.holds_start [OF p] sorted_filter_calls [OF assms(2)], of cur] by auto
qed

lemma inv_start:
  assumes "stored file = []"
  shows "\<exists>tb. TableBuilder opt file = Some tb \<and> inv [] [] [] tb"
proof -
  have wc: "well_cut [] [] []" by (simp add: well_cut_def kvs_ok_def kvs_sorted_def separated_def cut_by_def)
  let ?tb = "\<lambda>ofb. \<lparr>tb_options = opt, tb_index_options = iopt, tb_file = file, tb_offset = 0, tb_status = OK,
     tb_data_block = empty_builder, tb_index_block = empty_builder, tb_last_key = [], tb_num_entries = 0,
     tb_closed = False, tb_filter_block = ofb, tb_filter_policy = o_filter_policy opt, tb_pending_index_entry = False, tb_pending_handle = BlockHandle\<rparr>"
  have b: "BlockBuilder dopts = Some empty_builder" by (simp add: BlockBuilder_start)
  have i: "inv [] [] [] (?tb ofb)" if "filter_inv [] [] ofb" for ofb
    using wc that assms by (simp add: inv_def index_pairs_def)
  show ?thesis
  proof (cases "o_filter_policy opt")
    case None
    then have "TableBuilder opt file = Some (?tb None)" by (simp add: TableBuilder_def b with_filter_def)
    moreover have "filter_inv [] [] None" using None by (simp add: filter_inv_def)
    ultimately show ?thesis using i by blast
  next
    case (Some pol)
    obtain fb where fb: "add_blocks (fp_CreateFilter pol) (filter_calls dopts [] []) FilterBlockBuilder = Some fb"
      using filter_total [of "[]" "[]" pol] Some wc by (auto simp: well_cut_def)
    then have "StartBlock (fp_CreateFilter pol) 0 FilterBlockBuilder = Some fb"
      by (simp add: filter_calls_def split: option.splits)
    then have "TableBuilder opt file = Some (?tb (Some fb))" using Some by (simp add: TableBuilder_def b with_filter_def)
    moreover have "filter_inv [] [] (Some fb)" using Some fb by (simp add: filter_inv_def)
    ultimately show ?thesis using i by blast
  qed
qed

text \<open>The filter's part of the steps.\<close>

lemma filter_key_step:
  assumes "filter_inv bs cur (tb_filter_block tb)" "tb_filter_policy tb = o_filter_policy opt"
  shows "\<exists>ofb. with_filter (\<lambda>create fb. Some (AddKey k fb)) tb = Some (tb\<lparr>tb_filter_block := ofb\<rparr>) \<and>
    filter_inv bs (cur @ [(k, v)]) ofb"
proof (cases "o_filter_policy opt")
  case None
  then show ?thesis using assms by (intro exI [of _ None]) (simp add: with_filter_def filter_inv_def)
next
  case (Some pol)
  then obtain fb where fb: "tb_filter_block tb = Some fb"
    "add_blocks (fp_CreateFilter pol) (filter_calls dopts bs cur) FilterBlockBuilder = Some fb"
    using assms(1) by (auto simp: filter_inv_def)
  then show ?thesis
    using Some assms(2) by (intro exI [of _ "Some (AddKey k fb)"]) (simp add: with_filter_def filter_inv_def filter_calls_key)
qed

lemma filter_start_step:
  assumes "filter_inv bs cur (tb_filter_block tb)" "tb_filter_policy tb = o_filter_policy opt" "kvs_ok (concat bs @ cur)"
    "length (body dopts (bs @ [cur])) < 2 ^ 64"
  shows "\<exists>ofb. with_filter (\<lambda>create. StartBlock create (of_nat (length (body dopts (bs @ [cur]))))) tb = Some (tb\<lparr>tb_filter_block := ofb\<rparr>) \<and>
    filter_inv (bs @ [cur]) [] ofb"
proof (cases "o_filter_policy opt")
  case None
  then show ?thesis using assms(1) by (intro exI [of _ None]) (simp add: with_filter_def filter_inv_def)
next
  case (Some pol)
  then obtain fb where fb: "tb_filter_block tb = Some fb"
    "add_blocks (fp_CreateFilter pol) (filter_calls dopts bs cur) FilterBlockBuilder = Some fb"
    using assms(1) by (auto simp: filter_inv_def)
  obtain fb2 where fb2: "add_blocks (fp_CreateFilter pol) (filter_calls dopts (bs @ [cur]) []) FilterBlockBuilder = Some fb2"
    using filter_total [of "bs @ [cur]" "[]" pol] assms(3,4) Some by auto
  then have "StartBlock (fp_CreateFilter pol) (of_nat (length (body dopts (bs @ [cur])))) fb = Some fb2"
    using fb(2) unfolding filter_calls_flush by (simp add: add_blocks_snoc)
  then show ?thesis
    using Some assms(2) fb(1) fb2 by (intro exI [of _ "Some fb2"]) (simp add: with_filter_def filter_inv_def)
qed

lemma filter_same_step:
  assumes "filter_inv bs cur (tb_filter_block tb)" "tb_filter_policy tb = o_filter_policy opt"
  shows "with_filter (\<lambda>create. StartBlock create (of_nat (length (body dopts bs)))) tb = Some tb"
proof (cases "o_filter_policy opt")
  case None
  then show ?thesis using assms by (simp add: with_filter_def filter_inv_def)
next
  case (Some pol)
  then obtain fb where fb: "tb_filter_block tb = Some fb"
    "add_blocks (fp_CreateFilter pol) (filter_calls dopts bs cur) FilterBlockBuilder = Some fb"
    using assms(1) by (auto simp: filter_inv_def)
  then show ?thesis using assms(2) Some StartBlock_again [OF fb(2)] by (simp add: with_filter_def)
qed

subsection \<open>Flushing and adding\<close>

lemma Flush_step:
  assumes "inv bs seps cur tb" "cur \<noteq> []"
  shows "\<exists>tb'. Flush fo tb = Some tb' \<and> (inv (bs @ [cur]) seps [] tb' \<and> tb_pending_index_entry tb' \<or> dead tb')"
proof -
  have wc: "well_cut bs seps cur" and o: "tb_options tb = opt" "\<not> tb_closed tb" "tb_ok tb"
    and data: "add_all dopts cur empty_builder = Some (tb_data_block tb)" and np: "\<not> tb_pending_index_entry tb"
    and off: "tb_offset tb = of_nat (length (body dopts bs))" and filt: "filter_inv bs cur (tb_filter_block tb)" "tb_filter_policy tb = o_filter_policy opt"
    using assms by (auto simp: inv_def tb_ok_def split: if_splits)
  have ord: "ordered_by cmp cur" by (rule well_cut_cur [OF wc])
  note be = builder_empty [where options = dopts and kvs = cur and b = "tb_data_block tb", simplified, OF ord data]
  have sz: "length (body dopts bs) < 2 ^ 39" "length (block_bytes dopts cur) < 2 ^ 39" using well_cut_size [OF wc] .
  have ok: "kvs_ok (concat bs @ cur)" using wc by (simp add: well_cut_def)
  let ?c = "block_bytes dopts cur" and ?h = "handle_of dopts (bs @ [cur]) (length bs)"
  have h: "\<lparr>bh_offset = tb_offset tb, bh_size = of_nat (length ?c)\<rparr> = ?h" by (simp add: handle_of_def off place_append place_length)
  obtain tb1 where tb1: "WriteBlock fo (tb_data_block tb) tb = Some (empty_builder, ?h, tb1)" "wrote ?c kNoCompression tb tb1"
    using WriteBlock_wrote [OF be(2) _ o(3,1)] sz(2) h by auto
  obtain st f where w: "tb1 = tb\<lparr>tb_status := st, tb_file := f,
      tb_offset := (if st = OK then tb_offset tb + of_nat (length ?c) + 5 else tb_offset tb)\<rparr>"
    "st = OK \<Longrightarrow> stored f = stored (tb_file tb) @ stored_block kNoCompression ?c"
    using tb1(2) by (auto simp: wrote_def)
  have len: "length (body dopts (bs @ [cur])) < 2 ^ 64" using sz by simp
  show ?thesis
  proof (cases "st = OK")
    case False
    define tb2 where "tb2 = tb1\<lparr>tb_data_block := empty_builder, tb_pending_handle := ?h\<rparr>"
    have "with_filter (\<lambda>create. StartBlock create (of_nat (length (body dopts bs)))) tb2 = Some tb2"
      using filter_same_step [of bs cur tb2] filt o(1) by (simp add: tb2_def w(1))
    then have "Flush fo tb = Some tb2"
      using o np be(1) assms(2) tb1(1) False off by (simp add: Flush_def tb2_def w(1) tb_ok_def)
    then show ?thesis using False o(2) by (simp add: dead_def tb2_def w(1))
  next
    case True
    obtain st2 f2 where fl: "wf_Flush fo f = (st2, f2)" by fastforce
    define tb3 where "tb3 = tb\<lparr>tb_status := st2, tb_file := f2, tb_offset := of_nat (length (body dopts (bs @ [cur]))),
      tb_data_block := empty_builder, tb_pending_handle := ?h, tb_pending_index_entry := True\<rparr>"
    obtain ofb where ofb: "with_filter (\<lambda>create. StartBlock create (of_nat (length (body dopts (bs @ [cur]))))) tb3 =
        Some (tb3\<lparr>tb_filter_block := ofb\<rparr>)" "filter_inv (bs @ [cur]) [] ofb"
      using filter_start_step [of bs cur tb3] filt o(1) ok len by (auto simp: tb3_def)
    have off': "tb_offset tb + of_nat (length ?c) + 5 = of_nat (length (body dopts (bs @ [cur])))" by (simp add: off)
    have tb3: "tb1\<lparr>tb_data_block := empty_builder, tb_pending_handle := ?h, tb_pending_index_entry := True, tb_status := st2, tb_file := f2\<rparr> = tb3"
      using True off' by (simp add: tb3_def w(1))
    have F: "Flush fo tb = Some (tb3\<lparr>tb_filter_block := ofb\<rparr>)"
    proof -
      have "tb_ok (tb1\<lparr>tb_data_block := empty_builder, tb_pending_handle := ?h\<rparr>)" "tb_file tb1 = f"
        using True by (simp_all add: tb_ok_def w(1))
      then show ?thesis
        using o np be(1) assms(2) tb1(1) fl ofb(1) tb3 by (simp add: Flush_def) (simp add: tb3_def)
    qed
    show ?thesis
    proof (cases "st2 = OK")
      case False
      then show ?thesis using F o(2) by (simp add: dead_def tb3_def)
    next
      case ok2: True
      have "stored f2 = body dopts (bs @ [cur])"
        using flushes [of f f2] fl ok2 w(2) True assms(1) by (simp add: inv_def)
      moreover have "well_cut (bs @ [cur]) seps []"
        using wc assms(2) by (auto simp: well_cut_def separated_def cut_by_def nth_append)
      moreover have "index_pairs dopts (bs @ [cur]) seps = index_pairs dopts bs seps"
        using wc by (intro index_pairs_append) (simp add: well_cut_def)
      ultimately have "inv (bs @ [cur]) seps [] (tb3\<lparr>tb_filter_block := ofb\<rparr>)"
        using assms(1) np ofb(2) ok2 unfolding inv_def tb3_def by simp
      then show ?thesis using F by (auto simp: tb3_def)
    qed
  qed
qed

lemma kvs_ok_prefix: "kvs_ok (xs @ ys) \<Longrightarrow> kvs_ok xs" by (simp add: kvs_ok_def kvs_sorted_append)

lemma kvs_ok_last:
  assumes "kvs_ok (xs @ [(k, v)])" "kv \<in> set xs"
  shows "cmp (fst kv) k < 0" "valid k" "valid (fst kv)"
  using assms by (auto simp: kvs_ok_def kvs_sorted_append) (auto simp: kvs_sorted_def)

lemma last_key_le:
  assumes "kvs_sorted cmp valid xs" "kv \<in> set xs"
  shows "cmp (fst kv) (fst (last xs)) \<le> 0"
proof -
  have ne: "xs \<noteq> []" using assms(2) by auto
  show ?thesis
  proof (cases "kv = last xs")
    case True
    then show ?thesis using assms cmp_self [of "fst kv"] by (simp add: kvs_sorted_def)
  next
    case False
    then have "kv \<in> set (butlast xs)" using assms(2) ne by (metis append_butlast_last_id in_set_butlast_appendI list.set_cases
        rotate1.simps(2) set_ConsD set_rotate1 Un_iff set_append list.set(1,2) empty_iff insert_iff)
    then show ?thesis
      using assms(1) kvs_sorted_append [of "butlast xs" "[last xs]", unfolded append_butlast_last_id [OF ne]] by force
  qed
qed

lemma later_pairs:
  assumes "[] \<notin> set bs" "Suc i < length bs"
  shows "concat (drop (Suc i) bs) \<noteq> []"
proof -
  have "bs ! Suc i \<in> set (drop (Suc i) bs)" using assms(2) by (metis Cons_nth_drop_Suc list.set_intros(1))
  moreover have "bs ! Suc i \<noteq> []" using assms nth_mem by metis
  ultimately show ?thesis by auto
qed

lemma well_cut_extend:
  assumes "well_cut bs seps cur" "kvs_ok (concat bs @ cur @ [(k, v)])" "length seps < length bs \<or> bs = [] \<or> cur \<noteq> []"
  shows "well_cut bs seps (cur @ [(k, v)])"
proof -
  have w: "length seps \<le> length bs" "[] \<notin> set bs" "separated bs seps cur" "cut_by bs seps cur" using assms(1) by (simp_all add: well_cut_def)
  have ne: "concat (drop (Suc i) bs) @ cur \<noteq> []" if i: "i < length seps" for i
    using assms(3) i w(1) later_pairs [OF w(2), of i] by (cases "length seps < length bs") auto
  have "cmp (seps ! i) k < 0" if i: "i < length seps" for i
  proof -
    obtain x where x: "x \<in> set (concat (drop (Suc i) bs) @ cur)" using ne [OF i] by (meson list.set_sel(1))
    then have "x \<in> set (concat bs @ cur)" using set_drop_subset [of "Suc i" bs] by auto
    then have "cmp (fst x) k < 0" "valid k" "valid (fst x)" using kvs_ok_last [of "concat bs @ cur" k v x] assms(2) by simp_all
    moreover have "cmp (seps ! i) (fst x) < 0" "valid (seps ! i)" using w(3) i x by (simp_all add: separated_def)
    ultimately show ?thesis using less_trans by blast
  qed
  then have "separated bs seps (cur @ [(k, v)])" using w(3) by (auto simp: separated_def)
  moreover have "cut_by bs seps (cur @ [(k, v)])"
  proof -
    have "hd (concat (drop (Suc i) bs) @ cur @ [(k, v)]) = hd (concat (drop (Suc i) bs) @ cur)" if "i < length seps" for i
      using ne [OF that] by (metis append_assoc hd_append2)
    moreover have "sep (fst (last (bs ! i))) (fst (hd (concat (drop (Suc i) bs) @ cur))) = Some (seps ! i)" if "i < length seps" for i
      using w(4) ne [OF that] that unfolding cut_by_def by blast
    ultimately show ?thesis by (simp add: cut_by_def)
  qed
  ultimately show ?thesis using assms(1,2) by (simp add: well_cut_def)
qed

lemma last_block:
  assumes "[] \<notin> set bs" "length bs = Suc n"
  shows "last (concat bs) = last (bs ! n)"
proof -
  have "bs ! n \<noteq> []" using assms nth_mem by (metis lessI)
  moreover have "bs = take n bs @ [bs ! n]" using assms(2) by (metis append_take_drop_id Cons_nth_drop_Suc drop_eq_Nil lessI order_refl)
  ultimately show ?thesis by (metis concat_append concat.simps last_appendR append_Nil2)
qed

lemma well_cut_separator:
  assumes "well_cut bs seps []" "length bs = Suc (length seps)" "valid s" "cmp (fst (last (concat bs))) s \<le> 0"
    "length s \<le> length (fst (last (concat bs)))"
  shows "well_cut bs (seps @ [s]) []"
proof -
  let ?b = "bs ! length seps"
  have ne: "?b \<noteq> []" using well_cut_block [OF assms(1)] assms(2) by simp
  have l: "last (concat bs) = last ?b" using last_block [of bs] assms(1,2) by (simp add: well_cut_def)
  have sorted: "kvs_sorted cmp valid ?b"
    using kvs_sorted_concat [of bs ?b] assms(1,2) by (simp add: well_cut_def kvs_ok_def)
  have "cmp (fst kv) s \<le> 0" if "kv \<in> set ?b" for kv
    using trans [of "fst kv" "fst (last ?b)" s] last_key_le [OF sorted that] assms(3,4) sorted ne that unfolding l
    by (simp add: kvs_sorted_def)
  then have "separated bs (seps @ [s]) []"
    using assms unfolding l by (auto simp: well_cut_def separated_def nth_append less_Suc_eq)
  moreover have "cut_by bs (seps @ [s]) []" using assms(1,2) by (auto simp: well_cut_def cut_by_def nth_append less_Suc_eq)
  ultimately show ?thesis using assms(1,2) by (simp add: well_cut_def)
qed

text \<open>The entry of the last block goes into the index.\<close>

lemma index_entry_step:
  assumes i: "length bs = Suc (length seps)" "tb_pending_handle tb = handle_of dopts bs (length seps)" "tb_index_options tb = iopt"
      "add_all iopts (index_pairs dopts bs seps) empty_builder = Some (tb_index_block tb)"
    and wc: "well_cut bs (seps @ [s]) []"
  shows "\<exists>ib. add_index_entry s tb = Some (tb\<lparr>tb_last_key := s, tb_index_block := ib, tb_pending_index_entry := False\<rparr>) \<and>
    add_all iopts (index_pairs dopts bs (seps @ [s])) empty_builder = Some ib"
proof -
  have "length (body dopts bs) < 2 ^ 62" using well_cut_size(1) [OF wc] by simp
  then have e: "BlockHandle_EncodeTo (tb_pending_handle tb) [] = Some (handle_bytes (handle_of dopts bs (length seps)))"
    unfolding i(2) using i(1) by (intro handle_encoded) simp_all
  have "ordered_by cmp (index_pairs dopts bs (seps @ [s]))" by (rule sorted_ordered [OF index_sorted [OF wc]])
  then obtain ib where "BlockBuilder_Add iopts s (handle_bytes (handle_of dopts bs (length seps))) (tb_index_block tb) = Some ib"
    "add_all iopts (index_pairs dopts bs (seps @ [s])) empty_builder = Some ib"
    using builder_add [of iopts "index_pairs dopts bs seps" s "handle_bytes (handle_of dopts bs (length seps))", OF _ _ i(4)]
    unfolding index_pairs_snoc by auto
  then show ?thesis using e i(3) by (simp add: add_index_entry_def)
qed

text \<open>Before the pair goes into the data block: no index entry is pending.\<close>

lemma settle_step:
  assumes "inv bs seps cur tb" "kvs_ok (concat bs @ cur @ [(k, v)])"
  shows "\<exists>seps' lk ib. (if tb_pending_index_entry tb
      then if bb_buffer (tb_data_block tb) \<noteq> [] then None
        else do {
          s \<leftarrow> co_FindShortestSeparator (o_comparator (tb_options tb)) (tb_last_key tb) k;
          add_index_entry s tb
        }
      else Some tb) = Some (tb\<lparr>tb_last_key := lk, tb_index_block := ib, tb_pending_index_entry := False\<rparr>) \<and>
    add_all iopts (index_pairs dopts bs seps') empty_builder = Some ib \<and> length seps' = length bs \<and>
    well_cut bs seps' (cur @ [(k, v)])"
proof (cases "tb_pending_index_entry tb")
  case False
  then have "length seps = length bs" "bs = [] \<or> cur \<noteq> []" "tb = tb\<lparr>tb_last_key := tb_last_key tb,
      tb_index_block := tb_index_block tb, tb_pending_index_entry := False\<rparr>"
    using assms(1) by (simp_all add: inv_def)
  moreover have "well_cut bs seps (cur @ [(k, v)])"
    using assms calculation(2) by (intro well_cut_extend) (simp_all add: inv_def)
  ultimately show ?thesis using False assms(1)
    by (intro exI [of _ seps] exI [of _ "tb_last_key tb"] exI [of _ "tb_index_block tb"]) (simp add: inv_def)
next
  case True
  then have i: "length bs = Suc (length seps)" "cur = []" "tb_options tb = opt" "well_cut bs seps []"
    "add_all dopts [] empty_builder = Some (tb_data_block tb)" "concat bs \<noteq> [] \<longrightarrow> tb_last_key tb = fst (last (concat bs))"
    using assms(1) by (auto simp: inv_def)
  have ne: "concat bs \<noteq> []"
    using well_cut_block [OF i(4), of "bs ! 0"] i(1) nth_mem [of 0 bs] by auto
  then have last: "last (concat bs) \<in> set (concat bs)" by (rule last_in_set)
  have ok: "kvs_ok (concat bs @ [(k, v)])" using assms(2) i(2) by simp
  note lk = kvs_ok_last [OF ok last]
  obtain s where s: "sep (tb_last_key tb) k = Some s" "valid s" "cmp (tb_last_key tb) s \<le> 0" "cmp s k < 0"
    "length s \<le> length (tb_last_key tb)"
    using separates [OF lk(3,2,1)] i(6) ne by auto
  have wc: "well_cut bs (seps @ [s]) []"
    using well_cut_separator [OF i(4,1) s(2)] s(3,5) i(6) ne by simp
  have "well_cut bs (seps @ [s]) [(k, v)]"
  proof -
    have e: "well_cut bs seps [(k, v)]" using well_cut_extend [OF i(4), of k v] ok i(1) by simp
    have "cmp ((seps @ [s]) ! j) k < 0" if "j < length (seps @ [s])" for j
      using e s(4) that by (cases "j < length seps") (auto simp: well_cut_def separated_def nth_append less_Suc_eq)
    then have "separated bs (seps @ [s]) [(k, v)]" using wc by (auto simp: well_cut_def separated_def)
    moreover have "cut_by bs (seps @ [s]) [(k, v)]"
    proof -
      have "last (concat bs) = last (bs ! length seps)" using last_block [of bs] i(1,4) by (simp add: well_cut_def)
      then show ?thesis using e s(1) i(1,6) ne by (auto simp: well_cut_def cut_by_def nth_append less_Suc_eq)
    qed
    ultimately show ?thesis using wc ok by (simp add: well_cut_def)
  qed
  moreover obtain ib where "add_index_entry s tb = Some (tb\<lparr>tb_last_key := s, tb_index_block := ib, tb_pending_index_entry := False\<rparr>)"
    "add_all iopts (index_pairs dopts bs (seps @ [s])) empty_builder = Some ib"
    using index_entry_step [OF i(1) _ _ _ wc] True assms(1) by (auto simp: inv_def)
  moreover have "bb_buffer (tb_data_block tb) = []" using i(5) by (metis add_all.simps(1) block_builder.select_convs(1) empty_builder_def option.inject)
  ultimately show ?thesis using True i(1-3) s(1)
    by (intro exI [of _ "seps @ [s]"] exI [of _ s] exI [of _ ib]) (simp add: comparator_of)
qed

lemma Add_step:
  assumes "inv bs seps cur tb" "kvs_ok (concat bs @ cur @ [(k, v)])"
  shows "\<exists>tb'. TableBuilder_Add fo k v tb = Some tb' \<and>
    (dead tb' \<or> (\<exists>bs' seps' cur'. inv bs' seps' cur' tb' \<and> concat bs' @ cur' = concat bs @ cur @ [(k, v)]))"
proof -
  have i: "tb_options tb = opt" "\<not> tb_closed tb" "tb_ok tb" "add_all dopts cur empty_builder = Some (tb_data_block tb)"
    "tb_num_entries tb = length (concat bs @ cur)" "concat bs @ cur \<noteq> [] \<longrightarrow> tb_last_key tb = fst (last (concat bs @ cur))"
    "filter_inv bs cur (tb_filter_block tb)" "tb_filter_policy tb = o_filter_policy opt"
    using assms(1) by (auto simp: inv_def tb_ok_def)
  have order: "(0 < tb_num_entries tb \<and> \<not> 0 < cmp k (tb_last_key tb)) = False"
  proof (cases "concat bs @ cur = []")
    case False
    then have l: "last (concat bs @ cur) \<in> set (concat bs @ cur)" by (rule last_in_set)
    show ?thesis using kvs_ok_last [of "concat bs @ cur" k v, OF _ l] assms(2) i(6) False swap by auto
  qed (use i(5) in auto)
  obtain seps' lk ib where set: "(if tb_pending_index_entry tb
      then if bb_buffer (tb_data_block tb) \<noteq> [] then None
        else do {
          s \<leftarrow> co_FindShortestSeparator (o_comparator (tb_options tb)) (tb_last_key tb) k;
          add_index_entry s tb
        }
      else Some tb) = Some (tb\<lparr>tb_last_key := lk, tb_index_block := ib, tb_pending_index_entry := False\<rparr>)"
    "add_all iopts (index_pairs dopts bs seps') empty_builder = Some ib" "length seps' = length bs"
    "well_cut bs seps' (cur @ [(k, v)])"
    using settle_step [OF assms] by blast
  let ?tb1 = "tb\<lparr>tb_last_key := lk, tb_index_block := ib, tb_pending_index_entry := False\<rparr>"
  obtain ofb where ofb: "with_filter (\<lambda>create fb. Some (AddKey k fb)) ?tb1 = Some (?tb1\<lparr>tb_filter_block := ofb\<rparr>)"
    "filter_inv bs (cur @ [(k, v)]) ofb"
    using filter_key_step [of bs cur ?tb1 k v] i(7,8) by auto
  obtain db where db: "BlockBuilder_Add dopts k v (tb_data_block tb) = Some db"
    "add_all dopts (cur @ [(k, v)]) empty_builder = Some db"
    using builder_add [of dopts cur k v, OF _ _ i(4)] well_cut_cur [OF set(4)] by auto
  define tb4 where "tb4 = ?tb1\<lparr>tb_filter_block := ofb, tb_last_key := k, tb_num_entries := tb_num_entries tb + 1, tb_data_block := db\<rparr>"
  have inv4: "inv bs seps' (cur @ [(k, v)]) tb4"
    using assms(1) set(2-4) ofb(2) db(2) unfolding inv_def tb4_def by simp
  have add: "TableBuilder_Add fo k v tb = (if o_block_size opt \<le> CurrentSizeEstimate db then Flush fo tb4 else Some tb4)"
    unfolding TableBuilder_Add_def set(1) unfolding i(1) comparator_of order using i(1-3) ofb(1) db(1)
    by (simp add: tb4_def)
  show ?thesis
  proof (cases "o_block_size opt \<le> CurrentSizeEstimate db")
    case True
    obtain tb' where tb': "Flush fo tb4 = Some tb'" "inv (bs @ [cur @ [(k, v)]]) seps' [] tb' \<or> dead tb'"
      using Flush_step [OF inv4] by blast
    have "concat (bs @ [cur @ [(k, v)]]) @ [] = concat bs @ cur @ [(k, v)]" by simp
    moreover have "TableBuilder_Add fo k v tb = Some tb'" using tb'(1) add True by simp
    ultimately show ?thesis using tb'(2) by blast
  next
    case False
    then show ?thesis using add inv4 by auto
  qed
qed

lemma dead_steps:
  assumes "dead tb"
  shows "TableBuilder_Add fo k v tb = Some tb" "Flush fo tb = Some tb" "add_pairs fo kvs tb = Some tb"
proof -
  show a: "TableBuilder_Add fo k v tb = Some tb" for k v using assms by (simp add: TableBuilder_Add_def dead_def tb_ok_def)
  show "Flush fo tb = Some tb" using assms by (simp add: Flush_def dead_def tb_ok_def)
  show "add_pairs fo kvs tb = Some tb" by (induction kvs) (auto simp: a)
qed

lemma add_pairs_step:
  "inv bs seps cur tb \<Longrightarrow> kvs_ok (concat bs @ cur @ kvs) \<Longrightarrow>
   \<exists>tb'. add_pairs fo kvs tb = Some tb' \<and>
     (dead tb' \<or> (\<exists>bs' seps' cur'. inv bs' seps' cur' tb' \<and> concat bs' @ cur' = concat bs @ cur @ kvs))"
proof (induction kvs arbitrary: bs seps cur tb)
  case (Cons kv kvs)
  obtain k v where kv: "kv = (k, v)" by (cases kv)
  have pre: "kvs_ok (concat bs @ cur @ [(k, v)])"
    using Cons.prems(2) kvs_ok_prefix [of "concat bs @ cur @ [(k, v)]" kvs] by (simp add: kv)
  obtain tb1 where tb1: "TableBuilder_Add fo k v tb = Some tb1"
    "dead tb1 \<or> (\<exists>bs' seps' cur'. inv bs' seps' cur' tb1 \<and> concat bs' @ cur' = concat bs @ cur @ [(k, v)])"
    using Add_step [OF Cons.prems(1) pre] by blast
  show ?case
  proof (cases "dead tb1")
    case True
    then show ?thesis using tb1(1) dead_steps(3) [OF True] by (simp add: kv)
  next
    case False
    then obtain bs' seps' cur' where i: "inv bs' seps' cur' tb1" "concat bs' @ cur' = concat bs @ cur @ [(k, v)]" using tb1(2) by blast
    have e: "concat bs' @ cur' @ kvs = concat bs @ cur @ kv # kvs" using i(2) by (metis append.assoc append_Cons append_Nil kv)
    show ?thesis using Cons.IH [OF i(1)] Cons.prems(2) e tb1(1) by (simp add: kv)
  qed
qed auto

subsection \<open>The finished file\<close>

definition filter_contents :: "(slice \<times> slice) list list \<Rightarrow> filter_policy_object \<Rightarrow> slice option" where
  "filter_contents bs pol =
     do {
       fb \<leftarrow> add_blocks (fp_CreateFilter pol) (filter_calls dopts bs []) FilterBlockBuilder;
       Finish (fp_CreateFilter pol) fb
     }"

definition filter_part :: "(slice \<times> slice) list list \<Rightarrow> slice" where
  "filter_part bs = (case o_filter_policy opt of None \<Rightarrow> []
     | Some pol \<Rightarrow> stored_block kNoCompression (the (filter_contents bs pol)))"

definition filter_handle :: "(slice \<times> slice) list list \<Rightarrow> filter_policy_object \<Rightarrow> block_handle" where
  "filter_handle bs pol = \<lparr>bh_offset = of_nat (length (body dopts bs)), bh_size = of_nat (length (the (filter_contents bs pol)))\<rparr>"

definition meta_pairs :: "(slice \<times> slice) list list \<Rightarrow> (slice \<times> slice) list" where
  "meta_pairs bs = (case o_filter_policy opt of None \<Rightarrow> []
     | Some pol \<Rightarrow> [(filter_key pol, handle_bytes (filter_handle bs pol))])"

definition up_to_filter :: "(slice \<times> slice) list list \<Rightarrow> slice" where "up_to_filter bs = body dopts bs @ filter_part bs"

definition up_to_meta :: "(slice \<times> slice) list list \<Rightarrow> slice" where
  "up_to_meta bs = up_to_filter bs @ stored_block kNoCompression (block_bytes dopts (meta_pairs bs))"

definition up_to_index :: "(slice \<times> slice) list list \<Rightarrow> slice list \<Rightarrow> slice" where
  "up_to_index bs seps = up_to_meta bs @ stored_block kNoCompression (block_bytes iopts (index_pairs dopts bs seps))"

definition file_footer :: "(slice \<times> slice) list list \<Rightarrow> slice list \<Rightarrow> footer" where
  "file_footer bs seps =
     \<lparr>metaindex_handle = \<lparr>bh_offset = of_nat (length (up_to_filter bs)), bh_size = of_nat (length (block_bytes dopts (meta_pairs bs)))\<rparr>,
      index_handle = \<lparr>bh_offset = of_nat (length (up_to_meta bs)),
        bh_size = of_nat (length (block_bytes iopts (index_pairs dopts bs seps)))\<rparr>\<rparr>"

definition table_file :: "(slice \<times> slice) list list \<Rightarrow> slice list \<Rightarrow> slice" where
  "table_file bs seps = up_to_index bs seps @ the (Footer_EncodeTo (file_footer bs seps) [])"

text \<open>Everything is smaller than \<open>2 ^ 62\<close>.\<close>

lemma filter_contents_bound:
  assumes "well_cut bs seps cur" "o_filter_policy opt = Some pol"
  shows "\<exists>c n. filter_contents bs pol = Some c \<and> n \<le> length (body dopts bs) \<and>
    length c \<le> g * (n + length (concat bs)) + 4 * (n + 1) + g + 5"
proof -
  note p = policy [OF assms(2)] and z = policy_size [OF assms(2)]
  have ok: "kvs_ok (concat bs @ [])" and len: "length (body dopts bs) < 2 ^ 39"
    using assms(1) kvs_ok_prefix well_cut_size(1) [OF assms(1)] by (auto simp: well_cut_def)
  have keys: "length (concat (map snd (filter_calls dopts bs []))) \<le> cap"
    using ok unfolding filter_calls_keys kvs_ok_def by simp
  have valid_keys: "\<forall>key \<in> set (concat (map snd (filter_calls dopts bs []))). valid key"
    using ok unfolding filter_calls_keys kvs_ok_def kvs_sorted_def by auto
  obtain fb gs pend fs where fb: "add_blocks (fp_CreateFilter pol) (filter_calls dopts bs []) FilterBlockBuilder = Some fb"
    "filter_policy.holds (fp_KeyMayMatch pol) valid gs pend fs fb" "length pend \<le> cap"
    using filter_policy.holds_add_blocks [OF p filter_policy.holds_start [OF p] sorted_filter_calls, of dopts bs "[]"] keys valid_keys len by auto
  obtain c where c: "Finish (fp_CreateFilter pol) fb = Some c"
    using filter_policy.holds_Finish [OF p fb(2,3)] by blast
  have "fits g 0 FilterBlockBuilder" by (simp add: fits_def FilterBlockBuilder_def)
  then have f: "fits g (length (concat bs)) fb"
    using filter_sizes.fits_add_blocks [OF z fb(1), of 0] unfolding filter_calls_keys by simp
  have "length (fb_offsets fb) \<le> length (body dopts bs)"
    using filter_calls_length [OF fb(1)] filter_index_offset [of "length (body dopts bs)"] len by simp
  moreover have "length c \<le> g * (length (fb_offsets fb) + length (concat bs)) + 4 * (length (fb_offsets fb) + 1) + g + 5"
    by (rule filter_sizes.fits_Finish [OF z f c])
  ultimately show ?thesis using fb(1) c by (auto simp: filter_contents_def)
qed

lemma filter_contents_size:
  assumes "well_cut bs seps cur" "o_filter_policy opt = Some pol"
  shows "\<exists>c. filter_contents bs pol = Some c \<and> length c < 2 ^ 61"
proof -
  obtain c n where c: "filter_contents bs pol = Some c" "n \<le> length (body dopts bs)"
    "length c \<le> g * (n + length (concat bs)) + 4 * (n + 1) + g + 5" using filter_contents_bound [OF assms] by blast
  have ok: "kvs_ok (concat bs @ [])" using assms(1) kvs_ok_prefix by (auto simp: well_cut_def)
  have n: "n < 2 ^ 39" "length (concat bs) < 2 ^ 38"
    using c(2) well_cut_size(1) [OF assms(1)] ok pairs_size_length [of "concat bs"] by (simp_all add: kvs_ok_def)
  have "g * (n + length (concat bs)) \<le> 2 ^ 20 * 2 ^ 40" using g_small n by (intro mult_le_mono) simp_all
  then have "length c < 2 ^ 61" using c(3) n g_small by simp
  then show ?thesis using c(1) by blast
qed

lemma meta_ordered: "ordered_by cmp (meta_pairs bs)"
  by (simp add: meta_pairs_def ordered_by_def split: option.splits)

lemma part_sizes:
  assumes "well_cut bs seps cur"
  shows "length (up_to_filter bs) < 2 ^ 61 + 2 ^ 40" "length (block_bytes dopts (meta_pairs bs)) < 2 ^ 39"
    "length (block_bytes iopts (index_pairs dopts bs seps)) < 2 ^ 41"
proof -
  show "length (up_to_filter bs) < 2 ^ 61 + 2 ^ 40"
    using well_cut_size(1) [OF assms] filter_contents_size [OF assms]
    by (auto simp: up_to_filter_def filter_part_def split: option.splits)
  have "length (block_bytes dopts (meta_pairs bs)) \<le> pairs_size (meta_pairs bs) + 8"
    using meta_ordered by (intro block_bytes_size) simp_all
  moreover have "pairs_size (meta_pairs bs) \<le> 2 ^ 38 + 46"
  proof (cases "o_filter_policy opt")
    case (Some pol)
    then show ?thesis using policy_name [OF Some] handle_bytes_size [of "filter_handle bs pol"]
      by (simp add: meta_pairs_def filter_key_def)
  qed (simp add: meta_pairs_def)
  ultimately show "length (block_bytes dopts (meta_pairs bs)) < 2 ^ 39" by simp
  have "length (block_bytes iopts (index_pairs dopts bs seps)) \<le> pairs_size (index_pairs dopts bs seps) + 8"
    using sorted_ordered [OF index_sorted [OF assms]] by (intro block_bytes_size) simp_all
  moreover have "pairs_size (concat bs) < 2 ^ 38" using assms by (simp add: well_cut_def kvs_ok_def)
  ultimately show "length (block_bytes iopts (index_pairs dopts bs seps)) < 2 ^ 41" using pairs_size_index [OF assms] by simp
qed

lemma footer_encoded:
  assumes "well_cut bs seps cur"
  shows "\<exists>s. Footer_EncodeTo (file_footer bs seps) [] = Some s \<and> length s = kEncodedLength \<and>
    (\<forall>f0 rest. Footer_DecodeFrom f0 (s @ rest) = Some (OK, file_footer bs seps, rest))"
proof -
  note z = part_sizes [OF assms]
  have m: "length (up_to_meta bs) < 2 ^ 62" using z by (simp add: up_to_meta_def)
  have "bh_offset (metaindex_handle (file_footer bs seps)) \<noteq> NOT 0" "bh_size (metaindex_handle (file_footer bs seps)) \<noteq> NOT 0"
    "bh_offset (index_handle (file_footer bs seps)) \<noteq> NOT 0" "bh_size (index_handle (file_footer bs seps)) \<noteq> NOT 0"
    using z m offset_below by (simp_all add: file_footer_def)
  then show ?thesis using Footer_roundtrip [of "file_footer bs seps"] by (metis option.inject)
qed

text \<open>The file is not much larger than its pairs.\<close>

lemma table_file_size:
  assumes "well_cut bs seps []" "\<And>pol. o_filter_policy opt = Some pol \<Longrightarrow> length (fp_Name pol) < 2 ^ 10" "g \<le> 10"
    "pairs_size (concat bs) < 2 ^ 26"
  shows "length (table_file bs seps) < 2 ^ 32"
proof -
  let ?P = "pairs_size (concat bs)"
  have b: "length (body dopts bs) \<le> 2 * ?P" using body_size [of bs] well_cut_block [OF assms(1)] by blast
  have n: "length (concat bs) \<le> ?P" using pairs_size_length [of "concat bs"] by simp
  have f: "length (filter_part bs) \<le> 38 * ?P + 24"
  proof (cases "o_filter_policy opt")
    case (Some pol)
    obtain c m where c: "filter_contents bs pol = Some c" "m \<le> length (body dopts bs)"
      "length c \<le> g * (m + length (concat bs)) + 4 * (m + 1) + g + 5" using filter_contents_bound [OF assms(1) Some] by blast
    have "g * (m + length (concat bs)) \<le> 10 * (2 * ?P + ?P)" using b n c(2) assms(3) by (intro mult_le_mono) simp_all
    then have "length c \<le> 38 * ?P + 19" using b c(2,3) assms(3) by simp
    then show ?thesis using Some c(1) by (simp add: filter_part_def)
  qed (simp add: filter_part_def)
  have "length (block_bytes dopts (meta_pairs bs)) \<le> pairs_size (meta_pairs bs) + 8"
    using meta_ordered by (intro block_bytes_size) simp_all
  moreover have "pairs_size (meta_pairs bs) \<le> 2 ^ 10 + 46"
  proof (cases "o_filter_policy opt")
    case (Some pol)
    then show ?thesis using assms(2) [OF Some] handle_bytes_size [of "filter_handle bs pol"]
      by (simp add: meta_pairs_def filter_key_def)
  qed (simp add: meta_pairs_def)
  ultimately have m: "length (block_bytes dopts (meta_pairs bs)) \<le> 2 ^ 10 + 54" by simp
  have "length (block_bytes iopts (index_pairs dopts bs seps)) \<le> pairs_size (index_pairs dopts bs seps) + 8"
    using sorted_ordered [OF index_sorted [OF assms(1)]] by (intro block_bytes_size) simp_all
  then have i: "length (block_bytes iopts (index_pairs dopts bs seps)) \<le> 3 * ?P + 8" using pairs_size_index [OF assms(1)] by simp
  obtain s where s: "Footer_EncodeTo (file_footer bs seps) [] = Some s" "length s = kEncodedLength"
    using footer_encoded [OF assms(1)] by blast
  have "length (table_file bs seps) = length (body dopts bs) + length (filter_part bs) + (length (block_bytes dopts (meta_pairs bs)) + 5) +
      (length (block_bytes iopts (index_pairs dopts bs seps)) + 5) + 48"
    using s by (simp add: table_file_def up_to_index_def up_to_meta_def up_to_filter_def kEncodedLength_def kMaxEncodedLength_def)
  also have "\<dots> \<le> 2 * ?P + (38 * ?P + 24) + (2 ^ 10 + 54 + 5) + (3 * ?P + 8 + 5) + 48" by (intro add_mono b f m i order_refl)
  also have "\<dots> < 2 ^ 32" using assms(4) by simp
  finally show ?thesis .
qed

subsection \<open>Finishing\<close>

text \<open>\<open>at_end F tb tb'\<close>: \<open>tb'\<close> is \<open>tb\<close> with the file written up to \<open>F\<close>, or a write has failed.\<close>

definition reached :: "slice \<Rightarrow> 'f table_builder \<Rightarrow> bool" where
  "reached F tb \<longleftrightarrow> stored (tb_file tb) = F \<and> tb_offset tb = of_nat (length F) \<and> tb_status tb = OK"

definition moved :: "'f table_builder \<Rightarrow> 'f table_builder \<Rightarrow> bool" where
  "moved tb tb' \<longleftrightarrow> (\<exists>st f off. tb' = tb\<lparr>tb_status := st, tb_file := f, tb_offset := off\<rparr>)"

lemma moved_trans:
  assumes "moved a b" "moved b c"
  shows "moved a c"
proof -
  obtain st f pos where b: "b = a\<lparr>tb_status := st, tb_file := f, tb_offset := pos\<rparr>" using assms(1) by (auto simp: moved_def)
  obtain st' f' pos' where "c = b\<lparr>tb_status := st', tb_file := f', tb_offset := pos'\<rparr>" using assms(2) by (auto simp: moved_def)
  then have "c = a\<lparr>tb_status := st', tb_file := f', tb_offset := pos'\<rparr>" by (simp add: b)
  then show ?thesis unfolding moved_def by blast
qed

lemma wrote_reached:
  assumes "wrote c t tb tb'" "reached F tb"
  shows "reached (F @ stored_block t c) tb' \<or> \<not> tb_ok tb'" "moved tb tb'"
  using assms by (auto simp: wrote_def reached_def moved_def tb_ok_def)

lemma write_filter_step:
  assumes "filter_inv bs [] (tb_filter_block tb)" "tb_filter_policy tb = o_filter_policy opt" "well_cut bs seps []" "reached (body dopts bs) tb"
  shows "\<exists>h tb'. write_filter_block fo tb = Some (h, tb') \<and> moved tb tb' \<and>
    (o_filter_policy opt = None \<or> (\<exists>pol. o_filter_policy opt = Some pol \<and> h = filter_handle bs pol)) \<and>
    (reached (up_to_filter bs) tb' \<or> \<not> tb_ok tb')"
proof (cases "o_filter_policy opt")
  case None
  then have "write_filter_block fo tb = Some (BlockHandle, tb)" using assms(1) by (simp add: write_filter_block_def filter_inv_def)
  moreover have "moved tb tb" unfolding moved_def by (intro exI [of _ "tb_status tb"] exI [of _ "tb_file tb"] exI [of _ "tb_offset tb"]) simp
  ultimately show ?thesis using assms(4) None by (simp add: up_to_filter_def filter_part_def)
next
  case (Some pol)
  obtain fb where fb: "tb_filter_block tb = Some fb"
    "add_blocks (fp_CreateFilter pol) (filter_calls dopts bs []) FilterBlockBuilder = Some fb"
    using assms(1) Some by (auto simp: filter_inv_def)
  obtain c where c: "filter_contents bs pol = Some c" "length c < 2 ^ 61" using filter_contents_size [OF assms(3) Some] by blast
  then have fc: "Finish (fp_CreateFilter pol) fb = Some c" using fb(2) by (simp add: filter_contents_def)
  have ok: "tb_ok tb" using assms(4) by (simp add: reached_def tb_ok_def)
  obtain tb' where tb': "WriteRawBlock fo c kNoCompression tb = Some (\<lparr>bh_offset = tb_offset tb, bh_size = of_nat (length c)\<rparr>, tb')"
    "wrote c kNoCompression tb tb'" using WriteRawBlock_wrote [OF _ ok, of c] c(2) by auto
  have "write_filter_block fo tb = Some (filter_handle bs pol, tb')"
    using fb(1) Some assms(2,4) ok fc tb'(1) c(1) by (simp add: write_filter_block_def filter_handle_def reached_def)
  moreover have "up_to_filter bs = body dopts bs @ stored_block kNoCompression c"
    using Some c(1) by (simp add: up_to_filter_def filter_part_def)
  ultimately show ?thesis using wrote_reached [OF tb'(2) assms(4)] Some by auto
qed

lemma write_block_step:
  assumes "fst (BlockBuilder_Finish b) = raw" "length raw < 2 ^ 62" "tb_options tb = opt" "reached F tb"
  shows "\<exists>tb'. WriteBlock fo b tb = Some (empty_builder, \<lparr>bh_offset = of_nat (length F), bh_size = of_nat (length raw)\<rparr>, tb') \<and>
    moved tb tb' \<and> (reached (F @ stored_block kNoCompression raw) tb' \<or> \<not> tb_ok tb')"
proof -
  have ok: "tb_ok tb" using assms(4) by (simp add: reached_def tb_ok_def)
  show ?thesis
    using WriteBlock_wrote [OF assms(1,2) ok assms(3)] wrote_reached [OF _ assms(4)] assms(4) by (auto simp: reached_def)
qed

lemma write_meta_step:
  assumes "filter_inv bs [] (tb_filter_block tb)" "tb_options tb = opt" "well_cut bs seps []" "reached (up_to_filter bs) tb"
    "o_filter_policy opt = None \<or> (\<exists>pol. o_filter_policy opt = Some pol \<and> fh = filter_handle bs pol)"
  shows "\<exists>tb'. write_metaindex_block fo fh tb = Some (metaindex_handle (file_footer bs seps'), tb') \<and> moved tb tb' \<and>
    (reached (up_to_meta bs) tb' \<or> \<not> tb_ok tb')"
proof -
  have ok: "tb_ok tb" using assms(4) by (simp add: reached_def tb_ok_def)
  have start: "BlockBuilder dopts = Some empty_builder" by (simp add: BlockBuilder_start)
  obtain mb where mb: "add_all dopts (meta_pairs bs) empty_builder = Some mb"
    using add_all_start [of dopts "meta_pairs bs"] meta_ordered by auto
  have raw: "fst (BlockBuilder_Finish mb) = block_bytes dopts (meta_pairs bs)"
    using builder_empty(2) [OF _ _ mb] meta_ordered by simp
  obtain tb' where tb': "WriteBlock fo mb tb = Some (empty_builder, metaindex_handle (file_footer bs seps'), tb')" "moved tb tb'"
    "reached (up_to_meta bs) tb' \<or> \<not> tb_ok tb'"
    using write_block_step [OF raw _ assms(2,4)] part_sizes(2) [OF assms(3)] by (auto simp: up_to_meta_def file_footer_def)
  have "(case tb_filter_block tb of None \<Rightarrow> Some empty_builder
      | Some fb \<Rightarrow> do {
          pol \<leftarrow> o_filter_policy opt;
          handle_encoding \<leftarrow> BlockHandle_EncodeTo fh [];
          BlockBuilder_Add dopts (filter_key pol) handle_encoding empty_builder
        }) = Some mb"
  proof (cases "o_filter_policy opt")
    case None
    then show ?thesis using assms(1) mb by (simp add: filter_inv_def meta_pairs_def)
  next
    case (Some pol)
    then obtain c where c: "filter_contents bs pol = Some c" "length c < 2 ^ 61" using filter_contents_size [OF assms(3)] by blast
    have "BlockHandle_EncodeTo fh [] = Some (handle_bytes (filter_handle bs pol))"
      using Some assms(5) c well_cut_size(1) [OF assms(3)] offset_below
      by (simp add: filter_handle_def BlockHandle_EncodeTo_def handle_bytes_def)
    then show ?thesis using Some assms(1) mb by (auto simp: filter_inv_def meta_pairs_def split: option.splits)
  qed
  then have "write_metaindex_block fo fh tb = Some (metaindex_handle (file_footer bs seps'), tb')"
    unfolding write_metaindex_block_def assms(2) using ok start tb'(1) by simp
  then show ?thesis using tb'(2,3) by blast
qed

text \<open>The last separator, and what is then in the index.\<close>

lemma last_entry_step:
  assumes "inv bs seps [] tb0" "tb_pending_index_entry tb0 \<or> bs = []" "moved (tb0\<lparr>tb_closed := True\<rparr>) tb"
  shows "\<exists>seps' tb1. (if tb_pending_index_entry tb
      then do { s \<leftarrow> co_FindShortSuccessor (o_comparator (tb_options tb)) (tb_last_key tb); add_index_entry s tb }
      else Some tb) = Some tb1 \<and> well_cut bs seps' [] \<and> length seps' = length bs \<and>
    add_all iopts (index_pairs dopts bs seps') empty_builder = Some (tb_index_block tb1) \<and> tb_file tb1 = tb_file tb \<and>
    tb_offset tb1 = tb_offset tb \<and> tb_status tb1 = tb_status tb \<and> tb_options tb1 = opt"
proof (cases "tb_pending_index_entry tb0")
  case False
  then have "bs = []" "length seps = length bs" using assms(1,2) by (simp_all add: inv_def)
  then show ?thesis using False assms(1,3) by (intro exI [of _ seps] exI [of _ tb]) (auto simp: moved_def inv_def)
next
  case True
  then have i: "length bs = Suc (length seps)" "tb_options tb = opt" "well_cut bs seps []" "tb_pending_index_entry tb"
    "concat bs \<noteq> [] \<longrightarrow> tb_last_key tb = fst (last (concat bs))" "tb_pending_handle tb = handle_of dopts bs (length seps)"
    "tb_index_options tb = iopt" "add_all iopts (index_pairs dopts bs seps) empty_builder = Some (tb_index_block tb)"
    using assms(1,3) by (auto simp: inv_def moved_def)
  have ne: "concat bs \<noteq> []" using well_cut_block [OF i(3), of "bs ! 0"] i(1) nth_mem [of 0 bs] by auto
  have "valid (fst (last (concat bs)))" using i(3) last_in_set [OF ne] by (auto simp: well_cut_def kvs_ok_def kvs_sorted_def)
  then obtain s where s: "shorten (tb_last_key tb) = Some s" "valid s" "cmp (tb_last_key tb) s \<le> 0" "length s \<le> length (tb_last_key tb)"
    using succeeds [of "tb_last_key tb"] i(5) ne by auto
  have wc: "well_cut bs (seps @ [s]) []" using well_cut_separator [OF i(3,1) s(2)] s(3,4) i(5) ne by simp
  obtain ib where "add_index_entry s tb = Some (tb\<lparr>tb_last_key := s, tb_index_block := ib, tb_pending_index_entry := False\<rparr>)"
    "add_all iopts (index_pairs dopts bs (seps @ [s])) empty_builder = Some ib"
    using index_entry_step [OF i(1,6-8) wc] by blast
  then show ?thesis using i(1,2,4) s(1) wc
    by (intro exI [of _ "seps @ [s]"] exI [of _ "tb\<lparr>tb_last_key := s, tb_index_block := ib, tb_pending_index_entry := False\<rparr>"])
       (simp add: comparator_of)
qed

lemma write_index_step:
  assumes "inv bs seps [] tb0" "tb_pending_index_entry tb0 \<or> bs = []" "moved (tb0\<lparr>tb_closed := True\<rparr>) tb" "reached (up_to_meta bs) tb"
  shows "\<exists>seps' tb'. write_index_block fo tb = Some (index_handle (file_footer bs seps'), tb') \<and> well_cut bs seps' [] \<and>
    length seps' = length bs \<and> (reached (up_to_index bs seps') tb' \<or> \<not> tb_ok tb')"
proof -
  obtain seps' tb1 where e: "(if tb_pending_index_entry tb
      then do { s \<leftarrow> co_FindShortSuccessor (o_comparator (tb_options tb)) (tb_last_key tb); add_index_entry s tb }
      else Some tb) = Some tb1" "well_cut bs seps' []" "length seps' = length bs"
    "add_all iopts (index_pairs dopts bs seps') empty_builder = Some (tb_index_block tb1)" "tb_file tb1 = tb_file tb"
    "tb_offset tb1 = tb_offset tb" "tb_status tb1 = tb_status tb" "tb_options tb1 = opt"
    using last_entry_step [OF assms(1-3)] by blast
  have raw: "fst (BlockBuilder_Finish (tb_index_block tb1)) = block_bytes iopts (index_pairs dopts bs seps')"
    using builder_empty(2) [OF _ _ e(4)] sorted_ordered [OF index_sorted [OF e(2)]] by simp
  have "reached (up_to_meta bs) tb1" using assms(4) e(5-7) by (simp add: reached_def)
  then obtain tb2 where tb2: "WriteBlock fo (tb_index_block tb1) tb1 = Some (empty_builder, index_handle (file_footer bs seps'), tb2)"
    "reached (up_to_index bs seps') tb2 \<or> \<not> tb_ok tb2"
    using write_block_step [OF raw _ e(8)] part_sizes(3) [OF e(2)] by (auto simp: up_to_index_def file_footer_def)
  have ok: "tb_ok tb" using assms(4) by (simp add: reached_def tb_ok_def)
  have "write_index_block fo tb = Some (index_handle (file_footer bs seps'), tb2\<lparr>tb_index_block := empty_builder\<rparr>)"
    unfolding write_index_block_def e(1) using ok tb2(1) by simp
  moreover have "reached (up_to_index bs seps') (tb2\<lparr>tb_index_block := empty_builder\<rparr>) \<or> \<not> tb_ok (tb2\<lparr>tb_index_block := empty_builder\<rparr>)"
    using tb2(2) by (simp add: reached_def tb_ok_def)
  ultimately show ?thesis using e(2,3) by blast
qed

lemma write_footer_step:
  assumes "well_cut bs seps []" "reached (up_to_index bs seps) tb"
  shows "\<exists>tb'. write_footer fo (metaindex_handle (file_footer bs seps)) (index_handle (file_footer bs seps)) tb = Some tb' \<and>
    (tb_status tb' = OK \<longrightarrow> stored (tb_file tb') = table_file bs seps \<and> tb_offset tb' = of_nat (length (table_file bs seps)))"
proof -
  obtain s where s: "Footer_EncodeTo (file_footer bs seps) [] = Some s" using footer_encoded [OF assms(1)] by blast
  have f: "Footer\<lparr>metaindex_handle := metaindex_handle (file_footer bs seps), index_handle := index_handle (file_footer bs seps)\<rparr> =
      file_footer bs seps" by (simp add: Footer_def)
  obtain st f2 where a: "wf_Append fo s (tb_file tb) = (st, f2)" by fastforce
  have "st = OK \<Longrightarrow> stored f2 = table_file bs seps"
    using appends [of s "tb_file tb" f2] a assms(2) s by (simp add: reached_def table_file_def)
  then show ?thesis using assms(2) a s unfolding write_footer_def f
    by (auto simp: reached_def tb_ok_def table_file_def Let_def)
qed

lemma not_ok_steps:
  assumes "\<not> tb_ok tb"
  shows "write_metaindex_block fo h tb = Some (BlockHandle, tb)" "write_index_block fo tb = Some (BlockHandle, tb)"
    "write_footer fo m i tb = Some tb"
  using assms by (simp_all add: write_metaindex_block_def write_index_block_def write_footer_def)

lemma Finish_flushed:
  assumes "inv bs seps [] tb" "tb_pending_index_entry tb \<or> bs = []"
  shows "\<exists>st tb'. (do {
      (fh, tb1) \<leftarrow> write_filter_block fo (tb\<lparr>tb_closed := True\<rparr>);
      (metaindex, tb2) \<leftarrow> write_metaindex_block fo fh tb1;
      (index, tb3) \<leftarrow> write_index_block fo tb2;
      tb4 \<leftarrow> write_footer fo metaindex index tb3;
      Some (tb_status tb4, tb4)
    }) = Some (st, tb') \<and>
    (st = OK \<longrightarrow> (\<exists>seps'. well_cut bs seps' [] \<and> length seps' = length bs \<and> stored (tb_file tb') = table_file bs seps' \<and>
       FileSize tb' = of_nat (length (table_file bs seps'))))"
proof -
  let ?tb = "tb\<lparr>tb_closed := True\<rparr>"
  have wc: "well_cut bs seps []" and f: "filter_inv bs [] (tb_filter_block ?tb)" "tb_options ?tb = opt" "reached (body dopts bs) ?tb"
    and fp: "tb_filter_policy ?tb = o_filter_policy opt"
    using assms(1) by (simp_all add: inv_def reached_def)
  obtain h tb1 where 1: "write_filter_block fo ?tb = Some (h, tb1)" "moved ?tb tb1"
    "o_filter_policy opt = None \<or> (\<exists>pol. o_filter_policy opt = Some pol \<and> h = filter_handle bs pol)"
    "reached (up_to_filter bs) tb1 \<or> \<not> tb_ok tb1"
    using write_filter_step [OF f(1) fp wc f(3)] by blast
  show ?thesis
  proof (cases "tb_ok tb1")
    case False
    then show ?thesis using 1(1) not_ok_steps [OF False] by (simp add: tb_ok_def)
  next
    case True
    have f1: "filter_inv bs [] (tb_filter_block tb1)" "tb_options tb1 = opt" "reached (up_to_filter bs) tb1"
      using 1(2,4) f(1,2) True by (auto simp: moved_def)
    obtain tb2 where 2: "write_metaindex_block fo h tb1 = Some (metaindex_handle (file_footer bs seps), tb2)" "moved tb1 tb2"
      "reached (up_to_meta bs) tb2 \<or> \<not> tb_ok tb2"
      using write_meta_step [OF f1(1,2) wc f1(3) 1(3)] by blast
    show ?thesis
    proof (cases "tb_ok tb2")
      case False
      then show ?thesis using 1(1) 2(1) not_ok_steps [OF False] by (simp add: tb_ok_def)
    next
      case True
      have "moved ?tb tb2" using 1(2) 2(2) by (rule moved_trans)
      then obtain seps' tb3 where 3: "write_index_block fo tb2 = Some (index_handle (file_footer bs seps'), tb3)" "well_cut bs seps' []"
        "length seps' = length bs" "reached (up_to_index bs seps') tb3 \<or> \<not> tb_ok tb3"
        using write_index_step [OF assms] 2(3) True by blast
      have m: "metaindex_handle (file_footer bs seps) = metaindex_handle (file_footer bs seps')" by (simp add: file_footer_def)
      show ?thesis
      proof (cases "tb_ok tb3")
        case False
        then show ?thesis using 1(1) 2(1) 3(1) not_ok_steps [OF False] by (simp add: tb_ok_def)
      next
        case True
        then obtain tb4 where 4: "write_footer fo (metaindex_handle (file_footer bs seps')) (index_handle (file_footer bs seps')) tb3 = Some tb4"
          "tb_status tb4 = OK \<longrightarrow> stored (tb_file tb4) = table_file bs seps' \<and> tb_offset tb4 = of_nat (length (table_file bs seps'))"
          using write_footer_step [OF 3(2)] 3(4) by blast
        then show ?thesis using 1(1) 2(1) 3(1-3) m by (auto simp: FileSize_def)
      qed
    qed
  qed
qed

text \<open>Building a table from pairs in order.\<close>

definition build :: "'f \<Rightarrow> (slice \<times> slice) list \<Rightarrow> (status \<times> 'f table_builder) option" where
  "build file kvs = do { tb0 \<leftarrow> TableBuilder opt file; tb1 \<leftarrow> add_pairs fo kvs tb0; TableBuilder_Finish fo tb1 }"

theorem build_writes:
  assumes "kvs_ok kvs" "stored file = []"
  shows "\<exists>st tb. build file kvs = Some (st, tb) \<and>
    (st = OK \<longrightarrow> (\<exists>bs seps. well_cut bs seps [] \<and> length seps = length bs \<and> concat bs = kvs \<and>
       stored (tb_file tb) = table_file bs seps \<and> FileSize tb = of_nat (length (table_file bs seps))))"
proof -
  obtain tb0 where tb0: "TableBuilder opt file = Some tb0" "inv [] [] [] tb0" using inv_start [OF assms(2)] by blast
  obtain tb1 where tb1: "add_pairs fo kvs tb0 = Some tb1"
    "dead tb1 \<or> (\<exists>bs' seps' cur'. inv bs' seps' cur' tb1 \<and> concat bs' @ cur' = kvs)"
    using add_pairs_step [OF tb0(2), of kvs] assms(1) by auto
  have dead: "\<exists>st tb. TableBuilder_Finish fo t = Some (st, tb) \<and> st \<noteq> OK" if "dead t" for t
  proof -
    have n: "\<not> tb_ok (t\<lparr>tb_closed := True\<rparr>)" using that by (simp add: dead_def tb_ok_def)
    have "write_filter_block fo (t\<lparr>tb_closed := True\<rparr>) = Some (BlockHandle, t\<lparr>tb_closed := True\<rparr>)"
      using n by (auto simp: write_filter_block_def split: option.splits)
    then show ?thesis using dead_steps(2) [OF that] not_ok_steps [OF n] that by (simp add: TableBuilder_Finish_def dead_def)
  qed
  have flushed: "\<exists>st tb. TableBuilder_Finish fo t = Some (st, tb) \<and> (st = OK \<longrightarrow>
      (\<exists>seps'. well_cut bs seps' [] \<and> length seps' = length bs \<and> stored (tb_file tb) = table_file bs seps' \<and>
        FileSize tb = of_nat (length (table_file bs seps'))))"
    if "Flush fo t = Some t'" "inv bs seps [] t'" "tb_pending_index_entry t' \<or> bs = []" for t t' bs seps
    using Finish_flushed [OF that(2,3)] that(1,2) by (auto simp: TableBuilder_Finish_def inv_def)
  show ?thesis
  proof (cases "dead tb1")
    case True
    then show ?thesis using dead tb0(1) tb1(1) by (fastforce simp: build_def)
  next
    case False
    then obtain bs seps cur where i: "inv bs seps cur tb1" "concat bs @ cur = kvs" using tb1(2) by blast
    show ?thesis
    proof (cases "cur = []")
      case True
      have "bb_buffer (tb_data_block tb1) = []"
        using i(1) True by (metis add_all.simps(1) block_builder.select_convs(1) empty_builder_def inv_def option.inject)
      then have "Flush fo tb1 = Some tb1" using i(1) by (simp add: Flush_def inv_def)
      moreover have "tb_pending_index_entry tb1 \<or> bs = []" using i(1) True by (auto simp: inv_def split: if_splits)
      ultimately show ?thesis using flushed [of tb1 tb1 bs seps] i True tb0(1) tb1(1) by (auto simp: build_def)
    next
      case False
      then obtain tb2 where tb2: "Flush fo tb1 = Some tb2" "inv (bs @ [cur]) seps [] tb2 \<and> tb_pending_index_entry tb2 \<or> dead tb2"
        using Flush_step [OF i(1)] by blast
      show ?thesis
      proof (cases "dead tb2")
        case True
        then have "TableBuilder_Finish fo tb1 = TableBuilder_Finish fo tb2"
          using tb2(1) dead_steps(2) [OF True] by (simp add: TableBuilder_Finish_def)
        then show ?thesis using dead [OF True] tb0(1) tb1(1) by (fastforce simp: build_def)
      next
        case f: False
        then show ?thesis using flushed [OF tb2(1), of "bs @ [cur]" seps] tb2(2) i(2) tb0(1) tb1(1)
          by (fastforce simp: build_def)
      qed
    qed
  qed
qed

end

end
