(* ===== verification/Lv_Table_Read.thy ===== *)
theory Lv_Table_Read
  imports Lv_Table_Build
begin

section \<open>A built table is read back\<close>

text \<open>
  The contract of a block cache (\<open>cache_contract\<close>), and the proof that a table opened on a file the builder wrote
  serves exactly the pairs that were added: its iterator is a cursor in them, and a lookup passes on the first pair at or
  after the key that the index's block holds.
\<close>

subsection \<open>The contract of a block cache\<close>

text \<open>
  \<open>held T c\<close>: the cache's state is good and the handles \<open>T\<close> are out. A lookup may find nothing; a block that it finds satisfies
  what was known of the blocks put under the key. Only while less than \<open>room\<close> handles are out, another one can be had: the
  code counts them in words.
\<close>

locale cache_contract =
  fixes ops :: "('c, 'h) cache_ops" and good :: "slice \<Rightarrow> block \<Rightarrow> bool" and held :: "'h multiset \<Rightarrow> 'c \<Rightarrow> bool"
    and room :: nat
  assumes lookup_holds: "held T c \<Longrightarrow> size T < room \<Longrightarrow> (\<exists>c'. ca_Lookup ops key c = Some (None, c') \<and> held T c') \<or>
      (\<exists>h c' b. ca_Lookup ops key c = Some (Some h, c') \<and> held (add_mset h T) c' \<and> ca_Value ops h c' = Some b \<and> good key b)"
    and insert_holds: "held T c \<Longrightarrow> size T < room \<Longrightarrow> good key b \<Longrightarrow> 0 < n \<Longrightarrow> n < 2 ^ 32 \<Longrightarrow>
      \<exists>h c'. ca_Insert ops key b n c = Some (h, c') \<and> held (add_mset h T) c'"
    and release_holds: "held (add_mset h T) c \<Longrightarrow> \<exists>c'. ca_Release ops h c = Some c' \<and> held T c'"

definition handles :: "'h option multiset \<Rightarrow> 'h multiset" where
  "handles T = image_mset the (filter_mset (\<lambda>x. x \<noteq> None) T)"

lemma handles_simps [simp]: "handles {#} = {#}" "handles (add_mset None T) = handles T"
  "handles (add_mset (Some h) T) = add_mset h (handles T)"
  by (simp_all add: handles_def)

lemma size_handles: "size (handles T) \<le> size T"
  unfolding handles_def size_image_mset by (rule size_mset_mono) simp

definition cache_inv :: "('c, 'h) block_cache \<Rightarrow> ('h multiset \<Rightarrow> 'c \<Rightarrow> bool) \<Rightarrow> 'h option multiset \<Rightarrow> 'c \<Rightarrow> bool" where
  "cache_inv cache held T c \<longleftrightarrow> (if cache = None then \<forall>x \<in># T. x = None else held (handles T) c)"

subsection \<open>Blocks\<close>

text \<open>A block that holds the pairs: opening it gives an iterator over them.\<close>

definition is_block :: "(slice \<times> slice) list \<Rightarrow> block \<Rightarrow> bool" where
  "is_block kvs b \<longleftrightarrow> bl_size b < 2 ^ 32 \<and> (\<exists>L it. ly_small L \<and> ly_kvs L = kvs \<and> NewIterator b = Some (Iter it) \<and> cursor L (length kvs) it)"

lemma block_of_bytes:
  assumes "1 \<le> block_restart_interval o'" "ordered_by (opt_comparator o') kvs" "length (block_bytes o' kvs) < 2 ^ 32"
  shows "\<exists>b. Block (block_bytes o' kvs) = Some b \<and> is_block kvs b"
proof -
  obtain L where L: "ly_ok L" "ly_kvs L = kvs" "block_bytes o' kvs = ly_data L" using block_bytes_layout [OF assms(1,2)] by blast
  then have "ly_small L" using assms(3) by (simp add: ly_small_def)
  moreover have "bl_size b < 2 ^ 32" if "Block (block_bytes o' kvs) = Some b" for b
    using that assms(3) by (auto simp: Block_def Let_def split: if_splits option.splits)
  ultimately show ?thesis using open_block [of L] L(2,3) by (fastforce simp: is_block_def)
qed

lemma is_block_iter:
  assumes "is_block kvs b"
  shows "\<exists>L it. ly_small L \<and> ly_kvs L = kvs \<and> map_option of_iter (NewIterator b) = Some it \<and> block_cursor L (length kvs) it"
  using assms by (auto simp: is_block_def of_iter_def block_cursor_def)

lemma is_block_size: "is_block kvs b \<Longrightarrow> 0 < bl_size b" "is_block kvs b \<Longrightarrow> bl_size b < 2 ^ 32"
  by (auto simp: is_block_def NewIterator_def split: if_splits)

text \<open>Data iterators: the cursor of the block's iterator, and one cleanup.\<close>

definition cleanup_of :: "'h option \<Rightarrow> 'h cleanup" where
  "cleanup_of tk = (case tk of None \<Rightarrow> DeleteBlock | Some h \<Rightarrow> ReleaseBlock h)"

definition pairs_cursor :: "(slice \<times> slice) list \<Rightarrow> nat \<Rightarrow> table_iter \<Rightarrow> bool" where
  "pairs_cursor kvs j it \<longleftrightarrow> (\<exists>L. ly_small L \<and> ly_kvs L = kvs \<and> block_cursor L j it)"

definition data_cursor :: "(slice \<times> slice) list \<Rightarrow> 'h option \<Rightarrow> nat \<Rightarrow> 'h data_iter \<Rightarrow> bool" where
  "data_cursor kvs tk j d \<longleftrightarrow> pairs_cursor kvs j (di_iter d) \<and> di_cleanups d = [cleanup_of tk]"

context comparator
begin

lemma pairs_list_iterator:
  assumes "kvs_sorted cmp valid kvs"
  shows "list_iterator (block_ops cmp) cmp valid kvs (pairs_cursor kvs)"
proof
  fix j it assume "pairs_cursor kvs j it"
  then obtain L where L: "ly_small L" "ly_kvs L = kvs" "block_cursor L j it" by (auto simp: pairs_cursor_def)
  have I: "list_iterator (block_ops cmp) cmp valid kvs (block_cursor L)" using block_list_iterator [OF L(1)] assms L(2) by simp
  have up: "\<exists>it'. f = Some it' \<and> pairs_cursor kvs i it'" if "\<exists>it'. f = Some it' \<and> block_cursor L i it'" for f i
    using that L(1,2) by (auto simp: pairs_cursor_def)
  show "op_status (block_ops cmp) it = OK" "op_Valid (block_ops cmp) it \<longleftrightarrow> j < length kvs"
    using list_iterator.status_ok [OF I L(3)] list_iterator.valid_iff [OF I L(3)] by simp_all
  show "op_key (block_ops cmp) it = Some (fst (kvs ! j))" "op_value (block_ops cmp) it = Some (snd (kvs ! j))"
    "\<exists>it'. op_Next (block_ops cmp) it = Some it' \<and> pairs_cursor kvs (Suc j) it'"
    "\<exists>it'. op_Prev (block_ops cmp) it = Some it' \<and> pairs_cursor kvs (prev_pos (length kvs) j) it'" if "j < length kvs"
    using list_iterator.key_at [OF I L(3) that] list_iterator.value_at [OF I L(3) that]
      up [OF list_iterator.next_at [OF I L(3) that]] up [OF list_iterator.prev_at [OF I L(3) that]] by simp_all
  show "\<exists>it'. op_SeekToFirst (block_ops cmp) it = Some it' \<and> pairs_cursor kvs 0 it'"
    "\<exists>it'. op_SeekToLast (block_ops cmp) it = Some it' \<and> pairs_cursor kvs (length kvs - 1) it'"
    using up [OF list_iterator.first_at [OF I L(3)]] up [OF list_iterator.last_at [OF I L(3)]] by simp_all
  show "\<exists>it'. op_Seek (block_ops cmp) target it = Some it' \<and> pairs_cursor kvs (seek_pos cmp target kvs) it'" if "valid target" for target
    using up [OF list_iterator.seek_at [OF I L(3) that]] .
qed

lemma data_list_iterator:
  fixes tk :: "'h option"
  assumes "kvs_sorted cmp valid kvs"
  shows "list_iterator (data_iter_ops cmp) cmp valid kvs (data_cursor kvs tk)"
proof
  have it: "list_iterator (block_ops cmp) cmp valid kvs (pairs_cursor kvs)" by (rule pairs_list_iterator [OF assms])
  fix j and d :: "'h data_iter" assume "data_cursor kvs tk j d"
  then have c: "pairs_cursor kvs j (di_iter d)" and cl: "di_cleanups d = [cleanup_of tk]" by (simp_all add: data_cursor_def)
  have move: "\<exists>d'. map_option (\<lambda>it. d\<lparr>di_iter := it\<rparr>) (f (di_iter d)) = Some d' \<and> data_cursor kvs tk i d'"
    if "\<exists>it'. f (di_iter d) = Some it' \<and> pairs_cursor kvs i it'" for f i
    using that cl by (auto simp: data_cursor_def)
  show "op_status (data_iter_ops cmp) d = OK" "op_Valid (data_iter_ops cmp) d = (j < length kvs)"
    using list_iterator.status_ok [OF it c] list_iterator.valid_iff [OF it c] by (simp_all add: data_iter_ops_def Let_def)
  show "op_key (data_iter_ops cmp) d = Some (fst (kvs ! j))" "op_value (data_iter_ops cmp) d = Some (snd (kvs ! j))"
    if "j < length kvs"
    using list_iterator.key_at [OF it c that] list_iterator.value_at [OF it c that] by (simp_all add: data_iter_ops_def Let_def)
  show "\<exists>d'. op_Next (data_iter_ops cmp) d = Some d' \<and> data_cursor kvs tk (Suc j) d'"
    "\<exists>d'. op_Prev (data_iter_ops cmp) d = Some d' \<and> data_cursor kvs tk (prev_pos (length kvs) j) d'" if "j < length kvs"
    using move [where f = "op_Next (block_ops cmp)", OF list_iterator.next_at [OF it c that]]
      move [where f = "op_Prev (block_ops cmp)", OF list_iterator.prev_at [OF it c that]]
    by (simp_all add: data_iter_ops_def Let_def)
  show "\<exists>d'. op_SeekToFirst (data_iter_ops cmp) d = Some d' \<and> data_cursor kvs tk 0 d'"
    "\<exists>d'. op_SeekToLast (data_iter_ops cmp) d = Some d' \<and> data_cursor kvs tk (length kvs - 1) d'"
    using move [where f = "op_SeekToFirst (block_ops cmp)", OF list_iterator.first_at [OF it c]]
      move [where f = "op_SeekToLast (block_ops cmp)", OF list_iterator.last_at [OF it c]]
    by (simp_all add: data_iter_ops_def Let_def)
  show "\<exists>d'. op_Seek (data_iter_ops cmp) target d = Some d' \<and> data_cursor kvs tk (seek_pos cmp target kvs) d'" if "valid target" for target
    using move [where f = "op_Seek (block_ops cmp) target", OF list_iterator.seek_at [OF it c that]] by (simp add: data_iter_ops_def Let_def)
qed

end

text \<open>Reading a stored block of a file that is there.\<close>

lemma read_stored:
  assumes "file_holds (ta_file t) bytes" "bytes = pre @ stored_block kNoCompression (block_bytes o' kvs) @ post"
    "bh_offset h = of_nat (length pre)" "bh_size h = of_nat (length (block_bytes o' kvs))" "length bytes < 2 ^ 32"
    "1 \<le> block_restart_interval o'" "ordered_by (opt_comparator o') kvs"
  shows "\<exists>b cachable. read_new_block t ropt h = Some (OK, Some (b, cachable)) \<and> is_block kvs b"
proof -
  obtain b where b: "Block (block_bytes o' kvs) = Some b" "is_block kvs b"
    using block_of_bytes [OF assms(6,7)] assms(2,5) by auto
  obtain x where "ReadBlock (ta_file t) port_snappy (ro_verify_checksums ropt) h =
      Some (OK, \<lparr>br_data = block_bytes o' kvs, br_cachable = x, br_heap_allocated = x\<rparr>)"
    using ReadBlock_stored [OF assms(1-4)] assms(5) by auto
  then show ?thesis using b by (simp add: read_new_block_def)
qed

subsection \<open>The blocks of a table, through the cache\<close>

context table_building
begin

definition content_of :: "(slice \<times> slice) list list \<Rightarrow> slice \<Rightarrow> (slice \<times> slice) list" where
  "content_of bs h = (case find (\<lambda>i. handle_bytes (handle_of dopts bs i) = h) [0..<length bs] of Some i \<Rightarrow> bs ! i | None \<Rightarrow> [])"

text \<open>What may be cached under a key, as far as this table is concerned.\<close>

definition good_block :: "table \<Rightarrow> (slice \<times> slice) list list \<Rightarrow> slice \<Rightarrow> block \<Rightarrow> bool" where
  "good_block t bs key b \<longleftrightarrow> (\<forall>i < length bs. key = cache_key t (handle_of dopts bs i) \<longrightarrow> is_block (bs ! i) b)"

text \<open>A table that was opened on a file with these blocks and separators.\<close>

definition serves :: "(slice \<times> slice) list list \<Rightarrow> slice list \<Rightarrow> table \<Rightarrow> bool" where
  "serves bs seps t \<longleftrightarrow> well_cut bs seps [] \<and> length seps = length bs \<and> length (table_file bs seps) < 2 ^ 32 \<and>
     ta_options t = opt \<and> file_holds (ta_file t) (table_file bs seps) \<and> is_block (index_pairs dopts bs seps) (ta_index_block t) \<and>
     (case (o_filter_policy opt, ta_filter t) of
        (Some pol, Some r) \<Rightarrow> \<exists>c. filter_contents bs pol = Some c \<and> FilterBlockReader c = Some r
      | _ \<Rightarrow> ta_filter t = None)"

lemma place_small: "serves bs seps t \<Longrightarrow> i \<le> length bs \<Longrightarrow> unat (of_nat (place dopts bs i) :: u64) = place dopts bs i"
  using block_place_le [of i bs dopts]
  by (intro unat_of_nat_id) (simp add: serves_def table_file_def up_to_index_def up_to_meta_def up_to_filter_def)

lemma handle_inj:
  assumes "serves bs seps t" "i < length bs" "j < length bs" "bh_offset (handle_of dopts bs i) = bh_offset (handle_of dopts bs j)"
  shows "i = j"
proof -
  have off: "unat (bh_offset (handle_of dopts bs k)) = place dopts bs k" if "k < length bs" for k
    using place_small [OF assms(1), of k] that unfolding handle_of_def by simp
  have e: "place dopts bs i = place dopts bs j" using off [OF assms(2)] off [OF assms(3)] unfolding assms(4) by simp
  have "\<not> i < j" "\<not> j < i" using place_less [of i j bs dopts] place_less [of j i bs dopts] assms(2,3) e by auto
  then show ?thesis by simp
qed

lemma content_at:
  assumes "serves bs seps t" "i < length bs"
  shows "content_of bs (handle_bytes (handle_of dopts bs i)) = bs ! i"
proof -
  have "(\<lambda>j. handle_bytes (handle_of dopts bs j) = handle_bytes (handle_of dopts bs i)) j \<longleftrightarrow> j = i" if "j < length bs" for j
    using handle_inj [OF assms(1) that assms(2)] handle_bytes_inj by metis
  then have "find (\<lambda>j. handle_bytes (handle_of dopts bs j) = handle_bytes (handle_of dopts bs i)) [0..<length bs] = Some i"
    using assms(2) by (auto simp: find_Some_iff intro!: exI [of _ i])
  then show ?thesis by (simp add: content_of_def)
qed

lemma body_split: "i < length bs \<Longrightarrow>
    body dopts bs = body dopts (take i bs) @ stored_block kNoCompression (block_bytes dopts (bs ! i)) @ body dopts (drop (Suc i) bs)"
proof -
  assume "i < length bs"
  then have "bs = take i bs @ [bs ! i] @ drop (Suc i) bs" using id_take_nth_drop [of i bs] by simp
  then have "body dopts bs = body dopts (take i bs @ [bs ! i] @ drop (Suc i) bs)" by (rule arg_cong)
  then show ?thesis by (simp only: body_simps append_assoc)
qed

lemma read_data_block:
  assumes "serves bs seps t" "i < length bs"
  shows "\<exists>b cachable. read_new_block t ropt (handle_of dopts bs i) = Some (OK, Some (b, cachable)) \<and> is_block (bs ! i) b"
proof -
  have s: "file_holds (ta_file t) (table_file bs seps)" "length (table_file bs seps) < 2 ^ 32" "well_cut bs seps []"
    using assms(1) by (simp_all add: serves_def)
  obtain post where "table_file bs seps = body dopts (take i bs) @ stored_block kNoCompression (block_bytes dopts (bs ! i)) @ post"
    using body_split [OF assms(2)] by (simp add: table_file_def up_to_index_def up_to_meta_def up_to_filter_def)
  then show ?thesis
    using read_stored [OF s(1), of "body dopts (take i bs)" dopts "bs ! i" _ "handle_of dopts bs i" ropt] s(2)
      well_cut_block [OF s(3), of "bs ! i"] assms(2) by (simp add: handle_of_def place_def)
qed

text \<open>
  What a table relies on of a block cache: under the keys of its blocks the cache holds these blocks and takes them. The
  cache may be shared with other tables, whose keys it holds too.
\<close>

definition keeps_blocks :: "('c, 'h) cache_ops \<Rightarrow> table \<Rightarrow> (slice \<times> slice) list list \<Rightarrow> ('h multiset \<Rightarrow> 'c \<Rightarrow> bool) \<Rightarrow> nat \<Rightarrow> bool" where
  "keeps_blocks ops t bs held room \<longleftrightarrow>
     (\<exists>good. cache_contract ops good held room \<and> (\<forall>i < length bs. \<forall>b. good (cache_key t (handle_of dopts bs i)) b \<longleftrightarrow> is_block (bs ! i) b))"

lemma good_block_at:
  assumes "serves bs seps t" "i < length bs"
  shows "good_block t bs (cache_key t (handle_of dopts bs i)) b \<longleftrightarrow> is_block (bs ! i) b"
  using handle_inj [OF assms(1) _ assms(2)] assms(2) unfolding good_block_def cache_key_def
  by (metis DecodeFixed_Encode(2) append_Nil2 append_same_eq same_append_eq option.inject)

lemma keeps_blocksI: "serves bs seps t \<Longrightarrow> cache_contract ops (good_block t bs) held room \<Longrightarrow> keeps_blocks ops t bs held room"
  unfolding keeps_blocks_def using good_block_at by blast

lemma find_block_at:
  assumes "serves bs seps t" "i < length bs" "\<And>ops. cache = Some ops \<Longrightarrow> keeps_blocks ops t bs held room"
    "cache_inv cache held T c" "size T < room"
  shows "\<exists>b tk c'. find_block cache t ropt (handle_of dopts bs i) c = Some (OK, Some (b, tk), c') \<and> is_block (bs ! i) b \<and>
    cache_inv cache held (add_mset tk T) c'"
proof -
  obtain b cachable where b: "read_new_block t ropt (handle_of dopts bs i) = Some (OK, Some (b, cachable))" "is_block (bs ! i) b"
    using read_data_block [OF assms(1,2)] by blast
  show ?thesis
  proof (cases cache)
    case None
    then show ?thesis using b assms(4) by (auto simp: find_block_def cache_inv_def)
  next
    case (Some ops)
    let ?key = "cache_key t (handle_of dopts bs i)"
    obtain good where C: "cache_contract ops good held room" "\<And>b. good ?key b \<longleftrightarrow> is_block (bs ! i) b"
      using assms(3) [OF Some] assms(2) unfolding keeps_blocks_def by blast
    have held: "held (handles T) c" using assms(4) Some by (simp add: cache_inv_def)
    have room: "size (handles T) < room" using assms(5) size_handles [of T] by linarith
    have good: "good ?key b" using b(2) C(2) by blast
    consider (miss) c1 where "ca_Lookup ops ?key c = Some (None, c1)" "held (handles T) c1"
      | (hit) h c1 b1 where "ca_Lookup ops ?key c = Some (Some h, c1)" "held (add_mset h (handles T)) c1"
          "ca_Value ops h c1 = Some b1" "good ?key b1"
      using cache_contract.lookup_holds [OF C(1) held room, of ?key] by blast
    then show ?thesis
    proof cases
      case miss
      show ?thesis
      proof (cases "cachable \<and> ro_fill_cache ropt")
        case True
        obtain h c2 where "ca_Insert ops ?key b (bl_size b) c1 = Some (h, c2)" "held (add_mset h (handles T)) c2"
          using cache_contract.insert_holds [OF C(1) miss(2) room good is_block_size [OF b(2)]] by blast
        then show ?thesis using Some miss(1) b True
          by (intro exI [of _ b] exI [of _ "Some h"] exI [of _ c2]) (simp add: find_block_def cache_inv_def)
      next
        case False
        then show ?thesis using Some miss b
          by (intro exI [of _ b] exI [of _ None] exI [of _ c1]) (auto simp: find_block_def cache_inv_def)
      qed
    next
      case hit
      have "is_block (bs ! i) b1" using hit(4) C(2) by blast
      then show ?thesis using Some hit
        by (intro exI [of _ b1] exI [of _ "Some h"] exI [of _ c1]) (simp add: find_block_def cache_inv_def)
    qed
  qed
qed

lemma BlockReader_at:
  assumes "serves bs seps t" "i < length bs" "\<And>ops. cache = Some ops \<Longrightarrow> keeps_blocks ops t bs held room"
    "cache_inv cache held T c" "size T < room"
  shows "\<exists>d tk c'. BlockReader cache t ropt (handle_bytes (handle_of dopts bs i)) c = Some (d, c') \<and>
    data_cursor (bs ! i) tk (length (bs ! i)) d \<and> cache_inv cache held (add_mset tk T) c'"
proof -
  obtain b tk c' where f: "find_block cache t ropt (handle_of dopts bs i) c = Some (OK, Some (b, tk), c')" "is_block (bs ! i) b"
    "cache_inv cache held (add_mset tk T) c'" using find_block_at [OF assms] by blast
  obtain L it where L: "ly_small L" "ly_kvs L = bs ! i" "map_option of_iter (NewIterator b) = Some it" "block_cursor L (length (bs ! i)) it"
    using is_block_iter [OF f(2)] by blast
  have d: "BlockHandle_DecodeFrom BlockHandle (handle_bytes (handle_of dopts bs i)) = (OK, handle_of dopts bs i, [])"
    using handle_bytes_decode [of BlockHandle "handle_of dopts bs i" "[]"] by simp
  obtain z where "NewIterator b = Some z" "of_iter z = it" using L(3) by auto
  then have "BlockReader cache t ropt (handle_bytes (handle_of dopts bs i)) c = Some (\<lparr>di_iter = it, di_cleanups = [cleanup_of tk]\<rparr>, c')"
    using f(1) by (simp add: BlockReader_def d cleanup_of_def)
  moreover have "data_cursor (bs ! i) tk (length (bs ! i)) \<lparr>di_iter = it, di_cleanups = [cleanup_of tk]\<rparr>"
    using L(1,2,4) by (auto simp: data_cursor_def pairs_cursor_def)
  ultimately show ?thesis using f(3) by blast
qed

lemma delete_data_at:
  assumes "\<And>ops. cache = Some ops \<Longrightarrow> keeps_blocks ops t bs held room" "cache_inv cache held (add_mset tk T) c" "di_cleanups d = [cleanup_of tk]"
  shows "\<exists>c'. delete_data_iter cache d c = Some c' \<and> cache_inv cache held T c'"
proof (cases tk)
  case None
  then show ?thesis using assms(2,3) by (auto simp: delete_data_iter_def cleanup_of_def cache_inv_def)
next
  case (Some h)
  then obtain ops where ops: "cache = Some ops" using assms(2) by (cases cache) (auto simp: cache_inv_def)
  then have h: "held (add_mset h (handles T)) c" using assms(2) Some by (simp add: cache_inv_def)
  obtain good where "cache_contract ops good held room" using assms(1) [OF ops] unfolding keeps_blocks_def by blast
  from cache_contract.release_holds [OF this h] obtain c' where "ca_Release ops h c = Some c'" "held (handles T) c'" by blast
  then show ?thesis using ops assms(3) Some by (simp add: delete_data_iter_def cleanup_of_def cache_inv_def)
qed

text \<open>The parts of a table's iterator keep the contract of the two-level iterator.\<close>

lemma table_contract:
  assumes "serves bs seps t" "\<And>ops. cache = Some ops \<Longrightarrow> keeps_blocks ops t bs held room"
  shows "two_level_contract cmp valid sep shorten (table_parts cache t ropt) (index_pairs dopts bs seps)
      (pairs_cursor (index_pairs dopts bs seps)) (content_of bs) (\<lambda>h. data_cursor (content_of bs h)) (cache_inv cache held) room"
    "\<exists>it. map_option of_iter (NewIterator (ta_index_block t)) = Some it \<and> pairs_cursor (index_pairs dopts bs seps) (length bs) it"
proof -
  have wc: "well_cut bs seps []" and len: "length seps = length bs" and o: "ta_options t = opt"
    and ib: "is_block (index_pairs dopts bs seps) (ta_index_block t)"
    using assms(1) by (simp_all add: serves_def)
  obtain Li it where L: "ly_small Li" "ly_kvs Li = index_pairs dopts bs seps" "map_option of_iter (NewIterator (ta_index_block t)) = Some it"
    "block_cursor Li (length bs) it" using is_block_iter [OF ib] len by auto
  then show "\<exists>it. map_option of_iter (NewIterator (ta_index_block t)) = Some it \<and> pairs_cursor (index_pairs dopts bs seps) (length bs) it"
    by (auto simp: pairs_cursor_def)
  have tc: "table_compare t = cmp" by (simp add: table_compare_def o comparator_of)
  have h: "\<exists>i < length bs. h = handle_bytes (handle_of dopts bs i)" if "h \<in> snd ` set (index_pairs dopts bs seps)" for h
    using that len by (auto simp: index_pairs_def)
  have content: "content_of bs (snd (index_pairs dopts bs seps ! i)) = bs ! i" if "i < length bs" for i
    using content_at [OF assms(1) that] that len by (simp add: index_pairs_nth)
  have "map (content_of bs \<circ> snd) (index_pairs dopts bs seps) = bs"
    using content len by (intro nth_equalityI) simp_all
  then have all: "concat (map (content_of bs \<circ> snd) (index_pairs dopts bs seps)) = concat bs" by simp
  show "two_level_contract cmp valid sep shorten (table_parts cache t ropt) (index_pairs dopts bs seps)
      (pairs_cursor (index_pairs dopts bs seps)) (content_of bs) (\<lambda>h. data_cursor (content_of bs h)) (cache_inv cache held) room"
  proof (intro two_level_contract.intro two_level_contract_axioms.intro)
    show "comparator cmp valid sep shorten" ..
    show "list_iterator (index_ops (table_parts cache t ropt)) cmp valid (index_pairs dopts bs seps)
        (pairs_cursor (index_pairs dopts bs seps))"
      using pairs_list_iterator [OF index_sorted [OF wc]] by (simp add: table_parts_def tc)
    show "kvs_sorted cmp valid (concat (map (content_of bs \<circ> snd) (index_pairs dopts bs seps)))"
      unfolding all using wc by (simp add: well_cut_def kvs_ok_def)
    fix hd assume H: "hd \<in> snd ` set (index_pairs dopts bs seps)"
    obtain i where i: "i < length bs" "hd = handle_bytes (handle_of dopts bs i)" using h [OF H] by blast
    have b: "content_of bs hd = bs ! i" using content_at [OF assms(1) i(1)] i(2) by simp
    have "kvs_sorted cmp valid (bs ! i)" using kvs_sorted_concat [of bs "bs ! i"] wc i(1) by (simp add: well_cut_def kvs_ok_def)
    then show "list_iterator (data_ops (table_parts cache t ropt)) cmp valid (content_of bs hd) (data_cursor (content_of bs hd) tk)" for tk
      using data_list_iterator by (simp add: table_parts_def tc b)
    show "\<exists>d s' tk j. block_function (table_parts cache t ropt) hd s = Some (d, s') \<and> data_cursor (content_of bs hd) tk j d \<and>
        cache_inv cache held (add_mset tk T) s'" if h: "size T < room" "cache_inv cache held T s" for T s
    proof -
      obtain d tk c' where "BlockReader cache t ropt hd s = Some (d, c')" "data_cursor (bs ! i) tk (length (bs ! i)) d"
        "cache_inv cache held (add_mset tk T) c'"
        using BlockReader_at [OF assms(1) i(1) assms(2) h(2,1)] unfolding i(2) by blast
      then show ?thesis unfolding b by (auto simp: table_parts_def)
    qed
    show "\<exists>s'. delete_data (table_parts cache t ropt) d s = Some s' \<and> cache_inv cache held T s'"
      if "data_cursor (content_of bs hd) tk j d" "cache_inv cache held (add_mset tk T) s" for tk j d T s
      using delete_data_at [OF assms(2) that(2)] that(1) by (simp add: table_parts_def data_cursor_def)
  next
    have sp: "separated bs seps []" using wc by (simp add: well_cut_def)
    show "valid sp" if "sp \<in> fst ` set (index_pairs dopts bs seps)" for sp
      using that sp by (auto simp: index_pairs_def separated_def)
    show "cmp (fst kv) (fst (index_pairs dopts bs seps ! i)) \<le> 0"
      if "i < length (index_pairs dopts bs seps)" "kv \<in> set (content_of bs (snd (index_pairs dopts bs seps ! i)))" for i kv
      using that sp content [of i] len by (auto simp: separated_def index_pairs_nth)
    show "cmp (fst (index_pairs dopts bs seps ! i)) (fst kv) < 0"
      if "j < length (index_pairs dopts bs seps)" "i < j" "kv \<in> set (content_of bs (snd (index_pairs dopts bs seps ! j)))" for i j kv
    proof -
      have "kv \<in> set (bs ! j)" "bs ! j \<in> set (drop (Suc i) bs)"
        using that content [of j] len in_set_conv_nth [of "bs ! j" "drop (Suc i) bs"] by (auto intro!: exI [of _ "j - Suc i"])
      then have "kv \<in> set (concat (drop (Suc i) bs) @ [])" by auto
      moreover have "i < length seps" using that(1,2) by simp
      ultimately show ?thesis using sp unfolding separated_def by (simp only: index_pairs_nth fst_conv)
    qed
  qed
qed

subsection \<open>Opening\<close>

lemma read_part:
  assumes "file_holds fread F" "F = pre @ stored_block kNoCompression c @ post" "length F < 2 ^ 32"
  shows "\<exists>b. ReadBlock fread port_snappy verify \<lparr>bh_offset = of_nat (length pre), bh_size = of_nat (length c)\<rparr> =
    Some (OK, \<lparr>br_data = c, br_cachable = b, br_heap_allocated = b\<rparr>)"
  using ReadBlock_stored [OF assms(1,2)] assms(3) by simp

lemma ReadFilter_reads:
  assumes "o_filter_policy opt = Some pol" "well_cut bs seps []" "file_holds (ta_file t) (table_file bs seps)"
    "length (table_file bs seps) < 2 ^ 32"
  shows "\<exists>c r. filter_contents bs pol = Some c \<and> FilterBlockReader c = Some r \<and>
    ReadFilter (handle_bytes (filter_handle bs pol)) t = Some (t\<lparr>ta_filter := Some r\<rparr>)"
proof -
  obtain c where c: "filter_contents bs pol = Some c" using filter_contents_size [OF assms(2,1)] by blast
  obtain r where r: "FilterBlockReader c = Some r" using FilterBlockReader_total by blast
  have h: "filter_handle bs pol = \<lparr>bh_offset = of_nat (length (body dopts bs)), bh_size = of_nat (length c)\<rparr>"
    using c by (simp add: filter_handle_def)
  have "table_file bs seps = body dopts bs @ stored_block kNoCompression c @ (stored_block kNoCompression (block_bytes dopts (meta_pairs bs)) @
      stored_block kNoCompression (block_bytes iopts (index_pairs dopts bs seps)) @ the (Footer_EncodeTo (file_footer bs seps) []))"
    using c assms(1) by (simp add: table_file_def up_to_index_def up_to_meta_def up_to_filter_def filter_part_def)
  then obtain b where "ReadBlock (ta_file t) port_snappy (o_paranoid_checks (ta_options t)) (filter_handle bs pol) =
      Some (OK, \<lparr>br_data = c, br_cachable = b, br_heap_allocated = b\<rparr>)"
    unfolding h using read_part [OF assms(3) _ assms(4)] by blast
  moreover have "BlockHandle_DecodeFrom BlockHandle (handle_bytes (filter_handle bs pol)) = (OK, filter_handle bs pol, [])"
    using handle_bytes_decode [of BlockHandle "filter_handle bs pol" "[]"] by simp
  ultimately show ?thesis using c r by (simp add: ReadFilter_def)
qed

lemma meta_seek:
  assumes "is_block [(k, v)] b"
  shows "\<exists>z it. NewIterator b = Some z \<and> op_Seek (block_ops Slice_compare) k (of_iter z) = Some it \<and>
    op_Valid (block_ops Slice_compare) it \<and> op_key (block_ops Slice_compare) it = Some k \<and>
    op_value (block_ops Slice_compare) it = Some v"
proof -
  obtain L z where L: "ly_small L" "ly_kvs L = [(k, v)]" "NewIterator b = Some z" "block_cursor L 1 (of_iter z)"
    using is_block_iter [OF assms] by auto
  have it: "list_iterator (block_ops Slice_compare) Slice_compare (\<lambda>_. True) [(k, v)] (block_cursor L)"
    using bytewise.block_list_iterator [OF L(1)] L(2) by (simp add: kvs_sorted_def)
  obtain it' where it': "op_Seek (block_ops Slice_compare) k (of_iter z) = Some it'"
    "block_cursor L (seek_pos Slice_compare k [(k, v)]) it'"
    using list_iterator.seek_at [OF it L(4)] by blast
  have "seek_pos Slice_compare k [(k, v)] = 0" by (simp add: seek_pos_def Slice_compare_self)
  then have c: "block_cursor L 0 it'" using it'(2) by simp
  show ?thesis
    using L(3) it'(1) list_iterator.valid_iff [OF it c] list_iterator.key_at [OF it c] list_iterator.value_at [OF it c] by simp
qed

lemma ReadMeta_reads:
  assumes "well_cut bs seps []" "file_holds (ta_file t) (table_file bs seps)" "length (table_file bs seps) < 2 ^ 32"
    "ta_options t = opt" "ta_filter t = None"
  shows "\<exists>t'. ReadMeta (file_footer bs seps) t = Some t' \<and> t' = t\<lparr>ta_filter := ta_filter t'\<rparr> \<and>
    (case (o_filter_policy opt, ta_filter t') of
        (Some pol, Some r) \<Rightarrow> \<exists>c. filter_contents bs pol = Some c \<and> FilterBlockReader c = Some r
      | _ \<Rightarrow> ta_filter t' = None)"
proof (cases "o_filter_policy opt")
  case None
  then show ?thesis using assms(4,5) by (intro exI [of _ t]) (simp add: ReadMeta_def)
next
  case (Some pol)
  let ?m = "block_bytes dopts (meta_pairs bs)"
  have F: "table_file bs seps = up_to_filter bs @ stored_block kNoCompression ?m @
      (stored_block kNoCompression (block_bytes iopts (index_pairs dopts bs seps)) @ the (Footer_EncodeTo (file_footer bs seps) []))"
    by (simp add: table_file_def up_to_index_def up_to_meta_def)
  obtain x where rd: "ReadBlock (ta_file t) port_snappy (o_paranoid_checks opt) (metaindex_handle (file_footer bs seps)) =
      Some (OK, \<lparr>br_data = ?m, br_cachable = x, br_heap_allocated = x\<rparr>)"
    using read_part [OF assms(2) F assms(3)] by (auto simp: file_footer_def)
  have m: "meta_pairs bs = [(filter_key pol, handle_bytes (filter_handle bs pol))]" using Some by (simp add: meta_pairs_def)
  have "length ?m < 2 ^ 32" using assms(3) F by simp
  then obtain b where b: "Block ?m = Some b" "is_block (meta_pairs bs) b"
    using block_of_bytes [of dopts "meta_pairs bs"] meta_ordered by auto
  obtain z it where z: "NewIterator b = Some z" "op_Seek (block_ops Slice_compare) (filter_key pol) (of_iter z) = Some it"
    "op_Valid (block_ops Slice_compare) it" "op_key (block_ops Slice_compare) it = Some (filter_key pol)"
    "op_value (block_ops Slice_compare) it = Some (handle_bytes (filter_handle bs pol))"
    using meta_seek [OF b(2) [unfolded m]] by blast
  obtain c r where c: "filter_contents bs pol = Some c" "FilterBlockReader c = Some r"
    "ReadFilter (handle_bytes (filter_handle bs pol)) t = Some (t\<lparr>ta_filter := Some r\<rparr>)"
    using ReadFilter_reads [OF Some assms(1-3)] by blast
  have "ReadMeta (file_footer bs seps) t = Some (t\<lparr>ta_filter := Some r\<rparr>)"
    using Some rd b(1) z c(3) by (simp add: ReadMeta_def assms(4))
  then show ?thesis using Some c(1,2) by simp
qed

lemma Open_serves:
  assumes "well_cut bs seps []" "length seps = length bs" "file_holds fread (table_file bs seps)"
    "length (table_file bs seps) < 2 ^ 32"
  shows "\<exists>t. Table_Open cache opt fread (of_nat (length (table_file bs seps))) c =
      Some (OK, Some t, (case cache of None \<Rightarrow> c | Some ops \<Rightarrow> snd (ca_NewId ops c))) \<and> serves bs seps t"
proof -
  let ?F = "table_file bs seps" and ?ib = "block_bytes iopts (index_pairs dopts bs seps)"
  obtain s where s: "Footer_EncodeTo (file_footer bs seps) [] = Some s" "length s = kEncodedLength"
    "Footer_DecodeFrom Footer (s @ []) = Some (OK, file_footer bs seps, [])"
    using footer_encoded [OF assms(1)] by blast
  have F: "?F = up_to_index bs seps @ s" using s(1) by (simp add: table_file_def)
  have k: "kEncodedLength = 48" by (simp add: kEncodedLength_def kMaxEncodedLength_def)
  have n: "unat (of_nat (length ?F) :: u64) = length ?F" using assms(4) by (intro unat_of_nat_id) simp
  have ge: "48 \<le> length ?F" using F s(2) k by simp
  have long: "\<not> (of_nat (length ?F) :: u64) < of_nat kEncodedLength"
    using n ge by (simp add: word_less_nat_alt k)
  have pos: "unat (of_nat (length ?F) - of_nat kEncodedLength :: u64) = length ?F - 48"
    using n ge by (simp add: k unat_sub word_le_nat_alt)
  define a where "a = fread (of_nat (length ?F) - of_nat kEncodedLength) (of_nat kEncodedLength)"
  have "unat (of_nat (length ?F) - of_nat kEncodedLength :: u64) + unat (of_nat kEncodedLength :: u64) \<le> length ?F"
    using pos ge by (simp add: k)
  then have a: "ra_status a = OK" "ra_contents a = take (unat (of_nat kEncodedLength :: u64)) (drop (unat (of_nat (length ?F) - of_nat kEncodedLength :: u64)) ?F)"
    using assms(3) unfolding file_holds_def a_def by blast+
  have "ra_contents a = s" unfolding a(2) pos using s(2) by (simp add: k F)
  note a = a(1) this
  have FI: "?F = up_to_meta bs @ stored_block kNoCompression ?ib @ s" by (simp add: F up_to_index_def)
  obtain x where rd: "ReadBlock fread port_snappy (o_paranoid_checks opt) (index_handle (file_footer bs seps)) =
      Some (OK, \<lparr>br_data = ?ib, br_cachable = x, br_heap_allocated = x\<rparr>)"
    using read_part [OF assms(3) FI assms(4)] by (auto simp: file_footer_def)
  have "length ?ib < 2 ^ 32" using assms(4) FI by simp
  then obtain b where b: "Block ?ib = Some b" "is_block (index_pairs dopts bs seps) b"
    using block_of_bytes [of iopts "index_pairs dopts bs seps"] sorted_ordered [OF index_sorted [OF assms(1)]] by auto
  let ?idc = "case cache of Some ops \<Rightarrow> ca_NewId ops c | None \<Rightarrow> (0, c)"
  let ?t0 = "\<lparr>ta_options = opt, ta_file = fread, ta_cache_id = fst ?idc, ta_filter = None,
      ta_metaindex_handle = metaindex_handle (file_footer bs seps), ta_index_block = b\<rparr>"
  obtain t where t: "ReadMeta (file_footer bs seps) ?t0 = Some t" "t = ?t0\<lparr>ta_filter := ta_filter t\<rparr>"
    "case (o_filter_policy opt, ta_filter t) of
        (Some pol, Some r) \<Rightarrow> \<exists>c. filter_contents bs pol = Some c \<and> FilterBlockReader c = Some r
      | _ \<Rightarrow> ta_filter t = None"
    using ReadMeta_reads [of bs seps ?t0] assms by auto
  have f: "ta_options t = opt" "ta_file t = fread" "ta_index_block t = b" by (subst t(2), simp)+
  have "serves bs seps t" using assms f b(2) t(3) by (simp add: serves_def)
  moreover have "Table_Open cache opt fread (of_nat (length ?F)) c = Some (OK, Some t, snd ?idc)"
    unfolding Table_Open_def Let_def a_def [symmetric]
    using long a s(3) rd b(1) t(1) by (simp add: split_beta)
  moreover have "snd ?idc = (case cache of None \<Rightarrow> c | Some ops \<Rightarrow> snd (ca_NewId ops c))" by (simp split: option.splits)
  ultimately show ?thesis by metis
qed

end

end
