(* ===== verification/Lv_Table_Get.thy ===== *)
theory Lv_Table_Get
  imports Lv_Table_Read
begin

section \<open>Iterating over a table and looking keys up in it\<close>

text \<open>
  An iterator of a table that serves the pairs \<open>kvs\<close> is a cursor in \<open>kvs\<close>, and gives back every handle of the cache it took;
  a lookup passes on the pair at the key's place in \<open>kvs\<close> or nothing, and never nothing when the key's own entry is there.
\<close>

subsection \<open>Filters\<close>

lemma KeyMayMatch_mono:
  assumes "KeyMayMatch may r pos key = Some True" "\<And>f. may key f \<Longrightarrow> may key' f"
  shows "KeyMayMatch may r pos key' = Some True"
  using assms by (auto simp: KeyMayMatch_def Let_def split: if_splits option.splits)

lemma KeyMayMatch_defined:
  "KeyMayMatch may r pos key \<noteq> None \<Longrightarrow> KeyMayMatch may r pos key' \<noteq> None"
  by (auto simp: KeyMayMatch_def Let_def split: if_splits option.splits)

context table_building
begin

lemma filter_passes:
  assumes "serves bs seps t" "o_filter_policy opt = Some pol" "ta_filter t = Some r" "i < length bs" "kv \<in> set (bs ! i)"
  shows "KeyMayMatch (fp_KeyMayMatch pol) r (bh_offset (handle_of dopts bs i)) (fst kv) = Some True"
proof -
  have wc: "well_cut bs seps []" and small: "length (table_file bs seps) < 2 ^ 32"
    and f: "\<exists>c. filter_contents bs pol = Some c \<and> FilterBlockReader c = Some r"
    using assms(1-3) by (simp_all add: serves_def)
  obtain c where c: "filter_contents bs pol = Some c" "FilterBlockReader c = Some r" using f by blast
  have "length c < 2 ^ 32" using small c(1) assms(2)
    by (simp add: table_file_def up_to_index_def up_to_meta_def up_to_filter_def filter_part_def)
  moreover have "length (concat (map snd (filter_calls dopts bs []))) \<le> cap"
    using wc by (simp add: filter_calls_keys well_cut_def kvs_ok_def)
  moreover have "\<forall>key \<in> set (concat (map snd (filter_calls dopts bs []))). valid key"
    using wc by (auto simp: filter_calls_keys well_cut_def kvs_ok_def kvs_sorted_def)
  moreover have "sorted (map (filter_index \<circ> fst) (filter_calls dopts bs []))"
    using sorted_filter_calls [of dopts bs "[]"] well_cut_size(1) [OF wc] by simp
  moreover have "(bh_offset (handle_of dopts bs i), map fst (bs ! i)) \<in> set (filter_calls dopts bs [])"
    using assms(4) by (auto simp: filter_calls_def handle_of_def)
  moreover have "fst kv \<in> set (map fst (bs ! i))" using assms(5) by simp
  ultimately show ?thesis
    using filter_policy.no_false_negatives [OF policy [OF assms(2)], of "filter_calls dopts bs []"] c
    by (fastforce simp: filter_contents_def)
qed

text \<open>What the filter says of a key: never an error, and \<open>False\<close> when a key that matches with it is in the block.\<close>

lemma filtered_out_at:
  assumes "serves bs seps t" "i < length bs"
  shows "\<exists>out. filtered_out t (handle_bytes (handle_of dopts bs i)) k = Some out \<and>
    ((\<exists>kv \<in> set (bs ! i). \<forall>pol f. o_filter_policy opt = Some pol \<longrightarrow> fp_KeyMayMatch pol (fst kv) f \<longrightarrow> fp_KeyMayMatch pol k f) \<longrightarrow> \<not> out)"
proof (cases "\<exists>r pol. ta_filter t = Some r \<and> o_filter_policy opt = Some pol")
  case False
  then have "filtered_out t (handle_bytes (handle_of dopts bs i)) k = Some False"
    using assms(1) by (auto simp: filtered_out_def serves_def split: option.splits)
  then show ?thesis by (intro exI [of _ False]) simp
next
  case True
  then obtain r pol where r: "ta_filter t = Some r" and pol: "o_filter_policy opt = Some pol" by blast
  note pass = filter_passes [OF assms(1) pol r assms(2)]
  let ?m = "KeyMayMatch (fp_KeyMayMatch pol) r (bh_offset (handle_of dopts bs i))"
  have d: "BlockHandle_DecodeFrom BlockHandle (handle_bytes (handle_of dopts bs i)) = (OK, handle_of dopts bs i, [])"
    using handle_bytes_decode [of BlockHandle "handle_of dopts bs i" "[]"] by simp
  have out: "filtered_out t (handle_bytes (handle_of dopts bs i)) k = map_option Not (?m k)"
    using assms(1) r pol d by (simp add: filtered_out_def serves_def)
  have "bs ! i \<noteq> []" using assms well_cut_block [of bs seps "[]" "bs ! i"] by (simp add: serves_def)
  then obtain kv0 where "?m (fst kv0) = Some True" using pass [of "hd (bs ! i)"] by auto
  then obtain m where m: "?m k = Some m" using KeyMayMatch_defined [of "fp_KeyMayMatch pol" r _ "fst kv0" k] by force
  moreover have "?m k = Some True"
    if "kv \<in> set (bs ! i)" "\<forall>f. fp_KeyMayMatch pol (fst kv) f \<longrightarrow> fp_KeyMayMatch pol k f" for kv
    using KeyMayMatch_mono [OF pass [OF that(1)]] that(2) by blast
  ultimately show ?thesis unfolding out using pol by fastforce
qed

subsection \<open>Iterating\<close>

theorem table_iterates:
  assumes "serves bs seps t" "\<And>ops. cache = Some ops \<Longrightarrow> keeps_blocks ops t bs held room"
  shows "\<exists>R. (\<forall>T. list_iterator (two_level_ops (table_parts cache t ropt)) cmp valid (concat bs) (R T)) \<and>
    (\<forall>T c. cache_inv cache held T c \<and> size T + 1 < room \<longrightarrow>
       (\<exists>it. Table_NewIterator cache t ropt = Some it \<and> R T (length (concat bs)) (it, c))) \<and>
    (\<forall>T j st. R T j st \<longrightarrow> (\<exists>c. TwoLevel_destroy (table_parts cache t ropt) st = Some c \<and> cache_inv cache held T c))"
proof -
  have C: "two_level_contract cmp valid sep shorten (table_parts cache t ropt) (index_pairs dopts bs seps)
      (pairs_cursor (index_pairs dopts bs seps)) (content_of bs) (\<lambda>h. data_cursor (content_of bs h)) (cache_inv cache held) room"
    by (rule table_contract(1) [OF assms(1)]) (rule assms(2))
  obtain it where it: "map_option of_iter (NewIterator (ta_index_block t)) = Some it" "pairs_cursor (index_pairs dopts bs seps) (length bs) it"
    using table_contract(2) [OF assms] by blast
  have len: "length seps = length bs" using assms(1) by (simp add: serves_def)
  have "map (content_of bs \<circ> snd) (index_pairs dopts bs seps) = bs"
    using content_at [OF assms(1)] len by (intro nth_equalityI) (simp_all add: index_pairs_nth)
  then have all: "two_level_contract.all_kvs (index_pairs dopts bs seps) (content_of bs) = concat bs"
    by (simp add: two_level_contract.all_kvs_def [OF C])
  let ?R = "two_level_contract.at (index_pairs dopts bs seps) (pairs_cursor (index_pairs dopts bs seps)) (content_of bs)
      (\<lambda>h. data_cursor (content_of bs h)) (cache_inv cache held) room"
  have "\<exists>it. Table_NewIterator cache t ropt = Some it \<and> ?R T (length (concat bs)) (it, c)" if h: "cache_inv cache held T c" "size T + 1 < room" for T c
    using two_level_contract.start_at [OF C _ h, of it] it len by (auto simp: all Table_NewIterator_def)
  then show ?thesis
    using two_level_contract.two_level_iterates [OF C] two_level_contract.destroy_at [OF C] unfolding all by blast
qed

subsection \<open>Lookups\<close>

theorem InternalGet_serves:
  assumes "serves bs seps t" "\<And>ops. cache = Some ops \<Longrightarrow> keeps_blocks ops t bs held room"
    "cache_inv cache held T c" "valid k" "size T < room"
  defines "j \<equiv> seek_pos cmp k (concat bs)"
  shows "\<exists>saved c'. InternalGet cache t ropt k c = Some (OK, saved, c') \<and> cache_inv cache held T c' \<and>
    (\<forall>x. saved = Some x \<longrightarrow> j < length (concat bs) \<and> x = concat bs ! j) \<and>
    (j < length (concat bs) \<and>
     (\<forall>pol f. o_filter_policy opt = Some pol \<longrightarrow> fp_KeyMayMatch pol (fst (concat bs ! j)) f \<longrightarrow> fp_KeyMayMatch pol k f) \<and>
     (\<forall>a s. valid a \<and> cmp a k < 0 \<and> sep a (fst (concat bs ! j)) = Some s \<longrightarrow> cmp s k < 0) \<longrightarrow>
       saved = Some (concat bs ! j))"
proof -
  have wc: "well_cut bs seps []" and len: "length seps = length bs" and o: "ta_options t = opt"
    and ib: "is_block (index_pairs dopts bs seps) (ta_index_block t)"
    using assms(1) by (simp_all add: serves_def)
  have tc: "table_compare t = cmp" by (simp add: table_compare_def o comparator_of)
  let ?ikvs = "index_pairs dopts bs seps" and ?iops = "block_ops cmp" and ?dops = "data_iter_ops cmp :: 'h data_iter iterator_ops"
  have C: "two_level_contract cmp valid sep shorten (table_parts cache t ropt) ?ikvs (pairs_cursor ?ikvs) (content_of bs)
      (\<lambda>h. data_cursor (content_of bs h)) (cache_inv cache held) room"
    by (rule table_contract(1) [OF assms(1)]) (rule assms(2))
  obtain it0 where it0: "map_option of_iter (NewIterator (ta_index_block t)) = Some it0" "pairs_cursor ?ikvs (length bs) it0"
    using table_contract(2) [OF assms(1,2)] by blast
  have ixl: "list_iterator ?iops cmp valid ?ikvs (pairs_cursor ?ikvs)"
    using two_level_contract.axioms(2) [OF C] by (simp add: table_parts_def tc)
  define i where "i = seek_pos cmp k ?ikvs"
  obtain it where it: "op_Seek ?iops k it0 = Some it" "pairs_cursor ?ikvs i it"
    using list_iterator.seek_at [OF ixl it0(2) assms(4)] by (auto simp: i_def)
  have st: "op_status ?iops it = OK" "op_Valid ?iops it \<longleftrightarrow> i < length bs"
    using list_iterator.status_ok [OF ixl it(2)] list_iterator.valid_iff [OF ixl it(2)] len by simp_all
  have content: "map (content_of bs \<circ> snd) ?ikvs = bs"
    using content_at [OF assms(1)] len by (intro nth_equalityI) (simp_all add: index_pairs_nth)
  then have all: "two_level_contract.all_kvs ?ikvs (content_of bs) = concat bs"
    by (simp add: two_level_contract.all_kvs_def [OF C])
  have blk: "two_level_contract.blk ?ikvs (content_of bs) i = bs ! i" if "i < length bs"
    using that content_at [OF assms(1) that] len by (simp add: two_level_contract.blk_def [OF C] index_pairs_nth)
  let ?before = "two_level_contract.before ?ikvs (content_of bs) i"
  have j: "j = (if i < length bs then ?before + seek_pos cmp k (bs ! i) else length (concat bs))"
    using two_level_contract.seek_pos_all [OF C assms(4)] blk len by (auto simp: j_def i_def [symmetric] all Let_def)
  show ?thesis
  proof (cases "i < length bs")
    case False
    then have "InternalGet cache t ropt k c = Some (OK, None, c)"
      using it0(1) it(1) st by (auto simp: InternalGet_def tc)
    then show ?thesis using assms(3) False j by auto
  next
    case True
    define q where "q = seek_pos cmp k (bs ! i)"
    have hv: "op_value ?iops it = Some (handle_bytes (handle_of dopts bs i))"
      using list_iterator.value_at [OF ixl it(2)] True len by (simp add: index_pairs_nth)
    obtain out where out: "filtered_out t (handle_bytes (handle_of dopts bs i)) k = Some out"
      "(\<exists>kv \<in> set (bs ! i). \<forall>pol f. o_filter_policy opt = Some pol \<longrightarrow> fp_KeyMayMatch pol (fst kv) f \<longrightarrow> fp_KeyMayMatch pol k f) \<longrightarrow> \<not> out"
      using filtered_out_at [OF assms(1) True] by blast
    obtain d0 tk c1 where d0: "BlockReader cache t ropt (handle_bytes (handle_of dopts bs i)) c = Some (d0, c1)"
      "data_cursor (bs ! i) tk (length (bs ! i)) d0" "cache_inv cache held (add_mset tk T) c1"
      using BlockReader_at [OF assms(1) True assms(2,3,5)] by blast
    have "kvs_sorted cmp valid (bs ! i)" using kvs_sorted_concat [of bs "bs ! i"] wc True by (simp add: well_cut_def kvs_ok_def)
    then have dl: "list_iterator ?dops cmp valid (bs ! i) (data_cursor (bs ! i) tk)" by (rule data_list_iterator)
    obtain d where d: "op_Seek ?dops k d0 = Some d" "data_cursor (bs ! i) tk q d"
      using list_iterator.seek_at [OF dl d0(2) assms(4)] by (auto simp: q_def)
    obtain c2 where c2: "delete_data_iter cache d c1 = Some c2" "cache_inv cache held T c2"
      using delete_data_at [OF assms(2) d0(3)] d(2) by (auto simp: data_cursor_def)
    have ds: "op_status ?dops d = OK" "op_Valid ?dops d \<longleftrightarrow> q < length (bs ! i)"
      using list_iterator.status_ok [OF dl d(2)] list_iterator.valid_iff [OF dl d(2)] by simp_all
    have pair: "op_key ?dops d = Some (fst (bs ! i ! q))" "op_value ?dops d = Some (snd (bs ! i ! q))" if "q < length (bs ! i)"
      using list_iterator.key_at [OF dl d(2) that] list_iterator.value_at [OF dl d(2) that] .
    have get: "InternalGet cache t ropt k c =
        (if out then Some (OK, None, c) else Some (OK, if q < length (bs ! i) then Some (bs ! i ! q) else None, c2))"
      using it0(1) it(1) st True hv out(1) d0(1) d(1) ds c2(1) pair by (auto simp: InternalGet_def tc)
    have jq: "j = ?before + q" using j True by (simp add: q_def)
    have at_q: "j < length (concat bs) \<and> concat bs ! j = bs ! i ! q" if "q < length (bs ! i)"
      using two_level_contract.all_nth [OF C] two_level_contract.all_nth_less [OF C] True that len blk jq by (simp add: all)
    have hit: "q < length (bs ! i)"
      if "j < length (concat bs)" "\<forall>a s. valid a \<and> cmp a k < 0 \<and> sep a (fst (concat bs ! j)) = Some s \<longrightarrow> cmp s k < 0"
    proof (rule ccontr)
      assume "\<not> q < length (bs ! i)"
      then have q: "takeWhile (\<lambda>kv. cmp (fst kv) k < 0) (bs ! i) = bs ! i"
        unfolding q_def seek_pos_def by (metis linorder_not_le takeWhile_eq_take take_all)
      then have ql: "q = length (bs ! i)" unfolding q_def seek_pos_def by (rule arg_cong)
      let ?rest = "concat (drop (Suc i) bs)"
      have before: "?before = length (concat (take i bs))"
        unfolding two_level_contract.before_def [OF C] by (metis content take_map)
      have split: "concat bs = concat (take i bs) @ bs ! i @ ?rest"
        using arg_cong [OF id_take_nth_drop [OF True], of concat] by simp
      define head where "head = concat (take i bs) @ bs ! i"
      have h: "concat bs = head @ ?rest" "j = length head" using split jq ql before by (simp_all add: head_def)
      then have "?rest \<noteq> []" using that(1) by auto
      then have ne: "?rest \<noteq> []" "concat bs ! j = hd ?rest" unfolding h by (simp_all add: nth_append hd_conv_nth)
      have "bs ! i \<noteq> []" using well_cut_block [OF wc] True by simp
      then have lt: "cmp (fst (last (bs ! i))) k < 0" "last (bs ! i) \<in> set (bs ! i)" using q by (metis last_in_set set_takeWhileD)+
      have v: "valid (fst (last (bs ! i)))" using \<open>kvs_sorted cmp valid (bs ! i)\<close> lt(2) by (auto simp: kvs_sorted_def)
      have "sep (fst (last (bs ! i))) (fst (hd ?rest)) = Some (seps ! i)"
        using wc True len ne(1) by (simp add: well_cut_def cut_by_def)
      then have "cmp (seps ! i) k < 0" using that(2) lt(1) v ne(2) by auto
      moreover have "\<not> cmp (fst (?ikvs ! i)) k < 0"
        using nth_length_takeWhile [of "\<lambda>kv. cmp (fst kv) k < 0" ?ikvs] True len by (simp add: i_def seek_pos_def)
      ultimately show False using True len by (simp add: index_pairs_nth)
    qed
    have "\<not> out" if "j < length (concat bs)" "q < length (bs ! i)"
      "\<forall>pol f. o_filter_policy opt = Some pol \<longrightarrow> fp_KeyMayMatch pol (fst (concat bs ! j)) f \<longrightarrow> fp_KeyMayMatch pol k f"
      using out(2) that at_q by (metis nth_mem)
    note no = this
    show ?thesis
    proof (cases out)
      case True
      then have "InternalGet cache t ropt k c = Some (OK, None, c)" using get by simp
      then show ?thesis using assms(3) no hit True by blast
    next
      case False
      let ?saved = "if q < length (bs ! i) then Some (bs ! i ! q) else None"
      have "InternalGet cache t ropt k c = Some (OK, ?saved, c2)" using get False by simp
      moreover have "x = concat bs ! j \<and> j < length (concat bs)" if "?saved = Some x" for x
        using at_q that by (simp split: if_splits)
      moreover have "?saved = Some (concat bs ! j)" if "q < length (bs ! i)" using at_q [OF that] that by simp
      ultimately show ?thesis using c2(2) hit by blast
    qed
  qed
qed

end

end
