(* ===== verification/Lv_Cache_Blocks.thy ===== *)
theory Lv_Cache_Blocks
  imports Lv_Cache_Shared Lv_Table_Get
begin

section \<open>The LRU cache keeps the contract of a block cache\<close>

text \<open>The virtual functions of the cache over blocks. Deleter 0 is \<^verbatim>\<open>DeleteCachedBlock\<close>.\<close>

definition lru_block_cache :: "(block sharded_cache, nat) cache_ops" where
  "lru_block_cache =
     \<lparr>ca_NewId = cache_NewId, ca_Lookup = cache_Lookup, ca_Value = cache_Value,
      ca_Insert = (\<lambda>key b n. cache_Insert key b (of_nat n) 0), ca_Release = cache_Release,
      ca_Erase = cache_Erase, ca_Prune = cache_Prune, ca_TotalCharge = cache_TotalCharge\<rparr>"

lemma lru_block_cache_sel [simp]: "ca_NewId lru_block_cache = cache_NewId" "ca_Lookup lru_block_cache = cache_Lookup"
  "ca_Value lru_block_cache = cache_Value" "ca_Insert lru_block_cache = (\<lambda>key b n. cache_Insert key b (of_nat n) 0)"
  "ca_Release lru_block_cache = cache_Release"
  by (simp_all add: lru_block_cache_def)

interpretation lru_blocks: cache_contract lru_block_cache good "cache_held good" "2 ^ 30 - 1" for good
proof unfold_locales
  fix T c key assume h: "cache_held good T c" "size T < 2 ^ 30 - 1"
  then show "(\<exists>c'. ca_Lookup lru_block_cache key c = Some (None, c') \<and> cache_held good T c') \<or>
    (\<exists>h c' b. ca_Lookup lru_block_cache key c = Some (Some h, c') \<and> cache_held good (add_mset h T) c' \<and>
       ca_Value lru_block_cache h c' = Some b \<and> good key b)"
    using cache_Lookup_spec [OF h(1), of key] by auto
next
  fix T c key b and n :: nat
  assume h: "cache_held good T c" "size T < 2 ^ 30 - 1" "good key b" "0 < n" "n < 2 ^ 32"
  have u: "unat (of_nat n :: u64) = n" using h(5) by (intro unat_of_nat_id) simp
  have "0 < unat (of_nat n :: u64)" unfolding u by (rule h(4))
  then have "0 < (of_nat n :: u64)" by (simp only: word_gt_0 unat_gt_0 not_False_eq_True)
  then show "\<exists>h c'. ca_Insert lru_block_cache key b n c = Some (h, c') \<and> cache_held good (add_mset h T) c'"
    using cache_Insert_spec [where deleter = 0 and key = key and v = b and charge = "of_nat n", OF h(1) _ h(3)] h(2,5) u by auto
next
  fix h T c assume "cache_held good (add_mset h T) c"
  then show "\<exists>c'. ca_Release lru_block_cache h c = Some c' \<and> cache_held good T c'" using cache_Release_spec by fastforce
qed

end
