(* ===== verification/Lv_Env.thy ===== *)
theory Lv_Env
  imports Lv_Table_Builder
begin

unbundle bit_operations_syntax

section \<open>Files on a POSIX system (leveldb util/env_posix)\<close>

text \<open>
  The four classes of files, the limiter and the table of locked files. The system is a state \<open>'o\<close> with the calls of the C
  library and of the kernel, which are parameters: streams and descriptors are numbers. \<open>None\<close> is undefined behaviour.
  Locks on mutexes are not modelled: an operation is a step of its own.
\<close>

record 'o posix =
  os_fread :: "nat \<Rightarrow> nat \<Rightarrow> 'o \<Rightarrow> slice \<times> 'o"
  os_feof :: "nat \<Rightarrow> 'o \<Rightarrow> bool"
  os_fseek_cur :: "nat \<Rightarrow> u64 \<Rightarrow> 'o \<Rightarrow> int \<times> 'o"
  os_fwrite :: "nat \<Rightarrow> slice \<Rightarrow> 'o \<Rightarrow> nat \<times> 'o"
  os_fflush :: "nat \<Rightarrow> 'o \<Rightarrow> int \<times> 'o"
  os_fclose :: "nat \<Rightarrow> 'o \<Rightarrow> int \<times> 'o"
  os_fdatasync :: "nat \<Rightarrow> 'o \<Rightarrow> int \<times> 'o"
  os_open :: "slice \<Rightarrow> 'o \<Rightarrow> int \<times> 'o"
  os_close :: "int \<Rightarrow> 'o \<Rightarrow> 'o"
  os_fsync :: "int \<Rightarrow> 'o \<Rightarrow> int \<times> 'o"
  os_pread :: "int \<Rightarrow> nat \<Rightarrow> u64 \<Rightarrow> 'o \<Rightarrow> slice option \<times> 'o"
  os_errno :: "'o \<Rightarrow> int"
  os_strerror :: "int \<Rightarrow> slice"

definition EINVAL :: int where "EINVAL = 22"

definition posix_error :: "'o posix \<Rightarrow> slice \<Rightarrow> int \<Rightarrow> status" where
  "posix_error os context err = IOError context (os_strerror os err)"

subsection \<open>Limiters\<close>

text \<open>The number of resources that may still be taken is a signed word.\<close>

definition Limiter_Acquire :: "u64 \<Rightarrow> bool \<times> u64" where
  "Limiter_Acquire allowed = (if allowed <=s 0 then (False, allowed) else (True, allowed - 1))"

definition Limiter_Release :: "u64 \<Rightarrow> u64" where "Limiter_Release allowed = allowed + 1"

subsection \<open>Reading in sequence\<close>

definition Sequential_Read :: "'o posix \<Rightarrow> slice \<Rightarrow> nat \<Rightarrow> nat \<Rightarrow> 'o \<Rightarrow> status \<times> slice \<times> 'o" where
  "Sequential_Read os filename file n o1 =
     (let (result, o2) = os_fread os file n o1 in
      (if length result < n \<and> \<not> os_feof os file o2 then posix_error os filename (os_errno os o2) else OK, result, o2))"

definition Sequential_Skip :: "'o posix \<Rightarrow> slice \<Rightarrow> nat \<Rightarrow> u64 \<Rightarrow> 'o \<Rightarrow> status \<times> 'o" where
  "Sequential_Skip os filename file n o1 =
     (let (r, o2) = os_fseek_cur os file n o1 in (if r \<noteq> 0 then posix_error os filename (os_errno os o2) else OK, o2))"

subsection \<open>Reading at random\<close>

text \<open>With \<^verbatim>\<open>pread\<close>: the descriptor is kept when the limiter allows it, and else the file is opened for each read.\<close>

record pread_file =
  pf_filename :: slice
  pf_temporary_fd :: bool
  pf_fd :: int

definition PosixRandomAccessFile :: "'o posix \<Rightarrow> slice \<Rightarrow> int \<Rightarrow> u64 \<Rightarrow> 'o \<Rightarrow> pread_file \<times> u64 \<times> 'o" where
  "PosixRandomAccessFile os fname fd allowed o1 =
     (let (acquired, allowed1) = Limiter_Acquire allowed in
      if \<not> acquired then (\<lparr>pf_filename = fname, pf_temporary_fd = True, pf_fd = -1\<rparr>, allowed1, os_close os fd o1)
      else (\<lparr>pf_filename = fname, pf_temporary_fd = False, pf_fd = fd\<rparr>, allowed1, o1))"

definition Pread_destroy :: "'o posix \<Rightarrow> pread_file \<Rightarrow> u64 \<Rightarrow> 'o \<Rightarrow> u64 \<times> 'o" where
  "Pread_destroy os f allowed o1 =
     (if \<not> pf_temporary_fd f then (Limiter_Release allowed, os_close os (pf_fd f) o1) else (allowed, o1))"

text \<open>A result that was not assigned is \<open>None\<close>.\<close>

definition Pread_Read :: "'o posix \<Rightarrow> pread_file \<Rightarrow> u64 \<Rightarrow> nat \<Rightarrow> 'o \<Rightarrow> status \<times> slice option \<times> 'o" where
  "Pread_Read os f offset n o1 =
     (let (fd, o2) = (if pf_temporary_fd f then os_open os (pf_filename f) o1 else (pf_fd f, o1)) in
      if pf_temporary_fd f \<and> fd < 0 then (posix_error os (pf_filename f) (os_errno os o2), None, o2)
      else
        let (r, o3) = os_pread os fd n offset o2;
            s = (if r = None then posix_error os (pf_filename f) (os_errno os o3) else OK);
            o4 = (if pf_temporary_fd f then os_close os fd o3 else o3) in
        (s, Some (case r of None \<Rightarrow> [] | Some bytes \<Rightarrow> bytes), o4))"

text \<open>With \<^verbatim>\<open>mmap\<close>: the bytes of the file are at an address. A slice that reaches outside of them is \<open>None\<close>.\<close>

record mmap_file =
  mm_filename :: slice
  mm_base :: u64
  mm_bytes :: slice

definition Mmap_Read :: "'o posix \<Rightarrow> mmap_file \<Rightarrow> u64 \<Rightarrow> u64 \<Rightarrow> read_answer option" where
  "Mmap_Read os f offset n =
     (if of_nat (length (mm_bytes f)) < offset + n
      then Some \<lparr>ra_status = posix_error os (mm_filename f) EINVAL, ra_contents = [], ra_addr = 0, ra_in_buffer = False\<rparr>
      else if unat offset + unat n \<le> length (mm_bytes f)
      then Some \<lparr>ra_status = OK, ra_contents = take (unat n) (drop (unat offset) (mm_bytes f)), ra_addr = mm_base f + offset,
        ra_in_buffer = False\<rparr>
      else None)"

text \<open>The file as an object that answers reads, where they are defined.\<close>

definition mmap_reads :: "'o posix \<Rightarrow> mmap_file \<Rightarrow> file_read" where
  "mmap_reads os f = (\<lambda>offset n. the (Mmap_Read os f offset n))"

subsection \<open>Writing\<close>

definition Writable_Append :: "'o posix \<Rightarrow> slice \<Rightarrow> nat \<Rightarrow> slice \<Rightarrow> 'o \<Rightarrow> status \<times> 'o" where
  "Writable_Append os filename file data o1 =
     (let (r, o2) = os_fwrite os file data o1 in
      (if r \<noteq> length data then posix_error os filename (os_errno os o2) else OK, o2))"

definition Writable_Flush :: "'o posix \<Rightarrow> slice \<Rightarrow> nat \<Rightarrow> 'o \<Rightarrow> status \<times> 'o" where
  "Writable_Flush os filename file o1 =
     (let (r, o2) = os_fflush os file o1 in (if r \<noteq> 0 then posix_error os filename (os_errno os o2) else OK, o2))"

text \<open>Closing sets the stream to \<^verbatim>\<open>NULL\<close>; the destructor closes a stream that is still open.\<close>

definition Writable_Close :: "'o posix \<Rightarrow> slice \<Rightarrow> nat \<Rightarrow> 'o \<Rightarrow> status \<times> nat option \<times> 'o" where
  "Writable_Close os filename file o1 =
     (let (r, o2) = os_fclose os file o1 in (if r \<noteq> 0 then posix_error os filename (os_errno os o2) else OK, None, o2))"

definition Writable_destroy :: "'o posix \<Rightarrow> nat option \<Rightarrow> 'o \<Rightarrow> 'o" where
  "Writable_destroy os file o1 = (case file of Some f \<Rightarrow> snd (os_fclose os f o1) | None \<Rightarrow> o1)"

text \<open>The directory and the last part of a name.\<close>

definition split_path :: "slice \<Rightarrow> slice \<times> slice" where
  "split_path f =
     (if of_char CHR ''/'' \<notin> set f then (chars ''.'', f)
      else let base = rev (takeWhile (\<lambda>c. c \<noteq> of_char CHR ''/'') (rev f)) in (take (length f - length base - 1) f, base))"

definition SyncDirIfManifest :: "'o posix \<Rightarrow> slice \<Rightarrow> 'o \<Rightarrow> status \<times> 'o" where
  "SyncDirIfManifest os filename o1 =
     (let (dir, basename) = split_path filename in
      if starts_with basename (chars ''MANIFEST'')
      then
        let (fd, o2) = os_open os dir o1 in
        if fd < 0 then (posix_error os dir (os_errno os o2), o2)
        else
          let (r, o3) = os_fsync os fd o2 in
          (if r < 0 then posix_error os dir (os_errno os o3) else OK, os_close os fd o3)
      else (OK, o1))"

definition Writable_Sync :: "'o posix \<Rightarrow> slice \<Rightarrow> nat \<Rightarrow> 'o \<Rightarrow> status \<times> 'o" where
  "Writable_Sync os filename file o1 =
     (let (s, o2) = SyncDirIfManifest os filename o1 in
      if s \<noteq> OK then (s, o2)
      else
        let (r, o3) = os_fflush os file o2 in
        if r \<noteq> 0 then (posix_error os filename (os_errno os o3), o3)
        else
          let (r, o4) = os_fdatasync os file o3 in
          (if r \<noteq> 0 then posix_error os filename (os_errno os o4) else OK, o4))"

text \<open>The file as an object of the interface that the table builder uses.\<close>

definition posix_writable_file :: "'o posix \<Rightarrow> slice \<Rightarrow> nat \<Rightarrow> 'o writable_file" where
  "posix_writable_file os filename file =
     \<lparr>wf_Append = Writable_Append os filename file, wf_Flush = Writable_Flush os filename file\<rparr>"

subsection \<open>Locked files\<close>

text \<open>The names this process has locked.\<close>

definition LockTable_Insert :: "slice \<Rightarrow> slice set \<Rightarrow> bool \<times> slice set" where
  "LockTable_Insert fname locked = (fname \<notin> locked, insert fname locked)"

definition LockTable_Remove :: "slice \<Rightarrow> slice set \<Rightarrow> slice set" where "LockTable_Remove fname locked = locked - {fname}"

subsection \<open>What the files promise\<close>

text \<open>
  The documented behaviour of a stream: \<^verbatim>\<open>fwrite\<close> returns the number of bytes it wrote, all of them in order, and flushing
  the stream writes nothing else. \<open>stored o1\<close> are the bytes written so far.
\<close>

definition stream_ok :: "'o posix \<Rightarrow> nat \<Rightarrow> ('o \<Rightarrow> slice) \<Rightarrow> bool" where
  "stream_ok os file stored \<longleftrightarrow>
     (\<forall>o1 data n o2. os_fwrite os file data o1 = (n, o2) \<longrightarrow> stored o2 = stored o1 @ take n data) \<and>
     (\<forall>o1 r o2. os_fflush os file o1 = (r, o2) \<longrightarrow> stored o2 = stored o1)"

lemma posix_appends:
  assumes "stream_ok os file stored"
  shows "wf_Append (posix_writable_file os name file) s f = (OK, f') \<Longrightarrow> stored f' = stored f @ s"
    "wf_Flush (posix_writable_file os name file) f = (OK, f') \<Longrightarrow> stored f' = stored f"
  using assms by (auto simp: stream_ok_def posix_writable_file_def Writable_Append_def Writable_Flush_def posix_error_def
      split: prod.splits if_splits)

lemma mmap_file_holds:
  assumes "unat (mm_base f) + length (mm_bytes f) + 3 < 2 ^ 64"
  shows "file_holds (mmap_reads os f) (mm_bytes f)"
  unfolding file_holds_def
proof (intro allI impI)
  fix i n :: u64 assume i: "unat i + unat n \<le> length (mm_bytes f)"
  have "unat (i + n) = unat i + unat n" using i assms by (simp add: unat_plus_if')
  moreover have l: "unat (of_nat (length (mm_bytes f)) :: u64) = length (mm_bytes f)" using assms by (intro unat_of_nat_id) simp
  ultimately have "\<not> of_nat (length (mm_bytes f)) < i + n" using i by (simp add: word_less_nat_alt)
  moreover have "unat (mm_base f + i) = unat (mm_base f) + unat i" using i assms by (simp add: unat_plus_if')
  ultimately show "ra_status (mmap_reads os f i n) = OK \<and>
      ra_contents (mmap_reads os f i n) = take (unat n) (drop (unat i) (mm_bytes f)) \<and> answer_placed (mmap_reads os f i n)"
    using i assms by (simp add: mmap_reads_def Mmap_Read_def answer_placed_def)
qed

text \<open>Reading is undefined exactly where the sum in the check wraps around to a number that passes it.\<close>

lemma mmap_read_undefined:
  assumes "length (mm_bytes f) < 2 ^ 63"
  shows "Mmap_Read os f offset n = None \<longleftrightarrow>
    2 ^ 64 \<le> unat offset + unat n \<and> unat offset + unat n - 2 ^ 64 \<le> length (mm_bytes f)"
proof -
  have l: "unat (of_nat (length (mm_bytes f)) :: u64) = length (mm_bytes f)" using assms by (intro unat_of_nat_id) simp
  have "unat offset < 2 ^ 64" "unat n < 2 ^ 64" using unsigned_less [of offset] unsigned_less [of n] by simp_all
  then show ?thesis using assms l by (auto simp: Mmap_Read_def word_less_nat_alt unat_plus_if' not_less)
qed

text \<open>A limiter of \<open>k\<close> resources hands out \<open>k\<close>, and again those that were given back.\<close>

lemma Limiter_Acquire_sint:
  assumes "Limiter_Acquire allowed = (b, allowed')"
  shows "b \<longleftrightarrow> 0 < sint allowed" "b \<Longrightarrow> Limiter_Release allowed' = allowed" "b \<Longrightarrow> sint allowed' = sint allowed - 1"
proof -
  show b: "b \<longleftrightarrow> 0 < sint allowed" using assms by (auto simp: Limiter_Acquire_def word_sle_eq split: if_splits)
  show "Limiter_Release allowed' = allowed" if b using assms that by (auto simp: Limiter_Acquire_def Limiter_Release_def split: if_splits)
  show "sint allowed' = sint allowed - 1" if h: b
  proof -
    have "allowed' = allowed - 1" using assms h by (auto simp: Limiter_Acquire_def split: if_splits)
    moreover have "0 < sint allowed" "sint allowed < 2 ^ 63" using b h sint_lt [of allowed] by simp_all
    ultimately show ?thesis by (simp add: sint_word_ariths(2) signed_take_bit_int_eq_self)
  qed
qed

end
