(* ===== verification/Lv_Filename.thy ===== *)
theory Lv_Filename
  imports Lv_Status "HOL-Library.Monad_Syntax"
begin

unbundle bit_operations_syntax

section \<open>Numbers and file names as text (leveldb util/logging, db/filename)\<close>

text \<open>
  A database names its files by number. Numbers are printed in decimal by \<^verbatim>\<open>snprintf\<close>, padded to six digits in file names,
  and read back with a check for overflow. \<open>None\<close> is a failed assertion. The escaped form of a string is what the log shows.
\<close>

subsection \<open>Decimal numbers\<close>

fun decimal :: "nat \<Rightarrow> slice" where
  "decimal n = (if n < 10 then [of_nat (48 + n)] else decimal (n div 10) @ [of_nat (48 + n mod 10)])"

declare decimal.simps [simp del]

definition AppendNumberTo :: "slice \<Rightarrow> u64 \<Rightarrow> slice" where "AppendNumberTo str num = str @ decimal (unat num)"

definition NumberToString :: "u64 \<Rightarrow> slice" where "NumberToString num = AppendNumberTo [] num"

text \<open>The conversions \<^verbatim>\<open>%06llu\<close> and \<^verbatim>\<open>%02x\<close>.\<close>

definition padded :: "nat \<Rightarrow> slice \<Rightarrow> slice" where "padded w s = replicate (w - length s) 48 @ s"

definition hex_digit :: "nat \<Rightarrow> byte" where "hex_digit n = (if n < 10 then of_nat (48 + n) else of_nat (87 + n))"

definition escape_byte :: "byte \<Rightarrow> slice" where
  "escape_byte c =
     (if 32 \<le> c \<and> c \<le> 126 then [c] else [92, 120, hex_digit (unat c div 16), hex_digit (unat c mod 16)])"

definition AppendEscapedStringTo :: "slice \<Rightarrow> slice \<Rightarrow> slice" where
  "AppendEscapedStringTo str val = str @ concat (map escape_byte val)"

definition EscapeString :: "slice \<Rightarrow> slice" where "EscapeString val = AppendEscapedStringTo [] val"

text \<open>The loop that reads digits; \<open>None\<close> is the return on overflow.\<close>

fun consume_digits :: "slice \<Rightarrow> u64 \<Rightarrow> nat \<Rightarrow> (u64 \<times> nat \<times> slice) option" where
  "consume_digits [] v digits = Some (v, digits, [])"
| "consume_digits (c # rest) v digits =
     (if 48 \<le> c \<and> c \<le> 57
      then let delta = ucast (c - 48) in
        if (NOT 0) div 10 < v \<or> v = (NOT 0) div 10 \<and> (NOT 0) mod 10 < delta then None
        else consume_digits rest (v * 10 + delta) (digits + 1)
      else Some (v, digits, c # rest))"

definition ConsumeDecimalNumber :: "slice \<Rightarrow> (u64 \<times> slice) option" where
  "ConsumeDecimalNumber s = do { (v, digits, rest) \<leftarrow> consume_digits s 0 0; if 0 < digits then Some (v, rest) else None }"

subsection \<open>File names\<close>

definition MakeFileName :: "slice \<Rightarrow> u64 \<Rightarrow> slice \<Rightarrow> slice" where
  "MakeFileName name number suffix = name @ chars ''/'' @ padded 6 (decimal (unat number)) @ chars ''.'' @ suffix"

definition LogFileName :: "slice \<Rightarrow> u64 \<Rightarrow> slice option" where
  "LogFileName name number = (if number = 0 then None else Some (MakeFileName name number (chars ''log'')))"

definition TableFileName :: "slice \<Rightarrow> u64 \<Rightarrow> slice option" where
  "TableFileName name number = (if number = 0 then None else Some (MakeFileName name number (chars ''ldb'')))"

definition SSTTableFileName :: "slice \<Rightarrow> u64 \<Rightarrow> slice option" where
  "SSTTableFileName name number = (if number = 0 then None else Some (MakeFileName name number (chars ''sst'')))"

definition DescriptorFileName :: "slice \<Rightarrow> u64 \<Rightarrow> slice option" where
  "DescriptorFileName dbname number =
     (if number = 0 then None else Some (dbname @ chars ''/MANIFEST-'' @ padded 6 (decimal (unat number))))"

definition CurrentFileName :: "slice \<Rightarrow> slice" where "CurrentFileName dbname = dbname @ chars ''/CURRENT''"

definition LockFileName :: "slice \<Rightarrow> slice" where "LockFileName dbname = dbname @ chars ''/LOCK''"

definition TempFileName :: "slice \<Rightarrow> u64 \<Rightarrow> slice option" where
  "TempFileName dbname number = (if number = 0 then None else Some (MakeFileName dbname number (chars ''dbtmp'')))"

definition InfoLogFileName :: "slice \<Rightarrow> slice" where "InfoLogFileName dbname = dbname @ chars ''/LOG''"

definition OldInfoLogFileName :: "slice \<Rightarrow> slice" where "OldInfoLogFileName dbname = dbname @ chars ''/LOG.old''"

datatype file_type = kLogFile | kDBLockFile | kTableFile | kDescriptorFile | kCurrentFile | kTempFile | kInfoLogFile

definition ParseFileName :: "slice \<Rightarrow> (u64 \<times> file_type) option" where
  "ParseFileName fname =
     (if fname = chars ''CURRENT'' then Some (0, kCurrentFile)
      else if fname = chars ''LOCK'' then Some (0, kDBLockFile)
      else if fname = chars ''LOG'' \<or> fname = chars ''LOG.old'' then Some (0, kInfoLogFile)
      else if take 9 fname = chars ''MANIFEST-''
      then do { (num, rest) \<leftarrow> ConsumeDecimalNumber (drop 9 fname); if rest \<noteq> [] then None else Some (num, kDescriptorFile) }
      else do {
        (num, suffix) \<leftarrow> ConsumeDecimalNumber fname;
        if suffix = chars ''.log'' then Some (num, kLogFile)
        else if suffix = chars ''.sst'' \<or> suffix = chars ''.ldb'' then Some (num, kTableFile)
        else if suffix = chars ''.dbtmp'' then Some (num, kTempFile)
        else None
      })"

subsection \<open>Setting the current manifest\<close>

text \<open>The operations of the environment on a state \<open>'e\<close>; the file that is being written is part of it.\<close>

record 'e small_file_env =
  sf_NewWritableFile :: "slice \<Rightarrow> 'e \<Rightarrow> status \<times> 'e"
  sf_Append :: "slice \<Rightarrow> 'e \<Rightarrow> status \<times> 'e"
  sf_Sync :: "'e \<Rightarrow> status \<times> 'e"
  sf_Close :: "'e \<Rightarrow> status \<times> 'e"
  sf_destroy :: "'e \<Rightarrow> 'e"
  sf_DeleteFile :: "slice \<Rightarrow> 'e \<Rightarrow> 'e"
  sf_RenameFile :: "slice \<Rightarrow> slice \<Rightarrow> 'e \<Rightarrow> status \<times> 'e"

definition DoWriteStringToFile :: "'e small_file_env \<Rightarrow> slice \<Rightarrow> slice \<Rightarrow> bool \<Rightarrow> 'e \<Rightarrow> status \<times> 'e" where
  "DoWriteStringToFile env text fname should_sync e0 =
     (let (s, e1) = sf_NewWritableFile env fname e0 in
      if s \<noteq> OK then (s, e1)
      else
        let (s, e2) = sf_Append env text e1;
            (s, e3) = (if s = OK \<and> should_sync then sf_Sync env e2 else (s, e2));
            (s, e4) = (if s = OK then sf_Close env e3 else (s, e3));
            e5 = sf_destroy env e4
        in (s, if s \<noteq> OK then sf_DeleteFile env fname e5 else e5))"

definition WriteStringToFile :: "'e small_file_env \<Rightarrow> slice \<Rightarrow> slice \<Rightarrow> 'e \<Rightarrow> status \<times> 'e" where
  "WriteStringToFile env text fname = DoWriteStringToFile env text fname False"

definition WriteStringToFileSync :: "'e small_file_env \<Rightarrow> slice \<Rightarrow> slice \<Rightarrow> 'e \<Rightarrow> status \<times> 'e" where
  "WriteStringToFileSync env text fname = DoWriteStringToFile env text fname True"

definition SetCurrentFile :: "'e small_file_env \<Rightarrow> slice \<Rightarrow> u64 \<Rightarrow> 'e \<Rightarrow> (status \<times> 'e) option" where
  "SetCurrentFile env dbname descriptor_number e0 =
     do {
       manifest \<leftarrow> DescriptorFileName dbname descriptor_number;
       if take (length dbname + 1) manifest \<noteq> dbname @ chars ''/'' then None
       else do {
         tmp \<leftarrow> TempFileName dbname descriptor_number;
         let (s, e1) = WriteStringToFileSync env (drop (length dbname + 1) manifest @ [10]) tmp e0;
         let (s, e2) = (if s = OK then sf_RenameFile env tmp (CurrentFileName dbname) e1 else (s, e1));
         Some (s, if s \<noteq> OK then sf_DeleteFile env tmp e2 else e2)
       }
     }"

subsection \<open>Reading what was printed\<close>

definition digits :: "slice \<Rightarrow> bool" where "digits s \<longleftrightarrow> (\<forall>c \<in> set s. 48 \<le> c \<and> c \<le> 57)"

definition digit_value :: "slice \<Rightarrow> nat" where "digit_value s = foldl (\<lambda>v c. v * 10 + (unat c - 48)) 0 s"

lemma digit_value_snoc: "digit_value (s @ [c]) = digit_value s * 10 + (unat c - 48)" by (simp add: digit_value_def)

lemma unat_digit: "d < 10 \<Longrightarrow> unat (of_nat (48 + d) :: byte) = 48 + d" by (intro unat_of_nat_id) simp

lemma decimal_digits: "digits (decimal n) \<and> decimal n \<noteq> [] \<and> digit_value (decimal n) = n"
proof (induction n rule: less_induct)
  case (less n)
  have d: "digits [of_nat (48 + d)]" "unat (of_nat (48 + d) :: byte) - 48 = d" if "d < 10" for d
    using unat_digit [OF that] that by (simp_all add: digits_def word_le_nat_alt)
  show ?case
  proof (cases "n < 10")
    case True
    then show ?thesis using d by (simp add: decimal.simps [of n] digit_value_def)
  next
    case False
    then have n: "decimal n = decimal (n div 10) @ [of_nat (48 + n mod 10)]" "n div 10 < n" by (simp_all add: decimal.simps [of n])
    show ?thesis using less [OF n(2)] d [of "n mod 10"] unfolding n(1) digit_value_snoc by (simp add: digits_def)
  qed
qed

lemma padded_digits:
  assumes "digits s"
  shows "digits (padded w s)" "digit_value (padded w s) = digit_value s" "s \<noteq> [] \<Longrightarrow> padded w s \<noteq> []"
proof -
  show "digits (padded w s)" using assms by (auto simp: digits_def padded_def)
  have "foldl (\<lambda>v c. v * 10 + (unat c - 48)) 0 (replicate n (48 :: byte)) = 0" for n by (induction n) simp_all
  then show "digit_value (padded w s) = digit_value s" by (simp add: digit_value_def padded_def)
  show "s \<noteq> [] \<Longrightarrow> padded w s \<noteq> []" by (simp add: padded_def)
qed

lemma foldl_grows: "v \<le> foldl (\<lambda>v c. v * 10 + (unat c - 48)) v (s :: slice)"
proof (induction s arbitrary: v)
  case (Cons c s)
  have "v \<le> v * 10 + (unat c - 48)" by simp
  also have "\<dots> \<le> foldl (\<lambda>v c. v * 10 + (unat c - 48)) (v * 10 + (unat c - 48)) s" by (rule Cons.IH)
  finally show ?case by simp
qed simp

lemma consume_digits_reads:
  assumes "digits s" "rest = [] \<or> \<not> digits [hd rest]" "foldl (\<lambda>v c. v * 10 + (unat c - 48)) (unat v) s < 2 ^ 64"
  shows "consume_digits (s @ rest) v n = Some (of_nat (foldl (\<lambda>v c. v * 10 + (unat c - 48)) (unat v) s), n + length s, rest)"
  using assms
proof (induction s arbitrary: v n)
  case Nil
  then show ?case by (cases rest) (auto simp: digits_def)
next
  case (Cons c s)
  let ?d = "unat c - 48"
  have c: "48 \<le> c" "c \<le> 57" using Cons.prems(1) by (simp_all add: digits_def)
  have d: "?d \<le> 9" "unat (ucast (c - 48) :: u64) = ?d"
    using c by (simp_all add: word_le_nat_alt unat_sub unsigned_ucast_eq take_bit_nat_eq_self)
  have small: "unat v * 10 + ?d < 2 ^ 64" using Cons.prems(3) foldl_grows [of "unat v * 10 + ?d" s] by simp
  have m: "unat ((NOT 0 :: u64) div 10) = 1844674407370955161" "unat ((NOT 0 :: u64) mod 10) = 5" by (simp_all add: unat_div unat_mod)
  have "\<not> (NOT 0) div 10 < v" using small m(1) by (simp add: word_less_nat_alt)
  moreover have "\<not> (v = (NOT 0) div 10 \<and> (NOT 0) mod 10 < (ucast (c - 48) :: u64))"
    using small m d(2) by (auto simp: word_less_nat_alt)
  ultimately have no: "\<not> ((NOT 0) div 10 < v \<or> v = (NOT 0) div 10 \<and> (NOT 0) mod 10 < (ucast (c - 48) :: u64))" by blast
  have step: "consume_digits ((c # s) @ rest) v n = consume_digits (s @ rest) (v * 10 + ucast (c - 48)) (n + 1)"
    by (simp only: append_Cons consume_digits.simps Let_def c no simp_thms if_True if_False)
  have "unat (v * 10) = unat v * 10" using small by (simp add: unat_mult_lem [THEN iffD1])
  then have u: "unat (v * 10 + ucast (c - 48)) = unat v * 10 + ?d" using small d(2) by (simp add: unat_add_lem [THEN iffD1])
  show ?case unfolding step using Cons.IH [of "v * 10 + ucast (c - 48)" "n + 1"] Cons.prems u by (simp add: digits_def)
qed

lemma ConsumeDecimalNumber_reads:
  assumes "rest = [] \<or> \<not> digits [hd rest]"
  shows "ConsumeDecimalNumber (padded w (decimal (unat number)) @ rest) = Some (number, rest)"
    "ConsumeDecimalNumber (decimal (unat number) @ rest) = Some (number, rest)"
proof -
  note d = decimal_digits [of "unat number"]
  have s: "ConsumeDecimalNumber (s @ rest) = Some (number, rest)" if "digits s" "s \<noteq> []" "digit_value s = unat number" for s
  proof -
    have l: "foldl (\<lambda>v c. v * 10 + (unat c - 48)) (unat (0 :: u64)) s = unat number" using that(3) by (simp add: digit_value_def)
    have "unat number < 2 ^ 64" using unsigned_less [of number] by simp
    then have "consume_digits (s @ rest) 0 0 = Some (number, length s, rest)"
      using consume_digits_reads [OF that(1) assms, of 0 0] unfolding l by simp
    then show ?thesis using that(2) by (simp add: ConsumeDecimalNumber_def)
  qed
  show "ConsumeDecimalNumber (padded w (decimal (unat number)) @ rest) = Some (number, rest)"
    using d padded_digits by (intro s) simp_all
  show "ConsumeDecimalNumber (decimal (unat number) @ rest) = Some (number, rest)" using d by (intro s) simp_all
qed

text \<open>The name of a numbered file, without the directory, gives back its number and its kind.\<close>

lemma not_digit_point: "\<not> digits [hd (chars ''.'' @ suffix)]" by (simp add: digits_def chars_def word_le_nat_alt)

lemma MakeFileName_parse:
  assumes "suffix = chars ''log'' \<and> t = kLogFile \<or> suffix = chars ''ldb'' \<and> t = kTableFile \<or> suffix = chars ''sst'' \<and> t = kTableFile \<or>
    suffix = chars ''dbtmp'' \<and> t = kTempFile"
  shows "ParseFileName (drop (length dbname + 1) (MakeFileName dbname number suffix)) = Some (number, t)"
proof -
  let ?d = "padded 6 (decimal (unat number))"
  let ?f = "?d @ chars ''.'' @ suffix"
  have f: "drop (length dbname + 1) (MakeFileName dbname number suffix) = ?f" by (simp add: MakeFileName_def chars_def)
  have d: "digits ?d" "?d \<noteq> []" using padded_digits decimal_digits by blast+
  obtain c cs where c: "?d = c # cs" "48 \<le> c" "c \<le> 57" using d by (cases ?d) (auto simp: digits_def)
  have "hd ?f = c" using c(1) by simp
  then have n: "?f \<noteq> chars ''CURRENT''" "?f \<noteq> chars ''LOCK''" "?f \<noteq> chars ''LOG''" "?f \<noteq> chars ''LOG.old''" "take 9 ?f \<noteq> chars ''MANIFEST-''"
    using c by (auto simp: chars_def word_le_nat_alt)
  have r: "ConsumeDecimalNumber ?f = Some (number, chars ''.'' @ suffix)"
    by (rule ConsumeDecimalNumber_reads(1)) (use not_digit_point in simp)
  show ?thesis unfolding f ParseFileName_def using n r assms by (auto simp: chars_def)
qed

lemma DescriptorFileName_parse:
  assumes "DescriptorFileName dbname number = Some f"
  shows "ParseFileName (drop (length dbname + 1) f) = Some (number, kDescriptorFile)"
proof -
  let ?d = "padded 6 (decimal (unat number))"
  have f: "drop (length dbname + 1) f = chars ''MANIFEST-'' @ ?d" using assms by (auto simp: DescriptorFileName_def chars_def split: if_splits)
  have r: "ConsumeDecimalNumber ?d = Some (number, [])" using ConsumeDecimalNumber_reads(1) [of "[]" 6 number] by simp
  have "chars ''MANIFEST-'' @ s \<noteq> chars x" if "x \<in> {''CURRENT'', ''LOCK'', ''LOG'', ''LOG.old''}" for s x
    using that by (auto simp: chars_def)
  then have n: "chars ''MANIFEST-'' @ ?d \<noteq> chars ''CURRENT''" "chars ''MANIFEST-'' @ ?d \<noteq> chars ''LOCK''"
    "chars ''MANIFEST-'' @ ?d \<noteq> chars ''LOG''" "chars ''MANIFEST-'' @ ?d \<noteq> chars ''LOG.old''" by simp_all
  have t: "take 9 (chars ''MANIFEST-'' @ ?d) = chars ''MANIFEST-''" "drop 9 (chars ''MANIFEST-'' @ ?d) = ?d" by (simp_all add: chars_def)
  show ?thesis unfolding f ParseFileName_def t by (simp only: n t r if_False if_True simp_thms bind.bind_lunit prod.case)
qed

end
