(* ===== verification/Lv_Options.thy ===== *)
theory Lv_Options
  imports Lv_Cache_Blocks Lv_Env Lv_Filename
begin

section \<open>The objects the library provides, and the tables they make\<close>

text \<open>
  The byte-wise comparator, the comparator of internal keys, the Bloom filter policy and the default options, as the objects
  with virtual functions that a table takes; on POSIX files they keep the contracts of \<open>table_building\<close>, so that
  everything proved of tables holds of tables made with them. Addresses of comparators are arbitrary numbers.
\<close>

subsection \<open>The objects\<close>

definition BytewiseComparator :: comparator_object where
  "BytewiseComparator =
     \<lparr>co_id = 0, co_Compare = Slice_compare, co_FindShortestSeparator = FindShortestSeparator,
      co_FindShortSuccessor = (\<lambda>key. Some (FindShortSuccessor key))\<rparr>"

definition InternalKeyComparator :: "nat \<Rightarrow> comparator_object \<Rightarrow> comparator_object" where
  "InternalKeyComparator addr user =
     \<lparr>co_id = addr, co_Compare = internal_compare (co_Compare user),
      co_FindShortestSeparator = InternalSeparator (co_Compare user) (co_FindShortestSeparator user),
      co_FindShortSuccessor = InternalSuccessor (co_Compare user) (co_FindShortSuccessor user)\<rparr>"

definition NewBloomFilterPolicy :: "int \<Rightarrow> filter_policy_object option" where
  "NewBloomFilterPolicy bpk =
     map_option (\<lambda>p. \<lparr>fp_Name = chars ''leveldb.BuiltinBloomFilter2'', fp_CreateFilter = CreateFilter p,
       fp_KeyMayMatch = bloom_KeyMayMatch\<rparr>) (BloomFilterPolicy bpk)"

definition Options :: leveldb_options where
  "Options =
     \<lparr>o_comparator = BytewiseComparator, o_create_if_missing = False, o_error_if_exists = False, o_paranoid_checks = False,
      o_write_buffer_size = 4 * 2 ^ 20, o_max_open_files = 1000, o_block_size = 4096, o_block_restart_interval = 16,
      o_max_file_size = 2 * 2 ^ 20, o_compression = kSnappyCompression, o_reuse_logs = False, o_filter_policy = None\<rparr>"

text \<open>
  A size is compared with its bounds as an \<^verbatim>\<open>int\<close>: the type of the bounds is what it is cast to. For an \<^verbatim>\<open>int\<close> the cast
  changes nothing.
\<close>

definition int_of_size :: "nat \<Rightarrow> int" where "int_of_size n = sint (of_nat n :: u32)"

definition ClipToRange :: "nat \<Rightarrow> int \<Rightarrow> int \<Rightarrow> nat" where
  "ClipToRange x minvalue maxvalue =
     (let y = (if maxvalue < int_of_size x then nat maxvalue else x) in if int_of_size y < minvalue then nat minvalue else y)"

definition ClipToRange_int :: "int \<Rightarrow> int \<Rightarrow> int \<Rightarrow> int" where
  "ClipToRange_int x minvalue maxvalue = (let y = (if maxvalue < x then maxvalue else x) in if y < minvalue then minvalue else y)"

definition kNumNonTableCacheFiles :: int where "kNumNonTableCacheFiles = 10"

text \<open>What a database makes of the user's options: the fields, and then the log file and the cache if there are none.\<close>

definition sanitize_fields :: "comparator_object \<Rightarrow> filter_policy_object \<Rightarrow> leveldb_options \<Rightarrow> leveldb_options" where
  "sanitize_fields icmp ipolicy src =
     src\<lparr>o_comparator := icmp, o_filter_policy := (if o_filter_policy src \<noteq> None then Some ipolicy else None),
       o_max_open_files := ClipToRange_int (o_max_open_files src) (64 + kNumNonTableCacheFiles) 50000,
       o_write_buffer_size := ClipToRange (o_write_buffer_size src) (64 * 2 ^ 10) (1 * 2 ^ 30),
       o_max_file_size := ClipToRange (o_max_file_size src) (1 * 2 ^ 20) (1 * 2 ^ 30),
       o_block_size := ClipToRange (o_block_size src) (1 * 2 ^ 10) (4 * 2 ^ 20)\<rparr>"

record ('e, 'l) logger_env =
  le_CreateDir :: "slice \<Rightarrow> 'e \<Rightarrow> status \<times> 'e"
  le_RenameFile :: "slice \<Rightarrow> slice \<Rightarrow> 'e \<Rightarrow> status \<times> 'e"
  le_NewLogger :: "slice \<Rightarrow> 'e \<Rightarrow> status \<times> 'l option \<times> 'e"

definition SanitizeOptions :: "('e, 'l) logger_env \<Rightarrow> slice \<Rightarrow> comparator_object \<Rightarrow> filter_policy_object \<Rightarrow> leveldb_options \<Rightarrow>
    'l option \<Rightarrow> block sharded_cache option \<Rightarrow> 'e \<Rightarrow> (leveldb_options \<times> 'l option \<times> block sharded_cache \<times> 'e) option" where
  "SanitizeOptions env dbname icmp ipolicy src info_log block_cache e =
     do {
       let result = sanitize_fields icmp ipolicy src;
       let (info_log, e) = (case info_log of
           Some l \<Rightarrow> (Some l, e)
         | None \<Rightarrow>
             let (s1, e1) = le_CreateDir env dbname e;
                 (s2, e2) = le_RenameFile env (InfoLogFileName dbname) (OldInfoLogFileName dbname) e1;
                 (s3, l, e3) = le_NewLogger env (InfoLogFileName dbname) e2
             in (if s3 \<noteq> OK then None else l, e3));
       block_cache \<leftarrow> (case block_cache of None \<Rightarrow> ShardedLRUCache (8 * 2 ^ 20) empty_heap | Some c \<Rightarrow> Some c);
       Some (result, info_log, block_cache, e)
     }"

text \<open>
  The fields are the ones the tables are made with, and the default cache is one of 8 MiB that keeps its contract. Sizes of
  less than \<open>2 ^ 31\<close> end up within their bounds; a size of \<open>2 ^ 32\<close> more than an admissible one stays as it is.
\<close>

lemma SanitizeOptions_fields:
  "\<exists>l c e'. SanitizeOptions env dbname icmp ipolicy src info_log None e = Some (sanitize_fields icmp ipolicy src, l, c, e') \<and> cache_held good {#} c"
proof -
  obtain c where c: "ShardedLRUCache (8 * 2 ^ 20) (empty_heap :: block heap) = Some c" "cache_held good {#} c"
    using new_cache [of "8 * 2 ^ 20" good] by auto
  then show ?thesis by (simp add: SanitizeOptions_def Let_def split_beta)
qed

lemma int_of_size_small: "x < 2 ^ 31 \<Longrightarrow> int_of_size x = int x"
  by (simp add: int_of_size_def signed_of_nat signed_take_bit_int_eq_self)

lemma ClipToRange_bounds:
  assumes "x < 2 ^ 31" "0 \<le> lo" "lo \<le> hi" "hi < 2 ^ 31"
  shows "nat lo \<le> ClipToRange x lo hi \<and> ClipToRange x lo hi \<le> nat hi"
  using assms int_of_size_small [of x] int_of_size_small [of "nat hi"] by (auto simp: ClipToRange_def Let_def)

lemma ClipToRange_wraps: "ClipToRange (2 ^ 32 + 4096) (1 * 2 ^ 10) (4 * 2 ^ 20) = 2 ^ 32 + 4096"
  by (simp add: ClipToRange_def int_of_size_def)

definition bloom_policy_object :: filter_policy_object where
  "bloom_policy_object = \<lparr>fp_Name = chars ''leveldb.BuiltinBloomFilter2'', fp_CreateFilter = CreateFilter bloom10,
     fp_KeyMayMatch = bloom_KeyMayMatch\<rparr>"

lemma NewBloomFilterPolicy_10: "NewBloomFilterPolicy 10 = Some bloom_policy_object"
  by (simp add: NewBloomFilterPolicy_def bloom10_made bloom_policy_object_def)

text \<open>The two settings: tables over plain keys, and the tables of a database, over internal keys.\<close>

definition plain_options :: "nat \<Rightarrow> bool \<Rightarrow> leveldb_options" where
  "plain_options bsize bloom = Options\<lparr>o_block_size := bsize, o_filter_policy := (if bloom then NewBloomFilterPolicy 10 else None)\<rparr>"

definition db_options :: "nat \<Rightarrow> bool \<Rightarrow> leveldb_options" where
  "db_options bsize bloom =
     sanitize_fields (InternalKeyComparator 1 BytewiseComparator) (InternalFilterPolicy bloom_policy_object) (plain_options bsize bloom)"

subsection \<open>Internal keys keep the contract of a filter policy\<close>

lemma ExtractUserKey_valid: "internal_valid P k \<Longrightarrow> ExtractUserKey k = Some (ik_user k)"
  by (simp add: internal_valid_def ExtractUserKey_def ik_user_def)

lemma internal_filter_policy:
  assumes "filter_policy (fp_CreateFilter p) (fp_KeyMayMatch p) cap fkey"
  shows "filter_policy (fp_CreateFilter (InternalFilterPolicy p)) (fp_KeyMayMatch (InternalFilterPolicy p)) cap (internal_valid fkey)"
proof
  fix ks :: "slice list" and dst assume h: "length ks \<le> cap" "\<forall>key \<in> set ks. internal_valid fkey key"
  have u: "ExtractUserKey k = Some (ik_user k)" if "k \<in> set ks" for k using ExtractUserKey_valid h(2) that by blast
  then have m: "map (\<lambda>k. the (ExtractUserKey k)) ks = map ik_user ks" by simp
  have "\<forall>key \<in> set (map ik_user ks). fkey key" using h(2) by (auto simp: internal_valid_def)
  then obtain f where f: "fp_CreateFilter p (map ik_user ks) dst = Some (dst @ f)" "\<forall>key \<in> set (map ik_user ks). fp_KeyMayMatch p key f"
    using filter_policy.create_matches [OF assms, of "map ik_user ks" dst] h(1) by auto
  have "\<not> (\<exists>k \<in> set ks. ExtractUserKey k = None)" using u by auto
  then have "fp_CreateFilter (InternalFilterPolicy p) ks dst = Some (dst @ f)"
    unfolding InternalFilterPolicy_def filter_policy_object.select_convs m using f(1) by simp
  moreover have "\<forall>key \<in> set ks. fp_KeyMayMatch (InternalFilterPolicy p) key f" using f(2) u by (simp add: InternalFilterPolicy_def)
  ultimately show "\<exists>f. fp_CreateFilter (InternalFilterPolicy p) ks dst = Some (dst @ f) \<and>
      (\<forall>key \<in> set ks. fp_KeyMayMatch (InternalFilterPolicy p) key f)" by blast
qed

lemma internal_filter_sizes:
  assumes "filter_sizes (fp_CreateFilter p) g"
  shows "filter_sizes (fp_CreateFilter (InternalFilterPolicy p)) g"
proof
  fix ks :: "slice list" and dst r assume "fp_CreateFilter (InternalFilterPolicy p) ks dst = Some r"
  then have "fp_CreateFilter p (map (\<lambda>k. the (ExtractUserKey k)) ks) dst = Some r" by (simp add: InternalFilterPolicy_def split: if_splits)
  from filter_sizes.create_size [OF assms this] show "length r \<le> length dst + g * (length ks + 1)" by simp
qed

text \<open>The policy of internal keys is the one that takes the user keys apart key by key.\<close>

lemma user_keys_map: "user_keys ks = (if \<exists>k \<in> set ks. ExtractUserKey k = None then None else Some (map (\<lambda>k. the (ExtractUserKey k)) ks))"
  by (induction ks) (auto split: option.splits)

lemma InternalFilterPolicy_create: "fp_CreateFilter (InternalFilterPolicy p) = InternalCreateFilter (fp_CreateFilter p)"
  by (auto simp: InternalFilterPolicy_def InternalCreateFilter_def user_keys_map fun_eq_iff)

subsection \<open>Tables on POSIX files\<close>

lemma Options_sel [simp]: "o_comparator (plain_options bsize b) = BytewiseComparator"
  "o_filter_policy (plain_options bsize b) = (if b then Some bloom_policy_object else None)"
  "o_block_restart_interval (plain_options bsize b) = 16" "o_compression (plain_options bsize b) = kSnappyCompression"
  "o_comparator (db_options bsize b) = InternalKeyComparator 1 BytewiseComparator"
  "o_filter_policy (db_options bsize b) = (if b then Some (InternalFilterPolicy bloom_policy_object) else None)"
  "o_block_restart_interval (db_options bsize b) = 16" "o_compression (db_options bsize b) = kSnappyCompression"
  by (simp_all add: plain_options_def db_options_def Options_def sanitize_fields_def NewBloomFilterPolicy_10)

lemma object_sel [simp]: "co_Compare BytewiseComparator = Slice_compare" "co_FindShortestSeparator BytewiseComparator = FindShortestSeparator"
  "co_FindShortSuccessor BytewiseComparator = Some \<circ> FindShortSuccessor"
  "co_Compare (InternalKeyComparator n c) = internal_compare (co_Compare c)"
  "co_FindShortestSeparator (InternalKeyComparator n c) = InternalSeparator (co_Compare c) (co_FindShortestSeparator c)"
  "co_FindShortSuccessor (InternalKeyComparator n c) = InternalSuccessor (co_Compare c) (co_FindShortSuccessor c)"
  by (simp_all add: BytewiseComparator_def InternalKeyComparator_def fun_eq_iff)

lemma bloom_object_policy: "filter_policy (fp_CreateFilter bloom_policy_object) (fp_KeyMayMatch bloom_policy_object) (2 ^ 31 - 1) (\<lambda>_. True)"
  "filter_sizes (fp_CreateFilter bloom_policy_object) 10"
  unfolding bloom_policy_object_def filter_policy_object.select_convs
  by (rule bloom.filter_policy_axioms, rule bloom_sizes.filter_sizes_axioms)

lemma policy_names: "length (fp_Name bloom_policy_object) = 27" "length (fp_Name (InternalFilterPolicy bloom_policy_object)) = 27"
  by (simp_all add: bloom_policy_object_def InternalFilterPolicy_def chars_def)

lemma plain_tables:
  assumes "stream_ok os fd stored"
  shows "table_building Slice_compare (\<lambda>_. True) FindShortestSeparator (Some \<circ> FindShortSuccessor) (plain_options bsize b)
    (posix_writable_file os name fd) stored (2 ^ 31 - 1) 10"
  using posix_appends [OF assms] bytewise.comparator_axioms bloom_object_policy
  by (intro table_building.intro table_building_axioms.intro) (auto simp: policy_names split: if_splits)

lemma db_tables:
  assumes "stream_ok os fd stored"
  shows "table_building (internal_compare Slice_compare) (internal_valid (\<lambda>_. True)) (InternalSeparator Slice_compare FindShortestSeparator)
    (InternalSuccessor Slice_compare (Some \<circ> FindShortSuccessor)) (db_options bsize b)
    (posix_writable_file os name fd) stored (2 ^ 31 - 1) 10"
  using posix_appends [OF assms] internal.comparator_axioms internal_filter_policy [OF bloom_object_policy(1)]
    internal_filter_sizes [OF bloom_object_policy(2)]
  by (intro table_building.intro table_building_axioms.intro) (auto simp: policy_names split: if_splits)

subsection \<open>A system whose files are in memory\<close>

text \<open>One stream; reading is not used. The state is what has been written.\<close>

definition memory_posix :: "slice posix" where
  "memory_posix =
     \<lparr>os_fread = (\<lambda>f n o1. (take n o1, drop n o1)), os_feof = (\<lambda>f o1. o1 = []), os_fseek_cur = (\<lambda>f n o1. (0, drop (unat n) o1)),
      os_fwrite = (\<lambda>f bytes o1. (length bytes, o1 @ bytes)), os_fflush = (\<lambda>f o1. (0, o1)), os_fclose = (\<lambda>f o1. (0, o1)),
      os_fdatasync = (\<lambda>f o1. (0, o1)), os_open = (\<lambda>name o1. (0, o1)), os_close = (\<lambda>fd o1. o1), os_fsync = (\<lambda>fd o1. (0, o1)),
      os_pread = (\<lambda>fd n offset o1. (Some (take n (drop (unat offset) o1)), o1)), os_errno = (\<lambda>o1. 0), os_strerror = (\<lambda>e. [])\<rparr>"

lemma memory_stream: "stream_ok memory_posix fd (\<lambda>o1. o1)" by (simp add: stream_ok_def memory_posix_def)

text \<open>Tables in it, over plain keys and over internal keys.\<close>

interpretation plain_table: table_building Slice_compare "\<lambda>_. True" FindShortestSeparator "Some \<circ> FindShortSuccessor"
  "plain_options bsize b" "posix_writable_file memory_posix name fd" "\<lambda>o1. o1" "2 ^ 31 - 1" 10
  for bsize b name fd
  by (rule plain_tables [OF memory_stream])

interpretation db_table: table_building "internal_compare Slice_compare" "internal_valid (\<lambda>_. True)"
  "InternalSeparator Slice_compare FindShortestSeparator" "InternalSuccessor Slice_compare (Some \<circ> FindShortSuccessor)"
  "db_options bsize b" "posix_writable_file memory_posix name fd" "\<lambda>o1. o1" "2 ^ 31 - 1" 10
  for bsize b name fd
  by (rule db_tables [OF memory_stream])

subsection \<open>Opened tables\<close>

text \<open>
  The two-level iterator over any table over plain keys that was opened on a file its builder wrote, with the LRU cache for
  its blocks. For a table that was not, no iterator counts as positioned.
\<close>

definition table_index :: "nat \<Rightarrow> bool \<Rightarrow> (slice \<times> slice) list list \<Rightarrow> slice list \<Rightarrow> table \<Rightarrow> (slice \<times> slice) list" where
  "table_index bsize b bs seps t = (if plain_table.serves bsize b bs seps t then index_pairs (plain_table.dopts bsize b) bs seps else [])"

definition table_cursor :: "nat \<Rightarrow> bool \<Rightarrow> (slice \<times> slice) list list \<Rightarrow> slice list \<Rightarrow> table \<Rightarrow> nat \<Rightarrow> table_iter \<Rightarrow> bool" where
  "table_cursor bsize b bs seps t j it \<longleftrightarrow> plain_table.serves bsize b bs seps t \<and> pairs_cursor (table_index bsize b bs seps t) j it"

interpretation opened_table: two_level_contract Slice_compare "\<lambda>_. True" FindShortestSeparator "Some \<circ> FindShortSuccessor"
  "table_parts (Some lru_block_cache) t ropt" "table_index bsize b bs seps t" "table_cursor bsize b bs seps t"
  "plain_table.content_of bsize b bs" "\<lambda>h. data_cursor (plain_table.content_of bsize b bs h)"
  "cache_inv (Some lru_block_cache) (cache_held (plain_table.good_block bsize b t bs))" "2 ^ 30 - 1"
  for t ropt bsize b bs seps
proof (cases "plain_table.serves bsize b bs seps t")
  case True
  have i: "table_index bsize b bs seps t = index_pairs (plain_table.dopts bsize b) bs seps" using True by (simp add: table_index_def)
  have c: "table_cursor bsize b bs seps t = pairs_cursor (index_pairs (plain_table.dopts bsize b) bs seps)"
    using True i by (simp add: table_cursor_def fun_eq_iff)
  show "two_level_contract Slice_compare (\<lambda>_. True) FindShortestSeparator (Some \<circ> FindShortSuccessor)
    (table_parts (Some lru_block_cache) t ropt) (table_index bsize b bs seps t) (table_cursor bsize b bs seps t)
    (plain_table.content_of bsize b bs) (\<lambda>h. data_cursor (plain_table.content_of bsize b bs h))
    (cache_inv (Some lru_block_cache) (cache_held (plain_table.good_block bsize b t bs))) (2 ^ 30 - 1)"
    unfolding i c by (rule plain_table.table_contract(1) [OF True]) (use plain_table.keeps_blocksI [OF True lru_blocks.cache_contract_axioms] in simp)
next
  case False
  show "two_level_contract Slice_compare (\<lambda>_. True) FindShortestSeparator (Some \<circ> FindShortSuccessor)
    (table_parts (Some lru_block_cache) t ropt) (table_index bsize b bs seps t) (table_cursor bsize b bs seps t)
    (plain_table.content_of bsize b bs) (\<lambda>h. data_cursor (plain_table.content_of bsize b bs h))
    (cache_inv (Some lru_block_cache) (cache_held (plain_table.good_block bsize b t bs))) (2 ^ 30 - 1)"
    using False bytewise.comparator_axioms
    by (intro two_level_contract.intro two_level_contract_axioms.intro list_iterator.intro)
      (simp_all add: table_index_def table_cursor_def kvs_sorted_def)
qed

end
