(* ===== verification/Lv_Table_Client.thy ===== *)
theory Lv_Table_Client
  imports Lv_Options
begin

section \<open>Clients of tables\<close>

text \<open>
  What the users of a table do with it: build one from pairs, open it, walk over it in both directions, and look keys up. The
  facts proved here are those of \<open>table_building\<close>, said of these programs.
\<close>

subsection \<open>The programs\<close>

definition build_table :: "leveldb_options \<Rightarrow> 'f writable_file \<Rightarrow> (slice \<times> slice) list \<Rightarrow> 'f \<Rightarrow> (status \<times> 'f table_builder) option" where
  "build_table opt fo kvs f = do { tb0 \<leftarrow> TableBuilder opt f; tb1 \<leftarrow> add_pairs fo kvs tb0; TableBuilder_Finish fo tb1 }"

text \<open>Walking forward and backward until the iterator is no longer valid.\<close>

partial_function (option) scan :: "'i iterator_ops \<Rightarrow> 'i \<Rightarrow> ((slice \<times> slice) list \<times> 'i) option" where
  "scan ops it =
     (if op_Valid ops it
      then do { k \<leftarrow> op_key ops it; v \<leftarrow> op_value ops it; it1 \<leftarrow> op_Next ops it; (kvs, it2) \<leftarrow> scan ops it1; Some ((k, v) # kvs, it2) }
      else Some ([], it))"

partial_function (option) scan_back :: "'i iterator_ops \<Rightarrow> 'i \<Rightarrow> ((slice \<times> slice) list \<times> 'i) option" where
  "scan_back ops it =
     (if op_Valid ops it
      then do { k \<leftarrow> op_key ops it; v \<leftarrow> op_value ops it; it1 \<leftarrow> op_Prev ops it; (kvs, it2) \<leftarrow> scan_back ops it1; Some ((k, v) # kvs, it2) }
      else Some ([], it))"

datatype direction = Forward | From slice | Backward

definition read_table :: "('c, 'h) block_cache \<Rightarrow> table \<Rightarrow> read_options \<Rightarrow> direction \<Rightarrow> 'c \<Rightarrow> ((slice \<times> slice) list \<times> 'c) option" where
  "read_table cache t ropt d c =
     do {
       it \<leftarrow> Table_NewIterator cache t ropt;
       let p = table_parts cache t ropt;
       let ops = two_level_ops p;
       (kvs, st) \<leftarrow> (case d of
           Forward \<Rightarrow> do { st1 \<leftarrow> op_SeekToFirst ops (it, c); scan ops st1 }
         | From k \<Rightarrow> do { st1 \<leftarrow> op_Seek ops k (it, c); scan ops st1 }
         | Backward \<Rightarrow> do { st1 \<leftarrow> op_SeekToLast ops (it, c); scan_back ops st1 });
       c1 \<leftarrow> TwoLevel_destroy p st;
       Some (kvs, c1)
     }"

text \<open>A lookup that takes the value of the pair found if it has the key.\<close>

definition get_value :: "('c, 'h) block_cache \<Rightarrow> table \<Rightarrow> read_options \<Rightarrow> slice \<Rightarrow> 'c \<Rightarrow> (slice option \<times> 'c) option" where
  "get_value cache t ropt k c =
     do {
       (st, saved, c1) \<leftarrow> InternalGet cache t ropt k c;
       if st \<noteq> OK then None
       else Some (case saved of Some (k', v) \<Rightarrow> if k' = k then Some v else None | None \<Rightarrow> None, c1)
     }"

fun get_values :: "('c, 'h) block_cache \<Rightarrow> table \<Rightarrow> read_options \<Rightarrow> slice list \<Rightarrow> 'c \<Rightarrow> (slice option list \<times> 'c) option" where
  "get_values cache t ropt [] c = Some ([], c)"
| "get_values cache t ropt (k # ks) c =
     do { (r, c1) \<leftarrow> get_value cache t ropt k c; (rs, c2) \<leftarrow> get_values cache t ropt ks c1; Some (r # rs, c2) }"

subsection \<open>Walking over a list\<close>

context list_iterator
begin

lemma scan_at: "R j it \<Longrightarrow> j \<le> length kvs \<Longrightarrow> \<exists>it'. scan ops it = Some (drop j kvs, it') \<and> R (length kvs) it'"
proof (induction "length kvs - j" arbitrary: j it)
  case 0
  then have "\<not> op_Valid ops it" using valid_iff by simp
  then have "scan ops it = Some ([], it)" by (simp add: scan.simps [of ops it])
  then show ?case using 0 by simp
next
  case (Suc n)
  then have j: "j < length kvs" by simp
  obtain it1 where it1: "op_Next ops it = Some it1" "R (Suc j) it1" using next_at [OF Suc.prems(1) j] by blast
  have "n = length kvs - Suc j" "Suc j \<le> length kvs" using Suc.hyps(2) j by simp_all
  from Suc.hyps(1) [OF this(1) it1(2) this(2)] obtain it' where it': "scan ops it1 = Some (drop (Suc j) kvs, it')" "R (length kvs) it'" by blast
  have "scan ops it = Some ((fst (kvs ! j), snd (kvs ! j)) # drop (Suc j) kvs, it')"
    using valid_iff [OF Suc.prems(1)] j key_at [OF Suc.prems(1) j] value_at [OF Suc.prems(1) j] it1(1) it'(1)
    by (simp add: scan.simps [of ops it])
  then show ?case using it'(2) Cons_nth_drop_Suc [OF j] by simp
qed

lemma scan_back_end: "R j it \<Longrightarrow> length kvs \<le> j \<Longrightarrow> scan_back ops it = Some ([], it)"
  using valid_iff by (simp add: scan_back.simps [of ops it])

lemma scan_back_at: "R j it \<Longrightarrow> j < length kvs \<Longrightarrow> \<exists>it' i. scan_back ops it = Some (rev (take (Suc j) kvs), it') \<and> R i it'"
proof (induction j arbitrary: it)
  case 0
  obtain it1 where it1: "op_Prev ops it = Some it1" "R (length kvs) it1" using prev_at [OF 0] by (auto simp: prev_pos_def)
  have "scan_back ops it = Some ([(fst (kvs ! 0), snd (kvs ! 0))], it1)"
    using valid_iff [OF 0(1)] 0(2) key_at [OF 0] value_at [OF 0] it1(1) scan_back_end [OF it1(2)] by (simp add: scan_back.simps [of ops it])
  then show ?case using it1(2) 0(2) by (cases kvs) auto
next
  case (Suc j)
  obtain it1 where it1: "op_Prev ops it = Some it1" "R j it1" using prev_at [OF Suc.prems] by (auto simp: prev_pos_def)
  obtain it' i where it': "scan_back ops it1 = Some (rev (take (Suc j) kvs), it')" "R i it'" using Suc.IH [OF it1(2)] Suc.prems(2) by auto
  have "scan_back ops it = Some ((fst (kvs ! Suc j), snd (kvs ! Suc j)) # rev (take (Suc j) kvs), it')"
    using valid_iff [OF Suc.prems(1)] Suc.prems(2) key_at [OF Suc.prems] value_at [OF Suc.prems] it1(1) it'(1)
    by (simp add: scan_back.simps [of ops it])
  moreover have "rev (take (Suc (Suc j)) kvs) = kvs ! Suc j # rev (take (Suc j) kvs)"
    using take_Suc_conv_app_nth [OF Suc.prems(2)] by simp
  ultimately show ?case using it'(2) by auto
qed

text \<open>All three walks.\<close>

lemma walks:
  assumes "R j it"
  shows "\<exists>it1 it'. op_SeekToFirst ops it = Some it1 \<and> scan ops it1 = Some (kvs, it') \<and> R (length kvs) it'"
    "valid k \<Longrightarrow> \<exists>it1 it'. op_Seek ops k it = Some it1 \<and> scan ops it1 = Some (drop (seek_pos cmp k kvs) kvs, it') \<and> R (length kvs) it'"
    "\<exists>it1 it' i. op_SeekToLast ops it = Some it1 \<and> scan_back ops it1 = Some (rev kvs, it') \<and> R i it'"
proof -
  obtain it1 where "op_SeekToFirst ops it = Some it1" "R 0 it1" using first_at [OF assms] by blast
  then show "\<exists>it1 it'. op_SeekToFirst ops it = Some it1 \<and> scan ops it1 = Some (kvs, it') \<and> R (length kvs) it'"
    using scan_at [of 0 it1] by auto
  obtain it1 where l: "op_SeekToLast ops it = Some it1" "R (length kvs - 1) it1" using last_at [OF assms] by blast
  show "\<exists>it1 it' i. op_SeekToLast ops it = Some it1 \<and> scan_back ops it1 = Some (rev kvs, it') \<and> R i it'"
  proof (cases "kvs = []")
    case True
    then show ?thesis using l scan_back_end [OF l(2)] by auto
  next
    case False
    then show ?thesis using l scan_back_at [OF l(2)] by auto
  qed
  assume k: "valid k"
  obtain it1 where it1: "op_Seek ops k it = Some it1" "R (seek_pos cmp k kvs) it1" using seek_at [OF assms k] by blast
  have "seek_pos cmp k kvs \<le> length kvs" by (simp add: seek_pos_def length_takeWhile_le)
  then show "\<exists>it1 it'. op_Seek ops k it = Some it1 \<and> scan ops it1 = Some (drop (seek_pos cmp k kvs) kvs, it') \<and> R (length kvs) it'"
    using it1 scan_at [OF it1(2)] by auto
qed

end

subsection \<open>Tables\<close>

definition walked :: "compare \<Rightarrow> direction \<Rightarrow> (slice \<times> slice) list \<Rightarrow> (slice \<times> slice) list" where
  "walked cmp d kvs = (case d of Forward \<Rightarrow> kvs | From k \<Rightarrow> dropWhile (\<lambda>kv. cmp (fst kv) k < 0) kvs | Backward \<Rightarrow> rev kvs)"

lemma drop_seek: "drop (seek_pos cmp k kvs) kvs = dropWhile (\<lambda>kv. cmp (fst kv) k < 0) kvs"
  by (simp add: seek_pos_def dropWhile_eq_drop)

context table_building
begin

lemma read_table_serves:
  assumes "serves bs seps t" "\<And>ops. cache = Some ops \<Longrightarrow> keeps_blocks ops t bs held room"
    "cache_inv cache held T c" "size T + 1 < room" "\<And>k. d = From k \<Longrightarrow> valid k"
  shows "\<exists>c'. read_table cache t ropt d c = Some (walked cmp d (concat bs), c') \<and> cache_inv cache held T c'"
proof -
  let ?ops = "two_level_ops (table_parts cache t ropt)" and ?kvs = "concat bs"
  obtain R where R: "\<And>T. list_iterator ?ops cmp valid ?kvs (R T)"
    "\<And>T c. cache_inv cache held T c \<Longrightarrow> size T + 1 < room \<Longrightarrow>
       \<exists>it. Table_NewIterator cache t ropt = Some it \<and> R T (length ?kvs) (it, c)"
    "\<And>T j st. R T j st \<Longrightarrow> \<exists>c. TwoLevel_destroy (table_parts cache t ropt) st = Some c \<and> cache_inv cache held T c"
    using table_iterates [OF assms(1,2), where ropt = ropt] by metis
  obtain it where it: "Table_NewIterator cache t ropt = Some it" "R T (length ?kvs) (it, c)" using R(2) [OF assms(3,4)] by blast
  note W = list_iterator.walks [OF R(1) it(2)]
  show ?thesis
  proof (cases d)
    case Forward
    then show ?thesis using it(1) W(1) R(3) by (fastforce simp: read_table_def walked_def Let_def)
  next
    case (From k)
    then show ?thesis using it(1) W(2) [OF assms(5)] R(3) by (fastforce simp: read_table_def walked_def Let_def drop_seek)
  next
    case Backward
    then show ?thesis using it(1) W(3) R(3) by (fastforce simp: read_table_def walked_def Let_def)
  qed
qed

text \<open>The file of a table that was built, and its size.\<close>

lemma built_table_file:
  assumes "kvs_sorted cmp valid kvs" "pairs_size kvs < 2 ^ 26" "length kvs \<le> cap" "stored f = []"
    "\<And>pol. o_filter_policy opt = Some pol \<Longrightarrow> length (fp_Name pol) < 2 ^ 10" "g \<le> 10" "build_table opt fo kvs f = Some (OK, tb)"
  shows "\<exists>bs seps. well_cut bs seps [] \<and> length seps = length bs \<and> concat bs = kvs \<and> stored (tb_file tb) = table_file bs seps \<and>
      FileSize tb = of_nat (length (table_file bs seps)) \<and> length (table_file bs seps) < 2 ^ 32"
    "length (stored (tb_file tb)) < 2 ^ 32" "0 < FileSize tb"
proof -
  have "kvs_ok kvs" using assms(1-3) by (simp add: kvs_ok_def)
  then obtain bs seps where b: "well_cut bs seps []" "length seps = length bs" "concat bs = kvs"
    "stored (tb_file tb) = table_file bs seps" "FileSize tb = of_nat (length (table_file bs seps))"
    using build_writes [OF _ assms(4), of kvs] assms(7) by (auto simp: build_def build_table_def)
  have l: "length (table_file bs seps) < 2 ^ 32" using table_file_size [OF b(1) assms(5,6)] assms(2) b(3) by simp
  then show "\<exists>bs seps. well_cut bs seps [] \<and> length seps = length bs \<and> concat bs = kvs \<and> stored (tb_file tb) = table_file bs seps \<and>
      FileSize tb = of_nat (length (table_file bs seps)) \<and> length (table_file bs seps) < 2 ^ 32" using b by blast
  show "length (stored (tb_file tb)) < 2 ^ 32" unfolding b(4) by (rule l)
  have "0 < length (table_file bs seps)" by (simp add: table_file_def up_to_index_def)
  moreover have "unat (FileSize tb) = length (table_file bs seps)" unfolding b(5) using l by (intro unat_of_nat_id) simp
  ultimately show "0 < FileSize tb" by (simp add: word_less_nat_alt)
qed

text \<open>A table that was built is opened on any file that holds what the builder wrote.\<close>

lemma built_table_opens:
  assumes "kvs_sorted cmp valid kvs" "pairs_size kvs < 2 ^ 26" "length kvs \<le> cap" "stored f = []"
    "\<And>pol. o_filter_policy opt = Some pol \<Longrightarrow> length (fp_Name pol) < 2 ^ 10" "g \<le> 10"
    "build_table opt fo kvs f = Some (OK, tb)" "file_holds fread (stored (tb_file tb))"
  shows "\<exists>bs seps t. concat bs = kvs \<and> Table_Open cache opt fread (FileSize tb) c =
      Some (OK, Some t, (case cache of None \<Rightarrow> c | Some ops \<Rightarrow> snd (ca_NewId ops c))) \<and> serves bs seps t"
proof -
  obtain bs seps where b: "well_cut bs seps []" "length seps = length bs" "concat bs = kvs"
    "stored (tb_file tb) = table_file bs seps" "FileSize tb = of_nat (length (table_file bs seps))" "length (table_file bs seps) < 2 ^ 32"
    using built_table_file(1) [OF assms(1-7)] by auto
  then show ?thesis using Open_serves [OF b(1,2) assms(8) [unfolded b(4)]] by metis
qed

lemma build_table_defined:
  assumes "kvs_sorted cmp valid kvs" "pairs_size kvs < 2 ^ 38" "length kvs \<le> cap" "stored f = []"
  shows "\<exists>st tb. build_table opt fo kvs f = Some (st, tb)"
  using build_writes [OF _ assms(4), of kvs] assms(1-3) by (auto simp: kvs_ok_def build_def build_table_def)

end

subsection \<open>When the writes succeed\<close>

definition reliable :: "'f writable_file \<Rightarrow> bool" where
  "reliable fo \<longleftrightarrow> (\<forall>s f. fst (wf_Append fo s f) = OK) \<and> (\<forall>f. fst (wf_Flush fo f) = OK)"

lemma reliableD: "reliable fo \<Longrightarrow> wf_Append fo s f = (st, f') \<Longrightarrow> st = OK" "reliable fo \<Longrightarrow> wf_Flush fo f = (st, f') \<Longrightarrow> st = OK"
  unfolding reliable_def by (metis fst_conv)+

lemma with_filter_status: "with_filter f tb = Some tb' \<Longrightarrow> tb_status tb' = tb_status tb"
  by (auto simp: with_filter_def split: option.splits bind_splits)

lemma WriteRawBlock_reliable:
  assumes "reliable fo" "WriteRawBlock fo c t tb = Some (h, tb')"
  shows "tb_status tb' = OK"
proof -
  obtain st1 f1 where a: "wf_Append fo c (tb_file tb) = (st1, f1)" by fastforce
  then have "st1 = OK" using reliableD(1) [OF assms(1)] by blast
  then show ?thesis using assms(2) a
    by (auto simp: WriteRawBlock_def Let_def dest: reliableD(1) [OF assms(1)] split: bind_splits prod.splits if_splits)
qed

lemma WriteBlock_reliable: "reliable fo \<Longrightarrow> WriteBlock fo b tb = Some (b', h, tb') \<Longrightarrow> tb_status tb' = OK"
  by (auto simp: WriteBlock_def Let_def dest: WriteRawBlock_reliable split: if_splits prod.splits bind_splits)

lemma Flush_reliable:
  assumes "reliable fo" "tb_status tb = OK" "Flush fo tb = Some tb'"
  shows "tb_status tb' = OK"
proof (cases "bb_buffer (tb_data_block tb) = []")
  case False
  then have "\<not> tb_closed tb" "\<not> tb_pending_index_entry tb" using assms(2,3) by (auto simp: Flush_def tb_ok_def split: if_splits)
  then obtain b h tb1 where w: "WriteBlock fo (tb_data_block tb) tb = Some (b, h, tb1)"
    using assms(2,3) False by (auto simp: Flush_def tb_ok_def split: bind_splits)
  have ok: "tb_status tb1 = OK" by (rule WriteBlock_reliable [OF assms(1) w])
  obtain st f where f: "wf_Flush fo (tb_file tb1) = (st, f)" by fastforce
  then have "st = OK" by (rule reliableD(2) [OF assms(1)])
  then show ?thesis
    using assms(2,3) False w ok f \<open>\<not> tb_closed tb\<close> \<open>\<not> tb_pending_index_entry tb\<close>
    by (auto simp: Flush_def tb_ok_def Let_def dest: with_filter_status)
qed (use assms(2,3) in \<open>auto simp: Flush_def tb_ok_def split: if_splits\<close>)

lemma add_index_entry_status: "add_index_entry k tb = Some tb' \<Longrightarrow> tb_status tb' = tb_status tb"
  by (auto simp: add_index_entry_def split: bind_splits)

lemma Add_reliable:
  assumes "reliable fo" "tb_status tb = OK" "TableBuilder_Add fo k v tb = Some tb'"
  shows "tb_status tb' = OK"
proof -
  have F: "tb_status t' = OK" if "Flush fo t = Some t'" "tb_status t = OK" for t t' by (rule Flush_reliable [OF assms(1) that(2,1)])
  show ?thesis using assms(2,3)
    by (auto simp: TableBuilder_Add_def tb_ok_def Let_def Option.bind_eq_Some_conv split: if_splits
        dest!: add_index_entry_status with_filter_status F)
qed

lemma add_pairs_reliable: "reliable fo \<Longrightarrow> tb_status tb = OK \<Longrightarrow> add_pairs fo kvs tb = Some tb' \<Longrightarrow> tb_status tb' = OK"
  by (induction fo kvs tb rule: add_pairs.induct) (auto split: bind_splits dest: Add_reliable)

lemma build_table_reliable:
  assumes "reliable fo" "build_table opt fo kvs f = Some (st, tb)"
  shows "st = OK"
proof -
  obtain tb0 tb1 where t: "TableBuilder opt f = Some tb0" "add_pairs fo kvs tb0 = Some tb1" "TableBuilder_Finish fo tb1 = Some (st, tb)"
    using assms(2) by (auto simp: build_table_def split: bind_splits)
  have "tb_status tb0 = OK" using t(1) by (auto simp: TableBuilder_def Let_def dest: with_filter_status split: bind_splits)
  then have o1: "tb_status tb1 = OK" by (rule add_pairs_reliable [OF assms(1) _ t(2)])
  obtain tb2 h3 tb3 h4 tb4 h5 tb5 where f: "Flush fo tb1 = Some tb2" "write_filter_block fo (tb2\<lparr>tb_closed := True\<rparr>) = Some (h3, tb3)"
    "write_metaindex_block fo h3 tb3 = Some (h4, tb4)" "write_index_block fo tb4 = Some (h5, tb5)"
    "write_footer fo h4 h5 tb5 = Some tb" "st = tb_status tb"
    using t(3) by (auto simp: TableBuilder_Finish_def split: bind_splits if_splits)
  have "tb_status tb2 = OK" by (rule Flush_reliable [OF assms(1) o1 f(1)])
  then have "tb_status tb3 = OK"
    using f(2) by (auto simp: write_filter_block_def split: option.splits bind_splits if_splits dest: WriteRawBlock_reliable [OF assms(1)])
  then have "tb_status tb4 = OK"
    using f(3) by (auto simp: write_metaindex_block_def tb_ok_def split: bind_splits dest: WriteBlock_reliable [OF assms(1)])
  then have "tb_status tb5 = OK"
    using f(4) by (auto simp: write_index_block_def tb_ok_def split: bind_splits dest: WriteBlock_reliable [OF assms(1)])
  then show ?thesis using f(5,6)
    by (auto simp: write_footer_def tb_ok_def Let_def split: bind_splits prod.splits dest: reliableD(1) [OF assms(1)])
qed

subsection \<open>When a write fails\<close>

text \<open>
  The statuses that a stream has answered so far, as a function of its state. After answers that all were good and at most one
  failure, the last answer, which is the status the builder has, no call is made any more.
\<close>

definition records :: "'f writable_file \<Rightarrow> ('f \<Rightarrow> status list) \<Rightarrow> bool" where
  "records fo answers \<longleftrightarrow> (\<forall>s f. answers (snd (wf_Append fo s f)) = answers f @ [fst (wf_Append fo s f)]) \<and>
     (\<forall>f. answers (snd (wf_Flush fo f)) = answers f @ [fst (wf_Flush fo f)])"

definition reported :: "('f \<Rightarrow> status list) \<Rightarrow> 'f \<Rightarrow> status \<Rightarrow> bool" where
  "reported answers f st \<longleftrightarrow> (\<exists>n. answers f = replicate n OK @ (if st = OK then [] else [st]))"

lemma reported_call:
  assumes "records fo answers" "reported answers f OK"
  shows "wf_Append fo s f = (st, f') \<Longrightarrow> reported answers f' st" "wf_Flush fo f = (st, f') \<Longrightarrow> reported answers f' st"
proof -
  obtain n where n: "answers f = replicate n OK" using assms(2) by (auto simp: reported_def)
  have r: "reported answers f' st" if "answers f' = answers f @ [st]"
  proof (cases "st = OK")
    case True
    then have "answers f' = replicate (Suc n) OK" using that n by (simp add: replicate_append_same)
    then show ?thesis using True unfolding reported_def by (metis append_Nil2)
  qed (use that n in \<open>auto simp: reported_def\<close>)
  show "wf_Append fo s f = (st, f') \<Longrightarrow> reported answers f' st" "wf_Flush fo f = (st, f') \<Longrightarrow> reported answers f' st"
    using assms(1) r unfolding records_def by (metis fst_conv snd_conv)+
qed

abbreviation tells :: "('f \<Rightarrow> status list) \<Rightarrow> 'f table_builder \<Rightarrow> bool" where "tells answers tb \<equiv> reported answers (tb_file tb) (tb_status tb)"

lemma WriteRawBlock_tells:
  assumes "records fo answers" "reported answers (tb_file tb) OK" "WriteRawBlock fo c t tb = Some (h, tb')"
  shows "tells answers tb'"
proof -
  obtain st1 f1 where a: "wf_Append fo c (tb_file tb) = (st1, f1)" by fastforce
  have r: "reported answers f1 st1" using reported_call(1) [OF assms(1) _ a] assms(2) by simp
  show ?thesis
  proof (cases "st1 = OK")
    case False
    then show ?thesis using assms(3) a r by (auto simp: WriteRawBlock_def Let_def)
  next
    case True
    then show ?thesis using assms(3) a r
      by (auto simp: WriteRawBlock_def Let_def dest: reported_call(1) [OF assms(1)] split: bind_splits prod.splits if_splits)
  qed
qed

lemma WriteBlock_tells:
  "records fo answers \<Longrightarrow> tells answers tb \<Longrightarrow> WriteBlock fo b tb = Some (b', h, tb') \<Longrightarrow> tells answers tb'"
  by (auto simp: WriteBlock_def tb_ok_def Let_def dest: WriteRawBlock_tells split: if_splits prod.splits bind_splits)

lemma with_filter_file: "with_filter f tb = Some tb' \<Longrightarrow> tb_file tb' = tb_file tb \<and> tb_status tb' = tb_status tb"
  by (auto simp: with_filter_def split: option.splits bind_splits)

lemma Flush_tells:
  assumes "records fo answers" "tells answers tb" "Flush fo tb = Some tb'"
  shows "tells answers tb'"
proof (cases "bb_buffer (tb_data_block tb) = [] \<or> tb_status tb \<noteq> OK")
  case False
  then have "\<not> tb_closed tb" "\<not> tb_pending_index_entry tb" using assms(3) by (auto simp: Flush_def tb_ok_def split: if_splits)
  then obtain b h tb1 where w: "WriteBlock fo (tb_data_block tb) tb = Some (b, h, tb1)"
    using assms(3) False by (auto simp: Flush_def tb_ok_def split: bind_splits)
  have t1: "tells answers tb1" by (rule WriteBlock_tells [OF assms(1,2) w])
  obtain st f where f: "wf_Flush fo (tb_file tb1) = (st, f)" by fastforce
  have "reported answers f st" if "tb_status tb1 = OK" using reported_call(2) [OF assms(1) _ f] t1 that by simp
  then show ?thesis
    using assms(3) False w f t1 \<open>\<not> tb_closed tb\<close> \<open>\<not> tb_pending_index_entry tb\<close>
    by (auto simp: Flush_def tb_ok_def Let_def split: if_splits dest!: with_filter_file)
qed (use assms(2,3) in \<open>auto simp: Flush_def tb_ok_def split: if_splits\<close>)

lemma add_index_entry_file: "add_index_entry k tb = Some tb' \<Longrightarrow> tb_file tb' = tb_file tb \<and> tb_status tb' = tb_status tb"
  by (auto simp: add_index_entry_def split: bind_splits)

lemma Add_tells:
  assumes "records fo answers" "tells answers tb" "TableBuilder_Add fo k v tb = Some tb'"
  shows "tells answers tb'"
proof -
  have F: "tells answers t'" if "Flush fo t = Some t'" "tells answers t" for t t' by (rule Flush_tells [OF assms(1) that(2,1)])
  show ?thesis using assms(2,3)
    by (auto simp: TableBuilder_Add_def Let_def Option.bind_eq_Some_conv split: if_splits
        dest!: add_index_entry_file with_filter_file F)
qed

lemma add_pairs_tells: "records fo answers \<Longrightarrow> tells answers tb \<Longrightarrow> add_pairs fo kvs tb = Some tb' \<Longrightarrow> tells answers tb'"
  by (induction fo kvs tb rule: add_pairs.induct) (auto split: bind_splits dest: Add_tells)

lemma build_table_tells:
  assumes "records fo answers" "answers f = []" "build_table opt fo kvs f = Some (st, tb)"
  shows "reported answers (tb_file tb) st"
proof -
  obtain tb0 tb1 where t: "TableBuilder opt f = Some tb0" "add_pairs fo kvs tb0 = Some tb1" "TableBuilder_Finish fo tb1 = Some (st, tb)"
    using assms(3) by (auto simp: build_table_def split: bind_splits)
  have "tb_file tb0 = f" "tb_status tb0 = OK" using t(1) by (auto simp: TableBuilder_def Let_def dest: with_filter_file split: bind_splits)
  then have "tells answers tb0" using assms(2) by (simp add: reported_def)
  then have o1: "tells answers tb1" by (rule add_pairs_tells [OF assms(1) _ t(2)])
  obtain tb2 h3 tb3 h4 tb4 h5 tb5 where f: "Flush fo tb1 = Some tb2" "write_filter_block fo (tb2\<lparr>tb_closed := True\<rparr>) = Some (h3, tb3)"
    "write_metaindex_block fo h3 tb3 = Some (h4, tb4)" "write_index_block fo tb4 = Some (h5, tb5)"
    "write_footer fo h4 h5 tb5 = Some tb" "st = tb_status tb"
    using t(3) by (auto simp: TableBuilder_Finish_def split: bind_splits if_splits)
  have "tells answers (tb2\<lparr>tb_closed := True\<rparr>)" using Flush_tells [OF assms(1) o1 f(1)] by simp
  then have "tells answers tb3"
    using f(2) WriteRawBlock_tells [OF assms(1), of "tb2\<lparr>tb_closed := True\<rparr>"]
    by (auto simp: write_filter_block_def tb_ok_def split: option.splits bind_splits if_splits)
  then have "tells answers tb4"
    using f(3) by (auto simp: write_metaindex_block_def split: bind_splits if_splits dest: WriteBlock_tells [OF assms(1)])
  then have t5: "tells answers tb5"
    using f(4) by (auto simp: write_index_block_def Option.bind_eq_Some_conv split: if_splits
        dest!: add_index_entry_file WriteBlock_tells [OF assms(1), rotated])
  show ?thesis
  proof (cases "tb_status tb5 = OK")
    case True
    then show ?thesis using f(5,6) t5
      by (auto simp: write_footer_def tb_ok_def Let_def split: bind_splits prod.splits if_splits dest: reported_call(1) [OF assms(1)])
  qed (use f(5,6) t5 in \<open>auto simp: write_footer_def tb_ok_def\<close>)
qed

text \<open>A builder that is finished is closed, and its status is the answer.\<close>

lemma WriteRawBlock_closed: "WriteRawBlock fo c t tb = Some (h, tb') \<Longrightarrow> tb_closed tb' = tb_closed tb"
  by (auto simp: WriteRawBlock_def Let_def split: bind_splits prod.splits if_splits)

lemma WriteBlock_closed: "WriteBlock fo b tb = Some (b', h, tb') \<Longrightarrow> tb_closed tb' = tb_closed tb"
  by (auto simp: WriteBlock_def Let_def dest: WriteRawBlock_closed split: if_splits prod.splits bind_splits)

lemma add_index_entry_closed: "add_index_entry k tb = Some tb' \<Longrightarrow> tb_closed tb' = tb_closed tb"
  by (auto simp: add_index_entry_def split: bind_splits)

lemma Finish_closes:
  assumes "TableBuilder_Finish fo tb = Some (st, tb')"
  shows "st = tb_status tb' \<and> tb_closed tb'"
proof -
  obtain tb2 h3 tb3 h4 tb4 h5 tb5 where f: "write_filter_block fo (tb2\<lparr>tb_closed := True\<rparr>) = Some (h3, tb3)"
    "write_metaindex_block fo h3 tb3 = Some (h4, tb4)" "write_index_block fo tb4 = Some (h5, tb5)"
    "write_footer fo h4 h5 tb5 = Some tb'" "st = tb_status tb'"
    using assms by (auto simp: TableBuilder_Finish_def split: bind_splits if_splits)
  have "tb_closed tb3"
    using f(1) by (auto simp: write_filter_block_def split: option.splits bind_splits if_splits dest: WriteRawBlock_closed)
  then have "tb_closed tb4" using f(2) by (auto simp: write_metaindex_block_def split: bind_splits if_splits dest: WriteBlock_closed)
  then have "tb_closed tb5"
    using f(3) by (auto simp: write_index_block_def split: bind_splits if_splits dest: WriteBlock_closed add_index_entry_closed)
  then show ?thesis using f(4,5) by (auto simp: write_footer_def Let_def split: bind_splits prod.splits if_splits)
qed

lemma build_table_closed: "build_table opt fo kvs f = Some (st, tb) \<Longrightarrow> st = tb_status tb \<and> tb_closed tb"
  by (auto simp: build_table_def dest: Finish_closes split: bind_splits)

end
