(* ===== verification/Lv_Table_Correct.thy ===== *)
theory Lv_Table_Correct
  imports Lv_Cache_Correct Lv_Table_Client Lv_Filename
begin

section \<open>What tables guarantee\<close>

text \<open>
  The properties of sorted tables: what is written to one is read from it, in both directions and by lookups, through the LRU
  cache; damaged blocks are reported; and what the footer and the file names print is what they parse.
\<close>

subsection \<open>Lookups of keys\<close>

context table_building
begin

lemma seek_pos_key:
  assumes "kvs_sorted cmp valid kvs" "i < length kvs"
  shows "seek_pos cmp (fst (kvs ! i)) kvs = i"
proof -
  have s: "sorted_wrt (\<lambda>a b. cmp (fst a) (fst b) < 0) kvs" and v: "valid (fst (kvs ! i))" using assms by (simp_all add: kvs_sorted_def)
  have "takeWhile (\<lambda>kv. cmp (fst kv) (fst (kvs ! i)) < 0) (take i kvs @ kvs ! i # drop (Suc i) kvs) = take i kvs"
  proof (subst takeWhile_append2)
    fix kv assume "kv \<in> set (take i kvs)"
    then obtain m where m: "m < i" "kv = kvs ! m" by (auto simp: in_set_conv_nth)
    show "cmp (fst kv) (fst (kvs ! i)) < 0" using s m assms(2) by (simp add: sorted_wrt_iff_nth_less)
  qed (simp add: cmp_self [OF v])
  then show ?thesis using assms(2) id_take_nth_drop [OF assms(2)] by (simp add: seek_pos_def)
qed

lemma get_value_serves:
  assumes "serves bs seps t" "\<And>ops. cache = Some ops \<Longrightarrow> keeps_blocks ops t bs held room"
    "cache_inv cache held T c" "valid k" "size T < room" "kvs_sorted cmp valid (concat bs)"
  shows "\<exists>c'. get_value cache t ropt k c = Some (map_of (concat bs) k, c') \<and> cache_inv cache held T c'"
proof -
  let ?kvs = "concat bs" and ?j = "seek_pos cmp k (concat bs)"
  obtain saved c' where g: "InternalGet cache t ropt k c = Some (OK, saved, c')" "cache_inv cache held T c'"
    "\<forall>x. saved = Some x \<longrightarrow> ?j < length ?kvs \<and> x = ?kvs ! ?j"
    "?j < length ?kvs \<and>
     (\<forall>pol f. o_filter_policy opt = Some pol \<longrightarrow> fp_KeyMayMatch pol (fst (?kvs ! ?j)) f \<longrightarrow> fp_KeyMayMatch pol k f) \<and>
     (\<forall>a s. valid a \<and> cmp a k < 0 \<and> sep a (fst (?kvs ! ?j)) = Some s \<longrightarrow> cmp s k < 0) \<longrightarrow> saved = Some (?kvs ! ?j)"
    using InternalGet_serves [OF assms(1-5), where ropt = ropt] by blast
  have "(case saved of Some (k', v) \<Rightarrow> if k' = k then Some v else None | None \<Rightarrow> None) = map_of ?kvs k"
  proof (cases "map_of ?kvs k")
    case None
    then have no: "k \<notin> fst ` set ?kvs" using map_of_eq_None_iff [of ?kvs k] by blast
    have "fst x \<noteq> k" if "saved = Some x" for x using g(3) that no nth_mem by (metis (no_types, lifting) image_eqI)
    then show ?thesis using None by (auto split: option.splits)
  next
    case (Some v)
    then obtain i where i: "i < length ?kvs" "?kvs ! i = (k, v)" using map_of_SomeD in_set_conv_nth by metis
    have j: "?j = i" using seek_pos_key [OF assms(6) i(1)] i(2) by simp
    have "\<forall>a s. valid a \<and> cmp a k < 0 \<and> sep a k = Some s \<longrightarrow> cmp s k < 0" using separates assms(4) by fastforce
    then have "saved = Some (k, v)" using g(4) i unfolding j by simp
    then show ?thesis using Some by simp
  qed
  then show ?thesis using g(1,2) by (simp add: get_value_def)
qed

end

subsection \<open>Any use of a table\<close>

text \<open>Walks and lookups in any order, with the cache they share.\<close>

datatype table_use = Walk direction | Get slice

datatype table_answer = Pairs "(slice \<times> slice) list" | Value "slice option"

fun use_table :: "('c, 'h) block_cache \<Rightarrow> table \<Rightarrow> read_options \<Rightarrow> table_use list \<Rightarrow> 'c \<Rightarrow> (table_answer list \<times> 'c) option" where
  "use_table cache t ropt [] c = Some ([], c)"
| "use_table cache t ropt (u # us) c =
     do {
       (r, c1) \<leftarrow> (case u of
           Walk d \<Rightarrow> do { (kvs, c1) \<leftarrow> read_table cache t ropt d c; Some (Pairs kvs, c1) }
         | Get k \<Rightarrow> do { (v, c1) \<leftarrow> get_value cache t ropt k c; Some (Value v, c1) });
       (rs, c2) \<leftarrow> use_table cache t ropt us c1;
       Some (r # rs, c2)
     }"

definition answer :: "compare \<Rightarrow> (slice \<times> slice) list \<Rightarrow> table_use \<Rightarrow> table_answer" where
  "answer cmp kvs u = (case u of Walk d \<Rightarrow> Pairs (walked cmp d kvs) | Get k \<Rightarrow> Value (map_of kvs k))"

definition use_valid :: "(slice \<Rightarrow> bool) \<Rightarrow> table_use \<Rightarrow> bool" where
  "use_valid valid u \<longleftrightarrow> (case u of Walk (From k) \<Rightarrow> valid k | Get k \<Rightarrow> valid k | _ \<Rightarrow> True)"

lemma length_pairs_size: "length kvs \<le> pairs_size kvs"
  by (induction kvs) (auto simp: pairs_size_def)

context table_building
begin

lemma use_table_serves:
  assumes "serves bs seps t" "\<And>ops. cache = Some ops \<Longrightarrow> keeps_blocks ops t bs held room"
    "cache_inv cache held T c" "\<forall>u \<in> set us. use_valid valid u" "size T + 1 < room" "kvs_sorted cmp valid (concat bs)"
  shows "\<exists>c'. use_table cache t ropt us c = Some (map (answer cmp (concat bs)) us, c') \<and> cache_inv cache held T c'"
  using assms(3,4)
proof (induction us arbitrary: c)
  case (Cons u us)
  have "\<exists>c1. (case u of
           Walk d \<Rightarrow> do { (kvs, c1) \<leftarrow> read_table cache t ropt d c; Some (Pairs kvs, c1) }
         | Get k \<Rightarrow> do { (v, c1) \<leftarrow> get_value cache t ropt k c; Some (Value v, c1) }) = Some (answer cmp (concat bs) u, c1) \<and>
      cache_inv cache held T c1"
  proof (cases u)
    case (Walk d)
    then have v: "valid k" if "d = From k" for k using Cons.prems(2) that by (simp add: use_valid_def)
    obtain c1 where "read_table cache t ropt d c = Some (walked cmp d (concat bs), c1)" "cache_inv cache held T c1"
      using read_table_serves [OF assms(1,2) Cons.prems(1) assms(5) v] by blast
    then show ?thesis using Walk by (simp add: answer_def)
  next
    case (Get k)
    then have v: "valid k" using Cons.prems(2) by (simp add: use_valid_def)
    have r: "size T < room" using assms(5) by simp
    obtain c1 where "get_value cache t ropt k c = Some (map_of (concat bs) k, c1)" "cache_inv cache held T c1"
      using get_value_serves [OF assms(1,2) Cons.prems(1) v r assms(6)] by blast
    then show ?thesis using Get by (simp add: answer_def)
  qed
  then obtain c1 where c1: "(case u of
           Walk d \<Rightarrow> do { (kvs, c1) \<leftarrow> read_table cache t ropt d c; Some (Pairs kvs, c1) }
         | Get k \<Rightarrow> do { (v, c1) \<leftarrow> get_value cache t ropt k c; Some (Value v, c1) }) = Some (answer cmp (concat bs) u, c1)"
      "cache_inv cache held T c1" by blast
  obtain c' where "use_table cache t ropt us c1 = Some (map (answer cmp (concat bs)) us, c')" "cache_inv cache held T c'"
    using Cons.IH [OF c1(2)] Cons.prems(2) by auto
  then show ?case using c1(1) by simp
qed simp

text \<open>The whole way: building, opening with the LRU cache, and any use.\<close>

lemma table_used:
  assumes "kvs_sorted cmp valid kvs" "pairs_size kvs < 2 ^ 26" "2 ^ 26 \<le> cap" "stored f = []"
    "\<And>pol. o_filter_policy opt = Some pol \<Longrightarrow> length (fp_Name pol) < 2 ^ 10" "g \<le> 10"
    "build_table opt fo kvs f = Some (OK, tb)" "file_holds fread (stored (tb_file tb))"
    "0 < capacity" "unat capacity \<le> 2 ^ 34" "\<forall>u \<in> set us. use_valid valid u"
  shows "\<exists>c t c1 c2. ShardedLRUCache capacity empty_heap = Some c \<and>
    Table_Open (Some lru_block_cache) opt fread (FileSize tb) c = Some (OK, Some t, c1) \<and>
    use_table (Some lru_block_cache) t ropt us c1 = Some (map (answer cmp kvs) us, c2)"
proof -
  have l: "length kvs \<le> cap" using length_pairs_size [of kvs] assms(2,3) by linarith
  obtain c :: "block sharded_cache" where c: "ShardedLRUCache capacity empty_heap = Some c" using new_cache [OF assms(9,10)] by blast
  obtain bs seps t where o: "concat bs = kvs" "serves bs seps t"
    "Table_Open (Some lru_block_cache) opt fread (FileSize tb) c = Some (OK, Some t, snd (cache_NewId c))"
    using built_table_opens [OF assms(1,2) l assms(4-8), of "Some lru_block_cache" c] by auto
  have new: "cache_held (good_block t bs) {#} c" using new_cache [OF assms(9,10), of "good_block t bs"] c by simp
  have i: "cache_inv (Some lru_block_cache) (cache_held (good_block t bs)) {#} (snd (cache_NewId c))"
    using cache_NewId_spec [OF new] by (simp add: cache_inv_def)
  have u: "\<exists>c2. use_table (Some lru_block_cache) t ropt us (snd (cache_NewId c)) = Some (map (answer cmp kvs) us, c2)"
    using use_table_serves [OF o(2) _ i assms(11), where room = "2 ^ 30 - 1" and ropt = ropt]
      keeps_blocksI [OF o(2) lru_blocks.cache_contract_axioms] assms(1) unfolding o(1) by fastforce
  then show ?thesis using c o(3) by blast
qed

end

subsection \<open>Tables over plain keys and over internal keys\<close>

lemma policy_name_small:
  "o_filter_policy (plain_options bsize b) = Some pol \<Longrightarrow> length (fp_Name pol) < 2 ^ 10"
  "o_filter_policy (db_options bsize b) = Some pol \<Longrightarrow> length (fp_Name pol) < 2 ^ 10"
  by (auto simp: policy_names split: if_splits)

lemma all_uses_valid: "\<forall>u \<in> set us. use_valid (\<lambda>_. True) u"
  by (simp add: use_valid_def split: table_use.split direction.split)

text \<open>
  C30. Whatever is put into a table comes out of it. The pairs, in the order of their keys, are given to a table builder that
  writes to a POSIX stream, with any block size, with or without the Bloom filter. The pairs may take up to 64 MiB, counted by \<open>pairs_size\<close>.
  If the builder reports success, the file it wrote can be opened by its size, with a new LRU cache of any capacity from 1 to 16 GiB, and then every sequence of
  walks (forward, from a key, backward) and lookups gives exactly the pairs that were put in, in order, and for each key
  its value or nothing; the uses share the cache and never meet undefined behaviour.
\<close>

theorem table_gives_back:
  assumes "stream_ok os fd stored" "stored o1 = []" "kvs_sorted Slice_compare (\<lambda>_. True) kvs" "pairs_size kvs < 2 ^ 26"
    "build_table (plain_options bsize bloom) (posix_writable_file os name fd) kvs o1 = Some (OK, tb)"
    "file_holds fread (stored (tb_file tb))" "0 < capacity" "unat capacity \<le> 2 ^ 34"
  shows "\<exists>c t c1 c2. ShardedLRUCache capacity empty_heap = Some c \<and>
    Table_Open (Some lru_block_cache) (plain_options bsize bloom) fread (FileSize tb) c = Some (OK, Some t, c1) \<and>
    use_table (Some lru_block_cache) t ropt us c1 = Some (map (answer Slice_compare kvs) us, c2)"
  by (rule table_building.table_used [OF plain_tables [OF assms(1)] assms(3,4) _ assms(2) _ _ assms(5-8) all_uses_valid];
      (erule policy_name_small(1) | simp))

text \<open>The file the builder wrote is in memory here; a read within it gives its bytes.\<close>

definition memory_file :: "slice \<Rightarrow> file_read" where
  "memory_file bytes = mmap_reads memory_posix \<lparr>mm_filename = [], mm_base = 0, mm_bytes = bytes\<rparr>"

lemma memory_file_holds: "length bytes < 2 ^ 32 \<Longrightarrow> file_holds (memory_file bytes) bytes"
  unfolding memory_file_def using mmap_file_holds [of "\<lparr>mm_filename = [], mm_base = 0, mm_bytes = bytes\<rparr>" memory_posix] by simp

lemma memory_reliable: "reliable (posix_writable_file memory_posix name fd)"
  by (simp add: reliable_def posix_writable_file_def Writable_Append_def Writable_Flush_def memory_posix_def)

lemma memory_built:
  assumes "table_building cmp valid sep shorten opt (posix_writable_file memory_posix name fd) (\<lambda>o1. o1) cap g"
    "kvs_sorted cmp valid kvs" "pairs_size kvs < 2 ^ 26" "2 ^ 26 \<le> cap"
    "\<And>pol. o_filter_policy opt = Some pol \<Longrightarrow> length (fp_Name pol) < 2 ^ 10" "g \<le> 10"
  shows "\<exists>tb. build_table opt (posix_writable_file memory_posix name fd) kvs [] = Some (OK, tb) \<and>
    file_holds (memory_file (tb_file tb)) (tb_file tb)"
proof -
  have l: "length kvs \<le> cap" using length_pairs_size [of kvs] assms(3,4) by linarith
  obtain st tb where b: "build_table opt (posix_writable_file memory_posix name fd) kvs [] = Some (st, tb)"
    using table_building.build_table_defined [OF assms(1,2) _ l, of "[]"] assms(3) by auto
  then have ok: "st = OK" by (rule build_table_reliable [OF memory_reliable])
  then show ?thesis
    using b table_building.built_table_file(2) [OF assms(1,2,3) l _ assms(5,6), of "[]" tb] memory_file_holds by auto
qed

definition some_pairs :: "(slice \<times> slice) list" where "some_pairs = [([1], [10]), ([1, 2], []), ([3], [30, 31])]"

lemma some_pairs_ok: "kvs_sorted Slice_compare (\<lambda>_. True) some_pairs" "pairs_size some_pairs < 2 ^ 26"
proof -
  show "kvs_sorted Slice_compare (\<lambda>_. True) some_pairs" by (simp add: some_pairs_def kvs_sorted_def)
  have "pairs_size some_pairs = 64" by (simp add: some_pairs_def)
  then show "pairs_size some_pairs < 2 ^ 26" by simp
qed

theorem table_gives_back_witness:
  "\<exists>tb c t c1 c2. build_table (plain_options 1 True) (posix_writable_file memory_posix [] 0) some_pairs [] = Some (OK, tb) \<and>
    ShardedLRUCache 1 empty_heap = Some c \<and>
    Table_Open (Some lru_block_cache) (plain_options 1 True) (memory_file (tb_file tb)) (FileSize tb) c = Some (OK, Some t, c1) \<and>
    use_table (Some lru_block_cache) t \<lparr>ro_verify_checksums = True, ro_fill_cache = True\<rparr> [Get [1, 2], Walk Backward, Get [2]] c1 =
      Some ([Value (Some []), Pairs [([3], [30, 31]), ([1, 2], []), ([1], [10])], Value None], c2)"
proof -
  obtain tb where tb: "build_table (plain_options 1 True) (posix_writable_file memory_posix [] 0) some_pairs [] = Some (OK, tb)"
    "file_holds (memory_file (tb_file tb)) (tb_file tb)"
    using memory_built [OF plain_tables [OF memory_stream] some_pairs_ok] policy_name_small(1) by fastforce
  have a: "map (answer Slice_compare some_pairs) [Get [1, 2], Walk Backward, Get [2]] =
    [Value (Some []), Pairs [([3], [30, 31]), ([1, 2], []), ([1], [10])], Value None]" by (simp add: answer_def walked_def some_pairs_def)
  show ?thesis
    using table_gives_back [OF memory_stream refl some_pairs_ok tb, of 1 "\<lparr>ro_verify_checksums = True, ro_fill_cache = True\<rparr>"
      "[Get [1, 2], Walk Backward, Get [2]]"] tb(1) unfolding a by simp
qed

text \<open>
  C32. Building a table is defined, and reports what the file answered. For every list of pairs in the order of their internal
  keys, of less than 256 GiB, every block size, with or without the filter over user keys, and whatever the stream answers to
  each call, none of the builder's assertions fails and every call returns. All the answers up to the last one were good; if
  the last one was a failure it is the status that the builder returns, and no call was made on the file after it; and if the
  builder returns a failure it was the file's. So a file that takes everything makes the builder succeed. (\<open>answers\<close> is the
  history of the stream's answers, kept in its state.)
\<close>

theorem table_build_reports:
  assumes "stream_ok os fd stored" "records (posix_writable_file os name fd) answers" "stored o1 = []" "answers o1 = []"
    "kvs_sorted (internal_compare Slice_compare) (internal_valid (\<lambda>_. True)) kvs" "pairs_size kvs < 2 ^ 38" "length kvs < 2 ^ 31"
  shows "\<exists>st tb n. build_table (db_options bsize bloom) (posix_writable_file os name fd) kvs o1 = Some (st, tb) \<and> tb_closed tb \<and>
    answers (tb_file tb) = replicate n OK @ (if st = OK then [] else [st]) \<and> (reliable (posix_writable_file os name fd) \<longrightarrow> st = OK)"
proof -
  have l: "length kvs \<le> 2 ^ 31 - 1" using assms(7) by simp
  obtain st tb where b: "build_table (db_options bsize bloom) (posix_writable_file os name fd) kvs o1 = Some (st, tb)"
    using table_building.build_table_defined [OF db_tables [OF assms(1)] assms(5,6) l assms(3)] by blast
  moreover have "reliable (posix_writable_file os name fd) \<Longrightarrow> st = OK" using build_table_reliable [OF _ b] by blast
  moreover obtain n where "answers (tb_file tb) = replicate n OK @ (if st = OK then [] else [st])"
    using build_table_tells [OF assms(2,4) b] unfolding reported_def by blast
  ultimately show ?thesis using build_table_closed [OF b] by blast
qed

definition db_pairs :: "(slice \<times> slice) list" where
  "db_pairs = [([1] @ EncodeFixed64 0x701, [10]), ([1] @ EncodeFixed64 0x600, []), ([2] @ EncodeFixed64 0x501, [20])]"

lemma db_pairs_ok: "kvs_sorted (internal_compare Slice_compare) (internal_valid (\<lambda>_. True)) db_pairs" "pairs_size db_pairs < 2 ^ 26"
  "length db_pairs = 3"
proof -
  have v: "internal_valid (\<lambda>_. True) (u @ EncodeFixed64 t)" for u t by (simp add: internal_valid_def)
  have "internal_compare Slice_compare (c # EncodeFixed64 s) (d # EncodeFixed64 t) < 0 \<longleftrightarrow> c < d \<or> c = d \<and> t < s" for c d s t
    using bytewise.internal_less [OF v v, of "[c]" s "[d]" t] ik_parts [of "[c]" s] ik_parts [of "[d]" t] by auto
  moreover have "internal_valid (\<lambda>_. True) (c # EncodeFixed64 t)" for c t using v [of "[c]" t] by simp
  ultimately show "kvs_sorted (internal_compare Slice_compare) (internal_valid (\<lambda>_. True)) db_pairs"
    by (simp add: db_pairs_def kvs_sorted_def)
  have "pairs_size db_pairs = 86" by (simp add: db_pairs_def)
  then show "pairs_size db_pairs < 2 ^ 26" by simp
  show "length db_pairs = 3" by (simp add: db_pairs_def)
qed

text \<open>A disk without room: every write fails, and the first failure ends the building.\<close>

definition full_posix :: "(slice \<times> status list) posix" where
  "full_posix =
     \<lparr>os_fread = (\<lambda>f n o1. ([], o1)), os_feof = (\<lambda>f o1. True), os_fseek_cur = (\<lambda>f n o1. (0, o1)),
      os_fwrite = (\<lambda>f bytes (b, h). if bytes = [] then (0, b, h @ [OK]) else (0, b, h @ [IOError [] []])),
      os_fflush = (\<lambda>f (b, h). (0, b, h @ [OK])), os_fclose = (\<lambda>f o1. (0, o1)), os_fdatasync = (\<lambda>f o1. (0, o1)),
      os_open = (\<lambda>name o1. (0, o1)), os_close = (\<lambda>fd o1. o1), os_fsync = (\<lambda>fd o1. (0, o1)),
      os_pread = (\<lambda>fd n offset o1. (None, o1)), os_errno = (\<lambda>o1. 28), os_strerror = (\<lambda>e. [])\<rparr>"

lemma full_stream: "stream_ok full_posix fd (\<lambda>o1. [])" "records (posix_writable_file full_posix [] fd) snd"
  by (auto simp: stream_ok_def records_def full_posix_def posix_writable_file_def Writable_Append_def Writable_Flush_def posix_error_def Let_def
      split: if_splits)

lemma full_fails:
  assumes "build_table (db_options bsize bloom) (posix_writable_file full_posix [] 0) db_pairs ([], []) = Some (st, tb)"
  shows "st \<noteq> OK"
proof
  note T = db_tables [OF full_stream(1) [of 0], of bsize bloom "[]"]
  assume "st = OK"
  with assms have ok: "build_table (db_options bsize bloom) (posix_writable_file full_posix [] 0) db_pairs ([], []) = Some (OK, tb)" by simp
  have l: "length db_pairs \<le> 2 ^ 31 - 1" using db_pairs_ok(3) by simp
  have p: "length (fp_Name pol) < 2 ^ 10" if "o_filter_policy (db_options bsize bloom) = Some pol" for pol
    using policy_name_small(2) [OF that] .
  have "(10 :: nat) \<le> 10" by simp
  note F = table_building.built_table_file [OF T db_pairs_ok(1,2) l refl p this ok]
  show False using F(1,3) by auto
qed

theorem table_build_reports_witness:
  "\<exists>st tb n. build_table (db_options 1 False) (posix_writable_file full_posix [] 0) db_pairs ([], []) = Some (st, tb) \<and> st \<noteq> OK \<and>
    tb_closed tb \<and> snd (tb_file tb) = replicate n OK @ [st]"
proof -
  have sz: "pairs_size db_pairs < 2 ^ 38" "length db_pairs < 2 ^ 31" using db_pairs_ok(2,3) by simp_all
  obtain st tb n where b: "build_table (db_options 1 False) (posix_writable_file full_posix [] 0) db_pairs ([], []) = Some (st, tb)" "tb_closed tb"
    "snd (tb_file tb) = replicate n OK @ (if st = OK then [] else [st])"
    using table_build_reports [OF full_stream(1) [of 0] full_stream(2) [of 0] refl _ db_pairs_ok(1) sz, of "([], [])" 1 False] by fastforce
  then show ?thesis using full_fails [OF b(1)] by auto
qed

text \<open>
  C31. Internal keys in tables. A table over internal keys of up to 64 MiB, as the database makes them, opened with the LRU cache, is walked forward,
  from any internal key and backward over exactly the pairs that were put in: user keys ascending, versions of a key from the
  newest to the oldest; and looking an internal key up gives its value.
\<close>

theorem db_table_gives_back:
  assumes "stream_ok os fd stored" "stored o1 = []" "kvs_sorted (internal_compare Slice_compare) (internal_valid (\<lambda>_. True)) kvs"
    "pairs_size kvs < 2 ^ 26" "build_table (db_options bsize bloom) (posix_writable_file os name fd) kvs o1 = Some (OK, tb)"
    "file_holds fread (stored (tb_file tb))" "0 < capacity" "unat capacity \<le> 2 ^ 34" "\<forall>u \<in> set us. use_valid (internal_valid (\<lambda>_. True)) u"
  shows "\<exists>c t c1 c2. ShardedLRUCache capacity empty_heap = Some c \<and>
    Table_Open (Some lru_block_cache) (db_options bsize bloom) fread (FileSize tb) c = Some (OK, Some t, c1) \<and>
    use_table (Some lru_block_cache) t ropt us c1 = Some (map (answer (internal_compare Slice_compare) kvs) us, c2)"
  by (rule table_building.table_used [OF db_tables [OF assms(1)] assms(3,4) _ assms(2) _ _ assms(5-9)];
      (erule policy_name_small(2) | simp))

theorem db_table_gives_back_witness:
  "\<exists>tb c t c1 c2. build_table (db_options 1 True) (posix_writable_file memory_posix [] 0) db_pairs [] = Some (OK, tb) \<and>
    ShardedLRUCache 1 empty_heap = Some c \<and>
    Table_Open (Some lru_block_cache) (db_options 1 True) (memory_file (tb_file tb)) (FileSize tb) c = Some (OK, Some t, c1) \<and>
    use_table (Some lru_block_cache) t ReadOptions [Walk Backward, Walk Forward] c1 =
      Some ([Pairs (rev db_pairs), Pairs db_pairs], c2)"
proof -
  obtain tb where tb: "build_table (db_options 1 True) (posix_writable_file memory_posix [] 0) db_pairs [] = Some (OK, tb)"
    "file_holds (memory_file (tb_file tb)) (tb_file tb)"
    using memory_built [OF db_tables [OF memory_stream] db_pairs_ok(1,2)] policy_name_small(2) by fastforce
  show ?thesis
    using db_table_gives_back [OF memory_stream refl db_pairs_ok(1,2) tb, of 1 "[Walk Backward, Walk Forward]" ReadOptions] tb(1)
    by (simp add: use_valid_def answer_def walked_def)
qed

subsection \<open>Stored blocks\<close>

text \<open>
  C33. A damaged block is reported. A file holds a block that was stored with its type and checksum, in which at most four
  consecutive bytes of the contents and the type were changed. Reading it with verification answers with a corruption.
\<close>

theorem damaged_block_reported:
  assumes "file_holds fread (before_b @ x @ b' @ y @ drop (length c + 1) (stored_block ty c) @ after_b)" "c @ [ty] = x @ b @ y"
    "length b' = length b" "b' \<noteq> b" "length b \<le> 4" "length before_b + length c + 5 + length after_b < 2 ^ 64"
  shows "\<exists>r. ReadBlock fread sn True \<lparr>bh_offset = of_nat (length before_b), bh_size = of_nat (length c)\<rparr> =
    Some (Corruption (chars ''block checksum mismatch'') [], r)"
proof -
  let ?crc = "EncodeFixed32 (crc32c_Mask (crc32c 0 (x @ b @ y)))"
  let ?h = "\<lparr>bh_offset = of_nat (length before_b), bh_size = of_nat (length c)\<rparr>"
  have lc: "length c + 5 < 2 ^ 64" using assms(6) by simp
  have len: "length (x @ b @ y) = Suc (length c)" using arg_cong [OF assms(2), of length] by simp
  have d: "drop (length c + 1) (stored_block ty c) = ?crc"
  proof -
    have "stored_block ty c = (x @ b @ y) @ ?crc" unfolding stored_block_def append_assoc [symmetric] assms(2) by simp
    then show ?thesis using len by simp
  qed
  have nn: "unat (bh_size ?h + kBlockTrailerSize) = length c + 5" "unat (bh_offset ?h) = length before_b"
    using trailer_arith [OF lc] assms(6) unat_of_nat_id [of "length before_b", where ?'a = 64] by (simp_all add: kBlockTrailerSize_def)
  let ?a = "fread (bh_offset ?h) (bh_size ?h + kBlockTrailerSize)"
  define body where "body = x @ b' @ y @ ?crc"
  have lb: "length body = length c + 5" using len assms(3) by (simp add: body_def)
  have "file_holds fread (before_b @ body @ after_b)" using assms(1) unfolding d by (simp add: body_def)
  then have r: "ra_status ?a = OK \<and> ra_contents ?a = take (unat (bh_size ?h + kBlockTrailerSize)) (drop (unat (bh_offset ?h)) (before_b @ body @ after_b)) \<and>
      answer_placed ?a"
    unfolding file_holds_def by (elim allE [where x = "bh_offset ?h"] allE [where x = "bh_size ?h + kBlockTrailerSize"] mp) (use nn lb in simp)
  have "take (length c + 5) (drop (length before_b) (before_b @ body @ after_b)) = body" using lb by simp
  then have a: "ra_status ?a = OK" "ra_contents ?a = x @ b' @ y @ ?crc" "answer_placed ?a"
    using r unfolding nn body_def by simp_all
  show ?thesis by (rule ReadBlock_damage [where h = ?h and c = c and pre = x and b = b and b' = b' and post = y])
      (use a len lc assms(3-5) in simp_all)
qed

theorem damaged_block_reported_witness:
  "\<exists>r. ReadBlock (memory_file ([9, 9] @ [1] @ [20] @ [3] @ drop 3 (stored_block 3 [1, 2]) @ [8])) port_snappy True \<lparr>bh_offset = 2, bh_size = 2\<rparr> =
    Some (Corruption (chars ''block checksum mismatch'') [], r)"
proof -
  have "file_holds (memory_file ([9, 9] @ [1] @ [20] @ [3] @ drop (length [1, 2 :: byte] + 1) (stored_block 3 [1, 2]) @ [8]))
    ([9, 9] @ [1] @ [20] @ [3] @ drop (length [1, 2 :: byte] + 1) (stored_block 3 [1, 2]) @ [8])"
    by (rule memory_file_holds) simp
  from damaged_block_reported [OF this, of "[2]" port_snappy] show ?thesis by (simp add: numeral_3_eq_3)
qed

text \<open>
  C34. A block size near the end of the 64-bit range defeats the bound check. The number of bytes to read is the block's size plus
  five, modulo \<open>2 ^ 64\<close>. A handle, which comes from the file, whose size is one of the five largest numbers makes it 0 to 4; a file that answers
  such a read with as many bytes passes the length check, and the type of the block is then read far outside of them.
\<close>

theorem block_size_wraps:
  assumes "2 ^ 64 - 5 \<le> unat (bh_size h)" "file_holds fread bytes" "unat (bh_offset h) + 4 \<le> length bytes"
  shows "ReadBlock fread sn False h = None"
proof -
  have n: "unat (bh_size h + 5) + 2 ^ 64 = unat (bh_size h) + 5"
    using assms(1) unsigned_less [of "bh_size h", where ?'a = nat] by (simp add: unat_plus_if')
  then have "unat (bh_size h + 5) < 5" using unsigned_less [of "bh_size h", where ?'a = nat] by simp
  then have "unat (bh_offset h) + unat (bh_size h + 5) \<le> length bytes" using assms(3) by simp
  then have "ra_status (fread (bh_offset h) (bh_size h + 5)) = OK"
    "ra_contents (fread (bh_offset h) (bh_size h + 5)) = take (unat (bh_size h + 5)) (drop (unat (bh_offset h)) bytes)"
    using assms(2) unfolding file_holds_def by blast+
  then show ?thesis
    using ReadBlock_wraps [OF assms(1), of fread sn] \<open>unat (bh_offset h) + unat (bh_size h + 5) \<le> length bytes\<close> by simp
qed

theorem block_size_wraps_witness:
  "ReadBlock (memory_file [1, 2, 3, 4]) port_snappy False \<lparr>bh_offset = 0, bh_size = 2 ^ 64 - 3\<rparr> = None"
  by (rule block_size_wraps [OF _ memory_file_holds [of "[1, 2, 3, 4]"]]) (simp_all)

text \<open>
  C35. A read through a memory map is undefined exactly where the sum of its check wraps around to a number that passes it: then the
  slice it answers with reaches outside of the mapped file.
\<close>

theorem mmap_read_undefined_exact:
  assumes "length (mm_bytes f) < 2 ^ 63"
  shows "Mmap_Read os f offset n = None \<longleftrightarrow>
    2 ^ 64 \<le> unat offset + unat n \<and> unat offset + unat n - 2 ^ 64 \<le> length (mm_bytes f)"
  by (rule mmap_read_undefined [OF assms])

theorem mmap_read_undefined_exact_witness:
  "Mmap_Read memory_posix \<lparr>mm_filename = [], mm_base = 0x1000, mm_bytes = [1, 2, 3]\<rparr> (2 ^ 64 - 4) 5 = None \<and>
    Mmap_Read memory_posix \<lparr>mm_filename = [], mm_base = 0x1000, mm_bytes = [1, 2, 3]\<rparr> 1 2 \<noteq> None"
  using mmap_read_undefined_exact [of "\<lparr>mm_filename = [], mm_base = 0x1000, mm_bytes = [1, 2, 3]\<rparr>" memory_posix] by simp

subsection \<open>Names of files\<close>

text \<open>
  C36. The names of numbered files are parsed back. For every directory and every number but 0, which the code refuses, the last part of the
  name of a log, a table (both suffixes), a manifest and a temporary file parses as its number and kind.
\<close>

theorem file_names_roundtrip:
  assumes "number \<noteq> 0" "parse = (\<lambda>f. ParseFileName (drop (length dbname + 1) f))"
  shows "map_option parse (LogFileName dbname number) = Some (Some (number, kLogFile)) \<and>
    map_option parse (TableFileName dbname number) = Some (Some (number, kTableFile)) \<and>
    map_option parse (SSTTableFileName dbname number) = Some (Some (number, kTableFile)) \<and>
    map_option parse (DescriptorFileName dbname number) = Some (Some (number, kDescriptorFile)) \<and>
    map_option parse (TempFileName dbname number) = Some (Some (number, kTempFile))"
proof -
  have "map_option parse (DescriptorFileName dbname number) = Some (Some (number, kDescriptorFile))"
    using DescriptorFileName_parse [of dbname number] assms(1) by (simp add: assms(2) DescriptorFileName_def)
  then show ?thesis
    using assms(1) MakeFileName_parse [of _ _ dbname number]
    by (simp add: assms(2) LogFileName_def TableFileName_def SSTTableFileName_def TempFileName_def)
qed

theorem file_names_roundtrip_witness:
  "TableFileName (chars ''db'') 7 = Some (chars ''db/000007.ldb'') \<and> ParseFileName (chars ''000007.ldb'') = Some (7, kTableFile)"
proof -
  have d: "decimal 7 = [55]" by (subst decimal.simps) simp
  have "padded 6 (decimal 7) = [48, 48, 48, 48, 48, 55]" unfolding padded_def d by (simp add: numeral_eq_Suc)
  then have n: "TableFileName (chars ''db'') 7 = Some (chars ''db/000007.ldb'')"
    by (simp add: TableFileName_def MakeFileName_def chars_def)
  show ?thesis using file_names_roundtrip [of 7, OF _ refl, of "chars ''db''"] unfolding n by (simp add: chars_def)
qed

end
