(* ===== verification/Spec2Isabelle.thy ===== *)
theory Spec2Isabelle
  imports Pb_Correct B64_Correct Lv_Correct Lv_Store_Correct Lv_Cache_Correct Lv_Table_Correct
begin

text \<open>
  This library models and verifies the C and C++ code that the Journey application carries in its
  repository and that decides what its data looks like on the wire and on disk:

    \<^item> \<^verbatim>\<open>src/Journey/Pods/nanopb\<close> (0.3.8): protocol buffers, with which the Firebase pods encode and decode
      messages;
    \<^item> \<^verbatim>\<open>src/Journey/Pods/leveldb-library\<close>: the storage library behind the database client's offline cache;
    \<^item> \<^verbatim>\<open>fbase64.c\<close> of the database client's WebSocket library, which builds the handshake's key.

  The three do not call each other; each group of theories rests on Prelude only.

  \<^bold>\<open>Conventions.\<close> A machine integer is a word of its width (LP64, little endian). A C function that can
  fail returns an \<open>outcome\<close>: \<open>Ok\<close> a value and the new state, \<open>Fail\<close> the new state for \<^verbatim>\<open>false\<close> or an error
  status, \<open>Fault\<close> for undefined behaviour, a failed assertion or an access outside an object, \<open>Loop\<close>
  when the fuel is used up. Functions without state return an option, \<open>None\<close> being \<^verbatim>\<open>NULL\<close>, \<^verbatim>\<open>false\<close> or
  undefined, as their text says. Strings and slices are lists of bytes.

  \<^bold>\<open>nanopb\<close>, built with \<^verbatim>\<open>PB_FIELD_32BIT\<close> and without packed structs, as its podspec has it.
    \<^item> Pb_Types: the field types, \<^verbatim>\<open>pb_field_t\<close> and the \<^verbatim>\<open>PB_FIELD\<close> macros of \<^verbatim>\<open>pb.h\<close> as functions from the
      members of a struct to descriptors; Pb_Common: the field iterator of \<^verbatim>\<open>pb_common.c\<close>; Pb_Layout: the
      iterator visits the addresses that the macros encode.
    \<^item> Pb_Istream, Pb_Ostream: the streams and scalar codecs of \<^verbatim>\<open>pb_decode.c\<close> and \<^verbatim>\<open>pb_encode.c\<close>; a stream
      is a record with the fields of the C struct, its callback either the buffer's or a parameter.
      Pb_Reader, Pb_Writer and Pb_Wire state their contracts and the scalar round trips.
    \<^item> Pb_Memory: the byte-addressed memory structs live in, with valid regions and an allocator that is
      a parameter; Pb_Env: user callbacks, extension and descriptor tables, parameters too.
    \<^item> Pb_Encode, Pb_Defaults, Pb_Decode: every function of the encoder and the decoder that touches a
      struct. Submessages recurse through a parameter \<open>rec\<close>; the top-level functions take fuel that bounds
      the nesting depth of message types and, per message, the number of fields, which the remaining
      bytes bound because every round consumes one.
    \<^item> Pb_Sizing (the size is what is written), Pb_Safety (the decoder stays in the struct, and with the
      fuel of Pb_Correct it returns), Pb_Fields, Pb_Roundtrip, Pb_Message (plain messages decode to what
      was encoded), Pb_Samples (concrete message types), Pb_Correct (the properties).

  \<^bold>\<open>leveldb\<close>, as the pod builds it.
    \<^item> Lv_Coding: \<^verbatim>\<open>util/coding\<close>; the contract of an encoder and its decoder is the locale \<open>slice_codec\<close>.
    \<^item> Lv_Crc: \<^verbatim>\<open>util/crc32c\<close> with its tables, and the bit-serial checksum it computes.
    \<^item> Lv_Bloom, Lv_Filter: \<^verbatim>\<open>util/hash\<close>, \<^verbatim>\<open>util/bloom\<close> and \<^verbatim>\<open>table/filter_block\<close>; the contract of a filter
      policy is the locale \<open>filter_policy\<close>.
    \<^item> Lv_Log: \<^verbatim>\<open>db/log_format.h\<close>, \<^verbatim>\<open>db/log_writer\<close> and \<^verbatim>\<open>db/log_reader\<close>, over files that are records of their
      contents and of the answers their calls give; Lv_Log_Correct: the format of a log as a function of
      its records, and both ends' simulation of it.
    \<^item> Lv_Status: \<^verbatim>\<open>util/status\<close>.
    \<^item> Lv_Key: slices, the byte-wise comparator and \<^verbatim>\<open>db/dbformat\<close>; the contract of a comparator is the locale
      \<open>comparator\<close>, with the byte-wise order and the order of internal keys as interpretations.
    \<^item> Lv_Block: \<^verbatim>\<open>table/block_builder\<close> and \<^verbatim>\<open>table/block\<close>; Lv_Block_Correct: the layout of a block and the
      simulation of a cursor on the list of its pairs by its iterator; and what the iterator does on a block of any
      content. The binary search has one round of fuel for each restart point, and does not use it up.
    \<^item> Lv_Skiplist: \<^verbatim>\<open>util/random.h\<close> and \<^verbatim>\<open>db/skiplist.h\<close>; Lv_Skiplist_Correct: where every link points, after
      every store of an insertion, over the locale \<open>key_order\<close> of what a list asks of its comparison.
    \<^item> Lv_Memtable: \<^verbatim>\<open>db/memtable\<close> over that list, and the meaning of \<^verbatim>\<open>Get\<close>; Lv_Batch: \<^verbatim>\<open>db/write_batch\<close> and
      what a batch does to a memtable.
    \<^item> Lv_Format, Lv_Iter, Lv_Table_Builder: \<^verbatim>\<open>table/format\<close>, \<^verbatim>\<open>table/iterator\<close> with its wrapper, and
      \<^verbatim>\<open>table/table_builder\<close>, which writes a table through a file whose answers are data; Lv_Table_Layout and
      Lv_Table_Build: the bytes of a table as a function of its blocks, and the builder's simulation of it.
    \<^item> Lv_Env: the files of \<^verbatim>\<open>util/env_posix.cc\<close> that a table is read through, the calls of the system being
      data of a file; Lv_Filename: \<^verbatim>\<open>db/filename\<close>.
    \<^item> Lv_Cache: \<^verbatim>\<open>util/cache\<close>, entries in a store of addresses with both circular lists and the hash chains;
      Lv_Cache_Lists, Lv_Cache_Table, Lv_Cache_Refs, Lv_Cache_Shard and Lv_Cache_Shared: the invariant of a shard
      (lists, chains, reference counts, charges) and that every operation keeps it.
    \<^item> Lv_Two_Level, Lv_Table: \<^verbatim>\<open>table/two_level_iterator\<close> and \<^verbatim>\<open>table/table\<close>, over a block cache that is an
      interface; Lv_Table_Read, Lv_Table_Get: what a reader finds in a table that the builder's layout
      describes, with any cache that keeps the laws of the locale \<open>cache_contract\<close>; Lv_Cache_Blocks: the LRU cache
      keeps them. The loops over blocks have fuel for one round per block and do not use it up.
    \<^item> Lv_Options: \<^verbatim>\<open>util/options\<close>, what \<^verbatim>\<open>db_impl\<close> makes of a user's options, and the policies the database runs
      its tables with; Lv_Table_Client: the reader on what the builder wrote, and what the builder makes of a file that fails.
    \<^item> Lv_Correct (coding, checksum, filters, log), Lv_Store_Correct (keys, blocks, memtables, batches),
      Lv_Cache_Correct (the cache) and Lv_Table_Correct (tables and the names of files): the properties.

  \<^bold>\<open>base64.\<close> FBase64: \<^verbatim>\<open>f_b64_ntop\<close> and \<^verbatim>\<open>f_b64_pton\<close> on buffers as lists; B64_Spec: the text of RFC 1521, stated
  over the bits of the octets; B64_Correct: the properties.

  \<^bold>\<open>Not modelled.\<close> The application (Swift view controllers and calls of Firebase), the Objective-C pods
  (asynchronous networking and user-interface glue) and headers of binary frameworks; leveldb's engine
  (\<^verbatim>\<open>db_impl\<close>, \<^verbatim>\<open>version_set\<close>: threads, compaction scheduling, file system calls), the parts of its environment
  that tables are not read through, and its C wrappers. Snappy and the system's memory mapping are parameters.
\<close>

end
